(* ===== verification/Prelude.thy ===== *)
theory Prelude
  imports Main "HOL-Library.Multiset"
begin

text \<open>
  Shared vocabulary of the development.  A C++ function that reads and writes an object is a
  state transformer of type \<open>('s, 'a) prog\<close>: it takes the object's state and gives back a
  result, or the reason why it did not return one, together with the state it leaves behind.
  The state survives an exception, because C++ does not roll anything back.  Also here: the
  generic facts on lists and maps that the component theories use.
\<close>

named_theorems prog_simps \<open>evaluation of state transformers\<close>
named_theorems dir_simps \<open>directory contents after a disk update\<close>

subsection \<open>Ways a C++ function ends without a value\<close>

text \<open>
  \<open>Runtime_error msg\<close> is \<^verbatim>\<open>throw std::runtime_error(msg)\<close> (also the other standard
  exceptions, which every caller catches with \<^verbatim>\<open>catch (...)\<close>); \<open>Assertion_failed\<close> is
  a failed \<^verbatim>\<open>assert\<close>; \<open>Undefined_behaviour\<close> is an access outside an array or a
  C string without terminator; \<open>Blocked\<close> is a lock call that cannot return in this run.
\<close>

datatype stop =
    Runtime_error string
  | Assertion_failed
  | Undefined_behaviour
  | Blocked

type_synonym ('s, 'a) prog = "'s \<Rightarrow> (stop + 'a) \<times> 's"

definition ret :: "'a \<Rightarrow> ('s, 'a) prog" where
  "ret x s = (Inr x, s)"

definition halt :: "stop \<Rightarrow> ('s, 'a) prog" where
  "halt e s = (Inl e, s)"

definition bindp :: "('s, 'a) prog \<Rightarrow> ('a \<Rightarrow> ('s, 'b) prog) \<Rightarrow> ('s, 'b) prog" where
  "bindp m f s = (case m s of (Inl e, s') \<Rightarrow> (Inl e, s') | (Inr x, s') \<Rightarrow> f x s')"

definition seqp :: "('s, 'a) prog \<Rightarrow> ('s, 'b) prog \<Rightarrow> ('s, 'b) prog" where
  "seqp m k = bindp m (\<lambda>_. k)"

definition gets :: "('s \<Rightarrow> 'a) \<Rightarrow> ('s, 'a) prog" where
  "gets f s = (Inr (f s), s)"

definition modify :: "('s \<Rightarrow> 's) \<Rightarrow> ('s, unit) prog" where
  "modify f s = (Inr (), f s)"

definition lift :: "stop + 'a \<Rightarrow> ('s, 'a) prog" where
  "lift r s = (r, s)"

definition assertp :: "bool \<Rightarrow> ('s, unit) prog" where
  "assertp P = (if P then ret () else halt Assertion_failed)"

text \<open>An array access with a run-time index; outside the array it is undefined behaviour.\<close>

definition arr_get :: "'a list \<Rightarrow> nat \<Rightarrow> stop + 'a" where
  "arr_get xs i = (if i < length xs then Inr (xs ! i) else Inl Undefined_behaviour)"

definition arr_set :: "'a list \<Rightarrow> nat \<Rightarrow> 'a \<Rightarrow> stop + 'a list" where
  "arr_set xs i v = (if i < length xs then Inr (xs[i := v]) else Inl Undefined_behaviour)"

text \<open>Sequencing of fallible pure computations.\<close>

definition bindr :: "stop + 'a \<Rightarrow> ('a \<Rightarrow> stop + 'b) \<Rightarrow> stop + 'b" where
  "bindr r f = (case r of Inl e \<Rightarrow> Inl e | Inr x \<Rightarrow> f x)"

lemma bindr_simps [simp]:
  "bindr (Inl e) f = Inl e"
  "bindr (Inr x) f = f x"
  by (simp_all add: bindr_def)

lemma bindr_eq_Inr: "bindr r f = Inr y \<longleftrightarrow> (\<exists>x. r = Inr x \<and> f x = Inr y)"
  by (cases r) auto

lemmas prog_defs = bindp_def seqp_def ret_def halt_def gets_def modify_def lift_def assertp_def

lemma ret_app [prog_simps]: "ret x s = (Inr x, s)"
  by (simp add: ret_def)

lemma halt_app [prog_simps]: "halt e s = (Inl e, s)"
  by (simp add: halt_def)

lemma gets_app [prog_simps]: "gets f s = (Inr (f s), s)"
  by (simp add: gets_def)

lemma modify_app [prog_simps]: "modify f s = (Inr (), f s)"
  by (simp add: modify_def)

lemma lift_app [prog_simps]: "lift r s = (r, s)"
  by (simp add: lift_def)

lemma assertp_app [prog_simps]:
  "assertp P s = (if P then (Inr (), s) else (Inl Assertion_failed, s))"
  by (simp add: assertp_def ret_def halt_def)

lemma bindp_Inr: "m s = (Inr x, s') \<Longrightarrow> bindp m f s = f x s'"
  by (simp add: bindp_def)

lemma bindp_Inl: "m s = (Inl e, s') \<Longrightarrow> bindp m f s = (Inl e, s')"
  by (simp add: bindp_def)

lemma bindp_pure [prog_simps]:
  "bindp (ret x) f s = f x s"
  "bindp (halt e) f s = (Inl e, s)"
  "bindp (gets g) f s = f (g s) s"
  "bindp (modify h) f' s = f' () (h s)"
  "bindp (lift (Inr x)) f s = f x s"
  "bindp (lift (Inl e)) f s = (Inl e, s)"
  by (simp_all add: bindp_def ret_def halt_def gets_def modify_def lift_def)

lemma bindp_assert [prog_simps]:
  "bindp (assertp P) f s = (if P then f () s else (Inl Assertion_failed, s))"
  by (simp add: bindp_def assertp_app)

lemma seqp_app [prog_simps]: "seqp m k s = bindp m (\<lambda>_. k) s"
  by (simp add: seqp_def)

lemma bindp_assoc [prog_simps]: "bindp (bindp m f) g s = bindp m (\<lambda>x. bindp (f x) g) s"
  by (simp add: bindp_def split: prod.splits sum.splits)

lemma bindp_seqp [prog_simps]: "bindp (seqp m k) f s = bindp m (\<lambda>_. bindp k f) s"
  by (simp add: seqp_def bindp_assoc)

lemma bindp_ret_right [prog_simps]: "bindp m ret s = m s"
  by (simp add: bindp_def ret_def split: prod.splits sum.splits)

lemma bindp_if [prog_simps]:
  "bindp (if P then a else b) f s = (if P then bindp a f s else bindp b f s)"
  by simp

lemma arr_get_in [simp]: "i < length xs \<Longrightarrow> arr_get xs i = Inr (xs ! i)"
  by (simp add: arr_get_def)

lemma arr_set_in [simp]: "i < length xs \<Longrightarrow> arr_set xs i v = Inr (xs[i := v])"
  by (simp add: arr_set_def)

subsection \<open>Lists\<close>

text \<open>A list made of chunks of one size: the chunk at an index, and its length.\<close>

lemma concat_chunk:
  assumes "\<And>x. x \<in> set xs \<Longrightarrow> length (f x) = c" and "k < length xs"
  shows "take c (drop (c * k) (concat (map f xs))) = f (xs ! k)"
  using assms
proof (induction xs arbitrary: k)
  case (Cons x xs)
  have "length (f x) = c" using Cons.prems by simp
  then show ?case using Cons by (cases k) auto
qed simp

lemma length_concat_chunks:
  assumes "\<And>x. x \<in> set xs \<Longrightarrow> length (f x) = c"
  shows "length (concat (map f xs)) = c * length xs"
  using assms by (induction xs) auto

lemma map_nth_upt: "map (\<lambda>k. xs ! k) [0..<length xs] = xs"
  by (rule map_nth)

lemma distinct_map_mset: "mset xs = mset ys \<Longrightarrow> distinct (map f xs) = distinct (map f ys)"
  by (metis distinct_count_atmost_1 mset_map set_mset_mset)

subsection \<open>Association lists up to order\<close>

lemma distinct_map_add:
  assumes "mset xs = add_mset a (mset ys)"
  shows "distinct (map f xs) \<longleftrightarrow> distinct (map f ys) \<and> f a \<notin> f ` set ys"
  using distinct_map_mset [of xs "a # ys" f] assms by auto

lemma set_mset_add: "mset xs = add_mset a (mset ys) \<Longrightarrow> set xs = insert a (set ys)"
  by (metis set_mset_add_mset_insert set_mset_mset)

lemma map_of_mset_add:
  assumes "mset xs = add_mset (x, c) (mset ys)" and "distinct (map fst xs)"
  shows "map_of xs = (map_of ys)(x \<mapsto> c)" and "map_of ys x = None"
proof -
  have d: "distinct (map fst ((x, c) # ys))" using distinct_map_add [OF assms(1), of fst] assms(2) by auto
  have "map_of xs = map_of ((x, c) # ys)"
    using map_of_inject_set [OF assms(2) d] set_mset_add [OF assms(1)] by simp
  then show "map_of xs = (map_of ys)(x \<mapsto> c)" by simp
  show "map_of ys x = None" using d by (auto simp: map_of_eq_None_iff)
qed

text \<open>One element more at one place of a list of lists.\<close>

lemma mset_concat_add_at:
  assumes "distinct bs" and "b \<in> set bs" and "\<And>a. a \<in> set bs \<Longrightarrow> a \<noteq> b \<Longrightarrow> f' a = f a"
    and "mset (f' b) = add_mset e (mset (f b))"
  shows "mset (concat (map f' bs)) = add_mset e (mset (concat (map f bs)))"
  using assms
proof (induction bs)
  case (Cons a bs)
  show ?case
  proof (cases "a = b")
    case True
    then have "map f' bs = map f bs" using Cons.prems by auto
    then have "concat (map f' bs) = concat (map f bs)" by (rule arg_cong)
    then show ?thesis using True Cons.prems(4) by simp
  next
    case False
    then show ?thesis using Cons by simp
  qed
qed simp

text \<open>Taking the element at an index out of a list.\<close>

lemma remove_nth_props:
  assumes "i < length bs"
  shows "mset bs = add_mset (bs ! i) (mset (take i bs @ drop (Suc i) bs))"
    and "set (take i bs @ drop (Suc i) bs) \<subseteq> set bs"
    and "mset (concat (map f bs)) = mset (f (bs ! i)) + mset (concat (map f (take i bs @ drop (Suc i) bs)))"
proof -
  have "bs = take i bs @ bs ! i # drop (Suc i) bs" using assms by (rule id_take_nth_drop)
  then have split: "mset bs = mset (take i bs @ bs ! i # drop (Suc i) bs)"
    "concat (map f bs) = concat (map f (take i bs @ bs ! i # drop (Suc i) bs))" by simp_all
  show "mset bs = add_mset (bs ! i) (mset (take i bs @ drop (Suc i) bs))"
    using split(1) by simp
  show "set (take i bs @ drop (Suc i) bs) \<subseteq> set bs"
    by (auto dest: in_set_takeD in_set_dropD)
  show "mset (concat (map f bs)) = mset (f (bs ! i)) + mset (concat (map f (take i bs @ drop (Suc i) bs)))"
    unfolding split(2) by simp
qed

end
