(* ===== verification/Cpp_Lib.thy ===== *)
theory Cpp_Lib
  imports Prelude
begin

text \<open>
  The parts of the C and C++ standard libraries that the repository calls: C strings in fixed
  character arrays, \<^verbatim>\<open>std::getline\<close> with a delimiter, formatted extraction from an
  \<^verbatim>\<open>std::istringstream\<close>, and \<^verbatim>\<open>std::stoul\<close>.  A \<^verbatim>\<open>std::string\<close> is an
  Isabelle \<open>string\<close>; its \<^verbatim>\<open>c_str()\<close> is the string with a terminating NUL.
\<close>

abbreviation NUL :: char where
  "NUL \<equiv> CHR 0x00"

abbreviation slash :: char where
  "slash \<equiv> CHR ''/''"

subsection \<open>C strings\<close>

definition cstr :: "char list \<Rightarrow> string" where
  "cstr buf = takeWhile (\<lambda>c. c \<noteq> NUL) buf"

definition read_cstr :: "char list \<Rightarrow> stop + string" where
  "read_cstr buf = (if NUL \<in> set buf then Inr (cstr buf) else Inl Undefined_behaviour)"

definition c_str :: "string \<Rightarrow> char list" where
  "c_str s = s @ [NUL]"

text \<open>\<open>strcmp_eq a b\<close> is \<^verbatim>\<open>strcmp(a, b) == 0\<close>; it stops at the first difference.\<close>

fun strcmp_eq :: "char list \<Rightarrow> char list \<Rightarrow> stop + bool" where
  "strcmp_eq (x # xs) (y # ys) =
     (if x \<noteq> y then Inr False else if x = NUL then Inr True else strcmp_eq xs ys)"
| "strcmp_eq _ _ = Inl Undefined_behaviour"

definition strcpy :: "char list \<Rightarrow> char list \<Rightarrow> stop + char list" where
  "strcpy dst src =
     bindr (read_cstr src) (\<lambda>s.
       if length s < length dst then Inr (s @ NUL # drop (Suc (length s)) dst)
       else Inl Undefined_behaviour)"

lemma cstr_c_str [simp]: "NUL \<notin> set s \<Longrightarrow> cstr (c_str s) = s"
  unfolding cstr_def c_str_def by (subst takeWhile_append2) auto

lemma NUL_in_c_str [simp]: "NUL \<in> set (c_str s)"
  by (simp add: c_str_def)

lemma NUL_notin_cstr [simp]: "NUL \<notin> set (cstr buf)"
  unfolding cstr_def by (auto dest: set_takeWhileD)

lemma read_cstr_terminated [simp]: "NUL \<in> set buf \<Longrightarrow> read_cstr buf = Inr (cstr buf)"
  by (simp add: read_cstr_def)

lemma strcmp_eq_terminated [simp]:
  "NUL \<in> set a \<Longrightarrow> NUL \<in> set b \<Longrightarrow> strcmp_eq a b = Inr (cstr a = cstr b)"
  by (induction a b rule: strcmp_eq.induct) (auto simp: cstr_def)

lemma cstr_append_NUL: "NUL \<notin> set s \<Longrightarrow> cstr (s @ NUL # r) = s"
  unfolding cstr_def by (subst takeWhile_append2) auto

lemma strcpy_fits:
  assumes "NUL \<notin> set s" and "length s < length dst"
  shows "strcpy dst (c_str s) = Inr (s @ NUL # drop (Suc (length s)) dst)"
  using assms by (simp add: strcpy_def)

lemma strcpy_length:
  "strcpy dst src = Inr out \<Longrightarrow> length out = length dst"
  by (auto simp: strcpy_def bindr_eq_Inr split: if_splits)

subsection \<open>Splitting a stream at a delimiter\<close>

text \<open>The strings that \<^verbatim>\<open>while (std::getline(stream, x, d))\<close> yields, in order.\<close>

function getline_split :: "char \<Rightarrow> string \<Rightarrow> string list" where
  "getline_split d s =
     (if s = [] then []
      else takeWhile (\<lambda>c. c \<noteq> d) s # getline_split d (drop 1 (dropWhile (\<lambda>c. c \<noteq> d) s)))"
  by pat_completeness auto
termination
proof (relation "measure (\<lambda>(d, s). length s)")
  fix d :: char and s :: string
  assume "s \<noteq> []"
  moreover have "length (dropWhile (\<lambda>c. c \<noteq> d) s) \<le> length s" by (rule length_dropWhile_le)
  ultimately show "((d, drop 1 (dropWhile (\<lambda>c. c \<noteq> d) s)), d, s) \<in> measure (\<lambda>(d, s). length s)"
    by (cases s) auto
qed simp

declare getline_split.simps [simp del]

lemma getline_split_Nil [simp]: "getline_split d [] = []"
  by (simp add: getline_split.simps)

lemma getline_split_single [simp]:
  assumes "d \<notin> set x" and "x \<noteq> []"
  shows "getline_split d x = [x]"
proof -
  have "\<forall>c \<in> set x. c \<noteq> d" using assms(1) by auto
  then have "takeWhile (\<lambda>c. c \<noteq> d) x = x" and "dropWhile (\<lambda>c. c \<noteq> d) x = []" by simp_all
  then show ?thesis using assms(2) by (simp only: getline_split.simps [of d x]) simp
qed

lemma getline_split_cons [simp]:
  assumes "d \<notin> set x"
  shows "getline_split d (x @ d # r) = x # getline_split d r"
proof -
  have "\<And>c. c \<in> set x \<Longrightarrow> c \<noteq> d" using assms by auto
  then have "takeWhile (\<lambda>c. c \<noteq> d) (x @ d # r) = x" and "dropWhile (\<lambda>c. c \<noteq> d) (x @ d # r) = d # r"
    by simp_all
  then show ?thesis by (simp add: getline_split.simps [of d "x @ d # r"])
qed

lemma getline_split_no_delim: "x \<in> set (getline_split d s) \<Longrightarrow> d \<notin> set x"
proof (induction d s rule: getline_split.induct)
  case (1 d s)
  show ?case
  proof (cases "s = []")
    case False
    with 1 show ?thesis
      by (auto simp: getline_split.simps [of d s] dest: set_takeWhileD)
  qed (use 1 in simp)
qed

subsection \<open>Formatted extraction\<close>

definition isspace :: "char \<Rightarrow> bool" where
  "isspace c \<longleftrightarrow> c \<in> set [CHR '' '', CHR 0x09, CHR 0x0A, CHR 0x0B, CHR 0x0C, CHR 0x0D]"

text \<open>
  \<open>next_token\<close> is \<^verbatim>\<open>iss >> str\<close> on an empty \<^verbatim>\<open>str\<close>: at the end of the input the
  extraction fails and leaves \<^verbatim>\<open>str\<close> empty, which is the empty token here.
  \<open>next_char\<close> is \<^verbatim>\<open>iss >> c\<close>: \<open>None\<close> when the extraction fails and leaves \<^verbatim>\<open>c\<close> alone.
\<close>

definition next_token :: "string \<Rightarrow> string \<times> string" where
  "next_token s =
     (let t = dropWhile isspace s
      in (takeWhile (\<lambda>c. \<not> isspace c) t, dropWhile (\<lambda>c. \<not> isspace c) t))"

definition next_char :: "string \<Rightarrow> (char \<times> string) option" where
  "next_char s = (case dropWhile isspace s of [] \<Rightarrow> None | c # r \<Rightarrow> Some (c, r))"

definition word_ok :: "string \<Rightarrow> bool" where
  "word_ok w \<longleftrightarrow> w \<noteq> [] \<and> (\<forall>c \<in> set w. \<not> isspace c)"

lemma dropWhile_word: "word_ok w \<Longrightarrow> dropWhile isspace (w @ r) = w @ r"
  by (cases w) (auto simp: word_ok_def)

lemma next_token_word [simp]:
  assumes "word_ok w"
  shows "next_token (w @ CHR '' '' # r) = (w, CHR '' '' # r)" and "next_token w = (w, [])"
proof -
  have a: "\<And>c. c \<in> set w \<Longrightarrow> \<not> isspace c" using assms by (simp add: word_ok_def)
  have sp: "isspace (CHR '' '')" by (simp add: isspace_def)
  show "next_token (w @ CHR '' '' # r) = (w, CHR '' '' # r)"
    using dropWhile_word [OF assms, of "CHR '' '' # r"] a sp
    by (simp add: next_token_def)
  show "next_token w = (w, [])"
    using dropWhile_word [OF assms, of "[]"] a
    by (simp add: next_token_def)
qed

lemma next_token_skip_space [simp]: "next_token (CHR '' '' # s) = next_token s"
  by (simp add: next_token_def isspace_def)

lemma next_token_Nil [simp]: "next_token [] = ([], [])"
  by (simp add: next_token_def)

lemma next_token_word_ok:
  assumes "fst (next_token s) \<noteq> []"
  shows "word_ok (fst (next_token s))"
  using assms by (auto simp: next_token_def word_ok_def Let_def dest: set_takeWhileD)

lemma next_token_set: "set (fst (next_token s)) \<subseteq> set s" "set (snd (next_token s)) \<subseteq> set s"
  by (auto simp: next_token_def Let_def dest!: set_takeWhileD set_dropWhileD)

subsection \<open>Decimal numbers\<close>

definition isdigit :: "char \<Rightarrow> bool" where
  "isdigit c \<longleftrightarrow> 48 \<le> (of_char c :: nat) \<and> (of_char c :: nat) \<le> 57"

definition digit_value :: "char \<Rightarrow> nat" where
  "digit_value c = of_char c - 48"

definition decimal_value :: "string \<Rightarrow> nat" where
  "decimal_value ds = foldl (\<lambda>v c. 10 * v + digit_value c) 0 ds"

text \<open>
  \<^verbatim>\<open>std::stoul(s)\<close> on a 64-bit platform: optional white space and sign, then the longest run of
  digits; what follows the digits is ignored.  A minus sign negates modulo \<open>2 ^ 64\<close>.  Both of
  its exceptions are modelled as one.
\<close>

definition stoul :: "string \<Rightarrow> stop + nat" where
  "stoul s =
     (let t = dropWhile isspace s;
          neg = (t \<noteq> [] \<and> hd t = CHR ''-'');
          u = (if t \<noteq> [] \<and> (hd t = CHR ''-'' \<or> hd t = CHR ''+'') then tl t else t);
          ds = takeWhile isdigit u;
          v = decimal_value ds
      in if ds = [] then Inl (Runtime_error ''stoul: invalid_argument'')
         else if 2 ^ 64 \<le> v then Inl (Runtime_error ''stoul: out_of_range'')
         else Inr (if neg then (2 ^ 64 - v) mod 2 ^ 64 else v))"

text \<open>The canonical decimal numeral of a number, as a client prints a block offset.\<close>

fun decimal :: "nat \<Rightarrow> string" where
  "decimal n = (if n < 10 then [char_of (48 + n)] else decimal (n div 10) @ [char_of (48 + n mod 10)])"

declare decimal.simps [simp del]

lemma digit_char [simp]:
  assumes "n < 10"
  shows "isdigit (char_of (48 + n))" and "digit_value (char_of (48 + n)) = n"
  using assms by (simp_all add: isdigit_def digit_value_def)

lemma decimal_digits: "c \<in> set (decimal n) \<Longrightarrow> isdigit c"
proof (induction n rule: decimal.induct)
  case (1 n)
  then show ?case by (cases "n < 10") (auto simp: decimal.simps [of n])
qed

lemma decimal_nonempty [simp]: "decimal n \<noteq> []"
  by (simp add: decimal.simps)

lemma decimal_value_decimal [simp]: "decimal_value (decimal n) = n"
proof (induction n rule: decimal.induct)
  case (1 n)
  show ?case
  proof (cases "n < 10")
    case True
    then show ?thesis by (simp add: decimal.simps [of n] decimal_value_def)
  next
    case False
    then have "decimal_value (decimal (n div 10)) = n div 10" using 1 by simp
    with False show ?thesis
      by (simp add: decimal.simps [of n] decimal_value_def)
  qed
qed

lemma isdigit_not_space: "isdigit c \<Longrightarrow> \<not> isspace c"
  by (auto simp: isdigit_def isspace_def)

lemma word_ok_decimal [simp]: "word_ok (decimal n)"
  using decimal_digits isdigit_not_space by (auto simp: word_ok_def)

lemma decimal_hd: "n \<noteq> 0 \<Longrightarrow> hd (decimal n) \<noteq> CHR ''0''"
proof (induction n rule: decimal.induct)
  case (1 n)
  show ?case
  proof (cases "n < 10")
    case True
    have "(of_char (char_of (48 + n) :: char) :: nat) = 48 + n" using True by simp
    moreover have "(of_char (CHR ''0'') :: nat) = 48" by simp
    ultimately have "char_of (48 + n) \<noteq> CHR ''0''" using 1(2) by (metis add_cancel_left_right)
    with True show ?thesis by (simp add: decimal.simps [of n])
  next
    case False
    then have "n div 10 \<noteq> 0" by simp
    with 1 False show ?thesis by (simp add: decimal.simps [of n])
  qed
qed

lemma stoul_decimal:
  assumes "n < 2 ^ 64"
  shows "stoul (decimal n) = Inr n"
proof -
  have dw: "dropWhile isspace (decimal n) = decimal n"
    using dropWhile_word [OF word_ok_decimal, of n "[]"] by simp
  have dig: "isdigit (hd (decimal n))" by (rule decimal_digits [of _ n]) simp
  then have sgn: "hd (decimal n) \<noteq> CHR ''-''" "hd (decimal n) \<noteq> CHR ''+''"
    by (auto simp: isdigit_def)
  have tw: "takeWhile isdigit (decimal n) = decimal n"
    using decimal_digits by simp
  show ?thesis using assms by (simp add: stoul_def Let_def dw sgn tw)
qed

subsection \<open>Integers at the start of a string\<close>

text \<open>An optional sign and the longest run of digits after white space; the rest of the input.\<close>

definition scan_integer :: "string \<Rightarrow> bool \<times> string \<times> string" where
  "scan_integer s =
     (let t = dropWhile isspace s;
          neg = (t \<noteq> [] \<and> hd t = CHR ''-'');
          u = (if t \<noteq> [] \<and> (hd t = CHR ''-'' \<or> hd t = CHR ''+'') then tl t else t)
      in (neg, takeWhile isdigit u, dropWhile isdigit u))"

text \<open>\<^verbatim>\<open>atoi\<close>: no digits give 0; a value that does not fit an \<^verbatim>\<open>int\<close> is undefined.\<close>

definition atoi :: "string \<Rightarrow> stop + int" where
  "atoi s =
     (case scan_integer s of (neg, ds, _) \<Rightarrow>
        let v = (if neg then - int (decimal_value ds) else int (decimal_value ds))
        in if - (2 ^ 31) \<le> v \<and> v < 2 ^ 31 then Inr v else Inl Undefined_behaviour)"

lemma scan_integer_length:
  assumes "scan_integer s = (neg, ds, rest)" and "ds \<noteq> []"
  shows "length rest < length s"
proof -
  define t where "t = dropWhile isspace s"
  define u where "u = (if t \<noteq> [] \<and> (hd t = CHR ''-'' \<or> hd t = CHR ''+'') then tl t else t)"
  have "ds = takeWhile isdigit u" "rest = dropWhile isdigit u"
    using assms(1) by (auto simp only: scan_integer_def Let_def t_def u_def prod.inject)
  moreover have "length (takeWhile isdigit u) + length (dropWhile isdigit u) = length u"
    using takeWhile_dropWhile_id[of isdigit u] length_append by metis
  moreover have "length u \<le> length t" by (simp add: u_def)
  moreover have "length t \<le> length s" by (simp add: t_def length_dropWhile_le)
  moreover have "0 < length (takeWhile isdigit u)"
    using assms(2) calculation(1) length_greater_0_conv by metis
  ultimately have "length (dropWhile isdigit u) < length s" by linarith
  then show ?thesis using \<open>rest = dropWhile isdigit u\<close> by simp
qed

lemma scan_integer_space: "isspace c \<Longrightarrow> scan_integer (c # s) = scan_integer s"
  by (simp add: scan_integer_def)

lemma scan_decimal:
  assumes "r = [] \<or> \<not> isdigit (hd r)"
  shows "scan_integer (decimal n @ r) = (False, decimal n, r)"
proof -
  have dig: "isdigit (hd (decimal n))" by (rule decimal_digits [of _ n]) simp
  then have sgn: "hd (decimal n @ r) \<noteq> CHR ''-''" "hd (decimal n @ r) \<noteq> CHR ''+''"
    by (auto simp: isdigit_def)
  have tw: "takeWhile isdigit (decimal n @ r) = decimal n" "dropWhile isdigit (decimal n @ r) = r"
    using decimal_digits[of _ n] assms by (auto simp: takeWhile_append dropWhile_append takeWhile_eq_Nil_iff dropWhile_eq_self_iff)
  show ?thesis using sgn tw dropWhile_word[OF word_ok_decimal, of n r] by (simp add: scan_integer_def)
qed

lemma atoi_decimal: "n < 2 ^ 31 \<Longrightarrow> atoi (decimal n) = Inr (int n)"
  using scan_decimal[of "[]" n] by (simp add: atoi_def)

end
