(* ===== verification/FS_Types.thy ===== *)
theory FS_Types
  imports Cpp_Lib
begin

text \<open>
  The on-disk data of the file server (\<^verbatim>\<open>src/filesys/fs_param.h\<close>,
  \<^verbatim>\<open>src/filesys/fs_server.h\<close>, \<^verbatim>\<open>src/filesys/utils.h\<close>): the parameters, the two
  structures that the server casts disk blocks to, and their byte layout (little endian, the
  natural alignment of their members).  The disk and the reader-writer mutex come from outside
  the repository; they are the fields of \<open>fs_env\<close>, a parameter of every operation, and what
  the code relies on is stated by the locales \<open>disk_device\<close> and \<open>rw_mutex\<close>.
\<close>

subsection \<open>Parameters\<close>

definition FS_BLOCKSIZE :: nat where "FS_BLOCKSIZE = 512"
definition FS_MAXFILEBLOCKS :: nat where "FS_MAXFILEBLOCKS = 124"
definition FS_MAXFILENAME :: nat where "FS_MAXFILENAME = 59"
definition FS_MAXPATHNAME :: nat where "FS_MAXPATHNAME = 128"
definition FS_MAXUSERNAME :: nat where "FS_MAXUSERNAME = 10"
definition FS_DISKSIZE :: nat where "FS_DISKSIZE = 4096"
definition UNDEFINED_BLOCK :: nat where "UNDEFINED_BLOCK = FS_DISKSIZE + 1"
definition ROOT_INODE :: nat where "ROOT_INODE = 0"

lemmas fs_params = FS_BLOCKSIZE_def FS_MAXFILEBLOCKS_def FS_MAXFILENAME_def FS_MAXPATHNAME_def
  FS_MAXUSERNAME_def FS_DISKSIZE_def UNDEFINED_BLOCK_def ROOT_INODE_def

subsection \<open>Structures\<close>

record fs_direntry =
  de_name :: "char list"
  de_inode_block :: nat

record fs_inode =
  i_type :: char
  i_owner :: "char list"
  i_size :: nat
  i_blocks :: "nat list"

definition u32_bytes :: "nat \<Rightarrow> char list" where
  "u32_bytes n = [char_of n, char_of (n div 2 ^ 8), char_of (n div 2 ^ 16), char_of (n div 2 ^ 24)]"

definition bytes_u32 :: "char list \<Rightarrow> nat" where
  "bytes_u32 bs = of_char (bs ! 0) + 2 ^ 8 * of_char (bs ! 1) + 2 ^ 16 * of_char (bs ! 2)
     + 2 ^ 24 * of_char (bs ! 3)"

definition sizeof_direntry :: nat where
  "sizeof_direntry = FS_MAXFILENAME + 1 + 4"

definition FS_DIRENTRIES :: nat where
  "FS_DIRENTRIES = FS_BLOCKSIZE div sizeof_direntry"

definition encode_direntry :: "fs_direntry \<Rightarrow> char list" where
  "encode_direntry e = de_name e @ u32_bytes (de_inode_block e)"

definition decode_direntry :: "char list \<Rightarrow> fs_direntry" where
  "decode_direntry bs =
     \<lparr>de_name = take (FS_MAXFILENAME + 1) bs, de_inode_block = bytes_u32 (drop (FS_MAXFILENAME + 1) bs)\<rparr>"

definition encode_dir :: "fs_direntry list \<Rightarrow> char list" where
  "encode_dir es = concat (map encode_direntry es)"

definition decode_dir :: "char list \<Rightarrow> fs_direntry list" where
  "decode_dir bs =
     map (\<lambda>j. decode_direntry (take sizeof_direntry (drop (sizeof_direntry * j) bs))) [0..<FS_DIRENTRIES]"

definition encode_inode :: "fs_inode \<Rightarrow> char list" where
  "encode_inode i =
     [i_type i] @ i_owner i @ u32_bytes (i_size i) @ concat (map u32_bytes (i_blocks i))"

definition decode_inode :: "char list \<Rightarrow> fs_inode" where
  "decode_inode bs =
     \<lparr>i_type = bs ! 0,
      i_owner = take (FS_MAXUSERNAME + 1) (drop 1 bs),
      i_size = bytes_u32 (take 4 (drop 12 bs)),
      i_blocks = map (\<lambda>k. bytes_u32 (take 4 (drop (4 * k) (drop 16 bs)))) [0..<FS_MAXFILEBLOCKS]\<rparr>"

text \<open>Values that fit the fields of the structures.\<close>

definition direntry_fits :: "fs_direntry \<Rightarrow> bool" where
  "direntry_fits e \<longleftrightarrow> length (de_name e) = FS_MAXFILENAME + 1 \<and> de_inode_block e < 2 ^ 32"

definition inode_fits :: "fs_inode \<Rightarrow> bool" where
  "inode_fits i \<longleftrightarrow>
     length (i_owner i) = FS_MAXUSERNAME + 1 \<and> i_size i < 2 ^ 32 \<and>
     length (i_blocks i) = FS_MAXFILEBLOCKS \<and> (\<forall>b \<in> set (i_blocks i). b < 2 ^ 32)"

definition dir_fits :: "fs_direntry list \<Rightarrow> bool" where
  "dir_fits es \<longleftrightarrow> length es = FS_DIRENTRIES \<and> (\<forall>e \<in> set es. direntry_fits e)"

subsection \<open>The layout fits one block and is reversible\<close>

lemma FS_DIRENTRIES_eq: "FS_DIRENTRIES = 8" "sizeof_direntry = 64"
  by (simp_all add: FS_DIRENTRIES_def sizeof_direntry_def fs_params)

lemma length_u32_bytes [simp]: "length (u32_bytes n) = 4"
  by (simp add: u32_bytes_def)

lemma base256_digits:
  assumes "n < 2 ^ 32"
  shows "n mod 256 + (n div 256 mod 256 * 256 + (n div 65536 mod 256 * 65536
    + n div 16777216 mod 256 * 16777216)) = (n :: nat)"
proof -
  define q1 q2 q3 where "q1 = n div 256" and "q2 = q1 div 256" and "q3 = q2 div 256"
  have e: "n div 65536 = q2" "n div 16777216 = q3"
    by (simp_all add: q1_def q2_def q3_def div_mult2_eq [symmetric])
  have "q3 < 256" using assms by (simp add: e(2) [symmetric])
  then have s3: "q3 mod 256 = q3" by simp
  have s: "n = n mod 256 + q1 * 256" "q1 = q1 mod 256 + q2 * 256" "q2 = q2 mod 256 + q3 * 256"
    by (simp_all add: q1_def q2_def q3_def)
  have "n mod 256 + (q1 mod 256 * 256 + (q2 mod 256 * 65536 + q3 * 16777216))
    = n mod 256 + (q1 mod 256 + (q2 mod 256 + q3 * 256) * 256) * 256" by simp
  also have "\<dots> = n" using s by simp
  finally show ?thesis by (simp only: e s3 q1_def [symmetric])
qed

lemma bytes_u32_bytes [simp]: "n < 2 ^ 32 \<Longrightarrow> bytes_u32 (u32_bytes n) = n"
  using base256_digits [of n] by (simp add: bytes_u32_def u32_bytes_def algebra_simps)

lemma bytes_u32_less: "bytes_u32 bs < 2 ^ 32"
proof -
  have bound: "(a::nat) < 256 \<Longrightarrow> b < 256 \<Longrightarrow> c < 256 \<Longrightarrow> d < 256 \<Longrightarrow>
    a + 2 ^ 8 * b + 2 ^ 16 * c + 2 ^ 24 * d < 2 ^ 32" for a b c d by simp
  show ?thesis unfolding bytes_u32_def by (rule bound) simp_all
qed

lemma length_encode_direntry:
  "direntry_fits e \<Longrightarrow> length (encode_direntry e) = sizeof_direntry"
  by (simp add: encode_direntry_def direntry_fits_def sizeof_direntry_def)

lemma decode_encode_direntry [simp]:
  "direntry_fits e \<Longrightarrow> decode_direntry (encode_direntry e) = e"
  by (simp add: encode_direntry_def decode_direntry_def direntry_fits_def)

lemma length_encode_dir: "dir_fits es \<Longrightarrow> length (encode_dir es) = FS_BLOCKSIZE"
  unfolding encode_dir_def dir_fits_def
  by (subst length_concat_chunks [where c = sizeof_direntry])
    (auto simp: length_encode_direntry FS_DIRENTRIES_eq FS_BLOCKSIZE_def)

lemma decode_encode_dir [simp]:
  assumes "dir_fits es"
  shows "decode_dir (encode_dir es) = es"
proof (rule nth_equalityI)
  show "length (decode_dir (encode_dir es)) = length es"
    using assms by (simp add: decode_dir_def dir_fits_def)
next
  fix j assume "j < length (decode_dir (encode_dir es))"
  then have j: "j < FS_DIRENTRIES" "j < length es" using assms by (auto simp: decode_dir_def dir_fits_def)
  have "take sizeof_direntry (drop (sizeof_direntry * j) (encode_dir es)) = encode_direntry (es ! j)"
    unfolding encode_dir_def using assms j
    by (intro concat_chunk) (auto simp: dir_fits_def length_encode_direntry)
  then show "decode_dir (encode_dir es) ! j = es ! j"
    using assms j by (simp add: decode_dir_def dir_fits_def)
qed

lemma length_encode_inode: "inode_fits i \<Longrightarrow> length (encode_inode i) = FS_BLOCKSIZE"
  unfolding encode_inode_def inode_fits_def
  by (simp add: length_concat_chunks [where c = 4] fs_params)

lemma decode_encode_inode [simp]:
  assumes "inode_fits i"
  shows "decode_inode (encode_inode i) = i"
proof -
  have len: "length (i_owner i) = 11" "length (i_blocks i) = 124" "i_size i < 2 ^ 32"
    and small: "\<And>k. k < 124 \<Longrightarrow> i_blocks i ! k < 2 ^ 32"
    using assms by (auto simp: inode_fits_def fs_params)
  have split: "drop 16 (encode_inode i) = concat (map u32_bytes (i_blocks i))"
    "take 4 (drop 12 (encode_inode i)) = u32_bytes (i_size i)"
    by (simp_all add: encode_inode_def len)
  have "i_blocks (decode_inode (encode_inode i)) = map (\<lambda>k. i_blocks i ! k) [0..<124]"
    unfolding decode_inode_def split using small
    by (simp add: FS_MAXFILEBLOCKS_def concat_chunk [where c = 4] len del: power.simps)
  also have "\<dots> = i_blocks i" using map_nth_upt [of "i_blocks i"] by (simp add: len)
  finally have "i_blocks (decode_inode (encode_inode i)) = i_blocks i" .
  moreover have "i_type (decode_inode (encode_inode i)) = i_type i"
    "i_owner (decode_inode (encode_inode i)) = i_owner i"
    "i_size (decode_inode (encode_inode i)) = i_size i"
    unfolding decode_inode_def using len by (simp_all add: split) (simp_all add: encode_inode_def len fs_params)
  ultimately show ?thesis by simp
qed

lemma inode_fits_decode: "length bs = FS_BLOCKSIZE \<Longrightarrow> inode_fits (decode_inode bs)"
  by (auto simp: inode_fits_def decode_inode_def bytes_u32_less fs_params)
    (use bytes_u32_less in simp_all)

lemma dir_fits_decode: "length bs = FS_BLOCKSIZE \<Longrightarrow> dir_fits (decode_dir bs)"
  unfolding dir_fits_def decode_dir_def decode_direntry_def direntry_fits_def
  using bytes_u32_less by (auto simp: FS_DIRENTRIES_eq fs_params)

end
