(* ===== verification/FS_State.thy ===== *)
theory FS_State
  imports FS_Types
begin

text \<open>
  The state of the file server: the disk, the queue of free blocks and the table of per-inode
  locks (class \<^verbatim>\<open>FileSystem\<close> of \<^verbatim>\<open>src/filesys/file_system.h\<close> and the global disk), with
  the calls on the disk and on the lock table (\<^verbatim>\<open>src/filesys/file_system.cpp\<close> 149-240).  The
  disk device and the reader-writer mutex are given by an environment; the two locales below
  state what \<^verbatim>\<open>fs_server.h\<close> and the mutex's documentation promise about them, and the lemmas of
  the lock table are proved once for every such environment.
\<close>

subsection \<open>The environment\<close>

text \<open>
  A failing disk call trips an assertion inside the infrastructure: \<open>None\<close>.  A lock call that
  does not return because the mutex is not available: \<open>None\<close>.
\<close>

record ('d, 'm) fs_env =
  env_readblock :: "'d \<Rightarrow> nat \<Rightarrow> char list option"
  env_writeblock :: "'d \<Rightarrow> nat \<Rightarrow> char list \<Rightarrow> 'd option"
  sm_new :: 'm
  sm_lock_shared :: "'m \<Rightarrow> 'm option"
  sm_unlock_shared :: "'m \<Rightarrow> 'm"
  sm_lock_upgrade :: "'m \<Rightarrow> 'm option"
  sm_unlock_upgrade :: "'m \<Rightarrow> 'm"
  sm_unlock_upgrade_and_lock :: "'m \<Rightarrow> 'm option"
  sm_unlock :: "'m \<Rightarrow> 'm"

record 'm GyattLock =
  m_ptr :: 'm
  num_readers :: nat

record ('d, 'm) FileSystem =
  disk :: 'd
  free_block_list :: "nat list"
  lock_map :: "nat \<rightharpoonup> 'm GyattLock"

datatype CommandType = FS_READBLOCK | FS_WRITEBLOCK | FS_CREATE | FS_DELETE | INVALID

record Command =
  command_type :: CommandType
  username :: string
  pathname :: string
  block :: nat
  ctype :: char
  data :: "char list"

subsection \<open>Disk calls\<close>

definition disk_readblock ::
  "('d, 'm) fs_env \<Rightarrow> nat \<Rightarrow> (('d, 'm) FileSystem, char list) prog" where
  "disk_readblock E b s =
     (case env_readblock E (disk s) b of None \<Rightarrow> (Inl Assertion_failed, s) | Some raw \<Rightarrow> (Inr raw, s))"

definition disk_writeblock ::
  "('d, 'm) fs_env \<Rightarrow> nat \<Rightarrow> char list \<Rightarrow> (('d, 'm) FileSystem, unit) prog" where
  "disk_writeblock E b raw s =
     (case env_writeblock E (disk s) b raw of
        None \<Rightarrow> (Inl Assertion_failed, s)
      | Some d \<Rightarrow> (Inr (), s\<lparr>disk := d\<rparr>))"

subsection \<open>The lock table\<close>

text \<open>
  Every function below runs a critical section under \<^verbatim>\<open>lock_map_mutex\<close>.  The three lock functions
  first register the caller in the table (creating the entry when there is none) and then,
  outside the critical section, wait for the mutex of the entry; the unlock functions release
  the mutex and erase the entry when its last user leaves.
\<close>

definition new_GyattLock :: "('d, 'm) fs_env \<Rightarrow> 'm GyattLock" where
  "new_GyattLock E = \<lparr>m_ptr = sm_new E, num_readers = 0\<rparr>"

definition register_lock :: "('d, 'm) fs_env \<Rightarrow> nat \<Rightarrow> (nat \<rightharpoonup> 'm GyattLock) \<Rightarrow> (nat \<rightharpoonup> 'm GyattLock)" where
  "register_lock E b m =
     (let m' = (if m b = None then m(b \<mapsto> new_GyattLock E) else m)
      in m'(b := map_option (\<lambda>g. g\<lparr>num_readers := num_readers g + 1\<rparr>) (m' b)))"

definition release_lock :: "nat \<Rightarrow> (nat \<rightharpoonup> 'm GyattLock) \<Rightarrow> (nat \<rightharpoonup> 'm GyattLock)" where
  "release_lock b m =
     (let m' = m(b := map_option (\<lambda>g. g\<lparr>num_readers := num_readers g - 1\<rparr>) (m b))
      in if map_option num_readers (m' b) = Some 0 then m'(b := None) else m')"

definition on_mutex :: "('m \<Rightarrow> 'm option) \<Rightarrow> nat \<Rightarrow> (('d, 'm) FileSystem, unit) prog" where
  "on_mutex f b s =
     (case lock_map s b of
        None \<Rightarrow> (Inl Assertion_failed, s)
      | Some g \<Rightarrow>
          (case f (m_ptr g) of
             None \<Rightarrow> (Inl Blocked, s)
           | Some x \<Rightarrow> (Inr (), s\<lparr>lock_map := (lock_map s)(b \<mapsto> g\<lparr>m_ptr := x\<rparr>)\<rparr>)))"

definition lock_inode_read :: "('d, 'm) fs_env \<Rightarrow> nat \<Rightarrow> (('d, 'm) FileSystem, unit) prog" where
  "lock_inode_read E b =
     seqp (modify (\<lambda>s. s\<lparr>lock_map := register_lock E b (lock_map s)\<rparr>)) (on_mutex (sm_lock_shared E) b)"

definition unlock_inode_read :: "('d, 'm) fs_env \<Rightarrow> nat \<Rightarrow> (('d, 'm) FileSystem, unit) prog" where
  "unlock_inode_read E b =
     bindp (gets lock_map) (\<lambda>m.
     seqp (assertp (m b \<noteq> None))
     (seqp (on_mutex (\<lambda>x. Some (sm_unlock_shared E x)) b)
     (modify (\<lambda>s. s\<lparr>lock_map := release_lock b (lock_map s)\<rparr>))))"

definition lock_inode_upgrade :: "('d, 'm) fs_env \<Rightarrow> nat \<Rightarrow> (('d, 'm) FileSystem, unit) prog" where
  "lock_inode_upgrade E b =
     seqp (modify (\<lambda>s. s\<lparr>lock_map := register_lock E b (lock_map s)\<rparr>)) (on_mutex (sm_lock_upgrade E) b)"

definition unlock_inode_upgrade :: "('d, 'm) fs_env \<Rightarrow> nat \<Rightarrow> (('d, 'm) FileSystem, unit) prog" where
  "unlock_inode_upgrade E b =
     bindp (gets lock_map) (\<lambda>m.
     seqp (assertp (m b \<noteq> None))
     (seqp (on_mutex (\<lambda>x. Some (sm_unlock_upgrade E x)) b)
     (modify (\<lambda>s. s\<lparr>lock_map := release_lock b (lock_map s)\<rparr>))))"

definition upgrade_to_write_lock :: "('d, 'm) fs_env \<Rightarrow> nat \<Rightarrow> (('d, 'm) FileSystem, unit) prog" where
  "upgrade_to_write_lock E b =
     bindp (gets lock_map) (\<lambda>m.
     seqp (assertp (m b \<noteq> None)) (on_mutex (sm_unlock_upgrade_and_lock E) b))"

definition unlock_inode_write :: "('d, 'm) fs_env \<Rightarrow> nat \<Rightarrow> (('d, 'm) FileSystem, unit) prog" where
  "unlock_inode_write E b =
     bindp (gets lock_map) (\<lambda>m.
     seqp (assertp (m b \<noteq> None))
     (seqp (on_mutex (\<lambda>x. Some (sm_unlock E x)) b)
     (modify (\<lambda>s. s\<lparr>lock_map := release_lock b (lock_map s)\<rparr>))))"

subsection \<open>The contract of the disk\<close>

locale disk_device =
  fixes E :: "('d, 'm) fs_env"
  assumes read_total: "n < FS_DISKSIZE \<Longrightarrow> \<exists>raw. env_readblock E d n = Some raw \<and> length raw = FS_BLOCKSIZE"
    and write_total: "n < FS_DISKSIZE \<Longrightarrow> length raw = FS_BLOCKSIZE \<Longrightarrow> env_writeblock E d n raw \<noteq> None"
    and read_written: "env_writeblock E d n raw = Some d' \<Longrightarrow> length raw = FS_BLOCKSIZE \<Longrightarrow>
      env_readblock E d' m = (if m = n then Some raw else env_readblock E d m)"

text \<open>The block and the new disk as total functions, for use inside the range of the disk.\<close>

definition blk :: "('d, 'm) fs_env \<Rightarrow> 'd \<Rightarrow> nat \<Rightarrow> char list" where
  "blk E d n = the (env_readblock E d n)"

definition upd :: "('d, 'm) fs_env \<Rightarrow> 'd \<Rightarrow> nat \<Rightarrow> char list \<Rightarrow> 'd" where
  "upd E d n raw = the (env_writeblock E d n raw)"

context disk_device
begin

lemma read_blk: "n < FS_DISKSIZE \<Longrightarrow> env_readblock E d n = Some (blk E d n)"
  using read_total [of n d] by (auto simp: blk_def)

lemma length_blk [simp]: "n < FS_DISKSIZE \<Longrightarrow> length (blk E d n) = FS_BLOCKSIZE"
  using read_total [of n d] by (auto simp: blk_def)

lemma write_upd:
  "n < FS_DISKSIZE \<Longrightarrow> length raw = FS_BLOCKSIZE \<Longrightarrow> env_writeblock E d n raw = Some (upd E d n raw)"
  using write_total [of n raw d] by (auto simp: upd_def)

lemma blk_upd [simp]:
  assumes "n < FS_DISKSIZE" and "length raw = FS_BLOCKSIZE"
  shows "blk E (upd E d n raw) m = (if m = n then raw else blk E d m)"
  using read_written [OF write_upd [OF assms, of d] assms(2), of m] by (simp add: blk_def)

lemma blk_upd_fun:
  "n < FS_DISKSIZE \<Longrightarrow> length raw = FS_BLOCKSIZE \<Longrightarrow> blk E (upd E d n raw) = (blk E d)(n := raw)"
  by (simp add: fun_eq_iff)

lemma disk_readblock_blk [prog_simps]:
  "b < FS_DISKSIZE \<Longrightarrow> bindp (disk_readblock E b) f s = f (blk E (disk s) b) s"
  by (simp add: bindp_def disk_readblock_def read_blk)

lemma disk_writeblock_upd [prog_simps]:
  "b < FS_DISKSIZE \<Longrightarrow> length raw = FS_BLOCKSIZE \<Longrightarrow>
    bindp (disk_writeblock E b raw) f s = f () (s\<lparr>disk := upd E (disk s) b raw\<rparr>)"
  by (simp add: bindp_def disk_writeblock_def write_upd)

lemma disk_writeblock_app [prog_simps]:
  "b < FS_DISKSIZE \<Longrightarrow> length raw = FS_BLOCKSIZE \<Longrightarrow>
    disk_writeblock E b raw s = (Inr (), s\<lparr>disk := upd E (disk s) b raw\<rparr>)"
  by (simp add: disk_writeblock_def write_upd)

end

subsection \<open>The contract of the mutex\<close>

text \<open>A mutex that nobody holds can be locked, and its upgradeable owner, being alone, can upgrade.\<close>

locale rw_mutex =
  fixes E :: "('d, 'm) fs_env"
  assumes lock_shared_free: "sm_lock_shared E (sm_new E) \<noteq> None"
    and lock_upgrade_free: "sm_lock_upgrade E (sm_new E) \<noteq> None"
    and upgrade_alone: "sm_lock_upgrade E (sm_new E) = Some x \<Longrightarrow> sm_unlock_upgrade_and_lock E x \<noteq> None"

text \<open>The table entries of a lock with one user, in the three modes.\<close>

definition read_held :: "('d, 'm) fs_env \<Rightarrow> 'm GyattLock" where
  "read_held E = \<lparr>m_ptr = the (sm_lock_shared E (sm_new E)), num_readers = 1\<rparr>"

definition upgrade_held :: "('d, 'm) fs_env \<Rightarrow> 'm GyattLock" where
  "upgrade_held E = \<lparr>m_ptr = the (sm_lock_upgrade E (sm_new E)), num_readers = 1\<rparr>"

definition write_held :: "('d, 'm) fs_env \<Rightarrow> 'm GyattLock" where
  "write_held E =
     \<lparr>m_ptr = the (sm_unlock_upgrade_and_lock E (m_ptr (upgrade_held E))), num_readers = 1\<rparr>"

lemma release_last: "m b = Some g \<Longrightarrow> num_readers g = 1 \<Longrightarrow> release_lock b m = m(b := None)"
  by (simp add: release_lock_def)

lemma held_single [simp]:
  "num_readers (read_held E) = 1" "num_readers (upgrade_held E) = 1" "num_readers (write_held E) = 1"
  by (simp_all add: read_held_def upgrade_held_def write_held_def)

lemma unlock_read_last [prog_simps]:
  "lock_map s b = Some g \<Longrightarrow> num_readers g = 1 \<Longrightarrow>
    bindp (unlock_inode_read E b) f s = f () (s\<lparr>lock_map := (lock_map s)(b := None)\<rparr>)"
  by (simp add: unlock_inode_read_def prog_defs on_mutex_def release_last)

lemma unlock_upgrade_last [prog_simps]:
  "lock_map s b = Some g \<Longrightarrow> num_readers g = 1 \<Longrightarrow>
    bindp (unlock_inode_upgrade E b) f s = f () (s\<lparr>lock_map := (lock_map s)(b := None)\<rparr>)"
  by (simp add: unlock_inode_upgrade_def prog_defs on_mutex_def release_last)

lemma unlock_write_last [prog_simps]:
  "lock_map s b = Some g \<Longrightarrow> num_readers g = 1 \<Longrightarrow>
    bindp (unlock_inode_write E b) f s = f () (s\<lparr>lock_map := (lock_map s)(b := None)\<rparr>)"
  by (simp add: unlock_inode_write_def prog_defs on_mutex_def release_last)

text \<open>The same in last position.\<close>

lemma unlock_last_app [prog_simps]:
  assumes "lock_map s b = Some g" and "num_readers g = 1"
  shows "unlock_inode_read E b s = (Inr (), s\<lparr>lock_map := (lock_map s)(b := None)\<rparr>)"
    "unlock_inode_upgrade E b s = (Inr (), s\<lparr>lock_map := (lock_map s)(b := None)\<rparr>)"
    "unlock_inode_write E b s = (Inr (), s\<lparr>lock_map := (lock_map s)(b := None)\<rparr>)"
  using assms
  by (simp_all add: unlock_inode_read_def unlock_inode_upgrade_def unlock_inode_write_def
      prog_defs on_mutex_def release_last)

text \<open>Updates of the state in one order: the lock table last.\<close>

lemma FileSystem_update_order [prog_simps]:
  "s\<lparr>lock_map := m, disk := d\<rparr> = s\<lparr>disk := d, lock_map := m\<rparr>"
  "s\<lparr>lock_map := m, free_block_list := f\<rparr> = s\<lparr>free_block_list := f, lock_map := m\<rparr>"
  "s\<lparr>free_block_list := f, disk := d\<rparr> = s\<lparr>disk := d, free_block_list := f\<rparr>"
  by (cases s, simp)+

context rw_mutex
begin

lemma lock_read_free [prog_simps]:
  "lock_map s b = None \<Longrightarrow>
    bindp (lock_inode_read E b) f s = f () (s\<lparr>lock_map := (lock_map s)(b \<mapsto> read_held E)\<rparr>)"
  using lock_shared_free
  by (auto simp: lock_inode_read_def prog_defs on_mutex_def register_lock_def new_GyattLock_def read_held_def)

lemma lock_upgrade_table [prog_simps]:
  "lock_map s b = None \<Longrightarrow>
    bindp (lock_inode_upgrade E b) f s = f () (s\<lparr>lock_map := (lock_map s)(b \<mapsto> upgrade_held E)\<rparr>)"
  using lock_upgrade_free
  by (auto simp: lock_inode_upgrade_def prog_defs on_mutex_def register_lock_def new_GyattLock_def upgrade_held_def)

lemma upgrade_table [prog_simps]:
  "lock_map s b = Some (upgrade_held E) \<Longrightarrow>
    bindp (upgrade_to_write_lock E b) f s = f () (s\<lparr>lock_map := (lock_map s)(b \<mapsto> write_held E)\<rparr>)"
  using upgrade_alone lock_upgrade_free
  by (auto simp: upgrade_to_write_lock_def prog_defs on_mutex_def write_held_def upgrade_held_def)

end

text \<open>Both contracts together are what the operations of the file system rely on.\<close>

locale fs_device = disk_device E + rw_mutex E for E :: "('d, 'm) fs_env"

lemma lock_map_same: "lock_map s = m \<Longrightarrow> s\<lparr>lock_map := m\<rparr> = s"
  by (cases s) simp

lemma single_lock [simp]: "(\<lambda>a. if a = n then Some g else None) = [n \<mapsto> g]"
  by auto

text \<open>Hand-over-hand: the table after the lock has passed from one inode to the next.\<close>

lemma handover [simp]:
  "p \<noteq> c \<Longrightarrow> [p \<mapsto> g, c \<mapsto> h](p := None) = [c \<mapsto> h]"
  "[p \<mapsto> g](p := None) = Map.empty"
  by (auto simp: fun_eq_iff)

subsection \<open>A concrete environment\<close>

text \<open>
  An in-memory disk and a mutex that counts its shared, upgradeable and exclusive holders: an
  instance of the contracts, on which the witnesses of the development are evaluated.
\<close>

type_synonym ram = "nat \<Rightarrow> nat \<Rightarrow> char"
type_synonym counted_mutex = "nat \<times> bool \<times> bool"

definition ram_env :: "(ram, counted_mutex) fs_env" where
  "ram_env =
     \<lparr>env_readblock = (\<lambda>d n. if n < FS_DISKSIZE then Some (map (d n) [0..<FS_BLOCKSIZE]) else None),
      env_writeblock = (\<lambda>d n raw. if n < FS_DISKSIZE then Some (d(n := (\<lambda>k. raw ! k))) else None),
      sm_new = (0, False, False),
      sm_lock_shared = (\<lambda>(r, u, w). if w then None else Some (r + 1, u, w)),
      sm_unlock_shared = (\<lambda>(r, u, w). (r - 1, u, w)),
      sm_lock_upgrade = (\<lambda>(r, u, w). if u \<or> w then None else Some (r, True, w)),
      sm_unlock_upgrade = (\<lambda>(r, u, w). (r, False, w)),
      sm_unlock_upgrade_and_lock = (\<lambda>(r, u, w). if 0 < r \<or> w then None else Some (r, False, True)),
      sm_unlock = (\<lambda>(r, u, w). (r, u, False))\<rparr>"

interpretation ram: fs_device ram_env
proof unfold_locales
  fix n m :: nat and d d' :: ram and raw :: "char list"
  assume "env_writeblock ram_env d n raw = Some d'" and "length raw = FS_BLOCKSIZE"
  then show "env_readblock ram_env d' m = (if m = n then Some raw else env_readblock ram_env d m)"
    using map_nth [of raw] by (auto simp: ram_env_def split: if_splits)
qed (auto simp: ram_env_def)

end
