(* ===== verification/FS_Path.thy ===== *)
theory FS_Path
  imports FS_Types
begin

text \<open>
  Pathnames: \<^verbatim>\<open>get_parent_dir\<close> and \<^verbatim>\<open>get_target\<close> of \<^verbatim>\<open>src/filesys/file_system.cpp\<close> and
  \<^verbatim>\<open>NetworkServer::is_valid_pathname\<close> of \<^verbatim>\<open>src/filesys/network_server.cpp\<close>.  The lemmas relate
  them to a path as a list of names: a valid pathname is the join of its names, and the two
  helpers split off the last name without tripping their assertions.
\<close>

definition find_last_of :: "char \<Rightarrow> string \<Rightarrow> nat option" where
  "find_last_of c s =
     (if c \<in> set s then Some (length s - 1 - length (takeWhile (\<lambda>x. x \<noteq> c) (rev s))) else None)"

definition get_parent_dir :: "string \<Rightarrow> stop + string" where
  "get_parent_dir path =
     (if path = [] \<or> last path = slash then Inl Assertion_failed
      else case find_last_of slash path of
             None \<Rightarrow> Inl Assertion_failed
           | Some last_slash \<Rightarrow> Inr (take last_slash path))"

definition get_target :: "string \<Rightarrow> stop + string" where
  "get_target path =
     (if path = [] \<or> last path = slash then Inl Assertion_failed
      else case find_last_of slash path of
             None \<Rightarrow> Inl Assertion_failed
           | Some last_slash \<Rightarrow> Inr (drop (last_slash + 1) path))"

text \<open>The loop over \<^verbatim>\<open>i < pathname.size() - 1\<close> and the loop over the components.\<close>

definition bad_pair :: "string \<Rightarrow> nat \<Rightarrow> bool" where
  "bad_pair p i \<longleftrightarrow> p ! i = slash \<and> p ! (i + 1) = slash \<or> isspace (p ! i)"

definition is_valid_pathname :: "string \<Rightarrow> stop + bool" where
  "is_valid_pathname p =
     (if p = [] then Inl Assertion_failed
      else if FS_MAXPATHNAME < length p then Inr False
      else if p ! 0 \<noteq> slash then Inr False
      else if p ! (length p - 1) = slash then Inr False
      else if list_ex (bad_pair p) [0..<length p - 1] then Inr False
      else Inr (list_all (\<lambda>x. x \<noteq> [] \<and> length x \<le> FS_MAXFILENAME) (getline_split slash (drop 1 p))))"

subsection \<open>Paths as lists of names\<close>

definition join_path :: "string list \<Rightarrow> string" where
  "join_path xs = concat (map (\<lambda>x. slash # x) xs)"

definition name_ok :: "string \<Rightarrow> bool" where
  "name_ok x \<longleftrightarrow> x \<noteq> [] \<and> slash \<notin> set x \<and> length x \<le> FS_MAXFILENAME"

lemma join_path_simps [simp]:
  "join_path [] = []"
  "join_path (x # xs) = slash # x @ join_path xs"
  "join_path (xs @ ys) = join_path xs @ join_path ys"
  by (simp_all add: join_path_def)

lemma find_last_of_split [simp]:
  assumes "c \<notin> set x"
  shows "find_last_of c (p @ c # x) = Some (length p)"
proof -
  have "takeWhile (\<lambda>y. y \<noteq> c) (rev x @ c # rev p) = rev x"
    using assms by (subst takeWhile_append2) auto
  then show ?thesis by (simp add: find_last_of_def)
qed

lemma last_name_ok: "name_ok x \<Longrightarrow> x \<noteq> [] \<and> last x \<noteq> slash"
  by (metis last_in_set name_ok_def)

lemma get_parent_dir_join [simp]:
  "name_ok x \<Longrightarrow> get_parent_dir (join_path xs @ slash # x) = Inr (join_path xs)"
  using last_name_ok [of x] by (auto simp: get_parent_dir_def name_ok_def)

lemma get_target_join [simp]: "name_ok x \<Longrightarrow> get_target (join_path xs @ slash # x) = Inr x"
  using last_name_ok [of x] by (auto simp: get_target_def name_ok_def)

lemma getline_split_names:
  assumes "x \<noteq> []" and "slash \<notin> set x" and "\<forall>y \<in> set xs. y \<noteq> [] \<and> slash \<notin> set y"
  shows "getline_split slash (x @ join_path xs) = x # xs"
  using assms
proof (induction xs arbitrary: x)
  case (Cons y ys)
  then show ?case by simp
qed simp

lemma getline_split_join:
  assumes "\<forall>y \<in> set xs. y \<noteq> [] \<and> slash \<notin> set y"
  shows "getline_split slash (join_path xs) = (if xs = [] then [] else [] # xs)"
proof (cases xs)
  case (Cons y ys)
  have "getline_split slash ([] @ slash # (y @ join_path ys)) = [] # getline_split slash (y @ join_path ys)"
    by (rule getline_split_cons) simp
  with Cons assms show ?thesis by (simp add: getline_split_names)
qed simp

text \<open>Conversely, splitting at the slashes and joining again gives the string back.\<close>

lemma join_getline_split:
  assumes "s \<noteq> []" and "last s \<noteq> slash"
  shows "slash # s = join_path (getline_split slash s)"
  using assms
proof (induction slash s rule: getline_split.induct)
  case (1 s)
  let ?h = "takeWhile (\<lambda>c. c \<noteq> slash) s" and ?t = "dropWhile (\<lambda>c. c \<noteq> slash) s"
  have s: "s = ?h @ ?t" by simp
  show ?case
  proof (cases "?t")
    case Nil
    then have "slash \<notin> set s" by auto
    with 1(2) show ?thesis by simp
  next
    case (Cons c r)
    then have c: "c = slash" using hd_dropWhile [of "\<lambda>c. c \<noteq> slash" s] by auto
    have "r \<noteq> []" using s Cons c 1(3) by (metis last.simps last_appendR list.distinct(1))
    then have "last r \<noteq> slash" using s Cons 1(3) by (metis last_ConsR last_appendR list.distinct(1))
    with \<open>r \<noteq> []\<close> have IH: "join_path (getline_split slash r) = slash # r"
      using 1(1) 1(2) Cons by simp
    have "getline_split slash s = ?h # getline_split slash r"
      using 1(2) Cons by (simp add: getline_split.simps [of slash s])
    then have "join_path (getline_split slash s) = slash # ?h @ slash # r" by (simp add: IH)
    also have "\<dots> = slash # s" using s Cons c by simp
    finally show ?thesis by simp
  qed
qed

lemma getline_split_nonempty: "s \<noteq> [] \<Longrightarrow> getline_split d s \<noteq> []"
  by (simp add: getline_split.simps)

lemma valid_pathname_names:
  assumes "is_valid_pathname p = Inr True"
  shows "\<exists>xs. xs \<noteq> [] \<and> p = join_path xs \<and> (\<forall>x \<in> set xs. name_ok x)"
proof -
  have p: "p \<noteq> []" "p ! 0 = slash" "p ! (length p - 1) \<noteq> slash"
    and names: "\<forall>x \<in> set (getline_split slash (drop 1 p)). x \<noteq> [] \<and> length x \<le> FS_MAXFILENAME"
    using assms by (auto simp: is_valid_pathname_def list_all_iff split: if_splits)
  obtain s where s: "p = slash # s" using p(1,2) by (cases p) auto
  have "s \<noteq> []" using s p(3) by auto
  moreover from this have "last s \<noteq> slash" using s p(3) by (simp add: last_conv_nth nth_Cons')
  ultimately have "p = join_path (getline_split slash s)" "getline_split slash s \<noteq> []"
    using s join_getline_split getline_split_nonempty by auto
  moreover have "\<forall>x \<in> set (getline_split slash s). name_ok x"
    using names s getline_split_no_delim by (auto simp: name_ok_def)
  ultimately show ?thesis by blast
qed

lemma join_path_no_bad_pair:
  assumes "\<forall>x \<in> set xs. name_ok x" and "\<forall>c \<in> set (join_path xs). \<not> isspace c"
    and "Suc i < length (join_path xs)"
  shows "\<not> bad_pair (join_path xs) i"
  using assms
proof (induction xs arbitrary: i)
  case (Cons x xs)
  then have x: "x \<noteq> []" "slash \<notin> set x" by (auto simp: name_ok_def)
  consider "i < Suc (length x)" | k where "i = Suc (length x) + k" using le_Suc_ex not_less by blast
  then show ?case
  proof cases
    case 1
    have sp: "\<not> isspace ((slash # x @ join_path xs) ! i)" using Cons.prems(2) Cons.prems(3) 1
      by (metis Suc_lessD join_path_simps(2) nth_mem)
    moreover have "(slash # x @ join_path xs) ! i \<noteq> slash \<or> (slash # x @ join_path xs) ! Suc i \<noteq> slash"
    proof (cases i)
      case 0
      then have "(slash # x @ join_path xs) ! Suc i = hd x" using x by (simp add: nth_append hd_conv_nth)
      with x show ?thesis by (metis hd_in_set)
    next
      case (Suc j)
      then have "(slash # x @ join_path xs) ! i = x ! j" "j < length x" using 1 by (auto simp: nth_append)
      with x show ?thesis by (metis nth_mem)
    qed
    ultimately show ?thesis by (auto simp: bad_pair_def)
  next
    case 2
    then have "\<not> bad_pair (join_path xs) k" using Cons by auto
    with 2 show ?thesis by (simp add: bad_pair_def nth_append)
  qed
qed simp

lemma join_path_last:
  assumes "xs \<noteq> []" and "\<forall>x \<in> set xs. name_ok x"
  shows "join_path xs ! (length (join_path xs) - 1) \<noteq> slash"
proof -
  obtain ys y where xs: "xs = ys @ [y]" using assms(1) by (metis append_butlast_last_id)
  then have "y \<noteq> []" "last y \<noteq> slash" using assms(2) last_name_ok by auto
  then have "last (join_path xs) \<noteq> slash" using xs by simp
  moreover have "join_path xs \<noteq> []" using assms(1) by (cases xs) auto
  ultimately show ?thesis by (simp add: last_conv_nth)
qed

end
