(* ===== verification/FS_Core.thy ===== *)
theory FS_Core
  imports FS_State FS_Path
begin

text \<open>
  The operations of \<^verbatim>\<open>class FileSystem\<close> (\<^verbatim>\<open>src/filesys/file_system.cpp\<close>), statement by statement:
  path traversal with hand-over-hand locking, and the four request handlers.  One request runs
  on its own here: the handlers' lock calls act on the lock table, but no second thread runs in
  between; \<open>FS_Threads\<close> has the requests of several threads.  The contents of a stack variable
  before its first assignment are an argument (\<open>junk\<close>).
\<close>

subsection \<open>Path traversal\<close>

text \<open>The inner loop of \<^verbatim>\<open>find_next_inode\<close>: the first used entry of that name.\<close>

fun find_in_block :: "string \<Rightarrow> fs_direntry list \<Rightarrow> stop + nat" where
  "find_in_block nm [] = Inr UNDEFINED_BLOCK"
| "find_in_block nm (e # es) =
     (if de_inode_block e = 0 then find_in_block nm es
      else bindr (strcmp_eq (de_name e) (c_str nm)) (\<lambda>eq.
        if eq then Inr (de_inode_block e) else find_in_block nm es))"

fun find_in_blocks ::
  "('d, 'm) fs_env \<Rightarrow> string \<Rightarrow> nat list \<Rightarrow> nat list \<Rightarrow> (('d, 'm) FileSystem, nat) prog" where
  "find_in_blocks E nm bs [] = ret UNDEFINED_BLOCK"
| "find_in_blocks E nm bs (i # is) =
     bindp (lift (arr_get bs i)) (\<lambda>b.
     bindp (disk_readblock E b) (\<lambda>raw.
     bindp (lift (find_in_block nm (decode_dir raw))) (\<lambda>result.
     if result \<noteq> UNDEFINED_BLOCK then ret result else find_in_blocks E nm bs is)))"

definition find_next_inode ::
  "('d, 'm) fs_env \<Rightarrow> string \<Rightarrow> nat \<Rightarrow> string \<Rightarrow> (('d, 'm) FileSystem, nat) prog" where
  "find_next_inode E next_dir_name target_inode_block user_name =
     bindp (disk_readblock E target_inode_block) (\<lambda>raw.
     let curr_inode = decode_inode raw in
     bindp (if target_inode_block = 0 then ret True
            else bindp (lift (read_cstr (i_owner curr_inode))) (\<lambda>owner. ret (user_name = owner))) (\<lambda>allowed.
     if \<not> allowed then
       seqp (unlock_inode_read E target_inode_block)
         (halt (Runtime_error ''User is not owner of this dir''))
     else if i_type curr_inode \<noteq> CHR ''d'' then
       seqp (unlock_inode_read E target_inode_block)
         (halt (Runtime_error ''Expected a directory, but got a file''))
     else
     bindp (find_in_blocks E next_dir_name (i_blocks curr_inode) [0..<i_size curr_inode]) (\<lambda>result.
     if result = UNDEFINED_BLOCK then
       seqp (unlock_inode_read E target_inode_block) (halt (Runtime_error ''Directory not found''))
     else ret result)))"

text \<open>The \<^verbatim>\<open>while (directory_names.size() > 1)\<close> loop of \<^verbatim>\<open>find_parent_inode\<close>.\<close>

fun find_parent_loop ::
  "('d, 'm) fs_env \<Rightarrow> string \<Rightarrow> nat \<Rightarrow> string list \<Rightarrow> (('d, 'm) FileSystem, nat) prog" where
  "find_parent_loop E user target (dir_name # next_name # rest) =
     bindp (lift (strcmp_eq (c_str dir_name) (c_str []))) (\<lambda>is_empty.
     seqp (if is_empty then assertp (target = ROOT_INODE) else ret ())
     (bindp (find_next_inode E next_name target user) (\<lambda>next_target.
     seqp (lock_inode_read E next_target)
     (seqp (unlock_inode_read E target)
     (find_parent_loop E user next_target (next_name # rest))))))"
| "find_parent_loop E user target _ = ret target"

definition find_parent_inode ::
  "('d, 'm) fs_env \<Rightarrow> string \<Rightarrow> string \<Rightarrow> (('d, 'm) FileSystem, nat) prog" where
  "find_parent_inode E path_name user_name =
     bindp (lift (get_parent_dir path_name)) (\<lambda>parent_path.
     seqp (lock_inode_read E ROOT_INODE)
     (find_parent_loop E user_name ROOT_INODE (getline_split slash parent_path)))"

subsection \<open>Read\<close>

definition handle_read ::
  "('d, 'm) fs_env \<Rightarrow> Command \<Rightarrow> (('d, 'm) FileSystem, char list) prog" where
  "handle_read E command =
     bindp (find_parent_inode E (pathname command) (username command)) (\<lambda>parent_inode_block.
     bindp (lift (get_target (pathname command))) (\<lambda>target.
     bindp (find_next_inode E target parent_inode_block (username command)) (\<lambda>target_inode_block.
     seqp (lock_inode_read E target_inode_block)
     (seqp (unlock_inode_read E parent_inode_block)
     (bindp (disk_readblock E target_inode_block) (\<lambda>raw.
     let target_inode = decode_inode raw in
     if i_type target_inode \<noteq> CHR ''f'' \<or> i_size target_inode \<le> block command then
       seqp (unlock_inode_read E target_inode_block)
         (halt (Runtime_error ''Provided file is not a valid file''))
     else
     bindp (lift (read_cstr (i_owner target_inode))) (\<lambda>owner.
     if username command \<noteq> owner then
       seqp (unlock_inode_read E target_inode_block)
         (halt (Runtime_error ''User is not owner of file''))
     else
     bindp (lift (arr_get (i_blocks target_inode) (block command))) (\<lambda>b.
     bindp (disk_readblock E b) (\<lambda>data_read.
     seqp (unlock_inode_read E target_inode_block) (ret data_read))))))))))"

subsection \<open>Write\<close>

text \<open>Taking a block off the free list when the write extends the file.\<close>

definition extend_file ::
  "('d, 'm) fs_env \<Rightarrow> nat \<Rightarrow> fs_inode \<Rightarrow> (('d, 'm) FileSystem, fs_inode) prog" where
  "extend_file E target_inode_block target_inode =
     bindp (gets free_block_list) (\<lambda>fl.
     if fl = [] \<or> i_size target_inode = FS_MAXFILEBLOCKS then
       seqp (unlock_inode_upgrade E target_inode_block)
         (halt (Runtime_error ''Not enough disk space for this write''))
     else
       seqp (modify (\<lambda>s. s\<lparr>free_block_list := tl fl\<rparr>))
       (bindp (lift (arr_set (i_blocks target_inode) (i_size target_inode) (hd fl))) (\<lambda>bs.
       ret (target_inode\<lparr>i_blocks := bs, i_size := i_size target_inode + 1\<rparr>))))"

definition handle_write ::
  "('d, 'm) fs_env \<Rightarrow> Command \<Rightarrow> (('d, 'm) FileSystem, unit) prog" where
  "handle_write E command =
     bindp (find_parent_inode E (pathname command) (username command)) (\<lambda>parent_inode_block.
     bindp (lift (get_target (pathname command))) (\<lambda>target.
     bindp (find_next_inode E target parent_inode_block (username command)) (\<lambda>target_inode_block.
     seqp (lock_inode_upgrade E target_inode_block)
     (seqp (unlock_inode_read E parent_inode_block)
     (bindp (disk_readblock E target_inode_block) (\<lambda>raw.
     let target_inode = decode_inode raw in
     if i_type target_inode \<noteq> CHR ''f'' \<or> i_size target_inode < block command then
       seqp (unlock_inode_upgrade E target_inode_block)
         (halt (Runtime_error ''Provided block is not writable''))
     else
     bindp (lift (read_cstr (i_owner target_inode))) (\<lambda>owner.
     if username command \<noteq> owner then
       seqp (unlock_inode_upgrade E target_inode_block)
         (halt (Runtime_error ''User is not owner of file''))
     else
     let increase_file_size = (block command = i_size target_inode) in
     bindp (if increase_file_size then extend_file E target_inode_block target_inode
            else ret target_inode) (\<lambda>target_inode.
     seqp
      (if \<not> increase_file_size then
         seqp (upgrade_to_write_lock E target_inode_block)
         (bindp (lift (arr_get (i_blocks target_inode) (block command))) (\<lambda>b.
         disk_writeblock E b (data command)))
       else
         bindp (lift (arr_get (i_blocks target_inode) (block command))) (\<lambda>b.
         seqp (disk_writeblock E b (data command))
         (seqp (upgrade_to_write_lock E target_inode_block)
         (disk_writeblock E target_inode_block (encode_inode target_inode)))))
      (unlock_inode_write E target_inode_block)))))))))"

subsection \<open>Helpers of create and delete\<close>

definition get_parent_inode_and_upgradeable_lock ::
  "('d, 'm) fs_env \<Rightarrow> Command \<Rightarrow> string \<Rightarrow> (('d, 'm) FileSystem, nat) prog" where
  "get_parent_inode_and_upgradeable_lock E command parent_path =
     (if parent_path = [] then
        seqp (lock_inode_upgrade E ROOT_INODE) (ret ROOT_INODE)
      else
        bindp (find_parent_inode E parent_path (username command)) (\<lambda>grandparent_inode_block.
        bindp (lift (get_target parent_path)) (\<lambda>parent_dirname.
        bindp (find_next_inode E parent_dirname grandparent_inode_block (username command)) (\<lambda>parent_inode_block.
        seqp (lock_inode_upgrade E parent_inode_block)
        (seqp (unlock_inode_read E grandparent_inode_block) (ret parent_inode_block))))))"

definition validate_parent_inode ::
  "('d, 'm) fs_env \<Rightarrow> Command \<Rightarrow> string \<Rightarrow> fs_inode \<Rightarrow> nat \<Rightarrow> (('d, 'm) FileSystem, unit) prog" where
  "validate_parent_inode E command parent_path parent_inode parent_inode_block =
     bindp (if parent_path = [] then ret False
            else if i_type parent_inode \<noteq> CHR ''d'' then ret True
            else bindp (lift (read_cstr (i_owner parent_inode))) (\<lambda>owner. ret (owner \<noteq> username command))) (\<lambda>bad.
     if bad then
       seqp (unlock_inode_upgrade E parent_inode_block)
         (halt (Runtime_error ''Expected a directory, but got a file or user is not owner lol''))
     else ret ())"

definition is_block_empty :: "fs_direntry list \<Rightarrow> bool" where
  "is_block_empty dir_block = list_all (\<lambda>e. de_inode_block e = 0) dir_block"

definition zero_direntry :: fs_direntry where
  "zero_direntry = \<lparr>de_name = replicate (FS_MAXFILENAME + 1) NUL, de_inode_block = 0\<rparr>"

subsection \<open>Create\<close>

record create_scan =
  is_empty_direntry :: bool
  new_direntry_block :: nat
  new_direntry_location :: nat
  updated_direntries_block :: "fs_direntry list"

definition create_scan_init :: create_scan where
  "create_scan_init =
     \<lparr>is_empty_direntry = False, new_direntry_block = UNDEFINED_BLOCK, new_direntry_location = 0,
      updated_direntries_block = replicate FS_DIRENTRIES zero_direntry\<rparr>"

text \<open>
  The two nested loops that look for a free slot and for an entry with the same name; \<open>None\<close>
  stands for the duplicate name, where the code unlocks and throws.
\<close>

fun create_scan_entries ::
  "string \<Rightarrow> nat \<Rightarrow> fs_direntry list \<Rightarrow> nat list \<Rightarrow> create_scan \<Rightarrow> stop + create_scan option" where
  "create_scan_entries target_name b tmp_block [] st = Inr (Some st)"
| "create_scan_entries target_name b tmp_block (j # js) st =
     bindr (arr_get tmp_block j) (\<lambda>e.
     if de_inode_block e = 0 then
       create_scan_entries target_name b tmp_block js
         (if \<not> is_empty_direntry st then
            \<lparr>is_empty_direntry = True, new_direntry_block = b, new_direntry_location = j,
             updated_direntries_block = tmp_block\<rparr>
          else st)
     else bindr (strcmp_eq (de_name e) (c_str target_name)) (\<lambda>eq.
       if eq then Inr None else create_scan_entries target_name b tmp_block js st))"

fun create_scan_blocks ::
  "('d, 'm) fs_env \<Rightarrow> string \<Rightarrow> nat list \<Rightarrow> nat list \<Rightarrow> create_scan \<Rightarrow>
     (('d, 'm) FileSystem, create_scan option) prog" where
  "create_scan_blocks E target_name bs [] st = ret (Some st)"
| "create_scan_blocks E target_name bs (i # is) st =
     bindp (lift (arr_get bs i)) (\<lambda>b.
     bindp (disk_readblock E b) (\<lambda>raw.
     bindp (lift (create_scan_entries target_name b (decode_dir raw) [0..<FS_DIRENTRIES] st)) (\<lambda>r.
     case r of None \<Rightarrow> ret None | Some st' \<Rightarrow> create_scan_blocks E target_name bs is st')))"

definition fill_direntry :: "string \<Rightarrow> nat \<Rightarrow> nat \<Rightarrow> fs_direntry list \<Rightarrow> stop + fs_direntry list" where
  "fill_direntry target_name new_inode_block loc es =
     bindr (arr_get es loc) (\<lambda>e.
     bindr (strcpy (de_name e) (c_str target_name)) (\<lambda>nm.
     arr_set es loc \<lparr>de_name = nm, de_inode_block = new_inode_block\<rparr>))"

definition make_inode :: "fs_inode \<Rightarrow> Command \<Rightarrow> stop + fs_inode" where
  "make_inode junk command =
     bindr (strcpy (i_owner junk) (c_str (username command))) (\<lambda>ow.
     Inr (junk\<lparr>i_size := 0, i_owner := ow, i_type := ctype command\<rparr>))"

text \<open>
  \<open>grow_directory\<close> is lines 549-562: it takes a block for new directory entries off the free
  list.  The inode block taken before is not given back when this fails.
\<close>

definition grow_directory ::
  "('d, 'm) fs_env \<Rightarrow> nat \<Rightarrow> fs_inode \<Rightarrow> (('d, 'm) FileSystem, nat \<times> fs_inode) prog" where
  "grow_directory E parent_inode_block parent_inode =
     bindp (gets free_block_list) (\<lambda>fl.
     if fl = [] \<or> i_size parent_inode = FS_MAXFILEBLOCKS then
       seqp (unlock_inode_upgrade E parent_inode_block)
         (halt (Runtime_error ''Not enough disk space for create''))
     else
       bindp (lift (arr_set (i_blocks parent_inode) (i_size parent_inode) (hd fl))) (\<lambda>bs.
       seqp (modify (\<lambda>s. s\<lparr>free_block_list := tl fl\<rparr>))
       (ret (hd fl, parent_inode\<lparr>i_blocks := bs\<rparr>))))"

text \<open>\<open>create_commit\<close> is lines 529-585: allocation and the disk writes.\<close>

definition create_commit ::
  "('d, 'm) fs_env \<Rightarrow> fs_inode \<Rightarrow> Command \<Rightarrow> string \<Rightarrow> nat \<Rightarrow> fs_inode \<Rightarrow> create_scan \<Rightarrow>
     (('d, 'm) FileSystem, unit) prog" where
  "create_commit E junk command target_name parent_inode_block parent_inode st =
     bindp (gets free_block_list) (\<lambda>fl.
     if fl = [] then halt (Runtime_error ''Not enough disk space for create'')
     else
     let new_inode_block = hd fl in
     seqp (modify (\<lambda>s. s\<lparr>free_block_list := tl fl\<rparr>))
     (bindp (lift (fill_direntry target_name new_inode_block (new_direntry_location st)
                    (updated_direntries_block st))) (\<lambda>updated.
     bindp (lift (make_inode junk command)) (\<lambda>new_inode.
     bindp (if \<not> is_empty_direntry st then grow_directory E parent_inode_block parent_inode
            else ret (new_direntry_block st, parent_inode)) (\<lambda>(new_direntry_block, parent_inode).
     seqp (disk_writeblock E new_inode_block (encode_inode new_inode))
     (seqp
       (if is_empty_direntry st then
          seqp (upgrade_to_write_lock E parent_inode_block)
          (disk_writeblock E new_direntry_block (encode_dir updated))
        else
          seqp (disk_writeblock E new_direntry_block (encode_dir updated))
          (seqp (upgrade_to_write_lock E parent_inode_block)
          (disk_writeblock E parent_inode_block
            (encode_inode (parent_inode\<lparr>i_size := i_size parent_inode + 1\<rparr>)))))
       (unlock_inode_write E parent_inode_block)))))))"

definition handle_create ::
  "('d, 'm) fs_env \<Rightarrow> fs_inode \<Rightarrow> Command \<Rightarrow> (('d, 'm) FileSystem, unit) prog" where
  "handle_create E junk command =
     bindp (lift (get_parent_dir (pathname command))) (\<lambda>parent_path.
     bindp (lift (get_target (pathname command))) (\<lambda>target_name.
     bindp (get_parent_inode_and_upgradeable_lock E command parent_path) (\<lambda>parent_inode_block.
     bindp (disk_readblock E parent_inode_block) (\<lambda>raw.
     let parent_inode = decode_inode raw in
     seqp (validate_parent_inode E command parent_path parent_inode parent_inode_block)
     (bindp (create_scan_blocks E target_name (i_blocks parent_inode) [0..<i_size parent_inode]
               create_scan_init) (\<lambda>r.
     case r of
       None \<Rightarrow>
         seqp (unlock_inode_upgrade E parent_inode_block) (halt (Runtime_error ''Path already exists''))
     | Some st \<Rightarrow>
         create_commit E junk command target_name parent_inode_block parent_inode
           (if is_empty_direntry st then st
            else st\<lparr>updated_direntries_block :=
                   map (\<lambda>e. e\<lparr>de_inode_block := 0\<rparr>) (updated_direntries_block st)\<rparr>)))))))"

subsection \<open>Delete\<close>

fun delete_scan_entries :: "string \<Rightarrow> fs_direntry list \<Rightarrow> nat list \<Rightarrow> stop + nat option" where
  "delete_scan_entries target_name dir_block [] = Inr None"
| "delete_scan_entries target_name dir_block (j # js) =
     bindr (arr_get dir_block j) (\<lambda>e.
     if de_inode_block e = 0 then delete_scan_entries target_name dir_block js
     else bindr (strcmp_eq (de_name e) (c_str target_name)) (\<lambda>eq.
       if eq then Inr (Some j) else delete_scan_entries target_name dir_block js))"

text \<open>The result is \<^verbatim>\<open>dir_block_index\<close>, \<^verbatim>\<open>dir_entry_index\<close> and \<^verbatim>\<open>dir_block\<close>.\<close>

fun delete_scan_blocks ::
  "('d, 'm) fs_env \<Rightarrow> string \<Rightarrow> nat list \<Rightarrow> nat list \<Rightarrow>
     (('d, 'm) FileSystem, (nat \<times> nat \<times> fs_direntry list) option) prog" where
  "delete_scan_blocks E target_name bs [] = ret None"
| "delete_scan_blocks E target_name bs (i # is) =
     bindp (lift (arr_get bs i)) (\<lambda>b.
     bindp (disk_readblock E b) (\<lambda>raw.
     bindp (lift (delete_scan_entries target_name (decode_dir raw) [0..<FS_DIRENTRIES])) (\<lambda>r.
     case r of Some j \<Rightarrow> ret (Some (i, j, decode_dir raw)) | None \<Rightarrow> delete_scan_blocks E target_name bs is)))"

text \<open>\<^verbatim>\<open>for (i = dir_block_index; i < size - 1; ++i) blocks[i] = blocks[i + 1]\<close>\<close>

fun shift_blocks :: "nat list \<Rightarrow> nat list \<Rightarrow> stop + nat list" where
  "shift_blocks bs [] = Inr bs"
| "shift_blocks bs (i # is) =
     bindr (arr_get bs (i + 1)) (\<lambda>v. bindr (arr_set bs i v) (\<lambda>bs'. shift_blocks bs' is))"

fun free_file_blocks :: "nat list \<Rightarrow> nat list \<Rightarrow> (('d, 'm) FileSystem, unit) prog" where
  "free_file_blocks bs [] = ret ()"
| "free_file_blocks bs (i # is) =
     bindp (lift (arr_get bs i)) (\<lambda>data_block.
     seqp (modify (\<lambda>s. s\<lparr>free_block_list := free_block_list s @ [data_block]\<rparr>))
     (free_file_blocks bs is))"

text \<open>\<open>remove_entry\<close> is lines 717-740: clearing the slot, and giving back an empty directory block.\<close>

definition remove_entry ::
  "('d, 'm) fs_env \<Rightarrow> nat \<Rightarrow> fs_inode \<Rightarrow> nat \<Rightarrow> nat \<Rightarrow> fs_direntry list \<Rightarrow> (('d, 'm) FileSystem, unit) prog" where
  "remove_entry E parent_inode_block parent_inode dir_block_index dir_entry_index dir_block =
     bindp (lift (arr_set dir_block dir_entry_index zero_direntry)) (\<lambda>dir_block.
     bindp (lift (arr_get (i_blocks parent_inode) dir_block_index)) (\<lambda>entry_block.
     if is_block_empty dir_block then
       bindp (lift (shift_blocks (i_blocks parent_inode) [dir_block_index..<i_size parent_inode - 1])) (\<lambda>bs.
       seqp (disk_writeblock E parent_inode_block
              (encode_inode (parent_inode\<lparr>i_blocks := bs, i_size := i_size parent_inode - 1\<rparr>)))
       (modify (\<lambda>s. s\<lparr>free_block_list := free_block_list s @ [entry_block]\<rparr>)))
     else disk_writeblock E entry_block (encode_dir dir_block)))"

text \<open>\<open>delete_child\<close> is lines 688-769: everything after the entry has been found.\<close>

definition delete_child ::
  "('d, 'm) fs_env \<Rightarrow> Command \<Rightarrow> nat \<Rightarrow> fs_inode \<Rightarrow> nat \<Rightarrow> nat \<Rightarrow> fs_direntry list \<Rightarrow>
     (('d, 'm) FileSystem, unit) prog" where
  "delete_child E command parent_inode_block parent_inode dir_block_index dir_entry_index dir_block =
     bindp (lift (arr_get dir_block dir_entry_index)) (\<lambda>entry.
     let child_inode_block = de_inode_block entry in
     seqp (upgrade_to_write_lock E parent_inode_block)
     (seqp (lock_inode_upgrade E child_inode_block)
     (bindp (disk_readblock E child_inode_block) (\<lambda>raw.
     let child_inode = decode_inode raw in
     bindp (lift (read_cstr (i_owner child_inode))) (\<lambda>owner.
     if owner \<noteq> username command then
       seqp (unlock_inode_write E parent_inode_block)
       (seqp (unlock_inode_upgrade E child_inode_block)
       (halt (Runtime_error ''User is not owner of the target'')))
     else if i_type child_inode = CHR ''d'' \<and> i_size child_inode \<noteq> 0 then
       seqp (unlock_inode_write E parent_inode_block)
       (seqp (unlock_inode_upgrade E child_inode_block)
       (halt (Runtime_error ''Directory not empty'')))
     else
       seqp (remove_entry E parent_inode_block parent_inode dir_block_index dir_entry_index dir_block)
       (seqp (upgrade_to_write_lock E child_inode_block)
       (seqp (unlock_inode_write E parent_inode_block)
       (seqp (modify (\<lambda>s. s\<lparr>free_block_list := free_block_list s @ [child_inode_block]\<rparr>))
       (seqp (if i_type child_inode = CHR ''f''
              then free_file_blocks (i_blocks child_inode) [0..<i_size child_inode] else ret ())
       (unlock_inode_write E child_inode_block))))))))))"

definition handle_delete ::
  "('d, 'm) fs_env \<Rightarrow> Command \<Rightarrow> (('d, 'm) FileSystem, unit) prog" where
  "handle_delete E command =
     bindp (lift (strcmp_eq (c_str (pathname command)) (c_str [slash]))) (\<lambda>is_root.
     if is_root then halt (Runtime_error ''Attempting to delete root'')
     else
     bindp (lift (get_parent_dir (pathname command))) (\<lambda>parent_path.
     bindp (lift (get_target (pathname command))) (\<lambda>target_name.
     bindp (get_parent_inode_and_upgradeable_lock E command parent_path) (\<lambda>parent_inode_block.
     bindp (disk_readblock E parent_inode_block) (\<lambda>raw.
     let parent_inode = decode_inode raw in
     seqp (validate_parent_inode E command parent_path parent_inode parent_inode_block)
     (bindp (delete_scan_blocks E target_name (i_blocks parent_inode) [0..<i_size parent_inode]) (\<lambda>r.
     case r of
       None \<Rightarrow>
         seqp (unlock_inode_upgrade E parent_inode_block) (halt (Runtime_error ''Target does not exist''))
     | Some (dir_block_index, dir_entry_index, dir_block) \<Rightarrow>
         delete_child E command parent_inode_block parent_inode dir_block_index dir_entry_index dir_block)))))))"

end
