(* ===== verification/FS_Inv.thy ===== *)
theory FS_Inv
  imports FS_Core
begin

text \<open>
  The structure of a well-formed disk: the inodes in use form a tree rooted at block 0, every
  block belongs to at most one inode, entries of a directory have distinct names.  Path
  resolution over that structure (\<open>walk\<close>) is related to the traversal code of \<open>FS_Core\<close>:
  on a well-formed disk the traversal reads no uninitialised string, trips no assertion,
  blocks on no lock, and leaves exactly one lock behind, or none when it throws.
\<close>

subsection \<open>What the blocks of a disk mean\<close>

definition inode_at :: "('d, 'm) fs_env \<Rightarrow> 'd \<Rightarrow> nat \<Rightarrow> fs_inode" where
  "inode_at E d n = decode_inode (blk E d n)"

definition dir_at :: "('d, 'm) fs_env \<Rightarrow> 'd \<Rightarrow> nat \<Rightarrow> fs_direntry list" where
  "dir_at E d b = decode_dir (blk E d b)"

definition inode_blocks :: "('d, 'm) fs_env \<Rightarrow> 'd \<Rightarrow> nat \<Rightarrow> nat list" where
  "inode_blocks E d n = take (i_size (inode_at E d n)) (i_blocks (inode_at E d n))"

definition owned :: "('d, 'm) fs_env \<Rightarrow> 'd \<Rightarrow> nat \<Rightarrow> nat list" where
  "owned E d n = n # inode_blocks E d n"

definition is_dir :: "('d, 'm) fs_env \<Rightarrow> 'd \<Rightarrow> nat \<Rightarrow> bool" where
  "is_dir E d n \<longleftrightarrow> i_type (inode_at E d n) = CHR ''d''"

definition owner_at :: "('d, 'm) fs_env \<Rightarrow> 'd \<Rightarrow> nat \<Rightarrow> string" where
  "owner_at E d n = cstr (i_owner (inode_at E d n))"

definition used_entries :: "fs_direntry list \<Rightarrow> (string \<times> nat) list" where
  "used_entries es =
     map (\<lambda>e. (cstr (de_name e), de_inode_block e)) (filter (\<lambda>e. de_inode_block e \<noteq> 0) es)"

definition dir_entries :: "('d, 'm) fs_env \<Rightarrow> 'd \<Rightarrow> nat \<Rightarrow> (string \<times> nat) list" where
  "dir_entries E d n = concat (map (\<lambda>b. used_entries (dir_at E d b)) (inode_blocks E d n))"

text \<open>Path resolution over the directory structure.\<close>

fun walk :: "('d, 'm) fs_env \<Rightarrow> 'd \<Rightarrow> nat \<Rightarrow> string list \<Rightarrow> nat option" where
  "walk E d n [] = Some n"
| "walk E d n (x # xs) =
     (if is_dir E d n then
        (case map_of (dir_entries E d n) x of None \<Rightarrow> None | Some m \<Rightarrow> walk E d m xs)
      else None)"

subsection \<open>Well-formed disks\<close>

definition inode_ok :: "('d, 'm) fs_env \<Rightarrow> 'd \<Rightarrow> nat \<Rightarrow> bool" where
  "inode_ok E d n \<longleftrightarrow>
     i_type (inode_at E d n) \<in> {CHR ''f'', CHR ''d''} \<and>
     NUL \<in> set (i_owner (inode_at E d n)) \<and>
     i_size (inode_at E d n) \<le> FS_MAXFILEBLOCKS \<and>
     distinct (owned E d n) \<and> (\<forall>b \<in> set (owned E d n). b < FS_DISKSIZE)"

definition dir_block_ok :: "fs_direntry list \<Rightarrow> bool" where
  "dir_block_ok es \<longleftrightarrow>
     (\<forall>e \<in> set es. de_inode_block e \<noteq> 0 \<longrightarrow> NUL \<in> set (de_name e)) \<and> used_entries es \<noteq> []"

definition dir_ok :: "('d, 'm) fs_env \<Rightarrow> 'd \<Rightarrow> nat set \<Rightarrow> nat \<Rightarrow> bool" where
  "dir_ok E d I n \<longleftrightarrow>
     (\<forall>b \<in> set (inode_blocks E d n). dir_block_ok (dir_at E d b)) \<and>
     distinct (map fst (dir_entries E d n)) \<and> distinct (map snd (dir_entries E d n)) \<and>
     snd ` set (dir_entries E d n) \<subseteq> I"

text \<open>\<open>I\<close> is the set of the inode blocks in use.\<close>

definition fs_wf :: "('d, 'm) fs_env \<Rightarrow> 'd \<Rightarrow> nat set \<Rightarrow> bool" where
  "fs_wf E d I \<longleftrightarrow>
     0 \<in> I \<and> is_dir E d 0 \<and>
     (\<forall>n \<in> I. inode_ok E d n) \<and>
     (\<forall>n \<in> I. is_dir E d n \<longrightarrow> dir_ok E d I n) \<and>
     (\<forall>n \<in> I. \<forall>m \<in> I. n \<noteq> m \<longrightarrow> set (owned E d n) \<inter> set (owned E d m) = {}) \<and>
     (\<forall>n \<in> I. \<forall>m \<in> I. n \<noteq> m \<longrightarrow> is_dir E d n \<longrightarrow> is_dir E d m \<longrightarrow>
        snd ` set (dir_entries E d n) \<inter> snd ` set (dir_entries E d m) = {})"

definition free_ok :: "('d, 'm) fs_env \<Rightarrow> 'd \<Rightarrow> nat set \<Rightarrow> nat list \<Rightarrow> bool" where
  "free_ok E d I fr \<longleftrightarrow>
     distinct fr \<and> (\<forall>b \<in> set fr. b < FS_DISKSIZE) \<and> (\<forall>n \<in> I. set (owned E d n) \<inter> set fr = {})"

lemma fs_wfD:
  assumes "fs_wf E d I"
  shows fs_wf_root: "0 \<in> I" "is_dir E d 0"
    and fs_wf_inode: "n \<in> I \<Longrightarrow> inode_ok E d n"
    and fs_wf_dir: "n \<in> I \<Longrightarrow> is_dir E d n \<Longrightarrow> dir_ok E d I n"
    and fs_wf_owned: "n \<in> I \<Longrightarrow> m \<in> I \<Longrightarrow> b \<in> set (owned E d n) \<Longrightarrow> b \<in> set (owned E d m) \<Longrightarrow> n = m"
    and fs_wf_parent: "n \<in> I \<Longrightarrow> m \<in> I \<Longrightarrow> is_dir E d n \<Longrightarrow> is_dir E d m \<Longrightarrow>
      (x, c) \<in> set (dir_entries E d n) \<Longrightarrow> (y, c) \<in> set (dir_entries E d m) \<Longrightarrow> n = m"
proof -
  show "0 \<in> I" "is_dir E d 0" "n \<in> I \<Longrightarrow> inode_ok E d n"
    "n \<in> I \<Longrightarrow> is_dir E d n \<Longrightarrow> dir_ok E d I n"
    using assms by (auto simp: fs_wf_def)
  have "\<And>n m. n \<in> I \<Longrightarrow> m \<in> I \<Longrightarrow> n \<noteq> m \<Longrightarrow> set (owned E d n) \<inter> set (owned E d m) = {}"
    using assms unfolding fs_wf_def by blast
  then show "n \<in> I \<Longrightarrow> m \<in> I \<Longrightarrow> b \<in> set (owned E d n) \<Longrightarrow> b \<in> set (owned E d m) \<Longrightarrow> n = m"
    by blast
  have "\<And>n m. n \<in> I \<Longrightarrow> m \<in> I \<Longrightarrow> n \<noteq> m \<Longrightarrow> is_dir E d n \<Longrightarrow> is_dir E d m \<Longrightarrow>
      snd ` set (dir_entries E d n) \<inter> snd ` set (dir_entries E d m) = {}"
    using assms unfolding fs_wf_def by blast
  then show "n \<in> I \<Longrightarrow> m \<in> I \<Longrightarrow> is_dir E d n \<Longrightarrow> is_dir E d m \<Longrightarrow>
      (x, c) \<in> set (dir_entries E d n) \<Longrightarrow> (y, c) \<in> set (dir_entries E d m) \<Longrightarrow> n = m"
    by (metis disjoint_iff image_eqI snd_conv)
qed

lemma inode_in_owned [simp]: "n \<in> set (owned E d n)"
  by (simp add: owned_def)

lemma inode_blocks_owned: "b \<in> set (inode_blocks E d n) \<Longrightarrow> b \<in> set (owned E d n)"
  by (simp add: owned_def)

lemma fs_wf_inode_less: "fs_wf E d I \<Longrightarrow> n \<in> I \<Longrightarrow> n < FS_DISKSIZE"
  using fs_wf_inode [of E d I n] inode_in_owned [of n E d] by (auto simp: inode_ok_def)

lemma fs_wf_block_less: "fs_wf E d I \<Longrightarrow> n \<in> I \<Longrightarrow> b \<in> set (inode_blocks E d n) \<Longrightarrow> b < FS_DISKSIZE"
  using fs_wf_inode [of E d I n] inode_blocks_owned [of b E d n] by (auto simp: inode_ok_def)

lemma fs_wf_entry: "fs_wf E d I \<Longrightarrow> n \<in> I \<Longrightarrow> is_dir E d n \<Longrightarrow> (x, m) \<in> set (dir_entries E d n) \<Longrightarrow> m \<in> I"
  using fs_wf_dir [of E d I n] by (auto simp: dir_ok_def image_subset_iff)

lemma used_entries_nonzero: "(x, m) \<in> set (used_entries es) \<Longrightarrow> m \<noteq> 0"
  by (auto simp: used_entries_def)

lemma dir_entries_nonzero: "(x, m) \<in> set (dir_entries E d n) \<Longrightarrow> m \<noteq> 0"
  by (auto simp: dir_entries_def dest: used_entries_nonzero)

subsection \<open>Resolution is injective: the inodes in use form a tree\<close>

lemma walk_append:
  "walk E d n (p @ q) = (case walk E d n p of None \<Rightarrow> None | Some m \<Rightarrow> walk E d m q)"
  by (induction p arbitrary: n) (auto split: option.splits)

lemma walk_snoc_iff:
  "walk E d n (p @ [x]) = Some c \<longleftrightarrow>
     (\<exists>m. walk E d n p = Some m \<and> is_dir E d m \<and> map_of (dir_entries E d m) x = Some c)"
  by (auto simp: walk_append split: option.splits if_splits)

lemma walk_in:
  assumes "fs_wf E d I" and "n \<in> I" and "walk E d n p = Some m"
  shows "m \<in> I"
  using assms(2,3)
proof (induction p arbitrary: n)
  case (Cons x p)
  then obtain c where "is_dir E d n" "map_of (dir_entries E d n) x = Some c" "walk E d c p = Some m"
    by (auto split: if_splits option.splits)
  with Cons fs_wf_entry [OF assms(1), of n x c] show ?case by (auto dest: map_of_SomeD)
qed simp

lemma walk_root_in: "fs_wf E d I \<Longrightarrow> walk E d 0 p = Some m \<Longrightarrow> m \<in> I"
  by (rule walk_in [OF _ fs_wf_root(1)])

lemma walk_nonroot:
  assumes "walk E d 0 (p @ [x]) = Some m"
  shows "m \<noteq> 0"
  using assms by (auto simp: walk_snoc_iff dest: map_of_SomeD dir_entries_nonzero)

lemma walk_inj:
  assumes wf: "fs_wf E d I" and "walk E d 0 p = Some n" and "walk E d 0 q = Some n"
  shows "p = q"
  using assms(2,3)
proof (induction p arbitrary: q n rule: rev_induct)
  case Nil
  then show ?case using walk_nonroot [of E d "butlast q" "last q" n] by (cases "q = []") auto
next
  case (snoc x p)
  have "n \<noteq> 0" using snoc.prems(1) by (rule walk_nonroot)
  then obtain q' y where q: "q = q' @ [y]" using snoc.prems(2) by (cases q rule: rev_cases) auto
  obtain a where a: "walk E d 0 p = Some a" "is_dir E d a" "map_of (dir_entries E d a) x = Some n"
    using snoc.prems(1) by (auto simp: walk_snoc_iff)
  obtain b where b: "walk E d 0 q' = Some b" "is_dir E d b" "map_of (dir_entries E d b) y = Some n"
    using snoc.prems(2) q by (auto simp: walk_snoc_iff)
  have I: "a \<in> I" "b \<in> I" using walk_root_in [OF wf] a(1) b(1) by simp_all
  have "a = b" by (rule fs_wf_parent [OF wf I a(2) b(2) map_of_SomeD [OF a(3)] map_of_SomeD [OF b(3)]])
  then have "p = q'" using snoc.IH a(1) b(1) by simp
  moreover have "x = y"
  proof -
    have "distinct (map snd (dir_entries E d a))" using fs_wf_dir [OF wf I(1) a(2)] by (simp add: dir_ok_def)
    moreover have "(x, n) \<in> set (dir_entries E d a)" "(y, n) \<in> set (dir_entries E d a)"
      using a(3) b(3) \<open>a = b\<close> by (auto dest: map_of_SomeD)
    ultimately show ?thesis by (metis distinct_map fst_conv inj_onD snd_conv)
  qed
  ultimately show ?case using q by simp
qed

corollary walk_child_neq:
  assumes "fs_wf E d I" and "walk E d 0 p = Some n" and "walk E d 0 (p @ [x]) = Some c"
  shows "c \<noteq> n"
  using walk_inj [OF assms(1)] assms(2,3) by (metis append_self_conv not_Cons_self2)

lemma fs_wf_root_owned: "fs_wf E d I \<Longrightarrow> n \<in> I \<Longrightarrow> n \<in> set (owned E d m) \<Longrightarrow> m \<in> I \<Longrightarrow> m = n"
  using fs_wf_owned [of E d I m n n] inode_in_owned by metis

subsection \<open>The traversal code on a well-formed disk\<close>

text \<open>One step of the traversal as user \<open>u\<close>, with the code's error messages.\<close>

definition step_dir :: "('d, 'm) fs_env \<Rightarrow> 'd \<Rightarrow> string \<Rightarrow> nat \<Rightarrow> string \<Rightarrow> stop + nat" where
  "step_dir E d u n nm =
     (if n \<noteq> 0 \<and> u \<noteq> owner_at E d n then Inl (Runtime_error ''User is not owner of this dir'')
      else if \<not> is_dir E d n then Inl (Runtime_error ''Expected a directory, but got a file'')
      else case map_of (dir_entries E d n) nm of
             None \<Rightarrow> Inl (Runtime_error ''Directory not found'')
           | Some m \<Rightarrow> Inr m)"

fun walk_as :: "('d, 'm) fs_env \<Rightarrow> 'd \<Rightarrow> string \<Rightarrow> nat \<Rightarrow> string list \<Rightarrow> stop + nat" where
  "walk_as E d u n [] = Inr n"
| "walk_as E d u n (x # xs) = bindr (step_dir E d u n x) (\<lambda>m. walk_as E d u m xs)"

lemma walk_as_append:
  "walk_as E d u n (p @ q) = bindr (walk_as E d u n p) (\<lambda>m. walk_as E d u m q)"
  by (induction p arbitrary: n) (auto simp: bindr_def split: sum.splits)

lemma step_dir_Inr:
  "step_dir E d u n x = Inr m \<longleftrightarrow>
     (n = 0 \<or> u = owner_at E d n) \<and> is_dir E d n \<and> map_of (dir_entries E d n) x = Some m"
  by (auto simp: step_dir_def split: option.splits)

lemma step_dir_Inl: "step_dir E d u n x = Inl e \<Longrightarrow> \<exists>msg. e = Runtime_error msg"
  by (auto simp: step_dir_def split: option.splits if_splits)

lemma walk_as_Inl: "walk_as E d u n p = Inl e \<Longrightarrow> \<exists>msg. e = Runtime_error msg"
  by (induction p arbitrary: n) (auto simp: bindr_def split: sum.splits dest: step_dir_Inl)

lemma walk_as_walk: "walk_as E d u n p = Inr m \<Longrightarrow> walk E d n p = Some m"
  by (induction p arbitrary: n) (auto simp: bindr_eq_Inr step_dir_Inr)

lemma find_in_block_map_of:
  assumes "NUL \<notin> set nm" and "\<forall>e \<in> set es. de_inode_block e \<noteq> 0 \<longrightarrow> NUL \<in> set (de_name e)"
  shows "find_in_block nm es =
    Inr (case map_of (used_entries es) nm of None \<Rightarrow> UNDEFINED_BLOCK | Some m \<Rightarrow> m)"
  using assms by (induction es) (auto simp: used_entries_def)

text \<open>Reading the entries of a list of directory blocks.\<close>

definition readable_dir :: "('d, 'm) fs_env \<Rightarrow> 'd \<Rightarrow> nat \<Rightarrow> bool" where
  "readable_dir E d b \<longleftrightarrow> b < FS_DISKSIZE \<and> dir_block_ok (dir_at E d b) \<and>
     (\<forall>(x, m) \<in> set (used_entries (dir_at E d b)). m < FS_DISKSIZE)"

lemma map_nth_take: "k \<le> length bs \<Longrightarrow> map (\<lambda>i. f (bs ! i)) [0..<k] = map f (take k bs)"
  by (rule nth_equalityI) auto

lemma fs_wf_readable:
  assumes wf: "fs_wf E d I" and n: "n \<in> I" "is_dir E d n" and b: "b \<in> set (inode_blocks E d n)"
  shows "readable_dir E d b"
proof -
  have "dir_block_ok (dir_at E d b)" using fs_wf_dir [OF wf n] b by (simp add: dir_ok_def)
  moreover have "m < FS_DISKSIZE" if "(x, m) \<in> set (used_entries (dir_at E d b))" for x m
  proof -
    have "(x, m) \<in> set (dir_entries E d n)" using that b by (auto simp: dir_entries_def)
    then show ?thesis using fs_wf_entry [OF wf n] fs_wf_inode_less [OF wf] by blast
  qed
  ultimately show ?thesis using fs_wf_block_less [OF wf n(1) b] by (auto simp: readable_dir_def)
qed

context fs_device
begin

lemma length_inode_at [simp]:
  "n < FS_DISKSIZE \<Longrightarrow> length (i_blocks (inode_at E d n)) = FS_MAXFILEBLOCKS"
  "n < FS_DISKSIZE \<Longrightarrow> length (i_owner (inode_at E d n)) = FS_MAXUSERNAME + 1"
  using inode_fits_decode [OF length_blk, of n d] by (simp_all add: inode_at_def inode_fits_def)

lemma length_dir_at [simp]: "b < FS_DISKSIZE \<Longrightarrow> length (dir_at E d b) = FS_DIRENTRIES"
  using dir_fits_decode [OF length_blk, of b d] by (simp add: dir_at_def dir_fits_def)

lemma inode_block_in:
  assumes "n < FS_DISKSIZE" "i_size (inode_at E d n) \<le> FS_MAXFILEBLOCKS" "k < i_size (inode_at E d n)"
  shows "i_blocks (inode_at E d n) ! k \<in> set (inode_blocks E d n)"
    "inode_blocks E d n ! k = i_blocks (inode_at E d n) ! k" "k < length (inode_blocks E d n)"
  using assms by (auto simp: inode_blocks_def in_set_conv_nth)

lemma find_in_blocks_map_of:
  assumes "NUL \<notin> set nm" and "\<forall>i \<in> set is. i < length bs \<and> readable_dir E (disk s) (bs ! i)"
  shows "find_in_blocks E nm bs is s =
    (Inr (case map_of (concat (map (\<lambda>i. used_entries (dir_at E (disk s) (bs ! i))) is)) nm of
            None \<Rightarrow> UNDEFINED_BLOCK | Some m \<Rightarrow> m), s)"
  using assms(2)
proof (induction "is")
  case (Cons i "is")
  let ?es = "dir_at E (disk s) (bs ! i)"
  have i: "i < length bs" "bs ! i < FS_DISKSIZE" "dir_block_ok ?es"
    and small: "\<And>x m. map_of (used_entries ?es) x = Some m \<Longrightarrow> m < FS_DISKSIZE"
    using Cons.prems by (auto simp: readable_dir_def dest: map_of_SomeD)
  have "find_in_block nm ?es = Inr (case map_of (used_entries ?es) nm of None \<Rightarrow> UNDEFINED_BLOCK | Some m \<Rightarrow> m)"
    using i(3) by (intro find_in_block_map_of assms(1)) (simp add: dir_block_ok_def)
  then show ?case using Cons i small [of nm]
    by (auto simp: prog_simps dir_at_def [symmetric] map_add_def UNDEFINED_BLOCK_def split: option.splits)
qed (simp add: prog_simps)

lemma find_next_inode_step:
  assumes wf: "fs_wf E (disk s) I" and n: "n \<in> I" and nm: "NUL \<notin> set nm"
    and g: "lock_map s n = Some g" "num_readers g = 1"
  shows "find_next_inode E nm n u s =
    (case step_dir E (disk s) u n nm of
       Inl e \<Rightarrow> (Inl e, s\<lparr>lock_map := (lock_map s)(n := None)\<rparr>)
     | Inr m \<Rightarrow> (Inr m, s))"
proof -
  let ?i = "inode_at E (disk s) n"
  have less: "n < FS_DISKSIZE" using wf n by (rule fs_wf_inode_less)
  have ok: "NUL \<in> set (i_owner ?i)" "i_size ?i \<le> FS_MAXFILEBLOCKS"
    using fs_wf_inode [OF wf n] by (auto simp: inode_ok_def)
  have look: "find_in_blocks E nm (i_blocks ?i) [0..<i_size ?i] s =
      (Inr (case map_of (dir_entries E (disk s) n) nm of None \<Rightarrow> UNDEFINED_BLOCK | Some m \<Rightarrow> m), s)"
    if dir: "is_dir E (disk s) n"
  proof -
    have "\<forall>k \<in> set [0..<i_size ?i]. k < length (i_blocks ?i) \<and> readable_dir E (disk s) (i_blocks ?i ! k)"
      using ok(2) less fs_wf_readable [OF wf n dir] inode_block_in(1) by auto
    moreover have "map (\<lambda>k. used_entries (dir_at E (disk s) (i_blocks ?i ! k))) [0..<i_size ?i]
        = map (\<lambda>b. used_entries (dir_at E (disk s) b)) (take (i_size ?i) (i_blocks ?i))"
      using ok(2) less by (intro map_nth_take) simp
    ultimately show ?thesis
      using find_in_blocks_map_of [OF nm, of "[0..<i_size ?i]" "i_blocks ?i" s]
      by (simp add: dir_entries_def inode_blocks_def)
  qed
  have small: "m < FS_DISKSIZE" if "is_dir E (disk s) n" "map_of (dir_entries E (disk s) n) nm = Some m" for m
    using fs_wf_entry [OF wf n that(1)] fs_wf_inode_less [OF wf] that(2) by (blast dest: map_of_SomeD)
  show ?thesis
    using less ok g look small
    by (auto simp: find_next_inode_def prog_simps Let_def inode_at_def [symmetric] step_dir_def
        owner_at_def is_dir_def [symmetric] bindp_Inr UNDEFINED_BLOCK_def split: option.splits)
qed

lemma find_parent_loop_walk:
  assumes wf: "fs_wf E (disk s) I" and "walk E (disk s) 0 p = Some n"
    and "\<forall>x \<in> set xs. x \<noteq> [] \<and> NUL \<notin> set x" and "NUL \<notin> set y" "y = [] \<longrightarrow> n = 0"
  shows "find_parent_loop E u n (y # xs) (s\<lparr>lock_map := [n \<mapsto> read_held E]\<rparr>) =
    (case walk_as E (disk s) u n xs of
       Inl e \<Rightarrow> (Inl e, s\<lparr>lock_map := Map.empty\<rparr>)
     | Inr m \<Rightarrow> (Inr m, s\<lparr>lock_map := [m \<mapsto> read_held E]\<rparr>))"
  using assms(2-)
proof (induction xs arbitrary: n y p)
  case Nil
  show ?case by (simp add: prog_simps)
next
  case (Cons x xs)
  let ?s = "\<lambda>n. s\<lparr>lock_map := [n \<mapsto> read_held E]\<rparr>"
  note n = Cons.prems(1)
  have nI: "n \<in> I" using wf n by (rule walk_root_in)
  have x: "NUL \<notin> set x" "x \<noteq> []" using Cons.prems(2) by auto
  have chk: "strcmp_eq (c_str y) (c_str []) = Inr (y = [])" using Cons.prems(3) by simp
  have step: "find_next_inode E x n u (?s n) =
      (case step_dir E (disk s) u n x of Inl e \<Rightarrow> (Inl e, s\<lparr>lock_map := Map.empty\<rparr>) | Inr m \<Rightarrow> (Inr m, ?s n))"
    using find_next_inode_step [of "?s n" I n x "read_held E" u] wf nI x(1)
    by (cases "step_dir E (disk s) u n x") simp_all
  show ?case
  proof (cases "step_dir E (disk s) u n x")
    case (Inl e)
    then show ?thesis
      using chk Cons.prems(4) step by (auto simp: prog_simps ROOT_INODE_def bindp_Inl)
  next
    case (Inr m)
    have walk_m: "walk E (disk s) 0 (p @ [x]) = Some m"
      using n Inr by (auto simp: walk_snoc_iff step_dir_Inr)
    then have "m \<noteq> n" using walk_child_neq [OF wf n] by simp
    then have "find_parent_loop E u n (y # x # xs) (?s n) = find_parent_loop E u m (x # xs) (?s m)"
      using chk Cons.prems(4) step Inr by (auto simp: prog_simps ROOT_INODE_def bindp_Inr)
    then show ?thesis using Inr Cons.IH [of "p @ [x]" m x] walk_m x Cons.prems(2) by simp
  qed
qed

lemma find_parent_inode_walk:
  assumes wf: "fs_wf E (disk s) I" and names: "\<forall>x \<in> set xs. name_ok x \<and> NUL \<notin> set x" and x: "name_ok x"
    and tab: "lock_map s = Map.empty"
  shows "find_parent_inode E (join_path (xs @ [x])) u s =
    (case walk_as E (disk s) u 0 xs of
       Inl e \<Rightarrow> (Inl e, s)
     | Inr m \<Rightarrow> (Inr m, s\<lparr>lock_map := [m \<mapsto> read_held E]\<rparr>))"
proof -
  let ?s = "s\<lparr>lock_map := [0 \<mapsto> read_held E]\<rparr>"
  have split: "getline_split slash (join_path xs) = (if xs = [] then [] else [] # xs)"
    using names by (intro getline_split_join) (auto simp: name_ok_def)
  have "find_parent_inode E (join_path (xs @ [x])) u s
      = find_parent_loop E u 0 (if xs = [] then [] else [] # xs) ?s"
    using x tab by (simp add: find_parent_inode_def prog_simps split ROOT_INODE_def)
  also have "\<dots> = (case walk_as E (disk s) u 0 xs of
       Inl e \<Rightarrow> (Inl e, s) | Inr m \<Rightarrow> (Inr m, s\<lparr>lock_map := [m \<mapsto> read_held E]\<rparr>))"
  proof (cases "xs = []")
    case False
    have "find_parent_loop E u 0 ([] # xs) ?s = (case walk_as E (disk s) u 0 xs of
       Inl e \<Rightarrow> (Inl e, s\<lparr>lock_map := Map.empty\<rparr>)
     | Inr m \<Rightarrow> (Inr m, s\<lparr>lock_map := [m \<mapsto> read_held E]\<rparr>))"
      using wf names by (intro find_parent_loop_walk [where p = "[]"]) (auto simp: name_ok_def)
    with False tab show ?thesis by (simp add: lock_map_same split: sum.splits)
  qed (simp add: prog_simps)
  finally show ?thesis .
qed

end

end
