(* ===== verification/FS_Abs.thy ===== *)
theory FS_Abs
  imports FS_Inv
begin

text \<open>
  The abstract file system a client sees (\<^verbatim>\<open>src/filesys/fs_client.h\<close>): a map from paths to files
  and directories, with the effect and the failure conditions of the four requests.  \<open>abs_fs\<close>
  reads this map off a disk.  The refinement of the request handlers starts here with
  \<open>handle_read\<close>; \<open>FS_Write\<close>, \<open>FS_Create\<close> and \<open>FS_Delete\<close> continue it.
\<close>

datatype fs_object =
    AFile string "char list list"
  | ADir string

type_synonym afs = "string list \<rightharpoonup> fs_object"

subsection \<open>The abstract requests\<close>

text \<open>Every directory of the path below the root belongs to the user.\<close>

definition dir_path :: "afs \<Rightarrow> string \<Rightarrow> string list \<Rightarrow> bool" where
  "dir_path A u p \<longleftrightarrow> list_all (\<lambda>k. A (take (Suc k) p) = Some (ADir u)) [0..<length p]"

definition spec_read :: "afs \<Rightarrow> string \<Rightarrow> string list \<Rightarrow> nat \<Rightarrow> char list option" where
  "spec_read A u p k =
     (case A p of
        Some (AFile v bs) \<Rightarrow>
          if dir_path A u (butlast p) \<and> v = u \<and> k < length bs then Some (bs ! k) else None
      | _ \<Rightarrow> None)"

text \<open>\<open>space\<close> says that a block is free on the disk.\<close>

definition spec_write :: "bool \<Rightarrow> afs \<Rightarrow> string \<Rightarrow> string list \<Rightarrow> nat \<Rightarrow> char list \<Rightarrow> afs option" where
  "spec_write space A u p k dat =
     (case A p of
        Some (AFile v bs) \<Rightarrow>
          if dir_path A u (butlast p) \<and> v = u then
            if k < length bs then Some (A(p \<mapsto> AFile u (bs[k := dat])))
            else if k = length bs \<and> length bs < FS_MAXFILEBLOCKS \<and> space
            then Some (A(p \<mapsto> AFile u (bs @ [dat])))
            else None
          else None
      | _ \<Rightarrow> None)"

definition spec_create :: "bool \<Rightarrow> afs \<Rightarrow> string \<Rightarrow> string list \<Rightarrow> char \<Rightarrow> afs option" where
  "spec_create space A u p t =
     (if dir_path A u (butlast p) \<and> A p = None \<and> space
      then Some (A(p \<mapsto> (if t = CHR ''d'' then ADir u else AFile u []))) else None)"

text \<open>A directory can be deleted when no path goes through it.\<close>

definition has_children :: "afs \<Rightarrow> string list \<Rightarrow> bool" where
  "has_children A p \<longleftrightarrow> (\<exists>x. A (p @ [x]) \<noteq> None)"

definition spec_delete :: "afs \<Rightarrow> string \<Rightarrow> string list \<Rightarrow> afs option" where
  "spec_delete A u p =
     (case A p of
        Some (AFile v bs) \<Rightarrow> if dir_path A u (butlast p) \<and> v = u then Some (A(p := None)) else None
      | Some (ADir v) \<Rightarrow>
          if dir_path A u (butlast p) \<and> v = u \<and> \<not> has_children A p then Some (A(p := None)) else None
      | None \<Rightarrow> None)"

lemma dir_path_snoc [simp]:
  "dir_path A u (q @ [x]) \<longleftrightarrow> dir_path A u q \<and> A (q @ [x]) = Some (ADir u)"
  by (auto simp: dir_path_def list_all_iff)

lemma dir_path_Nil [simp]: "dir_path A u []"
  by (simp add: dir_path_def)

subsection \<open>The abstraction of a disk\<close>

definition obj_at :: "('d, 'm) fs_env \<Rightarrow> 'd \<Rightarrow> nat \<Rightarrow> fs_object" where
  "obj_at E d n =
     (if is_dir E d n then ADir (owner_at E d n)
      else AFile (owner_at E d n) (map (blk E d) (inode_blocks E d n)))"

definition abs_fs :: "('d, 'm) fs_env \<Rightarrow> 'd \<Rightarrow> afs" where
  "abs_fs E d p = map_option (obj_at E d) (walk E d 0 p)"

lemma obj_at_ADir [simp]: "obj_at E d n = ADir u \<longleftrightarrow> is_dir E d n \<and> owner_at E d n = u"
  by (auto simp: obj_at_def)

lemma obj_at_AFile: "obj_at E d n = AFile u bs \<longleftrightarrow>
    \<not> is_dir E d n \<and> owner_at E d n = u \<and> map (blk E d) (inode_blocks E d n) = bs"
  by (auto simp: obj_at_def)

lemma walk_as_iff:
  assumes wf: "fs_wf E d I"
  shows "walk_as E d u 0 p = Inr n \<longleftrightarrow>
    walk E d 0 p = Some n \<and> dir_path (abs_fs E d) u (butlast p)"
proof (induction p arbitrary: n rule: rev_induct)
  case (snoc x q)
  have root: "m = 0 \<longleftrightarrow> q = []" if "walk E d 0 q = Some m" for m
    using that walk_nonroot [of E d "butlast q" "last q" m] by (cases "q = []") auto
  have "dir_path (abs_fs E d) u q \<longleftrightarrow>
      dir_path (abs_fs E d) u (butlast q) \<and> (m = 0 \<or> is_dir E d m \<and> owner_at E d m = u)"
    if "walk E d 0 q = Some m" for m
    using that root [OF that] by (cases q rule: rev_cases) (auto simp: abs_fs_def)
  then show ?case using snoc
    by (auto simp: walk_as_append bindr_eq_Inr step_dir_Inr walk_snoc_iff)
qed auto

lemma spec_read_unreachable:
  assumes wf: "fs_wf E d I" and "walk_as E d u 0 p = Inl e"
  shows "spec_read (abs_fs E d) u p k = None"
  using assms(2) walk_as_iff [OF wf, of u p]
  by (auto simp: spec_read_def abs_fs_def split: option.splits fs_object.splits)

definition path_ok :: "string \<Rightarrow> string list \<Rightarrow> bool" where
  "path_ok path p \<longleftrightarrow> path = join_path p \<and> p \<noteq> [] \<and> (\<forall>x \<in> set p. name_ok x \<and> NUL \<notin> set x)"

context fs_device
begin

text \<open>
  The opening of \<^verbatim>\<open>handle_read\<close> and \<^verbatim>\<open>handle_write\<close>, and of
  \<^verbatim>\<open>get_parent_inode_and_upgradeable_lock\<close>: find the parent, then the target in it.
\<close>

lemma locate_target:
  assumes wf: "fs_wf E (disk s) I" and p: "path_ok path p" and tab: "lock_map s = Map.empty"
  shows "bindp (find_parent_inode E path u) (\<lambda>m. bindp (lift (get_target path)) (\<lambda>t.
      bindp (find_next_inode E t m u) (K m))) s =
    (case walk_as E (disk s) u 0 p of
       Inl e \<Rightarrow> (Inl e, s)
     | Inr n \<Rightarrow> (let m = the (walk E (disk s) 0 (butlast p))
                 in K m n (s\<lparr>lock_map := [m \<mapsto> read_held E]\<rparr>)))"
proof -
  obtain xs x where px: "p = xs @ [x]" using p by (cases p rule: rev_cases) (auto simp: path_ok_def)
  have ok: "name_ok x" "NUL \<notin> set x" "\<forall>y \<in> set xs. name_ok y \<and> NUL \<notin> set y"
    and path: "path = join_path xs @ slash # x"
    using p px by (auto simp: path_ok_def)
  have parent: "find_parent_inode E path u s =
      (case walk_as E (disk s) u 0 xs of
         Inl e \<Rightarrow> (Inl e, s) | Inr m \<Rightarrow> (Inr m, s\<lparr>lock_map := [m \<mapsto> read_held E]\<rparr>))"
    using find_parent_inode_walk [OF wf ok(3,1) tab] by (simp add: path)
  show ?thesis
  proof (cases "walk_as E (disk s) u 0 xs")
    case (Inl e)
    then have "find_parent_inode E path u s = (Inl e, s)" using parent by simp
    then show ?thesis using Inl by (simp add: px walk_as_append bindp_Inl)
  next
    case (Inr m)
    let ?s = "s\<lparr>lock_map := [m \<mapsto> read_held E]\<rparr>"
    have m: "walk E (disk s) 0 xs = Some m" using Inr by (rule walk_as_walk)
    have mI: "m \<in> I" by (rule walk_root_in [OF wf m])
    have "find_parent_inode E path u s = (Inr m, ?s)" using parent Inr by simp
    then have lhs: "bindp (find_parent_inode E path u) (\<lambda>m. bindp (lift (get_target path)) (\<lambda>t.
      bindp (find_next_inode E t m u) (K m))) s = bindp (find_next_inode E x m u) (K m) ?s"
      using ok(1) by (simp add: bindp_Inr prog_simps path)
    have "find_next_inode E x m u ?s = (case step_dir E (disk s) u m x of
        Inl e \<Rightarrow> (Inl e, ?s\<lparr>lock_map := (lock_map ?s)(m := None)\<rparr>) | Inr n \<Rightarrow> (Inr n, ?s))"
      using find_next_inode_step [of ?s I m x "read_held E" u] wf ok(2) mI by simp
    then have nxt: "find_next_inode E x m u ?s = (case step_dir E (disk s) u m x of
        Inl e \<Rightarrow> (Inl e, s) | Inr n \<Rightarrow> (Inr n, ?s))"
      using tab by (cases "step_dir E (disk s) u m x") (simp_all add: lock_map_same)
    show ?thesis
    proof (cases "step_dir E (disk s) u m x")
      case Inl': (Inl e)
      then have "find_next_inode E x m u ?s = (Inl e, s)" using nxt by simp
      then show ?thesis unfolding lhs using Inr Inl' by (simp add: px walk_as_append bindp_Inl)
    next
      case Inr': (Inr n)
      then have "find_next_inode E x m u ?s = (Inr n, ?s)" using nxt by simp
      then show ?thesis unfolding lhs using Inr Inr' m by (simp add: px walk_as_append bindp_Inr)
    qed
  qed
qed

text \<open>What is known of the inode a path leads to.\<close>

lemma target_facts:
  assumes wf: "fs_wf E d I" and w: "walk E d 0 p = Some n" and p: "p \<noteq> []"
  shows "n \<in> I" "n < FS_DISKSIZE" "NUL \<in> set (i_owner (inode_at E d n))"
    "i_size (inode_at E d n) \<le> FS_MAXFILEBLOCKS"
    "i_type (inode_at E d n) = CHR ''f'' \<longleftrightarrow> \<not> is_dir E d n"
    "length (inode_blocks E d n) = i_size (inode_at E d n)"
    "\<exists>m. walk E d 0 (butlast p) = Some m \<and> n \<noteq> m"
proof -
  show nI: "n \<in> I" by (rule walk_root_in [OF wf w])
  show less: "n < FS_DISKSIZE" using wf nI by (rule fs_wf_inode_less)
  show "NUL \<in> set (i_owner (inode_at E d n))"
    and sz: "i_size (inode_at E d n) \<le> FS_MAXFILEBLOCKS"
    and "i_type (inode_at E d n) = CHR ''f'' \<longleftrightarrow> \<not> is_dir E d n"
    using fs_wf_inode [OF wf nI] by (auto simp: inode_ok_def is_dir_def)
  show "length (inode_blocks E d n) = i_size (inode_at E d n)"
    using sz less by (simp add: inode_blocks_def)
  obtain q x where px: "p = q @ [x]" using p by (cases p rule: rev_cases) auto
  then obtain m where m: "walk E d 0 q = Some m" using w by (auto simp: walk_snoc_iff)
  then show "\<exists>m. walk E d 0 (butlast p) = Some m \<and> n \<noteq> m"
    using walk_child_neq [OF wf m, of x n] w px by simp
qed

lemma handle_read_found:
  assumes wf: "fs_wf E (disk s) I" and p: "path_ok (pathname c) p" and tab: "lock_map s = Map.empty"
    and found: "walk_as E (disk s) (username c) 0 p = Inr n"
  shows "handle_read E c s =
    (if is_dir E (disk s) n \<or> i_size (inode_at E (disk s) n) \<le> block c
     then (Inl (Runtime_error ''Provided file is not a valid file''), s)
     else if username c \<noteq> owner_at E (disk s) n then (Inl (Runtime_error ''User is not owner of file''), s)
     else (Inr (blk E (disk s) (i_blocks (inode_at E (disk s) n) ! block c)), s))"
proof -
  have "p \<noteq> []" using p by (simp add: path_ok_def)
  note t = target_facts [OF wf walk_as_walk [OF found] this]
  obtain m where m: "walk E (disk s) 0 (butlast p) = Some m" "n \<noteq> m" using t(7) by blast
  have b: "block c < i_size (inode_at E (disk s) n) \<Longrightarrow> i_blocks (inode_at E (disk s) n) ! block c < FS_DISKSIZE"
    using fs_wf_block_less [OF wf t(1)] inode_block_in(1) [OF t(2,4)] by blast
  show ?thesis
    unfolding handle_read_def locate_target [OF wf p tab, of "username c"]
    using t(2-5) b m tab
    by (simp add: found prog_simps Let_def inode_at_def [symmetric] owner_at_def lock_map_same)
qed

lemma spec_read_found:
  assumes wf: "fs_wf E d I" and p: "p \<noteq> []" and found: "walk_as E d u 0 p = Inr n"
  shows "spec_read (abs_fs E d) u p k =
    (if is_dir E d n \<or> i_size (inode_at E d n) \<le> k \<or> u \<noteq> owner_at E d n then None
     else Some (blk E d (i_blocks (inode_at E d n) ! k)))"
proof -
  have n: "walk E d 0 p = Some n" "dir_path (abs_fs E d) u (butlast p)"
    using found by (simp_all add: walk_as_iff [OF wf])
  note t = target_facts [OF wf n(1) p]
  show ?thesis using n t(2,4,6) by (auto simp: spec_read_def abs_fs_def obj_at_def inode_block_in)
qed

lemma handle_read_refines:
  assumes wf: "fs_wf E (disk s) I" and p: "path_ok (pathname c) p" and tab: "lock_map s = Map.empty"
  shows "\<exists>msg. handle_read E c s =
    (case spec_read (abs_fs E (disk s)) (username c) p (block c) of
       Some dat \<Rightarrow> (Inr dat, s) | None \<Rightarrow> (Inl (Runtime_error msg), s))"
proof (cases "walk_as E (disk s) (username c) 0 p")
  case (Inl e)
  obtain msg where e: "e = Runtime_error msg" using walk_as_Inl [OF Inl] ..
  have "spec_read (abs_fs E (disk s)) (username c) p (block c) = None"
    using Inl by (rule spec_read_unreachable [OF wf])
  moreover have "handle_read E c s = (Inl e, s)"
    unfolding handle_read_def locate_target [OF wf p tab, of "username c"] by (simp add: Inl)
  ultimately show ?thesis by (intro exI [of _ msg]) (simp add: e)
next
  case (Inr n)
  have "p \<noteq> []" using p by (simp add: path_ok_def)
  note spec = spec_read_found [OF wf this Inr]
  show ?thesis unfolding handle_read_found [OF wf p tab Inr] spec by (simp split: if_split)
qed

end

end
