(* ===== verification/FS_Frame.thy ===== *)
theory FS_Frame
  imports FS_Abs
begin

text \<open>
  How the structure of a disk changes when blocks are written.  An inode none of whose blocks
  changed keeps its meaning (\<open>untouched\<close>); the three transformations a request performs on the
  tree of inodes (replace a file, add a leaf, remove a leaf) keep the disk well formed and act
  on the abstract file system as an update at one path.
\<close>

definition untouched :: "('d, 'm) fs_env \<Rightarrow> 'd \<Rightarrow> 'd \<Rightarrow> nat \<Rightarrow> bool" where
  "untouched E d d' n \<longleftrightarrow> (\<forall>b \<in> set (owned E d n). blk E d' b = blk E d b)"

lemma untouched_inode: "untouched E d d' n \<Longrightarrow> inode_at E d' n = inode_at E d n"
  by (simp add: untouched_def inode_at_def owned_def)

lemma untouched_same:
  assumes "untouched E d d' n"
  shows "inode_blocks E d' n = inode_blocks E d n" "owned E d' n = owned E d n"
    "is_dir E d' n = is_dir E d n" "owner_at E d' n = owner_at E d n"
    "dir_entries E d' n = dir_entries E d n" "obj_at E d' n = obj_at E d n"
    "inode_ok E d' n = inode_ok E d n"
proof -
  note i = untouched_inode [OF assms]
  show b: "inode_blocks E d' n = inode_blocks E d n" and o: "owned E d' n = owned E d n"
    by (simp_all add: inode_blocks_def owned_def i)
  show "is_dir E d' n = is_dir E d n" "owner_at E d' n = owner_at E d n"
    "inode_ok E d' n = inode_ok E d n"
    by (simp_all add: is_dir_def owner_at_def inode_ok_def o i)
  have same: "\<And>b. b \<in> set (inode_blocks E d n) \<Longrightarrow> blk E d' b = blk E d b"
    using assms by (simp add: untouched_def owned_def)
  show "dir_entries E d' n = dir_entries E d n"
    unfolding dir_entries_def b by (rule arg_cong [where f = concat]) (simp add: dir_at_def same)
  show "obj_at E d' n = obj_at E d n"
    by (simp add: obj_at_def b is_dir_def owner_at_def i same)
qed

lemma untouched_dir_ok:
  assumes "untouched E d d' n" and "dir_ok E d I n" and "snd ` set (dir_entries E d n) \<subseteq> I'"
  shows "dir_ok E d' I' n"
proof -
  have "dir_at E d' b = dir_at E d b" if "b \<in> set (inode_blocks E d n)" for b
    using assms(1) that by (simp add: untouched_def owned_def dir_at_def)
  then show ?thesis using assms(2,3) by (simp add: dir_ok_def untouched_same [OF assms(1)])
qed

subsection \<open>The state between two requests\<close>

text \<open>
  Between two requests the disk is well formed, the free list is apart from the blocks in use,
  and no lock is in the table.  \<open>accounted\<close> is the set of the blocks that are in use or free; a
  block outside it is lost until the server restarts.
\<close>

definition quiescent :: "('d, 'm) fs_env \<Rightarrow> ('d, 'm) FileSystem \<Rightarrow> nat set \<Rightarrow> bool" where
  "quiescent E s I \<longleftrightarrow>
     fs_wf E (disk s) I \<and> free_ok E (disk s) I (free_block_list s) \<and> lock_map s = Map.empty"

definition accounted :: "('d, 'm) fs_env \<Rightarrow> ('d, 'm) FileSystem \<Rightarrow> nat set \<Rightarrow> nat set" where
  "accounted E s I = set (free_block_list s) \<union> (\<Union>n \<in> I. set (owned E (disk s) n))"

text \<open>
  A request that started in the state \<open>s\<close> and ended with \<open>r\<close> implements the abstract result
  \<open>R\<close>: when the abstract request fails it throws and changes nothing at all; otherwise it
  returns, its disk has the abstract contents, the state is quiescent again and no block is lost.
\<close>

definition implements ::
  "('d, 'm) fs_env \<Rightarrow> ('d, 'm) FileSystem \<Rightarrow> nat set \<Rightarrow> (stop + unit) \<times> ('d, 'm) FileSystem \<Rightarrow>
     afs option \<Rightarrow> bool" where
  "implements E s I r R \<longleftrightarrow>
     (case R of
        None \<Rightarrow> \<exists>msg. r = (Inl (Runtime_error msg), s)
      | Some A \<Rightarrow> \<exists>s' I'. r = (Inr (), s') \<and> abs_fs E (disk s') = A \<and> quiescent E s' I' \<and>
          accounted E s' I' = accounted E s I)"

lemma implements_None: "r = (Inl (Runtime_error msg), s) \<Longrightarrow> R = None \<Longrightarrow> implements E s I r R"
  by (auto simp: implements_def)

lemma implements_Some:
  "r = (Inr (), s') \<Longrightarrow> R = Some (abs_fs E (disk s')) \<Longrightarrow> quiescent E s' I' \<Longrightarrow>
    accounted E s' I' = accounted E s I \<Longrightarrow> implements E s I r R"
  by (auto simp: implements_def)

lemma fs_wf_disjoint:
  assumes "fs_wf E d I" and "n \<in> I" "m \<in> I" "n \<noteq> m"
  shows "set (owned E d n) \<inter> set (owned E d m) = {}"
    and "is_dir E d n \<Longrightarrow> is_dir E d m \<Longrightarrow>
      snd ` set (dir_entries E d n) \<inter> snd ` set (dir_entries E d m) = {}"
  using assms unfolding fs_wf_def by simp_all

lemma walk_snoc:
  "walk E d n (p @ [x]) =
    (case walk E d n p of None \<Rightarrow> None
     | Some m \<Rightarrow> if is_dir E d m then map_of (dir_entries E d m) x else None)"
  by (simp add: walk_append split: option.splits)

subsection \<open>What a change of one node leaves alone\<close>

text \<open>
  A change of the node \<open>n\<close> that takes the nodes \<open>C\<close> out of the tree: the other nodes are untouched,
  and whatever a user could reach outside \<open>C\<close> is reached by the same path.
\<close>

definition keeps :: "('d, 'm) fs_env \<Rightarrow> 'd \<Rightarrow> 'd \<Rightarrow> nat set \<Rightarrow> nat \<Rightarrow> nat set \<Rightarrow> bool" where
  "keeps E d d' I n C \<longleftrightarrow>
     (\<forall>m \<in> I. m \<noteq> n \<longrightarrow> untouched E d d' m) \<and>
     (\<forall>u p m. walk_as E d u 0 p = Inr m \<longrightarrow> m \<notin> C \<longrightarrow> walk_as E d' u 0 p = Inr m)"

lemma keepsI:
  assumes wf: "fs_wf E d I" and others: "\<And>m. m \<in> I \<Longrightarrow> m \<noteq> n \<Longrightarrow> untouched E d d' m"
    and dir: "is_dir E d n \<Longrightarrow> is_dir E d' n \<and> owner_at E d' n = owner_at E d n"
    and ent: "\<And>y m. is_dir E d n \<Longrightarrow> map_of (dir_entries E d n) y = Some m \<Longrightarrow> m \<notin> C \<Longrightarrow>
      map_of (dir_entries E d' n) y = Some m"
    and leaf: "\<And>c. c \<in> C \<Longrightarrow> is_dir E d c \<Longrightarrow> dir_entries E d c = []"
  shows "keeps E d d' I n C"
proof -
  have step: "step_dir E d' u m x = Inr k" if "m \<in> I" "step_dir E d u m x = Inr k" "k \<notin> C" for u m x k
  proof (cases "m = n")
    case True
    then show ?thesis using that dir ent by (auto simp: step_dir_Inr)
  next
    case False
    then show ?thesis using that untouched_same(3,4,5) [OF others [OF that(1)]] by (auto simp: step_dir_Inr)
  qed
  have "walk_as E d' u 0 p = Inr m" if "walk_as E d u 0 p = Inr m" "m \<notin> C" for u p m
    using that
  proof (induction p arbitrary: m rule: rev_induct)
    case (snoc x p)
    then obtain k where k: "walk_as E d u 0 p = Inr k" "step_dir E d u k x = Inr m"
      by (auto simp: walk_as_append bindr_eq_Inr)
    then have "k \<notin> C" using leaf [of k] by (auto simp: step_dir_Inr)
    moreover have "k \<in> I" using walk_root_in [OF wf walk_as_walk [OF k(1)]] .
    ultimately show ?case using snoc k step by (simp add: walk_as_append)
  qed simp
  then show ?thesis using others by (auto simp: keeps_def)
qed

lemma keepsD:
  assumes "keeps E d d' I n C"
  shows "m \<in> I \<Longrightarrow> m \<noteq> n \<Longrightarrow> untouched E d d' m"
    and "walk_as E d u 0 p = Inr m \<Longrightarrow> m \<notin> C \<Longrightarrow> walk_as E d' u 0 p = Inr m"
  using assms by (simp_all add: keeps_def)

subsection \<open>Replacing the contents of a file\<close>

lemma walk_same_dirs:
  assumes wf: "fs_wf E d I" and "n \<in> I"
    and "\<And>m. m \<in> I \<Longrightarrow> is_dir E d' m = is_dir E d m"
    and "\<And>m. m \<in> I \<Longrightarrow> is_dir E d m \<Longrightarrow> dir_entries E d' m = dir_entries E d m"
  shows "walk E d' n p = walk E d n p"
  using assms(2)
proof (induction p arbitrary: n)
  case (Cons x p)
  have "c \<in> I" if "is_dir E d n" "map_of (dir_entries E d n) x = Some c" for c
    using fs_wf_entry [OF wf Cons.prems that(1)] map_of_SomeD [OF that(2)] by blast
  then show ?case using Cons assms(3,4) by (auto split: option.splits)
qed simp

lemma fs_wf_change_file:
  assumes wf: "fs_wf E d I" and n: "n \<in> I" "\<not> is_dir E d n" "\<not> is_dir E d' n"
    and others: "\<And>m. m \<in> I \<Longrightarrow> m \<noteq> n \<Longrightarrow> untouched E d d' m"
    and ok: "inode_ok E d' n"
    and disj: "\<And>m. m \<in> I \<Longrightarrow> m \<noteq> n \<Longrightarrow> set (owned E d' n) \<inter> set (owned E d m) = {}"
  shows "fs_wf E d' I"
    and "walk E d 0 p = Some n \<Longrightarrow> abs_fs E d' = (abs_fs E d)(p \<mapsto> obj_at E d' n)"
    and "keeps E d d' I n {}"
proof -
  show "keeps E d d' I n {}" by (rule keepsI [OF wf others]) (use n(2) in auto)
  have dir: "is_dir E d' m = is_dir E d m" if "m \<in> I" for m
    using that n others [OF that] by (cases "m = n") (simp_all add: untouched_same)
  have nonfile: "m \<noteq> n" if "is_dir E d m" for m using that n(2) by blast
  have ent: "dir_entries E d' m = dir_entries E d m" if "m \<in> I" "is_dir E d m" for m
    using untouched_same(5) [OF others [OF that(1) nonfile [OF that(2)]]] .
  have own: "owned E d' m = owned E d m" if "m \<in> I" "m \<noteq> n" for m
    using untouched_same(2) [OF others [OF that]] .
  show "fs_wf E d' I" unfolding fs_wf_def
  proof (intro conjI ballI impI)
    show "0 \<in> I" "is_dir E d' 0" using fs_wf_root [OF wf] dir by auto
  next
    fix m assume m: "m \<in> I"
    show "inode_ok E d' m"
      using fs_wf_inode [OF wf m] ok untouched_same(7) [OF others [OF m]] by (cases "m = n") auto
    show "dir_ok E d' I m" if "is_dir E d' m"
    proof -
      have dm: "is_dir E d m" using that dir [OF m] by simp
      have ok': "dir_ok E d I m" by (rule fs_wf_dir [OF wf m dm])
      then have "snd ` set (dir_entries E d m) \<subseteq> I" by (simp add: dir_ok_def)
      then show ?thesis using untouched_dir_ok [OF others [OF m nonfile [OF dm]] ok'] by blast
    qed
    fix k assume k: "k \<in> I" "m \<noteq> k"
    have "set (owned E d m) \<inter> set (owned E d k) = {}"
      by (rule fs_wf_disjoint(1) [OF wf m k])
    then show "set (owned E d' m) \<inter> set (owned E d' k) = {}"
      using disj m k own by (cases "m = n"; cases "k = n") auto
    show "snd ` set (dir_entries E d' m) \<inter> snd ` set (dir_entries E d' k) = {}"
      if "is_dir E d' m" "is_dir E d' k"
    proof -
      have "is_dir E d m" "is_dir E d k" using that dir m k(1) by auto
      then show ?thesis using fs_wf_disjoint(2) [OF wf m k] ent m k(1) by simp
    qed
  qed
  show "abs_fs E d' = (abs_fs E d)(p \<mapsto> obj_at E d' n)" if p: "walk E d 0 p = Some n"
  proof
    fix q
    have w: "walk E d' 0 q = walk E d 0 q"
      by (rule walk_same_dirs [OF wf fs_wf_root(1) [OF wf] dir ent])
    show "abs_fs E d' q = ((abs_fs E d)(p \<mapsto> obj_at E d' n)) q"
    proof (cases "walk E d 0 q")
      case None
      then show ?thesis using w p by (auto simp: abs_fs_def)
    next
      case (Some m)
      have "m = n \<longleftrightarrow> q = p" using walk_inj [OF wf Some, of p] p Some by auto
      moreover have "m \<noteq> n \<Longrightarrow> obj_at E d' m = obj_at E d m"
        using untouched_same(6) [OF others [OF walk_root_in [OF wf Some]]] .
      ultimately show ?thesis using w Some by (auto simp: abs_fs_def)
    qed
  qed
qed

subsection \<open>Adding a leaf\<close>

lemma fs_wf_add_leaf:
  assumes wf: "fs_wf E d I" and n: "n \<in> I" "is_dir E d n" "is_dir E d' n" "owner_at E d' n = owner_at E d n"
    and others: "\<And>m. m \<in> I \<Longrightarrow> m \<noteq> n \<Longrightarrow> untouched E d d' m"
    and c: "c \<notin> I" "inode_ok E d' c" "inode_blocks E d' c = []"
    and okn: "inode_ok E d' n" "\<And>b. b \<in> set (inode_blocks E d' n) \<Longrightarrow> dir_block_ok (dir_at E d' b)"
    and ent: "mset (dir_entries E d' n) = add_mset (x, c) (mset (dir_entries E d n))"
    and x: "x \<notin> fst ` set (dir_entries E d n)"
    and disj: "\<And>m. m \<in> I \<Longrightarrow> m \<noteq> n \<Longrightarrow> set (owned E d' n) \<inter> set (owned E d m) = {}"
    and cfree: "\<And>m. m \<in> I \<Longrightarrow> m \<noteq> n \<Longrightarrow> c \<notin> set (owned E d m)" "c \<notin> set (owned E d' n)"
  shows "fs_wf E d' (insert c I)"
    and "keeps E d d' I n {}"
    and "walk E d 0 p = Some n \<Longrightarrow> abs_fs E d' = (abs_fs E d)(p @ [x] \<mapsto> obj_at E d' c)"
proof -
  let ?ents = "\<lambda>m. snd ` set (dir_entries E d m)"
  have entI: "?ents m \<subseteq> I" if "m \<in> I" "is_dir E d m" for m
    using fs_wf_dir [OF wf that] by (simp add: dir_ok_def)
  have dirn: "distinct (map fst (dir_entries E d n))" "distinct (map snd (dir_entries E d n))"
    using fs_wf_dir [OF wf n(1,2)] by (simp_all add: dir_ok_def)
  have distn: "distinct (map fst (dir_entries E d' n))" "distinct (map snd (dir_entries E d' n))"
    using distinct_map_add [OF ent, of fst] distinct_map_add [OF ent, of snd] dirn x entI [OF n(1,2)] c(1)
    by auto
  have setn: "set (dir_entries E d' n) = insert (x, c) (set (dir_entries E d n))"
    by (rule set_mset_add [OF ent])
  have entc: "dir_entries E d' c = []" by (simp add: dir_entries_def c(3))
  have ownc: "owned E d' c = [c]" by (simp add: owned_def c(3))
  have cn: "c \<noteq> n" using c(1) n(1) by blast
  have dir: "is_dir E d' m = is_dir E d m" if "m \<in> I" for m
    using that n others [OF that] by (cases "m = n") (simp_all add: untouched_same)
  have own: "owned E d' m = owned E d m" if "m \<in> I" "m \<noteq> n" for m
    using untouched_same(2) [OF others [OF that]] .
  have ents': "snd ` set (dir_entries E d' m) = (if m = n then insert c (?ents n) else ?ents m)"
    if "m \<in> I" for m
    using that setn untouched_same(5) [OF others [OF that]] by simp
  show "fs_wf E d' (insert c I)" unfolding fs_wf_def
  proof (intro conjI ballI impI)
    show "0 \<in> insert c I" "is_dir E d' 0" using fs_wf_root [OF wf] dir by auto
  next
    fix m assume m: "m \<in> insert c I"
    show "inode_ok E d' m"
      using m c(2) okn(1) fs_wf_inode [OF wf] untouched_same(7) [OF others]
      by (cases "m = n"; cases "m = c") auto
    show "dir_ok E d' (insert c I) m" if dm: "is_dir E d' m"
    proof (cases "m = n \<or> m = c")
      case True
      have "snd ` set (dir_entries E d' n) \<subseteq> insert c I"
        unfolding setn using entI [OF n(1,2)] by auto
      then show ?thesis using True okn(2) distn entc c(3) by (auto simp: dir_ok_def)
    next
      case False
      then have mI: "m \<in> I" and mn: "m \<noteq> n" using m by auto
      have dm': "is_dir E d m" using dm dir [OF mI] by simp
      show ?thesis
        by (rule untouched_dir_ok [OF others [OF mI mn] fs_wf_dir [OF wf mI dm']])
          (use entI [OF mI dm'] in blast)
    qed
    fix k assume k: "k \<in> insert c I" "m \<noteq> k"
    show "set (owned E d' m) \<inter> set (owned E d' k) = {}"
    proof (cases "m = c \<or> k = c")
      case True
      then show ?thesis using m k cfree ownc own cn by (cases "m = n"; cases "k = n") auto
    next
      case False
      then have I: "m \<in> I" "k \<in> I" using m k by auto
      show ?thesis using disj [OF I(1)] disj [OF I(2)] fs_wf_disjoint(1) [OF wf I k(2)] own I k(2)
        by (cases "m = n"; cases "k = n") auto
    qed
    show "snd ` set (dir_entries E d' m) \<inter> snd ` set (dir_entries E d' k) = {}"
      if dm: "is_dir E d' m" "is_dir E d' k"
    proof (cases "m = c \<or> k = c")
      case True
      then show ?thesis using entc by auto
    next
      case False
      then have I: "m \<in> I" "k \<in> I" using m k by auto
      have D: "is_dir E d m" "is_dir E d k" using dm dir I by auto
      have "c \<notin> ?ents m" "c \<notin> ?ents k" using entI [OF I(1) D(1)] entI [OF I(2) D(2)] c(1) by auto
      then show ?thesis using fs_wf_disjoint(2) [OF wf I k(2) D] I k(2)
        by (cases "m = n"; cases "k = n") (simp_all add: ents')
    qed
  qed
  have look: "map_of (dir_entries E d' n) = (map_of (dir_entries E d n))(x \<mapsto> c)"
    "map_of (dir_entries E d n) x = None"
    using map_of_mset_add [OF ent distn(1)] by auto
  show "keeps E d d' I n {}" by (rule keepsI [OF wf others]) (use n look in \<open>auto simp del: map_of_eq_None_iff\<close>)
  assume p: "walk E d 0 p = Some n"
  have fresh: "walk E d 0 (p @ [x]) = None" using p look(2) n(2) by (simp add: walk_snoc)
  have step: "walk E d' 0 (r @ [y]) = (if r @ [y] = p @ [x] then Some c else walk E d 0 (r @ [y]))"
    if IH: "walk E d' 0 r = (if r = p @ [x] then Some c else walk E d 0 r)" for r y
  proof (cases "r = p @ [x]")
    case True
    then show ?thesis using IH fresh entc by (simp add: walk_snoc del: append_assoc)
  next
    case False
    then have IH': "walk E d' 0 r = walk E d 0 r" using IH by simp
    show ?thesis
    proof (cases "walk E d 0 r")
      case None
      then have "r \<noteq> p" using p by auto
      then show ?thesis using None IH' by (simp add: walk_snoc)
    next
      case (Some m)
      have mI: "m \<in> I" by (rule walk_root_in [OF wf Some])
      have "m = n \<longleftrightarrow> r = p" using walk_inj [OF wf Some, of p] p Some by auto
      then show ?thesis using Some IH' look n dir [OF mI] untouched_same(5) [OF others [OF mI]]
        by (cases "m = n") (simp_all add: walk_snoc)
    qed
  qed
  have w: "walk E d' 0 q = (if q = p @ [x] then Some c else walk E d 0 q)" for q
    by (induction q rule: rev_induct) (simp_all add: step)
  have obj: "obj_at E d' m = obj_at E d m" if "m \<in> I" for m
    using n untouched_same(6) [OF others [OF that]] by (cases "m = n") (simp_all add: obj_at_def)
  show "abs_fs E d' = (abs_fs E d)(p @ [x] \<mapsto> obj_at E d' c)"
  proof
    fix q
    show "abs_fs E d' q = ((abs_fs E d)(p @ [x] \<mapsto> obj_at E d' c)) q"
      using obj walk_root_in [OF wf, of q] by (cases "walk E d 0 q") (auto simp: abs_fs_def w)
  qed
qed

subsection \<open>Removing a leaf\<close>

lemma fs_wf_remove_leaf:
  assumes wf: "fs_wf E d I" and n: "n \<in> I" "is_dir E d n" "is_dir E d' n" "owner_at E d' n = owner_at E d n"
    and others: "\<And>m. m \<in> I \<Longrightarrow> m \<noteq> n \<Longrightarrow> m \<noteq> c \<Longrightarrow> untouched E d d' m"
    and c: "c \<noteq> n" "is_dir E d c \<Longrightarrow> dir_entries E d c = []"
    and okn: "inode_ok E d' n" "\<And>b. b \<in> set (inode_blocks E d' n) \<Longrightarrow> dir_block_ok (dir_at E d' b)"
    and ent: "mset (dir_entries E d n) = add_mset (x, c) (mset (dir_entries E d' n))"
    and own: "set (owned E d' n) \<subseteq> set (owned E d n)"
  shows "fs_wf E d' (I - {c})"
    and "untouched E d d' c \<Longrightarrow> keeps E d d' I n {c}"
    and "walk E d 0 p = Some n \<Longrightarrow> abs_fs E d' = (abs_fs E d)(p @ [x] := None)"
proof -
  let ?ents = "\<lambda>m. snd ` set (dir_entries E d m)"
  have entI: "?ents m \<subseteq> I" if "m \<in> I" "is_dir E d m" for m
    using fs_wf_dir [OF wf that] by (simp add: dir_ok_def)
  have dirn: "distinct (map fst (dir_entries E d n))" "distinct (map snd (dir_entries E d n))"
    using fs_wf_dir [OF wf n(1,2)] by (simp_all add: dir_ok_def)
  have distn: "distinct (map fst (dir_entries E d' n))" "distinct (map snd (dir_entries E d' n))"
    and cn: "c \<notin> snd ` set (dir_entries E d' n)"
    using distinct_map_add [OF ent, of fst] distinct_map_add [OF ent, of snd] dirn by auto
  have setn: "set (dir_entries E d n) = insert (x, c) (set (dir_entries E d' n))"
    by (rule set_mset_add [OF ent])
  have dir: "is_dir E d' m = is_dir E d m" if "m \<in> I" "m \<noteq> c" for m
    using that n others [OF that(1) _ that(2)] by (cases "m = n") (simp_all add: untouched_same)
  have own': "set (owned E d' m) \<subseteq> set (owned E d m)" if "m \<in> I" "m \<noteq> c" for m
    using that own untouched_same(2) [OF others [OF that(1) _ that(2)]] by (cases "m = n") simp_all
  have sub: "snd ` set (dir_entries E d' m) \<subseteq> ?ents m - {c}" if "m \<in> I" "m \<noteq> c" "is_dir E d m" for m
  proof (cases "m = n")
    case True
    then show ?thesis using setn cn by auto
  next
    case False
    have "c \<in> ?ents n" using setn by force
    then have "c \<notin> ?ents m" using fs_wf_disjoint(2) [OF wf that(1) n(1) False that(3) n(2)] by blast
    then show ?thesis using untouched_same(5) [OF others [OF that(1) False that(2)]] by auto
  qed
  show "fs_wf E d' (I - {c})" unfolding fs_wf_def
  proof (intro conjI ballI impI)
    have "c \<noteq> 0" using setn dir_entries_nonzero [of x c E d n] by auto
    then show "0 \<in> I - {c}" "is_dir E d' 0" using fs_wf_root [OF wf] dir [of 0] by auto
  next
    fix m assume m': "m \<in> I - {c}"
    then have m: "m \<in> I" "m \<noteq> c" by auto
    show "inode_ok E d' m"
      using okn(1) fs_wf_inode [OF wf m(1)] untouched_same(7) [OF others [OF m(1) _ m(2)]]
      by (cases "m = n") auto
    show "dir_ok E d' (I - {c}) m" if "is_dir E d' m"
    proof -
      have dm: "is_dir E d m" using that dir [OF m] by simp
      have S: "snd ` set (dir_entries E d' m) \<subseteq> I - {c}" using sub [OF m dm] entI [OF m(1) dm] by blast
      show ?thesis
      proof (cases "m = n")
        case True
        then show ?thesis using S okn(2) distn by (simp add: dir_ok_def)
      next
        case False
        note u = others [OF m(1) False m(2)]
        show ?thesis
          by (rule untouched_dir_ok [OF u fs_wf_dir [OF wf m(1) dm]])
            (use S untouched_same(5) [OF u] in simp)
      qed
    qed
    fix k assume k': "k \<in> I - {c}" and mk: "m \<noteq> k"
    then have k: "k \<in> I" "k \<noteq> c" by auto
    show "set (owned E d' m) \<inter> set (owned E d' k) = {}"
      using fs_wf_disjoint(1) [OF wf m(1) k(1) mk] own' [OF m] own' [OF k] by blast
    show "snd ` set (dir_entries E d' m) \<inter> snd ` set (dir_entries E d' k) = {}"
      if "is_dir E d' m" "is_dir E d' k"
    proof -
      have D: "is_dir E d m" "is_dir E d k" using that dir m k by auto
      show ?thesis
        using fs_wf_disjoint(2) [OF wf m(1) k(1) mk D] sub [OF m D(1)] sub [OF k D(2)] by blast
    qed
  qed
  have look: "map_of (dir_entries E d n) = (map_of (dir_entries E d' n))(x \<mapsto> c)"
    "map_of (dir_entries E d' n) x = None"
    using map_of_mset_add [OF ent dirn(1)] by auto
  show "keeps E d d' I n {c}" if "untouched E d d' c"
  proof (rule keepsI [OF wf])
    show "untouched E d d' m" if "m \<in> I" "m \<noteq> n" for m
      using others [OF that] \<open>untouched E d d' c\<close> by (cases "m = c") simp_all
    show "map_of (dir_entries E d' n) y = Some m" if "map_of (dir_entries E d n) y = Some m" "m \<notin> {c}" for y m
      using that look(1) by (simp split: if_splits)
  qed (use n c in simp_all)
  assume p: "walk E d 0 p = Some n"
  have at_c: "walk E d 0 (p @ [x]) = Some c" using p look n(2) by (simp add: walk_snoc)
  have step: "walk E d' 0 (r @ [y]) = (if r @ [y] = p @ [x] then None else walk E d 0 (r @ [y]))"
    if IH: "walk E d' 0 r = (if r = p @ [x] then None else walk E d 0 r)" for r y
  proof (cases "r = p @ [x]")
    case True
    then have "walk E d 0 (r @ [y]) = None" unfolding walk_snoc [of E d 0 r] using at_c c(2) by simp
    moreover have "walk E d' 0 (r @ [y]) = None" unfolding walk_snoc [of E d' 0 r] using IH True by simp
    ultimately show ?thesis by simp
  next
    case False
    then have IH': "walk E d' 0 r = walk E d 0 r" using IH by simp
    show ?thesis
    proof (cases "walk E d 0 r")
      case None
      then have "r \<noteq> p" using p by auto
      then show ?thesis using None IH' by (simp add: walk_snoc)
    next
      case (Some m)
      have mI: "m \<in> I" by (rule walk_root_in [OF wf Some])
      have "m = n \<longleftrightarrow> r = p" using walk_inj [OF wf Some, of p] p Some by auto
      moreover have "m \<noteq> c" using walk_inj [OF wf Some, of "p @ [x]"] at_c False by auto
      ultimately show ?thesis
        using Some IH' look n dir [OF mI] untouched_same(5) [OF others [OF mI]]
        by (cases "m = n") (simp_all add: walk_snoc)
    qed
  qed
  have w: "walk E d' 0 q = (if q = p @ [x] then None else walk E d 0 q)" for q
    by (induction q rule: rev_induct) (simp_all add: step)
  have obj: "obj_at E d' m = obj_at E d m" if "m \<in> I" "m \<noteq> c" for m
    using n untouched_same(6) [OF others [OF that(1) _ that(2)]] by (cases "m = n") (simp_all add: obj_at_def)
  show "abs_fs E d' = (abs_fs E d)(p @ [x] := None)"
  proof
    fix q
    have "m \<in> I \<and> m \<noteq> c" if "walk E d 0 q = Some m" "q \<noteq> p @ [x]" for m
      using walk_root_in [OF wf that(1)] walk_inj [OF wf that(1), of "p @ [x]"] at_c that(2) by auto
    then show "abs_fs E d' q = ((abs_fs E d)(p @ [x] := None)) q"
      using obj by (cases "walk E d 0 q") (auto simp: abs_fs_def w)
  qed
qed

end
