(* ===== verification/FS_Write.thy ===== *)
theory FS_Write
  imports FS_Frame
begin

text \<open>
  \<^verbatim>\<open>FileSystem::handle_write\<close> on a well-formed disk: it refines \<open>spec_write\<close>, keeps the disk well
  formed and the free list apart from the blocks in use, and leaves no lock behind, also when
  it throws.
\<close>

lemma spec_write_unreachable:
  assumes wf: "fs_wf E d I" and "walk_as E d u 0 p = Inl e"
  shows "spec_write sp (abs_fs E d) u p k dat = None"
  using assms(2) walk_as_iff [OF wf, of u p]
  by (auto simp: spec_write_def abs_fs_def split: option.splits fs_object.splits)

definition extended_inode :: "fs_inode \<Rightarrow> nat \<Rightarrow> fs_inode" where
  "extended_inode i fb = i\<lparr>i_blocks := (i_blocks i)[i_size i := fb], i_size := i_size i + 1\<rparr>"

lemma inode_fits_extended:
  "inode_fits i \<Longrightarrow> i_size i < FS_MAXFILEBLOCKS \<Longrightarrow> fb < FS_DISKSIZE \<Longrightarrow> inode_fits (extended_inode i fb)"
  using set_update_subset_insert [of "i_blocks i" "i_size i" fb]
  by (auto simp: inode_fits_def extended_inode_def fs_params)

context fs_device
begin

lemma inode_fits_at: "n < FS_DISKSIZE \<Longrightarrow> inode_fits (inode_at E d n)"
  using inode_fits_decode [OF length_blk] by (simp add: inode_at_def)

lemma dir_fits_at: "n < FS_DISKSIZE \<Longrightarrow> dir_fits (dir_at E d n)"
  using dir_fits_decode [OF length_blk] by (simp add: dir_at_def)

lemma inode_at_upd:
  "n < FS_DISKSIZE \<Longrightarrow> inode_fits i \<Longrightarrow> inode_at E (upd E d n (encode_inode i)) m = (if m = n then i else inode_at E d m)"
  by (simp add: inode_at_def length_encode_inode)

lemma extend_file_app:
  assumes "length (i_blocks i) = FS_MAXFILEBLOCKS" and "i_size i \<le> FS_MAXFILEBLOCKS"
    and "lock_map s n = Some (upgrade_held E)"
  shows "bindp (extend_file E n i) f s =
    (if free_block_list s = [] \<or> i_size i = FS_MAXFILEBLOCKS
     then (Inl (Runtime_error ''Not enough disk space for this write''), s\<lparr>lock_map := (lock_map s)(n := None)\<rparr>)
     else f (extended_inode i (hd (free_block_list s))) (s\<lparr>free_block_list := tl (free_block_list s)\<rparr>))"
  using assms by (simp add: extend_file_def prog_simps extended_inode_def)

lemma handle_write_found:
  assumes wf: "fs_wf E (disk s) I" and p: "path_ok (pathname c) p" and tab: "lock_map s = Map.empty"
    and found: "walk_as E (disk s) (username c) 0 p = Inr n" and len: "length (data c) = FS_BLOCKSIZE"
    and free: "free_ok E (disk s) I (free_block_list s)"
    and i: "i = inode_at E (disk s) n"
  shows "handle_write E c s =
    (if is_dir E (disk s) n \<or> i_size i < block c then (Inl (Runtime_error ''Provided block is not writable''), s)
     else if username c \<noteq> owner_at E (disk s) n then (Inl (Runtime_error ''User is not owner of file''), s)
     else if block c < i_size i then (Inr (), s\<lparr>disk := upd E (disk s) (i_blocks i ! block c) (data c)\<rparr>)
     else if free_block_list s = [] \<or> i_size i = FS_MAXFILEBLOCKS
     then (Inl (Runtime_error ''Not enough disk space for this write''), s)
     else (Inr (), s\<lparr>disk := upd E (upd E (disk s) (hd (free_block_list s)) (data c)) n
                       (encode_inode (extended_inode i (hd (free_block_list s)))),
                     free_block_list := tl (free_block_list s)\<rparr>))"
proof -
  have "p \<noteq> []" using p by (simp add: path_ok_def)
  note t = target_facts [OF wf walk_as_walk [OF found] this, folded i]
  obtain m where m: "walk E (disk s) 0 (butlast p) = Some m" "n \<noteq> m" using t(7) by blast
  have b: "i_blocks i ! block c < FS_DISKSIZE" if "block c < i_size i"
    using fs_wf_block_less [OF wf t(1)] inode_block_in(1) [OF t(2)] t(4) that i by blast
  have fb: "hd (free_block_list s) < FS_DISKSIZE" if "free_block_list s \<noteq> []"
    using free that by (simp add: free_ok_def)
  have enc: "length (encode_inode (extended_inode i (hd (free_block_list s)))) = FS_BLOCKSIZE"
    if "free_block_list s \<noteq> []" "i_size i \<noteq> FS_MAXFILEBLOCKS"
    using that fb t(2,4) inode_fits_at [OF t(2)]
    by (intro length_encode_inode inode_fits_extended) (auto simp: i)
  have lens: "length (i_blocks i) = FS_MAXFILEBLOCKS" using t(2) i by simp
  have last_block: "i_blocks (extended_inode i fb) ! block c = fb"
      "length (i_blocks (extended_inode i fb)) = FS_MAXFILEBLOCKS"
    if "i_size i = block c" "block c \<noteq> FS_MAXFILEBLOCKS" for fb
    using that t(4) lens by (simp_all add: extended_inode_def)
  have here: "decode_inode (blk E (disk s) n) = i" by (simp add: i inode_at_def)
  have own: "owner_at E (disk s) n = cstr (i_owner i)" by (simp add: owner_at_def i)
  show ?thesis
    unfolding handle_write_def locate_target [OF wf p tab, of "username c"]
    using t(2-5) b fb enc m tab len lens
    by (simp add: found prog_simps Let_def here own extend_file_app last_block lock_map_same)
qed

lemma spec_write_found:
  assumes wf: "fs_wf E d I" and p: "p \<noteq> []" and found: "walk_as E d u 0 p = Inr n"
    and old: "old = map (blk E d) (inode_blocks E d n)"
  shows "spec_write sp (abs_fs E d) u p k dat =
    (if is_dir E d n \<or> i_size (inode_at E d n) < k \<or> u \<noteq> owner_at E d n then None
     else if k < i_size (inode_at E d n) then Some ((abs_fs E d)(p \<mapsto> AFile u (old[k := dat])))
     else if sp \<and> i_size (inode_at E d n) \<noteq> FS_MAXFILEBLOCKS then Some ((abs_fs E d)(p \<mapsto> AFile u (old @ [dat])))
     else None)"
proof -
  have n: "walk E d 0 p = Some n" "dir_path (abs_fs E d) u (butlast p)"
    using found by (simp_all add: walk_as_iff [OF wf])
  note t = target_facts [OF wf n(1) p]
  have "length old = i_size (inode_at E d n)" using t(6) old by simp
  then show ?thesis using n t(4) by (auto simp: spec_write_def abs_fs_def obj_at_def old)
qed

text \<open>Writing a block of the file, and one past its end.\<close>

lemma overwrite_block:
  assumes wf: "fs_wf E d I" and n: "n \<in> I" "\<not> is_dir E d n" and k: "k < i_size (inode_at E d n)"
    and len: "length dat = FS_BLOCKSIZE" and free: "free_ok E d I fr"
    and d': "d' = upd E d (i_blocks (inode_at E d n) ! k) dat"
  shows "fs_wf E d' I" "free_ok E d' I fr"
    "walk E d 0 p = Some n \<Longrightarrow> abs_fs E d' =
      (abs_fs E d)(p \<mapsto> AFile (owner_at E d n) ((map (blk E d) (inode_blocks E d n))[k := dat]))"
    "(\<Union>m \<in> I. set (owned E d' m)) = (\<Union>m \<in> I. set (owned E d m))"
    "keeps E d d' I n {}"
proof -
  let ?b = "i_blocks (inode_at E d n) ! k"
  have less: "n < FS_DISKSIZE" using wf n(1) by (rule fs_wf_inode_less)
  have ok: "inode_ok E d n" using wf n(1) by (rule fs_wf_inode)
  then have sz: "i_size (inode_at E d n) \<le> FS_MAXFILEBLOCKS" and dist: "distinct (owned E d n)"
    by (simp_all add: inode_ok_def)
  note kb = inode_block_in [OF less sz k]
  have bless: "?b < FS_DISKSIZE" by (rule fs_wf_block_less [OF wf n(1) kb(1)])
  have blk': "blk E d' m = (if m = ?b then dat else blk E d m)" for m
    using bless len by (simp add: d')
  have "n \<noteq> ?b" using dist kb(1) by (auto simp: owned_def)
  then have inode': "inode_at E d' n = inode_at E d n" by (simp add: inode_at_def blk')
  then have same: "inode_blocks E d' n = inode_blocks E d n" "owned E d' n = owned E d n"
    "is_dir E d' n = is_dir E d n" "owner_at E d' n = owner_at E d n"
    by (simp_all add: inode_blocks_def owned_def is_dir_def owner_at_def)
  have ok': "inode_ok E d' n" using ok by (simp add: inode_ok_def same inode')
  have others: "untouched E d d' m" if "m \<in> I" "m \<noteq> n" for m
  proof -
    have "?b \<notin> set (owned E d m)"
      using fs_wf_disjoint(1) [OF wf that(1) n(1) that(2)] inode_blocks_owned [OF kb(1)] by blast
    then show ?thesis by (auto simp: untouched_def blk')
  qed
  have own: "owned E d' m = owned E d m" if "m \<in> I" for m
    using that same(2) untouched_same(2) [OF others [OF that]] by (cases "m = n") auto
  have disj: "set (owned E d' n) \<inter> set (owned E d m) = {}" if "m \<in> I" "m \<noteq> n" for m
    using fs_wf_disjoint(1) [OF wf n(1) that(1)] that(2) same(2) by simp
  have n': "\<not> is_dir E d' n" using n(2) same(3) by simp
  show "fs_wf E d' I"
    by (rule fs_wf_change_file(1) [OF wf n n' others ok' disj])
  show "keeps E d d' I n {}"
    by (rule fs_wf_change_file(3) [OF wf n n' others ok' disj])
  show "free_ok E d' I fr" using free by (simp add: free_ok_def own)
  show "(\<Union>m \<in> I. set (owned E d' m)) = (\<Union>m \<in> I. set (owned E d m))" by (simp add: own)
  have kth: "inode_blocks E d n ! k = ?b" "k < length (inode_blocks E d n)" using kb by simp_all
  have "map (blk E d') (inode_blocks E d n) = (map (blk E d) (inode_blocks E d n))[k := dat]"
  proof (rule nth_equalityI)
    fix j assume j: "j < length (map (blk E d') (inode_blocks E d n))"
    have "inode_blocks E d n ! j = ?b \<longleftrightarrow> j = k"
      using dist j kth nth_eq_iff_index_eq [of "inode_blocks E d n" j k] by (auto simp: owned_def)
    then show "map (blk E d') (inode_blocks E d n) ! j = (map (blk E d) (inode_blocks E d n))[k := dat] ! j"
      using j kth by (simp add: blk' nth_list_update)
  qed simp
  then have obj: "obj_at E d' n = AFile (owner_at E d n) ((map (blk E d) (inode_blocks E d n))[k := dat])"
    using n' by (simp add: obj_at_def same)
  show "abs_fs E d' = (abs_fs E d)(p \<mapsto> AFile (owner_at E d n) ((map (blk E d) (inode_blocks E d n))[k := dat]))"
    if "walk E d 0 p = Some n"
    using fs_wf_change_file(2) [OF wf n n' others ok' disj that] by (simp add: obj)
qed

lemma append_block:
  assumes wf: "fs_wf E d I" and n: "n \<in> I" "\<not> is_dir E d n" and sz: "i_size (inode_at E d n) < FS_MAXFILEBLOCKS"
    and len: "length dat = FS_BLOCKSIZE" and free: "free_ok E d I (fb # fr)"
    and d': "blk E d' = (blk E d)(fb := dat, n := encode_inode (extended_inode (inode_at E d n) fb))"
  shows "fs_wf E d' I" "free_ok E d' I fr"
    "walk E d 0 p = Some n \<Longrightarrow> abs_fs E d' =
      (abs_fs E d)(p \<mapsto> AFile (owner_at E d n) (map (blk E d) (inode_blocks E d n) @ [dat]))"
    "(\<Union>m \<in> I. set (owned E d' m)) = insert fb (\<Union>m \<in> I. set (owned E d m))"
    "keeps E d d' I n {}"
proof -
  let ?i = "inode_at E d n" and ?i' = "extended_inode (inode_at E d n) fb"
  have less: "n < FS_DISKSIZE" using wf n(1) by (rule fs_wf_inode_less)
  have ok: "inode_ok E d n" using wf n(1) by (rule fs_wf_inode)
  have fb: "fb < FS_DISKSIZE" "\<And>m. m \<in> I \<Longrightarrow> fb \<notin> set (owned E d m)"
    using free by (auto simp: free_ok_def)
  have nfb: "n \<noteq> fb" "fb \<notin> set (inode_blocks E d n)" using fb(2) [OF n(1)] by (auto simp: owned_def)
  have fits: "inode_fits ?i'" using inode_fits_at [OF less] sz fb(1) by (rule inode_fits_extended)
  have blk': "blk E d' m = (if m = n then encode_inode ?i' else if m = fb then dat else blk E d m)" for m
    by (simp add: d')
  have inode': "inode_at E d' n = ?i'" using fits by (simp add: inode_at_def blk')
  have blocks': "inode_blocks E d' n = inode_blocks E d n @ [fb]"
    using sz less by (simp add: inode_blocks_def inode' extended_inode_def take_Suc_conv_app_nth)
  then have own_n: "owned E d' n = owned E d n @ [fb]" by (simp add: owned_def)
  have same: "is_dir E d' n = is_dir E d n" "owner_at E d' n = owner_at E d n"
    by (simp_all add: is_dir_def owner_at_def inode' extended_inode_def)
  have ok': "inode_ok E d' n"
    using ok fb(1) fb(2) [OF n(1)] sz unfolding inode_ok_def own_n by (simp add: inode' extended_inode_def)
  have others: "untouched E d d' m" if "m \<in> I" "m \<noteq> n" for m
  proof -
    have "n \<notin> set (owned E d m)" using fs_wf_root_owned [OF wf n(1) _ that(1)] that(2) by blast
    then show ?thesis using fb(2) [OF that(1)] by (auto simp: untouched_def blk')
  qed
  have disj: "set (owned E d' n) \<inter> set (owned E d m) = {}" if "m \<in> I" "m \<noteq> n" for m
    using fs_wf_disjoint(1) [OF wf n(1) that(1)] that(2) fb(2) [OF that(1)] by (simp add: own_n)
  have n': "\<not> is_dir E d' n" using n(2) same(1) by simp
  show "fs_wf E d' I"
    by (rule fs_wf_change_file(1) [OF wf n n' others ok' disj])
  show "keeps E d d' I n {}"
    by (rule fs_wf_change_file(3) [OF wf n n' others ok' disj])
  have "set (owned E d' m) \<inter> set fr = {}" if "m \<in> I" for m
    using that free own_n untouched_same(2) [OF others [OF that]] by (cases "m = n") (auto simp: free_ok_def)
  then show "free_ok E d' I fr" using free by (simp add: free_ok_def)
  have "set (owned E d' m) = (if m = n then insert fb (set (owned E d m)) else set (owned E d m))"
    if "m \<in> I" for m
    using own_n untouched_same(2) [OF others [OF that]] by simp
  then show "(\<Union>m \<in> I. set (owned E d' m)) = insert fb (\<Union>m \<in> I. set (owned E d m))"
    using n(1) by auto
  have "map (blk E d') (inode_blocks E d n) = map (blk E d) (inode_blocks E d n)"
    using nfb(2) ok by (auto simp: blk' inode_ok_def owned_def)
  then have obj: "obj_at E d' n = AFile (owner_at E d n) (map (blk E d) (inode_blocks E d n) @ [dat])"
    using n' nfb(1) by (simp add: obj_at_def same blocks' blk')
  show "abs_fs E d' = (abs_fs E d)(p \<mapsto> AFile (owner_at E d n) (map (blk E d) (inode_blocks E d n) @ [dat]))"
    if "walk E d 0 p = Some n"
    using fs_wf_change_file(2) [OF wf n n' others ok' disj that] by (simp add: obj)
qed

lemma handle_write_refines:
  assumes q: "quiescent E s I" and p: "path_ok (pathname c) p" and len: "length (data c) = FS_BLOCKSIZE"
  shows "implements E s I (handle_write E c s)
    (spec_write (free_block_list s \<noteq> []) (abs_fs E (disk s)) (username c) p (block c) (data c))"
proof -
  have wf: "fs_wf E (disk s) I" and free: "free_ok E (disk s) I (free_block_list s)"
    and tab: "lock_map s = Map.empty" using q by (simp_all add: quiescent_def)
  have ne: "p \<noteq> []" using p by (simp add: path_ok_def)
  show ?thesis
  proof (cases "walk_as E (disk s) (username c) 0 p")
    case (Inl e)
    obtain msg where e: "e = Runtime_error msg" using walk_as_Inl [OF Inl] ..
    have "handle_write E c s = (Inl (Runtime_error msg), s)"
      unfolding handle_write_def locate_target [OF wf p tab, of "username c"] by (simp add: Inl e)
    then show ?thesis using spec_write_unreachable [OF wf Inl] by (rule implements_None)
  next
    case (Inr n)
    let ?i = "inode_at E (disk s) n"
    have w: "walk E (disk s) 0 p = Some n" using Inr by (rule walk_as_walk)
    have nI: "n \<in> I" by (rule walk_root_in [OF wf w])
    note res = handle_write_found [OF wf p tab Inr len free refl]
    note spec = spec_write_found [OF wf ne Inr refl]
    consider "is_dir E (disk s) n \<or> i_size ?i < block c" | "username c \<noteq> owner_at E (disk s) n"
      | (over) "\<not> is_dir E (disk s) n" "username c = owner_at E (disk s) n" "block c < i_size ?i"
      | "\<not> is_dir E (disk s) n" "username c = owner_at E (disk s) n" "block c = i_size ?i"
        "free_block_list s = [] \<or> i_size ?i = FS_MAXFILEBLOCKS"
      | (app) fb fr where "\<not> is_dir E (disk s) n" "username c = owner_at E (disk s) n" "block c = i_size ?i"
        "free_block_list s = fb # fr" "i_size ?i < FS_MAXFILEBLOCKS"
      using target_facts(4) [OF wf w ne] by (cases "free_block_list s") force+
    then show ?thesis
    proof cases
      case over
      let ?d = "upd E (disk s) (i_blocks ?i ! block c) (data c)"
      note o = overwrite_block [OF wf nI over(1,3) len free refl]
      show ?thesis
      proof (rule implements_Some [where s' = "s\<lparr>disk := ?d\<rparr>" and I' = I])
        show "handle_write E c s = (Inr (), s\<lparr>disk := ?d\<rparr>)" using res over by simp
        show "quiescent E (s\<lparr>disk := ?d\<rparr>) I" using o(1,2) tab by (simp add: quiescent_def)
      qed (use spec over o(3) [OF w] o(4) in \<open>simp_all add: accounted_def\<close>)
    next
      case app
      let ?d = "upd E (upd E (disk s) fb (data c)) n (encode_inode (extended_inode ?i fb))"
      have less: "n < FS_DISKSIZE" "fb < FS_DISKSIZE"
        using fs_wf_inode_less [OF wf nI] free app(4) by (simp_all add: free_ok_def)
      have "blk E ?d = (blk E (disk s))(fb := data c, n := encode_inode (extended_inode ?i fb))"
        using less len length_encode_inode [OF inode_fits_extended [OF inode_fits_at [OF less(1)] app(5) less(2)]]
        by (simp add: blk_upd_fun)
      note a = append_block [OF wf nI app(1,5) len free [unfolded app(4)] this]
      show ?thesis
      proof (rule implements_Some [where s' = "s\<lparr>disk := ?d, free_block_list := fr\<rparr>" and I' = I])
        show "handle_write E c s = (Inr (), s\<lparr>disk := ?d, free_block_list := fr\<rparr>)" using res app by simp
        show "quiescent E (s\<lparr>disk := ?d, free_block_list := fr\<rparr>) I" using a(1,2) tab by (simp add: quiescent_def)
        show "accounted E (s\<lparr>disk := ?d, free_block_list := fr\<rparr>) I = accounted E s I"
          using a(4) app(4) by (simp add: accounted_def Un_commute)
      qed (use spec app a(3) [OF w] in simp)
    qed (use res spec in \<open>auto intro: implements_None\<close>)
  qed
qed

end

end
