(* ===== verification/FS_Create.thy ===== *)
theory FS_Create
  imports FS_Write
begin

text \<open>
  \<^verbatim>\<open>FileSystem::handle_create\<close> on a well-formed disk.  With room for the new inode (and for a new
  block of entries when the parent's blocks are full) it refines \<open>spec_create\<close>.  Without room it
  throws, but not cleanly: when the free list is empty the upgradeable lock of the parent stays in
  the lock table, and when only the block of entries is missing the block taken for the inode is
  lost.  The first lemmas, on finding and locking the parent, also serve \<open>FS_Delete\<close>.
\<close>

subsection \<open>Opening the parent directory\<close>

lemma dir_path_iff:
  assumes wf: "fs_wf E d I"
  shows "dir_path (abs_fs E d) u xs \<longleftrightarrow>
    (\<exists>n. walk_as E d u 0 xs = Inr n \<and> (xs = [] \<or> is_dir E d n \<and> owner_at E d n = u))"
proof (cases xs rule: rev_cases)
  case (snoc ys y)
  then show ?thesis by (auto simp: walk_as_iff [OF wf] abs_fs_def)
qed simp

context fs_device
begin

lemma get_parent_walk:
  assumes wf: "fs_wf E (disk s) I" and xs: "\<forall>x \<in> set xs. name_ok x \<and> NUL \<notin> set x"
    and tab: "lock_map s = Map.empty"
  shows "get_parent_inode_and_upgradeable_lock E c (join_path xs) s =
    (case walk_as E (disk s) (username c) 0 xs of
       Inl e \<Rightarrow> (Inl e, s) | Inr n \<Rightarrow> (Inr n, s\<lparr>lock_map := [n \<mapsto> upgrade_held E]\<rparr>))"
proof (cases "xs = []")
  case True
  then show ?thesis using tab
    by (simp add: get_parent_inode_and_upgradeable_lock_def prog_simps ROOT_INODE_def)
next
  case False
  have p: "path_ok (join_path xs) xs" using False xs by (simp add: path_ok_def)
  have ne: "join_path xs \<noteq> []" using False by (cases xs) auto
  show ?thesis
  proof (cases "walk_as E (disk s) (username c) 0 xs")
    case (Inl e)
    then show ?thesis
      unfolding get_parent_inode_and_upgradeable_lock_def locate_target [OF wf p tab, of "username c"]
      using ne by (simp add: locate_target [OF wf p tab, of "username c"])
  next
    case (Inr n)
    obtain m where m: "walk E (disk s) 0 (butlast xs) = Some m" "n \<noteq> m"
      using target_facts(7) [OF wf walk_as_walk [OF Inr] False] by blast
    then show ?thesis using ne Inr tab
      by (simp add: get_parent_inode_and_upgradeable_lock_def locate_target [OF wf p tab, of "username c"]
          Let_def prog_simps)
  qed
qed

lemma open_parent:
  assumes wf: "fs_wf E (disk s) I" and p: "path_ok path (xs @ [x])" and tab: "lock_map s = Map.empty"
    and body: "body = (bindp (lift (get_parent_dir path)) (\<lambda>parent_path.
     bindp (lift (get_target path)) (\<lambda>target_name.
     bindp (get_parent_inode_and_upgradeable_lock E c parent_path) (\<lambda>parent_inode_block.
     bindp (disk_readblock E parent_inode_block) (\<lambda>raw.
     let parent_inode = decode_inode raw in
     seqp (validate_parent_inode E c parent_path parent_inode parent_inode_block)
       (K target_name parent_inode_block parent_inode))))))"
  shows open_parent_fail: "\<not> dir_path (abs_fs E (disk s)) (username c) xs \<Longrightarrow>
      \<exists>msg. body s = (Inl (Runtime_error msg), s)"
    and open_parent_found: "dir_path (abs_fs E (disk s)) (username c) xs \<Longrightarrow> walk E (disk s) 0 xs = Some n \<Longrightarrow>
      body s = K x n (inode_at E (disk s) n) (s\<lparr>lock_map := [n \<mapsto> upgrade_held E]\<rparr>)"
proof -
  have ok: "name_ok x" "\<forall>y \<in> set xs. name_ok y \<and> NUL \<notin> set y"
    and path: "path = join_path xs @ slash # x"
    using p by (auto simp: path_ok_def)
  have ne: "join_path xs = [] \<longleftrightarrow> xs = []" by (cases xs) auto
  note par = get_parent_walk [OF wf ok(2) tab, of c]
  have inr: "body s = (if xs = [] \<or> is_dir E (disk s) n \<and> owner_at E (disk s) n = username c
      then K x n (inode_at E (disk s) n) (s\<lparr>lock_map := [n \<mapsto> upgrade_held E]\<rparr>)
      else (Inl (Runtime_error ''Expected a directory, but got a file or user is not owner lol''), s))"
    if w: "walk_as E (disk s) (username c) 0 xs = Inr n" for n
  proof -
    have nI: "n \<in> I" by (rule walk_root_in [OF wf walk_as_walk [OF w]])
    have "n < FS_DISKSIZE" "NUL \<in> set (i_owner (inode_at E (disk s) n))"
      using fs_wf_inode_less [OF wf nI] fs_wf_inode [OF wf nI] by (auto simp: inode_ok_def)
    moreover have "get_parent_inode_and_upgradeable_lock E c (join_path xs) s =
      (Inr n, s\<lparr>lock_map := [n \<mapsto> upgrade_held E]\<rparr>)" using par w by simp
    ultimately show ?thesis unfolding body path using ok(1) tab
      by (simp add: prog_simps bindp_Inr validate_parent_inode_def ne Let_def inode_at_def [symmetric]
          owner_at_def is_dir_def lock_map_same)
  qed
  show "\<exists>msg. body s = (Inl (Runtime_error msg), s)"
    if "\<not> dir_path (abs_fs E (disk s)) (username c) xs"
  proof (cases "walk_as E (disk s) (username c) 0 xs")
    case (Inl e)
    obtain msg where e: "e = Runtime_error msg" using walk_as_Inl [OF Inl] ..
    have "get_parent_inode_and_upgradeable_lock E c (join_path xs) s = (Inl (Runtime_error msg), s)"
      using par Inl e by simp
    then have "body s = (Inl (Runtime_error msg), s)"
      unfolding body path using ok(1) by (simp add: prog_simps bindp_Inl)
    then show ?thesis ..
  next
    case (Inr n)
    then have "\<not> (xs = [] \<or> is_dir E (disk s) n \<and> owner_at E (disk s) n = username c)"
      using that dir_path_iff [OF wf, of "username c" xs] by blast
    then have "body s = (Inl (Runtime_error ''Expected a directory, but got a file or user is not owner lol''), s)"
      by (simp only: inr [OF Inr] if_False)
    then show ?thesis ..
  qed
  assume dp: "dir_path (abs_fs E (disk s)) (username c) xs" and n: "walk E (disk s) 0 xs = Some n"
  obtain m where m: "walk_as E (disk s) (username c) 0 xs = Inr m"
    "xs = [] \<or> is_dir E (disk s) m \<and> owner_at E (disk s) m = username c"
    using dp dir_path_iff [OF wf, of "username c" xs] by blast
  have "m = n" using walk_as_walk [OF m(1)] n by simp
  then show "body s = K x n (inode_at E (disk s) n) (s\<lparr>lock_map := [n \<mapsto> upgrade_held E]\<rparr>)"
    using inr [OF m(1)] m(2) by simp
qed

lemma dir_path_dir:
  assumes wf: "fs_wf E d I" and dp: "dir_path (abs_fs E d) u xs"
  shows "\<exists>n. walk E d 0 xs = Some n \<and> n \<in> I \<and> is_dir E d n"
proof -
  obtain n where n: "walk_as E d u 0 xs = Inr n" "xs = [] \<or> is_dir E d n \<and> owner_at E d n = u"
    using dp dir_path_iff [OF wf, of u xs] by blast
  have w: "walk E d 0 xs = Some n" using n(1) by (rule walk_as_walk)
  show ?thesis using w walk_root_in [OF wf w] n(2) fs_wf_root(2) [OF wf] by auto
qed

end

subsection \<open>Looking for a slot\<close>

definition free_slot :: "fs_direntry list \<Rightarrow> bool" where
  "free_slot es \<longleftrightarrow> (\<exists>e \<in> set es. de_inode_block e = 0)"

text \<open>
  The state of the scan after the blocks \<open>bs\<close>: the first slot seen is kept; when there is none the
  state is as before.
\<close>

definition scan_outcome ::
  "(nat \<Rightarrow> fs_direntry list) \<Rightarrow> nat list \<Rightarrow> create_scan \<Rightarrow> create_scan \<Rightarrow> bool" where
  "scan_outcome D bs st st' \<longleftrightarrow>
     (if is_empty_direntry st \<or> \<not> (\<exists>b \<in> set bs. free_slot (D b)) then st' = st
      else is_empty_direntry st' \<and> new_direntry_block st' \<in> set bs \<and>
        updated_direntries_block st' = D (new_direntry_block st') \<and>
        new_direntry_location st' < length (updated_direntries_block st') \<and>
        de_inode_block (updated_direntries_block st' ! new_direntry_location st') = 0)"

lemma names_used_entries:
  "nm \<in> fst ` set (used_entries es) \<longleftrightarrow> (\<exists>e \<in> set es. de_inode_block e \<noteq> 0 \<and> cstr (de_name e) = nm)"
  by (auto simp: used_entries_def image_iff)

lemma create_scan_entries_eq:
  assumes nm: "NUL \<notin> set nm" and es: "\<forall>e \<in> set es. de_inode_block e \<noteq> 0 \<longrightarrow> NUL \<in> set (de_name e)"
    and "\<forall>j \<in> set js. j < length es"
  shows "create_scan_entries nm b es js st =
    Inr (if \<exists>j \<in> set js. de_inode_block (es ! j) \<noteq> 0 \<and> cstr (de_name (es ! j)) = nm then None
         else Some (if is_empty_direntry st then st
           else case find (\<lambda>j. de_inode_block (es ! j) = 0) js of
             None \<Rightarrow> st
           | Some j \<Rightarrow> \<lparr>is_empty_direntry = True, new_direntry_block = b, new_direntry_location = j,
                       updated_direntries_block = es\<rparr>))"
  using assms(3)
proof (induction js arbitrary: st)
  case (Cons j js)
  have j: "j < length es" using Cons.prems by simp
  have cmp: "strcmp_eq (de_name (es ! j)) (c_str nm) = Inr (cstr (de_name (es ! j)) = nm)"
    if "de_inode_block (es ! j) \<noteq> 0"
    using that es nm j by (simp add: nth_mem)
  show ?case
  proof (cases "de_inode_block (es ! j) = 0")
    case True
    then show ?thesis using Cons j by simp
  next
    case False
    then show ?thesis using Cons j cmp [OF False] by simp fastforce
  qed
qed simp

lemma create_scan_block:
  assumes nm: "NUL \<notin> set nm" and es: "dir_block_ok es" "length es = FS_DIRENTRIES"
  shows "nm \<in> fst ` set (used_entries es) \<Longrightarrow> create_scan_entries nm b es [0..<FS_DIRENTRIES] st = Inr None"
    and "nm \<notin> fst ` set (used_entries es) \<Longrightarrow> D b = es \<Longrightarrow>
      \<exists>st'. create_scan_entries nm b es [0..<FS_DIRENTRIES] st = Inr (Some st') \<and> scan_outcome D [b] st st'"
proof -
  have ok: "\<forall>e \<in> set es. de_inode_block e \<noteq> 0 \<longrightarrow> NUL \<in> set (de_name e)" using es(1) by (simp add: dir_block_ok_def)
  have js: "\<forall>j \<in> set [0..<FS_DIRENTRIES]. j < length es" using es(2) by simp
  note eq = create_scan_entries_eq [OF nm ok js]
  have "(\<exists>j \<in> set [0..<FS_DIRENTRIES]. de_inode_block (es ! j) \<noteq> 0 \<and> cstr (de_name (es ! j)) = nm)
      \<longleftrightarrow> nm \<in> fst ` set (used_entries es)"
    unfolding names_used_entries using es(2) by (auto simp: set_conv_nth Bex_def)
  note eq = eq [unfolded this]
  show "create_scan_entries nm b es [0..<FS_DIRENTRIES] st = Inr None" if "nm \<in> fst ` set (used_entries es)"
    unfolding eq using that by simp
  assume new: "nm \<notin> fst ` set (used_entries es)" and D: "D b = es"
  show "\<exists>st'. create_scan_entries nm b es [0..<FS_DIRENTRIES] st = Inr (Some st') \<and> scan_outcome D [b] st st'"
  proof (cases "find (\<lambda>j. de_inode_block (es ! j) = 0) [0..<FS_DIRENTRIES]")
    case None
    then have "\<not> free_slot es" using es(2) by (auto simp: free_slot_def find_None_iff in_set_conv_nth)
    then show ?thesis unfolding eq using new None D by (simp add: scan_outcome_def)
  next
    case (Some j)
    then have j: "j < length es" "de_inode_block (es ! j) = 0" using es(2) by (auto simp: find_Some_iff)
    then have "free_slot es" by (auto simp: free_slot_def)
    then show ?thesis unfolding eq using new Some D j by (simp add: scan_outcome_def)
  qed
qed

lemma scan_outcome_append:
  assumes "scan_outcome D bs st st'" and "scan_outcome D bs' st' st''"
  shows "scan_outcome D (bs @ bs') st st''"
  using assms by (auto simp: scan_outcome_def split: if_splits)

context fs_device
begin

lemma create_scan_blocks_eq:
  assumes nm: "NUL \<notin> set nm" and "\<forall>i \<in> set is. i < length bs \<and> readable_dir E (disk s) (bs ! i)"
    and N: "N = fst ` set (concat (map (\<lambda>i. used_entries (dir_at E (disk s) (bs ! i))) is))"
  shows "nm \<in> N \<Longrightarrow> create_scan_blocks E nm bs is st s = (Inr None, s)"
    and "nm \<notin> N \<Longrightarrow> \<exists>st'. create_scan_blocks E nm bs is st s = (Inr (Some st'), s) \<and>
      scan_outcome (dir_at E (disk s)) (map (\<lambda>i. bs ! i) is) st st'"
  using assms(2-)
proof (induction "is" arbitrary: st N)
  case (Cons i "is")
  {
    case 1
    let ?es = "dir_at E (disk s) (bs ! i)"
    have i: "i < length bs" "bs ! i < FS_DISKSIZE" "dir_block_ok ?es" "length ?es = FS_DIRENTRIES"
      using 1(2) by (auto simp: readable_dir_def)
    show ?case
    proof (cases "nm \<in> fst ` set (used_entries ?es)")
      case True
      then show ?thesis using i create_scan_block(1) [OF nm i(3,4)]
        by (simp add: prog_simps dir_at_def [symmetric])
    next
      case False
      then obtain st' where st': "create_scan_entries nm (bs ! i) ?es [0..<FS_DIRENTRIES] st = Inr (Some st')"
        using create_scan_block(2) [OF nm i(3,4), of "dir_at E (disk s)"] by blast
      have "nm \<in> fst ` set (concat (map (\<lambda>i. used_entries (dir_at E (disk s) (bs ! i))) is))"
        using 1(1,3) False by auto
      then show ?thesis using Cons.IH(1) [OF _ _ refl, of st'] 1(2) i st'
        by (simp add: prog_simps dir_at_def [symmetric])
    qed
  next
    case 2
    let ?es = "dir_at E (disk s) (bs ! i)"
    have i: "i < length bs" "bs ! i < FS_DISKSIZE" "dir_block_ok ?es" "length ?es = FS_DIRENTRIES"
      using 2(2) by (auto simp: readable_dir_def)
    have new: "nm \<notin> fst ` set (used_entries ?es)"
      "nm \<notin> fst ` set (concat (map (\<lambda>i. used_entries (dir_at E (disk s) (bs ! i))) is))"
      using 2(1,3) by auto
    obtain st1 where st1: "create_scan_entries nm (bs ! i) ?es [0..<FS_DIRENTRIES] st = Inr (Some st1)"
      "scan_outcome (dir_at E (disk s)) [bs ! i] st st1"
      using create_scan_block(2) [OF nm i(3,4) new(1), of "dir_at E (disk s)"] by blast
    obtain st2 where st2: "create_scan_blocks E nm bs is st1 s = (Inr (Some st2), s)"
      "scan_outcome (dir_at E (disk s)) (map (\<lambda>i. bs ! i) is) st1 st2"
      using Cons.IH(2) [OF new(2) _ refl, of st1] 2(2) by auto
    have "create_scan_blocks E nm bs (i # is) st s = (Inr (Some st2), s)"
      using i st1(1) st2(1) by (simp add: prog_simps dir_at_def [symmetric])
    moreover have "scan_outcome (dir_at E (disk s)) (map (\<lambda>i. bs ! i) (i # is)) st st2"
      using scan_outcome_append [OF st1(2) st2(2)] by simp
    ultimately show ?case by blast
  }
qed (auto simp: prog_simps scan_outcome_def)

lemma create_scan_dir:
  assumes wf: "fs_wf E (disk s) I" and n: "n \<in> I" "is_dir E (disk s) n" and nm: "NUL \<notin> set nm"
    and i: "i = inode_at E (disk s) n"
  shows "nm \<in> fst ` set (dir_entries E (disk s) n) \<Longrightarrow>
      create_scan_blocks E nm (i_blocks i) [0..<i_size i] st s = (Inr None, s)"
    and "nm \<notin> fst ` set (dir_entries E (disk s) n) \<Longrightarrow>
      \<exists>st'. create_scan_blocks E nm (i_blocks i) [0..<i_size i] st s = (Inr (Some st'), s) \<and>
        scan_outcome (dir_at E (disk s)) (inode_blocks E (disk s) n) st st'"
proof -
  have less: "n < FS_DISKSIZE" using wf n(1) by (rule fs_wf_inode_less)
  have sz: "i_size i \<le> FS_MAXFILEBLOCKS" using fs_wf_inode [OF wf n(1)] by (simp add: inode_ok_def i)
  have len: "length (i_blocks i) = FS_MAXFILEBLOCKS" using less i by simp
  have rd: "\<forall>k \<in> set [0..<i_size i]. k < length (i_blocks i) \<and> readable_dir E (disk s) (i_blocks i ! k)"
    using sz less fs_wf_readable [OF wf n] inode_block_in(1) len i by auto
  have ents: "concat (map (\<lambda>k. used_entries (dir_at E (disk s) (i_blocks i ! k))) [0..<i_size i])
      = dir_entries E (disk s) n"
    using map_nth_take [of "i_size i" "i_blocks i" "\<lambda>b. used_entries (dir_at E (disk s) b)"] sz len
    by (simp add: dir_entries_def inode_blocks_def i)
  have bs: "map (\<lambda>k. i_blocks i ! k) [0..<i_size i] = inode_blocks E (disk s) n"
    using map_nth_take [of "i_size i" "i_blocks i" "\<lambda>b. b"] sz len by (simp add: inode_blocks_def i)
  note scan = create_scan_blocks_eq [OF nm rd refl, unfolded ents bs]
  show "create_scan_blocks E nm (i_blocks i) [0..<i_size i] st s = (Inr None, s)"
    if "nm \<in> fst ` set (dir_entries E (disk s) n)" using scan(1) that .
  show "\<exists>st'. create_scan_blocks E nm (i_blocks i) [0..<i_size i] st s = (Inr (Some st'), s) \<and>
        scan_outcome (dir_at E (disk s)) (inode_blocks E (disk s) n) st st'"
    if "nm \<notin> fst ` set (dir_entries E (disk s) n)" using scan(2) that .
qed

end

subsection \<open>The new entry and the new inode\<close>

definition new_entry :: "string \<Rightarrow> nat \<Rightarrow> fs_direntry \<Rightarrow> fs_direntry" where
  "new_entry nm b e = \<lparr>de_name = nm @ NUL # drop (Suc (length nm)) (de_name e), de_inode_block = b\<rparr>"

definition new_node :: "fs_inode \<Rightarrow> Command \<Rightarrow> fs_inode" where
  "new_node junk c =
     junk\<lparr>i_size := 0, i_owner := username c @ NUL # drop (Suc (length (username c))) (i_owner junk),
          i_type := ctype c\<rparr>"

text \<open>A create command as the server accepts it; \<open>junk\<close> is any contents of the stack variable.\<close>

definition create_ok :: "Command \<Rightarrow> fs_inode \<Rightarrow> bool" where
  "create_ok c junk \<longleftrightarrow>
     NUL \<notin> set (username c) \<and> length (username c) \<le> FS_MAXUSERNAME \<and>
     ctype c \<in> {CHR ''f'', CHR ''d''} \<and> inode_fits junk"

lemma fill_direntry_eq:
  assumes "dir_fits es" and "loc < length es" and "name_ok nm" "NUL \<notin> set nm"
  shows "fill_direntry nm b loc es = Inr (es[loc := new_entry nm b (es ! loc)])"
proof -
  have "length (de_name (es ! loc)) = FS_MAXFILENAME + 1"
    using assms(1,2) nth_mem by (auto simp: dir_fits_def direntry_fits_def)
  then show ?thesis using assms by (simp add: fill_direntry_def strcpy_fits new_entry_def name_ok_def)
qed

lemma make_inode_eq: "create_ok c junk \<Longrightarrow> make_inode junk c = Inr (new_node junk c)"
  by (simp add: create_ok_def inode_fits_def make_inode_def strcpy_fits new_node_def)

lemma new_node_props:
  assumes "create_ok c junk"
  shows "inode_fits (new_node junk c)" "cstr (i_owner (new_node junk c)) = username c"
    "NUL \<in> set (i_owner (new_node junk c))" "i_size (new_node junk c) = 0" "i_type (new_node junk c) = ctype c"
  using assms by (auto simp: create_ok_def new_node_def inode_fits_def cstr_append_NUL)

lemma new_entry_props:
  assumes "direntry_fits e" and "name_ok nm" "NUL \<notin> set nm" and "b < FS_DISKSIZE"
  shows "direntry_fits (new_entry nm b e)" "cstr (de_name (new_entry nm b e)) = nm"
    "NUL \<in> set (de_name (new_entry nm b e))" "de_inode_block (new_entry nm b e) = b"
  using assms by (auto simp: direntry_fits_def new_entry_def name_ok_def cstr_append_NUL FS_DISKSIZE_def)

lemma dir_fits_update: "dir_fits es \<Longrightarrow> direntry_fits e \<Longrightarrow> dir_fits (es[j := e])"
  using set_update_subset_insert [of es j e] by (auto simp: dir_fits_def)

lemma used_entries_simps [simp]:
  "used_entries [] = []"
  "used_entries (e # es) =
    (if de_inode_block e = 0 then used_entries es else (cstr (de_name e), de_inode_block e) # used_entries es)"
  "used_entries (es @ es') = used_entries es @ used_entries es'"
  by (simp_all add: used_entries_def)

lemma used_entries_fill:
  assumes "j < length es" and "de_inode_block (es ! j) = 0" and "de_inode_block e \<noteq> 0"
  shows "mset (used_entries (es[j := e])) = add_mset (cstr (de_name e), de_inode_block e) (mset (used_entries es))"
proof -
  have "used_entries es = used_entries (take j es @ es ! j # drop (Suc j) es)"
    using id_take_nth_drop [OF assms(1)] by simp
  then show ?thesis using assms by (simp add: upd_conv_take_nth_drop)
qed

lemma dir_block_ok_fill:
  assumes "\<forall>e' \<in> set es. de_inode_block e' \<noteq> 0 \<longrightarrow> NUL \<in> set (de_name e')" and "j < length es"
    and "NUL \<in> set (de_name e)" "de_inode_block e \<noteq> 0"
  shows "dir_block_ok (es[j := e])"
proof -
  have "e \<in> set (es[j := e])" using assms(2) by (rule set_update_memI)
  then have "used_entries (es[j := e]) \<noteq> []" using assms(4) by (auto simp: used_entries_def filter_empty_conv)
  then show ?thesis using assms(1,3) set_update_subset_insert [of es j e] by (auto simp: dir_block_ok_def)
qed

definition zero_block :: "fs_direntry list" where
  "zero_block = replicate FS_DIRENTRIES zero_direntry"

lemma zero_block_props:
  "dir_fits zero_block" "length zero_block = FS_DIRENTRIES" "used_entries zero_block = []"
  "zero_block ! 0 = zero_direntry" "direntry_fits zero_direntry"
  "\<forall>e \<in> set zero_block. de_inode_block e = 0" "0 < length zero_block"
  by (auto simp: zero_block_def zero_direntry_def dir_fits_def direntry_fits_def FS_DIRENTRIES_eq
      used_entries_def)

context fs_device
begin

text \<open>The run of the code after the scan, with a slot found and without.\<close>

lemma create_commit_slot:
  assumes lock: "lock_map s = [n \<mapsto> upgrade_held E]" and st: "is_empty_direntry st"
    and es: "dir_fits (updated_direntries_block st)"
      "new_direntry_location st < length (updated_direntries_block st)"
    and nm: "name_ok nm" "NUL \<notin> set nm" and c: "create_ok c junk"
    and fl: "free_block_list s = cb # fr" and less: "cb < FS_DISKSIZE" "new_direntry_block st < FS_DISKSIZE"
    and e: "e = new_entry nm cb (updated_direntries_block st ! new_direntry_location st)"
  shows "create_commit E junk c nm n i st s =
    (Inr (), s\<lparr>disk := upd E (upd E (disk s) cb (encode_inode (new_node junk c))) (new_direntry_block st)
                 (encode_dir ((updated_direntries_block st)[new_direntry_location st := e])),
               free_block_list := fr, lock_map := Map.empty\<rparr>)"
proof -
  have "direntry_fits (updated_direntries_block st ! new_direntry_location st)"
    using es nth_mem by (auto simp: dir_fits_def)
  then have "dir_fits ((updated_direntries_block st)[new_direntry_location st := e])"
    using es(1) new_entry_props(1) nm less(1) by (simp add: dir_fits_update e)
  then have len: "length (encode_dir ((updated_direntries_block st)[new_direntry_location st := e])) = FS_BLOCKSIZE"
    by (rule length_encode_dir)
  have len2: "length (encode_inode (new_node junk c)) = FS_BLOCKSIZE"
    using new_node_props(1) [OF c] by (rule length_encode_inode)
  note eqs = fill_direntry_eq [OF es nm, of cb, folded e] make_inode_eq [OF c]
  show ?thesis using lock st fl less len len2
    by (simp add: create_commit_def prog_simps Let_def eqs)
qed

lemma create_commit_grow:
  assumes lock: "lock_map s = [n \<mapsto> upgrade_held E]" and st: "\<not> is_empty_direntry st"
    "updated_direntries_block st = zero_block" "new_direntry_location st = 0"
    and nm: "name_ok nm" "NUL \<notin> set nm" and c: "create_ok c junk"
    and fl: "free_block_list s = cb # nb # fr" and less: "cb < FS_DISKSIZE" "nb < FS_DISKSIZE" "n < FS_DISKSIZE"
    and i: "inode_fits i" "i_size i < FS_MAXFILEBLOCKS"
    and e: "e = new_entry nm cb zero_direntry"
  shows "create_commit E junk c nm n i st s =
    (Inr (), s\<lparr>disk := upd E (upd E (upd E (disk s) cb (encode_inode (new_node junk c)))
                   nb (encode_dir (zero_block[0 := e]))) n (encode_inode (extended_inode i nb)),
               free_block_list := fr, lock_map := Map.empty\<rparr>)"
proof -
  note z = zero_block_props
  have "dir_fits (zero_block[0 := e])"
    using z(1,5) new_entry_props(1) nm less(1) by (simp add: dir_fits_update e)
  then have len: "length (encode_dir (zero_block[0 := e])) = FS_BLOCKSIZE" by (rule length_encode_dir)
  have len2: "length (encode_inode (new_node junk c)) = FS_BLOCKSIZE"
    using new_node_props(1) [OF c] by (rule length_encode_inode)
  have len3: "length (encode_inode (extended_inode i nb)) = FS_BLOCKSIZE"
    using i less(2) by (intro length_encode_inode inode_fits_extended)
  have lens: "length (i_blocks i) = FS_MAXFILEBLOCKS" using i(1) by (simp add: inode_fits_def)
  have ext: "i\<lparr>i_blocks := (i_blocks i)[i_size i := nb], i_size := Suc (i_size i)\<rparr> = extended_inode i nb"
    by (simp add: extended_inode_def)
  have fill: "fill_direntry nm cb 0 zero_block = Inr (zero_block[0 := e])"
    using fill_direntry_eq [OF z(1,7) nm, of cb] z(4) e by simp
  show ?thesis using lock st fl less len len2 len3 i(2) lens
    by (simp add: create_commit_def prog_simps Let_def fill make_inode_eq [OF c] grow_directory_def ext)
qed

text \<open>The two ways of running out of blocks.\<close>

lemma create_commit_no_block:
  "free_block_list s = [] \<Longrightarrow>
    create_commit E junk c nm n i st s = (Inl (Runtime_error ''Not enough disk space for create''), s)"
  by (simp add: create_commit_def prog_simps)

lemma create_commit_one_block:
  assumes lock: "lock_map s = [n \<mapsto> upgrade_held E]" and st: "\<not> is_empty_direntry st"
    "updated_direntries_block st = zero_block" "new_direntry_location st = 0"
    and nm: "name_ok nm" "NUL \<notin> set nm" and c: "create_ok c junk"
    and fl: "free_block_list s = cb # fr" "fr = [] \<or> i_size i = FS_MAXFILEBLOCKS"
  shows "create_commit E junk c nm n i st s =
    (Inl (Runtime_error ''Not enough disk space for create''), s\<lparr>free_block_list := fr, lock_map := Map.empty\<rparr>)"
proof -
  have fill: "fill_direntry nm cb 0 zero_block = Inr (zero_block[0 := new_entry nm cb zero_direntry])"
    using fill_direntry_eq [OF zero_block_props(1,7) nm, of cb] zero_block_props(4) by simp
  show ?thesis using lock st fl
    by (auto simp: create_commit_def prog_simps Let_def fill make_inode_eq [OF c] grow_directory_def)
qed

end

end
