(* ===== verification/FS_Create_Refine.thy ===== *)
theory FS_Create_Refine
  imports FS_Create
begin

text \<open>
  The effect of \<^verbatim>\<open>handle_create\<close> on the tree of inodes: the disk writes add a leaf to the parent,
  either in a free slot of one of its blocks or in a new block, and the whole handler refines
  \<open>spec_create\<close>.
\<close>

context fs_device
begin

lemma dir_at_upd:
  "b < FS_DISKSIZE \<Longrightarrow> dir_fits es \<Longrightarrow> dir_at E (upd E d b (encode_dir es)) m = (if m = b then es else dir_at E d m)"
  by (simp add: dir_at_def length_encode_dir)

text \<open>Facts on the new inode, common to both cases.\<close>

lemma new_leaf:
  assumes c: "create_ok c junk" and cb: "cb < FS_DISKSIZE"
    and blk: "blk E d' cb = encode_inode (new_node junk c)"
  shows "inode_ok E d' cb" "inode_blocks E d' cb = []"
    "obj_at E d' cb = (if ctype c = CHR ''d'' then ADir (username c) else AFile (username c) [])"
proof -
  note w = new_node_props [OF c]
  have i: "inode_at E d' cb = new_node junk c" using w(1) by (simp add: inode_at_def blk)
  show bs: "inode_blocks E d' cb = []" by (simp add: inode_blocks_def i w)
  show "inode_ok E d' cb" using c cb w by (simp add: inode_ok_def i owned_def bs create_ok_def)
  show "obj_at E d' cb = (if ctype c = CHR ''d'' then ADir (username c) else AFile (username c) [])"
    by (simp add: obj_at_def is_dir_def owner_at_def i w bs)
qed

lemma add_in_slot:
  assumes wf: "fs_wf E d I" and n: "n \<in> I" "is_dir E d n" and b: "b \<in> set (inode_blocks E d n)"
    and j: "j < length (dir_at E d b)" "de_inode_block (dir_at E d b ! j) = 0"
    and nm: "name_ok nm" "NUL \<notin> set nm" "nm \<notin> fst ` set (dir_entries E d n)" and c: "create_ok c junk"
    and free: "free_ok E d I (cb # fr)"
    and d': "blk E d' = (blk E d)(cb := encode_inode (new_node junk c),
      b := encode_dir ((dir_at E d b)[j := new_entry nm cb (dir_at E d b ! j)]))"
  shows "fs_wf E d' (insert cb I)" "free_ok E d' (insert cb I) fr"
    "walk E d 0 p = Some n \<Longrightarrow> abs_fs E d' = (abs_fs E d)(p @ [nm] \<mapsto>
      (if ctype c = CHR ''d'' then ADir (username c) else AFile (username c) []))"
    "(\<Union>m \<in> insert cb I. set (owned E d' m)) = insert cb (\<Union>m \<in> I. set (owned E d m))"
    "keeps E d d' I n {}"
proof -
  let ?e = "new_entry nm cb (dir_at E d b ! j)"
  let ?es = "(dir_at E d b)[j := ?e]"
  have okn: "inode_ok E d n" using wf n(1) by (rule fs_wf_inode)
  then have dist: "distinct (owned E d n)" by (simp add: inode_ok_def)
  have bn: "b \<noteq> n" using dist b by (auto simp: owned_def)
  have bless: "b < FS_DISKSIZE" by (rule fs_wf_block_less [OF wf n(1) b])
  have cb: "cb < FS_DISKSIZE" "\<And>m. m \<in> I \<Longrightarrow> cb \<notin> set (owned E d m)" using free by (auto simp: free_ok_def)
  have cbI: "cb \<notin> I" using cb(2) [of cb] inode_in_owned [of cb E d] by blast
  have cbb: "cb \<noteq> b" "cb \<noteq> n" using cb(2) [OF n(1)] b by (auto simp: owned_def)
  have cb0: "cb \<noteq> 0" using cbI fs_wf_root(1) [OF wf] by metis
  have fitsb: "dir_fits (dir_at E d b)" using bless by (rule dir_fits_at)
  then have "direntry_fits (dir_at E d b ! j)" using j(1) by (simp add: dir_fits_def)
  note e = new_entry_props [OF this nm(1,2) cb(1)]
  have fits: "dir_fits ?es" using fitsb e(1) by (rule dir_fits_update)
  have blk': "blk E d' m = (if m = b then encode_dir ?es else if m = cb then encode_inode (new_node junk c) else blk E d m)" for m
    by (simp add: d')
  have inode': "inode_at E d' n = inode_at E d n" using bn cbb by (simp add: inode_at_def blk')
  have same: "inode_blocks E d' n = inode_blocks E d n" "owned E d' n = owned E d n"
    "is_dir E d' n = is_dir E d n" "owner_at E d' n = owner_at E d n" "inode_ok E d' n = inode_ok E d n"
    using inode' by (simp_all add: inode_blocks_def owned_def is_dir_def owner_at_def inode_ok_def)
  have dirb: "dir_at E d' m = (if m = b then ?es else dir_at E d m)" if "m \<in> set (inode_blocks E d n)" for m
    using fits that cb(2) [OF n(1)] by (auto simp: dir_at_def blk' owned_def)
  have nuls: "\<forall>e \<in> set (dir_at E d b). de_inode_block e \<noteq> 0 \<longrightarrow> NUL \<in> set (de_name e)"
    and blocks_ok: "\<And>a. a \<in> set (inode_blocks E d n) \<Longrightarrow> dir_block_ok (dir_at E d a)"
    using fs_wf_dir [OF wf n] b by (auto simp: dir_ok_def dir_block_ok_def)
  have okb: "dir_block_ok (dir_at E d' a)" if "a \<in> set (inode_blocks E d' n)" for a
    using that blocks_ok [of a] dir_block_ok_fill [OF nuls j(1) e(3)] e(4) cb0 same(1) by (simp add: dirb)
  have ent: "mset (dir_entries E d' n) = add_mset (nm, cb) (mset (dir_entries E d n))"
    unfolding dir_entries_def same(1)
  proof (rule mset_concat_add_at [OF _ b])
    show "distinct (inode_blocks E d n)" using dist by (simp add: owned_def)
    show "mset (used_entries (dir_at E d' b)) = add_mset (nm, cb) (mset (used_entries (dir_at E d b)))"
      using used_entries_fill [OF j, of ?e] e cb0 b by (simp add: dirb)
  qed (simp add: dirb)
  have others: "untouched E d d' m" if "m \<in> I" "m \<noteq> n" for m
  proof -
    have "b \<notin> set (owned E d m)"
      using fs_wf_disjoint(1) [OF wf that(1) n(1) that(2)] inode_blocks_owned [OF b] by blast
    then show ?thesis using cb(2) [OF that(1)] by (auto simp: untouched_def blk')
  qed
  have "blk E d' cb = encode_inode (new_node junk c)" using cbb by (simp add: blk')
  note leaf = new_leaf [OF c cb(1) this]
  have disj: "set (owned E d' n) \<inter> set (owned E d m) = {}" if "m \<in> I" "m \<noteq> n" for m
    using fs_wf_disjoint(1) [OF wf n(1) that(1)] that(2) same(2) by simp
  have cbn: "cb \<notin> set (owned E d' n)" using cb(2) [OF n(1)] same(2) by simp
  have dir': "is_dir E d' n" "inode_ok E d' n" using n(2) okn same by simp_all
  show "fs_wf E d' (insert cb I)"
    by (rule fs_wf_add_leaf(1) [OF wf n dir'(1) same(4) others cbI leaf(1,2) dir'(2) okb ent nm(3) disj cb(2) cbn])
  show "keeps E d d' I n {}"
    by (rule fs_wf_add_leaf(2) [OF wf n dir'(1) same(4) others cbI leaf(1,2) dir'(2) okb ent nm(3) disj cb(2) cbn])
  have own: "owned E d' m = owned E d m" if "m \<in> I" for m
    using same(2) untouched_same(2) [OF others [OF that]] by (cases "m = n") auto
  have ownc: "owned E d' cb = [cb]" using leaf(2) by (simp add: owned_def)
  show "free_ok E d' (insert cb I) fr" using free by (simp add: free_ok_def own ownc)
  show "(\<Union>m \<in> insert cb I. set (owned E d' m)) = insert cb (\<Union>m \<in> I. set (owned E d m))"
    by (simp add: own ownc)
  show "abs_fs E d' = (abs_fs E d)(p @ [nm] \<mapsto>
      (if ctype c = CHR ''d'' then ADir (username c) else AFile (username c) []))"
    if "walk E d 0 p = Some n"
    using fs_wf_add_leaf(3) [OF wf n dir'(1) same(4) others cbI leaf(1,2) dir'(2) okb ent nm(3) disj cb(2) cbn that]
      leaf(3) by simp
qed

lemma add_in_new_block:
  assumes wf: "fs_wf E d I" and n: "n \<in> I" "is_dir E d n" and sz: "i_size (inode_at E d n) < FS_MAXFILEBLOCKS"
    and nm: "name_ok nm" "NUL \<notin> set nm" "nm \<notin> fst ` set (dir_entries E d n)" and c: "create_ok c junk"
    and free: "free_ok E d I (cb # nb # fr)"
    and d': "blk E d' = (blk E d)(cb := encode_inode (new_node junk c),
      nb := encode_dir (zero_block[0 := new_entry nm cb zero_direntry]),
      n := encode_inode (extended_inode (inode_at E d n) nb))"
  shows "fs_wf E d' (insert cb I)" "free_ok E d' (insert cb I) fr"
    "walk E d 0 p = Some n \<Longrightarrow> abs_fs E d' = (abs_fs E d)(p @ [nm] \<mapsto>
      (if ctype c = CHR ''d'' then ADir (username c) else AFile (username c) []))"
    "(\<Union>m \<in> insert cb I. set (owned E d' m)) = insert cb (insert nb (\<Union>m \<in> I. set (owned E d m)))"
    "keeps E d d' I n {}"
proof -
  let ?e = "new_entry nm cb zero_direntry" and ?i' = "extended_inode (inode_at E d n) nb"
  let ?es = "zero_block[0 := ?e]"
  note z = zero_block_props
  have less: "n < FS_DISKSIZE" using wf n(1) by (rule fs_wf_inode_less)
  have okn: "inode_ok E d n" using wf n(1) by (rule fs_wf_inode)
  have cb: "cb < FS_DISKSIZE" "\<And>m. m \<in> I \<Longrightarrow> cb \<notin> set (owned E d m)"
    and nb: "nb < FS_DISKSIZE" "\<And>m. m \<in> I \<Longrightarrow> nb \<notin> set (owned E d m)" and cbnb: "cb \<noteq> nb"
    using free by (auto simp: free_ok_def)
  have cbI: "cb \<notin> I" using cb(2) [of cb] inode_in_owned [of cb E d] by blast
  have ne: "cb \<noteq> n" "nb \<noteq> n" "cb \<notin> set (inode_blocks E d n)" "nb \<notin> set (inode_blocks E d n)"
    "n \<notin> set (inode_blocks E d n)"
    using cb(2) [OF n(1)] nb(2) [OF n(1)] okn by (auto simp: owned_def inode_ok_def)
  have cb0: "cb \<noteq> 0" using cbI fs_wf_root(1) [OF wf] by metis
  note e = new_entry_props [OF z(5) nm(1,2) cb(1)]
  have fits: "dir_fits ?es" using z(1) e(1) by (rule dir_fits_update)
  have fits': "inode_fits ?i'" using inode_fits_at [OF less] sz nb(1) by (rule inode_fits_extended)
  have blk': "blk E d' m = (if m = n then encode_inode ?i' else if m = nb then encode_dir ?es
      else if m = cb then encode_inode (new_node junk c) else blk E d m)" for m
    by (simp add: d')
  have inode': "inode_at E d' n = ?i'" using fits' by (simp add: inode_at_def blk')
  have blocks': "inode_blocks E d' n = inode_blocks E d n @ [nb]"
    using sz less by (simp add: inode_blocks_def inode' extended_inode_def take_Suc_conv_app_nth)
  then have own_n: "owned E d' n = owned E d n @ [nb]" by (simp add: owned_def)
  have same: "is_dir E d' n = is_dir E d n" "owner_at E d' n = owner_at E d n"
    by (simp_all add: is_dir_def owner_at_def inode' extended_inode_def)
  have ok': "inode_ok E d' n"
    using okn nb(1) nb(2) [OF n(1)] sz unfolding inode_ok_def own_n by (simp add: inode' extended_inode_def)
  have dirb: "dir_at E d' m = (if m = nb then ?es else dir_at E d m)" if "m \<in> set (inode_blocks E d' n)" for m
    using fits that ne by (auto simp: dir_at_def blk' blocks')
  have okb: "dir_block_ok (dir_at E d' a)" if "a \<in> set (inode_blocks E d' n)" for a
  proof (cases "a = nb")
    case True
    then show ?thesis using that dir_block_ok_fill [of zero_block 0 ?e] z(6,7) e cb0 by (simp add: dirb)
  next
    case False
    then show ?thesis using that fs_wf_dir [OF wf n] by (simp add: dirb) (simp add: blocks' dir_ok_def)
  qed
  have "mset (used_entries ?es) = {#(nm, cb)#}"
    using used_entries_fill [OF z(7), of ?e] z e cb0 by (simp add: zero_direntry_def)
  moreover have "dir_at E d' nb = ?es" using dirb [of nb] by (simp add: blocks')
  moreover have "map (\<lambda>b. used_entries (dir_at E d' b)) (inode_blocks E d n) =
      map (\<lambda>b. used_entries (dir_at E d b)) (inode_blocks E d n)"
    using ne(4) dirb by (auto simp: blocks')
  then have "concat (map (\<lambda>b. used_entries (dir_at E d' b)) (inode_blocks E d n)) = dir_entries E d n"
    unfolding dir_entries_def by (rule arg_cong)
  ultimately have ent: "mset (dir_entries E d' n) = add_mset (nm, cb) (mset (dir_entries E d n))"
    by (simp add: dir_entries_def [of E d'] blocks')
  have others: "untouched E d d' m" if "m \<in> I" "m \<noteq> n" for m
  proof -
    have "n \<notin> set (owned E d m)" using fs_wf_root_owned [OF wf n(1) _ that(1)] that(2) by blast
    then show ?thesis using cb(2) [OF that(1)] nb(2) [OF that(1)] by (auto simp: untouched_def blk')
  qed
  have "blk E d' cb = encode_inode (new_node junk c)" using ne cbnb by (simp add: blk')
  note leaf = new_leaf [OF c cb(1) this]
  have disj: "set (owned E d' n) \<inter> set (owned E d m) = {}" if "m \<in> I" "m \<noteq> n" for m
    using fs_wf_disjoint(1) [OF wf n(1) that(1)] that(2) nb(2) [OF that(1)] by (simp add: own_n)
  have cbn: "cb \<notin> set (owned E d' n)" using cb(2) [OF n(1)] cbnb by (simp add: own_n)
  have dir': "is_dir E d' n" using n(2) same by simp
  show "fs_wf E d' (insert cb I)"
    by (rule fs_wf_add_leaf(1) [OF wf n dir' same(2) others cbI leaf(1,2) ok' okb ent nm(3) disj cb(2) cbn])
  show "keeps E d d' I n {}"
    by (rule fs_wf_add_leaf(2) [OF wf n dir' same(2) others cbI leaf(1,2) ok' okb ent nm(3) disj cb(2) cbn])
  have own: "set (owned E d' m) = (if m = n then insert nb (set (owned E d m)) else set (owned E d m))"
    if "m \<in> I" for m
    using own_n untouched_same(2) [OF others [OF that]] by simp
  have ownc: "owned E d' cb = [cb]" using leaf(2) by (simp add: owned_def)
  show "free_ok E d' (insert cb I) fr" using free by (simp add: free_ok_def own ownc)
  show "(\<Union>m \<in> insert cb I. set (owned E d' m)) = insert cb (insert nb (\<Union>m \<in> I. set (owned E d m)))"
    using n(1) by (auto simp: own ownc split: if_splits)
  show "abs_fs E d' = (abs_fs E d)(p @ [nm] \<mapsto>
      (if ctype c = CHR ''d'' then ADir (username c) else AFile (username c) []))"
    if "walk E d 0 p = Some n"
    using fs_wf_add_leaf(3) [OF wf n dir' same(2) others cbI leaf(1,2) ok' okb ent nm(3) disj cb(2) cbn that]
      leaf(3) by simp
qed

end

subsection \<open>The whole handler\<close>

text \<open>Room for a new entry in the directory \<open>n\<close>.\<close>

definition dir_has_slot :: "('d, 'm) fs_env \<Rightarrow> 'd \<Rightarrow> nat \<Rightarrow> bool" where
  "dir_has_slot E d n \<longleftrightarrow> (\<exists>b \<in> set (inode_blocks E d n). free_slot (dir_at E d b))"

definition create_room :: "('d, 'm) fs_env \<Rightarrow> ('d, 'm) FileSystem \<Rightarrow> nat \<Rightarrow> bool" where
  "create_room E s n \<longleftrightarrow>
     (if dir_has_slot E (disk s) n then free_block_list s \<noteq> []
      else 2 \<le> length (free_block_list s) \<and> i_size (inode_at E (disk s) n) < FS_MAXFILEBLOCKS)"

lemma zero_block_cleared: "map (\<lambda>e. e\<lparr>de_inode_block := 0\<rparr>) (updated_direntries_block create_scan_init) = zero_block"
  by (simp add: create_scan_init_def zero_block_def zero_direntry_def)

context fs_device
begin

lemma abs_fs_in_dir:
  assumes "walk E d 0 xs = Some n" and "is_dir E d n"
  shows "abs_fs E d (xs @ [x]) = None \<longleftrightarrow> x \<notin> fst ` set (dir_entries E d n)"
  using assms by (simp add: abs_fs_def walk_snoc map_of_eq_None_iff)

lemma handle_create_no_dir:
  assumes "fs_wf E (disk s) I" and "path_ok (pathname c) (xs @ [x])" and "lock_map s = Map.empty"
    and "\<not> dir_path (abs_fs E (disk s)) (username c) xs"
  shows "\<exists>msg. handle_create E junk c s = (Inl (Runtime_error msg), s)"
  by (rule open_parent_fail [OF assms(1,2,3) handle_create_def assms(4)])

lemma handle_create_run:
  assumes wf: "fs_wf E (disk s) I" and p: "path_ok (pathname c) (xs @ [x])" and tab: "lock_map s = Map.empty"
    and dp: "dir_path (abs_fs E (disk s)) (username c) xs" and n: "walk E (disk s) 0 xs = Some n"
    and i: "i = inode_at E (disk s) n" and s': "s' = s\<lparr>lock_map := [n \<mapsto> upgrade_held E]\<rparr>"
  shows "x \<in> fst ` set (dir_entries E (disk s) n) \<Longrightarrow>
      handle_create E junk c s = (Inl (Runtime_error ''Path already exists''), s)"
    and "x \<notin> fst ` set (dir_entries E (disk s) n) \<Longrightarrow> dir_has_slot E (disk s) n \<Longrightarrow>
      \<exists>st. handle_create E junk c s = create_commit E junk c x n i st s' \<and>
        is_empty_direntry st \<and> new_direntry_block st \<in> set (inode_blocks E (disk s) n) \<and>
        updated_direntries_block st = dir_at E (disk s) (new_direntry_block st) \<and>
        new_direntry_location st < length (updated_direntries_block st) \<and>
        de_inode_block (updated_direntries_block st ! new_direntry_location st) = 0"
    and "x \<notin> fst ` set (dir_entries E (disk s) n) \<Longrightarrow> \<not> dir_has_slot E (disk s) n \<Longrightarrow>
      handle_create E junk c s =
        create_commit E junk c x n i (create_scan_init\<lparr>updated_direntries_block := zero_block\<rparr>) s'"
proof -
  have nI: "n \<in> I" "is_dir E (disk s) n" using dir_path_dir [OF wf dp] n by auto
  have x: "NUL \<notin> set x" using p by (simp add: path_ok_def)
  have wf': "fs_wf E (disk s') I" using wf by (simp add: s')
  have nI': "n \<in> I" "is_dir E (disk s') n" using nI by (simp_all add: s')
  have d: "disk s' = disk s" by (simp add: s')
  note run = open_parent_found [OF wf p tab handle_create_def dp n, folded i s']
  note scan = create_scan_dir [OF wf' nI' x, unfolded d, OF i, of create_scan_init]
  show "handle_create E junk c s = (Inl (Runtime_error ''Path already exists''), s)"
    if "x \<in> fst ` set (dir_entries E (disk s) n)"
    unfolding run using scan(1) [OF that] tab
    by (simp add: bindp_Inr prog_simps s' lock_map_same)
  assume new: "x \<notin> fst ` set (dir_entries E (disk s) n)"
  obtain st where st: "create_scan_blocks E x (i_blocks i) [0..<i_size i] create_scan_init s' = (Inr (Some st), s')"
    "scan_outcome (dir_at E (disk s)) (inode_blocks E (disk s) n) create_scan_init st"
    using scan(2) [OF new] by blast
  have go: "handle_create E junk c s = create_commit E junk c x n i (if is_empty_direntry st then st
      else st\<lparr>updated_direntries_block := map (\<lambda>e. e\<lparr>de_inode_block := 0\<rparr>) (updated_direntries_block st)\<rparr>) s'"
    unfolding run using st(1) by (simp add: bindp_Inr)
  have init: "\<not> is_empty_direntry create_scan_init" by (simp add: create_scan_init_def)
  show "\<exists>st. handle_create E junk c s = create_commit E junk c x n i st s' \<and>
        is_empty_direntry st \<and> new_direntry_block st \<in> set (inode_blocks E (disk s) n) \<and>
        updated_direntries_block st = dir_at E (disk s) (new_direntry_block st) \<and>
        new_direntry_location st < length (updated_direntries_block st) \<and>
        de_inode_block (updated_direntries_block st ! new_direntry_location st) = 0"
    if slot: "dir_has_slot E (disk s) n"
  proof -
    have found: "is_empty_direntry st \<and> new_direntry_block st \<in> set (inode_blocks E (disk s) n) \<and>
        updated_direntries_block st = dir_at E (disk s) (new_direntry_block st) \<and>
        new_direntry_location st < length (updated_direntries_block st) \<and>
        de_inode_block (updated_direntries_block st ! new_direntry_location st) = 0"
      using st(2) slot init unfolding scan_outcome_def dir_has_slot_def by (auto split: if_splits)
    then have "handle_create E junk c s = create_commit E junk c x n i st s'" using go by simp
    then show ?thesis using found by blast
  qed
  show "handle_create E junk c s =
        create_commit E junk c x n i (create_scan_init\<lparr>updated_direntries_block := zero_block\<rparr>) s'"
    if "\<not> dir_has_slot E (disk s) n"
  proof -
    have "st = create_scan_init" using st(2) that by (simp add: scan_outcome_def dir_has_slot_def)
    then show ?thesis using go init zero_block_cleared by simp
  qed
qed

lemma handle_create_refines:
  assumes q: "quiescent E s I" and p: "path_ok (pathname c) p" and c: "create_ok c junk"
    and room: "\<And>n. walk E (disk s) 0 (butlast p) = Some n \<Longrightarrow> is_dir E (disk s) n \<Longrightarrow> create_room E s n"
  shows "implements E s I (handle_create E junk c s)
    (spec_create True (abs_fs E (disk s)) (username c) p (ctype c))"
proof -
  have wf: "fs_wf E (disk s) I" and free: "free_ok E (disk s) I (free_block_list s)"
    and tab: "lock_map s = Map.empty" using q by (simp_all add: quiescent_def)
  obtain xs x where px: "p = xs @ [x]" using p by (cases p rule: rev_cases) (auto simp: path_ok_def)
  note p = p [unfolded px]
  have x: "name_ok x" "NUL \<notin> set x" using p by (simp_all add: path_ok_def)
  show ?thesis
  proof (cases "dir_path (abs_fs E (disk s)) (username c) xs")
    case False
    then obtain msg where "handle_create E junk c s = (Inl (Runtime_error msg), s)"
      using handle_create_no_dir [OF wf p tab] by blast
    then show ?thesis by (rule implements_None) (simp add: spec_create_def px False)
  next
    case True
    then obtain n where n: "walk E (disk s) 0 xs = Some n" "n \<in> I" "is_dir E (disk s) n"
      using dir_path_dir [OF wf] by blast
    note run = handle_create_run [OF wf p tab True n(1) refl refl, of junk]
    have room: "create_room E s n" using room n(1,3) px by simp
    have less: "n < FS_DISKSIZE" by (rule fs_wf_inode_less [OF wf n(2)])
    show ?thesis
    proof (cases "x \<in> fst ` set (dir_entries E (disk s) n)")
      case dup: True
      have "abs_fs E (disk s) (xs @ [x]) \<noteq> None" using abs_fs_in_dir [OF n(1,3)] dup by blast
      then show ?thesis using run(1) [OF dup]
        by (intro implements_None [where msg = "''Path already exists''"]) (simp_all add: spec_create_def px)
    next
      case new: False
      then have spec: "spec_create True (abs_fs E (disk s)) (username c) p (ctype c) =
          Some ((abs_fs E (disk s))(xs @ [x] \<mapsto> (if ctype c = CHR ''d'' then ADir (username c) else AFile (username c) [])))"
        using abs_fs_in_dir [OF n(1,3)] True by (simp add: spec_create_def px)
      show ?thesis
      proof (cases "dir_has_slot E (disk s) n")
        case slot: True
        then obtain cb fr where fl: "free_block_list s = cb # fr"
          using room by (cases "free_block_list s") (auto simp: create_room_def)
        obtain st where st: "handle_create E junk c s = create_commit E junk c x n (inode_at E (disk s) n) st
            (s\<lparr>lock_map := [n \<mapsto> upgrade_held E]\<rparr>)"
          "is_empty_direntry st" "new_direntry_block st \<in> set (inode_blocks E (disk s) n)"
          "updated_direntries_block st = dir_at E (disk s) (new_direntry_block st)"
          "new_direntry_location st < length (updated_direntries_block st)"
          "de_inode_block (updated_direntries_block st ! new_direntry_location st) = 0"
          using run(2) [OF new slot] by blast
        have bless: "new_direntry_block st < FS_DISKSIZE" by (rule fs_wf_block_less [OF wf n(2) st(3)])
        have cb: "cb < FS_DISKSIZE" using free fl by (simp add: free_ok_def)
        have fits: "dir_fits (updated_direntries_block st)" using dir_fits_at [OF bless] st(4) by simp
        note go = create_commit_slot [OF _ st(2) fits st(5) x c _ cb bless refl,
            of "s\<lparr>lock_map := [n \<mapsto> upgrade_held E]\<rparr>" n fr "inode_at E (disk s) n", simplified, OF fl]
        let ?e = "new_entry x cb (updated_direntries_block st ! new_direntry_location st)"
        have "direntry_fits ?e" using fits nth_mem [OF st(5)] x cb new_entry_props(1) by (auto simp: dir_fits_def)
        note enc = length_encode_dir [OF dir_fits_update [OF fits this], of "new_direntry_location st"]
          length_encode_inode [OF new_node_props(1) [OF c]]
        note add = add_in_slot [OF wf n(2,3) st(3) st(5,6) [unfolded st(4)] x new c free [unfolded fl]
            trans [OF blk_upd_fun [OF bless enc(1)] arg_cong [OF blk_upd_fun [OF cb enc(2)],
              of "\<lambda>f. f(new_direntry_block st := _)"], unfolded st(4)]]
        show ?thesis
          by (rule implements_Some [where I' = "insert cb I", OF trans [OF st(1) go]])
            (use tab add(1,2,4) add(3) [OF n(1)] spec fl in
              \<open>simp_all add: quiescent_def accounted_def st(4) Un_commute\<close>)
      next
        case noslot: False
        then have sz: "i_size (inode_at E (disk s) n) < FS_MAXFILEBLOCKS" and "2 \<le> length (free_block_list s)"
          using room by (simp_all add: create_room_def)
        then obtain cb nb fr where fl: "free_block_list s = cb # nb # fr"
          by (cases "free_block_list s"; cases "tl (free_block_list s)") auto
        have cb: "cb < FS_DISKSIZE" "nb < FS_DISKSIZE" using free fl by (simp_all add: free_ok_def)
        note go = create_commit_grow [OF _ _ _ _ x c _ cb less inode_fits_at [OF less] sz refl,
            of "s\<lparr>lock_map := [n \<mapsto> upgrade_held E]\<rparr>" "create_scan_init\<lparr>updated_direntries_block := zero_block\<rparr>" fr,
            simplified create_scan_init_def, simplified, OF fl]
        have "direntry_fits (new_entry x cb zero_direntry)"
          using zero_block_props(5) x cb(1) new_entry_props(1) by blast
        note enc = length_encode_dir [OF dir_fits_update [OF zero_block_props(1) this], of 0]
          length_encode_inode [OF new_node_props(1) [OF c]]
          length_encode_inode [OF inode_fits_extended [OF inode_fits_at [OF less] sz cb(2)]]
        note add = add_in_new_block [OF wf n(2,3) sz x new c free [unfolded fl],
            of "upd E (upd E (upd E (disk s) cb (encode_inode (new_node junk c)))
              nb (encode_dir (zero_block[0 := new_entry x cb zero_direntry])))
              n (encode_inode (extended_inode (inode_at E (disk s) n) nb))",
            unfolded blk_upd_fun [OF less enc(3)] blk_upd_fun [OF cb(2) enc(1)] blk_upd_fun [OF cb(1) enc(2)],
            OF refl]
        show ?thesis
          by (rule implements_Some [where I' = "insert cb I",
                OF trans [OF run(3) [OF new noslot, unfolded create_scan_init_def, simplified] go]])
            (use tab add(1,2,4) add(3) [OF n(1)] spec fl in
              \<open>simp_all add: quiescent_def accounted_def Un_commute\<close>)
      qed
    qed
  qed
qed

text \<open>Without room: the lock that stays behind, and the block that is lost.\<close>

lemma handle_create_no_block:
  assumes q: "quiescent E s I" and p: "path_ok (pathname c) p"
    and spec: "spec_create True (abs_fs E (disk s)) (username c) p (ctype c) \<noteq> None"
    and fl: "free_block_list s = []"
  shows "\<exists>n. walk E (disk s) 0 (butlast p) = Some n \<and>
    handle_create E junk c s =
      (Inl (Runtime_error ''Not enough disk space for create''), s\<lparr>lock_map := [n \<mapsto> upgrade_held E]\<rparr>)"
proof -
  have wf: "fs_wf E (disk s) I" and tab: "lock_map s = Map.empty" using q by (simp_all add: quiescent_def)
  obtain xs x where px: "p = xs @ [x]" using p by (cases p rule: rev_cases) (auto simp: path_ok_def)
  note p = p [unfolded px]
  have dp: "dir_path (abs_fs E (disk s)) (username c) xs" "abs_fs E (disk s) (xs @ [x]) = None"
    using spec by (auto simp: spec_create_def px split: if_splits)
  obtain n where n: "walk E (disk s) 0 xs = Some n" "n \<in> I" "is_dir E (disk s) n"
    using dir_path_dir [OF wf dp(1)] by blast
  have new: "x \<notin> fst ` set (dir_entries E (disk s) n)" using abs_fs_in_dir [OF n(1,3)] dp(2) by blast
  note run = handle_create_run [OF wf p tab dp(1) n(1) refl refl, of junk]
  let ?s = "s\<lparr>lock_map := [n \<mapsto> upgrade_held E]\<rparr>"
  have "free_block_list ?s = []" using fl by simp
  note none = create_commit_no_block [OF this]
  have "handle_create E junk c s = (Inl (Runtime_error ''Not enough disk space for create''), ?s)"
    using run(2) [OF new] run(3) [OF new] none by (cases "dir_has_slot E (disk s) n") auto
  then show ?thesis using n(1) px by simp
qed

lemma handle_create_lost_block:
  assumes q: "quiescent E s I" and p: "path_ok (pathname c) p" and c: "create_ok c junk"
    and spec: "spec_create True (abs_fs E (disk s)) (username c) p (ctype c) \<noteq> None"
    and n: "walk E (disk s) 0 (butlast p) = Some n" "\<not> dir_has_slot E (disk s) n"
    and fl: "free_block_list s = cb # fr" "fr = [] \<or> i_size (inode_at E (disk s) n) = FS_MAXFILEBLOCKS"
  shows "handle_create E junk c s =
      (Inl (Runtime_error ''Not enough disk space for create''), s\<lparr>free_block_list := fr\<rparr>)"
    and "cb \<in> accounted E s I" "cb \<notin> accounted E (s\<lparr>free_block_list := fr\<rparr>) I"
proof -
  have wf: "fs_wf E (disk s) I" and free: "free_ok E (disk s) I (free_block_list s)"
    and tab: "lock_map s = Map.empty" using q by (simp_all add: quiescent_def)
  show "cb \<in> accounted E s I" "cb \<notin> accounted E (s\<lparr>free_block_list := fr\<rparr>) I"
    using free fl(1) by (auto simp: accounted_def free_ok_def)
  obtain xs x where px: "p = xs @ [x]" using p by (cases p rule: rev_cases) (auto simp: path_ok_def)
  note p = p [unfolded px]
  have x: "name_ok x" "NUL \<notin> set x" using p by (simp_all add: path_ok_def)
  have dp: "dir_path (abs_fs E (disk s)) (username c) xs" "abs_fs E (disk s) (xs @ [x]) = None"
    using spec by (auto simp: spec_create_def px split: if_splits)
  have n': "walk E (disk s) 0 xs = Some n" "is_dir E (disk s) n"
    using n(1) px dir_path_dir [OF wf dp(1)] by auto
  have new: "x \<notin> fst ` set (dir_entries E (disk s) n)" using abs_fs_in_dir [OF n'] dp(2) by blast
  note run = handle_create_run(3) [OF wf p tab dp(1) n'(1) refl refl new n(2), of junk]
  let ?s = "s\<lparr>lock_map := [n \<mapsto> upgrade_held E]\<rparr>"
  have "handle_create E junk c s =
      (Inl (Runtime_error ''Not enough disk space for create''), ?s\<lparr>free_block_list := fr, lock_map := Map.empty\<rparr>)"
    unfolding run
    by (rule create_commit_one_block [OF _ _ _ _ x c]) (use fl in \<open>simp_all add: create_scan_init_def\<close>)
  then show "handle_create E junk c s =
      (Inl (Runtime_error ''Not enough disk space for create''), s\<lparr>free_block_list := fr\<rparr>)"
    using tab by (simp add: prog_simps lock_map_same)
qed

end

end
