(* ===== verification/FS_Delete.thy ===== *)
theory FS_Delete
  imports FS_Create_Refine
begin

text \<open>
  \<^verbatim>\<open>FileSystem::handle_delete\<close> on a well-formed disk: it refines \<open>spec_delete\<close>, gives every block of
  the deleted object back to the free list, and leaves no lock behind on any path.
\<close>

subsection \<open>Finding the entry\<close>

lemma delete_scan_entries_eq:
  assumes nm: "NUL \<notin> set nm" and es: "\<forall>e \<in> set es. de_inode_block e \<noteq> 0 \<longrightarrow> NUL \<in> set (de_name e)"
    and "\<forall>j \<in> set js. j < length es"
  shows "delete_scan_entries nm es js =
    Inr (find (\<lambda>j. de_inode_block (es ! j) \<noteq> 0 \<and> cstr (de_name (es ! j)) = nm) js)"
  using assms(3)
proof (induction js)
  case (Cons j js)
  have j: "j < length es" using Cons.prems by simp
  have cmp: "strcmp_eq (de_name (es ! j)) (c_str nm) = Inr (cstr (de_name (es ! j)) = nm)"
    if "de_inode_block (es ! j) \<noteq> 0"
    using that es nm j by (simp add: nth_mem)
  show ?case using Cons j cmp by (cases "de_inode_block (es ! j) = 0") simp_all
qed simp

definition entry_at :: "fs_direntry list \<Rightarrow> nat \<Rightarrow> string \<Rightarrow> bool" where
  "entry_at es j nm \<longleftrightarrow> j < length es \<and> de_inode_block (es ! j) \<noteq> 0 \<and> cstr (de_name (es ! j)) = nm"

lemma delete_scan_block:
  assumes nm: "NUL \<notin> set nm" and es: "dir_block_ok es" "length es = FS_DIRENTRIES"
  shows "nm \<notin> fst ` set (used_entries es) \<Longrightarrow> delete_scan_entries nm es [0..<FS_DIRENTRIES] = Inr None"
    and "nm \<in> fst ` set (used_entries es) \<Longrightarrow>
      \<exists>j. delete_scan_entries nm es [0..<FS_DIRENTRIES] = Inr (Some j) \<and> entry_at es j nm"
proof -
  have ok: "\<forall>e \<in> set es. de_inode_block e \<noteq> 0 \<longrightarrow> NUL \<in> set (de_name e)" using es(1) by (simp add: dir_block_ok_def)
  have js: "\<forall>j \<in> set [0..<FS_DIRENTRIES]. j < length es" using es(2) by simp
  note eq = delete_scan_entries_eq [OF nm ok js]
  have iff: "(\<exists>j. j < length es \<and> de_inode_block (es ! j) \<noteq> 0 \<and> cstr (de_name (es ! j)) = nm)
      \<longleftrightarrow> nm \<in> fst ` set (used_entries es)"
    unfolding names_used_entries by (auto simp: set_conv_nth)
  show "delete_scan_entries nm es [0..<FS_DIRENTRIES] = Inr None" if "nm \<notin> fst ` set (used_entries es)"
    unfolding eq using that iff es(2) by (auto simp: find_None_iff)
  assume "nm \<in> fst ` set (used_entries es)"
  then have "find (\<lambda>j. de_inode_block (es ! j) \<noteq> 0 \<and> cstr (de_name (es ! j)) = nm) [0..<FS_DIRENTRIES] \<noteq> None"
    using iff es(2) by (auto simp: find_None_iff)
  then obtain j where j: "find (\<lambda>j. de_inode_block (es ! j) \<noteq> 0 \<and> cstr (de_name (es ! j)) = nm) [0..<FS_DIRENTRIES] = Some j"
    by blast
  then have "entry_at es j nm" using es(2) by (auto simp: find_Some_iff entry_at_def)
  then show "\<exists>j. delete_scan_entries nm es [0..<FS_DIRENTRIES] = Inr (Some j) \<and> entry_at es j nm"
    unfolding eq using j by blast
qed

context fs_device
begin

lemma delete_scan_blocks_eq:
  assumes nm: "NUL \<notin> set nm" and "\<forall>i \<in> set is. i < length bs \<and> readable_dir E (disk s) (bs ! i)"
    and N: "N = fst ` set (concat (map (\<lambda>i. used_entries (dir_at E (disk s) (bs ! i))) is))"
  shows "nm \<notin> N \<Longrightarrow> delete_scan_blocks E nm bs is s = (Inr None, s)"
    and "nm \<in> N \<Longrightarrow> \<exists>i j. delete_scan_blocks E nm bs is s = (Inr (Some (i, j, dir_at E (disk s) (bs ! i))), s) \<and>
      i \<in> set is \<and> entry_at (dir_at E (disk s) (bs ! i)) j nm"
  using assms(2-)
proof (induction "is" arbitrary: N)
  case (Cons i "is")
  {
    case 1
    let ?es = "dir_at E (disk s) (bs ! i)"
    have i: "i < length bs" "bs ! i < FS_DISKSIZE" "dir_block_ok ?es" "length ?es = FS_DIRENTRIES"
      using 1(2) by (auto simp: readable_dir_def)
    have new: "nm \<notin> fst ` set (used_entries ?es)"
      "nm \<notin> fst ` set (concat (map (\<lambda>i. used_entries (dir_at E (disk s) (bs ! i))) is))"
      using 1(1,3) by auto
    show ?case using i delete_scan_block(1) [OF nm i(3,4) new(1)] Cons.IH(1) [OF new(2) _ refl] 1(2)
      by (simp add: prog_simps dir_at_def [symmetric])
  next
    case 2
    let ?es = "dir_at E (disk s) (bs ! i)"
    have i: "i < length bs" "bs ! i < FS_DISKSIZE" "dir_block_ok ?es" "length ?es = FS_DIRENTRIES"
      using 2(2) by (auto simp: readable_dir_def)
    show ?case
    proof (cases "nm \<in> fst ` set (used_entries ?es)")
      case True
      then obtain j where j: "delete_scan_entries nm ?es [0..<FS_DIRENTRIES] = Inr (Some j)" "entry_at ?es j nm"
        using delete_scan_block(2) [OF nm i(3,4)] by blast
      have "delete_scan_blocks E nm bs (i # is) s = (Inr (Some (i, j, ?es)), s)"
        using i j(1) by (simp add: prog_simps dir_at_def [symmetric])
      then show ?thesis using j(2) by auto
    next
      case False
      have "nm \<in> fst ` set (concat (map (\<lambda>i. used_entries (dir_at E (disk s) (bs ! i))) is))"
        using 2(1,3) False by auto
      then obtain k j where k: "delete_scan_blocks E nm bs is s = (Inr (Some (k, j, dir_at E (disk s) (bs ! k))), s)"
        "k \<in> set is" "entry_at (dir_at E (disk s) (bs ! k)) j nm"
        using Cons.IH(2) [OF _ _ refl] 2(2) by auto
      have "delete_scan_blocks E nm bs (i # is) s = (Inr (Some (k, j, dir_at E (disk s) (bs ! k))), s)"
        using i k(1) delete_scan_block(1) [OF nm i(3,4) False] by (simp add: prog_simps dir_at_def [symmetric])
      then show ?thesis using k(2,3) by auto
    qed
  }
qed (auto simp: prog_simps)

lemma delete_scan_dir:
  assumes wf: "fs_wf E (disk s) I" and n: "n \<in> I" "is_dir E (disk s) n" and nm: "NUL \<notin> set nm"
    and i: "i = inode_at E (disk s) n"
  shows "nm \<notin> fst ` set (dir_entries E (disk s) n) \<Longrightarrow>
      delete_scan_blocks E nm (i_blocks i) [0..<i_size i] s = (Inr None, s)"
    and "nm \<in> fst ` set (dir_entries E (disk s) n) \<Longrightarrow>
      \<exists>k j. delete_scan_blocks E nm (i_blocks i) [0..<i_size i] s =
          (Inr (Some (k, j, dir_at E (disk s) (i_blocks i ! k))), s) \<and>
        k < i_size i \<and> entry_at (dir_at E (disk s) (i_blocks i ! k)) j nm"
proof -
  have less: "n < FS_DISKSIZE" using wf n(1) by (rule fs_wf_inode_less)
  have sz: "i_size i \<le> FS_MAXFILEBLOCKS" using fs_wf_inode [OF wf n(1)] by (simp add: inode_ok_def i)
  have len: "length (i_blocks i) = FS_MAXFILEBLOCKS" using less i by simp
  have rd: "\<forall>k \<in> set [0..<i_size i]. k < length (i_blocks i) \<and> readable_dir E (disk s) (i_blocks i ! k)"
    using sz less fs_wf_readable [OF wf n] inode_block_in(1) len i by auto
  have ents: "concat (map (\<lambda>k. used_entries (dir_at E (disk s) (i_blocks i ! k))) [0..<i_size i])
      = dir_entries E (disk s) n"
    using map_nth_take [of "i_size i" "i_blocks i" "\<lambda>b. used_entries (dir_at E (disk s) b)"] sz len
    by (simp add: dir_entries_def inode_blocks_def i)
  note scan = delete_scan_blocks_eq [OF nm rd refl, unfolded ents]
  show "delete_scan_blocks E nm (i_blocks i) [0..<i_size i] s = (Inr None, s)"
    if "nm \<notin> fst ` set (dir_entries E (disk s) n)" using scan(1) that .
  show "\<exists>k j. delete_scan_blocks E nm (i_blocks i) [0..<i_size i] s =
          (Inr (Some (k, j, dir_at E (disk s) (i_blocks i ! k))), s) \<and>
        k < i_size i \<and> entry_at (dir_at E (disk s) (i_blocks i ! k)) j nm"
    if "nm \<in> fst ` set (dir_entries E (disk s) n)" using scan(2) [OF that] by simp
qed

end

subsection \<open>Removing the entry\<close>

lemma shift_blocks_eq:
  assumes "k \<le> m" and "m < length bs"
  shows "shift_blocks bs [k..<m] = Inr (take k bs @ take (m - k) (drop (Suc k) bs) @ drop m bs)"
  using assms
proof (induction "m - k" arbitrary: k bs)
  case (Suc d)
  let ?bs = "bs[k := bs ! Suc k]"
  have k: "k < m" "Suc k < length bs" using Suc by auto
  have "drop (Suc k) bs = bs ! Suc k # drop (Suc (Suc k)) bs" using k by (simp add: Cons_nth_drop_Suc)
  moreover have "m - k = Suc (m - Suc k)" using k by simp
  ultimately have mid: "take (m - k) (drop (Suc k) bs) = bs ! Suc k # take (m - Suc k) (drop (Suc (Suc k)) bs)"
    by simp
  have "shift_blocks bs [k..<m] = shift_blocks ?bs [Suc k..<m]"
    using k by (simp add: upt_rec [of k])
  also have "\<dots> = Inr (take (Suc k) ?bs @ take (m - Suc k) (drop (Suc (Suc k)) ?bs) @ drop m ?bs)"
    using Suc k by (intro Suc.hyps(1)) auto
  also have "take (Suc k) ?bs = take k bs @ [bs ! Suc k]"
    using k by (simp add: take_Suc_conv_app_nth)
  finally show ?case using k by (simp add: mid)
qed simp

lemma shift_blocks_take:
  assumes "k < sz" and "sz \<le> length bs"
  shows "\<exists>bs'. shift_blocks bs [k..<sz - 1] = Inr bs' \<and> length bs' = length bs \<and> set bs' \<subseteq> set bs \<and>
    take (sz - 1) bs' = take k (take sz bs) @ drop (Suc k) (take sz bs)"
proof -
  let ?bs = "take k bs @ take (sz - 1 - k) (drop (Suc k) bs) @ drop (sz - 1) bs"
  have "shift_blocks bs [k..<sz - 1] = Inr ?bs" using assms by (intro shift_blocks_eq) auto
  moreover have "length ?bs = length bs" using assms by auto
  moreover have "set ?bs \<subseteq> set bs" by (auto dest: in_set_takeD in_set_dropD)
  moreover have "take (sz - 1) ?bs = take k (take sz bs) @ drop (Suc k) (take sz bs)"
  proof -
    let ?front = "take k bs @ take (sz - Suc k) (drop (Suc k) bs)"
    have "length ?front = sz - 1" using assms by auto
    then have "take (sz - 1) (?front @ drop (sz - 1) bs) = ?front" by (metis append_eq_conv_conj)
    then show ?thesis using assms by (simp add: drop_take min_absorb1)
  qed
  ultimately show ?thesis by blast
qed

lemma free_file_blocks_eq:
  assumes "\<forall>i \<in> set is. i < length bs"
  shows "bindp (free_file_blocks bs is) f s = f () (s\<lparr>free_block_list := free_block_list s @ map (\<lambda>i. bs ! i) is\<rparr>)"
  using assms by (induction "is" arbitrary: s) (simp_all add: prog_simps)

lemma used_entries_clear:
  assumes "entry_at es j nm"
  shows "mset (used_entries es) = add_mset (nm, de_inode_block (es ! j)) (mset (used_entries (es[j := zero_direntry])))"
proof -
  have j: "j < length es" using assms by (simp add: entry_at_def)
  have "used_entries es = used_entries (take j es @ es ! j # drop (Suc j) es)"
    using id_take_nth_drop [OF j] by simp
  then show ?thesis using assms by (simp add: upd_conv_take_nth_drop entry_at_def zero_direntry_def)
qed

lemma is_block_empty_iff: "is_block_empty es \<longleftrightarrow> used_entries es = []"
  by (auto simp: is_block_empty_def used_entries_def list_all_iff filter_empty_conv)

lemma dir_block_ok_clear:
  assumes "dir_block_ok es" and "used_entries (es[j := zero_direntry]) \<noteq> []"
  shows "dir_block_ok (es[j := zero_direntry])"
  using assms set_update_subset_insert [of es j zero_direntry]
  by (auto simp: dir_block_ok_def zero_direntry_def)

text \<open>
  What clearing one entry does to the disk: the leaf \<open>c\<close> leaves the tree, and the blocks \<open>freed\<close>
  leave the directory \<open>n\<close>.
\<close>

definition leaf_removed ::
  "('d, 'm) fs_env \<Rightarrow> 'd \<Rightarrow> 'd \<Rightarrow> nat set \<Rightarrow> nat \<Rightarrow> nat \<Rightarrow> nat list \<Rightarrow> bool" where
  "leaf_removed E d d' I n c freed \<longleftrightarrow>
     fs_wf E d' (I - {c}) \<and> (\<forall>m \<in> I - {c}. m \<noteq> n \<longrightarrow> owned E d' m = owned E d m) \<and>
     set (owned E d n) = set freed \<union> set (owned E d' n) \<and> set freed \<inter> set (owned E d' n) = {} \<and> distinct freed"

lemma leaf_removed_free:
  assumes wf: "fs_wf E d I" and free: "free_ok E d I fr" and I: "n \<in> I" "c \<in> I" "c \<noteq> n"
    and r: "leaf_removed E d d' I n c freed"
  shows "free_ok E d' (I - {c}) (fr @ freed @ owned E d c)"
    and "set (fr @ freed @ owned E d c) \<union> (\<Union>m \<in> I - {c}. set (owned E d' m))
      = set fr \<union> (\<Union>m \<in> I. set (owned E d m))"
proof -
  have own: "\<And>m. m \<in> I - {c} \<Longrightarrow> m \<noteq> n \<Longrightarrow> owned E d' m = owned E d m"
    and n: "set (owned E d n) = set freed \<union> set (owned E d' n)" "set freed \<inter> set (owned E d' n) = {}" "distinct freed"
    using r by (auto simp: leaf_removed_def)
  have fr: "distinct fr" "\<And>b. b \<in> set fr \<Longrightarrow> b < FS_DISKSIZE" "\<And>m. m \<in> I \<Longrightarrow> set (owned E d m) \<inter> set fr = {}"
    using free by (auto simp: free_ok_def)
  have ok: "distinct (owned E d c)" "\<And>b. b \<in> set (owned E d c) \<Longrightarrow> b < FS_DISKSIZE"
    "\<And>b. b \<in> set (owned E d n) \<Longrightarrow> b < FS_DISKSIZE"
    using fs_wf_inode [OF wf I(2)] fs_wf_inode [OF wf I(1)] by (auto simp: inode_ok_def)
  have nc: "set (owned E d n) \<inter> set (owned E d c) = {}" using fs_wf_disjoint(1) [OF wf I(1,2)] I(3) by simp
  have dist: "distinct (fr @ freed @ owned E d c)"
    using fr(1) n ok(1) nc fr(3) [OF I(1)] fr(3) [OF I(2)] by auto
  have sub: "set (owned E d' m) \<subseteq> set (owned E d m)" if "m \<in> I - {c}" for m
    using own [OF that] n(1) by (cases "m = n") auto
  have "set (owned E d' m) \<inter> set (fr @ freed @ owned E d c) = {}" if m: "m \<in> I - {c}" for m
  proof -
    have "set (owned E d' m) \<inter> set freed = {}"
    proof (cases "m = n")
      case False
      have "set (owned E d n) \<inter> set (owned E d m) = {}" using fs_wf_disjoint(1) [OF wf I(1), of m] m False by auto
      then show ?thesis using n(1) sub [OF m] by auto
    qed (use n(2) in auto)
    moreover have "set (owned E d m) \<inter> set (owned E d c) = {}" using fs_wf_disjoint(1) [OF wf _ I(2), of m] m by auto
    moreover have "set (owned E d m) \<inter> set fr = {}" using fr(3) m by auto
    ultimately show ?thesis using sub [OF m] by auto
  qed
  then show "free_ok E d' (I - {c}) (fr @ freed @ owned E d c)"
    using dist fr(2) n(1) ok(2,3) by (auto simp: free_ok_def)
  have "(\<Union>m \<in> I - {c}. set (owned E d' m)) \<union> set freed = (\<Union>m \<in> I - {c}. set (owned E d m))"
  proof -
    have split: "I - {c} = insert n (I - {c, n})" using I by auto
    have "(\<Union>m \<in> I - {c, n}. set (owned E d' m)) = (\<Union>m \<in> I - {c, n}. set (owned E d m))" using own by auto
    then show ?thesis unfolding split using n(1) by auto
  qed
  moreover have "(\<Union>m \<in> I. set (owned E d m)) = set (owned E d c) \<union> (\<Union>m \<in> I - {c}. set (owned E d m))"
    using I(2) by auto
  ultimately show "set (fr @ freed @ owned E d c) \<union> (\<Union>m \<in> I - {c}. set (owned E d' m))
      = set fr \<union> (\<Union>m \<in> I. set (owned E d m))" by auto
qed

context fs_device
begin

lemma remove_in_block:
  assumes wf: "fs_wf E d I" and n: "n \<in> I" "is_dir E d n" and b: "b \<in> set (inode_blocks E d n)"
    and e: "entry_at (dir_at E d b) j nm" "c = de_inode_block (dir_at E d b ! j)"
    and c: "c \<noteq> n" "is_dir E d c \<longrightarrow> dir_entries E d c = []"
    and left: "used_entries ((dir_at E d b)[j := zero_direntry]) \<noteq> []"
    and d': "d' = upd E d b (encode_dir ((dir_at E d b)[j := zero_direntry]))"
  shows "leaf_removed E d d' I n c []"
    and "c \<in> I \<Longrightarrow> keeps E d d' I n {c}"
    and "walk E d 0 p = Some n \<Longrightarrow> abs_fs E d' = (abs_fs E d)(p @ [nm] := None)"
proof -
  let ?es = "(dir_at E d b)[j := zero_direntry]"
  have okn: "inode_ok E d n" using wf n(1) by (rule fs_wf_inode)
  then have dist: "distinct (owned E d n)" by (simp add: inode_ok_def)
  have bn: "b \<noteq> n" using dist b by (auto simp: owned_def)
  have bless: "b < FS_DISKSIZE" by (rule fs_wf_block_less [OF wf n(1) b])
  have fits: "dir_fits ?es" using dir_fits_at [OF bless] zero_block_props(5) by (rule dir_fits_update)
  have blk': "blk E d' m = (if m = b then encode_dir ?es else blk E d m)" for m
    using bless fits by (simp add: d' length_encode_dir)
  have inode': "inode_at E d' n = inode_at E d n" using bn by (simp add: inode_at_def blk')
  have same: "inode_blocks E d' n = inode_blocks E d n" "owned E d' n = owned E d n"
    "is_dir E d' n" "owner_at E d' n = owner_at E d n" "inode_ok E d' n"
    using inode' n(2) okn by (simp_all add: inode_blocks_def owned_def is_dir_def owner_at_def inode_ok_def)
  have dirb: "dir_at E d' m = (if m = b then ?es else dir_at E d m)" for m
    using fits by (simp add: dir_at_def blk')
  have okb: "dir_block_ok (dir_at E d' a)" if "a \<in> set (inode_blocks E d' n)" for a
    using that fs_wf_dir [OF wf n] dir_block_ok_clear [OF _ left] b same(1) by (simp add: dirb dir_ok_def)
  have ent: "mset (dir_entries E d n) = add_mset (nm, c) (mset (dir_entries E d' n))"
    unfolding dir_entries_def same(1)
    by (rule mset_concat_add_at [OF _ b])
      (use dist used_entries_clear [OF e(1)] e(2) in \<open>simp_all add: dirb owned_def\<close>)
  have others: "untouched E d d' m" if "m \<in> I" "m \<noteq> n" for m
  proof -
    have "b \<notin> set (owned E d m)"
      using fs_wf_disjoint(1) [OF wf that(1) n(1) that(2)] inode_blocks_owned [OF b] by blast
    then show ?thesis by (auto simp: untouched_def blk')
  qed
  have own: "set (owned E d' n) \<subseteq> set (owned E d n)" using same(2) by simp
  have "fs_wf E d' (I - {c})"
    by (rule fs_wf_remove_leaf(1) [OF wf n same(3,4) others c(1) mp [OF c(2)] same(5) okb ent own])
  then show "leaf_removed E d d' I n c []"
    using same(2) untouched_same(2) [OF others] by (auto simp: leaf_removed_def)
  show "keeps E d d' I n {c}" if "c \<in> I"
    by (rule fs_wf_remove_leaf(2) [OF wf n same(3,4) others c(1) mp [OF c(2)] same(5) okb ent own others [OF that c(1)]])
  show "abs_fs E d' = (abs_fs E d)(p @ [nm] := None)" if "walk E d 0 p = Some n"
    by (rule fs_wf_remove_leaf(3) [OF wf n same(3,4) others c(1) mp [OF c(2)] same(5) okb ent own that])
qed

lemma remove_whole_block:
  assumes wf: "fs_wf E d I" and n: "n \<in> I" "is_dir E d n" and i: "i = inode_at E d n"
    and k: "k < i_size i" "b = i_blocks i ! k"
    and e: "entry_at (dir_at E d b) j nm" "c = de_inode_block (dir_at E d b ! j)"
    and c: "c \<noteq> n" "is_dir E d c \<longrightarrow> dir_entries E d c = []"
    and left: "used_entries ((dir_at E d b)[j := zero_direntry]) = []"
    and bs: "length bs = length (i_blocks i)" "set bs \<subseteq> set (i_blocks i)"
      "take (i_size i - 1) bs = take k (take (i_size i) (i_blocks i)) @ drop (Suc k) (take (i_size i) (i_blocks i))"
    and d': "d' = upd E d n (encode_inode (i\<lparr>i_blocks := bs, i_size := i_size i - 1\<rparr>))"
  shows "leaf_removed E d d' I n c [b]"
    and "c \<in> I \<Longrightarrow> keeps E d d' I n {c}"
    and "walk E d 0 p = Some n \<Longrightarrow> abs_fs E d' = (abs_fs E d)(p @ [nm] := None)"
    and "inode_fits (i\<lparr>i_blocks := bs, i_size := i_size i - 1\<rparr>)"
proof -
  let ?i' = "i\<lparr>i_blocks := bs, i_size := i_size i - 1\<rparr>" and ?B = "inode_blocks E d n"
  have less: "n < FS_DISKSIZE" using wf n(1) by (rule fs_wf_inode_less)
  have okn: "inode_ok E d n" using wf n(1) by (rule fs_wf_inode)
  then have dist: "distinct (owned E d n)" and sz: "i_size i \<le> FS_MAXFILEBLOCKS" by (simp_all add: inode_ok_def i)
  have B: "?B = take (i_size i) (i_blocks i)" by (simp add: inode_blocks_def i)
  have kB: "k < length ?B" "?B ! k = b" using k sz less by (simp_all add: B) (simp add: i)
  show fits: "inode_fits ?i'" using inode_fits_at [OF less, of d] bs(1,2) by (auto simp: inode_fits_def i)
  have blk': "blk E d' m = (if m = n then encode_inode ?i' else blk E d m)" for m
    using less fits by (simp add: d' length_encode_inode)
  have inode': "inode_at E d' n = ?i'" using fits by (simp add: inode_at_def blk')
  have blocks': "inode_blocks E d' n = take k ?B @ drop (Suc k) ?B" 
    using bs(3) unfolding B by (simp add: inode_blocks_def inode')
  have rem: "mset ?B = add_mset b (mset (inode_blocks E d' n))" "set (inode_blocks E d' n) \<subseteq> set ?B"
    using remove_nth_props(1,2) [OF kB(1)] by (simp_all add: blocks' kB(2))
  have distB: "distinct ?B" "n \<notin> set ?B" using dist by (simp_all add: owned_def)
  have d1: "distinct (inode_blocks E d' n)" "b \<notin> set (inode_blocks E d' n)"
    using distinct_map_add [OF rem(1), of "\<lambda>x. x"] distB(1) by simp_all
  have setB: "set ?B = insert b (set (inode_blocks E d' n))" by (rule set_mset_add [OF rem(1)])
  have own: "set (owned E d n) = insert b (set (owned E d' n))" "b \<notin> set (owned E d' n)"
    using setB d1(2) distB(2) by (auto simp: owned_def)
  have same: "is_dir E d' n" "owner_at E d' n = owner_at E d n"
    using n(2) by (simp_all add: is_dir_def owner_at_def inode' i)
  have ok': "inode_ok E d' n"
    using okn d1(1) rem(2) distB(2) by (auto simp: inode_ok_def owned_def inode' i)
  have dirb: "dir_at E d' m = dir_at E d m" if "m \<in> set ?B" for m
    using that distB(2) by (auto simp: dir_at_def blk')
  have okb: "dir_block_ok (dir_at E d' a)" if "a \<in> set (inode_blocks E d' n)" for a
    using that rem(2) dirb [of a] fs_wf_dir [OF wf n] by (auto simp: dir_ok_def)
  have one: "mset (used_entries (dir_at E d b)) = {#(nm, c)#}"
    using used_entries_clear [OF e(1)] left e(2) by simp
  have "map (\<lambda>b. used_entries (dir_at E d' b)) (inode_blocks E d' n) =
      map (\<lambda>b. used_entries (dir_at E d b)) (inode_blocks E d' n)" using dirb rem(2) by auto
  then have "dir_entries E d' n = concat (map (\<lambda>b. used_entries (dir_at E d b)) (take k ?B @ drop (Suc k) ?B))"
    unfolding dir_entries_def blocks' by (rule arg_cong)
  then have ent: "mset (dir_entries E d n) = add_mset (nm, c) (mset (dir_entries E d' n))"
    using remove_nth_props(3) [OF kB(1), of "\<lambda>b. used_entries (dir_at E d b)"] one kB(2)
    by (simp add: dir_entries_def [of E d])
  have others: "untouched E d d' m" if "m \<in> I" "m \<noteq> n" for m
  proof -
    have "n \<notin> set (owned E d m)" using fs_wf_root_owned [OF wf n(1) _ that(1)] that(2) by blast
    then show ?thesis by (auto simp: untouched_def blk')
  qed
  have sub: "set (owned E d' n) \<subseteq> set (owned E d n)" using own by auto
  have "fs_wf E d' (I - {c})"
    by (rule fs_wf_remove_leaf(1) [OF wf n same others c(1) mp [OF c(2)] ok' okb ent sub])
  then show "leaf_removed E d d' I n c [b]"
    using own untouched_same(2) [OF others] by (auto simp: leaf_removed_def)
  show "keeps E d d' I n {c}" if "c \<in> I"
    by (rule fs_wf_remove_leaf(2) [OF wf n same others c(1) mp [OF c(2)] ok' okb ent sub others [OF that c(1)]])
  show "abs_fs E d' = (abs_fs E d)(p @ [nm] := None)" if "walk E d 0 p = Some n"
    by (rule fs_wf_remove_leaf(3) [OF wf n same others c(1) mp [OF c(2)] ok' okb ent sub that])
qed

end

end
