(* ===== verification/FS_Delete_Refine.thy ===== *)
theory FS_Delete_Refine
  imports FS_Delete
begin

text \<open>The whole of \<^verbatim>\<open>FileSystem::handle_delete\<close> refines \<open>spec_delete\<close>.\<close>

context fs_device
begin

lemma remove_entry_run:
  assumes wf: "fs_wf E (disk s) I" and n: "n \<in> I" "is_dir E (disk s) n" and i: "i = inode_at E (disk s) n"
    and k: "k < i_size i" and es: "es = dir_at E (disk s) (i_blocks i ! k)"
    and e: "entry_at es j nm" "c = de_inode_block (es ! j)"
    and c: "c \<noteq> n" "is_dir E (disk s) c \<longrightarrow> dir_entries E (disk s) c = []"
    and p: "walk E (disk s) 0 p = Some n"
  shows "\<exists>d' freed. remove_entry E n i k j es s =
        (Inr (), s\<lparr>disk := d', free_block_list := free_block_list s @ freed\<rparr>) \<and>
      leaf_removed E (disk s) d' I n c freed \<and> abs_fs E d' = (abs_fs E (disk s))(p @ [nm] := None)"
proof -
  let ?b = "i_blocks i ! k" and ?es = "es[j := zero_direntry]"
  have less: "n < FS_DISKSIZE" using wf n(1) by (rule fs_wf_inode_less)
  have sz: "i_size i \<le> FS_MAXFILEBLOCKS" using fs_wf_inode [OF wf n(1)] by (simp add: inode_ok_def i)
  have len: "length (i_blocks i) = FS_MAXFILEBLOCKS" using less i by simp
  have b: "?b \<in> set (inode_blocks E (disk s) n)" using inode_block_in(1) [OF less] sz k i by simp
  have bless: "?b < FS_DISKSIZE" by (rule fs_wf_block_less [OF wf n(1) b])
  have j: "j < length es" using e(1) by (simp add: entry_at_def)
  have kl: "k < length (i_blocks i)" using k sz len by simp
  show ?thesis
  proof (cases "used_entries ?es = []")
    case True
    obtain bs where bs: "shift_blocks (i_blocks i) [k..<i_size i - 1] = Inr bs" "length bs = length (i_blocks i)"
      "set bs \<subseteq> set (i_blocks i)"
      "take (i_size i - 1) bs = take k (take (i_size i) (i_blocks i)) @ drop (Suc k) (take (i_size i) (i_blocks i))"
      using shift_blocks_take [OF k] sz len by metis
    let ?i' = "i\<lparr>i_blocks := bs, i_size := i_size i - 1\<rparr>"
    note r = remove_whole_block [OF wf n i k refl e [unfolded es] c True [unfolded es] bs(2-) refl]
    have "length (encode_inode ?i') = FS_BLOCKSIZE" using r(4) by (rule length_encode_inode)
    then have "remove_entry E n i k j es s = (Inr (), s\<lparr>disk := upd E (disk s) n (encode_inode ?i'),
        free_block_list := free_block_list s @ [?b]\<rparr>)"
      using less j kl bs(1) True by (simp add: remove_entry_def prog_simps is_block_empty_iff)
    then show ?thesis using r(1) r(3) [OF p] by blast
  next
    case False
    note r = remove_in_block [OF wf n b e [unfolded es] c False [unfolded es] refl]
    have "dir_fits ?es" using dir_fits_at [OF bless] zero_block_props(5) es by (simp add: dir_fits_update)
    then have "length (encode_dir ?es) = FS_BLOCKSIZE" by (rule length_encode_dir)
    then have "remove_entry E n i k j es s = (Inr (), s\<lparr>disk := upd E (disk s) ?b (encode_dir ?es),
        free_block_list := free_block_list s @ []\<rparr>)"
      using bless j kl False by (simp add: remove_entry_def prog_simps is_block_empty_iff)
    then show ?thesis using r(1) r(3) [OF p] es by blast
  qed
qed

text \<open>The locks of parent and child together.\<close>

lemma two_locks [simp]:
  "c \<noteq> n \<Longrightarrow> [n \<mapsto> g, c \<mapsto> h](n := None, c := None) = Map.empty"
  "c \<noteq> n \<Longrightarrow> [n \<mapsto> g, c \<mapsto> h](c \<mapsto> h', n := None) = [c \<mapsto> h']"
  by (auto simp: fun_eq_iff)

lemma delete_child_run:
  assumes wf: "fs_wf E (disk s) I" and n: "n \<in> I" "is_dir E (disk s) n" and i: "i = inode_at E (disk s) n"
    and k: "k < i_size i" and es: "es = dir_at E (disk s) (i_blocks i ! k)"
    and e: "entry_at es j nm" "ch = de_inode_block (es ! j)"
    and ch: "ch \<in> I" "ch \<noteq> n" and p: "walk E (disk s) 0 p = Some n"
    and lock: "lock_map s = [n \<mapsto> upgrade_held E]" and s0: "s0 = s\<lparr>lock_map := Map.empty\<rparr>"
  shows "owner_at E (disk s) ch \<noteq> username c \<Longrightarrow>
      delete_child E c n i k j es s = (Inl (Runtime_error ''User is not owner of the target''), s0)"
    and "owner_at E (disk s) ch = username c \<Longrightarrow> is_dir E (disk s) ch \<Longrightarrow> inode_blocks E (disk s) ch \<noteq> [] \<Longrightarrow>
      delete_child E c n i k j es s = (Inl (Runtime_error ''Directory not empty''), s0)"
    and "owner_at E (disk s) ch = username c \<Longrightarrow> (is_dir E (disk s) ch \<Longrightarrow> inode_blocks E (disk s) ch = []) \<Longrightarrow>
      \<exists>d' freed. delete_child E c n i k j es s =
          (Inr (), s0\<lparr>disk := d', free_block_list := free_block_list s @ freed @ owned E (disk s) ch\<rparr>) \<and>
        leaf_removed E (disk s) d' I n ch freed \<and> abs_fs E d' = (abs_fs E (disk s))(p @ [nm] := None)"
proof -
  let ?ci = "inode_at E (disk s) ch"
  have j: "j < length es" using e(1) by (simp add: entry_at_def)
  have less: "ch < FS_DISKSIZE" by (rule fs_wf_inode_less [OF wf ch(1)])
  have ok: "NUL \<in> set (i_owner ?ci)" "i_size ?ci \<le> FS_MAXFILEBLOCKS" "i_type ?ci = CHR ''f'' \<longleftrightarrow> \<not> is_dir E (disk s) ch"
    using fs_wf_inode [OF wf ch(1)] by (auto simp: inode_ok_def is_dir_def)
  have target_length: "length (inode_blocks E (disk s) ch) = i_size ?ci"
    using less ok(2) by (simp add: inode_blocks_def)
  have size0: "inode_blocks E (disk s) ch = [] \<longleftrightarrow> i_size ?ci = 0"
    using target_length by auto
  have raw: "decode_inode (blk E (disk s) ch) = ?ci" by (simp add: inode_at_def)
  have dirty: "i_type ?ci = CHR ''d'' \<longleftrightarrow> is_dir E (disk s) ch" by (simp add: is_dir_def)
  have own: "cstr (i_owner ?ci) = owner_at E (disk s) ch" by (simp add: owner_at_def)
  note facts = j less ok(1) e(2) [symmetric] ch(2) lock
  show "delete_child E c n i k j es s = (Inl (Runtime_error ''User is not owner of the target''), s0)"
    if "owner_at E (disk s) ch \<noteq> username c"
    using that facts by (simp add: delete_child_def prog_simps Let_def raw own s0)
  show "delete_child E c n i k j es s = (Inl (Runtime_error ''Directory not empty''), s0)"
    if "owner_at E (disk s) ch = username c" "is_dir E (disk s) ch" "inode_blocks E (disk s) ch \<noteq> []"
    using that facts size0 by (simp add: delete_child_def prog_simps Let_def raw own dirty s0)
  assume ow: "owner_at E (disk s) ch = username c"
    and leaf: "is_dir E (disk s) ch \<Longrightarrow> inode_blocks E (disk s) ch = []"
  let ?s = "s\<lparr>lock_map := [n \<mapsto> write_held E, ch \<mapsto> upgrade_held E]\<rparr>"
  have leaf': "is_dir E (disk s) ch \<Longrightarrow> dir_entries E (disk s) ch = []" using leaf by (simp add: dir_entries_def)
  obtain d' freed where rm: "remove_entry E n i k j es ?s =
        (Inr (), ?s\<lparr>disk := d', free_block_list := free_block_list s @ freed\<rparr>)"
      "leaf_removed E (disk s) d' I n ch freed" "abs_fs E d' = (abs_fs E (disk s))(p @ [nm] := None)"
    using remove_entry_run [of ?s I n i k es j nm ch p] wf n i k es e ch(2) leaf' p by auto
  have lenb: "\<forall>m \<in> set [0..<i_size ?ci]. m < length (i_blocks ?ci)" using ok(2) less by simp
  have mapb: "map (\<lambda>m. i_blocks ?ci ! m) [0..<i_size ?ci] = inode_blocks E (disk s) ch"
    using map_nth_take [of "i_size ?ci" "i_blocks ?ci" "\<lambda>b. b"] ok(2) less by (simp add: inode_blocks_def)
  have "delete_child E c n i k j es s =
      (Inr (), s0\<lparr>disk := d', free_block_list := free_block_list s @ freed @ owned E (disk s) ch\<rparr>)"
  proof (cases "is_dir E (disk s) ch")
    case True
    then have "inode_blocks E (disk s) ch = []" "i_size ?ci = 0" "i_type ?ci \<noteq> CHR ''f''"
      using leaf size0 ok(3) by simp_all
    then show ?thesis using facts ow
      by (simp add: delete_child_def prog_simps Let_def raw own s0 bindp_Inr rm(1) owned_def)
  next
    case False
    then have "i_type ?ci = CHR ''f''" using ok(3) by simp
    then show ?thesis using facts ow
      by (simp add: delete_child_def prog_simps Let_def raw own s0 bindp_Inr rm(1) free_file_blocks_eq [OF lenb] mapb owned_def)
  qed
  then show "\<exists>d' freed. delete_child E c n i k j es s =
          (Inr (), s0\<lparr>disk := d', free_block_list := free_block_list s @ freed @ owned E (disk s) ch\<rparr>) \<and>
        leaf_removed E (disk s) d' I n ch freed \<and> abs_fs E d' = (abs_fs E (disk s))(p @ [nm] := None)"
    using rm(2,3) by blast
qed

text \<open>The check for the root never fires: a path that the server accepts is not \<^verbatim>\<open>"/"\<close>.\<close>

lemma handle_delete_body:
  assumes p: "path_ok (pathname c) (xs @ [x])"
  shows "handle_delete E c s = (bindp (lift (get_parent_dir (pathname c))) (\<lambda>parent_path.
     bindp (lift (get_target (pathname c))) (\<lambda>target_name.
     bindp (get_parent_inode_and_upgradeable_lock E c parent_path) (\<lambda>parent_inode_block.
     bindp (disk_readblock E parent_inode_block) (\<lambda>raw.
     let parent_inode = decode_inode raw in
     seqp (validate_parent_inode E c parent_path parent_inode parent_inode_block)
     (bindp (delete_scan_blocks E target_name (i_blocks parent_inode) [0..<i_size parent_inode]) (\<lambda>r.
     case r of
       None \<Rightarrow>
         seqp (unlock_inode_upgrade E parent_inode_block) (halt (Runtime_error ''Target does not exist''))
     | Some (dir_block_index, dir_entry_index, dir_block) \<Rightarrow>
         delete_child E c parent_inode_block parent_inode dir_block_index dir_entry_index dir_block))))))) s"
proof -
  have path: "pathname c = join_path xs @ slash # x" and x: "x \<noteq> []" and nul: "NUL \<notin> set (pathname c)"
    using p by (auto simp: path_ok_def name_ok_def join_path_def)
  have "pathname c \<noteq> [slash]" using x by (cases xs) (auto simp: path)
  then have "strcmp_eq (c_str (pathname c)) (c_str [slash]) = Inr False" using nul by simp
  then show ?thesis unfolding handle_delete_def by (simp add: prog_simps)
qed

lemma has_children_iff:
  assumes wf: "fs_wf E d I" and w: "walk E d 0 p = Some n" and dir: "is_dir E d n"
  shows "has_children (abs_fs E d) p \<longleftrightarrow> inode_blocks E d n \<noteq> []"
proof -
  have "n \<in> I" by (rule walk_root_in [OF wf w])
  then have "dir_block_ok (dir_at E d b)" if "b \<in> set (inode_blocks E d n)" for b
    using fs_wf_dir [OF wf _ dir] that by (simp add: dir_ok_def)
  then have "dir_entries E d n = [] \<longleftrightarrow> inode_blocks E d n = []"
    by (cases "inode_blocks E d n") (auto simp: dir_entries_def dir_block_ok_def)
  moreover have "has_children (abs_fs E d) p \<longleftrightarrow> (\<exists>x. map_of (dir_entries E d n) x \<noteq> None)"
    using w dir by (simp add: has_children_def abs_fs_def walk_snoc)
  moreover have "(\<exists>x. map_of (dir_entries E d n) x \<noteq> None) \<longleftrightarrow> dir_entries E d n \<noteq> []"
    by (cases "dir_entries E d n") (auto simp: map_of_eq_None_iff)
  ultimately show ?thesis by simp
qed

lemma handle_delete_refines:
  assumes q: "quiescent E s I" and p: "path_ok (pathname c) p"
  shows "implements E s I (handle_delete E c s) (spec_delete (abs_fs E (disk s)) (username c) p)"
proof -
  have wf: "fs_wf E (disk s) I" and free: "free_ok E (disk s) I (free_block_list s)"
    and tab: "lock_map s = Map.empty" using q by (simp_all add: quiescent_def)
  obtain xs x where px: "p = xs @ [x]" using p by (cases p rule: rev_cases) (auto simp: path_ok_def)
  note p = p [unfolded px]
  have x: "NUL \<notin> set x" using p by (simp add: path_ok_def)
  note body = handle_delete_body [OF p, of s]
  show ?thesis
  proof (cases "dir_path (abs_fs E (disk s)) (username c) xs")
    case False
    have "\<exists>msg. handle_delete E c s = (Inl (Runtime_error msg), s)"
      unfolding body by (rule open_parent_fail [OF wf p tab refl False])
    then obtain msg where "handle_delete E c s = (Inl (Runtime_error msg), s)" ..
    then show ?thesis
      by (rule implements_None) (simp add: spec_delete_def px False split: option.splits fs_object.splits)
  next
    case True
    then obtain n where n: "walk E (disk s) 0 xs = Some n" "n \<in> I" "is_dir E (disk s) n"
      using dir_path_dir [OF wf] by blast
    let ?i = "inode_at E (disk s) n" and ?s = "s\<lparr>lock_map := [n \<mapsto> upgrade_held E]\<rparr>"
    note run = body [unfolded open_parent_found [OF wf p tab refl True n(1)]]
    have wf': "fs_wf E (disk ?s) I" "is_dir E (disk ?s) n" using wf n(3) by simp_all
    note scan = delete_scan_dir [OF wf'(1) n(2) wf'(2) x, of ?i, simplified]
    have s0: "?s\<lparr>lock_map := Map.empty\<rparr> = s" using tab by (simp add: lock_map_same)
    show ?thesis
    proof (cases "x \<in> fst ` set (dir_entries E (disk s) n)")
      case False
      then have "handle_delete E c s = (Inl (Runtime_error ''Target does not exist''), s)"
        unfolding run using scan(1) tab by (simp add: bindp_Inr prog_simps lock_map_same)
      moreover have "abs_fs E (disk s) (xs @ [x]) = None" using abs_fs_in_dir [OF n(1,3)] False by blast
      ultimately show ?thesis by (intro implements_None) (simp_all add: spec_delete_def px)
    next
      case True
      then obtain k j where kj: "delete_scan_blocks E x (i_blocks ?i) [0..<i_size ?i] ?s =
          (Inr (Some (k, j, dir_at E (disk s) (i_blocks ?i ! k))), ?s)"
        "k < i_size ?i" "entry_at (dir_at E (disk s) (i_blocks ?i ! k)) j x"
        using scan(2) by blast
      let ?es = "dir_at E (disk s) (i_blocks ?i ! k)"
      let ?ch = "de_inode_block (?es ! j)"
      have hd: "handle_delete E c s = delete_child E c n ?i k j ?es ?s"
        unfolding run using kj(1) by (simp add: bindp_Inr)
      have less: "n < FS_DISKSIZE" by (rule fs_wf_inode_less [OF wf n(2)])
      have sz: "i_size ?i \<le> FS_MAXFILEBLOCKS" using fs_wf_inode [OF wf n(2)] by (simp add: inode_ok_def)
      have "(x, ?ch) \<in> set (used_entries ?es)"
        using set_mset_add [OF used_entries_clear [OF kj(3)]] by simp
      then have ent: "(x, ?ch) \<in> set (dir_entries E (disk s) n)"
        using inode_block_in(1) [OF less sz kj(2)] by (auto simp: dir_entries_def)
      have chI: "?ch \<in> I" by (rule fs_wf_entry [OF wf n(2,3) ent])
      have "distinct (map fst (dir_entries E (disk s) n))" using fs_wf_dir [OF wf n(2,3)] by (simp add: dir_ok_def)
      then have w: "walk E (disk s) 0 (xs @ [x]) = Some ?ch" using ent n(1,3) by (simp add: walk_snoc)
      have ne: "?ch \<noteq> n" using walk_child_neq [OF wf n(1) w] .
      note child = delete_child_run [of ?s I n ?i k ?es j x ?ch xs s c, simplified,
          OF wf n(2,3) kj(2,3) chI ne n(1) s0 [simplified, symmetric]]
      have abs: "abs_fs E (disk s) (xs @ [x]) = Some (obj_at E (disk s) ?ch)" using w by (simp add: abs_fs_def)
      note dp = \<open>dir_path (abs_fs E (disk s)) (username c) xs\<close>
      consider "owner_at E (disk s) ?ch \<noteq> username c"
        | "owner_at E (disk s) ?ch = username c" "is_dir E (disk s) ?ch" "inode_blocks E (disk s) ?ch \<noteq> []"
        | "owner_at E (disk s) ?ch = username c" "is_dir E (disk s) ?ch \<Longrightarrow> inode_blocks E (disk s) ?ch = []"
        by blast
      then show ?thesis
      proof cases
        case 1
        then show ?thesis using child(1) hd abs
          by (intro implements_None) (auto simp: spec_delete_def px obj_at_def)
      next
        case 2
        then show ?thesis using child(2) hd abs has_children_iff [OF wf w]
          by (intro implements_None) (auto simp: spec_delete_def px obj_at_def)
      next
        case 3
        then obtain d' freed where r: "delete_child E c n ?i k j ?es ?s =
            (Inr (), s\<lparr>disk := d', free_block_list := free_block_list s @ freed @ owned E (disk s) ?ch\<rparr>)"
          "leaf_removed E (disk s) d' I n ?ch freed" "abs_fs E d' = (abs_fs E (disk s))(xs @ [x] := None)"
          using child(3) by blast
        have spec: "spec_delete (abs_fs E (disk s)) (username c) p = Some ((abs_fs E (disk s))(xs @ [x] := None))"
          using 3 abs dp has_children_iff [OF wf w] by (auto simp: spec_delete_def px obj_at_def)
        note fr = leaf_removed_free [OF wf free n(2) chI ne r(2)]
        show ?thesis
          by (rule implements_Some [where I' = "I - {?ch}", OF trans [OF hd r(1)]])
            (use spec r(3) fr tab r(2) in \<open>simp_all add: quiescent_def accounted_def leaf_removed_def\<close>)
      qed
    qed
  qed
qed

end

end
