(* ===== verification/FS_Init.thy ===== *)
theory FS_Init
  imports FS_Delete_Refine
begin

text \<open>
  The constructor of \<^verbatim>\<open>FileSystem\<close> (\<^verbatim>\<open>src/filesys/file_system.cpp\<close> 20-106): a breadth-first search
  over the directory tree collects the blocks in use, and every other block enters the free list.
  The search has no visited check, so it is a partial function: on a disk whose directories form a
  cycle it does not return.  On a well-formed disk it returns, and the free list is exactly the
  complement of the blocks in use.
\<close>

subsection \<open>The code\<close>

fun bfs_file_loop :: "nat list \<Rightarrow> nat list \<Rightarrow> nat set \<Rightarrow> stop + nat set" where
  "bfs_file_loop bs [] used_file_blocks = Inr used_file_blocks"
| "bfs_file_loop bs (i # is) used_file_blocks =
     bindr (arr_get bs i) (\<lambda>used_block. bfs_file_loop bs is (insert used_block used_file_blocks))"

definition bfs_file_inode :: "fs_inode \<Rightarrow> nat set \<Rightarrow> stop + nat set" where
  "bfs_file_inode inode_to_search used_file_blocks =
     bfs_file_loop (i_blocks inode_to_search) [0..<i_size inode_to_search] used_file_blocks"

fun bfs_entries :: "fs_direntry list \<Rightarrow> nat set \<Rightarrow> nat list \<Rightarrow> nat set \<times> nat list" where
  "bfs_entries [] used_file_blocks search = (used_file_blocks, search)"
| "bfs_entries (e # es) used_file_blocks search =
     (if de_inode_block e \<noteq> 0
      then bfs_entries es (insert (de_inode_block e) used_file_blocks) (search @ [de_inode_block e])
      else bfs_entries es used_file_blocks search)"

fun bfs_directory_loop ::
  "('d, 'm) fs_env \<Rightarrow> 'd \<Rightarrow> nat list \<Rightarrow> nat list \<Rightarrow> nat set \<Rightarrow> nat list \<Rightarrow> stop + nat set \<times> nat list" where
  "bfs_directory_loop E d bs [] used_file_blocks search = Inr (used_file_blocks, search)"
| "bfs_directory_loop E d bs (i # is) used_file_blocks search =
     bindr (arr_get bs i) (\<lambda>used_block.
     case env_readblock E d used_block of
       None \<Rightarrow> Inl Assertion_failed
     | Some raw \<Rightarrow>
         (case bfs_entries (decode_dir raw) (insert used_block used_file_blocks) search of
            (used', search') \<Rightarrow> bfs_directory_loop E d bs is used' search'))"

definition bfs_directory_inode ::
  "('d, 'm) fs_env \<Rightarrow> 'd \<Rightarrow> fs_inode \<Rightarrow> nat set \<Rightarrow> nat list \<Rightarrow> stop + nat set \<times> nat list" where
  "bfs_directory_inode E d inode_to_search used_file_blocks search =
     bfs_directory_loop E d (i_blocks inode_to_search) [0..<i_size inode_to_search] used_file_blocks search"

text \<open>The \<^verbatim>\<open>while (!search.empty())\<close> loop; \<open>None\<close> stands for a loop that does not end.\<close>

partial_function (option) search_loop ::
  "('d, 'm) fs_env \<Rightarrow> 'd \<Rightarrow> nat list \<Rightarrow> nat set \<Rightarrow> (stop + nat set) option" where
  "search_loop E d search used_file_blocks =
     (case search of
        [] \<Rightarrow> Some (Inr used_file_blocks)
      | curr_block # rest \<Rightarrow>
          (case env_readblock E d curr_block of
             None \<Rightarrow> Some (Inl Assertion_failed)
           | Some raw \<Rightarrow>
               (let inode_to_search = decode_inode raw in
                if i_type inode_to_search = CHR ''f'' then
                  (case bfs_file_inode inode_to_search used_file_blocks of
                     Inl e \<Rightarrow> Some (Inl e)
                   | Inr used' \<Rightarrow> search_loop E d rest used')
                else if i_type inode_to_search \<noteq> CHR ''d'' then Some (Inl Assertion_failed)
                else
                  (case bfs_directory_inode E d inode_to_search used_file_blocks rest of
                     Inl e \<Rightarrow> Some (Inl e)
                   | Inr (used', search') \<Rightarrow> search_loop E d search' used'))))"

definition find_free_blocks :: "('d, 'm) fs_env \<Rightarrow> 'd \<Rightarrow> (stop + nat set) option" where
  "find_free_blocks E d = search_loop E d [0] {0}"

definition new_FileSystem :: "('d, 'm) fs_env \<Rightarrow> 'd \<Rightarrow> (stop + ('d, 'm) FileSystem) option" where
  "new_FileSystem E d =
     (case find_free_blocks E d of
        None \<Rightarrow> None
      | Some (Inl e) \<Rightarrow> Some (Inl e)
      | Some (Inr used_file_blocks) \<Rightarrow>
          Some (Inr \<lparr>disk = d, free_block_list = filter (\<lambda>i. i \<notin> used_file_blocks) [0..<FS_DISKSIZE],
                     lock_map = Map.empty\<rparr>))"

subsection \<open>The loops over one inode\<close>

lemma bfs_file_loop_eq:
  "\<forall>i \<in> set is. i < length bs \<Longrightarrow> bfs_file_loop bs is used = Inr (used \<union> (\<lambda>i. bs ! i) ` set is)"
  by (induction "is" arbitrary: used) auto

lemma bfs_entries_eq:
  "bfs_entries es used search =
    (used \<union> snd ` set (used_entries es), search @ map snd (used_entries es))"
  by (induction es arbitrary: used search) (auto simp: used_entries_def)

context fs_device
begin

lemma bfs_directory_loop_eq:
  assumes "\<forall>i \<in> set is. i < length bs \<and> bs ! i < FS_DISKSIZE"
  shows "bfs_directory_loop E d bs is used search =
    Inr (used \<union> (\<lambda>i. bs ! i) ` set is \<union> snd ` set (concat (map (\<lambda>i. used_entries (dir_at E d (bs ! i))) is)),
         search @ map snd (concat (map (\<lambda>i. used_entries (dir_at E d (bs ! i))) is)))"
  using assms
  by (induction "is" arbitrary: used search)
    (auto simp: read_blk dir_at_def [symmetric] bfs_entries_eq)

lemma bfs_inode_eq:
  assumes wf: "fs_wf E d I" and n: "n \<in> I" and i: "i = inode_at E d n"
  shows "bfs_file_inode i used = Inr (used \<union> set (inode_blocks E d n))"
    and "bfs_directory_inode E d i used search =
      Inr (used \<union> set (inode_blocks E d n) \<union> snd ` set (dir_entries E d n), search @ map snd (dir_entries E d n))"
proof -
  have less: "n < FS_DISKSIZE" using wf n by (rule fs_wf_inode_less)
  have sz: "i_size i \<le> FS_MAXFILEBLOCKS" using fs_wf_inode [OF wf n] by (simp add: inode_ok_def i)
  have len: "length (i_blocks i) = FS_MAXFILEBLOCKS" using less i by simp
  have bs: "(\<lambda>k. i_blocks i ! k) ` set [0..<i_size i] = set (inode_blocks E d n)"
    using arg_cong [OF map_nth_take [of "i_size i" "i_blocks i" "\<lambda>b. b"], of set] sz len
    by (simp add: inode_blocks_def i)
  have "i_blocks i ! k < FS_DISKSIZE" if "k < i_size i" for k
    using fs_wf_block_less [OF wf n inode_block_in(1) [OF less]] sz that i by simp
  then have small: "\<forall>k \<in> set [0..<i_size i]. k < length (i_blocks i) \<and> i_blocks i ! k < FS_DISKSIZE"
    using sz len by simp
  have ents: "concat (map (\<lambda>k. used_entries (dir_at E d (i_blocks i ! k))) [0..<i_size i]) = dir_entries E d n"
    using map_nth_take [of "i_size i" "i_blocks i" "\<lambda>b. used_entries (dir_at E d b)"] sz len
    by (simp add: dir_entries_def inode_blocks_def i)
  show "bfs_file_inode i used = Inr (used \<union> set (inode_blocks E d n))"
    unfolding bfs_file_inode_def bs [symmetric] using small by (intro bfs_file_loop_eq) simp
  show "bfs_directory_inode E d i used search =
      Inr (used \<union> set (inode_blocks E d n) \<union> snd ` set (dir_entries E d n), search @ map snd (dir_entries E d n))"
    unfolding bfs_directory_inode_def bfs_directory_loop_eq [OF small] ents bs ..
qed

end

subsection \<open>The search visits every inode once\<close>

text \<open>
  \<open>V\<close> is the set of the inodes taken off the queue so far.  Queue and \<open>V\<close> are disjoint, every
  queued inode is the root or a child of a visited directory, and the visited directories have all
  their children in \<open>V\<close> or in the queue.
\<close>

definition child_of :: "('d, 'm) fs_env \<Rightarrow> 'd \<Rightarrow> nat \<Rightarrow> nat \<Rightarrow> bool" where
  "child_of E d v c \<longleftrightarrow> is_dir E d v \<and> c \<in> snd ` set (dir_entries E d v)"

definition bfs_inv :: "('d, 'm) fs_env \<Rightarrow> 'd \<Rightarrow> nat set \<Rightarrow> nat set \<Rightarrow> nat list \<Rightarrow> nat set \<Rightarrow> bool" where
  "bfs_inv E d I V q used \<longleftrightarrow>
     V \<union> set q \<subseteq> I \<and> distinct q \<and> V \<inter> set q = {} \<and> 0 \<in> V \<union> set q \<and>
     (\<forall>c \<in> V \<union> set q. c = 0 \<or> (\<exists>v \<in> V. child_of E d v c)) \<and>
     (\<forall>v \<in> V. \<forall>c. child_of E d v c \<longrightarrow> c \<in> V \<union> set q) \<and>
     used = (\<Union>v \<in> V. set (owned E d v)) \<union> set q"

lemma child_of_unique:
  assumes "fs_wf E d I" and "v \<in> I" "w \<in> I" and "child_of E d v c" "child_of E d w c"
  shows "v = w"
  using assms fs_wf_disjoint(2) [OF assms(1-3)] by (auto simp: child_of_def disjoint_iff)

lemma bfs_inv_step:
  assumes wf: "fs_wf E d I" and inv: "bfs_inv E d I V (n # q) used"
    and ch: "ch = (if is_dir E d n then map snd (dir_entries E d n) else [])"
  shows "bfs_inv E d I (insert n V) (q @ ch) (used \<union> set (inode_blocks E d n) \<union> set ch)" and "n \<in> I" "n \<notin> V"
proof -
  show nI: "n \<in> I" and nV: "n \<notin> V" using inv by (auto simp: bfs_inv_def)
  have VI: "V \<subseteq> I" using inv by (simp add: bfs_inv_def)
  have chs: "c \<in> set ch \<longleftrightarrow> child_of E d n c" for c by (auto simp: ch child_of_def)
  have chI: "set ch \<subseteq> I" using fs_wf_dir [OF wf nI] by (auto simp: ch dir_ok_def)
  have chd: "distinct ch" using fs_wf_dir [OF wf nI] by (simp add: ch dir_ok_def)
  have ch0: "0 \<notin> set ch" using dir_entries_nonzero [of _ 0 E d n] by (auto simp: ch)
  have parent: "\<And>c. c \<in> V \<union> set (n # q) \<Longrightarrow> c = 0 \<or> (\<exists>v \<in> V. child_of E d v c)"
    using inv unfolding bfs_inv_def by blast
  have new: "c \<notin> V \<union> set (n # q)" if "c \<in> set ch" for c
  proof
    assume "c \<in> V \<union> set (n # q)"
    moreover have "c \<noteq> 0" using that ch0 by metis
    ultimately obtain v where v: "v \<in> V" "child_of E d v c" using parent by blast
    have "v = n" using child_of_unique [OF wf _ nI v(2)] v(1) VI that chs by auto
    then show False using v(1) nV by simp
  qed
  have closed: "\<And>v c. v \<in> V \<Longrightarrow> child_of E d v c \<Longrightarrow> c \<in> V \<union> set (n # q)"
    using inv unfolding bfs_inv_def by blast
  show "bfs_inv E d I (insert n V) (q @ ch) (used \<union> set (inode_blocks E d n) \<union> set ch)"
    unfolding bfs_inv_def
  proof (intro conjI ballI allI impI)
    show "insert n V \<union> set (q @ ch) \<subseteq> I" "distinct (q @ ch)" "insert n V \<inter> set (q @ ch) = {}"
      "0 \<in> insert n V \<union> set (q @ ch)"
      using inv chI chd new nI by (auto simp: bfs_inv_def)
    show "used \<union> set (inode_blocks E d n) \<union> set ch = (\<Union>v \<in> insert n V. set (owned E d v)) \<union> set (q @ ch)"
      using inv by (auto simp: bfs_inv_def owned_def)
  next
    fix c assume "c \<in> insert n V \<union> set (q @ ch)"
    then have "c \<in> V \<union> set (n # q) \<or> c \<in> set ch" by auto
    then show "c = 0 \<or> (\<exists>v \<in> insert n V. child_of E d v c)" using parent chs by blast
  next
    fix v c assume "v \<in> insert n V" "child_of E d v c"
    then show "c \<in> insert n V \<union> set (q @ ch)" using closed [of v c] chs by auto
  qed
qed

definition all_reachable :: "('d, 'm) fs_env \<Rightarrow> 'd \<Rightarrow> nat set \<Rightarrow> bool" where
  "all_reachable E d I \<longleftrightarrow> (\<forall>n \<in> I. \<exists>p. walk E d 0 p = Some n)"

lemma bfs_inv_end:
  assumes inv: "bfs_inv E d I V [] used" and all: "all_reachable E d I"
  shows "used = (\<Union>n \<in> I. set (owned E d n))"
proof -
  have closed: "\<And>v c. v \<in> V \<Longrightarrow> child_of E d v c \<Longrightarrow> c \<in> V" and root: "0 \<in> V" and "V \<subseteq> I"
    and used: "used = (\<Union>v \<in> V. set (owned E d v))"
    using inv by (auto simp: bfs_inv_def)
  have "n \<in> V" if "walk E d 0 p = Some n" for n p
    using that
  proof (induction p arbitrary: n rule: rev_induct)
    case (snoc x p)
    then obtain m where m: "walk E d 0 p = Some m" "is_dir E d m" "map_of (dir_entries E d m) x = Some n"
      by (auto simp: walk_snoc_iff)
    have "child_of E d m n" using m(2) map_of_SomeD [OF m(3)] by (force simp: child_of_def)
    then show ?case using closed snoc.IH [OF m(1)] by blast
  qed (use root in simp)
  then have "I \<subseteq> V" using all by (auto simp: all_reachable_def)
  then show ?thesis using used \<open>V \<subseteq> I\<close> by blast
qed

lemma fs_wf_finite: "fs_wf E d I \<Longrightarrow> finite I"
  by (rule finite_subset [of _ "{..<FS_DISKSIZE}"]) (auto intro: fs_wf_inode_less)

context fs_device
begin

lemma search_loop_returns:
  assumes wf: "fs_wf E d I" and all: "all_reachable E d I" and inv: "bfs_inv E d I V q used"
  shows "search_loop E d q used = Some (Inr (\<Union>n \<in> I. set (owned E d n)))"
  using inv
proof (induction "card (I - V)" arbitrary: V q used rule: less_induct)
  case less
  show ?case
  proof (cases q)
    case Nil
    then show ?thesis using bfs_inv_end [OF less.prems [unfolded Nil] all]
      by (simp add: search_loop.simps)
  next
    case (Cons n rest)
    note step = bfs_inv_step [OF wf less.prems [unfolded Cons]]
    have nI: "n \<in> I" "n \<notin> V" using step(2,3) by blast+
    have n: "n < FS_DISKSIZE" "i_type (inode_at E d n) = CHR ''f'' \<longleftrightarrow> \<not> is_dir E d n"
      using fs_wf_inode_less [OF wf nI(1)] fs_wf_inode [OF wf nI(1)] by (auto simp: inode_ok_def is_dir_def)
    have "card (I - insert n V) < card (I - V)"
      using nI fs_wf_finite [OF wf] by (intro psubset_card_mono) auto
    note IH = less.hyps [OF this]
    note eqs = bfs_inode_eq [OF wf nI(1) refl]
    show ?thesis
    proof (cases "is_dir E d n")
      case True
      have "bfs_inv E d I (insert n V) (rest @ map snd (dir_entries E d n))
          (used \<union> set (inode_blocks E d n) \<union> snd ` set (dir_entries E d n))"
        using step(1) [OF refl] True by simp
      note IH = IH [OF this]
      have "i_type (inode_at E d n) = CHR ''d''" using True by (simp add: is_dir_def)
      then show ?thesis using IH n
        by (subst search_loop.simps) (simp add: Cons read_blk inode_at_def [symmetric] eqs)
    next
      case False
      then have "bfs_inv E d I (insert n V) rest (used \<union> set (inode_blocks E d n))"
        using step(1) [OF refl] by simp
      note IH = IH [OF this]
      show ?thesis using IH n False
        by (subst search_loop.simps) (simp add: Cons read_blk inode_at_def [symmetric] eqs)
    qed
  qed
qed

lemma new_FileSystem_returns:
  assumes wf: "fs_wf E d I" and all: "all_reachable E d I"
  shows "\<exists>s. new_FileSystem E d = Some (Inr s) \<and> disk s = d \<and> quiescent E s I \<and> accounted E s I = {..<FS_DISKSIZE}"
proof -
  let ?U = "\<Union>n \<in> I. set (owned E d n)"
  have "bfs_inv E d I {} [0] {0}" using fs_wf_root(1) [OF wf] by (simp add: bfs_inv_def)
  then have f: "find_free_blocks E d = Some (Inr ?U)"
    unfolding find_free_blocks_def by (rule search_loop_returns [OF wf all])
  let ?s = "\<lparr>disk = d, free_block_list = filter (\<lambda>i. i \<notin> ?U) [0..<FS_DISKSIZE], lock_map = Map.empty\<rparr>"
  have "new_FileSystem E d = Some (Inr ?s)" by (simp add: new_FileSystem_def f)
  moreover have "quiescent E ?s I" using wf by (auto simp: quiescent_def free_ok_def)
  moreover have "accounted E ?s I = {..<FS_DISKSIZE}"
    using fs_wf_inode [OF wf] by (auto simp: accounted_def inode_ok_def)
  ultimately show ?thesis by (intro exI [of _ ?s]) simp
qed

end

end
