(* ===== verification/Net_Parse.thy ===== *)
theory Net_Parse
  imports FS_Delete_Refine
begin

text \<open>
  The request parser of \<^verbatim>\<open>src/filesys/network_server.cpp\<close> (189-266).  A request that parses is
  within the bounds the file system relies on, and every request a client can legally send parses
  to the command it stands for.  The members of the local \<^verbatim>\<open>Command\<close> that the code has not yet
  assigned have arbitrary contents, given by the argument \<open>junk\<close>.
\<close>

definition parse_command :: "string \<Rightarrow> CommandType" where
  "parse_command command_str =
     (if command_str = ''FS_READBLOCK'' then FS_READBLOCK
      else if command_str = ''FS_WRITEBLOCK'' then FS_WRITEBLOCK
      else if command_str = ''FS_CREATE'' then FS_CREATE
      else if command_str = ''FS_DELETE'' then FS_DELETE
      else INVALID)"

text \<open>
  Lines 231-250 and 252-258.  \<^verbatim>\<open>std::stoul\<close> gives an \<^verbatim>\<open>unsigned long\<close>, which the assignment to the
  \<^verbatim>\<open>u_int32_t\<close> member truncates.
\<close>

definition parse_block :: "Command \<Rightarrow> string \<Rightarrow> stop + Command \<times> string" where
  "parse_block command iss =
     (case next_token iss of (block_str, iss) \<Rightarrow>
        if block_str = [] then Inl (Runtime_error ''Error: Block number is empty'')
        else if 1 < length block_str \<and> block_str ! 0 = CHR ''0''
        then Inl (Runtime_error ''Error: Block number has a leading zero'')
        else bindr (stoul block_str) (\<lambda>v.
          let command = command\<lparr>block := v mod 2 ^ 32\<rparr>
          in if FS_MAXFILEBLOCKS \<le> block command
             then Inl (Runtime_error ''Error: Block number exceeds FS_MAXFILEBLOCKS'')
             else Inr (command, iss)))"

definition parse_type :: "Command \<Rightarrow> string \<Rightarrow> stop + Command \<times> string" where
  "parse_type command iss =
     (let (command, iss) = (case next_char iss of None \<Rightarrow> (command, []) | Some (c, r) \<Rightarrow> (command\<lparr>ctype := c\<rparr>, r))
      in if ctype command \<noteq> CHR ''f'' \<and> ctype command \<noteq> CHR ''d''
         then Inl (Runtime_error ''Error: Command type is not f or d'')
         else Inr (command, iss))"

definition parse_message :: "Command \<Rightarrow> string \<Rightarrow> stop + Command" where
  "parse_message junk request_str =
     (let (command_str, iss) = next_token request_str;
          (user, iss) = next_token iss;
          (path, iss) = next_token iss;
          command = junk\<lparr>username := user, pathname := path\<rparr>
      in if command_str = [] then Inl Assertion_failed
         else if username command = [] then Inl (Runtime_error ''Error: Username is empty'')
         else if FS_MAXUSERNAME < length (username command) then Inl (Runtime_error ''Error: Username too long'')
         else if pathname command = [] then Inl (Runtime_error ''Error: Pathname is empty'')
         else bindr (is_valid_pathname (pathname command)) (\<lambda>valid.
           if \<not> valid then Inl (Runtime_error ''Error: Pathname is invalid'')
           else let command = command\<lparr>command_type := parse_command command_str\<rparr>
           in bindr (if command_type command = FS_READBLOCK \<or> command_type command = FS_WRITEBLOCK
                     then parse_block command iss else Inr (command, iss)) (\<lambda>(command, iss).
           bindr (if command_type command = FS_CREATE then parse_type command iss
                  else Inr (command, iss)) (\<lambda>(command, iss).
           if fst (next_token iss) \<noteq> []
           then Inl (Runtime_error ''Error: Request contains too many arguments'')
           else Inr command))))"

subsection \<open>What a parsed command satisfies\<close>

definition command_ok :: "Command \<Rightarrow> bool" where
  "command_ok c \<longleftrightarrow>
     username c \<noteq> [] \<and> length (username c) \<le> FS_MAXUSERNAME \<and> NUL \<notin> set (username c) \<and>
     length (pathname c) \<le> FS_MAXPATHNAME \<and> (\<exists>p. path_ok (pathname c) p) \<and>
     (command_type c \<in> {FS_READBLOCK, FS_WRITEBLOCK} \<longrightarrow> block c < FS_MAXFILEBLOCKS) \<and>
     (command_type c = FS_CREATE \<longrightarrow> ctype c \<in> {CHR ''f'', CHR ''d''})"

lemma valid_pathname_path_ok:
  assumes "is_valid_pathname p = Inr True" and "NUL \<notin> set p"
  shows "\<exists>xs. path_ok p xs" and "length p \<le> FS_MAXPATHNAME"
proof -
  obtain xs where xs: "xs \<noteq> []" "p = join_path xs" "\<forall>x \<in> set xs. name_ok x"
    using valid_pathname_names [OF assms(1)] by blast
  have "NUL \<notin> set x" if "x \<in> set xs" for x
    using assms(2) that by (auto simp: xs(2) join_path_def split: if_splits)
  then show "\<exists>xs. path_ok p xs" using xs by (auto simp: path_ok_def)
  show "length p \<le> FS_MAXPATHNAME" using assms(1) by (simp add: is_valid_pathname_def split: if_splits)
qed

lemma parse_block_Inr:
  assumes "parse_block c iss = Inr (c', r)"
  shows "\<exists>b. c' = c\<lparr>block := b\<rparr> \<and> b < FS_MAXFILEBLOCKS"
  using assms by (auto simp: parse_block_def bindr_eq_Inr Let_def split: prod.splits if_splits)

lemma parse_type_Inr:
  assumes "parse_type c iss = Inr (c', r)"
  shows "\<exists>t. c' = c\<lparr>ctype := t\<rparr> \<and> t \<in> {CHR ''f'', CHR ''d''}"
proof -
  have "ctype c' \<in> {CHR ''f'', CHR ''d''}" "c' = c\<lparr>ctype := ctype c'\<rparr>"
    using assms by (auto simp: parse_type_def Let_def split: option.splits if_splits prod.splits)
  then show ?thesis by blast
qed

lemma parse_message_ok:
  assumes p: "parse_message junk req = Inr c" and nul: "NUL \<notin> set req"
  shows "command_ok c"
proof -
  obtain cs i1 u i2 pa i3 where toks: "next_token req = (cs, i1)" "next_token i1 = (u, i2)" "next_token i2 = (pa, i3)"
    by (metis prod.exhaust)
  have "set i1 \<subseteq> set req" using next_token_set(2) [of req] toks(1) by simp
  moreover have "set u \<subseteq> set i1" "set i2 \<subseteq> set i1" using next_token_set [of i1] toks(2) by simp_all
  moreover have "set pa \<subseteq> set i2" using next_token_set(1) [of i2] toks(3) by simp
  ultimately have nuls: "NUL \<notin> set u" "NUL \<notin> set pa" using nul by auto
  let ?c0 = "junk\<lparr>username := u, pathname := pa, command_type := parse_command cs\<rparr>"
  have chk: "u \<noteq> []" "length u \<le> FS_MAXUSERNAME" "is_valid_pathname pa = Inr True"
    using p by (auto simp: parse_message_def toks Let_def bindr_eq_Inr split: if_splits)
  obtain c1 r1 where c1: "(if command_type ?c0 = FS_READBLOCK \<or> command_type ?c0 = FS_WRITEBLOCK
        then parse_block ?c0 i3 else Inr (?c0, i3)) = Inr (c1, r1)"
    and c2: "\<exists>r2. (if command_type c1 = FS_CREATE then parse_type c1 r1 else Inr (c1, r1)) = Inr (c, r2)"
    using p by (auto simp: parse_message_def toks Let_def bindr_eq_Inr split: if_splits)
  have "username c1 = u" "pathname c1 = pa" "command_type c1 = parse_command cs"
    "parse_command cs \<in> {FS_READBLOCK, FS_WRITEBLOCK} \<longrightarrow> block c1 < FS_MAXFILEBLOCKS"
    using c1 parse_block_Inr [of ?c0 i3 c1 r1] by (auto split: if_splits)
  then have "username c = u" "pathname c = pa" "command_type c = parse_command cs"
    "parse_command cs \<in> {FS_READBLOCK, FS_WRITEBLOCK} \<longrightarrow> block c < FS_MAXFILEBLOCKS"
    "parse_command cs = FS_CREATE \<longrightarrow> ctype c \<in> {CHR ''f'', CHR ''d''}"
    using c2 parse_type_Inr [of c1 r1 c] by (auto split: if_splits)
  then show ?thesis
    using chk nuls valid_pathname_path_ok [OF chk(3) nuls(2)] by (simp add: command_ok_def)
qed

subsection \<open>Requests as clients print them\<close>

definition read_request :: "string \<Rightarrow> string \<Rightarrow> nat \<Rightarrow> string" where
  "read_request u p b = ''FS_READBLOCK '' @ u @ '' '' @ p @ '' '' @ decimal b"

definition write_request :: "string \<Rightarrow> string \<Rightarrow> nat \<Rightarrow> string" where
  "write_request u p b = ''FS_WRITEBLOCK '' @ u @ '' '' @ p @ '' '' @ decimal b"

definition create_request :: "string \<Rightarrow> string \<Rightarrow> char \<Rightarrow> string" where
  "create_request u p t = ''FS_CREATE '' @ u @ '' '' @ p @ '' '' @ [t]"

definition delete_request :: "string \<Rightarrow> string \<Rightarrow> string" where
  "delete_request u p = ''FS_DELETE '' @ u @ '' '' @ p"

text \<open>A user name and a path in the sense of the protocol.\<close>

definition user_ok :: "string \<Rightarrow> bool" where
  "user_ok u \<longleftrightarrow> word_ok u \<and> NUL \<notin> set u \<and> length u \<le> FS_MAXUSERNAME"

definition path_names_ok :: "string list \<Rightarrow> bool" where
  "path_names_ok xs \<longleftrightarrow>
     xs \<noteq> [] \<and> list_all (\<lambda>x. name_ok x \<and> list_all (\<lambda>c. \<not> isspace c \<and> c \<noteq> NUL) x) xs \<and>
     length (join_path xs) \<le> FS_MAXPATHNAME"

lemma slash_not_space [simp]: "\<not> isspace slash"
  by (simp add: isspace_def)

lemma path_names_valid:
  assumes "path_names_ok xs"
  shows "is_valid_pathname (join_path xs) = Inr True" "word_ok (join_path xs)"
proof -
  have ok: "xs \<noteq> []" "\<forall>x \<in> set xs. name_ok x" "length (join_path xs) \<le> FS_MAXPATHNAME"
    and sp: "\<forall>c \<in> set (join_path xs). \<not> isspace c"
    using assms by (auto simp: path_names_ok_def list_all_iff join_path_def)
  obtain y ys where xs: "xs = y # ys" using ok(1) by (cases xs) auto
  have y: "y \<noteq> []" using ok(2) by (simp add: xs name_ok_def)
  have split: "getline_split slash (y @ join_path ys) = xs"
    using ok(2) unfolding xs by (intro getline_split_names) (auto simp: name_ok_def)
  have no_bad: "\<not> list_ex (bad_pair (join_path xs)) [0..<length (join_path xs) - 1]"
    using join_path_no_bad_pair [OF ok(2) sp] by (auto simp: list_ex_iff)
  have last: "join_path xs ! (length (join_path xs) - 1) \<noteq> slash" by (rule join_path_last [OF ok(1,2)])
  have names: "list_all (\<lambda>x. x \<noteq> [] \<and> length x \<le> FS_MAXFILENAME) xs"
    using ok(2) by (auto simp: list_all_iff name_ok_def)
  have "drop 1 (join_path xs) = y @ join_path ys" "join_path xs \<noteq> []" "join_path xs ! 0 = slash"
    by (simp_all add: xs)
  moreover have "\<not> FS_MAXPATHNAME < length (join_path xs)" using ok(3) by simp
  ultimately show "is_valid_pathname (join_path xs) = Inr True"
    using last no_bad names split unfolding is_valid_pathname_def by (simp only: if_False simp_thms)
  show "word_ok (join_path xs)" using sp by (simp add: word_ok_def xs)
qed

lemma word_ok_command [simp]:
  "word_ok ''FS_READBLOCK''" "word_ok ''FS_WRITEBLOCK''" "word_ok ''FS_CREATE''" "word_ok ''FS_DELETE''"
  by (simp_all add: word_ok_def isspace_def)

lemma next_token_command:
  "next_token (''FS_READBLOCK '' @ r) = (''FS_READBLOCK'', '' '' @ r)"
  "next_token (''FS_WRITEBLOCK '' @ r) = (''FS_WRITEBLOCK'', '' '' @ r)"
  "next_token (''FS_CREATE '' @ r) = (''FS_CREATE'', '' '' @ r)"
  "next_token (''FS_DELETE '' @ r) = (''FS_DELETE'', '' '' @ r)"
  using next_token_word(1) [of "''FS_READBLOCK''" r] next_token_word(1) [of "''FS_WRITEBLOCK''" r]
    next_token_word(1) [of "''FS_CREATE''" r] next_token_word(1) [of "''FS_DELETE''" r]
  by simp_all

lemmas next_token_commands = next_token_command [simplified]

lemma parse_block_decimal:
  assumes "b < FS_MAXFILEBLOCKS"
  shows "parse_block c (CHR '' '' # decimal b) = Inr (c\<lparr>block := b\<rparr>, [])"
proof -
  have small: "b < 2 ^ 32" "b < 2 ^ 64" using assms by (simp_all add: fs_params)
  have "\<not> (1 < length (decimal b) \<and> decimal b ! 0 = CHR ''0'')"
  proof (cases "b = 0")
    case True
    then show ?thesis by (simp add: decimal.simps)
  next
    case False
    then show ?thesis using decimal_hd [OF False] by (simp add: hd_conv_nth)
  qed
  then show ?thesis using assms small stoul_decimal [OF small(2)]
    by (simp add: parse_block_def Let_def)
qed

lemma parse_type_char:
  "t \<in> {CHR ''f'', CHR ''d''} \<Longrightarrow> parse_type c [CHR '' '', t] = Inr (c\<lparr>ctype := t\<rparr>, [])"
  by (auto simp: parse_type_def next_char_def isspace_def)

lemma parse_requests:
  assumes u: "user_ok u" and p: "path_names_ok xs"
  shows "b < FS_MAXFILEBLOCKS \<Longrightarrow> parse_message junk (read_request u (join_path xs) b) =
      Inr (junk\<lparr>username := u, pathname := join_path xs, command_type := FS_READBLOCK, block := b\<rparr>)"
    and "b < FS_MAXFILEBLOCKS \<Longrightarrow> parse_message junk (write_request u (join_path xs) b) =
      Inr (junk\<lparr>username := u, pathname := join_path xs, command_type := FS_WRITEBLOCK, block := b\<rparr>)"
    and "t \<in> {CHR ''f'', CHR ''d''} \<Longrightarrow> parse_message junk (create_request u (join_path xs) t) =
      Inr (junk\<lparr>username := u, pathname := join_path xs, command_type := FS_CREATE, ctype := t\<rparr>)"
    and "parse_message junk (delete_request u (join_path xs)) =
      Inr (junk\<lparr>username := u, pathname := join_path xs, command_type := FS_DELETE\<rparr>)"
proof -
  have uw: "word_ok u" "u \<noteq> []" "length u \<le> FS_MAXUSERNAME" using u by (auto simp: user_ok_def word_ok_def)
  note pv = path_names_valid [OF p]
  have pn: "join_path xs \<noteq> []" using pv(2) by (simp add: word_ok_def)
  note toks = next_token_word [OF uw(1)] next_token_word [OF pv(2)]
  show "parse_message junk (read_request u (join_path xs) b) =
      Inr (junk\<lparr>username := u, pathname := join_path xs, command_type := FS_READBLOCK, block := b\<rparr>)"
    if "b < FS_MAXFILEBLOCKS"
    using uw pv pn that unfolding read_request_def parse_message_def
    by (simp add: next_token_commands toks Let_def parse_command_def parse_block_decimal)
  show "parse_message junk (write_request u (join_path xs) b) =
      Inr (junk\<lparr>username := u, pathname := join_path xs, command_type := FS_WRITEBLOCK, block := b\<rparr>)"
    if "b < FS_MAXFILEBLOCKS"
    using uw pv pn that unfolding write_request_def parse_message_def
    by (simp add: next_token_commands toks Let_def parse_command_def parse_block_decimal)
  show "parse_message junk (create_request u (join_path xs) t) =
      Inr (junk\<lparr>username := u, pathname := join_path xs, command_type := FS_CREATE, ctype := t\<rparr>)"
    if "t \<in> {CHR ''f'', CHR ''d''}"
    using uw pv pn that unfolding create_request_def parse_message_def
    by (simp add: next_token_commands toks Let_def parse_command_def parse_type_char)
  show "parse_message junk (delete_request u (join_path xs)) =
      Inr (junk\<lparr>username := u, pathname := join_path xs, command_type := FS_DELETE\<rparr>)"
    using uw pv pn unfolding delete_request_def parse_message_def
    by (simp add: next_token_commands toks Let_def parse_command_def)
qed

end
