(* ===== verification/Net_Server.thy ===== *)
theory Net_Server
  imports FS_Init Net_Parse
begin

text \<open>
  Receiving a request, answering it and dispatching it to the file system
  (\<^verbatim>\<open>src/filesys/network_server.cpp\<close> 76-122, 138-187, 320-419).  The socket calls belong to the
  operating system and are the fields of \<open>sock_env\<close>; the locale \<open>stream_socket\<close> states what the
  code relies on.  A send loop that never makes progress has the value \<open>None\<close>.
\<close>

subsection \<open>The socket\<close>

text \<open>
  \<open>env_recv k n\<close> is \<^verbatim>\<open>recv\<close> of at most \<open>n\<close> bytes: \<open>None\<close> for the result \<open>-1\<close>, \<open>Some []\<close> for the
  result 0.  \<open>env_send k bs\<close> is \<^verbatim>\<open>send\<close> of the bytes \<open>bs\<close>: the number of bytes taken, or \<open>None\<close>.
\<close>

record 'k sock_env =
  env_recv :: "'k \<Rightarrow> nat \<Rightarrow> char list option \<times> 'k"
  env_send :: "'k \<Rightarrow> char list \<Rightarrow> nat option \<times> 'k"

definition MAX_MESSAGE_SIZE :: nat where
  "MAX_MESSAGE_SIZE = FS_MAXUSERNAME + FS_MAXPATHNAME + 20"

function receive_loop :: "'k sock_env \<Rightarrow> 'k \<Rightarrow> string \<Rightarrow> string option \<times> 'k" where
  "receive_loop N k request_str =
     (case env_recv N k 1 of
        (None, k') \<Rightarrow> (None, k')
      | (Some [], k') \<Rightarrow> (None, k')
      | (Some (c # _), k') \<Rightarrow>
          if c = NUL then (Some request_str, k')
          else if MAX_MESSAGE_SIZE < length (request_str @ [c]) then (None, k')
          else receive_loop N k' (request_str @ [c]))"
  by pat_completeness auto

termination
  by (relation "measure (\<lambda>(N, k, r). MAX_MESSAGE_SIZE - length r)") auto

declare receive_loop.simps [simp del]

definition receive_message :: "'k sock_env \<Rightarrow> 'k \<Rightarrow> string option \<times> 'k" where
  "receive_message N k = receive_loop N k []"

text \<open>Both send loops of the code: \<^verbatim>\<open>msg\<close> from offset \<open>sent\<close> up to \<open>message_len\<close>.\<close>

partial_function (option) send_loop ::
  "'k sock_env \<Rightarrow> char list \<Rightarrow> nat \<Rightarrow> nat \<Rightarrow> 'k \<Rightarrow> (bool \<times> 'k) option" where
  "send_loop N msg message_len sent k =
     (case env_send N k (take (message_len - sent) (drop sent msg)) of
        (None, k') \<Rightarrow> Some (False, k')
      | (Some n, k') \<Rightarrow>
          if sent + n < message_len then send_loop N msg message_len (sent + n) k' else Some (True, k'))"

definition send_message :: "'k sock_env \<Rightarrow> 'k \<Rightarrow> string \<Rightarrow> (bool \<times> 'k) option" where
  "send_message N k response_str = send_loop N (c_str response_str) (length response_str + 1) 0 k"

definition send_data :: "'k sock_env \<Rightarrow> 'k \<Rightarrow> char list \<Rightarrow> (bool \<times> 'k) option" where
  "send_data N k block_data =
     (if 0 < FS_BLOCKSIZE then send_loop N block_data FS_BLOCKSIZE 0 k else Some (True, k))"

text \<open>The loop of \<^verbatim>\<open>handle_write\<close> that reads the block after the request.\<close>

function receive_data :: "'k sock_env \<Rightarrow> 'k \<Rightarrow> char list \<Rightarrow> char list option \<times> 'k" where
  "receive_data N k received =
     (if length received < FS_BLOCKSIZE then
        (case env_recv N k (FS_BLOCKSIZE - length received) of
           (None, k') \<Rightarrow> (None, k')
         | (Some [], k') \<Rightarrow> (None, k')
         | (Some (c # cs), k') \<Rightarrow> receive_data N k' (received @ c # cs))
      else (Some received, k))"
  by pat_completeness auto

termination
  by (relation "measure (\<lambda>(N, k, r). FS_BLOCKSIZE - length r)") auto

declare receive_data.simps [simp del]

subsection \<open>The request handlers\<close>

text \<open>
  \<open>caught\<close> is the effect of \<^verbatim>\<open>catch (...) { return -1; }\<close>: an exception becomes the result \<open>-1\<close>; a
  failed assertion, undefined behaviour and a blocked thread are not exceptions.
\<close>

type_synonym ('d, 'm, 'k) server = "('d, 'm) FileSystem \<times> 'k"
type_synonym ('d, 'm, 'k) outcome = "((stop + int) \<times> ('d, 'm, 'k) server) option"

definition caught :: "stop \<Rightarrow> stop + int" where
  "caught e = (case e of Runtime_error _ \<Rightarrow> Inr (- 1) | _ \<Rightarrow> Inl e)"

definition answer ::
  "'k sock_env \<Rightarrow> string \<Rightarrow> (stop + 'a) \<times> ('d, 'm) FileSystem \<Rightarrow> 'k \<Rightarrow>
     ('a \<Rightarrow> 'k \<Rightarrow> (bool \<times> 'k) option) \<Rightarrow> ('d, 'm, 'k) outcome" where
  "answer N request_str r k finish =
     (case r of
        (Inl e, fs) \<Rightarrow> Some (caught e, fs, k)
      | (Inr x, fs) \<Rightarrow>
          (case send_message N k request_str of
             None \<Rightarrow> None
           | Some (False, k') \<Rightarrow> Some (Inr (- 1), fs, k')
           | Some (True, k') \<Rightarrow>
               (case finish x k' of
                  None \<Rightarrow> None
                | Some (ok, k'') \<Rightarrow> Some (Inr (if ok then 0 else - 1), fs, k''))))"

definition net_handle_read ::
  "('d, 'm) fs_env \<Rightarrow> 'k sock_env \<Rightarrow> Command \<Rightarrow> string \<Rightarrow> ('d, 'm, 'k) server \<Rightarrow> ('d, 'm, 'k) outcome" where
  "net_handle_read E N junk request_str = (\<lambda>(fs, k).
     case parse_message junk request_str of
       Inl e \<Rightarrow> Some (caught e, fs, k)
     | Inr command \<Rightarrow> answer N request_str (handle_read E command fs) k (\<lambda>block_data k'. send_data N k' block_data))"

definition net_handle_write ::
  "('d, 'm) fs_env \<Rightarrow> 'k sock_env \<Rightarrow> Command \<Rightarrow> string \<Rightarrow> ('d, 'm, 'k) server \<Rightarrow> ('d, 'm, 'k) outcome" where
  "net_handle_write E N junk request_str = (\<lambda>(fs, k).
     case parse_message junk request_str of
       Inl e \<Rightarrow> Some (caught e, fs, k)
     | Inr command \<Rightarrow>
         (case receive_data N k [] of
            (None, k') \<Rightarrow> Some (Inr (- 1), fs, k')
          | (Some received, k') \<Rightarrow>
              answer N request_str (handle_write E (command\<lparr>data := received\<rparr>) fs) k' (\<lambda>_ k''. Some (True, k''))))"

definition net_handle_create ::
  "('d, 'm) fs_env \<Rightarrow> 'k sock_env \<Rightarrow> Command \<Rightarrow> fs_inode \<Rightarrow> string \<Rightarrow> ('d, 'm, 'k) server \<Rightarrow> ('d, 'm, 'k) outcome" where
  "net_handle_create E N junk junk_inode request_str = (\<lambda>(fs, k).
     case parse_message junk request_str of
       Inl e \<Rightarrow> Some (caught e, fs, k)
     | Inr command \<Rightarrow>
         answer N request_str (handle_create E junk_inode command fs) k (\<lambda>_ k'. Some (True, k')))"

definition net_handle_delete ::
  "('d, 'm) fs_env \<Rightarrow> 'k sock_env \<Rightarrow> Command \<Rightarrow> string \<Rightarrow> ('d, 'm, 'k) server \<Rightarrow> ('d, 'm, 'k) outcome" where
  "net_handle_delete E N junk request_str = (\<lambda>(fs, k).
     case parse_message junk request_str of
       Inl e \<Rightarrow> Some (caught e, fs, k)
     | Inr command \<Rightarrow> answer N request_str (handle_delete E command fs) k (\<lambda>_ k'. Some (True, k')))"

text \<open>The result is 0 or -1; the destructor of \<^verbatim>\<open>SocketRAII\<close> then closes the connection.\<close>

definition handle_request ::
  "('d, 'm) fs_env \<Rightarrow> 'k sock_env \<Rightarrow> Command \<Rightarrow> fs_inode \<Rightarrow> ('d, 'm, 'k) server \<Rightarrow> ('d, 'm, 'k) outcome" where
  "handle_request E N junk junk_inode = (\<lambda>(fs, k).
     case receive_message N k of
       (None, k') \<Rightarrow> Some (Inr (- 1), fs, k')
     | (Some request_str, k') \<Rightarrow>
         (case parse_command (fst (next_token request_str)) of
            FS_READBLOCK \<Rightarrow> net_handle_read E N junk request_str (fs, k')
          | FS_WRITEBLOCK \<Rightarrow> net_handle_write E N junk request_str (fs, k')
          | FS_CREATE \<Rightarrow> net_handle_create E N junk junk_inode request_str (fs, k')
          | FS_DELETE \<Rightarrow> net_handle_delete E N junk request_str (fs, k')
          | INVALID \<Rightarrow> Some (Inr (- 1), fs, k')))"

subsection \<open>The contract of the socket\<close>

text \<open>
  \<open>pending k\<close> are the bytes of the client not yet received, \<open>sent k\<close> the bytes already sent to it.
\<close>

locale stream_socket =
  fixes N :: "'k sock_env" and pending :: "'k \<Rightarrow> char list" and sent :: "'k \<Rightarrow> char list"
  assumes recv_some: "env_recv N k n = (Some bs, k') \<Longrightarrow>
      length bs \<le> n \<and> pending k = bs @ pending k' \<and> sent k' = sent k"
    and recv_none: "env_recv N k n = (None, k') \<Longrightarrow> sent k' = sent k"
    and send_some: "env_send N k bs = (Some n, k') \<Longrightarrow> bs \<noteq> [] \<Longrightarrow>
      0 < n \<and> n \<le> length bs \<and> sent k' = sent k @ take n bs \<and> pending k' = pending k"
    and send_none: "env_send N k bs = (None, k') \<Longrightarrow> sent k' = sent k \<and> pending k' = pending k"
begin

lemma receive_loop_Some:
  assumes "receive_loop N k r = (Some req, k')" and "NUL \<notin> set r" "length r \<le> MAX_MESSAGE_SIZE"
  shows "\<exists>new. req = r @ new \<and> NUL \<notin> set req \<and> length req \<le> MAX_MESSAGE_SIZE \<and>
    pending k = new @ NUL # pending k' \<and> sent k' = sent k"
  using assms
proof (induction "MAX_MESSAGE_SIZE - length r" arbitrary: k r rule: less_induct)
  case less
  obtain c cs k1 where rv: "env_recv N k 1 = (Some (c # cs), k1)"
    using less.prems(1) by (simp add: receive_loop.simps [of N k r] split: prod.splits option.splits list.splits)
  note p = recv_some [OF rv]
  then have cs: "cs = []" by simp
  show ?case
  proof (cases "c = NUL")
    case True
    then show ?thesis using less.prems rv p cs by (simp add: receive_loop.simps [of N k r])
  next
    case False
    then have sz: "length (r @ [c]) \<le> MAX_MESSAGE_SIZE" and loop: "receive_loop N k1 (r @ [c]) = (Some req, k')"
      using less.prems rv by (simp_all add: receive_loop.simps [of N k r] split: if_splits)
    have "MAX_MESSAGE_SIZE - length (r @ [c]) < MAX_MESSAGE_SIZE - length r" using sz by simp
    from less.hyps [OF this loop _ sz] obtain new where new: "req = (r @ [c]) @ new" "NUL \<notin> set req"
      "length req \<le> MAX_MESSAGE_SIZE" "pending k1 = new @ NUL # pending k'" "sent k' = sent k1"
      using less.prems(2) False by auto
    then show ?thesis using p cs by (intro exI [of _ "c # new"]) simp
  qed
qed

lemma receive_message_Some:
  assumes "receive_message N k = (Some req, k')"
  shows "NUL \<notin> set req" "length req \<le> MAX_MESSAGE_SIZE" "pending k = req @ NUL # pending k'" "sent k' = sent k"
  using receive_loop_Some [OF assms [unfolded receive_message_def]] by auto

lemma receive_loop_None: "receive_loop N k r = (None, k') \<Longrightarrow> sent k' = sent k"
proof (induction "MAX_MESSAGE_SIZE - length r" arbitrary: k r rule: less_induct)
  case less
  show ?case
  proof (cases "env_recv N k 1")
    case (Pair o1 k1)
    then have same: "sent k1 = sent k" using recv_none [of k 1 k1] recv_some [of k 1 _ k1] by (cases o1) auto
    show ?thesis
    proof (cases "\<exists>c cs. o1 = Some (c # cs) \<and> c \<noteq> NUL \<and> length (r @ [c]) \<le> MAX_MESSAGE_SIZE")
      case True
      then obtain c cs where c: "o1 = Some (c # cs)" "c \<noteq> NUL" "length (r @ [c]) \<le> MAX_MESSAGE_SIZE" by blast
      have loop: "receive_loop N k1 (r @ [c]) = (None, k')"
        using less.prems Pair c by (simp add: receive_loop.simps [of N k r])
      have "MAX_MESSAGE_SIZE - length (r @ [c]) < MAX_MESSAGE_SIZE - length r" using c(3) by simp
      then show ?thesis using less.hyps [OF _ loop] same by simp
    next
      case False
      then show ?thesis using less.prems Pair same
        by (auto simp: receive_loop.simps [of N k r] split: option.splits list.splits if_splits)
    qed
  qed
qed

lemma receive_data_props:
  assumes "receive_data N k r = (x, k')" and "length r \<le> FS_BLOCKSIZE"
  shows "sent k' = sent k"
    and "x = Some dat \<Longrightarrow> \<exists>new. dat = r @ new \<and> length dat = FS_BLOCKSIZE \<and> pending k = new @ pending k'"
  using assms
proof (induction "FS_BLOCKSIZE - length r" arbitrary: k r rule: less_induct)
  case less
  {
    case 1
    show ?case
    proof (cases "length r < FS_BLOCKSIZE")
      case True
      obtain y k1 where rv: "env_recv N k (FS_BLOCKSIZE - length r) = (y, k1)" by fastforce
      have same: "sent k1 = sent k" using rv recv_none recv_some by (cases y) metis+
      show ?thesis
      proof (cases "\<exists>c cs. y = Some (c # cs)")
        case True': True
        then obtain c cs where y: "y = Some (c # cs)" by blast
        have le: "length (r @ c # cs) \<le> FS_BLOCKSIZE" using recv_some [OF rv [unfolded y]] True by auto
        have loop: "receive_data N k1 (r @ c # cs) = (x, k')"
          using 1(1) True rv y by (simp add: receive_data.simps [of N k r])
        have "FS_BLOCKSIZE - length (r @ c # cs) < FS_BLOCKSIZE - length r" using le True by simp
        then show ?thesis using less.hyps(1) [OF _ loop le] same by simp
      next
        case False
        then show ?thesis using 1(1) True rv same
          by (auto simp: receive_data.simps [of N k r] split: option.splits list.splits)
      qed
    next
      case False
      then show ?thesis using 1(1) by (simp add: receive_data.simps [of N k r])
    qed
  next
    case 2
    show ?case
    proof (cases "length r < FS_BLOCKSIZE")
      case True
      then obtain c cs k1 where rv: "env_recv N k (FS_BLOCKSIZE - length r) = (Some (c # cs), k1)"
        and loop: "receive_data N k1 (r @ c # cs) = (x, k')"
        using 2(1,2) by (auto simp: receive_data.simps [of N k r] split: prod.splits option.splits list.splits)
      have le: "length (r @ c # cs) \<le> FS_BLOCKSIZE" using recv_some [OF rv] True by auto
      have "FS_BLOCKSIZE - length (r @ c # cs) < FS_BLOCKSIZE - length r" using le True by simp
      then obtain new where "dat = (r @ c # cs) @ new" "length dat = FS_BLOCKSIZE" "pending k1 = new @ pending k'"
        using less.hyps(2) [OF _ 2(1) loop le] by blast
      then show ?thesis using recv_some [OF rv] by (intro exI [of _ "(c # cs) @ new"]) simp
    next
      case False
      then show ?thesis using 2 by (simp add: receive_data.simps [of N k r])
    qed
  }
qed

text \<open>A send loop returns, and when it reports success the whole buffer has been sent.\<close>

lemma send_loop_returns:
  assumes "s < len" "len \<le> length msg"
  shows "\<exists>ok k'. send_loop N msg len s k = Some (ok, k') \<and>
    (ok \<longrightarrow> sent k' = sent k @ drop s (take len msg)) \<and> pending k' = pending k"
  using assms(1)
proof (induction "len - s" arbitrary: s k rule: less_induct)
  case less
  let ?bs = "take (len - s) (drop s msg)"
  have ne: "?bs \<noteq> []" and lb: "length ?bs = len - s" and bs: "?bs = drop s (take len msg)"
    using less.prems assms(2) by (auto simp: drop_take)
  obtain y k1 where sd: "env_send N k ?bs = (y, k1)" by fastforce
  show ?case
  proof (cases y)
    case None
    then show ?thesis using sd send_none [OF sd [unfolded None]]
      by (intro exI [of _ False] exI [of _ k1]) (simp add: send_loop.simps [of N msg len s])
  next
    case (Some n)
    note p = send_some [OF sd [unfolded Some] ne]
    show ?thesis
    proof (cases "s + n < len")
      case True
      have "len - (s + n) < len - s" using True p by linarith
      from less.hyps [OF this True, of k1] obtain ok k' where
        r: "send_loop N msg len (s + n) k1 = Some (ok, k')"
          "ok \<longrightarrow> sent k' = sent k1 @ drop (s + n) (take len msg)" "pending k' = pending k1" by blast
      have "take n ?bs @ drop (s + n) (take len msg) = ?bs"
        unfolding bs by (metis append_take_drop_id drop_drop add.commute)
      then show ?thesis using r p Some sd True
        by (intro exI [of _ ok] exI [of _ k']) (simp add: send_loop.simps [of N msg len s] bs)
    next
      case False
      then have "take n ?bs = ?bs" using lb by simp
      then show ?thesis using p Some sd False bs
        by (intro exI [of _ True] exI [of _ k1]) (simp add: send_loop.simps [of N msg len s])
    qed
  qed
qed

lemma send_message_returns:
  "\<exists>ok k'. send_message N k resp = Some (ok, k') \<and>
    (ok \<longrightarrow> sent k' = sent k @ resp @ [NUL]) \<and> pending k' = pending k"
  using send_loop_returns [of 0 "length resp + 1" "c_str resp" k]
  by (simp add: send_message_def c_str_def)

lemma send_data_returns:
  "length dat = FS_BLOCKSIZE \<Longrightarrow> \<exists>ok k'. send_data N k dat = Some (ok, k') \<and>
    (ok \<longrightarrow> sent k' = sent k @ dat) \<and> pending k' = pending k"
  using send_loop_returns [of 0 FS_BLOCKSIZE dat k] by (simp add: send_data_def FS_BLOCKSIZE_def)

end

subsection \<open>A parsed request fails only by an exception\<close>

lemma stoul_Inl: "stoul s = Inl e \<Longrightarrow> \<exists>msg. e = Runtime_error msg"
  by (auto simp: stoul_def Let_def split: if_splits)

lemma parse_message_Inl:
  assumes p: "parse_message junk req = Inl e" and c: "fst (next_token req) \<noteq> []"
  shows "\<exists>msg. e = Runtime_error msg"
proof -
  obtain cs i1 u i2 pa i3 where toks: "next_token req = (cs, i1)" "next_token i1 = (u, i2)" "next_token i2 = (pa, i3)"
    by (metis prod.exhaust)
  have bl: "\<exists>msg. e = Runtime_error msg" if "parse_block c' i = Inl e" for c' i e
    using that stoul_Inl
    by (auto simp: parse_block_def bindr_def Let_def split: prod.splits if_splits sum.splits)
  have ty: "\<exists>msg. e = Runtime_error msg" if "parse_type c' i = Inl e" for c' i e
    using that by (auto simp: parse_type_def Let_def split: option.splits if_splits prod.splits)
  have val: "pa \<noteq> [] \<Longrightarrow> is_valid_pathname pa \<noteq> Inl e'" for e'
    by (simp add: is_valid_pathname_def)
  show ?thesis using p c val bl ty
    by (auto simp: parse_message_def toks Let_def bindr_def split: if_splits sum.splits prod.splits)
qed

lemma caught_error [simp]: "caught (Runtime_error msg) = Inr (- 1)"
  by (simp add: caught_def)

lemma parse_command_type:
  "parse_message junk req = Inr c \<Longrightarrow> command_type c = parse_command (fst (next_token req))"
proof -
  assume p: "parse_message junk req = Inr c"
  obtain cs i1 u i2 pa i3 where toks: "next_token req = (cs, i1)" "next_token i1 = (u, i2)" "next_token i2 = (pa, i3)"
    by (metis prod.exhaust)
  show "command_type c = parse_command (fst (next_token req))"
    using p by (auto simp: parse_message_def toks Let_def bindr_eq_Inr
        split: if_splits dest!: parse_block_Inr parse_type_Inr)
qed

lemma parse_command_nonempty: "parse_command s \<noteq> INVALID \<Longrightarrow> s \<noteq> []"
  by (auto simp: parse_command_def)

subsection \<open>One request on a quiescent server\<close>

locale file_server = fs_device E + stream_socket N pending sent
  for E :: "('d, 'm) fs_env" and N :: "'k sock_env" and pending sent
begin

text \<open>The reply: nothing on failure, the request and the data on success.\<close>

lemma answer_error: "answer N req (Inl (Runtime_error msg), fs) k finish = Some (Inr (- 1), fs, k)"
  by (simp add: answer_def)

lemma answer_ok:
  assumes "\<And>k1. \<exists>ok k2. finish x k1 = Some (ok, k2) \<and> (ok \<longrightarrow> sent k2 = sent k1 @ extra)"
  shows "\<exists>r k'. answer N req (Inr x, fs) k finish = Some (Inr r, fs, k') \<and> r \<in> {0, - 1} \<and>
    (r = 0 \<longrightarrow> sent k' = sent k @ req @ [NUL] @ extra)"
proof -
  obtain ok k1 where s: "send_message N k req = Some (ok, k1)" "ok \<longrightarrow> sent k1 = sent k @ req @ [NUL]"
    using send_message_returns by blast
  obtain ok' k2 where f: "finish x k1 = Some (ok', k2)" "ok' \<longrightarrow> sent k2 = sent k1 @ extra"
    using assms by blast
  show ?thesis
  proof (cases ok)
    case True
    then show ?thesis using s f
      by (intro exI [of _ "if ok' then 0 else - 1"] exI [of _ k2]) (simp add: answer_def)
  next
    case False
    then show ?thesis using s by (intro exI [of _ "- 1"] exI [of _ k1]) (simp add: answer_def)
  qed
qed

text \<open>What \<open>implements\<close> means for the reply of a request without data.\<close>

lemma answer_implements:
  assumes q: "quiescent E fs I" and imp: "implements E fs I r R"
  shows "\<exists>x fs' k' I'. answer N req r k (\<lambda>_ k1. Some (True, k1)) = Some (Inr x, fs', k') \<and> x \<in> {0, - 1} \<and>
    quiescent E fs' I' \<and> accounted E fs' I' = accounted E fs I \<and> (R = None \<longrightarrow> x = - 1) \<and>
    (\<forall>A. R = Some A \<longrightarrow> abs_fs E (disk fs') = A) \<and> (R = None \<longrightarrow> fs' = fs \<and> k' = k) \<and>
    (x = 0 \<longrightarrow> sent k' = sent k @ req @ [NUL])"
proof (cases R)
  case None
  then obtain msg where "r = (Inl (Runtime_error msg), fs)" using imp by (auto simp: implements_def)
  then show ?thesis using q None answer_error by (intro exI [of _ "- 1"] exI [of _ fs] exI [of _ k] exI [of _ I]) simp
next
  case (Some A)
  then obtain fs' I' where r: "r = (Inr (), fs')" "abs_fs E (disk fs') = A" "quiescent E fs' I'"
    "accounted E fs' I' = accounted E fs I" using imp by (auto simp: implements_def)
  obtain x k' where a: "answer N req (Inr (), fs') k (\<lambda>_ k1. Some (True, k1)) = Some (Inr x, fs', k')"
    "x \<in> {0, - 1}" "x = 0 \<longrightarrow> sent k' = sent k @ req @ [NUL] @ []"
    using answer_ok [of "\<lambda>_ k1. Some (True, k1)" "()" "[]" req fs' k] by auto
  then show ?thesis using r Some by (intro exI [of _ x] exI [of _ fs'] exI [of _ k'] exI [of _ I']) simp
qed

end

end
