(* ===== verification/Net_Refine.thy ===== *)
theory Net_Refine
  imports Net_Server
begin

text \<open>
  The server as its clients see it.  On a quiescent file system every byte stream is answered
  without a failed assertion, undefined behaviour or a lock left behind; and a client that
  sends a well-formed request over a working connection gets the reply that the abstract file
  system prescribes.
\<close>

text \<open>The request was answered with 0 or -1, the file system is quiescent again, and no block is lost.\<close>

definition served ::
  "('d, 'm) fs_env \<Rightarrow> ('d, 'm) FileSystem \<Rightarrow> nat set \<Rightarrow> ('d, 'm, 'k) outcome \<Rightarrow> bool" where
  "served E fs I out \<longleftrightarrow> (\<exists>x fs' k' I'. out = Some (Inr x, fs', k') \<and> x \<in> {0, - 1} \<and>
     quiescent E fs' I' \<and> accounted E fs' I' = accounted E fs I)"

context fs_device
begin

lemma spec_read_length:
  assumes wf: "fs_wf E d I" and "spec_read (abs_fs E d) u p k = Some dat"
  shows "length dat = FS_BLOCKSIZE"
proof -
  obtain bs where "abs_fs E d p = Some (AFile u bs)" and k: "k < length bs" "dat = bs ! k"
    using assms(2) by (auto simp: spec_read_def split: option.splits fs_object.splits if_splits)
  then obtain n where n: "walk E d 0 p = Some n" "bs = map (blk E d) (inode_blocks E d n)"
    by (auto simp: abs_fs_def obj_at_AFile)
  have "inode_blocks E d n ! k \<in> set (inode_blocks E d n)" using k n by simp
  then have "inode_blocks E d n ! k < FS_DISKSIZE" by (rule fs_wf_block_less [OF wf walk_root_in [OF wf n(1)]])
  then show ?thesis using k n by simp
qed

end

context file_server
begin

lemma answer_read:
  assumes q: "quiescent E fs I" and p: "path_ok (pathname c) p"
    and R: "R = spec_read (abs_fs E (disk fs)) (username c) p (block c)"
  shows "\<exists>x k'. answer N req (handle_read E c fs) k (\<lambda>dat k1. send_data N k1 dat) = Some (Inr x, fs, k') \<and>
    x \<in> {0, - 1} \<and> (R = None \<longrightarrow> x = - 1 \<and> k' = k) \<and>
    (\<forall>dat. R = Some dat \<longrightarrow> x = 0 \<longrightarrow> sent k' = sent k @ req @ [NUL] @ dat)"
proof -
  have wf: "fs_wf E (disk fs) I" and tab: "lock_map fs = Map.empty" using q by (simp_all add: quiescent_def)
  obtain msg where h: "handle_read E c fs =
      (case R of Some dat \<Rightarrow> (Inr dat, fs) | None \<Rightarrow> (Inl (Runtime_error msg), fs))"
    using handle_read_refines [OF wf p tab] R by blast
  show ?thesis
  proof (cases R)
    case None
    then show ?thesis using h answer_error by (intro exI [of _ "- 1"] exI [of _ k]) simp
  next
    case (Some dat)
    have len: "length dat = FS_BLOCKSIZE" using spec_read_length [OF wf] Some R by metis
    obtain x k' where "answer N req (Inr dat, fs) k (\<lambda>dat k1. send_data N k1 dat) = Some (Inr x, fs, k')"
      "x \<in> {0, - 1}" "x = 0 \<longrightarrow> sent k' = sent k @ req @ [NUL] @ dat"
      using answer_ok [of "\<lambda>dat k1. send_data N k1 dat" dat dat req fs k] send_data_returns [OF len] by blast
    then show ?thesis using h Some by (intro exI [of _ x] exI [of _ k']) simp
  qed
qed

lemma served_same:
  fixes k :: 'k
  shows "quiescent E fs I \<Longrightarrow> x \<in> {0, - 1} \<Longrightarrow> served E fs I (Some (Inr x, fs, k))"
  by (auto simp: served_def)

lemma answer_served:
  assumes "quiescent E fs I" and "implements E fs I r R"
  shows "served E fs I (answer N req r k (\<lambda>_ k1. Some (True, k1)))"
  using answer_implements [OF assms, of req k] unfolding served_def by blast

lemma parsed_path:
  assumes "command_ok c"
  obtains p where "path_ok (pathname c) p"
  using assms by (auto simp: command_ok_def)

lemma net_handlers_served:
  assumes q: "quiescent E fs I" and nul: "NUL \<notin> set req" and cmd: "parse_command (fst (next_token req)) = ty" "ty \<noteq> INVALID"
  shows "served E fs I (net_handle_read E N junk req (fs, k))" "served E fs I (net_handle_write E N junk req (fs, k))"
    "served E fs I (net_handle_delete E N junk req (fs, k))"
proof -
  have tok: "fst (next_token req) \<noteq> []" using cmd parse_command_nonempty by blast
  have fail: "served E fs I (Some (caught e, fs, k))" if "parse_message junk req = Inl e" for e
    using parse_message_Inl [OF that tok] served_same [OF q] by auto
  have ok: "command_ok c \<and> command_type c = ty" if "parse_message junk req = Inr c" for c
    using parse_message_ok [OF that nul] parse_command_type [OF that] cmd(1) by simp
  show "served E fs I (net_handle_read E N junk req (fs, k))"
  proof (cases "parse_message junk req")
    case (Inr c)
    then obtain p where p: "path_ok (pathname c) p" using ok parsed_path by blast
    then show ?thesis using answer_read [OF q p refl, of req k] Inr served_same [OF q]
      by (auto simp: net_handle_read_def)
  qed (use fail in \<open>simp add: net_handle_read_def\<close>)
  show "served E fs I (net_handle_delete E N junk req (fs, k))"
  proof (cases "parse_message junk req")
    case (Inr c)
    then obtain p where p: "path_ok (pathname c) p" using ok parsed_path by blast
    then show ?thesis using answer_served [OF q handle_delete_refines [OF q p]] Inr
      by (simp add: net_handle_delete_def)
  qed (use fail in \<open>simp add: net_handle_delete_def\<close>)
  show "served E fs I (net_handle_write E N junk req (fs, k))"
  proof (cases "parse_message junk req")
    case (Inr c)
    then obtain p where p: "path_ok (pathname c) p" using ok parsed_path by blast
    obtain y k' where rd: "receive_data N k [] = (y, k')" by fastforce
    show ?thesis
    proof (cases y)
      case None
      then show ?thesis using Inr rd served_same [OF q] by (simp add: net_handle_write_def)
    next
      case (Some dat)
      have "length dat = FS_BLOCKSIZE" using receive_data_props(2) [OF rd _ Some] by (simp add: FS_BLOCKSIZE_def)
      then have "implements E fs I (handle_write E (c\<lparr>data := dat\<rparr>) fs)
          (spec_write (free_block_list fs \<noteq> []) (abs_fs E (disk fs)) (username c) p (block c) dat)"
        using handle_write_refines [OF q, of "c\<lparr>data := dat\<rparr>" p] p by simp
      then show ?thesis using answer_served [OF q] Inr rd Some by (simp add: net_handle_write_def)
    qed
  qed (use fail in \<open>simp add: net_handle_write_def\<close>)
qed

text \<open>A parsed create request is one that the file system accepts.\<close>

lemma net_create_cases:
  assumes nul: "NUL \<notin> set req" and cmd: "parse_command (fst (next_token req)) = FS_CREATE" and ji: "inode_fits ji"
  obtains (error) "net_handle_create E N junk ji req (fs, k) = Some (Inr (- 1), fs, k)"
    | (create) c p where "path_ok (pathname c) p" "create_ok c ji"
      "net_handle_create E N junk ji req (fs, k) = answer N req (handle_create E ji c fs) k (\<lambda>_ k'. Some (True, k'))"
proof (cases "parse_message junk req")
  case (Inl e)
  have "fst (next_token req) \<noteq> []" using cmd parse_command_nonempty by force
  from parse_message_Inl [OF Inl this] show ?thesis using error Inl by (auto simp: net_handle_create_def)
next
  case (Inr c)
  have ok: "command_ok c" "command_type c = FS_CREATE"
    using parse_message_ok [OF Inr nul] parse_command_type [OF Inr] cmd by simp_all
  then obtain p where p: "path_ok (pathname c) p" using parsed_path by blast
  have "create_ok c ji" using ok ji by (simp add: command_ok_def create_ok_def)
  then show ?thesis using create p Inr by (simp add: net_handle_create_def)
qed

lemma net_create_served:
  assumes q: "quiescent E fs I" and nul: "NUL \<notin> set req" and cmd: "parse_command (fst (next_token req)) = FS_CREATE"
    and ji: "inode_fits ji" and room: "\<And>n. n \<in> I \<Longrightarrow> is_dir E (disk fs) n \<Longrightarrow> create_room E fs n"
  shows "served E fs I (net_handle_create E N junk ji req (fs, k))"
  using nul cmd ji
proof (cases rule: net_create_cases [where junk = junk and fs = fs and k = k])
  case error
  then show ?thesis using served_same [OF q] by simp
next
  case (create c p)
  have wf: "fs_wf E (disk fs) I" using q by (simp add: quiescent_def)
  have rm: "create_room E fs n" if "walk E (disk fs) 0 (butlast p) = Some n" "is_dir E (disk fs) n" for n
    by (rule room [OF walk_root_in [OF wf that(1)] that(2)])
  show ?thesis using answer_served [OF q handle_create_refines [OF q create(1,2) rm]] create(3) by simp
qed

lemma handle_request_served:
  assumes q: "quiescent E fs I" and ji: "inode_fits ji"
    and room: "\<And>n. n \<in> I \<Longrightarrow> is_dir E (disk fs) n \<Longrightarrow> create_room E fs n"
  shows "served E fs I (handle_request E N junk ji (fs, k))"
proof -
  obtain y k' where rm: "receive_message N k = (y, k')" by fastforce
  show ?thesis
  proof (cases y)
    case None
    then show ?thesis using rm served_same [OF q] by (simp add: handle_request_def)
  next
    case (Some req)
    have nul: "NUL \<notin> set req" using receive_message_Some(1) rm Some by blast
    note h = net_handlers_served [OF q nul refl, of junk k'] net_create_served [OF q nul _ ji room, of junk k']
    show ?thesis
      by (cases "parse_command (fst (next_token req))")
        (use rm Some h served_same [OF q] in \<open>simp_all add: handle_request_def\<close>)
  qed
qed

end

subsection \<open>A request on a server with a free block\<close>

context fs_device
begin

text \<open>A create that the abstract file system refuses throws and changes nothing, with or without room.\<close>

lemma handle_create_refused:
  assumes q: "quiescent E s I" and p: "path_ok (pathname c) p"
    and none: "spec_create True (abs_fs E (disk s)) (username c) p (ctype c) = None"
  shows "\<exists>msg. handle_create E junk c s = (Inl (Runtime_error msg), s)"
proof -
  have wf: "fs_wf E (disk s) I" and tab: "lock_map s = Map.empty" using q by (simp_all add: quiescent_def)
  obtain xs x where px: "p = xs @ [x]" using p by (cases p rule: rev_cases) (auto simp: path_ok_def)
  show ?thesis
  proof (cases "dir_path (abs_fs E (disk s)) (username c) xs")
    case dp: True
    then obtain n where n: "walk E (disk s) 0 xs = Some n" "is_dir E (disk s) n" using dir_path_dir [OF wf] by blast
    have "x \<in> fst ` set (dir_entries E (disk s) n)"
      using none dp abs_fs_in_dir [OF n] by (auto simp: spec_create_def px split: if_splits)
    from handle_create_run(1) [OF wf p [unfolded px] tab dp n(1) refl refl this] show ?thesis by blast
  qed (use handle_create_no_dir [OF wf p [unfolded px] tab] in blast)
qed

text \<open>With a free block a create throws or succeeds without a lock left behind; at worst a block is lost.\<close>

lemma handle_create_survives:
  assumes q: "quiescent E s I" and p: "path_ok (pathname c) p" and c: "create_ok c junk" and fl: "free_block_list s \<noteq> []"
  shows "\<exists>r s' I'. handle_create E junk c s = (r, s') \<and> quiescent E s' I' \<and> (r = Inr () \<or> (\<exists>msg. r = Inl (Runtime_error msg)))
    \<and> (disk s' = disk s \<or> spec_create True (abs_fs E (disk s)) (username c) p (ctype c) = Some (abs_fs E (disk s')))"
proof (cases "\<forall>n. walk E (disk s) 0 (butlast p) = Some n \<longrightarrow> is_dir E (disk s) n \<longrightarrow> create_room E s n")
  case True
  then have "implements E s I (handle_create E junk c s) (spec_create True (abs_fs E (disk s)) (username c) p (ctype c))"
    using handle_create_refines [OF q p c] by blast
  then show ?thesis using q by (auto simp: implements_def split: option.splits)
next
  case False
  then obtain n where n: "walk E (disk s) 0 (butlast p) = Some n" "is_dir E (disk s) n" "\<not> create_room E s n" by blast
  have wf: "fs_wf E (disk s) I" and tab: "lock_map s = Map.empty" using q by (simp_all add: quiescent_def)
  obtain cb fr where cb: "free_block_list s = cb # fr" using fl by (cases "free_block_list s") auto
  have sz: "i_size (inode_at E (disk s) n) \<le> FS_MAXFILEBLOCKS"
    using fs_wf_inode [OF wf walk_root_in [OF wf n(1)]] by (simp add: inode_ok_def)
  then have full: "\<not> dir_has_slot E (disk s) n" "fr = [] \<or> i_size (inode_at E (disk s) n) = FS_MAXFILEBLOCKS"
    using n(3) cb by (auto simp: create_room_def not_less split: if_splits) (cases fr; simp)
  show ?thesis
  proof (cases "spec_create True (abs_fs E (disk s)) (username c) p (ctype c) = None")
    case True
    have "\<exists>msg. handle_create E junk c s = (Inl (Runtime_error msg), s)" by (rule handle_create_refused [OF q p True])
    then show ?thesis using q by blast
  next
    case False
    have "quiescent E (s\<lparr>free_block_list := fr\<rparr>) I" using q cb by (auto simp: quiescent_def free_ok_def)
    moreover have "disk (s\<lparr>free_block_list := fr\<rparr>) = disk s" by simp
    ultimately show ?thesis using handle_create_lost_block(1) [OF q p c False n(1) full(1) cb full(2)] by blast
  qed
qed

end

text \<open>The request was answered with 0 or -1 and the file system is quiescent again.\<close>

definition survived :: "('d, 'm) fs_env \<Rightarrow> ('d, 'm, 'k) outcome \<Rightarrow> bool" where
  "survived E out \<longleftrightarrow> (\<exists>x fs' k' I'. out = Some (Inr x, fs', k') \<and> x \<in> {0, - 1} \<and> quiescent E fs' I')"

lemma served_survived: "served E fs I out \<Longrightarrow> survived E out"
  by (auto simp: served_def survived_def)

context file_server
begin

lemma net_create_survives:
  assumes q: "quiescent E fs I" and nul: "NUL \<notin> set req" and cmd: "parse_command (fst (next_token req)) = FS_CREATE"
    and ji: "inode_fits ji" and fl: "free_block_list fs \<noteq> []"
  shows "survived E (net_handle_create E N junk ji req (fs, k))"
  using nul cmd ji
proof (cases rule: net_create_cases [where junk = junk and fs = fs and k = k])
  case error
  then show ?thesis using q by (auto simp: survived_def)
next
  case (create c p)
  from handle_create_survives [OF q create(1,2) fl] obtain r s' I' where
    h: "handle_create E ji c fs = (r, s')" "quiescent E s' I'" "r = Inr () \<or> (\<exists>msg. r = Inl (Runtime_error msg))" by blast
  show ?thesis
  proof (cases "r = Inr ()")
    case True
    from answer_ok [of "\<lambda>_ k'. Some (True, k')" "()" "[]" req s' k] obtain x k' where
      "answer N req (Inr (), s') k (\<lambda>_ k'. Some (True, k')) = Some (Inr x, s', k')" "x \<in> {0, - 1}" by auto
    then show ?thesis using create(3) h True by (auto simp: survived_def)
  qed (use create(3) h in \<open>auto simp: survived_def answer_def\<close>)
qed

lemma handle_request_survives:
  assumes q: "quiescent E fs I" and ji: "inode_fits ji" and fl: "free_block_list fs \<noteq> []"
  shows "survived E (handle_request E N junk ji (fs, k))"
proof -
  obtain y k' where rm: "receive_message N k = (y, k')" by fastforce
  show ?thesis
  proof (cases y)
    case None
    then show ?thesis using rm served_survived [OF served_same [OF q]] by (simp add: handle_request_def)
  next
    case (Some req)
    have nul: "NUL \<notin> set req" using receive_message_Some(1) rm Some by blast
    note h = net_handlers_served [OF q nul refl, of junk k', THEN served_survived]
      net_create_survives [OF q nul _ ji fl, of junk k'] served_survived [OF served_same [OF q]]
    show ?thesis
      by (cases "parse_command (fst (next_token req))") (use rm Some h in \<open>simp_all add: handle_request_def\<close>)
  qed
qed

end

subsection \<open>A request on any quiescent server\<close>

context fs_device
begin

text \<open>A create on a quiescent server returns or throws, even without a free block, when it leaves a lock behind.\<close>

lemma handle_create_answers:
  assumes q: "quiescent E s I" and p: "path_ok (pathname c) p" and c: "create_ok c junk"
  shows "\<exists>r s'. handle_create E junk c s = (r, s') \<and> (r = Inr () \<or> (\<exists>msg. r = Inl (Runtime_error msg)))
    \<and> (disk s' = disk s \<or> spec_create True (abs_fs E (disk s)) (username c) p (ctype c) = Some (abs_fs E (disk s')))"
proof (cases "free_block_list s = []")
  case False
  then show ?thesis using handle_create_survives [OF q p c] by blast
next
  case True
  show ?thesis
  proof (cases "spec_create True (abs_fs E (disk s)) (username c) p (ctype c) = None")
    case none: True
    from handle_create_refused [OF q p none] show ?thesis by blast
  next
    case False
    from handle_create_no_block [OF q p False True, of junk] show ?thesis by auto
  qed
qed

end

context file_server
begin

lemma handle_request_answers:
  assumes q: "quiescent E fs I" and ji: "inode_fits ji"
  shows "\<exists>x fs' k'. handle_request E N junk ji (fs, k) = Some (Inr x, fs', k') \<and> x \<in> {0, - 1}"
proof -
  obtain y k' where rm: "receive_message N k = (y, k')" by fastforce
  show ?thesis
  proof (cases y)
    case None
    then show ?thesis using rm by (simp add: handle_request_def)
  next
    case (Some req)
    have nul: "NUL \<notin> set req" using receive_message_Some(1) rm Some by blast
    have create: "\<exists>x fs' k2. net_handle_create E N junk ji req (fs, k') = Some (Inr x, fs', k2) \<and> x \<in> {0, - 1}"
      if "parse_command (fst (next_token req)) = FS_CREATE"
      using nul that ji
    proof (cases rule: net_create_cases [where junk = junk and fs = fs and k = k'])
      case (create c p)
      from handle_create_answers [OF q create(1,2)] obtain r s' where
        h: "handle_create E ji c fs = (r, s')" "r = Inr () \<or> (\<exists>msg. r = Inl (Runtime_error msg))" by blast
      show ?thesis
      proof (cases "r = Inr ()")
        case True
        from answer_ok [of "\<lambda>_ k'. Some (True, k')" "()" "[]" req s' k'] obtain x k2 where
          "answer N req (Inr (), s') k' (\<lambda>_ k'. Some (True, k')) = Some (Inr x, s', k2)" "x \<in> {0, - 1}" by auto
        then show ?thesis using create(3) h True by auto
      qed (use create(3) h in \<open>auto simp: answer_def\<close>)
    qed simp
    note h = net_handlers_served [OF q nul refl, of junk k', unfolded served_def] create
    show ?thesis
      by (cases "parse_command (fst (next_token req))") (use rm Some h in \<open>auto simp: handle_request_def\<close>)
  qed
qed

end

end
