(* ===== verification/Net_Main.thy ===== *)
theory Net_Main
  imports Net_Refine
begin

text \<open>
  The start of the server (\<^verbatim>\<open>src/filesys/main.cpp\<close>, \<^verbatim>\<open>network_server.cpp\<close> 19-56, 127-136).  The calls of the
  operating system that set up the listening socket are parameters, given by their results.
\<close>

subsection \<open>Set-up\<close>

record server_os =
  os_socket :: int
  os_setsockopt :: int
  os_bind :: "nat \<Rightarrow> int"
  os_listen :: "nat \<Rightarrow> int"
  os_getsockname :: "int \<times> nat"

text \<open>The port number in the address: \<^verbatim>\<open>htons\<close> takes the low 16 bits of an \<^verbatim>\<open>int\<close>.\<close>

definition sin_port :: "int \<Rightarrow> nat" where
  "sin_port input_port = nat (input_port mod 2 ^ 16)"

definition get_port_number :: "server_os \<Rightarrow> int" where
  "get_port_number os = (if fst (os_getsockname os) = - 1 then - 1 else int (snd (os_getsockname os)))"

definition new_NetworkServer ::
  "('d, 'm) fs_env \<Rightarrow> 'd \<Rightarrow> server_os \<Rightarrow> int \<Rightarrow> (stop + ('d, 'm) FileSystem \<times> int) option" where
  "new_NetworkServer E d os input_port =
     (case new_FileSystem E d of
        None \<Rightarrow> None
      | Some (Inl e) \<Rightarrow> Some (Inl e)
      | Some (Inr my_filesystem) \<Rightarrow> Some
          (if os_socket os = - 1 then Inl (Runtime_error ''Error opening stream socket'')
           else if os_setsockopt os = - 1 then Inl (Runtime_error ''Error setting socket options'')
           else if os_bind os (sin_port input_port) = - 1 then Inl (Runtime_error ''Error binding stream socket'')
           else if os_listen os 30 = - 1 then Inl (Runtime_error ''Error starting to listen'')
           else let port = get_port_number os
                in if port = - 1 then Inl (Runtime_error ''Error getting socket port number'')
                   else Inr (my_filesystem, port)))"

text \<open>\<^verbatim>\<open>main\<close> returns -1 when the constructor throws; otherwise the server runs and does not return.\<close>

datatype ('d, 'm) server_status = Returned int | Running "('d, 'm) FileSystem" int

definition server_main ::
  "('d, 'm) fs_env \<Rightarrow> 'd \<Rightarrow> server_os \<Rightarrow> string list \<Rightarrow> (stop + ('d, 'm) server_status) option" where
  "server_main E d os argv =
     (case (if length argv = 2 then atoi (argv ! 1) else Inr 0) of
        Inl e \<Rightarrow> Some (Inl e)
      | Inr port \<Rightarrow>
          (case new_NetworkServer E d os port of
             None \<Rightarrow> None
           | Some (Inl (Runtime_error msg)) \<Rightarrow> Some (Inr (Returned (- 1)))
           | Some (Inl e) \<Rightarrow> Some (Inl e)
           | Some (Inr (fs, p)) \<Rightarrow> Some (Inr (Running fs p))))"

end
