(* ===== verification/Task.thy ===== *)
theory Task
  imports Prelude
begin

text \<open>
  Programs of threads that run at the same time.  A task is a tree: it has ended with a result or an
  exception, or it stands before its next atomic step, a function of the shared state that gives what is
  left of the task and the new state, or \<open>None\<close> while the thread has to wait.  A state transformer of
  \<open>Prelude\<close> is the task with one step (\<open>atom\<close>), and \<open>bindt\<close> puts tasks one after the other.
\<close>

datatype ('s, 'a) task =
    Done "stop + 'a"
  | Step "'s \<Rightarrow> (('s, 'a) task \<times> 's) option"

primrec bindt :: "('s, 'a) task \<Rightarrow> ('a \<Rightarrow> ('s, 'b) task) \<Rightarrow> ('s, 'b) task" where
  "bindt (Done r) f = (case r of Inl e \<Rightarrow> Done (Inl e) | Inr x \<Rightarrow> f x)"
| "bindt (Step g) f = Step (\<lambda>s. map_option (map_prod (\<lambda>t. bindt t f) id) (g s))"

definition seqt :: "('s, 'a) task \<Rightarrow> ('s, 'b) task \<Rightarrow> ('s, 'b) task" where
  "seqt t k = bindt t (\<lambda>_. k)"

definition rett :: "'a \<Rightarrow> ('s, 'a) task" where
  "rett x = Done (Inr x)"

definition haltt :: "stop \<Rightarrow> ('s, 'a) task" where
  "haltt e = Done (Inl e)"

text \<open>A state transformer as one atomic step; when it is blocked the step is not taken.\<close>

definition atom :: "('s, 'a) prog \<Rightarrow> ('s, 'a) task" where
  "atom p = Step (\<lambda>s. if fst (p s) = Inl Blocked then None else Some (Done (fst (p s)), snd (p s)))"

lemma task_induct [case_names Done Step, induct type: task]:
  assumes "\<And>r. P (Done r)" and "\<And>f. (\<And>s t s'. f s = Some (t, s') \<Longrightarrow> P t) \<Longrightarrow> P (Step f)"
  shows "P t"
proof (induction t rule: task.induct)
  case (Step f)
  show ?case
    by (rule assms(2)) (rule Step [OF rangeI], auto)
qed (rule assms(1))

lemma bindt_assoc: "bindt (bindt t f) g = bindt t (\<lambda>x. bindt (f x) g)"
proof (induction t)
  case (Done r)
  then show ?case by (cases r) simp_all
next
  case (Step h)
  have "map_option (map_prod (\<lambda>t. bindt (bindt t f) g) id) (h s)
      = map_option (map_prod (\<lambda>t. bindt t (\<lambda>x. bindt (f x) g)) id) (h s)" for s
    using Step by (cases "h s") auto
  then show ?case by (simp add: option.map_comp prod.map_comp comp_def id_def)
qed

lemma task_simps [simp]:
  "bindt (Done (Inl e)) f = Done (Inl e)"
  "bindt (Done (Inr x)) f = f x"
  "bindt (rett x) f = f x"
  "bindt (haltt e) f = Done (Inl e)"
  by (simp_all add: rett_def haltt_def)

subsection \<open>Threads\<close>

text \<open>
  A family of threads on one shared state: \<open>run_thread i\<close> is a step of the thread \<open>i\<close>.  Every step makes the task
  of its thread smaller, so a finite family cannot run for ever.
\<close>

type_synonym ('s, 'a) threads = "nat \<Rightarrow> ('s, 'a) task option"

definition run_thread :: "nat \<Rightarrow> ('s, 'a) threads \<times> 's \<Rightarrow> (('s, 'a) threads \<times> 's) option" where
  "run_thread i c =
     (case fst c i of
        Some (Step f) \<Rightarrow> map_option (\<lambda>(t, s). ((fst c)(i \<mapsto> t), s)) (f (snd c))
      | _ \<Rightarrow> None)"

definition task_step :: "(('s, 'a) task \<times> ('s, 'a) task) set" where
  "task_step = {(t', t). \<exists>f s s'. t = Step f \<and> f s = Some (t', s')}"

lemma wf_task_step: "wf (task_step :: (('s, 'a) task \<times> ('s, 'a) task) set)"
proof (rule wfUNIVI)
  fix P :: "('s, 'a) task \<Rightarrow> bool" and t assume ih: "\<forall>x. (\<forall>y. (y, x) \<in> task_step \<longrightarrow> P y) \<longrightarrow> P x"
  show "P t"
  proof (induction t)
    case (Done r)
    then show ?case using ih by (auto simp: task_step_def)
  next
    case (Step f)
    then have "\<forall>y. (y, task.Step f) \<in> task_step \<longrightarrow> P y" by (auto simp: task_step_def)
    then show ?case using ih by blast
  qed
qed

text \<open>A step makes one of the tasks smaller and leaves the others alone.\<close>

lemma run_thread_smaller:
  assumes fin: "finite (dom (fst c))" and r: "run_thread i c = Some c'"
  shows "(image_mset (\<lambda>j. the (fst c' j)) (mset_set (dom (fst c'))), image_mset (\<lambda>j. the (fst c j)) (mset_set (dom (fst c))))
    \<in> mult task_step"
proof -
  obtain f t s where t: "fst c i = Some (Step f)" "f (snd c) = Some (t, s)" "c' = ((fst c)(i \<mapsto> t), s)"
    using r by (auto simp: run_thread_def split: option.splits task.splits)
  define D where "D = dom (fst c) - {i}"
  let ?M = "image_mset (\<lambda>j. the (fst c j)) (mset_set D)"
  have D: "dom (fst c) = insert i D" "dom (fst c') = insert i D" "i \<notin> D" "finite D"
    using t fin by (auto simp: D_def)
  have "image_mset (\<lambda>j. the (fst c' j)) (mset_set D) = ?M"
    by (rule image_mset_cong) (use t(3) D(3,4) in auto)
  then have new: "image_mset (\<lambda>j. the (fst c' j)) (mset_set (dom (fst c'))) = ?M + {#t#}"
    unfolding D(2) mset_set.insert [OF D(4,3)] using t(3) by simp
  have old: "image_mset (\<lambda>j. the (fst c j)) (mset_set (dom (fst c))) = ?M + {#Step f#}"
    unfolding D(1) mset_set.insert [OF D(4,3)] using t(1) by simp
  have "(t, Step f) \<in> task_step" using t(2) by (auto simp: task_step_def)
  then show ?thesis unfolding new old by (intro one_step_implies_mult) auto
qed

lemma wf_run_thread: "wf {(c', c :: ('s, 'a) threads \<times> 's). finite (dom (fst c)) \<and> (\<exists>i. run_thread i c = Some c')}"
proof (rule wf_subset [OF wf_inv_image [OF wf_mult [OF wf_task_step],
        of "\<lambda>c. image_mset (\<lambda>j. the (fst c j)) (mset_set (dom (fst c)))"]], clarify)
  fix ts s ts' s' i assume "finite (dom (fst (ts, s)))" "run_thread i (ts, s) = Some (ts', s')"
  from run_thread_smaller [OF this]
  show "((ts', s'), ts, s) \<in> inv_image (mult task_step) (\<lambda>c. image_mset (\<lambda>j. the (fst c j)) (mset_set (dom (fst c))))"
    by simp
qed

end
