(* ===== verification/FS_Threads.thy ===== *)
theory FS_Threads
  imports FS_Core Task
begin

text \<open>
  The file system as the threads of the server share it (\<^verbatim>\<open>src/filesys/file_system.cpp\<close>): the operations of
  \<open>FS_Core\<close> once more, now as tasks, so that the requests of several threads interleave.  A step is one call on
  the disk, one critical section under \<^verbatim>\<open>lock_map_mutex\<close> or \<^verbatim>\<open>free_block_list_mutex\<close>, or one acquisition of an
  inode's mutex, which a thread waits for outside of the critical sections.  The table holds pointers to mutexes,
  because a thread waits on the mutex whose pointer it read in the critical section, whatever happens to the
  entry meanwhile.  The computations on the thread's own variables are those of \<open>FS_Core\<close>.
\<close>

subsection \<open>The shared state\<close>

text \<open>\<open>sh_mutex\<close> are the mutexes that \<^verbatim>\<open>make_shared\<close> made; those from \<open>sh_next\<close> on do not exist yet.\<close>

record ('d, 'm) Shared =
  sh_disk :: 'd
  sh_free :: "nat list"
  sh_map :: "nat \<rightharpoonup> nat GyattLock"
  sh_mutex :: "nat \<Rightarrow> 'm"
  sh_next :: nat

type_synonym ('d, 'm, 'a) fs_task = "(('d, 'm) Shared, 'a) task"

definition read_shared :: "('d, 'm) fs_env \<Rightarrow> nat \<Rightarrow> (('d, 'm) Shared, char list) prog" where
  "read_shared E b s =
     (case env_readblock E (sh_disk s) b of None \<Rightarrow> (Inl Assertion_failed, s) | Some raw \<Rightarrow> (Inr raw, s))"

definition write_shared :: "('d, 'm) fs_env \<Rightarrow> nat \<Rightarrow> char list \<Rightarrow> (('d, 'm) Shared, unit) prog" where
  "write_shared E b raw s =
     (case env_writeblock E (sh_disk s) b raw of
        None \<Rightarrow> (Inl Assertion_failed, s)
      | Some d \<Rightarrow> (Inr (), s\<lparr>sh_disk := d\<rparr>))"

subsection \<open>The lock table\<close>

text \<open>The critical section of the lock functions; the result is the pointer \<^verbatim>\<open>sm\<close>.\<close>

definition register_user :: "('d, 'm) fs_env \<Rightarrow> nat \<Rightarrow> (('d, 'm) Shared, nat) prog" where
  "register_user E b s =
     (case sh_map s b of
        None \<Rightarrow>
          (Inr (sh_next s),
           s\<lparr>sh_map := (sh_map s)(b \<mapsto> \<lparr>m_ptr = sh_next s, num_readers = 1\<rparr>),
             sh_mutex := (sh_mutex s)(sh_next s := sm_new E), sh_next := sh_next s + 1\<rparr>)
      | Some g \<Rightarrow> (Inr (m_ptr g), s\<lparr>sh_map := (sh_map s)(b \<mapsto> g\<lparr>num_readers := num_readers g + 1\<rparr>)\<rparr>))"

text \<open>The critical section of \<^verbatim>\<open>upgrade_to_write_lock\<close>.\<close>

definition find_user :: "nat \<Rightarrow> (('d, 'm) Shared, nat) prog" where
  "find_user b s =
     (case sh_map s b of None \<Rightarrow> (Inl Assertion_failed, s) | Some g \<Rightarrow> (Inr (m_ptr g), s))"

text \<open>A call on a mutex that may wait.\<close>

definition acquire :: "('m \<Rightarrow> 'm option) \<Rightarrow> nat \<Rightarrow> (('d, 'm) Shared, unit) prog" where
  "acquire f a s =
     (case f (sh_mutex s a) of
        None \<Rightarrow> (Inl Blocked, s)
      | Some x \<Rightarrow> (Inr (), s\<lparr>sh_mutex := (sh_mutex s)(a := x)\<rparr>))"

text \<open>The critical section of the unlock functions.\<close>

definition release_user :: "('m \<Rightarrow> 'm) \<Rightarrow> nat \<Rightarrow> (('d, 'm) Shared, unit) prog" where
  "release_user f b s =
     (case sh_map s b of
        None \<Rightarrow> (Inl Assertion_failed, s)
      | Some g \<Rightarrow>
          (Inr (), s\<lparr>sh_mutex := (sh_mutex s)(m_ptr g := f (sh_mutex s (m_ptr g))),
                     sh_map := (sh_map s)(b := (if num_readers g - 1 = 0 then None
                                                else Some (g\<lparr>num_readers := num_readers g - 1\<rparr>)))\<rparr>))"

definition lock_inode_read_t :: "('d, 'm) fs_env \<Rightarrow> nat \<Rightarrow> ('d, 'm, unit) fs_task" where
  "lock_inode_read_t E b =
     bindt (atom (register_user E b)) (\<lambda>sm. atom (acquire (sm_lock_shared E) sm))"

definition unlock_inode_read_t :: "('d, 'm) fs_env \<Rightarrow> nat \<Rightarrow> ('d, 'm, unit) fs_task" where
  "unlock_inode_read_t E b = atom (release_user (sm_unlock_shared E) b)"

definition lock_inode_upgrade_t :: "('d, 'm) fs_env \<Rightarrow> nat \<Rightarrow> ('d, 'm, unit) fs_task" where
  "lock_inode_upgrade_t E b =
     bindt (atom (register_user E b)) (\<lambda>sm. atom (acquire (sm_lock_upgrade E) sm))"

definition unlock_inode_upgrade_t :: "('d, 'm) fs_env \<Rightarrow> nat \<Rightarrow> ('d, 'm, unit) fs_task" where
  "unlock_inode_upgrade_t E b = atom (release_user (sm_unlock_upgrade E) b)"

definition upgrade_to_write_lock_t :: "('d, 'm) fs_env \<Rightarrow> nat \<Rightarrow> ('d, 'm, unit) fs_task" where
  "upgrade_to_write_lock_t E b =
     bindt (atom (find_user b)) (\<lambda>sm. atom (acquire (sm_unlock_upgrade_and_lock E) sm))"

definition unlock_inode_write_t :: "('d, 'm) fs_env \<Rightarrow> nat \<Rightarrow> ('d, 'm, unit) fs_task" where
  "unlock_inode_write_t E b = atom (release_user (sm_unlock E) b)"

subsection \<open>Path traversal\<close>

fun find_in_blocks_t ::
  "('d, 'm) fs_env \<Rightarrow> string \<Rightarrow> nat list \<Rightarrow> nat list \<Rightarrow> ('d, 'm, nat) fs_task" where
  "find_in_blocks_t E nm bs [] = rett UNDEFINED_BLOCK"
| "find_in_blocks_t E nm bs (i # is) =
     bindt (Done (arr_get bs i)) (\<lambda>b.
     bindt (atom (read_shared E b)) (\<lambda>raw.
     bindt (Done (find_in_block nm (decode_dir raw))) (\<lambda>result.
     if result \<noteq> UNDEFINED_BLOCK then rett result else find_in_blocks_t E nm bs is)))"

definition find_next_inode_t ::
  "('d, 'm) fs_env \<Rightarrow> string \<Rightarrow> nat \<Rightarrow> string \<Rightarrow> ('d, 'm, nat) fs_task" where
  "find_next_inode_t E next_dir_name target_inode_block user_name =
     bindt (atom (read_shared E target_inode_block)) (\<lambda>raw.
     let curr_inode = decode_inode raw in
     bindt (if target_inode_block = 0 then rett True
            else bindt (Done (read_cstr (i_owner curr_inode))) (\<lambda>owner. rett (user_name = owner))) (\<lambda>allowed.
     if \<not> allowed then
       seqt (unlock_inode_read_t E target_inode_block)
         (haltt (Runtime_error ''User is not owner of this dir''))
     else if i_type curr_inode \<noteq> CHR ''d'' then
       seqt (unlock_inode_read_t E target_inode_block)
         (haltt (Runtime_error ''Expected a directory, but got a file''))
     else
     bindt (find_in_blocks_t E next_dir_name (i_blocks curr_inode) [0..<i_size curr_inode]) (\<lambda>result.
     if result = UNDEFINED_BLOCK then
       seqt (unlock_inode_read_t E target_inode_block) (haltt (Runtime_error ''Directory not found''))
     else rett result)))"

fun find_parent_loop_t ::
  "('d, 'm) fs_env \<Rightarrow> string \<Rightarrow> nat \<Rightarrow> string list \<Rightarrow> ('d, 'm, nat) fs_task" where
  "find_parent_loop_t E user target (dir_name # next_name # rest) =
     bindt (Done (strcmp_eq (c_str dir_name) (c_str []))) (\<lambda>is_empty.
     if is_empty \<and> target \<noteq> ROOT_INODE then haltt Assertion_failed
     else
     bindt (find_next_inode_t E next_name target user) (\<lambda>next_target.
     seqt (lock_inode_read_t E next_target)
     (seqt (unlock_inode_read_t E target)
     (find_parent_loop_t E user next_target (next_name # rest)))))"
| "find_parent_loop_t E user target _ = rett target"

definition find_parent_inode_t ::
  "('d, 'm) fs_env \<Rightarrow> string \<Rightarrow> string \<Rightarrow> ('d, 'm, nat) fs_task" where
  "find_parent_inode_t E path_name user_name =
     bindt (Done (get_parent_dir path_name)) (\<lambda>parent_path.
     seqt (lock_inode_read_t E ROOT_INODE)
     (find_parent_loop_t E user_name ROOT_INODE (getline_split slash parent_path)))"

subsection \<open>Read\<close>

definition handle_read_t :: "('d, 'm) fs_env \<Rightarrow> Command \<Rightarrow> ('d, 'm, char list) fs_task" where
  "handle_read_t E command =
     bindt (find_parent_inode_t E (pathname command) (username command)) (\<lambda>parent_inode_block.
     bindt (Done (get_target (pathname command))) (\<lambda>target.
     bindt (find_next_inode_t E target parent_inode_block (username command)) (\<lambda>target_inode_block.
     seqt (lock_inode_read_t E target_inode_block)
     (seqt (unlock_inode_read_t E parent_inode_block)
     (bindt (atom (read_shared E target_inode_block)) (\<lambda>raw.
     let target_inode = decode_inode raw in
     if i_type target_inode \<noteq> CHR ''f'' \<or> i_size target_inode \<le> block command then
       seqt (unlock_inode_read_t E target_inode_block)
         (haltt (Runtime_error ''Provided file is not a valid file''))
     else
     bindt (Done (read_cstr (i_owner target_inode))) (\<lambda>owner.
     if username command \<noteq> owner then
       seqt (unlock_inode_read_t E target_inode_block)
         (haltt (Runtime_error ''User is not owner of file''))
     else
     bindt (Done (arr_get (i_blocks target_inode) (block command))) (\<lambda>b.
     bindt (atom (read_shared E b)) (\<lambda>data_read.
     seqt (unlock_inode_read_t E target_inode_block) (rett data_read))))))))))"

subsection \<open>Write\<close>

text \<open>
  Lines 430 to 447 are one critical section under \<^verbatim>\<open>free_block_list_mutex\<close>; when there is no block it holds
  the section of \<^verbatim>\<open>unlock_inode_upgrade\<close>, which does not wait for anything.
\<close>

definition extend_section ::
  "('d, 'm) fs_env \<Rightarrow> nat \<Rightarrow> fs_inode \<Rightarrow> (('d, 'm) Shared, fs_inode) prog" where
  "extend_section E target_inode_block target_inode =
     bindp (gets sh_free) (\<lambda>fl.
     if fl = [] \<or> i_size target_inode = FS_MAXFILEBLOCKS then
       seqp (release_user (sm_unlock_upgrade E) target_inode_block)
         (halt (Runtime_error ''Not enough disk space for this write''))
     else
       seqp (modify (\<lambda>s. s\<lparr>sh_free := tl fl\<rparr>))
       (bindp (lift (arr_set (i_blocks target_inode) (i_size target_inode) (hd fl))) (\<lambda>bs.
       ret (target_inode\<lparr>i_blocks := bs, i_size := i_size target_inode + 1\<rparr>))))"

definition handle_write_t :: "('d, 'm) fs_env \<Rightarrow> Command \<Rightarrow> ('d, 'm, unit) fs_task" where
  "handle_write_t E command =
     bindt (find_parent_inode_t E (pathname command) (username command)) (\<lambda>parent_inode_block.
     bindt (Done (get_target (pathname command))) (\<lambda>target.
     bindt (find_next_inode_t E target parent_inode_block (username command)) (\<lambda>target_inode_block.
     seqt (lock_inode_upgrade_t E target_inode_block)
     (seqt (unlock_inode_read_t E parent_inode_block)
     (bindt (atom (read_shared E target_inode_block)) (\<lambda>raw.
     let target_inode = decode_inode raw in
     if i_type target_inode \<noteq> CHR ''f'' \<or> i_size target_inode < block command then
       seqt (unlock_inode_upgrade_t E target_inode_block)
         (haltt (Runtime_error ''Provided block is not writable''))
     else
     bindt (Done (read_cstr (i_owner target_inode))) (\<lambda>owner.
     if username command \<noteq> owner then
       seqt (unlock_inode_upgrade_t E target_inode_block)
         (haltt (Runtime_error ''User is not owner of file''))
     else
     if block command \<noteq> i_size target_inode then
       seqt (upgrade_to_write_lock_t E target_inode_block)
       (bindt (Done (arr_get (i_blocks target_inode) (block command))) (\<lambda>b.
       seqt (atom (write_shared E b (data command)))
       (unlock_inode_write_t E target_inode_block)))
     else
       bindt (atom (extend_section E target_inode_block target_inode)) (\<lambda>target_inode.
       bindt (Done (arr_get (i_blocks target_inode) (block command))) (\<lambda>b.
       seqt (atom (write_shared E b (data command)))
       (seqt (upgrade_to_write_lock_t E target_inode_block)
       (seqt (atom (write_shared E target_inode_block (encode_inode target_inode)))
       (unlock_inode_write_t E target_inode_block))))))))))))"

subsection \<open>Helpers of create and delete\<close>

definition get_parent_inode_and_upgradeable_lock_t ::
  "('d, 'm) fs_env \<Rightarrow> Command \<Rightarrow> string \<Rightarrow> ('d, 'm, nat) fs_task" where
  "get_parent_inode_and_upgradeable_lock_t E command parent_path =
     (if parent_path = [] then
        seqt (lock_inode_upgrade_t E ROOT_INODE) (rett ROOT_INODE)
      else
        bindt (find_parent_inode_t E parent_path (username command)) (\<lambda>grandparent_inode_block.
        bindt (Done (get_target parent_path)) (\<lambda>parent_dirname.
        bindt (find_next_inode_t E parent_dirname grandparent_inode_block (username command)) (\<lambda>parent_inode_block.
        seqt (lock_inode_upgrade_t E parent_inode_block)
        (seqt (unlock_inode_read_t E grandparent_inode_block) (rett parent_inode_block))))))"

definition validate_parent_inode_t ::
  "('d, 'm) fs_env \<Rightarrow> Command \<Rightarrow> string \<Rightarrow> fs_inode \<Rightarrow> nat \<Rightarrow> ('d, 'm, unit) fs_task" where
  "validate_parent_inode_t E command parent_path parent_inode parent_inode_block =
     bindt (if parent_path = [] then rett False
            else if i_type parent_inode \<noteq> CHR ''d'' then rett True
            else bindt (Done (read_cstr (i_owner parent_inode))) (\<lambda>owner. rett (owner \<noteq> username command))) (\<lambda>bad.
     if bad then
       seqt (unlock_inode_upgrade_t E parent_inode_block)
         (haltt (Runtime_error ''Expected a directory, but got a file or user is not owner lol''))
     else rett ())"

subsection \<open>Create\<close>

fun create_scan_blocks_t ::
  "('d, 'm) fs_env \<Rightarrow> string \<Rightarrow> nat list \<Rightarrow> nat list \<Rightarrow> create_scan \<Rightarrow>
     ('d, 'm, create_scan option) fs_task" where
  "create_scan_blocks_t E target_name bs [] st = rett (Some st)"
| "create_scan_blocks_t E target_name bs (i # is) st =
     bindt (Done (arr_get bs i)) (\<lambda>b.
     bindt (atom (read_shared E b)) (\<lambda>raw.
     bindt (Done (create_scan_entries target_name b (decode_dir raw) [0..<FS_DIRENTRIES] st)) (\<lambda>r.
     case r of None \<Rightarrow> rett None | Some st' \<Rightarrow> create_scan_blocks_t E target_name bs is st')))"

text \<open>The critical sections of lines 531 to 537 and 552 to 561.\<close>

definition take_block_section :: "(('d, 'm) Shared, nat) prog" where
  "take_block_section =
     bindp (gets sh_free) (\<lambda>fl.
     if fl = [] then halt (Runtime_error ''Not enough disk space for create'')
     else seqp (modify (\<lambda>s. s\<lparr>sh_free := tl fl\<rparr>)) (ret (hd fl)))"

definition grow_section ::
  "('d, 'm) fs_env \<Rightarrow> nat \<Rightarrow> fs_inode \<Rightarrow> (('d, 'm) Shared, nat \<times> fs_inode) prog" where
  "grow_section E parent_inode_block parent_inode =
     bindp (gets sh_free) (\<lambda>fl.
     if fl = [] \<or> i_size parent_inode = FS_MAXFILEBLOCKS then
       seqp (release_user (sm_unlock_upgrade E) parent_inode_block)
         (halt (Runtime_error ''Not enough disk space for create''))
     else
       bindp (lift (arr_set (i_blocks parent_inode) (i_size parent_inode) (hd fl))) (\<lambda>bs.
       seqp (modify (\<lambda>s. s\<lparr>sh_free := tl fl\<rparr>))
       (ret (hd fl, parent_inode\<lparr>i_blocks := bs\<rparr>))))"

definition create_commit_t ::
  "('d, 'm) fs_env \<Rightarrow> fs_inode \<Rightarrow> Command \<Rightarrow> string \<Rightarrow> nat \<Rightarrow> fs_inode \<Rightarrow> create_scan \<Rightarrow>
     ('d, 'm, unit) fs_task" where
  "create_commit_t E junk command target_name parent_inode_block parent_inode st =
     bindt (atom take_block_section) (\<lambda>new_inode_block.
     bindt (Done (fill_direntry target_name new_inode_block (new_direntry_location st)
                    (updated_direntries_block st))) (\<lambda>updated.
     bindt (Done (make_inode junk command)) (\<lambda>new_inode.
     if is_empty_direntry st then
       seqt (atom (write_shared E new_inode_block (encode_inode new_inode)))
       (seqt (upgrade_to_write_lock_t E parent_inode_block)
       (seqt (atom (write_shared E (new_direntry_block st) (encode_dir updated)))
       (unlock_inode_write_t E parent_inode_block)))
     else
       bindt (atom (grow_section E parent_inode_block parent_inode)) (\<lambda>(new_direntry_block, parent_inode).
       seqt (atom (write_shared E new_inode_block (encode_inode new_inode)))
       (seqt (atom (write_shared E new_direntry_block (encode_dir updated)))
       (seqt (upgrade_to_write_lock_t E parent_inode_block)
       (seqt (atom (write_shared E parent_inode_block
                (encode_inode (parent_inode\<lparr>i_size := i_size parent_inode + 1\<rparr>))))
       (unlock_inode_write_t E parent_inode_block))))))))"

definition handle_create_t ::
  "('d, 'm) fs_env \<Rightarrow> fs_inode \<Rightarrow> Command \<Rightarrow> ('d, 'm, unit) fs_task" where
  "handle_create_t E junk command =
     bindt (Done (get_parent_dir (pathname command))) (\<lambda>parent_path.
     bindt (Done (get_target (pathname command))) (\<lambda>target_name.
     bindt (get_parent_inode_and_upgradeable_lock_t E command parent_path) (\<lambda>parent_inode_block.
     bindt (atom (read_shared E parent_inode_block)) (\<lambda>raw.
     let parent_inode = decode_inode raw in
     seqt (validate_parent_inode_t E command parent_path parent_inode parent_inode_block)
     (bindt (create_scan_blocks_t E target_name (i_blocks parent_inode) [0..<i_size parent_inode]
               create_scan_init) (\<lambda>r.
     case r of
       None \<Rightarrow>
         seqt (unlock_inode_upgrade_t E parent_inode_block) (haltt (Runtime_error ''Path already exists''))
     | Some st \<Rightarrow>
         create_commit_t E junk command target_name parent_inode_block parent_inode
           (if is_empty_direntry st then st
            else st\<lparr>updated_direntries_block :=
                   map (\<lambda>e. e\<lparr>de_inode_block := 0\<rparr>) (updated_direntries_block st)\<rparr>)))))))"

subsection \<open>Delete\<close>

fun delete_scan_blocks_t ::
  "('d, 'm) fs_env \<Rightarrow> string \<Rightarrow> nat list \<Rightarrow> nat list \<Rightarrow>
     ('d, 'm, (nat \<times> nat \<times> fs_direntry list) option) fs_task" where
  "delete_scan_blocks_t E target_name bs [] = rett None"
| "delete_scan_blocks_t E target_name bs (i # is) =
     bindt (Done (arr_get bs i)) (\<lambda>b.
     bindt (atom (read_shared E b)) (\<lambda>raw.
     bindt (Done (delete_scan_entries target_name (decode_dir raw) [0..<FS_DIRENTRIES])) (\<lambda>r.
     case r of Some j \<Rightarrow> rett (Some (i, j, decode_dir raw)) | None \<Rightarrow> delete_scan_blocks_t E target_name bs is)))"

text \<open>Every \<^verbatim>\<open>free_block_list.push\<close> is a critical section of its own.\<close>

definition free_section :: "nat \<Rightarrow> (('d, 'm) Shared, unit) prog" where
  "free_section b = modify (\<lambda>s. s\<lparr>sh_free := sh_free s @ [b]\<rparr>)"

fun free_file_blocks_t :: "nat list \<Rightarrow> nat list \<Rightarrow> ('d, 'm, unit) fs_task" where
  "free_file_blocks_t bs [] = rett ()"
| "free_file_blocks_t bs (i # is) =
     bindt (Done (arr_get bs i)) (\<lambda>data_block.
     seqt (atom (free_section data_block)) (free_file_blocks_t bs is))"

definition remove_entry_t ::
  "('d, 'm) fs_env \<Rightarrow> nat \<Rightarrow> fs_inode \<Rightarrow> nat \<Rightarrow> nat \<Rightarrow> fs_direntry list \<Rightarrow> ('d, 'm, unit) fs_task" where
  "remove_entry_t E parent_inode_block parent_inode dir_block_index dir_entry_index dir_block =
     bindt (Done (arr_set dir_block dir_entry_index zero_direntry)) (\<lambda>dir_block.
     bindt (Done (arr_get (i_blocks parent_inode) dir_block_index)) (\<lambda>entry_block.
     if is_block_empty dir_block then
       bindt (Done (shift_blocks (i_blocks parent_inode) [dir_block_index..<i_size parent_inode - 1])) (\<lambda>bs.
       seqt (atom (write_shared E parent_inode_block
              (encode_inode (parent_inode\<lparr>i_blocks := bs, i_size := i_size parent_inode - 1\<rparr>))))
       (atom (free_section entry_block)))
     else atom (write_shared E entry_block (encode_dir dir_block))))"

definition delete_child_t ::
  "('d, 'm) fs_env \<Rightarrow> Command \<Rightarrow> nat \<Rightarrow> fs_inode \<Rightarrow> nat \<Rightarrow> nat \<Rightarrow> fs_direntry list \<Rightarrow>
     ('d, 'm, unit) fs_task" where
  "delete_child_t E command parent_inode_block parent_inode dir_block_index dir_entry_index dir_block =
     bindt (Done (arr_get dir_block dir_entry_index)) (\<lambda>entry.
     let child_inode_block = de_inode_block entry in
     seqt (upgrade_to_write_lock_t E parent_inode_block)
     (seqt (lock_inode_upgrade_t E child_inode_block)
     (bindt (atom (read_shared E child_inode_block)) (\<lambda>raw.
     let child_inode = decode_inode raw in
     bindt (Done (read_cstr (i_owner child_inode))) (\<lambda>owner.
     if owner \<noteq> username command then
       seqt (unlock_inode_write_t E parent_inode_block)
       (seqt (unlock_inode_upgrade_t E child_inode_block)
       (haltt (Runtime_error ''User is not owner of the target'')))
     else if i_type child_inode = CHR ''d'' \<and> i_size child_inode \<noteq> 0 then
       seqt (unlock_inode_write_t E parent_inode_block)
       (seqt (unlock_inode_upgrade_t E child_inode_block)
       (haltt (Runtime_error ''Directory not empty'')))
     else
       seqt (remove_entry_t E parent_inode_block parent_inode dir_block_index dir_entry_index dir_block)
       (seqt (upgrade_to_write_lock_t E child_inode_block)
       (seqt (unlock_inode_write_t E parent_inode_block)
       (seqt (atom (free_section child_inode_block))
       (seqt (if i_type child_inode = CHR ''f''
              then free_file_blocks_t (i_blocks child_inode) [0..<i_size child_inode] else rett ())
       (unlock_inode_write_t E child_inode_block))))))))))"

definition handle_delete_t :: "('d, 'm) fs_env \<Rightarrow> Command \<Rightarrow> ('d, 'm, unit) fs_task" where
  "handle_delete_t E command =
     bindt (Done (strcmp_eq (c_str (pathname command)) (c_str [slash]))) (\<lambda>is_root.
     if is_root then haltt (Runtime_error ''Attempting to delete root'')
     else
     bindt (Done (get_parent_dir (pathname command))) (\<lambda>parent_path.
     bindt (Done (get_target (pathname command))) (\<lambda>target_name.
     bindt (get_parent_inode_and_upgradeable_lock_t E command parent_path) (\<lambda>parent_inode_block.
     bindt (atom (read_shared E parent_inode_block)) (\<lambda>raw.
     let parent_inode = decode_inode raw in
     seqt (validate_parent_inode_t E command parent_path parent_inode parent_inode_block)
     (bindt (delete_scan_blocks_t E target_name (i_blocks parent_inode) [0..<i_size parent_inode]) (\<lambda>r.
     case r of
       None \<Rightarrow>
         seqt (unlock_inode_upgrade_t E parent_inode_block) (haltt (Runtime_error ''Target does not exist''))
     | Some (dir_block_index, dir_entry_index, dir_block) \<Rightarrow>
         delete_child_t E command parent_inode_block parent_inode dir_block_index dir_entry_index dir_block)))))))"

subsection \<open>A request\<close>

text \<open>
  The call of the handler in \<^verbatim>\<open>NetworkServer\<close>, one thread per request; a result without data is the empty list.
  The stack variable of a create is an argument, as in \<open>FS_Core\<close>.
\<close>

definition request_t :: "('d, 'm) fs_env \<Rightarrow> fs_inode \<Rightarrow> Command \<Rightarrow> ('d, 'm, char list) fs_task" where
  "request_t E junk command =
     (case command_type command of
        FS_READBLOCK \<Rightarrow> handle_read_t E command
      | FS_WRITEBLOCK \<Rightarrow> seqt (handle_write_t E command) (rett [])
      | FS_CREATE \<Rightarrow> seqt (handle_create_t E junk command) (rett [])
      | FS_DELETE \<Rightarrow> seqt (handle_delete_t E command) (rett [])
      | INVALID \<Rightarrow> haltt Assertion_failed)"

end
