(* ===== verification/FS_Ghost.thy ===== *)
theory FS_Ghost
  imports FS_Delete_Refine FS_Threads Net_Parse
begin

text \<open>
  What the threads of the file server own while their requests run.  The ghost state of a thread says which
  inode locks it has and in which mode, what it waits for, which blocks it took off the free list or out of the
  tree, and whether its request has taken effect.  \<open>lock_inv\<close> relates the ghosts of all threads to the lock table,
  \<open>block_inv\<close> to the disk and the free list; \<open>rely\<close> is what a thread can count on while other threads run.
\<close>

subsection \<open>The atomic requests\<close>

text \<open>
  The effect of a request in one step: its result (\<open>None\<close>: an error) and the new file system.  \<open>sp\<close> says whether
  there was room for what the request adds.
\<close>

definition path_of :: "Command \<Rightarrow> string list" where
  "path_of c = getline_split slash (drop 1 (pathname c))"

definition updated :: "afs \<Rightarrow> afs option \<Rightarrow> char list option \<times> afs" where
  "updated A r = (case r of None \<Rightarrow> (None, A) | Some A' \<Rightarrow> (Some [], A'))"

definition spec_request :: "bool \<Rightarrow> Command \<Rightarrow> afs \<Rightarrow> char list option \<times> afs" where
  "spec_request sp c A =
     (case command_type c of
        FS_READBLOCK \<Rightarrow> (spec_read A (username c) (path_of c) (block c), A)
      | FS_WRITEBLOCK \<Rightarrow> updated A (spec_write sp A (username c) (path_of c) (block c) (data c))
      | FS_CREATE \<Rightarrow> updated A (spec_create sp A (username c) (path_of c) (ctype c))
      | FS_DELETE \<Rightarrow> updated A (spec_delete A (username c) (path_of c))
      | INVALID \<Rightarrow> (None, A))"

subsection \<open>Ghost state of a thread\<close>

text \<open>
  A held lock is shared, upgradeable or exclusive; \<open>Dead\<close> is an exclusive lock whose inode has been deleted.  A wish
  is a block, the mode in which its mutex is wanted and the pointer of the mutex; \<open>wpath\<close> is the path of that block.
  A request that has taken effect has a result, and it is known whether it was refused for lack of space.
\<close>

datatype lmode = Rd | Up | Wr | Dead

datatype phase = Pending | Committed bool "char list option"

record ghost =
  held :: "nat \<rightharpoonup> lmode"
  wants :: "(nat \<times> lmode \<times> nat) option"
  wpath :: "string list"
  fresh :: "nat set"
  limbo :: "nat set"
  phase :: phase

definition idle :: ghost where
  "idle = \<lparr>held = Map.empty, wants = None, wpath = [], fresh = {}, limbo = {}, phase = Pending\<rparr>"

text \<open>The thread is counted in the table entry of the block.\<close>

definition registered :: "ghost \<Rightarrow> nat \<Rightarrow> bool" where
  "registered g b \<longleftrightarrow> held g b \<noteq> None \<or> (\<exists>a. wants g = Some (b, Rd, a)) \<or> (\<exists>a. wants g = Some (b, Up, a))"

definition users :: "(nat \<Rightarrow> ghost) \<Rightarrow> nat \<Rightarrow> nat set" where
  "users G b = {i. registered (G i) b}"

definition readers :: "(nat \<Rightarrow> ghost) \<Rightarrow> nat \<Rightarrow> nat set" where
  "readers G b = {i. held (G i) b = Some Rd}"

definition upgraders :: "(nat \<Rightarrow> ghost) \<Rightarrow> nat \<Rightarrow> nat set" where
  "upgraders G b = {i. held (G i) b = Some Up}"

definition writers :: "(nat \<Rightarrow> ghost) \<Rightarrow> nat \<Rightarrow> nat set" where
  "writers G b = {i. held (G i) b = Some Wr \<or> held (G i) b = Some Dead}"

subsection \<open>The lock table\<close>

text \<open>
  The contract of \<^verbatim>\<open>boost::shared_mutex\<close> for several threads: \<open>V\<close> are the number of shared holders, whether there is an
  upgradeable holder and whether there is an exclusive one.  A call returns only when the lock can be had, and it
  does not wait when it can be had.
\<close>

locale shared_mutex =
  fixes E :: "('d, 'm) fs_env" and V :: "'m \<Rightarrow> nat \<times> bool \<times> bool"
  assumes new_view: "V (sm_new E) = (0, False, False)"
    and lock_shared: "V x = (r, u, w) \<Longrightarrow>
      (case sm_lock_shared E x of None \<Rightarrow> w | Some y \<Rightarrow> \<not> w \<and> V y = (r + 1, u, w))"
    and unlock_shared: "V x = (r, u, w) \<Longrightarrow> 0 < r \<Longrightarrow> V (sm_unlock_shared E x) = (r - 1, u, w)"
    and lock_upgrade: "V x = (r, u, w) \<Longrightarrow>
      (case sm_lock_upgrade E x of None \<Rightarrow> u \<or> w | Some y \<Rightarrow> \<not> u \<and> \<not> w \<and> V y = (r, True, w))"
    and unlock_upgrade: "V x = (r, True, w) \<Longrightarrow> V (sm_unlock_upgrade E x) = (r, False, w)"
    and upgrade_lock: "V x = (r, True, w) \<Longrightarrow>
      (case sm_unlock_upgrade_and_lock E x of None \<Rightarrow> 0 < r \<or> w | Some y \<Rightarrow> r = 0 \<and> \<not> w \<and> V y = (r, False, True))"
    and unlock_exclusive: "V x = (r, u, True) \<Longrightarrow> V (sm_unlock E x) = (r, u, False)"

definition entry_ok :: "('m \<Rightarrow> nat \<times> bool \<times> bool) \<Rightarrow> ('d, 'm) Shared \<Rightarrow> (nat \<Rightarrow> ghost) \<Rightarrow> nat \<Rightarrow> bool" where
  "entry_ok V s G b \<longleftrightarrow>
     (case sh_map s b of
        None \<Rightarrow> users G b = {}
      | Some g \<Rightarrow> users G b \<noteq> {} \<and> num_readers g = card (users G b) \<and> m_ptr g < sh_next s \<and>
          V (sh_mutex s (m_ptr g)) = (card (readers G b), upgraders G b \<noteq> {}, writers G b \<noteq> {}))"

definition wish_ok :: "('d, 'm) Shared \<Rightarrow> ghost \<Rightarrow> bool" where
  "wish_ok s g \<longleftrightarrow>
     (case wants g of
        None \<Rightarrow> True
      | Some (b, md, a) \<Rightarrow> map_option m_ptr (sh_map s b) = Some a \<and> md \<noteq> Dead \<and>
          held g b = (if md = Wr then Some Up else None))"

definition lock_inv :: "('m \<Rightarrow> nat \<times> bool \<times> bool) \<Rightarrow> ('d, 'm) Shared \<Rightarrow> (nat \<Rightarrow> ghost) \<Rightarrow> bool" where
  "lock_inv V s G \<longleftrightarrow>
     (\<forall>b. finite (users G b)) \<and> (\<forall>i. wish_ok s (G i)) \<and> (\<forall>b. entry_ok V s G b) \<and>
     (\<forall>b b' g g'. sh_map s b = Some g \<longrightarrow> sh_map s b' = Some g' \<longrightarrow> m_ptr g = m_ptr g' \<longrightarrow> b = b') \<and>
     (\<forall>b i j. i \<in> upgraders G b \<union> writers G b \<longrightarrow> j \<in> upgraders G b \<union> writers G b \<longrightarrow> i = j) \<and>
     (\<forall>b. writers G b \<noteq> {} \<longrightarrow> readers G b = {})"

subsection \<open>Disk and free list\<close>

definition private_blocks :: "ghost \<Rightarrow> nat set" where
  "private_blocks g = fresh g \<union> limbo g"

text \<open>
  The inode of a held lock is in the tree, or it has been taken out of it by a thread that still has its blocks
  and its lock.
\<close>

definition block_inv :: "('d, 'm) fs_env \<Rightarrow> ('d, 'm) Shared \<Rightarrow> nat set \<Rightarrow> (nat \<Rightarrow> ghost) \<Rightarrow> bool" where
  "block_inv E s I G \<longleftrightarrow>
     fs_wf E (sh_disk s) I \<and> free_ok E (sh_disk s) I (sh_free s) \<and>
     (\<forall>i. fresh (G i) \<inter> limbo (G i) = {} \<and> (\<forall>b \<in> private_blocks (G i). b < FS_DISKSIZE \<and> b \<notin> set (sh_free s)) \<and>
       (\<forall>n \<in> I. set (owned E (sh_disk s) n) \<inter> private_blocks (G i) = {})) \<and>
     (\<forall>i j. i \<noteq> j \<longrightarrow> private_blocks (G i) \<inter> private_blocks (G j) = {}) \<and>
     (\<forall>i n m. held (G i) n = Some m \<longrightarrow> m \<noteq> Dead \<longrightarrow> n \<notin> I \<longrightarrow>
       (\<exists>j. set (owned E (sh_disk s) n) \<subseteq> limbo (G j) \<and> held (G j) n \<in> {Some Up, Some Wr}))"

definition server_inv ::
  "('d, 'm) fs_env \<Rightarrow> ('m \<Rightarrow> nat \<times> bool \<times> bool) \<Rightarrow> ('d, 'm) Shared \<Rightarrow> nat set \<Rightarrow> (nat \<Rightarrow> ghost) \<Rightarrow> bool" where
  "server_inv E V s I G \<longleftrightarrow> lock_inv V s G \<and> block_inv E s I G"

subsection \<open>What a thread relies on\<close>

text \<open>
  The other threads leave alone the blocks of every inode the thread has locked and its private blocks.  An inode
  that is locked upgradeably or exclusively, or that is locked at all and has entries, stays in its place.
\<close>

definition anchored :: "('d, 'm) fs_env \<Rightarrow> ghost \<Rightarrow> 'd \<Rightarrow> nat \<Rightarrow> bool" where
  "anchored E g d n \<longleftrightarrow>
     held g n \<in> {Some Up, Some Wr} \<or> held g n = Some Rd \<and> is_dir E d n \<and> dir_entries E d n \<noteq> []"

definition rely :: "('d, 'm) fs_env \<Rightarrow> ghost \<Rightarrow> 'd \<Rightarrow> nat set \<Rightarrow> 'd \<Rightarrow> nat set \<Rightarrow> bool" where
  "rely E g d I d' I' \<longleftrightarrow>
     fs_wf E d I \<and> fs_wf E d' I' \<and>
     (\<forall>n m. held g n = Some m \<longrightarrow> m \<noteq> Dead \<longrightarrow> untouched E d d' n) \<and>
     (\<forall>n. n \<in> I \<longrightarrow> anchored E g d n \<longrightarrow>
        (\<forall>u p. walk_as E d u 0 p = Inr n \<longrightarrow> walk_as E d' u 0 p = Inr n)) \<and>
     (\<forall>b \<in> private_blocks g. blk E d' b = blk E d b)"

type_synonym 'd assertion = "'d \<Rightarrow> nat set \<Rightarrow> bool"

definition stable :: "('d, 'm) fs_env \<Rightarrow> ghost \<Rightarrow> 'd assertion \<Rightarrow> bool" where
  "stable E g Q \<longleftrightarrow> (\<forall>d I d' I'. Q d I \<longrightarrow> rely E g d I d' I' \<longrightarrow> Q d' I')"

text \<open>The request takes effect in the step, or the step does not show.\<close>

definition commits :: "Command \<Rightarrow> ghost \<Rightarrow> ghost \<Rightarrow> afs \<Rightarrow> afs \<Rightarrow> bool" where
  "commits c g g' A A' \<longleftrightarrow>
     phase g' = phase g \<and> A' = A \<or>
     phase g = Pending \<and> (\<exists>r sp. phase g' = Committed sp r \<and> spec_request sp c A = (r, A'))"

text \<open>
  Where a waiting thread stands: before the root without a lock, before a child of the directory it holds, or
  before the upgrade of its lock; a thread that holds the lock of the parent too has taken the inode out of the tree.
\<close>

definition waits_at :: "('d, 'm) fs_env \<Rightarrow> ghost \<Rightarrow> 'd \<Rightarrow> bool" where
  "waits_at E g d \<longleftrightarrow>
     (case wants g of
        None \<Rightarrow> False
      | Some (b, md, a) \<Rightarrow>
          (if md = Wr then
             held g = [b \<mapsto> Up] \<and> walk E d 0 (wpath g) = Some b \<or>
             (\<exists>n. n \<noteq> b \<and> held g = [n \<mapsto> Wr, b \<mapsto> Up] \<and> b \<in> limbo g \<and> wpath g \<noteq> [] \<and>
                walk E d 0 (butlast (wpath g)) = Some n)
           else walk E d 0 (wpath g) = Some b \<and>
             (held g = Map.empty \<and> wpath g = [] \<or>
              (\<exists>n md'. held g = [n \<mapsto> md'] \<and> md' \<in> {Rd, Wr} \<and> wpath g \<noteq> [] \<and> walk E d 0 (butlast (wpath g)) = Some n))))"

definition refused :: "(nat \<Rightarrow> ghost) \<Rightarrow> ghost \<Rightarrow> bool" where
  "refused G g \<longleftrightarrow>
     (case wants g of
        None \<Rightarrow> False
      | Some (b, md, a) \<Rightarrow>
          (if md = Rd then writers G b \<noteq> {}
           else if md = Up then upgraders G b \<union> writers G b \<noteq> {}
           else readers G b \<noteq> {}))"

subsection \<open>Safety of a task\<close>

text \<open>
  \<open>safe\<close>: from every state that fits the ghost \<open>g\<close> and the assertion \<open>Q\<close>, the next step keeps the invariants, does to
  the others what they rely on, changes the file system by nothing or by the request \<open>c\<close>, and leaves a safe task; a
  step that is not taken is one of a waiting thread; the end of the task fits \<open>post\<close>.
\<close>

inductive safe ::
  "('d, 'm) fs_env \<Rightarrow> ('m \<Rightarrow> nat \<times> bool \<times> bool) \<Rightarrow> Command \<Rightarrow>
   (stop + 'a \<Rightarrow> ghost \<Rightarrow> 'd assertion \<Rightarrow> bool) \<Rightarrow> ghost \<Rightarrow> 'd assertion \<Rightarrow> ('d, 'm, 'a) fs_task \<Rightarrow> bool"
  for E V c post
where
  safe_Done: "stable E g Q \<Longrightarrow> post r g Q \<Longrightarrow> safe E V c post g Q (Done r)"
| safe_Step: "stable E g Q \<Longrightarrow>
    (\<And>s I G i. server_inv E V s I G \<Longrightarrow> G i = g \<Longrightarrow> Q (sh_disk s) I \<Longrightarrow> f s = None \<Longrightarrow>
      waits_at E g (sh_disk s) \<and> refused G g) \<Longrightarrow>
    (\<And>s I G i t s'. server_inv E V s I G \<Longrightarrow> G i = g \<Longrightarrow> Q (sh_disk s) I \<Longrightarrow> f s = Some (t, s') \<Longrightarrow>
      \<exists>g' I' Q'. server_inv E V s' I' (G(i := g')) \<and>
        (\<forall>j. j \<noteq> i \<longrightarrow> rely E (G j) (sh_disk s) I (sh_disk s') I') \<and>
        commits c g g' (abs_fs E (sh_disk s)) (abs_fs E (sh_disk s')) \<and>
        Q' (sh_disk s') I' \<and> safe E V c post g' Q' t) \<Longrightarrow>
    safe E V c post g Q (Step f)"

lemma safe_stable: "safe E V c post g Q t \<Longrightarrow> stable E g Q"
  by (induction rule: safe.induct)

lemma safe_bind:
  assumes "safe E V c mid g Q t"
    and "\<And>r g Q. mid r g Q \<Longrightarrow> stable E g Q \<Longrightarrow> safe E V c post g Q (bindt (Done r) k)"
  shows "safe E V c post g Q (bindt t k)"
  using assms(1)
proof (induction rule: safe.induct)
  case (safe_Done g Q r)
  then show ?case using assms(2) by simp
next
  case (safe_Step g Q f)
  show ?case unfolding bindt.simps
  proof (rule safe.safe_Step [OF safe_Step(1)])
    fix s I G i
    assume pre: "server_inv E V s I G" "G i = g" "Q (sh_disk s) I"
    show "waits_at E g (sh_disk s) \<and> refused G g"
      if "map_option (map_prod (\<lambda>t. bindt t k) id) (f s) = None"
      using safe_Step(2) [OF pre] that by simp
    fix t s' assume "map_option (map_prod (\<lambda>t. bindt t k) id) (f s) = Some (t, s')"
    then obtain t0 where t0: "f s = Some (t0, s')" "t = bindt t0 k" by auto
    show "\<exists>g' I' Q'. server_inv E V s' I' (G(i := g')) \<and>
        (\<forall>j. j \<noteq> i \<longrightarrow> rely E (G j) (sh_disk s) I (sh_disk s') I') \<and>
        commits c g g' (abs_fs E (sh_disk s)) (abs_fs E (sh_disk s')) \<and>
        Q' (sh_disk s') I' \<and> safe E V c post g' Q' t"
      using safe_Step(3) [OF pre t0(1)] t0(2) by blast
  qed
qed

lemma safe_conseq:
  assumes "safe E V c post g Q t" and "\<And>d I. Q' d I \<Longrightarrow> Q d I" and "stable E g Q'"
    and "\<And>r. t = Done r \<Longrightarrow> post r g Q'"
  shows "safe E V c post g Q' t"
  using assms(1)
proof cases
  case (safe_Done r)
  then show ?thesis using assms(3,4) by (auto intro: safe.safe_Done)
next
  case (safe_Step f)
  show ?thesis unfolding safe_Step(1)
    by (rule safe.safe_Step [OF assms(3)]) (use safe_Step(3,4) assms(2) in blast)+
qed

end
