(* ===== verification/FS_Lock_Table.thy ===== *)
theory FS_Lock_Table
  imports FS_Ghost
begin

text \<open>
  Every step on the lock table keeps \<open>lock_inv\<close>: an entry exists as long as a thread is registered, it counts the
  registered threads, and its mutex is held exactly by the threads whose ghosts say so.
\<close>

lemma by_thread [simp]:
  "users (G(i := g)) b = (if registered g b then insert i (users G b) else users G b - {i})"
  "readers (G(i := g)) b = (if held g b = Some Rd then insert i (readers G b) else readers G b - {i})"
  "upgraders (G(i := g)) b = (if held g b = Some Up then insert i (upgraders G b) else upgraders G b - {i})"
  "writers (G(i := g)) b =
    (if held g b = Some Wr \<or> held g b = Some Dead then insert i (writers G b) else writers G b - {i})"
  by (auto simp: users_def readers_def upgraders_def writers_def)

lemma lock_invD:
  assumes "lock_inv V s G"
  shows lock_inv_finite: "finite (users G b)"
    and lock_inv_wish: "wish_ok s (G i)"
    and lock_inv_entry: "entry_ok V s G b"
    and lock_inv_ptr: "sh_map s b = Some g \<Longrightarrow> sh_map s b' = Some g' \<Longrightarrow> m_ptr g = m_ptr g' \<Longrightarrow> b = b'"
    and lock_inv_one: "i \<in> upgraders G b \<union> writers G b \<Longrightarrow> j \<in> upgraders G b \<union> writers G b \<Longrightarrow> i = j"
    and lock_inv_excl: "writers G b \<noteq> {} \<Longrightarrow> readers G b = {}"
  using assms unfolding lock_inv_def by blast+

lemma entry_ok_Some: "entry_ok V s G b \<Longrightarrow> i \<in> users G b \<Longrightarrow> sh_map s b \<noteq> None"
  by (cases "sh_map s b") (auto simp: entry_ok_def)

lemma registered_held: "held g b \<noteq> None \<Longrightarrow> registered g b"
  by (simp add: registered_def)

lemma registered_entry:
  assumes "lock_inv V s G" and "registered (G i) b"
  obtains e where "sh_map s b = Some e" "num_readers e = card (users G b)" "m_ptr e < sh_next s"
    "V (sh_mutex s (m_ptr e)) = (card (readers G b), upgraders G b \<noteq> {}, writers G b \<noteq> {})"
proof -
  have "i \<in> users G b" using assms(2) by (simp add: users_def)
  then show ?thesis using lock_inv_entry [OF assms(1), of b] that
    by (cases "sh_map s b") (auto simp: entry_ok_def)
qed

text \<open>A step of the thread \<open>i\<close> on the entry of the block \<open>b\<close>.\<close>

lemma lock_inv_step:
  assumes inv: "lock_inv V s G"
    and g: "\<And>x. x \<noteq> b \<Longrightarrow> held g' x = held (G i) x" "\<And>x. x \<noteq> b \<Longrightarrow> registered g' x = registered (G i) x"
    and s: "\<And>x. x \<noteq> b \<Longrightarrow> sh_map s' x = sh_map s x" "sh_next s \<le> sh_next s'"
      "\<And>x e. x \<noteq> b \<Longrightarrow> sh_map s x = Some e \<Longrightarrow> sh_mutex s' (m_ptr e) = sh_mutex s (m_ptr e)"
    and entry: "entry_ok V s' (G(i := g')) b"
    and ptr: "\<And>e e'. sh_map s b = Some e \<Longrightarrow> sh_map s' b = Some e' \<Longrightarrow> m_ptr e' = m_ptr e"
      "\<And>e'. sh_map s b = None \<Longrightarrow> sh_map s' b = Some e' \<Longrightarrow> m_ptr e' = sh_next s"
    and wish: "wish_ok s' g'"
    and excl: "\<And>j. j \<noteq> i \<Longrightarrow> held g' b \<in> {Some Up, Some Wr, Some Dead} \<Longrightarrow>
        held (G j) b \<notin> {Some Up, Some Wr, Some Dead}"
      "\<And>j. j \<noteq> i \<Longrightarrow> held g' b \<in> {Some Wr, Some Dead} \<Longrightarrow> held (G j) b \<noteq> Some Rd"
      "\<And>j. j \<noteq> i \<Longrightarrow> held g' b = Some Rd \<Longrightarrow> held (G j) b \<notin> {Some Wr, Some Dead}"
  shows "lock_inv V s' (G(i := g'))"
proof -
  let ?G = "G(i := g')"
  have same: "users ?G x = users G x" "readers ?G x = readers G x" "upgraders ?G x = upgraders G x"
    "writers ?G x = writers G x" if "x \<noteq> b" for x
    using g that by (auto simp: users_def readers_def upgraders_def writers_def)
  have small: "m_ptr e < sh_next s" if "sh_map s x = Some e" for x e
    using lock_inv_entry [OF inv, of x] that by (simp add: entry_ok_def)
  show ?thesis unfolding lock_inv_def
  proof (intro conjI allI impI)
    fix x show "finite (users ?G x)" using lock_inv_finite [OF inv, of x] by simp
  next
    fix j show "wish_ok s' (?G j)"
    proof (cases "j = i")
      case False
      have ok: "wish_ok s (G j)" by (rule lock_inv_wish [OF inv])
      show ?thesis
      proof (cases "wants (G j)")
        case (Some w)
        obtain x md a where w: "w = (x, md, a)" by (cases w) auto
        have e: "map_option m_ptr (sh_map s x) = Some a" "md \<noteq> Dead"
          "held (G j) x = (if md = Wr then Some Up else None)"
          using ok Some w by (simp_all add: wish_ok_def)
        then have "registered (G j) x" using Some w by (cases md) (auto simp: registered_def)
        then have "j \<in> users ?G x" using False by (simp add: users_def)
        then have "x = b \<Longrightarrow> sh_map s' x \<noteq> None" using entry_ok_Some [OF entry] by blast
        then have "map_option m_ptr (sh_map s' x) = Some a" using e(1) s(1) [of x] ptr(1)
          by (cases "x = b") auto
        then show ?thesis using False Some w e(2,3) by (simp add: wish_ok_def)
      qed (use False in \<open>simp add: wish_ok_def\<close>)
    qed (use wish in simp)
  next
    fix x show "entry_ok V s' ?G x"
    proof (cases "x = b")
      case False
      then show ?thesis using lock_inv_entry [OF inv, of x] s(1,3) [OF False] s(2)
        by (auto simp: entry_ok_def same [OF False] simp del: by_thread split: option.splits)
    qed (use entry in simp)
  next
    fix x y e e' assume xy: "sh_map s' x = Some e" "sh_map s' y = Some e'" "m_ptr e = m_ptr e'"
    have old: "m_ptr e \<noteq> m_ptr e'" if "sh_map s' b = Some e" "sh_map s y = Some e'" "y \<noteq> b" for e e' y
    proof (cases "sh_map s b")
      case None
      then show ?thesis using ptr(2) [OF None that(1)] small [OF that(2)] by simp
    next
      case (Some e0)
      have "m_ptr e = m_ptr e0" by (rule ptr(1) [OF Some that(1)])
      then show ?thesis using lock_inv_ptr [OF inv Some that(2)] that(3) by metis
    qed
    consider "x = b" "y = b" | "x = b" "y \<noteq> b" | "x \<noteq> b" "y = b" | "x \<noteq> b" "y \<noteq> b" by blast
    then show "x = y"
    proof cases
      case 2
      then show ?thesis using old [of e y e'] xy s(1) [OF 2(2)] by simp
    next
      case 3
      then show ?thesis using old [of e' x e] xy s(1) [OF 3(1)] by simp
    next
      case 4
      have "sh_map s x = Some e" "sh_map s y = Some e'" using xy(1,2) s(1) [OF 4(1)] s(1) [OF 4(2)] by simp_all
      then show ?thesis using lock_inv_ptr [OF inv] xy(3) by metis
    qed simp
  next
    fix x j k assume jk: "j \<in> upgraders ?G x \<union> writers ?G x" "k \<in> upgraders ?G x \<union> writers ?G x"
    show "j = k"
    proof (cases "x = b")
      case True
      then show ?thesis using jk excl(1) lock_inv_one [OF inv, of j b k]
        by (auto simp: upgraders_def writers_def split: if_splits)
    next
      case False
      then show ?thesis using jk lock_inv_one [OF inv] by (simp add: same del: by_thread)
    qed
  next
    fix x assume ne: "writers ?G x \<noteq> {}"
    show "readers ?G x = {}"
    proof (cases "x = b")
      case True
      have "\<not> (j \<noteq> i \<and> k \<noteq> i \<and> held (G j) b \<in> {Some Wr, Some Dead} \<and> held (G k) b = Some Rd)" for j k
        using lock_inv_excl [OF inv, of b] by (auto simp: writers_def readers_def)
      then show ?thesis using True ne excl(2,3) by (fastforce simp: writers_def readers_def split: if_splits)
    next
      case False
      then show ?thesis using ne lock_inv_excl [OF inv] by (simp add: same del: by_thread)
    qed
  qed
qed

text \<open>The parts of a lock invariant that a change of the other parts of the state does not touch.\<close>

lemma lock_inv_cong:
  assumes "lock_inv V s G" and "sh_map s' = sh_map s" "sh_mutex s' = sh_mutex s" "sh_next s' = sh_next s"
    and "\<And>j. held (G' j) = held (G j)" "\<And>j. wants (G' j) = wants (G j)"
  shows "lock_inv V s' G'"
proof -
  have "registered (G' j) = registered (G j)" for j using assms(5,6) by (auto simp: registered_def fun_eq_iff)
  then have "users G' = users G" "readers G' = readers G" "upgraders G' = upgraders G" "writers G' = writers G"
    using assms(5) by (auto simp: users_def readers_def upgraders_def writers_def fun_eq_iff)
  moreover have "entry_ok V s' G' b = entry_ok V s G b" for b
    using assms(2-4) calculation by (cases "sh_map s b") (simp_all add: entry_ok_def)
  moreover have "wish_ok s' (G' i) = wish_ok s (G i)" for i using assms(2,5,6) by (cases "wants (G i)") (auto simp: wish_ok_def)
  ultimately show ?thesis using assms(1,2) by (simp add: lock_inv_def)
qed


subsection \<open>The steps\<close>

text \<open>A new wish, a granted wish and a lock given back, as changes of the ghost.\<close>

definition wishes :: "ghost \<Rightarrow> nat \<Rightarrow> lmode \<Rightarrow> nat \<Rightarrow> string list \<Rightarrow> ghost" where
  "wishes g b md a p = g\<lparr>wants := Some (b, md, a), wpath := p\<rparr>"

definition takes_lock :: "ghost \<Rightarrow> nat \<Rightarrow> lmode \<Rightarrow> ghost" where
  "takes_lock g b md = g\<lparr>held := (held g)(b \<mapsto> md), wants := None\<rparr>"

definition gives_lock :: "ghost \<Rightarrow> nat \<Rightarrow> ghost" where
  "gives_lock g b = g\<lparr>held := (held g)(b := None)\<rparr>"

lemma ghost_steps [simp]:
  "held (wishes g b md a p) = held g" "wants (wishes g b md a p) = Some (b, md, a)" "wpath (wishes g b md a p) = p"
  "fresh (wishes g b md a p) = fresh g" "limbo (wishes g b md a p) = limbo g" "phase (wishes g b md a p) = phase g"
  "held (takes_lock g b md) = (held g)(b \<mapsto> md)" "wants (takes_lock g b md) = None"
  "wpath (takes_lock g b md) = wpath g"
  "fresh (takes_lock g b md) = fresh g" "limbo (takes_lock g b md) = limbo g" "phase (takes_lock g b md) = phase g"
  "held (gives_lock g b) = (held g)(b := None)" "wants (gives_lock g b) = wants g"
  "wpath (gives_lock g b) = wpath g"
  "fresh (gives_lock g b) = fresh g" "limbo (gives_lock g b) = limbo g" "phase (gives_lock g b) = phase g"
  by (simp_all add: wishes_def takes_lock_def gives_lock_def)

lemma register_user_keeps:
  assumes nv: "V (sm_new E) = (0, False, False)" and inv: "lock_inv V s G" and g: "G i = g" "wants g = None" "held g b = None" and md: "md \<in> {Rd, Up}"
    and r: "register_user E b s = (r, s')"
  shows "\<exists>a. r = Inr a \<and> lock_inv V s' (G(i := wishes g b md a p))"
proof -
  have notin: "i \<notin> users G b" "i \<notin> readers G b" "i \<notin> upgraders G b" "i \<notin> writers G b"
    using g by (auto simp: users_def registered_def readers_def upgraders_def writers_def)
  have fin: "finite (users G b)" by (rule lock_inv_finite [OF inv])
  have reg: "registered (wishes g b md a p) b" "x \<noteq> b \<Longrightarrow> registered (wishes g b md a p) x = registered (G i) x" for a x
    using md g by (auto simp: registered_def)
  show ?thesis
  proof (cases "sh_map s b")
    case None
    have sub: "readers G b \<subseteq> users G b" "upgraders G b \<subseteq> users G b" "writers G b \<subseteq> users G b"
      by (auto simp: readers_def upgraders_def writers_def users_def registered_def)
    have empty: "users G b = {}" using lock_inv_entry [OF inv, of b] None by (simp add: entry_ok_def)
    then have none: "readers G b = {}" "upgraders G b = {}" "writers G b = {}" using sub by auto
    have res: "r = Inr (sh_next s)" and s': "s' = s\<lparr>sh_map := (sh_map s)(b \<mapsto> \<lparr>m_ptr = sh_next s, num_readers = 1\<rparr>),
             sh_mutex := (sh_mutex s)(sh_next s := sm_new E), sh_next := sh_next s + 1\<rparr>"
      using r None by (simp_all add: register_user_def)
    have small: "m_ptr e < sh_next s" if "sh_map s x = Some e" for x e
      using lock_inv_entry [OF inv, of x] that by (simp add: entry_ok_def)
    have "lock_inv V s' (G(i := wishes g b md (sh_next s) p))"
      by (rule lock_inv_step [OF inv, where b = b])
        (use reg None g md empty none nv small in \<open>auto simp: s' entry_ok_def wish_ok_def dest: small\<close>)
    then show ?thesis using res by blast
  next
    case (Some e)
    have res: "r = Inr (m_ptr e)" and s': "s' = s\<lparr>sh_map := (sh_map s)(b \<mapsto> e\<lparr>num_readers := num_readers e + 1\<rparr>)\<rparr>"
      using r Some by (simp_all add: register_user_def)
    have "lock_inv V s' (G(i := wishes g b md (m_ptr e) p))"
      by (rule lock_inv_step [OF inv, where b = b])
        (use lock_inv_entry [OF inv, of b] reg Some g md fin notin in \<open>auto simp: s' entry_ok_def wish_ok_def\<close>)
    then show ?thesis using res by blast
  qed
qed

lemma find_user_keeps:
  assumes inv: "lock_inv V s G" and g: "G i = g" "wants g = None" "held g b = Some Up"
    and r: "find_user b s = (r, s')"
  shows "\<exists>a. r = Inr a \<and> s' = s \<and> lock_inv V s (G(i := wishes g b Wr a p))"
proof -
  have "registered (G i) b" using g by (simp add: registered_def)
  then obtain e where e: "sh_map s b = Some e" by (rule registered_entry [OF inv])
  have reg: "registered (wishes g b Wr a p) x = registered (G i) x" for a x
    using g by (auto simp: registered_def)
  then have same: "users (G(i := wishes g b Wr a p)) = users G" "readers (G(i := wishes g b Wr a p)) = readers G"
     "upgraders (G(i := wishes g b Wr a p)) = upgraders G" "writers (G(i := wishes g b Wr a p)) = writers G" for a
    using g by (auto simp: users_def readers_def upgraders_def writers_def fun_eq_iff)
  have "lock_inv V s (G(i := wishes g b Wr (m_ptr e) p))"
    by (rule lock_inv_step [OF inv, where b = b])
      (use lock_inv_entry [OF inv, of b] e reg g lock_inv_one [OF inv, of i b] in
       \<open>auto simp: same entry_ok_def wish_ok_def upgraders_def writers_def simp del: by_thread\<close>)
  moreover have "r = Inr (m_ptr e)" "s' = s" using r e by (simp_all add: find_user_def)
  ultimately show ?thesis by blast
qed


lemma wish_entry:
  assumes inv: "lock_inv V s G" and g: "G i = g" "wants g = Some (b, md, a)"
  obtains e where "sh_map s b = Some e" "m_ptr e = a" "registered g b" "held g b = (if md = Wr then Some Up else None)"
    "md \<noteq> Dead" "V (sh_mutex s a) = (card (readers G b), upgraders G b \<noteq> {}, writers G b \<noteq> {})"
proof -
  have w: "map_option m_ptr (sh_map s b) = Some a" "md \<noteq> Dead" "held g b = (if md = Wr then Some Up else None)"
    using lock_inv_wish [OF inv, of i] g by (simp_all add: wish_ok_def)
  then obtain e where e: "sh_map s b = Some e" "m_ptr e = a" by auto
  have "registered g b" using g w(2,3) by (cases md) (auto simp: registered_def)
  then show ?thesis using that [OF e] lock_inv_entry [OF inv, of b] w e by (simp add: entry_ok_def)
qed

text \<open>A wish is granted: the mutex changes its holders, the entry stays.\<close>

lemma grant_keeps:
  assumes inv: "lock_inv V s G" and g: "G i = g" "wants g = Some (b, md, a)"
    and view: "V y = (card (readers (G(i := takes_lock g b md')) b), upgraders (G(i := takes_lock g b md')) b \<noteq> {},
      writers (G(i := takes_lock g b md')) b \<noteq> {})"
    and excl: "\<And>j. j \<noteq> i \<Longrightarrow> md' \<in> {Up, Wr, Dead} \<Longrightarrow> held (G j) b \<notin> {Some Up, Some Wr, Some Dead}"
      "\<And>j. j \<noteq> i \<Longrightarrow> md' \<in> {Wr, Dead} \<Longrightarrow> held (G j) b \<noteq> Some Rd"
      "\<And>j. j \<noteq> i \<Longrightarrow> md' = Rd \<Longrightarrow> held (G j) b \<notin> {Some Wr, Some Dead}"
  shows "lock_inv V (s\<lparr>sh_mutex := (sh_mutex s)(a := y)\<rparr>) (G(i := takes_lock g b md'))"
proof -
  obtain e where e: "sh_map s b = Some e" "m_ptr e = a" "registered g b"
    by (rule wish_entry [OF inv g])
  have reg: "registered (takes_lock g b md') x = registered (G i) x" for x
    using g e(3) by (auto simp: registered_def split: if_splits)
  have "i \<in> users G b" using g(1) e(3) by (simp add: users_def)
  then have users: "users (G(i := takes_lock g b md')) b = users G b"
    using reg e(3) g(1) by (auto simp: users_def)
  have other: "m_ptr e' \<noteq> a" if "x \<noteq> b" "sh_map s x = Some e'" for x e'
    using lock_inv_ptr [OF inv that(2) e(1)] that(1) e(2) by auto
  show ?thesis
  proof (rule lock_inv_step [OF inv, where b = b])
    show "entry_ok V (s\<lparr>sh_mutex := (sh_mutex s)(a := y)\<rparr>) (G(i := takes_lock g b md')) b"
      using lock_inv_entry [OF inv, of b] e view users by (simp add: entry_ok_def del: by_thread)
  qed (use g e reg other excl in \<open>auto simp: wish_ok_def\<close>)
qed

context shared_mutex
begin

lemma acquire_read:
  assumes inv: "lock_inv V s G" and g: "G i = g" "wants g = Some (b, Rd, a)"
    and r: "acquire (sm_lock_shared E) a s = (r, s')"
  shows "r = Inl Blocked \<and> refused G g \<or>
    (\<exists>y. r = Inr () \<and> s' = s\<lparr>sh_mutex := (sh_mutex s)(a := y)\<rparr> \<and> lock_inv V s' (G(i := takes_lock g b Rd)))"
proof -
  obtain e where e: "sh_map s b = Some e" "m_ptr e = a" "registered g b" "held g b = None"
      "V (sh_mutex s a) = (card (readers G b), upgraders G b \<noteq> {}, writers G b \<noteq> {})"
    by (rule wish_entry [OF inv g]) simp
  have fin: "finite (readers G b)"
    by (rule finite_subset [OF _ lock_inv_finite [OF inv, of b]]) (auto simp: readers_def users_def registered_def)
  have notin: "i \<notin> readers G b" "i \<notin> upgraders G b" "i \<notin> writers G b"
    using e(4) g(1) by (auto simp: readers_def upgraders_def writers_def)
  show ?thesis
  proof (cases "sm_lock_shared E (sh_mutex s a)")
    case None
    then have "writers G b \<noteq> {}" using lock_shared [OF e(5)] by simp
    then show ?thesis using None r g by (simp add: acquire_def refused_def)
  next
    case (Some y)
    then have y: "writers G b = {}" "V y = (card (readers G b) + 1, upgraders G b \<noteq> {}, writers G b \<noteq> {})"
      using lock_shared [OF e(5)] by auto
    have "lock_inv V (s\<lparr>sh_mutex := (sh_mutex s)(a := y)\<rparr>) (G(i := takes_lock g b Rd))"
      by (rule grant_keeps [OF inv g]) (use y notin fin in \<open>auto simp: writers_def\<close>)
    then show ?thesis using r Some by (auto simp: acquire_def)
  qed
qed

lemma acquire_upgrade:
  assumes inv: "lock_inv V s G" and g: "G i = g" "wants g = Some (b, Up, a)"
    and r: "acquire (sm_lock_upgrade E) a s = (r, s')"
  shows "r = Inl Blocked \<and> refused G g \<or>
    (\<exists>y. r = Inr () \<and> s' = s\<lparr>sh_mutex := (sh_mutex s)(a := y)\<rparr> \<and> lock_inv V s' (G(i := takes_lock g b Up)))"
proof -
  obtain e where e: "sh_map s b = Some e" "m_ptr e = a" "registered g b" "held g b = None"
      "V (sh_mutex s a) = (card (readers G b), upgraders G b \<noteq> {}, writers G b \<noteq> {})"
    by (rule wish_entry [OF inv g]) simp
  have notin: "i \<notin> readers G b" "i \<notin> upgraders G b" "i \<notin> writers G b"
    using e(4) g(1) by (auto simp: readers_def upgraders_def writers_def)
  show ?thesis
  proof (cases "sm_lock_upgrade E (sh_mutex s a)")
    case None
    then have "upgraders G b \<union> writers G b \<noteq> {}" using lock_upgrade [OF e(5)] by auto
    then show ?thesis using None r g by (simp add: acquire_def refused_def)
  next
    case (Some y)
    then have y: "upgraders G b = {}" "writers G b = {}" "V y = (card (readers G b), True, writers G b \<noteq> {})"
      using lock_upgrade [OF e(5)] by auto
    have "lock_inv V (s\<lparr>sh_mutex := (sh_mutex s)(a := y)\<rparr>) (G(i := takes_lock g b Up))"
      by (rule grant_keeps [OF inv g]) (use y notin in \<open>auto simp: writers_def upgraders_def\<close>)
    then show ?thesis using r Some by (auto simp: acquire_def)
  qed
qed

lemma acquire_exclusive:
  assumes inv: "lock_inv V s G" and g: "G i = g" "wants g = Some (b, Wr, a)" and md: "md \<in> {Wr, Dead}"
    and r: "acquire (sm_unlock_upgrade_and_lock E) a s = (r, s')"
  shows "r = Inl Blocked \<and> refused G g \<or>
    (\<exists>y. r = Inr () \<and> s' = s\<lparr>sh_mutex := (sh_mutex s)(a := y)\<rparr> \<and> readers G b = {} \<and>
      lock_inv V s' (G(i := takes_lock g b md)))"
proof -
  obtain e where e: "sh_map s b = Some e" "m_ptr e = a" "registered g b" "held g b = Some Up"
      "V (sh_mutex s a) = (card (readers G b), upgraders G b \<noteq> {}, writers G b \<noteq> {})"
    by (rule wish_entry [OF inv g]) simp
  have fin: "finite (readers G b)"
    by (rule finite_subset [OF _ lock_inv_finite [OF inv, of b]]) (auto simp: readers_def users_def registered_def)
  have up: "i \<in> upgraders G b" using e(4) g(1) by (simp add: upgraders_def)
  have one: "j = i" if "j \<in> upgraders G b \<union> writers G b" for j
    using lock_inv_one [OF inv that, of i] up by simp
  have "i \<notin> writers G b" using e(4) g(1) by (simp add: writers_def)
  then have notw: "writers G b = {}" using one by blast
  have view: "V (sh_mutex s a) = (card (readers G b), True, False)" using e(5) up notw by auto
  show ?thesis
  proof (cases "sm_unlock_upgrade_and_lock E (sh_mutex s a)")
    case None
    then have "readers G b \<noteq> {}" using upgrade_lock [OF view] by auto
    then show ?thesis using None r g by (simp add: acquire_def refused_def)
  next
    case (Some y)
    then have "card (readers G b) = 0" and y: "V y = (card (readers G b), False, True)"
      using upgrade_lock [OF view] by simp_all
    then have none: "readers G b = {}" using fin by simp
    have "lock_inv V (s\<lparr>sh_mutex := (sh_mutex s)(a := y)\<rparr>) (G(i := takes_lock g b md))"
      by (rule grant_keeps [OF inv g])
        (use y none one md in \<open>auto simp: writers_def upgraders_def readers_def\<close>)
    then show ?thesis using r Some none by (auto simp: acquire_def)
  qed
qed

end

text \<open>A lock is given back: the entry loses a user, or disappears with its last one.\<close>

lemma release_keeps:
  assumes inv: "lock_inv V s G" and g: "G i = g" "wants g = None" "held g b \<noteq> None"
    and r: "release_user f b s = (r, s')"
    and view: "\<And>x. V x = (card (readers G b), upgraders G b \<noteq> {}, writers G b \<noteq> {}) \<Longrightarrow>
      V (f x) = (card (readers (G(i := gives_lock g b)) b), upgraders (G(i := gives_lock g b)) b \<noteq> {},
        writers (G(i := gives_lock g b)) b \<noteq> {})"
  shows "r = Inr () \<and> (\<exists>m x. s' = s\<lparr>sh_mutex := x, sh_map := m\<rparr>) \<and> lock_inv V s' (G(i := gives_lock g b))"
proof -
  have "registered (G i) b" using g by (simp add: registered_def)
  then obtain e where e: "sh_map s b = Some e" "num_readers e = card (users G b)" "m_ptr e < sh_next s"
    "V (sh_mutex s (m_ptr e)) = (card (readers G b), upgraders G b \<noteq> {}, writers G b \<noteq> {})"
    by (rule registered_entry [OF inv])
  let ?s = "s\<lparr>sh_mutex := (sh_mutex s)(m_ptr e := f (sh_mutex s (m_ptr e))),
      sh_map := (sh_map s)(b := (if num_readers e - 1 = 0 then None else Some (e\<lparr>num_readers := num_readers e - 1\<rparr>)))\<rparr>"
  have res: "r = Inr ()" "s' = ?s" using r e(1) by (simp_all add: release_user_def)
  have iu: "i \<in> users G b" using \<open>registered (G i) b\<close> by (simp add: users_def)
  have fin: "finite (users G b)" by (rule lock_inv_finite [OF inv])
  have reg: "\<not> registered (gives_lock g b) b" "x \<noteq> b \<Longrightarrow> registered (gives_lock g b) x = registered (G i) x" for x
    using g by (auto simp: registered_def)
  then have users: "users (G(i := gives_lock g b)) b = users G b - {i}" by simp
  have card: "card (users G b - {i}) = num_readers e - 1" using e(2) iu by simp
  have other: "m_ptr e' \<noteq> m_ptr e" if "x \<noteq> b" "sh_map s x = Some e'" for x e'
    using lock_inv_ptr [OF inv that(2) e(1)] that(1) by blast
  have "lock_inv V ?s (G(i := gives_lock g b))"
  proof (rule lock_inv_step [OF inv, where b = b])
    show "entry_ok V ?s (G(i := gives_lock g b)) b"
    proof (cases "num_readers e - 1 = 0")
      case True
      then have "users G b - {i} = {}" using card fin by simp
      then show ?thesis unfolding entry_ok_def users using True by simp
    next
      case False
      then have "users G b - {i} \<noteq> {}" using card by force
      then show ?thesis unfolding entry_ok_def users using False card view [OF e(4)] e(3)
        by (simp del: by_thread)
    qed
  qed (use g e reg other in \<open>auto simp: wish_ok_def split: if_splits\<close>)
  then show ?thesis using res by blast
qed

context shared_mutex
begin

lemma release_read:
  assumes inv: "lock_inv V s G" and g: "G i = g" "wants g = None" "held g b = Some Rd"
    and r: "release_user (sm_unlock_shared E) b s = (r, s')"
  shows "r = Inr () \<and> (\<exists>m x. s' = s\<lparr>sh_mutex := x, sh_map := m\<rparr>) \<and> lock_inv V s' (G(i := gives_lock g b))"
proof (rule release_keeps [OF inv g(1,2) _ r])
  have i: "i \<in> readers G b" "i \<notin> upgraders G b" "i \<notin> writers G b"
    using g by (auto simp: readers_def upgraders_def writers_def)
  have "finite (readers G b)"
    by (rule finite_subset [OF _ lock_inv_finite [OF inv, of b]]) (auto simp: readers_def users_def registered_def)
  then have "0 < card (readers G b)" using i(1) card_gt_0_iff by blast
  then show "V (sm_unlock_shared E x) = (card (readers (G(i := gives_lock g b)) b),
      upgraders (G(i := gives_lock g b)) b \<noteq> {}, writers (G(i := gives_lock g b)) b \<noteq> {})"
    if "V x = (card (readers G b), upgraders G b \<noteq> {}, writers G b \<noteq> {})" for x
    using unlock_shared [OF that] i by simp
qed (use g in simp)

lemma release_upgrade:
  assumes inv: "lock_inv V s G" and g: "G i = g" "wants g = None" "held g b = Some Up"
    and r: "release_user (sm_unlock_upgrade E) b s = (r, s')"
  shows "r = Inr () \<and> (\<exists>m x. s' = s\<lparr>sh_mutex := x, sh_map := m\<rparr>) \<and> lock_inv V s' (G(i := gives_lock g b))"
proof (rule release_keeps [OF inv g(1,2) _ r])
  have i: "i \<notin> readers G b" "i \<in> upgraders G b" "i \<notin> writers G b"
    using g by (auto simp: readers_def upgraders_def writers_def)
  then have "upgraders G b - {i} = {}" using lock_inv_one [OF inv, of i b] by blast
  then show "V (sm_unlock_upgrade E x) = (card (readers (G(i := gives_lock g b)) b),
      upgraders (G(i := gives_lock g b)) b \<noteq> {}, writers (G(i := gives_lock g b)) b \<noteq> {})"
    if "V x = (card (readers G b), upgraders G b \<noteq> {}, writers G b \<noteq> {})" for x
    using unlock_upgrade [of x "card (readers G b)" "writers G b \<noteq> {}"] that i by auto
qed (use g in simp)

lemma release_exclusive:
  assumes inv: "lock_inv V s G" and g: "G i = g" "wants g = None" "held g b \<in> {Some Wr, Some Dead}"
    and r: "release_user (sm_unlock E) b s = (r, s')"
  shows "r = Inr () \<and> (\<exists>m x. s' = s\<lparr>sh_mutex := x, sh_map := m\<rparr>) \<and> lock_inv V s' (G(i := gives_lock g b))"
proof (rule release_keeps [OF inv g(1,2) _ r])
  have i: "i \<notin> readers G b" "i \<notin> upgraders G b" "i \<in> writers G b"
    using g by (auto simp: readers_def upgraders_def writers_def)
  then have "writers G b - {i} = {}" using lock_inv_one [OF inv, of i b] by blast
  then show "V (sm_unlock E x) = (card (readers (G(i := gives_lock g b)) b),
      upgraders (G(i := gives_lock g b)) b \<noteq> {}, writers (G(i := gives_lock g b)) b \<noteq> {})"
    if "V x = (card (readers G b), upgraders G b \<noteq> {}, writers G b \<noteq> {})" for x
    using unlock_exclusive [of x "card (readers G b)" "upgraders G b \<noteq> {}"] that i by auto
qed (use g in auto)

end

end
