(* ===== verification/FS_Rules.thy ===== *)
theory FS_Rules
  imports FS_Lock_Table
begin

text \<open>
  The steps of \<open>FS_Threads\<close> as proof rules for \<open>safe\<close>: what a thread has to know before a step, and what it knows
  and owns after it, while the other threads run in between.
\<close>

subsection \<open>The file server with several threads\<close>

locale fs_server = disk_device E + shared_mutex E V for E :: "('d, 'm) fs_env" and V :: "'m \<Rightarrow> nat \<times> bool \<times> bool"

sublocale fs_server \<subseteq> fs_device E
proof unfold_locales
  show "sm_lock_shared E (sm_new E) \<noteq> None" using lock_shared [OF new_view] by (cases "sm_lock_shared E (sm_new E)") simp_all
  show "sm_lock_upgrade E (sm_new E) \<noteq> None" using lock_upgrade [OF new_view] by (cases "sm_lock_upgrade E (sm_new E)") simp_all
  show "sm_unlock_upgrade_and_lock E x \<noteq> None" if "sm_lock_upgrade E (sm_new E) = Some x" for x
    using lock_upgrade [OF new_view] that upgrade_lock [of x 0 False]
    by (cases "sm_unlock_upgrade_and_lock E x") simp_all
qed

interpretation ram_server: fs_server ram_env "\<lambda>x. x"
  by unfold_locales (auto simp: ram_env_def)

lemma rely_refl: "fs_wf E d I \<Longrightarrow> rely E g d I d I"
  by (simp add: rely_def untouched_def)

lemma block_invD:
  assumes "block_inv E s I G"
  shows block_inv_wf: "fs_wf E (sh_disk s) I"
    and block_inv_free: "free_ok E (sh_disk s) I (sh_free s)"
    and block_inv_apart: "fresh (G i) \<inter> limbo (G i) = {}"
    and block_inv_private: "b \<in> private_blocks (G i) \<Longrightarrow> b < FS_DISKSIZE" "b \<in> private_blocks (G i) \<Longrightarrow> b \<notin> set (sh_free s)"
    and block_inv_owned: "n \<in> I \<Longrightarrow> set (owned E (sh_disk s) n) \<inter> private_blocks (G i) = {}"
    and block_inv_distinct: "i \<noteq> j \<Longrightarrow> private_blocks (G i) \<inter> private_blocks (G j) = {}"
    and block_inv_held: "held (G i) n = Some m \<Longrightarrow> m \<noteq> Dead \<Longrightarrow> n \<notin> I \<Longrightarrow>
       \<exists>j. set (owned E (sh_disk s) n) \<subseteq> limbo (G j) \<and> held (G j) n \<in> {Some Up, Some Wr}"
  using assms by (simp_all add: block_inv_def)

lemma server_inv_wf: "server_inv E V s I G \<Longrightarrow> fs_wf E (sh_disk s) I"
  by (simp add: server_inv_def block_inv_def)

text \<open>Only the locks of the thread change.\<close>

lemma block_inv_locks:
  assumes inv: "block_inv E s I G" and s: "sh_disk s' = sh_disk s" "sh_free s' = sh_free s"
    and g: "fresh g' = fresh (G i)" "limbo g' = limbo (G i)"
    and new: "\<And>n m. held g' n = Some m \<Longrightarrow> m \<noteq> Dead \<Longrightarrow> n \<in> I \<or> (\<exists>m0. held (G i) n = Some m0 \<and> m0 \<noteq> Dead)"
    and old: "\<And>n. n \<notin> I \<Longrightarrow> held (G i) n \<in> {Some Up, Some Wr} \<Longrightarrow>
      held g' n \<in> {Some Up, Some Wr} \<or> held g' n \<in> {None, Some Dead} \<and> (\<forall>j. j \<noteq> i \<longrightarrow> held (G j) n \<in> {None, Some Dead})"
  shows "block_inv E s' I (G(i := g'))"
proof -
  have p: "private_blocks ((G(i := g')) j) = private_blocks (G j)" "fresh ((G(i := g')) j) = fresh (G j)"
    "limbo ((G(i := g')) j) = limbo (G j)" for j
    using g by (auto simp: private_blocks_def)
  have "\<exists>j. set (owned E (sh_disk s) n) \<subseteq> limbo (G j) \<and> held ((G(i := g')) j) n \<in> {Some Up, Some Wr}"
    if h: "held ((G(i := g')) k) n = Some m" "m \<noteq> Dead" "n \<notin> I" for k n m
  proof -
    obtain m0 where m0: "held (G k) n = Some m0" "m0 \<noteq> Dead" using h new by (cases "k = i") auto
    obtain j where j: "set (owned E (sh_disk s) n) \<subseteq> limbo (G j)" "held (G j) n \<in> {Some Up, Some Wr}"
      using block_inv_held [OF inv m0 h(3)] by blast
    have "held ((G(i := g')) j) n \<in> {Some Up, Some Wr}"
    proof (cases "j = i")
      case True
      then show ?thesis using old [OF h(3)] j(2) h m0 by (cases "k = i") auto
    qed (use j in simp)
    then show ?thesis using j(1) by blast
  qed
  then show ?thesis using inv unfolding block_inv_def s p by (simp del: fun_upd_apply)
qed

subsection \<open>Silent steps\<close>

definition may_commit :: "Command \<Rightarrow> ghost \<Rightarrow> phase \<Rightarrow> afs \<Rightarrow> bool" where
  "may_commit c g ph A \<longleftrightarrow>
     ph = phase g \<or> phase g = Pending \<and> (\<exists>r sp. ph = Committed sp r \<and> spec_request sp c A = (r, A))"

lemma may_commit_same [simp]: "may_commit c g (phase g) A"
  by (simp add: may_commit_def)

lemma phase_update_same [simp]: "g\<lparr>phase := phase g\<rparr> = g"
  by simp

lemma safe_atom:
  assumes "stable E g Q"
    and "\<And>s I G i r s'. server_inv E V s I G \<Longrightarrow> G i = g \<Longrightarrow> Q (sh_disk s) I \<Longrightarrow> p s = (r, s') \<Longrightarrow>
      r = Inl Blocked \<and> waits_at E g (sh_disk s) \<and> refused G g \<or>
      r \<noteq> Inl Blocked \<and> (\<exists>g' I' Q'. server_inv E V s' I' (G(i := g')) \<and>
        (\<forall>j. j \<noteq> i \<longrightarrow> rely E (G j) (sh_disk s) I (sh_disk s') I') \<and>
        commits c g g' (abs_fs E (sh_disk s)) (abs_fs E (sh_disk s')) \<and>
        Q' (sh_disk s') I' \<and> safe E V c post g' Q' (bindt (Done r) k))"
  shows "safe E V c post g Q (bindt (atom p) k)"
  unfolding atom_def bindt.simps
proof (rule safe_Step [OF assms(1)])
  fix s I G i assume pre: "server_inv E V s I G" "G i = g" "Q (sh_disk s) I"
  note step = assms(2) [OF pre, of "fst (p s)" "snd (p s)", simplified]
  show "waits_at E g (sh_disk s) \<and> refused G g"
    if "map_option (map_prod (\<lambda>t. bindt t k) id)
      (if fst (p s) = Inl Blocked then None else Some (Done (fst (p s)), snd (p s))) = None"
    using that step by (simp split: if_splits)
  fix t s' assume "map_option (map_prod (\<lambda>t. bindt t k) id)
      (if fst (p s) = Inl Blocked then None else Some (Done (fst (p s)), snd (p s))) = Some (t, s')"
  then have r: "fst (p s) \<noteq> Inl Blocked" "t = bindt (Done (fst (p s))) k" "s' = snd (p s)"
    by (auto split: if_splits)
  show "\<exists>g' I' Q'. server_inv E V s' I' (G(i := g')) \<and>
        (\<forall>j. j \<noteq> i \<longrightarrow> rely E (G j) (sh_disk s) I (sh_disk s') I') \<and>
        commits c g g' (abs_fs E (sh_disk s)) (abs_fs E (sh_disk s')) \<and>
        Q' (sh_disk s') I' \<and> safe E V c post g' Q' t"
    using step r by auto
qed

text \<open>The disk and the tree stay as they are.\<close>

lemma safe_silent:
  assumes "stable E g Q"
    and "\<And>s I G i r s'. server_inv E V s I G \<Longrightarrow> G i = g \<Longrightarrow> Q (sh_disk s) I \<Longrightarrow> p s = (r, s') \<Longrightarrow>
      r = Inl Blocked \<and> waits_at E g (sh_disk s) \<and> refused G g \<or>
      r \<noteq> Inl Blocked \<and> sh_disk s' = sh_disk s \<and> (\<exists>g' Q'. server_inv E V s' I (G(i := g')) \<and>
        may_commit c g (phase g') (abs_fs E (sh_disk s)) \<and>
        Q' (sh_disk s) I \<and> safe E V c post g' Q' (bindt (Done r) k))"
  shows "safe E V c post g Q (bindt (atom p) k)"
proof (rule safe_atom [OF assms(1)])
  fix s I G i r s' assume pre: "server_inv E V s I G" "G i = g" "Q (sh_disk s) I" "p s = (r, s')"
  have "rely E (G j) (sh_disk s) I (sh_disk s) I" for j
    using rely_refl [OF server_inv_wf [OF pre(1)]] .
  then show "r = Inl Blocked \<and> waits_at E g (sh_disk s) \<and> refused G g \<or>
      r \<noteq> Inl Blocked \<and> (\<exists>g' I' Q'. server_inv E V s' I' (G(i := g')) \<and>
        (\<forall>j. j \<noteq> i \<longrightarrow> rely E (G j) (sh_disk s) I (sh_disk s') I') \<and>
        commits c g g' (abs_fs E (sh_disk s)) (abs_fs E (sh_disk s')) \<and>
        Q' (sh_disk s') I' \<and> safe E V c post g' Q' (bindt (Done r) k))"
    using assms(2) [OF pre] by (auto simp: commits_def may_commit_def) metis+
qed

lemma server_inv_phase:
  assumes "server_inv E V s I (G(i := g))"
  shows "server_inv E V s I (G(i := g\<lparr>phase := ph\<rparr>))"
proof -
  have "lock_inv V s (G(i := g\<lparr>phase := ph\<rparr>))"
    by (rule lock_inv_cong [where G = "G(i := g)" and s = s]) (use assms in \<open>auto simp: server_inv_def\<close>)
  moreover have "block_inv E s I ((G(i := g))(i := g\<lparr>phase := ph\<rparr>))"
    by (rule block_inv_locks [where G = "G(i := g)" and s = s]) (use assms in \<open>auto simp: server_inv_def\<close>)
  ultimately show ?thesis by (simp add: server_inv_def)
qed

context fs_server
begin

lemma rule_read:
  assumes "stable E g Q" and "\<And>d I. fs_wf E d I \<Longrightarrow> Q d I \<Longrightarrow> b < FS_DISKSIZE \<and> blk E d b = raw"
    and "safe E V c post g Q (k raw)"
  shows "safe E V c post g Q (bindt (atom (read_shared E b)) k)"
proof (rule safe_silent [OF assms(1)])
  fix s :: "('d, 'm) Shared" and I G i r s'
  assume pre: "server_inv E V s I G" "G i = g" "Q (sh_disk s) I" "read_shared E b s = (r, s')"
  have "fs_wf E (sh_disk s) I" using pre(1) by (rule server_inv_wf)
  then have "b < FS_DISKSIZE" "blk E (sh_disk s) b = raw" using assms(2) pre(3) by blast+
  then have "r = Inr raw" "s' = s" using pre(4) by (auto simp: read_shared_def read_blk)
  then show "r = Inl Blocked \<and> waits_at E g (sh_disk s) \<and> refused G g \<or>
      r \<noteq> Inl Blocked \<and> sh_disk s' = sh_disk s \<and> (\<exists>g' Q'. server_inv E V s' I (G(i := g')) \<and>
        may_commit c g (phase g') (abs_fs E (sh_disk s)) \<and>
        Q' (sh_disk s) I \<and> safe E V c post g' Q' (bindt (Done r) k))"
    using pre assms(3) by (intro disjI2) (auto intro!: exI [of _ g] exI [of _ Q])
qed


subsection \<open>Steps on the lock table\<close>

text \<open>The end of a silent step, for the rules below: the new ghost \<open>g1\<close>, where the request may take effect.\<close>

lemma silent_end:
  assumes "lock_inv V s' (G(i := g1))" and "block_inv E s' I (G(i := g1))" and "sh_disk s' = sh_disk s"
    and "\<exists>ph Q'. may_commit c g ph (abs_fs E (sh_disk s)) \<and> Q' (sh_disk s) I \<and>
      safe E V c post (g1\<lparr>phase := ph\<rparr>) Q' (bindt (Done r) k)" and "r \<noteq> Inl Blocked"
  shows "r = Inl Blocked \<and> W \<or> r \<noteq> Inl Blocked \<and> sh_disk s' = sh_disk s \<and>
    (\<exists>g' Q'. server_inv E V s' I (G(i := g')) \<and> may_commit c g (phase g') (abs_fs E (sh_disk s)) \<and>
      Q' (sh_disk s) I \<and> safe E V c post g' Q' (bindt (Done r) k))"
proof -
  have inv: "server_inv E V s' I (G(i := g1\<lparr>phase := ph\<rparr>))" for ph
    by (rule server_inv_phase) (use assms(1,2) in \<open>simp add: server_inv_def\<close>)
  obtain ph Q' where "may_commit c g ph (abs_fs E (sh_disk s))" "Q' (sh_disk s) I"
      "safe E V c post (g1\<lparr>phase := ph\<rparr>) Q' (bindt (Done r) k)"
    using assms(4) by blast
  then show ?thesis using assms(3,5) inv [of ph] by (intro disjI2 conjI exI [of _ "g1\<lparr>phase := ph\<rparr>"] exI [of _ Q']) auto
qed

lemma rule_register:
  assumes st: "stable E g Q" and g: "wants g = None" "held g b = None" and md: "md \<in> {Rd, Up}"
    and k: "\<And>a. safe E V c post (wishes g b md a p) Q (k a)"
  shows "safe E V c post g Q (bindt (atom (register_user E b)) k)"
proof (rule safe_silent [OF st])
  fix s :: "('d, 'm) Shared" and I G i r s'
  assume pre: "server_inv E V s I G" "G i = g" "Q (sh_disk s) I" "register_user E b s = (r, s')"
  have inv: "lock_inv V s G" "block_inv E s I G" using pre(1) by (simp_all add: server_inv_def)
  obtain a where a: "r = Inr a" "lock_inv V s' (G(i := wishes g b md a p))"
    using register_user_keeps [OF new_view inv(1) pre(2) g md pre(4)] by blast
  have same: "sh_disk s' = sh_disk s" "sh_free s' = sh_free s"
    using pre(4) by (auto simp: register_user_def split: option.splits)
  have "block_inv E s' I (G(i := wishes g b md a p))"
    by (rule block_inv_locks [OF inv(2) same]) (use pre(2) in auto)
  then show "r = Inl Blocked \<and> waits_at E g (sh_disk s) \<and> refused G g \<or>
      r \<noteq> Inl Blocked \<and> sh_disk s' = sh_disk s \<and> (\<exists>g' Q'. server_inv E V s' I (G(i := g')) \<and>
        may_commit c g (phase g') (abs_fs E (sh_disk s)) \<and>
        Q' (sh_disk s) I \<and> safe E V c post g' Q' (bindt (Done r) k))"
    by (rule silent_end [OF a(2) _ same(1)])
      (use a(1) k pre(3) in \<open>auto intro!: exI [of _ "phase g"] exI [of _ Q] simp: wishes_def\<close>)
qed

lemma rule_find_user:
  assumes st: "stable E g Q" and g: "wants g = None" "held g b = Some Up"
    and k: "\<And>a. safe E V c post (wishes g b Wr a p) Q (k a)"
  shows "safe E V c post g Q (bindt (atom (find_user b)) k)"
proof (rule safe_silent [OF st])
  fix s :: "('d, 'm) Shared" and I G i r s'
  assume pre: "server_inv E V s I G" "G i = g" "Q (sh_disk s) I" "find_user b s = (r, s')"
  have inv: "lock_inv V s G" "block_inv E s I G" using pre(1) by (simp_all add: server_inv_def)
  obtain a where a: "r = Inr a" "s' = s" "lock_inv V s (G(i := wishes g b Wr a p))"
    using find_user_keeps [OF inv(1) pre(2) g pre(4)] by blast
  have "block_inv E s I (G(i := wishes g b Wr a p))"
    by (rule block_inv_locks [OF inv(2) refl refl]) (use pre(2) in auto)
  then show "r = Inl Blocked \<and> waits_at E g (sh_disk s) \<and> refused G g \<or>
      r \<noteq> Inl Blocked \<and> sh_disk s' = sh_disk s \<and> (\<exists>g' Q'. server_inv E V s' I (G(i := g')) \<and>
        may_commit c g (phase g') (abs_fs E (sh_disk s)) \<and>
        Q' (sh_disk s) I \<and> safe E V c post g' Q' (bindt (Done r) k))"
    unfolding a(2) by (rule silent_end [OF a(3) _ refl])
      (use a(1) k pre(3) in \<open>auto intro!: exI [of _ "phase g"] exI [of _ Q] simp: wishes_def\<close>)
qed

text \<open>The three ways of waiting for a mutex.\<close>

lemma rule_acquire:
  assumes st: "stable E g Q" and g: "wants g = Some (b, md, a)" and md: "md \<in> {Rd, Up}"
    and f: "f = (if md = Rd then sm_lock_shared E else sm_lock_upgrade E)"
    and at: "\<And>d I. fs_wf E d I \<Longrightarrow> Q d I \<Longrightarrow> waits_at E g d \<and> b \<in> I"
    and k: "\<And>d I. fs_wf E d I \<Longrightarrow> Q d I \<Longrightarrow> \<exists>ph Q'. may_commit c g ph (abs_fs E d) \<and> Q' d I \<and>
      safe E V c post ((takes_lock g b md)\<lparr>phase := ph\<rparr>) Q' (k ())"
  shows "safe E V c post g Q (bindt (atom (acquire f a)) k)"
proof (rule safe_silent [OF st])
  fix s :: "('d, 'm) Shared" and I G i r s'
  assume pre: "server_inv E V s I G" "G i = g" "Q (sh_disk s) I" "acquire f a s = (r, s')"
  have inv: "lock_inv V s G" "block_inv E s I G" using pre(1) by (simp_all add: server_inv_def)
  have wf: "fs_wf E (sh_disk s) I" using pre(1) by (rule server_inv_wf)
  note at = at [OF wf pre(3)] and k = k [OF wf pre(3)]
  have "r = Inl Blocked \<and> refused G g \<or>
    (\<exists>y. r = Inr () \<and> s' = s\<lparr>sh_mutex := (sh_mutex s)(a := y)\<rparr> \<and> lock_inv V s' (G(i := takes_lock g b md)))"
    using md f g acquire_read [OF inv(1) pre(2), of b a r s'] acquire_upgrade [OF inv(1) pre(2), of b a r s'] pre(4)
    by (cases "md = Rd") auto
  then consider "r = Inl Blocked" "refused G g"
    | y where "r = Inr ()" "s' = s\<lparr>sh_mutex := (sh_mutex s)(a := y)\<rparr>" "lock_inv V s' (G(i := takes_lock g b md))"
    by blast
  then show "r = Inl Blocked \<and> waits_at E g (sh_disk s) \<and> refused G g \<or>
      r \<noteq> Inl Blocked \<and> sh_disk s' = sh_disk s \<and> (\<exists>g' Q'. server_inv E V s' I (G(i := g')) \<and>
        may_commit c g (phase g') (abs_fs E (sh_disk s)) \<and>
        Q' (sh_disk s) I \<and> safe E V c post g' Q' (bindt (Done r) k))"
  proof cases
    case 1
    then show ?thesis using at by simp
  next
    case 2
    have none: "held g b = None" using lock_inv_wish [OF inv(1), of i] pre(2) g md by (auto simp: wish_ok_def)
    have bl: "block_inv E s' I (G(i := takes_lock g b md))"
      by (rule block_inv_locks [OF inv(2)]) (use pre(2) at 2(2) none in \<open>auto split: if_splits\<close>)
    show ?thesis by (rule silent_end [OF 2(3) bl]) (use 2(1,2) k in simp_all)
  qed
qed

lemma rule_upgrade:
  assumes st: "stable E g Q" and g: "wants g = Some (b, Wr, a)" and md: "md \<in> {Wr, Dead}"
    and at: "\<And>d I. fs_wf E d I \<Longrightarrow> Q d I \<Longrightarrow> waits_at E g d \<and> (md = Wr \<longrightarrow> b \<in> I)"
    and k: "\<And>d I. fs_wf E d I \<Longrightarrow> Q d I \<Longrightarrow> \<exists>Q'. Q' d I \<and> safe E V c post (takes_lock g b md) Q' (k ())"
  shows "safe E V c post g Q (bindt (atom (acquire (sm_unlock_upgrade_and_lock E) a)) k)"
proof (rule safe_silent [OF st])
  fix s :: "('d, 'm) Shared" and I G i r s'
  assume pre: "server_inv E V s I G" "G i = g" "Q (sh_disk s) I"
    "acquire (sm_unlock_upgrade_and_lock E) a s = (r, s')"
  have inv: "lock_inv V s G" "block_inv E s I G" using pre(1) by (simp_all add: server_inv_def)
  have wf: "fs_wf E (sh_disk s) I" using pre(1) by (rule server_inv_wf)
  note at = at [OF wf pre(3)]
  obtain Q' where Q': "Q' (sh_disk s) I" "safe E V c post (takes_lock g b md) Q' (k ())" using k [OF wf pre(3)] by blast
  have hb: "held g b = Some Up" using lock_inv_wish [OF inv(1), of i] pre(2) g by (simp add: wish_ok_def)
  consider "r = Inl Blocked" "refused G g"
    | y where "r = Inr ()" "s' = s\<lparr>sh_mutex := (sh_mutex s)(a := y)\<rparr>" "readers G b = {}"
      "lock_inv V s' (G(i := takes_lock g b md))"
    using acquire_exclusive [OF inv(1) pre(2) g md pre(4)] by blast
  then show "r = Inl Blocked \<and> waits_at E g (sh_disk s) \<and> refused G g \<or>
      r \<noteq> Inl Blocked \<and> sh_disk s' = sh_disk s \<and> (\<exists>g' Q'. server_inv E V s' I (G(i := g')) \<and>
        may_commit c g (phase g') (abs_fs E (sh_disk s)) \<and>
        Q' (sh_disk s) I \<and> safe E V c post g' Q' (bindt (Done r) k))"
  proof cases
    case 1
    then show ?thesis using at by simp
  next
    case 2
    have "i \<in> upgraders G b" using hb pre(2) by (simp add: upgraders_def)
    then have "held (G j) b \<notin> {Some Up, Some Wr, Some Dead}" if "j \<noteq> i" for j
      using lock_inv_one [OF inv(1), of i b j] that by (auto simp: upgraders_def writers_def)
    moreover have "held (G j) b \<noteq> Some Rd" for j using 2(3) by (auto simp: readers_def)
    ultimately have others: "held (G j) b \<in> {None, Some Dead}" if "j \<noteq> i" for j
      using that lmode.exhaust by (cases "held (G j) b") (metis insertCI option.exhaust)+
    have bl: "block_inv E s' I (G(i := takes_lock g b md))"
      by (rule block_inv_locks [OF inv(2)]) (use pre(2) at 2(2) md hb others in \<open>auto split: if_splits\<close>)
    show ?thesis
      by (rule silent_end [OF 2(4) bl]) (use 2(1,2) Q' in \<open>auto intro!: exI [of _ "phase g"] exI [of _ Q'] simp: takes_lock_def\<close>)
  qed
qed

text \<open>Giving a lock back.\<close>

lemma rule_release:
  assumes st: "stable E g Q" and g: "wants g = None"
    and f: "held g b = Some Rd \<and> f = sm_unlock_shared E \<or> held g b = Some Up \<and> f = sm_unlock_upgrade E \<or>
      held g b \<in> {Some Wr, Some Dead} \<and> f = sm_unlock E"
    and at: "\<And>d I. fs_wf E d I \<Longrightarrow> Q d I \<Longrightarrow> held g b \<in> {Some Up, Some Wr} \<Longrightarrow> b \<in> I"
    and k: "\<And>d I. fs_wf E d I \<Longrightarrow> Q d I \<Longrightarrow> \<exists>ph Q'. may_commit c g ph (abs_fs E d) \<and> Q' d I \<and>
      safe E V c post ((gives_lock g b)\<lparr>phase := ph\<rparr>) Q' (k ())"
  shows "safe E V c post g Q (bindt (atom (release_user f b)) k)"
proof (rule safe_silent [OF st])
  fix s :: "('d, 'm) Shared" and I G i r s'
  assume pre: "server_inv E V s I G" "G i = g" "Q (sh_disk s) I" "release_user f b s = (r, s')"
  have inv: "lock_inv V s G" "block_inv E s I G" using pre(1) by (simp_all add: server_inv_def)
  have wf: "fs_wf E (sh_disk s) I" using pre(1) by (rule server_inv_wf)
  have r: "r = Inr () \<and> (\<exists>m x. s' = s\<lparr>sh_mutex := x, sh_map := m\<rparr>) \<and> lock_inv V s' (G(i := gives_lock g b))"
    using f release_read [OF inv(1) pre(2) g, of b r s'] release_upgrade [OF inv(1) pre(2) g, of b r s']
      release_exclusive [OF inv(1) pre(2) g, of b r s'] pre(4) by blast
  then have same: "sh_disk s' = sh_disk s" "sh_free s' = sh_free s" by auto
  have bl: "block_inv E s' I (G(i := gives_lock g b))"
    by (rule block_inv_locks [OF inv(2) same]) (use pre(2) at [OF wf pre(3)] in \<open>auto split: if_splits\<close>)
  show "r = Inl Blocked \<and> waits_at E g (sh_disk s) \<and> refused G g \<or>
      r \<noteq> Inl Blocked \<and> sh_disk s' = sh_disk s \<and> (\<exists>g' Q'. server_inv E V s' I (G(i := g')) \<and>
        may_commit c g (phase g') (abs_fs E (sh_disk s)) \<and>
        Q' (sh_disk s) I \<and> safe E V c post g' Q' (bindt (Done r) k))"
    by (rule silent_end [OF _ bl same(1)]) (use r k [OF wf pre(3)] in simp_all)
qed

end

end
