(* ===== verification/FS_Block_Rules.thy ===== *)
theory FS_Block_Rules
  imports FS_Rules
begin

text \<open>
  The rules for the steps that change the free list or the disk: taking and giving back a block, writing a block
  that only the thread knows, and writing a block of an inode that the thread has locked exclusively.
\<close>

subsection \<open>A disk on which no inode in use has changed\<close>

lemma same_tree:
  assumes wf: "fs_wf E d I" and "\<forall>n \<in> I. untouched E d d' n"
  shows "fs_wf E d' I" "abs_fs E d' = abs_fs E d" "walk_as E d u 0 p = Inr m \<Longrightarrow> walk_as E d' u 0 p = Inr m"
    "free_ok E d I fr \<Longrightarrow> free_ok E d' I fr"
proof -
  have un: "untouched E d d' n" if "n \<in> I" for n using assms(2) that by blast
  have own: "owned E d' n = owned E d n" if "n \<in> I" for n using untouched_same(2) [OF un [OF that]] .
  show "free_ok E d I fr \<Longrightarrow> free_ok E d' I fr" using own by (simp add: free_ok_def)
  have k: "keeps E d d' I 0 {}"
    by (rule keepsI [OF wf un])
      (use untouched_same [OF un [OF fs_wf_root(1) [OF wf]]] in simp_all)
  show "walk_as E d u 0 p = Inr m \<Longrightarrow> walk_as E d' u 0 p = Inr m" using keepsD(2) [OF k] by simp
  have dir: "is_dir E d' n = is_dir E d n" "dir_entries E d' n = dir_entries E d n"
    "obj_at E d' n = obj_at E d n" "inode_ok E d' n = inode_ok E d n" if "n \<in> I" for n
    using untouched_same [OF un [OF that]] by simp_all
  have w: "walk E d' 0 p = walk E d 0 p" for p
    by (rule walk_same_dirs [OF wf fs_wf_root(1) [OF wf]]) (use dir in simp_all)
  show "abs_fs E d' = abs_fs E d"
  proof
    fix p
    show "abs_fs E d' p = abs_fs E d p"
      using w [of p] walk_root_in [OF wf, of p] dir by (cases "walk E d 0 p") (simp_all add: abs_fs_def)
  qed
  have "dir_ok E d' I n" if "n \<in> I" "is_dir E d n" for n
  proof (rule untouched_dir_ok [OF un [OF that(1)] fs_wf_dir [OF wf that]])
    show "snd ` set (dir_entries E d n) \<subseteq> I" using fs_wf_dir [OF wf that] by (simp add: dir_ok_def)
  qed
  then show "fs_wf E d' I" using wf own dir unfolding fs_wf_def by simp
qed

subsection \<open>Taking and giving back blocks\<close>

lemma block_inv_take:
  assumes inv: "block_inv E s I G" and g: "G i = g" and fl: "sh_free s = b # fl"
  shows "block_inv E (s\<lparr>sh_free := fl\<rparr>) I (G(i := g\<lparr>fresh := insert b (fresh g)\<rparr>))" "b < FS_DISKSIZE"
    "b \<notin> private_blocks g"
proof -
  let ?G = "G(i := g\<lparr>fresh := insert b (fresh g)\<rparr>)"
  have f: "distinct (b # fl)" "b < FS_DISKSIZE" "\<forall>x \<in> set fl. x < FS_DISKSIZE"
    "\<forall>n \<in> I. set (owned E (sh_disk s) n) \<inter> set (b # fl) = {}"
    using block_inv_free [OF inv] fl by (simp_all add: free_ok_def)
  have nb: "b \<notin> private_blocks (G j)" for j using block_inv_private(2) [OF inv, of b j] fl by auto
  then show "b \<notin> private_blocks g" using g by auto
  show "b < FS_DISKSIZE" by (rule f(2))
  have p: "private_blocks (?G j) = (if j = i then insert b (private_blocks g) else private_blocks (G j))" for j
    by (simp add: private_blocks_def)
  have same: "held (?G j) = held (G j)" "limbo (?G j) = limbo (G j)" for j using g by auto
  have "b \<notin> limbo g" using nb [of i] g by (simp add: private_blocks_def)
  then have apart: "fresh (?G j) \<inter> limbo (?G j) = {}" for j using block_inv_apart [OF inv, of j] g by auto
  show "block_inv E (s\<lparr>sh_free := fl\<rparr>) I ?G"
    unfolding block_inv_def
  proof (intro conjI allI impI ballI)
    show "fs_wf E (sh_disk (s\<lparr>sh_free := fl\<rparr>)) I" using block_inv_wf [OF inv] by simp
    show "free_ok E (sh_disk (s\<lparr>sh_free := fl\<rparr>)) I (sh_free (s\<lparr>sh_free := fl\<rparr>))"
      using f by (auto simp: free_ok_def)
  next
    fix j show "fresh (?G j) \<inter> limbo (?G j) = {}" by (rule apart)
  next
    fix j x assume "x \<in> private_blocks (?G j)"
    then have "x = b \<or> x \<in> private_blocks (G j)" using g unfolding p by (auto split: if_splits)
    then show "x < FS_DISKSIZE" "x \<notin> set (sh_free (s\<lparr>sh_free := fl\<rparr>))"
      using f block_inv_private [OF inv, of x j] fl by auto
  next
    fix j n assume n: "n \<in> I"
    show "set (owned E (sh_disk (s\<lparr>sh_free := fl\<rparr>)) n) \<inter> private_blocks (?G j) = {}"
      using block_inv_owned [OF inv n, of j] f(4) n g unfolding p by auto
  next
    fix j k :: nat assume "j \<noteq> k"
    then show "private_blocks (?G j) \<inter> private_blocks (?G k) = {}"
      using block_inv_distinct [OF inv, of j k] nb g unfolding p by auto
  next
    fix j n m assume "held (?G j) n = Some m" "m \<noteq> Dead" "n \<notin> I"
    then show "\<exists>k. set (owned E (sh_disk (s\<lparr>sh_free := fl\<rparr>)) n) \<subseteq> limbo (?G k) \<and> held (?G k) n \<in> {Some Up, Some Wr}"
      using block_inv_held [OF inv, of j n m] unfolding same by simp
  qed
qed

lemma block_inv_give:
  assumes inv: "block_inv E s I G" and g: "G i = g" "b \<in> limbo g"
    and zombie: "\<And>n. held g n \<in> {Some Up, Some Wr} \<Longrightarrow> n \<notin> I \<Longrightarrow> b \<notin> set (owned E (sh_disk s) n)"
  shows "block_inv E (s\<lparr>sh_free := sh_free s @ [b]\<rparr>) I (G(i := g\<lparr>limbo := limbo g - {b}\<rparr>))"
proof -
  let ?G = "G(i := g\<lparr>limbo := limbo g - {b}\<rparr>)" and ?s = "s\<lparr>sh_free := sh_free s @ [b]\<rparr>"
  have bp: "b \<in> private_blocks (G i)" using g by (simp add: private_blocks_def)
  have f: "b < FS_DISKSIZE" "b \<notin> set (sh_free s)" using block_inv_private [OF inv bp] .
  have "b \<notin> fresh g" using block_inv_apart [OF inv, of i] g by auto
  then have p: "private_blocks (?G j) = (if j = i then private_blocks g - {b} else private_blocks (G j))" for j
    by (auto simp: private_blocks_def)
  have same: "held (?G j) = held (G j)" for j using g by auto
  show ?thesis unfolding block_inv_def
  proof (intro conjI allI impI ballI)
    show "fs_wf E (sh_disk ?s) I" using block_inv_wf [OF inv] by simp
    have "b \<notin> set (owned E (sh_disk s) n)" if "n \<in> I" for n using block_inv_owned [OF inv that, of i] bp by auto
    then show "free_ok E (sh_disk ?s) I (sh_free ?s)" using block_inv_free [OF inv] f by (auto simp: free_ok_def)
  next
    fix j show "fresh (?G j) \<inter> limbo (?G j) = {}" using block_inv_apart [OF inv, of j] g by auto
  next
    fix j x assume x: "x \<in> private_blocks (?G j)"
    then have x': "x \<in> private_blocks (G j)" using g unfolding p by (auto split: if_splits)
    show "x < FS_DISKSIZE" using block_inv_private [OF inv x'] by simp
    have "x \<noteq> b" using x bp block_inv_distinct [OF inv, of i j] unfolding p by (auto split: if_splits)
    then show "x \<notin> set (sh_free ?s)" using block_inv_private [OF inv x'] by simp
  next
    fix j n assume n: "n \<in> I"
    show "set (owned E (sh_disk ?s) n) \<inter> private_blocks (?G j) = {}"
      using block_inv_owned [OF inv n, of j] g unfolding p by auto
  next
    fix j k :: nat assume "j \<noteq> k"
    then show "private_blocks (?G j) \<inter> private_blocks (?G k) = {}"
      using block_inv_distinct [OF inv, of j k] g unfolding p by auto
  next
    fix j n m assume h: "held (?G j) n = Some m" "m \<noteq> Dead" "n \<notin> I"
    then obtain k where k: "set (owned E (sh_disk s) n) \<subseteq> limbo (G k)" "held (G k) n \<in> {Some Up, Some Wr}"
      using block_inv_held [OF inv, of j n m] unfolding same by auto
    have "set (owned E (sh_disk s) n) \<subseteq> limbo (?G k)" using k zombie [OF _ h(3)] g by auto
    then show "\<exists>k. set (owned E (sh_disk ?s) n) \<subseteq> limbo (?G k) \<and> held (?G k) n \<in> {Some Up, Some Wr}"
      using k(2) by (intro exI [of _ k]) (simp add: same del: fun_upd_apply)
  qed
qed

text \<open>Ghosts with the same locks.\<close>

lemma lock_inv_same_locks:
  assumes "lock_inv V s G" and "held g' = held (G i)" "wants g' = wants (G i)"
    and "sh_map s' = sh_map s" "sh_mutex s' = sh_mutex s" "sh_next s' = sh_next s"
  shows "lock_inv V s' (G(i := g'))"
  by (rule lock_inv_cong [OF assms(1,4-6)]) (use assms(2,3) in auto)

context fs_server
begin

lemma rule_take:
  assumes st: "stable E g Q"
    and none: "\<And>d I. fs_wf E d I \<Longrightarrow> Q d I \<Longrightarrow> \<exists>ph Q'. may_commit c g ph (abs_fs E d) \<and> Q' d I \<and>
      safe E V c post (g\<lparr>phase := ph\<rparr>) Q' (Done (Inl (Runtime_error ''Not enough disk space for create'')))"
    and some: "\<And>b. b < FS_DISKSIZE \<Longrightarrow> b \<notin> private_blocks g \<Longrightarrow> safe E V c post (g\<lparr>fresh := insert b (fresh g)\<rparr>) Q (k b)"
  shows "safe E V c post g Q (bindt (atom take_block_section) k)"
proof (rule safe_silent [OF st])
  fix s :: "('d, 'm) Shared" and I G i r s'
  assume pre: "server_inv E V s I G" "G i = g" "Q (sh_disk s) I" "take_block_section s = (r, s')"
  have inv: "lock_inv V s G" "block_inv E s I G" using pre(1) by (simp_all add: server_inv_def)
  have wf: "fs_wf E (sh_disk s) I" using pre(1) by (rule server_inv_wf)
  show "r = Inl Blocked \<and> waits_at E g (sh_disk s) \<and> refused G g \<or>
      r \<noteq> Inl Blocked \<and> sh_disk s' = sh_disk s \<and> (\<exists>g' Q'. server_inv E V s' I (G(i := g')) \<and>
        may_commit c g (phase g') (abs_fs E (sh_disk s)) \<and>
        Q' (sh_disk s) I \<and> safe E V c post g' Q' (bindt (Done r) k))"
  proof (cases "sh_free s")
    case Nil
    then have r: "r = Inl (Runtime_error ''Not enough disk space for create'')" "s' = s"
      using pre(4) by (simp_all add: take_block_section_def prog_simps)
    have G: "G(i := g) = G" using pre(2) by auto
    show ?thesis by (rule silent_end [where ?g1.0 = g]) (use r inv G none [OF wf pre(3)] in simp_all)
  next
    case (Cons b fl)
    then have r: "r = Inr b" "s' = s\<lparr>sh_free := fl\<rparr>" using pre(4) by (simp_all add: take_block_section_def prog_simps)
    note t = block_inv_take [OF inv(2) pre(2) Cons]
    have l: "lock_inv V s' (G(i := g\<lparr>fresh := insert b (fresh g)\<rparr>))"
      by (rule lock_inv_same_locks [OF inv(1)]) (use pre(2) r in auto)
    show ?thesis
      by (rule silent_end [where ?g1.0 = "g\<lparr>fresh := insert b (fresh g)\<rparr>"])
        (use r t l some [OF t(2,3)] pre(3) in \<open>auto intro!: exI [of _ "phase g"] exI [of _ Q]\<close>)
  qed
qed

text \<open>The sections that take a block when there is one and the inode has room, and otherwise unlock and throw.\<close>

lemma rule_take_or_release:
  assumes st: "stable E g Q" and g: "wants g = None" "held g n = Some Up"
    and p: "\<And>s. p s = (if sh_free s = [] \<or> full
        then bindp (release_user (sm_unlock_upgrade E) n) (\<lambda>_. halt (Runtime_error msg)) s
        else (Inr (res (hd (sh_free s))), s\<lparr>sh_free := tl (sh_free s)\<rparr>))"
    and none: "\<And>d I. fs_wf E d I \<Longrightarrow> Q d I \<Longrightarrow> n \<in> I \<and> (\<exists>ph Q'. may_commit c g ph (abs_fs E d) \<and> Q' d I \<and>
      safe E V c post ((gives_lock g n)\<lparr>phase := ph\<rparr>) Q' (Done (Inl (Runtime_error msg))))"
    and some: "\<And>b. \<not> full \<Longrightarrow> b < FS_DISKSIZE \<Longrightarrow> b \<notin> private_blocks g \<Longrightarrow>
      safe E V c post (g\<lparr>fresh := insert b (fresh g)\<rparr>) Q (k (res b))"
  shows "safe E V c post g Q (bindt (atom p) k)"
proof (rule safe_silent [OF st])
  fix s :: "('d, 'm) Shared" and I G i r s'
  assume pre: "server_inv E V s I G" "G i = g" "Q (sh_disk s) I" "p s = (r, s')"
  have inv: "lock_inv V s G" "block_inv E s I G" using pre(1) by (simp_all add: server_inv_def)
  have wf: "fs_wf E (sh_disk s) I" using pre(1) by (rule server_inv_wf)
  note none = none [OF wf pre(3)]
  show "r = Inl Blocked \<and> waits_at E g (sh_disk s) \<and> refused G g \<or>
      r \<noteq> Inl Blocked \<and> sh_disk s' = sh_disk s \<and> (\<exists>g' Q'. server_inv E V s' I (G(i := g')) \<and>
        may_commit c g (phase g') (abs_fs E (sh_disk s)) \<and>
        Q' (sh_disk s) I \<and> safe E V c post g' Q' (bindt (Done r) k))"
  proof (cases "sh_free s = [] \<or> full")
    case True
    obtain r1 s1 where rel: "release_user (sm_unlock_upgrade E) n s = (r1, s1)" by fastforce
    note up = release_upgrade [OF inv(1) pre(2) g rel]
    have r: "r = Inl (Runtime_error msg)" "s' = s1" using pre(4) p True rel up by (auto simp: bindp_def halt_def)
    have same: "sh_disk s' = sh_disk s" "sh_free s' = sh_free s" using up r by auto
    have bl: "block_inv E s' I (G(i := gives_lock g n))"
      by (rule block_inv_locks [OF inv(2) same]) (use pre(2) none in \<open>auto split: if_splits\<close>)
    show ?thesis by (rule silent_end [OF _ bl same(1)]) (use up r none in simp_all)
  next
    case False
    then obtain b fl where fl: "sh_free s = b # fl" by (cases "sh_free s") auto
    then have r: "r = Inr (res b)" "s' = s\<lparr>sh_free := fl\<rparr>" using pre(4) p False by simp_all
    note t = block_inv_take [OF inv(2) pre(2) fl]
    have l: "lock_inv V s' (G(i := g\<lparr>fresh := insert b (fresh g)\<rparr>))"
      by (rule lock_inv_same_locks [OF inv(1)]) (use pre(2) r in auto)
    show ?thesis
      by (rule silent_end [where ?g1.0 = "g\<lparr>fresh := insert b (fresh g)\<rparr>"])
        (use False r t l some [OF _ t(2,3)] pre(3) in \<open>auto intro!: exI [of _ "phase g"] exI [of _ Q]\<close>)
  qed
qed

lemma rule_free:
  assumes st: "stable E g Q" and b: "b \<in> limbo g"
    and zombie: "\<And>d I n. fs_wf E d I \<Longrightarrow> Q d I \<Longrightarrow> held g n \<in> {Some Up, Some Wr} \<Longrightarrow> n \<notin> I \<Longrightarrow>
      b \<notin> set (owned E d n)"
    and k: "safe E V c post (g\<lparr>limbo := limbo g - {b}\<rparr>) Q (k ())"
  shows "safe E V c post g Q (bindt (atom (free_section b)) k)"
proof (rule safe_silent [OF st])
  fix s :: "('d, 'm) Shared" and I G i r s'
  assume pre: "server_inv E V s I G" "G i = g" "Q (sh_disk s) I" "free_section b s = (r, s')"
  have inv: "lock_inv V s G" "block_inv E s I G" using pre(1) by (simp_all add: server_inv_def)
  have wf: "fs_wf E (sh_disk s) I" using pre(1) by (rule server_inv_wf)
  have r: "r = Inr ()" "s' = s\<lparr>sh_free := sh_free s @ [b]\<rparr>" using pre(4) by (simp_all add: free_section_def prog_simps)
  have l: "lock_inv V s' (G(i := g\<lparr>limbo := limbo g - {b}\<rparr>))"
    by (rule lock_inv_same_locks [OF inv(1)]) (use pre(2) r in auto)
  have bl: "block_inv E s' I (G(i := g\<lparr>limbo := limbo g - {b}\<rparr>))"
    unfolding r(2) by (rule block_inv_give [OF inv(2) pre(2) b zombie [OF wf pre(3)]])
  show "r = Inl Blocked \<and> waits_at E g (sh_disk s) \<and> refused G g \<or>
      r \<noteq> Inl Blocked \<and> sh_disk s' = sh_disk s \<and> (\<exists>g' Q'. server_inv E V s' I (G(i := g')) \<and>
        may_commit c g (phase g') (abs_fs E (sh_disk s)) \<and>
        Q' (sh_disk s) I \<and> safe E V c post g' Q' (bindt (Done r) k))"
    by (rule silent_end [OF l bl])
      (use r k pre(3) in \<open>auto intro!: exI [of _ "phase g"] exI [of _ Q]\<close>)
qed


end

lemma rely_mono:
  assumes "rely E g d I d' I'" and "held g' = held g" "private_blocks g' \<subseteq> private_blocks g"
  shows "rely E g' d I d' I'"
proof -
  have "anchored E g' = anchored E g" using assms(2) by (simp add: anchored_def fun_eq_iff)
  then show ?thesis using assms unfolding rely_def by auto
qed

subsection \<open>Writing a block that only the thread knows\<close>

lemma block_inv_same_tree:
  assumes inv: "block_inv E s I G" and un: "\<And>n. n \<in> I \<Longrightarrow> untouched E (sh_disk s) d' n"
    and zombie: "\<And>i n m. held (G i) n = Some m \<Longrightarrow> m \<noteq> Dead \<Longrightarrow> untouched E (sh_disk s) d' n"
  shows "block_inv E (s\<lparr>sh_disk := d'\<rparr>) I G"
proof -
  have "\<forall>n \<in> I. untouched E (sh_disk s) d' n" using un by blast
  note t = same_tree [OF block_inv_wf [OF inv] this]
  have own: "owned E d' n = owned E (sh_disk s) n" if "n \<in> I" for n using untouched_same(2) [OF un [OF that]] .
  show ?thesis unfolding block_inv_def
  proof (intro conjI allI impI ballI)
    show "fs_wf E (sh_disk (s\<lparr>sh_disk := d'\<rparr>)) I" using t(1) by simp
    show "free_ok E (sh_disk (s\<lparr>sh_disk := d'\<rparr>)) I (sh_free (s\<lparr>sh_disk := d'\<rparr>))"
      using t(4) [OF block_inv_free [OF inv]] by simp
  next
    fix j n assume n: "n \<in> I"
    show "set (owned E (sh_disk (s\<lparr>sh_disk := d'\<rparr>)) n) \<inter> private_blocks (G j) = {}"
      using block_inv_owned [OF inv n] own [OF n] by simp
  next
    fix j n m assume h: "held (G j) n = Some m" "m \<noteq> Dead" "n \<notin> I"
    show "\<exists>k. set (owned E (sh_disk (s\<lparr>sh_disk := d'\<rparr>)) n) \<subseteq> limbo (G k) \<and> held (G k) n \<in> {Some Up, Some Wr}"
      using block_inv_held [OF inv h] untouched_same(2) [OF zombie [OF h(1,2)]] by simp
  qed (use block_inv_apart [OF inv] block_inv_private [OF inv] block_inv_distinct [OF inv] in simp_all)
qed

lemma held_untouched:
  assumes inv: "block_inv E s I G" and b: "b \<in> fresh (G i)"
    and blk: "\<And>x. x \<noteq> b \<Longrightarrow> blk E d' x = blk E (sh_disk s) x"
  shows "n \<in> I \<Longrightarrow> untouched E (sh_disk s) d' n"
    and "held (G j) n = Some m \<Longrightarrow> m \<noteq> Dead \<Longrightarrow> untouched E (sh_disk s) d' n"
proof -
  have bp: "b \<in> private_blocks (G i)" using b by (simp add: private_blocks_def)
  show un: "untouched E (sh_disk s) d' n" if "n \<in> I" for n
    unfolding untouched_def
  proof
    fix x assume "x \<in> set (owned E (sh_disk s) n)"
    then have "x \<noteq> b" using block_inv_owned [OF inv that, of i] bp by auto
    then show "blk E d' x = blk E (sh_disk s) x" by (rule blk)
  qed
  show "untouched E (sh_disk s) d' n" if h: "held (G j) n = Some m" "m \<noteq> Dead"
  proof (cases "n \<in> I")
    case False
    obtain k where k: "set (owned E (sh_disk s) n) \<subseteq> limbo (G k)" using block_inv_held [OF inv h False] by blast
    have "b \<notin> limbo (G k)" using b bp block_inv_apart [OF inv, of i] block_inv_distinct [OF inv, of i k]
      by (cases "k = i") (auto simp: private_blocks_def)
    then show ?thesis using k blk by (fastforce simp: untouched_def)
  qed (use un in simp)
qed

context fs_server
begin

lemma rule_write_fresh:
  assumes st: "stable E (g\<lparr>fresh := fresh g - {b}\<rparr>) Q" and b: "b \<in> fresh g" and len: "length raw = FS_BLOCKSIZE"
    and k: "safe E V c post g (\<lambda>d I. Q d I \<and> blk E d b = raw) (k ())"
  shows "safe E V c post g Q (bindt (atom (write_shared E b raw)) k)"
proof (rule safe_atom)
  have "rely E (g\<lparr>fresh := fresh g - {b}\<rparr>) d I d' I'" if "rely E g d I d' I'" for d I d' I'
    by (rule rely_mono [OF that]) (auto simp: private_blocks_def)
  then show "stable E g Q" using st unfolding stable_def by blast
next
  fix s :: "('d, 'm) Shared" and I G i r s'
  assume pre: "server_inv E V s I G" "G i = g" "Q (sh_disk s) I" "write_shared E b raw s = (r, s')"
  have inv: "lock_inv V s G" "block_inv E s I G" using pre(1) by (simp_all add: server_inv_def)
  let ?d' = "upd E (sh_disk s) b raw"
  have bp: "b \<in> private_blocks (G i)" using b pre(2) by (simp add: private_blocks_def)
  then have less: "b < FS_DISKSIZE" using block_inv_private(1) [OF inv(2)] by blast
  have r: "r = Inr ()" "s' = s\<lparr>sh_disk := ?d'\<rparr>" using pre(4) less len by (auto simp: write_shared_def write_upd)
  have blk: "blk E ?d' x = blk E (sh_disk s) x" if "x \<noteq> b" for x using that less len by simp
  have bf: "b \<in> fresh (G i)" using b pre(2) by simp
  note un = held_untouched [OF inv(2) bf blk]
  have wf: "fs_wf E (sh_disk s) I" by (rule block_inv_wf [OF inv(2)])
  have "\<forall>n \<in> I. untouched E (sh_disk s) ?d' n" using un(1) by blast
  note t = same_tree [OF wf this]
  have rel: "rely E g' (sh_disk s) I ?d' I"
    if "held g' = held (G j)" "private_blocks g' \<subseteq> private_blocks (G j)" "b \<notin> private_blocks g'" for j g'
    unfolding rely_def
  proof (intro conjI allI impI ballI)
    fix x assume "x \<in> private_blocks g'"
    then have "x \<noteq> b" using that(3) by auto
    then show "blk E ?d' x = blk E (sh_disk s) x" by (rule blk)
  qed (use wf t un(2) that(1) in simp_all)
  have "rely E (G j) (sh_disk s) I ?d' I" if "j \<noteq> i" for j
    by (rule rel [of _ j]) (use block_inv_distinct [OF inv(2) that] bp in auto)
  moreover have "rely E (g\<lparr>fresh := fresh g - {b}\<rparr>) (sh_disk s) I ?d' I"
    by (rule rel [of _ i]) (use b pre(2) block_inv_apart [OF inv(2), of i] in \<open>auto simp: private_blocks_def\<close>)
  then have "Q ?d' I" using st pre(3) unfolding stable_def by blast
  moreover have "server_inv E V s' I (G(i := g))"
  proof -
    have "G(i := g) = G" using pre(2) by auto
    moreover have "lock_inv V s' G" by (rule lock_inv_cong [OF inv(1)]) (simp_all add: r)
    ultimately show ?thesis
      using block_inv_same_tree [OF inv(2) un(1) un(2)] by (simp add: server_inv_def r)
  qed
  ultimately show "r = Inl Blocked \<and> waits_at E g (sh_disk s) \<and> refused G g \<or>
      r \<noteq> Inl Blocked \<and> (\<exists>g' I' Q'. server_inv E V s' I' (G(i := g')) \<and>
        (\<forall>j. j \<noteq> i \<longrightarrow> rely E (G j) (sh_disk s) I (sh_disk s') I') \<and>
        commits c g g' (abs_fs E (sh_disk s)) (abs_fs E (sh_disk s')) \<and>
        Q' (sh_disk s') I' \<and> safe E V c post g' Q' (bindt (Done r) k))"
    using k less len
    by (intro disjI2 conjI exI [of _ g] exI [of _ I] exI [of _ "\<lambda>d I. Q d I \<and> blk E d b = raw"])
      (simp_all add: r t(2) commits_def)
qed

end

subsection \<open>Writing a block of the tree\<close>

text \<open>
  The thread has \<open>n\<close> locked exclusively and writes one of its blocks; the leaves \<open>C\<close> leave the tree.  Blocks move
  between the tree and the thread, none is lost.
\<close>

definition tree_write ::
  "('d, 'm) fs_env \<Rightarrow> ghost \<Rightarrow> 'd \<Rightarrow> nat set \<Rightarrow> nat \<Rightarrow> 'd \<Rightarrow> nat set \<Rightarrow> nat set \<Rightarrow> nat set \<Rightarrow> nat set \<Rightarrow> bool" where
  "tree_write E g d I n d' I' C fr li \<longleftrightarrow>
     n \<in> I \<and> (\<forall>x. x \<notin> set (owned E d n) \<longrightarrow> blk E d' x = blk E d x) \<and>
     fs_wf E d' I' \<and> keeps E d d' I n C \<and> I - C \<subseteq> I' \<and>
     (\<forall>c \<in> C. held g c = Some Up \<and> (is_dir E d c \<longrightarrow> dir_entries E d c = []) \<and> set (owned E d c) \<subseteq> li) \<and>
     fr \<inter> li = {} \<and> limbo g \<subseteq> li \<and>
     (\<Union>m \<in> I'. set (owned E d' m)) \<inter> (fr \<union> li) = {} \<and>
     (\<Union>m \<in> I'. set (owned E d' m)) \<union> (fr \<union> li) = (\<Union>m \<in> I. set (owned E d m)) \<union> private_blocks g"

lemma tree_writeD:
  assumes "tree_write E g d I n d' I' C fr li"
  shows "n \<in> I" "x \<notin> set (owned E d n) \<Longrightarrow> blk E d' x = blk E d x" "fs_wf E d' I'" "keeps E d d' I n C"
    "I - C \<subseteq> I'" "c \<in> C \<Longrightarrow> held g c = Some Up" "c \<in> C \<Longrightarrow> is_dir E d c \<Longrightarrow> dir_entries E d c = []"
    "c \<in> C \<Longrightarrow> set (owned E d c) \<subseteq> li" "fr \<inter> li = {}" "limbo g \<subseteq> li"
    "m \<in> I' \<Longrightarrow> set (owned E d' m) \<inter> (fr \<union> li) = {}"
    "x \<in> fr \<union> li \<Longrightarrow> (\<exists>m \<in> I. x \<in> set (owned E d m)) \<or> x \<in> private_blocks g"
    "m \<in> I' \<Longrightarrow> x \<in> set (owned E d' m) \<Longrightarrow> (\<exists>m \<in> I. x \<in> set (owned E d m)) \<or> x \<in> private_blocks g"
proof -
  have eq: "(\<Union>m \<in> I'. set (owned E d' m)) \<union> (fr \<union> li) = (\<Union>m \<in> I. set (owned E d m)) \<union> private_blocks g"
    using assms by (simp add: tree_write_def)
  then show "x \<in> fr \<union> li \<Longrightarrow> (\<exists>m \<in> I. x \<in> set (owned E d m)) \<or> x \<in> private_blocks g" by blast
  show "m \<in> I' \<Longrightarrow> x \<in> set (owned E d' m) \<Longrightarrow> (\<exists>m \<in> I. x \<in> set (owned E d m)) \<or> x \<in> private_blocks g"
    using eq by blast
  show "m \<in> I' \<Longrightarrow> set (owned E d' m) \<inter> (fr \<union> li) = {}" using assms unfolding tree_write_def by blast
qed (use assms in \<open>simp_all add: tree_write_def\<close>)


lemma tree_write_step:
  assumes l: "lock_inv V s G" and inv: "block_inv E s I G" and g: "G i = g" "held g n = Some Wr"
    and tw: "tree_write E g (sh_disk s) I n d' I' C fr li"
    and g': "held g' = held g" "fresh g' = fr" "limbo g' = li"
  shows "block_inv E (s\<lparr>sh_disk := d'\<rparr>) I' (G(i := g'))"
    and "j \<noteq> i \<Longrightarrow> rely E (G j) (sh_disk s) I d' I'"
proof -
  let ?d = "sh_disk s" and ?G = "G(i := g')"
  note t = tree_writeD [OF tw]
  have wf: "fs_wf E ?d I" by (rule block_inv_wf [OF inv])
  have pg': "private_blocks g' = fr \<union> li" using g' by (simp add: private_blocks_def)
  have alone: "held (G j) n = None" if "j \<noteq> i" for j
  proof -
    have i: "i \<in> writers G n" using g by (simp add: writers_def)
    then have "readers G n = {}" using lock_inv_excl [OF l] by blast
    moreover have "j \<notin> upgraders G n \<union> writers G n" using lock_inv_one [OF l, of i n j] i that by blast
    ultimately show ?thesis by (cases "held (G j) n") (auto simp: readers_def upgraders_def writers_def dest: lmode.exhaust, metis lmode.exhaust)
  qed
  have out: "x \<notin> set (owned E ?d n)" if "x \<in> private_blocks (G k)" for x k
    using block_inv_owned [OF inv t(1), of k] that by blast
  have un: "untouched E ?d d' m" if "held (G k) m = Some md" "md \<noteq> Dead" "m \<noteq> n" for k m md
  proof (cases "m \<in> I")
    case True
    then show ?thesis using keepsD(1) [OF t(4)] that(3) by blast
  next
    case False
    note h = block_inv_held [OF inv that(1,2) False]
    obtain h where "set (owned E ?d m) \<subseteq> limbo (G h)" using h by blast
    then have "x \<notin> set (owned E ?d n)" if "x \<in> set (owned E ?d m)" for x
      using that out [of x h] by (auto simp: private_blocks_def)
    then show ?thesis using t(2) by (simp add: untouched_def)
  qed
  have was: "x \<notin> set (sh_free s) \<and> x < FS_DISKSIZE \<and> (\<forall>k. k \<noteq> i \<longrightarrow> x \<notin> private_blocks (G k))"
    if "(\<exists>m \<in> I. x \<in> set (owned E ?d m)) \<or> x \<in> private_blocks g" for x
    using that
  proof
    assume "\<exists>m \<in> I. x \<in> set (owned E ?d m)"
    then obtain m where m: "m \<in> I" "x \<in> set (owned E ?d m)" by blast
    have "x \<notin> set (sh_free s)" using block_inv_free [OF inv] m by (auto simp: free_ok_def)
    moreover have "x < FS_DISKSIZE" using fs_wf_inode [OF wf m(1)] m(2) by (simp add: inode_ok_def)
    ultimately show ?thesis using block_inv_owned [OF inv m(1)] m(2) by auto
  next
    assume x: "x \<in> private_blocks g"
    have "x \<notin> private_blocks (G k)" if "k \<noteq> i" for k
      using block_inv_distinct [OF inv that] x g(1) by blast
    then show ?thesis using block_inv_private [OF inv, of x i] g(1) x by simp
  qed
  show "block_inv E (s\<lparr>sh_disk := d'\<rparr>) I' ?G" unfolding block_inv_def
  proof (intro conjI allI impI ballI)
    show "fs_wf E (sh_disk (s\<lparr>sh_disk := d'\<rparr>)) I'" using t(3) by simp
    have "set (owned E d' m) \<inter> set (sh_free s) = {}" if "m \<in> I'" for m using t(13) [OF that] was by blast
    then show "free_ok E (sh_disk (s\<lparr>sh_disk := d'\<rparr>)) I' (sh_free (s\<lparr>sh_disk := d'\<rparr>))"
      using block_inv_free [OF inv] by (simp add: free_ok_def)
  next
    fix k show "fresh (?G k) \<inter> limbo (?G k) = {}" using t(9) g' block_inv_apart [OF inv, of k] by simp
  next
    fix k x assume "x \<in> private_blocks (?G k)"
    then show "x < FS_DISKSIZE" "x \<notin> set (sh_free (s\<lparr>sh_disk := d'\<rparr>))"
      using was [OF t(12), of x] block_inv_private [OF inv, of x k] pg' by (auto split: if_splits)
  next
    fix k m assume m: "m \<in> I'"
    show "set (owned E (sh_disk (s\<lparr>sh_disk := d'\<rparr>)) m) \<inter> private_blocks (?G k) = {}"
      using t(11) [OF m] was [OF t(13) [OF m]] pg' by (cases "k = i") auto
  next
    fix k h :: nat assume ne: "k \<noteq> h"
    have "(fr \<union> li) \<inter> private_blocks (G x) = {}" if "x \<noteq> i" for x using was [OF t(12)] that by blast
    then show "private_blocks (?G k) \<inter> private_blocks (?G h) = {}"
      using ne pg' block_inv_distinct [OF inv ne] by (cases "k = i"; cases "h = i") auto
  next
    fix k m md assume h: "held (?G k) m = Some md" "md \<noteq> Dead" "m \<notin> I'"
    have hk: "held (G k) m = Some md" using h(1) g'(1) g(1) by (cases "k = i") auto
    show "\<exists>k. set (owned E (sh_disk (s\<lparr>sh_disk := d'\<rparr>)) m) \<subseteq> limbo (?G k) \<and> held (?G k) m \<in> {Some Up, Some Wr}"
    proof (cases "m \<in> C")
      case True
      have "m \<noteq> n" using t(6) [OF True] g(2) by auto
      then have "owned E d' m = owned E ?d m" by (rule untouched_same(2) [OF un [OF hk h(2)]])
      then show ?thesis using t(6) [OF True] t(8) [OF True] g' by (intro exI [of _ i]) simp
    next
      case False
      then have mI: "m \<notin> I" using t(5) h(3) by blast
      then have "m \<noteq> n" using t(1) by auto
      then have own: "owned E d' m = owned E ?d m" by (rule untouched_same(2) [OF un [OF hk h(2)]])
      obtain h where h: "set (owned E ?d m) \<subseteq> limbo (G h)" "held (G h) m \<in> {Some Up, Some Wr}"
        using block_inv_held [OF inv hk h(2) mI] by blast
      then show ?thesis using own g g' t(10) by (intro exI [of _ h]) auto
    qed
  qed
  assume j: "j \<noteq> i"
  show "rely E (G j) ?d I d' I'" unfolding rely_def
  proof (intro conjI allI impI ballI)
    fix m md assume h: "held (G j) m = Some md" "md \<noteq> Dead"
    then have "m \<noteq> n" using alone [OF j] by auto
    then show "untouched E ?d d' m" by (rule un [OF h])
  next
    fix m u p assume m: "m \<in> I" "anchored E (G j) ?d m" "walk_as E ?d u 0 p = Inr m"
    have "m \<notin> C"
    proof
      assume C: "m \<in> C"
      have "i \<in> upgraders G m" using t(6) [OF C] g(1) by (simp add: upgraders_def)
      then have "held (G j) m \<notin> {Some Up, Some Wr}"
        using lock_inv_one [OF l, of i m j] j by (auto simp: upgraders_def writers_def)
      then show False using m(2) t(7) [OF C] by (auto simp: anchored_def)
    qed
    then show "walk_as E d' u 0 p = Inr m" by (rule keepsD(2) [OF t(4) m(3)])
  next
    fix x assume "x \<in> private_blocks (G j)"
    then show "blk E d' x = blk E ?d x" using t(2) out by blast
  qed (use wf t(3) in simp_all)
qed

context fs_server
begin

lemma rule_write_tree:
  assumes st: "stable E g Q" and g: "held g n = Some Wr" and len: "length raw = FS_BLOCKSIZE"
    and k: "\<And>d I. fs_wf E d I \<Longrightarrow> Q d I \<Longrightarrow> (\<And>m. m \<in> I \<Longrightarrow> set (owned E d m) \<inter> private_blocks g = {}) \<Longrightarrow>
      \<exists>I' C fr li ph Q'. b < FS_DISKSIZE \<and> tree_write E g d I n (upd E d b raw) I' C fr li \<and>
        commits c g (g\<lparr>phase := ph\<rparr>) (abs_fs E d) (abs_fs E (upd E d b raw)) \<and> Q' (upd E d b raw) I' \<and>
        safe E V c post (g\<lparr>fresh := fr, limbo := li, phase := ph\<rparr>) Q' (k ())"
  shows "safe E V c post g Q (bindt (atom (write_shared E b raw)) k)"
proof (rule safe_atom [OF st])
  fix s :: "('d, 'm) Shared" and I G i r s'
  assume pre: "server_inv E V s I G" "G i = g" "Q (sh_disk s) I" "write_shared E b raw s = (r, s')"
  have inv: "lock_inv V s G" "block_inv E s I G" using pre(1) by (simp_all add: server_inv_def)
  have own: "set (owned E (sh_disk s) m) \<inter> private_blocks g = {}" if "m \<in> I" for m
    using block_inv_owned [OF inv(2) that, of i] pre(2) by simp
  obtain I' C fr li ph Q' where less: "b < FS_DISKSIZE"
      and tw: "tree_write E g (sh_disk s) I n (upd E (sh_disk s) b raw) I' C fr li"
      and cm: "commits c g (g\<lparr>phase := ph\<rparr>) (abs_fs E (sh_disk s)) (abs_fs E (upd E (sh_disk s) b raw))"
      and q: "Q' (upd E (sh_disk s) b raw) I'"
      and sf: "safe E V c post (g\<lparr>fresh := fr, limbo := li, phase := ph\<rparr>) Q' (k ())"
    using k [OF block_inv_wf [OF inv(2)] pre(3) own] by blast
  let ?g = "g\<lparr>fresh := fr, limbo := li, phase := ph\<rparr>"
  have r: "r = Inr ()" "s' = s\<lparr>sh_disk := upd E (sh_disk s) b raw\<rparr>"
    using pre(4) less len by (auto simp: write_shared_def write_upd)
  note ts = tree_write_step [OF inv pre(2) g tw, of ?g]
  have "lock_inv V s' (G(i := ?g))"
    by (rule lock_inv_same_locks [OF inv(1)]) (use pre(2) r in auto)
  then have "server_inv E V s' I' (G(i := ?g))" using ts(1) by (simp add: server_inv_def r)
  then show "r = Inl Blocked \<and> waits_at E g (sh_disk s) \<and> refused G g \<or>
      r \<noteq> Inl Blocked \<and> (\<exists>g' I' Q'. server_inv E V s' I' (G(i := g')) \<and>
        (\<forall>j. j \<noteq> i \<longrightarrow> rely E (G j) (sh_disk s) I (sh_disk s') I') \<and>
        commits c g g' (abs_fs E (sh_disk s)) (abs_fs E (sh_disk s')) \<and>
        Q' (sh_disk s') I' \<and> safe E V c post g' Q' (bindt (Done r) k))"
    using ts(2) cm q sf
    by (intro disjI2 conjI exI [of _ ?g] exI [of _ I'] exI [of _ Q']) (simp_all add: r commits_def)
qed

end

end
