(* ===== verification/FS_Walk.thy ===== *)
theory FS_Walk
  imports FS_Block_Rules
begin

text \<open>
  Path traversal while other requests run.  A thread that has a directory locked for reading knows its contents;
  when the next name is in it, the directory stays in its place, and when it is not, the request has failed for good
  at the moment the lock was taken.
\<close>

subsection \<open>Assertions of a thread\<close>

text \<open>The inode at the path \<open>p\<close> of the user is \<open>n\<close>, with the contents it has on \<open>d0\<close>.\<close>

definition at_node :: "('d, 'm) fs_env \<Rightarrow> string \<Rightarrow> string list \<Rightarrow> nat \<Rightarrow> 'd \<Rightarrow> 'd assertion" where
  "at_node E u p n d0 d I \<longleftrightarrow> walk_as E d u 0 p = Inr n \<and> untouched E d0 d n"

definition sees :: "('d, 'm) fs_env \<Rightarrow> nat \<Rightarrow> 'd \<Rightarrow> 'd assertion" where
  "sees E n d0 d I \<longleftrightarrow> untouched E d0 d n"

lemma untouched_refl [simp]: "untouched E d d n"
  by (simp add: untouched_def)

lemma untouched_trans: "untouched E d0 d n \<Longrightarrow> untouched E d d' n \<Longrightarrow> untouched E d0 d' n"
  using untouched_same(2) [of E d0 d n] by (simp add: untouched_def)

lemma stable_True [simp]: "stable E g (\<lambda>d I. True)"
  by (simp add: stable_def)

lemma stable_conj: "stable E g Q \<Longrightarrow> stable E g R \<Longrightarrow> stable E g (\<lambda>d I. Q d I \<and> R d I)"
  unfolding stable_def by blast

lemma stable_sees: "held g n = Some m \<Longrightarrow> m \<noteq> Dead \<Longrightarrow> stable E g (sees E n d0)"
  unfolding stable_def sees_def rely_def by (blast intro: untouched_trans)

lemma stable_block: "b \<in> private_blocks g \<Longrightarrow> stable E g (\<lambda>d I. blk E d b = raw)"
  unfolding stable_def rely_def by auto

lemma stable_at:
  assumes "held g n \<in> {Some Up, Some Wr} \<or> held g n = Some Rd \<and> is_dir E d0 n \<and> dir_entries E d0 n \<noteq> []"
  shows "stable E g (at_node E u p n d0)"
  unfolding stable_def at_node_def
proof (intro allI impI)
  fix d I d' I' assume w: "walk_as E d u 0 p = Inr n \<and> untouched E d0 d n" and r: "rely E g d I d' I'"
  have "n \<in> I" using r w walk_root_in [OF _ walk_as_walk] by (auto simp: rely_def)
  moreover have "anchored E g d n"
    using assms w untouched_same(3,5) [of E d0 d n] by (auto simp: anchored_def)
  moreover have "\<exists>m. held g n = Some m \<and> m \<noteq> Dead" using assms by auto
  ultimately have "walk_as E d' u 0 p = Inr n" "untouched E d d' n"
    using r w unfolding rely_def by (simp, metis)
  then show "walk_as E d' u 0 p = Inr n \<and> untouched E d0 d' n"
    using w untouched_trans [of E d0 d n d'] by simp
qed

lemma at_node_sees: "at_node E u p n d0 d I \<Longrightarrow> sees E n d0 d I"
  by (simp add: at_node_def sees_def)

lemma sees_blk: "sees E n d0 d I \<Longrightarrow> b \<in> set (owned E d0 n) \<Longrightarrow> blk E d b = blk E d0 b"
  by (simp add: sees_def untouched_def)

lemma step_dir_untouched:
  assumes "untouched E d0 d n"
  shows "step_dir E d u n x = step_dir E d0 u n x"
  unfolding step_dir_def by (simp only: untouched_same(3,4,5) [OF assms])

lemma stable_mono:
  assumes "stable E g' Q" and h: "\<And>n m. held g' n = Some m \<Longrightarrow> held g n = Some m"
    and p: "private_blocks g' \<subseteq> private_blocks g"
  shows "stable E g Q"
  unfolding stable_def
proof (intro allI impI)
  fix d I d' I' assume q: "Q d I" and r: "rely E g d I d' I'"
  have an: "anchored E g d n" if "anchored E g' d n" for n
    using that h by (auto simp: anchored_def)
  have "rely E g' d I d' I'" unfolding rely_def
  proof (intro conjI allI impI ballI)
    fix n m assume "held g' n = Some m" "m \<noteq> Dead"
    then show "untouched E d d' n" using r h by (simp add: rely_def)
  next
    fix n u p assume "n \<in> I" "anchored E g' d n" "walk_as E d u 0 p = Inr n"
    then show "walk_as E d' u 0 p = Inr n" using r an by (simp add: rely_def)
  next
    fix b assume "b \<in> private_blocks g'"
    then show "blk E d' b = blk E d b" using r p by (auto simp: rely_def)
  qed (use r in \<open>simp_all add: rely_def\<close>)
  then show "Q d' I'" using assms(1) q unfolding stable_def by blast
qed

subsection \<open>Reading\<close>

text \<open>A task that only reads blocks of \<open>B\<close>, and its result when they are those of \<open>d0\<close>.\<close>

inductive reads :: "('d, 'm) fs_env \<Rightarrow> 'd \<Rightarrow> nat set \<Rightarrow> ('d, 'm, 'a) fs_task \<Rightarrow> stop + 'a \<Rightarrow> bool" for E d0 B where
  reads_Done: "reads E d0 B (Done r) r"
| reads_Read: "b \<in> B \<Longrightarrow> reads E d0 B (k (blk E d0 b)) r \<Longrightarrow> reads E d0 B (bindt (atom (read_shared E b)) k) r"

context fs_server
begin

lemma safe_reads:
  assumes "reads E d0 B t r" and st: "stable E g Q"
    and B: "\<And>b d I. b \<in> B \<Longrightarrow> fs_wf E d I \<Longrightarrow> Q d I \<Longrightarrow> b < FS_DISKSIZE \<and> blk E d b = blk E d0 b"
    and k: "safe E V c post g Q (bindt (Done r) k)"
  shows "safe E V c post g Q (bindt t k)"
  using assms(1) k
proof (induction rule: reads.induct)
  case (reads_Read b h r)
  have s: "safe E V c post g Q (bindt (h (blk E d0 b)) k)" by (rule reads_Read(3) [OF reads_Read(4)])
  show ?case unfolding bindt_assoc
    by (rule rule_read [where raw = "blk E d0 b"]) (use st B [OF reads_Read(1)] s in auto)
qed simp

text \<open>The loops over directory blocks give what they give without other threads.\<close>

lemma find_in_blocks_reads:
  assumes "\<forall>i \<in> set is. i < length bs \<and> bs ! i \<in> B" and "\<forall>b \<in> B. b < FS_DISKSIZE"
  shows "reads E (disk s) B (find_in_blocks_t E nm bs is) (fst (find_in_blocks E nm bs is s))"
  using assms(1)
proof (induction "is")
  case Nil
  then show ?case by (simp add: rett_def prog_simps reads_Done)
next
  case (Cons i "is")
  then have i: "i < length bs" "bs ! i \<in> B" "bs ! i < FS_DISKSIZE" using assms(2) by auto
  have "reads E (disk s) B (find_in_blocks_t E nm bs is) (fst (find_in_blocks E nm bs is s))"
    using Cons by simp
  then show ?case using i
    by (cases "find_in_block nm (decode_dir (blk E (disk s) (bs ! i)))")
      (auto simp: prog_simps rett_def intro!: reads_Read reads_Done)
qed

lemma create_scan_blocks_reads:
  assumes "\<forall>i \<in> set is. i < length bs \<and> bs ! i \<in> B" and "\<forall>b \<in> B. b < FS_DISKSIZE"
  shows "reads E (disk s) B (create_scan_blocks_t E nm bs is st) (fst (create_scan_blocks E nm bs is st s))"
  using assms(1)
proof (induction "is" arbitrary: st)
  case Nil
  then show ?case by (simp add: rett_def prog_simps reads_Done)
next
  case (Cons i "is")
  then have i: "i < length bs" "bs ! i \<in> B" "bs ! i < FS_DISKSIZE" using assms(2) by auto
  have "reads E (disk s) B (create_scan_blocks_t E nm bs is st) (fst (create_scan_blocks E nm bs is st s))" for st
    using Cons by simp
  then show ?case using i
    by (cases "create_scan_entries nm (bs ! i) (decode_dir (blk E (disk s) (bs ! i))) [0..<FS_DIRENTRIES] st")
      (auto simp: prog_simps rett_def intro!: reads_Read reads_Done split: option.splits)
qed

lemma delete_scan_blocks_reads:
  assumes "\<forall>i \<in> set is. i < length bs \<and> bs ! i \<in> B" and "\<forall>b \<in> B. b < FS_DISKSIZE"
  shows "reads E (disk s) B (delete_scan_blocks_t E nm bs is) (fst (delete_scan_blocks E nm bs is s))"
  using assms(1)
proof (induction "is")
  case Nil
  then show ?case by (simp add: rett_def prog_simps reads_Done)
next
  case (Cons i "is")
  then have i: "i < length bs" "bs ! i \<in> B" "bs ! i < FS_DISKSIZE" using assms(2) by auto
  have "reads E (disk s) B (delete_scan_blocks_t E nm bs is) (fst (delete_scan_blocks E nm bs is s))"
    using Cons by simp
  then show ?case using i
    by (cases "delete_scan_entries nm (decode_dir (blk E (disk s) (bs ! i))) [0..<FS_DIRENTRIES]")
      (auto simp: prog_simps rett_def intro!: reads_Read reads_Done split: option.splits)
qed

end

subsection \<open>One name of the path\<close>

text \<open>What a thread has between two of its steps, apart from where it waited last.\<close>

definition holds :: "(nat \<rightharpoonup> lmode) \<Rightarrow> phase \<Rightarrow> ghost \<Rightarrow> bool" where
  "holds h ph g \<longleftrightarrow> held g = h \<and> wants g = None \<and> fresh g = {} \<and> limbo g = {} \<and> phase g = ph"

text \<open>The errors that say that there is no space; a request that has failed otherwise and has given back its locks may end.\<close>

definition no_space :: "string set" where
  "no_space = {''Not enough disk space for this write'', ''Not enough disk space for create''}"

definition may_fail :: "(stop + 'a \<Rightarrow> ghost \<Rightarrow> 'd assertion \<Rightarrow> bool) \<Rightarrow> bool" where
  "may_fail post \<longleftrightarrow> (\<forall>msg g. msg \<notin> no_space \<longrightarrow> holds Map.empty (Committed True None) g \<longrightarrow> post (Inl (Runtime_error msg)) g (\<lambda>_ _. True))"

lemma commitsI:
  "phase g = Pending \<Longrightarrow> phase g' = Committed sp r \<Longrightarrow> spec_request sp c A = (r, A') \<Longrightarrow> commits c g g' A A'"
  unfolding commits_def by blast

lemma may_commitI:
  "phase g = Pending \<Longrightarrow> spec_request sp c A = (r, A) \<Longrightarrow> may_commit c g (Committed sp r) A"
  unfolding may_commit_def by blast

lemma no_space_iff [simp]:
  "msg \<in> no_space \<longleftrightarrow> msg = ''Not enough disk space for this write'' \<or> msg = ''Not enough disk space for create''"
  by (simp add: no_space_def)

text \<open>
  The thread is at the path \<open>p\<close> of its walk, has its inode \<open>n\<close> locked, and looks for the name \<open>x\<close>.
\<close>

definition walker :: "('d, 'm) fs_env \<Rightarrow> string \<Rightarrow> string list \<Rightarrow> string \<Rightarrow> nat \<Rightarrow> ghost \<Rightarrow> 'd assertion \<Rightarrow> bool" where
  "walker E u p x n g Q \<longleftrightarrow>
     (\<exists>d0 I0. fs_wf E d0 I0 \<and> walk_as E d0 u 0 p = Inr n \<and>
       (case step_dir E d0 u n x of
          Inl e \<Rightarrow> holds [n \<mapsto> Rd] (Committed True None) g \<and> Q = sees E n d0
        | Inr m \<Rightarrow> holds [n \<mapsto> Rd] Pending g \<and> Q = at_node E u p n d0))"

text \<open>Requests that fail when the path is not there.\<close>

definition lost :: "('d, 'm) fs_env \<Rightarrow> Command \<Rightarrow> string \<Rightarrow> string list \<Rightarrow> bool" where
  "lost E c u T \<longleftrightarrow>
     (\<forall>d I e. fs_wf E d I \<longrightarrow> walk_as E d u 0 T = Inl e \<longrightarrow>
        spec_request True c (abs_fs E d) = (None, abs_fs E d))"

text \<open>The two ways of locking an inode on the way.\<close>

definition lock_mode_t :: "('d, 'm) fs_env \<Rightarrow> lmode \<Rightarrow> nat \<Rightarrow> ('d, 'm, unit) fs_task" where
  "lock_mode_t E md m = (if md = Rd then lock_inode_read_t E m else lock_inode_upgrade_t E m)"

lemma lock_mode_t_simps:
  "lock_mode_t E Rd = lock_inode_read_t E"
  "lock_mode_t E Up = lock_inode_upgrade_t E"
  by (simp_all add: lock_mode_t_def fun_eq_iff)

lemma holdsD:
  assumes "holds h ph g"
  shows "held g = h" "wants g = None" "fresh g = {}" "limbo g = {}" "phase g = ph" "private_blocks g = {}"
  using assms by (simp_all add: holds_def private_blocks_def)

context fs_server
begin

text \<open>Giving a lock back when the request has taken effect, or not yet.\<close>

lemma rule_unlock:
  assumes st: "stable E g Q" and g: "wants g = None"
    and f: "held g b = Some Rd \<and> f = sm_unlock_shared E \<or> held g b = Some Up \<and> f = sm_unlock_upgrade E \<or>
      held g b \<in> {Some Wr, Some Dead} \<and> f = sm_unlock E"
    and at: "\<And>d I. fs_wf E d I \<Longrightarrow> Q d I \<Longrightarrow> held g b \<in> {Some Up, Some Wr} \<Longrightarrow> b \<in> I"
    and q: "\<And>d I. Q d I \<Longrightarrow> Q' d I" and k: "safe E V c post (gives_lock g b) Q' (k ())"
  shows "safe E V c post g Q (bindt (atom (release_user f b)) k)"
proof (rule rule_release [OF st g f at])
  fix d I assume "Q d I"
  then show "\<exists>ph Q'. may_commit c g ph (abs_fs E d) \<and> Q' d I \<and> safe E V c post ((gives_lock g b)\<lparr>phase := ph\<rparr>) Q' (k ())"
    using q k by (intro exI [of _ "phase g"] exI [of _ Q']) (simp add: gives_lock_def)
qed

lemma rule_next_inode:
  assumes st: "stable E g Q" and g: "held g n = Some Rd" "wants g = None"
    and wf: "fs_wf E d0 I0" "n \<in> I0" and Q: "\<And>d I. Q d I \<Longrightarrow> untouched E d0 d n" and x: "NUL \<notin> set x"
    and ok: "\<And>m. step_dir E d0 u n x = Inr m \<Longrightarrow> safe E V c post g Q (k m)"
    and bad: "\<And>msg. step_dir E d0 u n x = Inl (Runtime_error msg) \<Longrightarrow>
      safe E V c post (gives_lock g n) (\<lambda>_ _. True) (Done (Inl (Runtime_error msg)))"
  shows "safe E V c post g Q (bindt (find_next_inode_t E x n u) k)"
proof -
  let ?i = "inode_at E d0 n"
  have less: "n < FS_DISKSIZE" using wf by (rule fs_wf_inode_less)
  have inode: "NUL \<in> set (i_owner ?i)" "i_size ?i \<le> FS_MAXFILEBLOCKS" "\<forall>b \<in> set (owned E d0 n). b < FS_DISKSIZE"
    using fs_wf_inode [OF wf] by (auto simp: inode_ok_def)
  have same: "b < FS_DISKSIZE \<and> blk E d b = blk E d0 b" if "b \<in> set (owned E d0 n)" "Q d I" for b d I
    using that inode(3) Q [OF that(2)] by (simp add: untouched_def)
  have fail: "safe E V c post g Q (bindt (atom (release_user (sm_unlock_shared E) n)) (\<lambda>_. Done (Inl (Runtime_error msg))))"
    if "step_dir E d0 u n x = Inl (Runtime_error msg)" for msg
    by (rule rule_unlock [OF st g(2) _ _ _ bad [OF that]]) (use g in simp_all)
  let ?s = "undefined\<lparr>disk := d0\<rparr> :: ('d, 'm) FileSystem"
  have blocks: "\<forall>k \<in> set [0..<i_size ?i]. k < length (i_blocks ?i) \<and> i_blocks ?i ! k \<in> set (owned E d0 n)"
    using inode(2) less inode_block_in(1) [OF less inode(2)] inode_blocks_owned [of _ E d0 n] by auto
  have look: "safe E V c post g Q (bindt (find_in_blocks_t E x (i_blocks ?i) [0..<i_size ?i]) h)"
    if dir: "is_dir E d0 n" and h: "safe E V c post g Q
      (h (case map_of (dir_entries E d0 n) x of None \<Rightarrow> UNDEFINED_BLOCK | Some m \<Rightarrow> m))" for h
  proof -
    have "\<forall>k \<in> set [0..<i_size ?i]. k < length (i_blocks ?i) \<and> readable_dir E (disk ?s) (i_blocks ?i ! k)"
      using inode(2) less fs_wf_readable [OF wf dir] inode_block_in(1) by auto
    moreover have "map (\<lambda>k. used_entries (dir_at E d0 (i_blocks ?i ! k))) [0..<i_size ?i]
        = map (\<lambda>b. used_entries (dir_at E d0 b)) (take (i_size ?i) (i_blocks ?i))"
      using inode(2) less by (intro map_nth_take) simp
    ultimately have "fst (find_in_blocks E x (i_blocks ?i) [0..<i_size ?i] ?s) =
        Inr (case map_of (dir_entries E d0 n) x of None \<Rightarrow> UNDEFINED_BLOCK | Some m \<Rightarrow> m)"
      using find_in_blocks_map_of [OF x, of "[0..<i_size ?i]" "i_blocks ?i" ?s]
      by (simp add: dir_entries_def inode_blocks_def)
    then have "reads E d0 (set (owned E d0 n)) (find_in_blocks_t E x (i_blocks ?i) [0..<i_size ?i])
        (Inr (case map_of (dir_entries E d0 n) x of None \<Rightarrow> UNDEFINED_BLOCK | Some m \<Rightarrow> m))"
      using find_in_blocks_reads [OF blocks inode(3), of ?s x] by simp
    then show ?thesis by (rule safe_reads [OF _ st same]) (use h in simp_all)
  qed
  have small: "m \<noteq> UNDEFINED_BLOCK" if "is_dir E d0 n" "map_of (dir_entries E d0 n) x = Some m" for m
    using fs_wf_inode_less [OF wf(1) fs_wf_entry [OF wf that(1) map_of_SomeD [OF that(2)]]] by (auto simp: UNDEFINED_BLOCK_def)
  have allowed: "(if n = 0 then rett True else bindt (Done (read_cstr (i_owner ?i))) (\<lambda>owner. rett (u = owner)))
      = rett (n = 0 \<or> u = owner_at E d0 n)"
    using inode(1) by (simp add: owner_at_def)
  show ?thesis unfolding find_next_inode_t_def bindt_assoc
  proof (rule rule_read [OF st same])
    show "n \<in> set (owned E d0 n)" by simp
    let ?body = "\<lambda>allowed. bindt (if \<not> allowed then
       seqt (unlock_inode_read_t E n) (haltt (Runtime_error ''User is not owner of this dir''))
     else if i_type ?i \<noteq> CHR ''d'' then
       seqt (unlock_inode_read_t E n) (haltt (Runtime_error ''Expected a directory, but got a file''))
     else bindt (find_in_blocks_t E x (i_blocks ?i) [0..<i_size ?i]) (\<lambda>result.
       if result = UNDEFINED_BLOCK then
         seqt (unlock_inode_read_t E n) (haltt (Runtime_error ''Directory not found''))
       else rett result)) k"
    have "safe E V c post g Q (?body (n = 0 \<or> u = owner_at E d0 n))"
    proof (cases "n = 0 \<or> u = owner_at E d0 n")
      case False
      then show ?thesis using fail by (simp add: unlock_inode_read_t_def seqt_def bindt_assoc step_dir_def haltt_def)
    next
      case True
      show ?thesis
      proof (cases "is_dir E d0 n")
        case False
        then show ?thesis using True fail
          by (simp add: unlock_inode_read_t_def seqt_def bindt_assoc step_dir_def is_dir_def haltt_def)
      next
        case dir: True
        then have ty: "i_type ?i = CHR ''d''" by (simp add: is_dir_def)
        have "safe E V c post g Q (bindt (find_in_blocks_t E x (i_blocks ?i) [0..<i_size ?i]) (\<lambda>result.
            bindt (if result = UNDEFINED_BLOCK then
              seqt (unlock_inode_read_t E n) (haltt (Runtime_error ''Directory not found'')) else rett result) k))"
          by (rule look [OF dir]) (use True dir ok fail small [OF dir] in \<open>cases "map_of (dir_entries E d0 n) x",
            simp_all add: unlock_inode_read_t_def seqt_def bindt_assoc step_dir_def haltt_def\<close>)
        then show ?thesis using True ty by (simp add: bindt_assoc)
      qed
    qed
    then show "safe E V c post g Q (bindt (let curr_inode = decode_inode (blk E d0 n) in
     bindt (if n = 0 then rett True
            else bindt (Done (read_cstr (i_owner curr_inode))) (\<lambda>owner. rett (u = owner))) (\<lambda>allowed.
     if \<not> allowed then
       seqt (unlock_inode_read_t E n) (haltt (Runtime_error ''User is not owner of this dir''))
     else if i_type curr_inode \<noteq> CHR ''d'' then
       seqt (unlock_inode_read_t E n) (haltt (Runtime_error ''Expected a directory, but got a file''))
     else bindt (find_in_blocks_t E x (i_blocks curr_inode) [0..<i_size curr_inode]) (\<lambda>result.
       if result = UNDEFINED_BLOCK then
         seqt (unlock_inode_read_t E n) (haltt (Runtime_error ''Directory not found''))
       else rett result))) k)"
      unfolding Let_def inode_at_def [symmetric] allowed task_simps .
  qed
qed

lemma step_dir_space: "step_dir E d u n x = Inl (Runtime_error msg) \<Longrightarrow> msg \<notin> no_space"
  by (auto simp: step_dir_def no_space_def split: option.splits if_splits)

lemma stable_at_step:
  assumes "held g n = Some Rd" and "step_dir E d0 u n x = Inr m"
  shows "stable E g (at_node E u p n d0)"
  by (rule stable_at) (use assms in \<open>auto simp: step_dir_Inr\<close>)

lemma safe_failed:
  assumes "may_fail post" and "holds [n \<mapsto> md] (Committed True None) g" and "msg \<notin> no_space"
  shows "safe E V c post (gives_lock g n) (\<lambda>_ _. True) (Done (Inl (Runtime_error msg)))"
proof (rule safe_Done)
  have "held (gives_lock g n) = Map.empty" using holdsD(1) [OF assms(2)] by auto
  then have "holds Map.empty (Committed True None) (gives_lock g n)" using assms(2) by (simp add: holds_def)
  then show "post (Inl (Runtime_error msg)) (gives_lock g n) (\<lambda>_ _. True)" using assms(1,3) by (simp add: may_fail_def)
qed simp

lemma walker_next:
  assumes w: "walker E u p x n g Q" and f: "may_fail post" and x: "NUL \<notin> set x"
    and k: "\<And>m d0 I0. fs_wf E d0 I0 \<Longrightarrow> walk_as E d0 u 0 p = Inr n \<Longrightarrow> step_dir E d0 u n x = Inr m \<Longrightarrow>
      holds [n \<mapsto> Rd] Pending g \<Longrightarrow> safe E V c post g (at_node E u p n d0) (k m)"
  shows "safe E V c post g Q (bindt (find_next_inode_t E x n u) k)"
proof -
  obtain d0 I0 where d0: "fs_wf E d0 I0" "walk_as E d0 u 0 p = Inr n"
    "case step_dir E d0 u n x of Inl e \<Rightarrow> holds [n \<mapsto> Rd] (Committed True None) g \<and> Q = sees E n d0
        | Inr m \<Rightarrow> holds [n \<mapsto> Rd] Pending g \<and> Q = at_node E u p n d0"
    using w by (auto simp: walker_def)
  have h: "held g n = Some Rd" "wants g = None"
    using d0(3) by (auto dest: holdsD split: sum.splits)
  have nI: "n \<in> I0" by (rule walk_root_in [OF d0(1) walk_as_walk [OF d0(2)]])
  have st: "stable E g Q"
    using d0(3) h(1) stable_sees [of g n Rd E d0] stable_at_step [of g n d0 u x] by (auto split: sum.splits)
  show ?thesis
  proof (rule rule_next_inode [OF st h d0(1) nI _ x])
    show "untouched E d0 d n" if "Q d I" for d I
      using that d0(3) by (auto simp: at_node_def sees_def split: sum.splits)
    show "safe E V c post g Q (k m)" if "step_dir E d0 u n x = Inr m" for m
      using k [OF d0(1,2) that] d0(3) that by simp
    show "safe E V c post (gives_lock g n) (\<lambda>_ _. True) (Done (Inl (Runtime_error msg)))"
      if "step_dir E d0 u n x = Inl (Runtime_error msg)" for msg
      by (rule safe_failed [OF f, of _ Rd]) (use d0(3) that step_dir_space [OF that] in simp_all)
  qed
qed

text \<open>The child is locked, in either mode, before the lock of its directory is given back.\<close>

lemma rule_enter:
  assumes wf: "fs_wf E d0 I0" and n: "walk_as E d0 u 0 p = Inr n" and m: "step_dir E d0 u n x = Inr m"
    and g: "holds [n \<mapsto> Rd] Pending g" and md: "md \<in> {Rd, Up}"
    and k: "\<And>d I. fs_wf E d I \<Longrightarrow> walk_as E d u 0 (p @ [x]) = Inr m \<Longrightarrow>
      \<exists>ph Q'. may_commit c idle ph (abs_fs E d) \<and> Q' d I \<and> (\<forall>g'. holds [m \<mapsto> md] ph g' \<longrightarrow> safe E V c post g' Q' t)"
  shows "safe E V c post g (at_node E u p n d0) (seqt (lock_mode_t E md m) (seqt (unlock_inode_read_t E n) t))"
proof -
  note h = holdsD [OF g]
  have "walk_as E d0 u 0 (p @ [x]) = Inr m" using n m by (simp add: walk_as_append)
  then have ne: "m \<noteq> n" using walk_child_neq [OF wf walk_as_walk [OF n], of x m] walk_as_walk [of E d0 u 0 "p @ [x]" m] by simp
  let ?f = "if md = Rd then sm_lock_shared E else sm_lock_upgrade E"
  have st: "stable E g (at_node E u p n d0)" by (rule stable_at_step [OF _ m]) (simp add: h)
  have there: "walk_as E d u 0 (p @ [x]) = Inr m" "walk_as E d u 0 p = Inr n" if "at_node E u p n d0 d I" for d I
    using that m step_dir_untouched [of E d0 d n u x] by (simp_all add: at_node_def walk_as_append)
  have acq: "safe E V c post (wishes g m md a (p @ [x])) (at_node E u p n d0)
    (bindt (atom (acquire ?f a)) (\<lambda>_. bindt (atom (release_user (sm_unlock_shared E) n)) (\<lambda>_. t)))" for a
  proof (rule rule_acquire [where b = m and md = md])
    show "stable E (wishes g m md a (p @ [x])) (at_node E u p n d0)"
      by (rule stable_mono [OF st]) (simp_all add: private_blocks_def)
    fix d I assume d: "fs_wf E d I" "at_node E u p n d0 d I"
    note t = there [OF d(2)]
    show "waits_at E (wishes g m md a (p @ [x])) d \<and> m \<in> I"
      using walk_as_walk [OF t(1)] walk_as_walk [OF t(2)] walk_root_in [OF d(1)] h md by (auto simp: waits_at_def)
    obtain ph Q' where q: "may_commit c idle ph (abs_fs E d)" "Q' d I"
        "\<And>g'. holds [m \<mapsto> md] ph g' \<Longrightarrow> safe E V c post g' Q' t"
      using k [OF d(1) t(1)] by blast
    let ?g = "(takes_lock (wishes g m md a (p @ [x])) m md)\<lparr>phase := ph\<rparr>"
    have gh: "holds [m \<mapsto> md] ph (gives_lock ?g n)" using h ne by (auto simp: holds_def)
    have "stable E ?g Q'"
      by (rule stable_mono [OF safe_stable [OF q(3) [OF gh]]])
        (auto simp: private_blocks_def split: if_splits)
    then have "safe E V c post ?g Q' (bindt (atom (release_user (sm_unlock_shared E) n)) (\<lambda>_. t))"
      by (rule rule_unlock [OF _ _ _ _ _ q(3) [OF gh]]) (use h ne in simp_all)
    then show "\<exists>ph Q'. may_commit c (wishes g m md a (p @ [x])) ph (abs_fs E d) \<and> Q' d I \<and>
      safe E V c post ((takes_lock (wishes g m md a (p @ [x])) m md)\<lparr>phase := ph\<rparr>) Q'
        (bindt (atom (release_user (sm_unlock_shared E) n)) (\<lambda>_. t))"
      using q(1,2) h(5) by (intro exI [of _ ph] exI [of _ Q']) (simp add: may_commit_def idle_def)
  qed (use md in simp_all)
  have "safe E V c post g (at_node E u p n d0) (bindt (atom (register_user E m)) (\<lambda>a.
    bindt (atom (acquire ?f a)) (\<lambda>_. bindt (atom (release_user (sm_unlock_shared E) n)) (\<lambda>_. t))))"
    by (rule rule_register [OF st _ _ md acq]) (use h ne in simp_all)
  then show ?thesis using md
    by (auto simp: seqt_def bindt_assoc lock_mode_t_def lock_inode_read_t_def lock_inode_upgrade_t_def unlock_inode_read_t_def)
qed

subsection \<open>The whole path\<close>

lemma walk_as_prefix_Inl:
  assumes "walk_as E d u 0 p = Inr n" and "step_dir E d u n x = Inl e"
  shows "walk_as E d u 0 (p @ x # q) = Inl e"
  using assms by (simp add: walk_as_append)

text \<open>When a lock is taken on the way, the request fails there and then, or the next name will be found.\<close>

lemma walker_start:
  assumes T: "T = p @ x # q" and l: "lost E c u T" and wf: "fs_wf E d I" and n: "walk_as E d u 0 p = Inr n"
    and k: "\<And>g Q. walker E u p x n g Q \<Longrightarrow> safe E V c post g Q t"
  shows "\<exists>ph Q'. may_commit c idle ph (abs_fs E d) \<and> Q' d I \<and> (\<forall>g'. holds [n \<mapsto> Rd] ph g' \<longrightarrow> safe E V c post g' Q' t)"
proof (cases "step_dir E d u n x")
  case (Inl e)
  then have "walk_as E d u 0 T = Inl e" unfolding T by (rule walk_as_prefix_Inl [OF n])
  then have "spec_request True c (abs_fs E d) = (None, abs_fs E d)" using l wf unfolding lost_def by blast
  then have "may_commit c idle (Committed True None) (abs_fs E d)" unfolding may_commit_def idle_def by auto
  moreover have "walker E u p x n g (sees E n d)" if "holds [n \<mapsto> Rd] (Committed True None) g" for g
    unfolding walker_def using that wf n Inl by (intro exI [of _ d] exI [of _ I]) simp
  ultimately show ?thesis using k by (intro exI [of _ "Committed True None"] exI [of _ "sees E n d"]) (simp add: sees_def)
next
  case (Inr m)
  have "walker E u p x n g (at_node E u p n d)" if "holds [n \<mapsto> Rd] Pending g" for g
    unfolding walker_def using that wf n Inr by (intro exI [of _ d] exI [of _ I]) simp
  then show ?thesis using k n
    by (intro exI [of _ Pending] exI [of _ "at_node E u p n d"]) (simp add: at_node_def may_commit_def idle_def)
qed

lemma find_parent_loop_safe:
  assumes T: "T = p @ xs @ z # q" and l: "lost E c u T" and f: "may_fail post"
    and w: "walker E u p (hd (xs @ [z])) n g Q"
    and names: "\<forall>x \<in> set xs. x \<noteq> [] \<and> NUL \<notin> set x" and y: "NUL \<notin> set y" "y = [] \<longrightarrow> n = 0"
    and k: "\<And>m g Q. walker E u (p @ xs) z m g Q \<Longrightarrow> safe E V c post g Q (k m)"
  shows "safe E V c post g Q (bindt (find_parent_loop_t E u n (y # xs)) k)"
  using T w names y k
proof (induction xs arbitrary: p n g Q y)
  case Nil
  then show ?case by simp
next
  case (Cons x xs)
  have x: "NUL \<notin> set x" "x \<noteq> []" using Cons.prems(3) by auto
  have chk: "strcmp_eq (c_str y) (c_str []) = Inr (y = [])" using Cons.prems(4) by simp
  have nxt: "safe E V c post g' Q' (bindt (find_parent_loop_t E u m (x # xs)) k)"
    if "walker E u (p @ [x]) (hd (xs @ [z])) m g' Q'" for m g' Q'
    by (rule Cons.IH [of "p @ [x]"]) (use Cons.prems that x in simp_all)
  obtain r rs where r: "xs @ [z] = r # rs" by (cases "xs @ [z]") auto
  have "safe E V c post g Q (bindt (find_next_inode_t E x n u) (\<lambda>m. seqt (lock_mode_t E Rd m)
      (seqt (unlock_inode_read_t E n) (bindt (find_parent_loop_t E u m (x # xs)) k))))"
  proof (rule walker_next [OF _ f x(1)])
    show "walker E u p x n g Q" using Cons.prems(2) by simp
    fix m d0 I0
    assume d0: "fs_wf E d0 I0" "walk_as E d0 u 0 p = Inr n" "step_dir E d0 u n x = Inr m" "holds [n \<mapsto> Rd] Pending g"
    show "safe E V c post g (at_node E u p n d0) (seqt (lock_mode_t E Rd m)
      (seqt (unlock_inode_read_t E n) (bindt (find_parent_loop_t E u m (x # xs)) k)))"
    proof (rule rule_enter [OF d0])
      fix d I assume d: "fs_wf E d I" "walk_as E d u 0 (p @ [x]) = Inr m"
      have "T = (p @ [x]) @ r # rs @ q" using Cons.prems(1) arg_cong [OF r, of "\<lambda>l. l @ q"] by simp
      then show "\<exists>ph Q'. may_commit c idle ph (abs_fs E d) \<and> Q' d I \<and>
          (\<forall>g'. holds [m \<mapsto> Rd] ph g' \<longrightarrow> safe E V c post g' Q' (bindt (find_parent_loop_t E u m (x # xs)) k))"
        by (rule walker_start [OF _ l d nxt]) (simp add: r)
    qed simp
  qed
  then show ?case using chk Cons.prems(5)
    by (cases "y = []") (simp_all add: seqt_def bindt_assoc lock_mode_t_def ROOT_INODE_def)
qed

text \<open>Waiting for the root.\<close>

lemma rule_enter_root:
  assumes g: "holds Map.empty Pending g" and md: "md \<in> {Rd, Up}"
    and k: "\<And>d I. fs_wf E d I \<Longrightarrow>
      \<exists>ph Q'. may_commit c idle ph (abs_fs E d) \<and> Q' d I \<and> (\<forall>g'. holds [0 \<mapsto> md] ph g' \<longrightarrow> safe E V c post g' Q' t)"
  shows "safe E V c post g (\<lambda>_ _. True) (seqt (lock_mode_t E md 0) t)"
proof -
  note h = holdsD [OF g]
  let ?f = "if md = Rd then sm_lock_shared E else sm_lock_upgrade E"
  have acq: "safe E V c post (wishes g 0 md a []) (\<lambda>_ _. True) (bindt (atom (acquire ?f a)) (\<lambda>_. t))" for a
  proof (rule rule_acquire [where b = 0 and md = md])
    fix d I assume d: "fs_wf E d I"
    show "waits_at E (wishes g 0 md a []) d \<and> 0 \<in> I"
      using fs_wf_root(1) [OF d] h md by (auto simp: waits_at_def)
    obtain ph Q' where q: "may_commit c idle ph (abs_fs E d)" "Q' d I"
        "\<And>g'. holds [0 \<mapsto> md] ph g' \<Longrightarrow> safe E V c post g' Q' t"
      using k [OF d] by blast
    have "holds [0 \<mapsto> md] ph ((takes_lock (wishes g 0 md a []) 0 md)\<lparr>phase := ph\<rparr>)"
      using h by (simp add: holds_def)
    then show "\<exists>ph Q'. may_commit c (wishes g 0 md a []) ph (abs_fs E d) \<and> Q' d I \<and>
      safe E V c post ((takes_lock (wishes g 0 md a []) 0 md)\<lparr>phase := ph\<rparr>) Q' t"
      using q h(5) by (intro exI [of _ ph] exI [of _ Q']) (simp add: may_commit_def idle_def)
  qed (use md in simp_all)
  have "safe E V c post g (\<lambda>_ _. True) (bindt (atom (register_user E 0)) (\<lambda>a. bindt (atom (acquire ?f a)) (\<lambda>_. t)))"
    by (rule rule_register [OF _ _ _ md acq]) (use h in simp_all)
  then show ?thesis using md
    by (auto simp: seqt_def bindt_assoc lock_mode_t_def lock_inode_read_t_def lock_inode_upgrade_t_def)
qed

text \<open>The opening of the requests: find the parent, find the target in it, lock the target and unlock the parent.\<close>

lemma rule_reach:
  assumes p: "path_ok path p" and g: "holds Map.empty Pending g" and l: "lost E c u p" and f: "may_fail post"
    and md: "md \<in> {Rd, Up}"
    and k: "\<And>m n d I. fs_wf E d I \<Longrightarrow> walk_as E d u 0 p = Inr n \<Longrightarrow>
      \<exists>ph Q'. may_commit c idle ph (abs_fs E d) \<and> Q' d I \<and> (\<forall>g'. holds [n \<mapsto> md] ph g' \<longrightarrow> safe E V c post g' Q' (k m n))"
  shows "safe E V c post g (\<lambda>_ _. True) (bindt (find_parent_inode_t E path u) (\<lambda>m.
    bindt (Done (get_target path)) (\<lambda>t. bindt (find_next_inode_t E t m u) (\<lambda>n.
    seqt (lock_mode_t E md n) (seqt (unlock_inode_read_t E m) (k m n))))))"
    (is "safe _ _ _ _ _ _ (bindt _ ?K)")
proof -
  obtain xs x where px: "p = xs @ [x]" using p by (cases p rule: rev_cases) (auto simp: path_ok_def)
  have ok: "name_ok x" "NUL \<notin> set x" "\<forall>y \<in> set xs. name_ok y \<and> NUL \<notin> set y" and path: "path = join_path xs @ slash # x"
    using p by (auto simp: path_ok_def px)
  have split: "getline_split slash (join_path xs) = (if xs = [] then [] else [] # xs)"
    using ok(3) by (intro getline_split_join) (auto simp: name_ok_def)
  have last: "safe E V c post g' Q' (?K m)" if w: "walker E u xs x m g' Q'" for m g' Q'
  proof -
    have "safe E V c post g' Q' (bindt (find_next_inode_t E x m u) (\<lambda>n.
      seqt (lock_mode_t E md n) (seqt (unlock_inode_read_t E m) (k m n))))"
    proof (rule walker_next [OF w f ok(2)])
      fix n d0 I0
      assume d0: "fs_wf E d0 I0" "walk_as E d0 u 0 xs = Inr m" "step_dir E d0 u m x = Inr n" "holds [m \<mapsto> Rd] Pending g'"
      show "safe E V c post g' (at_node E u xs m d0) (seqt (lock_mode_t E md n) (seqt (unlock_inode_read_t E m) (k m n)))"
        by (rule rule_enter [OF d0 md k]) (simp_all add: px)
    qed
    then show ?thesis using ok(1) by (simp add: path)
  qed
  have loop: "safe E V c post g' Q' (bindt (find_parent_loop_t E u 0 (if xs = [] then [] else [] # xs)) ?K)"
    if w: "walker E u [] (hd (xs @ [x])) 0 g' Q'" for g' Q'
  proof (cases "xs = []")
    case True
    then show ?thesis using last w by simp
  next
    case False
    have "safe E V c post g' Q' (bindt (find_parent_loop_t E u 0 ([] # xs)) ?K)"
      by (rule find_parent_loop_safe [where p = "[]" and z = x and q = "[]" and T = p, OF _ l f w])
        (use ok last in \<open>auto simp: px name_ok_def\<close>)
    then show ?thesis using False by simp
  qed
  obtain r rs where r: "xs @ [x] = r # rs" by (cases "xs @ [x]") auto
  have "safe E V c post g (\<lambda>_ _. True)
    (seqt (lock_mode_t E Rd 0) (bindt (find_parent_loop_t E u 0 (if xs = [] then [] else [] # xs)) ?K))"
  proof (rule rule_enter_root [OF g])
    fix d I assume d: "fs_wf E d I"
    have "p = [] @ r # rs" using px r by simp
    then show "\<exists>ph Q'. may_commit c idle ph (abs_fs E d) \<and> Q' d I \<and> (\<forall>g'. holds [0 \<mapsto> Rd] ph g' \<longrightarrow>
        safe E V c post g' Q' (bindt (find_parent_loop_t E u 0 (if xs = [] then [] else [] # xs)) ?K))"
      by (rule walker_start [OF _ l d _ loop]) (use r in simp_all)
  qed simp
  moreover have "get_parent_dir path = Inr (join_path xs)" using ok(1) by (simp add: path)
  ultimately show ?thesis
    by (simp add: find_parent_inode_t_def seqt_def bindt_assoc split lock_mode_t_def ROOT_INODE_def)
qed

end

end
