(* ===== verification/FS_Read_Threads.thy ===== *)
theory FS_Read_Threads
  imports FS_Walk
begin

text \<open>
  The end of a request, and \<^verbatim>\<open>handle_read\<close> among other requests: it takes effect when the lock of its target is
  taken, and the block it returns is the one that the file had at that moment.
\<close>

text \<open>
  How a request ends: with the result with which it took effect and without locks.  The create request that finds
  no free block throws with the lock of its directory.
\<close>

definition finished :: "stop + char list \<Rightarrow> ghost \<Rightarrow> 'd assertion \<Rightarrow> bool" where
  "finished r g Q \<longleftrightarrow> wants g = None \<and>
     (case r of
        Inr x \<Rightarrow> phase g = Committed True (Some x) \<and> held g = Map.empty
      | Inl (Runtime_error msg) \<Rightarrow>
          phase g = Committed (msg \<notin> no_space) None \<and> (held g = Map.empty \<or> msg = ''Not enough disk space for create'')
      | Inl _ \<Rightarrow> False)"

text \<open>The task has only to end with the result \<open>r\<close>.\<close>

fun replies :: "char list option \<Rightarrow> ('s, char list) task \<Rightarrow> bool" where
  "replies r (Done (Inr x)) = (r = Some x)"
| "replies r (Done (Inl (Runtime_error msg))) = (r = None \<and> msg \<notin> no_space)"
| "replies r t = False"

lemma may_fail_finished [simp]: "may_fail finished"
  by (simp add: may_fail_def finished_def holds_def)

lemma path_of_ok: "path_ok (pathname c) p \<Longrightarrow> path_of c = p"
proof -
  assume p: "path_ok (pathname c) p"
  then obtain x xs where "p = x # xs" by (cases p) (auto simp: path_ok_def)
  then show "path_of c = p"
    using p getline_split_names [of x xs] by (auto simp: path_of_def path_ok_def name_ok_def)
qed

lemma commit_now: "spec_request sp c A = (r, A) \<Longrightarrow> may_commit c idle (Committed sp r) A"
  by (auto simp: may_commit_def idle_def)

lemma lostI:
  assumes "\<And>d I e. fs_wf E d I \<Longrightarrow> walk_as E d u 0 T = Inl e \<Longrightarrow> spec_request True c (abs_fs E d) = (None, abs_fs E d)"
  shows "lost E c u T"
  unfolding lost_def using assms by blast

context fs_server
begin

text \<open>The last unlock of a request.\<close>

lemma rule_last_unlock:
  assumes st: "stable E g Q" and g: "holds [n \<mapsto> md] (Committed True r) g"
    and f: "md = Rd \<and> f = sm_unlock_shared E \<or> md = Up \<and> f = sm_unlock_upgrade E \<or>
      md \<in> {Wr, Dead} \<and> f = sm_unlock E"
    and at: "\<And>d I. fs_wf E d I \<Longrightarrow> Q d I \<Longrightarrow> md \<in> {Up, Wr} \<Longrightarrow> n \<in> I"
    and k: "replies r (k ())"
  shows "safe E V c finished g Q (bindt (atom (release_user f n)) k)"
proof (rule rule_unlock [where Q' = "\<lambda>_ _. True"])
  note h = holdsD [OF g]
  show "held g n = Some Rd \<and> f = sm_unlock_shared E \<or> held g n = Some Up \<and> f = sm_unlock_upgrade E \<or>
      held g n \<in> {Some Wr, Some Dead} \<and> f = sm_unlock E" using f h(1) by auto
  have "held (gives_lock g n) = Map.empty" using h(1) by auto
  then show "safe E V c finished (gives_lock g n) (\<lambda>_ _. True) (k ())"
    using k h by (cases "(r, k ())" rule: replies.cases) (auto intro!: safe_Done simp: finished_def)
  show "n \<in> I" if "fs_wf E d I" "Q d I" "held g n \<in> {Some Up, Some Wr}" for d I
    using at that h(1) by auto
qed (use st holdsD [OF g] in simp_all)

lemma read_request_safe:
  assumes c: "command_type c = FS_READBLOCK" and p: "path_ok (pathname c) p" and g: "holds Map.empty Pending g"
  shows "safe E V c finished g (\<lambda>_ _. True) (handle_read_t E c)"
proof -
  have spec: "spec_request sp c A = (spec_read A (username c) p (block c), A)" for sp A
    using c path_of_ok [OF p] by (simp add: spec_request_def)
  have ne: "p \<noteq> []" using p by (simp add: path_ok_def)
  have lost: "lost E c (username c) p" by (rule lostI) (simp add: spec spec_read_unreachable)
  show ?thesis unfolding handle_read_t_def lock_mode_t_simps(1) [symmetric]
  proof (rule rule_reach [OF p g lost])
    fix m n d I assume d: "fs_wf E d I" "walk_as E d (username c) 0 p = Inr n"
    let ?i = "inode_at E d n" and ?r = "spec_read (abs_fs E d) (username c) p (block c)"
    note t = target_facts [OF d(1) walk_as_walk [OF d(2)] ne]
    note found = spec_read_found [OF d(1) ne d(2), of "block c"]
    let ?K = "\<lambda>raw. let target_inode = decode_inode raw in
     if i_type target_inode \<noteq> CHR ''f'' \<or> i_size target_inode \<le> block c then
       seqt (unlock_inode_read_t E n) (haltt (Runtime_error ''Provided file is not a valid file''))
     else
     bindt (Done (read_cstr (i_owner target_inode))) (\<lambda>owner.
     if username c \<noteq> owner then
       seqt (unlock_inode_read_t E n) (haltt (Runtime_error ''User is not owner of file''))
     else
     bindt (Done (arr_get (i_blocks target_inode) (block c))) (\<lambda>b.
     bindt (atom (read_shared E b)) (\<lambda>data_read.
     seqt (unlock_inode_read_t E n) (rett data_read))))"
    have "safe E V c finished g' (sees E n d) (bindt (atom (read_shared E n)) ?K)"
      if g': "holds [n \<mapsto> Rd] (Committed True ?r) g'" for g'
    proof -
      have st: "stable E g' (sees E n d)" by (rule stable_sees) (use holdsD(1) [OF g'] in auto)
      have same: "b < FS_DISKSIZE \<and> blk E d' b = blk E d b" if "b \<in> set (owned E d n)" "sees E n d d' I'" for b d' I'
        using that fs_wf_inode [OF d(1) t(1)] by (simp add: sees_def untouched_def inode_ok_def)
      have unlock: "safe E V c finished g' (sees E n d) (bindt (atom (release_user (sm_unlock_shared E) n)) k)"
        if "replies ?r (k ())" for k
        by (rule rule_last_unlock [OF st g']) (use that in simp_all)
      have body: "safe E V c finished g' (sees E n d) (?K (blk E d n))"
      proof (cases "is_dir E d n \<or> i_size ?i \<le> block c \<or> username c \<noteq> owner_at E d n")
        case True
        then have r: "?r = None" using found by simp
        show ?thesis using t(3) t(5) True unlock unfolding r
          by (auto simp: Let_def inode_at_def [symmetric] owner_at_def seqt_def unlock_inode_read_t_def haltt_def)
      next
        case False
        let ?b = "i_blocks ?i ! block c"
        have b: "?b \<in> set (owned E d n)" "block c < FS_MAXFILEBLOCKS"
          using False inode_block_in(1) [OF t(2,4)] inode_blocks_owned [of ?b E d n] t(4) by auto
        have r: "?r = Some (blk E d ?b)" using found False by simp
        have "safe E V c finished g' (sees E n d) (bindt (atom (read_shared E ?b)) (\<lambda>data_read.
            seqt (unlock_inode_read_t E n) (rett data_read)))"
          by (rule rule_read [OF st same [OF b(1)]])
            (use unlock in \<open>simp_all add: r seqt_def unlock_inode_read_t_def rett_def\<close>)
        then show ?thesis using t(2,3,5) False b(2)
          by (simp add: Let_def inode_at_def [symmetric] owner_at_def arr_get_def)
      qed
      show ?thesis by (rule rule_read [OF st same [OF inode_in_owned]]) (simp_all only: body)
    qed
    then show "\<exists>ph Q'. may_commit c idle ph (abs_fs E d) \<and> Q' d I \<and>
        (\<forall>g'. holds [n \<mapsto> Rd] ph g' \<longrightarrow> safe E V c finished g' Q' (bindt (atom (read_shared E n)) ?K))"
      using commit_now [OF spec] by (intro exI [of _ "Committed True ?r"] exI [of _ "sees E n d"]) (simp add: sees_def)
  qed simp_all
qed

end

end
