(* ===== verification/FS_Write_Threads.thy ===== *)
theory FS_Write_Threads
  imports FS_Read_Threads
begin

text \<open>
  \<^verbatim>\<open>handle_write\<close> among other requests: it takes effect when the block of the file is written, or when the inode is
  written that has the new block; when there is no room, in the critical section that finds this out.
\<close>

context fs_server
begin

subsection \<open>The upgrade of a lock\<close>

lemma rule_upgrade_to_write:
  assumes g: "held g = [n \<mapsto> Up]" "wants g = None"
    and Q: "\<And>d I. Q d I \<Longrightarrow> walk E d 0 p = Some n" and st: "stable E g Q"
    and k: "\<And>g'. held g' = [n \<mapsto> Wr] \<Longrightarrow> wants g' = None \<Longrightarrow> fresh g' = fresh g \<Longrightarrow> limbo g' = limbo g \<Longrightarrow>
      phase g' = phase g \<Longrightarrow> safe E V c post g' Q (k ())"
  shows "safe E V c post g Q (bindt (upgrade_to_write_lock_t E n) k)"
proof -
  have acq: "safe E V c post (wishes g n Wr a p) Q (bindt (atom (acquire (sm_unlock_upgrade_and_lock E) a)) k)" for a
  proof (rule rule_upgrade [where md = Wr and b = n])
    show "stable E (wishes g n Wr a p) Q" by (rule stable_mono [OF st]) (simp_all add: private_blocks_def)
    fix d I assume d: "fs_wf E d I" "Q d I"
    show "waits_at E (wishes g n Wr a p) d \<and> (Wr = Wr \<longrightarrow> n \<in> I)"
      using Q [OF d(2)] walk_root_in [OF d(1) Q [OF d(2)]] g by (simp add: waits_at_def)
    have "safe E V c post (takes_lock (wishes g n Wr a p) n Wr) Q (k ())" by (rule k) (use g in auto)
    then show "\<exists>Q'. Q' d I \<and> safe E V c post (takes_lock (wishes g n Wr a p) n Wr) Q' (k ())" using d(2) by blast
  qed simp_all
  show ?thesis unfolding upgrade_to_write_lock_t_def bindt_assoc
    by (rule rule_find_user [OF st g(2) _ acq]) (simp add: g)
qed

subsection \<open>The two ways of writing\<close>

lemma tree_write_overwrite:
  assumes wf: "fs_wf E d I" and n: "n \<in> I" "\<not> is_dir E d n" and k: "k < i_size (inode_at E d n)"
    and len: "length dat = FS_BLOCKSIZE" and g: "private_blocks g = {}"
    and b: "b = i_blocks (inode_at E d n) ! k"
  shows "b < FS_DISKSIZE" "tree_write E g d I n (upd E d b dat) I {} {} {}"
proof -
  have less: "n < FS_DISKSIZE" using wf n(1) by (rule fs_wf_inode_less)
  have sz: "i_size (inode_at E d n) \<le> FS_MAXFILEBLOCKS" using fs_wf_inode [OF wf n(1)] by (simp add: inode_ok_def)
  note kb = inode_block_in(1) [OF less sz k, folded b]
  show bl: "b < FS_DISKSIZE" by (rule fs_wf_block_less [OF wf n(1) kb])
  have "free_ok E d I []" by (simp add: free_ok_def)
  note o = overwrite_block [OF wf n k len this refl, folded b]
  show "tree_write E g d I n (upd E d b dat) I {} {} {}"
    using n(1) o(1,4,5) g bl len inode_blocks_owned [OF kb] by (auto simp: tree_write_def private_blocks_def)
qed

lemma tree_write_append:
  assumes wf: "fs_wf E d I" and n: "n \<in> I" "\<not> is_dir E d n" and sz: "i_size (inode_at E d n) < FS_MAXFILEBLOCKS"
    and g: "fresh g = {fb}" "limbo g = {}" and fb: "fb < FS_DISKSIZE" "blk E d fb = dat" "length dat = FS_BLOCKSIZE"
    and own: "\<forall>m \<in> I. set (owned E d m) \<inter> private_blocks g = {}"
    and d': "d' = upd E d n (encode_inode (extended_inode (inode_at E d n) fb))"
  shows "tree_write E g d I n d' I {} {} {}"
    "walk E d 0 p = Some n \<Longrightarrow> abs_fs E d' =
      (abs_fs E d)(p \<mapsto> AFile (owner_at E d n) (map (blk E d) (inode_blocks E d n) @ [dat]))"
proof -
  have less: "n < FS_DISKSIZE" using wf n(1) by (rule fs_wf_inode_less)
  have enc: "length (encode_inode (extended_inode (inode_at E d n) fb)) = FS_BLOCKSIZE"
    using length_encode_inode [OF inode_fits_extended [OF inode_fits_at [OF less] sz fb(1)]] .
  have out: "\<forall>m \<in> I. fb \<notin> set (owned E d m)" using own g by (auto simp: private_blocks_def)
  then have "n \<noteq> fb" using n(1) by force
  then have blk: "blk E d' = (blk E d)(fb := dat, n := encode_inode (extended_inode (inode_at E d n) fb))"
    unfolding d' using blk_upd_fun [OF less enc] fb(2) by (auto simp: fun_eq_iff)
  have "free_ok E d I (fb # [])" using fb(1) out by (simp add: free_ok_def)
  note a = append_block [OF wf n sz fb(3) this blk]
  show "walk E d 0 p = Some n \<Longrightarrow> abs_fs E d' =
      (abs_fs E d)(p \<mapsto> AFile (owner_at E d n) (map (blk E d) (inode_blocks E d n) @ [dat]))" by (rule a(3))
  have out': "blk E d' x = blk E d x" if "x \<notin> set (owned E d n)" for x
    using that inode_in_owned [of n E d] less enc by (auto simp: d')
  have "(\<Union>m \<in> I. set (owned E d' m)) = (\<Union>m \<in> I. set (owned E d m)) \<union> private_blocks g"
    unfolding a(4) using g by (simp add: private_blocks_def)
  then show "tree_write E g d I n d' I {} {} {}"
    using n(1) a(1,5) out' g(2) by (simp add: tree_write_def)
qed

subsection \<open>The request\<close>

lemma at_node_facts:
  assumes "fs_wf E d I" and "at_node E u p n d0 d I"
  shows "walk_as E d u 0 p = Inr n" "walk E d 0 p = Some n" "n \<in> I" "inode_at E d n = inode_at E d0 n"
    "is_dir E d n = is_dir E d0 n" "owner_at E d n = owner_at E d0 n" "dir_entries E d n = dir_entries E d0 n"
    "owned E d n = owned E d0 n" "inode_blocks E d n = inode_blocks E d0 n"
proof -
  show w: "walk_as E d u 0 p = Inr n" using assms(2) by (simp add: at_node_def)
  show w': "walk E d 0 p = Some n" using w by (rule walk_as_walk)
  show "n \<in> I" by (rule walk_root_in [OF assms(1) w'])
  have un: "untouched E d0 d n" using assms(2) by (simp add: at_node_def)
  show "inode_at E d n = inode_at E d0 n" using un by (rule untouched_inode)
qed (use assms(2) untouched_same [of E d0 d n] in \<open>simp_all add: at_node_def\<close>)

lemma at_node_walk: "at_node E u p n d0 d I \<Longrightarrow> walk E d 0 p = Some n"
  unfolding at_node_def by (rule walk_as_walk) (rule conjunct1)

lemma at_node_after:
  assumes "fs_wf E d I" and "walk_as E d u 0 p = Inr n" and "tree_write E g d I n d' I' C fr li" and "n \<notin> C"
  shows "at_node E u p n d' d' I'"
  using keepsD(2) [OF tree_writeD(4) [OF assms(3)] assms(2,4)] by (simp add: at_node_def)

lemma overwrite_safe:
  assumes spec: "\<And>sp A. spec_request sp c A = updated A (spec_write sp A (username c) p (block c) (data c))"
    and ne: "p \<noteq> []" and len: "length (data c) = FS_BLOCKSIZE" and g: "holds [n \<mapsto> Up] Pending g"
    and i: "\<not> is_dir E d0 n" "username c = owner_at E d0 n" "block c < i_size (inode_at E d0 n)"
    and sz: "i_size (inode_at E d0 n) \<le> length (i_blocks (inode_at E d0 n))"
  shows "safe E V c finished g (at_node E (username c) p n d0) (bindt (upgrade_to_write_lock_t E n) (\<lambda>_.
    bindt (Done (arr_get (i_blocks (inode_at E d0 n)) (block c))) (\<lambda>b.
    bindt (atom (write_shared E b (data c))) (\<lambda>_. bindt (unlock_inode_write_t E n) (\<lambda>_. Done (Inr []))))))"
proof (rule rule_upgrade_to_write)
  note h = holdsD [OF g]
  show "stable E g (at_node E (username c) p n d0)" by (rule stable_at) (simp add: h)
  show "walk E d 0 p = Some n" if "at_node E (username c) p n d0 d I" for d I
    using that by (rule at_node_walk)
  fix g' :: ghost assume g': "held g' = [n \<mapsto> Wr]" "wants g' = None" "fresh g' = fresh g" "limbo g' = limbo g" "phase g' = phase g"
  let ?b = "i_blocks (inode_at E d0 n) ! block c"
  have pb: "private_blocks g' = {}" using g' h by (simp add: private_blocks_def)
  have st: "stable E g' (at_node E (username c) p n d)" for d by (rule stable_at) (simp add: g')
  have "safe E V c finished g' (at_node E (username c) p n d0)
    (bindt (atom (write_shared E ?b (data c))) (\<lambda>_. bindt (unlock_inode_write_t E n) (\<lambda>_. Done (Inr []))))"
  proof (rule rule_write_tree [OF st _ len])
    fix d I assume d: "fs_wf E d I" "at_node E (username c) p n d0 d I"
    note a = at_node_facts [OF d]
    have n: "\<not> is_dir E d n" "block c < i_size (inode_at E d n)" "?b = i_blocks (inode_at E d n) ! block c"
      using a i by simp_all
    note tw = tree_write_overwrite [OF d(1) a(3) n(1,2) len pb n(3)]
    have "free_ok E d I []" by (simp add: free_ok_def)
    note o = overwrite_block(3) [OF d(1) a(3) n(1,2) len this refl a(2), folded n(3)]
    have "spec_request True c (abs_fs E d) = (Some [], abs_fs E (upd E d ?b (data c)))"
      unfolding spec spec_write_found [OF d(1) ne a(1) refl] o using n i a by (simp add: updated_def)
    then have cm: "commits c g' (g'\<lparr>phase := Committed True (Some [])\<rparr>) (abs_fs E d) (abs_fs E (upd E d ?b (data c)))"
      by (rule commitsI [rotated 2]) (use g' h in simp_all)
    let ?g = "g'\<lparr>fresh := {}, limbo := {}, phase := Committed True (Some [])\<rparr>" and ?Q = "at_node E (username c) p n (upd E d ?b (data c))"
    have "stable E ?g ?Q" by (rule stable_at) (simp add: g')
    then have sf: "safe E V c finished ?g ?Q (bindt (unlock_inode_write_t E n) (\<lambda>_. Done (Inr [])))"
      unfolding unlock_inode_write_t_def
      by (rule rule_last_unlock [where md = Wr and r = "Some []"]) (use g' at_node_facts(3) in \<open>auto simp: holds_def\<close>)
    show "\<exists>I' C fr li ph Q'. ?b < FS_DISKSIZE \<and> tree_write E g' d I n (upd E d ?b (data c)) I' C fr li \<and>
        commits c g' (g'\<lparr>phase := ph\<rparr>) (abs_fs E d) (abs_fs E (upd E d ?b (data c))) \<and> Q' (upd E d ?b (data c)) I' \<and>
        safe E V c finished (g'\<lparr>fresh := fr, limbo := li, phase := ph\<rparr>) Q' (bindt (unlock_inode_write_t E n) (\<lambda>_. Done (Inr [])))"
      using tw cm sf at_node_after [OF d(1) a(1) tw(2)] by blast
  qed (simp add: g')
  then show "safe E V c finished g' (at_node E (username c) p n d0) (bindt (Done (arr_get (i_blocks (inode_at E d0 n)) (block c))) (\<lambda>b.
    bindt (atom (write_shared E b (data c))) (\<lambda>_. bindt (unlock_inode_write_t E n) (\<lambda>_. Done (Inr [])))))"
    using i(3) sz by simp
qed (use holdsD [OF g] in simp_all)

lemma extend_section_app:
  assumes "length (i_blocks i) = FS_MAXFILEBLOCKS" and "i_size i \<le> FS_MAXFILEBLOCKS"
  shows "extend_section E n i s =
    (if sh_free s = [] \<or> i_size i = FS_MAXFILEBLOCKS
     then bindp (release_user (sm_unlock_upgrade E) n) (\<lambda>_. halt (Runtime_error ''Not enough disk space for this write'')) s
     else (Inr (extended_inode i (hd (sh_free s))), s\<lparr>sh_free := tl (sh_free s)\<rparr>))"
  using assms by (simp add: extend_section_def prog_simps extended_inode_def seqp_def)

lemma append_safe:
  assumes spec: "\<And>sp A. spec_request sp c A = updated A (spec_write sp A (username c) p (block c) (data c))"
    and ne: "p \<noteq> []" and len: "length (data c) = FS_BLOCKSIZE" and g: "holds [n \<mapsto> Up] Pending g"
    and i: "\<not> is_dir E d0 n" "username c = owner_at E d0 n" "block c = i_size (inode_at E d0 n)"
    and sz: "i_size (inode_at E d0 n) \<le> FS_MAXFILEBLOCKS" "length (i_blocks (inode_at E d0 n)) = FS_MAXFILEBLOCKS"
    and fit: "inode_fits (inode_at E d0 n)"
  shows "safe E V c finished g (at_node E (username c) p n d0)
    (bindt (atom (extend_section E n (inode_at E d0 n))) (\<lambda>target_inode.
       bindt (Done (arr_get (i_blocks target_inode) (block c))) (\<lambda>b.
       bindt (atom (write_shared E b (data c))) (\<lambda>_.
       bindt (upgrade_to_write_lock_t E n) (\<lambda>_.
       bindt (atom (write_shared E n (encode_inode target_inode))) (\<lambda>_.
       bindt (unlock_inode_write_t E n) (\<lambda>_. Done (Inr []))))))))"
proof (rule rule_take_or_release [OF _ _ _ extend_section_app])
  note h = holdsD [OF g]
  let ?at = "at_node E (username c) p n" and ?i = "inode_at E d0 n"
  let ?full = "i_size ?i = FS_MAXFILEBLOCKS"
  show "stable E g (?at d0)" by (rule stable_at) (simp add: h)
  show "n \<in> I \<and> (\<exists>ph Q'. may_commit c g ph (abs_fs E d) \<and> Q' d I \<and>
      safe E V c finished ((gives_lock g n)\<lparr>phase := ph\<rparr>) Q'
        (Done (Inl (Runtime_error ''Not enough disk space for this write''))))"
    if d: "fs_wf E d I" "?at d0 d I" for d I
  proof -
    note a = at_node_facts [OF d]
    have "spec_request False c (abs_fs E d) = (None, abs_fs E d)"
      unfolding spec spec_write_found [OF d(1) ne a(1) refl] using i a by (simp add: updated_def)
    then have "may_commit c g (Committed False None) (abs_fs E d)" by (rule may_commitI [OF h(5)])
    moreover have "safe E V c finished ((gives_lock g n)\<lparr>phase := Committed False None\<rparr>) (\<lambda>_ _. True)
        (Done (Inl (Runtime_error ''Not enough disk space for this write'')))"
      by (rule safe_Done) (simp_all add: finished_def h)
    ultimately show ?thesis using a(3) by (intro conjI exI [of _ "Committed False None"] exI [of _ "\<lambda>_ _. True"]) simp_all
  qed
  fix fb assume fb: "\<not> ?full" "fb < FS_DISKSIZE" "fb \<notin> private_blocks g"
  let ?g = "g\<lparr>fresh := insert fb (fresh g)\<rparr>" and ?i' = "extended_inode ?i fb"
  have lt: "i_size ?i < FS_MAXFILEBLOCKS" using fb(1) sz(1) by simp
  have enc: "length (encode_inode ?i') = FS_BLOCKSIZE"
    by (rule length_encode_inode [OF inode_fits_extended [OF fit lt fb(2)]])
  let ?Q = "\<lambda>d I. ?at d0 d I \<and> blk E d fb = data c"
  have up: "safe E V c finished ?g ?Q (bindt (upgrade_to_write_lock_t E n) (\<lambda>_.
       bindt (atom (write_shared E n (encode_inode ?i'))) (\<lambda>_.
       bindt (unlock_inode_write_t E n) (\<lambda>_. Done (Inr [])))))"
  proof (rule rule_upgrade_to_write)
    show "stable E ?g ?Q"
      by (rule stable_conj [OF stable_at stable_block]) (simp_all add: h private_blocks_def)
    show "walk E d 0 p = Some n" if "?Q d I" for d I using that by (auto intro: at_node_walk)
    fix g' :: ghost assume g': "held g' = [n \<mapsto> Wr]" "wants g' = None" "fresh g' = fresh ?g" "limbo g' = limbo ?g"
      "phase g' = phase ?g"
    have st: "stable E g' ?Q"
      by (rule stable_conj [OF stable_at stable_block]) (simp_all add: g' h private_blocks_def)
    have hg: "held g' n = Some Wr" by (simp add: g')
    show "safe E V c finished g' ?Q (bindt (atom (write_shared E n (encode_inode ?i'))) (\<lambda>_.
       bindt (unlock_inode_write_t E n) (\<lambda>_. Done (Inr []))))"
    proof (rule rule_write_tree [OF st hg enc])
      fix d I assume d: "fs_wf E d I" "?Q d I"
        and apart: "\<And>m. m \<in> I \<Longrightarrow> set (owned E d m) \<inter> private_blocks g' = {}"
      then have own: "\<forall>m \<in> I. set (owned E d m) \<inter> private_blocks g' = {}" by simp
      have at: "?at d0 d I" and fbd: "blk E d fb = data c" using d(2) by simp_all
      note a = at_node_facts [OF d(1) at]
      let ?d = "upd E d n (encode_inode ?i')"
      have n: "\<not> is_dir E d n" "i_size (inode_at E d n) < FS_MAXFILEBLOCKS"
        "?d = upd E d n (encode_inode (extended_inode (inode_at E d n) fb))" using a i lt by simp_all
      have gf: "fresh g' = {fb}" "limbo g' = {}" using g' h by simp_all
      note tw = tree_write_append [OF d(1) a(3) n(1,2) gf fb(2) fbd len own n(3)]
      have "spec_request True c (abs_fs E d) = (Some [], abs_fs E ?d)"
        unfolding spec spec_write_found [OF d(1) ne a(1) refl] tw(2) [OF a(2)] using n i a by (simp add: updated_def)
      then have cm: "commits c g' (g'\<lparr>phase := Committed True (Some [])\<rparr>) (abs_fs E d) (abs_fs E ?d)"
        by (rule commitsI [rotated 2]) (use g' h in simp_all)
      let ?g2 = "g'\<lparr>fresh := {}, limbo := {}, phase := Committed True (Some [])\<rparr>"
      have "stable E ?g2 (?at ?d)" by (rule stable_at) (simp add: g')
      then have sf: "safe E V c finished ?g2 (?at ?d) (bindt (unlock_inode_write_t E n) (\<lambda>_. Done (Inr [])))"
        unfolding unlock_inode_write_t_def
        by (rule rule_last_unlock [where md = Wr and r = "Some []"]) (use g' at_node_facts(3) in \<open>auto simp: holds_def\<close>)
      have "n < FS_DISKSIZE" by (rule fs_wf_inode_less [OF d(1) a(3)])
      then show "\<exists>I' C fr li ph Q'. n < FS_DISKSIZE \<and> tree_write E g' d I n ?d I' C fr li \<and>
        commits c g' (g'\<lparr>phase := ph\<rparr>) (abs_fs E d) (abs_fs E ?d) \<and> Q' ?d I' \<and>
        safe E V c finished (g'\<lparr>fresh := fr, limbo := li, phase := ph\<rparr>) Q' (bindt (unlock_inode_write_t E n) (\<lambda>_. Done (Inr [])))"
        using tw(1) cm sf at_node_after [OF d(1) a(1) tw(1)] by blast
    qed
  qed (simp_all add: h)
  have "safe E V c finished ?g (?at d0) (bindt (atom (write_shared E fb (data c))) (\<lambda>_.
       bindt (upgrade_to_write_lock_t E n) (\<lambda>_. bindt (atom (write_shared E n (encode_inode ?i'))) (\<lambda>_.
       bindt (unlock_inode_write_t E n) (\<lambda>_. Done (Inr []))))))"
    by (rule rule_write_fresh [OF _ _ len up]) (use h in \<open>auto intro!: stable_at\<close>)
  moreover have "arr_get (i_blocks ?i') (block c) = Inr fb"
    using i(3) sz lt by (simp add: extended_inode_def)
  ultimately show "safe E V c finished ?g (?at d0) (bindt (Done (arr_get (i_blocks ?i') (block c))) (\<lambda>b.
       bindt (atom (write_shared E b (data c))) (\<lambda>_. bindt (upgrade_to_write_lock_t E n) (\<lambda>_.
       bindt (atom (write_shared E n (encode_inode ?i'))) (\<lambda>_.
       bindt (unlock_inode_write_t E n) (\<lambda>_. Done (Inr [])))))))"
    by simp
qed (use holdsD [OF g] sz in simp_all)

lemma write_request_safe:
  assumes c: "command_type c = FS_WRITEBLOCK" and p: "path_ok (pathname c) p" and len: "length (data c) = FS_BLOCKSIZE"
    and g: "holds Map.empty Pending g"
  shows "safe E V c finished g (\<lambda>_ _. True) (seqt (handle_write_t E c) (rett []))"
proof -
  have spec: "spec_request sp c A = updated A (spec_write sp A (username c) p (block c) (data c))" for sp A
    using c path_of_ok [OF p] by (simp add: spec_request_def)
  have ne: "p \<noteq> []" using p by (simp add: path_ok_def)
  have lost: "lost E c (username c) p" by (rule lostI) (simp add: spec updated_def spec_write_unreachable)
  show ?thesis unfolding seqt_def handle_write_t_def lock_mode_t_simps(2) [symmetric] bindt_assoc
  proof (rule rule_reach [unfolded seqt_def, OF p g lost])
    fix m n d I assume d: "fs_wf E d I" "walk_as E d (username c) 0 p = Inr n"
    let ?i = "inode_at E d n"
    note t = target_facts [OF d(1) walk_as_walk [OF d(2)] ne]
    let ?K = "\<lambda>raw. bindt (let target_inode = decode_inode raw in
     if i_type target_inode \<noteq> CHR ''f'' \<or> i_size target_inode < block c then
       bindt (unlock_inode_upgrade_t E n) (\<lambda>_. haltt (Runtime_error ''Provided block is not writable''))
     else
     bindt (Done (read_cstr (i_owner target_inode))) (\<lambda>owner.
     if username c \<noteq> owner then
       bindt (unlock_inode_upgrade_t E n) (\<lambda>_. haltt (Runtime_error ''User is not owner of file''))
     else
     if block c \<noteq> i_size target_inode then
       bindt (upgrade_to_write_lock_t E n) (\<lambda>_.
       bindt (Done (arr_get (i_blocks target_inode) (block c))) (\<lambda>b.
       bindt (atom (write_shared E b (data c))) (\<lambda>_.
       unlock_inode_write_t E n)))
     else
       bindt (atom (extend_section E n target_inode)) (\<lambda>target_inode.
       bindt (Done (arr_get (i_blocks target_inode) (block c))) (\<lambda>b.
       bindt (atom (write_shared E b (data c))) (\<lambda>_.
       bindt (upgrade_to_write_lock_t E n) (\<lambda>_.
       bindt (atom (write_shared E n (encode_inode target_inode))) (\<lambda>_.
       unlock_inode_write_t E n))))))) (\<lambda>_. rett [])"
    let ?bad = "is_dir E d n \<or> i_size ?i < block c \<or> username c \<noteq> owner_at E d n"
    let ?ph = "if ?bad then Committed True None else Pending" and ?Q = "at_node E (username c) p n d"
    have "safe E V c finished g' ?Q (bindt (atom (read_shared E n)) ?K)" if g': "holds [n \<mapsto> Up] ?ph g'" for g'
    proof -
      have st: "stable E g' ?Q" by (rule stable_at) (simp add: holdsD [OF g'])
      have fail: "safe E V c finished g' ?Q (bindt (unlock_inode_upgrade_t E n) (\<lambda>_. Done (Inl (Runtime_error msg))))"
        if ?bad "msg \<notin> no_space" for msg
        unfolding unlock_inode_upgrade_t_def
        by (rule rule_last_unlock [where r = None, OF st]) (use that g' at_node_facts(3) in auto)
      have g1: "holds [n \<mapsto> Up] Pending g'" if "\<not> ?bad" using g' that by (simp split: if_splits)
      have len_b: "length (i_blocks ?i) = FS_MAXFILEBLOCKS" using t(2) by simp
      have body: "safe E V c finished g' ?Q (?K (blk E d n))"
      proof (cases ?bad)
        case True
        then show ?thesis
          using t(3,5) fail [OF True, of "''Provided block is not writable''"] fail [OF True, of "''User is not owner of file''"]
          by (auto simp: Let_def inode_at_def [symmetric] owner_at_def bindt_assoc haltt_def)
      next
        case False
        then consider "block c < i_size ?i" | "block c = i_size ?i" by linarith
        then show ?thesis
        proof cases
          case 1
          have "safe E V c finished g' ?Q (bindt (upgrade_to_write_lock_t E n) (\<lambda>_.
            bindt (Done (arr_get (i_blocks ?i) (block c))) (\<lambda>b.
            bindt (atom (write_shared E b (data c))) (\<lambda>_. bindt (unlock_inode_write_t E n) (\<lambda>_. Done (Inr []))))))"
            by (rule overwrite_safe [OF spec ne len g1 [OF False]]) (use False 1 len_b t(4) in auto)
          then show ?thesis using 1 False t(3,5)
            by (simp add: Let_def inode_at_def [symmetric] owner_at_def bindt_assoc rett_def del: bindt.simps)
        next
          case 2
          note sf = append_safe [OF spec ne len g1 [OF False] _ _ 2 t(4) len_b inode_fits_at [OF t(2)]]
          then show ?thesis using 2 False t(3,5)
            by (simp add: Let_def inode_at_def [symmetric] owner_at_def bindt_assoc rett_def del: bindt.simps)
        qed
      qed
      have "n < FS_DISKSIZE \<and> blk E d' n = blk E d n" if "at_node E (username c) p n d d' I'" for d' I'
        using that t(2) inode_in_owned [of n E d] by (simp add: at_node_def untouched_def)
      then show ?thesis by (rule rule_read [OF st]) (simp_all only: body)
    qed
    moreover have "may_commit c idle ?ph (abs_fs E d)"
    proof (cases ?bad)
      case True
      then have "spec_request True c (abs_fs E d) = (None, abs_fs E d)"
        unfolding spec spec_write_found [OF d(1) ne d(2) refl] by (simp add: updated_def)
      then show ?thesis using commit_now True by simp
    qed (simp add: may_commit_def idle_def)
    ultimately show "\<exists>ph Q'. may_commit c idle ph (abs_fs E d) \<and> Q' d I \<and>
        (\<forall>g'. holds [n \<mapsto> Up] ph g' \<longrightarrow> safe E V c finished g' Q' (bindt (atom (read_shared E n)) ?K))"
      using d(2) by (intro exI [of _ ?ph] exI [of _ ?Q]) (simp add: at_node_def)
  qed simp_all
qed

end

end
