(* ===== verification/FS_Create_Threads.thy ===== *)
theory FS_Create_Threads
  imports FS_Write_Threads
begin

text \<open>
  Create among other requests.  The parent directory is locked upgradeably from the moment it is found, so that its
  entries are those that the scan saw; the request takes effect when the block with the new entry, or the inode with
  the new block of entries, is written.  The opening also serves delete.
\<close>

context fs_server
begin

subsection \<open>Opening the parent directory\<close>

lemma rule_get_parent:
  assumes xs: "\<forall>x \<in> set xs. name_ok x \<and> NUL \<notin> set x" and g: "holds Map.empty Pending g"
    and l: "lost E c (username c) xs" and f: "may_fail post"
    and k: "\<And>n d I. fs_wf E d I \<Longrightarrow> walk_as E d (username c) 0 xs = Inr n \<Longrightarrow>
      \<exists>ph Q'. may_commit c idle ph (abs_fs E d) \<and> Q' d I \<and> (\<forall>g'. holds [n \<mapsto> Up] ph g' \<longrightarrow> safe E V c post g' Q' (k n))"
  shows "safe E V c post g (\<lambda>_ _. True) (bindt (get_parent_inode_and_upgradeable_lock_t E c (join_path xs)) k)"
proof (cases "xs = []")
  case True
  have "safe E V c post g (\<lambda>_ _. True) (seqt (lock_mode_t E Up 0) (k 0))"
    by (rule rule_enter_root [OF g]) (use k True in simp_all)
  then show ?thesis using True
    by (simp add: get_parent_inode_and_upgradeable_lock_t_def lock_mode_t_def ROOT_INODE_def seqt_def bindt_assoc)
next
  case False
  have p: "path_ok (join_path xs) xs" using False xs by (simp add: path_ok_def)
  have ne: "join_path xs \<noteq> []" using False by (cases xs) auto
  have "safe E V c post g (\<lambda>_ _. True) (bindt (find_parent_inode_t E (join_path xs) (username c)) (\<lambda>m.
    bindt (Done (get_target (join_path xs))) (\<lambda>t. bindt (find_next_inode_t E t m (username c)) (\<lambda>n.
    seqt (lock_mode_t E Up n) (seqt (unlock_inode_read_t E m) (k n))))))"
    by (rule rule_reach [OF p g l f _ k]) simp_all
  then show ?thesis using ne
    by (simp add: get_parent_inode_and_upgradeable_lock_t_def lock_mode_t_def seqt_def bindt_assoc del: bindt.simps)
qed

lemma rule_open_parent:
  assumes xs: "\<forall>x \<in> set xs. name_ok x \<and> NUL \<notin> set x" and g: "holds Map.empty Pending g"
    and bad: "\<And>d I. fs_wf E d I \<Longrightarrow> \<not> dir_path (abs_fs E d) (username c) xs \<Longrightarrow>
      spec_request True c (abs_fs E d) = (None, abs_fs E d)"
    and k: "\<And>n d I. fs_wf E d I \<Longrightarrow> walk_as E d (username c) 0 xs = Inr n \<Longrightarrow> dir_path (abs_fs E d) (username c) xs \<Longrightarrow>
      n \<in> I \<Longrightarrow> is_dir E d n \<Longrightarrow>
      \<exists>ph. may_commit c idle ph (abs_fs E d) \<and> (\<forall>g'. holds [n \<mapsto> Up] ph g' \<longrightarrow>
        safe E V c finished g' (at_node E (username c) xs n d) (k n (inode_at E d n)))"
  shows "safe E V c finished g (\<lambda>_ _. True) (bindt (get_parent_inode_and_upgradeable_lock_t E c (join_path xs)) (\<lambda>n.
    bindt (atom (read_shared E n)) (\<lambda>raw. bindt (validate_parent_inode_t E c (join_path xs) (decode_inode raw) n)
      (\<lambda>_. k n (decode_inode raw)))))"
proof (rule rule_get_parent [OF xs g])
  show "lost E c (username c) xs"
  proof (rule lostI)
    fix d I e assume d: "fs_wf E d I" "walk_as E d (username c) 0 xs = Inl e"
    then have "\<not> dir_path (abs_fs E d) (username c) xs" by (simp add: dir_path_iff [OF d(1)])
    then show "spec_request True c (abs_fs E d) = (None, abs_fs E d)" by (rule bad [OF d(1)])
  qed
  fix n d I assume d: "fs_wf E d I" "walk_as E d (username c) 0 xs = Inr n"
  let ?dp = "dir_path (abs_fs E d) (username c) xs" and ?Q = "at_node E (username c) xs n d"
  let ?t = "bindt (atom (read_shared E n)) (\<lambda>raw. bindt (validate_parent_inode_t E c (join_path xs) (decode_inode raw) n)
      (\<lambda>_. k n (decode_inode raw)))"
  have ne: "join_path xs = [] \<longleftrightarrow> xs = []" by (cases xs) auto
  have n: "n \<in> I" by (rule walk_root_in [OF d(1) walk_as_walk [OF d(2)]])
  have less: "n < FS_DISKSIZE" by (rule fs_wf_inode_less [OF d(1) n])
  have own: "NUL \<in> set (i_owner (inode_at E d n))" using fs_wf_inode [OF d(1) n] by (simp add: inode_ok_def)
  have dp: "?dp \<longleftrightarrow> xs = [] \<or> is_dir E d n \<and> owner_at E d n = username c" using d(2) by (simp add: dir_path_iff [OF d(1)])
  have at: "?Q d I" using d(2) by (simp add: at_node_def)
  have read: "safe E V c finished g' ?Q ?t"
    if g': "held g' n = Some Up" and "safe E V c finished g' ?Q (bindt (validate_parent_inode_t E c (join_path xs) (inode_at E d n) n)
      (\<lambda>_. k n (inode_at E d n)))" for g'
  proof (rule rule_read)
    show "stable E g' ?Q" by (rule stable_at) (simp add: g')
    show "n < FS_DISKSIZE \<and> blk E d' n = blk E d n" if "?Q d' I'" for d' I'
      using that less inode_in_owned [of n E d] by (simp add: at_node_def untouched_def)
  qed (use that(2) in \<open>simp add: inode_at_def\<close>)
  show "\<exists>ph Q'. may_commit c idle ph (abs_fs E d) \<and> Q' d I \<and> (\<forall>g'. holds [n \<mapsto> Up] ph g' \<longrightarrow> safe E V c finished g' Q' ?t)"
  proof (cases ?dp)
    case True
    have dir: "is_dir E d n" using dp True d(2) fs_wf_root(2) [OF d(1)] by auto
    obtain ph where ph: "may_commit c idle ph (abs_fs E d)"
      "\<And>g'. holds [n \<mapsto> Up] ph g' \<Longrightarrow> safe E V c finished g' ?Q (k n (inode_at E d n))"
      using k [OF d True n dir] by blast
    have "validate_parent_inode_t E c (join_path xs) (inode_at E d n) n = rett ()"
      using dp True own by (auto simp: validate_parent_inode_t_def ne is_dir_def owner_at_def)
    then have "safe E V c finished g' ?Q ?t" if "holds [n \<mapsto> Up] ph g'" for g'
      using read [of g'] ph(2) [OF that] holdsD(1) [OF that] by simp
    then show ?thesis using ph(1) at by blast
  next
    case False
    then have bad': "xs \<noteq> []" "\<not> is_dir E d n \<or> owner_at E d n \<noteq> username c" using dp by auto
    have "may_commit c idle (Committed True None) (abs_fs E d)" using bad [OF d(1) False] by (rule commit_now)
    moreover have "safe E V c finished g' ?Q ?t" if g': "holds [n \<mapsto> Up] (Committed True None) g'" for g'
    proof (rule read)
      have st: "stable E g' ?Q" by (rule stable_at) (simp add: holdsD [OF g'])
      have "safe E V c finished g' ?Q (bindt (atom (release_user (sm_unlock_upgrade E) n)) (\<lambda>_.
          Done (Inl (Runtime_error ''Expected a directory, but got a file or user is not owner lol''))))"
        by (rule rule_last_unlock [where r = None, OF st g']) (use at_node_facts(3) in auto)
      then show "safe E V c finished g' ?Q (bindt (validate_parent_inode_t E c (join_path xs) (inode_at E d n) n)
          (\<lambda>_. k n (inode_at E d n)))"
        using bad' own by (auto simp: validate_parent_inode_t_def ne is_dir_def owner_at_def seqt_def bindt_assoc
          unlock_inode_upgrade_t_def haltt_def)
    qed (use holdsD [OF g'] in simp)
    ultimately show ?thesis using at by blast
  qed
qed simp

end

subsection \<open>After the scan\<close>

text \<open>A create request that has its directory \<open>n\<close> locked, and has seen on \<open>d0\<close> that the name is new.\<close>

definition creating :: "('d, 'm) fs_env \<Rightarrow> Command \<Rightarrow> fs_inode \<Rightarrow> string list \<Rightarrow> string \<Rightarrow> nat \<Rightarrow> 'd \<Rightarrow> bool" where
  "creating E c junk xs x n d0 \<longleftrightarrow>
     command_type c = FS_CREATE \<and> path_of c = xs @ [x] \<and> create_ok c junk \<and> name_ok x \<and> NUL \<notin> set x \<and>
     is_dir E d0 n \<and> (xs = [] \<or> owner_at E d0 n = username c) \<and> x \<notin> fst ` set (dir_entries E d0 n) \<and>
     n < FS_DISKSIZE \<and> i_size (inode_at E d0 n) \<le> FS_MAXFILEBLOCKS"

lemma creatingD:
  assumes "creating E c junk xs x n d0"
  shows "create_ok c junk" "name_ok x" "NUL \<notin> set x" "is_dir E d0 n" "x \<notin> fst ` set (dir_entries E d0 n)"
    "n < FS_DISKSIZE" "i_size (inode_at E d0 n) \<le> FS_MAXFILEBLOCKS"
  using assms by (simp_all add: creating_def)

context fs_server
begin

lemma create_spec:
  assumes c: "creating E c junk xs x n d0" and wf: "fs_wf E d I" and at: "at_node E (username c) xs n d0 d I"
  shows "spec_request True c (abs_fs E d) = (Some [], (abs_fs E d)(xs @ [x] \<mapsto>
      (if ctype c = CHR ''d'' then ADir (username c) else AFile (username c) [])))"
    "spec_request False c (abs_fs E d) = (None, abs_fs E d)"
proof -
  note a = at_node_facts [OF wf at]
  have "dir_path (abs_fs E d) (username c) xs" using c a by (auto simp: dir_path_iff [OF wf] creating_def)
  moreover have "abs_fs E d (xs @ [x]) = None" using abs_fs_in_dir [OF a(2)] c a by (simp add: creating_def)
  ultimately show "spec_request True c (abs_fs E d) = (Some [], (abs_fs E d)(xs @ [x] \<mapsto>
      (if ctype c = CHR ''d'' then ADir (username c) else AFile (username c) [])))"
    "spec_request False c (abs_fs E d) = (None, abs_fs E d)"
    using c by (simp_all add: spec_request_def creating_def spec_create_def updated_def)
qed

text \<open>Writing the block that shows the new entry, and the end of the request.\<close>

lemma create_last_write:
  assumes c: "creating E c junk xs x n d0" and g: "held g = [n \<mapsto> Wr]" "wants g = None" "phase g = Pending"
    and st: "stable E g Q" and Q: "\<And>d I. Q d I \<Longrightarrow> at_node E (username c) xs n d0 d I" and len: "length raw = FS_BLOCKSIZE"
    and w: "\<And>d I. fs_wf E d I \<Longrightarrow> Q d I \<Longrightarrow> (\<And>m. m \<in> I \<Longrightarrow> set (owned E d m) \<inter> private_blocks g = {}) \<Longrightarrow>
      b < FS_DISKSIZE \<and> (\<exists>I'. tree_write E g d I n (upd E d b raw) I' {} {} {}) \<and>
      abs_fs E (upd E d b raw) = (abs_fs E d)(xs @ [x] \<mapsto>
        (if ctype c = CHR ''d'' then ADir (username c) else AFile (username c) []))"
  shows "safe E V c finished g Q (bindt (atom (write_shared E b raw)) (\<lambda>_. bindt (unlock_inode_write_t E n) (\<lambda>_. Done (Inr []))))"
proof (rule rule_write_tree [OF st _ len])
  fix d I assume d: "fs_wf E d I" "Q d I" and own: "\<And>m. m \<in> I \<Longrightarrow> set (owned E d m) \<inter> private_blocks g = {}"
  let ?d = "upd E d b raw"
  obtain I' where wI: "b < FS_DISKSIZE" "tree_write E g d I n ?d I' {} {} {}"
    "abs_fs E ?d = (abs_fs E d)(xs @ [x] \<mapsto>
        (if ctype c = CHR ''d'' then ADir (username c) else AFile (username c) []))"
    using w [OF d own] by blast
  have cm: "commits c g (g\<lparr>phase := Committed True (Some [])\<rparr>) (abs_fs E d) (abs_fs E ?d)"
    unfolding wI(3) by (rule commitsI [OF g(3) _ create_spec(1) [OF c d(1) Q [OF d(2)]]]) simp
  let ?g = "g\<lparr>fresh := {}, limbo := {}, phase := Committed True (Some [])\<rparr>" and ?Q = "at_node E (username c) xs n ?d"
  have "stable E ?g ?Q" by (rule stable_at) (simp add: g)
  then have sf: "safe E V c finished ?g ?Q (bindt (unlock_inode_write_t E n) (\<lambda>_. Done (Inr [])))"
    unfolding unlock_inode_write_t_def
    by (rule rule_last_unlock [where md = Wr and r = "Some []"]) (use g at_node_facts(3) in \<open>auto simp: holds_def\<close>)
  have "?Q ?d I'" by (rule at_node_after [OF d(1) at_node_facts(1) [OF d(1) Q [OF d(2)]] wI(2)]) simp
  then show "\<exists>I' C fr li ph Q'. b < FS_DISKSIZE \<and> tree_write E g d I n ?d I' C fr li \<and>
        commits c g (g\<lparr>phase := ph\<rparr>) (abs_fs E d) (abs_fs E ?d) \<and> Q' ?d I' \<and>
        safe E V c finished (g\<lparr>fresh := fr, limbo := li, phase := ph\<rparr>) Q' (bindt (unlock_inode_write_t E n) (\<lambda>_. Done (Inr [])))"
    using wI(1,2) cm sf by blast
qed (simp add: g)

lemma tree_write_slot:
  assumes c: "creating E c junk xs x n d" and wf: "fs_wf E d I" and n: "walk E d 0 xs = Some n"
    and b: "b \<in> set (inode_blocks E d n)" and j: "j < length (dir_at E d b)" "de_inode_block (dir_at E d b ! j) = 0"
    and g: "fresh g = {cb}" "limbo g = {}" and cb: "cb < FS_DISKSIZE" "blk E d cb = encode_inode (new_node junk c)"
    and own: "\<forall>m \<in> I. set (owned E d m) \<inter> private_blocks g = {}"
    and raw: "raw = encode_dir ((dir_at E d b)[j := new_entry x cb (dir_at E d b ! j)])"
  shows "length raw = FS_BLOCKSIZE" "b < FS_DISKSIZE" "tree_write E g d I n (upd E d b raw) (insert cb I) {} {} {}"
    "abs_fs E (upd E d b raw) = (abs_fs E d)(xs @ [x] \<mapsto>
        (if ctype c = CHR ''d'' then ADir (username c) else AFile (username c) []))"
proof -
  note cr = creatingD [OF c]
  have nI: "n \<in> I" by (rule walk_root_in [OF wf n])
  show bl: "b < FS_DISKSIZE" by (rule fs_wf_block_less [OF wf nI b])
  have fits: "dir_fits (dir_at E d b)" by (rule dir_fits_at [OF bl])
  have "direntry_fits (new_entry x cb (dir_at E d b ! j))"
    using fits nth_mem [OF j(1)] cr(2,3) cb(1) new_entry_props(1) by (auto simp: dir_fits_def)
  then show enc: "length raw = FS_BLOCKSIZE" unfolding raw by (intro length_encode_dir dir_fits_update fits)
  have out: "\<forall>m \<in> I. cb \<notin> set (owned E d m)" using own g by (auto simp: private_blocks_def)
  have bo: "b \<in> set (owned E d n)" by (rule inode_blocks_owned [OF b])
  then have "b \<noteq> cb" using out nI by auto
  then have blk: "blk E (upd E d b raw) = (blk E d)(cb := encode_inode (new_node junk c), b := raw)"
    unfolding blk_upd_fun [OF bl enc] using cb(2) by (auto simp: fun_eq_iff)
  have "free_ok E d I (cb # [])" using cb(1) out by (simp add: free_ok_def)
  note a = add_in_slot [OF wf nI cr(4) b j cr(2,3,5,1) this blk [unfolded raw], folded raw]
  show "abs_fs E (upd E d b raw) = (abs_fs E d)(xs @ [x] \<mapsto>
        (if ctype c = CHR ''d'' then ADir (username c) else AFile (username c) []))" by (rule a(3) [OF n])
  have "(\<Union>m \<in> insert cb I. set (owned E (upd E d b raw) m)) = (\<Union>m \<in> I. set (owned E d m)) \<union> private_blocks g"
    unfolding a(4) using g by (simp add: private_blocks_def)
  then show "tree_write E g d I n (upd E d b raw) (insert cb I) {} {} {}"
    using nI a(1,5) bo bl enc g(2) by (auto simp: tree_write_def simp del: UN_insert)
qed

lemma tree_write_new_block:
  assumes c: "creating E c junk xs x n d" and wf: "fs_wf E d I" and n: "walk E d 0 xs = Some n"
    and sz: "i_size (inode_at E d n) < FS_MAXFILEBLOCKS"
    and g: "fresh g = {cb, nb}" "limbo g = {}" and cb: "cb < FS_DISKSIZE" "blk E d cb = encode_inode (new_node junk c)"
    and nb: "nb < FS_DISKSIZE" "nb \<noteq> cb" "blk E d nb = encode_dir (zero_block[0 := new_entry x cb zero_direntry])"
    and own: "\<forall>m \<in> I. set (owned E d m) \<inter> private_blocks g = {}"
    and raw: "raw = encode_inode (extended_inode (inode_at E d n) nb)"
  shows "length raw = FS_BLOCKSIZE" "tree_write E g d I n (upd E d n raw) (insert cb I) {} {} {}"
    "abs_fs E (upd E d n raw) = (abs_fs E d)(xs @ [x] \<mapsto>
        (if ctype c = CHR ''d'' then ADir (username c) else AFile (username c) []))"
proof -
  note cr = creatingD [OF c]
  have nI: "n \<in> I" by (rule walk_root_in [OF wf n])
  show enc: "length raw = FS_BLOCKSIZE"
    unfolding raw by (rule length_encode_inode [OF inode_fits_extended [OF inode_fits_at [OF cr(6)] sz nb(1)]])
  have out: "\<forall>m \<in> I. cb \<notin> set (owned E d m) \<and> nb \<notin> set (owned E d m)" using own g by (auto simp: private_blocks_def)
  then have "n \<noteq> cb" "n \<noteq> nb" using nI by (metis inode_in_owned)+
  then have blk: "blk E (upd E d n raw) = (blk E d)(cb := encode_inode (new_node junk c),
      nb := encode_dir (zero_block[0 := new_entry x cb zero_direntry]), n := raw)"
    unfolding blk_upd_fun [OF cr(6) enc] using cb(2) nb(2,3) by (auto simp: fun_eq_iff)
  have "free_ok E d I (cb # nb # [])" using cb(1) nb(1,2) out by (simp add: free_ok_def)
  note a = add_in_new_block [OF wf nI cr(4) sz cr(2,3,5,1) this blk [unfolded raw], folded raw]
  show "abs_fs E (upd E d n raw) = (abs_fs E d)(xs @ [x] \<mapsto>
        (if ctype c = CHR ''d'' then ADir (username c) else AFile (username c) []))" by (rule a(3) [OF n])
  have "(\<Union>m \<in> insert cb I. set (owned E (upd E d n raw) m)) = (\<Union>m \<in> I. set (owned E d m)) \<union> private_blocks g"
    unfolding a(4) using g by (auto simp: private_blocks_def)
  moreover have "blk E (upd E d n raw) y = blk E d y" if "y \<notin> set (owned E d n)" for y
    using that inode_in_owned [of n E d] cr(6) enc by auto
  ultimately show "tree_write E g d I n (upd E d n raw) (insert cb I) {} {} {}"
    using nI a(1,5) g(2) by (auto simp: tree_write_def simp del: UN_insert)
qed

lemma creating_at:
  assumes "creating E c junk xs x n d0" and "fs_wf E d I" and "at_node E (username c) xs n d0 d I"
  shows "creating E c junk xs x n d"
  using assms(1) at_node_facts [OF assms(2,3)] by (simp add: creating_def)

lemma create_no_space:
  assumes c: "creating E c junk xs x n d0" and g: "phase g = Pending" and "wants g = None"
    and d: "fs_wf E d I" "at_node E (username c) xs n d0 d I"
  shows "\<exists>ph Q'. may_commit c g ph (abs_fs E d) \<and> Q' d I \<and>
    safe E V c finished (g\<lparr>phase := ph\<rparr>) Q' (Done (Inl (Runtime_error ''Not enough disk space for create'')))"
proof -
  have "may_commit c g (Committed False None) (abs_fs E d)" by (rule may_commitI [OF g create_spec(2) [OF c d]])
  moreover have "safe E V c finished (g\<lparr>phase := Committed False None\<rparr>) (\<lambda>_ _. True)
      (Done (Inl (Runtime_error ''Not enough disk space for create'')))"
    by (rule safe_Done) (simp_all add: finished_def assms(3))
  ultimately show ?thesis by (intro exI [of _ "Committed False None"] exI [of _ "\<lambda>_ _. True"]) simp
qed

lemma create_commit_slot_safe:
  assumes c: "creating E c junk xs x n d0" and wf: "fs_wf E d0 I0" "n \<in> I0" and g: "holds [n \<mapsto> Up] Pending g"
    and st: "is_empty_direntry st" "new_direntry_block st = b" "b \<in> set (inode_blocks E d0 n)"
      "updated_direntries_block st = dir_at E d0 b" "new_direntry_location st = j" "j < length (dir_at E d0 b)"
      "de_inode_block (dir_at E d0 b ! j) = 0"
  shows "safe E V c finished g (at_node E (username c) xs n d0) (bindt (create_commit_t E junk c x n i st) (\<lambda>_. Done (Inr [])))"
proof -
  note h = holdsD [OF g] and cr = creatingD [OF c]
  let ?at = "at_node E (username c) xs n d0"
  have bl: "b < FS_DISKSIZE" by (rule fs_wf_block_less [OF wf st(3)])
  have bo: "b \<in> set (owned E d0 n)" by (rule inode_blocks_owned [OF st(3)])
  have dir: "dir_at E d b = dir_at E d0 b" if "?at d I" for d I
    using that bo by (simp add: at_node_def untouched_def dir_at_def)
  have stab: "stable E g ?at" if "held g = [n \<mapsto> md]" "md \<in> {Up, Wr}" for g :: ghost and md
    by (rule stable_at) (use that in auto)
  have commit: "safe E V c finished (g\<lparr>fresh := insert cb (fresh g)\<rparr>) ?at
    (bindt (atom (write_shared E cb (encode_inode (new_node junk c)))) (\<lambda>_.
     bindt (upgrade_to_write_lock_t E n) (\<lambda>_.
     bindt (atom (write_shared E b (encode_dir ((dir_at E d0 b)[j := new_entry x cb (dir_at E d0 b ! j)])))) (\<lambda>_.
     bindt (unlock_inode_write_t E n) (\<lambda>_. Done (Inr []))))))"
    if cb: "cb < FS_DISKSIZE" for cb
  proof (rule rule_write_fresh)
    let ?Q = "\<lambda>d I. ?at d I \<and> blk E d cb = encode_inode (new_node junk c)"
      and ?g = "g\<lparr>fresh := insert cb (fresh g)\<rparr>"
      and ?raw = "encode_dir ((dir_at E d0 b)[j := new_entry x cb (dir_at E d0 b ! j)])"
    have stQ: "stable E g' ?Q" if "held g' = [n \<mapsto> md]" "md \<in> {Up, Wr}" "fresh g' = fresh ?g" for g' :: ghost and md
      by (rule stable_conj [OF stab [where md = md] stable_block]) (use that in \<open>auto simp: private_blocks_def\<close>)
    have "direntry_fits (new_entry x cb (dir_at E d0 b ! j))"
      using dir_fits_at [OF bl, of d0] nth_mem [OF st(6)] cr(2,3) cb new_entry_props(1) by (auto simp: dir_fits_def)
    then have enc: "length ?raw = FS_BLOCKSIZE" by (intro length_encode_dir dir_fits_update dir_fits_at [OF bl])
    show "safe E V c finished ?g ?Q (bindt (upgrade_to_write_lock_t E n) (\<lambda>_. bindt (atom (write_shared E b ?raw)) (\<lambda>_.
        bindt (unlock_inode_write_t E n) (\<lambda>_. Done (Inr [])))))"
    proof (rule rule_upgrade_to_write)
      show "stable E ?g ?Q" by (rule stQ [where md = Up]) (simp_all add: h)
      show "walk E d 0 xs = Some n" if "?Q d I" for d I using that by (auto intro: at_node_walk)
      fix g' :: ghost assume g': "held g' = [n \<mapsto> Wr]" "wants g' = None" "fresh g' = fresh ?g" "limbo g' = limbo ?g"
        "phase g' = phase ?g"
      have gf: "fresh g' = {cb}" "limbo g' = {}" using g' h by simp_all
      show "safe E V c finished g' ?Q (bindt (atom (write_shared E b ?raw)) (\<lambda>_.
        bindt (unlock_inode_write_t E n) (\<lambda>_. Done (Inr []))))"
      proof (rule create_last_write [OF c g'(1,2) _ _ _ enc])
        show "stable E g' ?Q" by (rule stQ [where md = Wr]) (use g' in simp_all)
        fix d I assume d: "fs_wf E d I" "?Q d I" and own: "\<And>m. m \<in> I \<Longrightarrow> set (owned E d m) \<inter> private_blocks g' = {}"
        have at: "?at d I" "blk E d cb = encode_inode (new_node junk c)" using d(2) by simp_all
        note a = at_node_facts [OF d(1) at(1)] and D = dir [OF at(1)]
        have own': "\<forall>m \<in> I. set (owned E d m) \<inter> private_blocks g' = {}" using own by blast
        have b: "b \<in> set (inode_blocks E d n)" using st(3) a(9) by simp
        note tw = tree_write_slot [OF creating_at [OF c d(1) at(1)] d(1) a(2) b, unfolded D, OF st(6,7) gf cb at(2) own' refl]
        show "b < FS_DISKSIZE \<and> (\<exists>I'. tree_write E g' d I n (upd E d b ?raw) I' {} {} {}) \<and>
          abs_fs E (upd E d b ?raw) = (abs_fs E d)(xs @ [x] \<mapsto>
            (if ctype c = CHR ''d'' then ADir (username c) else AFile (username c) []))"
          using tw(2,3,4) by blast
      qed (use g' h in auto)
    qed (simp_all add: h)
    show "stable E (?g\<lparr>fresh := fresh ?g - {cb}\<rparr>) ?at" by (rule stab [where md = Up]) (simp_all add: h)
  qed (use length_encode_inode [OF new_node_props(1) [OF cr(1)]] in simp_all)
  have fits: "dir_fits (updated_direntries_block st)" using dir_fits_at [OF bl] st(4) by simp
  have fill: "fill_direntry x cb j (dir_at E d0 b) = Inr ((dir_at E d0 b)[j := new_entry x cb (dir_at E d0 b ! j)])" for cb
    by (rule fill_direntry_eq [OF dir_fits_at [OF bl] st(6) cr(2,3)])
  show ?thesis unfolding create_commit_t_def bindt_assoc
  proof (rule rule_take)
    show "stable E g ?at" by (rule stab [where md = Up]) (simp_all add: h)
    show "\<exists>ph Q'. may_commit c g ph (abs_fs E d) \<and> Q' d I \<and>
      safe E V c finished (g\<lparr>phase := ph\<rparr>) Q' (Done (Inl (Runtime_error ''Not enough disk space for create'')))"
      if "fs_wf E d I" "?at d I" for d I
      by (rule create_no_space [OF c h(5,2) that])
  qed (use commit in \<open>simp add: st(1,2,4,5) fill make_inode_eq [OF cr(1)] seqt_def bindt_assoc\<close>)
qed

lemma grow_section_app:
  assumes "length (i_blocks i) = FS_MAXFILEBLOCKS" and "i_size i \<le> FS_MAXFILEBLOCKS"
  shows "grow_section E n i s =
    (if sh_free s = [] \<or> i_size i = FS_MAXFILEBLOCKS
     then bindp (release_user (sm_unlock_upgrade E) n) (\<lambda>_. halt (Runtime_error ''Not enough disk space for create'')) s
     else (Inr (hd (sh_free s), i\<lparr>i_blocks := (i_blocks i)[i_size i := hd (sh_free s)]\<rparr>),
           s\<lparr>sh_free := tl (sh_free s)\<rparr>))"
  using assms by (simp add: grow_section_def prog_simps seqp_def)

text \<open>The two new blocks are written while only the thread knows them, then the inode of the directory.\<close>

lemma create_grow_writes:
  assumes c: "creating E c junk xs x n d0" and g: "held g = [n \<mapsto> Up]" "wants g = None" "phase g = Pending"
      "fresh g = {cb, nb}" "limbo g = {}"
    and sz: "i_size (inode_at E d0 n) < FS_MAXFILEBLOCKS" and b: "cb < FS_DISKSIZE" "nb < FS_DISKSIZE" "nb \<noteq> cb"
  shows "safe E V c finished g (at_node E (username c) xs n d0)
    (bindt (atom (write_shared E cb (encode_inode (new_node junk c)))) (\<lambda>_.
     bindt (atom (write_shared E nb (encode_dir (zero_block[0 := new_entry x cb zero_direntry])))) (\<lambda>_.
     bindt (upgrade_to_write_lock_t E n) (\<lambda>_.
     bindt (atom (write_shared E n (encode_inode (extended_inode (inode_at E d0 n) nb)))) (\<lambda>_.
     bindt (unlock_inode_write_t E n) (\<lambda>_. Done (Inr [])))))))"
proof -
  note cr = creatingD [OF c]
  let ?at = "at_node E (username c) xs n d0" and ?cb = "encode_inode (new_node junk c)"
    and ?nb = "encode_dir (zero_block[0 := new_entry x cb zero_direntry])"
    and ?raw = "encode_inode (extended_inode (inode_at E d0 n) nb)"
  let ?Q1 = "\<lambda>d I. ?at d I \<and> blk E d cb = ?cb" let ?Q2 = "\<lambda>d I. ?Q1 d I \<and> blk E d nb = ?nb"
  have stab: "stable E g ?at" if "held g = [n \<mapsto> md]" "md \<in> {Up, Wr}" for g :: ghost and md
    by (rule stable_at) (use that in auto)
  have st1: "stable E g' ?Q1" if "held g' = [n \<mapsto> md]" "md \<in> {Up, Wr}" "cb \<in> fresh g'" for g' :: ghost and md
    by (rule stable_conj [OF stab [OF that(1,2)] stable_block]) (use that in \<open>auto simp: private_blocks_def\<close>)
  have st2: "stable E g' ?Q2" if "held g' = [n \<mapsto> md]" "md \<in> {Up, Wr}" "fresh g' = {cb, nb}" for g' :: ghost and md
    by (rule stable_conj [OF st1 [OF that(1,2)] stable_block]) (use that in \<open>auto simp: private_blocks_def\<close>)
  have "direntry_fits (new_entry x cb zero_direntry)"
    using zero_block_props(5) cr(2,3) b(1) new_entry_props(1) by blast
  then have enc: "length ?cb = FS_BLOCKSIZE" "length ?nb = FS_BLOCKSIZE" "length ?raw = FS_BLOCKSIZE"
    using length_encode_inode [OF new_node_props(1) [OF cr(1)]] length_encode_dir [OF dir_fits_update [OF zero_block_props(1)]]
      length_encode_inode [OF inode_fits_extended [OF inode_fits_at [OF cr(6)] sz b(2)]] by simp_all
  have up: "safe E V c finished g ?Q2 (bindt (upgrade_to_write_lock_t E n) (\<lambda>_. bindt (atom (write_shared E n ?raw)) (\<lambda>_.
      bindt (unlock_inode_write_t E n) (\<lambda>_. Done (Inr [])))))"
  proof (rule rule_upgrade_to_write [OF g(1,2)])
    show "stable E g ?Q2" by (rule st2 [OF g(1) _ g(4)]) simp
    show "walk E d 0 xs = Some n" if "?Q2 d I" for d I using that by (auto intro: at_node_walk)
    fix g' :: ghost assume g': "held g' = [n \<mapsto> Wr]" "wants g' = None" "fresh g' = fresh g" "limbo g' = limbo g" "phase g' = phase g"
    have gf: "fresh g' = {cb, nb}" "limbo g' = {}" "phase g' = Pending" using g' g by simp_all
    show "safe E V c finished g' ?Q2 (bindt (atom (write_shared E n ?raw)) (\<lambda>_.
      bindt (unlock_inode_write_t E n) (\<lambda>_. Done (Inr []))))"
    proof (rule create_last_write [OF c g'(1,2) gf(3) _ _ enc(3)])
      show "stable E g' ?Q2" by (rule st2 [OF g'(1) _ gf(1)]) simp
      fix d I assume d: "fs_wf E d I" "?Q2 d I" and own: "\<And>m. m \<in> I \<Longrightarrow> set (owned E d m) \<inter> private_blocks g' = {}"
      have at: "?at d I" "blk E d cb = ?cb" "blk E d nb = ?nb" using d(2) by simp_all
      note a = at_node_facts [OF d(1) at(1)]
      have own': "\<forall>m \<in> I. set (owned E d m) \<inter> private_blocks g' = {}" using own by blast
      have sz': "i_size (inode_at E d n) < FS_MAXFILEBLOCKS" using sz a(4) by simp
      note tw = tree_write_new_block [OF creating_at [OF c d(1) at(1)] d(1) a(2) sz' gf(1,2) b(1) at(2) b(2,3) at(3) own' refl,
        unfolded a(4)]
      show "n < FS_DISKSIZE \<and> (\<exists>I'. tree_write E g' d I n (upd E d n ?raw) I' {} {} {}) \<and>
          abs_fs E (upd E d n ?raw) = (abs_fs E d)(xs @ [x] \<mapsto>
            (if ctype c = CHR ''d'' then ADir (username c) else AFile (username c) []))"
        using tw(2,3) cr(6) by blast
    qed simp
  qed
  have nb: "safe E V c finished g ?Q1 (bindt (atom (write_shared E nb ?nb)) (\<lambda>_. bindt (upgrade_to_write_lock_t E n) (\<lambda>_.
      bindt (atom (write_shared E n ?raw)) (\<lambda>_. bindt (unlock_inode_write_t E n) (\<lambda>_. Done (Inr []))))))"
    by (rule rule_write_fresh [OF st1 [where md = Up] _ enc(2) up]) (use g b(3) in auto)
  show ?thesis
    by (rule rule_write_fresh [OF stab [where md = Up] _ enc(1) nb]) (use g in simp_all)
qed

lemma create_commit_grow_safe:
  assumes c: "creating E c junk xs x n d0" and g: "holds [n \<mapsto> Up] Pending g"
    and st: "\<not> is_empty_direntry st" "updated_direntries_block st = zero_block" "new_direntry_location st = 0"
    and i: "i = inode_at E d0 n"
  shows "safe E V c finished g (at_node E (username c) xs n d0) (bindt (create_commit_t E junk c x n i st) (\<lambda>_. Done (Inr [])))"
proof -
  note h = holdsD [OF g] and cr = creatingD [OF c]
  let ?at = "at_node E (username c) xs n d0" and ?msg = "''Not enough disk space for create''"
  have stab: "stable E g' ?at" if "held g' = held g" for g' :: ghost
    by (rule stable_at) (use that h in auto)
  have len_b: "length (i_blocks i) = FS_MAXFILEBLOCKS" "i_size i \<le> FS_MAXFILEBLOCKS" using cr(6,7) i by simp_all
  have fill: "fill_direntry x cb 0 zero_block = Inr (zero_block[0 := new_entry x cb zero_direntry])" for cb
    using fill_direntry_eq [OF zero_block_props(1,7) cr(2,3)] zero_block_props(4) by simp
  have grow: "safe E V c finished (g\<lparr>fresh := insert cb (fresh g)\<rparr>) ?at
      (bindt (atom (grow_section E n i)) (\<lambda>(entries, parent_inode).
       bindt (atom (write_shared E cb (encode_inode (new_node junk c)))) (\<lambda>_.
       bindt (atom (write_shared E entries (encode_dir (zero_block[0 := new_entry x cb zero_direntry])))) (\<lambda>_.
       bindt (upgrade_to_write_lock_t E n) (\<lambda>_.
       bindt (atom (write_shared E n (encode_inode (parent_inode\<lparr>i_size := i_size parent_inode + 1\<rparr>)))) (\<lambda>_.
       bindt (unlock_inode_write_t E n) (\<lambda>_. Done (Inr []))))))))"
    if cb: "cb < FS_DISKSIZE" for cb
  proof (rule rule_take_or_release [OF _ _ _ grow_section_app [OF len_b]])
    let ?g = "g\<lparr>fresh := insert cb (fresh g)\<rparr>"
    show "stable E ?g ?at" by (rule stab) simp
    show "n \<in> I \<and> (\<exists>ph Q'. may_commit c ?g ph (abs_fs E d) \<and> Q' d I \<and>
      safe E V c finished ((gives_lock ?g n)\<lparr>phase := ph\<rparr>) Q' (Done (Inl (Runtime_error ?msg))))"
      if d: "fs_wf E d I" "?at d I" for d I
      using create_no_space [OF c _ _ d, of "gives_lock ?g n"] at_node_facts(3) [OF d] h
      by (simp add: may_commit_def gives_lock_def)
    fix nb assume nb: "i_size i \<noteq> FS_MAXFILEBLOCKS" "nb < FS_DISKSIZE" "nb \<notin> private_blocks ?g"
    have "safe E V c finished (?g\<lparr>fresh := insert nb (fresh ?g)\<rparr>) ?at
      (bindt (atom (write_shared E cb (encode_inode (new_node junk c)))) (\<lambda>_.
       bindt (atom (write_shared E nb (encode_dir (zero_block[0 := new_entry x cb zero_direntry])))) (\<lambda>_.
       bindt (upgrade_to_write_lock_t E n) (\<lambda>_.
       bindt (atom (write_shared E n (encode_inode (extended_inode (inode_at E d0 n) nb)))) (\<lambda>_.
       bindt (unlock_inode_write_t E n) (\<lambda>_. Done (Inr [])))))))"
      by (rule create_grow_writes [OF c]) (use h nb cb i len_b in \<open>auto simp: private_blocks_def\<close>)
    then show "safe E V c finished (?g\<lparr>fresh := insert nb (fresh ?g)\<rparr>) ?at
      (case (nb, i\<lparr>i_blocks := (i_blocks i)[i_size i := nb]\<rparr>) of (entries, parent_inode) \<Rightarrow>
       bindt (atom (write_shared E cb (encode_inode (new_node junk c)))) (\<lambda>_.
       bindt (atom (write_shared E entries (encode_dir (zero_block[0 := new_entry x cb zero_direntry])))) (\<lambda>_.
       bindt (upgrade_to_write_lock_t E n) (\<lambda>_.
       bindt (atom (write_shared E n (encode_inode (parent_inode\<lparr>i_size := i_size parent_inode + 1\<rparr>)))) (\<lambda>_.
       bindt (unlock_inode_write_t E n) (\<lambda>_. Done (Inr [])))))))"
      by (simp add: extended_inode_def i)
  qed (simp_all add: h)
  show ?thesis unfolding create_commit_t_def bindt_assoc
  proof (rule rule_take)
    show "stable E g ?at" by (rule stab) simp
    show "\<exists>ph Q'. may_commit c g ph (abs_fs E d) \<and> Q' d I \<and>
      safe E V c finished (g\<lparr>phase := ph\<rparr>) Q' (Done (Inl (Runtime_error ?msg)))"
      if "fs_wf E d I" "?at d I" for d I
      by (rule create_no_space [OF c h(5,2) that])
  qed (use grow in \<open>simp add: st fill make_inode_eq [OF cr(1)] seqt_def bindt_assoc split_def\<close>)
qed

subsection \<open>The request\<close>

lemma dir_block_range:
  assumes "fs_wf E d0 I0" and "n \<in> I0" and i: "i = inode_at E d0 n"
  shows "\<forall>k \<in> set [0..<i_size i]. k < length (i_blocks i) \<and> i_blocks i ! k \<in> set (owned E d0 n)"
    "\<forall>b \<in> set (owned E d0 n). b < FS_DISKSIZE"
proof -
  have less: "n < FS_DISKSIZE" by (rule fs_wf_inode_less [OF assms(1,2)])
  have ok: "i_size i \<le> FS_MAXFILEBLOCKS" "\<forall>b \<in> set (owned E d0 n). b < FS_DISKSIZE"
    using fs_wf_inode [OF assms(1,2)] i by (auto simp: inode_ok_def)
  then show "\<forall>b \<in> set (owned E d0 n). b < FS_DISKSIZE" by simp
  show "\<forall>k \<in> set [0..<i_size i]. k < length (i_blocks i) \<and> i_blocks i ! k \<in> set (owned E d0 n)"
    using ok less inode_block_in(1) [OF less] inode_blocks_owned [of _ E d0 n] i by auto
qed

lemma at_node_blk:
  "fs_wf E d0 I0 \<Longrightarrow> n \<in> I0 \<Longrightarrow> b \<in> set (owned E d0 n) \<Longrightarrow> at_node E u p n d0 d I \<Longrightarrow>
    b < FS_DISKSIZE \<and> blk E d b = blk E d0 b"
  using dir_block_range(2) [OF _ _ refl] by (simp add: at_node_def untouched_def)

lemma create_scan_safe:
  assumes wf: "fs_wf E d0 I0" "n \<in> I0" and dir: "is_dir E d0 n" and i: "i = inode_at E d0 n" and x: "NUL \<notin> set x"
    and st: "stable E g (at_node E u p n d0)"
    and old: "x \<in> fst ` set (dir_entries E d0 n) \<Longrightarrow> safe E V c post g (at_node E u p n d0) (k None)"
    and new: "\<And>st. x \<notin> fst ` set (dir_entries E d0 n) \<Longrightarrow>
      scan_outcome (dir_at E d0) (inode_blocks E d0 n) create_scan_init st \<Longrightarrow>
      safe E V c post g (at_node E u p n d0) (k (Some st))"
  shows "safe E V c post g (at_node E u p n d0)
    (bindt (create_scan_blocks_t E x (i_blocks i) [0..<i_size i] create_scan_init) k)"
proof -
  let ?s = "undefined\<lparr>disk := d0\<rparr> :: ('d, 'm) FileSystem"
  have wf': "fs_wf E (disk ?s) I0" "is_dir E (disk ?s) n" "i = inode_at E (disk ?s) n" using wf dir i by simp_all
  note scan = create_scan_dir [OF wf'(1) wf(2) wf'(2) x wf'(3), of create_scan_init]
  have res: "safe E V c post g (at_node E u p n d0)
      (bindt (Done (fst (create_scan_blocks E x (i_blocks i) [0..<i_size i] create_scan_init ?s))) k)"
  proof (cases "x \<in> fst ` set (dir_entries E d0 n)")
    case True
    then show ?thesis using scan(1) old by simp
  next
    case False
    then show ?thesis using scan(2) new by auto
  qed
  have rd: "reads E d0 (set (owned E d0 n)) (create_scan_blocks_t E x (i_blocks i) [0..<i_size i] create_scan_init)
      (fst (create_scan_blocks E x (i_blocks i) [0..<i_size i] create_scan_init ?s))"
    using create_scan_blocks_reads [OF dir_block_range [OF wf i], of ?s x create_scan_init] by simp
  show ?thesis by (rule safe_reads [OF rd st _ res]) (rule at_node_blk [OF wf])
qed

lemma create_request_safe:
  assumes ct: "command_type c = FS_CREATE" and p: "path_ok (pathname c) p" and ok: "create_ok c junk"
    and g: "holds Map.empty Pending g"
  shows "safe E V c finished g (\<lambda>_ _. True) (seqt (handle_create_t E junk c) (rett []))"
proof -
  obtain xs x where px: "p = xs @ [x]" using p by (cases p rule: rev_cases) (auto simp: path_ok_def)
  have nm: "name_ok x" "NUL \<notin> set x" "\<forall>y \<in> set xs. name_ok y \<and> NUL \<notin> set y" and path: "pathname c = join_path xs @ slash # x"
    using p by (auto simp: path_ok_def px)
  have po: "path_of c = xs @ [x]" using path_of_ok [OF p] px by simp
  have spec: "spec_request sp c A = updated A (spec_create sp A (username c) (xs @ [x]) (ctype c))" for sp A
    using ct po by (simp add: spec_request_def)
  let ?k = "\<lambda>n i. bindt (create_scan_blocks_t E x (i_blocks i) [0..<i_size i] create_scan_init) (\<lambda>r.
     bindt (case r of
       None \<Rightarrow> bindt (unlock_inode_upgrade_t E n) (\<lambda>_. haltt (Runtime_error ''Path already exists''))
     | Some st \<Rightarrow> create_commit_t E junk c x n i
           (if is_empty_direntry st then st
            else st\<lparr>updated_direntries_block :=
                   map (\<lambda>e. e\<lparr>de_inode_block := 0\<rparr>) (updated_direntries_block st)\<rparr>)) (\<lambda>_. rett []))"
  have "safe E V c finished g (\<lambda>_ _. True) (bindt (get_parent_inode_and_upgradeable_lock_t E c (join_path xs)) (\<lambda>n.
    bindt (atom (read_shared E n)) (\<lambda>raw. bindt (validate_parent_inode_t E c (join_path xs) (decode_inode raw) n)
      (\<lambda>_. ?k n (decode_inode raw)))))"
  proof (rule rule_open_parent [OF nm(3) g])
    show "spec_request True c (abs_fs E d) = (None, abs_fs E d)" if "\<not> dir_path (abs_fs E d) (username c) xs" for d
      using that
      by (simp add: spec updated_def spec_create_def)
    fix n d I assume d: "fs_wf E d I" "walk_as E d (username c) 0 xs = Inr n" "dir_path (abs_fs E d) (username c) xs"
      "n \<in> I" "is_dir E d n"
    let ?old = "x \<in> fst ` set (dir_entries E d n)" and ?Q = "at_node E (username c) xs n d"
    let ?ph = "if ?old then Committed True None else Pending"
    have cr: "creating E c junk xs x n d" if "\<not> ?old"
      using that d(3) ct po ok nm d(5) fs_wf_inode_less [OF d(1,4)] fs_wf_inode [OF d(1,4)] d(2)
      by (auto simp: creating_def dir_path_iff [OF d(1)] inode_ok_def)
    have "safe E V c finished g' ?Q (?k n (inode_at E d n))" if g': "holds [n \<mapsto> Up] ?ph g'" for g'
    proof (rule create_scan_safe [OF d(1,4,5) refl nm(2)])
      show st: "stable E g' ?Q" by (rule stable_at) (simp add: holdsD [OF g'])
      assume ?old
      then have "holds [n \<mapsto> Up] (Committed True None) g'" using g' by simp
      note un = rule_last_unlock [where r = None and f = "sm_unlock_upgrade E", OF st this]
      then show "safe E V c finished g' ?Q (bindt (case None of
           None \<Rightarrow> bindt (unlock_inode_upgrade_t E n) (\<lambda>_. haltt (Runtime_error ''Path already exists''))
         | Some st \<Rightarrow> create_commit_t E junk c x n (inode_at E d n)
               (if is_empty_direntry st then st
                else st\<lparr>updated_direntries_block :=
                   map (\<lambda>e. e\<lparr>de_inode_block := 0\<rparr>) (updated_direntries_block st)\<rparr>)) (\<lambda>_. rett []))"
        using at_node_facts(3) by (auto simp: unlock_inode_upgrade_t_def bindt_assoc haltt_def)
    next
      fix st assume new: "\<not> ?old" and out: "scan_outcome (dir_at E d) (inode_blocks E d n) create_scan_init st"
      have gp: "holds [n \<mapsto> Up] Pending g'" using g' new by simp
      have init: "\<not> is_empty_direntry create_scan_init" by (simp add: create_scan_init_def)
      have "safe E V c finished g' ?Q (bindt (create_commit_t E junk c x n (inode_at E d n)
         (if is_empty_direntry st then st
          else st\<lparr>updated_direntries_block := map (\<lambda>e. e\<lparr>de_inode_block := 0\<rparr>) (updated_direntries_block st)\<rparr>))
         (\<lambda>_. Done (Inr [])))"
      proof (cases "\<exists>b \<in> set (inode_blocks E d n). free_slot (dir_at E d b)")
        case True
        then have st: "is_empty_direntry st" "new_direntry_block st \<in> set (inode_blocks E d n)"
          "updated_direntries_block st = dir_at E d (new_direntry_block st)"
          "new_direntry_location st < length (dir_at E d (new_direntry_block st))"
          "de_inode_block (dir_at E d (new_direntry_block st) ! new_direntry_location st) = 0"
          using out init unfolding scan_outcome_def by auto
        show ?thesis
          using create_commit_slot_safe [OF cr [OF new] d(1,4) gp st(1) refl st(2,3) refl st(4,5)] st(1) by simp
      next
        case False
        then have "st = create_scan_init" using out by (simp add: scan_outcome_def)
        then have "\<not> is_empty_direntry st" "new_direntry_location st = 0"
          "map (\<lambda>e. e\<lparr>de_inode_block := 0\<rparr>) (updated_direntries_block st) = zero_block"
          using init zero_block_cleared by (simp_all add: create_scan_init_def)
        then show ?thesis
          using create_commit_grow_safe [OF cr [OF new] gp, of "st\<lparr>updated_direntries_block := zero_block\<rparr>"] by simp
      qed
      then show "safe E V c finished g' ?Q (bindt (case Some st of
           None \<Rightarrow> bindt (unlock_inode_upgrade_t E n) (\<lambda>_. haltt (Runtime_error ''Path already exists''))
         | Some st \<Rightarrow> create_commit_t E junk c x n (inode_at E d n)
               (if is_empty_direntry st then st
                else st\<lparr>updated_direntries_block :=
                   map (\<lambda>e. e\<lparr>de_inode_block := 0\<rparr>) (updated_direntries_block st)\<rparr>)) (\<lambda>_. rett []))"
        by (simp add: rett_def)
    qed
    moreover have "may_commit c idle ?ph (abs_fs E d)"
    proof (cases ?old)
      case True
      then have "abs_fs E d (xs @ [x]) \<noteq> None" using abs_fs_in_dir [OF walk_as_walk [OF d(2)] d(5)] by blast
      then have "spec_request True c (abs_fs E d) = (None, abs_fs E d)" by (simp add: spec updated_def spec_create_def)
      then show ?thesis using commit_now True by simp
    qed (simp add: may_commit_def idle_def)
    ultimately show "\<exists>ph. may_commit c idle ph (abs_fs E d) \<and> (\<forall>g'. holds [n \<mapsto> Up] ph g' \<longrightarrow>
        safe E V c finished g' ?Q (?k n (inode_at E d n)))" by blast
  qed
  then show ?thesis using nm(1)
    by (simp add: handle_create_t_def path seqt_def bindt_assoc Let_def)
qed

end

end
