(* ===== verification/FS_Delete_Threads.thy ===== *)
theory FS_Delete_Threads
  imports FS_Create_Threads
begin

text \<open>
  Delete among other requests.  The parent is locked exclusively, then the child upgradeably; the request takes
  effect when the entry is removed.  From then on the child is not in the tree, and its blocks belong to the thread,
  which waits for the readers of the child to go before it frees them.
\<close>

subsection \<open>The entry\<close>

text \<open>A delete request that has its directory \<open>n\<close> locked, and has found the entry of \<open>ch\<close> on \<open>d0\<close>.\<close>

definition deleting :: "('d, 'm) fs_env \<Rightarrow> Command \<Rightarrow> string list \<Rightarrow> string \<Rightarrow> nat \<Rightarrow> nat \<Rightarrow> fs_inode \<Rightarrow> nat \<Rightarrow> nat \<Rightarrow>
    fs_direntry list \<Rightarrow> 'd \<Rightarrow> bool" where
  "deleting E c xs x n ch i k j es d0 \<longleftrightarrow>
     command_type c = FS_DELETE \<and> path_of c = xs @ [x] \<and>
     is_dir E d0 n \<and> (xs = [] \<or> owner_at E d0 n = username c) \<and> n < FS_DISKSIZE \<and>
     i = inode_at E d0 n \<and> i_size i \<le> FS_MAXFILEBLOCKS \<and> k < i_size i \<and> i_blocks i ! k < FS_DISKSIZE \<and>
     es = dir_at E d0 (i_blocks i ! k) \<and> entry_at es j x \<and> ch = de_inode_block (es ! j)"

context fs_server
begin

lemma deletingD:
  assumes "deleting E c xs x n ch i k j es d0"
  shows "is_dir E d0 n" "n < FS_DISKSIZE" "i = inode_at E d0 n" "k < i_size i" "es = dir_at E d0 (i_blocks i ! k)"
    "entry_at es j x" "ch = de_inode_block (es ! j)" "i_size i \<le> FS_MAXFILEBLOCKS"
    "i_blocks i ! k \<in> set (inode_blocks E d0 n)" "i_blocks i ! k < FS_DISKSIZE"
  using assms inode_block_in(1) [of n d0 k] by (auto simp: deleting_def)

lemma deleting_at:
  assumes "deleting E c xs x n ch i k j es d0" and "fs_wf E d I" and "at_node E (username c) xs n d0 d I"
  shows "deleting E c xs x n ch i k j es d"
proof -
  have "i_blocks i ! k \<in> set (owned E d0 n)" by (rule inode_blocks_owned [OF deletingD(9) [OF assms(1)]])
  then have "dir_at E d (i_blocks i ! k) = dir_at E d0 (i_blocks i ! k)"
    using assms(3) by (simp add: at_node_def untouched_def dir_at_def)
  then show ?thesis using assms(1) at_node_facts [OF assms(2,3)] by (auto simp: deleting_def)
qed

lemma deleting_child:
  assumes c: "deleting E c xs x n ch i k j es d" and wf: "fs_wf E d I" and w: "walk_as E d (username c) 0 xs = Inr n"
  shows "walk_as E d (username c) 0 (xs @ [x]) = Inr ch" "walk E d 0 (xs @ [x]) = Some ch" "ch \<in> I" "ch \<noteq> n" "n \<in> I"
proof -
  note cd = deletingD [OF c] and wn = walk_as_walk [OF w]
  show nI: "n \<in> I" by (rule walk_root_in [OF wf wn])
  have "(x, ch) \<in> set (used_entries es)"
    using set_mset_add [OF used_entries_clear [OF cd(6)]] cd(7) by simp
  then have ent: "(x, ch) \<in> set (dir_entries E d n)" using cd(5,9) by (auto simp: dir_entries_def)
  have "distinct (map fst (dir_entries E d n))" using fs_wf_dir [OF wf nI cd(1)] by (simp add: dir_ok_def)
  then have m: "map_of (dir_entries E d n) x = Some ch" using ent by simp
  then show w': "walk E d 0 (xs @ [x]) = Some ch" using wn cd(1) by (simp add: walk_snoc)
  show "ch \<in> I" by (rule walk_root_in [OF wf w'])
  show "ch \<noteq> n" by (rule walk_child_neq [OF wf wn w'])
  have "n = 0 \<or> username c = owner_at E d n" using c w by (auto simp: deleting_def)
  then have "step_dir E d (username c) n x = Inr ch" using m cd(1) by (simp add: step_dir_Inr)
  then show "walk_as E d (username c) 0 (xs @ [x]) = Inr ch" using w by (simp add: walk_as_append)
qed

lemma delete_spec:
  assumes c: "deleting E c xs x n ch i k j es d" and wf: "fs_wf E d I" and w: "walk_as E d (username c) 0 xs = Inr n"
  shows "spec_request sp c (abs_fs E d) =
    (if owner_at E d ch \<noteq> username c \<or> is_dir E d ch \<and> inode_blocks E d ch \<noteq> [] then (None, abs_fs E d)
     else (Some [], (abs_fs E d)(xs @ [x] := None)))"
proof -
  note ch = deleting_child [OF c wf w]
  have "dir_path (abs_fs E d) (username c) xs" using c w by (auto simp: dir_path_iff [OF wf] deleting_def)
  moreover have "abs_fs E d (xs @ [x]) = Some (obj_at E d ch)" using ch(2) by (simp add: abs_fs_def)
  ultimately show ?thesis using c has_children_iff [OF wf ch(2)]
    by (auto simp: spec_request_def deleting_def spec_delete_def updated_def obj_at_def)
qed

subsection \<open>Taking the child out of the tree\<close>

lemma tree_write_unlink:
  assumes wf: "fs_wf E d I" and n: "n \<in> I" "ch \<in> I" "ch \<noteq> n"
    and r: "leaf_removed E d d' I n ch freed" and k: "keeps E d d' I n {ch}"
    and out: "\<And>y. y \<notin> set (owned E d n) \<Longrightarrow> blk E d' y = blk E d y"
    and leaf: "is_dir E d ch \<Longrightarrow> dir_entries E d ch = []"
    and g: "held g ch = Some Up" "private_blocks g = {}"
  shows "tree_write E g d I n d' (I - {ch}) {ch} {} (set freed \<union> set (owned E d ch))"
proof -
  have r': "fs_wf E d' (I - {ch})" "\<And>m. m \<in> I - {ch} \<Longrightarrow> m \<noteq> n \<Longrightarrow> owned E d' m = owned E d m"
    "set (owned E d n) = set freed \<union> set (owned E d' n)" "set freed \<inter> set (owned E d' n) = {}"
    using r by (simp_all add: leaf_removed_def)
  have dj: "set (owned E d m) \<inter> set (owned E d m') = {}" if "m \<in> I" "m' \<in> I" "m \<noteq> m'" for m m'
    using fs_wf_disjoint(1) [OF wf that(1,2)] that(3) by blast
  have U: "(\<Union>m \<in> I. set (owned E d m)) =
      (\<Union>m \<in> I - {ch} - {n}. set (owned E d m)) \<union> set (owned E d n) \<union> set (owned E d ch)" using n by blast
  have "(\<Union>m \<in> I - {ch}. set (owned E d' m)) = (\<Union>m \<in> I - {ch} - {n}. set (owned E d' m)) \<union> set (owned E d' n)"
    using n by blast
  also have "(\<Union>m \<in> I - {ch} - {n}. set (owned E d' m)) = (\<Union>m \<in> I - {ch} - {n}. set (owned E d m))"
    using r'(2) by simp
  finally have U': "(\<Union>m \<in> I - {ch}. set (owned E d' m)) = (\<Union>m \<in> I - {ch} - {n}. set (owned E d m)) \<union> set (owned E d' n)" .
  have apart: "set (owned E d' m) \<inter> (set freed \<union> set (owned E d ch)) = {}" if m: "m \<in> I - {ch}" for m
  proof (cases "m = n")
    case True
    then show ?thesis using r'(3,4) dj [OF n(1,2)] n(3) by auto
  next
    case False
    then show ?thesis using r'(2) [OF m False] r'(3) dj [of m n] dj [of m ch] m n by auto
  qed
  have "(\<Union>m \<in> I - {ch}. set (owned E d' m)) \<union> ({} \<union> (set freed \<union> set (owned E d ch))) = (\<Union>m \<in> I. set (owned E d m)) \<union> private_blocks g"
    unfolding U U' g(2) using r'(3) by auto
  moreover have "(\<Union>m \<in> I - {ch}. set (owned E d' m)) \<inter> ({} \<union> (set freed \<union> set (owned E d ch))) = {}"
    using apart by blast
  moreover have "limbo g = {}" using g(2) by (simp add: private_blocks_def)
  ultimately show ?thesis using n(1) out r'(1) k g(1) leaf by (auto simp: tree_write_def)
qed

lemma unlink_write_safe:
  assumes c: "deleting E c xs x n ch i k j es d0" and ne: "ch \<noteq> n"
    and g: "held g = [n \<mapsto> Wr, ch \<mapsto> Up]" "phase g = Pending" "private_blocks g = {}"
    and ch: "owner_at E d1 ch = username c" "is_dir E d1 ch \<Longrightarrow> inode_blocks E d1 ch = []"
    and len: "length raw = FS_BLOCKSIZE"
    and r: "\<And>d I. fs_wf E d I \<Longrightarrow> deleting E c xs x n ch i k j es d \<Longrightarrow> n \<in> I \<Longrightarrow> ch \<in> I \<Longrightarrow> ch \<noteq> n \<Longrightarrow>
      (is_dir E d ch \<longrightarrow> dir_entries E d ch = []) \<Longrightarrow> walk E d 0 xs = Some n \<Longrightarrow>
      b < FS_DISKSIZE \<and> b \<in> set (owned E d n) \<and> leaf_removed E d (upd E d b raw) I n ch freed \<and>
      keeps E d (upd E d b raw) I n {ch} \<and> abs_fs E (upd E d b raw) = (abs_fs E d)(xs @ [x] := None)"
    and t: "\<And>d'. set (owned E d0 n) \<inter> set (owned E d1 ch) = {} \<Longrightarrow>
      safe E V c post (g\<lparr>fresh := {}, limbo := set freed \<union> set (owned E d1 ch), phase := Committed True (Some [])\<rparr>)
        (\<lambda>d I. at_node E (username c) xs n d' d I \<and> sees E ch d1 d I) t"
  shows "safe E V c post g (\<lambda>d I. at_node E (username c) xs n d0 d I \<and> sees E ch d1 d I)
    (bindt (atom (write_shared E b raw)) (\<lambda>_. t))"
proof (rule rule_write_tree [OF stable_conj [OF stable_at stable_sees] _ len])
  fix d I assume d: "fs_wf E d I" "at_node E (username c) xs n d0 d I \<and> sees E ch d1 d I"
  have at: "at_node E (username c) xs n d0 d I" and un: "untouched E d1 d ch" using d(2) by (simp_all add: sees_def)
  note a = at_node_facts [OF d(1) at] and cd = deleting_at [OF c d(1) at]
  note same = untouched_same [OF un] and chd = deleting_child [OF cd d(1) a(1)]
  let ?d = "upd E d b raw"
  have leaf: "is_dir E d ch \<longrightarrow> dir_entries E d ch = []" using ch(2) same by (simp add: dir_entries_def)
  note w = r [OF d(1) cd chd(5,3,4) leaf a(2)]
  have out: "blk E ?d y = blk E d y" if "y \<notin> set (owned E d n)" for y using that w len by auto
  have tw: "tree_write E g d I n ?d (I - {ch}) {ch} {} (set freed \<union> set (owned E d ch))"
    by (rule tree_write_unlink [OF d(1) chd(5,3,4) _ _ out]) (use w leaf g chd(4) in auto)
  have "spec_request True c (abs_fs E d) = (Some [], abs_fs E ?d)"
    unfolding delete_spec [OF cd d(1) a(1)] using w ch same by auto
  then have cm: "commits c g (g\<lparr>phase := Committed True (Some [])\<rparr>) (abs_fs E d) (abs_fs E ?d)"
    by (rule commitsI [rotated 2]) (use g(2) in simp_all)
  have at': "at_node E (username c) xs n ?d ?d (I - {ch})"
    by (rule at_node_after [OF d(1) a(1) tw]) (use chd(4) in simp)
  have sees': "sees E ch d1 ?d (I - {ch})"
    unfolding sees_def by (rule untouched_trans [OF un]) (use w chd(3,4) keepsD(1) [of E d ?d I n "{ch}" ch] in simp)
  have "set (owned E d0 n) \<inter> set (owned E d1 ch) = {}"
    using fs_wf_disjoint(1) [OF d(1) chd(5,3)] chd(4) a(8) same(2) by auto
  note sf = t [OF this, of ?d]
  then have "safe E V c post (g\<lparr>fresh := {}, limbo := set freed \<union> set (owned E d ch), phase := Committed True (Some [])\<rparr>)
        (\<lambda>d I. at_node E (username c) xs n ?d d I \<and> sees E ch d1 d I) t" using same by simp
  then show "\<exists>I' C fr li ph Q'. b < FS_DISKSIZE \<and> tree_write E g d I n ?d I' C fr li \<and>
        commits c g (g\<lparr>phase := ph\<rparr>) (abs_fs E d) (abs_fs E ?d) \<and> Q' ?d I' \<and>
        safe E V c post (g\<lparr>fresh := fr, limbo := li, phase := ph\<rparr>) Q' t"
    using w tw cm at' sees'
    by (intro exI [of _ "I - {ch}"] exI [of _ "{ch}"] exI [of _ "{}"] exI [of _ "set freed \<union> set (owned E d ch)"]
      exI [of _ "Committed True (Some [])"] exI [of _ "\<lambda>d I. at_node E (username c) xs n ?d d I \<and> sees E ch d1 d I"]) simp
qed (use g ne in auto)

lemma remove_entry_safe:
  assumes c: "deleting E c xs x n ch i k j es d0" and ne: "ch \<noteq> n"
    and g: "held g = [n \<mapsto> Wr, ch \<mapsto> Up]" "wants g = None" "phase g = Pending" "private_blocks g = {}"
    and ch: "owner_at E d1 ch = username c" "is_dir E d1 ch \<Longrightarrow> inode_blocks E d1 ch = []"
    and t: "\<And>d' g'. held g' = [n \<mapsto> Wr, ch \<mapsto> Up] \<Longrightarrow> wants g' = None \<Longrightarrow> fresh g' = {} \<Longrightarrow> limbo g' = set (owned E d1 ch) \<Longrightarrow>
      phase g' = Committed True (Some []) \<Longrightarrow> safe E V c post g' (\<lambda>d I. at_node E (username c) xs n d' d I \<and> sees E ch d1 d I) t"
  shows "safe E V c post g (\<lambda>d I. at_node E (username c) xs n d0 d I \<and> sees E ch d1 d I)
    (bindt (remove_entry_t E n i k j es) (\<lambda>_. t))"
proof -
  note cd = deletingD [OF c]
  let ?b = "i_blocks i ! k" and ?es = "es[j := zero_direntry]"
  have len: "length (i_blocks i) = FS_MAXFILEBLOCKS" using cd(2,3) by simp
  have jl: "j < length es" and kl: "k < length (i_blocks i)" using cd(4,6,8) len by (simp_all add: entry_at_def)
  show ?thesis
  proof (cases "used_entries ?es = []")
    case True
    obtain bs where bs: "shift_blocks (i_blocks i) [k..<i_size i - 1] = Inr bs" "length bs = length (i_blocks i)"
      "set bs \<subseteq> set (i_blocks i)"
      "take (i_size i - 1) bs = take k (take (i_size i) (i_blocks i)) @ drop (Suc k) (take (i_size i) (i_blocks i))"
      using shift_blocks_take [OF cd(4)] cd(8) len by metis
    let ?raw = "encode_inode (i\<lparr>i_blocks := bs, i_size := i_size i - 1\<rparr>)"
    have fit: "inode_fits (i\<lparr>i_blocks := bs, i_size := i_size i - 1\<rparr>)"
      using inode_fits_at [OF cd(2), of d0] cd(3) bs(2,3) by (auto simp: inode_fits_def)
    have "safe E V c post g (\<lambda>d I. at_node E (username c) xs n d0 d I \<and> sees E ch d1 d I)
      (bindt (atom (write_shared E n ?raw)) (\<lambda>_. bindt (atom (free_section ?b)) (\<lambda>_. t)))"
    proof (rule unlink_write_safe [OF c ne g(1,3,4) ch length_encode_inode [OF fit], where freed = "[?b]"])
      fix d I assume h: "fs_wf E d I" "deleting E c xs x n ch i k j es d" "n \<in> I" "ch \<in> I" "ch \<noteq> n"
        "is_dir E d ch \<longrightarrow> dir_entries E d ch = []" "walk E d 0 xs = Some n"
      note e = deletingD [OF h(2)]
      note rw = remove_whole_block [OF h(1,3) e(1,3,4) refl e(6,7) [unfolded e(5)] h(5,6) True [unfolded e(5)] bs(2-) refl]
      show "n < FS_DISKSIZE \<and> n \<in> set (owned E d n) \<and> leaf_removed E d (upd E d n ?raw) I n ch [?b] \<and>
        keeps E d (upd E d n ?raw) I n {ch} \<and> abs_fs E (upd E d n ?raw) = (abs_fs E d)(xs @ [x] := None)"
        using cd(2) rw(1) rw(2) [OF h(4)] rw(3) [OF h(7)] by simp
    next
      fix d' assume dj: "set (owned E d0 n) \<inter> set (owned E d1 ch) = {}"
      let ?g = "g\<lparr>fresh := {}, limbo := set [?b] \<union> set (owned E d1 ch), phase := Committed True (Some [])\<rparr>"
      have bn: "?b \<notin> set (owned E d1 ch)" using dj inode_blocks_owned [OF cd(9)] by blast
      show "safe E V c post ?g (\<lambda>d I. at_node E (username c) xs n d' d I \<and> sees E ch d1 d I)
          (bindt (atom (free_section ?b)) (\<lambda>_. t))"
      proof (rule rule_free)
        show "stable E ?g (\<lambda>d I. at_node E (username c) xs n d' d I \<and> sees E ch d1 d I)"
          by (rule stable_conj [OF stable_at stable_sees]) (use g ne in auto)
        fix d I m assume d: "fs_wf E d I" "at_node E (username c) xs n d' d I \<and> sees E ch d1 d I"
          "held ?g m \<in> {Some Up, Some Wr}" "m \<notin> I"
        have "n \<in> I" using at_node_facts(3) [OF d(1)] d(2) by blast
        then have "m = ch" using d(3,4) g(1) by (auto split: if_splits)
        moreover have "owned E d ch = owned E d1 ch" using d(2) untouched_same(2) [of E d1 d ch] by (simp add: sees_def)
        ultimately show "?b \<notin> set (owned E d m)" using bn by simp
      qed (use g bn in \<open>auto intro!: t\<close>)
    qed
    then show ?thesis using jl kl bs(1) True
      by (simp add: remove_entry_t_def is_block_empty_iff seqt_def bindt_assoc)
  next
    case False
    let ?raw = "encode_dir ?es"
    have fit: "dir_fits ?es" using dir_fits_at [OF cd(10)] zero_block_props(5) cd(5) by (simp add: dir_fits_update)
    have "safe E V c post g (\<lambda>d I. at_node E (username c) xs n d0 d I \<and> sees E ch d1 d I)
      (bindt (atom (write_shared E ?b ?raw)) (\<lambda>_. t))"
    proof (rule unlink_write_safe [OF c ne g(1,3,4) ch length_encode_dir [OF fit], where freed = "[]"])
      fix d I assume h: "fs_wf E d I" "deleting E c xs x n ch i k j es d" "n \<in> I" "ch \<in> I" "ch \<noteq> n"
        "is_dir E d ch \<longrightarrow> dir_entries E d ch = []" "walk E d 0 xs = Some n"
      note e = deletingD [OF h(2)]
      note rb = remove_in_block [OF h(1,3) e(1,9) e(6,7) [unfolded e(5)] h(5,6) False [unfolded e(5)] refl, folded e(5)]
      show "?b < FS_DISKSIZE \<and> ?b \<in> set (owned E d n) \<and> leaf_removed E d (upd E d ?b ?raw) I n ch [] \<and>
        keeps E d (upd E d ?b ?raw) I n {ch} \<and> abs_fs E (upd E d ?b ?raw) = (abs_fs E d)(xs @ [x] := None)"
        using cd(10) inode_blocks_owned [OF e(9)] rb(1) rb(2) [OF h(4)] rb(3) [OF h(7)] by simp
    qed (use g in \<open>auto intro!: t\<close>)
    then show ?thesis using jl kl False by (simp add: remove_entry_t_def is_block_empty_iff)
  qed
qed

subsection \<open>Freeing the blocks of the child\<close>

lemma free_blocks_safe:
  assumes "\<forall>m \<in> set is. m < length bs" and "distinct (map ((!) bs) is)"
    and "limbo g = (!) bs ` set is" and g: "held g = [ch \<mapsto> Dead]" "wants g = None" "fresh g = {}" "phase g = ph"
    and k: "\<And>g'. holds [ch \<mapsto> Dead] ph g' \<Longrightarrow> safe E V c post g' (\<lambda>_ _. True) (k ())"
  shows "safe E V c post g (\<lambda>_ _. True) (bindt (free_file_blocks_t bs is) k)"
  using assms(1-3) g
proof (induction "is" arbitrary: g)
  case Nil
  then show ?case using k by (simp add: holds_def)
next
  case (Cons m ms)
  let ?g = "g\<lparr>limbo := limbo g - {bs ! m}\<rparr>"
  have "limbo ?g = (!) bs ` set ms" using Cons.prems(2,3) by auto
  then have "safe E V c post ?g (\<lambda>_ _. True) (bindt (free_file_blocks_t bs ms) k)"
    by (intro Cons.IH) (use Cons.prems in auto)
  then have "safe E V c post g (\<lambda>_ _. True) (bindt (atom (free_section (bs ! m))) (\<lambda>_. bindt (free_file_blocks_t bs ms) k))"
    by (intro rule_free) (use Cons.prems in \<open>auto split: if_splits\<close>)
  then show ?case using Cons.prems(1) by (simp add: seqt_def bindt_assoc)
qed

lemma delete_end_safe:
  assumes g: "held g = [n \<mapsto> Wr, ch \<mapsto> Up]" "wants g = None" "fresh g = {}" "limbo g = set (owned E d1 ch)"
      "phase g = Committed True (Some [])" and ne: "ch \<noteq> n"
    and wf: "fs_wf E d1 I1" "ch \<in> I1" and ci: "ci = inode_at E d1 ch"
    and leaf: "is_dir E d1 ch \<Longrightarrow> inode_blocks E d1 ch = []"
  shows "safe E V c finished g (\<lambda>d I. at_node E u xs n d' d I \<and> sees E ch d1 d I)
    (bindt (upgrade_to_write_lock_t E ch) (\<lambda>_. bindt (unlock_inode_write_t E n) (\<lambda>_.
     bindt (atom (free_section ch)) (\<lambda>_.
     bindt (if i_type ci = CHR ''f'' then free_file_blocks_t (i_blocks ci) [0..<i_size ci] else rett ()) (\<lambda>_.
     bindt (unlock_inode_write_t E ch) (\<lambda>_. Done (Inr [])))))))"
proof -
  let ?Q = "\<lambda>d I. at_node E u xs n d' d I \<and> sees E ch d1 d I"
  have less: "ch < FS_DISKSIZE" by (rule fs_wf_inode_less [OF wf])
  have ok: "i_size ci \<le> FS_MAXFILEBLOCKS" "distinct (owned E d1 ch)" "i_type ci = CHR ''f'' \<longleftrightarrow> \<not> is_dir E d1 ch"
    using fs_wf_inode [OF wf] ci by (auto simp: inode_ok_def is_dir_def)
  have len: "length (i_blocks ci) = FS_MAXFILEBLOCKS" using less ci by simp
  have mapb: "map ((!) (i_blocks ci)) [0..<i_size ci] = inode_blocks E d1 ch"
    using map_nth_take [of "i_size ci" "i_blocks ci" "\<lambda>b. b"] ok(1) len ci by (simp add: inode_blocks_def)
  have unlock: "safe E V c finished g' (\<lambda>_ _. True) (bindt (unlock_inode_write_t E ch) (\<lambda>_. Done (Inr [])))"
    if "holds [ch \<mapsto> Dead] (Committed True (Some [])) g'" for g'
    unfolding unlock_inode_write_t_def by (rule rule_last_unlock [OF _ that]) simp_all
  have free: "safe E V c finished g' (\<lambda>_ _. True) (bindt (atom (free_section ch)) (\<lambda>_.
     bindt (if i_type ci = CHR ''f'' then free_file_blocks_t (i_blocks ci) [0..<i_size ci] else rett ()) (\<lambda>_.
     bindt (unlock_inode_write_t E ch) (\<lambda>_. Done (Inr [])))))"
    if g': "held g' = [ch \<mapsto> Dead]" "wants g' = None" "fresh g' = {}" "limbo g' = set (owned E d1 ch)"
      "phase g' = Committed True (Some [])" for g' :: ghost
  proof (rule rule_free)
    let ?g = "g'\<lparr>limbo := limbo g' - {ch}\<rparr>"
    have lim: "limbo ?g = set (inode_blocks E d1 ch)" using g'(4) ok(2) by (auto simp: owned_def)
    show "safe E V c finished ?g (\<lambda>_ _. True)
      (bindt (if i_type ci = CHR ''f'' then free_file_blocks_t (i_blocks ci) [0..<i_size ci] else rett ()) (\<lambda>_.
       bindt (unlock_inode_write_t E ch) (\<lambda>_. Done (Inr []))))"
    proof (cases "is_dir E d1 ch")
      case True
      then have "holds [ch \<mapsto> Dead] (Committed True (Some [])) ?g" using lim leaf g' by (simp add: holds_def)
      then show ?thesis using unlock True ok(3) by simp
    next
      case False
      have "safe E V c finished ?g (\<lambda>_ _. True) (bindt (free_file_blocks_t (i_blocks ci) [0..<i_size ci]) (\<lambda>_.
          bindt (unlock_inode_write_t E ch) (\<lambda>_. Done (Inr []))))"
      proof (rule free_blocks_safe [where ph = "Committed True (Some [])"])
        show "\<forall>m \<in> set [0..<i_size ci]. m < length (i_blocks ci)" using ok(1) len by simp
        show "distinct (map ((!) (i_blocks ci)) [0..<i_size ci])" unfolding mapb using ok(2) by (simp add: owned_def)
        show "limbo ?g = (!) (i_blocks ci) ` set [0..<i_size ci]" unfolding lim mapb [symmetric] by simp
      qed (use g' unlock in simp_all)
      then show ?thesis using False ok(3) by simp
    qed
  qed (use g' in \<open>auto split: if_splits\<close>)
  have st: "stable E g' ?Q" if "held g' = held g" for g' :: ghost
    by (rule stable_conj [OF stable_at stable_sees]) (use that g(1) ne in auto)
  have acq: "safe E V c finished (wishes g ch Wr a (xs @ [x])) ?Q
    (bindt (atom (acquire (sm_unlock_upgrade_and_lock E) a)) (\<lambda>_. bindt (unlock_inode_write_t E n) (\<lambda>_.
     bindt (atom (free_section ch)) (\<lambda>_.
     bindt (if i_type ci = CHR ''f'' then free_file_blocks_t (i_blocks ci) [0..<i_size ci] else rett ()) (\<lambda>_.
     bindt (unlock_inode_write_t E ch) (\<lambda>_. Done (Inr [])))))))" for a x
  proof (rule rule_upgrade [where md = Dead and b = ch])
    show "stable E (wishes g ch Wr a (xs @ [x])) ?Q" by (rule st) simp
    let ?g = "takes_lock (wishes g ch Wr a (xs @ [x])) ch Dead"
    fix d I assume d: "fs_wf E d I" "?Q d I"
    show "waits_at E (wishes g ch Wr a (xs @ [x])) d \<and> (Dead = Wr \<longrightarrow> ch \<in> I)"
      using at_node_walk [of u xs n d' d I] d(2) g(1,4) ne by (auto simp: waits_at_def)
    have sf: "safe E V c finished ?g (at_node E u xs n d') (bindt (unlock_inode_write_t E n) (\<lambda>_.
       bindt (atom (free_section ch)) (\<lambda>_.
       bindt (if i_type ci = CHR ''f'' then free_file_blocks_t (i_blocks ci) [0..<i_size ci] else rett ()) (\<lambda>_.
       bindt (unlock_inode_write_t E ch) (\<lambda>_. Done (Inr []))))))"
      unfolding unlock_inode_write_t_def [of E n]
    proof (rule rule_unlock [where Q' = "\<lambda>_ _. True"])
      show "stable E ?g (at_node E u xs n d')" by (rule stable_at) (use g(1) ne in auto)
      have "held (gives_lock ?g n) = [ch \<mapsto> Dead]" using g(1) ne by auto
      then show "safe E V c finished (gives_lock ?g n) (\<lambda>_ _. True) (bindt (atom (free_section ch)) (\<lambda>_.
       bindt (if i_type ci = CHR ''f'' then free_file_blocks_t (i_blocks ci) [0..<i_size ci] else rett ()) (\<lambda>_.
       bindt (unlock_inode_write_t E ch) (\<lambda>_. Done (Inr [])))))"
        by (rule free) (use g in simp_all)
      show "n \<in> I" if "fs_wf E d I" "at_node E u xs n d' d I" for d I using at_node_facts(3) [OF that] .
    qed (use g ne in auto)
    show "\<exists>Q'. Q' d I \<and> safe E V c finished ?g Q' (bindt (unlock_inode_write_t E n) (\<lambda>_.
       bindt (atom (free_section ch)) (\<lambda>_.
       bindt (if i_type ci = CHR ''f'' then free_file_blocks_t (i_blocks ci) [0..<i_size ci] else rett ()) (\<lambda>_.
       bindt (unlock_inode_write_t E ch) (\<lambda>_. Done (Inr []))))))"
      using sf d(2) by blast
  qed simp_all
  show ?thesis unfolding upgrade_to_write_lock_t_def bindt_assoc
    by (rule rule_find_user [OF st [OF refl] g(2) _ acq]) (simp add: g(1))
qed

subsection \<open>The child\<close>

text \<open>Both locks are given back when the child cannot be deleted.\<close>

lemma delete_refused_safe:
  assumes g: "holds [n \<mapsto> Wr, ch \<mapsto> Up] (Committed True None) g" and ne: "ch \<noteq> n" and msg: "msg \<notin> no_space"
  shows "safe E V c finished g (\<lambda>d I. at_node E u xs n d0 d I \<and> at_node E u ys ch d1 d I)
    (bindt (unlock_inode_write_t E n) (\<lambda>_. bindt (unlock_inode_upgrade_t E ch) (\<lambda>_. Done (Inl (Runtime_error msg)))))"
  unfolding unlock_inode_write_t_def
proof (rule rule_unlock [where Q' = "at_node E u ys ch d1"])
  note h = holdsD [OF g]
  show "stable E g (\<lambda>d I. at_node E u xs n d0 d I \<and> at_node E u ys ch d1 d I)"
    by (rule stable_conj [OF stable_at stable_at]) (use h ne in auto)
  have "held (gives_lock g n) = [ch \<mapsto> Up]" using h(1) ne by auto
  then have g': "holds [ch \<mapsto> Up] (Committed True None) (gives_lock g n)" using h by (simp add: holds_def)
  have "stable E (gives_lock g n) (at_node E u ys ch d1)" by (rule stable_at) (use holdsD [OF g'] in simp)
  then show "safe E V c finished (gives_lock g n) (at_node E u ys ch d1)
      (bindt (unlock_inode_upgrade_t E ch) (\<lambda>_. Done (Inl (Runtime_error msg))))"
    unfolding unlock_inode_upgrade_t_def by (rule rule_last_unlock [OF _ g']) (use at_node_facts(3) msg in auto)
  show "n \<in> I" if "fs_wf E d I" "at_node E u xs n d0 d I \<and> at_node E u ys ch d1 d I" for d I
    using at_node_facts(3) [OF that(1)] that(2) by blast
qed (use holdsD [OF g] ne in auto)

lemma safe_finished_mono:
  assumes "safe E V c finished g Q t" and "\<And>d I. Q' d I \<Longrightarrow> Q d I" and "stable E g Q'"
  shows "safe E V c finished g Q' t"
proof (rule safe_conseq [OF assms])
  show "finished r g Q'" if "t = Done r" for r
    using assms(1) unfolding that by cases (simp add: finished_def)
qed

text \<open>From the lock of the child on.\<close>

lemma delete_locked_safe:
  assumes c: "deleting E c xs x n ch i k j es d1" and wf: "fs_wf E d1 I1"
    and w: "walk_as E d1 (username c) 0 xs = Inr n" and ci: "ci = inode_at E d1 ch"
    and g: "holds [n \<mapsto> Wr, ch \<mapsto> Up]
      (if owner_at E d1 ch \<noteq> username c \<or> is_dir E d1 ch \<and> inode_blocks E d1 ch \<noteq> [] then Committed True None else Pending) g"
  shows "safe E V c finished g (\<lambda>d I. at_node E (username c) xs n d1 d I \<and> at_node E (username c) (xs @ [x]) ch d1 d I)
    (bindt (atom (read_shared E ch)) (\<lambda>raw. let child_inode = decode_inode raw in
     bindt (Done (read_cstr (i_owner child_inode))) (\<lambda>owner.
     if owner \<noteq> username c then
       bindt (unlock_inode_write_t E n) (\<lambda>_. bindt (unlock_inode_upgrade_t E ch) (\<lambda>_.
         Done (Inl (Runtime_error ''User is not owner of the target''))))
     else if i_type child_inode = CHR ''d'' \<and> i_size child_inode \<noteq> 0 then
       bindt (unlock_inode_write_t E n) (\<lambda>_. bindt (unlock_inode_upgrade_t E ch) (\<lambda>_.
         Done (Inl (Runtime_error ''Directory not empty''))))
     else
       bindt (remove_entry_t E n i k j es) (\<lambda>_. bindt (upgrade_to_write_lock_t E ch) (\<lambda>_.
       bindt (unlock_inode_write_t E n) (\<lambda>_. bindt (atom (free_section ch)) (\<lambda>_.
       bindt (if i_type child_inode = CHR ''f''
              then free_file_blocks_t (i_blocks child_inode) [0..<i_size child_inode] else rett ()) (\<lambda>_.
       bindt (unlock_inode_write_t E ch) (\<lambda>_. Done (Inr []))))))))))"
    (is "safe E V c finished g ?Q (bindt _ ?K)")
proof -
  note ch = deleting_child [OF c wf w] and h = holdsD [OF g]
  let ?bad = "owner_at E d1 ch \<noteq> username c \<or> is_dir E d1 ch \<and> inode_blocks E d1 ch \<noteq> []"
  have ok: "NUL \<in> set (i_owner ci)" "i_size ci \<le> FS_MAXFILEBLOCKS" "ch < FS_DISKSIZE"
    using fs_wf_inode [OF wf ch(3)] fs_wf_inode_less [OF wf ch(3)] ci by (auto simp: inode_ok_def)
  have "length (inode_blocks E d1 ch) = i_size ci" using ok(2,3) ci by (simp add: inode_blocks_def)
  then have size0: "inode_blocks E d1 ch = [] \<longleftrightarrow> i_size ci = 0" by auto
  have st: "stable E g ?Q" by (rule stable_conj [OF stable_at stable_at]) (use h ch(4) in auto)
  have body: "safe E V c finished g ?Q (?K (blk E d1 ch))"
  proof (cases ?bad)
    case True
    then have "holds [n \<mapsto> Wr, ch \<mapsto> Up] (Committed True None) g" using g by simp
    note un = delete_refused_safe [OF this ch(4)]
    show ?thesis
      using True ok(1) size0 un [of "''User is not owner of the target''"] un [of "''Directory not empty''"]
      by (auto simp: Let_def inode_at_def [symmetric] ci [symmetric] owner_at_def is_dir_def)
  next
    case False
    let ?t = "bindt (upgrade_to_write_lock_t E ch) (\<lambda>_.
       bindt (unlock_inode_write_t E n) (\<lambda>_. bindt (atom (free_section ch)) (\<lambda>_.
       bindt (if i_type ci = CHR ''f''
              then free_file_blocks_t (i_blocks ci) [0..<i_size ci] else rett ()) (\<lambda>_.
       bindt (unlock_inode_write_t E ch) (\<lambda>_. Done (Inr []))))))"
    have leaf: "owner_at E d1 ch = username c" "is_dir E d1 ch \<Longrightarrow> inode_blocks E d1 ch = []" using False by auto
    have gp: "phase g = Pending" using h(5) False by simp
    have "safe E V c finished g (\<lambda>d I. at_node E (username c) xs n d1 d I \<and> sees E ch d1 d I)
        (bindt (remove_entry_t E n i k j es) (\<lambda>_. ?t))"
      by (rule remove_entry_safe [OF c ch(4) h(1,2) gp h(6) leaf])
        (simp_all only: delete_end_safe [OF _ _ _ _ _ ch(4) wf ch(3) ci leaf(2)])
    then have "safe E V c finished g ?Q (bindt (remove_entry_t E n i k j es) (\<lambda>_. ?t))"
      by (rule safe_finished_mono [OF _ _ st]) (auto simp: at_node_sees)
    moreover have "?K (blk E d1 ch) = bindt (remove_entry_t E n i k j es) (\<lambda>_. ?t)"
      using leaf ok(1) size0
      by (cases "i_type ci = CHR ''d''") (simp_all add: Let_def inode_at_def [symmetric] ci [symmetric] owner_at_def is_dir_def)
    ultimately show ?thesis by simp
  qed
  have "ch < FS_DISKSIZE \<and> blk E d ch = blk E d1 ch" if "?Q d I" for d I
    using that ok(3) inode_in_owned [of ch E d1] by (simp add: at_node_def untouched_def)
  then show ?thesis by (rule rule_read [OF st]) (simp_all only: body)
qed

lemma delete_child_safe:
  assumes c: "deleting E c xs x n ch i k j es d0" and wf: "fs_wf E d0 I0" and w: "walk_as E d0 (username c) 0 xs = Inr n"
    and g: "holds [n \<mapsto> Up] Pending g"
  shows "safe E V c finished g (at_node E (username c) xs n d0) (bindt (delete_child_t E c n i k j es) (\<lambda>_. Done (Inr [])))"
proof -
  note h = holdsD [OF g] and cd = deletingD [OF c] and ne = deleting_child(4) [OF c wf w]
  let ?at = "at_node E (username c) xs n d0" and ?u = "username c"
  let ?K = "\<lambda>raw. let child_inode = decode_inode raw in
     bindt (Done (read_cstr (i_owner child_inode))) (\<lambda>owner.
     if owner \<noteq> username c then
       bindt (unlock_inode_write_t E n) (\<lambda>_. bindt (unlock_inode_upgrade_t E ch) (\<lambda>_.
         Done (Inl (Runtime_error ''User is not owner of the target''))))
     else if i_type child_inode = CHR ''d'' \<and> i_size child_inode \<noteq> 0 then
       bindt (unlock_inode_write_t E n) (\<lambda>_. bindt (unlock_inode_upgrade_t E ch) (\<lambda>_.
         Done (Inl (Runtime_error ''Directory not empty''))))
     else
       bindt (remove_entry_t E n i k j es) (\<lambda>_. bindt (upgrade_to_write_lock_t E ch) (\<lambda>_.
       bindt (unlock_inode_write_t E n) (\<lambda>_. bindt (atom (free_section ch)) (\<lambda>_.
       bindt (if i_type child_inode = CHR ''f''
              then free_file_blocks_t (i_blocks child_inode) [0..<i_size child_inode] else rett ()) (\<lambda>_.
       bindt (unlock_inode_write_t E ch) (\<lambda>_. Done (Inr []))))))))"
  have acq: "safe E V c finished (wishes g' ch Up a (xs @ [x])) ?at
      (bindt (atom (acquire (sm_lock_upgrade E) a)) (\<lambda>_. bindt (atom (read_shared E ch)) ?K))"
    if g': "holds [n \<mapsto> Wr] Pending g'" for g' a
  proof (rule rule_acquire [where b = ch and md = Up])
    show "stable E (wishes g' ch Up a (xs @ [x])) ?at" by (rule stable_at) (use holdsD [OF g'] in simp)
    fix d I assume d: "fs_wf E d I" "?at d I"
    note a = at_node_facts [OF d] and cd = deleting_at [OF c d]
    note chd = deleting_child [OF cd d(1) a(1)]
    show "waits_at E (wishes g' ch Up a (xs @ [x])) d \<and> ch \<in> I"
      using chd(2,3) a(2) holdsD [OF g'] by (auto simp: waits_at_def)
    let ?ph = "if owner_at E d ch \<noteq> ?u \<or> is_dir E d ch \<and> inode_blocks E d ch \<noteq> [] then Committed True None else Pending"
    let ?g = "(takes_lock (wishes g' ch Up a (xs @ [x])) ch Up)\<lparr>phase := ?ph\<rparr>"
      and ?Q = "\<lambda>d' I'. at_node E ?u xs n d d' I' \<and> at_node E ?u (xs @ [x]) ch d d' I'"
    have "holds [n \<mapsto> Wr, ch \<mapsto> Up] ?ph ?g" using holdsD [OF g'] by (simp add: holds_def)
    note sf = delete_locked_safe [OF cd d(1) a(1) refl this]
    have "may_commit c (wishes g' ch Up a (xs @ [x])) ?ph (abs_fs E d)"
      using delete_spec [OF cd d(1) a(1), of True] holdsD(5) [OF g'] may_commitI [of "wishes g' ch Up a (xs @ [x])" True c "abs_fs E d" None]
      by (simp add: may_commit_def)
    then show "\<exists>ph Q'. may_commit c (wishes g' ch Up a (xs @ [x])) ph (abs_fs E d) \<and> Q' d I \<and>
      safe E V c finished ((takes_lock (wishes g' ch Up a (xs @ [x])) ch Up)\<lparr>phase := ph\<rparr>) Q'
        (bindt (atom (read_shared E ch)) ?K)"
      using sf a(1) chd(1) by (intro exI [of _ ?ph] exI [of _ ?Q] conjI) (simp_all add: at_node_def)
  qed simp_all
  have reg: "safe E V c finished g' ?at (bindt (atom (register_user E ch)) (\<lambda>a.
      bindt (atom (acquire (sm_lock_upgrade E) a)) (\<lambda>_. bindt (atom (read_shared E ch)) ?K)))"
    if g': "holds [n \<mapsto> Wr] Pending g'" for g'
    by (rule rule_register [OF stable_at _ _ _ acq [OF g']]) (use holdsD [OF g'] ne in simp_all)
  have "safe E V c finished g ?at (bindt (upgrade_to_write_lock_t E n) (\<lambda>_. bindt (atom (register_user E ch)) (\<lambda>a.
      bindt (atom (acquire (sm_lock_upgrade E) a)) (\<lambda>_. bindt (atom (read_shared E ch)) ?K))))"
  proof (rule rule_upgrade_to_write [OF h(1,2)])
    show "stable E g ?at" by (rule stable_at) (simp add: h)
    show "walk E d 0 xs = Some n" if "?at d I" for d I using that by (rule at_node_walk)
    fix g' :: ghost assume "held g' = [n \<mapsto> Wr]" "wants g' = None" "fresh g' = fresh g" "limbo g' = limbo g" "phase g' = phase g"
    then have "holds [n \<mapsto> Wr] Pending g'" using h by (simp add: holds_def)
    then show "safe E V c finished g' ?at (bindt (atom (register_user E ch)) (\<lambda>a.
      bindt (atom (acquire (sm_lock_upgrade E) a)) (\<lambda>_. bindt (atom (read_shared E ch)) ?K)))" by (rule reg)
  qed
  moreover have "bindt (delete_child_t E c n i k j es) (\<lambda>_. Done (Inr ([] :: char list))) =
    bindt (upgrade_to_write_lock_t E n) (\<lambda>_. bindt (atom (register_user E ch)) (\<lambda>a.
      bindt (atom (acquire (sm_lock_upgrade E) a)) (\<lambda>_. bindt (atom (read_shared E ch)) ?K)))"
    using cd(6,7) by (simp add: delete_child_t_def entry_at_def Let_def lock_inode_upgrade_t_def seqt_def bindt_assoc
      if_distrib [of "\<lambda>t. bindt t k" for k] haltt_def
      del: bindt.simps cong: if_cong)
  ultimately show ?thesis by (simp only:)
qed

subsection \<open>The request\<close>

lemma delete_scan_safe:
  assumes wf: "fs_wf E d0 I0" "n \<in> I0" and dir: "is_dir E d0 n" and i: "i = inode_at E d0 n" and x: "NUL \<notin> set x"
    and st: "stable E g (at_node E u p n d0)"
    and none: "x \<notin> fst ` set (dir_entries E d0 n) \<Longrightarrow> safe E V c post g (at_node E u p n d0) (t None)"
    and some: "\<And>k j. x \<in> fst ` set (dir_entries E d0 n) \<Longrightarrow> k < i_size i \<Longrightarrow> entry_at (dir_at E d0 (i_blocks i ! k)) j x \<Longrightarrow>
      safe E V c post g (at_node E u p n d0) (t (Some (k, j, dir_at E d0 (i_blocks i ! k))))"
  shows "safe E V c post g (at_node E u p n d0) (bindt (delete_scan_blocks_t E x (i_blocks i) [0..<i_size i]) t)"
proof -
  let ?s = "undefined\<lparr>disk := d0\<rparr> :: ('d, 'm) FileSystem"
  have wf': "fs_wf E (disk ?s) I0" "is_dir E (disk ?s) n" "i = inode_at E (disk ?s) n" using wf dir i by simp_all
  note scan = delete_scan_dir [OF wf'(1) wf(2) wf'(2) x wf'(3)]
  have res: "safe E V c post g (at_node E u p n d0)
      (bindt (Done (fst (delete_scan_blocks E x (i_blocks i) [0..<i_size i] ?s))) t)"
  proof (cases "x \<in> fst ` set (dir_entries E d0 n)")
    case True
    then show ?thesis using scan(2) some by auto
  next
    case False
    then show ?thesis using scan(1) none by simp
  qed
  have rd: "reads E d0 (set (owned E d0 n)) (delete_scan_blocks_t E x (i_blocks i) [0..<i_size i])
      (fst (delete_scan_blocks E x (i_blocks i) [0..<i_size i] ?s))"
    using delete_scan_blocks_reads [OF dir_block_range [OF wf i], of ?s x] by simp
  show ?thesis by (rule safe_reads [OF rd st _ res]) (rule at_node_blk [OF wf])
qed

lemma delete_request_safe:
  assumes ct: "command_type c = FS_DELETE" and p: "path_ok (pathname c) p" and g: "holds Map.empty Pending g"
  shows "safe E V c finished g (\<lambda>_ _. True) (seqt (handle_delete_t E c) (rett []))"
proof -
  obtain xs x where px: "p = xs @ [x]" using p by (cases p rule: rev_cases) (auto simp: path_ok_def)
  have nm: "name_ok x" "NUL \<notin> set x" "\<forall>y \<in> set xs. name_ok y \<and> NUL \<notin> set y" and path: "pathname c = join_path xs @ slash # x"
    using p by (auto simp: path_ok_def px)
  have root: "strcmp_eq (c_str (pathname c)) (c_str [slash]) = Inr False"
  proof -
    have "NUL \<notin> set (pathname c)" using p by (auto simp: path_ok_def name_ok_def join_path_def)
    moreover have "pathname c \<noteq> [slash]" using nm(1) by (cases xs) (auto simp: path name_ok_def)
    ultimately show ?thesis by simp
  qed
  have po: "path_of c = xs @ [x]" using path_of_ok [OF p] px by simp
  have spec: "spec_request sp c A = updated A (spec_delete A (username c) (xs @ [x]))" for sp A
    using ct po by (simp add: spec_request_def)
  let ?k = "\<lambda>n i. bindt (delete_scan_blocks_t E x (i_blocks i) [0..<i_size i]) (\<lambda>r.
     bindt (case r of
       None \<Rightarrow> bindt (unlock_inode_upgrade_t E n) (\<lambda>_. haltt (Runtime_error ''Target does not exist''))
     | Some (k, j, es) \<Rightarrow> delete_child_t E c n i k j es) (\<lambda>_. rett []))"
  have "safe E V c finished g (\<lambda>_ _. True) (bindt (get_parent_inode_and_upgradeable_lock_t E c (join_path xs)) (\<lambda>n.
    bindt (atom (read_shared E n)) (\<lambda>raw. bindt (validate_parent_inode_t E c (join_path xs) (decode_inode raw) n)
      (\<lambda>_. ?k n (decode_inode raw)))))"
  proof (rule rule_open_parent [OF nm(3) g])
    show "spec_request True c (abs_fs E d) = (None, abs_fs E d)" if "\<not> dir_path (abs_fs E d) (username c) xs" for d
      using that by (simp add: spec updated_def spec_delete_def split: option.splits fs_object.splits)
    fix n d I assume d: "fs_wf E d I" "walk_as E d (username c) 0 xs = Inr n" "dir_path (abs_fs E d) (username c) xs"
      "n \<in> I" "is_dir E d n"
    let ?old = "x \<in> fst ` set (dir_entries E d n)" and ?Q = "at_node E (username c) xs n d"
    let ?ph = "if ?old then Pending else Committed True None" and ?i = "inode_at E d n"
    have less: "n < FS_DISKSIZE" "i_size ?i \<le> FS_MAXFILEBLOCKS"
      using fs_wf_inode_less [OF d(1,4)] fs_wf_inode [OF d(1,4)] by (auto simp: inode_ok_def)
    have "safe E V c finished g' ?Q (?k n ?i)" if g': "holds [n \<mapsto> Up] ?ph g'" for g'
    proof (rule delete_scan_safe [OF d(1,4,5) refl nm(2)])
      show st: "stable E g' ?Q" by (rule stable_at) (simp add: holdsD [OF g'])
      assume "\<not> ?old"
      then have "holds [n \<mapsto> Up] (Committed True None) g'" using g' by simp
      note un = rule_last_unlock [where r = None and f = "sm_unlock_upgrade E", OF st this]
      then show "safe E V c finished g' ?Q (bindt (case None of
           None \<Rightarrow> bindt (unlock_inode_upgrade_t E n) (\<lambda>_. haltt (Runtime_error ''Target does not exist''))
         | Some (k, j, es) \<Rightarrow> delete_child_t E c n ?i k j es) (\<lambda>_. rett []))"
        using at_node_facts(3) by (auto simp: unlock_inode_upgrade_t_def bindt_assoc haltt_def)
    next
      fix k j assume old: ?old and kj: "k < i_size ?i" "entry_at (dir_at E d (i_blocks ?i ! k)) j x"
      have gp: "holds [n \<mapsto> Up] Pending g'" using g' old by simp
      have "i_blocks ?i ! k < FS_DISKSIZE"
        using dir_block_range [OF d(1,4) refl] kj(1) by auto
      then have "deleting E c xs x n (de_inode_block (dir_at E d (i_blocks ?i ! k) ! j)) ?i k j (dir_at E d (i_blocks ?i ! k)) d"
        using ct po d(2,3,5) less kj by (auto simp: deleting_def dir_path_iff [OF d(1)])
      from delete_child_safe [OF this d(1,2) gp]
      show "safe E V c finished g' ?Q (bindt (case Some (k, j, dir_at E d (i_blocks ?i ! k)) of
           None \<Rightarrow> bindt (unlock_inode_upgrade_t E n) (\<lambda>_. haltt (Runtime_error ''Target does not exist''))
         | Some (k, j, es) \<Rightarrow> delete_child_t E c n ?i k j es) (\<lambda>_. rett []))"
        by (simp add: rett_def)
    qed
    moreover have "may_commit c idle ?ph (abs_fs E d)"
    proof (cases ?old)
      case False
      then have "abs_fs E d (xs @ [x]) = None" using abs_fs_in_dir [OF walk_as_walk [OF d(2)] d(5)] by blast
      then have "spec_request True c (abs_fs E d) = (None, abs_fs E d)" by (simp add: spec updated_def spec_delete_def)
      then show ?thesis using commit_now False by simp
    qed (simp add: may_commit_def idle_def)
    ultimately show "\<exists>ph. may_commit c idle ph (abs_fs E d) \<and> (\<forall>g'. holds [n \<mapsto> Up] ph g' \<longrightarrow>
        safe E V c finished g' ?Q (?k n ?i))" by blast
  qed
  then show ?thesis using nm(1) root
    by (simp add: handle_delete_t_def path seqt_def bindt_assoc Let_def)
qed

end

end
