(* ===== verification/Transition.thy ===== *)
theory Transition
  imports Prelude
begin

text \<open>
  Transition systems: the states a step relation reaches, and the interface of an inductive invariant.
  The thread library and the applications on top of it are run by such steps, one per critical section.
\<close>

inductive reach :: "'s \<Rightarrow> ('s \<Rightarrow> 'e \<Rightarrow> 's \<Rightarrow> bool) \<Rightarrow> 's \<Rightarrow> bool" for start step where
  reach_start: "reach start step start"
| reach_step: "reach start step s \<Longrightarrow> step s e s' \<Longrightarrow> reach start step s'"

text \<open>An invariant that holds at the start and that every step keeps.\<close>

locale inductive_invariant =
  fixes start :: 's
    and step :: "'s \<Rightarrow> 'e \<Rightarrow> 's \<Rightarrow> bool"
    and inv :: "'s \<Rightarrow> bool"
  assumes inv_start: "inv start"
    and inv_step: "inv s \<Longrightarrow> step s e s' \<Longrightarrow> inv s'"
begin

lemma inv_reach: "reach start step s \<Longrightarrow> inv s"
  by (induction rule: reach.induct) (auto intro: inv_start inv_step)

text \<open>A state property that the invariant and a step relate holds of every step from a reached state.\<close>

lemma step_property:
  assumes "\<And>s e s'. inv s \<Longrightarrow> step s e s' \<Longrightarrow> R s e s'"
    and "reach start step s" and "step s e s'"
  shows "R s e s'"
  using assms inv_reach by blast

end

subsection \<open>Executions and forward simulation\<close>

inductive execution :: "('s \<Rightarrow> 'e \<Rightarrow> 's \<Rightarrow> bool) \<Rightarrow> 's \<Rightarrow> 'e list \<Rightarrow> 's \<Rightarrow> bool" for step s where
  execution_start: "execution step s [] s"
| execution_step: "execution step s es s' \<Longrightarrow> step s' e s'' \<Longrightarrow> execution step s (es @ [e]) s''"

lemma execution_append:
  assumes "execution step s1 fs s2" and "execution step s es s1"
  shows "execution step s (es @ fs) s2"
  using assms
proof (induction rule: execution.induct)
  case (execution_step fs s2 e s3)
  then show ?case using execution.execution_step [of step s "es @ fs" s2 e s3] by simp
qed simp

text \<open>
  The concrete system refines the abstract one: each of its steps is a sequence of abstract steps that shows the
  same events.
\<close>

locale forward_simulation =
  fixes cstep :: "'c \<Rightarrow> 'e \<Rightarrow> 'c \<Rightarrow> bool" and astep :: "'a \<Rightarrow> 'e \<Rightarrow> 'a \<Rightarrow> bool"
    and sim :: "'c \<Rightarrow> 'a \<Rightarrow> bool" and visible :: "'e \<Rightarrow> bool"
  assumes simulate: "sim s a \<Longrightarrow> cstep s e s' \<Longrightarrow>
    \<exists>fs a'. execution astep a fs a' \<and> filter visible fs = filter visible [e] \<and> sim s' a'"
begin

lemma traces:
  assumes "execution cstep s es s'" and "sim s a"
  shows "\<exists>fs a'. execution astep a fs a' \<and> filter visible fs = filter visible es \<and> sim s' a'"
  using assms
proof (induction rule: execution.induct)
  case execution_start
  then show ?case using execution.execution_start by fastforce
next
  case (execution_step es s1 e s2)
  then obtain fs a1 where fs: "execution astep a fs a1" "filter visible fs = filter visible es" "sim s1 a1" by blast
  obtain gs a2 where "execution astep a1 gs a2" "filter visible gs = filter visible [e]" "sim s2 a2"
    using simulate [OF fs(3) execution_step.hyps(2)] by blast
  then show ?case using fs execution_append by (intro exI [of _ "fs @ gs"] exI [of _ a2]) auto
qed

end

end
