(* ===== verification/FS_System.thy ===== *)
theory FS_System
  imports FS_Delete_Threads Transition
begin

text \<open>
  The file server with all its threads.  \<^verbatim>\<open>NetworkServer\<close> starts one thread per connection; here a thread starts with
  the command that it has parsed, runs the handler step by step among the others, and answers with what the handler
  returned.  The system is simulated by one in which every request takes effect in a single step between its
  start and its answer.
\<close>

subsection \<open>The server\<close>

record ('d, 'm) Server =
  sv_command :: "nat \<rightharpoonup> Command"
  sv_task :: "(('d, 'm) Shared, char list) threads"
  sv_shared :: "('d, 'm) Shared"
  sv_answered :: "nat set"

datatype server_event = Start nat Command | Run nat | Answer nat bool "char list option"

text \<open>The commands that the server hands to the file system: they have been parsed, and a write has its block.\<close>

definition issued :: "Command \<Rightarrow> bool" where
  "issued c \<longleftrightarrow> command_ok c \<and> command_type c \<noteq> INVALID \<and>
     (command_type c = FS_WRITEBLOCK \<longrightarrow> length (data c) = FS_BLOCKSIZE)"

text \<open>
  The answer of a handler that returned or threw, and whether it threw for another reason than lack of space;
  anything else ends the server.
\<close>

fun outcome :: "stop + char list \<Rightarrow> (bool \<times> char list option) option" where
  "outcome (Inr x) = Some (True, Some x)"
| "outcome (Inl (Runtime_error msg)) = Some (msg \<notin> no_space, None)"
| "outcome (Inl e) = None"

inductive server_step :: "('d, 'm) fs_env \<Rightarrow> ('d, 'm) Server \<Rightarrow> server_event \<Rightarrow> ('d, 'm) Server \<Rightarrow> bool" for E where
  step_start: "sv_task S i = None \<Longrightarrow> issued c \<Longrightarrow> inode_fits junk \<Longrightarrow>
    server_step E S (Start i c)
      (S\<lparr>sv_command := (sv_command S)(i \<mapsto> c), sv_task := (sv_task S)(i \<mapsto> request_t E junk c)\<rparr>)"
| step_run: "run_thread i (sv_task S, sv_shared S) = Some (ts, s) \<Longrightarrow>
    server_step E S (Run i) (S\<lparr>sv_task := ts, sv_shared := s\<rparr>)"
| step_answer: "sv_task S i = Some (Done r) \<Longrightarrow> outcome r = Some (sp, x) \<Longrightarrow> i \<notin> sv_answered S \<Longrightarrow>
    server_step E S (Answer i sp x) (S\<lparr>sv_answered := insert i (sv_answered S)\<rparr>)"

text \<open>The server before the first connection, on the file system that the constructor made.\<close>

definition server_start :: "('d, 'm) fs_env \<Rightarrow> ('d, 'm) FileSystem \<Rightarrow> ('d, 'm) Server" where
  "server_start E fs =
     \<lparr>sv_command = Map.empty, sv_task = Map.empty,
      sv_shared = \<lparr>sh_disk = disk fs, sh_free = free_block_list fs, sh_map = Map.empty, sh_mutex = (\<lambda>_. sm_new E), sh_next = 0\<rparr>,
      sv_answered = {}\<rparr>"

subsection \<open>The atomic server\<close>

text \<open>
  A request has been made, has taken effect with a result, or has been answered.  \<open>Run i\<close> is the one step in which
  the request of \<open>i\<close> takes effect; \<open>sp\<close> says whether there was space for it, and it is part of the answer: an answer
  with another error than lack of space means that the request fails however much space there is.
\<close>

datatype request_state = Invoked Command | Effective bool "char list option" | Replied

type_synonym atomic = "afs \<times> (nat \<rightharpoonup> request_state)"

inductive atomic_step :: "atomic \<Rightarrow> server_event \<Rightarrow> atomic \<Rightarrow> bool" where
  atomic_start: "P i = None \<Longrightarrow> atomic_step (A, P) (Start i c) (A, P(i \<mapsto> Invoked c))"
| atomic_run: "P i = Some (Invoked c) \<Longrightarrow> spec_request sp c A = (r, A') \<Longrightarrow>
    atomic_step (A, P) (Run i) (A', P(i \<mapsto> Effective sp r))"
| atomic_answer: "P i = Some (Effective sp r) \<Longrightarrow> atomic_step (A, P) (Answer i sp r) (A, P(i \<mapsto> Replied))"

text \<open>What the clients see: the start and the answer of every request.\<close>

fun client_sees :: "server_event \<Rightarrow> bool" where
  "client_sees (Run i) = False"
| "client_sees _ = True"

subsection \<open>The invariant\<close>

text \<open>
  \<open>thread_ok\<close>: a thread that has not started has nothing; the others have a task that is safe for what they own and
  know.
\<close>

definition thread_ok ::
  "('d, 'm) fs_env \<Rightarrow> ('m \<Rightarrow> nat \<times> bool \<times> bool) \<Rightarrow> ('d, 'm) Server \<Rightarrow> nat set \<Rightarrow> (nat \<Rightarrow> ghost) \<Rightarrow> nat \<Rightarrow> bool" where
  "thread_ok E V S I G i \<longleftrightarrow>
     (case sv_task S i of
        None \<Rightarrow> sv_command S i = None \<and> G i = idle
      | Some t \<Rightarrow> \<exists>c Q. sv_command S i = Some c \<and> Q (sh_disk (sv_shared S)) I \<and> safe E V c finished (G i) Q t)"

definition system_inv ::
  "('d, 'm) fs_env \<Rightarrow> ('m \<Rightarrow> nat \<times> bool \<times> bool) \<Rightarrow> ('d, 'm) Server \<Rightarrow> nat set \<Rightarrow> (nat \<Rightarrow> ghost) \<Rightarrow> bool" where
  "system_inv E V S I G \<longleftrightarrow> server_inv E V (sv_shared S) I G \<and> finite (dom (sv_task S)) \<and> (\<forall>i. thread_ok E V S I G i) \<and>
     (\<forall>i \<in> sv_answered S. \<exists>r. sv_task S i = Some (Done r))"

lemma system_invD:
  assumes "system_inv E V S I G"
  shows "server_inv E V (sv_shared S) I G" "finite (dom (sv_task S))"
    "sv_task S i = None \<Longrightarrow> sv_command S i = None \<and> G i = idle \<and> i \<notin> sv_answered S"
    "sv_task S i = Some t \<Longrightarrow> \<exists>c Q. sv_command S i = Some c \<and> Q (sh_disk (sv_shared S)) I \<and> safe E V c finished (G i) Q t"
    "sv_task S i = Some (Step f) \<Longrightarrow> i \<notin> sv_answered S"
proof -
  show "server_inv E V (sv_shared S) I G" "finite (dom (sv_task S))" using assms by (simp_all add: system_inv_def)
  have ok: "thread_ok E V S I G i" and an: "i \<in> sv_answered S \<Longrightarrow> \<exists>r. sv_task S i = Some (Done r)"
    using assms by (simp_all add: system_inv_def)
  show "sv_task S i = None \<Longrightarrow> sv_command S i = None \<and> G i = idle \<and> i \<notin> sv_answered S"
    "sv_task S i = Some t \<Longrightarrow> \<exists>c Q. sv_command S i = Some c \<and> Q (sh_disk (sv_shared S)) I \<and> safe E V c finished (G i) Q t"
    using ok an by (auto simp: thread_ok_def)
  show "sv_task S i = Some (Step f) \<Longrightarrow> i \<notin> sv_answered S" using an by auto
qed

lemma holds_idle: "holds Map.empty Pending idle"
  by (simp add: holds_def idle_def)

context fs_server
begin

lemma request_safe:
  assumes "issued c" and "inode_fits junk"
  shows "safe E V c finished idle (\<lambda>_ _. True) (request_t E junk c)"
proof -
  obtain p where p: "path_ok (pathname c) p" using assms(1) by (auto simp: issued_def command_ok_def)
  have ok: "create_ok c junk" if "command_type c = FS_CREATE"
    using assms that by (simp add: issued_def command_ok_def create_ok_def)
  show ?thesis
    using assms(1) ok read_request_safe [OF _ p holds_idle] write_request_safe [OF _ p _ holds_idle]
      create_request_safe [OF _ p _ holds_idle] delete_request_safe [OF _ p holds_idle]
    by (cases "command_type c") (simp_all add: request_t_def issued_def)
qed

lemma server_start_inv:
  assumes "quiescent E fs I"
  shows "system_inv E V (server_start E fs) I (\<lambda>_. idle)"
proof -
  have "lock_inv V (sv_shared (server_start E fs)) (\<lambda>_. idle)"
    by (simp add: lock_inv_def server_start_def idle_def wish_ok_def entry_ok_def users_def registered_def
        readers_def upgraders_def writers_def)
  moreover have "block_inv E (sv_shared (server_start E fs)) I (\<lambda>_. idle)"
    using assms by (simp add: block_inv_def server_start_def idle_def private_blocks_def quiescent_def)
  ultimately show ?thesis by (simp add: system_inv_def server_inv_def thread_ok_def server_start_def)
qed

text \<open>A step of one thread: the others know afterwards what they knew before.\<close>

lemma task_step_keeps:
  assumes inv: "system_inv E V S I G" and r: "run_thread i (sv_task S, sv_shared S) = Some (ts, s')"
  shows "\<exists>I' g' c. sv_command S i = Some c \<and> system_inv E V (S\<lparr>sv_task := ts, sv_shared := s'\<rparr>) I' (G(i := g')) \<and>
    commits c (G i) g' (abs_fs E (sh_disk (sv_shared S))) (abs_fs E (sh_disk s'))"
proof -
  obtain f t where t: "sv_task S i = Some (Step f)" "f (sv_shared S) = Some (t, s')" "ts = (sv_task S)(i \<mapsto> t)"
    using r by (auto simp: run_thread_def split: option.splits task.splits)
  have sinv: "server_inv E V (sv_shared S) I G" and ok: "\<And>j. thread_ok E V S I G j"
    using inv by (simp_all add: system_inv_def)
  obtain c Q where c: "sv_command S i = Some c" "Q (sh_disk (sv_shared S)) I" "safe E V c finished (G i) Q (Step f)"
    using ok [of i] t(1) by (auto simp: thread_ok_def)
  from c(3) obtain g' I' Q' where g': "server_inv E V s' I' (G(i := g'))"
      "\<forall>j. j \<noteq> i \<longrightarrow> rely E (G j) (sh_disk (sv_shared S)) I (sh_disk s') I'"
      "commits c (G i) g' (abs_fs E (sh_disk (sv_shared S))) (abs_fs E (sh_disk s'))"
      "Q' (sh_disk s') I'" "safe E V c finished g' Q' t"
  proof cases
    case safe_Step
    then show ?thesis using that sinv c(2) t(2) by blast
  qed
  let ?S = "S\<lparr>sv_task := ts, sv_shared := s'\<rparr>"
  have "thread_ok E V ?S I' (G(i := g')) j" for j
  proof (cases "j = i")
    case True
    then show ?thesis using c(1) g'(4,5) t(3) by (auto simp: thread_ok_def)
  next
    case False
    show ?thesis
    proof (cases "sv_task S j")
      case None
      then show ?thesis using ok [of j] False t(3) by (simp add: thread_ok_def)
    next
      case (Some u)
      then obtain d R where R: "sv_command S j = Some d" "R (sh_disk (sv_shared S)) I" "safe E V d finished (G j) R u"
        using ok [of j] by (auto simp: thread_ok_def)
      have "R (sh_disk s') I'" using safe_stable [OF R(3)] R(2) g'(2) False unfolding stable_def by blast
      then show ?thesis using R False Some t(3) by (auto simp: thread_ok_def)
    qed
  qed
  moreover have "finite (dom ts)" using inv t(3) by (simp add: system_inv_def)
  moreover have "\<forall>j \<in> sv_answered S. \<exists>r. ts j = Some (Done r)" using inv t(1,3) by (fastforce simp: system_inv_def)
  ultimately have "system_inv E V ?S I' (G(i := g'))" using g'(1) by (simp add: system_inv_def)
  then show ?thesis using c(1) g'(3) by blast
qed

lemma done_finished:
  assumes "system_inv E V S I G" and "sv_task S i = Some (Done r)"
  shows "\<exists>Q. finished r (G i) (Q :: 'd assertion)" "\<exists>sp x. outcome r = Some (sp, x) \<and> phase (G i) = Committed sp x" "wants (G i) = None"
    "r \<noteq> Inl (Runtime_error ''Not enough disk space for create'') \<Longrightarrow> held (G i) = Map.empty"
proof -
  obtain c Q where "safe E V c finished (G i) Q (Done r)"
    using system_invD(4) [OF assms] by blast
  then have f: "finished r (G i) Q" by cases
  then show "\<exists>Q. finished r (G i) (Q :: 'd assertion)" by blast
  show "\<exists>sp x. outcome r = Some (sp, x) \<and> phase (G i) = Committed sp x"
    using f by (cases r rule: outcome.cases) (auto simp: finished_def)
  show "wants (G i) = None" using f by (simp add: finished_def)
  show "held (G i) = Map.empty" if "r \<noteq> Inl (Runtime_error ''Not enough disk space for create'')"
    using f that by (cases r rule: outcome.cases) (auto simp: finished_def)
qed

lemma start_keeps:
  assumes inv: "system_inv E V S I G" and i: "sv_task S i = None" and c: "issued c" "inode_fits junk"
  shows "system_inv E V
    (S\<lparr>sv_command := (sv_command S)(i \<mapsto> c), sv_task := (sv_task S)(i \<mapsto> request_t E junk c)\<rparr>) I G"
    (is "system_inv E V ?S I G")
proof -
  have "thread_ok E V ?S I G j" for j
  proof (cases "j = i")
    case True
    have "G i = idle" using system_invD(3) [OF inv i] by simp
    then show ?thesis using request_safe [OF c] True by (auto simp: thread_ok_def)
  next
    case False
    have "thread_ok E V S I G j" using inv by (simp add: system_inv_def)
    then show ?thesis using False by (cases "sv_task S j") (simp_all add: thread_ok_def)
  qed
  then show ?thesis using inv i by (auto simp: system_inv_def)
qed

end

subsection \<open>Simulation by the atomic server\<close>

definition request_state :: "ghost \<Rightarrow> Command \<Rightarrow> request_state" where
  "request_state g c = (case phase g of Pending \<Rightarrow> Invoked c | Committed sp r \<Rightarrow> Effective sp r)"

definition requests :: "('d, 'm) Server \<Rightarrow> (nat \<Rightarrow> ghost) \<Rightarrow> nat \<rightharpoonup> request_state" where
  "requests S G i = map_option (\<lambda>c. if i \<in> sv_answered S then Replied else request_state (G i) c) (sv_command S i)"

definition linearizes :: "('d, 'm) fs_env \<Rightarrow> ('m \<Rightarrow> nat \<times> bool \<times> bool) \<Rightarrow> ('d, 'm) Server \<Rightarrow> atomic \<Rightarrow> bool" where
  "linearizes E V S a \<longleftrightarrow>
     (\<exists>I G. system_inv E V S I G \<and> a = (abs_fs E (sh_disk (sv_shared S)), requests S G))"

lemma single_step: "step s e s' \<Longrightarrow> execution step s [e] s'"
  using execution_step [OF execution_start, of step s e s'] by simp

context fs_server
begin

lemma run_linearizes:
  assumes inv: "system_inv E V S I G" and r: "run_thread i (sv_task S, sv_shared S) = Some (ts, s')"
  shows "\<exists>fs a'. execution atomic_step (abs_fs E (sh_disk (sv_shared S)), requests S G) fs a' \<and>
    filter client_sees fs = [] \<and> linearizes E V (S\<lparr>sv_task := ts, sv_shared := s'\<rparr>) a'"
proof -
  let ?S = "S\<lparr>sv_task := ts, sv_shared := s'\<rparr>" and ?A = "abs_fs E (sh_disk (sv_shared S))" and ?A' = "abs_fs E (sh_disk s')"
  obtain I' g' c where g': "sv_command S i = Some c" "system_inv E V ?S I' (G(i := g'))" "commits c (G i) g' ?A ?A'"
    using task_step_keeps [OF inv r] by blast
  have lin: "linearizes E V ?S (?A', requests ?S (G(i := g')))" unfolding linearizes_def using g'(2) by auto
  have na: "i \<notin> sv_answered S"
    using r system_invD(5) [OF inv, of i] by (auto simp: run_thread_def split: option.splits task.splits)
  have req: "requests ?S (G(i := g')) = (requests S G)(i \<mapsto> request_state g' c)"
    using g'(1) na by (auto simp: requests_def fun_eq_iff cong: if_cong)
  from g'(3) consider "phase g' = phase (G i)" "?A' = ?A"
    | x sp where "phase (G i) = Pending" "phase g' = Committed sp x" "spec_request sp c ?A = (x, ?A')"
    unfolding commits_def by blast
  then show ?thesis
  proof cases
    case 1
    then have "requests ?S (G(i := g')) = requests S G"
      unfolding req using g'(1) na by (auto simp: requests_def request_state_def fun_eq_iff)
    then show ?thesis using lin 1(2) execution_start by (intro exI [of _ "[]"] exI) auto
  next
    case 2
    have "requests S G i = Some (Invoked c)" using g'(1) na 2(1) by (simp add: requests_def request_state_def)
    note st = atomic_run [where P = "requests S G", OF this 2(3)]
    have "request_state g' c = Effective sp x" using 2(2) by (simp add: request_state_def)
    then show ?thesis using lin single_step [of atomic_step, OF st] unfolding req by (intro exI [of _ "[Run i]"] exI) auto
  qed
qed

lemma step_linearizes:
  assumes "linearizes E V S a" and "server_step E S e S'"
  shows "\<exists>fs a'. execution atomic_step a fs a' \<and> filter client_sees fs = filter client_sees [e] \<and> linearizes E V S' a'"
proof -
  let ?A = "abs_fs E (sh_disk (sv_shared S))"
  obtain I G where inv: "system_inv E V S I G" and a: "a = (?A, requests S G)" using assms(1) by (auto simp: linearizes_def)
  from assms(2) show ?thesis
  proof cases
    case 1: (step_start i c junk)
    have none: "sv_command S i = None" "i \<notin> sv_answered S" "G i = idle"
      using system_invD(3) [OF inv 1(3)] by simp_all
    have "requests S G i = None" using none by (simp add: requests_def)
    note st = atomic_start [where P = "requests S G", OF this, of ?A c]
    have "requests S' G = (requests S G)(i \<mapsto> Invoked c)"
      unfolding 1(2) using none by (auto simp: requests_def request_state_def idle_def fun_eq_iff)
    moreover have "system_inv E V S' I G" unfolding 1(2) by (rule start_keeps [OF inv 1(3-5)])
    ultimately have "linearizes E V S' (?A, (requests S G)(i \<mapsto> Invoked c))"
      unfolding linearizes_def 1(2) by (intro exI [of _ I] exI [of _ G]) simp
    then show ?thesis using single_step [of atomic_step, OF st] a 1(1) by (intro exI [of _ "[Start i c]"] exI) auto
  next
    case 2: (step_run i ts s)
    then show ?thesis using run_linearizes [OF inv 2(3)] a by simp
  next
    case 3: (step_answer i r sp x)
    have ph: "phase (G i) = Committed sp x" using done_finished(2) [OF inv 3(3)] 3(4) by auto
    obtain c where c: "sv_command S i = Some c" using system_invD(4) [OF inv 3(3)] by blast
    have "requests S G i = Some (Effective sp x)" using c 3(5) ph by (simp add: requests_def request_state_def)
    note st = atomic_answer [where P = "requests S G", OF this, of ?A]
    have "requests S' G = (requests S G)(i \<mapsto> Replied)" unfolding 3(2) using c by (auto simp: requests_def fun_eq_iff)
    moreover have "thread_ok E V S' I G = thread_ok E V S I G"
      unfolding 3(2) by (simp add: thread_ok_def fun_eq_iff cong: option.case_cong)
    then have "system_inv E V S' I G" using inv 3(2,3) by (simp add: system_inv_def)
    ultimately have "linearizes E V S' (?A, (requests S G)(i \<mapsto> Replied))"
      unfolding linearizes_def 3(2) by (intro exI [of _ I] exI [of _ G]) simp
    then show ?thesis using single_step [of atomic_step, OF st] a 3(1) by (intro exI [of _ "[Answer i sp x]"] exI) auto
  qed
qed

end

sublocale fs_server \<subseteq> atomic: forward_simulation "server_step E" atomic_step "linearizes E V" client_sees
  by unfold_locales (rule step_linearizes)

context fs_server
begin

lemma server_start_linearizes: "quiescent E fs I \<Longrightarrow> linearizes E V (server_start E fs) (abs_fs E (disk fs), Map.empty)"
  unfolding linearizes_def using server_start_inv [of fs I]
  by (intro exI [of _ I] exI [of _ "\<lambda>_. idle"]) (auto simp: server_start_def requests_def)

lemma server_reaches:
  assumes "quiescent E fs I" and "execution (server_step E) (server_start E fs) es S"
  shows "\<exists>I G. system_inv E V S I G"
  using atomic.traces [OF assms(2) server_start_linearizes [OF assms(1)]] unfolding linearizes_def by blast

end

end
