(* ===== verification/FS_Progress.thy ===== *)
theory FS_Progress
  imports FS_System
begin

text \<open>
  The threads of the server do not wait for ever: threads lock from the root downwards, so among those that wait
  there is always one whose lock no waiting thread has; and a family of tasks cannot run for ever.
\<close>

subsection \<open>Who waits for whom\<close>

text \<open>How deep in the tree a thread waits; a thread that waits to upgrade its lock counts as deeper than one that waits for it.\<close>

definition depth :: "ghost \<Rightarrow> nat" where
  "depth g = 2 * length (wpath g) + (if \<exists>b a. wants g = Some (b, Wr, a) then 1 else 0)"

lemma waiting_holder:
  assumes "waits_at E g d" and "held g b = Some m"
  shows "m \<in> {Rd, Wr} \<and> wpath g \<noteq> [] \<and> walk E d 0 (butlast (wpath g)) = Some b \<or>
    m = Up \<and> walk E d 0 (wpath g) = Some b \<and> (\<exists>a. wants g = Some (b, Wr, a)) \<or> m = Up \<and> b \<in> limbo g"
  using assms by (auto simp: waits_at_def split: option.splits if_splits)

lemma waiting_target:
  assumes "waits_at E g d" and "wants g = Some (b, md, a)"
  shows "walk E d 0 (wpath g) = Some b \<or> md = Wr \<and> b \<in> limbo g"
  using assms by (auto simp: waits_at_def split: if_splits)

lemma deeper:
  assumes wf: "fs_wf E d I" and own: "\<And>n k. n \<in> I \<Longrightarrow> set (owned E d n) \<inter> private_blocks (G k) = {}"
    and i: "waits_at E (G i) d" "refused G (G i)"
    and B: "\<And>k b m. held (G k) b = Some m \<Longrightarrow> waits_at E (G k) d"
    and wish: "\<And>b md a. wants (G i) = Some (b, md, a) \<Longrightarrow> md \<noteq> Dead"
  shows "\<exists>k. waits_at E (G k) d \<and> depth (G i) < depth (G k)"
proof -
  obtain b md a where w: "wants (G i) = Some (b, md, a)" using i(1) by (auto simp: waits_at_def split: option.splits)
  have out: "b \<notin> limbo (G k)" if "walk E d 0 p = Some b" for k p
    using own [OF walk_root_in [OF wf that], of k] inode_in_owned [of b E d] unfolding private_blocks_def by blast
  have longer: "length (wpath (G k)) = Suc (length (wpath (G i)))"
    if "wpath (G k) \<noteq> []" "walk E d 0 (butlast (wpath (G k))) = Some b" "walk E d 0 (wpath (G i)) = Some b" for k
  proof -
    have "butlast (wpath (G k)) = wpath (G i)" using walk_inj [OF wf that(2,3)] .
    then have "length (wpath (G i)) = length (wpath (G k)) - 1" by (metis length_butlast)
    then show ?thesis using that(1) by (cases "wpath (G k)") simp_all
  qed
  note t = waiting_target [OF i(1) w]
  show ?thesis
  proof (cases "md = Wr")
    case True
    then obtain k where k: "held (G k) b = Some Rd" using i(2) w by (auto simp: refused_def readers_def)
    note h = waiting_holder [OF B [OF k] k]
    then have up: "wpath (G k) \<noteq> []" "walk E d 0 (butlast (wpath (G k))) = Some b" by auto
    then have "walk E d 0 (wpath (G i)) = Some b" using t out [OF up(2)] by blast
    then have "length (wpath (G k)) = Suc (length (wpath (G i)))" by (rule longer [OF up])
    then show ?thesis using B [OF k] by (intro exI [of _ k]) (simp add: depth_def)
  next
    case False
    then have p: "walk E d 0 (wpath (G i)) = Some b" using t by simp
    have "md = Rd \<or> md = Up" using wish [OF w] False by (cases md) auto
    then obtain k m where k: "held (G k) b = Some m" "m = Wr \<or> m = Dead \<or> m = Up"
      using i(2) w by (fastforce simp: refused_def writers_def upgraders_def)
    from waiting_holder [OF B [OF k(1)] k(1)] k(2) out [OF p, of k] p
    consider "wpath (G k) \<noteq> []" "walk E d 0 (butlast (wpath (G k))) = Some b"
      | a' where "walk E d 0 (wpath (G k)) = Some b" "wants (G k) = Some (b, Wr, a')" by auto
    then show ?thesis
    proof cases
      case 1
      then show ?thesis using longer [OF 1 p] B [OF k(1)] False w by (intro exI [of _ k]) (simp add: depth_def)
    next
      case 2
      then have "wpath (G k) = wpath (G i)" using walk_inj [OF wf _ p] by blast
      then show ?thesis using 2(2) B [OF k(1)] False w by (intro exI [of _ k]) (auto simp: depth_def)
    qed
  qed
qed

text \<open>The create request that finds no free block throws with a lock, for which others may wait for ever.\<close>

definition leaked :: "('d, 'm) Server \<Rightarrow> bool" where
  "leaked S \<longleftrightarrow> (\<exists>i. sv_task S i = Some (Done (Inl (Runtime_error ''Not enough disk space for create''))))"

context fs_server
begin

lemma some_thread_runs:
  assumes inv: "system_inv E V S I G" and no: "\<not> leaked S" and t: "sv_task S i = Some (Step f)"
  shows "\<exists>j S'. server_step E S (Run j) S'"
proof (rule ccontr)
  let ?d = "sh_disk (sv_shared S)"
  assume stuck: "\<nexists>j S'. server_step E S (Run j) S'"
  note sinv = system_invD(1) [OF inv]
  have l: "lock_inv V (sv_shared S) G" and b: "block_inv E (sv_shared S) I G" using sinv by (simp_all add: server_inv_def)
  have blocked: "waits_at E (G j) ?d \<and> refused G (G j)" if j: "sv_task S j = Some (Step h)" for j h
  proof -
    have none: "h (sv_shared S) = None"
    proof (rule ccontr)
      assume "h (sv_shared S) \<noteq> None"
      then obtain t s where "h (sv_shared S) = Some (t, s)" by auto
      then have "run_thread j (sv_task S, sv_shared S) = Some ((sv_task S)(j \<mapsto> t), s)" using j by (simp add: run_thread_def)
      then show False using step_run stuck by blast
    qed
    obtain c Q where q: "Q ?d I" "safe E V c finished (G j) Q (Step h)" using system_invD(4) [OF inv j] by blast
    show ?thesis using q(2)
    proof cases
      case safe_Step
      then show ?thesis using sinv q(1) none by blast
    qed
  qed
  have held: "\<exists>h. sv_task S k = Some (Step h)" if "held (G k) n = Some m \<or> waits_at E (G k) ?d" for k n m
  proof (cases "sv_task S k")
    case None
    then show ?thesis using system_invD(3) [OF inv None] that by (auto simp: idle_def waits_at_def)
  next
    case (Some u)
    then show ?thesis
    proof (cases u)
      case (Done r)
      then have "r \<noteq> Inl (Runtime_error ''Not enough disk space for create'')" using Some no by (auto simp: leaked_def)
      then show ?thesis using done_finished(3,4) [OF inv, of k r] Some Done that by (auto simp: waits_at_def)
    qed (use Some in blast)
  qed
  let ?B = "{j. waits_at E (G j) ?d}"
  have "?B \<subseteq> dom (sv_task S)" using held by fastforce
  then have fin: "finite ((\<lambda>k. depth (G k)) ` ?B)" using system_invD(2) [OF inv] finite_subset by blast
  have "(\<lambda>k. depth (G k)) ` ?B \<noteq> {}" using blocked [OF t] by blast
  then obtain j where j: "waits_at E (G j) ?d" "depth (G j) = Max ((\<lambda>k. depth (G k)) ` ?B)"
    using Max_in [OF fin] by (auto simp: image_iff)
  have max: "depth (G k) \<le> depth (G j)" if "waits_at E (G k) ?d" for k
    unfolding j(2) by (rule Max_ge [OF fin]) (use that in simp)
  obtain h where h: "sv_task S j = Some (Step h)" using held j(1) by blast
  have wish: "md \<noteq> Dead" if "wants (G j) = Some (b, md, a)" for b md a
    using lock_inv_wish [OF l, of j] that by (simp add: wish_ok_def)
  have "\<exists>k. waits_at E (G k) ?d \<and> depth (G j) < depth (G k)"
  proof (rule deeper [where I = I and i = j])
    show "fs_wf E ?d I" by (rule block_inv_wf [OF b])
    show "waits_at E (G j) ?d" by (rule j(1))
    show "set (owned E ?d n) \<inter> private_blocks (G k) = {}" if "n \<in> I" for n k by (rule block_inv_owned [OF b that])
    show "refused G (G j)" using blocked [OF h] by blast
    show "waits_at E (G k) ?d" if "held (G k) n = Some m" for k n m using held [of k n m] blocked that by blast
  qed (use wish in auto)
  then show False using max by (meson not_le)
qed

text \<open>When all requests have ended and none has thrown with its lock, the lock table is empty again.\<close>

lemma all_unlocked:
  assumes inv: "system_inv E V S I G" and no: "\<not> leaked S" and all: "\<And>i t. sv_task S i = Some t \<Longrightarrow> \<exists>r. t = Done r"
  shows "sh_map (sv_shared S) = Map.empty"
proof
  fix b
  have "held (G i) = Map.empty \<and> wants (G i) = None" for i
  proof (cases "sv_task S i")
    case None
    then show ?thesis using system_invD(3) [OF inv None] by (simp add: idle_def)
  next
    case (Some t)
    then obtain r where r: "sv_task S i = Some (Done r)" using all by blast
    then have "r \<noteq> Inl (Runtime_error ''Not enough disk space for create'')" using no by (auto simp: leaked_def)
    then show ?thesis using done_finished(3,4) [OF inv r] by simp
  qed
  then have "users G b = {}" by (simp add: users_def registered_def)
  moreover have "entry_ok V (sv_shared S) G b" using system_invD(1) [OF inv] by (simp add: server_inv_def lock_inv_def)
  ultimately show "sh_map (sv_shared S) b = None" by (simp add: entry_ok_def split: option.splits)
qed

end

subsection \<open>Termination\<close>

lemma run_step_thread:
  assumes "server_step E S (Run i) S'"
  shows "run_thread i (sv_task S, sv_shared S) = Some (sv_task S', sv_shared S')"
  using assms by cases simp

lemma server_terminates:
  "wf {(S', S). finite (dom (sv_task S)) \<and> (\<exists>i. server_step E S (Run i) S')}"
proof (rule wf_subset [OF wf_inv_image [OF wf_run_thread, of "\<lambda>S. (sv_task S, sv_shared S)"]], clarify)
  fix S S' i assume "finite (dom (sv_task S))" "server_step E S (Run i) S'"
  then show "(S', S) \<in> inv_image {(c', c). finite (dom (fst c)) \<and> (\<exists>i. run_thread i c = Some c')}
      (\<lambda>S. (sv_task S, sv_shared S))"
    using run_step_thread [of E S i S'] by auto
qed

end
