(* ===== verification/FS_Demo.thy ===== *)
theory FS_Demo
  imports FS_Init
begin

text \<open>
  A concrete disk: the root directory with one entry, the file \<^verbatim>\<open>/a\<close> of user \<^verbatim>\<open>u\<close> with one
  block.  It is well formed, so the hypotheses of the theorems on the file system can hold.
\<close>

definition demo_root :: fs_inode where
  "demo_root = \<lparr>i_type = CHR ''d'', i_owner = replicate (FS_MAXUSERNAME + 1) NUL, i_size = 1,
     i_blocks = 1 # replicate (FS_MAXFILEBLOCKS - 1) 0\<rparr>"

definition demo_entry :: fs_direntry where
  "demo_entry = \<lparr>de_name = CHR ''a'' # replicate FS_MAXFILENAME NUL, de_inode_block = 2\<rparr>"

definition demo_dir :: "fs_direntry list" where
  "demo_dir = demo_entry # replicate (FS_DIRENTRIES - 1) zero_direntry"

definition demo_file :: fs_inode where
  "demo_file = \<lparr>i_type = CHR ''f'', i_owner = CHR ''u'' # replicate FS_MAXUSERNAME NUL, i_size = 1,
     i_blocks = 3 # replicate (FS_MAXFILEBLOCKS - 1) 0\<rparr>"

definition demo_disk :: ram where
  "demo_disk = (\<lambda>n k.
     if n = 0 then encode_inode demo_root ! k
     else if n = 1 then encode_dir demo_dir ! k
     else if n = 2 then encode_inode demo_file ! k
     else NUL)"

definition demo_fs :: "(ram, counted_mutex) FileSystem" where
  "demo_fs = \<lparr>disk = demo_disk, free_block_list = [4..<FS_DISKSIZE], lock_map = Map.empty\<rparr>"

lemma demo_fs_fields [simp]: "disk demo_fs = demo_disk" "free_block_list demo_fs \<noteq> []"
  by (simp_all add: demo_fs_def FS_DISKSIZE_def)

lemma demo_fits: "inode_fits demo_root" "inode_fits demo_file" "dir_fits demo_dir"
  by (auto simp: inode_fits_def demo_root_def demo_file_def dir_fits_def demo_dir_def demo_entry_def
      direntry_fits_def zero_direntry_def FS_DIRENTRIES_eq fs_params)

lemma demo_blk:
  "blk ram_env demo_disk 0 = encode_inode demo_root"
  "blk ram_env demo_disk 1 = encode_dir demo_dir"
  "blk ram_env demo_disk 2 = encode_inode demo_file"
  using map_nth [of "encode_inode demo_root"] map_nth [of "encode_dir demo_dir"] map_nth [of "encode_inode demo_file"]
    length_encode_inode [OF demo_fits(1)] length_encode_inode [OF demo_fits(2)] length_encode_dir [OF demo_fits(3)]
  by (simp_all add: blk_def ram_env_def demo_disk_def FS_DISKSIZE_def)

lemma demo_inodes [simp]:
  "inode_at ram_env demo_disk 0 = demo_root" "inode_at ram_env demo_disk 2 = demo_file"
  "dir_at ram_env demo_disk (Suc 0) = demo_dir"
  using demo_fits demo_blk by (simp_all add: inode_at_def dir_at_def)

lemma demo_blocks [simp]:
  "inode_blocks ram_env demo_disk 0 = [1]" "inode_blocks ram_env demo_disk 2 = [3]"
  "is_dir ram_env demo_disk 0" "\<not> is_dir ram_env demo_disk 2" "owner_at ram_env demo_disk 2 = ''u''"
  by (simp_all add: inode_blocks_def is_dir_def owner_at_def demo_root_def demo_file_def cstr_def fs_params)

lemma demo_entries [simp]: "dir_entries ram_env demo_disk 0 = [(''a'', 2)]"
proof -
  have "used_entries (replicate n zero_direntry) = []" for n by (induction n) (auto simp: zero_direntry_def)
  then show ?thesis
    by (simp add: dir_entries_def demo_dir_def demo_entry_def cstr_def fs_params)
qed

lemma demo_wf: "fs_wf ram_env demo_disk {0, 2}"
proof -
  have "dir_block_ok demo_dir"
    by (auto simp: dir_block_ok_def demo_dir_def demo_entry_def zero_direntry_def FS_MAXFILENAME_def)
  then show ?thesis
    by (auto simp: fs_wf_def inode_ok_def dir_ok_def owned_def demo_root_def demo_file_def fs_params)
qed

lemma demo_quiescent: "quiescent ram_env demo_fs {0, 2}"
  using demo_wf by (auto simp: quiescent_def demo_fs_def free_ok_def owned_def)

lemma demo_reachable: "all_reachable ram_env demo_disk {0, 2}"
proof -
  have "walk ram_env demo_disk 0 [] = Some 0" "walk ram_env demo_disk 0 [''a''] = Some 2" by simp_all
  then show ?thesis unfolding all_reachable_def by blast
qed

lemma demo_abs: "abs_fs ram_env demo_disk [''a''] = Some (AFile ''u'' [blk ram_env demo_disk 3])"
  by (simp add: abs_fs_def obj_at_def)

lemma demo_path: "path_ok ''/a'' [''a'']" "path_ok ''/b'' [''b'']"
  by (simp_all add: path_ok_def name_ok_def FS_MAXFILENAME_def)

definition demo_command :: "CommandType \<Rightarrow> string \<Rightarrow> Command" where
  "demo_command ty p = \<lparr>command_type = ty, username = ''u'', pathname = p, block = 0, ctype = CHR ''f'',
     data = replicate FS_BLOCKSIZE (CHR ''x'')\<rparr>"

text \<open>The root directory of the concrete disk has a free slot and the disk has free blocks.\<close>

lemma demo_room: "create_room ram_env demo_fs 0"
proof -
  have "zero_direntry \<in> set demo_dir" by (simp add: demo_dir_def FS_DIRENTRIES_eq)
  then have "free_slot demo_dir" unfolding free_slot_def by (rule bexI [rotated]) (simp add: zero_direntry_def)
  then have "dir_has_slot ram_env demo_disk 0" by (simp add: dir_has_slot_def)
  then show ?thesis by (simp add: create_room_def demo_fs_def FS_DISKSIZE_def)
qed

text \<open>A disk with an empty root directory, on which only block 1 is free.\<close>

definition empty_root :: fs_inode where
  "empty_root = \<lparr>i_type = CHR ''d'', i_owner = replicate (FS_MAXUSERNAME + 1) NUL, i_size = 0,
     i_blocks = replicate FS_MAXFILEBLOCKS 0\<rparr>"

definition empty_disk :: ram where
  "empty_disk = (\<lambda>n k. if n = 0 then encode_inode empty_root ! k else NUL)"

definition scarce_fs :: "(ram, counted_mutex) FileSystem" where
  "scarce_fs = \<lparr>disk = empty_disk, free_block_list = [1], lock_map = Map.empty\<rparr>"

lemma empty_disk_root:
  "inode_at ram_env empty_disk 0 = empty_root" "inode_blocks ram_env empty_disk 0 = []"
  "is_dir ram_env empty_disk 0" "dir_entries ram_env empty_disk 0 = []"
proof -
  have fits: "inode_fits empty_root" by (simp add: inode_fits_def empty_root_def fs_params)
  have "blk ram_env empty_disk 0 = encode_inode empty_root"
    using map_nth [of "encode_inode empty_root"] length_encode_inode [OF fits]
    by (simp add: blk_def ram_env_def empty_disk_def FS_DISKSIZE_def)
  then show i: "inode_at ram_env empty_disk 0 = empty_root" using fits by (simp add: inode_at_def)
  show "inode_blocks ram_env empty_disk 0 = []" "is_dir ram_env empty_disk 0" "dir_entries ram_env empty_disk 0 = []"
    by (simp_all add: inode_blocks_def is_dir_def dir_entries_def i empty_root_def)
qed

lemma scarce_quiescent: "quiescent ram_env scarce_fs {0}"
proof -
  have "inode_ok ram_env empty_disk 0"
    by (simp add: inode_ok_def owned_def empty_disk_root) (simp add: empty_root_def fs_params)
  then show ?thesis
    by (simp add: quiescent_def scarce_fs_def fs_wf_def dir_ok_def free_ok_def owned_def empty_disk_root)
      (simp add: fs_params)
qed

end
