(* ===== verification/FS_Solo.thy ===== *)
theory FS_Solo
  imports FS_Threads
begin

text \<open>
  A task that runs without other threads does what the state transformer of \<open>FS_Core\<close> does: \<open>solo\<close> takes all the
  steps of a task one after the other.  The two models of the file system differ in how they hold the mutexes, in
  the table itself or behind pointers; \<open>same_fs\<close> relates their states.
\<close>

primrec solo :: "('s, 'a) task \<Rightarrow> ('s, 'a) prog" where
  "solo (Done r) = (\<lambda>s. (r, s))"
| "solo (Step f) = (\<lambda>s. case map_option (map_prod solo id) (f s) of None \<Rightarrow> (Inl Blocked, s) | Some (p, s') \<Rightarrow> p s')"

lemma solo_bindt: "solo (bindt t k) = bindp (solo t) (\<lambda>x. solo (k x))"
proof (induction t)
  case (Done r)
  then show ?case by (cases r) (simp_all add: fun_eq_iff bindp_def)
next
  case (Step f)
  show ?case
  proof
    fix s
    show "solo (bindt (Step f) k) s = bindp (solo (Step f)) (\<lambda>x. solo (k x)) s"
    proof (cases "f s")
      case (Some p)
      then obtain t s' where p: "f s = Some (t, s')" by (cases p) auto
      have "solo (bindt t k) s' = bindp (solo t) (\<lambda>x. solo (k x)) s'" using Step [OF p] by simp
      then show ?thesis using p by (simp add: bindp_def)
    qed (simp add: bindp_def)
  qed
qed

lemma solo_atom: "solo (atom p) s = (if fst (p s) = Inl Blocked then (Inl Blocked, s) else p s)"
  by (simp add: atom_def)

subsection \<open>States and programs that agree\<close>

definition same_fs :: "('d, 'm) FileSystem \<Rightarrow> ('d, 'm) Shared \<Rightarrow> bool" where
  "same_fs s h \<longleftrightarrow>
     disk s = sh_disk h \<and> free_block_list s = sh_free h \<and>
     (\<forall>b. lock_map s b = map_option (\<lambda>g. \<lparr>m_ptr = sh_mutex h (m_ptr g), num_readers = num_readers g\<rparr>) (sh_map h b)) \<and>
     (\<forall>b g. sh_map h b = Some g \<longrightarrow> m_ptr g < sh_next h) \<and>
     (\<forall>b b' g g'. sh_map h b = Some g \<longrightarrow> sh_map h b' = Some g' \<longrightarrow> m_ptr g = m_ptr g' \<longrightarrow> b = b')"

definition agree :: "(('d, 'm) FileSystem, 'a) prog \<Rightarrow> ('d, 'm, 'a) fs_task \<Rightarrow> bool" where
  "agree p t \<longleftrightarrow> (\<forall>s h. same_fs s h \<longrightarrow> fst (p s) = fst (solo t h) \<and> same_fs (snd (p s)) (snd (solo t h)))"

lemma agreeI:
  assumes "\<And>s h. same_fs s h \<Longrightarrow> fst (p s) = fst (solo t h) \<and> same_fs (snd (p s)) (snd (solo t h))"
  shows "agree p t"
  using assms by (simp add: agree_def)

lemma agreeD: "agree p t \<Longrightarrow> same_fs s h \<Longrightarrow> fst (p s) = fst (solo t h) \<and> same_fs (snd (p s)) (snd (solo t h))"
  by (simp add: agree_def)

lemma agree_bind:
  assumes "agree (p :: (('d, 'm) FileSystem, 'a) prog) t" and "\<And>x. agree (f x) (k x)"
  shows "agree (bindp p f) (bindt t k)"
proof (rule agreeI)
  fix s :: "('d, 'm) FileSystem" and h assume r: "same_fs s h"
  obtain x s' where p: "p s = (x, s')" by fastforce
  obtain y h' where q: "solo t h = (y, h')" by fastforce
  have e: "x = y" "same_fs s' h'" using agreeD [OF assms(1) r] p q by simp_all
  then show "fst (bindp p f s) = fst (solo (bindt t k) h) \<and> same_fs (snd (bindp p f s)) (snd (solo (bindt t k) h))"
    using assms(2) p q by (cases y) (auto simp: solo_bindt bindp_def agree_def)
qed

lemma agree_seq: "agree p t \<Longrightarrow> agree q u \<Longrightarrow> agree (seqp p q) (seqt t u)"
  unfolding seqp_def seqt_def by (rule agree_bind)

lemma agree_basic:
  "agree (ret x) (rett x)" "agree (halt e) (haltt e)" "agree (lift r) (Done r)" "agree (ret x) (Done (Inr x))"
  by (simp_all add: agree_def ret_def halt_def lift_def rett_def haltt_def)

lemma agree_if: "agree p t \<Longrightarrow> agree q u \<Longrightarrow> agree (if b then p else q) (if b then t else u)"
  by simp

lemma same_fsD:
  assumes "same_fs s h"
  shows "disk s = sh_disk h" "free_block_list s = sh_free h"
    "lock_map s b = map_option (\<lambda>g. \<lparr>m_ptr = sh_mutex h (m_ptr g), num_readers = num_readers g\<rparr>) (sh_map h b)"
    "sh_map h b = Some g \<Longrightarrow> m_ptr g < sh_next h"
    "sh_map h b = Some g \<Longrightarrow> sh_map h b' = Some g' \<Longrightarrow> m_ptr g = m_ptr g' \<Longrightarrow> b = b'"
  using assms unfolding same_fs_def by blast+

lemma agree_disk:
  "agree (disk_readblock E b) (atom (read_shared E b))"
  "agree (disk_writeblock E b raw) (atom (write_shared E b raw))"
  by (auto intro!: agreeI simp: solo_atom disk_readblock_def read_shared_def disk_writeblock_def write_shared_def
      same_fs_def split: option.splits)

text \<open>The entry of one block changes, and its mutex.\<close>

lemma same_fs_entry:
  assumes r: "same_fs s h" and g: "sh_map h b = Some g"
    and s': "disk s' = disk s" "free_block_list s' = free_block_list s"
      "lock_map s' = (lock_map s)(b := map_option (\<lambda>k. \<lparr>m_ptr = x, num_readers = k\<rparr>) n)"
    and h': "sh_disk h' = sh_disk h" "sh_free h' = sh_free h" "sh_mutex h' = (sh_mutex h)(m_ptr g := x)"
      "sh_map h' = (sh_map h)(b := map_option (\<lambda>k. \<lparr>m_ptr = m_ptr g, num_readers = k\<rparr>) n)" "sh_next h' = sh_next h"
  shows "same_fs s' h'"
  unfolding same_fs_def
proof (intro conjI allI impI)
  note r = same_fsD [OF r]
  show "disk s' = sh_disk h'" "free_block_list s' = sh_free h'" using r s' h' by simp_all
  fix c
  show "lock_map s' c = map_option (\<lambda>g. \<lparr>m_ptr = sh_mutex h' (m_ptr g), num_readers = num_readers g\<rparr>) (sh_map h' c)"
  proof (cases "c = b")
    case True
    then show ?thesis using s' h' by (cases n) simp_all
  next
    case False
    then have "m_ptr k \<noteq> m_ptr g" if "sh_map h c = Some k" for k using r(5) [OF that g] by blast
    then show ?thesis using False s' h' r(3) [of c] by (cases "sh_map h c") simp_all
  qed
next
  note r = same_fsD [OF r]
  have old: "\<exists>k'. sh_map h c = Some k' \<and> m_ptr k' = m_ptr k" if "sh_map h' c = Some k" for c k
    using that h'(4) g by (auto split: if_splits)
  show "m_ptr k < sh_next h'" if "sh_map h' c = Some k" for c k using old [OF that] r(4) h'(5) by metis
  show "c = c'" if "sh_map h' c = Some k" "sh_map h' c' = Some k'" "m_ptr k = m_ptr k'" for c c' k k'
    using old [OF that(1)] old [OF that(2)] that(3) r(5) by metis
qed

subsection \<open>The lock table\<close>

lemma same_fs_register:
  assumes r: "same_fs s h"
  shows "\<exists>g h'. register_user E b h = (Inr (m_ptr g), h') \<and> sh_map h' b = Some g \<and>
    same_fs (s\<lparr>lock_map := register_lock E b (lock_map s)\<rparr>) h'"
proof (cases "sh_map h b")
  case None
  let ?g = "\<lparr>m_ptr = sh_next h, num_readers = 1\<rparr>"
  let ?h = "h\<lparr>sh_map := (sh_map h)(b \<mapsto> ?g), sh_mutex := (sh_mutex h)(sh_next h := sm_new E), sh_next := sh_next h + 1\<rparr>"
  note d = same_fsD [OF r]
  have "register_lock E b (lock_map s) = (lock_map s)(b \<mapsto> \<lparr>m_ptr = sm_new E, num_readers = 1\<rparr>)"
    using d(3) [of b] None by (simp add: register_lock_def new_GyattLock_def)
  moreover have "same_fs (s\<lparr>lock_map := (lock_map s)(b \<mapsto> \<lparr>m_ptr = sm_new E, num_readers = 1\<rparr>)\<rparr>) ?h"
    unfolding same_fs_def
  proof (intro conjI allI impI)
    fix c
    show "lock_map (s\<lparr>lock_map := (lock_map s)(b \<mapsto> \<lparr>m_ptr = sm_new E, num_readers = 1\<rparr>)\<rparr>) c =
        map_option (\<lambda>g. \<lparr>m_ptr = sh_mutex ?h (m_ptr g), num_readers = num_readers g\<rparr>) (sh_map ?h c)"
      using d(3) [of c] d(4) [of c] by (cases "sh_map h c") auto
  next
    show "m_ptr k < sh_next ?h" if "sh_map ?h c = Some k" for c k using that d(4) [of c k] by (auto split: if_splits)
    show "c = c'" if "sh_map ?h c = Some k" "sh_map ?h c' = Some k'" "m_ptr k = m_ptr k'" for c c' k k'
      using that d(4) [of c k] d(4) [of c' k'] d(5) [of c k c' k'] by (auto split: if_splits)
  qed (use d in simp_all)
  moreover have "register_user E b h = (Inr (m_ptr ?g), ?h)" using None by (simp add: register_user_def)
  ultimately show ?thesis by (intro exI [of _ ?g] exI [of _ ?h]) simp
next
  case (Some g)
  let ?g = "g\<lparr>num_readers := num_readers g + 1\<rparr>" and ?h = "h\<lparr>sh_map := (sh_map h)(b \<mapsto> g\<lparr>num_readers := num_readers g + 1\<rparr>)\<rparr>"
  have "same_fs (s\<lparr>lock_map := register_lock E b (lock_map s)\<rparr>) ?h"
    by (rule same_fs_entry [OF r Some, of _ "sh_mutex h (m_ptr g)" "Some (num_readers g + 1)"])
      (use Some same_fsD(3) [OF r, of b] in \<open>auto simp: register_lock_def fun_eq_iff\<close>)
  moreover have "register_user E b h = (Inr (m_ptr ?g), ?h)" using Some by (simp add: register_user_def)
  ultimately show ?thesis by (intro exI [of _ ?g] exI [of _ ?h]) simp
qed

lemma on_mutex_same:
  assumes r: "same_fs s h" and g: "sh_map h b = Some g"
  shows "fst (on_mutex f b s) = fst (solo (atom (acquire f (m_ptr g))) h) \<and>
    same_fs (snd (on_mutex f b s)) (snd (solo (atom (acquire f (m_ptr g))) h))"
proof -
  note l = same_fsD(3) [OF r, of b]
  show ?thesis
  proof (cases "f (sh_mutex h (m_ptr g))")
    case None
    then show ?thesis using r g l by (simp add: on_mutex_def solo_atom acquire_def)
  next
    case (Some x)
    have "same_fs (s\<lparr>lock_map := (lock_map s)(b \<mapsto> \<lparr>m_ptr = x, num_readers = num_readers g\<rparr>)\<rparr>)
        (h\<lparr>sh_mutex := (sh_mutex h)(m_ptr g := x)\<rparr>)"
      by (rule same_fs_entry [OF r g, of _ x "Some (num_readers g)"]) (use g in \<open>auto simp: fun_eq_iff\<close>)
    then show ?thesis using Some g l by (simp add: on_mutex_def solo_atom acquire_def)
  qed
qed

lemma agree_register:
  "agree (seqp (modify (\<lambda>s. s\<lparr>lock_map := register_lock E b (lock_map s)\<rparr>)) (on_mutex f b))
    (bindt (atom (register_user E b)) (\<lambda>sm. atom (acquire f sm)))"
proof (rule agreeI)
  fix s :: "('a, 'b) FileSystem" and h assume r: "same_fs s h"
  obtain g h' where g: "register_user E b h = (Inr (m_ptr g), h')" "sh_map h' b = Some g"
    "same_fs (s\<lparr>lock_map := register_lock E b (lock_map s)\<rparr>) h'" using same_fs_register [OF r] by blast
  show "fst (seqp (modify (\<lambda>s. s\<lparr>lock_map := register_lock E b (lock_map s)\<rparr>)) (on_mutex f b) s) =
      fst (solo (bindt (atom (register_user E b)) (\<lambda>sm. atom (acquire f sm))) h) \<and>
    same_fs (snd (seqp (modify (\<lambda>s. s\<lparr>lock_map := register_lock E b (lock_map s)\<rparr>)) (on_mutex f b) s))
      (snd (solo (bindt (atom (register_user E b)) (\<lambda>sm. atom (acquire f sm))) h))"
    using on_mutex_same [OF g(3,2), of f] g(1)
    by (simp add: seqp_def bindp_def modify_def solo_bindt solo_atom [of "register_user E b"] del: solo.simps)
qed

lemma agree_release:
  "agree (bindp (gets lock_map) (\<lambda>m. seqp (assertp (m b \<noteq> None)) (seqp (on_mutex (\<lambda>x. Some (f x)) b)
     (modify (\<lambda>s. s\<lparr>lock_map := release_lock b (lock_map s)\<rparr>))))) (atom (release_user f b))"
proof (rule agreeI)
  fix s :: "('a, 'b) FileSystem" and h assume r: "same_fs s h"
  note l = same_fsD(3) [OF r, of b]
  let ?p = "bindp (gets lock_map) (\<lambda>m. seqp (assertp (m b \<noteq> None)) (seqp (on_mutex (\<lambda>x. Some (f x)) b)
     (modify (\<lambda>s. s\<lparr>lock_map := release_lock b (lock_map s)\<rparr>))))"
  show "fst (?p s) = fst (solo (atom (release_user f b)) h) \<and> same_fs (snd (?p s)) (snd (solo (atom (release_user f b)) h))"
  proof (cases "sh_map h b")
    case None
    then show ?thesis using r l by (simp add: prog_simps solo_atom release_user_def)
  next
    case (Some g)
    let ?n = "if num_readers g - 1 = 0 then None else Some (num_readers g - 1)" and ?x = "f (sh_mutex h (m_ptr g))"
    let ?s = "s\<lparr>lock_map := (lock_map s)(b := map_option (\<lambda>k. \<lparr>m_ptr = ?x, num_readers = k\<rparr>) ?n)\<rparr>"
      and ?h = "h\<lparr>sh_mutex := (sh_mutex h)(m_ptr g := ?x),
        sh_map := (sh_map h)(b := map_option (\<lambda>k. \<lparr>m_ptr = m_ptr g, num_readers = k\<rparr>) ?n)\<rparr>"
    have "same_fs ?s ?h" by (rule same_fs_entry [OF r Some, of _ ?x ?n]) simp_all
    moreover have "?p s = (Inr (), ?s)" using Some l
      by (auto simp: prog_simps on_mutex_def release_lock_def seqp_def bindp_def gets_def assertp_def ret_def modify_def)
    moreover have "solo (atom (release_user f b)) h = (Inr (), ?h)"
      using Some by (cases g) (auto simp: solo_atom release_user_def)
    ultimately show ?thesis by simp
  qed
qed

lemma agree_upgrade:
  "agree (bindp (gets lock_map) (\<lambda>m. seqp (assertp (m b \<noteq> None)) (on_mutex f b)))
    (bindt (atom (find_user b)) (\<lambda>sm. atom (acquire f sm)))"
proof (rule agreeI)
  fix s :: "('a, 'b) FileSystem" and h assume r: "same_fs s h"
  note l = same_fsD(3) [OF r, of b]
  let ?p = "bindp (gets lock_map) (\<lambda>m. seqp (assertp (m b \<noteq> None)) (on_mutex f b))"
    and ?t = "bindt (atom (find_user b)) (\<lambda>sm. atom (acquire f sm))"
  show "fst (?p s) = fst (solo ?t h) \<and> same_fs (snd (?p s)) (snd (solo ?t h))"
  proof (cases "sh_map h b")
    case None
    then show ?thesis using r l by (simp add: prog_simps solo_bindt solo_atom find_user_def bindp_def)
  next
    case (Some g)
    then have "?p s = on_mutex f b s" using l by (simp add: prog_simps)
    moreover have "solo ?t h = solo (atom (acquire f (m_ptr g))) h"
      using Some by (simp add: solo_bindt solo_atom [of "find_user b"] find_user_def bindp_def del: solo.simps)
    ultimately show ?thesis using on_mutex_same [OF r Some] by simp
  qed
qed

lemma agree_locks:
  "agree (lock_inode_read E b) (lock_inode_read_t E b)"
  "agree (lock_inode_upgrade E b) (lock_inode_upgrade_t E b)"
  "agree (unlock_inode_read E b) (unlock_inode_read_t E b)"
  "agree (unlock_inode_upgrade E b) (unlock_inode_upgrade_t E b)"
  "agree (unlock_inode_write E b) (unlock_inode_write_t E b)"
  "agree (upgrade_to_write_lock E b) (upgrade_to_write_lock_t E b)"
  unfolding lock_inode_read_def lock_inode_read_t_def lock_inode_upgrade_def lock_inode_upgrade_t_def
    unlock_inode_read_def unlock_inode_read_t_def unlock_inode_upgrade_def unlock_inode_upgrade_t_def
    unlock_inode_write_def unlock_inode_write_t_def upgrade_to_write_lock_def upgrade_to_write_lock_t_def
  by (rule agree_register agree_release agree_upgrade)+

lemma section_release:
  assumes "same_fs s h"
  shows "fst (unlock_inode_upgrade E b s) = fst (release_user (sm_unlock_upgrade E) b h) \<and>
    same_fs (snd (unlock_inode_upgrade E b s)) (snd (release_user (sm_unlock_upgrade E) b h))"
proof -
  have "fst (release_user (sm_unlock_upgrade E) b h) \<noteq> Inl Blocked" by (simp add: release_user_def split: option.split)
  then show ?thesis
    using agreeD [OF agree_locks(4) assms, of E b] unfolding unlock_inode_upgrade_t_def by (simp add: solo_atom)
qed

subsection \<open>The free list\<close>

lemma same_fs_free: "same_fs s h \<Longrightarrow> same_fs (s\<lparr>free_block_list := fl\<rparr>) (h\<lparr>sh_free := fl\<rparr>)"
  by (simp add: same_fs_def)

lemma agree_section:
  assumes "\<And>s h. same_fs s h \<Longrightarrow> fst (p s) = fst (q h) \<and> same_fs (snd (p s)) (snd (q h))"
    and "\<And>h. fst (q h) \<noteq> Inl Blocked"
  shows "agree p (atom q)"
  using assms by (intro agreeI) (simp add: solo_atom)

lemma agree_extend: "agree (extend_file E b x) (atom (extend_section E b x))"
proof (rule agree_section)
  fix s :: "('a, 'b) FileSystem" and h assume r: "same_fs s h"
  show "fst (extend_file E b x s) = fst (extend_section E b x h) \<and>
      same_fs (snd (extend_file E b x s)) (snd (extend_section E b x h))"
    using section_release [OF r, of E b] same_fsD(2) [OF r] same_fs_free [OF r]
    by (auto simp: extend_file_def extend_section_def bindp_def seqp_def gets_def halt_def modify_def lift_def ret_def
        split: sum.splits prod.splits)
next
  show "fst (extend_section E b x h) \<noteq> Inl Blocked" for h
    by (auto simp: extend_section_def bindp_def seqp_def gets_def halt_def modify_def lift_def ret_def release_user_def
        arr_set_def split: sum.splits prod.splits option.splits)
qed

lemma agree_grow: "agree (grow_directory E b x) (atom (grow_section E b x))"
proof (rule agree_section)
  fix s :: "('a, 'b) FileSystem" and h assume r: "same_fs s h"
  show "fst (grow_directory E b x s) = fst (grow_section E b x h) \<and>
      same_fs (snd (grow_directory E b x s)) (snd (grow_section E b x h))"
    using section_release [OF r, of E b] same_fsD(2) [OF r] same_fs_free [OF r] r
    by (auto simp: grow_directory_def grow_section_def bindp_def seqp_def gets_def halt_def modify_def lift_def ret_def
        split: sum.splits prod.splits)
next
  show "fst (grow_section E b x h) \<noteq> Inl Blocked" for h
    by (auto simp: grow_section_def bindp_def seqp_def gets_def halt_def modify_def lift_def ret_def release_user_def
        arr_set_def split: sum.splits prod.splits option.splits)
qed

lemma agree_take:
  "agree (bindp (gets free_block_list) (\<lambda>fl. if fl = [] then halt (Runtime_error ''Not enough disk space for create'')
      else seqp (modify (\<lambda>s. s\<lparr>free_block_list := tl fl\<rparr>)) (ret (hd fl)))) (atom take_block_section)"
  by (rule agree_section)
    (auto simp: take_block_section_def bindp_def seqp_def gets_def halt_def modify_def ret_def same_fsD(2) intro: same_fs_free)

lemma agree_free:
  "agree (modify (\<lambda>s. s\<lparr>free_block_list := free_block_list s @ [b]\<rparr>)) (atom (free_section b))"
  by (rule agree_section) (auto simp: free_section_def modify_def same_fsD(2) intro: same_fs_free)

subsection \<open>The handlers\<close>

lemmas agree_steps = agree_bind agree_seq agree_basic agree_if agree_disk agree_locks agree_extend agree_grow agree_free

lemma agree_find_in_blocks: "agree (find_in_blocks E nm bs is) (find_in_blocks_t E nm bs is)"
proof (induction "is")
  case (Cons i "is")
  then show ?case unfolding find_in_blocks.simps find_in_blocks_t.simps by (intro agree_steps)
qed (simp add: agree_basic)

lemma agree_find_next_inode: "agree (find_next_inode E nm b u) (find_next_inode_t E nm b u)"
  unfolding find_next_inode_def find_next_inode_t_def Let_def by (intro agree_steps agree_find_in_blocks)

lemma agree_assert:
  assumes "agree p t"
  shows "agree (seqp (if e then assertp P else ret ()) p) (if e \<and> \<not> P then haltt Assertion_failed else t)"
proof (cases "e \<and> \<not> P")
  case True
  then have "seqp (if e then assertp P else ret ()) p = halt Assertion_failed"
    by (auto simp: seqp_def bindp_def assertp_def halt_def)
  then show ?thesis using True by (simp add: agree_basic)
next
  case False
  then have "seqp (if e then assertp P else ret ()) p = p" by (auto simp: seqp_def bindp_def assertp_def ret_def)
  moreover have "(e \<and> \<not> P) = False" using False by blast
  ultimately show ?thesis using assms by (simp only: if_False)
qed

lemma agree_find_parent_loop: "agree (find_parent_loop E u b ns) (find_parent_loop_t E u b ns)"
proof (induction E u b ns rule: find_parent_loop.induct)
  case (1 E u b x y ns)
  show ?case unfolding find_parent_loop.simps find_parent_loop_t.simps
    by (intro agree_bind [OF agree_basic(3)] agree_assert agree_bind [OF agree_find_next_inode] agree_seq agree_locks 1)
qed (simp_all add: agree_basic)

lemma agree_find_parent_inode: "agree (find_parent_inode E q u) (find_parent_inode_t E q u)"
  unfolding find_parent_inode_def find_parent_inode_t_def by (intro agree_steps agree_find_parent_loop)

lemma agree_handle_read: "agree (handle_read E c) (handle_read_t E c)"
  unfolding handle_read_def handle_read_t_def Let_def
  by (intro agree_steps agree_find_parent_inode agree_find_next_inode)

text \<open>The branches of \<open>handle_write\<close> and \<open>create_commit\<close>, with what follows them moved inside.\<close>

lemma prog_laws:
  "bindp (ret x) f = f x" "seqp (seqp p q) r = seqp p (seqp q r)" "seqp (bindp p g) r = bindp p (\<lambda>x. seqp (g x) r)"
  by (simp_all add: fun_eq_iff prog_simps seqp_def)

lemma agree_handle_write: "agree (handle_write E c) (handle_write_t E c)"
proof -
  have tail: "agree
      (bindp (if k then extend_file E b x else ret x) (\<lambda>x.
       seqp (if \<not> k then seqp (upgrade_to_write_lock E b)
               (bindp (lift (arr_get (i_blocks x) (block c))) (\<lambda>b. disk_writeblock E b (data c)))
             else bindp (lift (arr_get (i_blocks x) (block c))) (\<lambda>b'. seqp (disk_writeblock E b' (data c))
               (seqp (upgrade_to_write_lock E b) (disk_writeblock E b (encode_inode x)))))
         (unlock_inode_write E b)))
      (if \<not> k then
         seqt (upgrade_to_write_lock_t E b) (bindt (Done (arr_get (i_blocks x) (block c))) (\<lambda>b'.
         seqt (atom (write_shared E b' (data c))) (unlock_inode_write_t E b)))
       else bindt (atom (extend_section E b x)) (\<lambda>x. bindt (Done (arr_get (i_blocks x) (block c))) (\<lambda>b'.
         seqt (atom (write_shared E b' (data c))) (seqt (upgrade_to_write_lock_t E b)
         (seqt (atom (write_shared E b (encode_inode x))) (unlock_inode_write_t E b))))))" for k b x
  proof (cases k)
    case True
    show ?thesis by (simp only: True prog_laws if_True if_False not_True_eq_False) (intro agree_steps)
  next
    case False
    show ?thesis by (simp only: False prog_laws if_True if_False not_False_eq_True) (intro agree_steps)
  qed
  show ?thesis unfolding handle_write_def handle_write_t_def Let_def
    by (intro tail agree_steps agree_find_parent_inode agree_find_next_inode)
qed

lemma agree_parent:
  "agree (get_parent_inode_and_upgradeable_lock E c q) (get_parent_inode_and_upgradeable_lock_t E c q)"
  "agree (validate_parent_inode E c q x b) (validate_parent_inode_t E c q x b)"
  unfolding get_parent_inode_and_upgradeable_lock_def get_parent_inode_and_upgradeable_lock_t_def
    validate_parent_inode_def validate_parent_inode_t_def
  by (intro agree_steps agree_find_parent_inode agree_find_next_inode)+

lemma agree_option:
  assumes "agree p t" and "\<And>x. agree (f x) (k x)"
  shows "agree (case z of None \<Rightarrow> p | Some x \<Rightarrow> f x) (case z of None \<Rightarrow> t | Some x \<Rightarrow> k x)"
  using assms by (cases z) simp_all

lemma agree_pair:
  assumes "\<And>x y. agree (f x y) (k x y)"
  shows "agree (case z of (x, y) \<Rightarrow> f x y) (case z of (x, y) \<Rightarrow> k x y)"
  using assms by (cases z) simp

lemma agree_create_scan: "agree (create_scan_blocks E nm bs is st) (create_scan_blocks_t E nm bs is st)"
proof (induction "is" arbitrary: st)
  case (Cons i "is")
  then show ?case unfolding create_scan_blocks.simps create_scan_blocks_t.simps by (intro agree_steps agree_option)
qed (simp add: agree_basic)

lemma agree_create_commit: "agree (create_commit E junk c nm b x st) (create_commit_t E junk c nm b x st)"
proof -
  let ?take = "bindp (gets free_block_list) (\<lambda>fl. if fl = [] then halt (Runtime_error ''Not enough disk space for create'')
      else seqp (modify (\<lambda>s. s\<lparr>free_block_list := tl fl\<rparr>)) (ret (hd fl)))"
  let ?rest = "\<lambda>n. bindp (lift (fill_direntry nm n (new_direntry_location st) (updated_direntries_block st))) (\<lambda>updated.
     bindp (lift (make_inode junk c)) (\<lambda>y.
     bindp (if \<not> is_empty_direntry st then grow_directory E b x else ret (new_direntry_block st, x)) (\<lambda>(e, x).
     seqp (disk_writeblock E n (encode_inode y))
     (seqp (if is_empty_direntry st then seqp (upgrade_to_write_lock E b) (disk_writeblock E e (encode_dir updated))
        else seqp (disk_writeblock E e (encode_dir updated)) (seqp (upgrade_to_write_lock E b)
          (disk_writeblock E b (encode_inode (x\<lparr>i_size := i_size x + 1\<rparr>)))))
       (unlock_inode_write E b)))))"
  have "create_commit E junk c nm b x st = bindp ?take ?rest"
    by (rule ext) (simp add: create_commit_def prog_defs Let_def)
  moreover have "agree (bindp ?take ?rest) (create_commit_t E junk c nm b x st)"
    unfolding create_commit_t_def
  proof (rule agree_bind [OF agree_take], goal_cases)
    case (1 n)
    show ?case
      by (cases "is_empty_direntry st"; simp only: prog_laws if_True if_False not_True_eq_False not_False_eq_True prod.case;
          intro agree_steps agree_pair)
  qed
  ultimately show ?thesis by simp
qed

lemma agree_handle_create: "agree (handle_create E junk c) (handle_create_t E junk c)"
  unfolding handle_create_def handle_create_t_def Let_def
  by (intro agree_parent agree_create_scan agree_create_commit agree_option agree_steps)

lemma agree_delete_scan: "agree (delete_scan_blocks E nm bs is) (delete_scan_blocks_t E nm bs is)"
proof (induction "is")
  case (Cons i "is")
  then show ?case unfolding delete_scan_blocks.simps delete_scan_blocks_t.simps by (intro agree_steps agree_option)
qed (simp add: agree_basic)

lemma agree_free_file_blocks: "agree (free_file_blocks bs is) (free_file_blocks_t bs is)"
proof (induction "is")
  case (Cons i "is")
  then show ?case unfolding free_file_blocks.simps free_file_blocks_t.simps by (intro agree_steps)
qed (simp add: agree_basic)

lemma agree_remove_entry: "agree (remove_entry E b x i j es) (remove_entry_t E b x i j es)"
  unfolding remove_entry_def remove_entry_t_def by (intro agree_steps)

lemma agree_delete_child: "agree (delete_child E c b x i j es) (delete_child_t E c b x i j es)"
  unfolding delete_child_def delete_child_t_def Let_def
  by (intro agree_remove_entry agree_free_file_blocks agree_steps)

lemma agree_handle_delete: "agree (handle_delete E c) (handle_delete_t E c)"
  unfolding handle_delete_def handle_delete_t_def Let_def
  by (intro agree_parent agree_delete_scan agree_delete_child agree_option agree_pair agree_steps)

end
