(* ===== verification/FS_Concurrent.thy ===== *)
theory FS_Concurrent
  imports FS_Progress FS_Demo FS_Solo
begin

text \<open>
  Properties of the file server with any number of requests at a time: what clients can observe, what holds of the
  disk at every moment, and that requests do not block each other for ever.
\<close>

subsection \<open>A run of the example server\<close>

text \<open>Two requests for the file \<^verbatim>\<open>/a\<close> have come, one to read it and one to delete it.\<close>

definition demo_server :: "(ram, counted_mutex) Server" where
  "demo_server =
     (server_start ram_env demo_fs)\<lparr>
       sv_command := [0 \<mapsto> demo_command FS_READBLOCK ''/a'', 1 \<mapsto> demo_command FS_DELETE ''/a''],
       sv_task := [0 \<mapsto> request_t ram_env demo_file (demo_command FS_READBLOCK ''/a''),
                   1 \<mapsto> request_t ram_env demo_file (demo_command FS_DELETE ''/a'')]\<rparr>"

abbreviation demo_events :: "server_event list" where
  "demo_events \<equiv> [Start 0 (demo_command FS_READBLOCK ''/a''), Start 1 (demo_command FS_DELETE ''/a'')]"

lemma demo_issued: "ty \<noteq> INVALID \<Longrightarrow> issued (demo_command ty ''/a'')"
  using demo_path(1) by (auto simp: issued_def command_ok_def demo_command_def fs_params)

lemma demo_execution: "execution (server_step ram_env) (server_start ram_env demo_fs) demo_events demo_server"
proof -
  let ?S = "server_start ram_env demo_fs"
  have "server_step ram_env ?S (Start 0 (demo_command FS_READBLOCK ''/a''))
      (?S\<lparr>sv_command := (sv_command ?S)(0 \<mapsto> demo_command FS_READBLOCK ''/a''),
          sv_task := (sv_task ?S)(0 \<mapsto> request_t ram_env demo_file (demo_command FS_READBLOCK ''/a''))\<rparr>)"
    (is "server_step _ _ _ ?T")
    by (rule step_start [OF _ demo_issued demo_fits(2)]) (simp_all add: server_start_def)
  note one = single_step [of "server_step ram_env", OF this]
  have "server_step ram_env ?T (Start 1 (demo_command FS_DELETE ''/a''))
      (?T\<lparr>sv_command := (sv_command ?T)(1 \<mapsto> demo_command FS_DELETE ''/a''),
          sv_task := (sv_task ?T)(1 \<mapsto> request_t ram_env demo_file (demo_command FS_DELETE ''/a''))\<rparr>)"
    by (rule step_start [OF _ demo_issued demo_fits(2)]) (simp_all add: server_start_def)
  from execution_append [OF single_step [of "server_step ram_env", OF this] one] show ?thesis
    by (simp add: demo_server_def server_start_def)
qed

subsection \<open>What clients observe\<close>

lemma fs_wf_reached:
  assumes wf: "fs_wf E d I"
  shows "fs_wf E d {n. \<exists>p. walk E d 0 p = Some n}" (is "fs_wf E d ?R")
proof -
  have sub: "?R \<subseteq> I" using walk_root_in [OF wf] by blast
  have kids: "snd ` set (dir_entries E d n) \<subseteq> ?R" if n: "n \<in> ?R" "is_dir E d n" for n
  proof clarify
    fix x c assume "(x, c) \<in> set (dir_entries E d n)"
    moreover have "distinct (map fst (dir_entries E d n))" using wf sub n by (auto simp: fs_wf_def dir_ok_def)
    ultimately have "map_of (dir_entries E d n) x = Some c" by simp
    then show "\<exists>p. walk E d 0 p = Some (snd (x, c))" using n walk_snoc_iff [of E d 0 _ x c] by auto
  qed
  have dir: "dir_ok E d ?R n" if "n \<in> ?R" "is_dir E d n" for n
    using fs_wfD(4) [OF wf _ that(2)] sub that(1) kids [OF that] by (auto simp: dir_ok_def)
  show ?thesis unfolding fs_wf_def
  proof (intro conjI ballI impI)
    have "walk E d 0 [] = Some 0" by simp
    then show "0 \<in> ?R" by blast
  next
    fix n m assume nm: "n \<in> ?R" "m \<in> ?R" "n \<noteq> m"
    then have I: "n \<in> I" "m \<in> I" using sub by blast+
    show "set (owned E d n) \<inter> set (owned E d m) = {}" using fs_wf_owned [OF wf I] nm(3) by blast
    show "snd ` set (dir_entries E d n) \<inter> snd ` set (dir_entries E d m) = {}" if "is_dir E d n" "is_dir E d m"
      using fs_wf_parent [OF wf I that] nm(3) by force
  qed (use fs_wf_root(2) [OF wf] fs_wf_inode [OF wf] sub dir in blast)+
qed

context fs_server
begin

lemma server_traces:
  assumes "quiescent E fs I" and "execution (server_step E) (server_start E fs) es S"
  shows "\<exists>as a. execution atomic_step (abs_fs E (disk fs), Map.empty) as a \<and>
    filter client_sees as = filter client_sees es \<and> linearizes E V S a"
  by (rule atomic.traces [OF assms(2) server_start_linearizes [OF assms(1)]])

lemma server_restarts:
  assumes "quiescent E fs I" and "execution (server_step E) (server_start E fs) es S"
  shows "\<exists>fs' I'. new_FileSystem E (sh_disk (sv_shared S)) = Some (Inr fs') \<and> quiescent E fs' I' \<and>
    accounted E fs' I' = {..<FS_DISKSIZE} \<and> abs_fs E (disk fs') = abs_fs E (sh_disk (sv_shared S))"
proof -
  let ?d = "sh_disk (sv_shared S)" and ?R = "{n. \<exists>p. walk E (sh_disk (sv_shared S)) 0 p = Some n}"
  obtain I' G where "system_inv E V S I' G" using server_reaches [OF assms] by blast
  then have "fs_wf E ?d I'" by (simp add: system_inv_def server_inv_def block_inv_def)
  then have wf: "fs_wf E ?d ?R" by (rule fs_wf_reached)
  have "all_reachable E ?d ?R" by (simp add: all_reachable_def)
  with wf show ?thesis using new_FileSystem_returns by metis
qed

end

text \<open>
  C1: The file server is linearizable.  However the steps of its threads interleave, the starts and the answers of
  the requests are those of a server in which each request takes effect at once, at some moment between its start
  and its answer, on the file system of the specification; and that file system is then the one on the disk.
\<close>

theorem requests_linearizable:
  assumes "fs_server E V" and "quiescent E fs I" and "execution (server_step E) (server_start E fs) es S"
  shows "\<exists>as P. execution atomic_step (abs_fs E (disk fs), Map.empty) as (abs_fs E (sh_disk (sv_shared S)), P) \<and>
    filter client_sees as = filter client_sees es"
  using fs_server.server_traces [OF assms] by (auto simp: linearizes_def)

theorem requests_linearizable_witness:
  "\<exists>as P. execution atomic_step (abs_fs ram_env demo_disk, Map.empty) as (abs_fs ram_env demo_disk, P) \<and>
    filter client_sees as = demo_events"
  using requests_linearizable [OF ram_server.fs_server_axioms demo_quiescent demo_execution]
  by (simp add: demo_server_def server_start_def)

text \<open>
  C2: No thread crashes the server: every request that ends has returned or has thrown an exception that the server
  catches; no assertion fails, no array is overrun and no lock is released that is not held, whatever the other
  threads do.
\<close>

theorem threads_never_crash:
  assumes "fs_server E V" and "quiescent E fs I" and "execution (server_step E) (server_start E fs) es S"
    and "sv_task S i = Some (Done r)"
  shows "\<exists>sp x. outcome r = Some (sp, x)"
  using fs_server.server_reaches [OF assms(1-3)] fs_server.done_finished(2) [OF assms(1) _ assms(4)] by blast

text \<open>
  C3: The disk is consistent between any two steps: when the server stops at any moment, in the middle of any number
  of requests, and is started again, the constructor finds a well-formed disk, gives back the blocks
  that requests had taken, and serves the file system that was on the disk.
\<close>

theorem restart_at_any_moment:
  assumes "fs_server E V" and "quiescent E fs I" and "execution (server_step E) (server_start E fs) es S"
  shows "\<exists>fs' I'. new_FileSystem E (sh_disk (sv_shared S)) = Some (Inr fs') \<and> quiescent E fs' I' \<and>
    accounted E fs' I' = {..<FS_DISKSIZE} \<and> abs_fs E (disk fs') = abs_fs E (sh_disk (sv_shared S))"
  by (rule fs_server.server_restarts [OF assms])

theorem restart_at_any_moment_witness:
  "\<exists>fs'. new_FileSystem ram_env (sh_disk (sv_shared demo_server)) = Some (Inr fs')"
  using restart_at_any_moment [OF ram_server.fs_server_axioms demo_quiescent demo_execution] by blast

subsection \<open>Progress\<close>

lemma execution_Cons:
  assumes "step s e s1" and "execution step s1 es s2"
  shows "execution step s (e # es) s2"
  using execution_append [OF assms(2) single_step [of step, OF assms(1)]] by simp

lemma run_keeps_dom:
  assumes "run_thread i (ts, s) = Some (ts', s')"
  shows "dom ts' = dom ts"
  using assms by (auto simp: run_thread_def dom_def split: option.splits task.splits if_splits)

lemma runs_end:
  assumes "finite (dom (sv_task S))"
  shows "\<exists>es S'. execution (server_step E) S es S' \<and> dom (sv_task S') = dom (sv_task S) \<and>
    (\<nexists>i T. server_step E S' (Run i) T)"
  using server_terminates [of E] assms
proof (induction S rule: wf_induct_rule)
  case (less S)
  show ?case
  proof (cases "\<exists>i T. server_step E S (Run i) T")
    case True
    then obtain i T where T: "server_step E S (Run i) T" by blast
    then have d: "dom (sv_task T) = dom (sv_task S)" by (rule run_keeps_dom [OF run_step_thread])
    have "(T, S) \<in> {(S', S). finite (dom (sv_task S)) \<and> (\<exists>i. server_step E S (Run i) S')}" using T less.prems by blast
    then obtain es S' where "execution (server_step E) T es S'" "dom (sv_task S') = dom (sv_task T)"
      "\<nexists>i U. server_step E S' (Run i) U" using less.IH [of T] less.prems d by metis
    then show ?thesis using execution_Cons [of "server_step E", OF T] d by metis
  next
    case False
    then show ?thesis using execution_start [of "server_step E" S] by metis
  qed
qed





theorem threads_never_crash_witness:
  "\<exists>es S i r. execution (server_step ram_env) (server_start ram_env demo_fs) es S \<and> sv_task S i = Some (Done r) \<and>
    (\<exists>sp x. outcome r = Some (sp, x))"
proof -
  have "finite (dom (sv_task demo_server))" by (simp add: demo_server_def)
  then obtain es S where S: "execution (server_step ram_env) demo_server es S" "dom (sv_task S) = dom (sv_task demo_server)"
    "\<nexists>i T. server_step ram_env S (Run i) T" using runs_end by blast
  note run = execution_append [OF S(1) demo_execution]
  have "\<exists>i r. sv_task S i = Some (Done r)"
  proof (cases "leaked S")
    case False
    have "0 \<in> dom (sv_task S)" unfolding S(2) by (simp add: demo_server_def)
    then obtain t where "sv_task S 0 = Some t" by blast
    moreover obtain I G where "system_inv ram_env (\<lambda>x. x) S I G" using ram_server.server_reaches [OF demo_quiescent run] by blast
    ultimately show ?thesis using ram_server.some_thread_runs [OF _ False] S(3) by (metis task.exhaust)
  qed (auto simp: leaked_def)
  then show ?thesis using run threads_never_crash [OF ram_server.fs_server_axioms demo_quiescent run] by blast
qed

subsection \<open>One thread alone\<close>

text \<open>A thread that is not interrupted takes the steps of \<open>solo\<close>.\<close>

lemma solo_runs:
  assumes "sv_task S i = Some t" and "solo t (sv_shared S) = (r, h)" and "r \<noteq> Inl Blocked"
  shows "\<exists>es. execution (server_step E) S es (S\<lparr>sv_task := (sv_task S)(i \<mapsto> Done r), sv_shared := h\<rparr>) \<and> set es \<subseteq> {Run i}"
  using assms
proof (induction t arbitrary: S)
  case (Done r')
  then have "S\<lparr>sv_task := (sv_task S)(i \<mapsto> Done r), sv_shared := h\<rparr> = S" by (simp add: fun_upd_idem)
  then show ?case using execution_start [of "server_step E" S] by (metis empty_set empty_subsetI)
next
  case (Step f)
  then obtain t s where t: "f (sv_shared S) = Some (t, s)" by (cases "f (sv_shared S)") auto
  let ?S = "S\<lparr>sv_task := (sv_task S)(i \<mapsto> t), sv_shared := s\<rparr>"
  have run: "server_step E S (Run i) ?S" by (rule step_run) (use Step.prems(1) t in \<open>simp add: run_thread_def\<close>)
  have "solo t (sv_shared ?S) = (r, h)" using Step.prems(2) t by simp
  then obtain es where es: "execution (server_step E) ?S es (?S\<lparr>sv_task := (sv_task ?S)(i \<mapsto> Done r), sv_shared := h\<rparr>)"
    "set es \<subseteq> {Run i}" using Step.IH [OF t, of ?S] Step.prems(3) by (auto simp del: fun_upd_apply simp: fun_upd_same)
  show ?case using execution_Cons [of "server_step E", OF run es(1)] es(2) by (intro exI [of _ "Run i # es"]) (simp del: fun_upd_apply)
qed

text \<open>
  The file system of the threads is the one of the sequential model.  A request that runs without other
  threads in between has the result of the sequential handler and leaves the same disk, free list and locks.
\<close>

theorem alone_like_sequential:
  assumes "same_fs s h"
  shows "fst (handle_read E c s) = fst (solo (handle_read_t E c) h) \<and>
      same_fs (snd (handle_read E c s)) (snd (solo (handle_read_t E c) h)) \<and>
    fst (handle_write E c s) = fst (solo (handle_write_t E c) h) \<and>
      same_fs (snd (handle_write E c s)) (snd (solo (handle_write_t E c) h)) \<and>
    fst (handle_create E junk c s) = fst (solo (handle_create_t E junk c) h) \<and>
      same_fs (snd (handle_create E junk c s)) (snd (solo (handle_create_t E junk c) h)) \<and>
    fst (handle_delete E c s) = fst (solo (handle_delete_t E c) h) \<and>
      same_fs (snd (handle_delete E c s)) (snd (solo (handle_delete_t E c) h))"
  using agreeD [OF agree_handle_read assms, of E c] agreeD [OF agree_handle_write assms, of E c]
    agreeD [OF agree_handle_create assms, of E junk c] agreeD [OF agree_handle_delete assms, of E c] by simp

lemma same_fs_start: "lock_map fs = Map.empty \<Longrightarrow> same_fs fs (sv_shared (server_start E fs))"
  by (simp add: same_fs_def server_start_def)

theorem alone_like_sequential_witness:
  "fst (handle_read ram_env (demo_command FS_READBLOCK ''/a'') demo_fs) =
    fst (solo (handle_read_t ram_env (demo_command FS_READBLOCK ''/a'')) (sv_shared demo_server))"
  using alone_like_sequential [OF same_fs_start [of demo_fs ram_env], of ram_env "demo_command FS_READBLOCK ''/a''"]
  by (simp add: demo_fs_def demo_server_def)

end
