(* ===== verification/Net_Threads.thy ===== *)
theory Net_Threads
  imports Net_Main FS_Concurrent
begin

text \<open>
  The loop over the connections and its threads (\<^verbatim>\<open>src/filesys/network_server.cpp\<close> 60-122, 320-419).  Every
  connection that \<^verbatim>\<open>accept\<close> returns gets a detached thread that runs \<^verbatim>\<open>handle_request\<close>.  What a thread does
  with its own socket and its own buffers does not touch the others, so the part of \<^verbatim>\<open>handle_request\<close> before the
  call of the file system and the part after it are one step each; in between the thread takes the steps of its
  handler among those of the other threads, as in \<open>FS_System\<close>.  A \<^verbatim>\<open>recv\<close> or \<^verbatim>\<open>send\<close> that waits for the client is a
  step that has not been taken yet.
\<close>

subsection \<open>The two halves of a request\<close>

text \<open>
  A connection with what the stack of its thread holds where the handlers read it before they write it.
\<close>

record 'k connection =
  conn_env :: "'k sock_env"
  conn_state :: 'k
  conn_junk :: Command
  conn_junk_inode :: fs_inode

text \<open>
  Up to the call of the file system: the command for it with the request string, or the result of
  \<^verbatim>\<open>handle_request\<close> when the request does not get there.
\<close>

definition receive_request :: "'k sock_env \<Rightarrow> Command \<Rightarrow> 'k \<Rightarrow> ((stop + int) + string \<times> Command) \<times> 'k" where
  "receive_request N junk k =
     (case receive_message N k of
        (None, k') \<Rightarrow> (Inl (Inr (- 1)), k')
      | (Some request_str, k') \<Rightarrow>
          if parse_command (fst (next_token request_str)) = INVALID then (Inl (Inr (- 1)), k')
          else (case parse_message junk request_str of
              Inl e \<Rightarrow> (Inl (caught e), k')
            | Inr command \<Rightarrow>
                if parse_command (fst (next_token request_str)) = FS_WRITEBLOCK
                then (case receive_data N k' [] of
                    (None, k'') \<Rightarrow> (Inl (Inr (- 1)), k'')
                  | (Some received, k'') \<Rightarrow> (Inr (request_str, command\<lparr>data := received\<rparr>), k''))
                else (Inr (request_str, command), k')))"

text \<open>After the call of the file system, with what it returned or threw.\<close>

definition send_reply :: "'k sock_env \<Rightarrow> string \<Rightarrow> stop + char list \<Rightarrow> 'k \<Rightarrow> ((stop + int) \<times> 'k) option" where
  "send_reply N request_str r k =
     (case r of
        Inl e \<Rightarrow> Some (caught e, k)
      | Inr block_data \<Rightarrow>
          (case send_message N k request_str of
             None \<Rightarrow> None
           | Some (False, k') \<Rightarrow> Some (Inr (- 1), k')
           | Some (True, k') \<Rightarrow>
               if parse_command (fst (next_token request_str)) = FS_READBLOCK
               then map_option (\<lambda>(ok, k''). (Inr (if ok then 0 else - 1), k'')) (send_data N k' block_data)
               else Some (Inr 0, k')))"

text \<open>The call in between, by a thread that is not interrupted.\<close>

definition call_filesystem :: "('d, 'm) fs_env \<Rightarrow> fs_inode \<Rightarrow> Command \<Rightarrow> (('d, 'm) FileSystem, char list) prog" where
  "call_filesystem E junk_inode command =
     (case command_type command of
        FS_READBLOCK \<Rightarrow> handle_read E command
      | FS_WRITEBLOCK \<Rightarrow> seqp (handle_write E command) (ret [])
      | FS_CREATE \<Rightarrow> seqp (handle_create E junk_inode command) (ret [])
      | FS_DELETE \<Rightarrow> seqp (handle_delete E command) (ret [])
      | INVALID \<Rightarrow> halt Assertion_failed)"

text \<open>The halves and the call between them are \<^verbatim>\<open>handle_request\<close>.\<close>

lemma handle_request_halves:
  "handle_request E N junk ji (fs, k) =
     (case receive_request N junk k of
        (Inl x, k') \<Rightarrow> Some (x, fs, k')
      | (Inr (req, c), k') \<Rightarrow>
          (case call_filesystem E ji c fs of (r, fs') \<Rightarrow> map_option (\<lambda>(x, k''). (x, fs', k'')) (send_reply N req r k')))"
proof -
  obtain y k1 where rm: "receive_message N k = (y, k1)" by fastforce
  show ?thesis
  proof (cases y)
    case (Some req)
    note d = rm Some handle_request_def receive_request_def send_reply_def call_filesystem_def seqp_def bindp_def ret_def
    have ty: "command_type c = parse_command (fst (next_token req))" if "parse_message junk req = Inr c" for c
      by (rule parse_command_type [OF that])
    show ?thesis
      by (cases "parse_message junk req"; cases "parse_command (fst (next_token req))")
        (use ty in \<open>auto simp: d net_handle_read_def net_handle_write_def net_handle_create_def net_handle_delete_def answer_def
          split: prod.splits option.splits sum.splits bool.splits\<close>)
  qed (simp add: rm handle_request_def receive_request_def)
qed

subsection \<open>The loop\<close>

text \<open>
  A thread before it has received its request, while its handler runs, and after \<^verbatim>\<open>handle_request\<close> has returned, when
  the destructor of \<^verbatim>\<open>SocketRAII\<close> has closed the connection.  \<open>Inl\<close> is a failure that ends the server.
\<close>

datatype 'k net_thread = Accepted "'k connection" | Handling "'k connection" string 'k | Returned "stop + int" 'k

record ('d, 'm, 'k) Network =
  nw_server :: "('d, 'm) Server"
  nw_thread :: "nat \<rightharpoonup> 'k net_thread"

definition nw_start :: "('d, 'm) fs_env \<Rightarrow> ('d, 'm) FileSystem \<Rightarrow> ('d, 'm, 'k) Network" where
  "nw_start E fs = \<lparr>nw_server = server_start E fs, nw_thread = Map.empty\<rparr>"

datatype 'k net_event =
  Accept nat "'k connection" | Accept_error | Close nat | Request nat Command | Work nat | Reply nat bool "char list option" | Crash nat

text \<open>A connection whose socket keeps its contract.\<close>

definition good_connection :: "'k connection \<Rightarrow> bool" where
  "good_connection c \<longleftrightarrow> inode_fits (conn_junk_inode c) \<and> (\<exists>pending sent. stream_socket (conn_env c) pending sent)"

inductive net_step :: "('d, 'm) fs_env \<Rightarrow> ('d, 'm, 'k) Network \<Rightarrow> 'k net_event \<Rightarrow> ('d, 'm, 'k) Network \<Rightarrow> bool" for E where
  net_accept: "nw_thread W i = None \<Longrightarrow> good_connection c \<Longrightarrow>
    net_step E W (Accept i c) (W\<lparr>nw_thread := (nw_thread W)(i \<mapsto> Accepted c)\<rparr>)"
| net_accept_error: "net_step E W Accept_error W"
| net_close: "nw_thread W i = Some (Accepted c) \<Longrightarrow> receive_request (conn_env c) (conn_junk c) (conn_state c) = (Inl x, k) \<Longrightarrow>
    net_step E W (Close i) (W\<lparr>nw_thread := (nw_thread W)(i \<mapsto> Returned x k)\<rparr>)"
| net_request: "nw_thread W i = Some (Accepted c) \<Longrightarrow>
    receive_request (conn_env c) (conn_junk c) (conn_state c) = (Inr (req, command), k) \<Longrightarrow> S = nw_server W \<Longrightarrow>
    net_step E W (Request i command)
      (W\<lparr>nw_server := S\<lparr>sv_command := (sv_command S)(i \<mapsto> command),
           sv_task := (sv_task S)(i \<mapsto> request_t E (conn_junk_inode c) command)\<rparr>,
         nw_thread := (nw_thread W)(i \<mapsto> Handling c req k)\<rparr>)"
| net_work: "run_thread i (sv_task (nw_server W), sv_shared (nw_server W)) = Some (ts, s) \<Longrightarrow>
    net_step E W (Work i) (W\<lparr>nw_server := (nw_server W)\<lparr>sv_task := ts, sv_shared := s\<rparr>\<rparr>)"
| net_reply: "nw_thread W i = Some (Handling c req k) \<Longrightarrow> sv_task (nw_server W) i = Some (Done r) \<Longrightarrow>
    outcome r = Some (sp, x) \<Longrightarrow> send_reply (conn_env c) req r k = Some (y, k') \<Longrightarrow> S = nw_server W \<Longrightarrow>
    net_step E W (Reply i sp x)
      (W\<lparr>nw_server := S\<lparr>sv_answered := insert i (sv_answered S)\<rparr>, nw_thread := (nw_thread W)(i \<mapsto> Returned y k')\<rparr>)"
| net_crash: "nw_thread W i = Some (Handling c req k) \<Longrightarrow> sv_task (nw_server W) i = Some (Done (Inl e)) \<Longrightarrow>
    outcome (Inl e) = None \<Longrightarrow> net_step E W (Crash i) (W\<lparr>nw_thread := (nw_thread W)(i \<mapsto> Returned (Inl e) k)\<rparr>)"

inductive_cases net_stepE: "net_step E W e W'"

text \<open>What the file system sees of a step of the network.\<close>

fun fs_events :: "'k net_event \<Rightarrow> server_event list" where
  "fs_events (Request i c) = [Start i c]"
| "fs_events (Work i) = [Run i]"
| "fs_events (Reply i sp x) = [Answer i sp x]"
| "fs_events _ = []"

subsection \<open>What a thread knows of its request\<close>

context stream_socket
begin

lemma receive_request_ends:
  assumes "receive_request N junk k = (Inl x, k')"
  shows "x = Inr (- 1)"
proof -
  have "caught e = Inr (- 1)" if "parse_message junk req = Inl e" "parse_command (fst (next_token req)) \<noteq> INVALID" for e req
    using parse_message_Inl [OF that(1) parse_command_nonempty [OF that(2)]] by (auto simp: caught_def)
  then show ?thesis using assms by (auto simp: receive_request_def split: prod.splits option.splits sum.splits if_splits)
qed

text \<open>The command has been parsed, and a write has its block.\<close>

lemma receive_request_issued:
  assumes "receive_request N junk k = (Inr (req, c), k')"
  shows "issued c" and "command_type c = parse_command (fst (next_token req))"
proof -
  obtain c0 k1 where rm: "receive_message N k = (Some req, k1)" and c0: "parse_message junk req = Inr c0"
    and ty: "parse_command (fst (next_token req)) \<noteq> INVALID"
    and c: "(\<exists>dat k2. command_type c0 = FS_WRITEBLOCK \<and> c = c0\<lparr>data := dat\<rparr> \<and> receive_data N k1 [] = (Some dat, k2)) \<or>
      command_type c0 \<noteq> FS_WRITEBLOCK \<and> c = c0"
    using assms parse_command_type [of junk] by (fastforce simp: receive_request_def split: prod.splits option.splits sum.splits if_splits)
  have ok: "command_ok c0" using parse_message_ok [OF c0 receive_message_Some(1) [OF rm]] .
  note t0 = parse_command_type [OF c0]
  show "command_type c = parse_command (fst (next_token req))" using c t0 by auto
  have "length dat = FS_BLOCKSIZE" if "receive_data N k1 [] = (Some dat, k2)" for dat k2
    using receive_data_props(2) [OF that _ refl] by auto
  moreover have "command_ok (c0\<lparr>data := dat\<rparr>)" for dat using ok by (simp add: command_ok_def)
  ultimately show "issued c" using c ok t0 ty by (auto simp: issued_def)
qed

text \<open>A reply can always be sent, and the result is 0 or -1.\<close>

lemma send_reply_returns:
  assumes "outcome r = Some (sp, x)"
    and "\<And>dat. r = Inr dat \<Longrightarrow> parse_command (fst (next_token req)) = FS_READBLOCK \<Longrightarrow> length dat = FS_BLOCKSIZE"
  shows "\<exists>y k'. send_reply N req r k = Some (y, k')"
proof (cases r)
  case (Inr dat)
  obtain ok k1 where s: "send_message N k req = Some (ok, k1)" using send_message_returns by blast
  show ?thesis
    using s Inr send_data_returns [of dat k1] assms(2) [OF Inr] by (cases ok) (auto simp: send_reply_def)
qed (simp add: send_reply_def)

end

lemma send_reply_result:
  assumes "send_reply N req r k = Some (y, k')" and "outcome r = Some (sp, x)"
  shows "y \<in> {Inr 0, Inr (- 1)}"
  using assms by (cases r rule: outcome.cases)
    (auto simp: send_reply_def caught_def split: option.splits prod.splits bool.splits if_splits)

subsection \<open>The block of a read request\<close>

text \<open>A read request that has taken effect has a whole block as its result.\<close>

definition blocks_whole :: "('d, 'm) Server \<Rightarrow> (nat \<Rightarrow> ghost) \<Rightarrow> bool" where
  "blocks_whole S G \<longleftrightarrow> (\<forall>i c sp x. sv_command S i = Some c \<longrightarrow> command_type c = FS_READBLOCK \<longrightarrow>
     phase (G i) = Committed sp (Some x) \<longrightarrow> length x = FS_BLOCKSIZE)"

context fs_server
begin

lemma answer_keeps:
  assumes "system_inv E V S I G" and "sv_task S i = Some (Done r)"
  shows "system_inv E V (S\<lparr>sv_answered := insert i (sv_answered S)\<rparr>) I G"
proof -
  have "thread_ok E V (S\<lparr>sv_answered := insert i (sv_answered S)\<rparr>) I G = thread_ok E V S I G"
    by (simp add: thread_ok_def fun_eq_iff cong: option.case_cong)
  then show ?thesis using assms by (simp add: system_inv_def)
qed

lemma run_whole:
  assumes inv: "system_inv E V S I G" and w: "blocks_whole S G" and c: "sv_command S i = Some c"
    and k: "commits c (G i) g' (abs_fs E (sh_disk (sv_shared S))) A'"
  shows "blocks_whole (S\<lparr>sv_task := ts, sv_shared := s'\<rparr>) (G(i := g'))"
proof -
  have wf: "fs_wf E (sh_disk (sv_shared S)) I"
    using system_invD(1) [OF inv] by (simp add: server_inv_def block_inv_def)
  have "length x = FS_BLOCKSIZE" if "command_type c = FS_READBLOCK" "phase g' = Committed sp (Some x)" for sp x
  proof -
    note h = that
    from k h(2) consider "phase (G i) = Committed sp (Some x)"
      | "spec_read (abs_fs E (sh_disk (sv_shared S))) (username c) (path_of c) (block c) = Some x"
      using h(1) by (auto simp: commits_def spec_request_def)
    then show ?thesis using w c h(1) spec_read_length [OF wf] unfolding blocks_whole_def by cases blast+
  qed
  then show ?thesis using w c by (auto simp: blocks_whole_def)
qed

lemma whole_reaches:
  assumes "execution (server_step E) (server_start E fs) es S" and "quiescent E fs I"
  shows "\<exists>I G. system_inv E V S I G \<and> blocks_whole S G"
  using assms
proof (induction rule: execution.induct)
  case execution_start
  have "blocks_whole (server_start E fs) (\<lambda>_. idle)" by (simp add: blocks_whole_def server_start_def)
  then show ?case using server_start_inv [OF execution_start] by blast
next
  case (execution_step es S e S')
  then obtain I G where inv: "system_inv E V S I G" and w: "blocks_whole S G" by blast
  from execution_step(2) show ?case
  proof cases
    case 1: (step_start i c junk)
    have "G i = idle" using system_invD(3) [OF inv 1(3)] by simp
    then have "blocks_whole S' G" using w 1(2) by (auto simp: blocks_whole_def idle_def)
    then show ?thesis using start_keeps [OF inv 1(3-5)] 1(2) by blast
  next
    case 2: (step_run i ts s)
    from task_step_keeps [OF inv 2(3)] show ?thesis using run_whole [OF inv w] 2(2) by blast
  next
    case 3: (step_answer i r sp x)
    have "blocks_whole S' G" using w 3(2) by (simp add: blocks_whole_def)
    then show ?thesis using answer_keeps [OF inv 3(3)] 3(2) by blast
  qed
qed

end

subsection \<open>Every execution of the network is one of the file system\<close>

definition net_thread_ok :: "('d, 'm) Server \<Rightarrow> nat \<Rightarrow> 'k net_thread option \<Rightarrow> bool" where
  "net_thread_ok S i th \<longleftrightarrow>
     (case th of
        None \<Rightarrow> sv_task S i = None
      | Some (Accepted c) \<Rightarrow> sv_task S i = None \<and> good_connection c
      | Some (Handling c req k) \<Rightarrow> good_connection c \<and> sv_task S i \<noteq> None \<and> i \<notin> sv_answered S \<and>
          (\<exists>d. sv_command S i = Some d \<and> command_type d = parse_command (fst (next_token req)))
      | Some (Returned x k) \<Rightarrow> x \<in> {Inr 0, Inr (- 1)} \<and> (\<forall>t. sv_task S i = Some t \<longrightarrow> (\<exists>r. t = Done r)))"

definition net_inv :: "('d, 'm, 'k) Network \<Rightarrow> bool" where
  "net_inv W \<longleftrightarrow> (\<forall>i. net_thread_ok (nw_server W) i (nw_thread W i))"

lemma net_invD: "net_inv W \<Longrightarrow> nw_thread W i = th \<Longrightarrow> net_thread_ok (nw_server W) i th"
  by (auto simp: net_inv_def)

text \<open>A thread is not concerned by a step of another.\<close>

lemma net_thread_ok_other:
  assumes "net_thread_ok S i th" and "sv_task S' i = sv_task S i" and "sv_command S' i = sv_command S i"
    and "i \<in> sv_answered S' \<longleftrightarrow> i \<in> sv_answered S"
  shows "net_thread_ok S' i th"
  using assms by (simp add: net_thread_ok_def split: option.splits net_thread.splits)

lemma net_inv_step:
  assumes "net_inv W" and "net_thread_ok (nw_server W') i (nw_thread W' i)"
    and "\<And>j. j \<noteq> i \<Longrightarrow> nw_thread W' j = nw_thread W j \<and> sv_task (nw_server W') j = sv_task (nw_server W) j \<and>
      sv_command (nw_server W') j = sv_command (nw_server W) j \<and>
      (j \<in> sv_answered (nw_server W') \<longleftrightarrow> j \<in> sv_answered (nw_server W))"
  shows "net_inv W'"
  unfolding net_inv_def
proof
  fix j
  show "net_thread_ok (nw_server W') j (nw_thread W' j)"
  proof (cases "j = i")
    case False
    then show ?thesis using net_thread_ok_other [of "nw_server W" j] net_invD [OF assms(1)] assms(3) [OF False] by metis
  qed (use assms(2) in simp)
qed

context fs_server
begin

lemma net_step_projects:
  fixes W W' :: "('d, 'm, 'k) Network"
  assumes st: "net_step E W e W'" and inv: "net_inv W"
    and sys: "system_inv E V (nw_server W) I G"
  shows "execution (server_step E) (nw_server W) (fs_events e) (nw_server W') \<and> net_inv W'"
  using st
proof cases
  case 1: (net_accept i c)
  note ok = net_invD [OF inv 1(3), unfolded net_thread_ok_def]
  have "net_inv W'" by (intro net_inv_step [OF inv, of W' i]) (use 1 ok in \<open>simp_all add: net_thread_ok_def\<close>)
  then show ?thesis using 1 execution_start by simp
next
  case 2: net_accept_error
  then show ?thesis using inv execution_start by simp
next
  case 3: (net_close i c x k)
  note ok = net_invD [OF inv 3(3), unfolded net_thread_ok_def]
  then obtain pending sent where "stream_socket (conn_env c) pending sent" by (auto simp: good_connection_def)
  from stream_socket.receive_request_ends [OF this 3(4)] have "x = Inr (- 1)" .
  then have "net_inv W'" by (intro net_inv_step [OF inv, of W' i]) (use 3 ok in \<open>simp_all add: net_thread_ok_def\<close>)
  then show ?thesis using 3 execution_start by simp
next
  case 4: (net_request i c req command k S)
  note ok = net_invD [OF inv 4(3), unfolded net_thread_ok_def]
  then obtain pending sent where "stream_socket (conn_env c) pending sent" by (auto simp: good_connection_def)
  note rr = stream_socket.receive_request_issued [OF this 4(4)]
  have none: "sv_task (nw_server W) i = None" "inode_fits (conn_junk_inode c)" using ok by (simp_all add: good_connection_def)
  have "i \<notin> sv_answered (nw_server W)" using system_invD(3) [OF sys none(1)] by simp
  then have "net_inv W'" by (intro net_inv_step [OF inv, of W' i]) (use 4 ok rr(2) in \<open>simp_all add: net_thread_ok_def\<close>)
  moreover have "server_step E (nw_server W) (Start i command) (nw_server W')"
    using step_start [OF none(1) rr(1) none(2)] 4 by simp
  ultimately show ?thesis using single_step [of "server_step E"] 4(1) by simp
next
  case 5: (net_work i ts s)
  obtain f t where t: "sv_task (nw_server W) i = Some (Step f)" "ts = (sv_task (nw_server W))(i \<mapsto> t)"
    using 5(3) by (auto simp: run_thread_def split: option.splits task.splits)
  have "net_thread_ok (nw_server W') i (nw_thread W i)"
    using net_invD [OF inv, of i, OF refl] t 5(2) by (simp add: net_thread_ok_def split: option.splits net_thread.splits)
  then have "net_inv W'" by (intro net_inv_step [OF inv, of W' i]) (use 5(2) t in simp_all)
  moreover have "server_step E (nw_server W) (Run i) (nw_server W')" using step_run [OF 5(3)] 5(2) by simp
  ultimately show ?thesis using single_step [of "server_step E"] 5(1) by simp
next
  case 6: (net_reply i c req k r sp x y k' S)
  note ok = net_invD [OF inv 6(3), unfolded net_thread_ok_def]
  have "net_inv W'"
    by (intro net_inv_step [OF inv, of W' i]) (use 6 send_reply_result [OF 6(6,5)] in \<open>simp_all add: net_thread_ok_def\<close>)
  moreover have "server_step E (nw_server W) (Answer i sp x) (nw_server W')"
    using step_answer [OF 6(4,5)] ok 6 by simp
  ultimately show ?thesis using single_step [of "server_step E"] 6(1) by simp
next
  case 7: (net_crash i c req k e)
  from done_finished(2) [OF sys 7(4)] 7(5) show ?thesis by simp
qed

lemma net_projects:
  fixes W :: "('d, 'm, 'k) Network"
  assumes "execution (net_step E) (nw_start E fs) es W" and "quiescent E fs I"
  shows "execution (server_step E) (server_start E fs) (concat (map fs_events es)) (nw_server W) \<and> net_inv W"
  using assms
proof (induction rule: execution.induct)
  case execution_start
  then show ?case using execution.execution_start [of "server_step E"]
    by (simp add: nw_start_def net_inv_def net_thread_ok_def server_start_def)
next
  case (execution_step es W e W')
  then have IH: "execution (server_step E) (server_start E fs) (concat (map fs_events es)) (nw_server W)" "net_inv W" by blast+
  obtain I' G where "system_inv E V (nw_server W) I' G" using server_reaches [OF execution_step(4) IH(1)] by blast
  from net_step_projects [OF execution_step(2) IH(2) this] show ?case using execution_append [OF _ IH(1)] by auto
qed

lemma reply_whole:
  fixes W :: "('d, 'm, 'k) Network"
  assumes inv: "net_inv W" and ex: "execution (server_step E) (server_start E fs) fes (nw_server W)" and q: "quiescent E fs I"
    and th: "nw_thread W i = Some (Handling c req k)" and d: "sv_task (nw_server W) i = Some (Done (Inr dat))"
    and ty: "parse_command (fst (next_token req)) = FS_READBLOCK"
  shows "length dat = FS_BLOCKSIZE"
proof -
  obtain I' G where sys: "system_inv E V (nw_server W) I' G" and w: "blocks_whole (nw_server W) G"
    using whole_reaches [OF ex q] by blast
  have "phase (G i) = Committed True (Some dat)" using done_finished(2) [OF sys d] by auto
  then show ?thesis using w net_invD [OF inv th] ty by (auto simp: blocks_whole_def net_thread_ok_def)
qed

text \<open>The reply to a request whose handler has ended can be sent.\<close>

lemma reply_enabled:
  fixes W :: "('d, 'm, 'k) Network"
  assumes inv: "net_inv W" and ex: "execution (server_step E) (server_start E fs) fes (nw_server W)" and q: "quiescent E fs I"
    and th: "nw_thread W i = Some (Handling c req k)" and d: "sv_task (nw_server W) i = Some (Done r)"
  shows "\<exists>sp x W'. net_step E W (Reply i sp x) W'"
proof -
  obtain I' G where sys: "system_inv E V (nw_server W) I' G" using server_reaches [OF q ex] by blast
  obtain sp x where o: "outcome r = Some (sp, x)" using done_finished(2) [OF sys d] by blast
  note ok = net_invD [OF inv th, unfolded net_thread_ok_def]
  then obtain pending sent where sk: "stream_socket (conn_env c) pending sent" by (auto simp: good_connection_def)
  have "length dat = FS_BLOCKSIZE" if "r = Inr dat" "parse_command (fst (next_token req)) = FS_READBLOCK" for dat
    using reply_whole [OF inv ex q th] d that by simp
  then obtain y k' where "send_reply (conn_env c) req r k = Some (y, k')"
    using stream_socket.send_reply_returns [OF sk o] by metis
  then show ?thesis using net_reply [OF th d o _ refl] by blast
qed

text \<open>Some thread can go on, or all have returned.\<close>

lemma net_progress:
  fixes W :: "('d, 'm, 'k) Network"
  assumes ex: "execution (net_step E) (nw_start E fs) es W" and q: "quiescent E fs I" and no: "\<not> leaked (nw_server W)"
  shows "(\<exists>e W'. net_step E W e W' \<and> e \<noteq> Accept_error \<and> (\<nexists>i c. e = Accept i c)) \<or>
    (\<forall>i th. nw_thread W i = Some th \<longrightarrow> (\<exists>x k. th = Returned x k)) \<and> sh_map (sv_shared (nw_server W)) = Map.empty"
proof -
  note P = net_projects [OF ex q]
  obtain I' G where sys: "system_inv E V (nw_server W) I' G" using server_reaches [OF q] P by blast
  consider i c where "nw_thread W i = Some (Accepted c)" | i f where "sv_task (nw_server W) i = Some (Step f)"
    | i c req k r where "nw_thread W i = Some (Handling c req k)" "sv_task (nw_server W) i = Some (Done r)"
    | "\<forall>i th. nw_thread W i = Some th \<longrightarrow> (\<exists>x k. th = Returned x k)" "\<forall>i t. sv_task (nw_server W) i = Some t \<longrightarrow> (\<exists>r. t = Done r)"
  proof -
    have "\<exists>t. sv_task (nw_server W) i = Some t" if "nw_thread W i = Some (Handling c req k)" for i c req k
      using P net_invD [of W i, OF _ that] by (auto simp: net_thread_ok_def)
    then show ?thesis using that by (metis net_thread.exhaust task.exhaust)
  qed
  then show ?thesis
  proof cases
    case (1 i c)
    obtain y k where y: "receive_request (conn_env c) (conn_junk c) (conn_state c) = (y, k)" by fastforce
    show ?thesis
    proof (cases y)
      case (Inl x)
      from net_close [OF 1 y [unfolded Inl], of E] show ?thesis by blast
    next
      case (Inr rd)
      then obtain req d where "y = Inr (req, d)" by (cases rd) simp
      from net_request [OF 1 y [unfolded this] refl, of E] show ?thesis by blast
    qed
  next
    case (2 i f)
    then obtain j S' where "server_step E (nw_server W) (Run j) S'" using some_thread_runs [OF sys no] by blast
    from net_work [OF run_step_thread [OF this]] show ?thesis by blast
  next
    case (3 i c req k r)
    then show ?thesis using reply_enabled [OF _ _ q 3] P by blast
  next
    case 4
    then show ?thesis using all_unlocked [OF sys no] by blast
  qed
qed

end

subsection \<open>A connection alone\<close>

text \<open>
  A connection that is served without other threads in between has the result of the sequential \<open>handle_request\<close>.
\<close>

lemma agree_call: "agree (call_filesystem E ji c) (request_t E ji c)"
  by (cases "command_type c") (simp_all add: call_filesystem_def request_t_def agree_handle_read agree_handle_write
      agree_handle_create agree_handle_delete agree_seq agree_basic)

lemma work_alone:
  assumes "execution (server_step E) S0 es S" and "set es \<subseteq> {Run i}" and "nw_server W = S0"
  shows "\<exists>fs. execution (net_step E) W fs (W\<lparr>nw_server := S\<rparr>)"
  using assms
proof (induction rule: execution.induct)
  case execution_start
  then have "W\<lparr>nw_server := S0\<rparr> = W" by auto
  then show ?case using execution.execution_start [of "net_step E" W] by metis
next
  case (execution_step es S e S')
  then obtain fs where fs: "execution (net_step E) W fs (W\<lparr>nw_server := S\<rparr>)" by auto
  have "server_step E S (Run i) S'" using execution_step by simp
  then obtain ts s where "run_thread i (sv_task S, sv_shared S) = Some (ts, s)" "S' = S\<lparr>sv_task := ts, sv_shared := s\<rparr>"
    by (cases rule: server_step.cases) auto
  then have "net_step E (W\<lparr>nw_server := S\<rparr>) (Work i) (W\<lparr>nw_server := S'\<rparr>)"
    using net_work [of i "W\<lparr>nw_server := S\<rparr>" ts s E] by simp
  from execution.execution_step [of "net_step E", OF fs this] show ?case by blast
qed

lemma served_alone:
  assumes f: "same_fs fs (sv_shared (nw_server W))" and th: "nw_thread W i = Some (Accepted c)"
    and h: "handle_request E (conn_env c) (conn_junk c) (conn_junk_inode c) (fs, conn_state c) = Some (Inr x, fs', k')"
  shows "\<exists>es W'. execution (net_step E) W es W' \<and> nw_thread W' = (nw_thread W)(i \<mapsto> Returned (Inr x) k') \<and>
    same_fs fs' (sv_shared (nw_server W'))"
proof -
  obtain y k where y: "receive_request (conn_env c) (conn_junk c) (conn_state c) = (y, k)" by fastforce
  note h' = h [unfolded handle_request_halves y prod.case]
  show ?thesis
  proof (cases y)
    case (Inl z)
    then have "z = Inr x" "fs' = fs" "k' = k" using h' by simp_all
    then show ?thesis using single_step [of "net_step E", OF net_close [OF th y [unfolded Inl]]] f by fastforce
  next
    case (Inr rd)
    then obtain req d where rd: "y = Inr (req, d)" by (cases rd) simp
    let ?S = "nw_server W"
    let ?S1 = "?S\<lparr>sv_command := (sv_command ?S)(i \<mapsto> d), sv_task := (sv_task ?S)(i \<mapsto> request_t E (conn_junk_inode c) d)\<rparr>"
    let ?W1 = "W\<lparr>nw_server := ?S1, nw_thread := (nw_thread W)(i \<mapsto> Handling c req k)\<rparr>"
    note one = single_step [of "net_step E", OF net_request [OF th y [unfolded rd] refl]]
    obtain r fs1 where cf: "call_filesystem E (conn_junk_inode c) d fs = (r, fs1)" by fastforce
    then have sr: "send_reply (conn_env c) req r k = Some (Inr x, k')" "fs1 = fs'" using h' rd by auto
    obtain H where so: "solo (request_t E (conn_junk_inode c) d) (sv_shared ?S) = (r, H)" "same_fs fs' H"
      using agreeD [OF agree_call f, of E "conn_junk_inode c" d] cf sr(2)
      by (cases "solo (request_t E (conn_junk_inode c) d) (sv_shared ?S)") auto
    have nb: "r \<noteq> Inl Blocked" using sr(1) by (auto simp: send_reply_def caught_def)
    obtain sp z where o: "outcome r = Some (sp, z)"
      using sr(1) by (cases r rule: outcome.cases) (auto simp: send_reply_def caught_def)
    let ?S2 = "?S1\<lparr>sv_task := (sv_task ?S1)(i \<mapsto> Done r), sv_shared := H\<rparr>"
    have s1: "nw_server ?W1 = ?S1" by simp
    obtain es where es: "execution (server_step E) ?S1 es ?S2" "set es \<subseteq> {Run i}"
      using solo_runs [of ?S1 i, OF _ _ nb, of _ H E] so(1) by (auto simp del: fun_upd_apply simp: fun_upd_same)
    obtain fs2 where two: "execution (net_step E) ?W1 fs2 (?W1\<lparr>nw_server := ?S2\<rparr>)"
      using work_alone [OF es s1] by (elim exE) (rule that)
    let ?W2 = "?W1\<lparr>nw_server := ?S2\<rparr>"
    have "nw_thread ?W2 i = Some (Handling c req k)" "sv_task (nw_server ?W2) i = Some (Done r)" by simp_all
    note three = single_step [of "net_step E", OF net_reply [OF this o sr(1) refl]]
    note all = execution_append [OF three execution_append [OF two one]]
    then show ?thesis using so(2) by (intro exI conjI) (auto simp: fun_upd_upd)
  qed
qed

end
