(* ===== verification/Net_Client.thy ===== *)
theory Net_Client
  imports Net_Refine
begin

text \<open>
  The server over a connection that works: a client that sends one well-formed request gets the
  reply that the abstract file system prescribes (the calls of \<^verbatim>\<open>src/filesys/fs_client.h\<close>).
\<close>

subsection \<open>Connections that work\<close>

locale reliable_socket = stream_socket +
  assumes recv_ready: "pending k \<noteq> [] \<Longrightarrow> 0 < n \<Longrightarrow> \<exists>bs k'. env_recv N k n = (Some bs, k') \<and> bs \<noteq> []"
    and send_ready: "bs \<noteq> [] \<Longrightarrow> fst (env_send N k bs) \<noteq> None"
begin

lemma receive_loop_all:
  assumes "pending k = new @ NUL # rest" and "NUL \<notin> set new" and "length (r @ new) \<le> MAX_MESSAGE_SIZE"
  shows "\<exists>k'. receive_loop N k r = (Some (r @ new), k') \<and> pending k' = rest \<and> sent k' = sent k"
  using assms
proof (induction new arbitrary: k r)
  case Nil
  obtain c cs k1 where rv: "env_recv N k 1 = (Some (c # cs), k1)"
    using recv_ready [of k 1] Nil.prems(1) by (metis append_Nil list.distinct(1) neq_Nil_conv zero_less_one)
  note p = recv_some [OF rv]
  then have "c = NUL" "pending k1 = rest" using Nil.prems(1) by auto
  then show ?case using rv p by (simp add: receive_loop.simps [of N k r])
next
  case (Cons a new)
  obtain c cs k1 where rv: "env_recv N k 1 = (Some (c # cs), k1)"
    using recv_ready [of k 1] Cons.prems(1) by (metis append_is_Nil_conv list.distinct(1) neq_Nil_conv zero_less_one)
  note p = recv_some [OF rv]
  then have c: "c = a" "c \<noteq> NUL" "pending k1 = new @ NUL # rest" using Cons.prems(1,2) by auto
  have len: "length ((r @ [c]) @ new) \<le> MAX_MESSAGE_SIZE" using Cons.prems(3) by simp
  obtain k' where "receive_loop N k1 (r @ [c]) = (Some ((r @ [c]) @ new), k')" "pending k' = rest" "sent k' = sent k1"
    using Cons.IH [OF c(3) _ len] Cons.prems(2) by auto
  then show ?case using rv p c(1,2) len by (simp add: receive_loop.simps [of N k r])
qed

lemma receive_message_all:
  assumes "pending k = req @ NUL # rest" and "NUL \<notin> set req" and "length req \<le> MAX_MESSAGE_SIZE"
  shows "\<exists>k'. receive_message N k = (Some req, k') \<and> pending k' = rest \<and> sent k' = sent k"
  using receive_loop_all [of k req rest "[]"] assms by (simp add: receive_message_def)

lemma receive_data_all:
  assumes "pending k = new @ rest" and "length (r @ new) = FS_BLOCKSIZE"
  shows "\<exists>k'. receive_data N k r = (Some (r @ new), k') \<and> pending k' = rest \<and> sent k' = sent k"
  using assms
proof (induction "length new" arbitrary: k r new rule: less_induct)
  case less
  show ?case
  proof (cases "new = []")
    case True
    then show ?thesis using less.prems by (simp add: receive_data.simps [of N k r])
  next
    case False
    have "length r + length new = FS_BLOCKSIZE" "0 < length new" using less.prems(2) False by simp_all
    then have sz: "length r < FS_BLOCKSIZE" "FS_BLOCKSIZE - length r = length new" by linarith+
    obtain c cs k1 where rv: "env_recv N k (FS_BLOCKSIZE - length r) = (Some (c # cs), k1)"
      using recv_ready [of k "length new"] less.prems(1) False sz(2)
      by (metis append_is_Nil_conv length_greater_0_conv neq_Nil_conv)
    note p = recv_some [OF rv]
    define new' where "new' = drop (length (c # cs)) new"
    have eq: "(c # cs) @ pending k1 = new @ rest" "length (c # cs) \<le> length new"
      using p less.prems(1) sz(2) by auto
    then have "c # cs = take (length (c # cs)) new" by (metis append_eq_append_conv_if append_eq_conv_conj)
    then have split: "new = (c # cs) @ new'" unfolding new'_def by (metis append_take_drop_id)
    have "pending k1 = new' @ rest" using eq(1) split by simp
    moreover have "length ((r @ c # cs) @ new') = FS_BLOCKSIZE" using less.prems(2) split by simp
    moreover have "length new' < length new" using split by simp
    ultimately obtain k' where "receive_data N k1 (r @ c # cs) = (Some ((r @ c # cs) @ new'), k')"
      "pending k' = rest" "sent k' = sent k1"
      using less.hyps by blast
    then show ?thesis using rv p sz(1) split by (simp add: receive_data.simps [of N k r])
  qed
qed

lemma send_loop_all:
  assumes "s < len" "len \<le> length msg"
  shows "\<exists>k'. send_loop N msg len s k = Some (True, k') \<and> sent k' = sent k @ drop s (take len msg)"
proof -
  obtain ok k' where r: "send_loop N msg len s k = Some (ok, k')"
    "ok \<longrightarrow> sent k' = sent k @ drop s (take len msg)"
    using send_loop_returns [OF assms] by blast
  have ok: "ok'" if "send_loop N msg len s k = Some (ok', k')" "s < len" for ok' k' s k
    using that
  proof (induction "len - s" arbitrary: s k rule: less_induct)
    case less
    have ne: "take (len - s) (drop s msg) \<noteq> []" using less.prems(2) assms(2) by simp
    obtain n k1 where sd: "env_send N k (take (len - s) (drop s msg)) = (Some n, k1)"
      using send_ready [OF ne, of k] by (cases "env_send N k (take (len - s) (drop s msg))") auto
    have n: "0 < n" using send_some [OF sd ne] by simp
    show ?case
    proof (cases "s + n < len")
      case True
      then have "send_loop N msg len (s + n) k1 = Some (ok', k')"
        using less.prems(1) sd by (simp add: send_loop.simps [of N msg len s])
      moreover have "len - (s + n) < len - s" using n True by simp
      ultimately show ?thesis using less.hyps True by blast
    next
      case False
      then show ?thesis using less.prems(1) sd by (simp add: send_loop.simps [of N msg len s])
    qed
  qed
  show ?thesis using r ok [OF r(1) assms(1)] by (intro exI [of _ k']) simp
qed

lemma send_all:
  "\<exists>k'. send_message N k resp = Some (True, k') \<and> sent k' = sent k @ resp @ [NUL]"
  "length dat = FS_BLOCKSIZE \<Longrightarrow> \<exists>k'. send_data N k dat = Some (True, k') \<and> sent k' = sent k @ dat"
  using send_loop_all [of 0 "length resp + 1" "c_str resp" k] send_loop_all [of 0 FS_BLOCKSIZE dat k]
  by (simp_all add: send_message_def send_data_def c_str_def FS_BLOCKSIZE_def)

end

text \<open>A connection as two byte queues: an instance of the contract.\<close>

definition pipe_env :: "(char list \<times> char list) sock_env" where
  "pipe_env =
     \<lparr>env_recv = (\<lambda>(p, s) n. (Some (take n p), (drop n p, s))),
      env_send = (\<lambda>(p, s) bs. (Some (length bs), (p, s @ bs)))\<rparr>"

interpretation pipe: reliable_socket pipe_env fst snd
  by unfold_locales (auto simp: pipe_env_def)

subsection \<open>Requests fit the message buffer\<close>

lemma decimal_short: "b < 1000 \<Longrightarrow> length (decimal b) \<le> 3"
  by (simp add: decimal.simps [of b] decimal.simps [of "b div 10"] decimal.simps [of "b div 10 div 10"])

lemma request_bounds:
  assumes u: "user_ok u" and p: "path_names_ok xs"
  shows "b < FS_MAXFILEBLOCKS \<Longrightarrow> length (read_request u (join_path xs) b) \<le> MAX_MESSAGE_SIZE"
    and "b < FS_MAXFILEBLOCKS \<Longrightarrow> length (write_request u (join_path xs) b) \<le> MAX_MESSAGE_SIZE"
    and "length (create_request u (join_path xs) t) \<le> MAX_MESSAGE_SIZE"
    and "length (delete_request u (join_path xs)) \<le> MAX_MESSAGE_SIZE"
proof -
  have len: "length u \<le> 10" "length (join_path xs) \<le> 128"
    using u p by (simp_all add: user_ok_def path_names_ok_def fs_params)
  have b: "length (decimal b) \<le> 3" if "b < FS_MAXFILEBLOCKS" using that by (intro decimal_short) (simp add: fs_params)
  show "length (read_request u (join_path xs) b) \<le> MAX_MESSAGE_SIZE" if "b < FS_MAXFILEBLOCKS"
    using len b [OF that] by (simp add: read_request_def MAX_MESSAGE_SIZE_def fs_params)
  show "length (write_request u (join_path xs) b) \<le> MAX_MESSAGE_SIZE" if "b < FS_MAXFILEBLOCKS"
    using len b [OF that] by (simp add: write_request_def MAX_MESSAGE_SIZE_def fs_params)
  show "length (create_request u (join_path xs) t) \<le> MAX_MESSAGE_SIZE"
    using len by (simp add: create_request_def MAX_MESSAGE_SIZE_def fs_params)
  show "length (delete_request u (join_path xs)) \<le> MAX_MESSAGE_SIZE"
    using len by (simp add: delete_request_def MAX_MESSAGE_SIZE_def fs_params)
qed

lemma NUL_decimal: "NUL \<notin> set (decimal b)"
  using decimal_digits [of NUL b] by (auto simp: isdigit_def)

lemma request_no_NUL:
  assumes u: "user_ok u" and p: "path_names_ok xs"
  shows "NUL \<notin> set (read_request u (join_path xs) b)" "NUL \<notin> set (write_request u (join_path xs) b)"
    "t \<in> {CHR ''f'', CHR ''d''} \<Longrightarrow> NUL \<notin> set (create_request u (join_path xs) t)"
    "NUL \<notin> set (delete_request u (join_path xs))"
proof -
  have "NUL \<notin> set u" "NUL \<notin> set (join_path xs)"
    using u p by (auto simp: user_ok_def path_names_ok_def list_all_iff join_path_def)
  then show "NUL \<notin> set (read_request u (join_path xs) b)" "NUL \<notin> set (write_request u (join_path xs) b)"
    "t \<in> {CHR ''f'', CHR ''d''} \<Longrightarrow> NUL \<notin> set (create_request u (join_path xs) t)"
    "NUL \<notin> set (delete_request u (join_path xs))"
    using NUL_decimal
    by (auto simp: read_request_def write_request_def create_request_def delete_request_def)
qed

lemma path_names_path_ok: "path_names_ok xs \<Longrightarrow> path_ok (join_path xs) xs"
  by (auto simp: path_names_ok_def path_ok_def list_all_iff)

lemma request_command:
  assumes "user_ok u"
  shows "parse_command (fst (next_token (read_request u p b))) = FS_READBLOCK"
    "parse_command (fst (next_token (write_request u p b))) = FS_WRITEBLOCK"
    "parse_command (fst (next_token (create_request u p t))) = FS_CREATE"
    "parse_command (fst (next_token (delete_request u p))) = FS_DELETE"
  unfolding read_request_def write_request_def create_request_def delete_request_def next_token_command
  by (simp_all add: parse_command_def)

subsection \<open>One request, one reply\<close>

locale working_server = fs_device E + reliable_socket N pending sent
  for E :: "('d, 'm) fs_env" and N :: "'k sock_env" and pending sent
begin

lemma answer_works:
  assumes imp: "implements E fs I r R"
  shows "R = None \<Longrightarrow> answer N req r k (\<lambda>_ k1. Some (True, k1)) = Some (Inr (- 1), fs, k)"
    and "R = Some A \<Longrightarrow> \<exists>fs' k' I'. answer N req r k (\<lambda>_ k1. Some (True, k1)) = Some (Inr 0, fs', k') \<and>
      sent k' = sent k @ req @ [NUL] \<and> abs_fs E (disk fs') = A \<and> quiescent E fs' I' \<and>
      accounted E fs' I' = accounted E fs I"
proof -
  show "answer N req r k (\<lambda>_ k1. Some (True, k1)) = Some (Inr (- 1), fs, k)" if "R = None"
    using imp that by (auto simp: implements_def answer_def)
  assume "R = Some A"
  then obtain fs' I' where r: "r = (Inr (), fs')" "abs_fs E (disk fs') = A" "quiescent E fs' I'"
    "accounted E fs' I' = accounted E fs I" using imp by (auto simp: implements_def)
  obtain k' where "send_message N k req = Some (True, k')" "sent k' = sent k @ req @ [NUL]"
    using send_all(1) by blast
  then show "\<exists>fs' k' I'. answer N req r k (\<lambda>_ k1. Some (True, k1)) = Some (Inr 0, fs', k') \<and>
      sent k' = sent k @ req @ [NUL] \<and> abs_fs E (disk fs') = A \<and> quiescent E fs' I' \<and>
      accounted E fs' I' = accounted E fs I"
    using r by (intro exI [of _ fs'] exI [of _ k'] exI [of _ I']) (simp add: answer_def)
qed

lemma client_read:
  assumes q: "quiescent E fs I" and u: "user_ok u" and p: "path_names_ok p" and b: "b < FS_MAXFILEBLOCKS"
    and msg: "pending k = read_request u (join_path p) b @ NUL # rest"
  shows "\<exists>k'. case spec_read (abs_fs E (disk fs)) u p b of
      None \<Rightarrow> handle_request E N junk ji (fs, k) = Some (Inr (- 1), fs, k') \<and> sent k' = sent k
    | Some dat \<Rightarrow> handle_request E N junk ji (fs, k) = Some (Inr 0, fs, k') \<and>
        sent k' = sent k @ read_request u (join_path p) b @ [NUL] @ dat"
proof -
  let ?req = "read_request u (join_path p) b"
  let ?c = "junk\<lparr>username := u, pathname := join_path p, command_type := FS_READBLOCK, block := b\<rparr>"
  have wf: "fs_wf E (disk fs) I" and tab: "lock_map fs = Map.empty" using q by (simp_all add: quiescent_def)
  obtain k1 where k1: "receive_message N k = (Some ?req, k1)" "sent k1 = sent k"
    using receive_message_all [OF msg request_no_NUL(1) [OF u p] request_bounds(1) [OF u p b]] by blast
  have go: "handle_request E N junk ji (fs, k) = answer N ?req (handle_read E ?c fs) k1 (\<lambda>dat k'. send_data N k' dat)"
    using k1(1) by (simp add: handle_request_def request_command [OF u] net_handle_read_def parse_requests(1) [OF u p b])
  obtain e where h: "handle_read E ?c fs = (case spec_read (abs_fs E (disk fs)) u p b of
      Some dat \<Rightarrow> (Inr dat, fs) | None \<Rightarrow> (Inl (Runtime_error e), fs))"
    using handle_read_refines [OF wf _ tab, of ?c p] path_names_path_ok [OF p] by auto
  show ?thesis
  proof (cases "spec_read (abs_fs E (disk fs)) u p b")
    case None
    then show ?thesis using go h k1(2) by (intro exI [of _ k1]) (simp add: answer_def)
  next
    case (Some dat)
    obtain k2 where k2: "send_message N k1 ?req = Some (True, k2)" "sent k2 = sent k1 @ ?req @ [NUL]"
      using send_all(1) by blast
    obtain k3 where "send_data N k2 dat = Some (True, k3)" "sent k3 = sent k2 @ dat"
      using send_all(2) [OF spec_read_length [OF wf Some]] by blast
    then show ?thesis using go h k1(2) k2 Some by (intro exI [of _ k3]) (simp add: answer_def)
  qed
qed

lemma client_write:
  assumes q: "quiescent E fs I" and u: "user_ok u" and p: "path_names_ok p" and b: "b < FS_MAXFILEBLOCKS"
    and len: "length dat = FS_BLOCKSIZE" and msg: "pending k = write_request u (join_path p) b @ NUL # dat @ rest"
  shows "case spec_write (free_block_list fs \<noteq> []) (abs_fs E (disk fs)) u p b dat of
      None \<Rightarrow> \<exists>k'. handle_request E N junk ji (fs, k) = Some (Inr (- 1), fs, k') \<and> sent k' = sent k
    | Some A \<Rightarrow> \<exists>fs' k' I'. handle_request E N junk ji (fs, k) = Some (Inr 0, fs', k') \<and>
        sent k' = sent k @ write_request u (join_path p) b @ [NUL] \<and> abs_fs E (disk fs') = A \<and>
        quiescent E fs' I' \<and> accounted E fs' I' = accounted E fs I"
proof -
  let ?req = "write_request u (join_path p) b"
  let ?c = "junk\<lparr>username := u, pathname := join_path p, command_type := FS_WRITEBLOCK, block := b, data := dat\<rparr>"
  let ?R = "spec_write (free_block_list fs \<noteq> []) (abs_fs E (disk fs)) u p b dat"
  obtain k1 where k1: "receive_message N k = (Some ?req, k1)" "pending k1 = dat @ rest" "sent k1 = sent k"
    using receive_message_all [OF msg request_no_NUL(2) [OF u p] request_bounds(2) [OF u p b]] by blast
  obtain k2 where k2: "receive_data N k1 [] = (Some dat, k2)" "sent k2 = sent k1"
    using receive_data_all [of k1 dat rest "[]"] k1(2) len by auto
  have go: "handle_request E N junk ji (fs, k) = answer N ?req (handle_write E ?c fs) k2 (\<lambda>_ k'. Some (True, k'))"
    using k1(1) k2(1)
    by (simp add: handle_request_def request_command [OF u] net_handle_write_def parse_requests(2) [OF u p b])
  have imp: "implements E fs I (handle_write E ?c fs) ?R"
    using handle_write_refines [OF q, of ?c p] path_names_path_ok [OF p] len by simp
  show ?thesis using answer_works(1) [OF imp, where req = ?req and k = k2]
      answer_works(2) [OF imp, where req = ?req and k = k2] go k1(3) k2(2) by (cases ?R) auto
qed

lemma client_create:
  assumes q: "quiescent E fs I" and u: "user_ok u" and p: "path_names_ok p" and t: "t \<in> {CHR ''f'', CHR ''d''}"
    and ji: "inode_fits ji" and room: "\<And>n. n \<in> I \<Longrightarrow> is_dir E (disk fs) n \<Longrightarrow> create_room E fs n"
    and msg: "pending k = create_request u (join_path p) t @ NUL # rest"
  shows "case spec_create True (abs_fs E (disk fs)) u p t of
      None \<Rightarrow> \<exists>k'. handle_request E N junk ji (fs, k) = Some (Inr (- 1), fs, k') \<and> sent k' = sent k
    | Some A \<Rightarrow> \<exists>fs' k' I'. handle_request E N junk ji (fs, k) = Some (Inr 0, fs', k') \<and>
        sent k' = sent k @ create_request u (join_path p) t @ [NUL] \<and> abs_fs E (disk fs') = A \<and>
        quiescent E fs' I' \<and> accounted E fs' I' = accounted E fs I"
proof -
  let ?req = "create_request u (join_path p) t"
  let ?c = "junk\<lparr>username := u, pathname := join_path p, command_type := FS_CREATE, ctype := t\<rparr>"
  let ?R = "spec_create True (abs_fs E (disk fs)) u p t"
  have wf: "fs_wf E (disk fs) I" using q by (simp add: quiescent_def)
  obtain k1 where k1: "receive_message N k = (Some ?req, k1)" "sent k1 = sent k"
    using receive_message_all [OF msg request_no_NUL(3) [OF u p t] request_bounds(3) [OF u p]] by blast
  have go: "handle_request E N junk ji (fs, k) = answer N ?req (handle_create E ji ?c fs) k1 (\<lambda>_ k'. Some (True, k'))"
    using k1(1) by (simp add: handle_request_def request_command [OF u] net_handle_create_def parse_requests(3) [OF u p t])
  have c: "create_ok ?c ji" using u t ji by (simp add: create_ok_def user_ok_def)
  have rm: "create_room E fs n" if "walk E (disk fs) 0 (butlast p) = Some n" "is_dir E (disk fs) n" for n
    by (rule room [OF walk_root_in [OF wf that(1)] that(2)])
  have path: "path_ok (pathname ?c) p" using path_names_path_ok [OF p] by simp
  have imp: "implements E fs I (handle_create E ji ?c fs) ?R"
    using handle_create_refines [OF q path c rm] by simp
  show ?thesis using answer_works(1) [OF imp, where req = ?req and k = k1]
      answer_works(2) [OF imp, where req = ?req and k = k1] go k1(2) by (cases ?R) auto
qed

lemma client_delete:
  assumes q: "quiescent E fs I" and u: "user_ok u" and p: "path_names_ok p"
    and msg: "pending k = delete_request u (join_path p) @ NUL # rest"
  shows "case spec_delete (abs_fs E (disk fs)) u p of
      None \<Rightarrow> \<exists>k'. handle_request E N junk ji (fs, k) = Some (Inr (- 1), fs, k') \<and> sent k' = sent k
    | Some A \<Rightarrow> \<exists>fs' k' I'. handle_request E N junk ji (fs, k) = Some (Inr 0, fs', k') \<and>
        sent k' = sent k @ delete_request u (join_path p) @ [NUL] \<and> abs_fs E (disk fs') = A \<and>
        quiescent E fs' I' \<and> accounted E fs' I' = accounted E fs I"
proof -
  let ?req = "delete_request u (join_path p)"
  let ?c = "junk\<lparr>username := u, pathname := join_path p, command_type := FS_DELETE\<rparr>"
  let ?R = "spec_delete (abs_fs E (disk fs)) u p"
  obtain k1 where k1: "receive_message N k = (Some ?req, k1)" "sent k1 = sent k"
    using receive_message_all [OF msg request_no_NUL(4) [OF u p] request_bounds(4) [OF u p]] by blast
  have go: "handle_request E N junk ji (fs, k) = answer N ?req (handle_delete E ?c fs) k1 (\<lambda>_ k'. Some (True, k'))"
    using k1(1) by (simp add: handle_request_def request_command [OF u] net_handle_delete_def parse_requests(4) [OF u p])
  have imp: "implements E fs I (handle_delete E ?c fs) ?R"
    using handle_delete_refines [OF q, of ?c p] path_names_path_ok [OF p] by simp
  show ?thesis using answer_works(1) [OF imp, where req = ?req and k = k1]
      answer_works(2) [OF imp, where req = ?req and k = k1] go k1(2) by (cases ?R) auto
qed

end

text \<open>The concrete disk, mutex and connection together are instances.\<close>

interpretation ram_pipe: working_server ram_env pipe_env fst snd
  by unfold_locales

interpretation ram_pipe_server: file_server ram_env pipe_env fst snd
  by unfold_locales

end
