(* ===== verification/FS_Properties.thy ===== *)
theory FS_Properties
  imports FS_Demo Net_Client
begin

text \<open>
  The properties of the file server, each stated over an arbitrary disk and mutex that keep the
  contracts \<open>fs_device\<close> (and, for the server, an arbitrary connection).  The witnesses use the
  concrete disk of \<open>FS_Demo\<close>.
\<close>

lemma ram_device: "fs_device ram_env"
  by unfold_locales

lemma ram_pipe_working: "working_server ram_env pipe_env fst snd"
  by unfold_locales

lemma ram_pipe_file_server: "file_server ram_env pipe_env fst snd"
  by unfold_locales

subsection \<open>The request handlers\<close>

text \<open>
  C7: On a quiescent file system \<open>handle_read\<close> returns the block the abstract file system holds at
  the path, exactly when the path leads through directories of the user to a file of the user that
  has this block; otherwise it throws.  In both cases it changes nothing and leaves no lock.
\<close>

theorem read_refines:
  assumes "fs_device E" and "quiescent E s I" and "path_ok (pathname c) p"
  shows "\<exists>msg. handle_read E c s =
    (case spec_read (abs_fs E (disk s)) (username c) p (block c) of
       Some dat \<Rightarrow> (Inr dat, s) | None \<Rightarrow> (Inl (Runtime_error msg), s))"
proof -
  have "fs_wf E (disk s) I" "lock_map s = Map.empty" using assms(2) by (simp_all add: quiescent_def)
  then show ?thesis using fs_device.handle_read_refines [OF assms(1) _ assms(3)] by blast
qed

theorem read_refines_witness:
  "handle_read ram_env (demo_command FS_READBLOCK ''/a'') demo_fs = (Inr (blk ram_env demo_disk 3), demo_fs)"
  using read_refines [OF ram_device demo_quiescent, of "demo_command FS_READBLOCK ''/a''" "[''a'']"] demo_path(1)
  by (simp add: demo_command_def spec_read_def demo_abs)

text \<open>
  C8: On a quiescent file system \<open>handle_write\<close> refines \<open>spec_write\<close>: it overwrites a block of the
  file or appends one when a block is free and the file is not full; otherwise it throws and leaves
  the whole state as it was.  After a successful write the disk is well formed again, no lock is
  held, the free list is apart from the blocks in use and no block is lost.
\<close>

theorem write_refines:
  assumes "fs_device E" and "quiescent E s I" and "path_ok (pathname c) p" and "length (data c) = FS_BLOCKSIZE"
  shows "implements E s I (handle_write E c s)
    (spec_write (free_block_list s \<noteq> []) (abs_fs E (disk s)) (username c) p (block c) (data c))"
  using fs_device.handle_write_refines [OF assms] .

theorem write_refines_witness:
  "implements ram_env demo_fs {0, 2} (handle_write ram_env (demo_command FS_WRITEBLOCK ''/a'') demo_fs)
    (Some ((abs_fs ram_env demo_disk)([''a''] \<mapsto> AFile ''u'' [replicate FS_BLOCKSIZE (CHR ''x'')])))"
  using write_refines [OF ram_device demo_quiescent, of "demo_command FS_WRITEBLOCK ''/a''" "[''a'']"] demo_path(1)
  by (simp add: demo_command_def spec_write_def demo_abs)

text \<open>
  C9: On a quiescent file system with room for the new entry, \<open>handle_create\<close> refines \<open>spec_create\<close>:
  it adds an empty file or directory of the user exactly when the parent path consists of the
  user's directories and the name is new, whatever the stack variable for the new inode contained;
  otherwise it throws and leaves the whole state as it was.
\<close>

theorem create_refines:
  assumes "fs_device E" and "quiescent E s I" and "path_ok (pathname c) p" and "create_ok c junk"
    and "\<forall>n. walk E (disk s) 0 (butlast p) = Some n \<longrightarrow> is_dir E (disk s) n \<longrightarrow> create_room E s n"
  shows "implements E s I (handle_create E junk c s)
    (spec_create True (abs_fs E (disk s)) (username c) p (ctype c))"
  using fs_device.handle_create_refines [OF assms(1-4)] assms(5) by blast

theorem create_refines_witness:
  "implements ram_env demo_fs {0, 2} (handle_create ram_env demo_root (demo_command FS_CREATE ''/b'') demo_fs)
    (Some ((abs_fs ram_env demo_disk)([''b''] \<mapsto> AFile ''u'' [])))"
proof -
  have "create_ok (demo_command FS_CREATE ''/b'') demo_root"
    by (simp add: create_ok_def demo_command_def demo_fits FS_MAXUSERNAME_def)
  moreover have "path_ok (pathname (demo_command FS_CREATE ''/b'')) [''b'']"
    using demo_path(2) by (simp add: demo_command_def)
  moreover have "abs_fs ram_env demo_disk [''b''] = None" by (simp add: abs_fs_def)
  ultimately show ?thesis
    using create_refines [OF ram_device demo_quiescent, of "demo_command FS_CREATE ''/b''" "[''b'']" demo_root] demo_room
    by (simp add: demo_command_def spec_create_def)
qed

text \<open>
  C10: On a quiescent file system \<open>handle_delete\<close> refines \<open>spec_delete\<close>: it removes a file of the user
  or an empty directory of the user from the user's directory and gives all of its blocks back to the
  free list; otherwise it throws and leaves the whole state as it was, with both locks released.
\<close>

theorem delete_refines:
  assumes "fs_device E" and "quiescent E s I" and "path_ok (pathname c) p"
  shows "implements E s I (handle_delete E c s) (spec_delete (abs_fs E (disk s)) (username c) p)"
  using fs_device.handle_delete_refines [OF assms] .

theorem delete_refines_witness:
  "implements ram_env demo_fs {0, 2} (handle_delete ram_env (demo_command FS_DELETE ''/a'') demo_fs)
    (Some ((abs_fs ram_env demo_disk)([''a''] := None)))"
  using delete_refines [OF ram_device demo_quiescent, of "demo_command FS_DELETE ''/a''" "[''a'']"] demo_path(1)
  by (simp add: demo_command_def spec_delete_def demo_abs)

text \<open>
  C11: The constructor returns on every well-formed disk whose inodes are all reachable from the root
  (its search does not run forever there), and the state it builds is quiescent, with every block of
  the disk either in use or on the free list.
\<close>

theorem constructor_quiescent:
  assumes "fs_device E" and "fs_wf E d I" and "all_reachable E d I"
  shows "\<exists>s. new_FileSystem E d = Some (Inr s) \<and> disk s = d \<and> quiescent E s I \<and>
    accounted E s I = {..<FS_DISKSIZE}"
  using fs_device.new_FileSystem_returns [OF assms] .

theorem constructor_quiescent_witness:
  "\<exists>s. new_FileSystem ram_env demo_disk = Some (Inr s) \<and> disk s = demo_disk \<and> quiescent ram_env s {0, 2} \<and>
    accounted ram_env s {0, 2} = {..<FS_DISKSIZE}"
  using constructor_quiescent [OF ram_device demo_wf demo_reachable] .

subsection \<open>The server\<close>

text \<open>
  C12: Whatever bytes a client sends, over a connection that keeps the contract \<open>stream_socket\<close> and may fail
  at any time, a request on a quiescent server is answered with 0 or -1: no assertion fails, no array or string is overrun and no lock blocks.
  If there was a free block, no lock stays behind and the state is quiescent again; if there was room for
  a new entry in every directory, no block is lost either.
\<close>

theorem any_stream_served:
  assumes "file_server E N pending sent" and "quiescent E fs I" and "inode_fits ji"
  shows "\<exists>x fs' k'. handle_request E N junk ji (fs, k) = Some (Inr x, fs', k') \<and> x \<in> {0, - 1} \<and>
    (free_block_list fs \<noteq> [] \<longrightarrow> (\<exists>I'. quiescent E fs' I')) \<and>
    ((\<forall>n \<in> I. is_dir E (disk fs) n \<longrightarrow> create_room E fs n) \<longrightarrow>
      (\<exists>I'. quiescent E fs' I' \<and> accounted E fs' I' = accounted E fs I))"
proof -
  obtain x fs' k' where r: "handle_request E N junk ji (fs, k) = Some (Inr x, fs', k')" "x \<in> {0, - 1}"
    using file_server.handle_request_answers [OF assms] by blast
  have "\<exists>I'. quiescent E fs' I'" if "free_block_list fs \<noteq> []"
    using file_server.handle_request_survives [OF assms that, of junk k] r(1) by (auto simp: survived_def)
  moreover have "\<exists>I'. quiescent E fs' I' \<and> accounted E fs' I' = accounted E fs I"
    if "\<forall>n \<in> I. is_dir E (disk fs) n \<longrightarrow> create_room E fs n"
    using file_server.handle_request_served [OF assms, of junk k] that r(1) by (auto simp: served_def)
  ultimately show ?thesis using r by blast
qed

theorem any_stream_served_witness:
  "\<exists>x fs' k' I'. handle_request ram_env pipe_env (demo_command INVALID []) demo_root (demo_fs, (''FS_DELETE u /a'' @ [NUL], [])) =
      Some (Inr x, fs', k') \<and> x \<in> {0, - 1} \<and> quiescent ram_env fs' I' \<and>
    accounted ram_env fs' I' = accounted ram_env demo_fs {0, 2}"
proof -
  have room: "\<forall>n \<in> {0, 2}. is_dir ram_env (disk demo_fs) n \<longrightarrow> create_room ram_env demo_fs n"
    using demo_room by simp
  then show ?thesis using any_stream_served [OF ram_pipe_file_server demo_quiescent demo_fits(1)] by blast
qed

text \<open>
  C13: A client that sends a well-formed read request over a working connection gets the request back
  followed by the block, when the abstract file system grants the read; otherwise it gets nothing and
  the connection is closed.
\<close>

theorem client_read_reply:
  assumes "working_server E N pending sent" and "quiescent E fs I" and "user_ok u" and "path_names_ok p"
    and "b < FS_MAXFILEBLOCKS" and "pending k = read_request u (join_path p) b @ NUL # rest"
  shows "\<exists>k'. case spec_read (abs_fs E (disk fs)) u p b of
      None \<Rightarrow> handle_request E N junk ji (fs, k) = Some (Inr (- 1), fs, k') \<and> sent k' = sent k
    | Some dat \<Rightarrow> handle_request E N junk ji (fs, k) = Some (Inr 0, fs, k') \<and>
        sent k' = sent k @ read_request u (join_path p) b @ [NUL] @ dat"
  using working_server.client_read [OF assms] .

lemma demo_names: "user_ok ''u''" "path_names_ok [''a'']" "path_names_ok [''b'']"
  by (simp_all add: user_ok_def word_ok_def isspace_def path_names_ok_def name_ok_def fs_params)

theorem client_read_reply_witness:
  "\<exists>k'. handle_request ram_env pipe_env (demo_command INVALID []) demo_root
        (demo_fs, (read_request ''u'' ''/a'' 0 @ [NUL], [])) = Some (Inr 0, demo_fs, k') \<and>
      snd k' = read_request ''u'' ''/a'' 0 @ [NUL] @ blk ram_env demo_disk 3"
  using client_read_reply [OF ram_pipe_working demo_quiescent demo_names(1,2), of 0
      "(read_request ''u'' ''/a'' 0 @ [NUL], [])" "[]"]
  by (simp add: spec_read_def demo_abs FS_MAXFILEBLOCKS_def)

text \<open>
  C14: A client that sends a well-formed write request and its block over a working connection gets the
  request back exactly when the abstract write succeeds, and then the disk has the abstract result.
\<close>

theorem client_write_reply:
  assumes "working_server E N pending sent" and "quiescent E fs I" and "user_ok u" and "path_names_ok p"
    and "b < FS_MAXFILEBLOCKS" and "length dat = FS_BLOCKSIZE"
    and "pending k = write_request u (join_path p) b @ NUL # dat @ rest"
  shows "case spec_write (free_block_list fs \<noteq> []) (abs_fs E (disk fs)) u p b dat of
      None \<Rightarrow> \<exists>k'. handle_request E N junk ji (fs, k) = Some (Inr (- 1), fs, k') \<and> sent k' = sent k
    | Some A \<Rightarrow> \<exists>fs' k' I'. handle_request E N junk ji (fs, k) = Some (Inr 0, fs', k') \<and>
        sent k' = sent k @ write_request u (join_path p) b @ [NUL] \<and> abs_fs E (disk fs') = A \<and>
        quiescent E fs' I' \<and> accounted E fs' I' = accounted E fs I"
  using working_server.client_write [OF assms] .

theorem client_write_reply_witness:
  "\<exists>fs' k' I'. handle_request ram_env pipe_env (demo_command INVALID []) demo_root
        (demo_fs, (write_request ''u'' ''/a'' 1 @ NUL # replicate FS_BLOCKSIZE (CHR ''y''), []))
      = Some (Inr 0, fs', k') \<and>
    snd k' = write_request ''u'' ''/a'' 1 @ [NUL] \<and>
    abs_fs ram_env (disk fs') = (abs_fs ram_env demo_disk)
      ([''a''] \<mapsto> AFile ''u'' [blk ram_env demo_disk 3, replicate FS_BLOCKSIZE (CHR ''y'')]) \<and>
    quiescent ram_env fs' I'"
  using client_write_reply [OF ram_pipe_working demo_quiescent demo_names(1,2), of 1
      "replicate FS_BLOCKSIZE (CHR ''y'')"
      "(write_request ''u'' ''/a'' 1 @ NUL # replicate FS_BLOCKSIZE (CHR ''y''), [])" "[]"]
  by (simp add: spec_write_def demo_abs fs_params) blast

text \<open>
  C15: A client that sends a well-formed create request over a working connection, to a server with
  room, gets the request back exactly when the abstract create succeeds, and then the disk has the
  abstract result.
\<close>

theorem client_create_reply:
  assumes "working_server E N pending sent" and "quiescent E fs I" and "user_ok u" and "path_names_ok p"
    and "t \<in> {CHR ''f'', CHR ''d''}" and "inode_fits ji"
    and "\<forall>n \<in> I. is_dir E (disk fs) n \<longrightarrow> create_room E fs n"
    and "pending k = create_request u (join_path p) t @ NUL # rest"
  shows "case spec_create True (abs_fs E (disk fs)) u p t of
      None \<Rightarrow> \<exists>k'. handle_request E N junk ji (fs, k) = Some (Inr (- 1), fs, k') \<and> sent k' = sent k
    | Some A \<Rightarrow> \<exists>fs' k' I'. handle_request E N junk ji (fs, k) = Some (Inr 0, fs', k') \<and>
        sent k' = sent k @ create_request u (join_path p) t @ [NUL] \<and> abs_fs E (disk fs') = A \<and>
        quiescent E fs' I' \<and> accounted E fs' I' = accounted E fs I"
proof -
  have "\<And>n. n \<in> I \<Longrightarrow> is_dir E (disk fs) n \<Longrightarrow> create_room E fs n" using assms(7) by blast
  then show ?thesis by (rule working_server.client_create [OF assms(1-6) _ assms(8)])
qed

theorem client_create_reply_witness:
  "\<exists>fs' k' I'. handle_request ram_env pipe_env (demo_command INVALID []) demo_root
        (demo_fs, (create_request ''u'' ''/b'' (CHR ''d'') @ [NUL], [])) = Some (Inr 0, fs', k') \<and>
    snd k' = create_request ''u'' ''/b'' (CHR ''d'') @ [NUL] \<and>
    abs_fs ram_env (disk fs') = (abs_fs ram_env demo_disk)([''b''] \<mapsto> ADir ''u'') \<and> quiescent ram_env fs' I'"
proof -
  have room: "\<forall>n \<in> {0, 2}. is_dir ram_env (disk demo_fs) n \<longrightarrow> create_room ram_env demo_fs n"
    using demo_room by simp
  have none: "abs_fs ram_env demo_disk [''b''] = None" by (simp add: abs_fs_def)
  show ?thesis
    using client_create_reply [OF ram_pipe_working demo_quiescent demo_names(1,3) _ demo_fits(1) room, of "CHR ''d''"
        "(create_request ''u'' ''/b'' (CHR ''d'') @ [NUL], [])" "[]"] none
    by (simp add: spec_create_def) blast
qed

text \<open>
  C16: A client that sends a well-formed delete request over a working connection gets the request back
  exactly when the abstract delete succeeds, and then the disk has the abstract result and the blocks
  of the object are free again.
\<close>

theorem client_delete_reply:
  assumes "working_server E N pending sent" and "quiescent E fs I" and "user_ok u" and "path_names_ok p"
    and "pending k = delete_request u (join_path p) @ NUL # rest"
  shows "case spec_delete (abs_fs E (disk fs)) u p of
      None \<Rightarrow> \<exists>k'. handle_request E N junk ji (fs, k) = Some (Inr (- 1), fs, k') \<and> sent k' = sent k
    | Some A \<Rightarrow> \<exists>fs' k' I'. handle_request E N junk ji (fs, k) = Some (Inr 0, fs', k') \<and>
        sent k' = sent k @ delete_request u (join_path p) @ [NUL] \<and> abs_fs E (disk fs') = A \<and>
        quiescent E fs' I' \<and> accounted E fs' I' = accounted E fs I"
  using working_server.client_delete [OF assms] .

theorem client_delete_reply_witness:
  "\<exists>fs' k' I'. handle_request ram_env pipe_env (demo_command INVALID []) demo_root
        (demo_fs, (delete_request ''u'' ''/a'' @ [NUL], [])) = Some (Inr 0, fs', k') \<and>
    snd k' = delete_request ''u'' ''/a'' @ [NUL] \<and>
    abs_fs ram_env (disk fs') = (abs_fs ram_env demo_disk)([''a''] := None) \<and> quiescent ram_env fs' I'"
  using client_delete_reply [OF ram_pipe_working demo_quiescent demo_names(1,2),
      of "(delete_request ''u'' ''/a'' @ [NUL], [])" "[]"]
  by (simp add: spec_delete_def demo_abs) blast

end
