(* ===== verification/FS_Properties2.thy ===== *)
theory FS_Properties2
  imports FS_Properties
begin

text \<open>
  Further properties of the file server: the parser, the transport, laws that span two requests, and
  what happens when a create runs out of blocks.
\<close>

subsection \<open>Parsing\<close>

text \<open>
  C17: Every request that parses is within the bounds the file system relies on: the user name and
  every name of the path fit their fields, the path splits into names, the block number is below
  the maximal file size, and a create has one of the two types.
\<close>

theorem parsed_command_ok:
  assumes "parse_message junk req = Inr c" and "NUL \<notin> set req"
  shows "command_ok c"
  using parse_message_ok [OF assms] .

theorem parsed_command_ok_witness:
  "command_ok (demo_command INVALID []\<lparr>username := ''u'', pathname := ''/a'', command_type := FS_READBLOCK, block := 7\<rparr>)"
  using parsed_command_ok [of "demo_command INVALID []" "read_request ''u'' (join_path [''a'']) 7"]
    parse_requests(1) [OF demo_names(1,2), of 7 "demo_command INVALID []"]
    request_no_NUL(1) [OF demo_names(1,2), of 7]
  by (simp add: FS_MAXFILEBLOCKS_def)

text \<open>
  C18: Every request that a client can legally send parses to exactly the command it stands for,
  whatever the unassigned members of the command contained.
\<close>

theorem requests_parse:
  assumes "user_ok u" and "path_names_ok p" and "b < FS_MAXFILEBLOCKS" and "t \<in> {CHR ''f'', CHR ''d''}"
  shows "parse_message junk (read_request u (join_path p) b) =
      Inr (junk\<lparr>username := u, pathname := join_path p, command_type := FS_READBLOCK, block := b\<rparr>) \<and>
    parse_message junk (write_request u (join_path p) b) =
      Inr (junk\<lparr>username := u, pathname := join_path p, command_type := FS_WRITEBLOCK, block := b\<rparr>) \<and>
    parse_message junk (create_request u (join_path p) t) =
      Inr (junk\<lparr>username := u, pathname := join_path p, command_type := FS_CREATE, ctype := t\<rparr>) \<and>
    parse_message junk (delete_request u (join_path p)) =
      Inr (junk\<lparr>username := u, pathname := join_path p, command_type := FS_DELETE\<rparr>)"
  using parse_requests [OF assms(1,2)] assms(3,4) by blast

theorem requests_parse_witness:
  "parse_message (demo_command INVALID []) (create_request ''u'' ''/b'' (CHR ''d'')) =
     Inr (demo_command INVALID []\<lparr>username := ''u'', pathname := ''/b'', command_type := FS_CREATE, ctype := CHR ''d''\<rparr>)"
  using requests_parse [OF demo_names(1,3), of 0 "CHR ''d''" "demo_command INVALID []"]
  by (simp add: FS_MAXFILEBLOCKS_def)

text \<open>
  The block number of a request is not checked to be a numeral: trailing characters are
  ignored, and a number of \<open>2 ^ 32\<close> or more is accepted when its low 32 bits are small.
\<close>

theorem block_number_lenient:
  "parse_block c '' 5abc'' = Inr (c\<lparr>block := 5\<rparr>, []) \<and> parse_block c '' 4294967296'' = Inr (c\<lparr>block := 0\<rparr>, [])"
  by (simp_all add: parse_block_def next_token_def isspace_def stoul_def Let_def isdigit_def decimal_value_def
      digit_value_def fs_params)

subsection \<open>Transport\<close>

text \<open>
  A received request has no NUL, is at most \<open>MAX_MESSAGE_SIZE\<close> long, and is exactly what the client
  sent up to the first NUL, which is consumed; nothing is sent meanwhile.
\<close>

theorem received_request:
  assumes "stream_socket N pending sent" and "receive_message N k = (Some req, k')"
  shows "NUL \<notin> set req \<and> length req \<le> MAX_MESSAGE_SIZE \<and> pending k = req @ NUL # pending k' \<and> sent k' = sent k"
  using stream_socket.receive_message_Some [OF assms] by blast

lemma pipe_stream: "stream_socket pipe_env fst snd"
  by unfold_locales

theorem received_request_witness:
  "receive_message pipe_env (''ab'' @ [NUL], []) = (Some ''ab'', ([], [])) \<and>
    length ''ab'' \<le> MAX_MESSAGE_SIZE"
proof -
  have r: "receive_message pipe_env (''ab'' @ [NUL], []) = (Some ''ab'', ([], []))"
    by (simp add: receive_message_def receive_loop.simps pipe_env_def MAX_MESSAGE_SIZE_def)
  then show ?thesis using received_request [OF pipe_stream r] by simp
qed

text \<open>
  Sending a reply always returns, and when it reports success the client has been sent the whole
  string with its terminator, in however many pieces the connection took it.
\<close>

theorem sent_reply:
  assumes "stream_socket N pending sent"
  shows "\<exists>ok k'. send_message N k resp = Some (ok, k') \<and> (ok \<longrightarrow> sent k' = sent k @ resp @ [NUL]) \<and>
    pending k' = pending k"
  using stream_socket.send_message_returns [OF assms] .

theorem sent_reply_witness:
  "\<exists>ok k'. send_message pipe_env ([], []) ''ab'' = Some (ok, k') \<and> (ok \<longrightarrow> snd k' = ''ab'' @ [NUL])"
  using sent_reply [OF pipe_stream, of "([], [])" "''ab''"] by auto

subsection \<open>Laws across requests\<close>

lemma dir_path_other:
  assumes "p \<noteq> []"
  shows "dir_path (A(p := x)) u (butlast p) = dir_path A u (butlast p)"
proof -
  have "take (Suc k) (butlast p) \<noteq> p" for k
  proof
    assume "take (Suc k) (butlast p) = p"
    then have "length p \<le> length (butlast p)" by (metis length_take min.cobounded1)
    then have "length p \<le> length p - 1" by (simp only: length_butlast)
    then show False using assms by (cases p) simp_all
  qed
  then show ?thesis by (simp add: dir_path_def list_all_iff)
qed

lemma spec_read_written:
  assumes "spec_write sp A u p k dat = Some A'" and "p \<noteq> []"
  shows "spec_read A' u p k = Some dat"
  using assms dir_path_other [OF assms(2), of A _ u]
  by (auto simp: spec_write_def spec_read_def nth_append split: option.splits fs_object.splits if_splits)

text \<open>C20: A block that was written is read back.\<close>

theorem read_after_write:
  assumes E: "fs_device E" and q: "quiescent E s I" and p: "path_ok (pathname c) p"
    and len: "length (data c) = FS_BLOCKSIZE" and w: "handle_write E c s = (Inr (), s')"
  shows "handle_read E c s' = (Inr (data c), s')"
proof -
  let ?R = "spec_write (free_block_list s \<noteq> []) (abs_fs E (disk s)) (username c) p (block c) (data c)"
  have "implements E s I (Inr (), s') ?R"
    using fs_device.handle_write_refines [OF E q p len] w by simp
  then obtain I' where A: "?R = Some (abs_fs E (disk s'))" and q': "quiescent E s' I'"
    by (auto simp: implements_def split: option.splits)
  have "p \<noteq> []" using p by (simp add: path_ok_def)
  then have "spec_read (abs_fs E (disk s')) (username c) p (block c) = Some (data c)"
    using spec_read_written [OF A] by simp
  moreover have "fs_wf E (disk s') I'" "lock_map s' = Map.empty" using q' by (simp_all add: quiescent_def)
  ultimately show ?thesis using fs_device.handle_read_refines [OF E _ p] by fastforce
qed

theorem read_after_write_witness:
  "\<exists>s'. handle_write ram_env (demo_command FS_WRITEBLOCK ''/a'') demo_fs = (Inr (), s') \<and>
    handle_read ram_env (demo_command FS_WRITEBLOCK ''/a'') s' = (Inr (replicate FS_BLOCKSIZE (CHR ''x'')), s')"
proof -
  let ?c = "demo_command FS_WRITEBLOCK ''/a''"
  have p: "path_ok (pathname ?c) [''a'']" and len: "length (data ?c) = FS_BLOCKSIZE"
    using demo_path(1) by (simp_all add: demo_command_def)
  obtain s' where w: "handle_write ram_env ?c demo_fs = (Inr (), s')"
    using fs_device.handle_write_refines [OF ram_device demo_quiescent p len]
    by (auto simp: implements_def demo_command_def spec_write_def demo_abs)
  show ?thesis using read_after_write [OF ram_device demo_quiescent p len w] w by (auto simp: demo_command_def)
qed

lemma abs_fs_prefix: "abs_fs E d p = None \<Longrightarrow> abs_fs E d (p @ [x]) = None"
  by (auto simp: abs_fs_def walk_snoc)

text \<open>
  C19: Deleting what has just been created brings the abstract file system back, and all blocks are
  accounted for.
\<close>

theorem create_delete_inverse:
  assumes E: "fs_device E" and q: "quiescent E s I" and p: "path_ok (pathname c) p" and c: "create_ok c junk"
    and room: "\<forall>n. walk E (disk s) 0 (butlast p) = Some n \<longrightarrow> is_dir E (disk s) n \<longrightarrow> create_room E s n"
    and cr: "handle_create E junk c s = (Inr (), s')"
  shows "\<exists>s'' I''. handle_delete E c s' = (Inr (), s'') \<and> abs_fs E (disk s'') = abs_fs E (disk s) \<and>
    quiescent E s'' I'' \<and> accounted E s'' I'' = accounted E s I"
proof -
  let ?A = "abs_fs E (disk s)" and ?ob = "if ctype c = CHR ''d'' then ADir (username c) else AFile (username c) []"
  have ne: "p \<noteq> []" using p by (simp add: path_ok_def)
  have "implements E s I (Inr (), s') (spec_create True ?A (username c) p (ctype c))"
    using fs_device.handle_create_refines [OF E q p c] room cr by metis
  then obtain I' where A: "spec_create True ?A (username c) p (ctype c) = Some (abs_fs E (disk s'))"
    and q': "quiescent E s' I'" and acc: "accounted E s' I' = accounted E s I"
    by (auto simp: implements_def split: option.splits)
  have dp: "dir_path ?A (username c) (butlast p)" "?A p = None" and A': "abs_fs E (disk s') = ?A(p \<mapsto> ?ob)"
    using A by (auto simp: spec_create_def split: if_splits)
  have dp': "dir_path (?A(p \<mapsto> ?ob)) (username c) (butlast p)" using dp(1) dir_path_other [OF ne] by blast
  have leaf: "\<not> has_children (?A(p \<mapsto> ?ob)) p" using abs_fs_prefix [OF dp(2)] by (simp add: has_children_def)
  have undo: "(?A(p \<mapsto> ?ob))(p := None) = ?A" using dp(2) by auto
  have "spec_delete (abs_fs E (disk s')) (username c) p = Some ?A"
  proof (cases "ctype c = CHR ''d''")
    case True
    then show ?thesis unfolding A' using dp' leaf undo by (simp add: spec_delete_def)
  next
    case False
    then show ?thesis unfolding A' using dp' undo by (simp add: spec_delete_def)
  qed
  then show ?thesis using fs_device.handle_delete_refines [OF E q' p] acc by (auto simp: implements_def)
qed

theorem create_delete_inverse_witness:
  "\<exists>s' s'' I''. handle_create ram_env demo_root (demo_command FS_CREATE ''/b'') demo_fs = (Inr (), s') \<and>
    handle_delete ram_env (demo_command FS_CREATE ''/b'') s' = (Inr (), s'') \<and>
    abs_fs ram_env (disk s'') = abs_fs ram_env demo_disk \<and> quiescent ram_env s'' I''"
proof -
  let ?c = "demo_command FS_CREATE ''/b''"
  have c: "create_ok ?c demo_root" by (simp add: create_ok_def demo_command_def demo_fits FS_MAXUSERNAME_def)
  have p: "path_ok (pathname ?c) [''b'']" using demo_path(2) by (simp add: demo_command_def)
  have room: "\<forall>n. walk ram_env (disk demo_fs) 0 (butlast [''b'']) = Some n \<longrightarrow>
      is_dir ram_env (disk demo_fs) n \<longrightarrow> create_room ram_env demo_fs n" using demo_room by simp
  have none: "abs_fs ram_env demo_disk [''b''] = None" by (simp add: abs_fs_def)
  have "implements ram_env demo_fs {0, 2} (handle_create ram_env demo_root ?c demo_fs)
      (spec_create True (abs_fs ram_env (disk demo_fs)) (username ?c) [''b''] (ctype ?c))"
    using fs_device.handle_create_refines [OF ram_device demo_quiescent p c] room by blast
  then obtain s' where cr: "handle_create ram_env demo_root ?c demo_fs = (Inr (), s')"
    using none by (auto simp: implements_def demo_command_def spec_create_def)
  show ?thesis using create_delete_inverse [OF ram_device demo_quiescent p c room cr] cr by auto
qed

text \<open>
  C21: No write, create or delete of a user changes, creates or removes anything that belongs to another
  user, whether the request succeeds or fails, and whether or not there is space.  The requests are those that
  \<^verbatim>\<open>NetworkServer\<close> passes on: the path has been checked, a write has its block of data and a create
  one of the two types.
\<close>

definition object_owner :: "fs_object \<Rightarrow> string" where
  "object_owner ob = (case ob of AFile u _ \<Rightarrow> u | ADir u \<Rightarrow> u)"

theorem other_users_unaffected:
  assumes E: "fs_device E" and q: "quiescent E s I" and p: "path_ok (pathname c) p"
    and run: "handle_write E c s = (r, s') \<and> length (data c) = FS_BLOCKSIZE \<or> handle_delete E c s = (r, s') \<or>
      handle_create E junk c s = (r, s') \<and> create_ok c junk"
    and other: "object_owner ob \<noteq> username c"
  shows "abs_fs E (disk s) t = Some ob \<longleftrightarrow> abs_fs E (disk s') t = Some ob"
proof -
  let ?A = "abs_fs E (disk s)" and ?A' = "abs_fs E (disk s')"
  let ?Rs = "{spec_write (free_block_list s \<noteq> []) ?A (username c) p (block c) (data c),
      spec_create True ?A (username c) p (ctype c), spec_delete ?A (username c) p}"
  have "implements E s I (r, s') R \<Longrightarrow> ?A' = ?A \<or> R = Some ?A'" for R
    by (auto simp: implements_def split: option.splits)
  then have "?A' = ?A \<or> Some ?A' \<in> ?Rs"
    using run fs_device.handle_write_refines [OF E q p] fs_device.handle_delete_refines [OF E q p]
      fs_device.handle_create_answers [OF E q p, of junk] by fastforce
  moreover have "?A' t = ?A t \<or> (t = p \<and> (\<forall>ob. ?A' p = Some ob \<longrightarrow> object_owner ob = username c) \<and>
      (\<forall>ob. ?A p = Some ob \<longrightarrow> object_owner ob = username c))" if "Some ?A' \<in> ?Rs"
    using that by (auto simp: spec_write_def spec_create_def spec_delete_def object_owner_def
        split: option.splits fs_object.splits if_splits)
  ultimately show ?thesis using other by auto
qed

theorem other_users_unaffected_witness:
  "abs_fs ram_env demo_disk [''a''] = Some (AFile ''u'' [blk ram_env demo_disk 3]) \<longleftrightarrow>
    abs_fs ram_env (disk (snd (handle_delete ram_env ((demo_command FS_DELETE ''/a'')\<lparr>username := ''v''\<rparr>) demo_fs))) [''a'']
      = Some (AFile ''u'' [blk ram_env demo_disk 3])"
proof -
  let ?c = "(demo_command FS_DELETE ''/a'')\<lparr>username := ''v''\<rparr>"
  have p: "path_ok (pathname ?c) [''a'']" using demo_path(1) by (simp add: demo_command_def)
  obtain r s' where run: "handle_delete ram_env ?c demo_fs = (r, s')" by (cases "handle_delete ram_env ?c demo_fs")
  then have "handle_write ram_env ?c demo_fs = (r, s') \<and> length (data ?c) = FS_BLOCKSIZE \<or> handle_delete ram_env ?c demo_fs = (r, s') \<or>
      handle_create ram_env demo_root ?c demo_fs = (r, s') \<and> create_ok ?c demo_root" by blast
  moreover have "object_owner (AFile ''u'' [blk ram_env demo_disk 3]) \<noteq> username ?c" by (simp add: object_owner_def)
  ultimately have "abs_fs ram_env (disk demo_fs) [''a''] = Some (AFile ''u'' [blk ram_env demo_disk 3]) \<longleftrightarrow>
      abs_fs ram_env (disk s') [''a''] = Some (AFile ''u'' [blk ram_env demo_disk 3])"
    by (rule other_users_unaffected [OF ram_device demo_quiescent p])
  then show ?thesis using run by simp
qed

subsection \<open>Create without room\<close>

text \<open>
  C22: When the free list is empty, a create that would be legal throws while the upgradeable lock of the
  parent directory is still in the lock table: no later request on this directory can write it.
\<close>

theorem create_keeps_lock:
  assumes "fs_device E" and "quiescent E s I" and "path_ok (pathname c) p"
    and "spec_create True (abs_fs E (disk s)) (username c) p (ctype c) \<noteq> None" and "free_block_list s = []"
  shows "\<exists>n. walk E (disk s) 0 (butlast p) = Some n \<and> handle_create E junk c s =
    (Inl (Runtime_error ''Not enough disk space for create''), s\<lparr>lock_map := [n \<mapsto> upgrade_held E]\<rparr>)"
  using fs_device.handle_create_no_block [OF assms] .

theorem create_keeps_lock_witness:
  "handle_create ram_env demo_root (demo_command FS_CREATE ''/b'') (scarce_fs\<lparr>free_block_list := []\<rparr>) =
    (Inl (Runtime_error ''Not enough disk space for create''),
     scarce_fs\<lparr>free_block_list := [], lock_map := [0 \<mapsto> upgrade_held ram_env]\<rparr>)"
proof -
  let ?s = "scarce_fs\<lparr>free_block_list := []\<rparr>" and ?c = "demo_command FS_CREATE ''/b''"
  have "quiescent ram_env ?s {0}" using scarce_quiescent by (simp add: quiescent_def free_ok_def)
  moreover have "path_ok (pathname ?c) [''b'']" using demo_path(2) by (simp add: demo_command_def)
  moreover have "spec_create True (abs_fs ram_env (disk ?s)) (username ?c) [''b''] (ctype ?c) \<noteq> None"
    by (simp add: spec_create_def abs_fs_def scarce_fs_def empty_disk_root)
  ultimately show ?thesis using create_keeps_lock [OF ram_device, of ?s "{0}" ?c "[''b'']" demo_root] by simp
qed

text \<open>
  When the parent has no free slot and only the block for the new inode can be had, a create throws
  and that block is neither in use nor on the free list any more.
\<close>

theorem create_loses_block:
  assumes "fs_device E" and "quiescent E s I" and "path_ok (pathname c) p" and "create_ok c junk"
    and "spec_create True (abs_fs E (disk s)) (username c) p (ctype c) \<noteq> None"
    and "walk E (disk s) 0 (butlast p) = Some n" and "\<not> dir_has_slot E (disk s) n"
    and "free_block_list s = cb # fr" and "fr = [] \<or> i_size (inode_at E (disk s) n) = FS_MAXFILEBLOCKS"
  shows "handle_create E junk c s =
      (Inl (Runtime_error ''Not enough disk space for create''), s\<lparr>free_block_list := fr\<rparr>) \<and>
    cb \<in> accounted E s I \<and> cb \<notin> accounted E (s\<lparr>free_block_list := fr\<rparr>) I"
  using fs_device.handle_create_lost_block [OF assms] by blast

theorem create_loses_block_witness:
  "handle_create ram_env demo_root (demo_command FS_CREATE ''/b'') scarce_fs =
      (Inl (Runtime_error ''Not enough disk space for create''), scarce_fs\<lparr>free_block_list := []\<rparr>) \<and>
    1 \<in> accounted ram_env scarce_fs {0} \<and> 1 \<notin> accounted ram_env (scarce_fs\<lparr>free_block_list := []\<rparr>) {0}"
proof -
  let ?c = "demo_command FS_CREATE ''/b''"
  have "path_ok (pathname ?c) [''b'']" "create_ok ?c demo_root"
    using demo_path(2) by (simp_all add: demo_command_def create_ok_def demo_fits FS_MAXUSERNAME_def)
  moreover have "spec_create True (abs_fs ram_env (disk scarce_fs)) (username ?c) [''b''] (ctype ?c) \<noteq> None"
    "walk ram_env (disk scarce_fs) 0 (butlast [''b'']) = Some 0" "\<not> dir_has_slot ram_env (disk scarce_fs) 0"
    "free_block_list scarce_fs = [1]"
    by (simp_all add: spec_create_def abs_fs_def scarce_fs_def empty_disk_root dir_has_slot_def)
  ultimately show ?thesis
    using create_loses_block [OF ram_device scarce_quiescent, of ?c "[''b'']" demo_root 0 1 "[]"] by simp
qed

end
