(* ===== verification/Net_Properties.thy ===== *)
theory Net_Properties
  imports Net_Threads FS_Properties2
begin

text \<open>
  Properties of the whole file server: from \<^verbatim>\<open>main\<close> over any number of connections that are served at the same time.
\<close>

subsection \<open>What has happened to a connection\<close>

definition past_ok :: "'k net_event list \<Rightarrow> nat \<Rightarrow> 'k net_thread option \<Rightarrow> bool" where
  "past_ok es i th \<longleftrightarrow>
     (case th of
        None \<Rightarrow> \<forall>c. Accept i c \<notin> set es
      | Some (Accepted c) \<Rightarrow> good_connection c \<and> (\<forall>c'. Accept i c' \<in> set es \<longrightarrow> c' = c)
      | Some (Handling c req k) \<Rightarrow> good_connection c \<and> (\<forall>c'. Accept i c' \<in> set es \<longrightarrow> c' = c) \<and>
          (\<exists>d. receive_request (conn_env c) (conn_junk c) (conn_state c) = (Inr (req, d), k) \<and> Request i d \<in> set es)
      | Some (Returned y k') \<Rightarrow> y = Inr 0 \<longrightarrow> (\<forall>c. Accept i c \<in> set es \<longrightarrow>
          (\<exists>req d k r sp x. receive_request (conn_env c) (conn_junk c) (conn_state c) = (Inr (req, d), k) \<and>
             Request i d \<in> set es \<and> outcome r = Some (sp, x) \<and> Reply i sp x \<in> set es \<and>
             send_reply (conn_env c) req r k = Some (y, k') \<and>
             (\<forall>dat. r = Inr dat \<longrightarrow> parse_command (fst (next_token req)) = FS_READBLOCK \<longrightarrow> length dat = FS_BLOCKSIZE))))"

lemma past_ok_more: "past_ok es i th \<Longrightarrow> (\<And>c. e \<noteq> Accept i c) \<Longrightarrow> past_ok (es @ [e]) i th"
  by (auto simp: past_ok_def split: option.splits net_thread.splits) blast+

lemma past_step:
  assumes st: "net_step E W e W'" and past: "\<And>i. past_ok es i (nw_thread W i)"
    and whole: "\<And>i c req k dat. nw_thread W i = Some (Handling c req k) \<Longrightarrow> sv_task (nw_server W) i = Some (Done (Inr dat)) \<Longrightarrow>
      parse_command (fst (next_token req)) = FS_READBLOCK \<Longrightarrow> length dat = FS_BLOCKSIZE"
  shows "past_ok (es @ [e]) i (nw_thread W' i)"
proof -
  have more: "past_ok (es @ [e]) j (nw_thread W j)" if "\<And>c. e \<noteq> Accept j c" for j by (rule past_ok_more [OF past that])
  from st show ?thesis
  proof cases
    case 1: (net_accept j c)
    have "past_ok es j None" using past [of j] 1(3) by simp
    then have "past_ok (es @ [e]) j (Some (Accepted c))" using 1 by (simp add: past_ok_def)
    then show ?thesis using 1 more [of i] by auto
  next
    case 2: net_accept_error
    then show ?thesis using more by simp
  next
    case 3: (net_close j c x k)
    have "past_ok es j (Some (Accepted c))" using past [of j] 3(3) by simp
    then obtain pending sent where "stream_socket (conn_env c) pending sent" by (auto simp: past_ok_def good_connection_def)
    from stream_socket.receive_request_ends [OF this 3(4)] have "past_ok (es @ [e]) j (Some (Returned x k))" by (simp add: past_ok_def)
    then show ?thesis using 3(1,2) more [of i] by simp
  next
    case 4: (net_request j c req d k S)
    have "past_ok es j (Some (Accepted c))" using past [of j] 4(3) by simp
    then have "past_ok (es @ [e]) j (Some (Handling c req k))" using 4 by (simp add: past_ok_def)
    then show ?thesis using 4(1,2) more [of i] by simp
  next
    case 5: (net_work j ts s)
    then show ?thesis using more by simp
  next
    case 6: (net_reply j c req k r sp x y k' S)
    have h: "past_ok es j (Some (Handling c req k))" using past [of j] 6(3) by simp
    have "length dat = FS_BLOCKSIZE" if "r = Inr dat" "parse_command (fst (next_token req)) = FS_READBLOCK" for dat
      using whole [OF 6(3) _ that(2)] 6(4) that(1) by simp
    then have "past_ok (es @ [e]) j (Some (Returned y k'))"
      using h 6(1,5,6) by (fastforce simp: past_ok_def)
    then show ?thesis using 6(1,2) more [of i] by simp
  next
    case 7: (net_crash j c req k e')
    have "past_ok (es @ [e]) j (Some (Returned (Inl e') k))" by (simp add: past_ok_def)
    then show ?thesis using 7(1,2) more [of i] by simp
  qed
qed

lemma past_reaches:
  assumes "execution (net_step E) (nw_start E fs) es W" and "fs_server E V" and "quiescent E fs I"
  shows "past_ok es i (nw_thread W i)"
  using assms
proof (induction arbitrary: i rule: execution.induct)
  case execution_start
  then show ?case by (simp add: nw_start_def past_ok_def)
next
  case (execution_step es W e W')
  note P = fs_server.net_projects [OF execution_step(4,1,5)]
  show ?case
  proof (rule past_step [OF execution_step(2)])
    show "past_ok es i (nw_thread W i)" for i using execution_step by blast
    show "length dat = FS_BLOCKSIZE" if "nw_thread W i = Some (Handling c req k)" "sv_task (nw_server W) i = Some (Done (Inr dat))"
      "parse_command (fst (next_token req)) = FS_READBLOCK" for i c req k dat
      using fs_server.reply_whole [OF execution_step(4) _ _ execution_step(5) that] P by blast
  qed
qed

text \<open>What the two halves of a request did with the socket, when the result is 0.\<close>

context stream_socket
begin

lemma receive_request_bytes:
  assumes "receive_request N junk k = (Inr (req, d), k')"
  shows "\<exists>rest d0. pending k = req @ NUL # rest \<and> sent k' = sent k \<and> parse_message junk req = Inr d0 \<and>
    d = (if command_type d0 = FS_WRITEBLOCK then d0\<lparr>data := take FS_BLOCKSIZE rest\<rparr> else d0)"
proof -
  obtain d0 k1 where rm: "receive_message N k = (Some req, k1)" and d0: "parse_message junk req = Inr d0"
    and d: "(\<exists>dat. command_type d0 = FS_WRITEBLOCK \<and> d = d0\<lparr>data := dat\<rparr> \<and> receive_data N k1 [] = (Some dat, k')) \<or>
      command_type d0 \<noteq> FS_WRITEBLOCK \<and> d = d0 \<and> k' = k1"
    using assms parse_command_type [of junk] by (fastforce simp: receive_request_def split: prod.splits option.splits sum.splits if_splits)
  note r = receive_message_Some [OF rm]
  have "sent k' = sent k1 \<and> dat = take FS_BLOCKSIZE (pending k1)" if "receive_data N k1 [] = (Some dat, k')" for dat
    using receive_data_props(1) [OF that] receive_data_props(2) [OF that _ refl] by auto
  then show ?thesis using r d d0 by (intro exI [of _ "pending k1"] exI [of _ d0]) auto
qed

lemma send_reply_bytes:
  assumes "send_reply N req r k = Some (Inr 0, k')" and "outcome r = Some (sp, x)"
    and "\<And>dat. r = Inr dat \<Longrightarrow> parse_command (fst (next_token req)) = FS_READBLOCK \<Longrightarrow> length dat = FS_BLOCKSIZE"
  shows "\<exists>dat. sp \<and> x = Some dat \<and>
    sent k' = sent k @ req @ [NUL] @ (if parse_command (fst (next_token req)) = FS_READBLOCK then dat else [])"
proof (cases r)
  case (Inl e)
  then show ?thesis using assms(1,2) by (cases r rule: outcome.cases) (auto simp: send_reply_def caught_def)
next
  case (Inr dat)
  obtain ok k1 where s: "send_message N k req = Some (ok, k1)" "ok \<longrightarrow> sent k1 = sent k @ req @ [NUL]"
    using send_message_returns by blast
  have ok: "ok" using assms(1) s(1) Inr by (cases ok) (simp_all add: send_reply_def)
  show ?thesis
  proof (cases "parse_command (fst (next_token req)) = FS_READBLOCK")
    case True
    obtain ok2 k2 where "send_data N k1 dat = Some (ok2, k2)" "ok2 \<longrightarrow> sent k2 = sent k1 @ dat"
      using send_data_returns [OF assms(3) [OF Inr True]] by blast
    then show ?thesis using assms(1,2) s ok Inr True by (cases ok2) (auto simp: send_reply_def)
  next
    case False
    then show ?thesis using assms(1,2) s ok Inr by (auto simp: send_reply_def)
  qed
qed

end

subsection \<open>The whole server\<close>

text \<open>A server that \<^verbatim>\<open>main\<close> has started.\<close>

definition started ::
  "('d, 'm) fs_env \<Rightarrow> 'd \<Rightarrow> server_os \<Rightarrow> string list \<Rightarrow> ('d, 'm, 'k) Network \<Rightarrow> bool" where
  "started E d os argv W \<longleftrightarrow> (\<exists>fs p. server_main E d os argv = Some (Inr (Running fs p)) \<and> W = nw_start E fs)"

context fs_server
begin

lemma server_device: "fs_device E"
  by (rule fs_device_axioms)

end

lemma started_quiescent:
  assumes "fs_server E V" and "fs_wf E d I" and "all_reachable E d I" and "started E d os argv W0"
  shows "\<exists>fs. W0 = nw_start E fs \<and> disk fs = d \<and> quiescent E fs I"
proof -
  obtain s where "new_FileSystem E d = Some (Inr s)" "disk s = d" "quiescent E s I"
    using fs_device.new_FileSystem_returns [OF fs_server.server_device [OF assms(1)] assms(2,3)] by blast
  then show ?thesis
    using assms(4) by (auto simp: started_def server_main_def new_NetworkServer_def Let_def split: sum.splits stop.splits if_splits)
qed


text \<open>
  C6: What the clients of the concurrent server are told is what an atomic file system would answer.  The requests that
  the threads hand to the file system and its answers are those of a server where every request takes effect at once,
  between its start and its answer, on the file system that was on the disk; and a client whose thread returned 0
  had sent the bytes of a request that parses, possibly with a block of data, this was one of the requests, it was
  answered with success, and the client has been sent its request back, followed for a read by exactly the block of
  the answer.
\<close>

theorem clients_see_atomic_server:
  assumes "fs_server E V" and "fs_wf E d I" and "all_reachable E d I" and "started E d os argv W0"
    and "execution (net_step E) W0 es W"
  shows "\<exists>as P. execution atomic_step (abs_fs E d, Map.empty) as (abs_fs E (sh_disk (sv_shared (nw_server W))), P) \<and>
    filter client_sees as = filter client_sees (concat (map fs_events es)) \<and>
    (\<forall>i c k pending sent. Accept i c \<in> set es \<longrightarrow> stream_socket (conn_env c) pending sent \<longrightarrow>
      nw_thread W i = Some (Returned (Inr 0) k) \<longrightarrow>
      (\<exists>req rest cmd c' dat. pending (conn_state c) = req @ NUL # rest \<and> parse_message (conn_junk c) req = Inr cmd \<and>
        c' = (if command_type cmd = FS_WRITEBLOCK then cmd\<lparr>data := take FS_BLOCKSIZE rest\<rparr> else cmd) \<and>
        Start i c' \<in> set as \<and> Answer i True (Some dat) \<in> set as \<and>
        sent k = sent (conn_state c) @ req @ [NUL] @ (if command_type cmd = FS_READBLOCK then dat else [])))"
proof -
  obtain fs where fs: "W0 = nw_start E fs" "disk fs = d" "quiescent E fs I" using started_quiescent [OF assms(1-4)] by blast
  note ex = assms(5) [unfolded fs(1)]
  obtain as P where as: "execution atomic_step (abs_fs E d, Map.empty) as (abs_fs E (sh_disk (sv_shared (nw_server W))), P)"
    "filter client_sees as = filter client_sees (concat (map fs_events es))"
    using fs_server.server_traces [OF assms(1) fs(3)] fs_server.net_projects [OF assms(1) ex fs(3)] fs(2)
    unfolding linearizes_def by blast
  have seen: "e \<in> set as" if "e \<in> set (concat (map fs_events es))" "client_sees e" for e
  proof -
    have "e \<in> set (filter client_sees as)" unfolding as(2) using that by simp
    then show ?thesis by simp
  qed
  have "\<exists>req rest cmd c' dat. pending (conn_state c) = req @ NUL # rest \<and> parse_message (conn_junk c) req = Inr cmd \<and>
        c' = (if command_type cmd = FS_WRITEBLOCK then cmd\<lparr>data := take FS_BLOCKSIZE rest\<rparr> else cmd) \<and>
        Start i c' \<in> set as \<and> Answer i True (Some dat) \<in> set as \<and>
        sent k = sent (conn_state c) @ req @ [NUL] @ (if command_type cmd = FS_READBLOCK then dat else [])"
    if h: "Accept i c \<in> set es" "stream_socket (conn_env c) pending sent" "nw_thread W i = Some (Returned (Inr 0) k)"
    for i c k pending sent
  proof -
    have "past_ok es i (Some (Returned (Inr 0) k))" using past_reaches [OF ex assms(1) fs(3), of i] h(3) by simp
    then obtain req c' k0 r sp x where r: "receive_request (conn_env c) (conn_junk c) (conn_state c) = (Inr (req, c'), k0)"
        "Request i c' \<in> set es" "outcome r = Some (sp, x)" "Reply i sp x \<in> set es" "send_reply (conn_env c) req r k0 = Some (Inr 0, k)"
        "\<forall>dat. r = Inr dat \<longrightarrow> parse_command (fst (next_token req)) = FS_READBLOCK \<longrightarrow> length dat = FS_BLOCKSIZE"
      using h(1) by (auto simp: past_ok_def)
    obtain rest cmd where b: "pending (conn_state c) = req @ NUL # rest" "sent k0 = sent (conn_state c)" "parse_message (conn_junk c) req = Inr cmd"
        "c' = (if command_type cmd = FS_WRITEBLOCK then cmd\<lparr>data := take FS_BLOCKSIZE rest\<rparr> else cmd)"
      using stream_socket.receive_request_bytes [OF h(2) r(1)] by blast
    obtain dat where dat: "sp" "x = Some dat"
        "sent k = sent k0 @ req @ [NUL] @ (if parse_command (fst (next_token req)) = FS_READBLOCK then dat else [])"
      using stream_socket.send_reply_bytes [OF h(2) r(5,3)] r(6) by blast
    have "Start i c' \<in> set as" using seen [of "Start i c'"] r(2) by force
    moreover have "Answer i True (Some dat) \<in> set as" using seen [of "Answer i True (Some dat)"] r(4) dat(1,2) by force
    ultimately show ?thesis using b dat(3) parse_command_type [OF b(3)] by metis
  qed
  then show ?thesis using as by blast
qed

subsection \<open>A run of the example server\<close>

text \<open>A client asks for the block 0 of the file \<^verbatim>\<open>/a\<close>.\<close>

definition demo_os :: server_os where
  "demo_os = \<lparr>os_socket = 3, os_setsockopt = 0, os_bind = (\<lambda>_. 0), os_listen = (\<lambda>_. 0), os_getsockname = (0, 4711)\<rparr>"

definition demo_connection :: "string \<Rightarrow> (string \<times> string) connection" where
  "demo_connection bs =
     \<lparr>conn_env = pipe_env, conn_state = (bs, []), conn_junk = demo_command INVALID [], conn_junk_inode = demo_root\<rparr>"

lemma demo_read_run:
  "\<exists>W0 es W k. started ram_env demo_disk demo_os [''fs''] W0 \<and> execution (net_step ram_env) W0 es W \<and>
     Accept 0 (demo_connection (read_request ''u'' ''/a'' 0 @ [NUL])) \<in> set es \<and> nw_thread W 0 = Some (Returned (Inr 0) k)"
proof -
  let ?c = "demo_connection (read_request ''u'' ''/a'' 0 @ [NUL])"
  obtain fs where fs: "new_FileSystem ram_env demo_disk = Some (Inr fs)" "disk fs = demo_disk" "quiescent ram_env fs {0, 2}"
    using ram.new_FileSystem_returns [OF demo_wf demo_reachable] by blast
  let ?W0 = "nw_start ram_env fs"
  let ?W1 = "?W0\<lparr>nw_thread := (nw_thread ?W0)(0 \<mapsto> Accepted ?c)\<rparr>"
  have st: "started ram_env demo_disk demo_os [''fs''] ?W0"
    using fs(1) by (simp add: started_def server_main_def new_NetworkServer_def demo_os_def get_port_number_def)
  have "good_connection ?c" using pipe_stream demo_fits(1) by (auto simp: good_connection_def demo_connection_def)
  then have ac: "net_step ram_env ?W0 (Accept 0 ?c) ?W1" by (intro net_accept) (simp_all add: nw_start_def)
  have "lock_map fs = Map.empty" using fs(3) by (simp add: quiescent_def)
  then have sf: "same_fs fs (sv_shared (nw_server ?W1))" using same_fs_start [of fs ram_env] by (simp add: nw_start_def)
  obtain k where k: "handle_request ram_env (conn_env ?c) (conn_junk ?c) (conn_junk_inode ?c) (fs, conn_state ?c) = Some (Inr 0, fs, k)"
    using working_server.client_read [OF ram_pipe_working fs(3) demo_names(1,2), of 0 "conn_state ?c" "[]",
        where junk = "conn_junk ?c" and ji = "conn_junk_inode ?c"]
    by (auto simp: spec_read_def fs(2) demo_abs FS_MAXFILEBLOCKS_def demo_connection_def)
  have "nw_thread ?W1 0 = Some (Accepted ?c)" by simp
  from served_alone [OF sf this k] obtain es W where
    W: "execution (net_step ram_env) ?W1 es W" "nw_thread W 0 = Some (Returned (Inr 0) k)" by auto
  from execution_Cons [of "net_step ram_env", OF ac W(1)] have "execution (net_step ram_env) ?W0 (Accept 0 ?c # es) W" .
  then show ?thesis using st W(2) by (intro exI conjI) auto
qed


theorem clients_see_atomic_server_witness:
  "\<exists>W0 es W k. started ram_env demo_disk demo_os [''fs''] W0 \<and> execution (net_step ram_env) W0 es W \<and>
     Accept 0 (demo_connection (read_request ''u'' ''/a'' 0 @ [NUL])) \<in> set es \<and> nw_thread W 0 = Some (Returned (Inr 0) k) \<and>
     (\<exists>req rest. read_request ''u'' ''/a'' 0 @ [NUL] = req @ NUL # rest \<and> (\<exists>tail. snd k = req @ [NUL] @ tail))"
proof -
  obtain W0 es W k where r: "started ram_env demo_disk demo_os [''fs''] W0" "execution (net_step ram_env) W0 es W"
    "Accept 0 (demo_connection (read_request ''u'' ''/a'' 0 @ [NUL])) \<in> set es" "nw_thread W 0 = Some (Returned (Inr 0) k)"
    using demo_read_run by blast
  have sk: "stream_socket (conn_env (demo_connection bs)) fst snd" for bs using pipe_stream by (simp add: demo_connection_def)
  have "\<exists>req rest. read_request ''u'' ''/a'' 0 @ [NUL] = req @ NUL # rest \<and> (\<exists>tail. snd k = req @ [NUL] @ tail)"
    using clients_see_atomic_server [OF ram_server.fs_server_axioms demo_wf demo_reachable r(1,2)]
  proof (elim exE conjE, goal_cases)
    case (1 as P)
    from 1(3) [rule_format, OF r(3) sk r(4)] show ?case by (auto simp: demo_connection_def)
  qed
  then show ?thesis using r by blast
qed

end
