(* ===== verification/Thread_Lib.thy ===== *)
theory Thread_Lib
  imports Transition
begin

text \<open>
  The thread library of \<^verbatim>\<open>src/threadlib\<close>.  Every library call is a critical section under
  \<^verbatim>\<open>os_guard\<close> (interrupts off, the global guard taken), so it is one function from state to state.
  A context switch ends the critical section of one thread and continues that of another: where a
  suspended thread continues is recorded with it (\<open>continuation\<close>), and \<open>switch_to\<close> runs the rest of its
  critical section.  The contexts themselves (\<^verbatim>\<open>ucontext\<close>) and the simulated CPU belong to the
  infrastructure; of the CPU the model keeps which one is suspended and which has an interrupt pending.
\<close>

subsection \<open>State\<close>

text \<open>
  Where a thread continues when it is switched to: in user code, inside \<^verbatim>\<open>mutex::lock\<close> after the wait,
  inside \<^verbatim>\<open>cv::wait\<close> after the wait, between the two critical sections of \<^verbatim>\<open>cv::wait\<close>, or in the loop of
  an idle CPU.
\<close>

datatype continuation = User | In_lock nat | In_wait nat | Relock nat | Idle

record thread_info =
  threads_waiting :: "nat list"
  finished :: bool
  thread_ctx :: continuation

record mutex =
  m_waiting_threads :: "nat list"
  owned_thread :: "nat option"
  free :: bool

record cpu =
  executing_thread :: "nat option"
  waiting_thread :: nat

text \<open>
  \<open>heap\<close> holds the \<^verbatim>\<open>thread_info\<close> objects that are alive; a weak pointer to an object that is gone
  locks to null.
\<close>

record lib =
  heap :: "nat \<rightharpoonup> thread_info"
  next_id :: nat
  cpus :: "nat \<rightharpoonup> cpu"
  ready_threads :: "nat list"
  finished_threads :: "nat list"
  suspended_cpus :: "nat list"
  pending_ipis :: "nat set"
  mutexes :: "nat \<Rightarrow> mutex"
  cvs :: "nat \<Rightarrow> nat list"

definition new_mutex :: mutex where
  "new_mutex = \<lparr>m_waiting_threads = [], owned_thread = None, free = True\<rparr>"

definition new_thread_info :: "continuation \<Rightarrow> thread_info" where
  "new_thread_info ctx = \<lparr>threads_waiting = [], finished = False, thread_ctx = ctx\<rparr>"

definition init_lib :: lib where
  "init_lib =
     \<lparr>heap = Map.empty, next_id = 0, cpus = Map.empty, ready_threads = [], finished_threads = [],
      suspended_cpus = [], pending_ipis = {}, mutexes = (\<lambda>_. new_mutex), cvs = (\<lambda>_. [])\<rparr>"

definition current :: "nat \<Rightarrow> lib \<Rightarrow> nat option" where
  "current c s = (case cpus s c of None \<Rightarrow> None | Some k \<Rightarrow> executing_thread k)"

definition set_executing :: "nat \<Rightarrow> nat option \<Rightarrow> lib \<Rightarrow> lib" where
  "set_executing c x s = s\<lparr>cpus := (cpus s)(c := map_option (\<lambda>k. k\<lparr>executing_thread := x\<rparr>) (cpus s c))\<rparr>"

definition set_thread :: "nat \<Rightarrow> (thread_info \<Rightarrow> thread_info) \<Rightarrow> lib \<Rightarrow> lib" where
  "set_thread t f s = s\<lparr>heap := (heap s)(t := map_option f (heap s t))\<rparr>"

definition set_ctx :: "nat \<Rightarrow> continuation \<Rightarrow> lib \<Rightarrow> lib" where
  "set_ctx t ctx = set_thread t (\<lambda>i. i\<lparr>thread_ctx := ctx\<rparr>)"

definition set_mutex :: "nat \<Rightarrow> mutex \<Rightarrow> lib \<Rightarrow> lib" where
  "set_mutex m x s = s\<lparr>mutexes := (mutexes s)(m := x)\<rparr>"

definition lock_weak :: "lib \<Rightarrow> nat option \<Rightarrow> nat option" where
  "lock_weak s w = (case w of None \<Rightarrow> None | Some t \<Rightarrow> if heap s t = None then None else Some t)"

subsection \<open>Scheduling\<close>

definition push_and_signal :: "nat \<Rightarrow> lib \<Rightarrow> lib" where
  "push_and_signal t s =
     (let s = s\<lparr>ready_threads := ready_threads s @ [t]\<rparr>
      in case suspended_cpus s of
           [] \<Rightarrow> s
         | cpu_to_wake # rest \<Rightarrow>
             s\<lparr>suspended_cpus := rest, pending_ipis := insert cpu_to_wake (pending_ipis s)\<rparr>)"

text \<open>
  \<open>switch_to c t\<close> is the context switch of CPU \<open>c\<close> to thread \<open>t\<close>: it runs the rest of the critical
  section of \<open>t\<close>, up to where that releases the guard.  For the idle thread of the CPU this is the
  loop of \<open>wait_for_ready_thread\<close> from the test of the ready queue on, which suspends the CPU or takes
  a ready thread.
\<close>

function switch_to :: "nat \<Rightarrow> nat \<Rightarrow> lib \<Rightarrow> stop + lib"
  and wait_for_ready_thread :: "nat \<Rightarrow> lib \<Rightarrow> stop + lib" where
  "switch_to c t s =
     (case heap s t of
        None \<Rightarrow> Inl Undefined_behaviour
      | Some i \<Rightarrow>
          (case thread_ctx i of
             User \<Rightarrow> Inr s
           | In_lock m \<Rightarrow> if free (mutexes s m) then Inl Assertion_failed else Inr (set_ctx t User s)
           | In_wait m \<Rightarrow> Inr (set_ctx t (Relock m) s)
           | Relock m \<Rightarrow> Inr s
           | Idle \<Rightarrow> wait_for_ready_thread c s))"
| "wait_for_ready_thread c s =
     (case ready_threads s of
        [] \<Rightarrow> Inr (s\<lparr>suspended_cpus := suspended_cpus s @ [c]\<rparr>)
      | new_thread # rest \<Rightarrow>
          switch_to c new_thread (set_executing c (Some new_thread) (s\<lparr>ready_threads := rest\<rparr>)))"
  by pat_completeness auto
termination
  by (relation "measure (\<lambda>x. case x of
        Inl (c, t, s) \<Rightarrow> 2 * length (ready_threads s) + 1
      | Inr (c, s) \<Rightarrow> 2 * length (ready_threads s))")
    (auto simp: set_executing_def)

declare switch_to.simps [simp del] wait_for_ready_thread.simps [simp del]

definition wait_and_pop :: "nat \<Rightarrow> lib \<Rightarrow> stop + lib" where
  "wait_and_pop c s =
     (case cpus s c of
        None \<Rightarrow> Inl Undefined_behaviour
      | Some k \<Rightarrow>
          (case ready_threads s of
             [] \<Rightarrow> switch_to c (waiting_thread k) (set_executing c (Some (waiting_thread k)) s)
           | new_thread # rest \<Rightarrow>
               switch_to c new_thread (set_executing c (Some new_thread) (s\<lparr>ready_threads := rest\<rparr>))))"

definition create_thread :: "lib \<Rightarrow> nat \<times> lib" where
  "create_thread s =
     (next_id s, s\<lparr>heap := (heap s)(next_id s \<mapsto> new_thread_info User), next_id := next_id s + 1\<rparr>)"

subsection \<open>Threads\<close>

definition thread_create :: "lib \<Rightarrow> nat \<times> lib" where
  "thread_create s = (case create_thread s of (t, s) \<Rightarrow> (t, push_and_signal t s))"

definition yield :: "nat \<Rightarrow> lib \<Rightarrow> stop + lib" where
  "yield c s =
     (case cpus s c of
        None \<Rightarrow> Inl Undefined_behaviour
      | Some k \<Rightarrow>
          if executing_thread k = Some (waiting_thread k) then Inr s
          else (case executing_thread k of
              None \<Rightarrow> Inl Undefined_behaviour
            | Some t \<Rightarrow>
                (case ready_threads s of
                   [] \<Rightarrow> Inr s
                 | next_thread # rest \<Rightarrow>
                     switch_to c next_thread
                       (set_executing c (Some next_thread) (s\<lparr>ready_threads := rest @ [t]\<rparr>)))))"

definition thread_join :: "nat \<Rightarrow> nat \<Rightarrow> lib \<Rightarrow> stop + lib" where
  "thread_join c info s =
     (case lock_weak s (Some info) of
        None \<Rightarrow> Inr s
      | Some t \<Rightarrow>
          if finished (the (heap s t)) then Inr s
          else (case current c s of
              None \<Rightarrow> Inl Undefined_behaviour
            | Some curr_thread \<Rightarrow>
                wait_and_pop c
                  (set_thread t (\<lambda>i. i\<lparr>threads_waiting := threads_waiting i @ [curr_thread]\<rparr>)
                    (set_executing c None s))))"

text \<open>The end of \<^verbatim>\<open>func_with_swap\<close>, after the user's function has returned.\<close>

definition thread_exit :: "nat \<Rightarrow> lib \<Rightarrow> stop + lib" where
  "thread_exit c s =
     (case current c s of
        None \<Rightarrow> Inl Undefined_behaviour
      | Some t \<Rightarrow>
          let s = s\<lparr>heap := (heap s) |` (- set (finished_threads s)), finished_threads := []\<rparr>
          in case heap s t of
               None \<Rightarrow> Inl Undefined_behaviour
             | Some i \<Rightarrow>
                 let s = foldl (\<lambda>s w. push_and_signal w s) s (threads_waiting i);
                     s = set_thread t (\<lambda>i. i\<lparr>threads_waiting := [], finished := True\<rparr>) s;
                     s = set_executing c None s
                 in wait_and_pop c (s\<lparr>finished_threads := finished_threads s @ [t]\<rparr>))"

subsection \<open>Mutexes\<close>

definition mutex_lock :: "nat \<Rightarrow> nat \<Rightarrow> lib \<Rightarrow> stop + lib" where
  "mutex_lock c m s =
     (case current c s of
        None \<Rightarrow> Inl Undefined_behaviour
      | Some curr_thread \<Rightarrow>
          let x = mutexes s m
          in if \<not> free x then
               wait_and_pop c
                 (set_ctx curr_thread (In_lock m)
                   (set_mutex m (x\<lparr>m_waiting_threads := m_waiting_threads x @ [curr_thread]\<rparr>)
                     (set_executing c None s)))
             else
               Inr (set_ctx curr_thread User
                     (set_mutex m (x\<lparr>free := False, owned_thread := Some curr_thread\<rparr>) s)))"

definition unlock_mutex :: "nat \<Rightarrow> nat \<Rightarrow> lib \<Rightarrow> stop + lib" where
  "unlock_mutex c m s =
     (let x = mutexes s m
      in if free x \<or> current c s \<noteq> lock_weak s (owned_thread x)
         then Inl (Runtime_error ''mutex::unlock called without holding the lock'')
         else (case m_waiting_threads x of
             [] \<Rightarrow> Inr (set_mutex m (x\<lparr>owned_thread := None, free := True\<rparr>) s)
           | unlocked_thread # rest \<Rightarrow>
               Inr (push_and_signal unlocked_thread
                 (set_mutex m (x\<lparr>m_waiting_threads := rest, owned_thread := Some unlocked_thread, free := False\<rparr>) s))))"

definition mutex_unlock :: "nat \<Rightarrow> nat \<Rightarrow> lib \<Rightarrow> stop + lib" where
  "mutex_unlock c m s = unlock_mutex c m s"

subsection \<open>Condition variables\<close>

text \<open>The first critical section of \<^verbatim>\<open>cv::wait\<close>; the second is the call of \<open>mutex_lock\<close> from \<open>Relock\<close>.\<close>

definition cv_wait :: "nat \<Rightarrow> nat \<Rightarrow> nat \<Rightarrow> lib \<Rightarrow> stop + lib" where
  "cv_wait c v m s =
     bindr (unlock_mutex c m s) (\<lambda>s.
     case current c s of
       None \<Rightarrow> Inl Undefined_behaviour
     | Some curr_thread \<Rightarrow>
         wait_and_pop c
           (set_ctx curr_thread (In_wait m)
             (set_executing c None (s\<lparr>cvs := (cvs s)(v := cvs s v @ [curr_thread])\<rparr>))))"

definition cv_signal :: "nat \<Rightarrow> lib \<Rightarrow> lib" where
  "cv_signal v s =
     (case cvs s v of
        [] \<Rightarrow> s
      | w_thread # rest \<Rightarrow> push_and_signal w_thread (s\<lparr>cvs := (cvs s)(v := rest)\<rparr>))"

fun broadcast_loop :: "nat \<Rightarrow> nat list \<Rightarrow> lib \<Rightarrow> lib" where
  "broadcast_loop v [] s = s"
| "broadcast_loop v (w_thread # rest) s =
     broadcast_loop v rest (push_and_signal w_thread (s\<lparr>cvs := (cvs s)(v := rest)\<rparr>))"

definition cv_broadcast :: "nat \<Rightarrow> lib \<Rightarrow> lib" where
  "cv_broadcast v s = broadcast_loop v (cvs s v) s"

subsection \<open>CPUs\<close>

text \<open>\<open>main\<close> says that the constructor got a function to run.\<close>

definition cpu_boot :: "nat \<Rightarrow> bool \<Rightarrow> lib \<Rightarrow> stop + lib" where
  "cpu_boot c main s =
     (let w = next_id s;
          s = s\<lparr>heap := (heap s)(w \<mapsto> new_thread_info Idle), next_id := w + 1,
                cpus := (cpus s)(c \<mapsto> \<lparr>executing_thread = None, waiting_thread = w\<rparr>)\<rparr>
      in if main then (case create_thread s of (t, s) \<Rightarrow> Inr (set_executing c (Some t) s))
         else wait_and_pop c s)"

subsection \<open>Interleaving\<close>

datatype event =
    Lock nat | Unlock nat | Wait nat nat | Signal nat | Broadcast nat
  | Yield | Join nat | Create | Exit | Wakeup | Boot bool

definition ctx_of :: "lib \<Rightarrow> nat \<Rightarrow> continuation option" where
  "ctx_of s t = map_option thread_ctx (heap s t)"

definition run_op :: "nat \<Rightarrow> event \<Rightarrow> lib \<Rightarrow> stop + lib" where
  "run_op c e s =
     (case e of
        Lock m \<Rightarrow> mutex_lock c m s
      | Unlock m \<Rightarrow> mutex_unlock c m s
      | Wait v m \<Rightarrow> cv_wait c v m s
      | Signal v \<Rightarrow> Inr (cv_signal v s)
      | Broadcast v \<Rightarrow> Inr (cv_broadcast v s)
      | Yield \<Rightarrow> yield c s
      | Join t \<Rightarrow> thread_join c t s
      | Create \<Rightarrow> Inr (snd (thread_create s))
      | Exit \<Rightarrow> thread_exit c s
      | Wakeup \<Rightarrow> wait_for_ready_thread c (s\<lparr>pending_ipis := pending_ipis s - {c}\<rparr>)
      | Boot main \<Rightarrow> cpu_boot c main s)"

text \<open>
  What a CPU can do next: a user thread calls the library; a timer interrupt makes the CPU yield,
  unless it is suspended; a thread between the two halves of \<^verbatim>\<open>cv::wait\<close> takes the mutex again; an
  idle CPU that has got an interrupt goes on with its loop; a CPU that has not started boots.  Users
  hold no handle on an idle thread, so they cannot join one.
\<close>

definition in_user_code :: "nat \<Rightarrow> lib \<Rightarrow> bool" where
  "in_user_code c s \<longleftrightarrow> (case current c s of None \<Rightarrow> False | Some t \<Rightarrow> ctx_of s t = Some User)"

definition enabled :: "nat \<Rightarrow> event \<Rightarrow> lib \<Rightarrow> bool" where
  "enabled c e s =
     (case e of
        Boot _ \<Rightarrow> cpus s c = None
      | Wakeup \<Rightarrow> c \<in> pending_ipis s
      | Yield \<Rightarrow> cpus s c \<noteq> None \<and> c \<notin> set (suspended_cpus s)
      | Lock m \<Rightarrow> in_user_code c s \<or> (case current c s of None \<Rightarrow> False | Some t \<Rightarrow> ctx_of s t = Some (Relock m))
      | Join t \<Rightarrow> in_user_code c s \<and> ctx_of s t \<noteq> Some Idle
      | _ \<Rightarrow> in_user_code c s)"

text \<open>An exception of the library leaves its state as it was.\<close>

inductive step :: "lib \<Rightarrow> nat \<times> event \<Rightarrow> lib \<Rightarrow> bool" where
  step_op: "enabled c e s \<Longrightarrow> run_op c e s = Inr s' \<Longrightarrow> step s (c, e) s'"
| step_throw: "enabled c e s \<Longrightarrow> run_op c e s = Inl (Runtime_error msg) \<Longrightarrow> step s (c, e) s"

inductive_cases stepE: "step s (c, e) s'"

end
