(* ===== verification/Thread_Place.thy ===== *)
theory Thread_Place
  imports Thread_Lib
begin

text \<open>
  Where the threads are.  Every thread that is not idle stands in exactly one place: the ready queue, a
  CPU, or the queue of a mutex, of a condition variable or of a thread that it joins.  Here the places
  are seen as one family of queues, and the moves of the library as updates of that family.
\<close>

datatype place = QReady | QExec nat | QMutex nat | QCv nat | QJoin nat

type_synonym queues = "place \<Rightarrow> nat list"

text \<open>No thread is twice in a queue or in two queues.\<close>

definition linear :: "queues \<Rightarrow> bool" where
  "linear Q \<longleftrightarrow> (\<forall>q. distinct (Q q)) \<and> (\<forall>q q' t. t \<in> set (Q q) \<longrightarrow> t \<in> set (Q q') \<longrightarrow> q = q')"

text \<open>What the continuation of a thread is, given its place and the owners of the mutexes.\<close>

fun ctx_fits :: "(nat \<Rightarrow> nat option) \<Rightarrow> place \<Rightarrow> nat \<Rightarrow> continuation \<Rightarrow> bool" where
  "ctx_fits own QReady t x = (x \<noteq> Idle \<and> (\<forall>m. x = In_lock m \<longrightarrow> own m = Some t))"
| "ctx_fits own (QExec c) t x = (x = User \<or> (\<exists>m. x = Relock m))"
| "ctx_fits own (QMutex m) t x = (x = In_lock m)"
| "ctx_fits own (QCv v) t x = (\<exists>m. x = In_wait m)"
| "ctx_fits own (QJoin u) t x = (x = User)"

definition placed :: "queues \<Rightarrow> (nat \<rightharpoonup> continuation) \<Rightarrow> (nat \<Rightarrow> nat option) \<Rightarrow> bool" where
  "placed Q L own \<longleftrightarrow> linear Q
     \<and> (\<forall>t x. L t = Some x \<longrightarrow> x \<noteq> Idle \<longrightarrow> (\<exists>q. t \<in> set (Q q)))
     \<and> (\<forall>q t. t \<in> set (Q q) \<longrightarrow> (\<exists>x. L t = Some x \<and> ctx_fits own q t x))"

lemma linear_unique: "linear Q \<Longrightarrow> t \<in> set (Q q) \<Longrightarrow> t \<in> set (Q q') \<Longrightarrow> q = q'"
  by (simp add: linear_def)

lemma linear_distinct: "linear Q \<Longrightarrow> distinct (Q q)"
  by (simp add: linear_def)

text \<open>A queue may lose members, a thread that is nowhere may enter a queue.\<close>

lemma linear_remove:
  assumes "linear Q" and "set xs \<subseteq> set (Q q)" and "distinct xs"
  shows "linear (Q(q := xs))"
  using assms unfolding linear_def by (metis fun_upd_apply subsetD)

lemma linear_tail:
  assumes "linear Q" and "Q q = t # ts"
  shows "linear (Q(q := ts))"
proof (rule linear_remove[OF assms(1)])
  show "set ts \<subseteq> set (Q q)" using assms(2) by auto
  show "distinct ts" using linear_distinct[OF assms(1), of q] assms(2) by simp
qed

lemma linear_add:
  assumes "linear Q" and "\<And>q. t \<notin> set (Q q)"
  shows "linear (Q(q := Q q @ [t]))"
  using assms unfolding linear_def by (auto split: if_splits)

lemma linear_move:
  assumes "linear Q" and "Q q = t # ts" and "q \<noteq> q'"
  shows "linear (Q(q := ts, q' := Q q' @ [t]))"
proof -
  have d: "distinct (t # ts)" using linear_distinct[OF assms(1), of q] assms(2) by simp
  have n: "t \<notin> set ((Q(q := ts)) r)" for r
    using linear_unique[OF assms(1), of t q r] assms(2) d by auto
  have "linear (Q(q := ts))" by (rule linear_tail[OF assms(1,2)])
  from linear_add[of "Q(q := ts)" t q', OF this n] show ?thesis using assms(3) by simp
qed

lemma placed_linear: "placed Q L own \<Longrightarrow> linear Q"
  by (simp add: placed_def)

lemma placed_covers: "placed Q L own \<Longrightarrow> L t = Some x \<Longrightarrow> x \<noteq> Idle \<Longrightarrow> \<exists>q. t \<in> set (Q q)"
  by (simp add: placed_def)

lemma placed_ctx: "placed Q L own \<Longrightarrow> t \<in> set (Q q) \<Longrightarrow> \<exists>x. L t = Some x \<and> ctx_fits own q t x"
  by (simp add: placed_def)

lemma placedI:
  assumes "linear Q"
    and "\<And>t x. L t = Some x \<Longrightarrow> x \<noteq> Idle \<Longrightarrow> \<exists>q. t \<in> set (Q q)"
    and "\<And>q t. t \<in> set (Q q) \<Longrightarrow> \<exists>x. L t = Some x \<and> ctx_fits own q t x"
  shows "placed Q L own"
  using assms by (simp add: placed_def)

text \<open>
  The general move: the head of one queue goes to the end of another, with the continuation that fits
  there.
\<close>

lemma placed_move:
  assumes P: "placed Q L own" and h: "Q q = t # ts" and ne: "q \<noteq> q'" and fit: "ctx_fits own q' t x"
  shows "placed (Q(q := ts, q' := Q q' @ [t])) (L(t \<mapsto> x)) own"
proof (rule placedI)
  let ?Q = "Q(q := ts, q' := Q q' @ [t])"
  have lin: "linear Q" by (rule placed_linear[OF P])
  show L': "linear ?Q" by (rule linear_move[OF lin h ne])
  have other: "u \<in> set (?Q r) \<longleftrightarrow> u \<in> set (Q r)" if "u \<noteq> t" for u r
    using that h ne by auto
  show "\<exists>r. u \<in> set (?Q r)" if "(L(t \<mapsto> x)) u = Some y" and "y \<noteq> Idle" for u y
  proof (cases "u = t")
    case True
    then have "u \<in> set (?Q q')" by simp
    then show ?thesis by blast
  next
    case False
    then have "L u = Some y" using that(1) by simp
    from placed_covers[OF P this that(2)] show ?thesis using other[OF False] by blast
  qed
  show "\<exists>y. (L(t \<mapsto> x)) u = Some y \<and> ctx_fits own r u y" if "u \<in> set (?Q r)" for r u
  proof (cases "u = t")
    case True
    have "t \<in> set (?Q q')" by simp
    then have "r = q'" using linear_unique[OF L'] that True by blast
    then show ?thesis using True fit by simp
  next
    case False
    then have "u \<in> set (Q r)" using that other by blast
    then show ?thesis using placed_ctx[OF P] False by simp
  qed
qed

text \<open>A thread that is nowhere enters a queue.\<close>

lemma placed_new:
  assumes P: "placed Q L own" and n: "L t = None" and fit: "ctx_fits own q t x"
  shows "placed (Q(q := Q q @ [t])) (L(t \<mapsto> x)) own"
proof (rule placedI)
  have lin: "linear Q" by (rule placed_linear[OF P])
  have nowhere: "t \<notin> set (Q r)" for r using placed_ctx[OF P, of t r] n by auto
  show "linear (Q(q := Q q @ [t]))" by (rule linear_add[OF lin nowhere])
  show "\<exists>r. u \<in> set ((Q(q := Q q @ [t])) r)" if "(L(t \<mapsto> x)) u = Some y" and "y \<noteq> Idle" for u y
  proof (cases "u = t")
    case True
    then have "u \<in> set ((Q(q := Q q @ [t])) q)" by simp
    then show ?thesis by blast
  next
    case False
    then have "L u = Some y" using that(1) by simp
    from placed_covers[OF P this that(2)] obtain r where "u \<in> set (Q r)" by blast
    then have "u \<in> set ((Q(q := Q q @ [t])) r)" by auto
    then show ?thesis by blast
  qed
  show "\<exists>y. (L(t \<mapsto> x)) u = Some y \<and> ctx_fits own r u y"
    if "u \<in> set ((Q(q := Q q @ [t])) r)" for r u
  proof (cases "u = t")
    case True
    then have "r = q" using that nowhere by (auto split: if_splits)
    then show ?thesis using True fit by simp
  next
    case False
    then have "u \<in> set (Q r)" using that by (auto split: if_splits)
    then show ?thesis using placed_ctx[OF P] False by simp
  qed
qed

lemma placed_new_idle:
  assumes "placed Q L own" and "L t = None"
  shows "placed Q (L(t \<mapsto> Idle)) own"
proof -
  have "t \<notin> set (Q r)" for r using placed_ctx[OF assms(1), of t r] assms(2) by auto
  then show ?thesis using assms(1) unfolding placed_def by (auto split: if_splits)
qed

text \<open>A thread leaves its queue for good.\<close>

lemma placed_leave:
  assumes P: "placed Q L own" and h: "Q q = t # ts"
  shows "placed (Q(q := ts)) (L(t := None)) own"
proof (rule placedI)
  have lin: "linear Q" by (rule placed_linear[OF P])
  have d: "distinct (t # ts)" using linear_distinct[OF lin, of q] h by simp
  show "linear (Q(q := ts))" by (rule linear_tail[OF lin h])
  have gone: "t \<notin> set ((Q(q := ts)) r)" for r
    using linear_unique[OF lin, of t q r] h d by auto
  show "\<exists>r. u \<in> set ((Q(q := ts)) r)" if "(L(t := None)) u = Some y" and "y \<noteq> Idle" for u y
  proof -
    have u: "u \<noteq> t" and "L u = Some y" using that(1) by (auto split: if_splits)
    from placed_covers[OF P this(2) that(2)] obtain r where "u \<in> set (Q r)" by blast
    then have "u \<in> set ((Q(q := ts)) r)" using u h by auto
    then show ?thesis by blast
  qed
  show "\<exists>y. (L(t := None)) u = Some y \<and> ctx_fits own r u y" if "u \<in> set ((Q(q := ts)) r)" for r u
  proof -
    have "u \<noteq> t" using that gone by metis
    moreover have "u \<in> set (Q r)" using that h by (auto split: if_splits)
    ultimately show ?thesis using placed_ctx[OF P] by simp
  qed
qed

text \<open>A thread stays in its queue and gets another continuation that fits.\<close>

lemma placed_recontext:
  assumes P: "placed Q L own" and t: "t \<in> set (Q q)" and fit: "ctx_fits own q t x"
  shows "placed Q (L(t \<mapsto> x)) own"
proof (rule placedI)
  show "linear Q" by (rule placed_linear[OF P])
  show "\<exists>r. u \<in> set (Q r)" if "(L(t \<mapsto> x)) u = Some y" and "y \<noteq> Idle" for u y
    using that t placed_covers[OF P, of u y] by (cases "u = t") auto
  show "\<exists>y. (L(t \<mapsto> x)) u = Some y \<and> ctx_fits own r u y" if "u \<in> set (Q r)" for r u
    using placed_ctx[OF P that] linear_unique[OF placed_linear[OF P] t, of r] that fit by (cases "u = t") auto
qed

text \<open>The owner of a mutex may change when it is not a ready thread.\<close>

lemma ctx_fits_own:
  assumes "ctx_fits own q t x" and "q = QReady \<Longrightarrow> own m \<noteq> Some t"
  shows "ctx_fits (own(m := w)) q t x"
  using assms by (cases q) auto

lemma placed_own:
  assumes P: "placed Q L own" and n: "\<And>t. t \<in> set (Q QReady) \<Longrightarrow> own m \<noteq> Some t"
  shows "placed Q L (own(m := w))"
  using P n ctx_fits_own[of own _ _ _ m w] unfolding placed_def by metis

text \<open>
  The hand-over of a mutex: its owner runs, the first waiter becomes the owner and is made ready.
\<close>

lemma placed_hand_over:
  assumes P: "placed Q L own" and o: "own m = Some u" and u: "u \<in> set (Q (QExec c))"
    and h: "Q (QMutex m) = t # ts"
  shows "placed (Q(QMutex m := ts, QReady := Q QReady @ [t])) L (own(m \<mapsto> t))"
proof -
  have lin: "linear Q" by (rule placed_linear[OF P])
  have "u \<notin> set (Q QReady)" using linear_unique[OF lin u, of QReady] by auto
  then have P': "placed Q L (own(m \<mapsto> t))" using placed_own[OF P, of m "Some t"] o by auto
  have L: "L t = Some (In_lock m)" using placed_ctx[OF P, of t "QMutex m"] h by simp
  have "ctx_fits (own(m \<mapsto> t)) QReady t (In_lock m)" by simp
  from placed_move[OF P' h _ this] have
    "placed (Q(QMutex m := ts, QReady := Q QReady @ [t])) (L(t \<mapsto> In_lock m)) (own(m \<mapsto> t))" by simp
  moreover have "L(t \<mapsto> In_lock m) = L" using L by auto
  ultimately show ?thesis by simp
qed

text \<open>A waiter of a condition variable or of a thread is made ready.\<close>

lemma placed_wake:
  assumes P: "placed Q L own" and h: "Q q = t # ts" and q: "(\<exists>v. q = QCv v) \<or> (\<exists>u. q = QJoin u)"
  shows "placed (Q(q := ts, QReady := Q QReady @ [t])) L own"
proof -
  from placed_ctx[OF P, of t q] h obtain x where L: "L t = Some x" and f: "ctx_fits own q t x" by auto
  have "ctx_fits own QReady t x" using f q by auto
  from placed_move[OF P h _ this] q have
    "placed (Q(q := ts, QReady := Q QReady @ [t])) (L(t \<mapsto> x)) own" by auto
  moreover have "L(t \<mapsto> x) = L" using L by auto
  ultimately show ?thesis by simp
qed

text \<open>A ready thread is dispatched on a CPU that runs no thread; a call returns by the switch.\<close>

fun resumed :: "continuation \<Rightarrow> continuation" where
  "resumed (In_lock m) = User"
| "resumed (In_wait m) = Relock m"
| "resumed x = x"

lemma resumed_fits: "ctx_fits own QReady t x \<Longrightarrow> ctx_fits own (QExec c) t (resumed x)"
  by (cases x) auto

lemma placed_dispatch:
  assumes P: "placed Q L own" and h: "Q QReady = t # ts" and e: "Q (QExec c) = []" and L: "L t = Some x"
  shows "placed (Q(QReady := ts, QExec c := [t])) (L(t \<mapsto> resumed x)) own"
proof -
  from placed_ctx[OF P, of t QReady] h L have "ctx_fits own QReady t x" by simp
  from placed_move[OF P h _ resumed_fits[OF this, of c]] e show ?thesis by simp
qed

text \<open>A running thread that gives way to the first ready thread goes to the end of the ready queue.\<close>

lemma placed_requeue:
  assumes P: "placed Q L own" and e: "Q (QExec c) = [t]"
  shows "placed (Q(QExec c := [], QReady := Q QReady @ [t])) L own"
proof -
  from placed_ctx[OF P, of t "QExec c"] e obtain x where L: "L t = Some x"
    and f: "ctx_fits own (QExec c) t x" by auto
  have "ctx_fits own QReady t x" using f by auto
  from placed_move[OF P e _ this] have
    "placed (Q(QExec c := [], QReady := Q QReady @ [t])) (L(t \<mapsto> x)) own" by simp
  moreover have "L(t \<mapsto> x) = L" using L by auto
  ultimately show ?thesis by simp
qed

end
