(* ===== verification/Thread_Inv.thy ===== *)
theory Thread_Inv
  imports Thread_Place
begin

text \<open>
  The invariant of the thread library, and that every critical section keeps it.  \<open>sched_inv\<close> also holds
  in the middle of a critical section, when the current CPU has given up its thread and not yet taken
  the next; \<open>lib_inv\<close> adds that every CPU has a thread, its idle thread included.
\<close>

named_theorems lib_view \<open>the views of the library state after an update\<close>

subsection \<open>Views of the state\<close>

fun queues_of :: "lib \<Rightarrow> queues" where
  "queues_of s QReady = ready_threads s"
| "queues_of s (QExec c) =
     (case cpus s c of
        None \<Rightarrow> []
      | Some k \<Rightarrow> (case executing_thread k of None \<Rightarrow> [] | Some t \<Rightarrow> if t = waiting_thread k then [] else [t]))"
| "queues_of s (QMutex m) = m_waiting_threads (mutexes s m)"
| "queues_of s (QCv v) = cvs s v"
| "queues_of s (QJoin t) = (case heap s t of None \<Rightarrow> [] | Some i \<Rightarrow> threads_waiting i)"

definition live :: "lib \<Rightarrow> nat \<rightharpoonup> continuation" where
  "live s t = (case heap s t of None \<Rightarrow> None | Some i \<Rightarrow> if finished i then None else Some (thread_ctx i))"

definition owners :: "lib \<Rightarrow> nat \<Rightarrow> nat option" where
  "owners s m = owned_thread (mutexes s m)"

definition idle_cpu :: "lib \<Rightarrow> nat \<Rightarrow> bool" where
  "idle_cpu s c \<longleftrightarrow> (\<exists>k. cpus s c = Some k \<and> executing_thread k = Some (waiting_thread k))"

lemma queues_eqI: "(\<And>q. queues_of s q = Q q) \<Longrightarrow> queues_of s = Q"
  by (rule ext)

lemma queues_ready [lib_view]:
  "queues_of (s\<lparr>ready_threads := xs\<rparr>) = (queues_of s)(QReady := xs)"
  by (rule queues_eqI, rename_tac q, case_tac q) auto

lemma queues_cvs [lib_view]:
  "queues_of (s\<lparr>cvs := (cvs s)(v := xs)\<rparr>) = (queues_of s)(QCv v := xs)"
  by (rule queues_eqI, rename_tac q, case_tac q) auto

lemma queues_other [lib_view]:
  "queues_of (s\<lparr>finished_threads := xs\<rparr>) = queues_of s"
  "queues_of (s\<lparr>suspended_cpus := ys\<rparr>) = queues_of s"
  "queues_of (s\<lparr>pending_ipis := A\<rparr>) = queues_of s"
  "queues_of (s\<lparr>next_id := n\<rparr>) = queues_of s"
  by (rule queues_eqI, rename_tac q, case_tac q, auto)+

lemma queues_set_mutex [lib_view]:
  "queues_of (set_mutex m x s) = (queues_of s)(QMutex m := m_waiting_threads x)"
  by (rule queues_eqI, rename_tac q, case_tac q) (auto simp: set_mutex_def)

lemma queues_set_executing_None [lib_view]:
  "queues_of (set_executing c None s) = (queues_of s)(QExec c := [])"
  by (rule queues_eqI, rename_tac q, case_tac q) (auto simp: set_executing_def split: option.splits)

lemma queues_set_executing [lib_view]:
  "cpus s c = Some k \<Longrightarrow>
   queues_of (set_executing c (Some t) s) = (queues_of s)(QExec c := if t = waiting_thread k then [] else [t])"
  by (rule queues_eqI, rename_tac q, case_tac q) (auto simp: set_executing_def split: option.splits)

lemma queues_set_ctx [lib_view]: "queues_of (set_ctx t x s) = queues_of s"
  by (rule queues_eqI, rename_tac q, case_tac q) (auto simp: set_ctx_def set_thread_def split: option.splits)

lemma queues_push_and_signal [lib_view]:
  "queues_of (push_and_signal t s) = (queues_of s)(QReady := ready_threads s @ [t])"
  by (rule queues_eqI, rename_tac q, case_tac q)
    (auto simp: push_and_signal_def Let_def split: list.splits)

lemma live_other [lib_view]:
  "live (s\<lparr>ready_threads := xs\<rparr>) = live s"
  "live (s\<lparr>cvs := f\<rparr>) = live s"
  "live (s\<lparr>finished_threads := xs\<rparr>) = live s"
  "live (s\<lparr>suspended_cpus := ys\<rparr>) = live s"
  "live (s\<lparr>pending_ipis := A\<rparr>) = live s"
  "live (s\<lparr>next_id := n\<rparr>) = live s"
  "live (set_mutex m x s) = live s"
  "live (set_executing c w s) = live s"
  "live (push_and_signal t s) = live s"
  by (auto simp: live_def fun_eq_iff set_mutex_def set_executing_def push_and_signal_def Let_def
      split: list.splits)

lemma live_set_ctx [lib_view]: "live s t \<noteq> None \<Longrightarrow> live (set_ctx t x s) = (live s)(t \<mapsto> x)"
  by (auto simp: live_def set_ctx_def set_thread_def fun_eq_iff split: option.splits)

lemma owners_other [lib_view]:
  "owners (s\<lparr>ready_threads := xs\<rparr>) = owners s"
  "owners (s\<lparr>cvs := f\<rparr>) = owners s"
  "owners (s\<lparr>finished_threads := xs\<rparr>) = owners s"
  "owners (s\<lparr>suspended_cpus := ys\<rparr>) = owners s"
  "owners (s\<lparr>pending_ipis := A\<rparr>) = owners s"
  "owners (s\<lparr>heap := h\<rparr>) = owners s"
  "owners (s\<lparr>next_id := n\<rparr>) = owners s"
  "owners (set_executing c w s) = owners s"
  "owners (set_ctx t y s) = owners s"
  "owners (push_and_signal t s) = owners s"
  by (auto simp: owners_def fun_eq_iff set_executing_def set_ctx_def set_thread_def
      push_and_signal_def Let_def split: list.splits)

lemma owners_set_mutex [lib_view]: "owners (set_mutex m x s) = (owners s)(m := owned_thread x)"
  by (auto simp: owners_def set_mutex_def fun_eq_iff)

lemma idle_other [lib_view]:
  "idle_cpu (s\<lparr>ready_threads := xs\<rparr>) = idle_cpu s"
  "idle_cpu (s\<lparr>cvs := f\<rparr>) = idle_cpu s"
  "idle_cpu (s\<lparr>finished_threads := xs\<rparr>) = idle_cpu s"
  "idle_cpu (s\<lparr>suspended_cpus := ys\<rparr>) = idle_cpu s"
  "idle_cpu (s\<lparr>pending_ipis := A\<rparr>) = idle_cpu s"
  "idle_cpu (s\<lparr>heap := h\<rparr>) = idle_cpu s"
  "idle_cpu (s\<lparr>next_id := n\<rparr>) = idle_cpu s"
  "idle_cpu (set_ctx t y s) = idle_cpu s"
  "idle_cpu (set_mutex m x s) = idle_cpu s"
  "idle_cpu (push_and_signal t s) = idle_cpu s"
  by (auto simp: idle_cpu_def fun_eq_iff set_mutex_def set_ctx_def set_thread_def
      push_and_signal_def Let_def split: list.splits)

lemma idle_set_executing [lib_view]:
  "cpus s c = Some k \<Longrightarrow>
   idle_cpu (set_executing c w s) = (idle_cpu s)(c := (w = Some (waiting_thread k)))"
  by (auto simp: idle_cpu_def set_executing_def fun_eq_iff)

subsection \<open>The invariant\<close>

definition mutexes_ok :: "lib \<Rightarrow> bool" where
  "mutexes_ok s \<longleftrightarrow>
     (\<forall>m. (free (mutexes s m) \<longleftrightarrow> owned_thread (mutexes s m) = None)
        \<and> (free (mutexes s m) \<longrightarrow> m_waiting_threads (mutexes s m) = []))"

definition finished_ok :: "lib \<Rightarrow> bool" where
  "finished_ok s \<longleftrightarrow>
     (\<forall>t i. heap s t = Some i \<longrightarrow> finished i \<longrightarrow> t \<in> set (finished_threads s) \<and> threads_waiting i = [])
     \<and> (\<forall>t. t \<in> set (finished_threads s) \<longrightarrow> (\<exists>i. heap s t = Some i \<and> finished i))"

definition ids_ok :: "lib \<Rightarrow> bool" where
  "ids_ok s \<longleftrightarrow> (\<forall>t. heap s t \<noteq> None \<longrightarrow> t < next_id s) \<and> (\<forall>m t. owners s m = Some t \<longrightarrow> t < next_id s)"

definition cpus_ok :: "lib \<Rightarrow> bool" where
  "cpus_ok s \<longleftrightarrow> (\<forall>c k. cpus s c = Some k \<longrightarrow> live s (waiting_thread k) = Some Idle)"

text \<open>The idle CPUs are the suspended ones and those with an interrupt under way.\<close>

definition idle_ok :: "lib \<Rightarrow> bool" where
  "idle_ok s \<longleftrightarrow> distinct (suspended_cpus s) \<and> finite (pending_ipis s)
     \<and> set (suspended_cpus s) \<inter> pending_ipis s = {}
     \<and> (\<forall>c. idle_cpu s c \<longleftrightarrow> c \<in> set (suspended_cpus s) \<union> pending_ipis s)"

text \<open>
  While a CPU is suspended, there are at least as many interrupts under way as ready threads, but for
  the \<open>n\<close> threads that the current critical section is about to take.
\<close>

definition served :: "nat \<Rightarrow> lib \<Rightarrow> bool" where
  "served n s \<longleftrightarrow>
     (suspended_cpus s \<noteq> [] \<longrightarrow> length (ready_threads s) \<le> card (pending_ipis s) + n)"

definition sched_inv :: "lib \<Rightarrow> bool" where
  "sched_inv s \<longleftrightarrow> placed (queues_of s) (live s) (owners s) \<and> mutexes_ok s \<and> finished_ok s \<and> ids_ok s
     \<and> cpus_ok s \<and> idle_ok s"

definition cpus_busy :: "lib \<Rightarrow> bool" where
  "cpus_busy s \<longleftrightarrow> (\<forall>c k. cpus s c = Some k \<longrightarrow> executing_thread k \<noteq> None)"

definition lib_inv :: "lib \<Rightarrow> bool" where
  "lib_inv s \<longleftrightarrow> sched_inv s \<and> cpus_busy s \<and> served 0 s"

lemma sched_invD:
  assumes "sched_inv s"
  shows "placed (queues_of s) (live s) (owners s)" and "mutexes_ok s" and "finished_ok s" and "ids_ok s"
    and "cpus_ok s" and "idle_ok s"
  using assms by (simp_all add: sched_inv_def)

subsection \<open>Updates that keep a part of the invariant\<close>

lemma mutexes_ok_other [lib_view]:
  "mutexes_ok (s\<lparr>ready_threads := xs\<rparr>) = mutexes_ok s"
  "mutexes_ok (s\<lparr>cvs := f\<rparr>) = mutexes_ok s"
  "mutexes_ok (s\<lparr>finished_threads := xs\<rparr>) = mutexes_ok s"
  "mutexes_ok (s\<lparr>suspended_cpus := ys\<rparr>) = mutexes_ok s"
  "mutexes_ok (s\<lparr>pending_ipis := A\<rparr>) = mutexes_ok s"
  "mutexes_ok (s\<lparr>heap := h\<rparr>) = mutexes_ok s"
  "mutexes_ok (s\<lparr>next_id := n\<rparr>) = mutexes_ok s"
  "mutexes_ok (set_executing c w s) = mutexes_ok s"
  "mutexes_ok (set_thread t g s) = mutexes_ok s"
  "mutexes_ok (set_ctx t y s) = mutexes_ok s"
  "mutexes_ok (push_and_signal t s) = mutexes_ok s"
  by (simp_all add: mutexes_ok_def set_executing_def set_ctx_def set_thread_def
      push_and_signal_def Let_def split: list.splits)

lemma mutexes_ok_set_mutex [lib_view]:
  assumes "mutexes_ok s" and "free x \<longleftrightarrow> owned_thread x = None" and "free x \<longrightarrow> m_waiting_threads x = []"
  shows "mutexes_ok (set_mutex m x s)"
  using assms by (simp add: mutexes_ok_def set_mutex_def)

lemma finished_ok_other [lib_view]:
  "finished_ok (s\<lparr>ready_threads := xs\<rparr>) = finished_ok s"
  "finished_ok (s\<lparr>cvs := f\<rparr>) = finished_ok s"
  "finished_ok (s\<lparr>suspended_cpus := ys\<rparr>) = finished_ok s"
  "finished_ok (s\<lparr>pending_ipis := A\<rparr>) = finished_ok s"
  "finished_ok (s\<lparr>next_id := n\<rparr>) = finished_ok s"
  "finished_ok (set_executing c w s) = finished_ok s"
  "finished_ok (set_mutex m x s) = finished_ok s"
  "finished_ok (push_and_signal t s) = finished_ok s"
  by (simp_all add: finished_ok_def set_executing_def set_mutex_def push_and_signal_def Let_def
      split: list.splits)

lemma finished_ok_set_ctx [lib_view]: "finished_ok s \<Longrightarrow> finished_ok (set_ctx t y s)"
  by (auto simp: finished_ok_def set_ctx_def set_thread_def)

lemma ids_ok_other [lib_view]:
  "ids_ok (s\<lparr>ready_threads := xs\<rparr>) = ids_ok s"
  "ids_ok (s\<lparr>cvs := f\<rparr>) = ids_ok s"
  "ids_ok (s\<lparr>finished_threads := xs\<rparr>) = ids_ok s"
  "ids_ok (s\<lparr>suspended_cpus := ys\<rparr>) = ids_ok s"
  "ids_ok (s\<lparr>pending_ipis := A\<rparr>) = ids_ok s"
  "ids_ok (set_executing c w s) = ids_ok s"
  "ids_ok (push_and_signal t s) = ids_ok s"
  by (simp_all add: ids_ok_def owners_def set_executing_def push_and_signal_def Let_def split: list.splits)

lemma ids_ok_set_thread [lib_view]: "ids_ok (set_thread t g s) = ids_ok s"
  by (auto simp: ids_ok_def owners_def set_thread_def)

lemma ids_ok_set_ctx [lib_view]: "ids_ok (set_ctx t y s) = ids_ok s"
  by (simp add: set_ctx_def ids_ok_set_thread)

lemma ids_ok_set_mutex [lib_view]:
  "ids_ok s \<Longrightarrow> (\<And>t. owned_thread x = Some t \<Longrightarrow> t < next_id s) \<Longrightarrow> ids_ok (set_mutex m x s)"
  by (auto simp: ids_ok_def owners_def set_mutex_def)

lemma cpus_ok_other [lib_view]:
  "cpus_ok (s\<lparr>ready_threads := xs\<rparr>) = cpus_ok s"
  "cpus_ok (s\<lparr>cvs := f\<rparr>) = cpus_ok s"
  "cpus_ok (s\<lparr>finished_threads := xs\<rparr>) = cpus_ok s"
  "cpus_ok (s\<lparr>suspended_cpus := ys\<rparr>) = cpus_ok s"
  "cpus_ok (s\<lparr>pending_ipis := A\<rparr>) = cpus_ok s"
  "cpus_ok (s\<lparr>next_id := n\<rparr>) = cpus_ok s"
  "cpus_ok (set_mutex m x s) = cpus_ok s"
  "cpus_ok (push_and_signal t s) = cpus_ok s"
  by (simp_all add: cpus_ok_def live_def set_mutex_def push_and_signal_def Let_def split: list.splits)

lemma cpus_ok_set_executing [lib_view]: "cpus_ok s \<Longrightarrow> cpus_ok (set_executing c w s)"
  by (auto simp: cpus_ok_def live_def set_executing_def)

lemma cpus_ok_live: "cpus_ok s \<Longrightarrow> live s t \<noteq> Some Idle \<Longrightarrow> cpus s' = cpus s \<Longrightarrow>
    (\<And>u. u \<noteq> t \<Longrightarrow> live s' u = live s u) \<Longrightarrow> cpus_ok s'"
  unfolding cpus_ok_def by metis

lemma cpus_simps [simp]:
  "cpus (set_ctx t x s) = cpus s"
  "cpus (set_thread t g s) = cpus s"
  "cpus (set_mutex m y s) = cpus s"
  "cpus (push_and_signal t s) = cpus s"
  "cpus (set_executing c w s) = (cpus s)(c := map_option (\<lambda>k. k\<lparr>executing_thread := w\<rparr>) (cpus s c))"
  by (simp_all add: set_ctx_def set_thread_def set_mutex_def push_and_signal_def set_executing_def Let_def
      split: list.splits)

lemma queue_simps [simp]:
  "ready_threads (set_ctx t x s) = ready_threads s"
  "ready_threads (set_thread t g s) = ready_threads s"
  "ready_threads (set_mutex m y s) = ready_threads s"
  "ready_threads (set_executing c w s) = ready_threads s"
  "ready_threads (push_and_signal t s) = ready_threads s @ [t]"
  "suspended_cpus (set_ctx t x s) = suspended_cpus s"
  "suspended_cpus (set_thread t g s) = suspended_cpus s"
  "suspended_cpus (set_mutex m y s) = suspended_cpus s"
  "suspended_cpus (set_executing c w s) = suspended_cpus s"
  "pending_ipis (set_ctx t x s) = pending_ipis s"
  "pending_ipis (set_thread t g s) = pending_ipis s"
  "pending_ipis (set_mutex m y s) = pending_ipis s"
  "pending_ipis (set_executing c w s) = pending_ipis s"
  "heap (set_mutex m y s) = heap s"
  "heap (set_executing c w s) = heap s"
  "heap (push_and_signal t s) = heap s"
  "next_id (set_mutex m y s) = next_id s"
  "next_id (set_executing c w s) = next_id s"
  "next_id (set_ctx t x s) = next_id s"
  "next_id (push_and_signal t s) = next_id s"
  "mutexes (set_executing c w s) = mutexes s"
  "mutexes (set_ctx t x s) = mutexes s"
  "mutexes (push_and_signal t s) = mutexes s"
  "mutexes (set_mutex m y s) = (mutexes s)(m := y)"
  "finished_threads (set_executing c w s) = finished_threads s"
  "finished_threads (push_and_signal t s) = finished_threads s"
  "finished_threads (set_thread t g s) = finished_threads s"
  by (simp_all add: set_ctx_def set_thread_def set_mutex_def push_and_signal_def set_executing_def Let_def
      split: list.splits)

lemma cpus_ok_set_ctx [lib_view]:
  assumes "cpus_ok s" and "live s t \<noteq> None" and "live s t \<noteq> Some Idle"
  shows "cpus_ok (set_ctx t x s)"
  using cpus_ok_live[OF assms(1,3), of "set_ctx t x s"] assms(2) by (simp add: live_set_ctx)

lemma idle_ok_other [lib_view]:
  "idle_ok (s\<lparr>ready_threads := xs\<rparr>) = idle_ok s"
  "idle_ok (s\<lparr>cvs := f\<rparr>) = idle_ok s"
  "idle_ok (s\<lparr>finished_threads := xs\<rparr>) = idle_ok s"
  "idle_ok (s\<lparr>heap := h\<rparr>) = idle_ok s"
  "idle_ok (s\<lparr>next_id := n\<rparr>) = idle_ok s"
  "idle_ok (set_mutex m x s) = idle_ok s"
  "idle_ok (set_ctx t y s) = idle_ok s"
  by (simp_all add: idle_ok_def lib_view)

lemma idle_ok_set_executing [lib_view]:
  assumes "idle_ok s" and "cpus s c = Some k" and "\<not> idle_cpu s c" and "w \<noteq> Some (waiting_thread k)"
  shows "idle_ok (set_executing c w s)"
  using assms by (auto simp: idle_ok_def idle_set_executing)

lemma idle_ok_push_and_signal [lib_view]:
  assumes "idle_ok s"
  shows "idle_ok (push_and_signal t s)"
proof (cases "suspended_cpus s")
  case Nil
  then have "push_and_signal t s = s\<lparr>ready_threads := ready_threads s @ [t]\<rparr>"
    by (simp add: push_and_signal_def)
  then show ?thesis using assms by (simp add: idle_ok_other)
next
  case (Cons c rest)
  have "idle_cpu (push_and_signal t s) = idle_cpu s" by (simp add: idle_other)
  then show ?thesis using assms Cons by (auto simp: idle_ok_def push_and_signal_def)
qed

lemma served_push_and_signal:
  assumes "idle_ok s" and "served n s"
  shows "served n (push_and_signal t s)"
proof (cases "suspended_cpus s")
  case Nil
  then show ?thesis by (simp add: served_def push_and_signal_def)
next
  case (Cons c rest)
  then have "c \<notin> pending_ipis s" and "finite (pending_ipis s)" using assms(1) by (auto simp: idle_ok_def)
  then show ?thesis using assms(2) Cons by (simp add: served_def push_and_signal_def)
qed

end
