(* ===== verification/Thread_Sched.thy ===== *)
theory Thread_Sched
  imports Thread_Inv
begin

text \<open>
  The context switch keeps the invariant: a CPU that has given up its thread takes the first ready
  thread, or its idle thread and suspends.  Then the two halves of the blocking calls: giving up the
  CPU to wait in a queue, and being made ready.
\<close>

subsection \<open>Taking the next thread\<close>

lemma live_heap: "live s t = Some x \<Longrightarrow> \<exists>i. heap s t = Some i \<and> \<not> finished i \<and> thread_ctx i = x"
  by (auto simp: live_def split: option.splits if_splits)

lemma set_ctx_same:
  assumes "heap s t = Some i" and "thread_ctx i = x"
  shows "set_ctx t x s = s"
proof -
  have "i\<lparr>thread_ctx := x\<rparr> = i" using assms(2) by simp
  then have "(heap s)(t := map_option (\<lambda>i. i\<lparr>thread_ctx := x\<rparr>) (heap s t)) = heap s" using assms(1) by auto
  then show ?thesis by (simp add: set_ctx_def set_thread_def)
qed

lemma set_executing_twice [simp]: "set_executing c a (set_executing c b s) = set_executing c a s"
  by (cases "cpus s c") (simp_all add: set_executing_def)

lemma switch_to_thread:
  assumes "live s t = Some x" and "x \<noteq> Idle" and "\<And>m. x = In_lock m \<Longrightarrow> \<not> free (mutexes s m)"
  shows "switch_to c t s = Inr (set_ctx t (resumed x) s)"
proof -
  obtain i where i: "heap s t = Some i" "thread_ctx i = x" using live_heap[OF assms(1)] by blast
  show ?thesis using assms(2,3) i set_ctx_same[OF i] by (cases x) (simp_all add: switch_to.simps)
qed

lemma switch_to_idle:
  assumes "live s t = Some Idle" and "ready_threads s = []"
  shows "switch_to c t s = Inr (s\<lparr>suspended_cpus := suspended_cpus s @ [c]\<rparr>)"
  using live_heap[OF assms(1)] assms(2) by (auto simp: switch_to.simps wait_for_ready_thread.simps)

text \<open>A ready thread that continues in \<^verbatim>\<open>mutex::lock\<close> owns the mutex, so the assertion there holds.\<close>

lemma ready_thread_facts:
  assumes "sched_inv s" and "t \<in> set (ready_threads s)"
  obtains x where "live s t = Some x" and "x \<noteq> Idle" and "\<And>m. x = In_lock m \<Longrightarrow> \<not> free (mutexes s m)"
    and "\<And>m. x = In_lock m \<Longrightarrow> owners s m = Some t"
proof -
  note i = sched_invD[OF assms(1)]
  obtain x where x: "live s t = Some x" "ctx_fits (owners s) QReady t x"
    using placed_ctx[OF i(1), of t QReady] assms(2) by auto
  have o: "owners s m = Some t" if "x = In_lock m" for m using x(2) that by simp
  have "\<not> free (mutexes s m)" if "x = In_lock m" for m
    using o[OF that] i(2) by (simp add: mutexes_ok_def owners_def)
  then show ?thesis using that x o by simp
qed

definition dispatched :: "nat \<Rightarrow> lib \<Rightarrow> lib \<Rightarrow> bool" where
  "dispatched c s s' \<longleftrightarrow>
     (case ready_threads s of
        [] \<Rightarrow> (\<exists>k. cpus s c = Some k \<and>
            s' = (set_executing c (Some (waiting_thread k)) s)\<lparr>suspended_cpus := suspended_cpus s @ [c]\<rparr>)
      | t # ts \<Rightarrow> (\<exists>x. live s t = Some x \<and> x \<noteq> Idle \<and>
            s' = set_ctx t (resumed x) (set_executing c (Some t) (s\<lparr>ready_threads := ts\<rparr>))))"

lemma wait_and_pop_dispatched:
  assumes I: "sched_inv s" and k: "cpus s c = Some k"
  shows "\<exists>s'. wait_and_pop c s = Inr s' \<and> dispatched c s s'"
proof (cases "ready_threads s")
  case Nil
  have w: "live (set_executing c (Some (waiting_thread k)) s) (waiting_thread k) = Some Idle"
    using sched_invD(5)[OF I] k by (simp add: cpus_ok_def lib_view)
  show ?thesis using k Nil switch_to_idle[OF w] by (simp add: wait_and_pop_def dispatched_def)
next
  case (Cons t ts)
  obtain x where x: "live s t = Some x" "x \<noteq> Idle" "\<And>m. x = In_lock m \<Longrightarrow> \<not> free (mutexes s m)"
    using ready_thread_facts[OF I, of t] Cons by (metis list.set_intros(1))
  let ?s = "set_executing c (Some t) (s\<lparr>ready_threads := ts\<rparr>)"
  have "switch_to c t ?s = Inr (set_ctx t (resumed x) ?s)"
    using x by (intro switch_to_thread) (simp_all add: lib_view)
  then show ?thesis using k Cons x by (simp add: wait_and_pop_def dispatched_def)
qed

lemma idle_not_queued:
  assumes "sched_inv s" and "cpus s c = Some k"
  shows "waiting_thread k \<notin> set (queues_of s q)"
proof
  assume m: "waiting_thread k \<in> set (queues_of s q)"
  have "live s (waiting_thread k) = Some Idle" using sched_invD(5)[OF assms(1)] assms(2) by (simp add: cpus_ok_def)
  with placed_ctx[OF sched_invD(1)[OF assms(1)] m] have "ctx_fits (owners s) q (waiting_thread k) Idle" by simp
  then show False by (cases q) auto
qed

text \<open>The invariant after a switch, from the invariant in the middle of the critical section.\<close>

lemma dispatched_ready:
  assumes I: "sched_inv s" and k: "cpus s c = Some k" "executing_thread k = None"
    and r: "ready_threads s = t # ts" and x: "live s t = Some x" "x \<noteq> Idle"
  shows "sched_inv (set_ctx t (resumed x) (set_executing c (Some t) (s\<lparr>ready_threads := ts\<rparr>)))"
proof -
  note i = sched_invD[OF I]
  have nw: "t \<noteq> waiting_thread k" using idle_not_queued[OF I k(1), of QReady] r by auto
  have ni: "\<not> idle_cpu s c" using k by (simp add: idle_cpu_def)
  have p: "placed ((queues_of s)(QReady := ts, QExec c := [t])) ((live s)(t \<mapsto> resumed x)) (owners s)"
    using placed_dispatch[OF i(1), of t ts c x] r k x(1) by simp
  show ?thesis
    unfolding sched_inv_def
    using p i(2-6) k(1) nw ni x
    by (simp add: lib_view queues_set_executing[where k = k] idle_ok_set_executing[where k = k])
qed

lemma dispatched_idle:
  assumes I: "sched_inv s" and k: "cpus s c = Some k" "executing_thread k = None"
  shows "sched_inv ((set_executing c (Some (waiting_thread k)) s)\<lparr>suspended_cpus := suspended_cpus s @ [c]\<rparr>)"
proof -
  note i = sched_invD[OF I]
  have "queues_of s (QExec c) = []" using k by simp
  then have q: "(queues_of s)(QExec c := []) = queues_of s" by (metis fun_upd_triv)
  have "c \<notin> set (suspended_cpus s) \<union> pending_ipis s"
    using i(6) k by (metis idle_ok_def idle_cpu_def option.distinct(1) option.inject)
  then have d: "idle_ok ((set_executing c (Some (waiting_thread k)) s)\<lparr>suspended_cpus := suspended_cpus s @ [c]\<rparr>)"
    using i(6) k(1) by (auto simp: idle_ok_def lib_view idle_set_executing)
  show ?thesis
    unfolding sched_inv_def using i(1-5) k(1) q d
    by (simp add: lib_view queues_set_executing[where k = k])
qed

lemma served_mono: "served 1 s \<Longrightarrow> ready_threads s = t # ts \<Longrightarrow> served 0 (set_ctx t x (set_executing c w (s\<lparr>ready_threads := ts\<rparr>)))"
  by (simp add: served_def)

lemma wait_and_pop_inv:
  assumes I: "sched_inv s" and k: "cpus s c = Some k" "executing_thread k = None"
    and b: "\<And>d l. cpus s d = Some l \<Longrightarrow> d \<noteq> c \<Longrightarrow> executing_thread l \<noteq> None" and v: "served 1 s"
  shows "\<exists>s'. wait_and_pop c s = Inr s' \<and> dispatched c s s' \<and> lib_inv s'"
proof -
  obtain s' where w: "wait_and_pop c s = Inr s'" and d: "dispatched c s s'"
    using wait_and_pop_dispatched[OF I k(1)] by blast
  have "lib_inv s'"
  proof (cases "ready_threads s")
    case Nil
    then have s': "s' = (set_executing c (Some (waiting_thread k)) s)\<lparr>suspended_cpus := suspended_cpus s @ [c]\<rparr>"
      using d k(1) by (simp add: dispatched_def)
    show ?thesis
      unfolding lib_inv_def s' using dispatched_idle[OF I k] b k(1) Nil
      by (auto simp: cpus_busy_def served_def)
  next
    case (Cons t ts)
    then obtain x where x: "live s t = Some x" "x \<noteq> Idle"
      and s': "s' = set_ctx t (resumed x) (set_executing c (Some t) (s\<lparr>ready_threads := ts\<rparr>))"
      using d by (auto simp: dispatched_def)
    show ?thesis
      unfolding lib_inv_def s' using dispatched_ready[OF I k Cons x] served_mono[OF v Cons] b
      by (auto simp: cpus_busy_def)
  qed
  then show ?thesis using w d by blast
qed

subsection \<open>Giving up the CPU\<close>

definition runs :: "lib \<Rightarrow> nat \<Rightarrow> nat \<Rightarrow> cpu \<Rightarrow> bool" where
  "runs s c t k \<longleftrightarrow> cpus s c = Some k \<and> executing_thread k = Some t \<and> t \<noteq> waiting_thread k"

lemma runs_facts:
  assumes "sched_inv s" and "runs s c t k"
  shows "queues_of s (QExec c) = [t]" and "\<not> idle_cpu s c"
    and "live s t = Some User \<or> (\<exists>m. live s t = Some (Relock m))"
    and "live s t \<noteq> None" and "live s t \<noteq> Some Idle" and "t < next_id s"
proof -
  note i = sched_invD[OF assms(1)]
  show q: "queues_of s (QExec c) = [t]" and "\<not> idle_cpu s c"
    using assms(2) by (auto simp: runs_def idle_cpu_def)
  have "t \<in> set (queues_of s (QExec c))" unfolding q by simp
  from placed_ctx[OF i(1) this] obtain x where x: "live s t = Some x" "ctx_fits (owners s) (QExec c) t x" by blast
  then show "live s t = Some User \<or> (\<exists>m. live s t = Some (Relock m))" by auto
  then show "live s t \<noteq> None" and "live s t \<noteq> Some Idle" by auto
  show "t < next_id s" using i(4) live_heap[OF x(1)] by (auto simp: ids_ok_def)
qed

text \<open>The thread of a CPU moves to the end of a queue with the continuation that fits there.\<close>

lemma placed_block:
  assumes "sched_inv s" and "runs s c t k" and "q \<noteq> QExec c" and "ctx_fits (owners s) q t x"
  shows "placed ((queues_of s)(QExec c := [], q := queues_of s q @ [t])) ((live s)(t \<mapsto> x)) (owners s)"
  using placed_move[OF sched_invD(1)[OF assms(1)] _ _ assms(4), of "QExec c" "[]"]
    runs_facts(1)[OF assms(1,2)] assms(3) by simp

lemma block_mutex:
  assumes I: "sched_inv s" and r: "runs s c t k" and b: "\<not> free (mutexes s m)"
  shows "sched_inv (set_ctx t (In_lock m)
    (set_mutex m ((mutexes s m)\<lparr>m_waiting_threads := m_waiting_threads (mutexes s m) @ [t]\<rparr>)
      (set_executing c None s)))"
proof -
  note i = sched_invD[OF I] and f = runs_facts[OF I r]
  have k: "cpus s c = Some k" using r by (simp add: runs_def)
  have p: "placed ((queues_of s)(QExec c := [], QMutex m := m_waiting_threads (mutexes s m) @ [t]))
      ((live s)(t \<mapsto> In_lock m)) (owners s)"
    using placed_block[OF I r, of "QMutex m" "In_lock m"] by simp
  have n: "owned_thread (mutexes s m) \<noteq> None" using i(2) b by (auto simp: mutexes_ok_def)
  have o: "(owners s)(m := owned_thread (mutexes s m)) = owners s" by (auto simp: owners_def)
  have l: "ids_ok (set_mutex m ((mutexes s m)\<lparr>m_waiting_threads := m_waiting_threads (mutexes s m) @ [t]\<rparr>)
      (set_executing c None s))"
    by (rule ids_ok_set_mutex) (use i(4) in \<open>auto simp: ids_ok_def owners_def\<close>)
  show ?thesis
    unfolding sched_inv_def using p i(2-6) k b n o f l
    by (simp add: lib_view mutexes_ok_set_mutex idle_ok_set_executing[where k = k])
qed

lemma block_cv:
  assumes I: "sched_inv s" and r: "runs s c t k"
  shows "sched_inv (set_ctx t (In_wait m) (set_executing c None (s\<lparr>cvs := (cvs s)(v := cvs s v @ [t])\<rparr>)))"
proof -
  note i = sched_invD[OF I] and f = runs_facts[OF I r]
  have k: "cpus s c = Some k" using r by (simp add: runs_def)
  have p: "placed ((queues_of s)(QCv v := cvs s v @ [t], QExec c := [])) ((live s)(t \<mapsto> In_wait m)) (owners s)"
    using placed_block[OF I r, of "QCv v" "In_wait m"] by (simp add: fun_upd_twist)
  show ?thesis
    unfolding sched_inv_def using p i(2-6) k f
    by (simp add: lib_view idle_ok_set_executing[where k = k])
qed

lemma block_join:
  assumes I: "sched_inv s" and r: "runs s c t k" and l: "live s t = Some User"
    and u: "heap s u = Some j" "\<not> finished j"
  shows "sched_inv (set_thread u (\<lambda>i. i\<lparr>threads_waiting := threads_waiting i @ [t]\<rparr>) (set_executing c None s))"
    (is "sched_inv ?s")
proof -
  note i = sched_invD[OF I] and f = runs_facts[OF I r]
  have k: "cpus s c = Some k" using r by (simp add: runs_def)
  have lv: "live ?s = live s"
    using u by (auto simp: live_def set_thread_def fun_eq_iff split: option.splits)
  have own: "owners ?s = owners s" by (simp add: owners_def set_thread_def set_executing_def fun_eq_iff)
  have q: "queues_of ?s = (queues_of s)(QExec c := [], QJoin u := threads_waiting j @ [t])"
  proof (rule queues_eqI)
    show "queues_of ?s q = ((queues_of s)(QExec c := [], QJoin u := threads_waiting j @ [t])) q" for q
      using u k by (cases q) (auto simp: set_thread_def set_executing_def split: option.splits)
  qed
  have "(live s)(t \<mapsto> User) = live s" using l by auto
  then have p: "placed (queues_of ?s) (live ?s) (owners ?s)"
    unfolding q lv own using placed_block[OF I r, of "QJoin u" User] u by simp
  have fin: "finished_ok ?s" using i(3) u by (auto simp: finished_ok_def set_thread_def set_executing_def)
  have cp: "cpus_ok ?s" using i(5) k by (auto simp: cpus_ok_def lv)
  have "idle_cpu ?s = idle_cpu (set_executing c None s)" by (auto simp: idle_cpu_def fun_eq_iff)
  then have "idle_ok ?s" using idle_ok_set_executing[OF i(6) k f(2), of None] by (simp add: idle_ok_def)
  then show ?thesis unfolding sched_inv_def using p i(2,4) fin cp by (simp add: lib_view)
qed

end
