(* ===== verification/Thread_Ops.thy ===== *)
theory Thread_Ops
  imports Thread_Sched
begin

text \<open>
  Every critical section of the thread library keeps the invariant and ends: it returns, or it throws
  the exception of \<^verbatim>\<open>mutex::unlock\<close>.  Assertions never fail and no dangling thread is used.
\<close>

subsection \<open>Making threads ready\<close>

lemma ids_okD: "ids_ok s \<Longrightarrow> live s t \<noteq> None \<Longrightarrow> t < next_id s"
  by (auto simp: ids_ok_def live_def split: option.splits)

definition not_held :: stop where
  "not_held = Runtime_error ''mutex::unlock called without holding the lock''"

definition unlocked :: "nat \<Rightarrow> lib \<Rightarrow> lib" where
  "unlocked m s =
     (case m_waiting_threads (mutexes s m) of
        [] \<Rightarrow> set_mutex m ((mutexes s m)\<lparr>owned_thread := None, free := True\<rparr>) s
      | w # ws \<Rightarrow> push_and_signal w
          (set_mutex m ((mutexes s m)\<lparr>m_waiting_threads := ws, owned_thread := Some w, free := False\<rparr>) s))"

lemma current_runs: "runs s c t k \<Longrightarrow> current c s = Some t"
  by (simp add: runs_def current_def)

lemma unlock_mutex_eq:
  assumes I: "sched_inv s" and r: "runs s c t k"
  shows "unlock_mutex c m s = (if owners s m = Some t then Inr (unlocked m s) else Inl not_held)"
proof -
  have h: "heap s t \<noteq> None" using runs_facts(4)[OF I r] by (auto simp: live_def split: option.splits)
  have "free (mutexes s m) \<longleftrightarrow> owners s m = None"
    using sched_invD(2)[OF I] by (simp add: mutexes_ok_def owners_def)
  then show ?thesis
    using current_runs[OF r] h
    by (auto simp: unlock_mutex_def unlocked_def not_held_def lock_weak_def owners_def Let_def
        split: option.splits list.splits)
qed

lemma runs_frame: "cpus s' = cpus s \<Longrightarrow> runs s' c t k = runs s c t k"
  by (simp add: runs_def)

lemma unlocked_inv:
  assumes I: "sched_inv s" and r: "runs s c t k" and o: "owners s m = Some t"
  shows "sched_inv (unlocked m s)"
proof -
  note i = sched_invD[OF I]
  have t: "t \<in> set (queues_of s (QExec c))" using runs_facts(1)[OF I r] by (simp del: queues_of.simps)
  show ?thesis
  proof (cases "m_waiting_threads (mutexes s m)")
    case Nil
    let ?x = "(mutexes s m)\<lparr>owned_thread := None, free := True\<rparr>"
    have "placed (queues_of s) (live s) ((owners s)(m := None))"
    proof (rule placed_own[OF i(1)])
      show "owners s m \<noteq> Some u" if "u \<in> set (queues_of s QReady)" for u
        using linear_unique[OF placed_linear[OF i(1)] t, of QReady] that o by auto
    qed
    moreover have "(queues_of s)(QMutex m := []) = queues_of s" using Nil by auto
    moreover have "ids_ok (set_mutex m ?x s)" by (rule ids_ok_set_mutex[OF i(4)]) simp
    ultimately show ?thesis
      unfolding sched_inv_def unlocked_def using i(2-6) Nil by (simp add: lib_view mutexes_ok_set_mutex)
  next
    case (Cons w ws)
    let ?x = "(mutexes s m)\<lparr>m_waiting_threads := ws, owned_thread := Some w, free := False\<rparr>"
    have p: "placed ((queues_of s)(QMutex m := ws, QReady := ready_threads s @ [w])) (live s) ((owners s)(m \<mapsto> w))"
      using placed_hand_over[OF i(1) o t, of w ws] Cons by simp
    have "live s w \<noteq> None" using placed_ctx[OF i(1), of w "QMutex m"] Cons by auto
    then have "ids_ok (set_mutex m ?x s)" using ids_okD[OF i(4)] by (intro ids_ok_set_mutex[OF i(4)]) simp
    then show ?thesis
      unfolding sched_inv_def unlocked_def using p i(2-6) Cons by (simp add: lib_view mutexes_ok_set_mutex)
  qed
qed

lemma unlocked_frame:
  "cpus (unlocked m s) = cpus s"
  "live (unlocked m s) = live s"
  by (simp_all add: unlocked_def lib_view split: list.splits)

lemma served_set_mutex [simp]: "served n (set_mutex m x s) = served n s"
  by (simp add: served_def)

lemma unlocked_served: "idle_ok s \<Longrightarrow> served n s \<Longrightarrow> served n (unlocked m s)"
  by (simp add: unlocked_def lib_view served_push_and_signal split: list.splits)

text \<open>Waking the first thread of the queue of a condition variable.\<close>

lemma wake_cv_inv:
  assumes I: "sched_inv s" and q: "cvs s v = w # ws"
  shows "sched_inv (push_and_signal w (s\<lparr>cvs := (cvs s)(v := ws)\<rparr>))"
proof -
  note i = sched_invD[OF I]
  have "placed ((queues_of s)(QCv v := ws, QReady := ready_threads s @ [w])) (live s) (owners s)"
    using placed_wake[OF i(1), of "QCv v" w ws] q by simp
  then show ?thesis unfolding sched_inv_def using i(2-6) by (simp add: lib_view)
qed

lemma cv_signal_inv:
  assumes "sched_inv s" and "served n s"
  shows "sched_inv (cv_signal v s)" and "served n (cv_signal v s)" and "cpus (cv_signal v s) = cpus s"
proof -
  show "sched_inv (cv_signal v s)"
    using assms wake_cv_inv[OF assms(1)] by (cases "cvs s v") (simp_all add: cv_signal_def)
  have "served n (s\<lparr>cvs := f\<rparr>)" and "idle_ok (s\<lparr>cvs := f\<rparr>)" for f
    using assms sched_invD(6)[OF assms(1)] by (simp_all add: served_def lib_view)
  then show "served n (cv_signal v s)"
    using assms by (cases "cvs s v") (simp_all add: cv_signal_def served_push_and_signal)
  show "cpus (cv_signal v s) = cpus s" by (simp add: cv_signal_def split: list.splits)
qed

lemma cvs_push_and_signal [simp]: "cvs (push_and_signal t s) = cvs s"
  by (simp add: push_and_signal_def Let_def split: list.splits)

lemma cv_broadcast_signal: "cv_broadcast v s = ((cv_signal v) ^^ length (cvs s v)) s"
proof -
  have "broadcast_loop v ws s = ((cv_signal v) ^^ length ws) s" if "ws = cvs s v" for ws s
    using that
  proof (induction ws arbitrary: s)
    case Nil
    then show ?case by simp
  next
    case (Cons w ws)
    let ?s = "push_and_signal w (s\<lparr>cvs := (cvs s)(v := ws)\<rparr>)"
    have "cv_signal v s = ?s" using Cons.prems by (simp add: cv_signal_def flip: Cons.prems)
    moreover have "broadcast_loop v ws ?s = (cv_signal v ^^ length ws) ?s" by (rule Cons.IH) simp
    ultimately show ?case by (simp add: funpow_Suc_right del: funpow.simps)
  qed
  then show ?thesis by (simp add: cv_broadcast_def)
qed

lemma cv_broadcast_inv:
  assumes "sched_inv s" and "served n s"
  shows "sched_inv (cv_broadcast v s) \<and> served n (cv_broadcast v s) \<and> cpus (cv_broadcast v s) = cpus s"
proof -
  have "sched_inv ((cv_signal v ^^ j) s) \<and> served n ((cv_signal v ^^ j) s) \<and> cpus ((cv_signal v ^^ j) s) = cpus s" for j
    by (induction j) (use assms cv_signal_inv[where n = n] in simp_all)
  then show ?thesis by (simp add: cv_broadcast_signal)
qed

subsection \<open>The end of a thread\<close>

lemma placed_wake_all:
  assumes "placed Q L own" and "Q q = ts" and "(\<exists>v. q = QCv v) \<or> (\<exists>u. q = QJoin u)"
  shows "placed (Q(q := [], QReady := Q QReady @ ts)) L own"
  using assms(1,2)
proof (induction ts arbitrary: Q)
  case Nil
  then have "Q(q := [], QReady := Q QReady @ []) = Q" using assms(3) by auto
  then show ?case using Nil by (simp only:)
next
  case (Cons t ts)
  let ?Q = "Q(q := ts, QReady := Q QReady @ [t])"
  have "?Q q = ts" using assms(3) by auto
  from Cons.IH[OF placed_wake[OF Cons.prems assms(3)] this]
  have "placed (?Q(q := [], QReady := ?Q QReady @ ts)) L own" .
  moreover have "?Q(q := [], QReady := ?Q QReady @ ts) = Q(q := [], QReady := Q QReady @ t # ts)"
    using assms(3) by auto
  ultimately show ?case by (simp only:)
qed

definition push_all :: "nat list \<Rightarrow> lib \<Rightarrow> lib" where
  "push_all ws s = foldl (\<lambda>s w. push_and_signal w s) s ws"

lemma push_all_simps [simp]: "push_all [] s = s" "push_all (w # ws) s = push_all ws (push_and_signal w s)"
  by (simp_all add: push_all_def)

lemma push_all_frame:
  "heap (push_all ws s) = heap s"
  "cpus (push_all ws s) = cpus s"
  "mutexes (push_all ws s) = mutexes s"
  "next_id (push_all ws s) = next_id s"
  "finished_threads (push_all ws s) = finished_threads s"
  "ready_threads (push_all ws s) = ready_threads s @ ws"
  "cvs (push_all ws s) = cvs s"
  "idle_cpu (push_all ws s) = idle_cpu s"
  by (induction ws arbitrary: s) (simp_all add: lib_view)

lemma push_all_inv:
  "idle_ok s \<Longrightarrow> idle_ok (push_all ws s)"
  "idle_ok s \<Longrightarrow> served n s \<Longrightarrow> served n (push_all ws s)"
  by (induction ws arbitrary: s) (simp_all add: lib_view served_push_and_signal)

definition pruned :: "lib \<Rightarrow> lib" where
  "pruned s = s\<lparr>heap := heap s |` (- set (finished_threads s)), finished_threads := []\<rparr>"

lemma pruned_live: "finished_ok s \<Longrightarrow> live (pruned s) = live s"
  by (auto simp: fun_eq_iff live_def pruned_def restrict_map_def finished_ok_def split: option.splits)

lemma pruned_queues: "finished_ok s \<Longrightarrow> queues_of (pruned s) = queues_of s"
  by (rule queues_eqI, rename_tac q, case_tac q)
    (auto simp: pruned_def restrict_map_def finished_ok_def split: option.splits)

lemma pruned_inv:
  assumes "sched_inv s"
  shows "sched_inv (pruned s)"
proof -
  note i = sched_invD[OF assms]
  have "finished_ok (pruned s)"
    using i(3) by (auto simp: pruned_def finished_ok_def restrict_map_def split: if_splits)
  moreover have "ids_ok (pruned s)"
    using i(4) by (auto simp: pruned_def ids_ok_def owners_def restrict_map_def)
  moreover have "cpus_ok (pruned s)"
    using i(5) pruned_live[OF i(3)] by (simp add: cpus_ok_def) (simp add: pruned_def)
  moreover have "idle_ok (pruned s)" using i(6) by (simp add: pruned_def lib_view)
  moreover have "owners (pruned s) = owners s" by (simp add: pruned_def lib_view)
  moreover have "mutexes_ok (pruned s)" using i(2) by (simp add: pruned_def lib_view)
  ultimately show ?thesis
    unfolding sched_inv_def using i(1) pruned_live[OF i(3)] pruned_queues[OF i(3)] by simp
qed

text \<open>The state in which \<^verbatim>\<open>func_with_swap\<close> looks for the next thread.\<close>

definition ended :: "nat \<Rightarrow> nat \<Rightarrow> thread_info \<Rightarrow> lib \<Rightarrow> lib" where
  "ended c t i s =
     (let s = set_executing c None
                (set_thread t (\<lambda>i. i\<lparr>threads_waiting := [], finished := True\<rparr>) (push_all (threads_waiting i) s))
      in s\<lparr>finished_threads := finished_threads s @ [t]\<rparr>)"

lemma ended_inv:
  assumes I: "sched_inv s" and r: "runs s c t k" and h: "heap s t = Some i"
    and f: "finished_threads s = []"
  shows "sched_inv (ended c t i s)"
proof -
  note v = sched_invD[OF I] and rf = runs_facts[OF I r]
  have k: "cpus s c = Some k" using r by (simp add: runs_def)
  let ?s = "ended c t i s"
  have lv: "live ?s = (live s)(t := None)"
    by (auto simp: live_def fun_eq_iff ended_def set_thread_def push_all_frame h split: option.splits)
  have own: "owners ?s = owners s"
    by (auto simp: owners_def fun_eq_iff ended_def set_thread_def push_all_frame)
  have q: "queues_of ?s
      = (queues_of s)(QJoin t := [], QReady := ready_threads s @ threads_waiting i, QExec c := [])"
  proof (rule queues_eqI)
    show "queues_of ?s q = ((queues_of s)
        (QJoin t := [], QReady := ready_threads s @ threads_waiting i, QExec c := [])) q" for q
      by (cases q) (auto simp: ended_def set_thread_def push_all_frame h set_executing_def split: option.splits)
  qed
  have "placed ((queues_of s)(QJoin t := [], QReady := ready_threads s @ threads_waiting i)) (live s) (owners s)"
    using placed_wake_all[OF v(1), of "QJoin t" "threads_waiting i"] h by simp
  from placed_leave[OF this, of "QExec c" t "[]"] rf(1)
  have p: "placed (queues_of ?s) (live ?s) (owners ?s)" unfolding q lv own by simp
  have fin: "finished_ok ?s"
    using v(3) f h by (auto simp: finished_ok_def ended_def set_thread_def push_all_frame Let_def split: if_splits)
  have ids: "ids_ok ?s"
    using v(4) by (auto simp: ids_ok_def own) (auto simp: ended_def set_thread_def push_all_frame set_executing_def split: if_splits)
  have mu: "mutexes_ok ?s"
    using v(2) by (simp add: mutexes_ok_def ended_def set_thread_def push_all_frame)
  have "cpus ?s = (cpus s)(c \<mapsto> k\<lparr>executing_thread := None\<rparr>)"
    using k by (simp add: ended_def push_all_frame Let_def)
  then have cp: "cpus_ok ?s" using v(5) rf(5) k by (auto simp: cpus_ok_def lv)
  have "idle_ok (set_executing c None (push_all (threads_waiting i) s))"
    using idle_ok_set_executing[OF push_all_inv(1)[OF v(6)], where c = c and k = k and w = None] k rf(2)
    by (simp add: push_all_frame)
  then have "idle_ok ?s"
    by (simp add: ended_def lib_view Let_def)
      (simp add: idle_ok_def idle_cpu_def set_executing_def set_thread_def push_all_frame)
  then show ?thesis unfolding sched_inv_def using p fin ids mu cp by simp
qed

subsection \<open>The critical sections\<close>

definition keeps :: "(stop + lib) \<Rightarrow> bool" where
  "keeps r = (case r of Inl e \<Rightarrow> e = not_held | Inr s' \<Rightarrow> lib_inv s')"

lemma lib_invD: "lib_inv s \<Longrightarrow> sched_inv s" "lib_inv s \<Longrightarrow> cpus_busy s" "lib_inv s \<Longrightarrow> served 0 s"
  by (simp_all add: lib_inv_def)

lemma served_Suc: "served 0 s \<Longrightarrow> served 1 s"
  by (auto simp: served_def)

lemma in_user_code_runs:
  assumes "lib_inv s" and "current c s = Some t" and "ctx_of s t = Some x" and "x \<noteq> Idle"
  obtains k where "runs s c t k" and "live s t = Some x"
proof -
  note i = sched_invD[OF lib_invD(1)[OF assms(1)]]
  obtain k where k: "cpus s c = Some k" "executing_thread k = Some t"
    using assms(2) by (auto simp: current_def split: option.splits)
  have "live s (waiting_thread k) = Some Idle" using i(5) k(1) by (simp add: cpus_ok_def)
  then have "t \<noteq> waiting_thread k"
    using assms(3,4) live_heap[of s "waiting_thread k" Idle] by (auto simp: ctx_of_def)
  then have r: "runs s c t k" using k by (simp add: runs_def)
  have "live s t = Some x"
    using runs_facts(4)[OF lib_invD(1)[OF assms(1)] r] assms(3)
    by (auto simp: live_def ctx_of_def split: option.splits if_splits)
  then show ?thesis using that r by blast
qed

text \<open>A CPU whose thread has gone to wait takes the next one.\<close>

lemma block_then_dispatch:
  assumes I: "lib_inv s" and r: "runs s c t k" and M: "sched_inv s1"
    and c: "cpus s1 = (cpus s)(c \<mapsto> k\<lparr>executing_thread := None\<rparr>)" and v: "served 1 s1"
  shows "\<exists>s'. wait_and_pop c s1 = Inr s' \<and> dispatched c s1 s' \<and> lib_inv s'"
  by (rule wait_and_pop_inv[OF M, of c "k\<lparr>executing_thread := None\<rparr>"])
    (use c lib_invD(2)[OF I] v in \<open>auto simp: cpus_busy_def split: if_splits\<close>)

lemma lib_inv_same_cpus:
  assumes "lib_inv s" and "sched_inv s'" and "cpus s' = cpus s" and "served 0 s'"
  shows "lib_inv s'"
  using assms by (simp add: lib_inv_def cpus_busy_def)

lemma mutex_lock_inv:
  assumes I: "lib_inv s" and r: "runs s c t k"
  shows "\<exists>s'. mutex_lock c m s = Inr s' \<and> lib_inv s'"
proof (cases "free (mutexes s m)")
  case False
  note i = lib_invD[OF I]
  let ?s = "set_ctx t (In_lock m)
    (set_mutex m ((mutexes s m)\<lparr>m_waiting_threads := m_waiting_threads (mutexes s m) @ [t]\<rparr>)
      (set_executing c None s))"
  have "served 1 ?s" using served_Suc[OF i(3)] by (simp add: served_def)
  from block_then_dispatch[OF I r block_mutex[OF i(1) r False] _ this] r
  show ?thesis using current_runs[OF r] False by (auto simp: mutex_lock_def runs_def Let_def)
next
  case True
  note i = lib_invD[OF I] and v = sched_invD[OF lib_invD(1)[OF I]] and f = runs_facts[OF lib_invD(1)[OF I] r]
  let ?x = "(mutexes s m)\<lparr>free := False, owned_thread := Some t\<rparr>"
  let ?s = "set_ctx t User (set_mutex m ?x s)"
  have n: "owners s m = None" using v(2) True by (simp add: mutexes_ok_def owners_def)
  have pl: "placed (queues_of s) (live s) ((owners s)(m \<mapsto> t))" by (rule placed_own[OF v(1)]) (simp add: n)
  have "placed ((queues_of s)(QMutex m := m_waiting_threads (mutexes s m))) ((live s)(t \<mapsto> User)) ((owners s)(m \<mapsto> t))"
  proof -
    have q: "(queues_of s)(QMutex m := m_waiting_threads (mutexes s m)) = queues_of s" by auto
    have e: "t \<in> set (queues_of s (QExec c))" using f(1) by (simp del: queues_of.simps)
    show ?thesis unfolding q by (rule placed_recontext[OF pl e]) simp
  qed
  moreover have "ids_ok (set_mutex m ?x s)" using f(6) by (intro ids_ok_set_mutex[OF v(4)]) simp
  ultimately have "sched_inv ?s"
    unfolding sched_inv_def using v(2-6) f True n
    by (simp add: lib_view mutexes_ok_set_mutex cpus_ok_set_ctx live_set_ctx)
  then have "lib_inv ?s" by (rule lib_inv_same_cpus[OF I]) (use i(3) in \<open>simp_all add: served_def\<close>)
  then show ?thesis using current_runs[OF r] True by (simp add: mutex_lock_def Let_def)
qed

lemma cv_wait_inv:
  assumes I: "lib_inv s" and r: "runs s c t k"
  shows "(if owners s m = Some t then \<exists>s'. cv_wait c v m s = Inr s' \<and> lib_inv s' else cv_wait c v m s = Inl not_held)"
proof (cases "owners s m = Some t")
  case False
  then show ?thesis by (simp add: cv_wait_def unlock_mutex_eq[OF lib_invD(1)[OF I] r])
next
  case True
  note i = lib_invD[OF I]
  let ?u = "unlocked m s"
  have U: "sched_inv ?u" by (rule unlocked_inv[OF i(1) r True])
  have ru: "runs ?u c t k" using r by (simp add: runs_def unlocked_frame)
  let ?s = "set_ctx t (In_wait m) (set_executing c None (?u\<lparr>cvs := (cvs ?u)(v := cvs ?u v @ [t])\<rparr>))"
  have "served 1 ?u" by (rule unlocked_served[OF sched_invD(6)[OF i(1)] served_Suc[OF i(3)]])
  then have "served 1 ?s" by (simp add: served_def)
  from block_then_dispatch[OF I r block_cv[OF U ru] _ this]
  show ?thesis using True current_runs[OF ru] r
    by (auto simp: cv_wait_def unlock_mutex_eq[OF i(1) r] unlocked_frame runs_def)
qed

lemma thread_join_inv:
  assumes I: "lib_inv s" and r: "runs s c t k" and l: "live s t = Some User"
  shows "\<exists>s'. thread_join c u s = Inr s' \<and> lib_inv s'"
proof (cases "heap s u")
  case None
  then show ?thesis using I by (simp add: thread_join_def lock_weak_def)
next
  case (Some j)
  note i = lib_invD[OF I]
  show ?thesis
  proof (cases "finished j")
    case True
    then show ?thesis using I Some by (simp add: thread_join_def lock_weak_def)
  next
    case False
    let ?s = "set_thread u (\<lambda>i. i\<lparr>threads_waiting := threads_waiting i @ [t]\<rparr>) (set_executing c None s)"
    have "served 1 ?s" using served_Suc[OF i(3)] by (simp add: served_def)
    from block_then_dispatch[OF I r block_join[OF i(1) r l Some False] _ this]
    show ?thesis using current_runs[OF r] r Some False
      by (auto simp: thread_join_def lock_weak_def runs_def)
  qed
qed

lemma thread_exit_eq:
  assumes "current c s = Some t" and "heap (pruned s) t = Some i"
  shows "thread_exit c s = wait_and_pop c (ended c t i (pruned s))"
  using assms by (simp add: thread_exit_def ended_def pruned_def push_all_def Let_def)

lemma thread_exit_inv:
  assumes I: "lib_inv s" and r: "runs s c t k"
  shows "\<exists>s'. thread_exit c s = Inr s' \<and> lib_inv s'"
proof -
  note i = lib_invD[OF I]
  have P: "sched_inv (pruned s)" by (rule pruned_inv[OF i(1)])
  have rp: "runs (pruned s) c t k" using r by (simp add: runs_def pruned_def)
  obtain j where h: "heap (pruned s) t = Some j"
    using runs_facts(4)[OF P rp] by (auto simp: live_def split: option.splits)
  let ?s = "ended c t j (pruned s)"
  have E: "sched_inv ?s" by (rule ended_inv[OF P rp h]) (simp add: pruned_def)
  have "served 1 (pruned s)" using served_Suc[OF i(3)] by (simp add: served_def pruned_def)
  from push_all_inv(2)[OF sched_invD(6)[OF P] this] have v: "served 1 ?s"
    by (simp add: ended_def served_def Let_def)
  have "cpus ?s = (cpus s)(c \<mapsto> k\<lparr>executing_thread := None\<rparr>)"
    using r by (simp add: ended_def push_all_frame Let_def pruned_def runs_def)
  from block_then_dispatch[OF I r E this v] show ?thesis
    using thread_exit_eq[OF current_runs[OF r] h] by auto
qed

lemma yield_inv:
  assumes I: "lib_inv s" and c: "cpus s c \<noteq> None"
  shows "\<exists>s'. yield c s = Inr s' \<and> lib_inv s'"
proof -
  note i = lib_invD[OF I]
  obtain k where "cpus s c = Some k" using c by blast
  moreover obtain t where "executing_thread k = Some t" using i(2) calculation by (auto simp: cpus_busy_def)
  ultimately have k: "cpus s c = Some k" "executing_thread k = Some t" by simp_all
  show ?thesis
  proof (cases "t = waiting_thread k \<or> ready_threads s = []")
    case True
    then show ?thesis using I k by (auto simp: yield_def)
  next
    case False
    then have r: "runs s c t k" and ne: "ready_threads s \<noteq> []" using k by (simp_all add: runs_def)
    note v = sched_invD[OF i(1)] and f = runs_facts[OF i(1) r]
    let ?s = "set_executing c None (s\<lparr>ready_threads := ready_threads s @ [t]\<rparr>)"
    have "placed ((queues_of s)(QReady := ready_threads s @ [t], QExec c := [])) (live s) (owners s)"
      using placed_requeue[OF v(1) f(1)] by (simp add: fun_upd_twist)
    then have S: "sched_inv ?s"
      unfolding sched_inv_def using v(2-6) k(1) f(2)
      by (simp add: lib_view idle_ok_set_executing[where k = k])
    have "served 1 ?s" using i(3) by (simp add: served_def)
    from block_then_dispatch[OF I r S _ this] k(1)
    obtain s' where w: "wait_and_pop c ?s = Inr s'" "lib_inv s'" by auto
    have "yield c s = wait_and_pop c ?s"
      using False k ne by (cases "ready_threads s") (auto simp: yield_def wait_and_pop_def, simp_all add: set_executing_def)
    then show ?thesis using w by simp
  qed
qed

lemma wakeup_inv:
  assumes I: "lib_inv s" and c: "c \<in> pending_ipis s"
  shows "\<exists>s'. wait_for_ready_thread c (s\<lparr>pending_ipis := pending_ipis s - {c}\<rparr>) = Inr s' \<and> lib_inv s'"
proof -
  note i = lib_invD[OF I]
  note v = sched_invD[OF i(1)]
  have "idle_cpu s c" using v(6) c by (simp add: idle_ok_def)
  then obtain k where k: "cpus s c = Some k" "executing_thread k = Some (waiting_thread k)"
    by (auto simp: idle_cpu_def)
  let ?p = "s\<lparr>pending_ipis := pending_ipis s - {c}\<rparr>"
  let ?s = "set_executing c None ?p"
  have "(queues_of s)(QExec c := []) = queues_of s" using k by auto
  moreover have "idle_ok ?s"
    using v(6) k c by (auto simp: idle_ok_def idle_set_executing[of ?p c k] idle_other)
  ultimately have S: "sched_inv ?s" unfolding sched_inv_def using v(1-5) by (simp add: lib_view)
  have "served 1 ?s" using i(3) c v(6) by (auto simp: served_def idle_ok_def card_Diff_singleton)
  then have "\<exists>s'. wait_and_pop c ?s = Inr s' \<and> dispatched c ?s s' \<and> lib_inv s'"
    by (intro wait_and_pop_inv[OF S, of c "k\<lparr>executing_thread := None\<rparr>"])
      (use k i(2) in \<open>auto simp: cpus_busy_def split: if_splits\<close>)
  then obtain s' where w: "wait_and_pop c ?s = Inr s'" "lib_inv s'" by blast
  have same: "set_executing c (Some (waiting_thread k)) ?p = ?p"
    using k by (auto simp: set_executing_def intro!: lib.equality ext)
  have "live ?p (waiting_thread k) = Some Idle" using v(5) k(1) by (simp add: cpus_ok_def lib_view)
  then obtain j where "heap s (waiting_thread k) = Some j" "thread_ctx j = Idle" using live_heap[of ?p] by auto
  then have "wait_for_ready_thread c ?p = wait_and_pop c ?s"
    using k same
    by (cases "ready_threads s")
      (simp_all add: wait_for_ready_thread.simps[of c ?p] wait_and_pop_def switch_to.simps[of c "waiting_thread k"],
       simp_all add: set_executing_def)
  then show ?thesis using w by simp
qed

text \<open>A new thread object, ready, on a CPU, or the idle thread of a CPU that boots.\<close>

definition with_new :: "continuation \<Rightarrow> lib \<Rightarrow> lib" where
  "with_new x s = s\<lparr>heap := (heap s)(next_id s \<mapsto> new_thread_info x), next_id := next_id s + 1\<rparr>"

lemma new_heap_facts:
  assumes I: "sched_inv s" and s1: "s1 = with_new x s"
  shows "live s (next_id s) = None" and "live s1 = (live s)(next_id s \<mapsto> x)" and "queues_of s1 = queues_of s"
    and "finished_ok s1" and "ids_ok s1" and "cpus_ok s1" and "idle_ok s1" and "mutexes_ok s1"
    and "owners s1 = owners s"
proof -
  note v = sched_invD[OF I]
  have h: "heap s (next_id s) = None" using v(4) by (auto simp: ids_ok_def)
  then show n: "live s (next_id s) = None" by (simp add: live_def)
  show l: "live s1 = (live s)(next_id s \<mapsto> x)" by (auto simp: s1 with_new_def live_def new_thread_info_def fun_eq_iff)
  show "queues_of s1 = queues_of s"
    by (rule queues_eqI, rename_tac q, case_tac q) (auto simp: s1 with_new_def new_thread_info_def h)
  show "finished_ok s1" using v(3) h by (auto simp: s1 with_new_def finished_ok_def new_thread_info_def)
  show "ids_ok s1" using v(4) by (auto simp: s1 with_new_def ids_ok_def owners_def less_Suc_eq)
  have "cpus s1 = cpus s" by (simp add: s1 with_new_def)
  then show "cpus_ok s1" using v(5) n unfolding cpus_ok_def l by (metis fun_upd_other option.distinct(1))
  show "idle_ok s1" and "mutexes_ok s1" and "owners s1 = owners s"
    using v(2,6) by (simp_all add: s1 with_new_def lib_view)
qed

lemma thread_create_inv:
  assumes I: "lib_inv s"
  shows "lib_inv (snd (thread_create s))"
proof -
  note i = lib_invD[OF I]
  let ?h = "with_new User s"
  note f = new_heap_facts[where x = User, OF i(1) refl]
  have e: "snd (thread_create s) = push_and_signal (next_id s) ?h"
    by (simp add: thread_create_def create_thread_def with_new_def)
  have "placed ((queues_of s)(QReady := ready_threads s @ [next_id s])) ((live s)(next_id s \<mapsto> User)) (owners s)"
    using placed_new[OF sched_invD(1)[OF i(1)] f(1), of QReady User] by simp
  moreover have h: "ready_threads ?h = ready_threads s" by (simp add: with_new_def)
  ultimately have S: "sched_inv (push_and_signal (next_id s) ?h)"
    unfolding sched_inv_def using f h by (simp add: queues_push_and_signal live_other owners_other
        mutexes_ok_other finished_ok_other ids_ok_other cpus_ok_other idle_ok_push_and_signal)
  have "served 0 ?h" using i(3) by (simp add: served_def with_new_def)
  from served_push_and_signal[OF f(7) this] show ?thesis
    unfolding e by (intro lib_inv_same_cpus[OF I S]) (simp_all add: with_new_def)
qed

definition booting :: "nat \<Rightarrow> lib \<Rightarrow> lib" where
  "booting c s = s\<lparr>heap := (heap s)(next_id s \<mapsto> new_thread_info Idle), next_id := next_id s + 1,
     cpus := (cpus s)(c \<mapsto> \<lparr>executing_thread = None, waiting_thread = next_id s\<rparr>)\<rparr>"

lemma cpus_update_views:
  assumes "cpus s c = None" and "executing_thread k = None"
  shows "queues_of (s\<lparr>cpus := (cpus s)(c \<mapsto> k)\<rparr>) = queues_of s"
    and "live (s\<lparr>cpus := f\<rparr>) = live s" and "owners (s\<lparr>cpus := f\<rparr>) = owners s"
    and "mutexes_ok (s\<lparr>cpus := f\<rparr>) = mutexes_ok s" and "finished_ok (s\<lparr>cpus := f\<rparr>) = finished_ok s"
    and "ids_ok (s\<lparr>cpus := f\<rparr>) = ids_ok s" and "idle_ok (s\<lparr>cpus := (cpus s)(c \<mapsto> k)\<rparr>) = idle_ok s"
proof -
  show "queues_of (s\<lparr>cpus := (cpus s)(c \<mapsto> k)\<rparr>) = queues_of s"
    by (rule queues_eqI, rename_tac q, case_tac q) (use assms in auto)
  have "idle_cpu (s\<lparr>cpus := (cpus s)(c \<mapsto> k)\<rparr>) = idle_cpu s"
    using assms by (auto simp: idle_cpu_def fun_eq_iff)
  then show "idle_ok (s\<lparr>cpus := (cpus s)(c \<mapsto> k)\<rparr>) = idle_ok s" by (simp add: idle_ok_def)
qed (simp_all add: live_def owners_def fun_eq_iff mutexes_ok_def finished_ok_def ids_ok_def)

lemma booting_inv:
  assumes I: "sched_inv s" and c: "cpus s c = None"
  shows "sched_inv (booting c s)"
proof -
  let ?h = "with_new Idle s"
  let ?k = "\<lparr>executing_thread = None, waiting_thread = next_id s\<rparr>"
  note f = new_heap_facts[where x = Idle, OF I refl]
  have b: "booting c s = ?h\<lparr>cpus := (cpus ?h)(c \<mapsto> ?k)\<rparr>" by (simp add: booting_def with_new_def)
  have c': "cpus ?h c = None" "executing_thread ?k = None" using c by (simp_all add: with_new_def)
  note u = cpus_update_views[OF c']
  have "placed (queues_of s) ((live s)(next_id s \<mapsto> Idle)) (owners s)"
    by (rule placed_new_idle[OF sched_invD(1)[OF I] f(1)])
  moreover have "cpus_ok (?h\<lparr>cpus := (cpus ?h)(c \<mapsto> ?k)\<rparr>)"
    using f(6) unfolding cpus_ok_def u(2) f(2) by simp
  ultimately show ?thesis unfolding sched_inv_def b u using f by simp
qed

lemma cpu_boot_inv:
  assumes I: "lib_inv s" and c: "cpus s c = None"
  shows "\<exists>s'. cpu_boot c main s = Inr s' \<and> lib_inv s'"
proof -
  note i = lib_invD[OF I]
  let ?b = "booting c s"
  let ?k = "\<lparr>executing_thread = None, waiting_thread = next_id s\<rparr>"
  have B: "sched_inv ?b" by (rule booting_inv[OF i(1) c])
  have k: "cpus ?b c = Some ?k" "executing_thread ?k = None" by (simp_all add: booting_def)
  have oth: "executing_thread l \<noteq> None" if "cpus ?b d = Some l" and "d \<noteq> c" for d l
    using that i(2) by (auto simp: booting_def cpus_busy_def)
  have v: "served 0 ?b" using i(3) by (simp add: served_def booting_def)
  show ?thesis
  proof (cases main)
    case False
    have "cpu_boot c main s = wait_and_pop c ?b" using False by (simp add: cpu_boot_def booting_def Let_def)
    moreover have "\<exists>s'. wait_and_pop c ?b = Inr s' \<and> dispatched c ?b s' \<and> lib_inv s'"
      using wait_and_pop_inv[OF B k] oth served_Suc[OF v] by blast
    ultimately show ?thesis by auto
  next
    case True
    let ?t = "next_id ?b"
    let ?h = "with_new User ?b"
    let ?s = "set_executing c (Some ?t) ?h"
    note f = new_heap_facts[where x = User, OF B refl]
    have e: "cpu_boot c main s = Inr ?s"
      using True by (simp add: cpu_boot_def booting_def create_thread_def with_new_def Let_def)
    have kh: "cpus ?h c = Some ?k" using k by (simp add: with_new_def)
    have ne: "?t \<noteq> waiting_thread ?k" by (simp add: booting_def)
    have ni: "\<not> idle_cpu ?h c" using kh by (simp add: idle_cpu_def)
    have "placed ((queues_of ?b)(QExec c := [?t])) ((live ?b)(?t \<mapsto> User)) (owners ?b)"
      using placed_new[OF sched_invD(1)[OF B] f(1), of "QExec c" User] k by simp
    moreover have "queues_of ?s = (queues_of ?b)(QExec c := [?t])"
      using queues_set_executing[OF kh, of ?t] ne f(3) by simp
    ultimately have "sched_inv ?s"
      unfolding sched_inv_def using f ne kh ni
      by (simp add: live_other owners_other mutexes_ok_other finished_ok_other ids_ok_other
          cpus_ok_set_executing idle_ok_set_executing[where k = ?k])
    moreover have "cpus_busy ?s" using oth kh by (auto simp: cpus_busy_def with_new_def)
    moreover have "served 0 ?s" using v by (simp add: served_def with_new_def)
    ultimately show ?thesis unfolding e lib_inv_def by simp
  qed
qed

subsection \<open>All steps\<close>

lemma in_user_codeE:
  assumes "lib_inv s" and "in_user_code c s"
  obtains t k where "runs s c t k" and "live s t = Some User"
proof -
  obtain t where "current c s = Some t" "ctx_of s t = Some User"
    using assms(2) by (auto simp: in_user_code_def split: option.splits)
  from in_user_code_runs[OF assms(1) this] show ?thesis using that by auto
qed

lemma enabled_runs:
  assumes "lib_inv s" and "enabled c e s" and "e \<noteq> Wakeup" and "e \<noteq> Yield" and "\<And>b. e \<noteq> Boot b"
  obtains t k where "runs s c t k" and "live s t = Some User \<or> (\<exists>m. e = Lock m \<and> live s t = Some (Relock m))"
proof (cases "in_user_code c s")
  case True
  then show ?thesis using in_user_codeE[OF assms(1)] that by metis
next
  case False
  then obtain m t where "e = Lock m" "current c s = Some t" "ctx_of s t = Some (Relock m)"
    using assms(2-5) by (auto simp: enabled_def split: event.splits option.splits)
  with in_user_code_runs[OF assms(1) this(2,3)] show ?thesis using that by auto
qed

lemma run_op_keeps:
  assumes I: "lib_inv s" and E: "enabled c e s"
  shows "keeps (run_op c e s)"
proof (cases "e = Wakeup \<or> e = Yield \<or> (\<exists>b. e = Boot b)")
  case True
  then show ?thesis
    using wakeup_inv[OF I, of c] yield_inv[OF I, of c] cpu_boot_inv[OF I, of c] E
    by (auto simp: run_op_def enabled_def keeps_def) (metis sum.simps(6))+
next
  case False
  then obtain t k where r: "runs s c t k"
    and l: "live s t = Some User \<or> (\<exists>m. e = Lock m \<and> live s t = Some (Relock m))"
    using enabled_runs[OF I E] by metis
  note i = lib_invD[OF I]
  show ?thesis
  proof (cases e)
    case (Lock m)
    then show ?thesis using mutex_lock_inv[OF I r, of m] by (auto simp: run_op_def keeps_def)
  next
    case (Unlock m)
    have "lib_inv (unlocked m s)" if "owners s m = Some t"
      using lib_inv_same_cpus[OF I unlocked_inv[OF i(1) r that] unlocked_frame(1)]
        unlocked_served[OF sched_invD(6)[OF i(1)] i(3)] by blast
    then show ?thesis
      using Unlock unlock_mutex_eq[OF i(1) r, of m] by (simp add: run_op_def keeps_def mutex_unlock_def)
  next
    case (Wait v m)
    then show ?thesis using cv_wait_inv[OF I r, of m v] by (auto simp: run_op_def keeps_def split: if_splits)
  next
    case (Signal v)
    then show ?thesis using cv_signal_inv[OF i(1,3), of v] lib_inv_same_cpus[OF I]
      by (simp add: run_op_def keeps_def)
  next
    case (Broadcast v)
    then show ?thesis using cv_broadcast_inv[OF i(1,3), of v] lib_inv_same_cpus[OF I]
      by (simp add: run_op_def keeps_def)
  next
    case (Join u)
    then show ?thesis using thread_join_inv[OF I r, of u] l by (auto simp: run_op_def keeps_def)
  next
    case Exit
    then show ?thesis using thread_exit_inv[OF I r] by (auto simp: run_op_def keeps_def)
  qed (use False thread_create_inv[OF I] in \<open>auto simp: run_op_def keeps_def\<close>)
qed

lemma init_lib_inv: "lib_inv init_lib"
proof -
  have "queues_of init_lib q = []" for q by (cases q) (simp_all add: init_lib_def new_mutex_def)
  then have "placed (queues_of init_lib) (live init_lib) (owners init_lib)"
    by (simp add: placed_def linear_def live_def init_lib_def)
  then show ?thesis
    by (simp add: lib_inv_def sched_inv_def init_lib_def new_mutex_def mutexes_ok_def finished_ok_def
        ids_ok_def owners_def cpus_ok_def idle_ok_def idle_cpu_def cpus_busy_def served_def)
qed

lemma step_keeps:
  assumes "lib_inv s" and "step s ce s'"
  shows "lib_inv s'"
  using assms(2)
proof (cases rule: step.cases)
  case (step_op c e)
  then show ?thesis using run_op_keeps[OF assms(1) step_op(2)] by (simp add: keeps_def)
next
  case (step_throw c e msg)
  then show ?thesis using assms(1) by simp
qed

interpretation threads: inductive_invariant init_lib step lib_inv
  by unfold_locales (auto intro: init_lib_inv step_keeps)

end
