(* ===== verification/Thread_Refine.thy ===== *)
theory Thread_Refine
  imports Thread_Ops
begin

text \<open>
  What the library promises of one mutex and of one condition variable, as small state machines, and
  that every step of the library is a step of theirs: a mutex has an owner and a queue of threads that
  get it in the order of their calls; a condition variable has a queue that is woken in order.
\<close>

subsection \<open>Specifications\<close>

type_synonym mutex_state = "nat option \<times> nat list"

definition mutex_state :: "lib \<Rightarrow> nat \<Rightarrow> mutex_state" where
  "mutex_state s m = (owned_thread (mutexes s m), m_waiting_threads (mutexes s m))"

fun spec_acquire :: "nat \<Rightarrow> mutex_state \<Rightarrow> mutex_state" where
  "spec_acquire t (None, q) = (Some t, q)"
| "spec_acquire t (Some u, q) = (Some u, q @ [t])"

fun spec_release :: "nat \<Rightarrow> mutex_state \<Rightarrow> mutex_state" where
  "spec_release t (w, q) =
     (if w \<noteq> Some t then (w, q) else case q of [] \<Rightarrow> (None, []) | u # us \<Rightarrow> (Some u, us))"

fun spec_mutex :: "nat \<Rightarrow> nat \<Rightarrow> event \<Rightarrow> mutex_state \<Rightarrow> mutex_state" where
  "spec_mutex m t (Lock n) x = (if n = m then spec_acquire t x else x)"
| "spec_mutex m t (Unlock n) x = (if n = m then spec_release t x else x)"
| "spec_mutex m t (Wait v n) x = (if n = m then spec_release t x else x)"
| "spec_mutex m t e x = x"

text \<open>A wait counts when the thread holds the mutex; else it throws.\<close>

fun spec_cv :: "nat \<Rightarrow> nat \<Rightarrow> (nat \<Rightarrow> nat option) \<Rightarrow> event \<Rightarrow> nat list \<Rightarrow> nat list" where
  "spec_cv v t own (Wait w m) q = (if w = v \<and> own m = Some t then q @ [t] else q)"
| "spec_cv v t own (Signal w) q = (if w = v then tl q else q)"
| "spec_cv v t own (Broadcast w) q = (if w = v then [] else q)"
| "spec_cv v t own e q = q"

subsection \<open>A context switch touches neither\<close>

lemma switch_frame:
  "switch_to c t s = Inr s' \<Longrightarrow> mutexes s' = mutexes s \<and> cvs s' = cvs s"
  "wait_for_ready_thread c s = Inr s' \<Longrightarrow> mutexes s' = mutexes s \<and> cvs s' = cvs s"
proof (induction c t s and c s arbitrary: s' and s' rule: switch_to_wait_for_ready_thread.induct)
  case (1 c t s)
  then show ?case
    by (auto simp: switch_to.simps[of c t s] set_ctx_def set_thread_def
        split: option.splits continuation.splits if_splits)
next
  case (2 c s)
  then show ?case
    by (auto simp: wait_for_ready_thread.simps[of c s] set_executing_def split: list.splits)
qed

lemma wait_and_pop_frame:
  assumes "wait_and_pop c s = Inr s'"
  shows "mutexes s' = mutexes s" and "cvs s' = cvs s"
  using assms switch_frame(1) by (fastforce simp: wait_and_pop_def set_executing_def split: option.splits list.splits)+

lemma wait_and_pop_frames: "wait_and_pop c s = Inr s' \<Longrightarrow> mutexes s' = mutexes s \<and> cvs s' = cvs s"
  using wait_and_pop_frame by simp

lemma push_all_mutexes: "mutexes (ended c t i s) = mutexes s" "cvs (ended c t i s) = cvs s"
  by (simp_all add: ended_def Let_def set_thread_def set_executing_def push_all_frame)

lemma cvs_simps [simp]:
  "cvs (set_ctx t x s) = cvs s" "cvs (set_thread t g s) = cvs s" "cvs (set_mutex m y s) = cvs s"
  "cvs (set_executing c w s) = cvs s" "mutexes (set_thread t g s) = mutexes s"
  by (simp_all add: set_ctx_def set_thread_def set_mutex_def set_executing_def)

lemma unlocked_mutex_state:
  assumes "owners s m = Some t"
  shows "mutex_state (unlocked m s) n = (if n = m then spec_release t (mutex_state s m) else mutex_state s n)"
  using assms by (auto simp: unlocked_def mutex_state_def owners_def split: list.splits)

lemma unlocked_cvs: "cvs (unlocked m s) = cvs s"
  by (simp add: unlocked_def split: list.splits)

lemma cv_signal_queues: "mutexes (cv_signal v s) = mutexes s" "cvs (cv_signal v s) = (cvs s)(v := tl (cvs s v))"
  by (auto simp: cv_signal_def split: list.splits)

lemma cv_broadcast_queues:
  "mutexes (cv_broadcast v s) = mutexes s" "cvs (cv_broadcast v s) = (cvs s)(v := [])"
  "ready_threads (cv_broadcast v s) = ready_threads s @ cvs s v"
proof -
  have "mutexes (broadcast_loop v ws s) = mutexes s \<and> cvs (broadcast_loop v ws s) = (cvs s)(v := [])
      \<and> ready_threads (broadcast_loop v ws s) = ready_threads s @ ws" if "cvs s v = ws" for ws s
    using that by (induction v ws s rule: broadcast_loop.induct) auto
  then show "mutexes (cv_broadcast v s) = mutexes s" "cvs (cv_broadcast v s) = (cvs s)(v := [])"
    "ready_threads (cv_broadcast v s) = ready_threads s @ cvs s v"
    by (simp_all add: cv_broadcast_def)
qed

subsection \<open>Every step is a step of the specifications\<close>

text \<open>The only way to fail.\<close>

lemma run_op_throws:
  assumes I: "lib_inv s" and E: "enabled c e s" and R: "run_op c e s = Inl x"
  shows "x = not_held \<and> (\<exists>m t. (e = Unlock m \<or> (\<exists>v. e = Wait v m)) \<and> current c s = Some t \<and> owners s m \<noteq> Some t)"
proof -
  have x: "x = not_held" using run_op_keeps[OF I E] R by (simp add: keeps_def)
  have n: "e \<noteq> Wakeup" "e \<noteq> Yield" "e \<noteq> Boot b" for b
    using wakeup_inv[OF I, of c] yield_inv[OF I, of c] cpu_boot_inv[OF I, of c b] E R
    by (auto simp: run_op_def enabled_def)
  from enabled_runs[OF I E n] obtain t k where r: "runs s c t k"
    and l: "live s t = Some User \<or> (\<exists>m. e = Lock m \<and> live s t = Some (Relock m))" by blast
  note t = current_runs[OF r]
  show ?thesis
  proof (cases e)
    case (Lock m)
    then show ?thesis using mutex_lock_inv[OF I r, of m] R by (auto simp: run_op_def)
  next
    case (Unlock m)
    then show ?thesis using unlock_mutex_eq[OF lib_invD(1)[OF I] r, of m] x t R
      by (auto simp: run_op_def mutex_unlock_def split: if_splits)
  next
    case (Wait v m)
    then show ?thesis using cv_wait_inv[OF I r, of m v] x t R by (auto simp: run_op_def split: if_splits)
  next
    case (Join u)
    then show ?thesis using thread_join_inv[OF I r, of u] l R by (auto simp: run_op_def)
  next
    case Exit
    then show ?thesis using thread_exit_inv[OF I r] R by (auto simp: run_op_def)
  qed (use n R in \<open>auto simp: run_op_def\<close>)
qed

lemma mutex_lock_effect:
  assumes "mutexes_ok s" and "current c s = Some t" and "mutex_lock c m s = Inr s'"
  shows "mutex_state s' n = (if n = m then spec_acquire t (mutex_state s m) else mutex_state s n)" and "cvs s' = cvs s"
proof -
  have o: "free (mutexes s m) \<longleftrightarrow> owned_thread (mutexes s m) = None" using assms(1) by (simp add: mutexes_ok_def)
  show "mutex_state s' n = (if n = m then spec_acquire t (mutex_state s m) else mutex_state s n)"
    using assms(2,3) o
    by (auto simp: mutex_lock_def mutex_state_def Let_def dest!: wait_and_pop_frames split: if_splits)
  show "cvs s' = cvs s"
    using assms(2,3) by (auto simp: mutex_lock_def Let_def dest!: wait_and_pop_frames split: if_splits)
qed

lemma cv_wait_effect:
  assumes I: "sched_inv s" and r: "runs s c t k" and w: "cv_wait c v m s = Inr s'"
  shows "owners s m = Some t"
    and "mutex_state s' n = (if n = m then spec_release t (mutex_state s m) else mutex_state s n)"
    and "cvs s' = (cvs s)(v := cvs s v @ [t])"
proof -
  show o: "owners s m = Some t" using w by (auto simp: cv_wait_def unlock_mutex_eq[OF I r] split: if_splits)
  have c: "current c (unlocked m s) = Some t"
    using current_runs[OF r] by (simp add: current_def unlocked_frame)
  have w': "wait_and_pop c (set_ctx t (In_wait m) (set_executing c None ((unlocked m s)
      \<lparr>cvs := (cvs (unlocked m s))(v := cvs (unlocked m s) v @ [t])\<rparr>))) = Inr s'"
    using w c o by (simp add: cv_wait_def unlock_mutex_eq[OF I r])
  from wait_and_pop_frame[OF w']
  have "mutexes s' = mutexes (unlocked m s)" "cvs s' = (cvs s)(v := cvs s v @ [t])"
    by (simp_all add: unlocked_cvs)
  then show "mutex_state s' n = (if n = m then spec_release t (mutex_state s m) else mutex_state s n)"
    and "cvs s' = (cvs s)(v := cvs s v @ [t])"
    using unlocked_mutex_state[OF o, of n] by (simp_all add: mutex_state_def)
qed

lemma other_effects:
  "thread_join c u s = Inr s' \<Longrightarrow> mutexes s' = mutexes s \<and> cvs s' = cvs s"
  "thread_exit c s = Inr s' \<Longrightarrow> mutexes s' = mutexes s \<and> cvs s' = cvs s"
  "yield c s = Inr s' \<Longrightarrow> mutexes s' = mutexes s \<and> cvs s' = cvs s"
  "cpu_boot c b s = Inr s' \<Longrightarrow> mutexes s' = mutexes s \<and> cvs s' = cvs s"
  "mutexes (snd (thread_create s)) = mutexes s \<and> cvs (snd (thread_create s)) = cvs s"
proof -
  show "thread_join c u s = Inr s' \<Longrightarrow> mutexes s' = mutexes s \<and> cvs s' = cvs s"
    by (auto simp: thread_join_def dest!: wait_and_pop_frames split: option.splits if_splits)
  show "mutexes s' = mutexes s \<and> cvs s' = cvs s" if x: "thread_exit c s = Inr s'"
  proof -
    obtain t where t: "current c s = Some t" using x by (auto simp: thread_exit_def split: option.splits)
    then obtain i where i: "heap (pruned s) t = Some i"
      using x by (auto simp: thread_exit_def pruned_def Let_def split: option.splits)
    have "wait_and_pop c (ended c t i (pruned s)) = Inr s'" using x thread_exit_eq[OF t i] by simp
    from wait_and_pop_frame[OF this] show ?thesis by (simp add: push_all_mutexes) (simp add: pruned_def)
  qed
  show "yield c s = Inr s' \<Longrightarrow> mutexes s' = mutexes s \<and> cvs s' = cvs s"
    by (auto simp: yield_def dest!: switch_frame(1) split: option.splits if_splits list.splits)
  show "cpu_boot c b s = Inr s' \<Longrightarrow> mutexes s' = mutexes s \<and> cvs s' = cvs s"
    by (auto simp: cpu_boot_def create_thread_def Let_def dest!: wait_and_pop_frames split: if_splits)
  show "mutexes (snd (thread_create s)) = mutexes s \<and> cvs (snd (thread_create s)) = cvs s"
    by (simp add: thread_create_def create_thread_def)
qed

definition mutex_next :: "lib \<Rightarrow> nat \<Rightarrow> event \<Rightarrow> nat \<Rightarrow> mutex_state" where
  "mutex_next s c e m =
     (case current c s of None \<Rightarrow> mutex_state s m | Some t \<Rightarrow> spec_mutex m t e (mutex_state s m))"

definition cv_next :: "lib \<Rightarrow> nat \<Rightarrow> event \<Rightarrow> nat \<Rightarrow> nat list" where
  "cv_next s c e v =
     (case current c s of None \<Rightarrow> cvs s v | Some t \<Rightarrow> spec_cv v t (owners s) e (cvs s v))"

lemma run_op_refines:
  assumes I: "lib_inv s" and E: "enabled c e s" and R: "run_op c e s = Inr s'"
  shows "mutex_state s' m = mutex_next s c e m \<and> cvs s' v = cv_next s c e v"
proof (cases "e = Wakeup \<or> e = Yield \<or> (\<exists>b. e = Boot b)")
  case True
  then have "mutexes s' = mutexes s \<and> cvs s' = cvs s"
    using R switch_frame(2)[of c "s\<lparr>pending_ipis := pending_ipis s - {c}\<rparr>" s'] other_effects(3)[of c s s']
      other_effects(4)[of c _ s s']
    by (auto simp: run_op_def)
  moreover have "spec_mutex m t e x = x" and "spec_cv v t own e q = q" for t x own q using True by auto
  ultimately show ?thesis by (simp add: mutex_state_def mutex_next_def cv_next_def split: option.splits)
next
  case False
  then obtain t k where r: "runs s c t k" using enabled_runs[OF I E] by metis
  note i = lib_invD(1)[OF I] and t = current_runs[OF r]
  have nx: "mutex_next s c f m = spec_mutex m t f (mutex_state s m)"
    "cv_next s c f v = spec_cv v t (owners s) f (cvs s v)" for f by (simp_all add: mutex_next_def cv_next_def t)
  show ?thesis
  proof (cases e)
    case (Lock n)
    then have "mutex_lock c n s = Inr s'" using R by (simp add: run_op_def)
    from mutex_lock_effect[OF sched_invD(2)[OF i] t this] show ?thesis unfolding nx Lock by simp
  next
    case (Unlock n)
    then have "owners s n = Some t" and "s' = unlocked n s"
      using R unlock_mutex_eq[OF i r, of n] by (auto simp: run_op_def mutex_unlock_def split: if_splits)
    then show ?thesis unfolding nx Unlock using unlocked_mutex_state[of s n t m] by (simp add: unlocked_cvs)
  next
    case (Wait w n)
    then have "cv_wait c w n s = Inr s'" using R by (simp add: run_op_def)
    from cv_wait_effect[OF i r this] show ?thesis unfolding nx Wait by simp
  next
    case (Signal w)
    then show ?thesis unfolding Signal nx using R Signal by (auto simp: run_op_def cv_signal_queues mutex_state_def)
  next
    case (Broadcast w)
    then show ?thesis unfolding Broadcast nx using R Broadcast by (auto simp: run_op_def cv_broadcast_queues mutex_state_def)
  next
    case (Join u)
    then show ?thesis unfolding Join nx using R Join other_effects(1)[of c u s s'] by (simp add: run_op_def mutex_state_def)
  next
    case Create
    then show ?thesis unfolding Create nx using R Create other_effects(5)[of s] by (auto simp: run_op_def mutex_state_def)
  next
    case Exit
    then show ?thesis unfolding Exit nx using R Exit other_effects(2)[of c s s'] by (simp add: run_op_def mutex_state_def)
  qed (use False in auto)
qed

lemma step_refines:
  assumes I: "lib_inv s" and S: "step s (c, e) s'"
  shows "mutex_state s' m = mutex_next s c e m \<and> cvs s' v = cv_next s c e v"
  using S
proof (rule stepE)
  assume "enabled c e s" and "run_op c e s = Inr s'"
  then show ?thesis by (rule run_op_refines[OF I])
next
  fix msg
  assume e: "s' = s" "enabled c e s" "run_op c e s = Inl (Runtime_error msg)"
  from run_op_throws[OF I this(2,3)] show ?thesis
    using e(1) by (auto simp: mutex_next_def cv_next_def mutex_state_def owners_def)
qed

end
