(* ===== verification/Thread_Wake.thy ===== *)
theory Thread_Wake
  imports Thread_Refine
begin

text \<open>
  Waiting and waking: who waits to join a thread, who has ended, that a thread leaves the queue of a
  mutex as its owner, and that a woken thread is ready.  Also the order in which yielding threads take
  turns.
\<close>

subsection \<open>Joining threads\<close>

definition joiners :: "lib \<Rightarrow> nat \<Rightarrow> nat list" where
  "joiners s u = queues_of s (QJoin u)"

text \<open>Nothing happens to the lists of joining threads, and no thread starts or ends.\<close>

definition same_threads :: "lib \<Rightarrow> lib \<Rightarrow> bool" where
  "same_threads s s' \<longleftrightarrow> (\<forall>u. joiners s' u = joiners s u \<and> (live s' u = None \<longleftrightarrow> live s u = None))"

lemma same_threads_refl [simp]: "same_threads s s"
  by (simp add: same_threads_def)

lemma same_threads_trans: "same_threads s s' \<Longrightarrow> same_threads s' s'' \<Longrightarrow> same_threads s s''"
  by (simp add: same_threads_def)

lemma same_threads_heap:
  assumes "heap s' = heap s"
  shows "same_threads s s'"
  using assms by (simp add: same_threads_def joiners_def live_def)

lemma same_threads_set_ctx: "same_threads s (set_ctx t x s)"
  by (auto simp: same_threads_def joiners_def live_def set_ctx_def set_thread_def split: option.splits)

lemma switch_same_threads:
  "switch_to c t s = Inr s' \<Longrightarrow> same_threads s s'"
  "wait_for_ready_thread c s = Inr s' \<Longrightarrow> same_threads s s'"
proof (induction c t s and c s arbitrary: s' and s' rule: switch_to_wait_for_ready_thread.induct)
  case (1 c t s)
  then show ?case
    by (auto simp: switch_to.simps[of c t s] same_threads_set_ctx split: option.splits continuation.splits if_splits)
next
  case (2 c s)
  show ?case
  proof (cases "ready_threads s")
    case Nil
    then show ?thesis using 2 by (auto simp: wait_for_ready_thread.simps[of c s] intro: same_threads_heap)
  next
    case (Cons t ts)
    have "same_threads s (set_executing c (Some t) (s\<lparr>ready_threads := ts\<rparr>))" by (rule same_threads_heap) simp
    then show ?thesis
      using 2 Cons by (auto simp: wait_for_ready_thread.simps[of c s] intro: same_threads_trans)
  qed
qed

lemma wait_and_pop_same_threads:
  assumes "wait_and_pop c s = Inr s'"
  shows "same_threads s s'"
proof -
  obtain k where k: "cpus s c = Some k" using assms by (auto simp: wait_and_pop_def split: option.splits)
  have h: "same_threads s (set_executing c w (s\<lparr>ready_threads := ts\<rparr>))" "same_threads s (set_executing c w s)" for w ts
    by (rule same_threads_heap, simp)+
  show ?thesis
    using assms k switch_same_threads(1) h same_threads_trans
    by (cases "ready_threads s") (fastforce simp: wait_and_pop_def)+
qed

lemma unlocked_same_threads: "same_threads s (unlocked m s)"
  by (rule same_threads_heap) (simp add: unlocked_def split: list.splits)

lemma cv_signal_same_threads: "same_threads s (cv_signal v s)"
  by (rule same_threads_heap) (simp add: cv_signal_def split: list.splits)

lemma cv_broadcast_same_threads: "same_threads s (cv_broadcast v s)"
proof -
  have "same_threads s ((cv_signal v ^^ n) s)" for n
    by (induction n) (simp_all add: same_threads_trans[OF _ cv_signal_same_threads])
  then show ?thesis by (simp add: cv_broadcast_signal)
qed

lemma mutex_lock_same_threads:
  assumes "mutex_lock c m s = Inr s'"
  shows "same_threads s s'"
proof -
  have h: "same_threads s (set_ctx t x (set_mutex m y (set_executing c None s)))"
    "same_threads s (set_ctx t x (set_mutex m y s))" for t x y
    by (rule same_threads_trans[OF same_threads_heap same_threads_set_ctx], simp)+
  show ?thesis
    using assms h same_threads_trans wait_and_pop_same_threads
    by (fastforce simp: mutex_lock_def Let_def split: option.splits if_splits)
qed

lemma cv_wait_same_threads:
  assumes I: "sched_inv s" and r: "runs s c t k" and w: "cv_wait c v m s = Inr s'"
  shows "same_threads s s'"
proof -
  let ?u = "unlocked m s"
  let ?s = "set_ctx t (In_wait m) (set_executing c None (?u\<lparr>cvs := (cvs ?u)(v := cvs ?u v @ [t])\<rparr>))"
  have o: "owners s m = Some t" using w by (auto simp: cv_wait_def unlock_mutex_eq[OF I r] split: if_splits)
  have "current c ?u = Some t" using current_runs[OF r] by (simp add: current_def unlocked_frame)
  then have w': "wait_and_pop c ?s = Inr s'" using w o by (simp add: cv_wait_def unlock_mutex_eq[OF I r])
  have "same_threads ?u ?s" by (rule same_threads_trans[OF same_threads_heap same_threads_set_ctx]) simp
  from same_threads_trans[OF same_threads_trans[OF unlocked_same_threads this] wait_and_pop_same_threads[OF w']]
  show ?thesis .
qed

lemma yield_same_threads:
  assumes "yield c s = Inr s'"
  shows "same_threads s s'"
proof -
  have h: "same_threads s (set_executing c w (s\<lparr>ready_threads := ts\<rparr>))" for w ts
    by (rule same_threads_heap) simp
  show ?thesis
    using assms switch_same_threads(1) same_threads_trans[OF h]
    by (fastforce simp: yield_def split: option.splits if_splits list.splits)
qed

text \<open>The threads that join \<open>u\<close> after a step, and the threads that are still there.\<close>

fun spec_join :: "nat \<Rightarrow> nat \<Rightarrow> bool \<Rightarrow> event \<Rightarrow> nat list \<Rightarrow> nat list" where
  "spec_join u t alive (Join w) q = (if w = u \<and> alive then q @ [t] else q)"
| "spec_join u t alive Exit q = (if t = u then [] else q)"
| "spec_join u t alive e q = q"

definition join_effect :: "lib \<Rightarrow> nat \<Rightarrow> event \<Rightarrow> lib \<Rightarrow> bool" where
  "join_effect s t e s' \<longleftrightarrow> (\<forall>u. joiners s' u = spec_join u t (live s u \<noteq> None) e (joiners s u)
     \<and> (live s u \<noteq> None \<longrightarrow> (live s' u = None \<longleftrightarrow> e = Exit \<and> t = u)))"

lemma join_effect_same:
  assumes "same_threads s s'" and "e \<noteq> Exit" and "\<And>w. e \<noteq> Join w"
  shows "join_effect s t e s'"
proof -
  have "spec_join u t b e q = q" for u b q using assms(2,3) by (cases e) auto
  then show ?thesis using assms(1,2) by (simp add: join_effect_def same_threads_def)
qed

lemma thread_create_effect: "sched_inv s \<Longrightarrow> join_effect s t Create (snd (thread_create s))"
proof -
  assume I: "sched_inv s"
  note f = new_heap_facts[where x = User, OF I refl]
  have "snd (thread_create s) = push_and_signal (next_id s) (with_new User s)"
    by (simp add: thread_create_def create_thread_def with_new_def)
  then show ?thesis
    using f(1-3) by (simp add: join_effect_def joiners_def queues_push_and_signal live_other del: queues_of.simps)
qed

lemma thread_join_effect:
  assumes c: "current c s = Some t" and j: "thread_join c u s = Inr s'"
  shows "join_effect s t (Join u) s'"
proof (cases "heap s u")
  case None
  then show ?thesis using j by (auto simp: thread_join_def lock_weak_def join_effect_def live_def)
next
  case (Some i)
  show ?thesis
  proof (cases "finished i")
    case True
    then show ?thesis using j Some by (auto simp: thread_join_def lock_weak_def join_effect_def live_def)
  next
    case False
    let ?s = "set_thread u (\<lambda>i. i\<lparr>threads_waiting := threads_waiting i @ [t]\<rparr>) (set_executing c None s)"
    have "wait_and_pop c ?s = Inr s'" using j Some False c by (simp add: thread_join_def lock_weak_def)
    from wait_and_pop_same_threads[OF this] show ?thesis
      using Some False by (auto simp: join_effect_def same_threads_def joiners_def live_def set_thread_def
          split: option.splits)
  qed
qed

lemma thread_exit_effect:
  assumes I: "sched_inv s" and r: "runs s c t k" and x: "thread_exit c s = Inr s'"
  shows "join_effect s t Exit s'"
proof -
  note F = sched_invD(3)[OF I]
  have rp: "runs (pruned s) c t k" using r by (simp add: runs_def pruned_def)
  obtain i where h: "heap (pruned s) t = Some i"
    using runs_facts(4)[OF pruned_inv[OF I] rp] by (auto simp: live_def split: option.splits)
  have "wait_and_pop c (ended c t i (pruned s)) = Inr s'" using x thread_exit_eq[OF current_runs[OF r] h] by simp
  from wait_and_pop_same_threads[OF this] have S: "same_threads (ended c t i (pruned s)) s'" .
  have "joiners (ended c t i (pruned s)) u = (if u = t then [] else joiners (pruned s) u)" for u
    using h by (simp add: joiners_def ended_def set_thread_def push_all_frame)
  moreover have "live (ended c t i (pruned s)) u = (if u = t then None else live (pruned s) u)" for u
    using h by (simp add: live_def ended_def set_thread_def push_all_frame)
  ultimately show ?thesis
    using S pruned_live[OF F] pruned_queues[OF F]
    by (auto simp: join_effect_def same_threads_def joiners_def simp del: queues_of.simps)
qed

lemma run_op_join_effect:
  assumes I: "lib_inv s" and E: "enabled c e s" and R: "run_op c e s = Inr s'" and t: "current c s = Some t"
  shows "join_effect s t e s'"
proof (cases "e = Wakeup \<or> e = Yield")
  case True
  let ?p = "s\<lparr>pending_ipis := pending_ipis s - {c}\<rparr>"
  have "same_threads s ?p" by (rule same_threads_heap) simp
  then have "same_threads s s'"
    using True R yield_same_threads switch_same_threads(2)[of c ?p s'] same_threads_trans[of s ?p s']
    by (auto simp: run_op_def)
  then show ?thesis by (rule join_effect_same) (use True in auto)
next
  case False
  have nb: "e \<noteq> Boot b" for b using E t by (auto simp: enabled_def current_def)
  have "e \<noteq> Wakeup" "e \<noteq> Yield" using False by simp_all
  from enabled_runs[OF I E this nb] obtain t' k where r': "runs s c t' k" by blast
  then have r: "runs s c t k" using t current_runs[OF r'] by simp
  note i = lib_invD(1)[OF I]
  show ?thesis
  proof (cases e)
    case (Join u)
    then show ?thesis using R thread_join_effect[OF t, of u s'] by (simp add: run_op_def)
  next
    case Create
    then show ?thesis using R thread_create_effect[OF i, of t] by (auto simp: run_op_def)
  next
    case Exit
    then show ?thesis using R thread_exit_effect[OF i r, of s'] by (simp add: run_op_def)
  next
    case (Lock m)
    then show ?thesis using R mutex_lock_same_threads[of c m s s'] by (intro join_effect_same) (auto simp: run_op_def)
  next
    case (Unlock m)
    then have "s' = unlocked m s"
      using R unlock_mutex_eq[OF i r, of m] by (auto simp: run_op_def mutex_unlock_def split: if_splits)
    then show ?thesis using Unlock unlocked_same_threads[of s m] by (intro join_effect_same) auto
  next
    case (Wait v m)
    then show ?thesis using R cv_wait_same_threads[OF i r, of v m s'] by (intro join_effect_same) (auto simp: run_op_def)
  next
    case (Signal v)
    then show ?thesis using R cv_signal_same_threads[of s v] by (intro join_effect_same) (auto simp: run_op_def)
  next
    case (Broadcast v)
    then show ?thesis using R cv_broadcast_same_threads[of s v] by (intro join_effect_same) (auto simp: run_op_def)
  qed (use False nb in auto)
qed

text \<open>A CPU without a thread has not booted, and booting changes nothing for the threads there are.\<close>

lemma no_current_boot:
  assumes I: "lib_inv s" and E: "enabled c e s" and n: "current c s = None"
  shows "\<exists>b. e = Boot b"
proof (rule ccontr)
  assume nb: "\<nexists>b. e = Boot b"
  have busy: "cpus s c = None"
    using n lib_invD(2)[OF I] unfolding current_def cpus_busy_def by (metis not_None_eq option.simps(5))
  have "c \<notin> pending_ipis s"
    using sched_invD(6)[OF lib_invD(1)[OF I]] busy by (auto simp: idle_ok_def idle_cpu_def)
  then show False using nb E n busy by (auto simp: enabled_def in_user_code_def split: event.splits)
qed

lemma cpu_boot_joiners:
  assumes I: "sched_inv s" and b: "cpu_boot c b s = Inr s'"
  shows "joiners s' u = joiners s u"
proof -
  have h: "heap s n = None" if "n \<ge> next_id s" for n
    using sched_invD(4)[OF I] that by (auto simp: ids_ok_def not_less[symmetric])
  have j: "joiners (booting c s) u = joiners s u"
    using h[of "next_id s"] by (simp add: joiners_def booting_def new_thread_info_def)
  show ?thesis
  proof (cases b)
    case False
    then have "wait_and_pop c (booting c s) = Inr s'" using b by (simp add: cpu_boot_def booting_def Let_def)
    from wait_and_pop_same_threads[OF this] show ?thesis using j by (simp add: same_threads_def)
  next
    case True
    then have "s' = set_executing c (Some (next_id (booting c s))) (with_new User (booting c s))"
      using b by (simp add: cpu_boot_def booting_def create_thread_def with_new_def Let_def)
    then show ?thesis
      using j h[of "Suc (next_id s)"] by (auto simp: joiners_def with_new_def new_thread_info_def booting_def)
  qed
qed

lemma dispatched_member:
  assumes "dispatched c s s'" and "t \<in> set (ready_threads s)" and "cpus s c \<noteq> None"
  shows "t \<in> set (ready_threads s') \<or> current c s' = Some t"
  using assms by (cases "ready_threads s") (auto simp: dispatched_def current_def)

lemma exit_wakes:
  assumes I: "lib_inv s" and r: "runs s c u k" and x: "thread_exit c s = Inr s'" and j: "t \<in> set (joiners s u)"
  shows "t \<in> set (ready_threads s') \<or> current c s' = Some t"
proof -
  note i = lib_invD(1)[OF I]
  have P: "sched_inv (pruned s)" by (rule pruned_inv[OF i])
  have rp: "runs (pruned s) c u k" using r by (simp add: runs_def pruned_def)
  obtain l where h: "heap (pruned s) u = Some l"
    using runs_facts(4)[OF P rp] by (auto simp: live_def split: option.splits)
  let ?s = "ended c u l (pruned s)"
  have E: "sched_inv ?s" by (rule ended_inv[OF P rp h]) (simp add: pruned_def)
  have k: "cpus ?s c = Some (k\<lparr>executing_thread := None\<rparr>)"
    using rp by (simp add: ended_def push_all_frame Let_def runs_def)
  have "wait_and_pop c ?s = Inr s'" using x thread_exit_eq[OF current_runs[OF r] h] by simp
  then have d: "dispatched c ?s s'" using wait_and_pop_dispatched[OF E k] by simp
  have "joiners (pruned s) u = joiners s u"
    using pruned_queues[OF sched_invD(3)[OF i]] by (simp add: joiners_def del: queues_of.simps)
  then have "t \<in> set (threads_waiting l)" using h j by (simp add: joiners_def)
  then have "t \<in> set (ready_threads ?s)" by (simp add: ended_def push_all_frame Let_def)
  from dispatched_member[OF d this] k show ?thesis by simp
qed

text \<open>A thread that joins another waits until that one ends, and can then run.\<close>

lemma joiner_waits:
  assumes I: "lib_inv s" and S: "step s (c, e) s'" and j: "t \<in> set (joiners s u)"
  shows "t \<in> set (joiners s' u) \<or>
    e = Exit \<and> current c s = Some u \<and> live s' u = None \<and> (t \<in> set (ready_threads s') \<or> current c s' = Some t)"
  using S
proof (rule stepE)
  assume E: "enabled c e s" and R: "run_op c e s = Inr s'"
  note i = lib_invD(1)[OF I]
  show ?thesis
  proof (cases "current c s")
    case None
    obtain b where "e = Boot b" using no_current_boot[OF I E None] by blast
    then show ?thesis using cpu_boot_joiners[OF i, of c b s' u] R j by (simp add: run_op_def)
  next
    case (Some w)
    note J = run_op_join_effect[OF I E R Some]
    show ?thesis
    proof (cases "e = Exit \<and> w = u")
      case False
      then have "spec_join u w b e q = q \<or> (\<exists>x. spec_join u w b e q = q @ [x])" for b q by (cases e) auto
      then show ?thesis using J j unfolding join_effect_def by (metis UnCI set_append)
    next
      case True
      then obtain k where r: "runs s c u k"
        using E in_user_codeE[OF I, of c] current_runs Some by (simp add: enabled_def) (metis option.inject)
      have "live s' u = None" using J True runs_facts(4)[OF i r] by (simp add: join_effect_def)
      then show ?thesis
        using True Some exit_wakes[OF I r _ j, of s'] R by (simp add: run_op_def)
    qed
  qed
next
  assume "s' = s"
  then show ?thesis using j by simp
qed

subsection \<open>Leaving the queue of a mutex\<close>

lemma not_running_continuation:
  assumes I: "lib_inv s" and x: "live s t = Some (In_lock m)"
  shows "t \<in> set (queues_of s (QMutex m)) \<or> owners s m = Some t"
    and "current c s \<noteq> Some t"
proof -
  note i = sched_invD[OF lib_invD(1)[OF I]]
  obtain q where q: "t \<in> set (queues_of s q)" using placed_covers[OF i(1) x] by auto
  have "ctx_fits (owners s) q t (In_lock m)" using placed_ctx[OF i(1) q] x by simp
  then show "t \<in> set (queues_of s (QMutex m)) \<or> owners s m = Some t" using q by (cases q) auto
  show "current c s \<noteq> Some t"
  proof
    assume c: "current c s = Some t"
    have "ctx_of s t = Some (In_lock m)" using x by (auto simp: live_def ctx_of_def split: option.splits if_splits)
    from in_user_code_runs[OF I c this] obtain k where "runs s c t k" by auto
    from runs_facts(3)[OF lib_invD(1)[OF I] this] x show False by auto
  qed
qed

lemma owner_stays:
  assumes "spec_mutex m u e (Some t, q) = (w, q')" and "u \<noteq> t"
  shows "w = Some t"
  using assms by (cases e) (auto split: if_splits)

lemma head_becomes_owner:
  assumes "spec_mutex m u e (w, q) = (w', q')" and "t \<in> set q" and "t \<notin> set q'"
  shows "w' = Some t"
  using assms by (cases e; cases w) (auto split: if_splits list.splits)

lemma lock_returns:
  assumes I: "lib_inv s" and S: "step s (c, e) s'"
    and x: "live s t = Some (In_lock m)" and y: "live s' t = Some User"
  shows "owners s' m = Some t"
proof -
  note I' = step_keeps[OF I S]
  have q': "t \<notin> set (queues_of s' (QMutex m))"
    using placed_ctx[OF sched_invD(1)[OF lib_invD(1)[OF I']], of t "QMutex m"] y by auto
  have M: "mutex_state s' m = mutex_next s c e m" using step_refines[OF I S] by blast
  show ?thesis
  proof (cases "current c s")
    case None
    then show ?thesis
      using M not_running_continuation(1)[OF I x] q' by (auto simp: mutex_next_def mutex_state_def owners_def)
  next
    case (Some u)
    have "u \<noteq> t" using not_running_continuation(2)[OF I x] Some by auto
    have "spec_mutex m u e (owners s m, m_waiting_threads (mutexes s m))
        = (owners s' m, m_waiting_threads (mutexes s' m))"
      using M Some by (simp add: mutex_next_def mutex_state_def owners_def)
    then show ?thesis
      using not_running_continuation(1)[OF I x] owner_stays[OF _ \<open>u \<noteq> t\<close>] head_becomes_owner q'
      by (metis queues_of.simps(3))
  qed
qed

text \<open>A call of lock that has returned to its thread has made it the owner.\<close>

lemma lock_call:
  assumes I: "lib_inv s" and S: "step s (c, Lock m) s'" and c: "current c s = Some t"
    and y: "live s' t = Some User"
  shows "owners s' m = Some t"
proof -
  note I' = step_keeps[OF I S]
  have q': "t \<notin> set (queues_of s' (QMutex m))"
    using placed_ctx[OF sched_invD(1)[OF lib_invD(1)[OF I']], of t "QMutex m"] y by auto
  have "mutex_state s' m = spec_acquire t (mutex_state s m)"
    using step_refines[OF I S] c by (simp add: mutex_next_def)
  then show ?thesis
    using q' by (cases "owned_thread (mutexes s m)") (simp_all add: mutex_state_def owners_def)
qed

subsection \<open>Condition variables\<close>

lemma cv_woken:
  assumes I: "lib_inv s" and S: "step s (c, e) s'" and w: "t \<in> set (cvs s v)" and g: "t \<notin> set (cvs s' v)"
  shows "t \<in> set (ready_threads s')"
proof -
  have C: "cvs s' v = cv_next s c e v" using step_refines[OF I S] by blast
  then obtain u where u: "current c s = Some u" using w g by (cases "current c s") (simp_all add: cv_next_def)
  then have e: "e = Signal v \<or> e = Broadcast v"
    using C w g by (cases e) (auto simp: cv_next_def split: if_splits)
  have R: "run_op c e s = Inr s'"
    using S e by (auto elim!: stepE simp: run_op_def)
  show ?thesis
  proof (cases "e = Broadcast v")
    case True
    then show ?thesis using R w cv_broadcast_queues(3)[of v s] by (auto simp: run_op_def)
  next
    case False
    then have s': "s' = cv_signal v s" using R e by (auto simp: run_op_def)
    then have "cvs s' v = tl (cvs s v)" by (simp add: cv_signal_queues)
    then obtain ws where "cvs s v = t # ws" using w g by (cases "cvs s v") auto
    then show ?thesis using s' by (simp add: cv_signal_def)
  qed
qed

subsection \<open>Taking turns\<close>

primrec yields :: "nat \<Rightarrow> nat \<Rightarrow> lib \<Rightarrow> stop + lib" where
  "yields c 0 s = Inr s"
| "yields c (Suc n) s = bindr (yield c s) (yields c n)"

lemma yield_rotates:
  assumes I: "lib_inv s" and r: "runs s c t k"
  shows "\<exists>s' u k'. yield c s = Inr s' \<and> lib_inv s' \<and> runs s' c u k' \<and> u # ready_threads s' = rotate1 (t # ready_threads s)"
proof -
  note i = lib_invD(1)[OF I]
  have k: "cpus s c = Some k" "executing_thread k = Some t" "t \<noteq> waiting_thread k" using r by (simp_all add: runs_def)
  obtain s' where y: "yield c s = Inr s'" and I': "lib_inv s'" using yield_inv[OF I, of c] k(1) by auto
  show ?thesis
  proof (cases "ready_threads s")
    case Nil
    then have "s' = s" using y k by (simp add: yield_def)
    then show ?thesis using y I' r Nil by auto
  next
    case (Cons u us)
    obtain x where x: "live s u = Some x" "x \<noteq> Idle" "\<And>m. x = In_lock m \<Longrightarrow> \<not> free (mutexes s m)"
      using ready_thread_facts[OF i, of u] Cons by (metis list.set_intros(1))
    let ?s = "set_executing c (Some u) (s\<lparr>ready_threads := us @ [t]\<rparr>)"
    have "switch_to c u ?s = Inr (set_ctx u (resumed x) ?s)"
      using x by (intro switch_to_thread) (simp_all add: lib_view)
    then have s': "s' = set_ctx u (resumed x) ?s" using y k Cons by (simp add: yield_def)
    have "u \<noteq> waiting_thread k" using idle_not_queued[OF i k(1), of QReady] Cons by auto
    then have "runs s' c u (k\<lparr>executing_thread := Some u\<rparr>)" using s' k by (simp add: runs_def)
    moreover have "u # ready_threads s' = rotate1 (t # ready_threads s)" using s' Cons by simp
    ultimately show ?thesis using y I' by blast
  qed
qed

lemma yields_rotate:
  assumes "lib_inv s" and "runs s c t k"
  shows "\<exists>s' u k'. yields c n s = Inr s' \<and> lib_inv s' \<and> runs s' c u k' \<and> u # ready_threads s' = rotate n (t # ready_threads s)"
  using assms
proof (induction n arbitrary: s t k)
  case 0
  then show ?case by auto
next
  case (Suc n)
  obtain s1 u1 k1 where 1: "yield c s = Inr s1" "lib_inv s1" "runs s1 c u1 k1"
    "u1 # ready_threads s1 = rotate1 (t # ready_threads s)" using yield_rotates[OF Suc.prems] by blast
  from Suc.IH[OF 1(2,3)] show ?case using 1(1,4) by (simp add: rotate1_rotate_swap)
qed

end
