(* ===== verification/Thread_Properties.thy ===== *)
theory Thread_Properties
  imports Thread_Wake
begin

text \<open>
  The properties of the thread library, over every state that its critical sections reach from the
  start in any interleaving on any number of CPUs, each with a run that shows that its hypotheses can
  hold.
\<close>

subsection \<open>Example runs\<close>

primrec run_trace :: "(nat \<times> event) list \<Rightarrow> lib \<Rightarrow> lib option" where
  "run_trace [] s = Some s"
| "run_trace (ce # ces) s =
     (if enabled (fst ce) (snd ce) s
      then (case run_op (fst ce) (snd ce) s of Inl _ \<Rightarrow> None | Inr s' \<Rightarrow> run_trace ces s')
      else None)"

definition after :: "(nat \<times> event) list \<Rightarrow> lib" where
  "after ces = (case run_trace ces init_lib of None \<Rightarrow> init_lib | Some s \<Rightarrow> s)"

lemma reach_trace:
  assumes "reach init_lib step s" and "run_trace ces s = Some s'"
  shows "reach init_lib step s'"
  using assms
proof (induction ces arbitrary: s)
  case (Cons ce ces)
  obtain s1 where 1: "enabled (fst ce) (snd ce) s" "run_op (fst ce) (snd ce) s = Inr s1" "run_trace ces s1 = Some s'"
    using Cons.prems(2) by (auto split: if_splits sum.splits)
  have "step s (fst ce, snd ce) s1" by (rule step_op[OF 1(1,2)])
  from Cons.IH[OF reach_step[OF Cons.prems(1) this] 1(3)] show ?case .
qed simp

lemma reach_after: "reach init_lib step (after ces)"
proof (cases "run_trace ces init_lib")
  case None
  then show ?thesis by (simp add: after_def reach_start)
next
  case (Some s)
  then show ?thesis using reach_trace[OF reach_start Some] by (simp add: after_def)
qed

text \<open>
  CPU 0 runs the main thread 1, which creates thread 2; CPU 1 boots with idle thread 3 and takes
  thread 2.
\<close>

definition two_cpus :: "(nat \<times> event) list" where
  "two_cpus = [(0, Boot True), (0, Create), (1, Boot False)]"

lemma run_trace_append:
  "run_trace (as @ bs) s = (case run_trace as s of None \<Rightarrow> None | Some s' \<Rightarrow> run_trace bs s')"
  by (induction as arbitrary: s) (auto split: sum.splits)

lemma step_after:
  assumes "\<not> Option.is_none (run_trace (ces @ [(c, e)]) init_lib)"
  shows "step (after ces) (c, e) (after (ces @ [(c, e)]))"
proof -
  obtain s where s: "run_trace (ces @ [(c, e)]) init_lib = Some s" using assms by (auto simp: Option.is_none_def)
  then obtain s1 where 1: "run_trace ces init_lib = Some s1" by (auto simp: run_trace_append split: option.splits)
  have "enabled c e s1" "run_op c e s1 = Inr s"
    using s 1 by (auto simp: run_trace_append split: if_splits sum.splits)
  from step_op[OF this] show ?thesis using s 1 by (simp add: after_def)
qed

subsection \<open>Properties\<close>

text \<open>
  C23: In every reachable state every library call that a thread, a timer interrupt or an interrupt of
  another CPU can make runs to the end: no assertion fails, no thread object is used after its end,
  and the only exception is that of a thread that unlocks a mutex, or waits with a mutex, that it does
  not hold.
\<close>

theorem thread_calls_complete:
  assumes "reach init_lib step s" and "enabled c e s"
  shows "(\<exists>s'. run_op c e s = Inr s') \<or>
    run_op c e s = Inl (Runtime_error ''mutex::unlock called without holding the lock'') \<and>
    (\<exists>m t. (e = Unlock m \<or> (\<exists>v. e = Wait v m)) \<and> current c s = Some t \<and> owned_thread (mutexes s m) \<noteq> Some t)"
proof (cases "run_op c e s")
  case (Inl x)
  from run_op_throws[OF threads.inv_reach[OF assms(1)] assms(2) Inl] Inl show ?thesis
    by (simp add: not_held_def owners_def)
qed simp

theorem thread_calls_complete_witness:
  "enabled 0 (Unlock 7) (after two_cpus) \<and>
   run_op 0 (Unlock 7) (after two_cpus) = Inl (Runtime_error ''mutex::unlock called without holding the lock'')"
proof -
  have e: "enabled 0 (Unlock 7) (after two_cpus)" by code_simp
  have "isl (run_op 0 (Unlock 7) (after two_cpus))" by code_simp
  then show ?thesis using e thread_calls_complete[OF reach_after[of two_cpus] e] by auto
qed

text \<open>
  C24: No thread is lost or duplicated: in every reachable state a thread that exists, has not finished
  and is not the idle thread of a CPU is in exactly one place, once: the ready queue, one CPU, or the
  queue of one mutex, of one condition variable or of one thread that it joins.
\<close>

theorem thread_in_one_place:
  assumes "reach init_lib step s" and "heap s t = Some i" and "\<not> finished i" and "thread_ctx i \<noteq> Idle"
  shows "(\<exists>!q. t \<in> set (queues_of s q)) \<and> (\<forall>q. distinct (queues_of s q))"
proof -
  have P: "placed (queues_of s) (live s) (owners s)"
    by (rule sched_invD(1)[OF lib_invD(1)[OF threads.inv_reach[OF assms(1)]]])
  have "live s t = Some (thread_ctx i)" using assms(2,3) by (simp add: live_def)
  from placed_covers[OF P this assms(4)] obtain q where "t \<in> set (queues_of s q)" by blast
  then have "\<exists>!q. t \<in> set (queues_of s q)" using linear_unique[OF placed_linear[OF P]] by blast
  then show ?thesis using linear_distinct[OF placed_linear[OF P]] by simp
qed

theorem thread_in_one_place_witness:
  "(\<exists>!q. 2 \<in> set (queues_of (after two_cpus) q)) \<and> 2 \<in> set (queues_of (after two_cpus) (QExec 1))"
proof -
  have h: "(case heap (after two_cpus) 2 of None \<Rightarrow> False | Some i \<Rightarrow> \<not> finished i \<and> thread_ctx i = User)" by code_simp
  then obtain i where i: "heap (after two_cpus) 2 = Some i" "\<not> finished i" "thread_ctx i = User"
    by (auto split: option.splits)
  have "2 \<in> set (queues_of (after two_cpus) (QExec 1))" by code_simp
  then show ?thesis using thread_in_one_place[OF reach_after i(1,2)] i(3) by simp
qed

text \<open>
  C25: Mutual exclusion with first-come first-served hand-over: every step of every CPU acts on every
  mutex as the specification \<open>spec_mutex\<close> says.  A free mutex is given to the caller of lock, a later
  caller is queued; only the owner's own unlock or wait releases it, and then it goes to the first
  thread of the queue; nothing else changes the owner or the queue.
\<close>

theorem mutex_refines:
  assumes "reach init_lib step s" and "step s (c, e) s'"
  shows "mutex_state s' m = mutex_next s c e m"
  using step_refines[OF threads.inv_reach[OF assms(1)] assms(2)] by blast

theorem mutex_refines_witness:
  "mutex_state (after (two_cpus @ [(0, Lock 7), (1, Lock 7)])) 7 = (Some 1, [2]) \<and>
   mutex_state (after ((two_cpus @ [(0, Lock 7), (1, Lock 7)]) @ [(0, Unlock 7)])) 7 = (Some 2, [])"
proof -
  have s: "step (after (two_cpus @ [(0, Lock 7), (1, Lock 7)])) (0, Unlock 7)
      (after ((two_cpus @ [(0, Lock 7), (1, Lock 7)]) @ [(0, Unlock 7)]))"
    by (rule step_after) code_simp
  have "mutex_state (after (two_cpus @ [(0, Lock 7), (1, Lock 7)])) 7 = (Some 1, [2])"
    and "mutex_next (after (two_cpus @ [(0, Lock 7), (1, Lock 7)])) 0 (Unlock 7) 7 = (Some 2, [])" by code_simp+
  then show ?thesis using mutex_refines[OF reach_after s, of 7] by simp
qed

text \<open>
  C26: Condition variables: a wait with a held mutex queues the thread in the same step that releases
  the mutex, a signal takes the first waiting thread, a broadcast takes all, nothing else changes the
  queue; and a thread that is taken from the queue is in the ready queue after the step, so no wake-up
  is lost.
\<close>

theorem cv_refines:
  assumes "reach init_lib step s" and "step s (c, e) s'"
  shows "cvs s' v = cv_next s c e v \<and> set (cvs s v) - set (cvs s' v) \<subseteq> set (ready_threads s')"
  using step_refines[OF threads.inv_reach[OF assms(1)] assms(2)]
    cv_woken[OF threads.inv_reach[OF assms(1)] assms(2)] by blast

theorem cv_refines_witness:
  "cvs (after (two_cpus @ [(0, Lock 7), (0, Wait 4 7)])) 4 = [1] \<and>
   cvs (after ((two_cpus @ [(0, Lock 7), (0, Wait 4 7)]) @ [(1, Signal 4)])) 4 = [] \<and>
   1 \<in> set (ready_threads (after ((two_cpus @ [(0, Lock 7), (0, Wait 4 7)]) @ [(1, Signal 4)])))"
proof -
  let ?t = "two_cpus @ [(0, Lock 7), (0, Wait 4 7)]"
  have s: "step (after ?t) (1, Signal 4) (after (?t @ [(1, Signal 4)]))" by (rule step_after) code_simp
  have q: "cvs (after ?t) 4 = [1]" and n: "cv_next (after ?t) 1 (Signal 4) 4 = []" by code_simp+
  show ?thesis using cv_refines[OF reach_after s, of 4] q n by auto
qed

text \<open>
  A call of \<^verbatim>\<open>mutex::lock\<close> returns only to the owner: when it returns at once, and when the thread
  was suspended in it (also on the way out of \<^verbatim>\<open>cv::wait\<close>) and continues, the thread owns the mutex.
\<close>

theorem lock_returns_to_owner:
  assumes "reach init_lib step s" and "step s (c, e) s'"
    and "e = Lock m \<and> current c s = Some t \<or> live s t = Some (In_lock m)" and "live s' t = Some User"
  shows "owned_thread (mutexes s' m) = Some t"
  using assms lock_call[of s c m s' t] lock_returns[of s c e s' t m] threads.inv_reach[OF assms(1)]
  by (auto simp: owners_def)

theorem lock_returns_to_owner_witness:
  "live (after (two_cpus @ [(0, Lock 7), (1, Lock 7), (0, Unlock 7)])) 2 = Some (In_lock 7) \<and>
   owned_thread (mutexes (after ((two_cpus @ [(0, Lock 7), (1, Lock 7), (0, Unlock 7)]) @ [(1, Wakeup)])) 7) = Some 2"
proof -
  let ?t = "two_cpus @ [(0, Lock 7), (1, Lock 7), (0, Unlock 7)]"
  have s: "step (after ?t) (1, Wakeup) (after (?t @ [(1, Wakeup)]))" by (rule step_after) code_simp
  have x: "live (after ?t) 2 = Some (In_lock 7)" and y: "live (after (?t @ [(1, Wakeup)])) 2 = Some User" by code_simp+
  then show ?thesis using lock_returns_to_owner[OF reach_after s _ y, of 7] by simp
qed

text \<open>
  C27: No CPU sleeps while there is work for it: while a CPU is suspended there are at least as many
  interrupts under way to idle CPUs as ready threads.  So when every CPU is suspended, nothing is
  ready, and every thread that has not finished waits for a mutex, a condition variable or the end of
  another thread.
\<close>

theorem no_sleeping_with_work:
  assumes "reach init_lib step s"
  shows "(suspended_cpus s \<noteq> [] \<longrightarrow> length (ready_threads s) \<le> card (pending_ipis s)) \<and>
    (suspended_cpus s \<noteq> [] \<and> (\<forall>c. cpus s c \<noteq> None \<longrightarrow> c \<in> set (suspended_cpus s)) \<longrightarrow>
       ready_threads s = [] \<and>
       (\<forall>t x. live s t = Some x \<and> x \<noteq> Idle \<longrightarrow>
          (\<exists>m. t \<in> set (queues_of s (QMutex m))) \<or> (\<exists>v. t \<in> set (queues_of s (QCv v))) \<or>
          (\<exists>u. t \<in> set (queues_of s (QJoin u)))))"
proof -
  have I: "lib_inv s" by (rule threads.inv_reach[OF assms])
  note i = sched_invD[OF lib_invD(1)[OF I]]
  have b: "suspended_cpus s \<noteq> [] \<longrightarrow> length (ready_threads s) \<le> card (pending_ipis s)"
    using lib_invD(3)[OF I] by (simp add: served_def)
  show ?thesis
  proof (intro conjI impI)
    assume a: "suspended_cpus s \<noteq> [] \<and> (\<forall>c. cpus s c \<noteq> None \<longrightarrow> c \<in> set (suspended_cpus s))"
    have idle: "idle_cpu s c" if "cpus s c \<noteq> None" for c using that a i(6) by (auto simp: idle_ok_def)
    have "c \<notin> pending_ipis s" for c
      using i(6) a unfolding idle_ok_def idle_cpu_def by (metis IntI UnI2 empty_iff option.distinct(1))
    then have "pending_ipis s = {}" by blast
    then show r: "ready_threads s = []" using a b by simp
    have e: "queues_of s (QExec c) = []" for c
      using idle[of c] by (auto simp: idle_cpu_def split: option.splits)
    show "\<forall>t x. live s t = Some x \<and> x \<noteq> Idle \<longrightarrow>
        (\<exists>m. t \<in> set (queues_of s (QMutex m))) \<or> (\<exists>v. t \<in> set (queues_of s (QCv v))) \<or>
        (\<exists>u. t \<in> set (queues_of s (QJoin u)))"
    proof (intro allI impI)
      fix t x
      assume "live s t = Some x \<and> x \<noteq> Idle"
      then obtain q where "t \<in> set (queues_of s q)" using placed_covers[OF i(1)] by blast
      then show "(\<exists>m. t \<in> set (queues_of s (QMutex m))) \<or> (\<exists>v. t \<in> set (queues_of s (QCv v))) \<or>
          (\<exists>u. t \<in> set (queues_of s (QJoin u)))"
        using r e by (cases q) (auto simp del: queues_of.simps(2-5))
    qed
  qed (use b in blast)
qed

theorem no_sleeping_with_work_witness:
  "suspended_cpus (after [(0, Boot True), (0, Lock 7), (0, Lock 7)]) = [0] \<and>
   length (ready_threads (after [(0, Boot True), (0, Lock 7), (0, Lock 7)]))
     \<le> card (pending_ipis (after [(0, Boot True), (0, Lock 7), (0, Lock 7)]))"
proof -
  have "suspended_cpus (after [(0, Boot True), (0, Lock 7), (0, Lock 7)]) = [0]" by code_simp
  then show ?thesis using no_sleeping_with_work[OF reach_after[of "[(0, Boot True), (0, Lock 7), (0, Lock 7)]"]] by simp
qed

text \<open>
  A thread that joins another stays in that thread's queue until that thread ends; the step that
  ends it makes every thread that joins it ready or runs it.
\<close>

theorem join_waits_for_end:
  assumes "reach init_lib step s" and "step s (c, e) s'" and "t \<in> set (joiners s u)"
  shows "t \<in> set (joiners s' u) \<or>
    e = Exit \<and> current c s = Some u \<and> live s' u = None \<and> (t \<in> set (ready_threads s') \<or> current c s' = Some t)"
  by (rule joiner_waits[OF threads.inv_reach[OF assms(1)] assms(2,3)])

theorem join_waits_for_end_witness:
  "1 \<in> set (joiners (after (two_cpus @ [(0, Join 2)])) 2) \<and>
   current 1 (after ((two_cpus @ [(0, Join 2)]) @ [(1, Exit)])) = Some 1"
proof -
  let ?t = "two_cpus @ [(0, Join 2)]"
  have s: "step (after ?t) (1, Exit) (after (?t @ [(1, Exit)]))" by (rule step_after) code_simp
  have j: "1 \<in> set (joiners (after ?t) 2)" and n: "joiners (after (?t @ [(1, Exit)])) 2 = []"
    and r: "ready_threads (after (?t @ [(1, Exit)])) = []" by code_simp+
  show ?thesis using join_waits_for_end[OF reach_after s j] j n r by simp
qed

text \<open>
  Round robin: when the threads of one CPU only yield, \<open>n\<close> yields rotate the running thread and
  the ready queue \<open>n\<close> times, so each ready thread runs in its turn and none overtakes another.
\<close>

theorem yields_take_turns:
  assumes "reach init_lib step s" and "in_user_code c s" and "current c s = Some t"
  shows "\<exists>s' u. yields c n s = Inr s' \<and> current c s' = Some u \<and> u # ready_threads s' = rotate n (t # ready_threads s)"
proof -
  have I: "lib_inv s" by (rule threads.inv_reach[OF assms(1)])
  from assms(2,3) have "ctx_of s t = Some User" by (simp add: in_user_code_def)
  from in_user_code_runs[OF I assms(3) this] obtain k where "runs s c t k" by auto
  from yields_rotate[OF I this, of n] show ?thesis using current_runs by blast
qed

theorem yields_take_turns_witness:
  "\<exists>s'. yields 0 2 (after [(0, Boot True), (0, Create), (0, Create)]) = Inr s' \<and>
     current 0 s' = Some 3 \<and> ready_threads s' = [1, 2]"
proof -
  let ?s = "after [(0, Boot True), (0, Create), (0, Create)]"
  have u: "in_user_code 0 ?s" and c: "current 0 ?s = Some 1" and r: "ready_threads ?s = [2, 3]" by code_simp+
  show ?thesis using yields_take_turns[OF reach_after u c, of 2] r by (auto simp: numeral_2_eq_2)
qed

end
