(* ===== verification/Pager_State.thy ===== *)
theory Pager_State
  imports Prelude "HOL-Library.Signed_Division"
begin

text \<open>
  The data of the pager of \<^verbatim>\<open>src/vmpager\<close>: page tables, memory blocks, process information and the
  global queues and tables of \<^verbatim>\<open>utils.h\<close>.  A \<^verbatim>\<open>mem_block\<close> is shared by the virtual pages that show the
  same data, so blocks live in a store and are named by their address; the pinned zero page has
  address 0.  A pointer to a page table entry is the process and the index of the entry.  A page of
  data is a function from offsets to bytes.  The files and the swap file belong to the infrastructure:
  they are the parameter \<open>pager_env\<close>.
\<close>

subsection \<open>Constants\<close>

definition VM_PAGESIZE :: nat where
  "VM_PAGESIZE = 65536"

definition VM_ARENA_BASEADDR :: nat where
  "VM_ARENA_BASEADDR = 25769803776"

definition VM_ARENA_SIZE :: nat where
  "VM_ARENA_SIZE = 16777216"

definition num_virt_addr :: nat where
  "num_virt_addr = VM_ARENA_SIZE div VM_PAGESIZE"

lemma num_virt_addr: "num_virt_addr = 256"
  by (simp add: num_virt_addr_def VM_ARENA_SIZE_def VM_PAGESIZE_def)

subsection \<open>Structures\<close>

type_synonym page = "nat \<Rightarrow> char"
type_synonym pte_ptr = "nat \<times> nat"

record page_table_entry_t =
  ppage :: nat
  read_enable :: bool
  write_enable :: bool

datatype block_type = T_phys | T_swap | T_file

record mem_block =
  dirty :: bool
  referenced :: bool
  resident :: bool
  is_swap :: bool
  swap_blocks :: "nat list"
  ptes :: "pte_ptr list"
  location :: nat
  btype :: block_type
  filename :: string
  block_num :: nat

record kernel_page_info =
  valid :: bool
  data_location :: "nat option"

record kernel_process_info =
  page_info_table :: "nat \<Rightarrow> kernel_page_info"
  page_table :: "nat \<Rightarrow> page_table_entry_t"
  next_invalid_page :: nat
  num_swap_blocks :: nat

text \<open>
  The global variables, with the store of memory blocks, the physical memory and the backing files.
\<close>

record 'd pager =
  process_info_mp :: "nat \<rightharpoonup> kernel_process_info"
  free_mem_blocks :: "nat list"
  clock_queue :: "nat list"
  free_swap_blocks :: "nat list"
  curr_pid :: nat
  file_mapping_table :: "string \<times> nat \<rightharpoonup> nat"
  page_table_base_register :: "nat option"
  blocks :: "nat \<Rightarrow> mem_block"
  next_block :: nat
  physmem :: "nat \<Rightarrow> page"
  tmp_buffer :: page
  disk :: 'd

text \<open>
  \<open>file_read\<close> and \<open>file_write\<close> of the infrastructure (\<open>None\<close> names the swap file), the element at which
  the iteration over a nonempty \<^verbatim>\<open>unordered_set\<close> begins, and the values that a new
  \<^verbatim>\<open>kernel_process_info\<close> may happen to have in \<^verbatim>\<open>num_swap_blocks\<close>, which its constructor does not set.
\<close>

record 'd pager_env =
  file_read :: "'d \<Rightarrow> string option \<Rightarrow> nat \<Rightarrow> page option"
  file_write :: "'d \<Rightarrow> string option \<Rightarrow> nat \<Rightarrow> page \<Rightarrow> 'd"
  set_begin :: "pte_ptr list \<Rightarrow> pte_ptr"
  uninitialised :: "nat set"

definition zero_page :: nat where
  "zero_page = 0"

text \<open>The bit field \<^verbatim>\<open>ppage\<close> has 30 bits.\<close>

definition bits30 :: "nat \<Rightarrow> nat" where
  "bits30 n = n mod 2 ^ 30"

text \<open>
  The pager finds a physical page at the offset \<^verbatim>\<open>location * VM_PAGESIZE\<close>, a product of 32-bit numbers that
  wraps around: the page that it reaches.
\<close>

definition phys_page :: "nat \<Rightarrow> nat" where
  "phys_page location_in = (location_in * VM_PAGESIZE) mod 2 ^ 32 div VM_PAGESIZE"

subsection \<open>Constructors\<close>

text \<open>\<open>is_swap\<close> is set for the zero page only; \<open>garbage\<close> is what it holds otherwise.\<close>

definition new_mem_block :: "bool \<Rightarrow> nat \<Rightarrow> block_type \<Rightarrow> mem_block" where
  "new_mem_block garbage location_in type_in =
     \<lparr>dirty = False, referenced = True, resident = True,
      is_swap = (if location_in = 0 \<and> type_in = T_phys then True else garbage),
      swap_blocks = [], ptes = [], location = location_in, btype = type_in, filename = [], block_num = 0\<rparr>"

definition new_kernel_page_info :: kernel_page_info where
  "new_kernel_page_info = \<lparr>valid = False, data_location = None\<rparr>"

definition new_kernel_process_info :: "nat \<Rightarrow> kernel_process_info" where
  "new_kernel_process_info garbage =
     \<lparr>page_info_table = (\<lambda>_. new_kernel_page_info),
      page_table = (\<lambda>_. \<lparr>ppage = 0, read_enable = False, write_enable = False\<rparr>),
      next_invalid_page = 0, num_swap_blocks = garbage\<rparr>"

text \<open>The global variables when the program starts.\<close>

definition start_pager :: "(nat \<Rightarrow> page) \<Rightarrow> 'd \<Rightarrow> 'd pager" where
  "start_pager mem d =
     \<lparr>process_info_mp = Map.empty, free_mem_blocks = [], clock_queue = [], free_swap_blocks = [],
      curr_pid = 0, file_mapping_table = Map.empty, page_table_base_register = None,
      blocks = (\<lambda>_. new_mem_block False 0 T_phys), next_block = 1, physmem = mem,
      tmp_buffer = (\<lambda>_. CHR 0x00), disk = d\<rparr>"

subsection \<open>Access to the structures\<close>

definition upd_block :: "nat \<Rightarrow> (mem_block \<Rightarrow> mem_block) \<Rightarrow> 'd pager \<Rightarrow> 'd pager" where
  "upd_block b f s = s\<lparr>blocks := (blocks s)(b := f (blocks s b))\<rparr>"

definition pte_at :: "'d pager \<Rightarrow> pte_ptr \<Rightarrow> page_table_entry_t option" where
  "pte_at s x = (case process_info_mp s (fst x) of None \<Rightarrow> None | Some k \<Rightarrow> Some (page_table k (snd x)))"

definition upd_pte_set :: "pte_ptr set \<Rightarrow> (page_table_entry_t \<Rightarrow> page_table_entry_t) \<Rightarrow> 'd pager \<Rightarrow> 'd pager" where
  "upd_pte_set X f s =
     s\<lparr>process_info_mp := (\<lambda>p. map_option
         (\<lambda>k. k\<lparr>page_table := (\<lambda>i. if (p, i) \<in> X then f (page_table k i) else page_table k i)\<rparr>)
         (process_info_mp s p))\<rparr>"

text \<open>
  A loop over the entries that depend on a block; an entry of a process that is gone would be a
  dangling pointer.
\<close>

definition for_ptes :: "nat \<Rightarrow> (page_table_entry_t \<Rightarrow> page_table_entry_t) \<Rightarrow> 'd pager \<Rightarrow> stop + 'd pager" where
  "for_ptes b f s =
     (if list_all (\<lambda>x. process_info_mp s (fst x) \<noteq> None) (ptes (blocks s b))
      then Inr (upd_pte_set (set (ptes (blocks s b))) f s) else Inl Undefined_behaviour)"

text \<open>An assignment through \<^verbatim>\<open>page_table_base_register[index]\<close> or another entry pointer.\<close>

definition set_pte :: "pte_ptr \<Rightarrow> (page_table_entry_t \<Rightarrow> page_table_entry_t) \<Rightarrow> 'd pager \<Rightarrow> stop + 'd pager" where
  "set_pte x f s =
     (if process_info_mp s (fst x) = None \<or> snd x \<ge> num_virt_addr then Inl Undefined_behaviour
      else Inr (upd_pte_set {x} f s))"

definition set_insert :: "'a \<Rightarrow> 'a list \<Rightarrow> 'a list" where
  "set_insert x xs = (if x \<in> set xs then xs else xs @ [x])"

definition set_process :: "nat \<Rightarrow> (kernel_process_info \<Rightarrow> kernel_process_info) \<Rightarrow> 'd pager \<Rightarrow> 'd pager" where
  "set_process p f s = s\<lparr>process_info_mp := (process_info_mp s)(p := map_option f (process_info_mp s p))\<rparr>"

definition set_page_info :: "nat \<Rightarrow> nat \<Rightarrow> (kernel_page_info \<Rightarrow> kernel_page_info) \<Rightarrow> 'd pager \<Rightarrow> 'd pager" where
  "set_page_info p i f =
     set_process p (\<lambda>k. k\<lparr>page_info_table := (page_info_table k)(i := f (page_info_table k i))\<rparr>)"

text \<open>Dereferencing \<^verbatim>\<open>process_info_mp[pid]\<close>, \<^verbatim>\<open>data_location\<close>, and the ends of a queue.\<close>

definition process_at :: "nat \<Rightarrow> 'd pager \<Rightarrow> stop + kernel_process_info" where
  "process_at p s = (case process_info_mp s p of None \<Rightarrow> Inl Undefined_behaviour | Some k \<Rightarrow> Inr k)"

definition page_info_at :: "kernel_process_info \<Rightarrow> nat \<Rightarrow> stop + kernel_page_info" where
  "page_info_at k i = (if i < num_virt_addr then Inr (page_info_table k i) else Inl Undefined_behaviour)"

definition deref :: "nat option \<Rightarrow> stop + nat" where
  "deref x = (case x of None \<Rightarrow> Inl Undefined_behaviour | Some b \<Rightarrow> Inr b)"

definition front :: "'a list \<Rightarrow> stop + 'a" where
  "front xs = (case xs of [] \<Rightarrow> Inl Undefined_behaviour | x # _ \<Rightarrow> Inr x)"

definition back_of :: "'a list \<Rightarrow> stop + 'a" where
  "back_of xs = (if xs = [] then Inl Undefined_behaviour else Inr (last xs))"

definition base_register :: "'d pager \<Rightarrow> stop + nat" where
  "base_register s =
     (case page_table_base_register s of
        None \<Rightarrow> Inl Undefined_behaviour
      | Some p \<Rightarrow> if process_info_mp s p = None then Inl Undefined_behaviour else Inr p)"

subsection \<open>Addresses\<close>

definition ptr_diff :: "nat \<Rightarrow> nat \<Rightarrow> int" where
  "ptr_diff a b = (int a - int b + 2 ^ 63) mod 2 ^ 64 - 2 ^ 63"

definition addr_to_index :: "nat \<Rightarrow> nat" where
  "addr_to_index addr = nat ((ptr_diff addr VM_ARENA_BASEADDR sdiv int VM_PAGESIZE) mod 2 ^ 32)"

definition index_to_addr :: "nat \<Rightarrow> nat" where
  "index_to_addr index = VM_ARENA_BASEADDR + (index * VM_PAGESIZE) mod 2 ^ 32"

definition calculate_page_offset :: "nat \<Rightarrow> nat" where
  "calculate_page_offset addr = addr mod VM_PAGESIZE"

end
