(* ===== verification/Pager_Core.thy ===== *)
theory Pager_Core
  imports Pager_State
begin

text \<open>
  The operations of the pager, in the order of \<^verbatim>\<open>utils.cpp\<close> and \<^verbatim>\<open>vm_pager.cpp\<close>.  A call ends with a
  new state (and its result), or with the reason why it has none: a failed assertion, or undefined
  behaviour such as the front of an empty queue, a null pointer or a dangling one.
\<close>

subsection \<open>Eviction\<close>

definition disable :: "page_table_entry_t \<Rightarrow> page_table_entry_t" where
  "disable e = e\<lparr>read_enable := False, write_enable := False\<rparr>"

text \<open>The loop of the clock: a referenced block loses its mark and goes to the end of the queue.\<close>

function second_chance :: "'d pager \<Rightarrow> stop + 'd pager" where
  "second_chance s =
     (case clock_queue s of
        [] \<Rightarrow> Inl Undefined_behaviour
      | b # rest \<Rightarrow>
          if \<not> referenced (blocks s b) then Inr s
          else (case for_ptes b disable s of
              Inl e \<Rightarrow> Inl e
            | Inr s' \<Rightarrow> second_chance ((upd_block b (\<lambda>x. x\<lparr>referenced := False\<rparr>) s')\<lparr>clock_queue := rest @ [b]\<rparr>)))"
  by pat_completeness auto
termination
proof (relation "measure (\<lambda>s. card {b \<in> set (clock_queue s). referenced (blocks s b)})")
  fix s :: "'d pager" and b rest s'
  assume a: "clock_queue s = b # rest" "\<not> \<not> referenced (blocks s b)" "for_ptes b disable s = Inr s'"
  have s': "blocks s' = blocks s" using a(3) by (auto simp: for_ptes_def upd_pte_set_def split: if_splits)
  let ?s = "upd_block b (\<lambda>x. x\<lparr>referenced := False\<rparr>) s'\<lparr>clock_queue := rest @ [b]\<rparr>"
  have "{c \<in> set (clock_queue ?s). referenced (blocks ?s c)} \<subset> {c \<in> set (clock_queue s). referenced (blocks s c)}"
    using a(1,2) s' by (auto simp: upd_block_def)
  then have "card {c \<in> set (clock_queue ?s). referenced (blocks ?s c)} < card {c \<in> set (clock_queue s). referenced (blocks s c)}"
    by (intro psubset_card_mono) auto
  then show "(?s, s) \<in> measure (\<lambda>s. card {b \<in> set (clock_queue s). referenced (blocks s b)})" by simp
qed simp

declare second_chance.simps [simp del]

definition write_back :: "'d pager_env \<Rightarrow> bool \<Rightarrow> string option \<Rightarrow> nat \<Rightarrow> nat \<Rightarrow> 'd pager \<Rightarrow> 'd pager" where
  "write_back E should_write name file_block mem_page s =
     (if should_write then s\<lparr>disk := file_write E (disk s) name file_block (physmem s (phys_page mem_page))\<rparr> else s)"

definition evict_block :: "'d pager_env \<Rightarrow> nat \<Rightarrow> 'd pager \<Rightarrow> stop + 'd pager" where
  "evict_block E b s =
     bindr (for_ptes b disable s) (\<lambda>s.
     let x = blocks s b
     in if btype x \<noteq> T_phys then Inl Assertion_failed
        else let s = s\<lparr>free_mem_blocks := free_mem_blocks s @ [location x]\<rparr>;
                 out = (\<lambda>t l. upd_block b (\<lambda>x. x\<lparr>resident := False, dirty := False, referenced := False,
                                                btype := t, location := l\<rparr>))
             in if \<not> is_swap x then
                  let s = out T_file (block_num x) s;
                      s = (if ptes x = [] then s\<lparr>file_mapping_table := (file_mapping_table s)((filename x, block_num x) := None)\<rparr>
                           else s)
                  in Inr (write_back E (dirty x) (Some (filename x)) (block_num x) (location x) s)
                else bindr (front (swap_blocks x)) (\<lambda>l.
                  Inr (write_back E (dirty x) None l (location x) (out T_swap l s))))"

definition evict_phys_page :: "'d pager_env \<Rightarrow> 'd pager \<Rightarrow> stop + 'd pager" where
  "evict_phys_page E s =
     bindr (front (clock_queue s)) (\<lambda>b.
     if btype (blocks s b) \<noteq> T_phys then Inl Assertion_failed
     else bindr (second_chance s) (\<lambda>s.
     bindr (front (clock_queue s)) (\<lambda>b.
     evict_block E b (s\<lparr>clock_queue := tl (clock_queue s)\<rparr>))))"

subsection \<open>Faults\<close>

definition cached :: "nat \<Rightarrow> page_table_entry_t \<Rightarrow> page_table_entry_t" where
  "cached loc e = e\<lparr>ppage := bits30 loc, read_enable := True, write_enable := False\<rparr>"

definition ensure_free :: "'d pager_env \<Rightarrow> 'd pager \<Rightarrow> stop + 'd pager" where
  "ensure_free E s = (if free_mem_blocks s = [] then evict_phys_page E s else Inr s)"

text \<open>A read that fails leaves the free page as it was; nothing looks at it before it is filled.\<close>

definition cache_nonresident_page :: "'d pager_env \<Rightarrow> nat \<Rightarrow> 'd pager \<Rightarrow> stop + (int \<times> 'd pager)" where
  "cache_nonresident_page E b s =
     (if resident (blocks s b) then Inl Assertion_failed
      else if btype (blocks s b) = T_phys then Inl Assertion_failed
      else bindr (ensure_free E s) (\<lambda>s.
        bindr (front (free_mem_blocks s)) (\<lambda>updated_mem_location.
        let x = blocks s b
        in case file_read E (disk s) (if is_swap x then None else Some (filename x)) (location x) of
             None \<Rightarrow> Inr (- 1, s)
           | Some pg \<Rightarrow>
               let s = s\<lparr>physmem := (physmem s)(phys_page updated_mem_location := pg),
                         free_mem_blocks := tl (free_mem_blocks s), clock_queue := clock_queue s @ [b]\<rparr>;
                   s = upd_block b (\<lambda>x. x\<lparr>btype := T_phys, referenced := True, resident := True, dirty := False,
                                          location := updated_mem_location\<rparr>) s
               in bindr (for_ptes b (cached updated_mem_location) s) (\<lambda>s. Inr (0, s)))))"

definition read_fault_handler :: "nat \<Rightarrow> 'd pager \<Rightarrow> stop + 'd pager" where
  "read_fault_handler b s =
     (let x = blocks s b
      in bindr (if dirty x \<and> (is_swap x \<and> length (ptes x) = 1 \<or> \<not> is_swap x)
                then for_ptes b (\<lambda>e. e\<lparr>write_enable := True\<rparr>) s else Inr s) (\<lambda>s.
         for_ptes b (\<lambda>e. e\<lparr>read_enable := True\<rparr>) (upd_block b (\<lambda>x. x\<lparr>referenced := True, resident := True\<rparr>) s)))"

definition write_fault_handler :: "nat \<Rightarrow> 'd pager \<Rightarrow> stop + 'd pager" where
  "write_fault_handler b s =
     bindr (for_ptes b (\<lambda>e. e\<lparr>write_enable := True\<rparr>) s) (\<lambda>s.
     Inr (upd_block b (\<lambda>x. x\<lparr>dirty := True\<rparr>) s))"

definition update_block_permissions :: "nat \<Rightarrow> 'd pager \<Rightarrow> stop + 'd pager" where
  "update_block_permissions b s =
     (let x = blocks s b
      in if dirty x \<and> length (ptes x) = 1 \<and> referenced x
         then for_ptes b (\<lambda>e. e\<lparr>write_enable := True, read_enable := True\<rparr>) s else Inr s)"

definition is_copy_on_writable :: "mem_block \<Rightarrow> bool" where
  "is_copy_on_writable x \<longleftrightarrow> (location x = 0 \<or> length (ptes x) > 1) \<and> is_swap x"

definition copy_block_handler :: "nat \<Rightarrow> nat \<Rightarrow> 'd pager \<Rightarrow> stop + 'd pager" where
  "copy_block_handler p i s =
     bindr (process_at p s) (\<lambda>k.
     bindr (page_info_at k i) (\<lambda>info.
     bindr (deref (data_location info)) (\<lambda>old_block.
     bindr (front (free_mem_blocks s)) (\<lambda>loc.
     bindr (back_of (swap_blocks (blocks s old_block))) (\<lambda>sb.
     let a = next_block s;
         s = s\<lparr>blocks := (blocks s)(a := (new_mem_block True loc T_phys)
                 \<lparr>is_swap := True, swap_blocks := [sb], ptes := [(p, i)], dirty := True, resident := True,
                  referenced := True\<rparr>), next_block := a + 1\<rparr>;
         s = set_page_info p i (\<lambda>info. info\<lparr>data_location := Some a\<rparr>) s;
         s = upd_block old_block (\<lambda>x. x\<lparr>swap_blocks := butlast (swap_blocks x)\<rparr>) s
     in bindr (set_pte (p, i) (\<lambda>e. e\<lparr>ppage := bits30 loc\<rparr>) s) (\<lambda>s.
        Inr (s\<lparr>free_mem_blocks := tl (free_mem_blocks s), clock_queue := clock_queue s @ [a],
               physmem := (physmem s)(phys_page loc := tmp_buffer s)\<rparr>)))))))"

definition copy_on_write :: "'d pager_env \<Rightarrow> nat \<Rightarrow> nat \<Rightarrow> nat \<Rightarrow> 'd pager \<Rightarrow> stop + 'd pager" where
  "copy_on_write E p i old_block s =
     bindr (read_fault_handler old_block s) (\<lambda>s.
     let old_phys_addr = location (blocks s old_block)
     in bindr (base_register s) (\<lambda>r.
        let s = upd_block old_block (\<lambda>x. x\<lparr>ptes := removeAll (r, i) (ptes x)\<rparr>) s
        in bindr (update_block_permissions old_block s) (\<lambda>s.
           let s = s\<lparr>tmp_buffer := physmem s (phys_page old_phys_addr)\<rparr>
           in bindr (ensure_free E s) (copy_block_handler p i))))"

text \<open>The block that a page shows, looked up again after each call that may change it.\<close>

definition block_of :: "nat \<Rightarrow> nat \<Rightarrow> 'd pager \<Rightarrow> stop + nat" where
  "block_of p i s = bindr (process_at p s) (\<lambda>k. bindr (page_info_at k i) (\<lambda>info. deref (data_location info)))"

definition write_part :: "'d pager_env \<Rightarrow> nat \<Rightarrow> nat \<Rightarrow> 'd pager \<Rightarrow> stop + 'd pager" where
  "write_part E p i s =
     bindr (block_of p i s) (\<lambda>b.
     bindr (if is_copy_on_writable (blocks s b) then copy_on_write E p i b s else Inr s) (\<lambda>s.
     bindr (block_of p i s) (\<lambda>b. write_fault_handler b s)))"

definition vm_fault :: "'d pager_env \<Rightarrow> nat \<Rightarrow> bool \<Rightarrow> 'd pager \<Rightarrow> stop + (int \<times> 'd pager)" where
  "vm_fault E addr write_flag s =
     (let p = curr_pid s; i = addr_to_index addr
      in bindr (process_at p s) (\<lambda>k.
         if i \<ge> next_invalid_page k then Inr (- 1, s)
         else bindr (page_info_at k i) (\<lambda>info.
         if \<not> valid info then Inr (- 1, s)
         else bindr (deref (data_location info)) (\<lambda>b.
         bindr (if resident (blocks s b) then Inr (0, s) else cache_nonresident_page E b s) (\<lambda>(success, s).
         if success = - 1 then Inr (- 1, s)
         else bindr (if write_flag then write_part E p i s else Inr s) (\<lambda>s.
              bindr (block_of p i s) (\<lambda>b.
              bindr (read_fault_handler b s) (\<lambda>s. Inr (0, s)))))))))"

end
