(* ===== verification/Pager_Ops.thy ===== *)
theory Pager_Ops
  imports Pager_Core
begin

text \<open>
  The calls of the infrastructure other than \<^verbatim>\<open>vm_fault\<close>: initialisation, creation, switch and end of
  processes, mapping of pages.  Then the part of the MMU that the header documents.
\<close>

subsection \<open>Processes\<close>

definition vm_init :: "nat \<Rightarrow> nat \<Rightarrow> 'd pager \<Rightarrow> stop + 'd pager" where
  "vm_init memory_pages n_swap s =
     (let s = s\<lparr>free_mem_blocks := free_mem_blocks s @ [1..<memory_pages],
                free_swap_blocks := free_swap_blocks s @ [0..<n_swap]\<rparr>
      in if length (free_swap_blocks s) \<noteq> n_swap then Inl Assertion_failed
         else Inr (s\<lparr>physmem := (physmem s)(0 := (\<lambda>_. CHR 0x00))\<rparr>))"

definition copy_virtual_page :: "nat \<Rightarrow> nat \<Rightarrow> nat \<Rightarrow> 'd pager \<Rightarrow> stop + 'd pager" where
  "copy_virtual_page parent child page_num s =
     bindr (process_at parent s) (\<lambda>parent_info.
     bindr (page_info_at parent_info page_num) (\<lambda>info.
     let s = set_page_info child page_num (\<lambda>i. i\<lparr>valid := True\<rparr>) s;
         e = page_table parent_info page_num
     in bindr (set_pte (child, page_num) (\<lambda>c. c\<lparr>ppage := ppage e\<rparr>) s) (\<lambda>s.
        bindr (deref (data_location info)) (\<lambda>b.
        let s = set_page_info child page_num (\<lambda>i. i\<lparr>data_location := Some b\<rparr>) s;
            s = upd_block b (\<lambda>x. x\<lparr>ptes := set_insert (child, page_num) (ptes x)\<rparr>) s
        in bindr (set_pte (child, page_num) (\<lambda>c. c\<lparr>read_enable := read_enable e\<rparr>) s) (\<lambda>s.
           if is_swap (blocks s b) then
             bindr (front (free_swap_blocks s)) (\<lambda>sb.
             let s = upd_block b (\<lambda>x. x\<lparr>swap_blocks := swap_blocks x @ [sb]\<rparr>) s;
                 s = s\<lparr>free_swap_blocks := tl (free_swap_blocks s)\<rparr>
             in if b = zero_page then Inr s else for_ptes b (\<lambda>c. c\<lparr>write_enable := False\<rparr>) s)
           else set_pte (child, page_num) (\<lambda>c. c\<lparr>write_enable := write_enable e\<rparr>) s)))))"

primrec copy_pages :: "nat \<Rightarrow> nat \<Rightarrow> nat list \<Rightarrow> 'd pager \<Rightarrow> stop + 'd pager" where
  "copy_pages parent child [] s = Inr s"
| "copy_pages parent child (i # is) s = bindr (copy_virtual_page parent child i s) (copy_pages parent child is)"

text \<open>\<open>garbage\<close> is what the memory of the new \<^verbatim>\<open>kernel_process_info\<close> holds in the member that is not set.\<close>

definition vm_create :: "nat \<Rightarrow> nat \<Rightarrow> nat \<Rightarrow> 'd pager \<Rightarrow> stop + (int \<times> 'd pager)" where
  "vm_create garbage parent_pid child_pid s =
     (let s = s\<lparr>process_info_mp := (process_info_mp s)(child_pid \<mapsto> new_kernel_process_info garbage)\<rparr>
      in case process_info_mp s parent_pid of
           None \<Rightarrow> Inr (0, s)
         | Some parent_info \<Rightarrow>
             if num_swap_blocks parent_info > length (free_swap_blocks s) then Inr (- 1, s)
             else let s = set_process child_pid (\<lambda>k. k\<lparr>num_swap_blocks := num_swap_blocks parent_info,
                                                        next_invalid_page := next_invalid_page parent_info\<rparr>) s
                  in bindr (copy_pages parent_pid child_pid [0..<next_invalid_page parent_info] s) (\<lambda>s. Inr (0, s)))"

definition vm_switch :: "nat \<Rightarrow> 'd pager \<Rightarrow> 'd pager" where
  "vm_switch pid s =
     (if process_info_mp s pid = None then s
      else s\<lparr>curr_pid := pid, page_table_base_register := Some pid\<rparr>)"

text \<open>One pass of the loop of \<^verbatim>\<open>vm_destroy\<close>; the locations that are freed are collected.\<close>

definition destroy_page :: "nat \<Rightarrow> nat \<Rightarrow> nat list \<times> 'd pager \<Rightarrow> stop + (nat list \<times> 'd pager)" where
  "destroy_page p i = (\<lambda>(useless, s).
     bindr (block_of p i s) (\<lambda>b.
     bindr (base_register s) (\<lambda>r.
     let s = upd_block b (\<lambda>x. x\<lparr>ptes := removeAll (r, i) (ptes x)\<rparr>) s;
         x = blocks s b
     in if \<not> is_swap x then
          Inr (useless,
               if ptes x = [] \<and> \<not> resident x
               then s\<lparr>file_mapping_table := (file_mapping_table s)((filename x, block_num x) := None)\<rparr> else s)
        else bindr (back_of (swap_blocks x)) (\<lambda>sb.
          let s = s\<lparr>free_swap_blocks := free_swap_blocks s @ [sb]\<rparr>;
              s = upd_block b (\<lambda>x. x\<lparr>swap_blocks := butlast (swap_blocks x)\<rparr>) s
          in if \<not> resident x \<or> b = zero_page then Inr (useless, s)
             else bindr (update_block_permissions b s) (\<lambda>s.
               if ptes (blocks s b) = []
               then Inr (set_insert (location x) useless, s\<lparr>free_mem_blocks := free_mem_blocks s @ [location x]\<rparr>)
               else Inr (useless, s))))))"

primrec destroy_pages :: "nat \<Rightarrow> nat list \<Rightarrow> nat list \<times> 'd pager \<Rightarrow> stop + (nat list \<times> 'd pager)" where
  "destroy_pages p [] us = Inr us"
| "destroy_pages p (i # is) us = bindr (destroy_page p i us) (destroy_pages p is)"

text \<open>The loop that turns the clock queue once, dropping the blocks that are not useful.\<close>

primrec inspect_loop :: "(nat \<Rightarrow> bool) \<Rightarrow> nat \<Rightarrow> nat list \<Rightarrow> nat list" where
  "inspect_loop useful 0 q = q"
| "inspect_loop useful (Suc n) q =
     (case q of [] \<Rightarrow> [] | b # rest \<Rightarrow> inspect_loop useful n (if useful b then rest @ [b] else rest))"

definition inspect_clock_queue :: "nat list \<Rightarrow> 'd pager \<Rightarrow> 'd pager" where
  "inspect_clock_queue useless s =
     s\<lparr>clock_queue := inspect_loop (\<lambda>b. location (blocks s b) \<notin> set (set_insert 0 useless))
         (length (clock_queue s)) (clock_queue s)\<rparr>"

definition vm_destroy :: "'d pager \<Rightarrow> stop + 'd pager" where
  "vm_destroy s =
     (let p = curr_pid s
      in bindr (process_at p s) (\<lambda>k.
         bindr (destroy_pages p [0..<next_invalid_page k] ([], s)) (\<lambda>(useless, s).
         let s = inspect_clock_queue useless s
         in Inr (s\<lparr>process_info_mp := (process_info_mp s)(p := None)\<rparr>))))"

subsection \<open>Mapping\<close>

text \<open>A character of the arena of the current process.\<close>

definition get_data :: "'d pager_env \<Rightarrow> nat \<Rightarrow> 'd pager \<Rightarrow> stop + (int \<times> char \<times> 'd pager)" where
  "get_data E addr s =
     (let page_offset = calculate_page_offset addr; virtual_page = addr_to_index addr
      in bindr (block_of (curr_pid s) virtual_page s) (\<lambda>b.
         bindr (if resident (blocks s b) then Inr (0, s) else cache_nonresident_page E b s) (\<lambda>(success, s).
         if success = 0 then Inr (success, physmem s (phys_page (location (blocks s b))) page_offset, s)
         else Inr (success, CHR ''a'', s))))"

lemma bindr_cong [fundef_cong]:
  "r = r' \<Longrightarrow> (\<And>x. r' = Inr x \<Longrightarrow> f x = f' x) \<Longrightarrow> bindr r f = bindr r' f'"
  by (cases r') simp_all

text \<open>The loop of \<^verbatim>\<open>read_filename_str\<close>; a pointer has 64 bits.\<close>

function read_name :: "'d pager_env \<Rightarrow> nat \<Rightarrow> string \<Rightarrow> 'd pager \<Rightarrow> stop + (int \<times> string \<times> 'd pager)" where
  "read_name E str_ptr name s =
     (if str_ptr \<ge> 2 ^ 64 then Inl Undefined_behaviour
      else let virtual_page = addr_to_index str_ptr
           in bindr (process_at (curr_pid s) s) (\<lambda>k.
              if virtual_page \<ge> num_virt_addr \<or> \<not> valid (page_info_table k virtual_page) then Inr (- 1, ''a'', s)
              else bindr (get_data E str_ptr s) (\<lambda>(success, next_char, s).
                if success = - 1 then Inr (- 1, ''a'', s)
                else if next_char = CHR 0x00 then Inr (0, name, s)
                else read_name E (str_ptr + 1) (name @ [next_char]) s)))"
  by pat_completeness auto
termination
  by (relation "measure (\<lambda>(E, str_ptr, name, s). 2 ^ 64 - str_ptr)") auto

declare read_name.simps [simp del]

definition read_filename_str :: "'d pager_env \<Rightarrow> nat \<Rightarrow> 'd pager \<Rightarrow> stop + (int \<times> string \<times> 'd pager)" where
  "read_filename_str E fname s =
     bindr (process_at (curr_pid s) s) (\<lambda>k.
     if fname < VM_ARENA_BASEADDR then Inr (- 1, ''a'', s) else read_name E fname [] s)"

definition map_swap_block :: "nat \<Rightarrow> nat \<Rightarrow> 'd pager \<Rightarrow> stop + 'd pager" where
  "map_swap_block p new_page s =
     bindr (base_register s) (\<lambda>r.
     bindr (set_pte (r, new_page) (\<lambda>e. e\<lparr>read_enable := True, write_enable := False\<rparr>) s) (\<lambda>s.
     let s = set_page_info p new_page (\<lambda>i. i\<lparr>data_location := Some zero_page\<rparr>) s
     in bindr (front (free_swap_blocks s)) (\<lambda>sb.
        let s = upd_block zero_page (\<lambda>x. x\<lparr>swap_blocks := swap_blocks x @ [sb], is_swap := True\<rparr>) s;
            s = set_process p (\<lambda>k. k\<lparr>num_swap_blocks := (num_swap_blocks k + 1) mod 2 ^ 32\<rparr>) s;
            s = s\<lparr>free_swap_blocks := tl (free_swap_blocks s)\<rparr>
        in set_pte (r, new_page) (\<lambda>e. e\<lparr>ppage := 0\<rparr>) s)))"

definition map_file_block :: "string \<Rightarrow> nat \<Rightarrow> nat \<Rightarrow> 'd pager \<Rightarrow> stop + 'd pager" where
  "map_file_block filename_str block new_page s =
     bindr (base_register s) (\<lambda>r.
     let b = next_block s;
         s = s\<lparr>blocks := (blocks s)(b := (new_mem_block False block T_file)
                 \<lparr>is_swap := False, resident := False, referenced := False, block_num := block,
                  filename := filename_str, ptes := [(r, new_page)]\<rparr>), next_block := b + 1\<rparr>;
         s = set_page_info (curr_pid s) new_page (\<lambda>i. i\<lparr>data_location := Some b\<rparr>) s;
         s = s\<lparr>file_mapping_table := (file_mapping_table s)((filename_str, block) \<mapsto> b)\<rparr>
     in set_pte (r, new_page) (\<lambda>e. e\<lparr>ppage := bits30 block, read_enable := False, write_enable := False\<rparr>) s)"

definition update_file_block :: "'d pager_env \<Rightarrow> nat \<Rightarrow> nat \<Rightarrow> 'd pager \<Rightarrow> stop + 'd pager" where
  "update_file_block E b new_page s =
     bindr (base_register s) (\<lambda>r.
     let x = blocks s b
     in bindr (if resident x then set_pte (r, new_page) (\<lambda>e. e\<lparr>ppage := bits30 (location x)\<rparr>) s else Inr s) (\<lambda>s.
        bindr (if ptes x \<noteq> [] then
                 (case pte_at s (set_begin E (ptes x)) of
                    None \<Rightarrow> Inl Undefined_behaviour
                  | Some reference_pte \<Rightarrow>
                      set_pte (r, new_page) (\<lambda>e. e\<lparr>read_enable := read_enable reference_pte,
                          write_enable := write_enable reference_pte, ppage := ppage reference_pte\<rparr>) s)
               else set_pte (r, new_page) (\<lambda>e. e\<lparr>read_enable := resident x \<and> referenced x,
                          write_enable := resident x \<and> referenced x \<and> dirty x\<rparr>) s) (\<lambda>s.
        let s = upd_block b (\<lambda>x. x\<lparr>ptes := set_insert (r, new_page) (ptes x)\<rparr>) s
        in Inr (set_page_info (curr_pid s) new_page (\<lambda>i. i\<lparr>data_location := Some b\<rparr>) s))))"

text \<open>The end of \<^verbatim>\<open>vm_map\<close>: the new page becomes valid.\<close>

definition finish_map :: "nat \<Rightarrow> nat \<Rightarrow> 'd pager \<Rightarrow> nat option \<times> 'd pager" where
  "finish_map p new_page s =
     (let s = set_process p (\<lambda>k. k\<lparr>next_invalid_page := next_invalid_page k + 1\<rparr>) s;
          s = set_page_info p new_page (\<lambda>i. i\<lparr>valid := True\<rparr>) s
      in (Some (index_to_addr new_page), s))"

definition vm_map :: "'d pager_env \<Rightarrow> nat option \<Rightarrow> nat \<Rightarrow> 'd pager \<Rightarrow> stop + (nat option \<times> 'd pager)" where
  "vm_map E fname block s =
     (let p = curr_pid s
      in bindr (process_at p s) (\<lambda>k.
         let new_page = next_invalid_page k
         in if new_page \<ge> num_virt_addr then Inr (None, s)
            else (case fname of
                None \<Rightarrow>
                  if free_swap_blocks s = [] then Inr (None, s)
                  else bindr (map_swap_block p new_page s) (\<lambda>s. Inr (finish_map p new_page s))
              | Some str \<Rightarrow>
                  bindr (read_filename_str E str s) (\<lambda>(success, filename_str, s).
                  if success = - 1 then Inr (None, s)
                  else bindr (case file_mapping_table s (filename_str, block) of
                                None \<Rightarrow> map_file_block filename_str block new_page s
                              | Some b \<Rightarrow> update_file_block E b new_page s) (\<lambda>s.
                       Inr (finish_map p new_page s))))))"

subsection \<open>The MMU\<close>

text \<open>
  A load or store of the current process: it faults (\<open>None\<close>) when the entry does not allow it, and
  otherwise reads or writes the physical page that the entry names.
\<close>

definition mmu_load :: "'d pager \<Rightarrow> nat \<Rightarrow> nat \<Rightarrow> char option" where
  "mmu_load s i off =
     (case page_table_base_register s of
        None \<Rightarrow> None
      | Some p \<Rightarrow> (case pte_at s (p, i) of
            None \<Rightarrow> None
          | Some e \<Rightarrow> if read_enable e then Some (physmem s (ppage e) off) else None))"

definition mmu_store :: "'d pager \<Rightarrow> nat \<Rightarrow> nat \<Rightarrow> char \<Rightarrow> 'd pager option" where
  "mmu_store s i off c =
     (case page_table_base_register s of
        None \<Rightarrow> None
      | Some p \<Rightarrow> (case pte_at s (p, i) of
            None \<Rightarrow> None
          | Some e \<Rightarrow> if write_enable e
                     then Some (s\<lparr>physmem := (physmem s)(ppage e := (physmem s (ppage e))(off := c))\<rparr>) else None))"

end
