(* ===== verification/Pager_Inv.thy ===== *)
theory Pager_Inv
  imports Pager_Ops
begin

text \<open>
  The invariant of the pager, over the parts of its state: \<open>L\<close> says which block a virtual page shows,
  \<open>B\<close> are the blocks, \<open>T\<close> the page table entries, \<open>Q\<close> the clock queue, \<open>FM\<close> and \<open>FS\<close> the free memory
  pages and swap blocks, \<open>F\<close> the table of mapped file blocks, \<open>M\<close> the physical memory and \<open>D\<close> the files.
  The parts are arguments because some loops of the pager keep the invariant only up to work that is
  still to do: a page that is already detached from its block, or blocks that are still in the queue.
\<close>

declare split_paired_All [simp del] split_paired_Ex [simp del]

subsection \<open>Backing files\<close>

text \<open>What the infrastructure promises of its files: what is written is read back, nothing else changes.\<close>

locale backing_store =
  fixes rd :: "'d \<Rightarrow> string option \<Rightarrow> nat \<Rightarrow> page option"
    and wr :: "'d \<Rightarrow> string option \<Rightarrow> nat \<Rightarrow> page \<Rightarrow> 'd"
  assumes wr_swap: "rd (wr d None n pg) None n = Some pg"
    and wr_file: "rd d (Some f) n \<noteq> None \<Longrightarrow> rd (wr d (Some f) n pg) (Some f) n = Some pg"
    and wr_other: "(g, k) \<noteq> (h, n) \<Longrightarrow> rd (wr d h n pg) g k = rd d g k"

subsection \<open>Parts of the invariant\<close>

type_synonym layout = "pte_ptr \<rightharpoonup> nat"
type_synonym tables = "pte_ptr \<rightharpoonup> page_table_entry_t"

definition users :: "layout \<Rightarrow> nat \<Rightarrow> pte_ptr set" where
  "users L b = {x. L x = Some b}"

lemma usersI: "L x = Some b \<Longrightarrow> users L b \<noteq> {}"
  unfolding users_def by blast

lemma in_users [simp]: "x \<in> users L b \<longleftrightarrow> L x = Some b"
  by (simp add: users_def)

lemma usersE: "users L b \<noteq> {} \<Longrightarrow> (\<And>x. L x = Some b \<Longrightarrow> thesis) \<Longrightarrow> thesis"
  unfolding users_def by blast

text \<open>The entries that a block knows are those of the pages that show it.\<close>

definition ptes_ok :: "layout \<Rightarrow> tables \<Rightarrow> (nat \<Rightarrow> mem_block) \<Rightarrow> bool" where
  "ptes_ok L T B \<longleftrightarrow> finite (dom L) \<and> (\<forall>x. L x \<noteq> None \<longrightarrow> T x \<noteq> None) \<and> (\<forall>b. distinct (ptes (B b)))
     \<and> (\<forall>b. b \<noteq> zero_page \<longrightarrow> set (ptes (B b)) = users L b) \<and> set (ptes (B zero_page)) \<subseteq> users L zero_page"

text \<open>
  Every page of a swap-backed block has a swap block reserved (one more for the block \<open>ex\<close>), and no
  swap block is reserved twice.
\<close>

definition swap_ok :: "nat option \<Rightarrow> layout \<Rightarrow> (nat \<Rightarrow> mem_block) \<Rightarrow> nat list \<Rightarrow> bool" where
  "swap_ok ex L B FS \<longleftrightarrow>
     (\<forall>b. length (swap_blocks (B b)) =
        (if is_swap (B b) then card (users L b) + (if ex = Some b then 1 else 0) else 0))
     \<and> distinct FS \<and> (\<forall>b. distinct (swap_blocks (B b)))
     \<and> (\<forall>b. set (swap_blocks (B b)) \<inter> set FS = {})
     \<and> (\<forall>b c. b \<noteq> c \<longrightarrow> set (swap_blocks (B b)) \<inter> set (swap_blocks (B c)) = {})"

text \<open>No swap block is lost: of the \<open>n\<close> blocks of the swap file, each is free or reserved.\<close>

definition swap_all :: "nat \<Rightarrow> (nat \<Rightarrow> mem_block) \<Rightarrow> nat list \<Rightarrow> bool" where
  "swap_all n B FS \<longleftrightarrow> set FS \<union> (\<Union>b. set (swap_blocks (B b))) = {..<n}"

definition zero_ok :: "layout \<Rightarrow> (nat \<Rightarrow> mem_block) \<Rightarrow> tables \<Rightarrow> (nat \<Rightarrow> page) \<Rightarrow> bool" where
  "zero_ok L B T M \<longleftrightarrow> resident (B zero_page) \<and> location (B zero_page) = 0 \<and> is_swap (B zero_page)
     \<and> \<not> dirty (B zero_page) \<and> M 0 = (\<lambda>_. CHR 0x00)
     \<and> (\<forall>x e. L x = Some zero_page \<longrightarrow> T x = Some e \<longrightarrow> ppage e = 0 \<and> read_enable e \<and> \<not> write_enable e)"

text \<open>
  The pages of physical memory but page 0 are free or hold one block of the clock queue each.  There are
  at most $2^{16}$, so that the offset of a page does not wrap around.
\<close>

definition mem_ok :: "nat \<Rightarrow> (nat \<Rightarrow> mem_block) \<Rightarrow> nat list \<Rightarrow> nat list \<Rightarrow> bool" where
  "mem_ok N B Q FM \<longleftrightarrow> N \<le> 2 ^ 16 \<and> distinct (FM @ map (\<lambda>b. location (B b)) Q)
     \<and> set (FM @ map (\<lambda>b. location (B b)) Q) = {1..<N}"

definition file_key :: "mem_block \<Rightarrow> string \<times> nat" where
  "file_key x = (filename x, block_num x)"

definition queue_ok :: "layout \<Rightarrow> (nat \<Rightarrow> mem_block) \<Rightarrow> nat list \<Rightarrow> bool" where
  "queue_ok L B Q \<longleftrightarrow>
     (\<forall>b \<in> set Q. b \<noteq> zero_page \<and> resident (B b) \<and> btype (B b) = T_phys \<and> (is_swap (B b) \<longrightarrow> users L b \<noteq> {}))
     \<and> (\<forall>b. b \<noteq> zero_page \<longrightarrow> users L b \<noteq> {} \<longrightarrow> resident (B b) \<longrightarrow> b \<in> set Q)"

lemma queue_okI:
  assumes "\<And>b. b \<in> set Q \<Longrightarrow> b \<noteq> zero_page \<and> resident (B b) \<and> btype (B b) = T_phys \<and> (is_swap (B b) \<longrightarrow> users L b \<noteq> {})"
    and "\<And>b. b \<noteq> zero_page \<Longrightarrow> users L b \<noteq> {} \<Longrightarrow> resident (B b) \<Longrightarrow> b \<in> set Q"
  shows "queue_ok L B Q"
  using assms unfolding queue_ok_def by blast

lemma queue_okD:
  assumes "queue_ok L B Q" and "b \<in> set Q"
  shows "b \<noteq> zero_page" and "resident (B b)" and "btype (B b) = T_phys" and "is_swap (B b) \<Longrightarrow> users L b \<noteq> {}"
  using assms unfolding queue_ok_def by blast+

lemma queue_ok_in: "queue_ok L B Q \<Longrightarrow> b \<noteq> zero_page \<Longrightarrow> users L b \<noteq> {} \<Longrightarrow> resident (B b) \<Longrightarrow> b \<in> set Q"
  unfolding queue_ok_def by blast

definition known :: "layout \<Rightarrow> nat list \<Rightarrow> nat \<Rightarrow> bool" where
  "known L Q b \<longleftrightarrow> users L b \<noteq> {} \<or> b \<in> set Q"

definition files_ok :: "layout \<Rightarrow> (nat \<Rightarrow> mem_block) \<Rightarrow> nat list \<Rightarrow> (string \<times> nat \<rightharpoonup> nat) \<Rightarrow> bool" where
  "files_ok L B Q F \<longleftrightarrow>
     (\<forall>b. known L Q b \<longrightarrow> \<not> is_swap (B b) \<longrightarrow> F (file_key (B b)) = Some b)
     \<and> (\<forall>key b. F key = Some b \<longrightarrow> known L Q b \<and> \<not> is_swap (B b) \<and> file_key (B b) = key)"

text \<open>What a block that is not in memory has on disk.\<close>

definition out_ok :: "('d \<Rightarrow> string option \<Rightarrow> nat \<Rightarrow> page option) \<Rightarrow> layout \<Rightarrow> (nat \<Rightarrow> mem_block) \<Rightarrow> 'd \<Rightarrow> bool" where
  "out_ok rd L B D \<longleftrightarrow>
     (\<forall>b. users L b \<noteq> {} \<longrightarrow> \<not> resident (B b) \<longrightarrow> btype (B b) \<noteq> T_phys \<and> \<not> dirty (B b)
        \<and> (is_swap (B b) \<longrightarrow> location (B b) = hd (swap_blocks (B b)) \<and> rd D None (location (B b)) \<noteq> None)
        \<and> (\<not> is_swap (B b) \<longrightarrow> location (B b) = block_num (B b)))"

text \<open>A block in memory that is not dirty is the same on disk; a file block in memory can be read.\<close>

definition clean_ok :: "('d \<Rightarrow> string option \<Rightarrow> nat \<Rightarrow> page option) \<Rightarrow> (nat \<Rightarrow> mem_block) \<Rightarrow> nat list \<Rightarrow> (nat \<Rightarrow> page) \<Rightarrow> 'd \<Rightarrow> bool" where
  "clean_ok rd B Q M D \<longleftrightarrow>
     (\<forall>b \<in> set Q. (is_swap (B b) \<longrightarrow> \<not> dirty (B b) \<longrightarrow>
          rd D None (hd (swap_blocks (B b))) = Some (M (location (B b))))
        \<and> (\<not> is_swap (B b) \<longrightarrow> rd D (Some (filename (B b))) (block_num (B b)) \<noteq> None \<and>
          (\<not> dirty (B b) \<longrightarrow> rd D (Some (filename (B b))) (block_num (B b)) = Some (M (location (B b))))))"

text \<open>
  An entry names the page that holds its block; it is enabled only while the block is in memory and
  marked as referenced, and for writing only when the block is dirty and, if it is backed by swap,
  belongs to that entry alone.
\<close>

definition entry_ok :: "layout \<Rightarrow> pte_ptr \<Rightarrow> mem_block \<Rightarrow> nat \<Rightarrow> page_table_entry_t \<Rightarrow> bool" where
  "entry_ok L x blk b e \<longleftrightarrow> (resident blk \<longrightarrow> ppage e = location blk)
     \<and> (read_enable e \<longrightarrow> resident blk \<and> referenced blk)
     \<and> (write_enable e \<longrightarrow> read_enable e \<and> dirty blk \<and> (is_swap blk \<longrightarrow> users L b = {x}))"

definition pte_ok :: "layout \<Rightarrow> (nat \<Rightarrow> mem_block) \<Rightarrow> tables \<Rightarrow> bool" where
  "pte_ok L B T \<longleftrightarrow> (\<forall>x b e. L x = Some b \<longrightarrow> b \<noteq> zero_page \<longrightarrow> T x = Some e \<longrightarrow> entry_ok L x (B b) b e)"

definition fresh_ok :: "layout \<Rightarrow> (nat \<Rightarrow> mem_block) \<Rightarrow> nat list \<Rightarrow> nat \<Rightarrow> bool" where
  "fresh_ok L B Q n \<longleftrightarrow> zero_page < n \<and> (\<forall>b \<ge> n. \<not> known L Q b \<and> swap_blocks (B b) = [])"

text \<open>The number of pages of the physical memory and of blocks of the swap file.\<close>

record sizes =
  ram_pages :: nat
  swap_size :: nat

definition core ::
  "('d \<Rightarrow> string option \<Rightarrow> nat \<Rightarrow> page option) \<Rightarrow> sizes \<Rightarrow> nat option \<Rightarrow> layout \<Rightarrow> nat list \<Rightarrow> 'd pager \<Rightarrow> tables \<Rightarrow> bool" where
  "core rd N ex L Q s T \<longleftrightarrow> ptes_ok L T (blocks s) \<and> swap_ok ex L (blocks s) (free_swap_blocks s)
     \<and> zero_ok L (blocks s) T (physmem s) \<and> mem_ok (ram_pages N) (blocks s) Q (free_mem_blocks s)
     \<and> queue_ok L (blocks s) Q \<and> files_ok L (blocks s) Q (file_mapping_table s)
     \<and> out_ok rd L (blocks s) (disk s) \<and> clean_ok rd (blocks s) Q (physmem s) (disk s)
     \<and> pte_ok L (blocks s) T \<and> fresh_ok L (blocks s) Q (next_block s)
     \<and> swap_all (swap_size N) (blocks s) (free_swap_blocks s)"

lemma coreD:
  assumes "core rd N ex L Q s T"
  shows "ptes_ok L T (blocks s)" and "swap_ok ex L (blocks s) (free_swap_blocks s)"
    and "zero_ok L (blocks s) T (physmem s)" and "mem_ok (ram_pages N) (blocks s) Q (free_mem_blocks s)"
    and "queue_ok L (blocks s) Q" and "files_ok L (blocks s) Q (file_mapping_table s)"
    and "out_ok rd L (blocks s) (disk s)" and "clean_ok rd (blocks s) Q (physmem s) (disk s)"
    and "pte_ok L (blocks s) T" and "fresh_ok L (blocks s) Q (next_block s)"
    and "swap_all (swap_size N) (blocks s) (free_swap_blocks s)"
  using assms by (simp_all add: core_def)

subsection \<open>What a page shows\<close>

definition content :: "('d \<Rightarrow> string option \<Rightarrow> nat \<Rightarrow> page option) \<Rightarrow> 'd pager \<Rightarrow> nat \<Rightarrow> page option" where
  "content rd s b =
     (let x = blocks s b
      in if resident x then Some (physmem s (location x))
         else rd (disk s) (if is_swap x then None else Some (filename x)) (location x))"

datatype vpage = Private "page option" | Shared string nat

definition vpage_of :: "('d \<Rightarrow> string option \<Rightarrow> nat \<Rightarrow> page option) \<Rightarrow> 'd pager \<Rightarrow> nat \<Rightarrow> vpage" where
  "vpage_of rd s b =
     (if is_swap (blocks s b) then Private (content rd s b)
      else Shared (filename (blocks s b)) (block_num (blocks s b)))"

definition file_view :: "('d \<Rightarrow> string option \<Rightarrow> nat \<Rightarrow> page option) \<Rightarrow> 'd pager \<Rightarrow> string \<times> nat \<Rightarrow> page option" where
  "file_view rd s key =
     (case file_mapping_table s key of None \<Rightarrow> rd (disk s) (Some (fst key)) (snd key) | Some b \<Rightarrow> content rd s b)"

text \<open>Nothing that a process can see has changed.\<close>

definition same_view :: "('d \<Rightarrow> string option \<Rightarrow> nat \<Rightarrow> page option) \<Rightarrow> layout \<Rightarrow> 'd pager \<Rightarrow> 'd pager \<Rightarrow> bool" where
  "same_view rd L s s' \<longleftrightarrow> (\<forall>x b. L x = Some b \<longrightarrow> vpage_of rd s' b = vpage_of rd s b)
     \<and> file_view rd s' = file_view rd s"

lemma same_view_refl [simp]: "same_view rd L s s"
  by (simp add: same_view_def)

lemma same_view_trans: "same_view rd L s s' \<Longrightarrow> same_view rd L s' s'' \<Longrightarrow> same_view rd L s s''"
  by (simp add: same_view_def)

lemma same_viewI:
  assumes "\<And>b. users L b \<noteq> {} \<Longrightarrow> is_swap (blocks s' b) = is_swap (blocks s b)
        \<and> filename (blocks s' b) = filename (blocks s b) \<and> block_num (blocks s' b) = block_num (blocks s b)
        \<and> (is_swap (blocks s b) \<longrightarrow> content rd s' b = content rd s b)"
    and "\<And>key. file_view rd s' key = file_view rd s key"
  shows "same_view rd L s s'"
proof -
  have "vpage_of rd s' b = vpage_of rd s b" if "L x = Some b" for x b
    using assms(1)[of b] usersI[of L x b] that by (simp add: vpage_of_def)
  then show ?thesis using assms(2) by (auto simp: same_view_def)
qed

subsection \<open>Updates that keep a part of the invariant\<close>

lemma ptes_ok_cong:
  assumes "ptes_ok L T B" and "\<And>c. ptes (B' c) = ptes (B c)" and "\<And>x. T' x = None \<longleftrightarrow> T x = None"
  shows "ptes_ok L T' B'"
  using assms by (simp add: ptes_ok_def)

lemma swap_ok_cong:
  assumes "swap_ok ex L B FS" and "\<And>c. swap_blocks (B' c) = swap_blocks (B c)" and "\<And>c. is_swap (B' c) = is_swap (B c)"
  shows "swap_ok ex L B' FS"
  using assms by (simp add: swap_ok_def)

lemma swap_all_cong:
  assumes "swap_all n B FS" and "\<And>c. swap_blocks (B' c) = swap_blocks (B c)"
  shows "swap_all n B' FS"
  using assms by (simp add: swap_all_def)

lemma set_butlast_last: "xs \<noteq> [] \<Longrightarrow> set xs = insert (last xs) (set (butlast xs))"
  by (metis Un_insert_right append_butlast_last_id list.simps(15) set_append sup_bot_right empty_set)

text \<open>Swap blocks move between the free list and the blocks that are changed.\<close>

lemma swap_all_moved:
  assumes "swap_all n B FS" and "\<And>c. c \<notin> X \<Longrightarrow> swap_blocks (B' c) = swap_blocks (B c)"
    and "set FS' \<union> (\<Union>c \<in> X. set (swap_blocks (B' c))) = set FS \<union> (\<Union>c \<in> X. set (swap_blocks (B c)))"
  shows "swap_all n B' FS'"
proof -
  have split: "(\<Union>b. set (swap_blocks (A b))) = (\<Union>c \<in> X. set (swap_blocks (A c))) \<union> (\<Union>c \<in> - X. set (swap_blocks (A c)))" for A
    by blast
  have "(\<Union>c \<in> - X. set (swap_blocks (B' c))) = (\<Union>c \<in> - X. set (swap_blocks (B c)))" using assms(2) by simp
  then show ?thesis using assms(1,3) unfolding swap_all_def split[of B] split[of B'] by (metis sup_assoc)
qed

lemma zero_ok_cong:
  assumes "zero_ok L B T M" and "B' zero_page = B zero_page" and "M' 0 = M 0"
    and "\<And>x. L x = Some zero_page \<Longrightarrow> T' x = T x"
  shows "zero_ok L B' T' M'"
  using assms by (simp add: zero_ok_def)

lemma mem_ok_cong:
  assumes "mem_ok N B Q FM" and "mset (FM' @ map (\<lambda>b. location (B' b)) Q') = mset (FM @ map (\<lambda>b. location (B b)) Q)"
  shows "mem_ok N B' Q' FM'"
  using assms unfolding mem_ok_def by (metis mset_eq_imp_distinct_iff mset_eq_setD)

lemma queue_ok_cong:
  assumes "queue_ok L B Q" and "set Q' = set Q" and "\<And>c. resident (B' c) = resident (B c)"
    and "\<And>c. btype (B' c) = btype (B c)" and "\<And>c. is_swap (B' c) = is_swap (B c)"
  shows "queue_ok L B' Q'"
  using assms by (simp add: queue_ok_def)

lemma known_cong: "set Q' = set Q \<Longrightarrow> known L Q' = known L Q"
  by (simp add: known_def fun_eq_iff)

lemma files_ok_cong:
  assumes "files_ok L B Q F" and "set Q' = set Q" and "\<And>c. is_swap (B' c) = is_swap (B c)"
    and "\<And>c. file_key (B' c) = file_key (B c)"
  shows "files_ok L B' Q' F"
  using assms by (simp add: files_ok_def known_cong[OF assms(2)])

lemma out_ok_cong:
  assumes "out_ok rd L B D"
    and "\<And>c. users L c \<noteq> {} \<Longrightarrow> \<not> resident (B' c) \<Longrightarrow> \<not> resident (B c) \<and> btype (B' c) = btype (B c) \<and> dirty (B' c) = dirty (B c)
      \<and> is_swap (B' c) = is_swap (B c) \<and> location (B' c) = location (B c) \<and> block_num (B' c) = block_num (B c)
      \<and> hd (swap_blocks (B' c)) = hd (swap_blocks (B c))"
    and "\<And>c. users L c \<noteq> {} \<Longrightarrow> \<not> resident (B' c) \<Longrightarrow> is_swap (B c) \<Longrightarrow> rd D' None (location (B c)) = rd D None (location (B c))"
  shows "out_ok rd L B' D'"
  unfolding out_ok_def
proof (intro allI impI)
  fix c
  assume u: "users L c \<noteq> {}" and r: "\<not> resident (B' c)"
  note e = assms(2)[OF u r]
  have "btype (B c) \<noteq> T_phys \<and> \<not> dirty (B c)
      \<and> (is_swap (B c) \<longrightarrow> location (B c) = hd (swap_blocks (B c)) \<and> rd D None (location (B c)) \<noteq> None)
      \<and> (\<not> is_swap (B c) \<longrightarrow> location (B c) = block_num (B c))"
    using assms(1) u e unfolding out_ok_def by blast
  then show "btype (B' c) \<noteq> T_phys \<and> \<not> dirty (B' c)
      \<and> (is_swap (B' c) \<longrightarrow> location (B' c) = hd (swap_blocks (B' c)) \<and> rd D' None (location (B' c)) \<noteq> None)
      \<and> (\<not> is_swap (B' c) \<longrightarrow> location (B' c) = block_num (B' c))"
    using e assms(3)[OF u r] by metis
qed

lemma clean_ok_cong:
  assumes "clean_ok rd B Q M D" and "set Q' \<subseteq> set Q"
    and "\<And>c. c \<in> set Q' \<Longrightarrow> dirty (B' c) = dirty (B c) \<and> is_swap (B' c) = is_swap (B c) \<and> location (B' c) = location (B c)
      \<and> file_key (B' c) = file_key (B c) \<and> hd (swap_blocks (B' c)) = hd (swap_blocks (B c)) \<and> M' (location (B c)) = M (location (B c))"
    and "\<And>c. c \<in> set Q' \<Longrightarrow> is_swap (B c) \<Longrightarrow> rd D' None (hd (swap_blocks (B c))) = rd D None (hd (swap_blocks (B c)))"
    and "\<And>c. c \<in> set Q' \<Longrightarrow> \<not> is_swap (B c) \<Longrightarrow>
      rd D' (Some (filename (B c))) (block_num (B c)) = rd D (Some (filename (B c))) (block_num (B c))"
  shows "clean_ok rd B' Q' M' D'"
  using assms by (auto simp: clean_ok_def file_key_def)

lemma fresh_ok_cong:
  assumes "fresh_ok L B Q n" and "set Q' \<subseteq> set Q" and "\<And>c. swap_blocks (B' c) = swap_blocks (B c)"
  shows "fresh_ok L B' Q' n"
  using assms by (auto simp: fresh_ok_def known_def)

subsection \<open>Page table entries of a state\<close>

lemma pte_at_upd [simp]:
  "pte_at (upd_pte_set X f s) = (\<lambda>x. if x \<in> X then map_option f (pte_at s x) else pte_at s x)"
  by (auto simp: fun_eq_iff pte_at_def upd_pte_set_def split: option.splits)

lemma upd_pte_set_simps [simp]:
  "free_mem_blocks (upd_pte_set X f s) = free_mem_blocks s"
  "clock_queue (upd_pte_set X f s) = clock_queue s"
  "free_swap_blocks (upd_pte_set X f s) = free_swap_blocks s"
  "curr_pid (upd_pte_set X f s) = curr_pid s"
  "file_mapping_table (upd_pte_set X f s) = file_mapping_table s"
  "page_table_base_register (upd_pte_set X f s) = page_table_base_register s"
  "blocks (upd_pte_set X f s) = blocks s"
  "next_block (upd_pte_set X f s) = next_block s"
  "physmem (upd_pte_set X f s) = physmem s"
  "tmp_buffer (upd_pte_set X f s) = tmp_buffer s"
  "disk (upd_pte_set X f s) = disk s"
  by (simp_all add: upd_pte_set_def)

lemma upd_block_simps [simp]:
  "process_info_mp (upd_block b g s) = process_info_mp s"
  "free_mem_blocks (upd_block b g s) = free_mem_blocks s"
  "clock_queue (upd_block b g s) = clock_queue s"
  "free_swap_blocks (upd_block b g s) = free_swap_blocks s"
  "curr_pid (upd_block b g s) = curr_pid s"
  "file_mapping_table (upd_block b g s) = file_mapping_table s"
  "page_table_base_register (upd_block b g s) = page_table_base_register s"
  "blocks (upd_block b g s) = (blocks s)(b := g (blocks s b))"
  "next_block (upd_block b g s) = next_block s"
  "physmem (upd_block b g s) = physmem s"
  "tmp_buffer (upd_block b g s) = tmp_buffer s"
  "disk (upd_block b g s) = disk s"
  "pte_at (upd_block b g s) = pte_at s"
  by (simp_all add: upd_block_def pte_at_def fun_eq_iff)

lemma pte_at_cong: "process_info_mp s' = process_info_mp s \<Longrightarrow> pte_at s' = pte_at s"
  by (simp add: pte_at_def fun_eq_iff)

lemma pte_at_record [simp]:
  "pte_at (s\<lparr>free_mem_blocks := a1\<rparr>) = pte_at s"
  "pte_at (s\<lparr>clock_queue := a2\<rparr>) = pte_at s"
  "pte_at (s\<lparr>free_swap_blocks := a3\<rparr>) = pte_at s"
  "pte_at (s\<lparr>file_mapping_table := a4\<rparr>) = pte_at s"
  "pte_at (s\<lparr>physmem := a5\<rparr>) = pte_at s"
  "pte_at (s\<lparr>tmp_buffer := a6\<rparr>) = pte_at s"
  "pte_at (s\<lparr>disk := a7\<rparr>) = pte_at s"
  "pte_at (s\<lparr>blocks := a8\<rparr>) = pte_at s"
  "pte_at (s\<lparr>next_block := a9\<rparr>) = pte_at s"
  by (simp_all add: pte_at_def fun_eq_iff)

lemma for_ptes_eq:
  assumes "ptes_ok L (pte_at s) B" and "ptes (blocks s b) = ptes (B b)"
  shows "for_ptes b f s = Inr (upd_pte_set (set (ptes (blocks s b))) f s)"
proof -
  have "process_info_mp s (fst x) \<noteq> None" if "x \<in> set (ptes (blocks s b))" for x
  proof -
    have "L x = Some b"
      using assms that unfolding ptes_ok_def by (metis in_users subsetD)
    then have "pte_at s x \<noteq> None" using assms(1) by (simp add: ptes_ok_def)
    then show ?thesis by (auto simp: pte_at_def split: option.splits)
  qed
  then show ?thesis by (simp add: for_ptes_def list_all_iff)
qed

lemma known_block_ptes:
  assumes "ptes_ok L T B" and "b \<noteq> zero_page"
  shows "x \<in> set (ptes (B b)) \<longleftrightarrow> L x = Some b"
  using assms by (auto simp: ptes_ok_def)

end
