(* ===== verification/Pager_Evict.thy ===== *)
theory Pager_Evict
  imports Pager_Inv
begin

text \<open>
  Eviction: the clock finds a block that is not referenced within one turn, and moving that block out
  of memory changes nothing that a process can see.
\<close>

subsection \<open>Frames\<close>

definition ok :: "'d pager_env \<Rightarrow> sizes \<Rightarrow> nat option \<Rightarrow> layout \<Rightarrow> 'd pager \<Rightarrow> bool" where
  "ok E N ex L s = core (file_read E) N ex L (clock_queue s) s (pte_at s)"

text \<open>What the kernel knows of a process beside its page table.\<close>

definition shape :: "'d pager \<Rightarrow> nat \<Rightarrow> ((nat \<Rightarrow> kernel_page_info) \<times> nat \<times> nat) option" where
  "shape s p = map_option (\<lambda>k. (page_info_table k, next_invalid_page k, num_swap_blocks k)) (process_info_mp s p)"

lemma shape_upd_pte_set [simp]: "shape (upd_pte_set X f s) = shape s"
  by (simp add: shape_def upd_pte_set_def fun_eq_iff option.map_comp comp_def)

lemma shape_cong: "process_info_mp s' = process_info_mp s \<Longrightarrow> shape s' = shape s"
  by (simp add: shape_def fun_eq_iff)

lemma shape_record [simp]:
  "shape (upd_block b g s) = shape s"
  "shape (s\<lparr>free_mem_blocks := a1\<rparr>) = shape s"
  "shape (s\<lparr>clock_queue := a2\<rparr>) = shape s"
  "shape (s\<lparr>free_swap_blocks := a3\<rparr>) = shape s"
  "shape (s\<lparr>file_mapping_table := a4\<rparr>) = shape s"
  "shape (s\<lparr>physmem := a5\<rparr>) = shape s"
  "shape (s\<lparr>tmp_buffer := a6\<rparr>) = shape s"
  "shape (s\<lparr>disk := a7\<rparr>) = shape s"
  "shape (s\<lparr>blocks := a8\<rparr>) = shape s"
  "shape (s\<lparr>next_block := a9\<rparr>) = shape s"
  by (rule shape_cong, simp)+

text \<open>The calls that move data leave this alone.\<close>

definition frame :: "layout \<Rightarrow> 'd pager \<Rightarrow> 'd pager \<Rightarrow> bool" where
  "frame L s s' \<longleftrightarrow> shape s' = shape s \<and> (\<forall>x. L x = None \<longrightarrow> pte_at s' x = pte_at s x)
     \<and> curr_pid s' = curr_pid s \<and> page_table_base_register s' = page_table_base_register s
     \<and> tmp_buffer s' = tmp_buffer s \<and> next_block s' = next_block s \<and> free_swap_blocks s' = free_swap_blocks s
     \<and> (\<forall>b. swap_blocks (blocks s' b) = swap_blocks (blocks s b) \<and> ptes (blocks s' b) = ptes (blocks s b)
          \<and> is_swap (blocks s' b) = is_swap (blocks s b) \<and> file_key (blocks s' b) = file_key (blocks s b))"

lemma frame_refl [simp]: "frame L s s"
  by (simp add: frame_def)

lemma frame_trans: "frame L s s' \<Longrightarrow> frame L s' s'' \<Longrightarrow> frame L s s''"
  by (simp add: frame_def)

text \<open>No block comes into memory.\<close>

definition shrinks :: "'d pager \<Rightarrow> 'd pager \<Rightarrow> bool" where
  "shrinks s s' \<longleftrightarrow> (\<forall>b. resident (blocks s' b) \<longrightarrow> resident (blocks s b))"

subsection \<open>The clock\<close>

definition spared :: "nat \<Rightarrow> nat list \<Rightarrow> 'd pager \<Rightarrow> 'd pager" where
  "spared b rest s =
     (upd_block b (\<lambda>x. x\<lparr>referenced := False\<rparr>) (upd_pte_set (set (ptes (blocks s b))) disable s))\<lparr>clock_queue := rest @ [b]\<rparr>"

lemma disable_entry: "entry_ok L x blk b e \<Longrightarrow> entry_ok L x (blk\<lparr>referenced := r\<rparr>) b (disable e)"
  by (simp add: entry_ok_def disable_def)

lemma entry_ok_referenced: "entry_ok L x blk b e \<Longrightarrow> entry_ok L x (blk\<lparr>referenced := True\<rparr>) b e"
  by (simp add: entry_ok_def)

lemma spared_ok:
  assumes O: "ok E N ex L s" and q: "clock_queue s = b # rest"
  shows "ok E N ex L (spared b rest s)"
proof -
  note c = coreD[OF O[unfolded ok_def]]
  let ?s = "spared b rest s"
  let ?B = "(blocks s)(b := (blocks s b)\<lparr>referenced := False\<rparr>)"
  let ?T = "\<lambda>x. if x \<in> set (ptes (blocks s b)) then map_option disable (pte_at s x) else pte_at s x"
  have bz: "b \<noteq> zero_page" using c(5) q by (simp add: queue_ok_def)
  have p: "x \<in> set (ptes (blocks s b)) \<longleftrightarrow> L x = Some b" for x by (rule known_block_ptes[OF c(1) bz])
  have B: "blocks ?s = ?B" and T: "pte_at ?s = ?T" by (simp_all add: spared_def)
  have "ptes_ok L ?T ?B" by (rule ptes_ok_cong[OF c(1)]) (auto split: if_splits)
  moreover have "swap_ok ex L ?B (free_swap_blocks s)" by (rule swap_ok_cong[OF c(2)]) auto
  moreover have "zero_ok L ?B ?T (physmem s)" by (rule zero_ok_cong[OF c(3)]) (use bz p in auto)
  moreover have "mem_ok (ram_pages N) ?B (rest @ [b]) (free_mem_blocks s)"
  proof (rule mem_ok_cong[OF c(4)])
    have "(\<lambda>b. location (?B b)) = (\<lambda>b. location (blocks s b))" by auto
    then show "mset (free_mem_blocks s @ map (\<lambda>b. location (?B b)) (rest @ [b]))
        = mset (free_mem_blocks s @ map (\<lambda>b. location (blocks s b)) (clock_queue s))"
      using q by (simp only:) simp
  qed
  moreover have "queue_ok L ?B (rest @ [b])" by (rule queue_ok_cong[OF c(5)]) (use q in auto)
  moreover have "files_ok L ?B (rest @ [b]) (file_mapping_table s)"
    by (rule files_ok_cong[OF c(6)]) (use q in \<open>auto simp: file_key_def\<close>)
  moreover have "out_ok (file_read E) L ?B (disk s)" by (rule out_ok_cong[OF c(7)]) auto
  moreover have "clean_ok (file_read E) ?B (rest @ [b]) (physmem s) (disk s)"
    by (rule clean_ok_cong[OF c(8)]) (use q in \<open>auto simp: file_key_def\<close>)
  moreover have "pte_ok L ?B ?T"
    using c(9) p disable_entry unfolding pte_ok_def by auto
  moreover have "swap_all (swap_size N) ?B (free_swap_blocks s)" by (rule swap_all_cong[OF c(11)]) auto
  moreover have "fresh_ok L ?B (rest @ [b]) (next_block s)"
    by (rule fresh_ok_cong[OF c(10)]) (use q in auto)
  ultimately show ?thesis unfolding ok_def core_def B T by (simp add: spared_def)
qed

lemma spared_frame:
  assumes "ptes_ok L (pte_at s) (blocks s)" and "b \<noteq> zero_page"
  shows "frame L s (spared b rest s)"
  using known_block_ptes[OF assms] by (auto simp: frame_def spared_def file_key_def)

lemma same_view_cong:
  assumes "\<And>b. is_swap (blocks s' b) = is_swap (blocks s b)" and "\<And>b. file_key (blocks s' b) = file_key (blocks s b)"
    and "\<And>b. content rd s' b = content rd s b" and "file_mapping_table s' = file_mapping_table s"
    and "\<And>key. file_mapping_table s key = None \<Longrightarrow> rd (disk s') (Some (fst key)) (snd key) = rd (disk s) (Some (fst key)) (snd key)"
  shows "same_view rd L s s'"
  using assms by (intro same_viewI) (auto simp: file_key_def file_view_def split: option.splits)

lemma spared_view: "same_view rd L s (spared b rest s)"
  by (rule same_view_cong) (auto simp: spared_def content_def file_key_def Let_def)

text \<open>The clock stops at a block that is not referenced, after at most one turn.\<close>

lemma second_chance_ok:
  assumes "ok E N ex L s" and "clock_queue s \<noteq> []"
  shows "\<exists>s' b rest. second_chance s = Inr s' \<and> ok E N ex L s' \<and> frame L s s' \<and> same_view (file_read E) L s s'
    \<and> clock_queue s' = b # rest \<and> \<not> referenced (blocks s' b) \<and> mset (clock_queue s') = mset (clock_queue s)
    \<and> free_mem_blocks s' = free_mem_blocks s \<and> shrinks s s'"
  using assms
proof (induction s rule: second_chance.induct)
  case (1 s)
  obtain b rest where q: "clock_queue s = b # rest" using 1(3) by (cases "clock_queue s") auto
  show ?case
  proof (cases "referenced (blocks s b)")
    case False
    then show ?thesis using 1(2) q by (auto simp: second_chance.simps[of s] shrinks_def)
  next
    case True
    note c = coreD[OF 1(2)[unfolded ok_def]]
    have bz: "b \<noteq> zero_page" using c(5) q by (simp add: queue_ok_def)
    let ?u = "upd_pte_set (set (ptes (blocks s b))) disable s"
    let ?s = "spared b rest s"
    have f: "for_ptes b disable s = Inr ?u" by (rule for_ptes_eq[OF c(1) refl])
    have e: "second_chance s = second_chance ?s"
      using q True f by (simp add: second_chance.simps[of s] spared_def)
    have O: "ok E N ex L ?s" by (rule spared_ok[OF 1(2) q])
    have ne: "clock_queue ?s \<noteq> []" and ms: "mset (clock_queue ?s) = mset (clock_queue s)"
      and fm: "free_mem_blocks ?s = free_mem_blocks s" using q by (simp_all add: spared_def)
    from 1(1)[OF q _ f] True O ne obtain s' b' rest' where
      s': "second_chance ?s = Inr s'" "ok E N ex L s'" "frame L ?s s'" "same_view (file_read E) L ?s s'"
        "clock_queue s' = b' # rest'" "\<not> referenced (blocks s' b')" "mset (clock_queue s') = mset (clock_queue ?s)"
        "free_mem_blocks s' = free_mem_blocks ?s" "shrinks ?s s'"
      by (auto simp: spared_def)
    have "shrinks s s'" using s'(9) by (auto simp: shrinks_def spared_def split: if_splits)
    moreover
    from frame_trans[OF spared_frame[OF c(1) bz] s'(3)] same_view_trans[OF spared_view s'(4)]
    have "frame L s s'" "same_view (file_read E) L s s'" by blast+
    ultimately show ?thesis using e s' ms fm by auto
  qed
qed

subsection \<open>Moving a block out\<close>

definition home :: "mem_block \<Rightarrow> string option \<times> nat" where
  "home x = (if is_swap x then (None, hd (swap_blocks x)) else (Some (filename x), block_num x))"

definition moved_out :: "mem_block \<Rightarrow> mem_block" where
  "moved_out x = x\<lparr>resident := False, dirty := False, referenced := False,
     btype := (if is_swap x then T_swap else T_file), location := snd (home x)\<rparr>"

definition evicted :: "'d pager_env \<Rightarrow> nat \<Rightarrow> nat list \<Rightarrow> 'd pager \<Rightarrow> 'd pager" where
  "evicted E b rest s =
     (let x = blocks s b
      in (upd_block b moved_out (upd_pte_set (set (ptes x)) disable s))
           \<lparr>clock_queue := rest, free_mem_blocks := free_mem_blocks s @ [location x],
            file_mapping_table := (if \<not> is_swap x \<and> ptes x = [] then (file_mapping_table s)(file_key x := None)
                                   else file_mapping_table s),
            disk := (if dirty x then file_write E (disk s) (fst (home x)) (snd (home x)) (physmem s (location x))
                     else disk s)\<rparr>)"

lemma finite_users: "ptes_ok L T B \<Longrightarrow> finite (users L b)"
  by (auto simp: ptes_ok_def users_def dom_def elim!: finite_subset[rotated])

lemma swap_reserved:
  assumes "ptes_ok L T B" and "swap_ok ex L B FS" and "is_swap (B b)" and "users L b \<noteq> {}"
  shows "swap_blocks (B b) \<noteq> []"
proof -
  have "card (users L b) > 0" using finite_users[OF assms(1)] assms(4) by (simp add: card_gt_0_iff)
  moreover have "length (swap_blocks (B b)) \<ge> card (users L b)" using assms(2,3) by (simp add: swap_ok_def)
  ultimately show ?thesis by auto
qed

lemma files_ok_block: "files_ok L B Q F \<Longrightarrow> known L Q b \<Longrightarrow> \<not> is_swap (B b) \<Longrightarrow> F (file_key (B b)) = Some b"
  unfolding files_ok_def by blast

lemma files_ok_key: "files_ok L B Q F \<Longrightarrow> F key = Some b \<Longrightarrow> known L Q b \<and> \<not> is_swap (B b) \<and> file_key (B b) = key"
  unfolding files_ok_def by blast

lemma files_ok_known:
  assumes F: "files_ok L B Q F" and k: "\<And>e. \<not> is_swap (B' e) \<Longrightarrow> known L' Q' e \<longleftrightarrow> known L Q e"
    and s: "\<And>e. known L Q e \<Longrightarrow> is_swap (B' e) = is_swap (B e) \<and> file_key (B' e) = file_key (B e)"
  shows "files_ok L' B' Q' F"
  unfolding files_ok_def
proof (intro conjI allI impI)
  fix e
  assume e: "known L' Q' e" "\<not> is_swap (B' e)"
  then show "F (file_key (B' e)) = Some e" using files_ok_block[OF F, of e] k s[of e] by simp
next
  fix key e
  assume "F key = Some e"
  from files_ok_key[OF F this] show "known L' Q' e" "\<not> is_swap (B' e)" "file_key (B' e) = key"
    using k s[of e] by simp_all
qed

lemma out_okD:
  assumes "out_ok rd L B D" and "users L b \<noteq> {}" and "\<not> resident (B b)"
  shows "btype (B b) \<noteq> T_phys" and "\<not> dirty (B b)"
    and "is_swap (B b) \<Longrightarrow> location (B b) = hd (swap_blocks (B b)) \<and> rd D None (hd (swap_blocks (B b))) \<noteq> None"
    and "\<not> is_swap (B b) \<Longrightarrow> location (B b) = block_num (B b)"
  using assms unfolding out_ok_def by metis+

lemma known_out_users: "queue_ok L B Q \<Longrightarrow> known L Q b \<Longrightarrow> \<not> resident (B b) \<Longrightarrow> users L b \<noteq> {}"
  unfolding queue_ok_def known_def by blast

lemma known_swap_users: "queue_ok L B Q \<Longrightarrow> known L Q b \<Longrightarrow> is_swap (B b) \<Longrightarrow> users L b \<noteq> {}"
  unfolding queue_ok_def known_def by blast

text \<open>The pages of memory have numbers that fit.\<close>

lemma bits30_page:
  assumes "mem_ok N B Q FM" and "u \<in> set FM \<or> (\<exists>b \<in> set Q. u = location (B b))"
  shows "bits30 u = u" and "u \<noteq> 0" and "u < N" and "phys_page u = u"
proof -
  have "u \<in> set (FM @ map (\<lambda>b. location (B b)) Q)" using assms(2) by auto
  then have "u \<in> {1..<N}" and "N \<le> 2 ^ 16" using assms(1) unfolding mem_ok_def by blast+
  then show "bits30 u = u" "u \<noteq> 0" "u < N" "phys_page u = u" by (auto simp: bits30_def phys_page_def VM_PAGESIZE_def)
qed

text \<open>No two blocks have the same home on disk.\<close>

lemma homes_differ:
  assumes P: "ptes_ok L T B" and S: "swap_ok ex L B FS" and K: "queue_ok L B Q" and F: "files_ok L B Q F"
    and b: "known L Q b" and c: "known L Q c" and ne: "b \<noteq> c"
  shows "home (B b) \<noteq> home (B c)"
proof -
  have n: "swap_blocks (B d) \<noteq> []" if "known L Q d" "is_swap (B d)" for d
    by (rule swap_reserved[OF P S that(2) known_swap_users[where B = B, OF K that]])
  show ?thesis
  proof (cases "is_swap (B b) \<and> is_swap (B c)")
    case True
    have "set (swap_blocks (B b)) \<inter> set (swap_blocks (B c)) = {}" using S ne by (simp add: swap_ok_def)
    then have "hd (swap_blocks (B b)) \<noteq> hd (swap_blocks (B c))"
      using n[OF b] n[OF c] True hd_in_set by (metis IntI empty_iff)
    then show ?thesis using True by (simp add: home_def)
  next
    case False
    show ?thesis
    proof
      assume h: "home (B b) = home (B c)"
      then have f: "\<not> is_swap (B b)" "\<not> is_swap (B c)" and "file_key (B b) = file_key (B c)"
        using False by (auto simp: home_def file_key_def split: if_splits)
      then show False using files_ok_block[OF F b f(1)] files_ok_block[OF F c f(2)] ne by simp
    qed
  qed
qed

lemma evict_block_eq:
  assumes O: "ok E N ex L s" and q: "clock_queue s = b # rest"
  shows "evict_block E b (s\<lparr>clock_queue := rest\<rparr>) = Inr (evicted E b rest s)"
proof -
  note c = coreD[OF O[unfolded ok_def]]
  let ?s = "s\<lparr>clock_queue := rest\<rparr>"
  have f: "for_ptes b disable ?s = Inr (upd_pte_set (set (ptes (blocks s b))) disable ?s)"
    using for_ptes_eq[of L ?s "blocks s" b disable] c(1) by simp
  have t: "btype (blocks s b) = T_phys" using c(5) q by (simp add: queue_ok_def)
  have sw: "swap_blocks (blocks s b) \<noteq> []" if "is_swap (blocks s b)"
    using swap_reserved[OF c(1,2) that] c(5) q that by (simp add: queue_ok_def)
  have pp: "phys_page (location (blocks s b)) = location (blocks s b)"
    by (rule bits30_page(4)[OF c(4)]) (use q in auto)
  show ?thesis
  proof (cases "is_swap (blocks s b)")
    case True
    then have "front (swap_blocks (blocks s b)) = Inr (hd (swap_blocks (blocks s b)))"
      using sw by (simp add: front_def split: list.splits)
    then show ?thesis
      using True f t pp by (simp add: evict_block_def evicted_def write_back_def home_def moved_out_def Let_def
          upd_block_def upd_pte_set_def)
  next
    case False
    then show ?thesis
      using f t pp by (simp add: evict_block_def evicted_def write_back_def home_def moved_out_def Let_def
          upd_block_def upd_pte_set_def file_key_def)
  qed
qed

lemma evicted_simps [simp]:
  "blocks (evicted E b rest s) = (blocks s)(b := moved_out (blocks s b))"
  "clock_queue (evicted E b rest s) = rest"
  "free_mem_blocks (evicted E b rest s) = free_mem_blocks s @ [location (blocks s b)]"
  "free_swap_blocks (evicted E b rest s) = free_swap_blocks s"
  "physmem (evicted E b rest s) = physmem s"
  "next_block (evicted E b rest s) = next_block s"
  "pte_at (evicted E b rest s) = (\<lambda>x. if x \<in> set (ptes (blocks s b)) then map_option disable (pte_at s x) else pte_at s x)"
  by (simp_all add: evicted_def Let_def)

lemma moved_out_simps [simp]:
  "ptes (moved_out x) = ptes x" "swap_blocks (moved_out x) = swap_blocks x" "is_swap (moved_out x) = is_swap x"
  "file_key (moved_out x) = file_key x" "\<not> resident (moved_out x)" "\<not> dirty (moved_out x)"
  "filename (moved_out x) = filename x" "block_num (moved_out x) = block_num x" "location (moved_out x) = snd (home x)"
  "btype (moved_out x) = (if is_swap x then T_swap else T_file)"
  by (simp_all add: moved_out_def file_key_def)

lemma evicted_disk:
  assumes bs: "backing_store (file_read E) (file_write E)" and O: "ok E N ex L s" and q: "clock_queue s = b # rest"
  shows "file_read E (disk (evicted E b rest s)) (fst (home (blocks s b))) (snd (home (blocks s b)))
      = Some (physmem s (location (blocks s b)))"
    and "(g, k) \<noteq> home (blocks s b) \<Longrightarrow> file_read E (disk (evicted E b rest s)) g k = file_read E (disk s) g k"
proof -
  note c = coreD[OF O[unfolded ok_def]]
  have cl: "(is_swap (blocks s b) \<longrightarrow> \<not> dirty (blocks s b) \<longrightarrow>
        file_read E (disk s) None (hd (swap_blocks (blocks s b))) = Some (physmem s (location (blocks s b))))
      \<and> (\<not> is_swap (blocks s b) \<longrightarrow> file_read E (disk s) (Some (filename (blocks s b))) (block_num (blocks s b)) \<noteq> None \<and>
        (\<not> dirty (blocks s b) \<longrightarrow> file_read E (disk s) (Some (filename (blocks s b))) (block_num (blocks s b))
           = Some (physmem s (location (blocks s b)))))"
    using c(8) q by (simp add: clean_ok_def)
  show "file_read E (disk (evicted E b rest s)) (fst (home (blocks s b))) (snd (home (blocks s b)))
      = Some (physmem s (location (blocks s b)))"
    using cl backing_store.wr_swap[OF bs] backing_store.wr_file[OF bs]
    by (cases "is_swap (blocks s b)") (simp_all add: evicted_def home_def Let_def)
  show "(g, k) \<noteq> home (blocks s b) \<Longrightarrow> file_read E (disk (evicted E b rest s)) g k = file_read E (disk s) g k"
    using backing_store.wr_other[OF bs, of g k "fst (home (blocks s b))" "snd (home (blocks s b))"]
    by (simp add: evicted_def Let_def)
qed

lemma evicted_ok:
  assumes bs: "backing_store (file_read E) (file_write E)" and O: "ok E N ex L s" and q: "clock_queue s = b # rest"
  shows "ok E N ex L (evicted E b rest s)"
proof -
  note c = coreD[OF O[unfolded ok_def]] and d = evicted_disk[OF bs O q]
  let ?s = "evicted E b rest s"
  let ?B = "(blocks s)(b := moved_out (blocks s b))"
  let ?T = "\<lambda>x. if x \<in> set (ptes (blocks s b)) then map_option disable (pte_at s x) else pte_at s x"
  have bz: "b \<noteq> zero_page" and rb: "resident (blocks s b)" using c(5) q by (simp_all add: queue_ok_def)
  have p: "x \<in> set (ptes (blocks s b)) \<longleftrightarrow> L x = Some b" for x by (rule known_block_ptes[OF c(1) bz])
  have pe: "ptes (blocks s b) = [] \<longleftrightarrow> users L b = {}"
    using c(1) bz unfolding ptes_ok_def by (metis set_empty)
  have dq: "b \<notin> set rest" using c(4) q by (auto simp: mem_ok_def)
  have other: "home (blocks s e) \<noteq> home (blocks s b)" if "known L (clock_queue s) e" "e \<noteq> b" for e
    using homes_differ[OF c(1,2,5,6) that(1)] q that(2) by (auto simp: known_def)
  have "ptes_ok L ?T ?B" by (rule ptes_ok_cong[OF c(1)]) (auto split: if_splits)
  moreover have "swap_ok ex L ?B (free_swap_blocks s)" by (rule swap_ok_cong[OF c(2)]) auto
  moreover have "zero_ok L ?B ?T (physmem s)" by (rule zero_ok_cong[OF c(3)]) (use bz p in auto)
  moreover have "mem_ok (ram_pages N) ?B rest (free_mem_blocks s @ [location (blocks s b)])"
  proof (rule mem_ok_cong[OF c(4)])
    have "map (\<lambda>e. location (?B e)) rest = map (\<lambda>e. location (blocks s e)) rest" using dq by auto
    then show "mset ((free_mem_blocks s @ [location (blocks s b)]) @ map (\<lambda>b. location (?B b)) rest)
        = mset (free_mem_blocks s @ map (\<lambda>b. location (blocks s b)) (clock_queue s))"
      using q by (simp only:) simp
  qed
  moreover have "queue_ok L ?B rest" using c(5) q dq by (auto simp: queue_ok_def)
  moreover have "files_ok L ?B rest (file_mapping_table ?s)"
  proof -
    have F: "file_mapping_table ?s = (if \<not> is_swap (blocks s b) \<and> users L b = {}
        then (file_mapping_table s)(file_key (blocks s b) := None) else file_mapping_table s)"
      using pe by (simp add: evicted_def Let_def)
    have kb: "\<not> is_swap (blocks s b) \<Longrightarrow> file_mapping_table s (file_key (blocks s b)) = Some b"
      using files_ok_block[OF c(6), of b] q by (simp add: known_def)
    have kn: "known L rest e \<longleftrightarrow> known L (clock_queue s) e" if "e \<noteq> b \<or> users L b \<noteq> {}" for e
      using q that by (auto simp: known_def)
    have kn': "known L rest e \<Longrightarrow> e \<noteq> b \<or> users L b \<noteq> {}" for e
      using dq by (auto simp: known_def)
    show ?thesis
      unfolding files_ok_def
    proof (intro conjI allI impI)
      fix e
      assume k: "known L rest e" "\<not> is_swap (?B e)"
      have "file_mapping_table s (file_key (blocks s e)) = Some e"
        using files_ok_block[OF c(6), of e] k kn[OF kn'[OF k(1)]] by (cases "e = b") simp_all
      then show "file_mapping_table ?s (file_key (?B e)) = Some e"
        using kb kn'[OF k(1)] unfolding F by (auto split: if_splits)
    next
      fix key e
      assume "file_mapping_table ?s key = Some e"
      then have f: "file_mapping_table s key = Some e"
        and h: "\<not> (\<not> is_swap (blocks s b) \<and> users L b = {} \<and> key = file_key (blocks s b))"
        unfolding F by (auto split: if_splits)
      note m = files_ok_key[OF c(6) f]
      then have g: "e \<noteq> b \<or> users L b \<noteq> {}" using h by auto
      from m show "known L rest e" and "\<not> is_swap (?B e)" and "file_key (?B e) = key"
        using kn[OF g] by (auto split: if_splits)
    qed
  qed
  moreover have "out_ok (file_read E) L ?B (disk ?s)"
    unfolding out_ok_def
  proof (intro allI impI)
    fix e
    assume u: "users L e \<noteq> {}" and r: "\<not> resident (?B e)"
    show "btype (?B e) \<noteq> T_phys \<and> \<not> dirty (?B e)
        \<and> (is_swap (?B e) \<longrightarrow> location (?B e) = hd (swap_blocks (?B e)) \<and> file_read E (disk ?s) None (location (?B e)) \<noteq> None)
        \<and> (\<not> is_swap (?B e) \<longrightarrow> location (?B e) = block_num (?B e))"
    proof (cases "e = b")
      case True
      then show ?thesis using d(1) by (auto simp: home_def)
    next
      case False
      have "home (blocks s e) \<noteq> home (blocks s b)" using other[of e] u False by (simp add: known_def)
      then have same: "is_swap (blocks s e) \<Longrightarrow>
          file_read E (disk ?s) None (hd (swap_blocks (blocks s e))) = file_read E (disk s) None (hd (swap_blocks (blocks s e)))"
        using d(2)[of None "hd (swap_blocks (blocks s e))"] by (simp add: home_def)
      have r': "\<not> resident (blocks s e)" using r False by simp
      note o = out_okD[OF c(7) u r']
      have "is_swap (blocks s e) \<Longrightarrow> file_read E (disk ?s) None (location (blocks s e)) \<noteq> None"
        using o(3) same by presburger
      then show ?thesis using o(1,2,4) conjunct1[OF o(3)] False by simp
    qed
  qed
  moreover have "clean_ok (file_read E) ?B rest (physmem s) (disk ?s)"
  proof (rule clean_ok_cong[OF c(8)])
    fix e
    assume e: "e \<in> set rest"
    then have h: "home (blocks s e) \<noteq> home (blocks s b)" using other[of e] q dq by (auto simp: known_def)
    show "is_swap (blocks s e) \<Longrightarrow> file_read E (disk ?s) None (hd (swap_blocks (blocks s e)))
        = file_read E (disk s) None (hd (swap_blocks (blocks s e)))"
      and "\<not> is_swap (blocks s e) \<Longrightarrow> file_read E (disk ?s) (Some (filename (blocks s e))) (block_num (blocks s e))
        = file_read E (disk s) (Some (filename (blocks s e))) (block_num (blocks s e))"
      using d(2) h by (simp_all add: home_def)
  qed (use q dq in \<open>auto simp: file_key_def\<close>)
  moreover have "pte_ok L ?B ?T"
  proof -
    have "entry_ok L x (moved_out (blocks s b)) b (disable e)" for x e by (simp add: entry_ok_def disable_def)
    then show ?thesis using c(9) p unfolding pte_ok_def by auto
  qed
  moreover have "swap_all (swap_size N) ?B (free_swap_blocks s)" by (rule swap_all_cong[OF c(11)]) auto
  moreover have "fresh_ok L ?B rest (next_block s)"
    by (rule fresh_ok_cong[OF c(10)]) (use q in auto)
  ultimately show ?thesis unfolding ok_def core_def by simp
qed

lemma evicted_frame:
  assumes "ptes_ok L (pte_at s) (blocks s)" and "b \<noteq> zero_page"
  shows "frame L s (evicted E b rest s)"
proof -
  have "\<forall>x. L x = None \<longrightarrow> pte_at (evicted E b rest s) x = pte_at s x" using known_block_ptes[OF assms] by auto
  moreover have "shape (evicted E b rest s) = shape s" "curr_pid (evicted E b rest s) = curr_pid s"
    "page_table_base_register (evicted E b rest s) = page_table_base_register s"
    "tmp_buffer (evicted E b rest s) = tmp_buffer s"
    by (simp_all add: evicted_def Let_def)
  ultimately show ?thesis by (simp add: frame_def)
qed

lemma evicted_content:
  assumes bs: "backing_store (file_read E) (file_write E)" and O: "ok E N ex L s" and q: "clock_queue s = b # rest"
    and k: "known L (clock_queue s) e"
  shows "content (file_read E) (evicted E b rest s) e = content (file_read E) s e"
proof (cases "e = b")
  case True
  have "resident (blocks s b)" using coreD(5)[OF O[unfolded ok_def]] q by (simp add: queue_ok_def)
  then show ?thesis
    using True evicted_disk(1)[OF bs O q] by (simp add: content_def home_def Let_def split: if_splits)
next
  case False
  note c = coreD[OF O[unfolded ok_def]]
  have "known L (clock_queue s) b" using q by (simp add: known_def)
  from homes_differ[OF c(1,2,5,6) k this False] have h: "home (blocks s e) \<noteq> home (blocks s b)" .
  show ?thesis
  proof (cases "resident (blocks s e)")
    case True
    then show ?thesis using False by (simp add: content_def)
  next
    case out: False
    have "users L e \<noteq> {}" by (rule known_out_users[OF c(5) k out])
    note o = out_okD[OF c(7) this out]
    have "location (blocks s e) = snd (home (blocks s e))" using o by (simp add: home_def)
    moreover have "(if is_swap (blocks s e) then None else Some (filename (blocks s e))) = fst (home (blocks s e))"
      by (simp add: home_def)
    ultimately show ?thesis
      using out False evicted_disk(2)[OF bs O q, of "fst (home (blocks s e))" "snd (home (blocks s e))"] h
      by (simp add: content_def Let_def)
  qed
qed

lemma evicted_view:
  assumes bs: "backing_store (file_read E) (file_write E)" and O: "ok E N ex L s" and q: "clock_queue s = b # rest"
  shows "same_view (file_read E) L s (evicted E b rest s)"
proof (rule same_viewI)
  fix e
  assume "users L e \<noteq> {}"
  then show "is_swap (blocks (evicted E b rest s) e) = is_swap (blocks s e)
        \<and> filename (blocks (evicted E b rest s) e) = filename (blocks s e)
        \<and> block_num (blocks (evicted E b rest s) e) = block_num (blocks s e)
        \<and> (is_swap (blocks s e) \<longrightarrow> content (file_read E) (evicted E b rest s) e = content (file_read E) s e)"
    using evicted_content[OF bs O q, of e] by (simp add: known_def)
next
  fix key
  note c = coreD[OF O[unfolded ok_def]]
  let ?s = "evicted E b rest s"
  have kb: "known L (clock_queue s) b" using q by (simp add: known_def)
  have F: "file_mapping_table ?s key = (if \<not> is_swap (blocks s b) \<and> ptes (blocks s b) = [] \<and> key = file_key (blocks s b)
      then None else file_mapping_table s key)"
    by (simp add: evicted_def Let_def)
  show "file_view (file_read E) ?s key = file_view (file_read E) s key"
  proof (cases "\<not> is_swap (blocks s b) \<and> ptes (blocks s b) = [] \<and> key = file_key (blocks s b)")
    case True
    then have k: "file_mapping_table s key = Some b" using files_ok_block[OF c(6) kb] by simp
    have "resident (blocks s b)" using c(5) q by (simp add: queue_ok_def)
    then show ?thesis
      using True k F evicted_disk(1)[OF bs O q] by (simp add: file_view_def content_def home_def file_key_def Let_def)
  next
    case False
    have F': "file_mapping_table ?s key = file_mapping_table s key" unfolding F by (rule if_not_P[OF False])
    show ?thesis
    proof (cases "file_mapping_table s key")
      case None
      have "(Some (fst key), snd key) \<noteq> home (blocks s b)"
        using None files_ok_block[OF c(6) kb] by (cases key) (auto simp: home_def file_key_def split: if_splits)
      then show ?thesis using None F' evicted_disk(2)[OF bs O q] by (simp add: file_view_def)
    next
      case (Some e)
      then show ?thesis
        using F' evicted_content[OF bs O q] files_ok_key[OF c(6) Some] by (simp add: file_view_def)
    qed
  qed
qed

text \<open>Eviction as a whole.\<close>

lemma evict_phys_page_ok:
  assumes bs: "backing_store (file_read E) (file_write E)" and O: "ok E N ex L s" and ne: "clock_queue s \<noteq> []"
  shows "\<exists>s'. evict_phys_page E s = Inr s' \<and> ok E N ex L s' \<and> frame L s s' \<and> same_view (file_read E) L s s'
    \<and> length (free_mem_blocks s') = length (free_mem_blocks s) + 1 \<and> shrinks s s'"
proof -
  obtain s1 b rest where 1: "second_chance s = Inr s1" "ok E N ex L s1" "frame L s s1" "same_view (file_read E) L s s1"
      "clock_queue s1 = b # rest" "free_mem_blocks s1 = free_mem_blocks s" "shrinks s s1"
    using second_chance_ok[OF O ne] by blast
  note c = coreD[OF O[unfolded ok_def]] and c1 = coreD[OF 1(2)[unfolded ok_def]]
  obtain b0 rest0 where q: "clock_queue s = b0 # rest0" using ne by (cases "clock_queue s") auto
  then have "btype (blocks s b0) = T_phys" using c(5) by (simp add: queue_ok_def)
  then have e: "evict_phys_page E s = Inr (evicted E b rest s1)"
    using q 1(1,5) evict_block_eq[OF 1(2,5)] by (simp add: evict_phys_page_def front_def)
  have bz: "b \<noteq> zero_page" using c1(5) 1(5) by (simp add: queue_ok_def)
  have "shrinks s (evicted E b rest s1)" using 1(7) by (auto simp: shrinks_def)
  then show ?thesis
    using e evicted_ok[OF bs 1(2,5)] frame_trans[OF 1(3) evicted_frame[OF c1(1) bz]]
      same_view_trans[OF 1(4) evicted_view[OF bs 1(2,5)]] 1(6) by auto
qed

lemma ensure_free_ok:
  assumes bs: "backing_store (file_read E) (file_write E)" and O: "ok E N ex L s" and N: "1 < ram_pages N"
  shows "\<exists>s'. ensure_free E s = Inr s' \<and> ok E N ex L s' \<and> frame L s s' \<and> same_view (file_read E) L s s'
    \<and> free_mem_blocks s' \<noteq> [] \<and> shrinks s s'"
proof (cases "free_mem_blocks s = []")
  case True
  have "{1..<ram_pages N} \<noteq> {}" using N by auto
  then have "clock_queue s \<noteq> []" using coreD(4)[OF O[unfolded ok_def]] True by (auto simp: mem_ok_def)
  from evict_phys_page_ok[OF bs O this] show ?thesis using True by (auto simp: ensure_free_def)
next
  case False
  then show ?thesis using O by (simp add: ensure_free_def shrinks_def)
qed

end
