(* ===== verification/Pager_Cache.thy ===== *)
theory Pager_Cache
  imports Pager_Evict
begin

text \<open>
  Bringing a block into memory, and the handlers of a fault that change no data: after them the
  invariant holds and every process sees what it saw before.
\<close>

text \<open>Views over the blocks that matter.\<close>

lemma same_view_known:
  assumes F: "files_ok L (blocks s) Q (file_mapping_table s)" and eq: "file_mapping_table s' = file_mapping_table s"
    and d: "\<And>key. file_mapping_table s key = None \<Longrightarrow> rd (disk s') (Some (fst key)) (snd key) = rd (disk s) (Some (fst key)) (snd key)"
    and b: "\<And>b. known L Q b \<Longrightarrow> is_swap (blocks s' b) = is_swap (blocks s b) \<and> file_key (blocks s' b) = file_key (blocks s b)
      \<and> content rd s' b = content rd s b"
  shows "same_view rd L s s'"
proof (rule same_viewI)
  fix c
  assume "users L c \<noteq> {}"
  then have "known L Q c" by (simp add: known_def)
  from b[OF this] show "is_swap (blocks s' c) = is_swap (blocks s c) \<and> filename (blocks s' c) = filename (blocks s c)
      \<and> block_num (blocks s' c) = block_num (blocks s c) \<and> (is_swap (blocks s c) \<longrightarrow> content rd s' c = content rd s c)"
    by (simp add: file_key_def)
next
  fix key
  show "file_view rd s' key = file_view rd s key"
  proof (cases "file_mapping_table s key")
    case None
    then show ?thesis using eq d[OF None] by (simp add: file_view_def)
  next
    case (Some c)
    then show ?thesis using eq b[of c] files_ok_key[OF F Some] by (simp add: file_view_def)
  qed
qed

subsection \<open>Caching\<close>

definition moved_in :: "nat \<Rightarrow> mem_block \<Rightarrow> mem_block" where
  "moved_in u x = x\<lparr>btype := T_phys, referenced := True, resident := True, dirty := False, location := u\<rparr>"

lemma moved_in_simps [simp]:
  "ptes (moved_in u x) = ptes x" "swap_blocks (moved_in u x) = swap_blocks x" "is_swap (moved_in u x) = is_swap x"
  "file_key (moved_in u x) = file_key x" "resident (moved_in u x)" "\<not> dirty (moved_in u x)" "referenced (moved_in u x)"
  "filename (moved_in u x) = filename x" "block_num (moved_in u x) = block_num x" "location (moved_in u x) = u"
  "btype (moved_in u x) = T_phys"
  by (simp_all add: moved_in_def file_key_def)

definition loaded :: "nat \<Rightarrow> nat \<Rightarrow> page \<Rightarrow> 'd pager \<Rightarrow> 'd pager" where
  "loaded b u pg s =
     upd_pte_set (set (ptes (blocks s b))) (cached u)
       (upd_block b (moved_in u)
         (s\<lparr>physmem := (physmem s)(u := pg), free_mem_blocks := tl (free_mem_blocks s), clock_queue := clock_queue s @ [b]\<rparr>))"

lemma loaded_ok:
  assumes O: "ok E N ex L s" and fm: "free_mem_blocks s = u # fm" and ub: "users L b \<noteq> {}" and rb: "\<not> resident (blocks s b)"
    and pg: "file_read E (disk s) (if is_swap (blocks s b) then None else Some (filename (blocks s b))) (location (blocks s b)) = Some pg"
  shows "ok E N ex L (loaded b u pg s)" and "same_view (file_read E) L s (loaded b u pg s)"
proof -
  note c = coreD[OF O[unfolded ok_def]]
  let ?s = "loaded b u pg s"
  let ?B = "(blocks s)(b := moved_in u (blocks s b))"
  let ?T = "\<lambda>x. if x \<in> set (ptes (blocks s b)) then map_option (cached u) (pte_at s x) else pte_at s x"
  let ?M = "(physmem s)(u := pg)"
  let ?Q = "clock_queue s @ [b]"
  have bz: "b \<noteq> zero_page" using c(3) rb by (auto simp: zero_ok_def)
  have p: "x \<in> set (ptes (blocks s b)) \<longleftrightarrow> L x = Some b" for x by (rule known_block_ptes[OF c(1) bz])
  have nq: "b \<notin> set (clock_queue s)" using c(5) rb unfolding queue_ok_def by blast
  note u = bits30_page[OF c(4), of u, simplified fm, simplified]
  have lu: "location (blocks s e) \<noteq> u" if "e \<in> set (clock_queue s)" for e
    using c(4) fm that by (auto simp: mem_ok_def)
  have kn: "known L ?Q e \<longleftrightarrow> known L (clock_queue s) e" for e using ub by (auto simp: known_def)
  note o = out_okD[OF c(7) ub rb]
  have "ptes_ok L ?T ?B" by (rule ptes_ok_cong[OF c(1)]) (auto split: if_splits)
  moreover have "swap_ok ex L ?B (free_swap_blocks s)" by (rule swap_ok_cong[OF c(2)]) auto
  moreover have "zero_ok L ?B ?T ?M" by (rule zero_ok_cong[OF c(3)]) (use bz p u in auto)
  moreover have "mem_ok (ram_pages N) ?B ?Q fm"
  proof (rule mem_ok_cong[OF c(4)])
    have m: "map (\<lambda>b. location (?B b)) ?Q = map (\<lambda>b. location (blocks s b)) (clock_queue s) @ [u]" using nq by auto
    show "mset (fm @ map (\<lambda>b. location (?B b)) ?Q) = mset (free_mem_blocks s @ map (\<lambda>b. location (blocks s b)) (clock_queue s))"
      unfolding m fm by simp
  qed
  moreover have "queue_ok L ?B ?Q" 
  proof (rule queue_okI)
    show "e \<noteq> zero_page \<and> resident (?B e) \<and> btype (?B e) = T_phys \<and> (is_swap (?B e) \<longrightarrow> users L e \<noteq> {})" if "e \<in> set ?Q" for e
      using that queue_okD[OF c(5), of e] ub bz by (cases "e = b") auto
    show "e \<in> set ?Q" if "e \<noteq> zero_page" "users L e \<noteq> {}" "resident (?B e)" for e
      using that queue_ok_in[OF c(5), of e] by (cases "e = b") auto
  qed
  moreover have "files_ok L ?B ?Q (file_mapping_table s)"
    by (rule files_ok_known[OF c(6) kn]) (auto split: if_splits)
  moreover have "out_ok (file_read E) L ?B (disk s)" by (rule out_ok_cong[OF c(7)]) (auto split: if_splits)
  moreover have "clean_ok (file_read E) ?B ?Q ?M (disk s)"
  proof -
    have "clean_ok (file_read E) ?B (clock_queue s) ?M (disk s)"
      by (rule clean_ok_cong[OF c(8)]) (use nq lu in auto)
    then show ?thesis using pg o by (auto simp: clean_ok_def)
  qed
  moreover have "pte_ok L ?B ?T"
  proof -
    have "entry_ok L x (moved_in u (blocks s b)) b (cached u e)" for x e using u by (simp add: entry_ok_def cached_def)
    then show ?thesis using c(9) p unfolding pte_ok_def by auto
  qed
  moreover have "swap_all (swap_size N) ?B (free_swap_blocks s)" by (rule swap_all_cong[OF c(11)]) auto
  moreover have "fresh_ok L ?B ?Q (next_block s)"
    using c(10) unfolding fresh_ok_def kn by auto
  moreover have T: "pte_at ?s = ?T" by (simp add: loaded_def fun_eq_iff)
  moreover have "blocks ?s = ?B" "clock_queue ?s = ?Q" "free_mem_blocks ?s = fm" "physmem ?s = ?M" "disk ?s = disk s"
    "free_swap_blocks ?s = free_swap_blocks s" "file_mapping_table ?s = file_mapping_table s" "next_block ?s = next_block s"
    by (simp_all add: loaded_def fm)
  ultimately show "ok E N ex L ?s" unfolding ok_def core_def by (simp only:)
  show "same_view (file_read E) L s ?s"
  proof (rule same_view_known[OF c(6)])
    fix e
    assume k: "known L (clock_queue s) e"
    have "content (file_read E) ?s e = content (file_read E) s e"
    proof (cases "e = b")
      case True
      then show ?thesis using pg rb by (simp add: content_def loaded_def Let_def)
    next
      case False
      have "location (blocks s e) \<noteq> u" if "resident (blocks s e)"
      proof (cases "e = zero_page")
        case True
        then show ?thesis using c(3) u by (simp add: zero_ok_def)
      next
        case False
        then have "e \<in> set (clock_queue s)" using k c(5) that unfolding known_def queue_ok_def by blast
        then show ?thesis by (rule lu)
      qed
      then show ?thesis using False by (simp add: content_def loaded_def Let_def)
    qed
    then show "is_swap (blocks ?s e) = is_swap (blocks s e) \<and> file_key (blocks ?s e) = file_key (blocks s e)
        \<and> content (file_read E) ?s e = content (file_read E) s e"
      by (simp add: loaded_def)
  qed (simp_all add: loaded_def)
qed

lemma frame_upd_ptes:
  assumes "ptes_ok L (pte_at s) (blocks s)" and "frame L s s'"
  shows "frame L s (upd_pte_set (set (ptes (blocks s b))) f s')"
proof -
  have "x \<notin> set (ptes (blocks s b))" if "L x = None" for x
  proof (cases "b = zero_page")
    case True
    then show ?thesis using assms(1) that by (auto simp: ptes_ok_def)
  next
    case False
    then show ?thesis using known_block_ptes[OF assms(1) False] that by simp
  qed
  then show ?thesis using assms(2) by (simp add: frame_def)
qed

lemma loaded_frame:
  assumes "ptes_ok L (pte_at s) (blocks s)"
  shows "frame L s (loaded b u pg s)"
proof -
  let ?s = "upd_block b (moved_in u)
      (s\<lparr>physmem := (physmem s)(u := pg), free_mem_blocks := tl (free_mem_blocks s), clock_queue := clock_queue s @ [b]\<rparr>)"
  have "frame L s ?s" by (simp add: frame_def)
  from frame_upd_ptes[OF assms this, of b "cached u"] show ?thesis by (simp add: loaded_def)
qed

lemma cache_ok:
  assumes bs: "backing_store (file_read E) (file_write E)" and O: "ok E N ex L s" and N: "1 < ram_pages N"
    and ub: "users L b \<noteq> {}" and rb: "\<not> resident (blocks s b)"
  shows "\<exists>r s'. cache_nonresident_page E b s = Inr (r, s') \<and> ok E N ex L s' \<and> frame L s s'
    \<and> same_view (file_read E) L s s' \<and> (r = 0 \<and> resident (blocks s' b) \<or> r = - 1 \<and> \<not> is_swap (blocks s b)
      \<and> file_view (file_read E) s (file_key (blocks s b)) = None)"
proof -
  note c = coreD[OF O[unfolded ok_def]]
  have t: "btype (blocks s b) \<noteq> T_phys" by (rule out_okD(1)[OF c(7) ub rb])
  obtain s1 where 1: "ensure_free E s = Inr s1" "ok E N ex L s1" "frame L s s1" "same_view (file_read E) L s s1"
      "free_mem_blocks s1 \<noteq> []" "shrinks s s1"
    using ensure_free_ok[OF bs O N] by blast
  note c1 = coreD[OF 1(2)[unfolded ok_def]]
  obtain u fm where fm: "free_mem_blocks s1 = u # fm" using 1(5) by (cases "free_mem_blocks s1") auto
  have rb1: "\<not> resident (blocks s1 b)" using 1(6) rb by (auto simp: shrinks_def)
  have same: "is_swap (blocks s1 b) = is_swap (blocks s b)" "file_key (blocks s1 b) = file_key (blocks s b)"
    using 1(3) by (simp_all add: frame_def)
  let ?name = "if is_swap (blocks s1 b) then None else Some (filename (blocks s1 b))"
  note o1 = out_okD[OF c1(7) ub rb1]
  show ?thesis
  proof (cases "file_read E (disk s1) ?name (location (blocks s1 b))")
    case None
    have ns: "\<not> is_swap (blocks s1 b)" using None o1(3) by auto
    have "known L (clock_queue s1) b" using ub by (simp add: known_def)
    then have "file_mapping_table s1 (file_key (blocks s1 b)) = Some b" using files_ok_block[OF c1(6)] ns by blast
    then have "file_view (file_read E) s1 (file_key (blocks s1 b)) = None"
      using None rb1 by (simp add: file_view_def content_def Let_def)
    then have "file_view (file_read E) s (file_key (blocks s b)) = None"
      using 1(4) same by (simp add: same_view_def)
    then show ?thesis
      using rb t 1 fm None ns same by (auto simp: cache_nonresident_page_def front_def Let_def)
  next
    case (Some pg)
    let ?m = "upd_block b (moved_in u)
      (s1\<lparr>physmem := (physmem s1)(u := pg), free_mem_blocks := fm, clock_queue := clock_queue s1 @ [b]\<rparr>)"
    have "for_ptes b (cached u) ?m = Inr (upd_pte_set (set (ptes (blocks ?m b))) (cached u) ?m)"
      by (rule for_ptes_eq[where B = "blocks s1" and L = L]) (use c1(1) in simp_all)
    then have f: "for_ptes b (cached u) ?m = Inr (loaded b u pg s1)" using fm by (simp add: loaded_def)
    have mi: "moved_in u = (\<lambda>x. x\<lparr>btype := T_phys, referenced := True, resident := True, dirty := False, location := u\<rparr>)"
      by (simp add: moved_in_def fun_eq_iff)
    have pp: "phys_page u = u" by (rule bits30_page(4)[OF c1(4)]) (use fm in simp)
    have e: "cache_nonresident_page E b s = Inr (0, loaded b u pg s1)"
      using rb t 1(1) fm Some f[unfolded mi] pp by (simp add: cache_nonresident_page_def front_def Let_def)
    have "ok E N ex L (loaded b u pg s1)" and "same_view (file_read E) L s1 (loaded b u pg s1)"
      using loaded_ok[OF 1(2) fm ub rb1 Some] by blast+
    moreover have "frame L s1 (loaded b u pg s1)" by (rule loaded_frame[OF c1(1)])
    ultimately show ?thesis
      using e frame_trans[OF 1(3)] same_view_trans[OF 1(4)] by (auto simp: loaded_def)
  qed
qed

subsection \<open>Changing permissions\<close>

text \<open>The marks of a block in memory and the entries of its pages change, nothing else.\<close>

definition retag :: "nat \<Rightarrow> bool \<Rightarrow> bool \<Rightarrow> (page_table_entry_t \<Rightarrow> page_table_entry_t) \<Rightarrow> 'd pager \<Rightarrow> 'd pager" where
  "retag b r d f s = upd_pte_set (set (ptes (blocks s b))) f (upd_block b (\<lambda>x. x\<lparr>referenced := r, dirty := d\<rparr>) s)"

lemma retag_simps [simp]:
  "blocks (retag b r d f s) = (blocks s)(b := (blocks s b)\<lparr>referenced := r, dirty := d\<rparr>)"
  "clock_queue (retag b r d f s) = clock_queue s"
  "free_mem_blocks (retag b r d f s) = free_mem_blocks s"
  "free_swap_blocks (retag b r d f s) = free_swap_blocks s"
  "file_mapping_table (retag b r d f s) = file_mapping_table s"
  "physmem (retag b r d f s) = physmem s"
  "disk (retag b r d f s) = disk s"
  "next_block (retag b r d f s) = next_block s"
  "shape (retag b r d f s) = shape s"
  "curr_pid (retag b r d f s) = curr_pid s"
  "page_table_base_register (retag b r d f s) = page_table_base_register s"
  "tmp_buffer (retag b r d f s) = tmp_buffer s"
  by (simp_all add: retag_def)

lemma pte_at_retag:
  "pte_at (retag b r d f s) = (\<lambda>x. if x \<in> set (ptes (blocks s b)) then map_option f (pte_at s x) else pte_at s x)"
  by (simp add: retag_def fun_eq_iff)

lemma retag_ok:
  assumes O: "ok E N ex L s" and rb: "resident (blocks s b)" and dd: "dirty (blocks s b) \<Longrightarrow> d"
    and z: "b = zero_page \<Longrightarrow> \<not> d \<and> (\<forall>e. ppage e = 0 \<longrightarrow> read_enable e \<longrightarrow> \<not> write_enable e \<longrightarrow>
      ppage (f e) = 0 \<and> read_enable (f e) \<and> \<not> write_enable (f e))"
    and en: "\<And>x e. b \<noteq> zero_page \<Longrightarrow> L x = Some b \<Longrightarrow> entry_ok L x (blocks s b) b e \<Longrightarrow>
      entry_ok L x ((blocks s b)\<lparr>referenced := r, dirty := d\<rparr>) b (f e)"
  shows "ok E N ex L (retag b r d f s)"
proof -
  note c = coreD[OF O[unfolded ok_def]]
  let ?B = "(blocks s)(b := (blocks s b)\<lparr>referenced := r, dirty := d\<rparr>)"
  let ?T = "\<lambda>x. if x \<in> set (ptes (blocks s b)) then map_option f (pte_at s x) else pte_at s x"
  have "ptes_ok L ?T ?B" by (rule ptes_ok_cong[OF c(1)]) (auto split: if_splits)
  moreover have "swap_ok ex L ?B (free_swap_blocks s)" by (rule swap_ok_cong[OF c(2)]) auto
  moreover have "zero_ok L ?B ?T (physmem s)"
  proof (cases "b = zero_page")
    case True
    then show ?thesis using c(3) z by (auto simp: zero_ok_def)
  next
    case False
    then show ?thesis
      by (intro zero_ok_cong[OF c(3)]) (use known_block_ptes[OF c(1) False] in auto)
  qed
  moreover have "mem_ok (ram_pages N) ?B (clock_queue s) (free_mem_blocks s)"
  proof (rule mem_ok_cong[OF c(4)])
    have "(\<lambda>b. location (?B b)) = (\<lambda>b. location (blocks s b))" by auto
    then show "mset (free_mem_blocks s @ map (\<lambda>b. location (?B b)) (clock_queue s))
        = mset (free_mem_blocks s @ map (\<lambda>b. location (blocks s b)) (clock_queue s))" by (simp only:)
  qed
  moreover have "queue_ok L ?B (clock_queue s)" by (rule queue_ok_cong[OF c(5)]) auto
  moreover have "files_ok L ?B (clock_queue s) (file_mapping_table s)"
    by (rule files_ok_known[OF c(6) refl]) (auto simp: file_key_def split: if_splits)
  moreover have "out_ok (file_read E) L ?B (disk s)" by (rule out_ok_cong[OF c(7)]) (use rb in \<open>auto split: if_splits\<close>)
  moreover have "clean_ok (file_read E) ?B (clock_queue s) (physmem s) (disk s)"
    using c(8) dd unfolding clean_ok_def by (auto split: if_splits)
  moreover have "pte_ok L ?B ?T"
  proof (cases "b = zero_page")
    case True
    have "x \<in> set (ptes (blocks s b)) \<Longrightarrow> L x = Some b" for x using c(1) True by (auto simp: ptes_ok_def)
    then show ?thesis using c(9) True unfolding pte_ok_def by auto
  next
    case False
    then show ?thesis using c(9) known_block_ptes[OF c(1) False] en unfolding pte_ok_def by auto
  qed
  moreover have "swap_all (swap_size N) ?B (free_swap_blocks s)" by (rule swap_all_cong[OF c(11)]) auto
  moreover have "fresh_ok L ?B (clock_queue s) (next_block s)" by (rule fresh_ok_cong[OF c(10)]) auto
  ultimately show ?thesis unfolding ok_def core_def retag_simps pte_at_retag by (simp only:)
qed

lemma retag_view: "same_view rd L s (retag b r d f s)"
  by (rule same_view_cong) (auto simp: content_def file_key_def Let_def)

lemma retag_frame:
  assumes "ptes_ok L (pte_at s) (blocks s)"
  shows "frame L s (retag b r d f s)"
proof -
  have "frame L s (upd_block b (\<lambda>x. x\<lparr>referenced := r, dirty := d\<rparr>) s)" by (simp add: frame_def file_key_def)
  from frame_upd_ptes[OF assms this, of b f] show ?thesis by (simp add: retag_def)
qed

lemma upd_pte_set_twice: "upd_pte_set X f (upd_pte_set X g s) = upd_pte_set X (\<lambda>e. f (g e)) s"
proof -
  have "process_info_mp (upd_pte_set X f (upd_pte_set X g s)) p = process_info_mp (upd_pte_set X (\<lambda>e. f (g e)) s) p" for p
    by (cases "process_info_mp s p") (simp_all add: upd_pte_set_def cong: if_cong)
  then show ?thesis by (auto simp: upd_pte_set_def intro!: pager.equality)
qed

lemma upd_pte_set_block: "upd_pte_set X f (upd_block b g s) = upd_block b g (upd_pte_set X f s)"
  by (simp add: upd_pte_set_def upd_block_def)

lemma upd_block_same: "g (blocks s b) = blocks s b \<Longrightarrow> upd_block b g s = s"
  by (simp add: upd_block_def)

definition grant :: "bool \<Rightarrow> page_table_entry_t \<Rightarrow> page_table_entry_t" where
  "grant w e = (if w then e\<lparr>read_enable := True, write_enable := True\<rparr> else e\<lparr>read_enable := True\<rparr>)"

definition writable :: "mem_block \<Rightarrow> bool" where
  "writable x \<longleftrightarrow> dirty x \<and> (is_swap x \<and> length (ptes x) = 1 \<or> \<not> is_swap x)"

lemma for_ptes_ok:
  assumes "ok E N ex L s" and "ptes (blocks s' b) = ptes (blocks s b)" and "\<And>x. pte_at s' x = None \<longleftrightarrow> pte_at s x = None"
  shows "for_ptes b f s' = Inr (upd_pte_set (set (ptes (blocks s b))) f s')"
proof -
  have "ptes_ok L (pte_at s') (blocks s)"
    by (rule ptes_ok_cong[OF coreD(1)[OF assms(1)[unfolded ok_def]] refl]) (simp add: assms(3))
  from for_ptes_eq[OF this assms(2)] show ?thesis by (simp add: assms(2))
qed

lemma read_fault_eq:
  assumes O: "ok E N ex L s" and rb: "resident (blocks s b)"
  shows "read_fault_handler b s = Inr (retag b True (dirty (blocks s b)) (grant (writable (blocks s b))) s)"
proof -
  let ?X = "set (ptes (blocks s b))"
  let ?w = "\<lambda>e. e\<lparr>write_enable := True\<rparr> :: page_table_entry_t"
  let ?r = "\<lambda>e. e\<lparr>read_enable := True\<rparr> :: page_table_entry_t"
  let ?m = "\<lambda>x. x\<lparr>referenced := True, resident := True\<rparr> :: mem_block"
  have m: "upd_block b ?m s' = upd_block b (\<lambda>x. x\<lparr>referenced := True, dirty := dirty (blocks s b)\<rparr>) s'"
    if "blocks s' b = blocks s b" for s'
  proof -
    have "?m (blocks s b) = (blocks s b)\<lparr>referenced := True, dirty := dirty (blocks s b)\<rparr>"
      using rb by (cases "blocks s b") simp
    then show ?thesis by (simp only: upd_block_def that)
  qed
  have f1: "for_ptes b ?w s = Inr (upd_pte_set ?X ?w s)" by (rule for_ptes_ok[OF O]) simp_all
  have f2: "for_ptes b ?r (upd_block b ?m (upd_pte_set ?X ?w s)) = Inr (upd_pte_set ?X ?r (upd_block b ?m (upd_pte_set ?X ?w s)))"
    by (rule for_ptes_ok[OF O]) simp_all
  have f3: "for_ptes b ?r (upd_block b ?m s) = Inr (upd_pte_set ?X ?r (upd_block b ?m s))"
    by (rule for_ptes_ok[OF O]) simp_all
  have g: "(\<lambda>e. ?r (?w e)) = grant True" "?r = grant False" by (auto simp: grant_def fun_eq_iff)
  have u: "read_fault_handler b s = bindr (if writable (blocks s b) then for_ptes b ?w s else Inr s)
      (\<lambda>s. for_ptes b ?r (upd_block b ?m s))"
    by (simp only: read_fault_handler_def writable_def Let_def)
  show ?thesis
  proof (cases "writable (blocks s b)")
    case True
    have "read_fault_handler b s = Inr (upd_pte_set ?X ?r (upd_block b ?m (upd_pte_set ?X ?w s)))"
      using u f1 f2 by (simp only: True if_True bindr_simps)
    also have "\<dots> = Inr (upd_pte_set ?X (\<lambda>e. ?r (?w e)) (upd_block b (\<lambda>x. x\<lparr>referenced := True, dirty := dirty (blocks s b)\<rparr>) s))"
      by (simp only: m[of "upd_pte_set ?X ?w s", simplified] upd_pte_set_block upd_pte_set_twice)
    finally show ?thesis by (simp only: True retag_def g(1))
  next
    case False
    have "read_fault_handler b s = Inr (upd_pte_set ?X ?r (upd_block b ?m s))"
      using u f3 by (simp only: False if_False bindr_simps)
    then show ?thesis by (simp only: m[of s, simplified] False retag_def g(2))
  qed
qed

lemma sole_user:
  assumes "ptes_ok L T B" and "b \<noteq> zero_page" and "length (ptes (B b)) = 1" and "L x = Some b"
  shows "users L b = {x}"
proof -
  have u: "set (ptes (B b)) = users L b" using assms(1,2) by (simp add: ptes_ok_def)
  obtain y where y: "ptes (B b) = [y]" using assms(3) by (cases "ptes (B b)") auto
  have "x \<in> users L b" using assms(4) by simp
  then have "x = y" unfolding u[symmetric] y by simp
  then show ?thesis unfolding u[symmetric] y by simp
qed

lemma read_fault_ok:
  assumes O: "ok E N ex L s" and rb: "resident (blocks s b)"
  shows "\<exists>s'. read_fault_handler b s = Inr s' \<and> ok E N ex L s' \<and> frame L s s' \<and> same_view (file_read E) L s s'
    \<and> s' = retag b True (dirty (blocks s b)) (grant (writable (blocks s b))) s"
proof -
  note c = coreD[OF O[unfolded ok_def]]
  have "ok E N ex L (retag b True (dirty (blocks s b)) (grant (writable (blocks s b))) s)"
  proof (rule retag_ok[OF O rb])
    assume "b = zero_page"
    then show "\<not> dirty (blocks s b) \<and> (\<forall>e. ppage e = 0 \<longrightarrow> read_enable e \<longrightarrow> \<not> write_enable e \<longrightarrow>
        ppage (grant (writable (blocks s b)) e) = 0 \<and> read_enable (grant (writable (blocks s b)) e)
          \<and> \<not> write_enable (grant (writable (blocks s b)) e))"
      using c(3) by (simp add: zero_ok_def grant_def writable_def)
  next
    fix x e
    assume x: "b \<noteq> zero_page" "L x = Some b" "entry_ok L x (blocks s b) b e"
    have "users L b = {x}" if "length (ptes (blocks s b)) = 1" by (rule sole_user[OF c(1) x(1) that x(2)])
    then show "entry_ok L x ((blocks s b)\<lparr>referenced := True, dirty := dirty (blocks s b)\<rparr>) b (grant (writable (blocks s b)) e)"
      using rb x(3) unfolding entry_ok_def grant_def writable_def by auto
  qed simp
  then show ?thesis using read_fault_eq[OF O rb] retag_frame[OF c(1)] retag_view by blast
qed

end
