(* ===== verification/Pager_Copy.thy ===== *)
theory Pager_Copy
  imports Pager_Cache
begin

text \<open>
  Copy on write.  A page is detached from the block that it shares, room is made, and the page gets a
  block of its own with the same data and one of the reserved swap blocks.
\<close>

subsection \<open>Detaching a page\<close>

lemma users_remove: "users (L(x := None)) b = users L b - {x}"
  by (auto simp: users_def)

lemma users_add: "L x = None \<Longrightarrow> users (L(x \<mapsto> a)) b = (if b = a then insert x (users L b) else users L b)"
  by (auto simp: users_def)

definition detached :: "nat \<Rightarrow> pte_ptr \<Rightarrow> 'd pager \<Rightarrow> 'd pager" where
  "detached b x s = upd_block b (\<lambda>blk. blk\<lparr>ptes := removeAll x (ptes blk)\<rparr>) s"

lemma detached_simps [simp]:
  "blocks (detached b x s) = (blocks s)(b := (blocks s b)\<lparr>ptes := removeAll x (ptes (blocks s b))\<rparr>)"
  "clock_queue (detached b x s) = clock_queue s"
  "free_mem_blocks (detached b x s) = free_mem_blocks s"
  "free_swap_blocks (detached b x s) = free_swap_blocks s"
  "file_mapping_table (detached b x s) = file_mapping_table s"
  "physmem (detached b x s) = physmem s"
  "disk (detached b x s) = disk s"
  "next_block (detached b x s) = next_block s"
  "shape (detached b x s) = shape s"
  "curr_pid (detached b x s) = curr_pid s"
  "page_table_base_register (detached b x s) = page_table_base_register s"
  "pte_at (detached b x s) = pte_at s"
  by (simp_all add: detached_def)

lemma detached_ptes_ok:
  assumes P: "ptes_ok L T B" and x: "L x = Some b"
  shows "ptes_ok (L(x := None)) T (B(b := (B b)\<lparr>ptes := removeAll x (ptes (B b))\<rparr>))"
proof -
  have "finite (dom (L(x := None)))" using P by (simp add: ptes_ok_def)
  moreover have "users (L(x := None)) c = users L c" if "c \<noteq> b" for c using x that by (auto simp: users_def)
  ultimately show ?thesis
    using P unfolding ptes_ok_def users_remove by (auto simp: distinct_removeAll)
qed

lemma detached_swap_ok:
  assumes P: "ptes_ok L T B" and S: "swap_ok None L B FS" and x: "L x = Some b" and sw: "is_swap (B b)"
  shows "swap_ok (Some b) (L(x := None)) (B(b := (B b)\<lparr>ptes := removeAll x (ptes (B b))\<rparr>)) FS"
proof -
  have "card (users L b) = card (users L b - {x}) + 1"
    using card_Suc_Diff1[OF finite_users[OF P, of b], of x] x by simp
  moreover have "users L c - {x} = users L c" if "c \<noteq> b" for c using x that by (auto simp: users_def)
  ultimately show ?thesis
    using S sw unfolding swap_ok_def users_remove by (auto split: if_splits)
qed

lemma detached_ok:
  assumes O: "ok E N None L s" and x: "L x = Some b" and sw: "is_swap (blocks s b)" and rb: "resident (blocks s b)"
    and others: "b \<noteq> zero_page \<Longrightarrow> users L b \<noteq> {x}"
  shows "ok E N (Some b) (L(x := None)) (detached b x s)"
proof -
  note c = coreD[OF O[unfolded ok_def]]
  let ?L = "L(x := None)"
  let ?B = "(blocks s)(b := (blocks s b)\<lparr>ptes := removeAll x (ptes (blocks s b))\<rparr>)"
  have sub: "users ?L e \<noteq> {} \<Longrightarrow> users L e \<noteq> {}" for e by (auto simp: users_remove)
  have oth: "users ?L e = users L e" if "e \<noteq> b" for e using x that by (auto simp: users_def)
  have ub: "users ?L b \<noteq> {}" if "b \<noteq> zero_page"
    using others[OF that] x by (auto simp: users_remove)
  have inq: "b \<in> set (clock_queue s)" if "b \<noteq> zero_page"
    by (rule queue_ok_in[OF c(5) that usersI[of L x b] rb]) (rule x)
  have "ptes_ok ?L (pte_at s) ?B" by (rule detached_ptes_ok[OF c(1) x])
  moreover have "swap_ok (Some b) ?L ?B (free_swap_blocks s)" by (rule detached_swap_ok[OF c(1,2) x sw])
  moreover have "zero_ok ?L ?B (pte_at s) (physmem s)" using c(3) by (auto simp: zero_ok_def split: if_splits)
  moreover have "mem_ok (ram_pages N) ?B (clock_queue s) (free_mem_blocks s)"
  proof (rule mem_ok_cong[OF c(4)])
    have "(\<lambda>b. location (?B b)) = (\<lambda>b. location (blocks s b))" by auto
    then show "mset (free_mem_blocks s @ map (\<lambda>b. location (?B b)) (clock_queue s))
        = mset (free_mem_blocks s @ map (\<lambda>b. location (blocks s b)) (clock_queue s))" by (simp only:)
  qed
  moreover have "queue_ok ?L ?B (clock_queue s)"
  proof (rule queue_okI)
    show "e \<noteq> zero_page \<and> resident (?B e) \<and> btype (?B e) = T_phys \<and> (is_swap (?B e) \<longrightarrow> users ?L e \<noteq> {})"
      if "e \<in> set (clock_queue s)" for e
      using queue_okD[OF c(5) that] ub oth by (cases "e = b") simp_all
    show "e \<in> set (clock_queue s)" if "e \<noteq> zero_page" "users ?L e \<noteq> {}" "resident (?B e)" for e
      using queue_ok_in[OF c(5) that(1) sub[OF that(2)]] that(3) by (cases "e = b") simp_all
  qed
  moreover have "files_ok ?L ?B (clock_queue s) (file_mapping_table s)"
  proof (rule files_ok_known[OF c(6)])
    show "known ?L (clock_queue s) e = known L (clock_queue s) e" if "\<not> is_swap (?B e)" for e
      using oth[of e] that sw by (cases "e = b") (simp_all add: known_def)
  qed (auto simp: file_key_def split: if_splits)
  moreover have "out_ok (file_read E) ?L ?B (disk s)"
  proof -
    have "out_ok (file_read E) L ?B (disk s)" by (rule out_ok_cong[OF c(7)]) (auto split: if_splits)
    then show ?thesis using sub unfolding out_ok_def by blast
  qed
  moreover have "clean_ok (file_read E) ?B (clock_queue s) (physmem s) (disk s)"
    by (rule clean_ok_cong[OF c(8)]) (auto simp: file_key_def)
  moreover have "pte_ok ?L ?B (pte_at s)"
    unfolding pte_ok_def
  proof (intro allI impI)
    fix y e t
    assume y: "?L y = Some e" "e \<noteq> zero_page" "pte_at s y = Some t"
    then have n: "y \<noteq> x" "L y = Some e" by (auto split: if_splits)
    have k: "entry_ok L y (blocks s e) e t" using c(9) n(2) y(2,3) unfolding pte_ok_def by blast
    have "users ?L e = {y}" if "users L e = {y}" using that n by (auto simp: users_remove)
    then show "entry_ok ?L y (?B e) e t" using k by (auto simp: entry_ok_def)
  qed
  moreover have "swap_all (swap_size N) ?B (free_swap_blocks s)" by (rule swap_all_cong[OF c(11)]) auto
  moreover have "fresh_ok ?L ?B (clock_queue s) (next_block s)"
    using c(10) sub unfolding fresh_ok_def known_def by auto
  ultimately show ?thesis unfolding ok_def core_def detached_simps by (simp only:)
qed

lemma detached_view: "same_view rd L s (detached b x s)"
  by (rule same_view_cong) (auto simp: content_def file_key_def Let_def)

subsection \<open>Permissions of the pages that remain\<close>

lemma update_permissions_ok:
  assumes O: "ok E N ex L s" and rb: "resident (blocks s b)"
  shows "\<exists>s'. update_block_permissions b s = Inr s' \<and> ok E N ex L s' \<and> frame L s s' \<and> same_view (file_read E) L s s'
    \<and> (\<exists>f. s' = retag b (referenced (blocks s b)) (dirty (blocks s b)) f s)"
proof -
  note c = coreD[OF O[unfolded ok_def]]
  let ?x = "blocks s b"
  let ?g = "\<lambda>e. e\<lparr>write_enable := True, read_enable := True\<rparr> :: page_table_entry_t"
  show ?thesis
  proof (cases "dirty ?x \<and> length (ptes ?x) = 1 \<and> referenced ?x")
    case True
    have bz: "b \<noteq> zero_page" using True c(3) by (auto simp: zero_ok_def)
    have "for_ptes b ?g s = Inr (upd_pte_set (set (ptes ?x)) ?g s)" by (rule for_ptes_ok[OF O]) simp_all
    moreover have "upd_block b (\<lambda>x. x\<lparr>referenced := referenced ?x, dirty := dirty ?x\<rparr>) s = s"
      by (rule upd_block_same) simp
    ultimately have e: "update_block_permissions b s = Inr (retag b (referenced ?x) (dirty ?x) ?g s)"
      using True by (simp only: update_block_permissions_def Let_def if_True retag_def simp_thms)
    have "ok E N ex L (retag b (referenced ?x) (dirty ?x) ?g s)"
    proof (rule retag_ok[OF O rb])
      fix x e
      assume x: "b \<noteq> zero_page" "L x = Some b" "entry_ok L x ?x b e"
      have "users L b = {x}" using True by (intro sole_user[OF c(1) x(1) _ x(2)]) simp
      then show "entry_ok L x (?x\<lparr>referenced := referenced ?x, dirty := dirty ?x\<rparr>) b (?g e)"
        using rb True x(3) by (simp add: entry_ok_def)
    qed (use bz in simp_all)
    then show ?thesis using e retag_frame[OF c(1)] retag_view by blast
  next
    case False
    have "s = retag b (referenced ?x) (dirty ?x) id s"
    proof -
      have 1: "upd_block b (\<lambda>x. x\<lparr>referenced := referenced ?x, dirty := dirty ?x\<rparr>) s = s" by (rule upd_block_same) simp
      have "map_option (\<lambda>k. k\<lparr>page_table := \<lambda>i. if q i then id (page_table k i) else page_table k i\<rparr>) o' = o'"
        for o' :: "kernel_process_info option" and q by (cases o') (simp_all cong: if_cong)
      then have "upd_pte_set X id s = s" for X by (simp add: upd_pte_set_def)
      then show ?thesis unfolding retag_def 1 by simp
    qed
    moreover have "update_block_permissions b s = Inr s"
      using False by (simp only: update_block_permissions_def Let_def if_False)
    ultimately show ?thesis using O by (metis frame_refl same_view_refl)
  qed
qed

subsection \<open>The layout of a state\<close>

definition loc_of :: "'d pager \<Rightarrow> layout" where
  "loc_of s x = (case process_info_mp s (fst x) of None \<Rightarrow> None | Some k \<Rightarrow> data_location (page_info_table k (snd x)))"

lemma loc_of_shape: "shape s' = shape s \<Longrightarrow> loc_of s' = loc_of s"
proof
  fix x :: pte_ptr
  assume "shape s' = shape s"
  then have "shape s' (fst x) = shape s (fst x)" by simp
  then show "loc_of s' x = loc_of s x" by (auto simp: loc_of_def shape_def split: option.splits)
qed

lemma loc_of_pte: "loc_of s x = Some b \<Longrightarrow> pte_at s x \<noteq> None"
  by (auto simp: loc_of_def pte_at_def split: option.splits)

lemma set_page_info_views [simp]:
  "pte_at (set_page_info p i f s) = pte_at s"
  "blocks (set_page_info p i f s) = blocks s"
  "clock_queue (set_page_info p i f s) = clock_queue s"
  "free_mem_blocks (set_page_info p i f s) = free_mem_blocks s"
  "free_swap_blocks (set_page_info p i f s) = free_swap_blocks s"
  "file_mapping_table (set_page_info p i f s) = file_mapping_table s"
  "physmem (set_page_info p i f s) = physmem s"
  "disk (set_page_info p i f s) = disk s"
  "next_block (set_page_info p i f s) = next_block s"
  "curr_pid (set_page_info p i f s) = curr_pid s"
  "tmp_buffer (set_page_info p i f s) = tmp_buffer s"
  "page_table_base_register (set_page_info p i f s) = page_table_base_register s"
  by (auto simp: set_page_info_def set_process_def pte_at_def fun_eq_iff split: option.splits)

lemma loc_of_set_page_info:
  assumes "process_info_mp s p \<noteq> None" and "\<And>info. data_location (f info) = Some b"
  shows "loc_of (set_page_info p i f s) = (loc_of s)((p, i) \<mapsto> b)"
  using assms by (auto simp: loc_of_def set_page_info_def set_process_def fun_eq_iff split: option.splits)

subsection \<open>The copy\<close>

definition fresh_copy :: "nat \<Rightarrow> nat \<Rightarrow> pte_ptr \<Rightarrow> mem_block" where
  "fresh_copy u sb x = (new_mem_block True u T_phys)
     \<lparr>is_swap := True, swap_blocks := [sb], ptes := [x], dirty := True, resident := True, referenced := True\<rparr>"

definition copied :: "pte_ptr \<Rightarrow> nat \<Rightarrow> nat \<Rightarrow> 'd pager \<Rightarrow> 'd pager" where
  "copied x b u s =
     (let a = next_block s; sb = last (swap_blocks (blocks s b))
      in (upd_pte_set {x} (\<lambda>e. e\<lparr>ppage := bits30 u\<rparr>)
           (upd_block b (\<lambda>blk. blk\<lparr>swap_blocks := butlast (swap_blocks blk)\<rparr>)
             (set_page_info (fst x) (snd x) (\<lambda>info. info\<lparr>data_location := Some a\<rparr>)
               (s\<lparr>blocks := (blocks s)(a := fresh_copy u sb x), next_block := a + 1\<rparr>))))
         \<lparr>free_mem_blocks := tl (free_mem_blocks s), clock_queue := clock_queue s @ [a],
          physmem := (physmem s)(u := tmp_buffer s)\<rparr>)"

lemma fresh_copy_simps [simp]:
  "is_swap (fresh_copy u sb x)" "swap_blocks (fresh_copy u sb x) = [sb]" "ptes (fresh_copy u sb x) = [x]"
  "dirty (fresh_copy u sb x)" "resident (fresh_copy u sb x)" "referenced (fresh_copy u sb x)"
  "location (fresh_copy u sb x) = u" "btype (fresh_copy u sb x) = T_phys"
  by (simp_all add: fresh_copy_def new_mem_block_def)

lemma copied_simps:
  assumes "b \<noteq> next_block s"
  shows "blocks (copied x b u s) = (blocks s)(next_block s := fresh_copy u (last (swap_blocks (blocks s b))) x,
      b := (blocks s b)\<lparr>swap_blocks := butlast (swap_blocks (blocks s b))\<rparr>)"
    and "clock_queue (copied x b u s) = clock_queue s @ [next_block s]"
    and "free_mem_blocks (copied x b u s) = tl (free_mem_blocks s)"
    and "free_swap_blocks (copied x b u s) = free_swap_blocks s"
    and "file_mapping_table (copied x b u s) = file_mapping_table s"
    and "physmem (copied x b u s) = (physmem s)(u := tmp_buffer s)"
    and "disk (copied x b u s) = disk s"
    and "next_block (copied x b u s) = next_block s + 1"
    and "curr_pid (copied x b u s) = curr_pid s"
    and "page_table_base_register (copied x b u s) = page_table_base_register s"
    and "pte_at (copied x b u s) = (\<lambda>y. if y = x then map_option (\<lambda>e. e\<lparr>ppage := bits30 u\<rparr>) (pte_at s y) else pte_at s y)"
  using assms by (simp_all add: copied_def Let_def fun_eq_iff)

lemma copied_swap_ok:
  assumes P: "ptes_ok L T B" and S: "swap_ok (Some b) L B FS" and sw: "is_swap (B b)" and x: "L x = None"
    and a: "users L a = {}" "a \<noteq> b" "swap_blocks (B a) = []"
  shows "swap_ok None (L(x \<mapsto> a)) (B(a := fresh_copy u (last (swap_blocks (B b))) x,
      b := (B b)\<lparr>swap_blocks := butlast (swap_blocks (B b))\<rparr>)) FS"
proof -
  let ?sb = "swap_blocks (B b)"
  let ?B = "B(a := fresh_copy u (last ?sb) x, b := (B b)\<lparr>swap_blocks := butlast ?sb\<rparr>)"
  have len: "length ?sb = card (users L b) + 1" using S sw by (simp add: swap_ok_def)
  then have ne: "?sb \<noteq> []" by auto
  have d: "distinct ?sb" using S by (simp add: swap_ok_def)
  have split: "?sb = butlast ?sb @ [last ?sb]" using ne by simp
  have bl: "set (butlast ?sb) \<subseteq> set ?sb" by (auto dest: in_set_butlastD)
  have la: "last ?sb \<in> set ?sb" using ne by simp
  have nl: "last ?sb \<notin> set (butlast ?sb)" using d split by (metis distinct_append distinct.simps(2) disjoint_iff list.set_intros(1))
  have cnt: "length (swap_blocks (?B e)) = (if is_swap (?B e) then card (users (L(x \<mapsto> a)) e) else 0)" for e
  proof -
    have "length (swap_blocks (B e)) = (if is_swap (B e) then card (users L e) + (if Some b = Some e then 1 else 0) else 0)"
      using S unfolding swap_ok_def by blast
    then show ?thesis using a(1,2) len sw by (auto simp: users_add[of L x, OF x] split: if_splits)
  qed
  have dis: "set (swap_blocks (B e)) \<inter> set (swap_blocks (B f)) = {}" if "e \<noteq> f" for e f
    using S that by (simp add: swap_ok_def)
  have fs: "set (swap_blocks (B e)) \<inter> set FS = {}" for e using S by (simp add: swap_ok_def)
  have db: "distinct (swap_blocks (?B e))" for e
    using S distinct_butlast[OF d] by (simp add: swap_ok_def)
  have f1: "set (swap_blocks (?B e)) \<inter> set FS = {}" for e
    using fs[of e] fs[of b] bl la by auto
  have f2: "set (swap_blocks (?B e)) \<inter> set (swap_blocks (?B f)) = {}" if "e \<noteq> f" for e f
    using dis[OF that] dis[of b e] dis[of b f] bl la nl that by auto
  show ?thesis using S cnt db f1 f2 unfolding swap_ok_def by simp
qed

lemma hd_butlast: "length xs > 1 \<Longrightarrow> hd (butlast xs) = hd xs"
  by (cases xs) auto

lemma copied_ok:
  assumes O: "ok E N (Some b) L s" and x: "L x = None" and fm: "free_mem_blocks s = u # fm"
    and sw: "is_swap (blocks s b)" and kb: "b = zero_page \<or> users L b \<noteq> {}"
    and e: "pte_at s x = Some e" "\<not> write_enable e"
  shows "ok E N None (L(x \<mapsto> next_block s)) (copied x b u s)" and "b \<noteq> next_block s"
    and "same_view (file_read E) L s (copied x b u s)"
proof -
  note c = coreD[OF O[unfolded ok_def]]
  let ?a = "next_block s"
  let ?L = "L(x \<mapsto> ?a)"
  have fr: "\<not> known L (clock_queue s) ?a" "swap_blocks (blocks s ?a) = []" "zero_page < ?a"
    using c(10) by (simp_all add: fresh_ok_def)
  have ua: "users L ?a = {}" and qa: "?a \<notin> set (clock_queue s)" using fr(1) by (simp_all add: known_def)
  show ab: "b \<noteq> ?a" using kb ua fr(3) by auto
  note cs = copied_simps[OF ab, of x u]
  let ?B = "(blocks s)(?a := fresh_copy u (last (swap_blocks (blocks s b))) x,
      b := (blocks s b)\<lparr>swap_blocks := butlast (swap_blocks (blocks s b))\<rparr>)"
  let ?T = "\<lambda>y. if y = x then map_option (\<lambda>e. e\<lparr>ppage := bits30 u\<rparr>) (pte_at s y) else pte_at s y"
  let ?Q = "clock_queue s @ [?a]"
  let ?M = "(physmem s)(u := tmp_buffer s)"
  note us = users_add[of L x, OF x]
  note uu = bits30_page[OF c(4), of u, simplified fm, simplified]
  have az: "?a \<noteq> zero_page" using fr(3) by simp
  have lu: "location (blocks s d) \<noteq> u" if "d \<in> set (clock_queue s)" for d
    using c(4) fm that by (auto simp: mem_ok_def)
  have hb: "hd (butlast (swap_blocks (blocks s b))) = hd (swap_blocks (blocks s b))" if "users L b \<noteq> {}"
  proof (rule hd_butlast)
    have "card (users L b) > 0" using finite_users[OF c(1)] that by (simp add: card_gt_0_iff)
    then show "length (swap_blocks (blocks s b)) > 1" using c(2) sw by (simp add: swap_ok_def)
  qed
  have "ptes_ok ?L ?T ?B"
    using c(1) ua ab az e unfolding ptes_ok_def us by auto
  moreover have "swap_ok None ?L ?B (free_swap_blocks s)"
    by (rule copied_swap_ok[OF c(1,2) sw x ua _ fr(2)]) (use ab in simp)
  moreover have "zero_ok ?L ?B ?T ?M"
    using c(3) az uu x by (auto simp: zero_ok_def)
  moreover have "mem_ok (ram_pages N) ?B ?Q fm"
  proof (rule mem_ok_cong[OF c(4)])
    have m: "map (\<lambda>b. location (?B b)) ?Q = map (\<lambda>b. location (blocks s b)) (clock_queue s) @ [u]" using qa ab by auto
    show "mset (fm @ map (\<lambda>b. location (?B b)) ?Q) = mset (free_mem_blocks s @ map (\<lambda>b. location (blocks s b)) (clock_queue s))"
      unfolding m fm by simp
  qed
  moreover have "queue_ok ?L ?B ?Q"
  proof (rule queue_okI)
    show "d \<noteq> zero_page \<and> resident (?B d) \<and> btype (?B d) = T_phys \<and> (is_swap (?B d) \<longrightarrow> users ?L d \<noteq> {})" if "d \<in> set ?Q" for d
      using that queue_okD[OF c(5), of d] az ab unfolding us by (cases "d = ?a") auto
    show "d \<in> set ?Q" if "d \<noteq> zero_page" "users ?L d \<noteq> {}" "resident (?B d)" for d
      using that queue_ok_in[OF c(5), of d] unfolding us by (cases "d = ?a") (auto split: if_splits)
  qed
  moreover have "files_ok ?L ?B ?Q (file_mapping_table s)"
  proof (rule files_ok_known[OF c(6)])
    fix d
    show "known ?L ?Q d = known L (clock_queue s) d" if "\<not> is_swap (?B d)"
    proof -
      have "d \<noteq> ?a" using that ab by auto
      then show ?thesis unfolding known_def us by simp
    qed
    show "is_swap (?B d) = is_swap (blocks s d) \<and> file_key (?B d) = file_key (blocks s d)" if "known L (clock_queue s) d"
    proof -
      have "d \<noteq> ?a" using that fr(1) by auto
      then show ?thesis by (simp add: file_key_def)
    qed
  qed
  moreover have "out_ok (file_read E) ?L ?B (disk s)"
  proof -
    have "out_ok (file_read E) L ?B (disk s)"
      by (rule out_ok_cong[OF c(7)]) (use ua hb in \<open>auto split: if_splits\<close>)
    moreover have "users L d \<noteq> {}" if "users ?L d \<noteq> {}" "\<not> resident (?B d)" for d
      using that ab unfolding us by (auto split: if_splits)
    ultimately show ?thesis unfolding out_ok_def by blast
  qed
  moreover have "clean_ok (file_read E) ?B ?Q ?M (disk s)"
  proof -
    have "users L b \<noteq> {}" if "b \<in> set (clock_queue s)" using queue_okD(4)[OF c(5) that sw] .
    then have "clean_ok (file_read E) ?B (clock_queue s) ?M (disk s)"
      by (intro clean_ok_cong[OF c(8)]) (use qa lu hb in \<open>auto simp: file_key_def\<close>)
    then show ?thesis using ab unfolding clean_ok_def by auto
  qed
  moreover have "pte_ok ?L ?B ?T"
    unfolding pte_ok_def
  proof (intro allI impI)
    fix y d t
    assume y: "?L y = Some d" "d \<noteq> zero_page" "?T y = Some t"
    show "entry_ok ?L y (?B d) d t"
    proof (cases "y = x")
      case True
      then show ?thesis using y e uu ab by (auto simp: entry_ok_def)
    next
      case False
      then have n: "L y = Some d" "pte_at s y = Some t" using y by simp_all
      then have da: "d \<noteq> ?a" using ua usersI[of L y d] by auto
      have k: "entry_ok L y (blocks s d) d t" using c(9) n y(2) unfolding pte_ok_def by blast
      have "users ?L d = users L d" using da by (simp add: us)
      then show ?thesis using k da by (auto simp: entry_ok_def)
    qed
  qed
  moreover have "swap_all (swap_size N) ?B (free_swap_blocks s)"
  proof (rule swap_all_moved[OF c(11), of "{b, ?a}"])
    have "length (swap_blocks (blocks s b)) = card (users L b) + 1" using c(2) sw by (simp add: swap_ok_def)
    then have "swap_blocks (blocks s b) \<noteq> []" by auto
    then have "set (swap_blocks (blocks s b)) = insert (last (swap_blocks (blocks s b))) (set (butlast (swap_blocks (blocks s b))))"
      by (rule set_butlast_last)
    then show "set (free_swap_blocks s) \<union> (\<Union>c \<in> {b, ?a}. set (swap_blocks (?B c)))
        = set (free_swap_blocks s) \<union> (\<Union>c \<in> {b, ?a}. set (swap_blocks (blocks s c)))"
      using ab fr(2) by auto
  qed (use ab in auto)
  moreover have "fresh_ok ?L ?B ?Q (?a + 1)"
    using c(10) kb ab fr(3) unfolding fresh_ok_def known_def us by auto
  ultimately show "ok E N None ?L (copied x b u s)"
    unfolding ok_def core_def cs fm by simp
  show "same_view (file_read E) L s (copied x b u s)"
  proof (rule same_view_known[OF c(6)])
    fix d
    assume k: "known L (clock_queue s) d"
    have da: "d \<noteq> ?a" using k fr(1) by auto
    have "location (blocks s d) \<noteq> u" if "resident (blocks s d)"
    proof (cases "d = zero_page")
      case True
      then show ?thesis using c(3) uu by (simp add: zero_ok_def)
    next
      case False
      then have "d \<in> set (clock_queue s)" using k queue_ok_in[OF c(5) False] that unfolding known_def by blast
      then show ?thesis by (rule lu)
    qed
    then show "is_swap (blocks (copied x b u s) d) = is_swap (blocks s d)
        \<and> file_key (blocks (copied x b u s) d) = file_key (blocks s d)
        \<and> content (file_read E) (copied x b u s) d = content (file_read E) s d"
      using da by (auto simp: cs content_def file_key_def Let_def)
  qed (simp_all add: cs)
qed

end
