(* ===== verification/Pager_Fault.thy ===== *)
theory Pager_Fault
  imports Pager_Copy
begin

text \<open>
  The parts of the fault handler: the invariant of the pager, copy on write, the change of permissions,
  and what a process reads through its page table.
\<close>

subsection \<open>The invariant of the pager\<close>

text \<open>What the kernel knows of a process beside the blocks of its pages.\<close>

definition outline :: "'d pager \<Rightarrow> nat \<Rightarrow> ((nat \<Rightarrow> bool) \<times> nat \<times> nat) option" where
  "outline s p = map_option (\<lambda>k. (\<lambda>i. valid (page_info_table k i), next_invalid_page k, num_swap_blocks k)) (process_info_mp s p)"

lemma outline_shape: "shape s' = shape s \<Longrightarrow> outline s' = outline s"
proof
  fix p
  assume "shape s' = shape s"
  then have "shape s' p = shape s p" by simp
  then show "outline s' p = outline s p" 
    by (cases "process_info_mp s p"; cases "process_info_mp s' p") (auto simp: outline_def shape_def)
qed

text \<open>
  The pages of a process: the first ones are valid and show a block, the others are not.  The process
  counts its swap-backed pages, from the value that the counter had when the first ancestor of the
  process was created, since the constructor does not set it.
\<close>

definition swap_count :: "'d pager \<Rightarrow> nat \<Rightarrow> nat" where
  "swap_count s p = card {i. \<exists>b. loc_of s (p, i) = Some b \<and> is_swap (blocks s b)}"

definition process_ok :: "'d pager_env \<Rightarrow> 'd pager \<Rightarrow> nat \<Rightarrow> bool" where
  "process_ok E s p \<longleftrightarrow> (\<forall>k. process_info_mp s p = Some k \<longrightarrow> next_invalid_page k \<le> num_virt_addr
     \<and> (\<forall>i. valid (page_info_table k i) \<longleftrightarrow> i < next_invalid_page k)
     \<and> (\<forall>i. loc_of s (p, i) \<noteq> None \<longleftrightarrow> i < next_invalid_page k)
     \<and> (\<exists>g \<in> uninitialised E. num_swap_blocks k = g + swap_count s p))"

text \<open>The entry of a page that shows nothing is not enabled.\<close>

definition unused_ok :: "'d pager \<Rightarrow> bool" where
  "unused_ok s \<longleftrightarrow> (\<forall>x e. loc_of s x = None \<longrightarrow> pte_at s x = Some e \<longrightarrow> \<not> read_enable e \<and> \<not> write_enable e)"

definition pager_inv :: "'d pager_env \<Rightarrow> sizes \<Rightarrow> 'd pager \<Rightarrow> bool" where
  "pager_inv E N s \<longleftrightarrow> ok E N None (loc_of s) s \<and> (\<forall>p. process_ok E s p) \<and> unused_ok s"

text \<open>The process that runs: calls of the infrastructure are made for it.\<close>

definition running :: "'d pager \<Rightarrow> nat \<Rightarrow> bool" where
  "running s p \<longleftrightarrow> curr_pid s = p \<and> page_table_base_register s = Some p \<and> process_info_mp s p \<noteq> None"

lemma process_ok_cong:
  assumes "process_ok E s p" and "outline s' p = outline s p"
    and "\<And>i. loc_of s' (p, i) = None \<longleftrightarrow> loc_of s (p, i) = None"
    and "\<And>i b. loc_of s (p, i) = Some b \<Longrightarrow> \<exists>b'. loc_of s' (p, i) = Some b' \<and> is_swap (blocks s' b') = is_swap (blocks s b)"
  shows "process_ok E s' p"
proof -
  have "(\<exists>b. loc_of s' (p, i) = Some b \<and> is_swap (blocks s' b)) \<longleftrightarrow> (\<exists>b. loc_of s (p, i) = Some b \<and> is_swap (blocks s b))" for i
    using assms(3)[of i] assms(4)[of i] by (cases "loc_of s (p, i)") auto
  then have c: "swap_count s' p = swap_count s p" by (simp only: swap_count_def)
  show ?thesis
    unfolding process_ok_def c
  proof (intro allI impI)
    fix k'
    assume k': "process_info_mp s' p = Some k'"
    then obtain k where k: "process_info_mp s p = Some k" and e: "next_invalid_page k' = next_invalid_page k"
      "num_swap_blocks k' = num_swap_blocks k" "(\<lambda>i. valid (page_info_table k' i)) = (\<lambda>i. valid (page_info_table k i))"
      using assms(2) by (cases "process_info_mp s p") (auto simp: outline_def)
    from e(3) have "valid (page_info_table k' i) = valid (page_info_table k i)" for i by meson
    then show "next_invalid_page k' \<le> num_virt_addr \<and> (\<forall>i. valid (page_info_table k' i) = (i < next_invalid_page k'))
        \<and> (\<forall>i. (loc_of s' (p, i) \<noteq> None) = (i < next_invalid_page k'))
        \<and> (\<exists>g \<in> uninitialised E. num_swap_blocks k' = g + swap_count s p)"
      using assms(1,3) k e(1,2) unfolding process_ok_def by simp
  qed
qed

subsection \<open>What the processes see\<close>

definition arena :: "'d pager_env \<Rightarrow> 'd pager \<Rightarrow> nat \<Rightarrow> vpage list option" where
  "arena E s p = map_option (\<lambda>k. map (\<lambda>i. case loc_of s (p, i) of None \<Rightarrow> Private None | Some b \<Rightarrow> vpage_of (file_read E) s b)
     [0..<next_invalid_page k]) (process_info_mp s p)"

abbreviation files :: "'d pager_env \<Rightarrow> 'd pager \<Rightarrow> string \<times> nat \<Rightarrow> page option" where
  "files E s \<equiv> file_view (file_read E) s"

lemma arena_cong:
  assumes "outline s' p = outline s p"
    and "\<And>i. map_option (vpage_of (file_read E) s') (loc_of s' (p, i)) = map_option (vpage_of (file_read E) s) (loc_of s (p, i))"
  shows "arena E s' p = arena E s p"
proof -
  have "(case loc_of s' (p, i) of None \<Rightarrow> Private None | Some b \<Rightarrow> vpage_of (file_read E) s' b)
      = (case loc_of s (p, i) of None \<Rightarrow> Private None | Some b \<Rightarrow> vpage_of (file_read E) s b)" for i
    using assms(2)[of i] by (auto split: option.splits)
  moreover have "map_option next_invalid_page (process_info_mp s' p) = map_option next_invalid_page (process_info_mp s p)"
    using assms(1) by (cases "process_info_mp s p"; cases "process_info_mp s' p") (auto simp: outline_def)
  ultimately show ?thesis
    by (cases "process_info_mp s p"; cases "process_info_mp s' p") (simp_all add: arena_def)
qed

text \<open>A call that only moves data.\<close>

lemma moved_data:
  assumes I: "pager_inv E N s" and O: "ok E N None (loc_of s) s'" and F: "frame (loc_of s) s s'"
    and V: "same_view (file_read E) (loc_of s) s s'"
  shows "pager_inv E N s'" and "loc_of s' = loc_of s" and "arena E s' = arena E s" and "files E s' = files E s"
    and "running s' p = running s p"
proof -
  have sh: "shape s' = shape s" using F by (simp add: frame_def)
  show l: "loc_of s' = loc_of s" by (rule loc_of_shape[OF sh])
  have o: "outline s' = outline s" by (rule outline_shape[OF sh])
  have sw: "is_swap (blocks s' b) = is_swap (blocks s b)" for b using F by (simp add: frame_def)
  have "process_ok E s' p" for p
    using process_ok_cong[of E s p s'] I o l sw by (simp add: pager_inv_def)
  moreover have "unused_ok s'" using I F l by (simp add: pager_inv_def unused_ok_def frame_def)
  ultimately show "pager_inv E N s'" using O l by (simp add: pager_inv_def)
  show "arena E s' = arena E s"
  proof
    fix p
    show "arena E s' p = arena E s p"
    proof (rule arena_cong)
      show "map_option (vpage_of (file_read E) s') (loc_of s' (p, i)) = map_option (vpage_of (file_read E) s) (loc_of s (p, i))" for i
        using V unfolding same_view_def l by (cases "loc_of s (p, i)") auto
    qed (simp add: o)
  qed
  show "files E s' = files E s" using V by (simp add: same_view_def)
  have "shape s' p = shape s p" by (simp add: sh)
  then have "process_info_mp s' p = None \<longleftrightarrow> process_info_mp s p = None"
    by (cases "process_info_mp s p"; cases "process_info_mp s' p") (simp_all add: shape_def)
  then show "running s' p = running s p" using F by (auto simp: running_def frame_def)
qed

subsection \<open>Copy on write\<close>

lemma block_of_loc:
  assumes "loc_of s (p, i) = Some b" and "i < num_virt_addr"
  shows "block_of p i s = Inr b"
  using assms by (auto simp: loc_of_def block_of_def process_at_def page_info_at_def deref_def split: option.splits)

lemma copy_block_handler_eq:
  assumes l: "loc_of s (p, i) = Some b" and i: "i < num_virt_addr" and fm: "free_mem_blocks s = u # fm"
    and sb: "swap_blocks (blocks s b) \<noteq> []" and nb: "b \<noteq> next_block s" and pp: "phys_page u = u"
  shows "copy_block_handler p i s = Inr (copied (p, i) b u s)"
proof -
  obtain k where k: "process_info_mp s p = Some k" "data_location (page_info_table k i) = Some b"
    using l by (auto simp: loc_of_def split: option.splits)
  let ?s = "upd_block b (\<lambda>x. x\<lparr>swap_blocks := butlast (swap_blocks x)\<rparr>)
      (set_page_info p i (\<lambda>info. info\<lparr>data_location := Some (next_block s)\<rparr>)
        (s\<lparr>blocks := (blocks s)(next_block s := fresh_copy u (last (swap_blocks (blocks s b))) (p, i)), next_block := next_block s + 1\<rparr>))"
  have "process_info_mp ?s p \<noteq> None" using k by (simp add: set_page_info_def set_process_def)
  then have "set_pte (p, i) (\<lambda>e. e\<lparr>ppage := bits30 u\<rparr>) ?s = Inr (upd_pte_set {(p, i)} (\<lambda>e. e\<lparr>ppage := bits30 u\<rparr>) ?s)"
    using i by (simp add: set_pte_def)
  then show ?thesis
    using k i fm sb pp by (simp add: copy_block_handler_def process_at_def page_info_at_def deref_def front_def back_of_def
        Let_def copied_def fresh_copy_def)
qed

lemma outline_set_page_info:
  assumes "\<And>info. valid (f info) = valid info"
  shows "outline (set_page_info p i f s) = outline s"
proof
  fix q
  show "outline (set_page_info p i f s) q = outline s q"
    by (cases "process_info_mp s q") (auto simp: outline_def set_page_info_def set_process_def fun_eq_iff assms)
qed

lemma copied_views:
  assumes "process_info_mp s p \<noteq> None"
  shows "loc_of (copied (p, i) b u s) = (loc_of s)((p, i) \<mapsto> next_block s)"
    and "outline (copied (p, i) b u s) = outline s"
proof -
  let ?s = "s\<lparr>blocks := (blocks s)(next_block s := fresh_copy u (last (swap_blocks (blocks s b))) (p, i)), next_block := next_block s + 1\<rparr>"
  let ?t = "set_page_info p i (\<lambda>info. info\<lparr>data_location := Some (next_block s)\<rparr>) ?s"
  have "shape (copied (p, i) b u s) = shape ?t" by (simp add: copied_def Let_def)
  moreover have "loc_of ?t = (loc_of ?s)((p, i) \<mapsto> next_block s)"
    by (rule loc_of_set_page_info) (use assms in simp_all)
  moreover have "outline ?t = outline ?s" by (rule outline_set_page_info) simp
  moreover have "loc_of ?s = loc_of s" by (rule loc_of_shape) simp
  moreover have "outline ?s = outline s" by (rule outline_shape) simp
  ultimately show "loc_of (copied (p, i) b u s) = (loc_of s)((p, i) \<mapsto> next_block s)"
    "outline (copied (p, i) b u s) = outline s"
    using loc_of_shape[of "copied (p, i) b u s" ?t] outline_shape[of "copied (p, i) b u s" ?t] by simp_all
qed

lemma process_live_frame:
  assumes "shape s' = shape s"
  shows "process_info_mp s' p = None \<longleftrightarrow> process_info_mp s p = None"
proof -
  have "shape s' p = shape s p" by (simp add: assms)
  then show ?thesis by (cases "process_info_mp s p"; cases "process_info_mp s' p") (simp_all add: shape_def)
qed

text \<open>Only entries of a page that is alone may be written, so a page that is to be copied is not enabled for writing.\<close>

lemma cow_entry:
  assumes O: "ok E N None L s" and x: "L x = Some b" and cow: "is_copy_on_writable (blocks s b)" and rb: "resident (blocks s b)"
    and e: "pte_at s x = Some e"
  shows "\<not> write_enable e" and "b \<noteq> zero_page \<Longrightarrow> users L b \<noteq> {x}" and "\<not> writable (blocks s b)" and "is_swap (blocks s b)"
proof -
  note c = coreD[OF O[unfolded ok_def]]
  have m: "length (ptes (blocks s b)) > 1" if "b \<noteq> zero_page"
  proof -
    have "b \<in> set (clock_queue s)" by (rule queue_ok_in[OF c(5) that usersI[of L x b] rb]) (rule x)
    then have "location (blocks s b) \<noteq> 0" using bits30_page(2)[OF c(4), of "location (blocks s b)"] by blast
    then show ?thesis using cow by (simp add: is_copy_on_writable_def)
  qed
  show sw: "is_swap (blocks s b)" using cow by (simp add: is_copy_on_writable_def)
  show nu: "users L b \<noteq> {x}" if "b \<noteq> zero_page"
  proof
    assume u: "users L b = {x}"
    have "set (ptes (blocks s b)) = users L b" and "distinct (ptes (blocks s b))" using c(1) that by (simp_all add: ptes_ok_def)
    then have "length (ptes (blocks s b)) = 1" using u distinct_card[of "ptes (blocks s b)"] by simp
    then show False using m[OF that] by simp
  qed
  show "\<not> write_enable e"
  proof (cases "b = zero_page")
    case True
    then show ?thesis using c(3) x e by (simp add: zero_ok_def)
  next
    case False
    then have "entry_ok L x (blocks s b) b e" using c(9) x e unfolding pte_ok_def by blast
    then show ?thesis using nu[OF False] sw by (simp add: entry_ok_def)
  qed
  show "\<not> writable (blocks s b)"
    using m c(3) sw by (cases "b = zero_page") (auto simp: writable_def zero_ok_def)
qed

lemma ptes_user: "ptes_ok L T B \<Longrightarrow> x \<in> set (ptes (B b)) \<Longrightarrow> L x = Some b"
  unfolding ptes_ok_def by (cases "b = zero_page") auto

lemma resident_page:
  assumes O: "ok E N ex L s" and x: "L x = Some b" and rb: "resident (blocks s b)"
  shows "phys_page (location (blocks s b)) = location (blocks s b)"
proof (cases "b = zero_page")
  note c = coreD[OF O[unfolded ok_def]]
  case True
  then show ?thesis using c(3) by (simp add: zero_ok_def phys_page_def)
next
  note c = coreD[OF O[unfolded ok_def]]
  case False
  have "b \<in> set (clock_queue s)" by (rule queue_ok_in[OF c(5) False usersI[of L, OF x] rb])
  then show ?thesis using bits30_page(4)[OF c(4)] by blast
qed

lemma cow_ok:
  assumes bs: "backing_store (file_read E) (file_write E)" and O: "ok E N None (loc_of s) s" and N: "1 < ram_pages N"
    and run: "running s p" and i: "i < num_virt_addr" and x: "loc_of s (p, i) = Some b"
    and cow: "is_copy_on_writable (blocks s b)" and rb: "resident (blocks s b)"
  shows "\<exists>s' a. copy_on_write E p i b s = Inr s' \<and> loc_of s' = (loc_of s)((p, i) \<mapsto> a) \<and> outline s' = outline s
    \<and> ok E N None (loc_of s') s' \<and> users (loc_of s') a = {(p, i)} \<and> a \<noteq> zero_page \<and> is_swap (blocks s' a) \<and> resident (blocks s' a)
    \<and> same_view (file_read E) ((loc_of s)((p, i) := None)) s s' \<and> vpage_of (file_read E) s' a = vpage_of (file_read E) s b
    \<and> running s' p \<and> (\<forall>q j c. (q, j) \<noteq> (p, i) \<longrightarrow> loc_of s (q, j) = Some c \<longrightarrow> is_swap (blocks s' c) = is_swap (blocks s c))
    \<and> (\<forall>y. loc_of s y = None \<longrightarrow> pte_at s' y = pte_at s y)"
proof -
  let ?x = "(p, i)" and ?L = "loc_of s"
  let ?L' = "?L(?x := None)"
  note c = coreD[OF O[unfolded ok_def]]
  obtain e where e: "pte_at s ?x = Some e" using loc_of_pte[OF x] by blast
  note ce = cow_entry[OF O x cow rb e]
  \<comment> \<open>the block is marked as referenced\<close>
  let ?s1 = "retag b True (dirty (blocks s b)) (grant (writable (blocks s b))) s"
  have 1: "read_fault_handler b s = Inr ?s1" "ok E N None ?L ?s1" using read_fault_ok[OF O rb] by auto
  have run1: "base_register ?s1 = Inr p"
    using run process_live_frame[of ?s1 s p] by (auto simp: base_register_def running_def)
  \<comment> \<open>the page is detached\<close>
  let ?s2 = "detached b ?x ?s1"
  have 2: "ok E N (Some b) ?L' ?s2"
    by (rule detached_ok[OF 1(2) x]) (use rb ce(2,4) in simp_all)
  \<comment> \<open>the others get their permissions\<close>
  obtain s3 f where 3: "update_block_permissions b ?s2 = Inr s3" "ok E N (Some b) ?L' s3" "same_view (file_read E) ?L' ?s2 s3"
      "s3 = retag b (referenced (blocks ?s2 b)) (dirty (blocks ?s2 b)) f ?s2"
    using update_permissions_ok[OF 2, of b] rb by auto
  let ?s4 = "s3\<lparr>tmp_buffer := physmem s3 (location (blocks s b))\<rparr>"
  have pm: "physmem s3 = physmem s" using 3(4) by simp
  have 4: "ok E N (Some b) ?L' ?s4" using 3(2) by (simp add: ok_def core_def)
  \<comment> \<open>room is made\<close>
  obtain s5 where 5: "ensure_free E ?s4 = Inr s5" "ok E N (Some b) ?L' s5" "frame ?L' ?s4 s5"
      "same_view (file_read E) ?L' ?s4 s5" "free_mem_blocks s5 \<noteq> []"
    using ensure_free_ok[OF bs 4 N] by blast
  obtain u fm where fm: "free_mem_blocks s5 = u # fm" using 5(5) by (cases "free_mem_blocks s5") auto
  have sh: "shape s5 = shape s" using 5(3) 3(4) by (simp add: frame_def)
  have l5: "loc_of s5 = ?L" by (rule loc_of_shape[OF sh])
  have sw5: "is_swap (blocks s5 d) = is_swap (blocks s d)" for d using 5(3) 3(4) by (simp add: frame_def)
  have e5: "pte_at s5 ?x = Some (if ?x \<in> set (ptes (blocks s b)) then grant (writable (blocks s b)) e else e)"
  proof -
    have "pte_at s5 ?x = pte_at s3 ?x" using 5(3) by (simp add: frame_def)
    also have "\<dots> = pte_at ?s1 ?x" using 3(4) by (simp add: pte_at_retag)
    finally show ?thesis using e by (simp add: pte_at_retag)
  qed
  obtain e' where e': "pte_at s5 ?x = Some e'" "\<not> write_enable e'"
    using e5 ce(1,3) by (auto simp: grant_def)
  have kb: "b = zero_page \<or> users ?L' b \<noteq> {}" using ce(2) x by (auto simp: users_remove)
  note C = copied_ok[OF 5(2) _ fm _ kb e', simplified sw5]
  let ?s6 = "copied ?x b u s5"
  let ?a = "next_block s5"
  have 6: "ok E N None (?L'(?x \<mapsto> ?a)) ?s6" "b \<noteq> ?a" "same_view (file_read E) ?L' s5 ?s6"
    using C ce(4) by simp_all
  note c5 = coreD[OF 5(2)[unfolded ok_def]]
  have "length (swap_blocks (blocks s5 b)) = card (users ?L' b) + 1"
    using c5(2) ce(4) sw5[of b] by (simp add: swap_ok_def)
  then have sb: "swap_blocks (blocks s5 b) \<noteq> []" by auto
  have cp: "copy_block_handler p i s5 = Inr ?s6"
    by (rule copy_block_handler_eq[OF _ i fm sb 6(2)]) (use bits30_page(4)[OF c5(4), of u] fm in \<open>simp_all add: l5 x\<close>)
  have live: "process_info_mp s5 p \<noteq> None" using run process_live_frame[OF sh, of p] by (simp add: running_def)
  note cv = copied_views[OF live, of i b u]
  have L6: "loc_of ?s6 = ?L(?x \<mapsto> ?a)" using cv(1) l5 by simp
  have up: "?L'(?x \<mapsto> ?a) = ?L(?x \<mapsto> ?a)" by simp
  have "phys_page (location (blocks s b)) = location (blocks s b)" by (rule resident_page[OF O x rb])
  then have run6: "copy_on_write E p i b s = Inr ?s6"
    using 1(1) run1 3(1) 5(1) cp rb
    by (simp add: copy_on_write_def Let_def detached_def[symmetric])
  have ua: "users ?L' ?a = {}" using c5(10) unfolding fresh_ok_def known_def by simp
  note cs = copied_simps[OF 6(2), of ?x u]
  have vab: "vpage_of (file_read E) ?s6 ?a = vpage_of (file_read E) s b"
  proof -
    have "tmp_buffer s5 = physmem s (location (blocks s b))" using 5(3) pm by (simp add: frame_def)
    then show ?thesis using rb ce(4) 6(2) by (simp add: vpage_of_def content_def cs)
  qed
  have view: "same_view (file_read E) ?L' s ?s6"
  proof -
    have "same_view (file_read E) ?L' s ?s1" by (rule retag_view)
    from same_view_trans[OF same_view_trans[OF this detached_view] 3(3)]
    have "same_view (file_read E) ?L' s s3" .
    moreover have "same_view (file_read E) ?L' s3 ?s4" by (rule same_view_cong) (simp_all add: content_def Let_def)
    ultimately show ?thesis using same_view_trans 5(4) 6(3) by blast
  qed
  have "running ?s6 p"
  proof -
    have "process_info_mp ?s6 p \<noteq> None" using live by (simp add: copied_def Let_def upd_pte_set_def set_page_info_def set_process_def)
    moreover have "curr_pid s5 = curr_pid s" "page_table_base_register s5 = page_table_base_register s"
      using 5(3) 3(4) by (simp_all add: frame_def)
    ultimately show ?thesis using run by (simp add: running_def cs)
  qed
  moreover have "is_swap (blocks ?s6 d) = is_swap (blocks s d)" if "(q, j) \<noteq> ?x" "?L (q, j) = Some d" for q j d
  proof -
    have "d \<noteq> ?a" using ua that usersI[of ?L' "(q, j)" d] by auto
    then show ?thesis using sw5[of d] sw5[of b] 6(2) by (simp add: cs)
  qed
  moreover have "outline ?s6 = outline s" using cv(2) outline_shape[OF sh] by simp
  moreover have "users (loc_of ?s6) ?a = {?x}" using ua users_add[of ?L' ?x ?a ?a] up L6 by simp
  moreover have "?a \<noteq> zero_page" using c5(10) by (simp add: fresh_ok_def)
  moreover have "is_swap (blocks ?s6 ?a)" "resident (blocks ?s6 ?a)" using 6(2) by (simp_all add: cs)
  moreover have "pte_at ?s6 y = pte_at s y" if y: "?L y = None" for y
  proof -
    have "y \<notin> set (ptes (blocks s b))" using ptes_user[OF c(1), of y b] y by auto
    then have n: "y \<notin> set (ptes (blocks s b))" "y \<notin> set (ptes (blocks ?s2 b))" "y \<noteq> ?x" "?L' y = None"
      using y x by auto
    have "pte_at ?s6 y = pte_at s5 y" using n(3) 6(2) by (simp add: cs)
    also have "\<dots> = pte_at s3 y" using 5(3) n(4) by (simp add: frame_def)
    also have "\<dots> = pte_at s y" using 3(4) n(1,2) by (simp add: pte_at_retag)
    finally show ?thesis .
  qed
  ultimately show ?thesis using run6 L6 6(1) up view vab by auto
qed

subsection \<open>Write and read faults\<close>

lemma upd_block_twice: "upd_block b f (upd_block b g s) = upd_block b (\<lambda>x. f (g x)) s"
  by (simp add: upd_block_def)

lemma write_read_eq:
  assumes O: "ok E N ex L s" and rb: "resident (blocks s b)" and one: "is_swap (blocks s b) \<Longrightarrow> length (ptes (blocks s b)) = 1"
  shows "bindr (write_fault_handler b s) (read_fault_handler b) = Inr (retag b True True (grant True) s)"
proof -
  let ?X = "set (ptes (blocks s b))"
  let ?w = "\<lambda>e. e\<lparr>write_enable := True\<rparr> :: page_table_entry_t" and ?r = "\<lambda>e. e\<lparr>read_enable := True\<rparr> :: page_table_entry_t"
  let ?t = "upd_block b (\<lambda>x. x\<lparr>dirty := True\<rparr>) (upd_pte_set ?X ?w s)"
  let ?m = "\<lambda>x. x\<lparr>referenced := True, resident := True\<rparr> :: mem_block"
  have w: "write_fault_handler b s = Inr ?t"
    using for_ptes_ok[OF O, of s b ?w] by (simp add: write_fault_handler_def)
  have a: "for_ptes b ?w ?t = Inr (upd_pte_set ?X ?w ?t)"
    by (rule for_ptes_ok[OF O]) (simp_all split: if_splits)
  let ?u = "upd_block b ?m (upd_pte_set ?X ?w ?t)"
  have r: "for_ptes b ?r ?u = Inr (upd_pte_set ?X ?r ?u)"
    by (rule for_ptes_ok[OF O]) (auto split: if_splits)
  have "read_fault_handler b ?t = Inr (upd_pte_set ?X ?r ?u)"
    using a r one by (simp add: read_fault_handler_def Let_def)
  moreover have "upd_pte_set ?X ?r ?u = upd_pte_set ?X (\<lambda>e. ?r (?w (?w e))) (upd_block b (\<lambda>x. ?m (x\<lparr>dirty := True\<rparr>)) s)"
    by (simp only: upd_pte_set_block upd_pte_set_twice upd_block_twice)
  moreover have "upd_block b (\<lambda>x. ?m (x\<lparr>dirty := True\<rparr>)) s = upd_block b (\<lambda>x. x\<lparr>referenced := True, dirty := True\<rparr>) s"
  proof -
    have "?m (blocks s b\<lparr>dirty := True\<rparr>) = blocks s b\<lparr>referenced := True, dirty := True\<rparr>"
      using rb by (intro mem_block.equality) simp_all
    then show ?thesis by (simp add: upd_block_def)
  qed
  moreover have "(\<lambda>e. ?r (?w (?w e))) = grant True" by (simp add: grant_def fun_eq_iff)
  ultimately show ?thesis using w by (simp add: retag_def)
qed

lemma write_read_ok:
  assumes O: "ok E N None L s" and rb: "resident (blocks s b)" and bz: "b \<noteq> zero_page"
    and one: "is_swap (blocks s b) \<Longrightarrow> length (ptes (blocks s b)) = 1"
  shows "ok E N None L (retag b True True (grant True) s)"
proof (rule retag_ok[OF O rb])
  note c = coreD[OF O[unfolded ok_def]]
  fix x e
  assume x: "L x = Some b" and e: "entry_ok L x (blocks s b) b e"
  have "is_swap (blocks s b) \<longrightarrow> users L b = {x}" using sole_user[OF c(1) bz _ x] one by blast
  then show "entry_ok L x (blocks s b\<lparr>referenced := True, dirty := True\<rparr>) b (grant True e)"
    using e rb by (simp add: entry_ok_def grant_def)
qed (use bz in simp_all)

subsection \<open>What a process reads\<close>

text \<open>The data of a virtual page, over the arenas and the files.\<close>

definition vread :: "'d pager_env \<Rightarrow> 'd pager \<Rightarrow> nat \<Rightarrow> nat \<Rightarrow> page option" where
  "vread E s p i =
     (case arena E s p of
        None \<Rightarrow> None
      | Some vs \<Rightarrow> if i < length vs then (case vs ! i of Private c \<Rightarrow> c | Shared f n \<Rightarrow> files E s (f, n)) else None)"

lemma vread_cong: "arena E s' = arena E s \<Longrightarrow> files E s' = files E s \<Longrightarrow> vread E s' = vread E s"
  by (intro ext) (simp only: vread_def)

lemma process_okD:
  assumes "pager_inv E N s" and "process_info_mp s p = Some k"
  shows "next_invalid_page k \<le> num_virt_addr" and "valid (page_info_table k i) \<longleftrightarrow> i < next_invalid_page k"
    and "loc_of s (p, i) \<noteq> None \<longleftrightarrow> i < next_invalid_page k"
    and "\<exists>g \<in> uninitialised E. num_swap_blocks k = g + swap_count s p"
  using assms by (auto simp: pager_inv_def process_ok_def)

lemma loc_of_live: "loc_of s (p, i) = Some b \<Longrightarrow> \<exists>k. process_info_mp s p = Some k"
  by (auto simp: loc_of_def split: option.splits)

lemma vread_loc:
  assumes I: "pager_inv E N s" and x: "loc_of s (p, i) = Some b"
  shows "vread E s p i = content (file_read E) s b"
proof -
  obtain k where k: "process_info_mp s p = Some k" using loc_of_live[OF x] by blast
  have i: "i < next_invalid_page k" using process_okD(3)[OF I k, of i] x by simp
  have c: "files_ok (loc_of s) (blocks s) (clock_queue s) (file_mapping_table s)"
    using I coreD(6) by (auto simp: pager_inv_def ok_def)
  have "known (loc_of s) (clock_queue s) b" using usersI[of "loc_of s" _ b, OF x] by (simp add: known_def)
  from files_ok_block[OF c this] show ?thesis
    using k i x by (auto simp: vread_def arena_def vpage_of_def file_view_def file_key_def)
qed

lemma vread_none:
  assumes I: "pager_inv E N s" and x: "loc_of s (p, i) = None"
  shows "vread E s p i = None"
proof (cases "process_info_mp s p")
  case (Some k)
  then have "\<not> i < next_invalid_page k" using process_okD(3)[OF I Some, of i] x by simp
  then show ?thesis using Some by (simp add: vread_def arena_def)
qed (simp add: vread_def arena_def)

text \<open>What an enabled entry names is the data of its page.\<close>

lemma entry_page:
  assumes I: "pager_inv E N s" and e: "pte_at s (p, i) = Some e" and r: "read_enable e \<or> write_enable e"
  shows "\<exists>b. loc_of s (p, i) = Some b \<and> resident (blocks s b) \<and> ppage e = location (blocks s b)"
proof -
  have O: "ok E N None (loc_of s) s" and "unused_ok s" using I by (simp_all add: pager_inv_def)
  note c = coreD[OF O[unfolded ok_def]]
  obtain b where b: "loc_of s (p, i) = Some b"
    using \<open>unused_ok s\<close> e r unfolding unused_ok_def by (cases "loc_of s (p, i)") auto
  show ?thesis
  proof (cases "b = zero_page")
    case True
    then show ?thesis using c(3) b e by (simp add: zero_ok_def)
  next
    case False
    then have "entry_ok (loc_of s) (p, i) (blocks s b) b e" using c(9) b e unfolding pte_ok_def by blast
    then show ?thesis using r b by (auto simp: entry_ok_def)
  qed
qed

lemma load_correct:
  assumes "pager_inv E N s" and "running s p" and "mmu_load s i off = Some ch"
  shows "\<exists>pg. vread E s p i = Some pg \<and> pg off = ch"
proof -
  obtain e where e: "pte_at s (p, i) = Some e" "read_enable e" "ch = physmem s (ppage e) off"
    using assms(2,3) by (auto simp: mmu_load_def running_def split: option.splits if_splits)
  obtain b where "loc_of s (p, i) = Some b" "resident (blocks s b)" "ppage e = location (blocks s b)"
    using entry_page[OF assms(1) e(1)] e(2) by blast
  then show ?thesis using vread_loc[OF assms(1)] e(3) by (simp add: content_def Let_def)
qed

lemma load_ready:
  assumes "pager_inv E N s" and "running s p" and "pte_at s (p, i) = Some e" and "read_enable e"
  shows "mmu_load s i off = map_option (\<lambda>pg. pg off) (vread E s p i)" and "vread E s p i \<noteq> None"
proof -
  have m: "mmu_load s i off = Some (physmem s (ppage e) off)" for off using assms(2-4) by (simp add: mmu_load_def running_def)
  from load_correct[OF assms(1,2) m[of off]] show "mmu_load s i off = map_option (\<lambda>pg. pg off) (vread E s p i)" "vread E s p i \<noteq> None"
    using m[of off] by auto
qed

end
