(* ===== verification/Pager_Access.thy ===== *)
theory Pager_Access
  imports Pager_Fault
begin

text \<open>
  The fault handler: it keeps the invariant, changes nothing that a process can see, and leaves the
  entry of the faulting page ready for the access.  Then the effect of a store.
\<close>

subsection \<open>The end of a write fault\<close>

lemma write_fault_shape: "write_fault_handler b s = Inr t \<Longrightarrow> shape t = shape s"
  by (auto simp: write_fault_handler_def for_ptes_def split: if_splits)

lemma finish_write:
  assumes I: "pager_inv E N s" and x: "loc_of s (p, i) = Some b" and i: "i < num_virt_addr"
    and rb: "resident (blocks s b)" and bz: "b \<noteq> zero_page"
    and one: "is_swap (blocks s b) \<Longrightarrow> length (ptes (blocks s b)) = 1"
  shows "\<exists>t. write_fault_handler b s = Inr t \<and> block_of p i t = Inr b
    \<and> read_fault_handler b t = Inr (retag b True True (grant True) s)"
    and "pager_inv E N (retag b True True (grant True) s)"
    and "arena E (retag b True True (grant True) s) = arena E s"
    and "files E (retag b True True (grant True) s) = files E s"
    and "running (retag b True True (grant True) s) q = running s q"
    and "\<exists>e. pte_at (retag b True True (grant True) s) (p, i) = Some e \<and> read_enable e \<and> write_enable e"
proof -
  let ?s = "retag b True True (grant True) s"
  have O: "ok E N None (loc_of s) s" using I by (simp add: pager_inv_def)
  note c = coreD[OF O[unfolded ok_def]]
  obtain t where t: "write_fault_handler b s = Inr t" "read_fault_handler b t = Inr ?s"
    using write_read_eq[OF O rb one] by (cases "write_fault_handler b s") auto
  have "loc_of t = loc_of s" by (rule loc_of_shape[OF write_fault_shape[OF t(1)]])
  then have "block_of p i t = Inr b" using block_of_loc[of t p i b] x i by simp
  then show "\<exists>t. write_fault_handler b s = Inr t \<and> block_of p i t = Inr b \<and> read_fault_handler b t = Inr ?s"
    using t by blast
  note M = moved_data[OF I write_read_ok[OF O rb bz one] retag_frame[OF c(1)] retag_view]
  show "pager_inv E N ?s" "arena E ?s = arena E s" "files E ?s = files E s" "running ?s q = running s q"
    using M(1,3,4) M(5)[of q] by simp_all
  obtain e where e: "pte_at s (p, i) = Some e" using loc_of_pte[OF x] by blast
  have "(p, i) \<in> set (ptes (blocks s b))" using known_block_ptes[OF c(1) bz] x by simp
  then show "\<exists>e. pte_at ?s (p, i) = Some e \<and> read_enable e \<and> write_enable e"
    using e by (simp add: pte_at_retag grant_def)
qed

lemma same_viewD: "same_view rd L s s' \<Longrightarrow> L x = Some b \<Longrightarrow> vpage_of rd s' b = vpage_of rd s b"
  unfolding same_view_def by blast

text \<open>Copy on write keeps the invariant and what every process sees.\<close>

lemma cow_inv:
  assumes bs: "backing_store (file_read E) (file_write E)" and I: "pager_inv E N s" and N: "1 < ram_pages N"
    and run: "running s p" and i: "i < num_virt_addr" and x: "loc_of s (p, i) = Some b"
    and cow: "is_copy_on_writable (blocks s b)" and rb: "resident (blocks s b)"
  shows "\<exists>s' a. copy_on_write E p i b s = Inr s' \<and> loc_of s' (p, i) = Some a \<and> pager_inv E N s'
    \<and> arena E s' = arena E s \<and> files E s' = files E s \<and> running s' p
    \<and> a \<noteq> zero_page \<and> resident (blocks s' a) \<and> length (ptes (blocks s' a)) = 1"
proof -
  have O: "ok E N None (loc_of s) s" using I by (simp add: pager_inv_def)
  obtain s' a where 1: "copy_on_write E p i b s = Inr s'" "loc_of s' = (loc_of s)((p, i) \<mapsto> a)" "outline s' = outline s"
      "ok E N None (loc_of s') s'" "users (loc_of s') a = {(p, i)}" "a \<noteq> zero_page" "is_swap (blocks s' a)" "resident (blocks s' a)"
      "same_view (file_read E) ((loc_of s)((p, i) := None)) s s'" "vpage_of (file_read E) s' a = vpage_of (file_read E) s b"
      "running s' p" "\<forall>q j c. (q, j) \<noteq> (p, i) \<longrightarrow> loc_of s (q, j) = Some c \<longrightarrow> is_swap (blocks s' c) = is_swap (blocks s c)"
      "\<forall>y. loc_of s y = None \<longrightarrow> pte_at s' y = pte_at s y"
    using cow_ok[OF bs O N run i x cow rb] by blast
  have sw: "is_swap (blocks s b)" using cow by (simp add: is_copy_on_writable_def)
  have "process_ok E s' q" for q
  proof (rule process_ok_cong)
    show "process_ok E s q" using I by (simp add: pager_inv_def)
    show "outline s' q = outline s q" by (simp add: 1(3))
    show "loc_of s' (q, j) = None \<longleftrightarrow> loc_of s (q, j) = None" for j using 1(2) x by auto
    show "\<exists>b'. loc_of s' (q, j) = Some b' \<and> is_swap (blocks s' b') = is_swap (blocks s c)"
      if "loc_of s (q, j) = Some c" for j c
      using that 1(2,7,12) x sw by (cases "(q, j) = (p, i)") auto
  qed
  moreover have "unused_ok s'"
    using I 1(2,13) x unfolding pager_inv_def unused_ok_def by (auto split: if_splits)
  ultimately have inv: "pager_inv E N s'" using 1(4) by (simp add: pager_inv_def)
  have "arena E s' q = arena E s q" for q
  proof (rule arena_cong)
    show "outline s' q = outline s q" by (simp add: 1(3))
    show "map_option (vpage_of (file_read E) s') (loc_of s' (q, j)) = map_option (vpage_of (file_read E) s) (loc_of s (q, j))" for j
    proof (cases "(q, j) = (p, i)")
      case True
      then show ?thesis using 1(2,10) x by simp
    next
      case False
      then show ?thesis using 1(2) same_viewD[OF 1(9), of "(q, j)"] by (cases "loc_of s (q, j)") auto
    qed
  qed
  then have ar: "arena E s' = arena E s" by blast
  note c = coreD(1)[OF 1(4)[unfolded ok_def]]
  have "set (ptes (blocks s' a)) = {(p, i)}" "distinct (ptes (blocks s' a))"
    using c 1(5,6) by (simp_all add: ptes_ok_def)
  then have "length (ptes (blocks s' a)) = 1" using distinct_card[of "ptes (blocks s' a)"] by simp
  moreover have "files E s' = files E s" using 1(9) by (simp add: same_view_def)
  moreover have "loc_of s' (p, i) = Some a" using 1(2) by simp
  ultimately show ?thesis using inv ar 1(1,6,8,11) by blast
qed

subsection \<open>Faults\<close>

text \<open>The block of a page is brought into memory, unless its file cannot be read.\<close>

lemma bring_in:
  assumes bs: "backing_store (file_read E) (file_write E)" and I: "pager_inv E N s" and N: "1 < ram_pages N" and x: "loc_of s (p, i) = Some b"
  shows "\<exists>r s'. (if resident (blocks s b) then Inr (0, s) else cache_nonresident_page E b s) = Inr (r, s') \<and> pager_inv E N s'
    \<and> loc_of s' = loc_of s \<and> arena E s' = arena E s \<and> files E s' = files E s \<and> (\<forall>q. running s' q = running s q)
    \<and> outline s' = outline s \<and> free_swap_blocks s' = free_swap_blocks s
    \<and> (r = 0 \<and> resident (blocks s' b) \<and> vread E s p i = Some (physmem s' (location (blocks s' b)))
       \<or> r = - 1 \<and> vread E s p i = None)"
proof -
  have O: "ok E N None (loc_of s) s" using I by (simp add: pager_inv_def)
  have ub: "users (loc_of s) b \<noteq> {}" by (rule usersI[of "loc_of s", OF x])
  have here: "vread E t p i = Some (physmem t (location (blocks t b)))"
    if "pager_inv E N t" "loc_of t = loc_of s" "resident (blocks t b)" for t
    using vread_loc[OF that(1), of p i b] that(2,3) x by (simp add: content_def Let_def)
  show ?thesis
  proof (cases "resident (blocks s b)")
    case True
    then show ?thesis using I here[OF I refl] by auto
  next
    case False
    obtain r s' where 1: "cache_nonresident_page E b s = Inr (r, s')" "ok E N None (loc_of s) s'" "frame (loc_of s) s s'"
      "same_view (file_read E) (loc_of s) s s'"
      and r: "r = 0 \<and> resident (blocks s' b) \<or> r = - 1 \<and> \<not> is_swap (blocks s b) \<and> files E s (file_key (blocks s b)) = None"
      using cache_ok[OF bs O N ub False] by blast
    note M = moved_data[OF I 1(2-4)]
    have v: "vread E s' = vread E s" by (rule vread_cong[OF M(3,4)])
    have "vread E s p i = None" if "\<not> is_swap (blocks s b)" "files E s (file_key (blocks s b)) = None"
    proof -
      have "files_ok (loc_of s) (blocks s) (clock_queue s) (file_mapping_table s)" using O coreD(6) by (auto simp: ok_def)
      from files_ok_block[OF this _ that(1)] have "file_mapping_table s (file_key (blocks s b)) = Some b"
        using ub by (simp add: known_def)
      then show ?thesis using that(2) vread_loc[OF I x] by (simp add: file_view_def)
    qed
    then have "r = 0 \<and> resident (blocks s' b) \<and> vread E s p i = Some (physmem s' (location (blocks s' b)))
       \<or> r = - 1 \<and> vread E s p i = None"
      using r here[OF M(1,2)] v by auto
    moreover have "outline s' = outline s" "free_swap_blocks s' = free_swap_blocks s"
      using 1(3) outline_shape[of s' s] by (simp_all add: frame_def)
    ultimately show ?thesis using False 1(1) M by simp
  qed
qed

lemma not_cow:
  assumes I: "pager_inv E N s" and x: "loc_of s (p, i) = Some b" and nc: "\<not> is_copy_on_writable (blocks s b)"
  shows "b \<noteq> zero_page" and "is_swap (blocks s b) \<Longrightarrow> length (ptes (blocks s b)) = 1"
proof -
  have O: "ok E N None (loc_of s) s" using I by (simp add: pager_inv_def)
  note c = coreD[OF O[unfolded ok_def]]
  show bz: "b \<noteq> zero_page" using c(3) nc by (auto simp: zero_ok_def is_copy_on_writable_def)
  assume "is_swap (blocks s b)"
  moreover have "(p, i) \<in> set (ptes (blocks s b))" using known_block_ptes[OF c(1) bz] x by simp
  then have "0 < length (ptes (blocks s b))" by auto
  ultimately show "length (ptes (blocks s b)) = 1"
    using nc by (cases "ptes (blocks s b)") (auto simp: is_copy_on_writable_def)
qed

text \<open>The second half of the fault handler, for a page whose block is in memory.\<close>

lemma fault_resident:
  assumes bs: "backing_store (file_read E) (file_write E)" and I: "pager_inv E N s" and N: "1 < ram_pages N"
    and run: "running s p" and i: "i < num_virt_addr" and x: "loc_of s (p, i) = Some b" and rb: "resident (blocks s b)"
  shows "\<exists>s'. bindr (if w then write_part E p i s else Inr s) (\<lambda>s. bindr (block_of p i s) (\<lambda>b. bindr (read_fault_handler b s)
        (\<lambda>s. Inr (0 :: int, s)))) = Inr (0, s') \<and> pager_inv E N s' \<and> arena E s' = arena E s \<and> files E s' = files E s \<and> running s' p
    \<and> (\<exists>e. pte_at s' (p, i) = Some e \<and> read_enable e \<and> (w \<longrightarrow> write_enable e))"
proof (cases w)
  case False
  have O: "ok E N None (loc_of s) s" using I by (simp add: pager_inv_def)
  note c = coreD[OF O[unfolded ok_def]]
  let ?s = "retag b True (dirty (blocks s b)) (grant (writable (blocks s b))) s"
  have 1: "read_fault_handler b s = Inr ?s" "ok E N None (loc_of s) ?s" "frame (loc_of s) s ?s" "same_view (file_read E) (loc_of s) s ?s"
    using read_fault_ok[OF O rb] by auto
  note M = moved_data[OF I 1(2-4)]
  obtain e where e: "pte_at s (p, i) = Some e" using loc_of_pte[OF x] by blast
  have "read_enable e" if "(p, i) \<notin> set (ptes (blocks s b))"
    using that known_block_ptes[OF c(1)] x c(3) e by (cases "b = zero_page") (simp_all add: zero_ok_def)
  then have "\<exists>e. pte_at ?s (p, i) = Some e \<and> read_enable e" using e by (simp add: pte_at_retag grant_def)
  then show ?thesis using False 1(1) M block_of_loc[OF x i] run by simp
next
  case True
  obtain s1 a where 1: "(if is_copy_on_writable (blocks s b) then copy_on_write E p i b s else Inr s) = Inr s1"
      "loc_of s1 (p, i) = Some a" "pager_inv E N s1" "arena E s1 = arena E s" "files E s1 = files E s" "running s1 p" "a \<noteq> zero_page"
      "resident (blocks s1 a)" "is_swap (blocks s1 a) \<longrightarrow> length (ptes (blocks s1 a)) = 1"
  proof (cases "is_copy_on_writable (blocks s b)")
    case True
    then show ?thesis using cow_inv[OF bs I N run i x True rb] that by auto
  next
    case False
    then show ?thesis using that[of s b] I x run rb not_cow[OF I x False] by simp
  qed
  have one: "is_swap (blocks s1 a) \<Longrightarrow> length (ptes (blocks s1 a)) = 1" using 1(9) by blast
  note F = finish_write[OF 1(3,2) i 1(8,7) one]
  obtain t where t: "write_fault_handler a s1 = Inr t" "block_of p i t = Inr a"
    "read_fault_handler a t = Inr (retag a True True (grant True) s1)" using F(1) by blast
  show ?thesis
    using True 1 t F(2-6) block_of_loc[OF x i] block_of_loc[OF 1(2) i] by (auto simp: write_part_def)
qed

lemma vm_fault_ok:
  assumes bs: "backing_store (file_read E) (file_write E)" and I: "pager_inv E N s" and N: "1 < ram_pages N" and run: "running s p"
  shows "\<exists>r s'. vm_fault E addr w s = Inr (r, s') \<and> pager_inv E N s' \<and> arena E s' = arena E s \<and> files E s' = files E s
    \<and> running s' p \<and> r = (if vread E s p (addr_to_index addr) = None then - 1 else 0)
    \<and> (r = 0 \<longrightarrow> (\<exists>e. pte_at s' (p, addr_to_index addr) = Some e \<and> read_enable e \<and> (w \<longrightarrow> write_enable e)))"
proof -
  let ?i = "addr_to_index addr"
  obtain k where k: "process_info_mp s p = Some k" and cp: "curr_pid s = p" using run by (auto simp: running_def)
  note K = process_okD[OF I k]
  show ?thesis
  proof (cases "?i < next_invalid_page k")
    case False
    then have "loc_of s (p, ?i) = None" using K(3)[of ?i] by auto
    then show ?thesis using vread_none[OF I, of p ?i] I run k cp False by (simp add: vm_fault_def process_at_def Let_def)
  next
    case True
    have i: "?i < num_virt_addr" using True K(1) by simp
    obtain b where b: "loc_of s (p, ?i) = Some b" using True K(3)[of ?i] by auto
    then have db: "data_location (page_info_table k ?i) = Some b" using k by (simp add: loc_of_def)
    obtain r s1 where 1: "(if resident (blocks s b) then Inr (0, s) else cache_nonresident_page E b s) = Inr (r, s1)" "pager_inv E N s1"
      "loc_of s1 = loc_of s" "arena E s1 = arena E s" "files E s1 = files E s" "\<forall>q. running s1 q = running s q"
      and r: "r = 0 \<and> resident (blocks s1 b) \<and> vread E s p ?i = Some (physmem s1 (location (blocks s1 b))) \<or> r = - 1 \<and> vread E s p ?i = None"
      using bring_in[OF bs I N b] by blast
    have start: "vm_fault E addr w s = (if r = - 1 then Inr (- 1, s1)
        else bindr (if w then write_part E p ?i s1 else Inr s1) (\<lambda>s. bindr (block_of p ?i s) (\<lambda>b. bindr (read_fault_handler b s) (\<lambda>s. Inr (0, s)))))"
      using k cp True i db 1(1) K(2)[of ?i] by (simp add: vm_fault_def process_at_def page_info_at_def deref_def Let_def)
    from r show ?thesis
    proof
      assume "r = - 1 \<and> vread E s p ?i = None"
      then show ?thesis using start 1 run by simp
    next
      assume R: "r = 0 \<and> resident (blocks s1 b) \<and> vread E s p ?i = Some (physmem s1 (location (blocks s1 b)))"
      have "running s1 p" using 1(6) run by simp
      from fault_resident[OF bs 1(2) N this i, of b w] show ?thesis using R start 1(3-5) b by auto
    qed
  qed
qed

subsection \<open>Stores\<close>

text \<open>A store on what the processes see: a private page changes for its process, a file block for all.\<close>

definition store_view :: "nat \<Rightarrow> nat \<Rightarrow> nat \<Rightarrow> char \<Rightarrow> (nat \<rightharpoonup> vpage list) \<times> (string \<times> nat \<Rightarrow> page option)
    \<Rightarrow> (nat \<rightharpoonup> vpage list) \<times> (string \<times> nat \<Rightarrow> page option)" where
  "store_view p i off c = (\<lambda>(A, F).
     let change = map_option (\<lambda>pg. pg(off := c))
     in case A p of
          None \<Rightarrow> (A, F)
        | Some vs \<Rightarrow> (case vs ! i of
              Private d \<Rightarrow> (A(p \<mapsto> vs[i := Private (change d)]), F)
            | Shared f n \<Rightarrow> (A, F((f, n) := change (F (f, n))))))"

definition stored :: "nat \<Rightarrow> nat \<Rightarrow> char \<Rightarrow> 'd pager \<Rightarrow> 'd pager" where
  "stored u off c s = s\<lparr>physmem := (physmem s)(u := (physmem s u)(off := c))\<rparr>"

lemma stored_simps [simp]:
  "blocks (stored u off c s) = blocks s" "clock_queue (stored u off c s) = clock_queue s"
  "free_mem_blocks (stored u off c s) = free_mem_blocks s" "free_swap_blocks (stored u off c s) = free_swap_blocks s"
  "file_mapping_table (stored u off c s) = file_mapping_table s" "disk (stored u off c s) = disk s"
  "next_block (stored u off c s) = next_block s" "process_info_mp (stored u off c s) = process_info_mp s"
  "pte_at (stored u off c s) = pte_at s" "curr_pid (stored u off c s) = curr_pid s"
  "page_table_base_register (stored u off c s) = page_table_base_register s"
  "physmem (stored u off c s) = (physmem s)(u := (physmem s u)(off := c))"
  "loc_of (stored u off c s) = loc_of s"
  by (simp_all add: stored_def loc_of_def fun_eq_iff)

lemma queue_location_inj:
  assumes "mem_ok N B Q FM" and "b \<in> set Q" and "d \<in> set Q" and "location (B d) = location (B b)"
  shows "d = b"
proof -
  have "distinct (map (\<lambda>b. location (B b)) Q)" using assms(1) by (simp add: mem_ok_def)
  then show ?thesis using assms(2-4) by (auto simp: distinct_map inj_on_def)
qed

lemma stored_ok:
  assumes O: "ok E N None L s" and b: "b \<in> set (clock_queue s)" and d: "dirty (blocks s b)"
  shows "ok E N None L (stored (location (blocks s b)) off ch s)"
proof -
  note c = coreD[OF O[unfolded ok_def]]
  let ?u = "location (blocks s b)"
  let ?M = "(physmem s)(?u := (physmem s ?u)(off := ch))"
  have "?u \<noteq> 0" using bits30_page(2)[OF c(4)] b by blast
  then have "zero_ok L (blocks s) (pte_at s) ?M" using c(3) by (simp add: zero_ok_def)
  moreover have "clean_ok (file_read E) (blocks s) (clock_queue s) ?M (disk s)"
    unfolding clean_ok_def
  proof
    fix e
    assume e: "e \<in> set (clock_queue s)"
    have m: "?M (location (blocks s e)) = physmem s (location (blocks s e))" if "e \<noteq> b"
      using queue_location_inj[OF c(4) b e] that by auto
    have "(is_swap (blocks s e) \<longrightarrow> \<not> dirty (blocks s e) \<longrightarrow>
          file_read E (disk s) None (hd (swap_blocks (blocks s e))) = Some (physmem s (location (blocks s e))))
        \<and> (\<not> is_swap (blocks s e) \<longrightarrow> file_read E (disk s) (Some (filename (blocks s e))) (block_num (blocks s e)) \<noteq> None \<and>
          (\<not> dirty (blocks s e) \<longrightarrow> file_read E (disk s) (Some (filename (blocks s e))) (block_num (blocks s e))
            = Some (physmem s (location (blocks s e)))))"
      using c(8) e unfolding clean_ok_def by (rule bspec)
    then show "(is_swap (blocks s e) \<longrightarrow> \<not> dirty (blocks s e) \<longrightarrow>
          file_read E (disk s) None (hd (swap_blocks (blocks s e))) = Some (?M (location (blocks s e))))
        \<and> (\<not> is_swap (blocks s e) \<longrightarrow> file_read E (disk s) (Some (filename (blocks s e))) (block_num (blocks s e)) \<noteq> None \<and>
          (\<not> dirty (blocks s e) \<longrightarrow> file_read E (disk s) (Some (filename (blocks s e))) (block_num (blocks s e))
            = Some (?M (location (blocks s e)))))"
      using d m by (cases "e = b") simp_all
  qed
  ultimately show ?thesis using c by (simp add: ok_def core_def)
qed

lemma stored_content:
  assumes O: "ok E N None L s" and b: "b \<in> set (clock_queue s)"
  shows "content rd (stored (location (blocks s b)) off ch s) b = map_option (\<lambda>pg. pg(off := ch)) (content rd s b)"
    and "e \<noteq> b \<Longrightarrow> known L (clock_queue s) e \<Longrightarrow> content rd (stored (location (blocks s b)) off ch s) e = content rd s e"
proof -
  note c = coreD[OF O[unfolded ok_def]]
  show "content rd (stored (location (blocks s b)) off ch s) b = map_option (\<lambda>pg. pg(off := ch)) (content rd s b)"
    using queue_okD(2)[OF c(5) b] by (simp add: content_def Let_def)
  assume e: "e \<noteq> b" "known L (clock_queue s) e"
  have "location (blocks s e) \<noteq> location (blocks s b)" if "resident (blocks s e)"
  proof (cases "e = zero_page")
    case True
    then show ?thesis using c(3) bits30_page(2)[OF c(4), of "location (blocks s b)"] b by (auto simp: zero_ok_def)
  next
    case False
    then have "e \<in> set (clock_queue s)" using queue_ok_in[OF c(5) False _ that] e(2) by (auto simp: known_def)
    then show ?thesis using queue_location_inj[OF c(4) b] e(1) by blast
  qed
  then show "content rd (stored (location (blocks s b)) off ch s) e = content rd s e" by (auto simp: content_def Let_def)
qed

lemma map_upt_update: "i < n \<Longrightarrow> map (f(i := v)) [0..<n] = (map f [0..<n])[i := v]"
  by (rule nth_equalityI) (auto simp: nth_list_update)

lemma stored_arena:
  assumes I: "pager_inv E N s" and x: "loc_of s (p, i) = Some b" and b: "b \<in> set (clock_queue s)"
    and u: "is_swap (blocks s b) \<Longrightarrow> users (loc_of s) b = {(p, i)}" and k: "process_info_mp s p = Some k"
  shows "arena E (stored (location (blocks s b)) off ch s) =
    (if is_swap (blocks s b) then (arena E s)(p \<mapsto> (the (arena E s p))[i := Private (map_option (\<lambda>pg. pg(off := ch)) (content (file_read E) s b))])
     else arena E s)"
proof
  fix q
  let ?s = "stored (location (blocks s b)) off ch s"
  let ?f = "\<lambda>s q i. case loc_of s (q, i) of None \<Rightarrow> Private None | Some b \<Rightarrow> vpage_of (file_read E) s b"
  have O: "ok E N None (loc_of s) s" using I by (simp add: pager_inv_def)
  note SC = stored_content[OF O b]
  have i: "i < next_invalid_page k" using process_okD(3)[OF I k, of i] x by simp
  have same: "vpage_of (file_read E) ?s e = vpage_of (file_read E) s e"
    if "loc_of s y = Some e" "e \<noteq> b \<or> \<not> is_swap (blocks s b)" for y e
  proof -
    have "known (loc_of s) (clock_queue s) e" using usersI[of "loc_of s", OF that(1)] by (simp add: known_def)
    then show ?thesis using SC(2)[of e] that(2) by (cases "e = b") (simp_all add: vpage_of_def)
  qed
  show "arena E ?s q = (if is_swap (blocks s b) then (arena E s)(p \<mapsto> (the (arena E s p))[i := Private (map_option (\<lambda>pg. pg(off := ch)) (content (file_read E) s b))])
     else arena E s) q"
  proof (cases "is_swap (blocks s b) \<and> q = p")
    case True
    have ne: "e \<noteq> b" if "loc_of s (p, j) = Some e" "j \<noteq> i" for j e
    proof
      assume "e = b"
      then have "(p, j) \<in> users (loc_of s) b" using that(1) by simp
      then show False using u that(2) True by simp
    qed
    have "?f ?s p j = ((?f s p)(i := Private (map_option (\<lambda>pg. pg(off := ch)) (content (file_read E) s b)))) j" for j
      using x SC(1) True ne[of j] same[of "(p, j)"] by (cases "loc_of s (p, j)") (auto simp: vpage_of_def)
    then have "?f ?s p = (?f s p)(i := Private (map_option (\<lambda>pg. pg(off := ch)) (content (file_read E) s b)))" by blast
    then show ?thesis using True k map_upt_update[OF i] by (simp add: arena_def)
  next
    case False
    have "?f ?s q j = ?f s q j" for j
    proof (cases "loc_of s (q, j)")
      case (Some e)
      have "e \<noteq> b \<or> \<not> is_swap (blocks s b)"
      proof (rule ccontr)
        assume "\<not> (e \<noteq> b \<or> \<not> is_swap (blocks s b))"
        then have sw: "is_swap (blocks s b)" and "e = b" by simp_all
        then have "(q, j) \<in> users (loc_of s) b" using Some by simp
        then have "(q, j) = (p, i)" unfolding u[OF sw] by simp
        then show False using False sw by simp
      qed
      then show ?thesis using same[OF Some] Some by simp
    qed simp
    then have "?f ?s q = ?f s q" by blast
    then show ?thesis using False by (auto simp: arena_def)
  qed
qed

lemma stored_files:
  assumes O: "ok E N None L s" and b: "b \<in> set (clock_queue s)"
  shows "files E (stored (location (blocks s b)) off ch s) =
    (if is_swap (blocks s b) then files E s
     else (files E s)(file_key (blocks s b) := map_option (\<lambda>pg. pg(off := ch)) (content (file_read E) s b)))"
proof
  fix key
  note c = coreD[OF O[unfolded ok_def]] and SC = stored_content[OF O b]
  show "files E (stored (location (blocks s b)) off ch s) key =
    (if is_swap (blocks s b) then files E s
     else (files E s)(file_key (blocks s b) := map_option (\<lambda>pg. pg(off := ch)) (content (file_read E) s b))) key"
  proof (cases "file_mapping_table s key")
    case None
    have "key \<noteq> file_key (blocks s b)" if "\<not> is_swap (blocks s b)"
      using files_ok_block[OF c(6) _ that] b None by (auto simp: known_def)
    then show ?thesis using None by (simp add: file_view_def)
  next
    case (Some e)
    note K = files_ok_key[OF c(6) Some]
    show ?thesis
    proof (cases "e = b")
      case True
      then show ?thesis using K Some SC(1) by (auto simp: file_view_def)
    next
      case False
      have "key \<noteq> file_key (blocks s b)" if "\<not> is_swap (blocks s b)"
        using files_ok_block[OF c(6) _ that] b Some False by (auto simp: known_def)
      then show ?thesis using K Some SC(2)[OF False] by (simp add: file_view_def)
    qed
  qed
qed

lemma store_ok:
  assumes I: "pager_inv E N s" and run: "running s p" and st: "mmu_store s i off ch = Some s'"
  shows "pager_inv E N s'" and "running s' p" and "(arena E s', files E s') = store_view p i off ch (arena E s, files E s)"
proof -
  obtain e where e: "pte_at s (p, i) = Some e" "write_enable e" and s': "s' = stored (ppage e) off ch s"
    using st run by (auto simp: mmu_store_def running_def stored_def split: option.splits if_splits)
  obtain b where b: "loc_of s (p, i) = Some b" "resident (blocks s b)" "ppage e = location (blocks s b)"
    using entry_page[OF I e(1)] e(2) by blast
  have O: "ok E N None (loc_of s) s" using I by (simp add: pager_inv_def)
  note c = coreD[OF O[unfolded ok_def]]
  have bz: "b \<noteq> zero_page" using c(3) b(1) e by (auto simp: zero_ok_def)
  then have "entry_ok (loc_of s) (p, i) (blocks s b) b e" using c(9) b(1) e(1) unfolding pte_ok_def by blast
  then have d: "dirty (blocks s b)" and u: "is_swap (blocks s b) \<Longrightarrow> users (loc_of s) b = {(p, i)}"
    using e(2) by (auto simp: entry_ok_def)
  have q: "b \<in> set (clock_queue s)" by (rule queue_ok_in[OF c(5) bz usersI[of "loc_of s", OF b(1)] b(2)])
  have s'': "s' = stored (location (blocks s b)) off ch s" using s' b(3) by simp
  have "\<forall>q. process_ok E s' q" "unused_ok s'" using I s'' by (simp_all add: pager_inv_def process_ok_def swap_count_def unused_ok_def)
  then show "pager_inv E N s'" using stored_ok[OF O q d] s'' by (simp add: pager_inv_def)
  show "running s' p" using run s'' by (simp add: running_def)
  obtain k where k: "process_info_mp s p = Some k" using run by (auto simp: running_def)
  have i: "i < next_invalid_page k" using process_okD(3)[OF I k, of i] b(1) by simp
  obtain vs where ap: "arena E s p = Some vs" and v: "vs ! i = vpage_of (file_read E) s b"
    using k i b(1) by (simp add: arena_def)
  have key: "files E s (file_key (blocks s b)) = content (file_read E) s b" if "\<not> is_swap (blocks s b)"
    using files_ok_block[OF c(6) _ that] q by (simp add: known_def file_view_def)
  show "(arena E s', files E s') = store_view p i off ch (arena E s, files E s)"
  proof (cases "is_swap (blocks s b)")
    case True
    then have "vs ! i = Private (content (file_read E) s b)" using v by (simp add: vpage_of_def)
    then have "store_view p i off ch (arena E s, files E s) =
        ((arena E s)(p \<mapsto> vs[i := Private (map_option (\<lambda>pg. pg(off := ch)) (content (file_read E) s b))]), files E s)"
      using ap by (simp add: store_view_def Let_def)
    then show ?thesis using True s'' stored_arena[OF I b(1) q u k] stored_files[OF O q] ap by simp
  next
    case False
    then have "vs ! i = Shared (filename (blocks s b)) (block_num (blocks s b))" using v by (simp add: vpage_of_def)
    then have "store_view p i off ch (arena E s, files E s) =
        (arena E s, (files E s)(file_key (blocks s b) := map_option (\<lambda>pg. pg(off := ch)) (content (file_read E) s b)))"
      using ap key[OF False] by (simp add: store_view_def Let_def file_key_def)
    then show ?thesis using False s'' stored_arena[OF I b(1) q u k] stored_files[OF O q] ap by simp
  qed
qed

end
