(* ===== verification/Pager_Join.thy ===== *)
theory Pager_Join
  imports Pager_Access
begin

text \<open>
  A page that shows nothing is attached to a block: to the page of zeros, to a block backed by swap
  that other pages show, to a file block that is known, or to a new file block.
\<close>

subsection \<open>Facts shared by the four cases\<close>

lemma set_set_insert [simp]: "set (set_insert x xs) = insert x (set xs)"
  by (auto simp: set_insert_def)

lemma distinct_set_insert [simp]: "distinct (set_insert x xs) = distinct xs"
  by (auto simp: set_insert_def)

lemma ptes_ok_join:
  assumes P: "ptes_ok L T B" and x: "L x = None" and T': "T' x \<noteq> None" "\<And>y. y \<noteq> x \<Longrightarrow> T' y = None \<longleftrightarrow> T y = None"
    and b: "ptes (B' b) = set_insert x (ptes (B b)) \<or> b = zero_page \<and> ptes (B' b) = ptes (B b)"
    and o: "\<And>c. c \<noteq> b \<Longrightarrow> ptes (B' c) = ptes (B c)"
  shows "ptes_ok (L(x \<mapsto> b)) T' B'"
proof -
  have "x \<notin> set (ptes (B c))" for c using ptes_user[OF P, of x c] x by auto
  then have d: "distinct (ptes (B' c))" for c using P b o[of c] by (cases "c = b") (auto simp: ptes_ok_def)
  have s: "c \<noteq> zero_page \<Longrightarrow> set (ptes (B' c)) = users (L(x \<mapsto> b)) c" for c
    using P b o[of c] users_add[of L x b c] x by (cases "c = b") (auto simp: ptes_ok_def)
  have "set (ptes (B' zero_page)) \<subseteq> (if b = zero_page then insert x (set (ptes (B zero_page))) else set (ptes (B zero_page)))"
    using b o[of zero_page] by (cases "zero_page = b") auto
  also have "\<dots> \<subseteq> users (L(x \<mapsto> b)) zero_page"
    using P users_add[of L x b zero_page, OF x] by (auto simp: ptes_ok_def)
  finally have z: "set (ptes (B' zero_page)) \<subseteq> users (L(x \<mapsto> b)) zero_page" .
  have "T' y \<noteq> None" if "(L(x \<mapsto> b)) y \<noteq> None" for y
    using that T' P by (cases "y = x") (auto simp: ptes_ok_def)
  then show ?thesis using d s z P by (simp add: ptes_ok_def)
qed

lemma swap_ok_join:
  assumes P: "ptes_ok L T B" and S: "swap_ok None L B (sb # FS)" and x: "L x = None" and sw: "is_swap (B b)" "is_swap (B' b)"
    and b: "swap_blocks (B' b) = swap_blocks (B b) @ [sb]"
    and o: "\<And>c. c \<noteq> b \<Longrightarrow> swap_blocks (B' c) = swap_blocks (B c) \<and> is_swap (B' c) = is_swap (B c)"
  shows "swap_ok None (L(x \<mapsto> b)) B' FS"
proof -
  have u: "users (L(x \<mapsto> b)) c = (if c = b then insert x (users L c) else users L c)" for c
    by (rule users_add[of L x, OF x])
  have "x \<notin> users L b" using x by simp
  then have "card (users (L(x \<mapsto> b)) b) = card (users L b) + 1" using finite_users[OF P, of b] by (simp add: u)
  then have 1: "length (swap_blocks (B' c)) = (if is_swap (B' c) then card (users (L(x \<mapsto> b)) c) else 0)" for c
    using S sw b o[of c] u[of c] by (cases "c = b") (simp_all add: swap_ok_def)
  have n: "sb \<notin> set (swap_blocks (B c))" "sb \<notin> set FS" "distinct FS" for c using S by (auto simp: swap_ok_def)
  have d: "distinct (swap_blocks (B c))" "set (swap_blocks (B c)) \<inter> set (sb # FS) = {}" for c
    using S unfolding swap_ok_def by blast+
  have 2: "distinct (swap_blocks (B' c))" for c using d(1)[of c] b o[of c] n(1)[of b] by (cases "c = b") simp_all
  have 3: "set (swap_blocks (B' c)) \<inter> set FS = {}" for c using d(2)[of c] b o[of c] n(2) by (cases "c = b") auto
  have dj: "set (swap_blocks (B c)) \<inter> set (swap_blocks (B e)) = {}" if "c \<noteq> e" for c e
    using S that unfolding swap_ok_def by blast
  have "set (swap_blocks (B' c)) \<inter> set (swap_blocks (B' e)) = {}" if "c \<noteq> e" for c e
    using dj[OF that] b o[of c] o[of e] n(1)[of c] n(1)[of e] that by (cases "c = b"; cases "e = b") auto
  then show ?thesis using 1 2 3 n(3) by (simp add: swap_ok_def)
qed

lemma known_join: "L x = None \<Longrightarrow> known (L(x \<mapsto> b)) Q c \<longleftrightarrow> known L Q c \<or> c = b"
  using users_add[of L x b c] by (auto simp: known_def)

lemma queue_ok_join:
  assumes K: "queue_ok L B Q" and x: "L x = None" and b: "b = zero_page \<or> known L Q b \<or> \<not> resident (B' b) \<and> b \<notin> set Q"
    and o: "\<And>c. c \<noteq> b \<or> known L Q b \<Longrightarrow> resident (B' c) = resident (B c) \<and> btype (B' c) = btype (B c) \<and> is_swap (B' c) = is_swap (B c)"
  shows "queue_ok (L(x \<mapsto> b)) B' Q"
proof (rule queue_okI)
  have u: "users (L(x \<mapsto> b)) c = (if c = b then insert x (users L c) else users L c)" for c
    by (rule users_add[of L x, OF x])
  show "c \<noteq> zero_page \<and> resident (B' c) \<and> btype (B' c) = T_phys \<and> (is_swap (B' c) \<longrightarrow> users (L(x \<mapsto> b)) c \<noteq> {})"
    if "c \<in> set Q" for c
    using queue_okD[OF K that] o[of c] u[of c] that by (auto simp: known_def)
  show "c \<in> set Q" if c: "c \<noteq> zero_page" "users (L(x \<mapsto> b)) c \<noteq> {}" "resident (B' c)" for c
  proof (cases "c = b")
    case True
    then have k: "known L Q b" using b c by auto
    then show ?thesis using True o[of b] queue_ok_in[OF K, of b] c by (auto simp: known_def)
  next
    case False
    then show ?thesis using u[of c] c o[of c] queue_ok_in[OF K c(1)] by simp
  qed
qed

lemma pte_ok_join:
  assumes C: "pte_ok L B T" and x: "L x = None"
    and new: "\<And>e. b \<noteq> zero_page \<Longrightarrow> T' x = Some e \<Longrightarrow> entry_ok (L(x \<mapsto> b)) x (B' b) b e"
    and old: "\<And>y e'. L y = Some b \<Longrightarrow> b \<noteq> zero_page \<Longrightarrow> T' y = Some e' \<Longrightarrow> entry_ok (L(x \<mapsto> b)) y (B' b) b e'"
    and o: "\<And>c. c \<noteq> b \<Longrightarrow> B' c = B c" "\<And>y c. L y = Some c \<Longrightarrow> c \<noteq> b \<Longrightarrow> y \<noteq> x \<Longrightarrow> T' y = T y"
  shows "pte_ok (L(x \<mapsto> b)) B' T'"
  unfolding pte_ok_def
proof (intro allI impI)
  fix y c e
  assume y: "(L(x \<mapsto> b)) y = Some c" and c: "c \<noteq> zero_page" and e: "T' y = Some e"
  show "entry_ok (L(x \<mapsto> b)) y (B' c) c e"
  proof (cases "c = b")
    case True
    then show ?thesis using y c e new[of e] old[of y e] by (cases "y = x") auto
  next
    case False
    then have "L y = Some c" using y by (cases "y = x") auto
    moreover from this have "y \<noteq> x" using x by (cases "y = x") simp_all
    ultimately have "L y = Some c" and "T y = Some e" using o(2)[of y c] e False by simp_all
    then have "entry_ok L y (B c) c e" using C c unfolding pte_ok_def by blast
    moreover have "users (L(x \<mapsto> b)) c = users L c" using users_add[of L x b c, OF x] False by simp
    ultimately show ?thesis using o(1)[OF False] by (simp add: entry_ok_def)
  qed
qed

subsection \<open>The page of zeros\<close>

lemma join_zero:
  assumes O: "ok E N None L s" and x: "L x = None" and fs: "free_swap_blocks s = sb # FS"
    and T: "T x = Some e" "\<And>y. y \<noteq> x \<Longrightarrow> T y = pte_at s y" and e: "ppage e = 0" "read_enable e" "\<not> write_enable e"
    and ps: "ps = ptes (blocks s zero_page) \<or> ps = set_insert x (ptes (blocks s zero_page))"
    and B: "B = (blocks s)(zero_page := (blocks s zero_page)\<lparr>swap_blocks := swap_blocks (blocks s zero_page) @ [sb], ptes := ps\<rparr>)"
  shows "core (file_read E) N None (L(x \<mapsto> zero_page)) (clock_queue s) (s\<lparr>blocks := B, free_swap_blocks := FS\<rparr>) T"
proof -
  note c = coreD[OF O[unfolded ok_def]]
  let ?L = "L(x \<mapsto> zero_page)"
  have z: "is_swap (blocks s zero_page)" "resident (blocks s zero_page)" using c(3) by (simp_all add: zero_ok_def)
  have u: "users ?L d = users L d" if "d \<noteq> zero_page" for d using users_add[of L x zero_page d, OF x] that by simp
  have "ptes_ok ?L T B" by (rule ptes_ok_join[OF c(1) x]) (use T ps B in auto)
  moreover have "swap_ok None ?L B FS"
    by (rule swap_ok_join[OF c(1) c(2)[unfolded fs] x]) (use z B in auto)
  moreover have "zero_ok ?L B T (physmem s)"
    unfolding zero_ok_def
  proof (intro conjI allI impI)
    fix y e'
    assume y: "?L y = Some zero_page" "T y = Some e'"
    have "ppage e' = 0 \<and> read_enable e' \<and> \<not> write_enable e'"
    proof (cases "y = x")
      case False
      then show ?thesis using y c(3) T(2)[OF False] by (simp add: zero_ok_def)
    qed (use y T(1) e in simp)
    then show "ppage e' = 0" "read_enable e'" "\<not> write_enable e'" by simp_all
  qed (use c(3) B in \<open>simp_all add: zero_ok_def\<close>)
  moreover have "mem_ok (ram_pages N) B (clock_queue s) (free_mem_blocks s)"
  proof (rule mem_ok_cong[OF c(4)])
    have "(\<lambda>b. location (B b)) = (\<lambda>b. location (blocks s b))" using B by auto
    then show "mset (free_mem_blocks s @ map (\<lambda>b. location (B b)) (clock_queue s))
        = mset (free_mem_blocks s @ map (\<lambda>b. location (blocks s b)) (clock_queue s))" by (simp only:)
  qed
  moreover have "queue_ok ?L B (clock_queue s)" by (rule queue_ok_join[OF c(5) x]) (use B in auto)
  moreover have "files_ok ?L B (clock_queue s) (file_mapping_table s)"
  proof (rule files_ok_known[OF c(6)])
    show "known ?L (clock_queue s) d \<longleftrightarrow> known L (clock_queue s) d" if "\<not> is_swap (B d)" for d
      using known_join[of L x zero_page "clock_queue s" d, OF x] that z B by auto
  qed (use B in \<open>auto simp: file_key_def\<close>)
  moreover have "out_ok (file_read E) ?L B (disk s)"
    unfolding out_ok_def
  proof (intro allI impI)
    fix d
    assume d: "users ?L d \<noteq> {}" "\<not> resident (B d)"
    have dz: "d \<noteq> zero_page" using d(2) z B by auto
    show "btype (B d) \<noteq> T_phys \<and> \<not> dirty (B d) \<and> (is_swap (B d) \<longrightarrow> location (B d) = hd (swap_blocks (B d)) \<and>
        file_read E (disk s) None (location (B d)) \<noteq> None) \<and> (\<not> is_swap (B d) \<longrightarrow> location (B d) = block_num (B d))"
      using out_okD[OF c(7), of d] d u[OF dz] B dz by auto
  qed
  moreover have "clean_ok (file_read E) B (clock_queue s) (physmem s) (disk s)"
  proof (rule clean_ok_cong[OF c(8)])
    fix d
    assume "d \<in> set (clock_queue s)"
    then have "d \<noteq> zero_page" by (rule queue_okD(1)[OF c(5)])
    then show "dirty (B d) = dirty (blocks s d) \<and> is_swap (B d) = is_swap (blocks s d) \<and> location (B d) = location (blocks s d)
        \<and> file_key (B d) = file_key (blocks s d) \<and> hd (swap_blocks (B d)) = hd (swap_blocks (blocks s d))
        \<and> physmem s (location (blocks s d)) = physmem s (location (blocks s d))" using B by simp
  qed simp_all
  moreover have "pte_ok ?L B T" by (rule pte_ok_join[OF c(9) x]) (use B T x in auto)
  moreover have "fresh_ok ?L B (clock_queue s) (next_block s)"
    using c(10) known_join[of L x zero_page "clock_queue s", OF x] B unfolding fresh_ok_def by auto
  moreover have "swap_all (swap_size N) B FS"
    by (rule swap_all_moved[OF c(11), of "{zero_page}"]) (use B fs in auto)
  ultimately show ?thesis by (simp add: core_def)
qed

subsection \<open>A block that other pages show, or that is still in memory\<close>

lemma join_known:
  assumes O: "ok E N None L s" and x: "L x = None" and k: "known L (clock_queue s) b" and bz: "b \<noteq> zero_page"
    and S: "swap_ok None (L(x \<mapsto> b)) B FS" and h: "hd sbs = hd (swap_blocks (blocks s b))"
    and W: "set FS \<union> set sbs = set (free_swap_blocks s) \<union> set (swap_blocks (blocks s b))"
    and T: "T x \<noteq> None" "\<And>y. y \<noteq> x \<Longrightarrow> T y = None \<longleftrightarrow> pte_at s y = None" "\<And>y. y \<noteq> x \<Longrightarrow> L y \<noteq> Some b \<Longrightarrow> T y = pte_at s y"
    and en: "\<And>e. T x = Some e \<Longrightarrow> entry_ok (L(x \<mapsto> b)) x (blocks s b) b e"
      "\<And>y e. L y = Some b \<Longrightarrow> T y = Some e \<Longrightarrow> entry_ok (L(x \<mapsto> b)) y (blocks s b) b e"
    and B: "B = (blocks s)(b := (blocks s b)\<lparr>swap_blocks := sbs, ptes := set_insert x (ptes (blocks s b))\<rparr>)"
  shows "core (file_read E) N None (L(x \<mapsto> b)) (clock_queue s) (s\<lparr>blocks := B, free_swap_blocks := FS\<rparr>) T"
proof -
  note c = coreD[OF O[unfolded ok_def]]
  let ?L = "L(x \<mapsto> b)"
  have u: "users ?L d = (if d = b then insert x (users L d) else users L d)" for d by (rule users_add[of L x, OF x])
  have kn: "known ?L (clock_queue s) d \<longleftrightarrow> known L (clock_queue s) d" for d
    using known_join[of L x b "clock_queue s" d, OF x] k by auto
  have nx: "y \<noteq> x" if "L y = Some d" for y d using that x by auto
  have "ptes_ok ?L T B" by (rule ptes_ok_join[OF c(1) x]) (use T B in auto)
  moreover have "zero_ok ?L B T (physmem s)"
  proof -
    have "T y = pte_at s y" if "L y = Some zero_page" for y using T(3)[OF nx[OF that]] that bz by simp
    then show ?thesis using c(3) B bz by (auto simp: zero_ok_def split: if_splits)
  qed
  moreover have "mem_ok (ram_pages N) B (clock_queue s) (free_mem_blocks s)"
  proof (rule mem_ok_cong[OF c(4)])
    have "(\<lambda>b. location (B b)) = (\<lambda>b. location (blocks s b))" using B by auto
    then show "mset (free_mem_blocks s @ map (\<lambda>b. location (B b)) (clock_queue s))
        = mset (free_mem_blocks s @ map (\<lambda>b. location (blocks s b)) (clock_queue s))" by (simp only:)
  qed
  moreover have "queue_ok ?L B (clock_queue s)" by (rule queue_ok_join[OF c(5) x]) (use B k in auto)
  moreover have "files_ok ?L B (clock_queue s) (file_mapping_table s)"
    by (rule files_ok_known[OF c(6)]) (use B kn in \<open>auto simp: file_key_def\<close>)
  moreover have "out_ok (file_read E) ?L B (disk s)"
    unfolding out_ok_def
  proof (intro allI impI)
    fix d
    assume d: "users ?L d \<noteq> {}" "\<not> resident (B d)"
    have r: "\<not> resident (blocks s d)" using d(2) B by (cases "d = b") simp_all
    have "known L (clock_queue s) d" using kn[of d] d(1) by (simp add: known_def)
    then have "users L d \<noteq> {}" by (rule known_out_users[where B = "blocks s", OF c(5) _ r])
    then show "btype (B d) \<noteq> T_phys \<and> \<not> dirty (B d) \<and> (is_swap (B d) \<longrightarrow> location (B d) = hd (swap_blocks (B d)) \<and>
        file_read E (disk s) None (location (B d)) \<noteq> None) \<and> (\<not> is_swap (B d) \<longrightarrow> location (B d) = block_num (B d))"
      using out_okD[OF c(7), of d] r B h by (cases "d = b") auto
  qed
  moreover have "clean_ok (file_read E) B (clock_queue s) (physmem s) (disk s)"
    by (rule clean_ok_cong[OF c(8)]) (use B h in \<open>auto simp: file_key_def\<close>)
  moreover have "pte_ok ?L B T"
  proof (rule pte_ok_join[OF c(9) x])
    show "entry_ok ?L x (B b) b e" if "T x = Some e" for e using en(1)[OF that] B by (simp add: entry_ok_def)
    show "entry_ok ?L y (B b) b e" if "L y = Some b" "T y = Some e" for y e using en(2)[OF that] B by (simp add: entry_ok_def)
  qed (use B T(3) in auto)
  moreover have "fresh_ok ?L B (clock_queue s) (next_block s)"
    unfolding fresh_ok_def
  proof (intro conjI allI impI)
    show "zero_page < next_block s" using c(10) by (simp add: fresh_ok_def)
    fix d
    assume d: "next_block s \<le> d"
    have "d \<noteq> b" using c(10) k d unfolding fresh_ok_def by blast
    then show "\<not> known ?L (clock_queue s) d" "swap_blocks (B d) = []" using c(10) d kn[of d] B by (simp_all add: fresh_ok_def)
  qed
  moreover have "swap_all (swap_size N) B FS"
    by (rule swap_all_moved[OF c(11), of "{b}"]) (use B W in auto)
  ultimately show ?thesis using S by (simp add: core_def)
qed

lemma swap_ok_join_file:
  assumes P: "ptes_ok L T B" and S: "swap_ok None L B FS" and x: "L x = None" and sw: "\<not> is_swap (B' b)"
    and o: "\<And>c. swap_blocks (B' c) = swap_blocks (B c) \<and> (c \<noteq> b \<longrightarrow> is_swap (B' c) = is_swap (B c))"
    and e: "swap_blocks (B b) = []"
  shows "swap_ok None (L(x \<mapsto> b)) B' FS"
proof -
  have u: "users (L(x \<mapsto> b)) c = users L c" if "c \<noteq> b" for c using users_add[of L x b c, OF x] that by simp
  have len: "length (swap_blocks (B' c)) = (if is_swap (B' c) then card (users (L(x \<mapsto> b)) c) else 0)" for c
    using S o[of c] u[of c] sw e by (cases "c = b") (auto simp: swap_ok_def)
  have sb: "swap_blocks (B' c) = swap_blocks (B c)" for c using o by blast
  have r: "distinct FS" "\<forall>b. distinct (swap_blocks (B b))" "\<forall>b. set (swap_blocks (B b)) \<inter> set FS = {}"
    "\<forall>b c. b \<noteq> c \<longrightarrow> set (swap_blocks (B b)) \<inter> set (swap_blocks (B c)) = {}"
    using S unfolding swap_ok_def by blast+
  show ?thesis
    unfolding swap_ok_def
  proof (intro conjI)
    show "\<forall>c. length (swap_blocks (B' c)) =
        (if is_swap (B' c) then card (users (L(x \<mapsto> b)) c) + (if None = Some c then 1 else 0) else 0)" using len by simp
  qed (use r sb in simp_all)
qed

subsection \<open>A new file block\<close>

lemma join_new:
  assumes O: "ok E N None L s" and x: "L x = None" and F: "file_mapping_table s (file_key blk) = None"
    and blk: "\<not> is_swap blk" "\<not> resident blk" "btype blk = T_file" "\<not> dirty blk" "location blk = block_num blk"
      "ptes blk = [x]" "swap_blocks blk = []"
    and T: "T x = Some e" "\<And>y. y \<noteq> x \<Longrightarrow> T y = pte_at s y" and e: "\<not> read_enable e" "\<not> write_enable e"
    and B: "B = (blocks s)(next_block s := blk)"
  shows "core (file_read E) N None (L(x \<mapsto> next_block s)) (clock_queue s)
    (s\<lparr>blocks := B, next_block := next_block s + 1, file_mapping_table := (file_mapping_table s)(file_key blk \<mapsto> next_block s)\<rparr>) T"
proof -
  note c = coreD[OF O[unfolded ok_def]]
  let ?b = "next_block s"
  let ?L = "L(x \<mapsto> ?b)" and ?F = "(file_mapping_table s)(file_key blk \<mapsto> ?b)"
  have u: "users ?L d = (if d = ?b then insert x (users L d) else users L d)" for d by (rule users_add[of L x, OF x])
  have f: "\<not> known L (clock_queue s) ?b" "swap_blocks (blocks s ?b) = []" "zero_page < ?b" using c(10) by (simp_all add: fresh_ok_def)
  then have f': "users L ?b = {}" "?b \<notin> set (clock_queue s)" "?b \<noteq> zero_page" by (simp_all add: known_def)
  have kn: "known ?L (clock_queue s) d \<longleftrightarrow> known L (clock_queue s) d \<or> d = ?b" for d by (rule known_join[of L x, OF x])
  have "set (ptes (blocks s ?b)) = users L ?b" using c(1) f'(3) unfolding ptes_ok_def by blast
  then have np: "ptes (blocks s ?b) = []" using f'(1) by simp
  have "ptes_ok ?L T B" by (rule ptes_ok_join[OF c(1) x]) (use T B blk np in \<open>auto simp: set_insert_def\<close>)
  moreover have "swap_ok None ?L B (free_swap_blocks s)"
    by (rule swap_ok_join_file[OF c(1,2) x]) (use B blk f in auto)
  moreover have "zero_ok ?L B T (physmem s)"
  proof -
    have "T y = pte_at s y" if "L y = Some zero_page" for y using T(2)[of y] that x by (cases "y = x") simp_all
    then show ?thesis using c(3) B f' by (auto simp: zero_ok_def split: if_splits)
  qed
  moreover have "mem_ok (ram_pages N) B (clock_queue s) (free_mem_blocks s)"
  proof (rule mem_ok_cong[OF c(4)])
    have "map (\<lambda>b. location (B b)) (clock_queue s) = map (\<lambda>b. location (blocks s b)) (clock_queue s)"
      using B f'(2) by auto
    then show "mset (free_mem_blocks s @ map (\<lambda>b. location (B b)) (clock_queue s))
        = mset (free_mem_blocks s @ map (\<lambda>b. location (blocks s b)) (clock_queue s))" by (simp only:)
  qed
  moreover have "queue_ok ?L B (clock_queue s)" by (rule queue_ok_join[OF c(5) x]) (use B blk f f' in auto)
  moreover have "files_ok ?L B (clock_queue s) ?F"
    unfolding files_ok_def
  proof (intro conjI allI impI)
    fix d
    assume d: "known ?L (clock_queue s) d" "\<not> is_swap (B d)"
    show "?F (file_key (B d)) = Some d"
    proof (cases "d = ?b")
      case False
      then have "file_mapping_table s (file_key (blocks s d)) = Some d" using files_ok_block[OF c(6), of d] d kn[of d] B by simp
      then show ?thesis using False B F by auto
    qed (use B in simp)
  next
    fix key d
    assume d: "?F key = Some d"
    have "known ?L (clock_queue s) d \<and> \<not> is_swap (B d) \<and> file_key (B d) = key"
    proof (cases "key = file_key blk")
      case False
      then have "file_mapping_table s key = Some d" using d by simp
      from files_ok_key[OF c(6) this] show ?thesis using f(1) kn[of d] B by (cases "d = ?b") auto
    qed (use d kn[of ?b] B blk in auto)
    then show "known ?L (clock_queue s) d" "\<not> is_swap (B d)" "file_key (B d) = key" by blast+
  qed
  moreover have "out_ok (file_read E) ?L B (disk s)"
    unfolding out_ok_def
  proof (intro allI impI)
    fix d
    assume d: "users ?L d \<noteq> {}" "\<not> resident (B d)"
    show "btype (B d) \<noteq> T_phys \<and> \<not> dirty (B d) \<and> (is_swap (B d) \<longrightarrow> location (B d) = hd (swap_blocks (B d)) \<and>
        file_read E (disk s) None (location (B d)) \<noteq> None) \<and> (\<not> is_swap (B d) \<longrightarrow> location (B d) = block_num (B d))"
      using out_okD[OF c(7), of d] u[of d] d B blk by (cases "d = ?b") auto
  qed
  moreover have "clean_ok (file_read E) B (clock_queue s) (physmem s) (disk s)"
  proof (rule clean_ok_cong[OF c(8)])
    fix d
    assume "d \<in> set (clock_queue s)"
    then have "d \<noteq> ?b" using f'(2) by blast
    then show "dirty (B d) = dirty (blocks s d) \<and> is_swap (B d) = is_swap (blocks s d) \<and> location (B d) = location (blocks s d)
        \<and> file_key (B d) = file_key (blocks s d) \<and> hd (swap_blocks (B d)) = hd (swap_blocks (blocks s d))
        \<and> physmem s (location (blocks s d)) = physmem s (location (blocks s d))" using B by simp
  qed simp_all
  moreover have "pte_ok ?L B T"
  proof (rule pte_ok_join[OF c(9) x])
    show "entry_ok ?L x (B ?b) ?b e'" if "T x = Some e'" for e' using that T(1) e B blk by (simp add: entry_ok_def)
    show "entry_ok ?L y (B ?b) ?b e'" if "L y = Some ?b" for y e' using that f'(1) usersI[of L y] by blast
  qed (use B T(2) in auto)
  moreover have "fresh_ok ?L B (clock_queue s) (?b + 1)"
    using c(10) kn B by (auto simp: fresh_ok_def)
  moreover have "swap_all (swap_size N) B (free_swap_blocks s)"
    by (rule swap_all_cong[OF c(11)]) (use B blk f in auto)
  ultimately show ?thesis by (simp add: core_def)
qed

end
