(* ===== verification/Pager_Map.thy ===== *)
theory Pager_Map
  imports Pager_Join
begin

text \<open>
  Mapping a page: the page of zeros, a file block that is new, and a file block that is already
  mapped.  In each case the arena of the process grows by one page and nothing else changes.
\<close>

subsection \<open>Updates of one process\<close>

lemma upd_pte_one:
  assumes "process_info_mp s p = Some k"
  shows "upd_pte_set {(p, i)} f s = s\<lparr>process_info_mp := (process_info_mp s)(p \<mapsto> k\<lparr>page_table := (page_table k)(i := f (page_table k i))\<rparr>)\<rparr>"
proof -
  have "process_info_mp (upd_pte_set {(p, i)} f s) q
      = ((process_info_mp s)(p \<mapsto> k\<lparr>page_table := (page_table k)(i := f (page_table k i))\<rparr>)) q" for q
  proof (cases "q = p")
    case True
    have "(\<lambda>j. if (p, j) \<in> {(p, i)} then f (page_table k j) else page_table k j) = (page_table k)(i := f (page_table k i))"
      by auto
    then show ?thesis using True assms by (simp add: upd_pte_set_def)
  next
    case False
    then show ?thesis by (cases "process_info_mp s q") (simp_all add: upd_pte_set_def)
  qed
  then have "process_info_mp (upd_pte_set {(p, i)} f s) = (process_info_mp s)(p \<mapsto> k\<lparr>page_table := (page_table k)(i := f (page_table k i))\<rparr>)"
    by blast
  then show ?thesis by (simp add: upd_pte_set_def)
qed

lemma set_process_one: "process_info_mp s p = Some k \<Longrightarrow> set_process p f s = s\<lparr>process_info_mp := (process_info_mp s)(p \<mapsto> f k)\<rparr>"
  by (simp add: set_process_def)

lemma set_page_info_one:
  "process_info_mp s p = Some k \<Longrightarrow>
   set_page_info p i f s = s\<lparr>process_info_mp := (process_info_mp s)(p \<mapsto> k\<lparr>page_info_table := (page_info_table k)(i := f (page_info_table k i))\<rparr>)\<rparr>"
  by (simp add: set_page_info_def set_process_one)

lemma set_pte_one:
  assumes "process_info_mp s p = Some k" and "i < num_virt_addr"
  shows "set_pte (p, i) f s = Inr (s\<lparr>process_info_mp := (process_info_mp s)(p \<mapsto> k\<lparr>page_table := (page_table k)(i := f (page_table k i))\<rparr>)\<rparr>)"
  using assms upd_pte_one[OF assms(1), of i f] by (simp add: set_pte_def)

lemma base_running: "running s p \<Longrightarrow> base_register s = Inr p"
  by (auto simp: running_def base_register_def)

text \<open>The process after a page was mapped, with \<open>c\<close> more swap blocks.\<close>

definition grown :: "kernel_process_info \<Rightarrow> nat \<Rightarrow> page_table_entry_t \<Rightarrow> nat \<Rightarrow> kernel_process_info" where
  "grown k b e c = k\<lparr>page_info_table := (page_info_table k)(next_invalid_page k := \<lparr>valid = True, data_location = Some b\<rparr>),
     page_table := (page_table k)(next_invalid_page k := e), next_invalid_page := next_invalid_page k + 1,
     num_swap_blocks := num_swap_blocks k + c\<rparr>"

lemma swap_count_le:
  assumes I: "pager_inv E N s" and k: "process_info_mp s p = Some k"
  shows "swap_count s p \<le> next_invalid_page k"
proof -
  have "{i. \<exists>b. loc_of s (p, i) = Some b \<and> is_swap (blocks s b)} \<subseteq> {..<next_invalid_page k}"
    using process_okD(3)[OF I k] by auto
  then show ?thesis unfolding swap_count_def using card_mono[OF finite_lessThan] by fastforce
qed

lemma grown_views:
  assumes I: "pager_inv E N s" and k: "process_info_mp s p = Some k" and n: "next_invalid_page k < num_virt_addr"
    and s': "process_info_mp s' = (process_info_mp s)(p \<mapsto> grown k b e c)"
    and c: "c = (if is_swap (blocks s' b) then 1 else 0)"
    and sw: "\<And>x d. loc_of s x = Some d \<Longrightarrow> is_swap (blocks s' d) = is_swap (blocks s d)"
    and O: "ok E N None ((loc_of s)((p, next_invalid_page k) \<mapsto> b)) s'"
  shows "loc_of s' = (loc_of s)((p, next_invalid_page k) \<mapsto> b)" and "pager_inv E N s'"
proof -
  let ?n = "next_invalid_page k"
  show l: "loc_of s' = (loc_of s)((p, ?n) \<mapsto> b)"
  proof
    fix x
    show "loc_of s' x = ((loc_of s)((p, ?n) \<mapsto> b)) x"
      using s' k by (cases x) (auto simp: loc_of_def grown_def split: option.splits)
  qed
  note K = process_okD[OF I k]
  have "process_ok E s' q" for q
  proof (cases "q = p")
    case False
    then have q: "process_info_mp s' q = process_info_mp s q" using s' by simp
    show ?thesis
    proof (rule process_ok_cong[of E s])
      show "process_ok E s q" using I by (simp add: pager_inv_def)
      show "outline s' q = outline s q" by (simp add: outline_def q)
    qed (use l sw False in auto)
  next
    case True
    let ?S = "\<lambda>s. {i. \<exists>b. loc_of s (p, i) = Some b \<and> is_swap (blocks s b)}"
    have f: "finite (?S s)"
    proof (rule finite_subset)
      show "?S s \<subseteq> {..<?n}" using K(3) by auto
    qed simp
    have "i \<in> ?S s' \<longleftrightarrow> i \<in> ?S s \<or> i = ?n \<and> is_swap (blocks s' b)" for i
      using l sw[of "(p, i)"] K(3)[of ?n] by (cases "loc_of s (p, i)") auto
    then have "?S s' = (if is_swap (blocks s' b) then insert ?n (?S s) else ?S s)" by auto
    moreover have "?n \<notin> ?S s" using K(3)[of ?n] by auto
    ultimately have "swap_count s' p = swap_count s p + c" using f c by (simp add: swap_count_def)
    then have "\<exists>g \<in> uninitialised E. num_swap_blocks k + c = g + swap_count s' p" using K(4) by auto
    moreover have "valid (page_info_table (grown k b e c) i) \<longleftrightarrow> i < ?n + 1" for i using K(2)[of i] by (auto simp: grown_def)
    moreover have "loc_of s' (p, i) \<noteq> None \<longleftrightarrow> i < ?n + 1" for i using K(3)[of i] l by auto
    ultimately show ?thesis using True s' n by (simp add: process_ok_def grown_def)
  qed
  moreover have "unused_ok s'"
    unfolding unused_ok_def
  proof (intro allI impI)
    fix x e'
    assume x: "loc_of s' x = None" and e': "pte_at s' x = Some e'"
    then have "loc_of s x = None" "x \<noteq> (p, ?n)" using l by (auto split: if_splits)
    moreover have "pte_at s' x = pte_at s x" using \<open>x \<noteq> (p, ?n)\<close> s' k by (cases x) (auto simp: pte_at_def grown_def)
    ultimately show "\<not> read_enable e' \<and> \<not> write_enable e'" using I e' by (simp add: pager_inv_def unused_ok_def)
  qed
  ultimately show "pager_inv E N s'" using O l by (simp add: pager_inv_def)
qed

lemma grown_arena:
  assumes I: "pager_inv E N s" and k: "process_info_mp s p = Some k"
    and s': "process_info_mp s' = (process_info_mp s)(p \<mapsto> grown k b e c)"
    and l: "loc_of s' = (loc_of s)((p, next_invalid_page k) \<mapsto> b)"
    and v: "\<And>x d. loc_of s x = Some d \<Longrightarrow> vpage_of (file_read E) s' d = vpage_of (file_read E) s d"
  shows "arena E s' = (arena E s)(p \<mapsto> the (arena E s p) @ [vpage_of (file_read E) s' b])"
proof
  fix q
  let ?f = "\<lambda>s q i. case loc_of s (q, i) of None \<Rightarrow> Private None | Some b \<Rightarrow> vpage_of (file_read E) s b"
  have f: "?f s' q i = ?f s q i" if "(q, i) \<noteq> (p, next_invalid_page k)" for i
    using that l v[of "(q, i)"] by (cases "loc_of s (q, i)") auto
  show "arena E s' q = ((arena E s)(p \<mapsto> the (arena E s p) @ [vpage_of (file_read E) s' b])) q"
  proof (cases "q = p")
    case True
    have "map (?f s' p) [0..<next_invalid_page k] = map (?f s p) [0..<next_invalid_page k]"
      by (rule map_cong[OF refl]) (use f True in auto)
    then show ?thesis using True s' k l by (simp add: arena_def grown_def)
  next
    case False
    have "?f s' q = ?f s q" using f False by blast
    then show ?thesis using False s' by (simp add: arena_def)
  qed
qed

subsection \<open>A page of zeros\<close>

lemma page_info_eq: "info\<lparr>data_location := d, valid := v\<rparr> = \<lparr>valid = v, data_location = d\<rparr>" for info :: kernel_page_info
  by (intro kernel_page_info.equality) simp_all

lemma map_swap_eq:
  assumes run: "running s p" and k: "process_info_mp s p = Some k" and n: "next_invalid_page k < num_virt_addr"
    and fs: "free_swap_blocks s = sb # FS" and w: "num_swap_blocks k + 1 < 2 ^ 32"
  shows "bindr (map_swap_block p (next_invalid_page k) s) (\<lambda>s. Inr (finish_map p (next_invalid_page k) s)) =
    Inr (Some (index_to_addr (next_invalid_page k)),
      s\<lparr>process_info_mp := (process_info_mp s)(p \<mapsto> grown k zero_page
           ((page_table k (next_invalid_page k))\<lparr>read_enable := True, write_enable := False, ppage := 0\<rparr>) 1),
        blocks := (blocks s)(zero_page := (blocks s zero_page)\<lparr>swap_blocks := swap_blocks (blocks s zero_page) @ [sb], is_swap := True\<rparr>),
        free_swap_blocks := FS\<rparr>)"
proof -
  let ?n = "next_invalid_page k"
  let ?B = "(blocks s)(zero_page := (blocks s zero_page)\<lparr>swap_blocks := swap_blocks (blocks s zero_page) @ [sb], is_swap := True\<rparr>)"
  let ?k1 = "k\<lparr>page_info_table := (page_info_table k)(?n := (page_info_table k ?n)\<lparr>data_location := Some zero_page\<rparr>),
      num_swap_blocks := num_swap_blocks k + 1,
      page_table := (page_table k)(?n := (page_table k ?n)\<lparr>read_enable := True, write_enable := False, ppage := 0\<rparr>)\<rparr>"
  have 1: "map_swap_block p ?n s = Inr (s\<lparr>blocks := ?B, free_swap_blocks := FS, process_info_mp := (process_info_mp s)(p \<mapsto> ?k1)\<rparr>)"
    using k n fs w by (simp add: map_swap_block_def base_running[OF run] set_pte_one set_page_info_one set_process_one
        front_def Let_def upd_block_def)
  have 2: "?k1\<lparr>next_invalid_page := ?n + 1, page_info_table := (page_info_table ?k1)(?n := (page_info_table ?k1 ?n)\<lparr>valid := True\<rparr>)\<rparr>
      = grown k zero_page ((page_table k ?n)\<lparr>read_enable := True, write_enable := False, ppage := 0\<rparr>) 1"
    by (intro kernel_process_info.equality) (simp_all add: grown_def page_info_eq)
  show ?thesis unfolding 1 using 2 by (simp add: finish_map_def Let_def set_process_one set_page_info_one)
qed

lemma map_swap_ok:
  assumes I: "pager_inv E N s" and run: "running s p" and k: "process_info_mp s p = Some k"
    and n: "next_invalid_page k < num_virt_addr" and fs: "free_swap_blocks s \<noteq> []"
    and U: "\<forall>g \<in> uninitialised E. g + num_virt_addr < 2 ^ 32"
  shows "\<exists>s'. bindr (map_swap_block p (next_invalid_page k) s) (\<lambda>s. Inr (finish_map p (next_invalid_page k) s)) =
      Inr (Some (index_to_addr (next_invalid_page k)), s') \<and> pager_inv E N s' \<and> running s' p
    \<and> arena E s' = (arena E s)(p \<mapsto> the (arena E s p) @ [Private (Some (\<lambda>_. CHR 0x00))]) \<and> files E s' = files E s
    \<and> free_swap_blocks s' = tl (free_swap_blocks s)"
proof -
  let ?n = "next_invalid_page k" and ?z = "blocks s zero_page"
  have w: "num_swap_blocks k + 1 < 2 ^ 32"
    using process_okD(4)[OF I k] swap_count_le[OF I k] U n by fastforce
  obtain sb FS where f: "free_swap_blocks s = sb # FS" using fs by (cases "free_swap_blocks s") auto
  let ?e = "(page_table k ?n)\<lparr>read_enable := True, write_enable := False, ppage := 0\<rparr>"
  let ?B = "(blocks s)(zero_page := ?z\<lparr>swap_blocks := swap_blocks ?z @ [sb], is_swap := True\<rparr>)"
  let ?s = "s\<lparr>process_info_mp := (process_info_mp s)(p \<mapsto> grown k zero_page ?e 1), blocks := ?B, free_swap_blocks := FS\<rparr>"
  have O: "ok E N None (loc_of s) s" using I by (simp add: pager_inv_def)
  note c = coreD[OF O[unfolded ok_def]]
  have z: "is_swap ?z" "resident ?z" "location ?z = 0" "physmem s 0 = (\<lambda>_. CHR 0x00)" using c(3) by (simp_all add: zero_ok_def)
  have x: "loc_of s (p, ?n) = None" using process_okD(3)[OF I k, of ?n] by auto
  have "?z\<lparr>swap_blocks := swap_blocks ?z @ [sb], is_swap := True\<rparr> = ?z\<lparr>swap_blocks := swap_blocks ?z @ [sb], ptes := ptes ?z\<rparr>"
    using z by (intro mem_block.equality) simp_all
  then have B: "?B = (blocks s)(zero_page := ?z\<lparr>swap_blocks := swap_blocks ?z @ [sb], ptes := ptes ?z\<rparr>)" by simp
  have T: "pte_at ?s (p, ?n) = Some ?e" "\<And>y. y \<noteq> (p, ?n) \<Longrightarrow> pte_at ?s y = pte_at s y"
    using k by (auto simp: pte_at_def grown_def split: option.splits)
  have "core (file_read E) N None ((loc_of s)((p, ?n) \<mapsto> zero_page)) (clock_queue s) (s\<lparr>blocks := ?B, free_swap_blocks := FS\<rparr>) (pte_at ?s)"
    by (rule join_zero[OF O x f T _ _ _ _ B]) simp_all
  then have O': "ok E N None ((loc_of s)((p, ?n) \<mapsto> zero_page)) ?s" by (simp add: ok_def core_def)
  have V: "same_view (file_read E) (loc_of s) s ?s"
    by (rule same_view_cong) (use z in \<open>auto simp: content_def Let_def file_key_def\<close>)
  note G = grown_views[OF I k n, of ?s zero_page ?e 1, OF _ _ _ O']
  have "loc_of ?s = (loc_of s)((p, ?n) \<mapsto> zero_page)" "pager_inv E N ?s" using G z by auto
  moreover from grown_arena[OF I k, of ?s zero_page ?e 1, OF _ this(1)] same_viewD[OF V]
  have "arena E ?s = (arena E s)(p \<mapsto> the (arena E s p) @ [vpage_of (file_read E) ?s zero_page])" by simp
  moreover have "vpage_of (file_read E) ?s zero_page = Private (Some (\<lambda>_. CHR 0x00))" using z by (simp add: vpage_of_def content_def)
  moreover have "files E ?s = files E s" using V by (simp add: same_view_def)
  moreover have "running ?s p" using run by (simp add: running_def)
  ultimately show ?thesis using map_swap_eq[OF run k n f w] f by simp
qed

subsection \<open>A file block that is not mapped\<close>

definition new_file_block :: "string \<Rightarrow> nat \<Rightarrow> pte_ptr \<Rightarrow> mem_block" where
  "new_file_block name n x = (new_mem_block False n T_file)
     \<lparr>is_swap := False, resident := False, referenced := False, block_num := n, filename := name, ptes := [x]\<rparr>"

lemma new_file_block_simps [simp]:
  "\<not> is_swap (new_file_block f n x)" "\<not> resident (new_file_block f n x)" "btype (new_file_block f n x) = T_file"
  "\<not> dirty (new_file_block f n x)" "location (new_file_block f n x) = n" "block_num (new_file_block f n x) = n"
  "filename (new_file_block f n x) = f" "ptes (new_file_block f n x) = [x]" "swap_blocks (new_file_block f n x) = []"
  "file_key (new_file_block f n x) = (f, n)"
  by (simp_all add: new_file_block_def new_mem_block_def file_key_def)

lemma map_file_eq:
  assumes run: "running s p" and k: "process_info_mp s p = Some k" and n: "next_invalid_page k < num_virt_addr"
  shows "bindr (map_file_block name block (next_invalid_page k) s) (\<lambda>s. Inr (finish_map p (next_invalid_page k) s)) =
    Inr (Some (index_to_addr (next_invalid_page k)),
      s\<lparr>process_info_mp := (process_info_mp s)(p \<mapsto> grown k (next_block s)
           ((page_table k (next_invalid_page k))\<lparr>ppage := bits30 block, read_enable := False, write_enable := False\<rparr>) 0),
        blocks := (blocks s)(next_block s := new_file_block name block (p, next_invalid_page k)),
        next_block := next_block s + 1,
        file_mapping_table := (file_mapping_table s)((name, block) \<mapsto> next_block s)\<rparr>)"
proof -
  let ?n = "next_invalid_page k"
  let ?e = "(page_table k ?n)\<lparr>ppage := bits30 block, read_enable := False, write_enable := False\<rparr>"
  let ?k1 = "k\<lparr>page_info_table := (page_info_table k)(?n := (page_info_table k ?n)\<lparr>data_location := Some (next_block s)\<rparr>),
      page_table := (page_table k)(?n := ?e)\<rparr>"
  let ?t = "s\<lparr>blocks := (blocks s)(next_block s := new_file_block name block (p, ?n)), next_block := next_block s + 1,
      file_mapping_table := (file_mapping_table s)((name, block) \<mapsto> next_block s), process_info_mp := (process_info_mp s)(p \<mapsto> ?k1)\<rparr>"
  have cp: "curr_pid s = p" using run by (simp add: running_def)
  have 1: "map_file_block name block ?n s = Inr ?t"
    using k n cp by (simp add: map_file_block_def base_running[OF run] set_pte_one set_page_info_one Let_def new_file_block_def)
  have 2: "?k1\<lparr>next_invalid_page := ?n + 1, page_info_table := (page_info_table ?k1)(?n := (page_info_table ?k1 ?n)\<lparr>valid := True\<rparr>)\<rparr>
      = grown k (next_block s) ?e 0"
    by (intro kernel_process_info.equality) (simp_all add: grown_def page_info_eq)
  show ?thesis unfolding 1 using 2 by (simp add: finish_map_def Let_def set_process_one set_page_info_one)
qed

lemma map_file_ok:
  assumes I: "pager_inv E N s" and run: "running s p" and k: "process_info_mp s p = Some k"
    and n: "next_invalid_page k < num_virt_addr" and F: "file_mapping_table s (name, block) = None"
  shows "\<exists>s'. bindr (map_file_block name block (next_invalid_page k) s) (\<lambda>s. Inr (finish_map p (next_invalid_page k) s)) =
      Inr (Some (index_to_addr (next_invalid_page k)), s') \<and> pager_inv E N s' \<and> running s' p
    \<and> arena E s' = (arena E s)(p \<mapsto> the (arena E s p) @ [Shared name block]) \<and> files E s' = files E s
    \<and> free_swap_blocks s' = free_swap_blocks s"
proof -
  let ?n = "next_invalid_page k" and ?b = "next_block s"
  let ?e = "(page_table k ?n)\<lparr>ppage := bits30 block, read_enable := False, write_enable := False\<rparr>"
  let ?blk = "new_file_block name block (p, ?n)"
  let ?B = "(blocks s)(?b := ?blk)" and ?F = "(file_mapping_table s)((name, block) \<mapsto> ?b)"
  let ?s = "s\<lparr>process_info_mp := (process_info_mp s)(p \<mapsto> grown k ?b ?e 0), blocks := ?B, next_block := ?b + 1, file_mapping_table := ?F\<rparr>"
  have O: "ok E N None (loc_of s) s" using I by (simp add: pager_inv_def)
  note c = coreD[OF O[unfolded ok_def]]
  have x: "loc_of s (p, ?n) = None" using process_okD(3)[OF I k, of ?n] by auto
  have f: "\<not> known (loc_of s) (clock_queue s) ?b" using c(10) by (simp add: fresh_ok_def)
  have T: "pte_at ?s (p, ?n) = Some ?e" "\<And>y. y \<noteq> (p, ?n) \<Longrightarrow> pte_at ?s y = pte_at s y"
    using k by (auto simp: pte_at_def grown_def split: option.splits)
  have "core (file_read E) N None ((loc_of s)((p, ?n) \<mapsto> ?b)) (clock_queue s)
      (s\<lparr>blocks := ?B, next_block := ?b + 1, file_mapping_table := (file_mapping_table s)(file_key ?blk \<mapsto> ?b)\<rparr>) (pte_at ?s)"
    by (rule join_new[OF O x _ _ _ _ _ _ _ _ T]) (use F in simp_all)
  then have O': "ok E N None ((loc_of s)((p, ?n) \<mapsto> ?b)) ?s" by (simp add: ok_def core_def)
  have nb: "d \<noteq> ?b" if "loc_of s y = Some d" for y d
    using f usersI[of "loc_of s", OF that] by (auto simp: known_def)
  have v: "vpage_of (file_read E) ?s d = vpage_of (file_read E) s d" if "loc_of s y = Some d" for y d
    using nb[OF that] by (simp add: vpage_of_def content_def Let_def)
  have sw: "is_swap (blocks ?s d) = is_swap (blocks s d)" if "loc_of s y = Some d" for y d using nb[OF that] by simp
  have l: "loc_of ?s = (loc_of s)((p, ?n) \<mapsto> ?b)" and inv: "pager_inv E N ?s"
    using grown_views[OF I k n, of ?s ?b ?e 0, OF _ _ sw O'] by simp_all
  have "files E ?s key = files E s key" for key
  proof (cases "key = (name, block)")
    case True
    then show ?thesis using F by (simp add: file_view_def content_def)
  next
    case False
    have "d \<noteq> ?b" if "file_mapping_table s key = Some d" for d using files_ok_key[OF c(6) that] f by blast
    then show ?thesis using False by (auto simp: file_view_def content_def Let_def split: option.splits)
  qed
  then have "files E ?s = files E s" by blast
  moreover have "arena E ?s = (arena E s)(p \<mapsto> the (arena E s p) @ [vpage_of (file_read E) ?s ?b])"
    by (rule grown_arena[OF I k _ l v]) simp
  moreover have "vpage_of (file_read E) ?s ?b = Shared name block" by (simp add: vpage_of_def)
  moreover have "running ?s p" using run by (simp add: running_def)
  ultimately show ?thesis using map_file_eq[OF run k n, of name block] inv by simp
qed

subsection \<open>A file block that is mapped already\<close>

text \<open>The new entry: that of another page of the block, or one that suits the block if it has no page.\<close>

definition shared_entry :: "'d pager_env \<Rightarrow> mem_block \<Rightarrow> page_table_entry_t \<Rightarrow> 'd pager \<Rightarrow> page_table_entry_t" where
  "shared_entry E blk e s =
     (if ptes blk = [] then \<lparr>ppage = (if resident blk then bits30 (location blk) else ppage e),
        read_enable = resident blk \<and> referenced blk, write_enable = resident blk \<and> referenced blk \<and> dirty blk\<rparr>
      else the (pte_at s (set_begin E (ptes blk))))"

lemma swap_ok_file:
  assumes "swap_ok ex L B FS" and "\<not> is_swap (B b)"
  shows "swap_blocks (B b) = []"
proof -
  have "length (swap_blocks (B b)) = (if is_swap (B b) then card (users L b) + (if ex = Some b then 1 else 0) else 0)"
    using assms(1) unfolding swap_ok_def by blast
  then show ?thesis using assms(2) by simp
qed

lemma update_file_eq:
  assumes run: "running s p" and k: "process_info_mp s p = Some k" and n: "next_invalid_page k < num_virt_addr"
    and x: "(p, next_invalid_page k) \<notin> set (ptes (blocks s b))"
    and ref: "ptes (blocks s b) \<noteq> [] \<Longrightarrow> set_begin E (ptes (blocks s b)) \<in> set (ptes (blocks s b))"
      "ptes (blocks s b) \<noteq> [] \<Longrightarrow> pte_at s (set_begin E (ptes (blocks s b))) \<noteq> None"
  shows "bindr (update_file_block E b (next_invalid_page k) s) (\<lambda>s. Inr (finish_map p (next_invalid_page k) s)) =
    Inr (Some (index_to_addr (next_invalid_page k)),
      s\<lparr>process_info_mp := (process_info_mp s)(p \<mapsto> grown k b (shared_entry E (blocks s b) (page_table k (next_invalid_page k)) s) 0),
        blocks := (blocks s)(b := (blocks s b)\<lparr>ptes := set_insert (p, next_invalid_page k) (ptes (blocks s b))\<rparr>)\<rparr>)"
proof -
  let ?n = "next_invalid_page k" and ?blk = "blocks s b"
  let ?old = "page_table k ?n"
  let ?e = "shared_entry E ?blk ?old s"
  let ?mid = "if resident ?blk then ?old\<lparr>ppage := bits30 (location ?blk)\<rparr> else ?old"
  let ?t = "\<lambda>e. s\<lparr>process_info_mp := (process_info_mp s)(p \<mapsto> k\<lparr>page_table := (page_table k)(?n := e)\<rparr>)\<rparr>"
  have cp: "curr_pid s = p" using run by (simp add: running_def)
  have s0: "?t ?old = s" using k by (simp add: fun_upd_idem)
  have 1: "(if resident ?blk then set_pte (p, ?n) (\<lambda>e. e\<lparr>ppage := bits30 (location ?blk)\<rparr>) s else Inr s) = Inr (?t ?mid)"
    using k n s0 by (simp add: set_pte_one)
  have 2: "(if ptes ?blk \<noteq> [] then
       (case pte_at (?t ?mid) (set_begin E (ptes ?blk)) of
          None \<Rightarrow> Inl Undefined_behaviour
        | Some reference_pte \<Rightarrow>
            set_pte (p, ?n) (\<lambda>e. e\<lparr>read_enable := read_enable reference_pte,
                write_enable := write_enable reference_pte, ppage := ppage reference_pte\<rparr>) (?t ?mid))
     else set_pte (p, ?n) (\<lambda>e. e\<lparr>read_enable := resident ?blk \<and> referenced ?blk,
                write_enable := resident ?blk \<and> referenced ?blk \<and> dirty ?blk\<rparr>) (?t ?mid)) = Inr (?t ?e)"
  proof (cases "ptes ?blk = []")
    case True
    have "?mid\<lparr>read_enable := resident ?blk \<and> referenced ?blk, write_enable := resident ?blk \<and> referenced ?blk \<and> dirty ?blk\<rparr> = ?e"
      using True by (intro page_table_entry_t.equality) (simp_all add: shared_entry_def)
    then show ?thesis using True n by (simp add: set_pte_one del: if_split)
  next
    case False
    define y where y1: "y = set_begin E (ptes ?blk)"
    have y: "y = set_begin E (ptes ?blk)" "y \<noteq> (p, ?n)" using ref(1)[OF False] x y1 by (cases "y = (p, ?n)"; simp)+
    obtain r where r: "pte_at s y = Some r" using ref(2)[OF False] y(1) by auto
    have "pte_at (?t ?mid) y = Some r" using r y(2) k by (cases y) (auto simp: pte_at_def split: option.splits)
    moreover have "?e = r" using False r y(1) by (simp add: shared_entry_def)
    moreover have eq: "e\<lparr>read_enable := read_enable r, write_enable := write_enable r, ppage := ppage r\<rparr> = r" for e
      by (intro page_table_entry_t.equality) simp_all
    ultimately show ?thesis using False n y(1) by (simp add: set_pte_one eq del: if_split)
  qed
  let ?k1 = "k\<lparr>page_table := (page_table k)(?n := ?e),
      page_info_table := (page_info_table k)(?n := (page_info_table k ?n)\<lparr>data_location := Some b\<rparr>)\<rparr>"
  let ?u = "s\<lparr>blocks := (blocks s)(b := ?blk\<lparr>ptes := set_insert (p, ?n) (ptes ?blk)\<rparr>), process_info_mp := (process_info_mp s)(p \<mapsto> ?k1)\<rparr>"
  have 3: "update_file_block E b ?n s = Inr ?u"
    using 1 2 cp by (simp add: update_file_block_def base_running[OF run] Let_def upd_block_def set_page_info_one del: if_split)
  have 4: "?k1\<lparr>next_invalid_page := ?n + 1, page_info_table := (page_info_table ?k1)(?n := (page_info_table ?k1 ?n)\<lparr>valid := True\<rparr>)\<rparr>
      = grown k b ?e 0"
    by (intro kernel_process_info.equality) (simp_all add: grown_def page_info_eq)
  show ?thesis unfolding 3 using 4 by (simp add: finish_map_def Let_def set_process_one set_page_info_one)
qed

lemma shared_entry_ok:
  assumes O: "ok E N None L s" and k: "known L (clock_queue s) b" and bz: "b \<noteq> zero_page" and sw: "\<not> is_swap (blocks s b)"
    and ref: "ptes (blocks s b) \<noteq> [] \<Longrightarrow> set_begin E (ptes (blocks s b)) \<in> set (ptes (blocks s b))"
  shows "entry_ok L' y (blocks s b) b (shared_entry E (blocks s b) e s)"
proof (cases "ptes (blocks s b) = []")
  case True
  note c = coreD[OF O[unfolded ok_def]]
  have "users L b = {}" using c(1) bz True unfolding ptes_ok_def by (metis empty_set)
  then have q: "b \<in> set (clock_queue s)" using k by (simp add: known_def)
  then have "bits30 (location (blocks s b)) = location (blocks s b)" using bits30_page(1)[OF c(4)] by blast
  then show ?thesis using True sw queue_okD(2)[OF c(5) q] by (auto simp: entry_ok_def shared_entry_def)
next
  case False
  note c = coreD[OF O[unfolded ok_def]]
  let ?y = "set_begin E (ptes (blocks s b))"
  have y: "L ?y = Some b" by (rule ptes_user[OF c(1) ref[OF False]])
  then obtain r where r: "pte_at s ?y = Some r" using c(1) unfolding ptes_ok_def by (metis not_Some_eq)
  then have "entry_ok L ?y (blocks s b) b r" using c(9) y bz unfolding pte_ok_def by blast
  then show ?thesis using r False sw by (auto simp: shared_entry_def entry_ok_def)
qed

lemma update_file_ok:
  assumes I: "pager_inv E N s" and run: "running s p" and k: "process_info_mp s p = Some k"
    and n: "next_invalid_page k < num_virt_addr" and F: "file_mapping_table s (name, block) = Some b"
    and ref: "\<And>xs. xs \<noteq> [] \<Longrightarrow> set_begin E xs \<in> set xs"
  shows "\<exists>s'. bindr (update_file_block E b (next_invalid_page k) s) (\<lambda>s. Inr (finish_map p (next_invalid_page k) s)) =
      Inr (Some (index_to_addr (next_invalid_page k)), s') \<and> pager_inv E N s' \<and> running s' p
    \<and> arena E s' = (arena E s)(p \<mapsto> the (arena E s p) @ [Shared name block]) \<and> files E s' = files E s
    \<and> free_swap_blocks s' = free_swap_blocks s"
proof -
  let ?n = "next_invalid_page k" and ?blk = "blocks s b"
  let ?x = "(p, ?n)"
  let ?e = "shared_entry E ?blk (page_table k ?n) s"
  let ?B = "(blocks s)(b := ?blk\<lparr>ptes := set_insert ?x (ptes ?blk)\<rparr>)"
  let ?s = "s\<lparr>process_info_mp := (process_info_mp s)(p \<mapsto> grown k b ?e 0), blocks := ?B\<rparr>"
  let ?L = "(loc_of s)(?x \<mapsto> b)"
  have O: "ok E N None (loc_of s) s" using I by (simp add: pager_inv_def)
  note c = coreD[OF O[unfolded ok_def]]
  have x: "loc_of s ?x = None" using process_okD(3)[OF I k, of ?n] by auto
  have K: "known (loc_of s) (clock_queue s) b" "\<not> is_swap ?blk" "file_key ?blk = (name, block)" using files_ok_key[OF c(6) F] by simp_all
  have bz: "b \<noteq> zero_page" using c(3) K(2) by (auto simp: zero_ok_def)
  have xn: "?x \<notin> set (ptes ?blk)" using ptes_user[OF c(1), of ?x b] x by auto
  have pr: "pte_at s (set_begin E (ptes ?blk)) \<noteq> None" if "ptes ?blk \<noteq> []"
    using loc_of_pte[OF ptes_user[OF c(1) ref[OF that]]] .
  have T: "pte_at ?s ?x = Some ?e" "\<And>y. y \<noteq> ?x \<Longrightarrow> pte_at ?s y = pte_at s y"
    using k by (auto simp: pte_at_def grown_def split: option.splits)
  have u: "?blk\<lparr>swap_blocks := swap_blocks ?blk, ptes := set_insert ?x (ptes ?blk)\<rparr> = ?blk\<lparr>ptes := set_insert ?x (ptes ?blk)\<rparr>"
    by (intro mem_block.equality) simp_all
  have sb: "swap_blocks ?blk = []" by (rule swap_ok_file[OF c(2) K(2)])
  have S: "swap_ok None ?L ?B (free_swap_blocks s)"
    by (rule swap_ok_join_file[OF c(1,2) x]) (use K(2) sb in auto)
  have "core (file_read E) N None ?L (clock_queue s) (s\<lparr>blocks := ?B, free_swap_blocks := free_swap_blocks s\<rparr>) (pte_at ?s)"
  proof (rule join_known[OF O x K(1) bz S, of "swap_blocks ?blk"])
    show "entry_ok ?L ?x ?blk b e" if "pte_at ?s ?x = Some e" for e
      using that T(1) shared_entry_ok[OF O K(1) bz K(2) ref, of ?L ?x] by simp
    show "entry_ok ?L y ?blk b e" if "loc_of s y = Some b" "pte_at ?s y = Some e" for y e
    proof -
      have "y \<noteq> ?x" using that(1) x by (cases "y = ?x") simp_all
      then have "pte_at s y = Some e" using T(2) that(2) by simp
      then have "entry_ok (loc_of s) y ?blk b e" using c(9) bz that(1) unfolding pte_ok_def by blast
      then show ?thesis using K(2) by (simp add: entry_ok_def)
    qed
  qed (use T u in simp_all)
  then have O': "ok E N None ?L ?s" by (simp add: ok_def core_def)
  have V: "same_view (file_read E) (loc_of s) s ?s"
    by (rule same_view_cong) (auto simp: content_def Let_def file_key_def)
  have sw: "is_swap (blocks ?s d) = is_swap (blocks s d)" for d by simp
  have l: "loc_of ?s = ?L" and inv: "pager_inv E N ?s"
    using grown_views[OF I k n, of ?s b ?e 0, OF _ _ _ O'] K(2) by auto
  have "arena E ?s = (arena E s)(p \<mapsto> the (arena E s p) @ [vpage_of (file_read E) ?s b])"
    by (rule grown_arena[OF I k _ l same_viewD[OF V]]) simp
  moreover have "vpage_of (file_read E) ?s b = Shared name block" using K(2,3) by (simp add: vpage_of_def file_key_def)
  moreover have "files E ?s = files E s" using V by (simp add: same_view_def)
  moreover have "running ?s p" using run by (simp add: running_def)
  ultimately show ?thesis using update_file_eq[OF run k n xn ref pr] inv by simp
qed

end
