(* ===== verification/Pager_Names.thy ===== *)
theory Pager_Names
  imports Pager_Map
begin

text \<open>
  Virtual addresses and the name of a file: the string is read from the arena of the process, byte by
  byte, and pages that hold it may be brought into memory.  Then the call \<^verbatim>\<open>vm_map\<close> as a whole.
\<close>

subsection \<open>Addresses\<close>

lemma ptr_diff_near: "b \<le> a \<Longrightarrow> a - b < 2 ^ 63 \<Longrightarrow> ptr_diff a b = int (a - b)"
  unfolding ptr_diff_def by (simp add: of_nat_diff)

text \<open>Below $2^{47}$ the index of an address is the number of its page, and addresses beyond the arena have no
  index of a page of the arena.  The index of a larger address may wrap around to one.\<close>

lemma addr_to_index_eq:
  assumes "VM_ARENA_BASEADDR \<le> a" and "a < 2 ^ 47"
  shows "addr_to_index a = (a - VM_ARENA_BASEADDR) div VM_PAGESIZE"
proof -
  let ?d = "a - VM_ARENA_BASEADDR"
  have d: "ptr_diff a VM_ARENA_BASEADDR = int ?d" by (rule ptr_diff_near) (use assms in auto)
  have s: "int ?d sdiv int VM_PAGESIZE = int (?d div VM_PAGESIZE)"
    by (simp add: signed_divide_int_def zdiv_int VM_PAGESIZE_def sgn_if)
  have "?d div VM_PAGESIZE < 2 ^ 32" using assms by (simp add: VM_PAGESIZE_def less_mult_imp_div_less)
  then have "int (?d div VM_PAGESIZE) mod 2 ^ 32 = int (?d div VM_PAGESIZE)" by (simp add: zmod_trivial_iff)
  then show ?thesis unfolding addr_to_index_def d s by simp
qed

lemma far_address_aliases: "addr_to_index (VM_ARENA_BASEADDR + 2 ^ 48 + off) = addr_to_index (VM_ARENA_BASEADDR + off)" if "off < VM_ARENA_SIZE"
proof -
  have d: "ptr_diff (VM_ARENA_BASEADDR + x) VM_ARENA_BASEADDR = int x" if "x < 2 ^ 63" for x
    using ptr_diff_near[of VM_ARENA_BASEADDR "VM_ARENA_BASEADDR + x"] that by simp
  have s: "int x sdiv int VM_PAGESIZE = int (x div VM_PAGESIZE)" for x
    by (simp add: signed_divide_int_def zdiv_int VM_PAGESIZE_def sgn_if)
  have "(2 ^ 48 + off) div VM_PAGESIZE = 2 ^ 32 + off div VM_PAGESIZE" by (simp add: VM_PAGESIZE_def)
  then have "int ((2 ^ 48 + off) div VM_PAGESIZE) mod 2 ^ 32 = int (off div VM_PAGESIZE) mod 2 ^ 32" by simp
  moreover have "2 ^ 48 + off < 2 ^ 63" "off < 2 ^ 63" using that by (simp_all add: VM_ARENA_SIZE_def)
  ultimately show ?thesis unfolding addr_to_index_def add.assoc by (simp only: d s)
qed

lemma index_to_addr_eq: "i < num_virt_addr \<Longrightarrow> index_to_addr i = VM_ARENA_BASEADDR + i * VM_PAGESIZE"
  by (simp add: index_to_addr_def num_virt_addr VM_PAGESIZE_def)

lemma page_addr:
  assumes "i < num_virt_addr" and "off < VM_PAGESIZE"
  shows "addr_to_index (index_to_addr i + off) = i" and "calculate_page_offset (index_to_addr i + off) = off"
proof -
  note d = VM_ARENA_BASEADDR_def VM_PAGESIZE_def
  have i: "i < 256" "off < 65536" using assms by (simp_all add: num_virt_addr VM_PAGESIZE_def)
  have a: "index_to_addr i + off = VM_ARENA_BASEADDR + i * VM_PAGESIZE + off" using index_to_addr_eq[OF assms(1)] by simp
  have "addr_to_index (index_to_addr i + off) = (index_to_addr i + off - VM_ARENA_BASEADDR) div VM_PAGESIZE"
    by (rule addr_to_index_eq) (use a i in \<open>simp_all add: d\<close>)
  then show "addr_to_index (index_to_addr i + off) = i" using a assms(2) by (simp add: d)
  have "25769803776 + i * 65536 + off = off + 65536 * (393216 + i)" by simp
  then have "(25769803776 + i * 65536 + off) mod 65536 = off" using i(2) by (metis mod_mult_self2 mod_less)
  then show "calculate_page_offset (index_to_addr i + off) = off" unfolding a calculate_page_offset_def by (simp add: d)
qed

subsection \<open>Strings in the arena\<close>

definition vbyte :: "'d pager_env \<Rightarrow> 'd pager \<Rightarrow> nat \<Rightarrow> nat \<Rightarrow> char option" where
  "vbyte E s p a =
     (if a < VM_ARENA_BASEADDR then None else map_option (\<lambda>pg. pg (calculate_page_offset a)) (vread E s p (addr_to_index a)))"

fun string_at :: "'d pager_env \<Rightarrow> 'd pager \<Rightarrow> nat \<Rightarrow> nat \<Rightarrow> string \<Rightarrow> bool" where
  "string_at E s p a [] \<longleftrightarrow> vbyte E s p a = Some (CHR 0x00)"
| "string_at E s p a (ch # str) \<longleftrightarrow> ch \<noteq> CHR 0x00 \<and> vbyte E s p a = Some ch \<and> string_at E s p (a + 1) str"

lemma string_at_fun: "string_at E s p a str \<Longrightarrow> string_at E s p a str' \<Longrightarrow> str' = str"
  by (induction str arbitrary: a str') (case_tac [!] str', auto)

lemma vbyte_cong: "arena E s' = arena E s \<Longrightarrow> files E s' = files E s \<Longrightarrow> vbyte E s' = vbyte E s"
  using vread_cong[of E s' s] by (intro ext) (simp only: vbyte_def)

lemma string_at_cong: "vbyte E s' = vbyte E s \<Longrightarrow> string_at E s' p a str = string_at E s p a str"
  by (induction str arbitrary: a) simp_all

text \<open>What a call that only moves data keeps.\<close>

definition moved :: "'d pager_env \<Rightarrow> sizes \<Rightarrow> 'd pager \<Rightarrow> 'd pager \<Rightarrow> bool" where
  "moved E N s s' \<longleftrightarrow> pager_inv E N s' \<and> loc_of s' = loc_of s \<and> arena E s' = arena E s \<and> files E s' = files E s
     \<and> outline s' = outline s \<and> (\<forall>p. running s' p = running s p) \<and> free_swap_blocks s' = free_swap_blocks s"

lemma moved_trans: "moved E N s s' \<Longrightarrow> moved E N s' s'' \<Longrightarrow> moved E N s s''"
  by (simp add: moved_def)

lemma get_data_ok:
  assumes bs: "backing_store (file_read E) (file_write E)" and I: "pager_inv E N s" and N: "1 < ram_pages N" and run: "running s p"
    and x: "loc_of s (p, addr_to_index a) = Some b" and a: "VM_ARENA_BASEADDR \<le> a"
  shows "\<exists>r ch s'. get_data E a s = Inr (r, ch, s') \<and> moved E N s s' \<and> (r = 0 \<and> vbyte E s p a = Some ch \<or> r = - 1 \<and> vbyte E s p a = None)"
proof -
  let ?i = "addr_to_index a"
  obtain k where k: "process_info_mp s p = Some k" using run by (auto simp: running_def)
  have i: "?i < num_virt_addr" using process_okD(1,3)[OF I k] x by (metis less_le_trans option.distinct(1))
  obtain r s1 where 1: "(if resident (blocks s b) then Inr (0, s) else cache_nonresident_page E b s) = Inr (r, s1)" "pager_inv E N s1"
      "loc_of s1 = loc_of s" "arena E s1 = arena E s" "files E s1 = files E s" "\<forall>q. running s1 q = running s q" "outline s1 = outline s"
      "free_swap_blocks s1 = free_swap_blocks s"
    and r: "r = 0 \<and> resident (blocks s1 b) \<and> vread E s p ?i = Some (physmem s1 (location (blocks s1 b))) \<or> r = - 1 \<and> vread E s p ?i = None"
    using bring_in[OF bs I N x] by blast
  have m: "moved E N s s1" using 1 by (simp add: moved_def)
  have cp: "curr_pid s = p" using run by (simp add: running_def)
  from r show ?thesis
  proof
    assume R: "r = 0 \<and> resident (blocks s1 b) \<and> vread E s p ?i = Some (physmem s1 (location (blocks s1 b)))"
    have "loc_of s1 (p, ?i) = Some b" "ok E N None (loc_of s1) s1" using 1(2,3) x by (simp_all add: pager_inv_def)
    then have "phys_page (location (blocks s1 b)) = location (blocks s1 b)" using resident_page R by blast
    then have "get_data E a s = Inr (0, physmem s1 (location (blocks s1 b)) (calculate_page_offset a), s1)"
      using R 1(1) block_of_loc[OF x i] cp by (simp add: get_data_def Let_def)
    then show ?thesis using m R a by (simp add: vbyte_def)
  next
    assume R: "r = - 1 \<and> vread E s p ?i = None"
    have "get_data E a s = Inr (- 1, CHR ''a'', s1)" using R 1(1) block_of_loc[OF x i] cp by (simp add: get_data_def Let_def)
    then show ?thesis using m R by (simp add: vbyte_def)
  qed
qed

text \<open>The last address of all is not one that the pager takes for an address of the arena.\<close>

lemma arena_addr_Suc:
  assumes "a < 2 ^ 64" and "addr_to_index a < num_virt_addr"
  shows "a + 1 < 2 ^ 64"
proof (rule ccontr)
  assume "\<not> a + 1 < 2 ^ 64"
  then have "a = 18446744073709551615" using assms(1) by simp
  then have "addr_to_index a = 4294574080" 
    by (simp add: addr_to_index_def ptr_diff_def VM_ARENA_BASEADDR_def VM_PAGESIZE_def signed_divide_int_def)
  then show False using assms(2) by (simp add: num_virt_addr)
qed

text \<open>The loop ends inside the arena or right after it.\<close>

lemma read_name_ok:
  assumes bs: "backing_store (file_read E) (file_write E)" and N: "1 < ram_pages N"
    and "pager_inv E N s" and "running s p" and "VM_ARENA_BASEADDR \<le> a" and "a < 2 ^ 64"
  shows "\<exists>r name s'. read_name E a acc s = Inr (r, name, s') \<and> moved E N s s'
    \<and> (r = 0 \<and> (\<exists>str. name = acc @ str \<and> string_at E s p a str) \<or> r = - 1 \<and> (\<nexists>str. string_at E s p a str))"
  using assms(3-6)
proof (induction "2 ^ 64 - a" arbitrary: a acc s rule: less_induct)
  case (less a acc s)
  note I = less(2) and run = less(3) and base = less(4) and hi = less(5)
  let ?i = "addr_to_index a"
  obtain k where k: "process_info_mp s p = Some k" and cp: "curr_pid s = p" using run by (auto simp: running_def)
  note K = process_okD[OF I k]
  have hi': "\<not> 2 ^ 64 \<le> a" using hi by simp
  have m0: "moved E N s s" using I by (simp add: moved_def)
  show ?case
  proof (cases "loc_of s (p, ?i)")
    case None
    then have ni: "\<not> ?i < next_invalid_page k" using K(3)[of ?i] by auto
    then have "read_name E a acc s = Inr (- 1, ''a'', s)"
      using k cp hi' K(2)[of ?i] by (simp add: read_name.simps[of E a] process_at_def Let_def)
    moreover have "vbyte E s p a = None" using vread_none[OF I None] by (simp add: vbyte_def)
    then have "\<not> string_at E s p a str" for str by (cases str) simp_all
    ultimately show ?thesis using m0 by blast
  next
    case (Some b)
    then have i: "?i < next_invalid_page k" using K(3)[of ?i] by auto
    then have lt: "?i < num_virt_addr" using K(1) by simp
    obtain r ch s1 where 1: "get_data E a s = Inr (r, ch, s1)" "moved E N s s1"
      and r: "r = 0 \<and> vbyte E s p a = Some ch \<or> r = - 1 \<and> vbyte E s p a = None"
      using get_data_ok[OF bs I N run Some base] by blast
    have start: "read_name E a acc s = (if r = - 1 then Inr (- 1, ''a'', s1) else if ch = CHR 0x00 then Inr (0, acc, s1)
        else read_name E (a + 1) (acc @ [ch]) s1)"
      using k cp hi' lt i K(2)[of ?i] 1(1) by (simp add: read_name.simps[of E a] process_at_def Let_def)
    show ?thesis
    proof (cases "r = - 1")
      case True
      then have "\<not> string_at E s p a str" for str using r by (cases str) auto
      then show ?thesis using start True 1(2) by auto
    next
      case False
      then have v: "vbyte E s p a = Some ch" using r by simp
      show ?thesis
      proof (cases "ch = CHR 0x00")
        case True
        then have "string_at E s p a []" using v by simp
        then show ?thesis using start False True 1(2) by auto
      next
        case nz: False
        have hi1: "a + 1 < 2 ^ 64" by (rule arena_addr_Suc[OF hi lt])
        have I1: "pager_inv E N s1" "running s1 p" using 1(2) run by (simp_all add: moved_def)
        obtain r' name s2 where 2: "read_name E (a + 1) (acc @ [ch]) s1 = Inr (r', name, s2)" "moved E N s1 s2"
          and r': "r' = 0 \<and> (\<exists>str. name = (acc @ [ch]) @ str \<and> string_at E s1 p (a + 1) str)
            \<or> r' = - 1 \<and> (\<nexists>str. string_at E s1 p (a + 1) str)"
          using less(1)[OF _ I1 _ hi1, of "acc @ [ch]"] less_imp_diff_less diff_less_mono2[of a "a + 1" "2 ^ 64"] hi base by auto
        have c: "string_at E s1 p (a + 1) str = string_at E s p (a + 1) str" for str
          by (rule string_at_cong[OF vbyte_cong]) (use 1(2) in \<open>simp_all add: moved_def\<close>)
        have tail: "string_at E s p a str \<longleftrightarrow> (\<exists>t. str = ch # t \<and> string_at E s p (a + 1) t)" for str
          using v nz by (cases str) auto
        have "r' = 0 \<and> (\<exists>str. name = acc @ str \<and> string_at E s p a str) \<or> r' = - 1 \<and> (\<nexists>str. string_at E s p a str)"
          using r' unfolding c tail by auto
        then show ?thesis using start False nz 2(1) moved_trans[OF 1(2) 2(2)] by auto
      qed
    qed
  qed
qed

lemma read_filename_ok:
  assumes bs: "backing_store (file_read E) (file_write E)" and I: "pager_inv E N s" and N: "1 < ram_pages N" and run: "running s p" and a: "a < 2 ^ 64"
  shows "\<exists>r name s'. read_filename_str E a s = Inr (r, name, s') \<and> moved E N s s'
    \<and> (r = 0 \<and> string_at E s p a name \<or> r = - 1 \<and> (\<nexists>str. string_at E s p a str))"
proof (cases "a < VM_ARENA_BASEADDR")
  case True
  have "\<not> string_at E s p a str" for str using True by (cases str) (simp_all add: vbyte_def)
  then show ?thesis using True run I by (auto simp: read_filename_str_def running_def process_at_def moved_def)
next
  case False
  then have "read_filename_str E a s = read_name E a [] s"
    using run by (auto simp: read_filename_str_def running_def process_at_def)
  then show ?thesis using read_name_ok[OF bs N I run _ a, of "[]"] False by auto
qed

subsection \<open>The whole call\<close>

lemma arena_length: "process_info_mp s p = Some k \<Longrightarrow> \<exists>vs. arena E s p = Some vs \<and> length vs = next_invalid_page k"
  by (simp add: arena_def)

lemma vm_map_ok:
  assumes bs: "backing_store (file_read E) (file_write E)" and I: "pager_inv E N s" and N: "1 < ram_pages N" and run: "running s p"
    and refs: "\<forall>xs. xs \<noteq> [] \<longrightarrow> set_begin E xs \<in> set xs" and fn: "\<forall>a. fname = Some a \<longrightarrow> a < 2 ^ 64"
    and U: "\<forall>g \<in> uninitialised E. g + num_virt_addr < 2 ^ 32"
  shows "\<exists>r s' vs. vm_map E fname block s = Inr (r, s') \<and> pager_inv E N s' \<and> running s' p \<and> files E s' = files E s
    \<and> arena E s p = Some vs
    \<and> (r = None \<and> arena E s' = arena E s \<and> (length vs = num_virt_addr \<or> fname = None \<and> free_swap_blocks s = []
          \<or> (\<exists>a. fname = Some a \<and> (\<nexists>str. string_at E s p a str)))
     \<or> length vs < num_virt_addr \<and> r = Some (VM_ARENA_BASEADDR + length vs * VM_PAGESIZE)
        \<and> (\<exists>v. arena E s' = (arena E s)(p \<mapsto> vs @ [v])
          \<and> (fname = None \<and> v = Private (Some (\<lambda>_. CHR 0x00)) \<and> length (free_swap_blocks s) = length (free_swap_blocks s') + 1
             \<or> (\<exists>a name. fname = Some a \<and> string_at E s p a name \<and> v = Shared name block \<and> free_swap_blocks s' = free_swap_blocks s))))"
proof -
  have ref: "set_begin E xs \<in> set xs" if "xs \<noteq> []" for xs using refs that by blast
  obtain k where k: "process_info_mp s p = Some k" and cp: "curr_pid s = p" using run by (auto simp: running_def)
  obtain vs where vs: "arena E s p = Some vs" "length vs = next_invalid_page k" using arena_length[OF k] by blast
  have le: "next_invalid_page k \<le> num_virt_addr" by (rule process_okD(1)[OF I k])
  show ?thesis
  proof (cases "next_invalid_page k < num_virt_addr")
    case False
    then have "vm_map E fname block s = Inr (None, s)" using k cp by (simp add: vm_map_def process_at_def Let_def)
    then show ?thesis using False le vs I run by auto
  next
    case n: True
    note addr = index_to_addr_eq[OF n]
    show ?thesis
    proof (cases fname)
      case None
      show ?thesis
      proof (cases "free_swap_blocks s = []")
        case True
        then have "vm_map E fname block s = Inr (None, s)" using k cp n None by (simp add: vm_map_def process_at_def Let_def)
        then show ?thesis using True None vs I run by auto
      next
        case False
        obtain s' where 1: "bindr (map_swap_block p (next_invalid_page k) s) (\<lambda>s. Inr (finish_map p (next_invalid_page k) s)) =
            Inr (Some (index_to_addr (next_invalid_page k)), s')" "pager_inv E N s'" "running s' p"
          "arena E s' = (arena E s)(p \<mapsto> the (arena E s p) @ [Private (Some (\<lambda>_. CHR 0x00))])" "files E s' = files E s"
          "free_swap_blocks s' = tl (free_swap_blocks s)"
          using map_swap_ok[OF I run k n False U] by blast
        have "vm_map E fname block s = Inr (Some (index_to_addr (next_invalid_page k)), s')"
          using k cp n None False 1(1) by (simp add: vm_map_def process_at_def Let_def)
        moreover have "length (free_swap_blocks s) = length (free_swap_blocks s') + 1" using False 1(6) by simp
        ultimately show ?thesis using 1 vs None n addr by simp
      qed
    next
      case (Some a)
      obtain r name s1 where 1: "read_filename_str E a s = Inr (r, name, s1)" "moved E N s s1"
        and r: "r = 0 \<and> string_at E s p a name \<or> r = - 1 \<and> (\<nexists>str. string_at E s p a str)"
        using read_filename_ok[OF bs I N run, of a] fn Some by blast
      let ?n = "next_invalid_page k"
      have start: "vm_map E fname block s = (if r = - 1 then Inr (None, s1)
          else bindr (case file_mapping_table s1 (name, block) of None \<Rightarrow> map_file_block name block ?n s1 | Some b \<Rightarrow> update_file_block E b ?n s1)
            (\<lambda>s. Inr (finish_map p ?n s)))"
        using k cp n Some 1(1) by (simp add: vm_map_def process_at_def Let_def)
      note M = 1(2)[unfolded moved_def]
      show ?thesis
      proof (cases "r = - 1")
        case True
        then show ?thesis using start r M vs Some run by auto
      next
        case False
        then have str: "string_at E s p a name" using r by simp
        have I1: "pager_inv E N s1" "running s1 p" and A1: "arena E s1 = arena E s" "files E s1 = files E s" using M run by simp_all
        have "outline s1 p = outline s p" using M by simp
        then obtain k1 where k1: "process_info_mp s1 p = Some k1" "next_invalid_page k1 = ?n"
          using k by (cases "process_info_mp s1 p") (auto simp: outline_def)
        have n1: "next_invalid_page k1 < num_virt_addr" using k1(2) n by simp
        obtain s' where 2: "bindr (case file_mapping_table s1 (name, block) of None \<Rightarrow> map_file_block name block ?n s1
              | Some b \<Rightarrow> update_file_block E b ?n s1) (\<lambda>s. Inr (finish_map p ?n s)) = Inr (Some (index_to_addr ?n), s')"
            "pager_inv E N s'" "running s' p" "arena E s' = (arena E s1)(p \<mapsto> the (arena E s1 p) @ [Shared name block])"
            "files E s' = files E s1" "free_swap_blocks s' = free_swap_blocks s1"
        proof (cases "file_mapping_table s1 (name, block)")
          case None
          then show ?thesis using map_file_ok[OF I1 k1(1) n1 None] that k1(2) by auto
        next
          case F: (Some b)
          then show ?thesis using update_file_ok[OF I1 k1(1) n1 F ref] that k1(2) by auto
        qed
        show ?thesis using start False 2 A1 M vs Some str n addr by auto
      qed
    qed
  qed
qed

end
