(* ===== verification/Pager_Create.thy ===== *)
theory Pager_Create
  imports Pager_Names
begin

text \<open>
  Creating a process: the child shows the blocks of its parent, page by page, and reserves a swap
  block of its own for every page that is backed by swap.
\<close>

subsection \<open>One page\<close>

text \<open>The child after one page was copied.\<close>

definition attached :: "nat \<Rightarrow> nat \<Rightarrow> page_table_entry_t \<Rightarrow> kernel_process_info \<Rightarrow> kernel_process_info" where
  "attached i b e k = k\<lparr>page_info_table := (page_info_table k)(i := \<lparr>valid = True, data_location = Some b\<rparr>),
     page_table := (page_table k)(i := e)\<rparr>"

definition reserve :: "nat \<Rightarrow> pte_ptr \<Rightarrow> mem_block \<Rightarrow> mem_block" where
  "reserve sb x blk = blk\<lparr>ptes := set_insert x (ptes blk), swap_blocks := swap_blocks blk @ [sb]\<rparr>"

lemma reserve_eq: "reserve sb x blk = blk\<lparr>swap_blocks := swap_blocks blk @ [sb], ptes := set_insert x (ptes blk)\<rparr>"
  by (simp add: reserve_def)

lemma reserve_simps [simp]:
  "ptes (reserve sb x blk) = set_insert x (ptes blk)" "swap_blocks (reserve sb x blk) = swap_blocks blk @ [sb]"
  "is_swap (reserve sb x blk) = is_swap blk" "resident (reserve sb x blk) = resident blk" "location (reserve sb x blk) = location blk"
  "file_key (reserve sb x blk) = file_key blk" "filename (reserve sb x blk) = filename blk" "block_num (reserve sb x blk) = block_num blk"
  by (simp_all add: reserve_def file_key_def)

lemma attached_eq:
  "k\<lparr>page_info_table := (page_info_table k)(i := (page_info_table k i)\<lparr>valid := True, data_location := Some b\<rparr>), page_table := (page_table k)(i := e)\<rparr>
    = attached i b e k"
proof -
  have "(page_info_table k i)\<lparr>valid := True, data_location := Some b\<rparr> = \<lparr>valid = True, data_location = Some b\<rparr>"
    by (intro kernel_page_info.equality) simp_all
  then show ?thesis unfolding attached_def by (simp only:)
qed

lemma copy_page_swap_eq:
  assumes kp: "process_info_mp s parent = Some kp" and kc: "process_info_mp s child = Some kc" and ne: "parent \<noteq> child"
    and i: "i < num_virt_addr" and b: "data_location (page_info_table kp i) = Some b" and sw: "is_swap (blocks s b)"
    and fs: "free_swap_blocks s = sb # FS"
  shows "copy_virtual_page parent child i s =
    (let u = s\<lparr>process_info_mp := (process_info_mp s)(child \<mapsto> attached i b ((page_table kc i)\<lparr>ppage := ppage (page_table kp i),
               read_enable := read_enable (page_table kp i)\<rparr>) kc),
             blocks := (blocks s)(b := reserve sb (child, i) (blocks s b)), free_swap_blocks := FS\<rparr>
     in if b = zero_page then Inr u else for_ptes b (\<lambda>c. c\<lparr>write_enable := False\<rparr>) u)"
  using assms by (simp add: copy_virtual_page_def process_at_def page_info_at_def deref_def front_def set_pte_one set_page_info_one
      Let_def upd_block_def reserve_def flip: attached_eq)

lemma copy_page_file_eq:
  assumes kp: "process_info_mp s parent = Some kp" and kc: "process_info_mp s child = Some kc" and ne: "parent \<noteq> child"
    and i: "i < num_virt_addr" and b: "data_location (page_info_table kp i) = Some b" and sw: "\<not> is_swap (blocks s b)"
  shows "copy_virtual_page parent child i s =
    Inr (s\<lparr>process_info_mp := (process_info_mp s)(child \<mapsto> attached i b (page_table kp i) kc),
      blocks := (blocks s)(b := (blocks s b)\<lparr>ptes := set_insert (child, i) (ptes (blocks s b))\<rparr>)\<rparr>)"
proof -
  have e: "e\<lparr>ppage := ppage (page_table kp i), read_enable := read_enable (page_table kp i), write_enable := write_enable (page_table kp i)\<rparr>
      = page_table kp i" for e by (intro page_table_entry_t.equality) simp_all
  show ?thesis
    using assms by (simp add: copy_virtual_page_def process_at_def page_info_at_def deref_def front_def set_pte_one set_page_info_one
      Let_def upd_block_def e flip: attached_eq)
qed

lemma attached_views:
  assumes kc: "process_info_mp s child = Some kc" and s': "process_info_mp s' = (process_info_mp s)(child \<mapsto> attached i b e kc)"
  shows "loc_of s' = (loc_of s)((child, i) \<mapsto> b)" and "pte_at s' (child, i) = Some e" and "y \<noteq> (child, i) \<Longrightarrow> pte_at s' y = pte_at s y"
    and "shape s' = (shape s)(child \<mapsto> ((page_info_table kc)(i := \<lparr>valid = True, data_location = Some b\<rparr>), next_invalid_page kc, num_swap_blocks kc))"
proof -
  show "loc_of s' = (loc_of s)((child, i) \<mapsto> b)"
  proof
    fix x
    show "loc_of s' x = ((loc_of s)((child, i) \<mapsto> b)) x" using kc s' by (cases x) (auto simp: loc_of_def attached_def)
  qed
  show "pte_at s' (child, i) = Some e" using s' by (simp add: pte_at_def attached_def)
  show "y \<noteq> (child, i) \<Longrightarrow> pte_at s' y = pte_at s y" using kc s' by (cases y) (auto simp: pte_at_def attached_def)
  show "shape s' = (shape s)(child \<mapsto> ((page_info_table kc)(i := \<lparr>valid = True, data_location = Some b\<rparr>), next_invalid_page kc, num_swap_blocks kc))"
    using s' by (auto simp: shape_def attached_def)
qed

text \<open>What a copied page keeps: all but the new page of the child and the swap block that it takes.\<close>

lemma copy_page_ok:
  assumes O: "ok E N None (loc_of s) s" and kp: "process_info_mp s parent = Some kp" and kc: "process_info_mp s child = Some kc"
    and ne: "parent \<noteq> child" and i: "i < num_virt_addr" and b: "loc_of s (parent, i) = Some b" and x: "loc_of s (child, i) = None"
    and fs: "is_swap (blocks s b) \<Longrightarrow> free_swap_blocks s \<noteq> []" and we: "\<not> write_enable (page_table kc i)"
  shows "\<exists>s'. copy_virtual_page parent child i s = Inr s' \<and> loc_of s' = (loc_of s)((child, i) \<mapsto> b) \<and> ok E N None (loc_of s') s'
    \<and> shape s' = (shape s)(child \<mapsto> ((page_info_table kc)(i := \<lparr>valid = True, data_location = Some b\<rparr>), next_invalid_page kc, num_swap_blocks kc))
    \<and> same_view (file_read E) (loc_of s) s s' \<and> (\<forall>d. is_swap (blocks s' d) = is_swap (blocks s d))
    \<and> (\<forall>y. loc_of s' y = None \<longrightarrow> pte_at s' y = pte_at s y) \<and> curr_pid s' = curr_pid s
    \<and> page_table_base_register s' = page_table_base_register s
    \<and> vpage_of (file_read E) s' b = vpage_of (file_read E) s b
    \<and> length (free_swap_blocks s) = length (free_swap_blocks s') + (if is_swap (blocks s b) then 1 else 0)"
proof -
  note c = coreD[OF O[unfolded ok_def]]
  let ?x = "(child, i)" and ?y = "(parent, i)" and ?L = "(loc_of s)((child, i) \<mapsto> b)"
  have db: "data_location (page_info_table kp i) = Some b" using b kp by (simp add: loc_of_def)
  have pe: "pte_at s ?y = Some (page_table kp i)" using kp by (simp add: pte_at_def)
  have k: "known (loc_of s) (clock_queue s) b" using usersI[of "loc_of s", OF b] by (simp add: known_def)
  have pent: "entry_ok (loc_of s) ?y (blocks s b) b (page_table kp i)" if "b \<noteq> zero_page"
    using c(9) b pe that unfolding pte_ok_def by blast
  show ?thesis
  proof (cases "is_swap (blocks s b)")
    case False
    let ?B = "(blocks s)(b := (blocks s b)\<lparr>ptes := set_insert ?x (ptes (blocks s b))\<rparr>)"
    let ?s = "s\<lparr>process_info_mp := (process_info_mp s)(child \<mapsto> attached i b (page_table kp i) kc), blocks := ?B\<rparr>"
    have bz: "b \<noteq> zero_page" using False c(3) by (auto simp: zero_ok_def)
    have pi: "process_info_mp ?s = (process_info_mp s)(child \<mapsto> attached i b (page_table kp i) kc)" by simp
    note A = attached_views[OF kc pi]
    have u: "(blocks s b)\<lparr>swap_blocks := swap_blocks (blocks s b), ptes := set_insert ?x (ptes (blocks s b))\<rparr>
        = (blocks s b)\<lparr>ptes := set_insert ?x (ptes (blocks s b))\<rparr>" by (intro mem_block.equality) simp_all
    have S: "swap_ok None ?L ?B (free_swap_blocks s)"
      by (rule swap_ok_join_file[OF c(1,2) x]) (use False swap_ok_file[OF c(2) False] in auto)
    have "core (file_read E) N None ?L (clock_queue s) (s\<lparr>blocks := ?B, free_swap_blocks := free_swap_blocks s\<rparr>) (pte_at ?s)"
    proof (rule join_known[OF O x k bz S, of "swap_blocks (blocks s b)"])
      show "entry_ok ?L ?x (blocks s b) b e" if "pte_at ?s ?x = Some e" for e
        using that A(2) pent[OF bz] False by (simp add: entry_ok_def)
      show "entry_ok ?L y (blocks s b) b e" if y: "loc_of s y = Some b" and e: "pte_at ?s y = Some e" for y e
      proof -
        have "y \<noteq> ?x" using y x by (cases "y = ?x") simp_all
        then have "pte_at s y = Some e" using A(3) e by simp
        then have "entry_ok (loc_of s) y (blocks s b) b e" using c(9) bz y unfolding pte_ok_def by blast
        then show ?thesis using False by (simp add: entry_ok_def)
      qed
    qed (use A u in simp_all)
    then have O': "ok E N None ?L ?s" by (simp add: ok_def core_def)
    have V: "same_view (file_read E) (loc_of s) s ?s" by (rule same_view_cong) (auto simp: content_def Let_def file_key_def)
    have "pte_at ?s y = pte_at s y" if "?L y = None" for y using A(3)[of y] that by (cases "y = ?x") auto
    then show ?thesis
      using copy_page_file_eq[OF kp kc ne i db False] A(1,4) O' V False same_viewD[OF V b] by auto
  next
    case True
    obtain sb FS where f: "free_swap_blocks s = sb # FS" using fs[OF True] by (cases "free_swap_blocks s") auto
    let ?e = "(page_table kc i)\<lparr>ppage := ppage (page_table kp i), read_enable := read_enable (page_table kp i)\<rparr>"
    let ?B = "(blocks s)(b := reserve sb ?x (blocks s b))"
    let ?s = "s\<lparr>process_info_mp := (process_info_mp s)(child \<mapsto> attached i b ?e kc), blocks := ?B, free_swap_blocks := FS\<rparr>"
    have pi: "process_info_mp ?s = (process_info_mp s)(child \<mapsto> attached i b ?e kc)" by simp
    note A = attached_views[OF kc pi] and eq = copy_page_swap_eq[OF kp kc ne i db True f, unfolded Let_def]
    have V: "same_view (file_read E) (loc_of s) s ?s" by (rule same_view_cong) (auto simp: content_def Let_def)
    have idle: "pte_at ?s y = pte_at s y" if "?L y = None" for y using A(3)[of y] that by (cases "y = ?x") auto
    show ?thesis
    proof (cases "b = zero_page")
      case z: True
      have "ppage (page_table kp i) = 0" "read_enable (page_table kp i)" using c(3) b pe z by (simp_all add: zero_ok_def)
      then have "core (file_read E) N None ((loc_of s)(?x \<mapsto> zero_page)) (clock_queue s) (s\<lparr>blocks := ?B, free_swap_blocks := FS\<rparr>) (pte_at ?s)"
        by (intro join_zero[OF O x f A(2,3), of "set_insert ?x (ptes (blocks s zero_page))"]) (use we z in \<open>simp_all add: reserve_eq\<close>)
      then have O': "ok E N None ?L ?s" using z by (simp add: ok_def core_def)
      show ?thesis using eq z A(1,4) O' V True f idle same_viewD[OF V b] by auto
    next
      case nz: False
      let ?X = "set (set_insert ?x (ptes (blocks s b)))" and ?w = "\<lambda>c. c\<lparr>write_enable := False\<rparr> :: page_table_entry_t"
      define t where t: "t = upd_pte_set ?X ?w ?s"
      have live: "process_info_mp ?s (fst y) \<noteq> None" if "y \<in> ?X" for y
      proof (cases "y = ?x")
        case False
        then have "loc_of s y = Some b" using ptes_user[OF c(1), of y b] that by simp
        from loc_of_pte[OF this] show ?thesis by (auto simp: pte_at_def split: option.splits)
      qed simp
      then have run: "for_ptes b ?w ?s = Inr t" by (simp add: for_ptes_def list_all_iff t)
      have px: "y \<in> ?X \<longleftrightarrow> y = ?x \<or> loc_of s y = Some b" for y using known_block_ptes[OF c(1) nz] by simp
      have T: "pte_at t y = (if y = ?x then Some (?w ?e) else if loc_of s y = Some b then map_option ?w (pte_at s y) else pte_at s y)" for y
        unfolding t using A(2) A(3)[of y] px[of y] by simp
      have S: "swap_ok None ?L ?B FS" by (rule swap_ok_join[OF c(1) c(2)[unfolded f] x True]) (use True in auto)
      have hd: "hd (swap_blocks (blocks s b) @ [sb]) = hd (swap_blocks (blocks s b))"
        using swap_reserved[OF c(1,2) True usersI[of "loc_of s", OF b]] by simp
      have "core (file_read E) N None ?L (clock_queue s) (s\<lparr>blocks := ?B, free_swap_blocks := FS\<rparr>) (pte_at t)"
      proof (rule join_known[OF O x k nz S hd])
        show "set FS \<union> set (swap_blocks (blocks s b) @ [sb]) = set (free_swap_blocks s) \<union> set (swap_blocks (blocks s b))" using f by auto
        show "entry_ok ?L ?x (blocks s b) b e" if "pte_at t ?x = Some e" for e
        proof -
          have "e = ?w ?e" using that T[of ?x] by simp
          then show ?thesis using pent[OF nz] by (simp add: entry_ok_def)
        qed
        show "entry_ok ?L y (blocks s b) b e" if y: "loc_of s y = Some b" and e: "pte_at t y = Some e" for y e
        proof -
          have "y \<noteq> ?x" using y x by (cases "y = ?x") simp_all
          then have "map_option ?w (pte_at s y) = Some e" using e y T[of y] by simp
          then obtain e0 where e0: "pte_at s y = Some e0" "e = ?w e0" by (cases "pte_at s y") simp_all
          then have "entry_ok (loc_of s) y (blocks s b) b e0" using c(9) nz y unfolding pte_ok_def by blast
          then show ?thesis using e0(2) by (simp add: entry_ok_def)
        qed
        show "pte_at t ?x \<noteq> None" using T[of ?x] by simp
        show "pte_at t y = None \<longleftrightarrow> pte_at s y = None" if "y \<noteq> ?x" for y using T[of y] that by simp
        show "pte_at t y = pte_at s y" if "y \<noteq> ?x" "loc_of s y \<noteq> Some b" for y using T[of y] that by simp
      qed (simp add: reserve_eq)
      then have O': "ok E N None ?L t" unfolding t by (simp add: ok_def core_def)
      have sh: "shape t = shape ?s" "blocks t = ?B" "curr_pid t = curr_pid s" "free_swap_blocks t = FS"
        "page_table_base_register t = page_table_base_register s" unfolding t by simp_all
      have V': "same_view (file_read E) (loc_of s) s t"
        by (rule same_view_trans[OF V]) (unfold t, rule same_view_cong, auto simp: content_def Let_def)
      have idle': "pte_at t y = pte_at s y" if "?L y = None" for y using that T[of y] by (cases "y = ?x") simp_all
      show ?thesis
        using eq nz run A(1,4) sh loc_of_shape[OF sh(1)] O' V' True f idle' same_viewD[OF V' b] by auto
    qed
  qed
qed

end
