(* ===== verification/Pager_Fork.thy ===== *)
theory Pager_Fork
  imports Pager_Create
begin

text \<open>
  The loop over the pages of the parent and the call \<^verbatim>\<open>vm_create\<close>: the arena of the child is that of
  the parent, and the call fails exactly when there are not enough free swap blocks.
\<close>

subsection \<open>The loop\<close>

lemma loc_of_of_shape: "loc_of s x = (case shape s (fst x) of None \<Rightarrow> None | Some (t, _) \<Rightarrow> data_location (t (snd x)))"
  by (auto simp: loc_of_def shape_def split: option.splits)

definition swap_pages :: "(nat \<Rightarrow> kernel_page_info) \<Rightarrow> (nat \<Rightarrow> mem_block) \<Rightarrow> nat \<Rightarrow> nat set" where
  "swap_pages pit B i = {j. j < i \<and> (\<exists>b. data_location (pit j) = Some b \<and> is_swap (B b))}"

lemma swap_pages_Suc:
  "data_location (pit i) = Some b \<Longrightarrow> card (swap_pages pit B (Suc i)) = card (swap_pages pit B i) + (if is_swap (B b) then 1 else 0)"
proof -
  assume b: "data_location (pit i) = Some b"
  have "swap_pages pit B (Suc i) = (if is_swap (B b) then insert i (swap_pages pit B i) else swap_pages pit B i)"
    using b by (auto simp: swap_pages_def less_Suc_eq)
  moreover have "finite (swap_pages pit B i)" "i \<notin> swap_pages pit B i" by (simp_all add: swap_pages_def)
  ultimately show ?thesis by simp
qed

lemma swap_pages_mono: "i \<le> n \<Longrightarrow> card (swap_pages pit B i) \<le> card (swap_pages pit B n)"
  by (rule card_mono) (auto simp: swap_pages_def)

text \<open>The state after \<open>i\<close> pages, from the state \<open>s0\<close> in which the child has none.\<close>

definition stage :: "'d pager_env \<Rightarrow> sizes \<Rightarrow> 'd pager \<Rightarrow> (nat \<Rightarrow> kernel_page_info) \<Rightarrow> nat \<Rightarrow> nat \<Rightarrow> nat \<Rightarrow> nat \<Rightarrow> 'd pager \<Rightarrow> bool" where
  "stage E N s0 pit child n c i t \<longleftrightarrow> ok E N None (loc_of t) t
     \<and> shape t = (shape s0)(child \<mapsto> (\<lambda>j. if j < i then \<lparr>valid = True, data_location = data_location (pit j)\<rparr> else new_kernel_page_info, n, c))
     \<and> same_view (file_read E) (loc_of s0) s0 t \<and> (\<forall>b. is_swap (blocks t b) = is_swap (blocks s0 b))
     \<and> (\<forall>y. loc_of t y = None \<longrightarrow> pte_at t y = pte_at s0 y)
     \<and> curr_pid t = curr_pid s0 \<and> page_table_base_register t = page_table_base_register s0
     \<and> length (free_swap_blocks s0) = length (free_swap_blocks t) + card (swap_pages pit (blocks s0) i)"

lemma stage_loc:
  assumes "stage E N s0 pit child n c i t"
  shows "loc_of t y = (if fst y = child then (if snd y < i then data_location (pit (snd y)) else None) else loc_of s0 y)"
  using assms by (simp add: stage_def loc_of_of_shape new_kernel_page_info_def)

lemma stage_step:
  assumes S: "stage E N s0 pit child n c i t" and i: "i < n" and n: "n \<le> num_virt_addr" and ne: "parent \<noteq> child"
    and pit: "shape s0 parent = Some (pit, m)" and b: "data_location (pit i) = Some b"
    and fs: "card (swap_pages pit (blocks s0) n) \<le> length (free_swap_blocks s0)"
    and ch: "pte_at s0 (child, i) = Some e" "\<not> write_enable e" and nc: "\<And>j. loc_of s0 (child, j) = None"
  shows "\<exists>t'. copy_virtual_page parent child i t = Inr t' \<and> stage E N s0 pit child n c (Suc i) t'"
proof -
  note s = S[unfolded stage_def]
  have O: "ok E N None (loc_of t) t" and sh: "shape t = (shape s0)(child \<mapsto> (\<lambda>j. if j < i then \<lparr>valid = True, data_location = data_location (pit j)\<rparr> else new_kernel_page_info, n, c))"
    and sw: "\<And>d. is_swap (blocks t d) = is_swap (blocks s0 d)" using s by auto
  have "shape t parent = Some (pit, m)" using sh ne pit by simp
  then obtain kp where kp: "process_info_mp t parent = Some kp" by (auto simp: shape_def)
  have "shape t child = Some (\<lambda>j. if j < i then \<lparr>valid = True, data_location = data_location (pit j)\<rparr> else new_kernel_page_info, n, c)"
    using sh by simp
  then obtain kc where kc: "process_info_mp t child = Some kc"
    and kc': "page_info_table kc = (\<lambda>j. if j < i then \<lparr>valid = True, data_location = data_location (pit j)\<rparr> else new_kernel_page_info)"
      "next_invalid_page kc = n" "num_swap_blocks kc = c" by (auto simp: shape_def)
  have "loc_of t (parent, i) = loc_of s0 (parent, i)" using stage_loc[OF S, of "(parent, i)"] ne by simp
  then have lb: "loc_of t (parent, i) = Some b" using loc_of_of_shape[of s0 "(parent, i)"] pit b by simp
  have lx: "loc_of t (child, i) = None" using stage_loc[OF S, of "(child, i)"] by simp
  have "pte_at t (child, i) = Some e" using s lx ch(1) by simp
  then have we: "\<not> write_enable (page_table kc i)" using kc ch(2) by (simp add: pte_at_def)
  have f: "free_swap_blocks t \<noteq> []" if "is_swap (blocks t b)"
  proof -
    have "card (swap_pages pit (blocks s0) i) + 1 \<le> card (swap_pages pit (blocks s0) n)"
      using swap_pages_mono[of "Suc i" n pit "blocks s0"] swap_pages_Suc[of pit i b "blocks s0", OF b] i that sw by simp
    then have "length (free_swap_blocks t) > 0" using fs s by linarith
    then show ?thesis by simp
  qed
  obtain t' where 1: "copy_virtual_page parent child i t = Inr t'" "loc_of t' = (loc_of t)((child, i) \<mapsto> b)" "ok E N None (loc_of t') t'"
      "shape t' = (shape t)(child \<mapsto> ((page_info_table kc)(i := \<lparr>valid = True, data_location = Some b\<rparr>), next_invalid_page kc, num_swap_blocks kc))"
      "same_view (file_read E) (loc_of t) t t'" "\<forall>d. is_swap (blocks t' d) = is_swap (blocks t d)"
      "\<forall>y. loc_of t' y = None \<longrightarrow> pte_at t' y = pte_at t y" "curr_pid t' = curr_pid t"
      "page_table_base_register t' = page_table_base_register t"
      "length (free_swap_blocks t) = length (free_swap_blocks t') + (if is_swap (blocks t b) then 1 else 0)"
    using copy_page_ok[OF O kp kc ne _ lb lx f we] i n by auto
  have "(page_info_table kc)(i := \<lparr>valid = True, data_location = Some b\<rparr>)
      = (\<lambda>j. if j < Suc i then \<lparr>valid = True, data_location = data_location (pit j)\<rparr> else new_kernel_page_info)"
    unfolding kc' using b by (auto simp: less_Suc_eq)
  then have sh': "shape t' = (shape s0)(child \<mapsto> (\<lambda>j. if j < Suc i then \<lparr>valid = True, data_location = data_location (pit j)\<rparr> else new_kernel_page_info, n, c))"
    using 1(4) sh kc' by simp
  have "same_view (file_read E) (loc_of s0) t t'"
    unfolding same_view_def
  proof (intro conjI allI impI)
    fix y d
    assume y: "loc_of s0 y = Some d"
    then have "fst y \<noteq> child" using nc[of "snd y"] by (cases y) auto
    then have "loc_of t y = Some d" using stage_loc[OF S, of y] y by simp
    then show "vpage_of (file_read E) t' d = vpage_of (file_read E) t d" by (rule same_viewD[OF 1(5)])
  qed (use 1(5) in \<open>simp add: same_view_def\<close>)
  then have V: "same_view (file_read E) (loc_of s0) s0 t'" using s same_view_trans by blast
  have idle: "pte_at t' y = pte_at s0 y" if "loc_of t' y = None" for y
  proof -
    have "loc_of t y = None" using that 1(2) by (cases "y = (child, i)") simp_all
    then show ?thesis using that 1(7) s by simp
  qed
  have "length (free_swap_blocks s0) = length (free_swap_blocks t') + card (swap_pages pit (blocks s0) (Suc i))"
    using s 1(10) swap_pages_Suc[of pit i b "blocks s0", OF b] sw by simp
  then show ?thesis using 1(1,3,6,8,9) sh' V idle s unfolding stage_def by simp
qed

lemma copy_pages_ok:
  assumes n: "n \<le> num_virt_addr" and ne: "parent \<noteq> child" and pit: "shape s0 parent = Some (pit, m)"
    and b: "\<And>i. i < n \<Longrightarrow> \<exists>b. data_location (pit i) = Some b"
    and fs: "card (swap_pages pit (blocks s0) n) \<le> length (free_swap_blocks s0)"
    and ch: "\<And>i. \<exists>e. pte_at s0 (child, i) = Some e \<and> \<not> write_enable e" and nc: "\<And>j. loc_of s0 (child, j) = None"
  shows "stage E N s0 pit child n c i t \<Longrightarrow> i \<le> n \<Longrightarrow> \<exists>t'. copy_pages parent child [i..<n] t = Inr t' \<and> stage E N s0 pit child n c n t'"
proof (induction "n - i" arbitrary: i t)
  case 0
  then show ?case by simp
next
  case (Suc d)
  then have i: "i < n" by simp
  obtain b' where b': "data_location (pit i) = Some b'" using b[OF i] by blast
  obtain e where e: "pte_at s0 (child, i) = Some e" "\<not> write_enable e" using ch by blast
  obtain t1 where 1: "copy_virtual_page parent child i t = Inr t1" "stage E N s0 pit child n c (Suc i) t1"
    using stage_step[OF Suc(3) i n ne pit b' fs e nc] by blast
  have "d = n - Suc i" using Suc(2) by simp
  from Suc(1)[OF this 1(2)] i show ?case using 1(1) by (simp add: upt_conv_Cons)
qed

subsection \<open>A process without pages\<close>

lemma core_entries:
  assumes "core rd N ex L Q s T" and "\<And>x. L x \<noteq> None \<Longrightarrow> T' x = T x"
  shows "core rd N ex L Q s T'"
proof -
  have e: "T' x = T x" if "L x = Some b" for x b using assms(2)[of x] that by simp
  note c = coreD[OF assms(1)]
  have "ptes_ok L T' (blocks s)" using c(1) assms(2) by (auto simp: ptes_ok_def)
  moreover have "zero_ok L (blocks s) T' (physmem s)" using c(3) e by (simp add: zero_ok_def)
  moreover have "pte_ok L (blocks s) T'" using c(9) e by (simp add: pte_ok_def)
  ultimately show ?thesis using c by (simp add: core_def)
qed

definition with_process :: "nat \<Rightarrow> kernel_process_info \<Rightarrow> 'd pager \<Rightarrow> 'd pager" where
  "with_process p k s = s\<lparr>process_info_mp := (process_info_mp s)(p \<mapsto> k)\<rparr>"

lemma with_process_views:
  shows "vpage_of rd (with_process p k s) = vpage_of rd s" and "file_view rd (with_process p k s) = file_view rd s"
proof -
  have c: "content rd (with_process p k s) = content rd s" by (simp add: fun_eq_iff content_def Let_def with_process_def)
  show "vpage_of rd (with_process p k s) = vpage_of rd s" by (simp add: fun_eq_iff vpage_of_def c) (simp add: with_process_def)
  have "file_mapping_table (with_process p k s) = file_mapping_table s" "disk (with_process p k s) = disk s"
    by (simp_all add: with_process_def)
  then show "file_view rd (with_process p k s) = file_view rd s" by (intro ext) (simp only: file_view_def c)
qed

text \<open>A process that shows nothing and whose entries are not enabled.\<close>

definition blank :: "kernel_process_info \<Rightarrow> bool" where
  "blank k \<longleftrightarrow> page_info_table k = (\<lambda>_. new_kernel_page_info)
     \<and> page_table k = (\<lambda>_. \<lparr>ppage = 0, read_enable = False, write_enable = False\<rparr>)"

lemma blank_views:
  assumes b: "blank k" and new: "process_info_mp s p = None"
  shows "loc_of (with_process p k s) = loc_of s"
    and "pte_at (with_process p k s) = (\<lambda>y. if fst y = p then Some \<lparr>ppage = 0, read_enable = False, write_enable = False\<rparr> else pte_at s y)"
    and "loc_of s (p, j) = None"
proof -
  show "loc_of (with_process p k s) = loc_of s"
  proof
    fix x
    show "loc_of (with_process p k s) x = loc_of s x"
      using b new by (cases "fst x = p") (simp_all add: loc_of_def with_process_def blank_def new_kernel_page_info_def)
  qed
  show "pte_at (with_process p k s) = (\<lambda>y. if fst y = p then Some \<lparr>ppage = 0, read_enable = False, write_enable = False\<rparr> else pte_at s y)"
    using b by (auto simp: pte_at_def with_process_def blank_def)
  show "loc_of s (p, j) = None" using new by (simp add: loc_of_def)
qed

lemma blank_ok:
  assumes O: "ok E N None (loc_of s) s" and b: "blank k" and new: "process_info_mp s p = None"
  shows "ok E N None (loc_of (with_process p k s)) (with_process p k s)"
proof -
  note v = blank_views[OF b new]
  have "core (file_read E) N None (loc_of s) (clock_queue s) s (pte_at (with_process p k s))"
  proof (rule core_entries[OF O[unfolded ok_def]])
    fix x
    assume "loc_of s x \<noteq> None"
    then have "fst x \<noteq> p" using v(3)[of "snd x"] by (cases x) auto
    then show "pte_at (with_process p k s) x = pte_at s x" by (simp add: v(2))
  qed
  then show ?thesis unfolding ok_def v(1) by (simp add: with_process_def core_def)
qed

lemma blank_inv:
  assumes I: "pager_inv E N s" and b: "blank k" and new: "process_info_mp s p = None"
    and z: "next_invalid_page k = 0" "num_swap_blocks k \<in> uninitialised E"
  shows "pager_inv E N (with_process p k s)" and "arena E (with_process p k s) = (arena E s)(p \<mapsto> [])"
    and "files E (with_process p k s) = files E s"
proof -
  let ?s = "with_process p k s"
  note v = blank_views[OF b new]
  have B: "blocks ?s = blocks s" by (simp add: with_process_def)
  have "process_ok E ?s q" for q
  proof (cases "q = p")
    case True
    then have "swap_count ?s q = 0" using v(1,3) by (simp add: swap_count_def)
    then show ?thesis using True z b v(1,3) by (auto simp: process_ok_def with_process_def blank_def new_kernel_page_info_def)
  next
    case False
    then have "process_info_mp ?s q = process_info_mp s q" by (simp add: with_process_def)
    then show ?thesis using I v(1) B by (simp add: pager_inv_def process_ok_def swap_count_def)
  qed
  moreover have "unused_ok ?s" using I v unfolding pager_inv_def unused_ok_def by (auto split: if_splits)
  ultimately show "pager_inv E N ?s" using blank_ok[OF _ b new, of E N] I by (simp add: pager_inv_def)
  note vp = with_process_views(1)[of "file_read E" p k s]
  show "arena E ?s = (arena E s)(p \<mapsto> [])"
  proof
    fix q
    show "arena E ?s q = ((arena E s)(p \<mapsto> [])) q"
    proof (cases "q = p")
      case True
      then show ?thesis using z by (simp add: arena_def with_process_def)
    next
      case False
      then have "process_info_mp ?s q = process_info_mp s q" by (simp add: with_process_def)
      then have "arena E ?s q = arena E s q" by (simp only: arena_def vp v(1))
      then show ?thesis using False by simp
    qed
  qed
  show "files E ?s = files E s" by (rule with_process_views(2))
qed

subsection \<open>The call\<close>

lemma stage_done:
  assumes I: "pager_inv E N s" and k: "process_info_mp s parent = Some kp" and new: "process_info_mp s child = None" and bl: "blank kc"
    and S: "stage E N (with_process child kc s) (page_info_table kp) child (next_invalid_page kp) (num_swap_blocks kp) (next_invalid_page kp) t"
  shows "pager_inv E N t" and "arena E t = (arena E s)(child := arena E s parent)" and "files E t = files E s"
proof -
  let ?s = "with_process child kc s" and ?n = "next_invalid_page kp"
  note v = blank_views[OF bl new] and s = S[unfolded stage_def] and K = process_okD[OF I k]
  have B: "blocks ?s = blocks s" and sh0: "shape ?s q = shape s q" if "q \<noteq> child" for q
    using that by (simp_all add: with_process_def shape_def)
  have B: "blocks ?s = blocks s" by (simp add: with_process_def)
  have sw: "is_swap (blocks t d) = is_swap (blocks s d)" for d using s B by simp
  have lo: "loc_of t (q, j) = loc_of s (q, j)" if "q \<noteq> child" for q j using stage_loc[OF S, of "(q, j)"] that v(1) by simp
  have lc: "loc_of t (child, j) = loc_of s (parent, j)" for j
    using stage_loc[OF S, of "(child, j)"] K(3)[of j] k by (auto simp: loc_of_def)
  have out: "outline t q = outline s q" if "q \<noteq> child" for q
  proof -
    have "shape t q = shape s q" using s sh0[OF that] that by simp
    then show ?thesis by (cases "process_info_mp s q"; cases "process_info_mp t q") (auto simp: outline_def shape_def)
  qed
  have "shape t child = Some (\<lambda>j. if j < ?n then \<lparr>valid = True, data_location = data_location (page_info_table kp j)\<rparr> else new_kernel_page_info, ?n, num_swap_blocks kp)"
    using s by simp
  then obtain kt where kt: "process_info_mp t child = Some kt" "next_invalid_page kt = ?n" "num_swap_blocks kt = num_swap_blocks kp"
      "page_info_table kt = (\<lambda>j. if j < ?n then \<lparr>valid = True, data_location = data_location (page_info_table kp j)\<rparr> else new_kernel_page_info)"
    by (auto simp: shape_def)
  have "process_ok E t q" for q
  proof (cases "q = child")
    case True
    then show ?thesis
      using kt K lc sw by (simp add: process_ok_def swap_count_def new_kernel_page_info_def)
  next
    case False
    show ?thesis
      by (rule process_ok_cong[of E s]) (use I out[OF False] lo[OF False] sw in \<open>simp_all add: pager_inv_def\<close>)
  qed
  moreover have "unused_ok t"
    unfolding unused_ok_def
  proof (intro allI impI)
    fix y e
    assume y: "loc_of t y = None" and e: "pte_at t y = Some e"
    have p: "pte_at ?s y = Some e" using s y e by simp
    show "\<not> read_enable e \<and> \<not> write_enable e"
    proof (cases "fst y = child")
      case True
      then show ?thesis using p v(2) by auto
    next
      case False
      then have "loc_of s y = None" using lo[OF False, of "snd y"] y by simp
      then show ?thesis using I p v(2) False by (simp add: pager_inv_def unused_ok_def)
    qed
  qed
  ultimately show "pager_inv E N t" using s by (simp add: pager_inv_def)
  have V: "same_view (file_read E) (loc_of s) ?s t" using s v(1) by simp
  note vp = with_process_views(1)[of "file_read E" child kc s]
  have vt: "vpage_of (file_read E) t d = vpage_of (file_read E) s d" if "loc_of s y = Some d" for y d
    using same_viewD[OF V that] vp by simp
  let ?f = "\<lambda>s q i. case loc_of s (q, i) of None \<Rightarrow> Private None | Some b \<Rightarrow> vpage_of (file_read E) s b"
  show "arena E t = (arena E s)(child := arena E s parent)"
  proof
    fix q
    show "arena E t q = ((arena E s)(child := arena E s parent)) q"
    proof (cases "q = child")
      case True
      have "?f t child j = ?f s parent j" for j using lc[of j] vt[of "(parent, j)"] by (cases "loc_of s (parent, j)") simp_all
      then have "?f t child = ?f s parent" by blast
      then show ?thesis using True kt k by (simp add: arena_def)
    next
      case False
      have "arena E t q = arena E s q"
      proof (rule arena_cong[OF out[OF False]])
        show "map_option (vpage_of (file_read E) t) (loc_of t (q, j)) = map_option (vpage_of (file_read E) s) (loc_of s (q, j))" for j
          using lo[OF False] vt[of "(q, j)"] by (cases "loc_of s (q, j)") simp_all
      qed
      then show ?thesis using False by simp
    qed
  qed
  show "files E t = files E s" using s with_process_views(2)[of "file_read E" child kc s] by (simp add: same_view_def)
qed

lemma swap_pages_count:
  assumes I: "pager_inv E N s" and k: "process_info_mp s p = Some k"
  shows "card (swap_pages (page_info_table k) (blocks s) (next_invalid_page k)) = swap_count s p"
proof -
  have dl: "data_location (page_info_table k i) = loc_of s (p, i)" for i using k by (simp add: loc_of_def)
  have "i < next_invalid_page k" if "loc_of s (p, i) = Some b" for i b using process_okD(3)[OF I k, of i] that by auto
  then have "swap_pages (page_info_table k) (blocks s) (next_invalid_page k) = {i. \<exists>b. loc_of s (p, i) = Some b \<and> is_swap (blocks s b)}"
    unfolding swap_pages_def dl by blast
  then show ?thesis by (simp add: swap_count_def)
qed

lemma vm_create_ok:
  assumes I: "pager_inv E N s" and new: "process_info_mp s child = None" and ne: "parent \<noteq> child" and g: "garbage \<in> uninitialised E"
  shows "\<exists>r s'. vm_create garbage parent child s = Inr (r, s') \<and> pager_inv E N s' \<and> files E s' = files E s
    \<and> curr_pid s' = curr_pid s \<and> page_table_base_register s' = page_table_base_register s
    \<and> (case process_info_mp s parent of
         None \<Rightarrow> r = 0 \<and> arena E s' = (arena E s)(child \<mapsto> [])
       | Some k \<Rightarrow> if num_swap_blocks k \<le> length (free_swap_blocks s)
                  then r = 0 \<and> arena E s' = (arena E s)(child := arena E s parent)
                    \<and> length (free_swap_blocks s) = length (free_swap_blocks s') + swap_count s parent
                  else r = - 1 \<and> arena E s' = (arena E s)(child \<mapsto> []) \<and> free_swap_blocks s' = free_swap_blocks s)"
proof -
  let ?k0 = "new_kernel_process_info garbage"
  have b0: "blank ?k0" "next_invalid_page ?k0 = 0" "num_swap_blocks ?k0 \<in> uninitialised E" using g by (simp_all add: new_kernel_process_info_def blank_def)
  note V0 = blank_inv[OF I b0(1) new b0(2,3)]
  have w: "s\<lparr>process_info_mp := (process_info_mp s)(child \<mapsto> new_kernel_process_info garbage)\<rparr> = with_process child ?k0 s"
    by (simp add: with_process_def)
  have pp: "process_info_mp (with_process child ?k0 s) parent = process_info_mp s parent" using ne by (simp add: with_process_def)
  have fs: "free_swap_blocks (with_process child k s) = free_swap_blocks s" "curr_pid (with_process child k s) = curr_pid s"
    "page_table_base_register (with_process child k s) = page_table_base_register s" "blocks (with_process child k s) = blocks s" for k
    by (simp_all add: with_process_def)
  show ?thesis
  proof (cases "process_info_mp s parent")
    case None
    then have "vm_create garbage parent child s = Inr (0, with_process child ?k0 s)" using pp by (simp add: vm_create_def w Let_def)
    then show ?thesis using V0 None fs by simp
  next
    case (Some kp)
    show ?thesis
    proof (cases "num_swap_blocks kp \<le> length (free_swap_blocks s)")
      case False
      then have "vm_create garbage parent child s = Inr (- 1, with_process child ?k0 s)" using pp Some fs by (simp add: vm_create_def w Let_def)
      then show ?thesis using V0 Some False fs by simp
    next
      case True
      let ?n = "next_invalid_page kp"
      define kc where kc: "kc = ?k0\<lparr>num_swap_blocks := num_swap_blocks kp, next_invalid_page := ?n\<rparr>"
      let ?s = "with_process child kc s"
      note K = process_okD[OF I Some]
      have bl: "blank kc" by (simp add: kc blank_def new_kernel_process_info_def)
      note v = blank_views[OF bl new]
      have O: "ok E N None (loc_of s) s" using I by (simp add: pager_inv_def)
      have sp: "set_process child (\<lambda>k. k\<lparr>num_swap_blocks := num_swap_blocks kp, next_invalid_page := ?n\<rparr>) (with_process child ?k0 s) = ?s"
        by (simp add: with_process_def set_process_def kc)
      have start: "vm_create garbage parent child s = bindr (copy_pages parent child [0..<?n] ?s) (\<lambda>s. Inr (0, s))"
        using pp Some fs True sp by (simp add: vm_create_def w Let_def)
      have ps: "shape ?s parent = Some (page_info_table kp, ?n, num_swap_blocks kp)" using Some ne by (simp add: shape_def with_process_def)
      have dl: "data_location (page_info_table kp i) = loc_of s (parent, i)" for i using Some by (simp add: loc_of_def)
      note sc = swap_pages_count[OF I Some]
      have le: "swap_count s parent \<le> num_swap_blocks kp" using K(4) by auto
      have "shape ?s child = Some (\<lambda>_. new_kernel_page_info, ?n, num_swap_blocks kp)"
        using bl by (simp add: shape_def with_process_def kc blank_def)
      then have "shape ?s = (shape ?s)(child \<mapsto> (\<lambda>_. new_kernel_page_info, ?n, num_swap_blocks kp))" by (simp add: fun_upd_idem)
      then have S0: "stage E N ?s (page_info_table kp) child ?n (num_swap_blocks kp) 0 ?s"
        using blank_ok[OF O bl new] by (simp add: stage_def swap_pages_def)
      have "\<exists>b. data_location (page_info_table kp i) = Some b" if "i < ?n" for i using K(3)[of i] that dl by simp
      moreover have "card (swap_pages (page_info_table kp) (blocks ?s) ?n) \<le> length (free_swap_blocks ?s)" using sc le True fs by simp
      moreover have "\<exists>e. pte_at ?s (child, i) = Some e \<and> \<not> write_enable e" for i using v(2) by simp
      moreover have "loc_of ?s (child, j) = None" for j using v(1,3) by simp
      ultimately obtain t where t: "copy_pages parent child [0..<?n] ?s = Inr t"
          "stage E N ?s (page_info_table kp) child ?n (num_swap_blocks kp) ?n t"
        using copy_pages_ok[OF K(1) ne ps _ _ _ _ S0] by blast
      note D = stage_done[OF I Some new bl t(2)]
      have "length (free_swap_blocks s) = length (free_swap_blocks t) + swap_count s parent" "curr_pid t = curr_pid s"
        "page_table_base_register t = page_table_base_register s"
        using t(2) sc fs by (simp_all add: stage_def)
      then show ?thesis using start t(1) D Some True by simp
    qed
  qed
qed

end
