(* ===== verification/Pager_Leave.thy ===== *)
theory Pager_Leave
  imports Pager_Fork
begin

text \<open>
  A page leaves the block that it shows: the swap block that was reserved for it becomes free, the
  memory of a block that is backed by swap becomes free with its last page, and a file block is
  forgotten when its last page leaves and it is not in memory.
\<close>

subsection \<open>Facts shared by the cases\<close>

lemma users_leave:
  assumes "L x = Some b"
  shows "users (L(x := None)) c = (if c = b then users L b - {x} else users L c)"
  using assms by (auto simp: users_def)

lemma swap_ok_length:
  "swap_ok ex L B FS \<Longrightarrow> is_swap (B b) \<Longrightarrow> length (swap_blocks (B b)) = card (users L b) + (if ex = Some b then 1 else 0)"
  unfolding swap_ok_def by auto

lemma swap_ok_release:
  assumes S: "swap_ok (Some b) L B FS" and sw: "is_swap (B b)"
    and b: "swap_blocks (B' b) = butlast (swap_blocks (B b))" "is_swap (B' b)"
    and o: "\<And>c. c \<noteq> b \<Longrightarrow> swap_blocks (B' c) = swap_blocks (B c) \<and> is_swap (B' c) = is_swap (B c)"
  shows "swap_ok None L B' (FS @ [last (swap_blocks (B b))])" and "swap_blocks (B b) \<noteq> []"
proof -
  have l: "length (swap_blocks (B b)) = card (users L b) + 1" using S sw by (simp add: swap_ok_def)
  then show ne: "swap_blocks (B b) \<noteq> []" by auto
  let ?l = "last (swap_blocks (B b))"
  have sp: "swap_blocks (B b) = butlast (swap_blocks (B b)) @ [?l]" using ne by simp
  have d: "distinct (swap_blocks (B c))" "set (swap_blocks (B c)) \<inter> set FS = {}" for c using S unfolding swap_ok_def by blast+
  have dl: "?l \<notin> set (butlast (swap_blocks (B b)))" "distinct (butlast (swap_blocks (B b)))"
    using d(1)[of b] sp by (metis distinct_butlast not_distinct_conv_prefix append_Nil2 distinct_append disjoint_iff list.set_intros(1))+
  have in_b: "?l \<in> set (swap_blocks (B b))" "set (butlast (swap_blocks (B b))) \<subseteq> set (swap_blocks (B b))" using ne by (auto dest: in_set_butlastD)
  have dj: "set (swap_blocks (B c)) \<inter> set (swap_blocks (B e)) = {}" if "c \<noteq> e" for c e using S that unfolding swap_ok_def by blast
  have len: "length (swap_blocks (B' c)) = (if is_swap (B' c) then card (users L c) else 0)" for c
    using S l b o[of c] by (cases "c = b") (auto simp: swap_ok_def)
  have FS: "distinct (FS @ [?l])" using S d(2)[of b] in_b by (auto simp: swap_ok_def)
  have dis: "distinct (swap_blocks (B' c))" for c using d(1)[of c] dl b o[of c] by (cases "c = b") simp_all
  have fs: "set (swap_blocks (B' c)) \<inter> set (FS @ [?l]) = {}" for c
  proof (cases "c = b")
    case True
    then show ?thesis using b(1) dl(1) d(2)[of b] in_b(2) by auto
  next
    case False
    then show ?thesis using o[OF False] d(2)[of c] dj[OF False] in_b(1) by auto
  qed
  have "set (swap_blocks (B' c)) \<inter> set (swap_blocks (B' e)) = {}" if "c \<noteq> e" for c e
    using dj[OF that] b(1) o[of c] o[of e] in_b(2) that by (cases "c = b"; cases "e = b") auto
  then show "swap_ok None L B' (FS @ [?l])" using len FS dis fs unfolding swap_ok_def by simp
qed

lemma butlast_hd:
  assumes "length xs > 1"
  shows "hd (butlast xs) = hd xs"
  using assms by (cases xs) auto

text \<open>Memory of a block that leaves the queue.\<close>

lemma mem_ok_release:
  assumes M: "mem_ok N B Q FM" and b: "b \<in> set Q" and l: "\<And>c. location (B' c) = location (B c)"
  shows "mem_ok N B' (removeAll b Q) (FM @ [location (B b)])"
proof (rule mem_ok_cong[OF M])
  have "distinct Q" using M unfolding mem_ok_def by (metis distinct_append distinct_map)
  then have "mset Q = add_mset b (mset (removeAll b Q))"
    using b by (simp add: distinct_remove1_removeAll[symmetric])
  then have "mset (map (\<lambda>c. location (B c)) Q) = add_mset (location (B b)) (mset (map (\<lambda>c. location (B c)) (removeAll b Q)))"
    unfolding mset_map by (simp only: image_mset_add_mset)
  moreover have "(\<lambda>c. location (B' c)) = (\<lambda>c. location (B c))" using l by auto
  ultimately show "mset ((FM @ [location (B b)]) @ map (\<lambda>c. location (B' c)) (removeAll b Q)) = mset (FM @ map (\<lambda>c. location (B c)) Q)"
    by simp
qed

subsection \<open>Leaving a block that is backed by swap\<close>

definition released :: "pte_ptr \<Rightarrow> mem_block \<Rightarrow> mem_block" where
  "released x blk = blk\<lparr>ptes := removeAll x (ptes blk), swap_blocks := butlast (swap_blocks blk)\<rparr>"

lemma released_simps [simp]:
  "ptes (released x blk) = removeAll x (ptes blk)" "swap_blocks (released x blk) = butlast (swap_blocks blk)"
  "is_swap (released x blk) = is_swap blk" "resident (released x blk) = resident blk" "location (released x blk) = location blk"
  "file_key (released x blk) = file_key blk" "dirty (released x blk) = dirty blk" "btype (released x blk) = btype blk"
  "referenced (released x blk) = referenced blk" "filename (released x blk) = filename blk" "block_num (released x blk) = block_num blk"
  by (simp_all add: released_def file_key_def)

lemma leave_swap:
  assumes C: "core rd N None L Q s T" and x: "L x = Some b" and sw: "is_swap (blocks s b)"
    and B: "B = (blocks s)(b := released x (blocks s b))"
    and F: "freed = (b \<noteq> zero_page \<and> resident (blocks s b) \<and> users L b = {x})"
    and Q': "Q' = (if freed then removeAll b Q else Q)"
    and M': "FM = (if freed then free_mem_blocks s @ [location (blocks s b)] else free_mem_blocks s)"
    and S': "FS = free_swap_blocks s @ [last (swap_blocks (blocks s b))]"
  shows "core rd N None (L(x := None)) Q' (s\<lparr>free_swap_blocks := FS, blocks := B, free_mem_blocks := FM\<rparr>) T"
proof -
  note c = coreD[OF C]
  let ?L = "L(x := None)" and ?D = "(blocks s)(b := (blocks s b)\<lparr>ptes := removeAll x (ptes (blocks s b))\<rparr>)"
  have u: "users ?L d = (if d = b then users L b - {x} else users L d)" for d by (rule users_leave[of L, OF x])
  have ub: "users L b \<noteq> {}" by (rule usersI[of L, OF x])
  have inq: "b \<in> set Q" if "b \<noteq> zero_page" "resident (blocks s b)" by (rule queue_ok_in[OF c(5) that(1) ub that(2)])
  have fx: "freed \<Longrightarrow> b \<in> set Q" using inq F by blast
  have left: "users ?L b \<noteq> {}" if "b \<in> set Q'"
    using queue_okD(1,2)[OF c(5), of b] that F Q' u[of b] x by (auto split: if_splits)
  have "ptes_ok ?L T ?D" by (rule detached_ptes_ok[of L, OF c(1) x])
  then have P: "ptes_ok ?L T B" by (rule ptes_ok_cong) (use B in auto)
  have R: "swap_ok (Some b) ?L ?D (free_swap_blocks s)" by (rule detached_swap_ok[of L, OF c(1,2) x sw])
  have S: "swap_ok None ?L B FS" using swap_ok_release(1)[OF R, of B] B S' sw by simp
  have len: "length (swap_blocks (blocks s b)) = card (users ?L b) + 1" using swap_ok_length[OF R, of b] sw by simp
  have fin: "finite (users ?L b)" by (rule finite_users[OF P])
  have hd: "hd (swap_blocks (B d)) = hd (swap_blocks (blocks s d))" if "users ?L d \<noteq> {}" for d
  proof (cases "d = b")
    case True
    then have "card (users ?L b) > 0" using that fin by (simp add: card_gt_0_iff)
    then show ?thesis using True B len butlast_hd[of "swap_blocks (blocks s b)"] by simp
  qed (simp add: B)
  have Z: "zero_ok ?L B T (physmem s)" using c(3) B by (auto simp: zero_ok_def split: if_splits)
  have loc: "location (B d) = location (blocks s d)" for d using B by simp
  have M: "mem_ok (ram_pages N) B Q' FM"
  proof (cases freed)
    case True
    then show ?thesis using mem_ok_release[OF c(4) fx[OF True] loc] Q' M' by simp
  next
    case False
    have "(\<lambda>d. location (B d)) = (\<lambda>d. location (blocks s d))" using loc by blast
    then show ?thesis using c(4) False Q' M' unfolding mem_ok_def by simp
  qed
  have K: "queue_ok ?L B Q'"
  proof (rule queue_okI)
    fix d
    assume d: "d \<in> set Q'"
    then have dq: "d \<in> set Q" using Q' by (simp split: if_splits)
    show "d \<noteq> zero_page \<and> resident (B d) \<and> btype (B d) = T_phys \<and> (is_swap (B d) \<longrightarrow> users ?L d \<noteq> {})"
      using queue_okD[OF c(5) dq] left u[of d] d B by (cases "d = b") auto
  next
    fix d
    assume d: "d \<noteq> zero_page" "users ?L d \<noteq> {}" "resident (B d)"
    have "users L d \<noteq> {}" "resident (blocks s d)" using d u[of d] B by (auto split: if_splits)
    then have "d \<in> set Q" by (rule queue_ok_in[OF c(5) d(1)])
    moreover have "\<not> (freed \<and> d = b)" using d(2) u[of b] F by auto
    ultimately show "d \<in> set Q'" using Q' by auto
  qed
  have kn: "known ?L Q' d \<Longrightarrow> known L Q d" for d using u[of d] Q' x by (auto simp: known_def split: if_splits)
  have Fo: "files_ok ?L B Q' (file_mapping_table s)"
  proof (rule files_ok_known[OF c(6)])
    show "known ?L Q' d \<longleftrightarrow> known L Q d" if "\<not> is_swap (B d)" for d
    proof -
      have "d \<noteq> b" using that sw B by auto
      then show ?thesis using u[of d] Q' by (simp add: known_def)
    qed
  qed (use B in auto)
  have Out: "out_ok rd ?L B (disk s)"
    unfolding out_ok_def
  proof (intro allI impI)
    fix d
    assume d: "users ?L d \<noteq> {}" "\<not> resident (B d)"
    have "users L d \<noteq> {}" "\<not> resident (blocks s d)" using d u[of d] B by (auto split: if_splits)
    from out_okD[OF c(7) this] show "btype (B d) \<noteq> T_phys \<and> \<not> dirty (B d) \<and> (is_swap (B d) \<longrightarrow> location (B d) = hd (swap_blocks (B d))
        \<and> rd (disk s) None (location (B d)) \<noteq> None) \<and> (\<not> is_swap (B d) \<longrightarrow> location (B d) = block_num (B d))"
      using hd[OF d(1)] B by (cases "d = b") auto
  qed
  have Cl: "clean_ok rd B Q' (physmem s) (disk s)"
  proof (rule clean_ok_cong[OF c(8)])
    show sub: "set Q' \<subseteq> set Q" using Q' by auto
    fix d
    assume d: "d \<in> set Q'"
    have "hd (swap_blocks (B d)) = hd (swap_blocks (blocks s d))" using hd[of b] left d B by (cases "d = b") auto
    then show "dirty (B d) = dirty (blocks s d) \<and> is_swap (B d) = is_swap (blocks s d) \<and> location (B d) = location (blocks s d)
        \<and> file_key (B d) = file_key (blocks s d) \<and> hd (swap_blocks (B d)) = hd (swap_blocks (blocks s d))
        \<and> physmem s (location (blocks s d)) = physmem s (location (blocks s d))" using B by (cases "d = b") simp_all
  qed simp_all
  have E: "pte_ok ?L B T"
    unfolding pte_ok_def
  proof (intro allI impI)
    fix y d e
    assume y: "?L y = Some d" and d: "d \<noteq> zero_page" and e: "T y = Some e"
    have Ly: "L y = Some d" "y \<noteq> x" using y by (auto split: if_splits)
    then have en: "entry_ok L y (blocks s d) d e" using c(9) d e unfolding pte_ok_def by blast
    show "entry_ok ?L y (B d) d e"
    proof (cases "d = b")
      case True
      have "users L b \<noteq> {y}" using x Ly(2) by (auto simp: users_def)
      then show ?thesis using en True sw B by (simp add: entry_ok_def)
    next
      case False
      then show ?thesis using en u[of d] B by (simp add: entry_ok_def)
    qed
  qed
  have Fr: "fresh_ok ?L B Q' (next_block s)"
    unfolding fresh_ok_def
  proof (intro conjI allI impI)
    show "zero_page < next_block s" using c(10) by (simp add: fresh_ok_def)
    fix d
    assume "next_block s \<le> d"
    then have nk: "\<not> known L Q d" "swap_blocks (blocks s d) = []" using c(10) by (simp_all add: fresh_ok_def)
    then have "d \<noteq> b" using ub by (auto simp: known_def)
    then show "\<not> known ?L Q' d" "swap_blocks (B d) = []" using nk kn[of d] B by auto
  qed
  have W: "swap_all (swap_size N) B FS"
  proof (rule swap_all_moved[OF c(11), of "{b}"])
    have "swap_blocks (blocks s b) \<noteq> []" using len by auto
    then have "set (swap_blocks (blocks s b)) = insert (last (swap_blocks (blocks s b))) (set (butlast (swap_blocks (blocks s b))))"
      by (rule set_butlast_last)
    then show "set FS \<union> (\<Union>c \<in> {b}. set (swap_blocks (B c))) = set (free_swap_blocks s) \<union> (\<Union>c \<in> {b}. set (swap_blocks (blocks s c)))"
      using B S' by auto
  qed (use B in auto)
  show ?thesis using P S Z M K Fo Out Cl E Fr W by (simp add: core_def)
qed

subsection \<open>Leaving a file block\<close>

lemma leave_file:
  assumes C: "core rd N None L Q s T" and x: "L x = Some b" and sw: "\<not> is_swap (blocks s b)"
    and B: "B = (blocks s)(b := (blocks s b)\<lparr>ptes := removeAll x (ptes (blocks s b))\<rparr>)"
    and F: "F = (if users L b = {x} \<and> \<not> resident (blocks s b) then (file_mapping_table s)(file_key (blocks s b) := None) else file_mapping_table s)"
  shows "core rd N None (L(x := None)) Q (s\<lparr>blocks := B, file_mapping_table := F\<rparr>) T"
proof -
  note c = coreD[OF C]
  let ?L = "L(x := None)"
  have u: "users ?L d = (if d = b then users L b - {x} else users L d)" for d by (rule users_leave[of L, OF x])
  have ub: "users L b \<noteq> {}" by (rule usersI[of L, OF x])
  have bz: "b \<noteq> zero_page" using sw c(3) by (auto simp: zero_ok_def)
  have P: "ptes_ok ?L T B" unfolding B by (rule detached_ptes_ok[of L, OF c(1) x])
  have sb: "swap_blocks (blocks s b) = []" by (rule swap_ok_file[OF c(2) sw])
  have fields: "swap_blocks (B d) = swap_blocks (blocks s d)" "is_swap (B d) = is_swap (blocks s d)" "resident (B d) = resident (blocks s d)"
    "btype (B d) = btype (blocks s d)" "location (B d) = location (blocks s d)" "file_key (B d) = file_key (blocks s d)"
    "dirty (B d) = dirty (blocks s d)" "block_num (B d) = block_num (blocks s d)" "filename (B d) = filename (blocks s d)"
    "referenced (B d) = referenced (blocks s d)" for d
    using B by (cases "d = b"; simp add: file_key_def)+
  have S: "swap_ok None ?L B (free_swap_blocks s)"
  proof -
    have len: "length (swap_blocks (B d)) = (if is_swap (B d) then card (users ?L d) else 0)" for d
      using c(2) sw u[of d] fields(1,2)[of d] sb by (cases "d = b") (auto simp: swap_ok_def)
    have "\<forall>d. length (swap_blocks (B d)) = (if is_swap (B d) then card (users ?L d) + (if None = Some d then 1 else 0) else 0)"
      using len by simp
    moreover have "distinct (free_swap_blocks s)" "\<forall>d. distinct (swap_blocks (B d))"
      "\<forall>d. set (swap_blocks (B d)) \<inter> set (free_swap_blocks s) = {}"
      "\<forall>d e. d \<noteq> e \<longrightarrow> set (swap_blocks (B d)) \<inter> set (swap_blocks (B e)) = {}"
      using c(2) unfolding swap_ok_def fields(1) by blast+
    ultimately show ?thesis unfolding swap_ok_def by blast
  qed
  have Z: "zero_ok ?L B T (physmem s)" using c(3) B bz by (auto simp: zero_ok_def split: if_splits)
  have M: "mem_ok (ram_pages N) B Q (free_mem_blocks s)" using c(4) unfolding mem_ok_def fields(5) .
  have K: "queue_ok ?L B Q"
  proof (rule queue_okI)
    show "d \<noteq> zero_page \<and> resident (B d) \<and> btype (B d) = T_phys \<and> (is_swap (B d) \<longrightarrow> users ?L d \<noteq> {})" if "d \<in> set Q" for d
      using queue_okD[OF c(5) that] sw u[of d] fields[of d] by (cases "d = b") auto
    show "d \<in> set Q" if "d \<noteq> zero_page" "users ?L d \<noteq> {}" "resident (B d)" for d
    proof (rule queue_ok_in[OF c(5) that(1)])
      show "users L d \<noteq> {}" using that(2) u[of d] by (auto split: if_splits)
      show "resident (blocks s d)" using that(3) fields(3) by simp
    qed
  qed
  let ?gone = "users L b = {x} \<and> \<not> resident (blocks s b)"
  have kn: "known ?L Q d \<longleftrightarrow> known L Q d \<and> \<not> (d = b \<and> ?gone)" for d
  proof (cases "d = b")
    case True
    have "b \<in> set Q \<longleftrightarrow> resident (blocks s b)" using queue_ok_in[OF c(5) bz ub] queue_okD(2)[OF c(5), of b] by blast
    then show ?thesis using True u[of b] ub x by (auto simp: known_def)
  qed (simp add: u known_def)
  have Fo: "files_ok ?L B Q F"
    unfolding files_ok_def fields
  proof (intro conjI allI impI)
    fix d
    assume d: "known ?L Q d" "\<not> is_swap (blocks s d)"
    have k: "known L Q d" using d(1) kn by blast
    then have fd: "file_mapping_table s (file_key (blocks s d)) = Some d" using files_ok_block[OF c(6) _ d(2)] by blast
    have "known L Q b" using ub by (simp add: known_def)
    then have fb: "file_mapping_table s (file_key (blocks s b)) = Some b" using files_ok_block[OF c(6) _ sw] by blast
    have "file_key (blocks s d) \<noteq> file_key (blocks s b)" if ?gone
      using fd fb kn[of d] d(1) that by auto
    then show "F (file_key (blocks s d)) = Some d" using F fd by auto
  next
    fix key d
    assume d: "F key = Some d"
    then have fd: "file_mapping_table s key = Some d" using F by (auto split: if_splits)
    note k = files_ok_key[OF c(6) fd]
    have "\<not> (d = b \<and> ?gone)" using d F k by (auto split: if_splits)
    then show "known ?L Q d" "\<not> is_swap (blocks s d)" "file_key (blocks s d) = key" using k kn by blast+
  qed
  have Out: "out_ok rd ?L B (disk s)"
    unfolding out_ok_def fields
  proof (intro allI impI)
    fix d
    assume d: "users ?L d \<noteq> {}" "\<not> resident (blocks s d)"
    have "users L d \<noteq> {}" using d(1) u[of d] by (auto split: if_splits)
    from out_okD[OF c(7) this d(2)] show "btype (blocks s d) \<noteq> T_phys \<and> \<not> dirty (blocks s d) \<and> (is_swap (blocks s d) \<longrightarrow>
        location (blocks s d) = hd (swap_blocks (blocks s d)) \<and> rd (disk s) None (location (blocks s d)) \<noteq> None) \<and>
        (\<not> is_swap (blocks s d) \<longrightarrow> location (blocks s d) = block_num (blocks s d))" by auto
  qed
  have Cl: "clean_ok rd B Q (physmem s) (disk s)" using c(8) unfolding clean_ok_def fields .
  have E: "pte_ok ?L B T"
    unfolding pte_ok_def
  proof (intro allI impI)
    fix y d e
    assume y: "?L y = Some d" and d: "d \<noteq> zero_page" and e: "T y = Some e"
    have "L y = Some d" using y by (auto split: if_splits)
    then have "entry_ok L y (blocks s d) d e" using c(9) d e unfolding pte_ok_def by blast
    then show "entry_ok ?L y (B d) d e" using u[of d] sw unfolding entry_ok_def fields by (cases "d = b") simp_all
  qed
  have Fr: "fresh_ok ?L B Q (next_block s)" using c(10) kn unfolding fresh_ok_def fields by blast
  have W: "swap_all (swap_size N) B (free_swap_blocks s)" by (rule swap_all_cong[OF c(11)]) (rule fields(1))
  show ?thesis using P S Z M K Fo Out Cl E Fr W by (simp add: core_def)
qed

end
