(* ===== verification/Pager_Destroy.thy ===== *)
theory Pager_Destroy
  imports Pager_Leave
begin

text \<open>
  The end of a process: the loop over its pages, the clean-up of the clock queue and the call
  \<^verbatim>\<open>vm_destroy\<close>.
\<close>

subsection \<open>The clock queue\<close>

lemma inspect_loop_append: "inspect_loop useful (length a) (a @ b) = b @ filter useful a"
proof (induction a arbitrary: b)
  case (Cons x a)
  then show ?case using Cons[of "b @ [x]"] Cons[of b] by simp
qed simp

lemma inspect_loop_filter: "inspect_loop useful (length q) q = filter useful q"
  using inspect_loop_append[of useful q "[]"] by simp

subsection \<open>One page\<close>

lemma update_permissions_queue:
  "update_block_permissions b (t\<lparr>clock_queue := q\<rparr>) =
     (case update_block_permissions b t of Inl e \<Rightarrow> Inl e | Inr t' \<Rightarrow> Inr (t'\<lparr>clock_queue := q\<rparr>))"
  by (simp add: update_block_permissions_def for_ptes_def upd_pte_set_def Let_def)

lemma permissions_core:
  fixes E :: "'d pager_env"
  assumes C: "core (file_read E) N None L Q t (pte_at t)" and rb: "resident (blocks t b)"
  shows "\<exists>t'. update_block_permissions b t = Inr t' \<and> core (file_read E) N None L Q t' (pte_at t')
    \<and> clock_queue t' = clock_queue t \<and> frame L t t' \<and> same_view (file_read E) L t t'
    \<and> (\<forall>c. location (blocks t' c) = location (blocks t c)) \<and> free_mem_blocks t' = free_mem_blocks t"
proof -
  let ?u = "t\<lparr>clock_queue := Q\<rparr>"
  have O: "ok E N None L ?u" using C by (simp add: ok_def core_def)
  have "resident (blocks ?u b)" using rb by simp
  then obtain u' f where u: "update_block_permissions b ?u = Inr u'" "ok E N None L u'" "frame L ?u u'" "same_view (file_read E) L ?u u'"
      "u' = retag b (referenced (blocks ?u b)) (dirty (blocks ?u b)) f ?u"
    using update_permissions_ok[OF O] by blast
  then obtain t' where t': "update_block_permissions b t = Inr t'" "u' = t'\<lparr>clock_queue := Q\<rparr>"
    using update_permissions_queue[where b = b and t = t and q = Q] by (auto split: sum.splits)
  have q: "clock_queue t' = clock_queue t"
    using t'(1) by (auto simp: update_block_permissions_def for_ptes_def Let_def split: if_splits)
  have eq: "blocks t' = blocks u'" "free_mem_blocks t' = free_mem_blocks u'" using t'(2) by simp_all
  have "core (file_read E) N None L Q t' (pte_at t')" using u(2) t'(2) by (simp add: ok_def core_def)
  moreover have "frame L t t'" using u(3) t'(2) by (simp add: frame_def)
  moreover have "same_view (file_read E) L t t'"
  proof -
    have "same_view (file_read E) L t ?u" by (rule same_view_cong) (simp_all add: content_def Let_def)
    moreover have "same_view (file_read E) L u' t'" by (rule same_view_cong) (simp_all add: t'(2) content_def Let_def)
    ultimately show ?thesis using u(4) same_view_trans by blast
  qed
  moreover have "location (blocks t' c) = location (blocks t c)" for c using u(5) eq(1) by simp
  moreover have "free_mem_blocks t' = free_mem_blocks t" using u(5) eq(2) by simp
  ultimately show ?thesis using t'(1) q by blast
qed

text \<open>
  The pages of the process that are gone after \<open>i\<close> passes of the loop.  The queue still holds blocks
  whose memory is free; those are the ones at the locations \<open>us\<close>.
\<close>

definition remaining :: "'d pager \<Rightarrow> nat \<Rightarrow> nat \<Rightarrow> layout" where
  "remaining s p i = (\<lambda>x. if fst x = p \<and> snd x < i then None else loc_of s x)"

definition useful_blocks :: "nat list \<Rightarrow> 'd pager \<Rightarrow> nat list" where
  "useful_blocks us t = filter (\<lambda>c. location (blocks t c) \<notin> set us) (clock_queue t)"

definition gone :: "'d pager_env \<Rightarrow> sizes \<Rightarrow> 'd pager \<Rightarrow> (nat \<Rightarrow> kernel_page_info) \<Rightarrow> nat \<Rightarrow> nat \<Rightarrow> nat list \<times> 'd pager \<Rightarrow> bool" where
  "gone E N s pit p i = (\<lambda>(us, t).
     core (file_read E) N None (remaining s p i) (useful_blocks us t) t (pte_at t)
     \<and> clock_queue t = clock_queue s \<and> (\<forall>c. location (blocks t c) = location (blocks s c) \<and> is_swap (blocks t c) = is_swap (blocks s c))
     \<and> shape t = shape s \<and> curr_pid t = curr_pid s \<and> page_table_base_register t = page_table_base_register s
     \<and> same_view (file_read E) (remaining s p i) s t \<and> set us \<subseteq> set (free_mem_blocks t)
     \<and> (\<forall>y. fst y \<noteq> p \<longrightarrow> loc_of s y = None \<longrightarrow> pte_at t y = pte_at s y)
     \<and> length (free_swap_blocks t) = length (free_swap_blocks s) + card (swap_pages pit (blocks s) i))"

lemma remaining_Suc: "(remaining s p i)((p, i) := None) = remaining s p (Suc i)"
  by (auto simp: remaining_def fun_eq_iff less_Suc_eq)

lemma same_view_mono:
  assumes "same_view rd L s s'" and "\<And>x b. L' x = Some b \<Longrightarrow> L x = Some b"
  shows "same_view rd L' s s'"
  using assms unfolding same_view_def by blast

lemma remaining_mono: "remaining s p (Suc i) x = Some b \<Longrightarrow> remaining s p i x = Some b"
  by (auto simp: remaining_def split: if_splits)

lemma destroy_step:
  assumes G: "gone E N s pit p i (us, t)" and run: "running s p" and i: "i < num_virt_addr"
    and pit: "shape s p = Some (pit, m)" and b: "data_location (pit i) = Some b"
  shows "\<exists>us' t'. destroy_page p i (us, t) = Inr (us', t') \<and> gone E N s pit p (Suc i) (us', t')"
proof -
  let ?x = "(p, i)" and ?L = "remaining s p i" and ?Q = "useful_blocks us t" and ?blk = "blocks t b"
  let ?L' = "remaining s p (Suc i)"
  note g = G[unfolded gone_def prod.case]
  have C: "core (file_read E) N None ?L ?Q t (pte_at t)" and sh: "shape t = shape s" and loc: "\<And>c. location (blocks t c) = location (blocks s c)"
    and sws: "\<And>c. is_swap (blocks t c) = is_swap (blocks s c)" using g by auto
  note c = coreD[OF C]
  have ls: "loc_of s ?x = Some b" using pit b by (simp add: loc_of_of_shape)
  then have x: "?L ?x = Some b" by (simp add: remaining_def)
  have "loc_of t ?x = Some b" using ls loc_of_shape[OF sh] by simp
  then have bo: "block_of p i t = Inr b" by (rule block_of_loc[OF _ i])
  have br: "base_register t = Inr p"
    using run g process_live_frame[OF sh, of p] by (auto simp: base_register_def running_def)
  have L': "?L(?x := None) = ?L'" by (rule remaining_Suc)
  have alone: "removeAll ?x (ptes ?blk) = [] \<longleftrightarrow> users ?L b = {?x}" if "b \<noteq> zero_page"
  proof -
    have "set (ptes ?blk) = users ?L b" using c(1) that by (simp add: ptes_ok_def)
    then have "set (removeAll ?x (ptes ?blk)) = users ?L b - {?x}" by simp
    moreover have "?x \<in> users ?L b" using x by simp
    ultimately show ?thesis by (metis Diff_eq_empty_iff insert_absorb insert_subset empty_set set_empty subset_singletonD singletonI insert_not_empty Diff_cancel)
  qed
  have card: "card (swap_pages pit (blocks s) (Suc i)) = card (swap_pages pit (blocks s) i) + (if is_swap ?blk then 1 else 0)"
    using swap_pages_Suc[of pit i b "blocks s", OF b] sws by simp
  have "same_view (file_read E) ?L s t" using g by simp
  then have V: "same_view (file_read E) ?L' s t" by (rule same_view_mono) (rule remaining_mono)
  show ?thesis
  proof (cases "is_swap ?blk")
    case False
    have bz: "b \<noteq> zero_page" using False c(3) by (auto simp: zero_ok_def)
    let ?B = "(blocks t)(b := ?blk\<lparr>ptes := removeAll ?x (ptes ?blk)\<rparr>)"
    define F where F: "F = (if users ?L b = {?x} \<and> \<not> resident ?blk then (file_mapping_table t)(file_key ?blk := None) else file_mapping_table t)"
    let ?t = "t\<lparr>blocks := ?B, file_mapping_table := F\<rparr>"
    have r: "destroy_page p i (us, t) = Inr (us, ?t)"
      using bo br False alone[OF bz] by (simp add: destroy_page_def Let_def upd_block_def file_key_def F)
    have "core (file_read E) N None (?L(?x := None)) ?Q ?t (pte_at t)" by (rule leave_file[OF C x False refl F])
    then have C': "core (file_read E) N None ?L' (useful_blocks us ?t) ?t (pte_at ?t)"
    proof -
      have "useful_blocks us ?t = ?Q" by (auto simp: useful_blocks_def intro!: filter_cong)
      then show ?thesis using \<open>core (file_read E) N None (?L(?x := None)) ?Q ?t (pte_at t)\<close> by (simp add: L')
    qed
    have ct: "content (file_read E) ?t = content (file_read E) t" by (simp add: content_def Let_def fun_eq_iff)
    have "same_view (file_read E) ?L' t ?t"
    proof (rule same_viewI)
      fix key
      have out: "location ?blk = block_num ?blk" if "\<not> resident ?blk"
        using out_okD(4)[OF c(7) usersI[of ?L, OF x] that False] .
      have k: "known ?L ?Q b" using usersI[of ?L, OF x] by (simp add: known_def)
      have fb: "file_mapping_table t (file_key ?blk) = Some b" by (rule files_ok_block[OF c(6) k False])
      show "file_view (file_read E) ?t key = file_view (file_read E) t key"
      proof (cases "users ?L b = {?x} \<and> \<not> resident ?blk \<and> key = file_key ?blk")
        case True
        then have "F key = None" by (simp add: F)
        then show ?thesis using True out fb \<open>\<not> is_swap ?blk\<close> by (simp add: file_view_def content_def Let_def file_key_def)
      next
        case False
        then have "F key = file_mapping_table t key" by (cases "users ?L b = {?x} \<and> \<not> resident ?blk") (auto simp: F)
        then show ?thesis using ct by (simp add: file_view_def split: option.splits)
      qed
    qed (simp add: ct)
    then have V': "same_view (file_read E) ?L' s ?t" by (rule same_view_trans[OF V])
    have "gone E N s pit p (Suc i) (us, ?t)"
      using C' V' g card False by (simp add: gone_def)
    then show ?thesis using r by blast
  next
    case True
    let ?B = "(blocks t)(b := released ?x ?blk)" and ?FS = "free_swap_blocks t @ [last (swap_blocks ?blk)]"
    let ?t = "t\<lparr>free_swap_blocks := ?FS, blocks := ?B\<rparr>"
    let ?freed = "b \<noteq> zero_page \<and> resident ?blk \<and> users ?L b = {?x}"
    have sb: "back_of (swap_blocks ?blk) = Inr (last (swap_blocks ?blk))"
      using swap_reserved[OF c(1,2) True usersI[of ?L, OF x]] by (simp add: back_of_def)
    have r: "destroy_page p i (us, t) = (if \<not> resident ?blk \<or> b = zero_page then Inr (us, ?t)
        else bindr (update_block_permissions b ?t) (\<lambda>s. if ptes (blocks s b) = []
          then Inr (set_insert (location ?blk) us, s\<lparr>free_mem_blocks := free_mem_blocks s @ [location ?blk]\<rparr>) else Inr (us, s)))"
      using bo br True sb by (simp add: destroy_page_def Let_def upd_block_def released_def cong: if_cong)
    note LS = leave_swap[OF C x True refl refl refl refl refl]
    have ct: "content (file_read E) u d = content (file_read E) t d"
      if "blocks u = ?B" "physmem u = physmem t" "disk u = disk t" for u d using that by (simp add: content_def Let_def)
    have Vt: "same_view (file_read E) ?L' t u"
      if "blocks u = ?B" "physmem u = physmem t" "disk u = disk t" "file_mapping_table u = file_mapping_table t" for u
      by (rule same_view_cong) (use that ct in simp_all)
    have uq: "useful_blocks us u = ?Q" if "blocks u = ?B" "clock_queue u = clock_queue t" for u
      using that by (auto simp: useful_blocks_def intro!: filter_cong)
    show ?thesis
    proof (cases ?freed)
      case F: True
      let ?u = "?t\<lparr>free_mem_blocks := free_mem_blocks t @ [location ?blk]\<rparr>" and ?us = "set_insert (location ?blk) us"
      have e: "removeAll ?x (ptes ?blk) = []" using alone F by blast
      have "update_block_permissions b ?t = Inr ?t" using e by (simp add: update_block_permissions_def)
      then have r': "destroy_page p i (us, t) = Inr (?us, ?u)" using r F e by simp
      have bq: "b \<in> set ?Q" by (rule queue_ok_in[OF c(5) _ usersI[of ?L, OF x]]) (use F in simp_all)
      have "useful_blocks ?us ?u = removeAll b ?Q"
      proof -
        have "location (blocks t d) = location ?blk \<longleftrightarrow> d = b" if "d \<in> set ?Q" for d
          using queue_location_inj[OF c(4) bq that] by auto
        then have "filter (\<lambda>d. location (blocks t d) \<noteq> location ?blk) ?Q = removeAll b ?Q"
          by (induction ?Q rule: rev_induct) (auto simp: removeAll_filter_not_eq intro!: filter_cong)
        moreover have "useful_blocks ?us ?u = filter (\<lambda>d. location (blocks t d) \<noteq> location ?blk) ?Q"
          by (auto simp: useful_blocks_def filter_filter intro!: filter_cong)
        ultimately show ?thesis by simp
      qed
      moreover have "core (file_read E) N None (?L(?x := None)) (removeAll b ?Q) ?u (pte_at t)" using LS F by simp
      ultimately have C': "core (file_read E) N None ?L' (useful_blocks ?us ?u) ?u (pte_at ?u)" by (simp add: L')
      have "same_view (file_read E) ?L' s ?u" by (rule same_view_trans[OF V Vt]) simp_all
      then have "gone E N s pit p (Suc i) (?us, ?u)" using C' g card True by (auto simp: gone_def)
      then show ?thesis using r' by blast
    next
      case F: False
      have "core (file_read E) N None (?L(?x := None)) ?Q ?t (pte_at t)" using LS F by (simp split: if_splits)
      then have C': "core (file_read E) N None ?L' ?Q ?t (pte_at ?t)" by (simp add: L')
      have V': "same_view (file_read E) ?L' s ?t" by (rule same_view_trans[OF V Vt]) simp_all
      show ?thesis
      proof (cases "\<not> resident ?blk \<or> b = zero_page")
        case N: True
        have "gone E N s pit p (Suc i) (us, ?t)" using C' uq[of ?t] V' g card True by (simp add: gone_def)
        then show ?thesis using r N by auto
      next
        case R: False
        then have "resident (blocks ?t b)" by simp
        from permissions_core[OF C' this] obtain t' where t': "update_block_permissions b ?t = Inr t'"
            "core (file_read E) N None ?L' ?Q t' (pte_at t')" "clock_queue t' = clock_queue ?t" "frame ?L' ?t t'"
            "same_view (file_read E) ?L' ?t t'" "\<forall>c. location (blocks t' c) = location (blocks ?t c)" "free_mem_blocks t' = free_mem_blocks ?t"
          by blast
        have "ptes (blocks t' b) = removeAll ?x (ptes ?blk)" using t'(4) by (simp add: frame_def)
        moreover have "removeAll ?x (ptes ?blk) \<noteq> []" using alone F R by blast
        ultimately have r': "destroy_page p i (us, t) = Inr (us, t')" using r R t'(1) by simp
        have "useful_blocks us t' = ?Q" using t'(3,6) by (auto simp: useful_blocks_def intro!: filter_cong)
        moreover have "same_view (file_read E) ?L' s t'" by (rule same_view_trans[OF V' t'(5)])
        moreover have "pte_at t' y = pte_at s y" if "fst y \<noteq> p" "loc_of s y = None" for y
        proof -
          have "?L' y = None" using that by (simp add: remaining_def)
          then have "pte_at t' y = pte_at t y" using t'(4) by (simp add: frame_def)
          then show ?thesis using g that by simp
        qed
        ultimately have "gone E N s pit p (Suc i) (us, t')"
          using t' g card True by (simp add: gone_def frame_def)
        then show ?thesis using r' by blast
      qed
    qed
  qed
qed

lemma destroy_pages_ok:
  assumes run: "running s p" and n: "n \<le> num_virt_addr" and pit: "shape s p = Some (pit, m)"
    and b: "\<And>i. i < n \<Longrightarrow> \<exists>b. data_location (pit i) = Some b"
  shows "gone E N s pit p i ut \<Longrightarrow> i \<le> n \<Longrightarrow> \<exists>ut'. destroy_pages p [i..<n] ut = Inr ut' \<and> gone E N s pit p n ut'"
proof (induction "n - i" arbitrary: i ut)
  case 0
  then show ?case by simp
next
  case (Suc d)
  then have i: "i < n" "i < num_virt_addr" using n by simp_all
  obtain b' where b': "data_location (pit i) = Some b'" using b[OF i(1)] by blast
  obtain us t where ut: "ut = (us, t)" by (cases ut)
  obtain us1 t1 where 1: "destroy_page p i (us, t) = Inr (us1, t1)" "gone E N s pit p (Suc i) (us1, t1)"
    using destroy_step[OF Suc(3)[unfolded ut] run i(2) pit b'] by blast
  have "d = n - Suc i" using Suc(2) by simp
  from Suc(1)[OF this 1(2)] i show ?case using 1(1) ut by (simp add: upt_conv_Cons)
qed

subsection \<open>The call\<close>

lemma vm_destroy_ok:
  assumes I: "pager_inv E N s" and run: "running s p"
  shows "\<exists>s'. vm_destroy s = Inr s' \<and> pager_inv E N s' \<and> arena E s' = (arena E s)(p := None) \<and> files E s' = files E s
    \<and> length (free_swap_blocks s') = length (free_swap_blocks s) + swap_count s p"
proof -
  obtain k where k: "process_info_mp s p = Some k" and cp: "curr_pid s = p" using run by (auto simp: running_def)
  let ?n = "next_invalid_page k" and ?pit = "page_info_table k"
  note K = process_okD[OF I k]
  have O: "ok E N None (loc_of s) s" using I by (simp add: pager_inv_def)
  have pit: "shape s p = Some (?pit, ?n, num_swap_blocks k)" using k by (simp add: shape_def)
  have dl: "data_location (?pit i) = loc_of s (p, i)" for i using k by (simp add: loc_of_def)
  have none: "loc_of s (p, j) = None" if "\<not> j < ?n" for j using K(3)[of j] that by blast
  have r0: "remaining s p 0 = loc_of s" "remaining s p ?n = (\<lambda>x. if fst x = p then None else loc_of s x)"
    using none by (auto simp: remaining_def fun_eq_iff)
  have "gone E N s ?pit p 0 ([], s)" using O by (simp add: gone_def r0 useful_blocks_def ok_def swap_pages_def)
  moreover have "\<exists>b. data_location (?pit i) = Some b" if "i < ?n" for i using K(3)[of i] that dl by simp
  ultimately obtain us t where d: "destroy_pages p [0..<?n] ([], s) = Inr (us, t)" and G: "gone E N s ?pit p ?n (us, t)"
    using destroy_pages_ok[OF run K(1) pit, of E N 0 "([], s)"] by auto
  note g = G[unfolded gone_def prod.case]
  let ?L = "remaining s p ?n" and ?Q = "useful_blocks us t"
  have C: "core (file_read E) N None ?L ?Q t (pte_at t)" using g by blast
  note c = coreD[OF C]
  let ?t = "inspect_clock_queue us t"
  have "location (blocks t d) \<noteq> 0" if "d \<in> set ?Q" for d using bits30_page(2)[OF c(4)] that by blast
  then have "filter (\<lambda>d. location (blocks t d) \<notin> set (set_insert 0 us)) (clock_queue t) = ?Q"
    by (auto simp: useful_blocks_def intro!: filter_cong)
  then have Q: "?t = t\<lparr>clock_queue := ?Q\<rparr>" by (simp only: inspect_clock_queue_def inspect_loop_filter)
  let ?s = "?t\<lparr>process_info_mp := (process_info_mp ?t)(p := None)\<rparr>"
  have run': "vm_destroy s = Inr ?s" using k cp d by (simp add: vm_destroy_def process_at_def Let_def)
  have lt: "loc_of t = loc_of s" by (rule loc_of_shape) (use g in simp)
  have l: "loc_of ?s = ?L"
  proof
    fix x
    have "loc_of ?s x = (if fst x = p then None else loc_of t x)" by (simp add: loc_of_def Q)
    then show "loc_of ?s x = ?L x" by (simp add: lt r0)
  qed
  have T: "pte_at ?s y = (if fst y = p then None else pte_at t y)" for y by (simp add: pte_at_def Q)
  have "core (file_read E) N None ?L ?Q t (pte_at ?s)"
    by (rule core_entries[OF C]) (auto simp: T r0 split: if_splits)
  then have ok': "ok E N None (loc_of ?s) ?s" unfolding l by (simp add: ok_def core_def Q)
  have other: "shape ?s q = shape s q" if "q \<noteq> p" for q
  proof -
    have "shape ?s q = shape t q" using that by (simp add: shape_def Q)
    then show ?thesis using g by simp
  qed
  have out: "outline ?s q = outline s q" if "q \<noteq> p" for q
    using other[OF that] by (cases "process_info_mp s q"; cases "process_info_mp ?s q") (auto simp: outline_def shape_def)
  have lq: "loc_of ?s (q, j) = loc_of s (q, j)" if "q \<noteq> p" for q j using that unfolding l r0 by simp
  have sw: "is_swap (blocks ?s d) = is_swap (blocks s d)" for d using g Q by simp
  have "process_ok E ?s q" for q
  proof (cases "q = p")
    case True
    then show ?thesis by (simp add: process_ok_def)
  next
    case False
    show ?thesis by (rule process_ok_cong[of E s]) (use I out[OF False] lq[OF False] sw in \<open>simp_all add: pager_inv_def\<close>)
  qed
  moreover have "unused_ok ?s"
    unfolding unused_ok_def
  proof (intro allI impI)
    fix y e
    assume y: "loc_of ?s y = None" and e: "pte_at ?s y = Some e"
    have "fst y \<noteq> p" "pte_at t y = Some e" using e T[of y] by (auto split: if_splits)
    moreover from this have "loc_of s y = None" using lq[of "fst y" "snd y"] y by simp
    ultimately have "pte_at s y = Some e" using g by simp
    then show "\<not> read_enable e \<and> \<not> write_enable e" using I \<open>loc_of s y = None\<close> by (simp add: pager_inv_def unused_ok_def)
  qed
  ultimately have inv: "pager_inv E N ?s" using ok' by (simp add: pager_inv_def)
  have V: "same_view (file_read E) ?L s ?s"
  proof (rule same_view_trans)
    show "same_view (file_read E) ?L s t" using g by simp
    show "same_view (file_read E) ?L t ?s" by (rule same_view_cong) (simp_all add: Q content_def Let_def)
  qed
  have "arena E ?s q = ((arena E s)(p := None)) q" for q
  proof (cases "q = p")
    case True
    then show ?thesis by (simp add: arena_def)
  next
    case False
    have "arena E ?s q = arena E s q"
    proof (rule arena_cong[OF out[OF False]])
      show "map_option (vpage_of (file_read E) ?s) (loc_of ?s (q, j)) = map_option (vpage_of (file_read E) s) (loc_of s (q, j))" for j
        using lq[OF False, of j] same_viewD[OF V, of "(q, j)"] False unfolding r0 by (cases "loc_of s (q, j)") simp_all
    qed
    then show ?thesis using False by simp
  qed
  then have ar: "arena E ?s = (arena E s)(p := None)" by blast
  have "length (free_swap_blocks ?s) = length (free_swap_blocks s) + swap_count s p" using g swap_pages_count[OF I k] Q by simp
  then show ?thesis using run' inv ar V by (auto simp: same_view_def)
qed

end
