(* ===== verification/Pager_System.thy ===== *)
theory Pager_System
  imports Pager_Destroy Transition
begin

text \<open>
  The pager as a whole: its start, the calls that the infrastructure makes, what it promises of them,
  and the order in which the clock looks for a victim.
\<close>

subsection \<open>The start\<close>

lemma vm_init_ok:
  assumes N: "N \<le> 2 ^ 16"
  shows "\<exists>s. vm_init N n (start_pager mem d) = Inr s \<and> pager_inv E \<lparr>ram_pages = N, swap_size = n\<rparr> s \<and> arena E s = Map.empty
    \<and> files E s = (\<lambda>key. file_read E d (Some (fst key)) (snd key)) \<and> length (free_swap_blocks s) = n"
proof -
  let ?s = "(start_pager mem d)\<lparr>free_mem_blocks := [1..<N], free_swap_blocks := [0..<n], physmem := mem(0 := (\<lambda>_. CHR 0x00))\<rparr>"
  have r: "vm_init N n (start_pager mem d) = Inr ?s" by (simp add: vm_init_def start_pager_def)
  have l: "loc_of ?s = (\<lambda>x. None)" by (simp add: loc_of_def start_pager_def fun_eq_iff)
  have t: "pte_at ?s = (\<lambda>x. None)" by (simp add: pte_at_def start_pager_def fun_eq_iff)
  have u: "users (\<lambda>x. None) b = {}" for b by (simp add: users_def)
  let ?N = "\<lparr>ram_pages = N, swap_size = n\<rparr>"
  have "ok E ?N None (loc_of ?s) ?s"
    unfolding ok_def core_def l t
    using N by (simp add: start_pager_def new_mem_block_def ptes_ok_def swap_ok_def zero_ok_def mem_ok_def queue_ok_def files_ok_def out_ok_def
      clean_ok_def pte_ok_def fresh_ok_def known_def swap_all_def u zero_page_def atLeast0LessThan)
  moreover have "process_ok E ?s p" for p by (simp add: process_ok_def start_pager_def)
  moreover have "unused_ok ?s" unfolding unused_ok_def t by simp
  ultimately have "pager_inv E ?N ?s" by (simp add: pager_inv_def)
  moreover have "arena E ?s = Map.empty" by (simp add: arena_def start_pager_def fun_eq_iff)
  moreover have "files E ?s = (\<lambda>key. file_read E d (Some (fst key)) (snd key))" by (simp add: file_view_def start_pager_def fun_eq_iff)
  ultimately show ?thesis using r by (simp add: start_pager_def)
qed

subsection \<open>The calls\<close>

datatype call =
    Create nat nat nat
  | Switch nat
  | Fault nat bool
  | Map "nat option" nat
  | Destroy
  | Store nat nat char

definition is_running :: "'d pager \<Rightarrow> bool" where
  "is_running s = (page_table_base_register s = Some (curr_pid s) \<and> process_info_mp s (curr_pid s) \<noteq> None)"

lemma is_running_iff: "is_running s \<longleftrightarrow> running s (curr_pid s)"
  by (auto simp: is_running_def running_def)

text \<open>
  When the infrastructure makes a call: a child has a new process number, and the other calls are made
  for the process that runs, whose pointers have 64 bits.  The last argument of \<open>Create\<close> is what the
  memory of the new \<^verbatim>\<open>kernel_process_info\<close> holds where the constructor sets nothing.
\<close>

fun may_call :: "'d pager_env \<Rightarrow> call \<Rightarrow> 'd pager \<Rightarrow> bool" where
  "may_call E (Create parent child garbage) s = (process_info_mp s child = None \<and> parent \<noteq> child \<and> garbage \<in> uninitialised E)"
| "may_call E (Switch pid) s = True"
| "may_call E (Fault addr write_flag) s = is_running s"
| "may_call E (Map fname block) s = (is_running s \<and> (case fname of None \<Rightarrow> True | Some a \<Rightarrow> a < 2 ^ 64))"
| "may_call E Destroy s = is_running s"
| "may_call E (Store i off ch) s = (is_running s \<and> \<not> Option.is_none (mmu_store s i off ch))"

fun run_call :: "'d pager_env \<Rightarrow> call \<Rightarrow> 'd pager \<Rightarrow> stop + 'd pager" where
  "run_call E (Create parent child garbage) s = bindr (vm_create garbage parent child s) (\<lambda>(_, s). Inr s)"
| "run_call E (Switch pid) s = Inr (vm_switch pid s)"
| "run_call E (Fault addr write_flag) s = bindr (vm_fault E addr write_flag s) (\<lambda>(_, s). Inr s)"
| "run_call E (Map fname block) s = bindr (vm_map E fname block s) (\<lambda>(_, s). Inr s)"
| "run_call E Destroy s = vm_destroy s"
| "run_call E (Store i off ch) s = (case mmu_store s i off ch of None \<Rightarrow> Inl Undefined_behaviour | Some s' \<Rightarrow> Inr s')"

inductive pager_step :: "'d pager_env \<Rightarrow> 'd pager \<Rightarrow> call \<Rightarrow> 'd pager \<Rightarrow> bool" for E where
  step_call: "may_call E c s \<Longrightarrow> run_call E c s = Inr s' \<Longrightarrow> pager_step E s c s'"

inductive_cases pager_stepE: "pager_step E s c s'"

subsection \<open>What the infrastructure promises\<close>

locale pager_infrastructure =
  fixes E :: "'d pager_env"
  assumes files_work: "backing_store (file_read E) (file_write E)"
    and begin_in_set: "xs \<noteq> [] \<Longrightarrow> set_begin E xs \<in> set xs"
    and unset_counts: "g \<in> uninitialised E \<Longrightarrow> g + num_virt_addr < 2 ^ 32"
begin

lemma switch_keeps:
  assumes I: "pager_inv E N s"
  shows "pager_inv E N (vm_switch pid s)" and "arena E (vm_switch pid s) = arena E s" and "files E (vm_switch pid s) = files E s"
proof -
  let ?s = "vm_switch pid s"
  have f: "process_info_mp ?s = process_info_mp s" "blocks ?s = blocks s" "physmem ?s = physmem s" "disk ?s = disk s"
    "clock_queue ?s = clock_queue s" "free_mem_blocks ?s = free_mem_blocks s" "free_swap_blocks ?s = free_swap_blocks s"
    "file_mapping_table ?s = file_mapping_table s" "next_block ?s = next_block s"
    by (simp_all add: vm_switch_def)
  have l: "loc_of ?s = loc_of s" by (simp add: loc_of_def fun_eq_iff f)
  have t: "pte_at ?s = pte_at s" by (rule pte_at_cong[OF f(1)])
  have c: "content (file_read E) ?s = content (file_read E) s" by (simp add: content_def Let_def fun_eq_iff f)
  have "ok E N None (loc_of s) ?s" using I by (simp add: pager_inv_def ok_def core_def f t)
  then show "pager_inv E N ?s" using I by (simp add: pager_inv_def process_ok_def swap_count_def unused_ok_def f l t)
  have v: "vpage_of (file_read E) ?s = vpage_of (file_read E) s" by (simp add: vpage_of_def fun_eq_iff f c)
  show "arena E ?s = arena E s" by (intro ext) (simp only: arena_def f l v)
  show "files E ?s = files E s" by (intro ext) (simp only: file_view_def f c)
qed

text \<open>Every call that may be made returns and keeps the invariant.\<close>

lemma call_ok:
  assumes I: "pager_inv E N s" and N: "1 < ram_pages N" and m: "may_call E c s"
  shows "\<exists>s'. run_call E c s = Inr s' \<and> pager_inv E N s'"
proof (cases c)
  case (Create parent child g)
  then have m': "process_info_mp s child = None" "parent \<noteq> child" "g \<in> uninitialised E" using m by simp_all
  from vm_create_ok[OF I m'] obtain r s' where "vm_create g parent child s = Inr (r, s')" "pager_inv E N s'" by blast
  then show ?thesis using Create by simp
next
  case (Switch pid)
  then show ?thesis using switch_keeps(1)[OF I] by simp
next
  case (Fault addr w)
  then have "running s (curr_pid s)" using m by (simp add: is_running_iff)
  from vm_fault_ok[OF files_work I N this, of addr w] show ?thesis using Fault by auto
next
  case (Map fname block)
  then have r: "running s (curr_pid s)" and a: "\<forall>a. fname = Some a \<longrightarrow> a < 2 ^ 64" using m by (auto simp: is_running_iff)
  have b: "\<forall>xs. xs \<noteq> [] \<longrightarrow> set_begin E xs \<in> set xs" using begin_in_set by blast
  have u: "\<forall>g \<in> uninitialised E. g + num_virt_addr < 2 ^ 32" using unset_counts by blast
  from vm_map_ok[OF files_work I N r b a u, of block] show ?thesis using Map by auto
next
  case Destroy
  then have "running s (curr_pid s)" using m by (simp add: is_running_iff)
  from vm_destroy_ok[OF I this] show ?thesis using Destroy by auto
next
  case (Store i off ch)
  then have r: "running s (curr_pid s)" and "\<not> Option.is_none (mmu_store s i off ch)" using m by (simp_all add: is_running_iff)
  then obtain s' where s': "mmu_store s i off ch = Some s'" by (auto simp: Option.is_none_def)
  from store_ok(1)[OF I r s'] show ?thesis using Store s' by simp
qed

lemma call_keeps: "1 < ram_pages N \<Longrightarrow> pager_inv E N s \<Longrightarrow> pager_step E s c s' \<Longrightarrow> pager_inv E N s'"
  using call_ok[of N s c] by (auto elim!: pager_stepE)

lemma invariant_system:
  assumes "1 < N" and "N \<le> 2 ^ 16" and "vm_init N n (start_pager mem d) = Inr s0"
  shows "inductive_invariant s0 (pager_step E) (pager_inv E \<lparr>ram_pages = N, swap_size = n\<rparr>)"
proof
  let ?N = "\<lparr>ram_pages = N, swap_size = n\<rparr>"
  show "pager_inv E ?N s0" using vm_init_ok[OF assms(2), of n mem d E] assms(3) by auto
  show "pager_inv E ?N s'" if "pager_inv E ?N s" "pager_step E s e s'" for s e s'
    by (rule call_keeps[OF _ that]) (use assms(1) in simp)
qed

end

sublocale pager_infrastructure \<subseteq> pager_files: backing_store "file_read E" "file_write E"
  by (rule files_work)

subsection \<open>The clock\<close>

lemma spared_turn:
  assumes "ok E N ex L s" and "clock_queue s = rs @ rest" and "\<forall>b \<in> set rs. referenced (blocks s b)" and "distinct (clock_queue s)"
  shows "\<exists>s'. second_chance s = second_chance s' \<and> ok E N ex L s' \<and> clock_queue s' = rest @ rs
    \<and> (\<forall>b. referenced (blocks s' b) \<longleftrightarrow> referenced (blocks s b) \<and> b \<notin> set rs)"
  using assms
proof (induction rs arbitrary: s rest)
  case (Cons b rs)
  note c = coreD[OF Cons.prems(1)[unfolded ok_def]]
  let ?s = "spared b (rs @ rest) s"
  have q: "clock_queue s = b # (rs @ rest)" using Cons.prems(2) by simp
  have f: "for_ptes b disable s = Inr (upd_pte_set (set (ptes (blocks s b))) disable s)"
    using for_ptes_eq[of L s "blocks s" b disable] c(1) by simp
  have e: "second_chance s = second_chance ?s"
    using q f Cons.prems(3) by (simp add: second_chance.simps[of s] spared_def)
  have O: "ok E N ex L ?s" by (rule spared_ok[OF Cons.prems(1) q])
  have q': "clock_queue ?s = rs @ (rest @ [b])" by (simp add: spared_def)
  have ref: "referenced (blocks ?s d) \<longleftrightarrow> referenced (blocks s d) \<and> d \<noteq> b" for d by (simp add: spared_def)
  have "\<forall>d \<in> set rs. referenced (blocks ?s d)" "distinct (clock_queue ?s)"
    using Cons.prems(3,4) q q' ref by auto
  from Cons.IH[OF O q' this] obtain s' where s': "second_chance ?s = second_chance s'" "ok E N ex L s'" "clock_queue s' = (rest @ [b]) @ rs"
      "\<forall>d. referenced (blocks s' d) \<longleftrightarrow> referenced (blocks ?s d) \<and> d \<notin> set rs" by blast
  then show ?case using e ref by auto
qed auto

text \<open>The block at the front when the clock stops: the first that is not referenced, or the first of all.\<close>

lemma second_chance_queue:
  assumes O: "ok E N ex L s" and ne: "clock_queue s \<noteq> []"
  shows "\<exists>s'. second_chance s = Inr s' \<and> clock_queue s' =
    dropWhile (\<lambda>b. referenced (blocks s b)) (clock_queue s) @ takeWhile (\<lambda>b. referenced (blocks s b)) (clock_queue s)"
proof -
  let ?r = "\<lambda>b. referenced (blocks s b)" and ?q = "clock_queue s"
  note c = coreD[OF O[unfolded ok_def]]
  have d: "distinct ?q" using c(4) unfolding mem_ok_def by (metis distinct_append distinct_map)
  have tw: "\<forall>b \<in> set (takeWhile ?r ?q). ?r b" by (auto dest: set_takeWhileD)
  obtain s' where s': "second_chance s = second_chance s'" "clock_queue s' = dropWhile ?r ?q @ takeWhile ?r ?q"
      "\<forall>b. referenced (blocks s' b) \<longleftrightarrow> ?r b \<and> b \<notin> set (takeWhile ?r ?q)"
    using spared_turn[OF O _ tw d, of "dropWhile ?r ?q"] by auto
  obtain b rest where q: "clock_queue s' = b # rest"
    using s'(2) ne by (metis append_eq_append_conv2 append_Nil2 append_is_Nil_conv neq_Nil_conv takeWhile_dropWhile_id)
  have "\<not> referenced (blocks s' b)"
  proof (cases "dropWhile ?r ?q = []")
    case True
    then have "clock_queue s' = takeWhile ?r ?q" unfolding s'(2) by (simp only: append_Nil)
    then have "b \<in> set (takeWhile ?r ?q)" using q by (metis list.set_intros(1))
    then show ?thesis using s'(3) by blast
  next
    case False
    then have "\<not> ?r b" using s'(2) q hd_dropWhile[OF False] by (metis hd_append list.sel(1))
    then show ?thesis using s'(3) by blast
  qed
  then have "second_chance s' = Inr s'" using q by (simp add: second_chance.simps[of s'])
  then show ?thesis using s'(1,2) by simp
qed

end
