(* ===== verification/Pager_Demo.thy ===== *)
theory Pager_Demo
  imports Pager_System "HOL-Library.Code_Target_Numeral"
begin

text \<open>
  A concrete infrastructure, with files in a map, and runs of the pager on it.  The runs show that the
  hypotheses of the theorems can hold.
\<close>

type_synonym ram_files = "string option \<times> nat \<Rightarrow> page option"

definition ram_pager :: "ram_files pager_env" where
  "ram_pager = \<lparr>file_read = (\<lambda>d f n. d (f, n)), file_write = (\<lambda>d f n pg. d((f, n) \<mapsto> pg)), set_begin = hd, uninitialised = {0}\<rparr>"

interpretation ram_pager: pager_infrastructure ram_pager
proof (rule pager_infrastructure.intro)
  show "backing_store (file_read ram_pager) (file_write ram_pager)" by unfold_locales (auto simp: ram_pager_def)
  show "set_begin ram_pager xs \<in> set xs" if "xs \<noteq> []" for xs using that by (simp add: ram_pager_def)
  show "g + num_virt_addr < 2 ^ 32" if "g \<in> uninitialised ram_pager" for g using that by (simp add: ram_pager_def num_virt_addr)
qed

text \<open>One file, \<^verbatim>\<open>f\<close>, that is full of the letter x.  Two pages of memory beside the pinned one, four swap blocks.\<close>

definition ram_disk :: ram_files where
  "ram_disk = (\<lambda>(f, n). if f = Some ''f'' then Some (\<lambda>_. CHR ''x'') else None)"

definition boot :: "ram_files pager" where
  "boot = (case vm_init 3 4 (start_pager (\<lambda>_ _. CHR ''?'') ram_disk) of Inl _ \<Rightarrow> start_pager (\<lambda>_ _. CHR ''?'') ram_disk | Inr s \<Rightarrow> s)"

lemma boot: "vm_init 3 4 (start_pager (\<lambda>_ _. CHR ''?'') ram_disk) = Inr boot"
  by (simp add: boot_def vm_init_def start_pager_def)

primrec run_calls :: "call list \<Rightarrow> ram_files pager \<Rightarrow> ram_files pager option" where
  "run_calls [] s = Some s"
| "run_calls (c # cs) s =
     (if may_call ram_pager c s then (case run_call ram_pager c s of Inl _ \<Rightarrow> None | Inr s' \<Rightarrow> run_calls cs s') else None)"

definition demo :: "call list \<Rightarrow> ram_files pager" where
  "demo cs = (case run_calls cs boot of None \<Rightarrow> boot | Some s \<Rightarrow> s)"

lemma reach_run:
  assumes "reach boot (pager_step ram_pager) s" and "run_calls cs s = Some s'"
  shows "reach boot (pager_step ram_pager) s'"
  using assms
proof (induction cs arbitrary: s)
  case (Cons c cs)
  obtain s1 where 1: "may_call ram_pager c s" "run_call ram_pager c s = Inr s1" "run_calls cs s1 = Some s'"
    using Cons.prems(2) by (auto split: if_splits sum.splits)
  from Cons.IH[OF reach_step[OF Cons.prems(1) step_call[OF 1(1,2)]] 1(3)] show ?case .
qed simp

lemma reach_demo: "reach boot (pager_step ram_pager) (demo cs)"
proof (cases "run_calls cs boot")
  case None
  then show ?thesis by (simp add: demo_def reach_start)
next
  case (Some s)
  then show ?thesis using reach_run[OF reach_start Some] by (simp add: demo_def)
qed

lemma demo_step:
  assumes "run_calls cs boot = Some s" and "may_call ram_pager c s" and "run_call ram_pager c s = Inr s'"
  shows "run_calls (cs @ [c]) boot = Some s'"
proof -
  have "run_calls (cs @ [c]) t = (case run_calls cs t of None \<Rightarrow> None | Some u \<Rightarrow> run_calls [c] u)" for t
    by (induction cs arbitrary: t) (auto split: sum.splits)
  then show ?thesis using assms by simp
qed

text \<open>Process 1 starts with a page of zeros, and then writes to it.\<close>

definition one_page :: "call list" where
  "one_page = [Create 0 1 0, Switch 1, Map None 0]"

definition written :: "call list" where
  "written = one_page @ [Fault 25769803776 True]"

lemma one_page_runs: "run_calls one_page boot = Some (demo one_page)"
proof -
  have "\<not> Option.is_none (run_calls one_page boot)" by code_simp
  then show ?thesis by (auto simp: demo_def Option.is_none_def)
qed

lemma one_page_facts:
  "is_running (demo one_page)" "curr_pid (demo one_page) = 1" "\<not> Option.is_none (vread ram_pager (demo one_page) 1 0)"
  "process_info_mp (demo one_page) 2 = None" "addr_to_index 25769803776 = 0" "mmu_load (demo one_page) 0 5 = Some (CHR 0x00)"
  "map_option num_swap_blocks (process_info_mp (demo one_page) 1) = Some 1" "length (free_swap_blocks (demo one_page)) = 3"
  "map_option next_invalid_page (process_info_mp (demo one_page) 1) = Some 1"
  by code_simp+

lemma one_page_inv: "pager_inv ram_pager \<lparr>ram_pages = 3, swap_size = 4\<rparr> (demo one_page)"
  using inductive_invariant.inv_reach[OF ram_pager.invariant_system[of 3, OF _ _ boot] reach_demo] by simp

lemma one_page_running: "running (demo one_page) 1"
  using one_page_facts(1,2) is_running_iff by metis

lemma written_runs:
  "run_calls written boot = Some (demo written) \<and> pager_inv ram_pager \<lparr>ram_pages = 3, swap_size = 4\<rparr> (demo written) \<and> running (demo written) 1
    \<and> (\<exists>e. pte_at (demo written) (1, 0) = Some e \<and> write_enable e)"
proof -
  obtain s where s: "vm_fault ram_pager 25769803776 True (demo one_page) = Inr (0, s)" "pager_inv ram_pager \<lparr>ram_pages = 3, swap_size = 4\<rparr> s" "running s 1"
      "\<exists>e. pte_at s (1, 0) = Some e \<and> write_enable e"
    using vm_fault_ok[OF ram_pager.files_work one_page_inv _ one_page_running, of 25769803776 True] one_page_facts(3,5)
    by (auto simp: Option.is_none_def)
  have "run_calls written boot = Some s"
    unfolding written_def by (rule demo_step[OF one_page_runs]) (use s(1) one_page_facts(1) in simp_all)
  then show ?thesis using s(2-4) by (simp add: demo_def)
qed

lemmas written_facts = written_runs[THEN conjunct1] written_runs[THEN conjunct2, THEN conjunct1]
  written_runs[THEN conjunct2, THEN conjunct2, THEN conjunct1] written_runs[THEN conjunct2, THEN conjunct2, THEN conjunct2]

end
