(* ===== verification/Pager_Properties.thy ===== *)
theory Pager_Properties
  imports Pager_Demo
begin

text \<open>
  The properties of the pager, over every state that its calls reach from the start, each with a run
  that shows that its hypotheses can hold.
\<close>

lemma reach_inv:
  assumes "pager_infrastructure E" and "1 < N" and "N \<le> 2 ^ 16" and "vm_init N n (start_pager mem d) = Inr s0"
    and "reach s0 (pager_step E) s"
  shows "pager_inv E \<lparr>ram_pages = N, swap_size = n\<rparr> s"
  by (rule inductive_invariant.inv_reach[OF pager_infrastructure.invariant_system[OF assms(1-4)] assms(5)])

lemma ram_size: "1 < N \<Longrightarrow> 1 < ram_pages \<lparr>ram_pages = N, swap_size = n\<rparr>"
  by simp

lemma demo_setup:
  "pager_infrastructure ram_pager" "(1::nat) < 3" "(3::nat) \<le> 2 ^ 16"
  "vm_init 3 4 (start_pager (\<lambda>_ _. CHR ''?'') ram_disk) = Inr boot"
  by (rule ram_pager.pager_infrastructure_axioms, simp, simp, rule boot)



text \<open>
  C29: A fault never changes what any process sees, nor the files.  It fails exactly when the address is
  not in a valid page or the file behind the page cannot be read; otherwise the access that faulted
  succeeds when it is repeated, and a load delivers the byte that the page holds.
\<close>
theorem fault_is_transparent:
  assumes "pager_infrastructure E" and "1 < N" and "N \<le> 2 ^ 16" and "vm_init N n (start_pager mem d) = Inr s0"
    and "reach s0 (pager_step E) s" and "running s p"
  shows "\<exists>r s'. vm_fault E addr write_flag s = Inr (r, s') \<and> arena E s' = arena E s \<and> files E s' = files E s
    \<and> r = (if vread E s p (addr_to_index addr) = None then - 1 else 0)
    \<and> (r = 0 \<longrightarrow> mmu_load s' (addr_to_index addr) off = map_option (\<lambda>pg. pg off) (vread E s p (addr_to_index addr))
        \<and> (write_flag \<longrightarrow> mmu_store s' (addr_to_index addr) off ch \<noteq> None))"
proof -
  obtain r s' where f: "vm_fault E addr write_flag s = Inr (r, s')" "pager_inv E \<lparr>ram_pages = N, swap_size = n\<rparr> s'" "arena E s' = arena E s" "files E s' = files E s"
      "running s' p" "r = (if vread E s p (addr_to_index addr) = None then - 1 else 0)"
    and e: "r = 0 \<longrightarrow> (\<exists>e. pte_at s' (p, addr_to_index addr) = Some e \<and> read_enable e \<and> (write_flag \<longrightarrow> write_enable e))"
    using vm_fault_ok[OF pager_infrastructure.files_work[OF assms(1)] reach_inv[OF assms(1-5)] ram_size[OF assms(2)] assms(6), where addr = addr and w = write_flag]
    by (elim exE conjE) (rule that)
  have v: "vread E s' = vread E s" by (rule vread_cong[OF f(3,4)])
  have "mmu_load s' (addr_to_index addr) off = map_option (\<lambda>pg. pg off) (vread E s p (addr_to_index addr))
        \<and> (write_flag \<longrightarrow> mmu_store s' (addr_to_index addr) off ch \<noteq> None)" if "r = 0"
    using e that load_ready(1)[OF f(2,5), of "addr_to_index addr" _ off] f(5) v by (auto simp: mmu_store_def running_def)
  then show ?thesis using f by blast
qed

theorem fault_is_transparent_witness:
  "\<exists>r s'. vm_fault ram_pager 25769803776 True (demo one_page) = Inr (r, s') \<and> arena ram_pager s' = arena ram_pager (demo one_page)
    \<and> mmu_store s' 0 7 CHR ''f'' \<noteq> None"
  using fault_is_transparent[OF demo_setup reach_demo one_page_running, of 25769803776 True 7 "CHR ''f''"] one_page_facts(3,5)
  by (auto simp: Option.is_none_def)

text \<open>
  C30: A store that the page table allows has the effect that the address space promises: on a private
  page only the byte of that page of that process changes, on a page of a file the byte changes for every
  page that shows the block and in the file, and no other process sees anything else change.
\<close>
theorem store_refines:
  assumes "pager_infrastructure E" and "1 < N" and "N \<le> 2 ^ 16" and "vm_init N n (start_pager mem d) = Inr s0"
    and "reach s0 (pager_step E) s" and "running s p" and "mmu_store s i off ch = Some s'"
  shows "(arena E s', files E s') = store_view p i off ch (arena E s, files E s)"
  by (rule store_ok(3)[OF reach_inv[OF assms(1-5)] assms(6,7)])

theorem store_refines_witness:
  "\<exists>s'. mmu_store (demo written) 0 7 CHR ''f'' = Some s' \<and>
     (arena ram_pager s', files ram_pager s') = store_view 1 0 7 CHR ''f'' (arena ram_pager (demo written), files ram_pager (demo written))"
proof -
  obtain s' where "mmu_store (demo written) 0 7 CHR ''f'' = Some s'"
    using written_facts(3,4) by (auto simp: mmu_store_def running_def)
  from store_refines[OF demo_setup reach_demo written_facts(3) this] this show ?thesis by blast
qed

text \<open>
  C31: A load that the page table allows delivers the byte that the page of the process holds: no process
  ever reads a page that it has not mapped, or data that were moved or belong to another.
\<close>
theorem loads_are_correct:
  assumes "pager_infrastructure E" and "1 < N" and "N \<le> 2 ^ 16" and "vm_init N n (start_pager mem d) = Inr s0"
    and "reach s0 (pager_step E) s" and "running s p" and "mmu_load s i off = Some ch"
  shows "\<exists>pg. vread E s p i = Some pg \<and> pg off = ch"
  by (rule load_correct[OF reach_inv[OF assms(1-5)] assms(6,7)])

theorem loads_are_correct_witness:
  "mmu_load (demo one_page) 0 5 = Some (CHR 0x00) \<and> (\<exists>pg. vread ram_pager (demo one_page) 1 0 = Some pg \<and> pg 5 = CHR 0x00)"
  using loads_are_correct[OF demo_setup reach_demo one_page_running one_page_facts(6)] one_page_facts(6) by blast

text \<open>
  C32: A new process gets the address space of its parent: the same files, and private pages with the
  same data that the two no longer share (C30).  The child takes one swap block for
  each page of the parent that needs one.  The call fails exactly when there are fewer free swap blocks
  than the counter of the parent says, which is the number of those pages plus the value that the unset
  member \<^verbatim>\<open>num_swap_blocks\<close> of its first ancestor had, and then the child is left with an empty arena and
  no swap block is taken.  Where that value is 0, the call fails exactly when swap blocks are missing.
\<close>
theorem fork_refines:
  assumes "pager_infrastructure E" and "1 < N" and "N \<le> 2 ^ 16" and "vm_init N n (start_pager mem d) = Inr s0"
    and "reach s0 (pager_step E) s" and "process_info_mp s child = None" and "parent \<noteq> child"
    and "garbage \<in> uninitialised E"
  shows "\<exists>r s'. vm_create garbage parent child s = Inr (r, s') \<and> files E s' = files E s
    \<and> (case process_info_mp s parent of
         None \<Rightarrow> r = 0 \<and> arena E s' = (arena E s)(child \<mapsto> [])
       | Some k \<Rightarrow> \<exists>g \<in> uninitialised E. num_swap_blocks k = g + swap_count s parent
           \<and> (if g + swap_count s parent \<le> length (free_swap_blocks s)
              then r = 0 \<and> arena E s' = (arena E s)(child := arena E s parent)
                \<and> length (free_swap_blocks s) = length (free_swap_blocks s') + swap_count s parent
              else r = - 1 \<and> arena E s' = (arena E s)(child \<mapsto> []) \<and> free_swap_blocks s' = free_swap_blocks s))"
proof (cases "process_info_mp s parent")
  case None
  then show ?thesis using vm_create_ok[OF reach_inv[OF assms(1-5)] assms(6-8)] by auto
next
  case (Some k)
  obtain g where g: "g \<in> uninitialised E" "num_swap_blocks k = g + swap_count s parent"
    using process_okD(4)[OF reach_inv[OF assms(1-5)] Some] by blast
  from vm_create_ok[OF reach_inv[OF assms(1-5)] assms(6-8)] obtain r s' where "vm_create garbage parent child s = Inr (r, s')"
      "files E s' = files E s" "if num_swap_blocks k \<le> length (free_swap_blocks s)
         then r = 0 \<and> arena E s' = (arena E s)(child := arena E s parent)
           \<and> length (free_swap_blocks s) = length (free_swap_blocks s') + swap_count s parent
         else r = - 1 \<and> arena E s' = (arena E s)(child \<mapsto> []) \<and> free_swap_blocks s' = free_swap_blocks s"
    using Some by auto
  then show ?thesis using Some g by (intro exI[of _ r] exI[of _ s']) auto
qed

theorem fork_refines_witness:
  "\<exists>s'. vm_create 0 1 2 (demo one_page) = Inr (0, s')
     \<and> arena ram_pager s' = (arena ram_pager (demo one_page))(2 := arena ram_pager (demo one_page) 1)"
proof -
  obtain k where k: "process_info_mp (demo one_page) 1 = Some k" "num_swap_blocks k = 1"
    using one_page_facts(7) by (cases "process_info_mp (demo one_page) 1") auto
  have "(0::nat) \<in> uninitialised ram_pager" by (simp add: ram_pager_def)
  from fork_refines[OF demo_setup reach_demo one_page_facts(4) _ this, of 1] k one_page_facts(8) show ?thesis by auto
qed

text \<open>
  C33: Mapping a page appends it to the arena of the process and changes nothing else: a page of zeros
  that takes one swap block, or the block of the file whose name the process has at the address that it
  gives.  The address that is returned is that of the new page.  The call fails exactly when the arena is
  full, there is no swap block, or the bytes from the given address on are not a string that can be read,
  because it leaves the valid pages before its end or because a file that it lies in cannot be read.  The
  page of an address is the one that \<^verbatim>\<open>addr_to_index\<close> computes, for every 64-bit pointer: an address
  far behind the arena can name a page of the arena, although the documentation lets the call fail there.
\<close>
theorem map_refines:
  assumes "pager_infrastructure E" and "1 < N" and "N \<le> 2 ^ 16" and "vm_init N n (start_pager mem d) = Inr s0"
    and "reach s0 (pager_step E) s" and "running s p" and "\<forall>a. fname = Some a \<longrightarrow> a < 2 ^ 64"
  shows "\<exists>r s' vs. vm_map E fname block s = Inr (r, s') \<and> files E s' = files E s \<and> arena E s p = Some vs
    \<and> (r = None \<and> arena E s' = arena E s \<and> (length vs = num_virt_addr \<or> fname = None \<and> free_swap_blocks s = []
          \<or> (\<exists>a. fname = Some a \<and> (\<nexists>str. string_at E s p a str)))
     \<or> length vs < num_virt_addr \<and> r = Some (VM_ARENA_BASEADDR + length vs * VM_PAGESIZE)
        \<and> (\<exists>v. arena E s' = (arena E s)(p \<mapsto> vs @ [v])
          \<and> (fname = None \<and> v = Private (Some (\<lambda>_. CHR 0x00)) \<and> length (free_swap_blocks s) = length (free_swap_blocks s') + 1
             \<or> (\<exists>a name. fname = Some a \<and> string_at E s p a name \<and> v = Shared name block \<and> free_swap_blocks s' = free_swap_blocks s))))"
proof -
  have b: "\<forall>xs. xs \<noteq> [] \<longrightarrow> set_begin E xs \<in> set xs" using pager_infrastructure.begin_in_set[OF assms(1)] by blast
  have u: "\<forall>g \<in> uninitialised E. g + num_virt_addr < 2 ^ 32" using pager_infrastructure.unset_counts[OF assms(1)] by blast
  from vm_map_ok[OF pager_infrastructure.files_work[OF assms(1)] reach_inv[OF assms(1-5)] ram_size[OF assms(2)] assms(6) b assms(7) u, of block]
  show ?thesis by (elim exE conjE, intro exI conjI) assumption+
qed

theorem map_refines_witness:
  "\<exists>s' vs. vm_map ram_pager None 0 (demo one_page) = Inr (Some 25769869312, s')
     \<and> arena ram_pager s' = (arena ram_pager (demo one_page))(1 \<mapsto> vs @ [Private (Some (\<lambda>_. CHR 0x00))])"
proof -
  obtain k where k: "process_info_mp (demo one_page) 1 = Some k" "next_invalid_page k = 1"
    using one_page_facts(9) by (cases "process_info_mp (demo one_page) 1") auto
  have l: "length vs = 1" if "arena ram_pager (demo one_page) 1 = Some vs" for vs
    using arena_length[OF k(1), of ram_pager] k(2) that by auto
  have f: "free_swap_blocks (demo one_page) \<noteq> []" using one_page_facts(8) by auto
  have "\<forall>a. None = Some a \<longrightarrow> a < (2::nat) ^ 64" by simp
  from map_refines[OF demo_setup reach_demo one_page_running this, of 0] l f show ?thesis
    by (auto simp: num_virt_addr VM_ARENA_BASEADDR_def VM_PAGESIZE_def)
qed

text \<open>
  C34: The end of a process removes its arena and gives all its swap blocks back, one for each of its pages
  that needs one; no other process and no file sees a change.
\<close>
theorem destroy_refines:
  assumes "pager_infrastructure E" and "1 < N" and "N \<le> 2 ^ 16" and "vm_init N n (start_pager mem d) = Inr s0"
    and "reach s0 (pager_step E) s" and "running s p"
  shows "\<exists>s'. vm_destroy s = Inr s' \<and> arena E s' = (arena E s)(p := None) \<and> files E s' = files E s
    \<and> length (free_swap_blocks s') = length (free_swap_blocks s) + swap_count s p"
  using vm_destroy_ok[OF reach_inv[OF assms(1-5)] assms(6)] by blast

theorem destroy_refines_witness:
  "\<exists>s'. vm_destroy (demo one_page) = Inr s' \<and> arena ram_pager s' = (arena ram_pager (demo one_page))(1 := None)
     \<and> length (free_swap_blocks s') = 4"
proof -
  obtain k where k: "process_info_mp (demo one_page) 1 = Some k" "num_swap_blocks k = 1"
    using one_page_facts(7) by (cases "process_info_mp (demo one_page) 1") auto
  have "swap_count (demo one_page) 1 = 1"
    using process_okD(4)[OF one_page_inv k(1)] k(2) by (simp add: ram_pager_def)
  then show ?thesis using destroy_refines[OF demo_setup reach_demo one_page_running] one_page_facts(8) by auto
qed

text \<open>
  C35: In every reachable state each page of physical memory but the pinned one is either free or holds
  exactly one block of the clock queue, and each block of the swap file is either free or reserved, once
  and for one block of memory: no page and no swap block is lost or used twice.
\<close>
theorem memory_accounted_for:
  assumes "pager_infrastructure E" and "1 < N" and "N \<le> 2 ^ 16" and "vm_init N n (start_pager mem d) = Inr s0"
    and "reach s0 (pager_step E) s"
  shows "distinct (free_mem_blocks s @ map (\<lambda>b. location (blocks s b)) (clock_queue s))
    \<and> set (free_mem_blocks s @ map (\<lambda>b. location (blocks s b)) (clock_queue s)) = {1..<N}
    \<and> distinct (free_swap_blocks s) \<and> (\<forall>b. distinct (swap_blocks (blocks s b)) \<and> set (swap_blocks (blocks s b)) \<inter> set (free_swap_blocks s) = {})
    \<and> (\<forall>b c. b \<noteq> c \<longrightarrow> set (swap_blocks (blocks s b)) \<inter> set (swap_blocks (blocks s c)) = {})
    \<and> set (free_swap_blocks s) \<union> (\<Union>b. set (swap_blocks (blocks s b))) = {..<n}"
proof -
  have O: "ok E \<lparr>ram_pages = N, swap_size = n\<rparr> None (loc_of s) s" using reach_inv[OF assms] by (simp add: pager_inv_def)
  note c = coreD[OF O[unfolded ok_def]]
  show ?thesis using c(2,4,11) unfolding mem_ok_def swap_ok_def swap_all_def by simp
qed

theorem memory_accounted_for_witness:
  "set (free_mem_blocks (demo written) @ map (\<lambda>b. location (blocks (demo written) b)) (clock_queue (demo written))) = {1..<3}
    \<and> set (free_swap_blocks (demo written)) \<union> (\<Union>b. set (swap_blocks (blocks (demo written) b))) = {..<4}"
  using memory_accounted_for[OF demo_setup reach_demo, of written] by blast

text \<open>
  C36: The clock stops after at most one turn, at the first block of the queue that is not referenced, or
  at the first block when all are referenced; the blocks before it go to the end of the queue.
\<close>
theorem clock_finds_first_unreferenced:
  assumes "pager_infrastructure E" and "1 < N" and "N \<le> 2 ^ 16" and "vm_init N n (start_pager mem d) = Inr s0"
    and "reach s0 (pager_step E) s" and "clock_queue s \<noteq> []"
  shows "\<exists>s'. second_chance s = Inr s' \<and> clock_queue s' =
    dropWhile (\<lambda>b. referenced (blocks s b)) (clock_queue s) @ takeWhile (\<lambda>b. referenced (blocks s b)) (clock_queue s)"
proof -
  have "ok E \<lparr>ram_pages = N, swap_size = n\<rparr> None (loc_of s) s" using reach_inv[OF assms(1-5)] by (simp add: pager_inv_def)
  from second_chance_queue[OF this assms(6)] show ?thesis .
qed

lemma written_queue: "clock_queue (demo written) \<noteq> []"
proof -
  obtain e where e: "pte_at (demo written) (1, 0) = Some e" "write_enable e" using written_facts(4) by blast
  obtain b where b: "loc_of (demo written) (1, 0) = Some b" "resident (blocks (demo written) b)"
    using entry_page[OF written_facts(2) e(1)] e(2) by blast
  have O: "ok ram_pager \<lparr>ram_pages = 3, swap_size = 4\<rparr> None (loc_of (demo written)) (demo written)" using written_facts(2) by (simp add: pager_inv_def)
  note c = coreD[OF O[unfolded ok_def]]
  have "b \<noteq> zero_page" using c(3) b(1) e by (auto simp: zero_ok_def)
  from queue_ok_in[OF c(5) this usersI[of "loc_of (demo written)", OF b(1)] b(2)] show ?thesis by auto
qed

theorem clock_finds_first_unreferenced_witness:
  "clock_queue (demo written) \<noteq> [] \<and> (\<exists>s'. second_chance (demo written) = Inr s')"
  using clock_finds_first_unreferenced[OF demo_setup reach_demo written_queue] written_queue by blast

text \<open>
  The address of a page and the page of an address are inverse to each other: every byte of the arena
  has the index of its page and its offset in the page.
\<close>
theorem address_round_trip:
  assumes "i < num_virt_addr" and "off < VM_PAGESIZE"
  shows "addr_to_index (index_to_addr i + off) = i \<and> calculate_page_offset (index_to_addr i + off) = off"
  using page_addr[OF assms] by blast

theorem address_round_trip_witness:
  "addr_to_index (index_to_addr 3 + 5) = 3 \<and> calculate_page_offset (index_to_addr 3 + 5) = 5"
  by (rule address_round_trip) (simp_all add: num_virt_addr VM_PAGESIZE_def)

text \<open>
  A process whose parent is not managed by the pager starts with whatever number its field
  \<^verbatim>\<open>num_swap_blocks\<close> happens to hold, since the constructor does not set it.  If that number is larger
  than the number of free swap blocks, the process cannot be forked although it has no page at all.
\<close>
theorem fork_fails_on_garbage:
  assumes "process_info_mp s parent = None" and "parent \<noteq> child" and "child \<noteq> grandchild"
    and "length (free_swap_blocks s) < garbage"
  shows "\<exists>s' s''. vm_create garbage parent child s = Inr (0, s') \<and> map_option next_invalid_page (process_info_mp s' child) = Some 0
    \<and> vm_create g child grandchild s' = Inr (- 1, s'')"
  using assms by (simp add: vm_create_def Let_def new_kernel_process_info_def)

theorem fork_fails_on_garbage_witness:
  "\<exists>s' s''. vm_create 7 0 1 boot = Inr (0, s') \<and> vm_create 0 1 2 s' = Inr (- 1, s'')"
proof -
  have "process_info_mp boot 0 = None" "length (free_swap_blocks boot) < 7"
    by (simp_all add: boot_def vm_init_def start_pager_def)
  from fork_fails_on_garbage[OF this(1) _ _ this(2), of 1 2 0] show ?thesis by auto
qed

text \<open>
  If the unset member happens to hold $2^{32} - 1$, the counter of the process wraps around to 0 with its
  first page.  With a swap file of one block, which that page takes, the check of \<^verbatim>\<open>vm_create\<close> lets the
  process be forked, and the copy of the page pops the empty queue of free swap blocks.
\<close>
theorem garbage_pops_empty_queue:
  "\<exists>s0 s1 s2. vm_init N 1 (start_pager mem d) = Inr s0 \<and> vm_create (2 ^ 32 - 1) 0 1 s0 = Inr (0, s1)
    \<and> vm_map E None 0 (vm_switch 1 s1) = Inr (Some VM_ARENA_BASEADDR, s2) \<and> vm_create g 1 2 s2 = Inl Undefined_behaviour"
  by (simp add: vm_init_def start_pager_def vm_create_def Let_def new_kernel_process_info_def vm_switch_def vm_map_def process_at_def
      map_swap_block_def base_register_def set_pte_def upd_pte_set_def set_page_info_def set_process_def front_def upd_block_def
      finish_map_def copy_virtual_page_def page_info_at_def deref_def num_virt_addr index_to_addr_def new_kernel_page_info_def
      new_mem_block_def zero_page_def)

end
