(* ===== verification/Pizza_Types.thy ===== *)
theory Pizza_Types
  imports Cpp_Lib "HOL-Library.Word"
begin

text \<open>
  The objects of the pizza delivery application (\<^verbatim>\<open>src/testapp\<close>): locations, customers and drivers with
  the methods of their classes.  A member that a constructor leaves uninitialised is \<open>None\<close>; reading it
  is undefined behaviour.  The calls of the pizza library (\<^verbatim>\<open>pizza.h\<close>) are events: the library reports
  them and changes nothing of the application.
\<close>

subsection \<open>Locations, states and events\<close>

datatype Status = Available | Unavailable | Finished

record location_t =
  loc_x :: "32 word"
  loc_y :: "32 word"

datatype pizza_event =
    Driver_ready nat location_t
  | Drive nat location_t location_t
  | Customer_ready nat location_t
  | Pay nat nat
  | Match nat nat

definition initialised :: "'a option \<Rightarrow> stop + 'a" where
  "initialised v = (case v of None \<Rightarrow> Inl Undefined_behaviour | Some x \<Rightarrow> Inr x)"

lemma initialised_Some [simp]: "initialised (Some x) = Inr x"
  by (simp add: initialised_def)

subsection \<open>Customers\<close>

record customer =
  c_id :: nat
  c_status :: Status
  c_location :: "location_t option"
  c_requests :: "location_t list"
  c_assigned_driver :: "nat option"
  c_has_pizza :: "bool option"
  c_matched :: bool

definition new_customer :: "nat \<Rightarrow> location_t list \<Rightarrow> customer" where
  "new_customer i requests =
     \<lparr>c_id = i, c_status = Unavailable, c_location = None, c_requests = requests,
      c_assigned_driver = None, c_has_pizza = None, c_matched = False\<rparr>"

text \<open>\<open>ready_up\<close> gives the customer and the events it reports.\<close>

definition customer_ready_up :: "customer \<Rightarrow> customer \<times> pizza_event list" where
  "customer_ready_up c =
     (case c_requests c of
        [] \<Rightarrow> (c\<lparr>c_status := Finished\<rparr>, [])
      | l # rest \<Rightarrow>
          (c\<lparr>c_has_pizza := Some False, c_matched := False, c_location := Some l, c_requests := rest,
             c_status := Available\<rparr>,
           [Customer_ready (c_id c) l]))"

definition customer_is_ready :: "customer \<Rightarrow> bool" where
  "customer_is_ready c \<longleftrightarrow> c_status c = Available"

definition is_done :: "customer \<Rightarrow> bool" where
  "is_done c \<longleftrightarrow> c_status c = Finished"

definition customer_get_location :: "customer \<Rightarrow> stop + location_t" where
  "customer_get_location c = initialised (c_location c)"

definition customer_set_unavailable :: "customer \<Rightarrow> customer" where
  "customer_set_unavailable c = c\<lparr>c_status := Unavailable\<rparr>"

definition receive_pizza :: "customer \<Rightarrow> customer" where
  "receive_pizza c = c\<lparr>c_has_pizza := Some True\<rparr>"

definition check_pizza :: "customer \<Rightarrow> stop + bool" where
  "check_pizza c = initialised (c_has_pizza c)"

definition set_driver :: "nat \<Rightarrow> customer \<Rightarrow> customer" where
  "set_driver driver_id c = c\<lparr>c_assigned_driver := Some driver_id, c_matched := True\<rparr>"

definition get_driver :: "customer \<Rightarrow> stop + nat" where
  "get_driver c = initialised (c_assigned_driver c)"

subsection \<open>Drivers\<close>

record driver =
  d_id :: nat
  d_status :: Status
  d_location :: location_t
  d_assigned_customer :: "nat option"
  d_paid :: bool
  d_matched :: bool

definition new_driver :: "nat \<Rightarrow> driver" where
  "new_driver i =
     \<lparr>d_id = i, d_status = Unavailable, d_location = \<lparr>loc_x = 0, loc_y = 0\<rparr>,
      d_assigned_customer = None, d_paid = False, d_matched = False\<rparr>"

definition driver_ready_up :: "driver \<Rightarrow> driver \<times> pizza_event list" where
  "driver_ready_up d =
     (d\<lparr>d_paid := False, d_matched := False, d_status := Available\<rparr>,
      [Driver_ready (d_id d) (d_location d)])"

text \<open>\<open>deliver_pizza\<close> and \<open>pay_driver\<close> change no object; they report one event.\<close>

definition deliver_pizza :: "customer \<Rightarrow> driver \<Rightarrow> stop + pizza_event list" where
  "deliver_pizza recipient d =
     bindr (customer_get_location recipient) (\<lambda>destination.
       Inr [Drive (d_id d) (d_location d) destination])"

definition pay_driver :: "driver \<Rightarrow> customer \<Rightarrow> pizza_event list" where
  "pay_driver delivery_driver c = [Pay (c_id c) (d_id delivery_driver)]"

definition driver_is_ready :: "driver \<Rightarrow> bool" where
  "driver_is_ready d \<longleftrightarrow> d_status d = Available"

definition driver_set_unavailable :: "driver \<Rightarrow> driver" where
  "driver_set_unavailable d = d\<lparr>d_status := Unavailable\<rparr>"

definition recieve_payment :: "driver \<Rightarrow> driver" where
  "recieve_payment d = d\<lparr>d_paid := True\<rparr>"

definition set_customer :: "nat \<Rightarrow> driver \<Rightarrow> driver" where
  "set_customer customer_id d = d\<lparr>d_assigned_customer := Some customer_id, d_matched := True\<rparr>"

definition get_customer :: "driver \<Rightarrow> stop + nat" where
  "get_customer d = initialised (d_assigned_customer d)"

definition set_location :: "location_t \<Rightarrow> driver \<Rightarrow> driver" where
  "set_location l d = d\<lparr>d_location := l\<rparr>"

lemmas customer_defs = customer_is_ready_def is_done_def customer_get_location_def
  customer_set_unavailable_def receive_pizza_def check_pizza_def set_driver_def get_driver_def pay_driver_def

lemmas driver_defs = driver_ready_up_def deliver_pizza_def driver_is_ready_def driver_set_unavailable_def
  recieve_payment_def set_customer_def get_customer_def set_location_def

end
