(* ===== verification/Pizza_Match.thy ===== *)
theory Pizza_Match
  imports Pizza_Types
begin

text \<open>
  The matching of customers and drivers (\<^verbatim>\<open>src/testapp/utils.cpp\<close>): the distance of two locations at the
  width of the C++ types, the search for the closest available pair, and the test that there is one.
  Shown here: on locations whose coordinates are below \<open>2 ^ 30\<close> the distance is the rectilinear one and
  the search finds the first of the closest available pairs.
\<close>

subsection \<open>Distances\<close>

text \<open>
  The differences are taken in \<^verbatim>\<open>unsigned int\<close> and stored in an \<^verbatim>\<open>int\<close> (modulo \<open>2 ^ 32\<close>); their sum is one of
  \<^verbatim>\<open>int\<close>s, where overflow is undefined, and is converted back.
\<close>

definition axis_dist :: "32 word \<Rightarrow> 32 word \<Rightarrow> int" where
  "axis_dist a b = (if a > b then sint (a - b) else sint (b - a))"

definition calc_dist :: "location_t \<Rightarrow> location_t \<Rightarrow> stop + 32 word" where
  "calc_dist start end' =
     (let x_dist = axis_dist (loc_x start) (loc_x end');
          y_dist = axis_dist (loc_y start) (loc_y end');
          sum = x_dist + y_dist
      in if - (2 ^ 31) \<le> sum \<and> sum < 2 ^ 31 then Inr (word_of_int sum) else Inl Undefined_behaviour)"

subsection \<open>Search for the closest pair\<close>

text \<open>
  The loops run over the objects with their places in the vectors; a pointer to an object is its place.
  The best distance so far comes with the best pair, which is null at first.
\<close>

abbreviation UINT_MAX :: "32 word" where
  "UINT_MAX \<equiv> 0xFFFFFFFF"

type_synonym best = "32 word \<times> (nat \<times> nat) option"

fun match_drivers :: "nat \<Rightarrow> customer \<Rightarrow> (nat \<times> driver) list \<Rightarrow> best \<Rightarrow> stop + best" where
  "match_drivers i recipient [] best = Inr best"
| "match_drivers i recipient ((j, delivery_driver) # ds) best =
     (if \<not> driver_is_ready delivery_driver then match_drivers i recipient ds best
      else bindr (customer_get_location recipient) (\<lambda>l.
           bindr (calc_dist l (d_location delivery_driver)) (\<lambda>curr_dist.
             match_drivers i recipient ds
               (if curr_dist < fst best then (curr_dist, Some (i, j)) else best))))"

fun match_customers :: "(nat \<times> customer) list \<Rightarrow> (nat \<times> driver) list \<Rightarrow> best \<Rightarrow> stop + best" where
  "match_customers [] ds best = Inr best"
| "match_customers ((i, recipient) # cs) ds best =
     (if \<not> customer_is_ready recipient then match_customers cs ds best
      else bindr (match_drivers i recipient ds best) (match_customers cs ds))"

text \<open>A null pointer is dereferenced when no pair was found.\<close>

definition match_delivery :: "customer list \<Rightarrow> driver list \<Rightarrow> stop + (nat \<times> nat) \<times> pizza_event list" where
  "match_delivery customers drivers =
     bindr (match_customers (enumerate 0 customers) (enumerate 0 drivers) (UINT_MAX, None)) (\<lambda>best.
       case snd best of
         None \<Rightarrow> Inl Undefined_behaviour
       | Some (i, j) \<Rightarrow> Inr ((i, j), [Match (c_id (customers ! i)) (d_id (drivers ! j))]))"

definition has_available_delivery :: "customer list \<Rightarrow> driver list \<Rightarrow> bool" where
  "has_available_delivery customers drivers =
     (let is_customer_available = foldl (\<lambda>b recipient. if customer_is_ready recipient then True else b) False customers;
          is_driver_available = foldl (\<lambda>b delivery_driver. if driver_is_ready delivery_driver then True else b) False drivers
      in is_customer_available \<and> is_driver_available)"

lemma foldl_any: "foldl (\<lambda>b x. if P x then True else b) b xs \<longleftrightarrow> b \<or> (\<exists>x \<in> set xs. P x)"
  by (induction xs arbitrary: b) auto

lemma has_available_delivery_iff:
  "has_available_delivery customers drivers \<longleftrightarrow>
     (\<exists>i < length customers. customer_is_ready (customers ! i)) \<and>
     (\<exists>j < length drivers. driver_is_ready (drivers ! j))"
  by (auto simp: has_available_delivery_def Let_def foldl_any Bex_def in_set_conv_nth)

subsection \<open>The distance is the rectilinear one\<close>

definition rect_dist :: "location_t \<Rightarrow> location_t \<Rightarrow> nat" where
  "rect_dist a b =
     nat \<bar>uint (loc_x a) - uint (loc_x b)\<bar> + nat \<bar>uint (loc_y a) - uint (loc_y b)\<bar>"

definition near :: "location_t \<Rightarrow> bool" where
  "near l \<longleftrightarrow> uint (loc_x l) < 2 ^ 30 \<and> uint (loc_y l) < 2 ^ 30"

lemma sint_diff:
  assumes "(b :: 32 word) \<le> a" and "uint a < 2 ^ 30"
  shows "sint (a - b) = uint a - uint b"
proof -
  have u: "uint (a - b) = uint a - uint b" using assms(1) uint_minus_simple_alt[of b a] by simp
  then have "uint (a - b) < 2 ^ 30" using assms(2) uint_ge_0[of b] by linarith
  then have "- (2 ^ 31) \<le> uint (a - b)" "uint (a - b) < 2 ^ 31"
    using order_trans[of "- (2 ^ 31)" 0 "uint (a - b)"] by simp_all
  then have "signed_take_bit 31 (uint (a - b)) = uint (a - b)" by (rule signed_take_bit_int_eq_self)
  then show ?thesis using u by (simp add: sint_uint)
qed

lemma axis_dist_near:
  assumes "uint a < 2 ^ 30" and "uint b < 2 ^ 30"
  shows "axis_dist a b = \<bar>uint a - uint b\<bar>"
proof (cases "a > b")
  case True
  then have le: "uint b \<le> uint a" "b \<le> a" by (simp_all add: word_less_def word_le_def)
  show ?thesis using True le(1) sint_diff[OF le(2) assms(1)] by (simp only: axis_dist_def if_True)
next
  case False
  then have le: "uint a \<le> uint b" "a \<le> b" by (simp_all add: word_le_def not_less)
  show ?thesis using False le(1) sint_diff[OF le(2) assms(2)] by (simp only: axis_dist_def if_False)
qed

lemma rect_dist_less:
  assumes "near a" and "near b"
  shows "rect_dist a b < 2 ^ 31"
proof -
  have d: "nat \<bar>x - y\<bar> < 2 ^ 30" if "0 \<le> x" "x < 2 ^ 30" "0 \<le> y" "y < 2 ^ 30" for x y :: int
    using that by auto
  have "nat \<bar>uint (loc_x a) - uint (loc_x b)\<bar> < 2 ^ 30" by (rule d) (use assms in \<open>simp_all add: near_def\<close>)
  moreover have "nat \<bar>uint (loc_y a) - uint (loc_y b)\<bar> < 2 ^ 30" by (rule d) (use assms in \<open>simp_all add: near_def\<close>)
  ultimately show ?thesis by (simp add: rect_dist_def)
qed

lemma calc_dist_near:
  assumes "near a" and "near b"
  shows "calc_dist a b = Inr (of_nat (rect_dist a b))"
proof -
  have "axis_dist (loc_x a) (loc_x b) + axis_dist (loc_y a) (loc_y b) = int (rect_dist a b)"
    using assms by (simp add: axis_dist_near near_def rect_dist_def)
  then show ?thesis using rect_dist_less[OF assms] by (simp add: calc_dist_def Let_def)
qed

subsection \<open>The search finds the first of the closest pairs\<close>

definition keep_best :: "best \<Rightarrow> 32 word \<times> nat \<times> nat \<Rightarrow> best" where
  "keep_best best x = (if fst x < fst best then (fst x, Some (snd x)) else best)"

lemma keep_best_pair [simp]:
  "fst x < m \<Longrightarrow> keep_best (m, p) x = (fst x, Some (snd x))"
  "\<not> fst x < m \<Longrightarrow> keep_best (m, p) x = (m, p)"
  by (simp_all add: keep_best_def)

text \<open>A scan that keeps the best candidate ends with the first of the best ones.\<close>

lemma scan_finds_first:
  assumes "foldl keep_best (m, p) xs = (m', p')"
  shows "(\<forall>x \<in> set xs. m' \<le> fst x) \<and>
    (m' = m \<and> p' = p \<or>
     (\<exists>ys x zs. xs = ys @ x # zs \<and> p' = Some (snd x) \<and> m' = fst x \<and> fst x < m \<and> (\<forall>y \<in> set ys. fst x < fst y)))"
  using assms
proof (induction xs arbitrary: m p)
  case (Cons a xs)
  show ?case
  proof (cases "fst a < m")
    case True
    then have "foldl keep_best (fst a, Some (snd a)) xs = (m', p')" using Cons.prems by simp
    note r = Cons.IH[OF this]
    show ?thesis
    proof (cases "m' = fst a \<and> p' = Some (snd a)")
      case t: True
      have "a # xs = [] @ a # xs" by simp
      then show ?thesis using r t True by fastforce
    next
      case False
      with r obtain ys x zs where x: "xs = ys @ x # zs" "p' = Some (snd x)" "m' = fst x" "fst x < fst a"
        "\<forall>y \<in> set ys. fst x < fst y" by blast
      then have "a # xs = (a # ys) @ x # zs" "\<forall>y \<in> set (a # ys). fst x < fst y" "fst x < m" using True by auto
      moreover have "\<forall>y \<in> set (a # xs). m' \<le> fst y" using r x(3,4) by auto
      ultimately show ?thesis using x(2,3) by blast
    qed
  next
    case False
    then have "foldl keep_best (m, p) xs = (m', p')" using Cons.prems by simp
    note r = Cons.IH[OF this]
    show ?thesis
    proof (cases "m' = m \<and> p' = p")
      case True
      then show ?thesis using r False by auto
    next
      case n: False
      with r obtain ys x zs where x: "xs = ys @ x # zs" "p' = Some (snd x)" "m' = fst x" "fst x < m"
        "\<forall>y \<in> set ys. fst x < fst y" by blast
      then have "a # xs = (a # ys) @ x # zs" "\<forall>y \<in> set (a # ys). fst x < fst y" using False by auto
      moreover have "\<forall>y \<in> set (a # xs). m' \<le> fst y" using r x(3,4) False by auto
      ultimately show ?thesis using x(2,3,4) by blast
    qed
  qed
qed simp

text \<open>The loops scan the available pairs with their distances, in the order of the vectors.\<close>

definition row :: "nat \<Rightarrow> location_t \<Rightarrow> (nat \<times> driver) list \<Rightarrow> (32 word \<times> nat \<times> nat) list" where
  "row i l ds =
     map (\<lambda>(j, d). (of_nat (rect_dist l (d_location d)), i, j)) (filter (\<lambda>(j, d). driver_is_ready d) ds)"

definition candidates :: "(nat \<times> customer) list \<Rightarrow> (nat \<times> driver) list \<Rightarrow> (32 word \<times> nat \<times> nat) list" where
  "candidates cs ds =
     concat (map (\<lambda>(i, c). row i (the (c_location c)) ds) (filter (\<lambda>(i, c). customer_is_ready c) cs))"

definition customer_near :: "customer \<Rightarrow> bool" where
  "customer_near c \<longleftrightarrow> (customer_is_ready c \<longrightarrow> (\<exists>l. c_location c = Some l \<and> near l))"

lemma match_drivers_scan:
  assumes "c_location c = Some l" and "near l" and "\<forall>(j, d) \<in> set ds. near (d_location d)"
  shows "match_drivers i c ds best = Inr (foldl keep_best best (row i l ds))"
  using assms
  by (induction ds arbitrary: best) (auto simp: row_def keep_best_def customer_get_location_def calc_dist_near)

lemma match_customers_scan:
  assumes "\<forall>(i, c) \<in> set cs. customer_near c" and "\<forall>(j, d) \<in> set ds. near (d_location d)"
  shows "match_customers cs ds best = Inr (foldl keep_best best (candidates cs ds))"
  using assms
proof (induction cs arbitrary: best)
  case (Cons ic cs)
  obtain i c where ic: "ic = (i, c)" by (cases ic)
  show ?case
  proof (cases "customer_is_ready c")
    case True
    then obtain l where l: "c_location c = Some l" "near l" using Cons.prems ic by (auto simp: customer_near_def)
    show ?thesis using Cons True ic match_drivers_scan[OF l Cons.prems(2)] l by (simp add: candidates_def)
  qed (use Cons ic in \<open>simp add: candidates_def\<close>)
qed (simp add: candidates_def)

definition before :: "32 word \<times> nat \<times> nat \<Rightarrow> 32 word \<times> nat \<times> nat \<Rightarrow> bool" where
  "before x y \<longleftrightarrow> (case (x, y) of ((_, i, j), (_, i', j')) \<Rightarrow> i < i' \<or> i = i' \<and> j < j')"

lemma in_row:
  "(x, i', j) \<in> set (row i l ds) \<longleftrightarrow>
     i' = i \<and> (\<exists>d. (j, d) \<in> set ds \<and> driver_is_ready d \<and> x = of_nat (rect_dist l (d_location d)))"
  by (auto simp: row_def)

lemma in_candidates:
  "(x, i, j) \<in> set (candidates cs ds) \<longleftrightarrow>
     (\<exists>c d. (i, c) \<in> set cs \<and> customer_is_ready c \<and> (j, d) \<in> set ds \<and> driver_is_ready d \<and>
        x = of_nat (rect_dist (the (c_location c)) (d_location d)))"
  by (auto simp: candidates_def in_row)

lemma sorted_row:
  assumes "sorted_wrt (\<lambda>a b. fst a < fst b) ds"
  shows "sorted_wrt before (row i l ds)"
  using assms by (induction ds) (auto simp: row_def before_def)

lemma sorted_candidates:
  assumes "sorted_wrt (\<lambda>a b. fst a < fst b) cs" and "sorted_wrt (\<lambda>a b. fst a < fst b) ds"
  shows "sorted_wrt before (candidates cs ds)"
  using assms(1)
proof (induction cs)
  case (Cons ic cs)
  obtain i c where ic: "ic = (i, c)" by (cases ic)
  have "before x y" if "x \<in> set (row i l ds)" "y \<in> set (candidates cs ds)" for x y l
  proof -
    obtain a b i' k d j' where x: "x = (a, i', k)" and y: "y = (b, d, j')" by (metis prod.exhaust)
    show ?thesis using that Cons.prems unfolding x y ic in_row in_candidates before_def by auto
  qed
  then show ?case using Cons sorted_row[OF assms(2)] ic
    by (auto simp: candidates_def sorted_wrt_append)
qed (simp add: candidates_def)

lemma sorted_enumerate: "sorted_wrt (\<lambda>a b. fst a < fst b) (enumerate n xs)"
  by (induction xs arbitrary: n) (auto simp: in_set_enumerate_eq)

text \<open>The pair that is found, on vectors with an available customer and an available driver.\<close>

definition pair_dist :: "customer list \<Rightarrow> driver list \<Rightarrow> nat \<Rightarrow> nat \<Rightarrow> nat" where
  "pair_dist cs ds i j = rect_dist (the (c_location (cs ! i))) (d_location (ds ! j))"

definition ready_pair :: "customer list \<Rightarrow> driver list \<Rightarrow> nat \<Rightarrow> nat \<Rightarrow> bool" where
  "ready_pair cs ds i j \<longleftrightarrow>
     i < length cs \<and> j < length ds \<and> customer_is_ready (cs ! i) \<and> driver_is_ready (ds ! j)"

lemma in_candidates_enumerate:
  "(x, i, j) \<in> set (candidates (enumerate 0 cs) (enumerate 0 ds)) \<longleftrightarrow>
     ready_pair cs ds i j \<and> x = of_nat (pair_dist cs ds i j)"
  by (auto simp: in_candidates in_set_enumerate_eq ready_pair_def pair_dist_def)

lemma of_nat_dist:
  assumes "m < 2 ^ 31" and "n < 2 ^ 31"
  shows "(of_nat m :: 32 word) < of_nat n \<longleftrightarrow> m < n" and "(of_nat m :: 32 word) \<le> of_nat n \<longleftrightarrow> m \<le> n"
    and "(of_nat m :: 32 word) < UINT_MAX"
  using assms by (simp_all add: word_less_nat_alt word_le_nat_alt unat_of_nat take_bit_nat_eq_self)

lemma match_delivery_closest:
  assumes "\<forall>c \<in> set cs. customer_near c" and "\<forall>d \<in> set ds. near (d_location d)"
    and "has_available_delivery cs ds"
  shows "\<exists>i j. match_delivery cs ds = Inr ((i, j), [Match (c_id (cs ! i)) (d_id (ds ! j))]) \<and>
    ready_pair cs ds i j \<and>
    (\<forall>i' j'. ready_pair cs ds i' j' \<longrightarrow>
       pair_dist cs ds i j < pair_dist cs ds i' j' \<or>
       pair_dist cs ds i j = pair_dist cs ds i' j' \<and> (i < i' \<or> i = i' \<and> j \<le> j'))"
proof -
  let ?xs = "candidates (enumerate 0 cs) (enumerate 0 ds)"
  obtain m p where mp: "foldl keep_best (UINT_MAX, None) ?xs = (m, p)" by fastforce
  have scan: "match_customers (enumerate 0 cs) (enumerate 0 ds) (UINT_MAX, None) = Inr (m, p)"
    using assms(1,2) mp by (subst match_customers_scan) (auto simp: in_set_enumerate_eq)
  have bound: "pair_dist cs ds i j < 2 ^ 31" if "ready_pair cs ds i j" for i j
  proof -
    have "cs ! i \<in> set cs" "ds ! j \<in> set ds" using that by (auto simp: ready_pair_def)
    then show ?thesis using that assms(1,2) rect_dist_less
      by (fastforce simp: ready_pair_def pair_dist_def customer_near_def)
  qed
  obtain i0 j0 where r0: "ready_pair cs ds i0 j0"
    using assms(3) by (auto simp: has_available_delivery_iff ready_pair_def)
  then have "(of_nat (pair_dist cs ds i0 j0), i0, j0) \<in> set ?xs" by (simp add: in_candidates_enumerate)
  then have "m \<noteq> UINT_MAX" using scan_finds_first[OF mp] of_nat_dist(3)[OF bound[OF r0] bound[OF r0]] by fastforce
  then obtain ys x zs where x: "?xs = ys @ x # zs" "p = Some (snd x)" "\<forall>y \<in> set ys. fst x < fst y"
    "\<forall>y \<in> set ?xs. fst x \<le> fst y" using scan_finds_first[OF mp] by auto
  obtain e i j where e: "x = (e, i, j)" by (metis prod.exhaust)
  then have "(e, i, j) \<in> set ?xs" using x(1) by simp
  then have r: "ready_pair cs ds i j" and ee: "e = of_nat (pair_dist cs ds i j)" by (simp_all add: in_candidates_enumerate)
  have "match_delivery cs ds = Inr ((i, j), [Match (c_id (cs ! i)) (d_id (ds ! j))])"
    using scan x(2) e by (simp add: match_delivery_def)
  moreover have "pair_dist cs ds i j < pair_dist cs ds i' j' \<or>
       pair_dist cs ds i j = pair_dist cs ds i' j' \<and> (i < i' \<or> i = i' \<and> j \<le> j')"
    if r': "ready_pair cs ds i' j'" for i' j'
  proof -
    note cmp = of_nat_dist[OF bound[OF r] bound[OF r']]
    have in': "(of_nat (pair_dist cs ds i' j'), i', j') \<in> set ?xs" (is "?y \<in> _")
      using r' by (simp add: in_candidates_enumerate)
    then consider "?y \<in> set ys" | "?y = x" | "?y \<in> set zs" unfolding x(1) by auto
    then show ?thesis
    proof cases
      case 1
      then show ?thesis using x(3) e ee cmp(1) by fastforce
    next
      case 2
      then show ?thesis using e by simp
    next
      case 3
      have "sorted_wrt before (ys @ x # zs)"
        using sorted_candidates[OF sorted_enumerate sorted_enumerate] x(1) by metis
      then have "before x ?y" using 3 by (simp add: sorted_wrt_append)
      moreover have "pair_dist cs ds i j \<le> pair_dist cs ds i' j'" using x(4) in' e ee cmp(2) by fastforce
      ultimately show ?thesis unfolding e before_def by auto
    qed
  qed
  ultimately show ?thesis using r by blast
qed

end
