(* ===== verification/Pizza_Input.thy ===== *)
theory Pizza_Input
  imports Pizza_Types
begin

text \<open>
  The input of the pizza application (\<^verbatim>\<open>src/testapp/utils.cpp\<close>): the command line and the files with the
  requests of the customers, and the formatted input of the C++ library that reads them.  The files are a
  parameter: the contents of a file by its name, \<open>None\<close> for a file that cannot be opened.
\<close>

subsection \<open>Integers of the C++ library\<close>

datatype conversion_error = Invalid_argument string | Out_of_range string

text \<open>\<^verbatim>\<open>std::stoi\<close>: what follows the digits is ignored.\<close>

definition stoi :: "string \<Rightarrow> conversion_error + int" where
  "stoi s =
     (case scan_integer s of (neg, ds, _) \<Rightarrow>
        let v = (if neg then - int (decimal_value ds) else int (decimal_value ds))
        in if ds = [] then Inl (Invalid_argument ''stoi'')
           else if v < - (2 ^ 31) \<or> 2 ^ 31 \<le> v then Inl (Out_of_range ''stoi'')
           else Inr v)"

text \<open>
  \<^verbatim>\<open>stream >> x\<close> with \<^verbatim>\<open>unsigned int x\<close>: \<open>None\<close> when the extraction fails, for lack of digits or because the
  number is too large; a minus sign negates modulo \<open>2 ^ 32\<close>.
\<close>

definition extract_unsigned :: "string \<Rightarrow> (32 word \<times> string) option" where
  "extract_unsigned s =
     (case scan_integer s of (neg, ds, rest) \<Rightarrow>
        let v = decimal_value ds
        in if ds = [] \<or> 2 ^ 32 \<le> v then None
           else Some (if neg then - of_nat v else of_nat v, rest))"

lemma extract_unsigned_length: "extract_unsigned s = Some (x, r) \<Longrightarrow> length r < length s"
  by (auto simp: extract_unsigned_def Let_def split: prod.splits if_splits dest: scan_integer_length)

subsection \<open>Requests of a customer\<close>

function read_requests :: "string \<Rightarrow> location_t list" where
  "read_requests s =
     (case extract_unsigned s of
        None \<Rightarrow> []
      | Some (x_pos, r) \<Rightarrow>
          (case extract_unsigned r of
             None \<Rightarrow> []
           | Some (y_pos, r') \<Rightarrow> \<lparr>loc_x = x_pos, loc_y = y_pos\<rparr> # read_requests r'))"
  by pat_completeness auto
termination
  by (relation "measure length") (auto dest!: extract_unsigned_length)

declare read_requests.simps [simp del]

text \<open>How the program can end before its threads run: by \<^verbatim>\<open>exit(1)\<close>, or by an exception that nobody catches.\<close>

datatype program_end = Exit_1 string | Terminated conversion_error

definition create_requests :: "(string \<Rightarrow> string option) \<Rightarrow> string \<Rightarrow> program_end + location_t list" where
  "create_requests files requests_file_name =
     (case files requests_file_name of
        None \<Rightarrow> Inl (Exit_1 (''Error: Could not open file '' @ requests_file_name))
      | Some contents \<Rightarrow> Inr (read_requests contents))"

subsection \<open>Command line\<close>

definition load_input :: "string list \<Rightarrow> program_end + int \<times> int" where
  "load_input argv =
     (let argc = int (length argv);
          result =
            (if argc < 2
             then Inl (Invalid_argument ''Not enough arguments. Usage: ./program <numDrivers> <customerInput...>'')
             else case stoi (argv ! 1) of
               Inl e \<Rightarrow> Inl e
             | Inr num_drivers \<Rightarrow>
                 let num_customers = argc - 2
                 in if num_customers \<le> 0 \<or> num_drivers \<le> 0
                    then Inl (Invalid_argument ''Number of drivers and customers must be a positive number'')
                    else Inr (num_drivers, num_customers))
      in case result of
           Inl (Invalid_argument what) \<Rightarrow> Inl (Exit_1 (''Error: '' @ what))
         | Inl (Out_of_range what) \<Rightarrow> Inl (Terminated (Out_of_range what))
         | Inr counts \<Rightarrow> Inr counts)"

subsection \<open>Round trips\<close>

text \<open>A request file as it is meant: two numbers in a line.\<close>

definition print_request :: "location_t \<Rightarrow> string" where
  "print_request l = decimal (unat (loc_x l)) @ '' '' @ decimal (unat (loc_y l)) @ [CHR 0x0A]"

lemma isspace_newline [simp]: "isspace (CHR 0x0A)" "isspace (CHR '' '')"
  by (simp_all add: isspace_def)

lemma not_digit_space [simp]: "\<not> isdigit (CHR 0x0A)" "\<not> isdigit (CHR '' '')"
  by (simp_all add: isdigit_def)

lemma extract_decimal:
  assumes "n < 2 ^ 32" and "r = [] \<or> \<not> isdigit (hd r)"
  shows "extract_unsigned (decimal n @ r) = Some (of_nat n, r)"
  using assms by (simp add: extract_unsigned_def scan_decimal)

lemma extract_space: "isspace c \<Longrightarrow> extract_unsigned (c # s) = extract_unsigned s"
  by (simp add: extract_unsigned_def scan_integer_space)

lemma read_requests_space: "isspace c \<Longrightarrow> read_requests (c # s) = read_requests s"
  by (simp add: read_requests.simps [of "c # s"] read_requests.simps [of s] extract_space)

lemma read_requests_print:
  "read_requests (print_request l @ s) = l # read_requests s"
proof -
  have b: "unat (loc_x l) < 2 ^ 32" "unat (loc_y l) < 2 ^ 32"
    using unsigned_less[where 'a = nat, of "loc_x l"] unsigned_less[where 'a = nat, of "loc_y l"] by simp_all
  have e: "extract_unsigned (print_request l @ s) = Some (loc_x l, '' '' @ decimal (unat (loc_y l)) @ CHR 0x0A # s)"
    using extract_decimal[OF b(1)] by (simp add: print_request_def)
  moreover have "extract_unsigned ('' '' @ decimal (unat (loc_y l)) @ CHR 0x0A # s) = Some (loc_y l, CHR 0x0A # s)"
    using extract_decimal[OF b(2), of "CHR 0x0A # s"] by (simp add: extract_space)
  ultimately show ?thesis
    by (subst read_requests.simps) (simp add: read_requests_space)
qed

lemma read_requests_file: "read_requests (concat (map print_request ls)) = ls"
proof (induction ls)
  case Nil
  show ?case by (simp add: read_requests.simps extract_unsigned_def scan_integer_def)
qed (simp add: read_requests_print)

lemma stoi_decimal: "n < 2 ^ 31 \<Longrightarrow> stoi (decimal n) = Inr (int n)"
  using scan_decimal[of "[]" n] by (simp add: stoi_def)

end
