(* ===== verification/Pizza_System.thy ===== *)
theory Pizza_System
  imports Pizza_Match Pizza_Input Transition
begin

text \<open>
  The threads of the pizza application (\<^verbatim>\<open>src/testapp/main.cpp\<close>): one per driver, one per customer and the
  manager.  \<^verbatim>\<open>main\<close> boots one CPU without timer interrupts, so a thread runs until it blocks in
  \<^verbatim>\<open>mutex::lock\<close> or \<^verbatim>\<open>cv::wait\<close>, or inside the library call \<^verbatim>\<open>drive\<close>.  The state has the global variables of the
  file, the place where each thread continues, and the events that were reported.  One step of the system
  is one stretch of a thread between two such places; threads may take turns in any order.  A lock that
  is kept across the end of a stretch is in the state (\<open>pizza_lock\<close>).
\<close>

subsection \<open>State\<close>

datatype pizza_thread = Manager | Driver nat | Customer nat

text \<open>
  Where a driver continues: at the start, at the loop that waits for a match, before the delivery, after
  it, and at the loop that waits for the payment.  A place behind the match has the value of the local
  variable \<^verbatim>\<open>customer_id\<close>.
\<close>

datatype driver_place = D_start | D_match | D_deliver nat | D_arrived nat | D_paid nat

text \<open>
  Where a customer continues: at the start, before the lock, at the outer loop with the lock held, inside
  the wait of the inner loop, or nowhere.
\<close>

datatype customer_place = C_start | C_lock | C_outer | C_wait | C_exit

record pizza_state =
  customers :: "customer list"
  drivers :: "driver list"
  customer_cv :: "pizza_thread list list"
  driver_cv :: "pizza_thread list list"
  manager_cv :: "pizza_thread list"
  pizza_lock :: "pizza_thread option"
  customer_at :: "customer_place list"
  driver_at :: "driver_place list"
  reported :: "pizza_event list"

type_synonym 'a pizza = "(pizza_state, 'a) prog"

subsection \<open>Objects, lock and condition variables\<close>

definition the_customer :: "nat \<Rightarrow> customer pizza" where
  "the_customer i = bindp (gets customers) (\<lambda>cs. lift (arr_get cs i))"

definition the_driver :: "nat \<Rightarrow> driver pizza" where
  "the_driver j = bindp (gets drivers) (\<lambda>ds. lift (arr_get ds j))"

definition change_customer :: "nat \<Rightarrow> (customer \<Rightarrow> customer) \<Rightarrow> unit pizza" where
  "change_customer i f =
     bindp (the_customer i) (\<lambda>c. modify (\<lambda>s. s\<lparr>customers := (customers s)[i := f c]\<rparr>))"

definition change_driver :: "nat \<Rightarrow> (driver \<Rightarrow> driver) \<Rightarrow> unit pizza" where
  "change_driver j f =
     bindp (the_driver j) (\<lambda>d. modify (\<lambda>s. s\<lparr>drivers := (drivers s)[j := f d]\<rparr>))"

definition report :: "pizza_event list \<Rightarrow> unit pizza" where
  "report evs = modify (\<lambda>s. s\<lparr>reported := reported s @ evs\<rparr>)"

definition lock :: "pizza_thread \<Rightarrow> unit pizza" where
  "lock t = bindp (gets pizza_lock) (\<lambda>l.
     if l = None then modify (\<lambda>s. s\<lparr>pizza_lock := Some t\<rparr>) else halt Blocked)"

definition unlock :: "pizza_thread \<Rightarrow> unit pizza" where
  "unlock t = bindp (gets pizza_lock) (\<lambda>l.
     if l = Some t then modify (\<lambda>s. s\<lparr>pizza_lock := None\<rparr>)
     else halt (Runtime_error ''mutex::unlock called without holding the lock''))"

text \<open>A wait queues the thread and releases the lock; a signal takes the first thread off the queue.\<close>

definition wait_customer_cv :: "nat \<Rightarrow> pizza_thread \<Rightarrow> unit pizza" where
  "wait_customer_cv i t = seqp (unlock t) (bindp (gets customer_cv) (\<lambda>qs. bindp (lift (arr_get qs i)) (\<lambda>q.
     modify (\<lambda>s. s\<lparr>customer_cv := (customer_cv s)[i := q @ [t]]\<rparr>))))"

definition wait_driver_cv :: "nat \<Rightarrow> pizza_thread \<Rightarrow> unit pizza" where
  "wait_driver_cv j t = seqp (unlock t) (bindp (gets driver_cv) (\<lambda>qs. bindp (lift (arr_get qs j)) (\<lambda>q.
     modify (\<lambda>s. s\<lparr>driver_cv := (driver_cv s)[j := q @ [t]]\<rparr>))))"

definition wait_manager_cv :: "pizza_thread \<Rightarrow> unit pizza" where
  "wait_manager_cv t = seqp (unlock t) (modify (\<lambda>s. s\<lparr>manager_cv := manager_cv s @ [t]\<rparr>))"

definition signal_customer_cv :: "nat \<Rightarrow> unit pizza" where
  "signal_customer_cv i = bindp (gets customer_cv) (\<lambda>qs. bindp (lift (arr_get qs i)) (\<lambda>q.
     modify (\<lambda>s. s\<lparr>customer_cv := (customer_cv s)[i := tl q]\<rparr>)))"

definition signal_driver_cv :: "nat \<Rightarrow> unit pizza" where
  "signal_driver_cv j = bindp (gets driver_cv) (\<lambda>qs. bindp (lift (arr_get qs j)) (\<lambda>q.
     modify (\<lambda>s. s\<lparr>driver_cv := (driver_cv s)[j := tl q]\<rparr>)))"

definition signal_manager_cv :: "unit pizza" where
  "signal_manager_cv = modify (\<lambda>s. s\<lparr>manager_cv := tl (manager_cv s)\<rparr>)"

definition driver_goes :: "nat \<Rightarrow> driver_place \<Rightarrow> unit pizza" where
  "driver_goes j p = modify (\<lambda>s. s\<lparr>driver_at := (driver_at s)[j := p]\<rparr>)"

definition customer_goes :: "nat \<Rightarrow> customer_place \<Rightarrow> unit pizza" where
  "customer_goes i p = modify (\<lambda>s. s\<lparr>customer_at := (customer_at s)[i := p]\<rparr>)"

subsection \<open>Drivers: run\_driver\<close>

text \<open>\<open>ready_up\<close> of a driver and of a customer, with the events they report.\<close>

definition driver_readies :: "nat \<Rightarrow> unit pizza" where
  "driver_readies j = bindp (the_driver j) (\<lambda>d.
     seqp (report (snd (driver_ready_up d))) (change_driver j (\<lambda>_. fst (driver_ready_up d))))"

definition driver_begin :: "nat \<Rightarrow> unit pizza" where
  "driver_begin j = seqp (driver_readies j) (seqp signal_manager_cv (driver_goes j D_match))"

definition driver_match :: "nat \<Rightarrow> unit pizza" where
  "driver_match j =
     seqp (lock (Driver j)) (bindp (the_driver j) (\<lambda>delivery_driver.
       if \<not> d_matched delivery_driver then wait_driver_cv (d_id delivery_driver) (Driver j)
       else bindp (lift (get_customer delivery_driver)) (\<lambda>customer_id.
            bindp (the_customer customer_id) (\<lambda>recipient.
            seqp (unlock (Driver j)) (driver_goes j (D_deliver customer_id))))))"

definition driver_deliver :: "nat \<Rightarrow> nat \<Rightarrow> unit pizza" where
  "driver_deliver j customer_id =
     bindp (the_customer customer_id) (\<lambda>recipient. bindp (the_driver j) (\<lambda>delivery_driver.
     bindp (lift (deliver_pizza recipient delivery_driver)) (\<lambda>evs.
     seqp (report evs) (driver_goes j (D_arrived customer_id)))))"

text \<open>The loop that waits for the payment, with the lock held, and what follows it.\<close>

definition driver_payment :: "nat \<Rightarrow> nat \<Rightarrow> unit pizza" where
  "driver_payment j customer_id =
     bindp (the_driver j) (\<lambda>delivery_driver.
       if \<not> d_paid delivery_driver
       then seqp (wait_driver_cv (d_id delivery_driver) (Driver j)) (driver_goes j (D_paid customer_id))
       else seqp (driver_readies j) (seqp signal_manager_cv (seqp (unlock (Driver j)) (driver_goes j D_match))))"

definition driver_arrive :: "nat \<Rightarrow> nat \<Rightarrow> unit pizza" where
  "driver_arrive j customer_id =
     seqp (lock (Driver j)) (bindp (the_customer customer_id) (\<lambda>recipient.
     bindp (lift (customer_get_location recipient)) (\<lambda>l.
     seqp (change_driver j (set_location l))
     (seqp (change_customer customer_id receive_pizza)
     (seqp (signal_customer_cv customer_id) (driver_payment j customer_id))))))"

definition driver_woken :: "nat \<Rightarrow> nat \<Rightarrow> unit pizza" where
  "driver_woken j customer_id = seqp (lock (Driver j)) (driver_payment j customer_id)"

subsection \<open>Customers: run\_customer\<close>

definition customer_readies :: "nat \<Rightarrow> unit pizza" where
  "customer_readies i = bindp (the_customer i) (\<lambda>c.
     seqp (report (snd (customer_ready_up c))) (change_customer i (\<lambda>_. fst (customer_ready_up c))))"

definition customer_begin :: "nat \<Rightarrow> unit pizza" where
  "customer_begin i = seqp (customer_readies i) (seqp signal_manager_cv (customer_goes i C_lock))"

text \<open>The test of the inner loop, with the lock held; behind the loop the body of the outer one.\<close>

definition customer_inner :: "nat \<Rightarrow> unit pizza" where
  "customer_inner i =
     bindp (the_customer i) (\<lambda>recipient. bindp (lift (check_pizza recipient)) (\<lambda>has_pizza.
       if \<not> has_pizza \<or> \<not> c_matched recipient
       then seqp (wait_customer_cv (c_id recipient) (Customer i)) (customer_goes i C_wait)
       else bindp (lift (get_driver recipient)) (\<lambda>driver_id.
            bindp (the_driver driver_id) (\<lambda>delivery_driver.
            seqp (report (pay_driver delivery_driver recipient))
            (seqp (change_driver driver_id recieve_payment)
            (seqp (signal_driver_cv driver_id)
            (seqp (customer_readies i)
            (seqp signal_manager_cv (customer_goes i C_outer)))))))))"

definition customer_outer :: "nat \<Rightarrow> unit pizza" where
  "customer_outer i =
     bindp (the_customer i) (\<lambda>recipient.
       if is_done recipient then seqp (unlock (Customer i)) (customer_goes i C_exit)
       else customer_inner i)"

definition customer_locks :: "nat \<Rightarrow> unit pizza" where
  "customer_locks i = seqp (lock (Customer i)) (customer_outer i)"

definition customer_woken :: "nat \<Rightarrow> unit pizza" where
  "customer_woken i = seqp (lock (Customer i)) (customer_inner i)"

subsection \<open>Manager: the loop of run\_pizza\_manager\<close>

definition manager_turn :: "unit pizza" where
  "manager_turn =
     seqp (lock Manager) (bindp (gets customers) (\<lambda>cs. bindp (gets drivers) (\<lambda>ds.
       if \<not> has_available_delivery cs ds then wait_manager_cv Manager
       else bindp (lift (match_delivery cs ds)) (\<lambda>((i, j), evs).
            seqp (report evs)
            (seqp (change_driver j driver_set_unavailable)
            (seqp (change_customer i customer_set_unavailable)
            (bindp (the_customer i) (\<lambda>pizza_recipient. bindp (the_driver j) (\<lambda>pizza_deliverer.
             let customer_id = c_id pizza_recipient; driver_id = d_id pizza_deliverer
             in seqp (change_driver j (set_customer customer_id))
                (seqp (change_customer i (set_driver driver_id))
                (seqp (signal_driver_cv driver_id)
                (seqp (signal_customer_cv customer_id) (unlock Manager)))))))))))))"

subsection \<open>Start: the first half of run\_pizza\_manager\<close>

fun create_customers :: "(string \<Rightarrow> string option) \<Rightarrow> nat \<Rightarrow> string list \<Rightarrow> program_end + customer list" where
  "create_customers files i [] = Inr []"
| "create_customers files i (name # names) =
     (case create_requests files name of
        Inl e \<Rightarrow> Inl e
      | Inr requests \<Rightarrow>
          (case create_customers files (i + 1) names of
             Inl e \<Rightarrow> Inl e
           | Inr cs \<Rightarrow> Inr (new_customer i requests # cs)))"

definition initial_state :: "nat \<Rightarrow> customer list \<Rightarrow> pizza_state" where
  "initial_state num_drivers cs =
     \<lparr>customers = cs, drivers = map new_driver [0..<num_drivers],
      customer_cv = replicate (length cs) [], driver_cv = replicate num_drivers [], manager_cv = [],
      pizza_lock = None, customer_at = replicate (length cs) C_start,
      driver_at = replicate num_drivers D_start, reported = []\<rparr>"

definition start_pizza :: "(string \<Rightarrow> string option) \<Rightarrow> string list \<Rightarrow> program_end + pizza_state" where
  "start_pizza files argv =
     (case load_input argv of
        Inl e \<Rightarrow> Inl e
      | Inr (num_drivers, num_customers) \<Rightarrow>
          (case create_customers files 0 (drop 2 argv) of
             Inl e \<Rightarrow> Inl e
           | Inr cs \<Rightarrow> Inr (initial_state (nat num_drivers) cs)))"

subsection \<open>Steps\<close>

definition turn :: "pizza_thread \<Rightarrow> unit pizza" where
  "turn t = (case t of
     Manager \<Rightarrow> manager_turn
   | Driver j \<Rightarrow> bindp (gets driver_at) (\<lambda>ps.
       if j < length ps then
         (case ps ! j of
            D_start \<Rightarrow> driver_begin j
          | D_match \<Rightarrow> driver_match j
          | D_deliver i \<Rightarrow> driver_deliver j i
          | D_arrived i \<Rightarrow> driver_arrive j i
          | D_paid i \<Rightarrow> driver_woken j i)
       else halt Blocked)
   | Customer i \<Rightarrow> bindp (gets customer_at) (\<lambda>ps.
       if i < length ps then
         (case ps ! i of
            C_start \<Rightarrow> customer_begin i
          | C_lock \<Rightarrow> customer_locks i
          | C_outer \<Rightarrow> customer_outer i
          | C_wait \<Rightarrow> customer_woken i
          | C_exit \<Rightarrow> halt Blocked)
       else halt Blocked))"

definition waits :: "pizza_thread \<Rightarrow> pizza_state \<Rightarrow> bool" where
  "waits t s \<longleftrightarrow>
     t \<in> set (manager_cv s) \<or> t \<in> set (concat (driver_cv s)) \<or> t \<in> set (concat (customer_cv s))"

text \<open>A thread can run when it waits for no signal and does not block at once on the lock.\<close>

definition can_run :: "pizza_thread \<Rightarrow> pizza_state \<Rightarrow> bool" where
  "can_run t s \<longleftrightarrow> \<not> waits t s \<and> fst (turn t s) \<noteq> Inl Blocked"

inductive pizza_step :: "pizza_state \<Rightarrow> pizza_thread \<Rightarrow> pizza_state \<Rightarrow> bool" where
  pizza_turn: "can_run t s \<Longrightarrow> turn t s = (Inr (), s') \<Longrightarrow> pizza_step s t s'"

inductive_cases pizza_stepE: "pizza_step s t s'"

text \<open>The run of a schedule: the threads that take the turns, one after the other.\<close>

fun run_schedule :: "pizza_thread list \<Rightarrow> unit pizza" where
  "run_schedule [] s = (Inr (), s)"
| "run_schedule (t # ts) s =
     (if can_run t s then bindp (turn t) (\<lambda>_. run_schedule ts) s else (Inl Blocked, s))"

end
