(* ===== verification/Pizza_View.thy ===== *)
theory Pizza_View
  imports Pizza_System
begin

text \<open>
  The turns of the threads, seen cell by cell: a cell is a customer or a driver with the place of its
  thread and the queue of its condition variable.  Every turn completes and changes at most the cells of
  one customer and one driver, the queue of the manager, the lock and the events.
\<close>

type_synonym customer_cell = "customer \<times> customer_place \<times> pizza_thread list"
type_synonym driver_cell = "driver \<times> driver_place \<times> pizza_thread list"
type_synonym view =
  "(nat \<Rightarrow> customer_cell) \<times> (nat \<Rightarrow> driver_cell) \<times> pizza_thread option \<times> pizza_thread list \<times> pizza_event list"

definition ccell :: "pizza_state \<Rightarrow> nat \<Rightarrow> customer_cell" where
  "ccell s i = (customers s ! i, customer_at s ! i, customer_cv s ! i)"

definition dcell :: "pizza_state \<Rightarrow> nat \<Rightarrow> driver_cell" where
  "dcell s j = (drivers s ! j, driver_at s ! j, driver_cv s ! j)"

definition view :: "pizza_state \<Rightarrow> view" where
  "view s = (ccell s, dcell s, pizza_lock s, manager_cv s, reported s)"

definition shape :: "nat \<Rightarrow> nat \<Rightarrow> pizza_state \<Rightarrow> bool" where
  "shape m n s \<longleftrightarrow>
     length (customers s) = m \<and> length (customer_at s) = m \<and> length (customer_cv s) = m \<and>
     length (drivers s) = n \<and> length (driver_at s) = n \<and> length (driver_cv s) = n"

definition moves :: "nat \<Rightarrow> nat \<Rightarrow> unit pizza \<Rightarrow> pizza_state \<Rightarrow> view \<Rightarrow> bool" where
  "moves m n p s v \<longleftrightarrow> (\<exists>s'. p s = (Inr (), s') \<and> shape m n s' \<and> view s' = v)"

lemmas pizza_op_defs = the_customer_def the_driver_def change_customer_def change_driver_def report_def
  lock_def unlock_def wait_customer_cv_def wait_driver_cv_def wait_manager_cv_def
  signal_customer_cv_def signal_driver_cv_def signal_manager_cv_def driver_goes_def customer_goes_def
  driver_readies_def customer_readies_def

lemmas view_defs = view_def ccell_def dcell_def shape_def moves_def fun_eq_iff

subsection \<open>Drivers\<close>

lemma driver_begin_moves:
  assumes "shape m n s" and "j < n" and "dcell s j = (D, p, q)"
  shows "moves m n (driver_begin j) s
    (ccell s, (dcell s)(j := (fst (driver_ready_up D), D_match, q)), pizza_lock s, tl (manager_cv s),
     reported s @ snd (driver_ready_up D))"
  using assms by (auto simp: driver_begin_def pizza_op_defs prog_simps view_defs nth_list_update)

lemma driver_match_waits:
  assumes "shape m n s" and "j < n" and "dcell s j = (D, p, q)" and "pizza_lock s = None"
    and "\<not> d_matched D" and "d_id D = j"
  shows "moves m n (driver_match j) s
    (ccell s, (dcell s)(j := (D, p, q @ [Driver j])), None, manager_cv s, reported s)"
  using assms by (auto simp: driver_match_def pizza_op_defs prog_simps view_defs nth_list_update)

lemma driver_match_goes:
  assumes "shape m n s" and "j < n" and "dcell s j = (D, p, q)" and "pizza_lock s = None"
    and "d_matched D" and "d_assigned_customer D = Some i" and "i < m"
  shows "moves m n (driver_match j) s
    (ccell s, (dcell s)(j := (D, D_deliver i, q)), None, manager_cv s, reported s)"
  using assms by (auto simp: driver_match_def get_customer_def pizza_op_defs prog_simps view_defs nth_list_update)

lemma driver_deliver_moves:
  assumes "shape m n s" and "j < n" and "dcell s j = (D, p, q)" and "i < m" and "ccell s i = (C, p', q')"
    and "c_location C = Some l"
  shows "moves m n (driver_deliver j i) s
    (ccell s, (dcell s)(j := (D, D_arrived i, q)), pizza_lock s, manager_cv s,
     reported s @ [Drive (d_id D) (d_location D) l])"
  using assms
  by (auto simp: driver_deliver_def deliver_pizza_def customer_get_location_def pizza_op_defs prog_simps view_defs nth_list_update)

lemma driver_arrive_moves:
  assumes "shape m n s" and "j < n" and "dcell s j = (D, p, q)" and "i < m" and "ccell s i = (C, p', q')"
    and "c_location C = Some l" and "pizza_lock s = None" and "\<not> d_paid D" and "d_id D = j"
  shows "moves m n (driver_arrive j i) s
    ((ccell s)(i := (receive_pizza C, p', tl q')), (dcell s)(j := (set_location l D, D_paid i, q @ [Driver j])),
     None, manager_cv s, reported s)"
  using assms
  by (auto simp: driver_arrive_def driver_payment_def customer_get_location_def set_location_def
      pizza_op_defs prog_simps view_defs nth_list_update)

lemma driver_woken_waits:
  assumes "shape m n s" and "j < n" and "dcell s j = (D, p, q)" and "pizza_lock s = None"
    and "\<not> d_paid D" and "d_id D = j"
  shows "moves m n (driver_woken j i) s
    (ccell s, (dcell s)(j := (D, D_paid i, q @ [Driver j])), None, manager_cv s, reported s)"
  using assms by (auto simp: driver_woken_def driver_payment_def pizza_op_defs prog_simps view_defs nth_list_update)

lemma driver_woken_goes:
  assumes "shape m n s" and "j < n" and "dcell s j = (D, p, q)" and "pizza_lock s = None" and "d_paid D"
  shows "moves m n (driver_woken j i) s
    (ccell s, (dcell s)(j := (fst (driver_ready_up D), D_match, q)), None, tl (manager_cv s),
     reported s @ snd (driver_ready_up D))"
  using assms by (auto simp: driver_woken_def driver_payment_def pizza_op_defs prog_simps view_defs nth_list_update)

subsection \<open>Customers\<close>

lemma customer_begin_moves:
  assumes "shape m n s" and "i < m" and "ccell s i = (C, p, q)"
  shows "moves m n (customer_begin i) s
    ((ccell s)(i := (fst (customer_ready_up C), C_lock, q)), dcell s, pizza_lock s, tl (manager_cv s),
     reported s @ snd (customer_ready_up C))"
  using assms by (auto simp: customer_begin_def pizza_op_defs prog_simps view_defs nth_list_update)

text \<open>The inner loop is run with the lock held.\<close>

lemma customer_inner_waits:
  assumes "shape m n s" and "i < m" and "ccell s i = (C, p, q)" and "pizza_lock s = Some (Customer i)"
    and "c_has_pizza C = Some b" and "\<not> b \<or> \<not> c_matched C" and "c_id C = i"
  shows "moves m n (customer_inner i) s
    ((ccell s)(i := (C, C_wait, q @ [Customer i])), dcell s, None, manager_cv s, reported s)"
  using assms by (auto simp: customer_inner_def check_pizza_def pizza_op_defs prog_simps view_defs nth_list_update)

lemma customer_inner_pays:
  assumes "shape m n s" and "i < m" and "ccell s i = (C, p, q)" and "pizza_lock s = Some (Customer i)"
    and "c_has_pizza C = Some True" and "c_matched C" and "c_assigned_driver C = Some j" and "j < n"
    and "dcell s j = (D, p', q')"
  shows "moves m n (customer_inner i) s
    ((ccell s)(i := (fst (customer_ready_up C), C_outer, q)), (dcell s)(j := (recieve_payment D, p', tl q')),
     Some (Customer i), tl (manager_cv s), reported s @ [Pay (c_id C) (d_id D)] @ snd (customer_ready_up C))"
  using assms
  by (auto simp: customer_inner_def check_pizza_def get_driver_def pay_driver_def pizza_op_defs prog_simps view_defs nth_list_update)

lemma customer_outer_done:
  assumes "shape m n s" and "i < m" and "ccell s i = (C, p, q)" and "pizza_lock s = Some (Customer i)"
    and "is_done C"
  shows "moves m n (customer_outer i) s
    ((ccell s)(i := (C, C_exit, q)), dcell s, None, manager_cv s, reported s)"
  using assms by (auto simp: customer_outer_def pizza_op_defs prog_simps view_defs nth_list_update)

lemma customer_outer_inner:
  assumes "shape m n s" and "i < m" and "ccell s i = (C, p, q)" and "\<not> is_done C"
  shows "customer_outer i s = customer_inner i s"
  using assms by (auto simp: customer_outer_def pizza_op_defs prog_simps view_defs)

lemma lock_then:
  assumes "pizza_lock s = None"
  shows "seqp (lock t) k s = k (s\<lparr>pizza_lock := Some t\<rparr>)"
  using assms by (simp add: lock_def prog_simps)

lemma moves_locked:
  assumes "moves m n k (s\<lparr>pizza_lock := Some t\<rparr>) v" and "pizza_lock s = None"
  shows "moves m n (seqp (lock t) k) s v"
  using assms by (simp add: moves_def lock_then)

lemma locked_view [simp]:
  "shape m n (s\<lparr>pizza_lock := l\<rparr>) = shape m n s" "ccell (s\<lparr>pizza_lock := l\<rparr>) = ccell s"
  "dcell (s\<lparr>pizza_lock := l\<rparr>) = dcell s"
  by (simp_all add: view_defs)

subsection \<open>Manager\<close>

lemma manager_waits:
  assumes "shape m n s" and "pizza_lock s = None" and "\<not> has_available_delivery (customers s) (drivers s)"
  shows "moves m n manager_turn s (ccell s, dcell s, None, manager_cv s @ [Manager], reported s)"
  using assms by (auto simp: manager_turn_def pizza_op_defs prog_simps view_defs)

lemma manager_matches:
  assumes "shape m n s" and "pizza_lock s = None" and "has_available_delivery (customers s) (drivers s)"
    and "match_delivery (customers s) (drivers s) = Inr ((i, j), evs)" and "i < m" and "j < n"
    and "ccell s i = (C, p, q)" and "dcell s j = (D, p', q')" and "c_id C = i" and "d_id D = j"
  shows "moves m n manager_turn s
    ((ccell s)(i := (set_driver j (customer_set_unavailable C), p, tl q)),
     (dcell s)(j := (set_customer i (driver_set_unavailable D), p', tl q')),
     None, manager_cv s, reported s @ evs)"
  using assms
  by (auto simp: manager_turn_def set_driver_def customer_set_unavailable_def set_customer_def
      driver_set_unavailable_def pizza_op_defs prog_simps view_defs nth_list_update Let_def)

end
