(* ===== verification/Pizza_Spec.thy ===== *)
theory Pizza_Spec
  imports Pizza_Match Transition
begin

text \<open>
  What the pizza application promises, as the sequences of events it may report.  A customer asks for its
  requests one after the other; a request is matched with a free driver such that no other pair is
  closer, delivered by a drive from where the driver is to where the customer is, and paid to that
  driver; only then is either of them ready again.  \<open>spec_run\<close> gives the state after a sequence of
  events, and \<open>None\<close> for a sequence that breaks the rules.
\<close>

datatype customer_phase = Idle | Asked location_t | Assigned location_t nat

datatype driver_phase = Away | Free | Taken nat | Delivered nat

record spec =
  num_c :: nat
  num_d :: nat
  todo :: "nat \<Rightarrow> location_t list"
  cphase :: "nat \<Rightarrow> customer_phase"
  dplace :: "nat \<Rightarrow> location_t"
  dphase :: "nat \<Rightarrow> driver_phase"

definition spec_closest :: "spec \<Rightarrow> nat \<Rightarrow> nat \<Rightarrow> bool" where
  "spec_closest a i j \<longleftrightarrow>
     (case cphase a i of
        Asked l \<Rightarrow>
          \<forall>i' < num_c a. \<forall>j' < num_d a.
            (case cphase a i' of
               Asked l' \<Rightarrow> dphase a j' = Free \<longrightarrow> rect_dist l (dplace a j) \<le> rect_dist l' (dplace a j')
             | _ \<Rightarrow> True)
      | _ \<Rightarrow> False)"

fun spec_step :: "pizza_event \<Rightarrow> spec \<Rightarrow> spec option" where
  "spec_step (Customer_ready i l) a =
     (if i < num_c a \<and> cphase a i = Idle \<and> todo a i \<noteq> [] \<and> hd (todo a i) = l
      then Some (a\<lparr>todo := (todo a)(i := tl (todo a i)), cphase := (cphase a)(i := Asked l)\<rparr>) else None)"
| "spec_step (Driver_ready j l) a =
     (if j < num_d a \<and> dphase a j = Away \<and> dplace a j = l
      then Some (a\<lparr>dphase := (dphase a)(j := Free)\<rparr>) else None)"
| "spec_step (Match i j) a =
     (if i < num_c a \<and> j < num_d a \<and> dphase a j = Free \<and> spec_closest a i j
      then case cphase a i of
          Asked l \<Rightarrow> Some (a\<lparr>cphase := (cphase a)(i := Assigned l j), dphase := (dphase a)(j := Taken i)\<rparr>)
        | _ \<Rightarrow> None
      else None)"
| "spec_step (Drive j l l') a =
     (if j < num_d a \<and> dplace a j = l
      then case dphase a j of
          Taken i \<Rightarrow>
            if cphase a i = Assigned l' j
            then Some (a\<lparr>dplace := (dplace a)(j := l'), dphase := (dphase a)(j := Delivered i)\<rparr>) else None
        | _ \<Rightarrow> None
      else None)"
| "spec_step (Pay i j) a =
     (if i < num_c a \<and> j < num_d a \<and> dphase a j = Delivered i \<and> cphase a i = Assigned (dplace a j) j
      then Some (a\<lparr>cphase := (cphase a)(i := Idle), dphase := (dphase a)(j := Away)\<rparr>) else None)"

fun spec_run :: "pizza_event list \<Rightarrow> spec \<Rightarrow> spec option" where
  "spec_run [] a = Some a"
| "spec_run (e # es) a = (case spec_step e a of None \<Rightarrow> None | Some a' \<Rightarrow> spec_run es a')"

definition spec_start :: "nat \<Rightarrow> nat \<Rightarrow> (nat \<Rightarrow> location_t list) \<Rightarrow> spec" where
  "spec_start m n reqs =
     \<lparr>num_c = m, num_d = n, todo = reqs, cphase = (\<lambda>_. Idle),
      dplace = (\<lambda>_. \<lparr>loc_x = 0, loc_y = 0\<rparr>), dphase = (\<lambda>_. Away)\<rparr>"

lemma spec_run_append:
  "spec_run (es @ es') a = (case spec_run es a of None \<Rightarrow> None | Some a' \<Rightarrow> spec_run es' a')"
  by (induction es arbitrary: a) (auto split: option.splits)

subsection \<open>What an accepted sequence tells\<close>

text \<open>The requests that a customer made and the number of its payments.\<close>

fun requests_of :: "nat \<Rightarrow> pizza_event list \<Rightarrow> location_t list" where
  "requests_of i [] = []"
| "requests_of i (e # es) =
     (case e of Customer_ready k l \<Rightarrow> if k = i then l # requests_of i es else requests_of i es
      | _ \<Rightarrow> requests_of i es)"

fun payments_of :: "nat \<Rightarrow> pizza_event list \<Rightarrow> nat" where
  "payments_of i [] = 0"
| "payments_of i (e # es) =
     (case e of Pay k j \<Rightarrow> if k = i then Suc (payments_of i es) else payments_of i es
      | _ \<Rightarrow> payments_of i es)"

lemma spec_requests:
  assumes "spec_run es a = Some a'"
  shows "requests_of i es @ todo a' i = todo a i"
  using assms
proof (induction es arbitrary: a)
  case (Cons e es)
  then obtain a1 where a1: "spec_step e a = Some a1" "spec_run es a1 = Some a'" by (auto split: option.splits)
  then show ?case using Cons.IH[OF a1(2)]
    by (cases e) (auto split: if_splits customer_phase.splits driver_phase.splits)
qed simp

text \<open>A request that was made and is not paid is under way.\<close>

definition under_way :: "spec \<Rightarrow> nat \<Rightarrow> nat" where
  "under_way a i = (if cphase a i = Idle then 0 else 1)"

lemma spec_payments:
  assumes "spec_run es a = Some a'"
  shows "payments_of i es + under_way a' i = length (requests_of i es) + under_way a i"
  using assms
proof (induction es arbitrary: a)
  case (Cons e es)
  then obtain a1 where a1: "spec_step e a = Some a1" "spec_run es a1 = Some a'" by (auto split: option.splits)
  then show ?case using Cons.IH[OF a1(2)]
    by (cases e) (auto simp: under_way_def split: if_splits customer_phase.splits driver_phase.splits)
qed simp

end
