(* ===== verification/Pizza_Inv.thy ===== *)
theory Pizza_Inv
  imports Pizza_View Pizza_Spec
begin

text \<open>
  The invariant of the pizza application.  A customer and a driver that are in a round, matched and not
  yet paid, belong to each other (\<open>linked\<close>); every other customer and driver is on its own.  No thread
  waits for a signal that it should have got: the manager waits only when no pair is available, a driver
  only when it has no customer or no payment, a customer only while its pizza is on the way.
\<close>

subsection \<open>Single cells\<close>

definition customer_local :: "nat \<Rightarrow> customer_cell \<Rightarrow> bool" where
  "customer_local i = (\<lambda>(C, p, q).
     c_id C = i \<and> (\<forall>l \<in> set (c_requests C). near l) \<and> (\<forall>l. c_location C = Some l \<longrightarrow> near l) \<and>
     (q = [] \<or> q = [Customer i] \<and> p = C_wait) \<and>
     (case c_status C of
        Available \<Rightarrow> \<not> c_matched C \<and> c_has_pizza C = Some False \<and> c_location C \<noteq> None \<and> p \<in> {C_lock, C_outer, C_wait}
      | Unavailable \<Rightarrow> (p = C_start \<and> \<not> c_matched C) \<or> (p \<in> {C_lock, C_wait} \<and> c_matched C \<and> c_location C \<noteq> None)
      | Finished \<Rightarrow> c_requests C = [] \<and> p \<in> {C_lock, C_outer, C_exit}))"

definition driver_local :: "nat \<Rightarrow> driver_cell \<Rightarrow> bool" where
  "driver_local j = (\<lambda>(D, p, q).
     d_id D = j \<and> near (d_location D) \<and> (q = [] \<or> q = [Driver j]) \<and>
     (case p of
        D_start \<Rightarrow> d_status D = Unavailable \<and> \<not> d_matched D \<and> \<not> d_paid D \<and> q = []
      | D_match \<Rightarrow> \<not> d_paid D \<and> (if d_matched D then d_status D = Unavailable \<and> q = [] else d_status D = Available)
      | D_deliver i \<Rightarrow> d_status D = Unavailable \<and> d_matched D \<and> \<not> d_paid D \<and> q = []
      | D_arrived i \<Rightarrow> d_status D = Unavailable \<and> d_matched D \<and> \<not> d_paid D \<and> q = []
      | D_paid i \<Rightarrow> d_status D = Unavailable \<and> d_matched D \<and> (d_paid D \<longrightarrow> q = [])))"

subsection \<open>Pairs\<close>

definition customer_in_round :: "customer_cell \<Rightarrow> bool" where
  "customer_in_round = (\<lambda>(C, p, q). c_status C = Unavailable \<and> c_matched C)"

definition driver_in_round :: "driver_cell \<Rightarrow> bool" where
  "driver_in_round = (\<lambda>(D, p, q). d_matched D \<and> \<not> d_paid D)"

definition linked :: "nat \<Rightarrow> customer_cell \<Rightarrow> nat \<Rightarrow> driver_cell \<Rightarrow> bool" where
  "linked i = (\<lambda>(C, p, q) j (D, p', q').
     customer_in_round (C, p, q) \<and> driver_in_round (D, p', q') \<and>
     c_assigned_driver C = Some j \<and> d_assigned_customer D = Some i \<and>
     p' \<in> {D_match, D_deliver i, D_arrived i, D_paid i} \<and> c_has_pizza C = Some (p' = D_paid i) \<and>
     (p' = D_paid i \<longrightarrow> q = [] \<and> c_location C = Some (d_location D)))"

definition paired :: "nat \<Rightarrow> nat \<Rightarrow> (nat \<Rightarrow> customer_cell) \<Rightarrow> (nat \<Rightarrow> driver_cell) \<Rightarrow> bool" where
  "paired m n cs ds \<longleftrightarrow>
     (\<forall>i < m. customer_in_round (cs i) \<longrightarrow> (\<exists>j < n. linked i (cs i) j (ds j))) \<and>
     (\<forall>j < n. driver_in_round (ds j) \<longrightarrow> (\<exists>i < m. linked i (cs i) j (ds j)))"

lemma linked_in_round:
  "linked i c j d \<Longrightarrow> customer_in_round c" "linked i c j d \<Longrightarrow> driver_in_round d"
  by (auto simp: linked_def split: prod.splits)

lemma linked_same:
  "linked i c j d \<Longrightarrow> linked i' c' j d \<Longrightarrow> i' = i" "linked i c j d \<Longrightarrow> linked i c j' d' \<Longrightarrow> j' = j"
  by (auto simp: linked_def split: prod.splits)

text \<open>
  An update of a customer and a driver that belong together, or of two that are on their own, keeps all
  other pairs.
\<close>

lemma paired_update:
  assumes "paired m n cs ds" and "i < m" and "j < n"
    and "linked i (cs i) j (ds j) \<or> \<not> customer_in_round (cs i) \<and> \<not> driver_in_round (ds j)"
    and "linked i c j d \<or> \<not> customer_in_round c \<and> \<not> driver_in_round d"
  shows "paired m n (cs(i := c)) (ds(j := d))"
  unfolding paired_def
proof (intro conjI allI impI)
  fix i'
  assume i': "i' < m" "customer_in_round ((cs(i := c)) i')"
  show "\<exists>j' < n. linked i' ((cs(i := c)) i') j' ((ds(j := d)) j')"
  proof (cases "i' = i")
    case True
    then show ?thesis using i' assms(3,5) linked_in_round(1) by auto
  next
    case False
    then obtain j' where j': "j' < n" "linked i' (cs i') j' (ds j')" using assms(1) i' by (auto simp: paired_def)
    then have "j' \<noteq> j" using assms(4) False linked_same(1) linked_in_round(2) by blast
    then show ?thesis using j' False by auto
  qed
next
  fix j'
  assume j': "j' < n" "driver_in_round ((ds(j := d)) j')"
  show "\<exists>i' < m. linked i' ((cs(i := c)) i') j' ((ds(j := d)) j')"
  proof (cases "j' = j")
    case True
    then show ?thesis using j' assms(2,5) linked_in_round(2) by auto
  next
    case False
    then obtain i' where i': "i' < m" "linked i' (cs i') j' (ds j')" using assms(1) j' by (auto simp: paired_def)
    then have "i' \<noteq> i" using assms(4) False linked_same(2) linked_in_round(1) by blast
    then show ?thesis using i' False by auto
  qed
qed

lemma paired_update_customer:
  assumes "paired m n cs ds" and "\<not> customer_in_round (cs i)" and "\<not> customer_in_round c"
  shows "paired m n (cs(i := c)) ds"
  unfolding paired_def
proof (intro conjI allI impI)
  fix j
  assume "j < n" "driver_in_round (ds j)"
  then obtain i' where i': "i' < m" "linked i' (cs i') j (ds j)" using assms(1) by (auto simp: paired_def)
  then have "i' \<noteq> i" using assms(2) linked_in_round(1) by blast
  then show "\<exists>i' < m. linked i' ((cs(i := c)) i') j (ds j)" using i' by auto
qed (use assms in \<open>auto simp: paired_def\<close>)

lemma paired_update_driver:
  assumes "paired m n cs ds" and "\<not> driver_in_round (ds j)" and "\<not> driver_in_round d"
  shows "paired m n cs (ds(j := d))"
  unfolding paired_def
proof (intro conjI allI impI)
  fix i
  assume "i < m" "customer_in_round (cs i)"
  then obtain j' where j': "j' < n" "linked i (cs i) j' (ds j')" using assms(1) by (auto simp: paired_def)
  then have "j' \<noteq> j" using assms(2) linked_in_round(2) by blast
  then show "\<exists>j' < n. linked i (cs i) j' ((ds(j := d)) j')" using j' by auto
qed (use assms in \<open>auto simp: paired_def\<close>)

subsection \<open>The invariant\<close>

definition available :: "nat \<Rightarrow> nat \<Rightarrow> (nat \<Rightarrow> customer_cell) \<Rightarrow> (nat \<Rightarrow> driver_cell) \<Rightarrow> bool" where
  "available m n cs ds \<longleftrightarrow>
     (\<exists>i < m. customer_is_ready (fst (cs i))) \<and> (\<exists>j < n. driver_is_ready (fst (ds j)))"

definition lock_ok :: "nat \<Rightarrow> (nat \<Rightarrow> customer_cell) \<Rightarrow> pizza_thread option \<Rightarrow> bool" where
  "lock_ok m cs l \<longleftrightarrow>
     (l = None \<or> (\<exists>i < m. l = Some (Customer i))) \<and>
     (\<forall>i < m. fst (snd (cs i)) = C_outer \<longleftrightarrow> l = Some (Customer i))"

definition view_inv :: "nat \<Rightarrow> nat \<Rightarrow> view \<Rightarrow> bool" where
  "view_inv m n = (\<lambda>(cs, ds, l, mq, evs).
     (\<forall>i < m. customer_local i (cs i)) \<and> (\<forall>j < n. driver_local j (ds j)) \<and> paired m n cs ds \<and>
     lock_ok m cs l \<and> (mq = [] \<or> mq = [Manager] \<and> \<not> available m n cs ds))"

definition pizza_inv :: "nat \<Rightarrow> nat \<Rightarrow> pizza_state \<Rightarrow> bool" where
  "pizza_inv m n s \<longleftrightarrow> shape m n s \<and> view_inv m n (view s)"

subsection \<open>Work that is left\<close>

text \<open>
  A bound on the number of turns.  Each pending request is worth twelve turns of all threads together; a
  thread that waits for a signal is worth nothing.
\<close>

definition customer_work :: "customer_cell \<Rightarrow> nat" where
  "customer_work = (\<lambda>(C, p, q).
     12 * length (c_requests C) +
     (if p = C_start then 3 else
        (case c_status C of Available \<Rightarrow> 12 | Unavailable \<Rightarrow> 6 | Finished \<Rightarrow> 0) +
        (case p of C_lock \<Rightarrow> 1 | C_outer \<Rightarrow> 2 | C_wait \<Rightarrow> (if q = [] then 1 else 0) | _ \<Rightarrow> 0)))"

definition driver_work :: "driver_cell \<Rightarrow> nat" where
  "driver_work = (\<lambda>(D, p, q).
     case p of
       D_start \<Rightarrow> 3
     | D_match \<Rightarrow> (if d_matched D then 4 else if q = [] then 1 else 0)
     | D_deliver i \<Rightarrow> 3
     | D_arrived i \<Rightarrow> 2
     | D_paid i \<Rightarrow> (if d_paid D then 3 else if q = [] then 1 else 0))"

definition work :: "nat \<Rightarrow> nat \<Rightarrow> view \<Rightarrow> nat" where
  "work m n = (\<lambda>(cs, ds, l, mq, evs).
     (\<Sum>i<m. customer_work (cs i)) + (\<Sum>j<n. driver_work (ds j)) + (if mq = [] then 1 else 0))"

lemma sum_update:
  assumes "i < (m :: nat)"
  shows "(\<Sum>k<m. f ((g(i := x)) k)) + f (g i) = (\<Sum>k<m. f (g k)) + (f x :: nat)"
proof -
  have s: "(\<Sum>k<m. h k) = h i + (\<Sum>k \<in> {..<m} - {i}. h k)" for h :: "nat \<Rightarrow> nat"
    using assms by (subst sum.remove[of _ i]) auto
  have "(\<Sum>k \<in> {..<m} - {i}. f ((g(i := x)) k)) = (\<Sum>k \<in> {..<m} - {i}. f (g k))" by (rule sum.cong) auto
  then show ?thesis using s[of "\<lambda>k. f ((g(i := x)) k)"] s[of "\<lambda>k. f (g k)"] by simp
qed

subsection \<open>The specification seen\<close>

definition customer_phase_of :: "customer_cell \<Rightarrow> customer_phase" where
  "customer_phase_of = (\<lambda>(C, p, q).
     case c_status C of
       Available \<Rightarrow> Asked (the (c_location C))
     | Unavailable \<Rightarrow> if c_matched C then Assigned (the (c_location C)) (the (c_assigned_driver C)) else Idle
     | Finished \<Rightarrow> Idle)"

definition driver_phase_of :: "driver_cell \<Rightarrow> driver_phase" where
  "driver_phase_of = (\<lambda>(D, p, q).
     case p of
       D_start \<Rightarrow> Away
     | D_match \<Rightarrow> if d_matched D then Taken (the (d_assigned_customer D)) else Free
     | D_deliver i \<Rightarrow> Taken i
     | D_arrived i \<Rightarrow> Delivered i
     | D_paid i \<Rightarrow> if d_paid D then Away else Delivered i)"

text \<open>A driver that has arrived stores its new location with the next turn.\<close>

definition driver_place_of :: "(nat \<Rightarrow> customer_cell) \<Rightarrow> driver_cell \<Rightarrow> location_t" where
  "driver_place_of cs = (\<lambda>(D, p, q).
     case p of D_arrived i \<Rightarrow> the (c_location (fst (cs i))) | _ \<Rightarrow> d_location D)"

definition spec_view :: "nat \<Rightarrow> nat \<Rightarrow> view \<Rightarrow> spec" where
  "spec_view m n = (\<lambda>(cs, ds, l, mq, evs).
     \<lparr>num_c = m, num_d = n, todo = (\<lambda>i. if i < m then c_requests (fst (cs i)) else []),
      cphase = (\<lambda>i. if i < m then customer_phase_of (cs i) else Idle),
      dplace = (\<lambda>j. if j < n then driver_place_of cs (ds j) else \<lparr>loc_x = 0, loc_y = 0\<rparr>),
      dphase = (\<lambda>j. if j < n then driver_phase_of (ds j) else Away)\<rparr>)"

text \<open>What a turn does: the invariant holds, work is done, and the reported events follow the rules.\<close>

definition good_turn :: "nat \<Rightarrow> nat \<Rightarrow> view \<Rightarrow> view \<Rightarrow> pizza_event list \<Rightarrow> bool" where
  "good_turn m n v v' evs \<longleftrightarrow>
     view_inv m n v' \<and> work m n v' < work m n v \<and> spec_run evs (spec_view m n v) = Some (spec_view m n v')"

subsection \<open>Updates of cells\<close>

definition manager_work :: "pizza_thread list \<Rightarrow> nat" where
  "manager_work mq = (if mq = [] then 1 else 0)"

text \<open>The lock changes hands only through the customer \<open>i\<close>.\<close>

definition lock_moves :: "nat \<Rightarrow> pizza_thread option \<Rightarrow> pizza_thread option \<Rightarrow> bool" where
  "lock_moves i l l' \<longleftrightarrow> l' = l \<or> {l, l'} \<subseteq> {None, Some (Customer i)}"

lemma lock_ok_update:
  assumes "lock_ok m cs l" and "i < m" and "lock_moves i l l'" and "fst (snd c) = C_outer \<longleftrightarrow> l' = Some (Customer i)"
  shows "lock_ok m (cs(i := c)) l'"
  using assms by (auto simp: lock_ok_def lock_moves_def)

text \<open>A driver that stands at its destination belongs to the customer there.\<close>

lemma other_places:
  assumes "view_inv m n (cs, ds, l, mq, evs)" and "i < m" and "j' < n"
    and "\<forall>d. linked i (cs i) j' d \<longrightarrow> j' = j" and "j' \<noteq> j"
  shows "driver_place_of (cs(i := c)) (ds j') = driver_place_of cs (ds j')"
proof -
  obtain D p q where d: "ds j' = (D, p, q)" by (metis prod.exhaust)
  have "driver_local j' (D, p, q)" using assms(1,3) d by (auto simp: view_inv_def split: prod.splits)
  then have "p = D_arrived i \<Longrightarrow> driver_in_round (ds j')" by (auto simp: d driver_local_def driver_in_round_def)
  then have "p = D_arrived i \<Longrightarrow> \<exists>i' < m. linked i' (cs i') j' (ds j')"
    using assms(1,3) by (auto simp: view_inv_def paired_def)
  moreover have "linked i' (cs i') j' (ds j') \<Longrightarrow> p = D_arrived i \<Longrightarrow> i' = i" for i'
    by (auto simp: d linked_def split: prod.splits)
  ultimately have "p \<noteq> D_arrived i" using assms(4,5) by blast
  then show ?thesis by (auto simp: d driver_place_of_def split: driver_place.splits)
qed

lemma spec_view_update:
  assumes "i < m" and "j < n"
    and "\<forall>j' < n. j' \<noteq> j \<longrightarrow> driver_place_of (cs(i := c)) (ds j') = driver_place_of cs (ds j')"
  shows "spec_view m n (cs(i := c), ds(j := d), l', mq', evs') =
    (let a = spec_view m n (cs, ds, l, mq, evs)
     in a\<lparr>todo := (todo a)(i := c_requests (fst c)), cphase := (cphase a)(i := customer_phase_of c),
          dplace := (dplace a)(j := driver_place_of (cs(i := c)) d), dphase := (dphase a)(j := driver_phase_of d)\<rparr>)"
  using assms by (auto simp: spec_view_def fun_eq_iff)

end
