(* ===== verification/Pizza_Turns.thy ===== *)
theory Pizza_Turns
  imports Pizza_Inv
begin

text \<open>
  Every turn of every thread completes, keeps the invariant, does some of the work that is left and
  reports only events that the specification allows.
\<close>

subsection \<open>Updates that are good turns\<close>

lemma view_invD:
  assumes "view_inv m n (cs, ds, l, mq, evs)"
  shows "i < m \<Longrightarrow> customer_local i (cs i)" and "j < n \<Longrightarrow> driver_local j (ds j)" and "paired m n cs ds"
    and "lock_ok m cs l" and "mq = [] \<or> mq = [Manager] \<and> \<not> available m n cs ds"
  using assms by (auto simp: view_inv_def)

text \<open>A queue of the manager that was not signalled: nobody has become available.\<close>

definition manager_moves :: "bool \<Rightarrow> pizza_thread list \<Rightarrow> pizza_thread list \<Rightarrow> bool" where
  "manager_moves b mq mq' \<longleftrightarrow> mq' = tl mq \<or> mq' = mq \<and> \<not> b"

lemma available_update:
  assumes "available m n (cs(i := c)) (ds(j := d))" and "i < m" and "j < n"
    and "customer_is_ready (fst c) \<longrightarrow> customer_is_ready (fst (cs i))"
    and "driver_is_ready (fst d) \<longrightarrow> driver_is_ready (fst (ds j))"
  shows "available m n cs ds"
proof -
  obtain i' j' where "i' < m" "customer_is_ready (fst ((cs(i := c)) i'))" "j' < n" "driver_is_ready (fst ((ds(j := d)) j'))"
    using assms(1) by (auto simp: available_def)
  then have "customer_is_ready (fst (cs i'))" "driver_is_ready (fst (ds j'))"
    using assms(4,5) by (auto split: if_splits)
  then show ?thesis using \<open>i' < m\<close> \<open>j' < n\<close> by (auto simp: available_def)
qed

definition newly_ready :: "customer_cell \<Rightarrow> customer_cell \<Rightarrow> driver_cell \<Rightarrow> driver_cell \<Rightarrow> bool" where
  "newly_ready c0 c d0 d \<longleftrightarrow>
     customer_is_ready (fst c) \<and> \<not> customer_is_ready (fst c0) \<or> driver_is_ready (fst d) \<and> \<not> driver_is_ready (fst d0)"

lemma manager_update:
  assumes "mq = [] \<or> mq = [Manager] \<and> \<not> available m n cs ds" and "i < m" and "j < n"
    and "manager_moves (newly_ready (cs i) c (ds j) d) mq mq'"
  shows "mq' = [] \<or> mq' = [Manager] \<and> \<not> available m n (cs(i := c)) (ds(j := d))"
  using assms available_update[of m n cs i c ds j d] by (auto simp: manager_moves_def newly_ready_def)

lemma work_update:
  assumes "i < m" and "j < n"
    and "customer_work c + driver_work d + manager_work mq' < customer_work (cs i) + driver_work (ds j) + manager_work mq"
  shows "work m n (cs(i := c), ds(j := d), l', mq', evs') < work m n (cs, ds, l, mq, evs)"
  using sum_update[OF assms(1), of customer_work cs c] sum_update[OF assms(2), of driver_work ds d] assms(3)
  by (simp add: work_def manager_work_def)

text \<open>Turns on a customer and a driver that belong together, or that meet.\<close>

lemma good_pair_turn:
  assumes I: "view_inv m n (cs, ds, l, mq, evs)" and ij: "i < m" "j < n"
    and p: "linked i (cs i) j (ds j) \<or> \<not> customer_in_round (cs i) \<and> \<not> driver_in_round (ds j)"
    and p': "linked i c j d \<or> \<not> customer_in_round c \<and> \<not> driver_in_round d"
    and c: "customer_local i c" and d: "driver_local j d"
    and l: "lock_moves i l l'" "fst (snd c) = C_outer \<longleftrightarrow> l' = Some (Customer i)"
    and mq: "manager_moves (newly_ready (cs i) c (ds j) d) mq mq'"
    and w: "customer_work c + driver_work d + manager_work mq' < customer_work (cs i) + driver_work (ds j) + manager_work mq"
    and sp: "let a = spec_view m n (cs, ds, l, mq, evs)
      in spec_run es a = Some (a\<lparr>todo := (todo a)(i := c_requests (fst c)), cphase := (cphase a)(i := customer_phase_of c),
          dplace := (dplace a)(j := driver_place_of (cs(i := c)) d), dphase := (dphase a)(j := driver_phase_of d)\<rparr>)"
  shows "good_turn m n (cs, ds, l, mq, evs) (cs(i := c), ds(j := d), l', mq', evs') es"
proof -
  note v = view_invD[OF I]
  have "\<forall>d. linked i (cs i) j' d \<longrightarrow> j' = j" for j' using p linked_same(2) linked_in_round(1) by blast
  then have pl: "\<forall>j' < n. j' \<noteq> j \<longrightarrow> driver_place_of (cs(i := c)) (ds j') = driver_place_of cs (ds j')"
    using other_places[OF I ij(1)] by blast
  have "view_inv m n (cs(i := c), ds(j := d), l', mq', evs')"
    using v(1,2) c d paired_update[OF v(3) ij p p'] lock_ok_update[OF v(4) ij(1) l] manager_update[OF v(5) ij mq]
    by (simp add: view_inv_def)
  moreover have "spec_run es (spec_view m n (cs, ds, l, mq, evs)) = Some (spec_view m n (cs(i := c), ds(j := d), l', mq', evs'))"
    unfolding spec_view_update[OF ij pl, where l = l and mq = mq and evs = evs] using sp by (simp only: Let_def)
  ultimately show ?thesis
    using work_update[where cs = cs and ds = ds, OF ij w] by (simp add: good_turn_def)
qed

text \<open>Turns of a customer or a driver alone.\<close>

lemma good_customer_turn:
  assumes I: "view_inv m n (cs, ds, l, mq, evs)" and i: "i < m" "0 < n"
    and p: "\<not> customer_in_round (cs i)" "\<not> customer_in_round c" and c: "customer_local i c"
    and l: "lock_moves i l l'" "fst (snd c) = C_outer \<longleftrightarrow> l' = Some (Customer i)"
    and mq: "manager_moves (customer_is_ready (fst c) \<and> \<not> customer_is_ready (fst (cs i))) mq mq'"
    and w: "customer_work c + manager_work mq' < customer_work (cs i) + manager_work mq"
    and sp: "let a = spec_view m n (cs, ds, l, mq, evs)
      in spec_run es a = Some (a\<lparr>todo := (todo a)(i := c_requests (fst c)), cphase := (cphase a)(i := customer_phase_of c)\<rparr>)"
  shows "good_turn m n (cs, ds, l, mq, evs) (cs(i := c), ds, l', mq', evs') es"
proof -
  note v = view_invD[OF I]
  have "\<forall>d. linked i (cs i) j' d \<longrightarrow> j' = n" for j' using p linked_in_round(1) by blast
  then have pl: "driver_place_of (cs(i := c)) (ds j') = driver_place_of cs (ds j')" if "j' < n" for j'
    by (rule other_places[OF I i(1) that]) (use \<open>\<forall>d. linked i (cs i) j' d \<longrightarrow> j' = n\<close> that in simp_all)
  have m: "manager_moves (newly_ready (cs i) c (ds 0) (ds 0)) mq mq'" using mq by (auto simp: newly_ready_def manager_moves_def)
  have "view_inv m n (cs(i := c), ds, l', mq', evs')"
    using v(1,2) c paired_update_customer[OF v(3) p] lock_ok_update[OF v(4) i(1) l] manager_update[OF v(5) i m]
    by (simp add: view_inv_def)
  moreover have "work m n (cs(i := c), ds, l', mq', evs') < work m n (cs, ds, l, mq, evs)"
    using work_update[where cs = cs and ds = ds and d = "ds 0" and j = 0, OF i] w by simp
  moreover have upd: "spec_view m n (cs(i := c), ds, l', mq', evs') =
    (let a = spec_view m n (cs, ds, l, mq, evs)
     in a\<lparr>todo := (todo a)(i := c_requests (fst c)), cphase := (cphase a)(i := customer_phase_of c)\<rparr>)"
    using pl i by (auto simp: spec_view_def fun_eq_iff)
  ultimately show ?thesis unfolding good_turn_def upd using sp by (simp only: Let_def)
qed

lemma good_driver_turn:
  assumes I: "view_inv m n (cs, ds, l, mq, evs)" and j: "0 < m" "j < n"
    and p: "\<not> driver_in_round (ds j)" "\<not> driver_in_round d" and d: "driver_local j d" and l: "l' = l"
    and mq: "manager_moves (driver_is_ready (fst d) \<and> \<not> driver_is_ready (fst (ds j))) mq mq'"
    and w: "driver_work d + manager_work mq' < driver_work (ds j) + manager_work mq"
    and sp: "let a = spec_view m n (cs, ds, l, mq, evs)
      in spec_run es a = Some (a\<lparr>dplace := (dplace a)(j := driver_place_of cs d), dphase := (dphase a)(j := driver_phase_of d)\<rparr>)"
  shows "good_turn m n (cs, ds, l, mq, evs) (cs, ds(j := d), l', mq', evs') es"
proof -
  note v = view_invD[OF I]
  have m: "manager_moves (newly_ready (cs 0) (cs 0) (ds j) d) mq mq'" using mq by (auto simp: newly_ready_def manager_moves_def)
  have "view_inv m n (cs, ds(j := d), l', mq', evs')"
    using v(1,2,4) d l paired_update_driver[OF v(3) p] manager_update[OF v(5) j m] by (simp add: view_inv_def)
  moreover have "work m n (cs, ds(j := d), l', mq', evs') < work m n (cs, ds, l, mq, evs)"
    using work_update[where cs = cs and ds = ds and c = "cs 0" and i = 0, OF j] w by simp
  moreover have upd: "spec_view m n (cs, ds(j := d), l', mq', evs') =
    (let a = spec_view m n (cs, ds, l, mq, evs)
     in a\<lparr>dplace := (dplace a)(j := driver_place_of cs d), dphase := (dphase a)(j := driver_phase_of d)\<rparr>)"
    using j by (auto simp: spec_view_def fun_eq_iff)
  ultimately show ?thesis unfolding good_turn_def upd using sp by (simp only: Let_def)
qed

subsection \<open>Facts about single cells\<close>

lemmas cell_defs = customer_local_def driver_local_def customer_in_round_def driver_in_round_def linked_def
  customer_work_def driver_work_def manager_work_def customer_phase_of_def driver_phase_of_def driver_place_of_def
  manager_moves_def newly_ready_def lock_moves_def customer_is_ready_def driver_is_ready_def

lemma linked_driver:
  assumes "view_inv m n (cs, ds, l, mq, evs)" and "j < n" and "driver_in_round (ds j)"
  shows "\<exists>i C p q. i < m \<and> cs i = (C, p, q) \<and> linked i (C, p, q) j (ds j) \<and> customer_local i (C, p, q)"
  using view_invD[OF assms(1)] assms(2,3) by (metis paired_def prod.exhaust)

lemma linked_customer:
  assumes "view_inv m n (cs, ds, l, mq, evs)" and "i < m" and "customer_in_round (cs i)"
  shows "\<exists>j D p q. j < n \<and> ds j = (D, p, q) \<and> linked i (cs i) j (D, p, q) \<and> driver_local j (D, p, q)"
  using view_invD[OF assms(1)] assms(2,3) by (metis paired_def prod.exhaust)

lemma spec_view_sel [simp]:
  "num_c (spec_view m n (cs, ds, l, mq, evs)) = m" "num_d (spec_view m n (cs, ds, l, mq, evs)) = n"
  "i < m \<Longrightarrow> todo (spec_view m n (cs, ds, l, mq, evs)) i = c_requests (fst (cs i))"
  "i < m \<Longrightarrow> cphase (spec_view m n (cs, ds, l, mq, evs)) i = customer_phase_of (cs i)"
  "j < n \<Longrightarrow> dplace (spec_view m n (cs, ds, l, mq, evs)) j = driver_place_of cs (ds j)"
  "j < n \<Longrightarrow> dphase (spec_view m n (cs, ds, l, mq, evs)) j = driver_phase_of (ds j)"
  by (simp_all add: spec_view_def)

subsection \<open>Drivers\<close>

lemma driver_begin_good:
  assumes "view_inv m n (cs, ds, l, mq, evs)" and "0 < m" "j < n" and "ds j = (D, D_start, q)"
  shows "good_turn m n (cs, ds, l, mq, evs)
    (cs, ds(j := (fst (driver_ready_up D), D_match, q)), l, tl mq, evs') (snd (driver_ready_up D))"
proof -
  have "driver_local j (D, D_start, q)" using view_invD(2)[OF assms(1,3)] assms(4) by simp
  then show ?thesis
    by (intro good_driver_turn[OF assms(1-3)])
      (use assms in \<open>auto simp: cell_defs driver_ready_up_def Let_def fun_upd_idem\<close>)
qed

lemma driver_match_waits_good:
  assumes "view_inv m n (cs, ds, l, mq, evs)" and "0 < m" "j < n" and "ds j = (D, D_match, [])" and "\<not> d_matched D"
  shows "good_turn m n (cs, ds, l, mq, evs) (cs, ds(j := (D, D_match, [Driver j])), l, mq, evs') []"
proof -
  have "driver_local j (D, D_match, [])" using view_invD(2)[OF assms(1,3)] assms(4) by simp
  then show ?thesis
    by (intro good_driver_turn[OF assms(1-3)]) (use assms in \<open>auto simp: cell_defs Let_def fun_upd_idem\<close>)
qed

lemma driver_woken_goes_good:
  assumes "view_inv m n (cs, ds, l, mq, evs)" and "0 < m" "j < n" and "ds j = (D, D_paid i, q)" and "d_paid D"
  shows "good_turn m n (cs, ds, l, mq, evs)
    (cs, ds(j := (fst (driver_ready_up D), D_match, q)), l, tl mq, evs') (snd (driver_ready_up D))"
proof -
  have "driver_local j (D, D_paid i, q)" using view_invD(2)[OF assms(1,3)] assms(4) by simp
  then show ?thesis
    by (intro good_driver_turn[OF assms(1-3)])
      (use assms in \<open>auto simp: cell_defs driver_ready_up_def Let_def fun_upd_idem\<close>)
qed

text \<open>The turns of a driver in a round leave it linked.\<close>

lemma linked_driver_turn:
  assumes I: "view_inv m n (cs, ds, l, mq, evs)" and i: "i < m" "j < n" "cs i = (C, p, q)"
    and k: "linked i (C, p, q) j (ds j)" and k': "linked i (C', p, q') j d"
    and c: "customer_local i (C', p, q')" "c_requests C' = c_requests C" "c_location C' = c_location C"
    and d: "driver_local j d"
    and w: "customer_work (C', p, q') + driver_work d < customer_work (C, p, q) + driver_work (ds j)"
    and sp: "let a = spec_view m n (cs, ds, l, mq, evs)
      in spec_run es a = Some (a\<lparr>dplace := (dplace a)(j := driver_place_of cs d), dphase := (dphase a)(j := driver_phase_of d)\<rparr>)"
  shows "good_turn m n (cs, ds, l, mq, evs) (cs(i := (C', p, q')), ds(j := d), l, mq, evs') es"
proof -
  have r: "\<not> newly_ready (cs i) (C', p, q') (ds j) d"
    using linked_in_round[OF k'] k' d by (auto simp: cell_defs split: driver_place.splits prod.splits if_splits)
  have o: "p = C_outer \<longleftrightarrow> l = Some (Customer i)" using view_invD(4)[OF I] i by (auto simp: lock_ok_def)
  have ph: "customer_phase_of (C', p, q') = customer_phase_of (C, p, q)"
    using k k' c(3) by (auto simp: linked_def customer_in_round_def customer_phase_of_def split: prod.splits)
  have pl: "driver_place_of (cs(i := (C', p, q'))) d = driver_place_of cs d"
    using i(3) c(3) by (auto simp: driver_place_of_def split: prod.splits driver_place.splits)
  show ?thesis
    using I i(1,2)
  proof (rule good_pair_turn)
    show "linked i (cs i) j (ds j) \<or> \<not> customer_in_round (cs i) \<and> \<not> driver_in_round (ds j)" using k i(3) by simp
    show "let a = spec_view m n (cs, ds, l, mq, evs)
      in spec_run es a = Some (a\<lparr>todo := (todo a)(i := c_requests (fst (C', p, q'))),
        cphase := (cphase a)(i := customer_phase_of (C', p, q')),
        dplace := (dplace a)(j := driver_place_of (cs(i := (C', p, q'))) d), dphase := (dphase a)(j := driver_phase_of d)\<rparr>)"
      using sp i c(2) by (simp add: Let_def pl ph fun_upd_idem)
  qed (use k' c(1) d w r o i(3) in \<open>simp_all add: lock_moves_def manager_moves_def\<close>)
qed

lemma driver_match_goes_good:
  assumes "view_inv m n (cs, ds, l, mq, evs)" and "i < m" "j < n" and "ds j = (D, D_match, q)"
    and "cs i = (C, p, q')" and "linked i (C, p, q') j (ds j)"
  shows "good_turn m n (cs, ds, l, mq, evs) (cs, ds(j := (D, D_deliver i, q)), l, mq, evs') []"
proof -
  have d: "driver_local j (D, D_match, q)" using view_invD(2)[OF assms(1,3)] assms(4) by simp
  have c: "customer_local i (C, p, q')" using view_invD(1)[OF assms(1,2)] assms(5) by simp
  have "good_turn m n (cs, ds, l, mq, evs) (cs(i := (C, p, q')), ds(j := (D, D_deliver i, q)), l, mq, evs') []"
    by (rule linked_driver_turn[OF assms(1,2,3,5,6)])
      (use d c assms in \<open>auto simp: cell_defs Let_def fun_upd_idem\<close>)
  then show ?thesis using assms(5) by (simp add: fun_upd_idem)
qed

lemma driver_deliver_good:
  assumes "view_inv m n (cs, ds, l, mq, evs)" and "i < m" "j < n" and "ds j = (D, D_deliver i, q)"
    and "cs i = (C, p, q')" and "linked i (C, p, q') j (ds j)" and "c_location C = Some x"
  shows "good_turn m n (cs, ds, l, mq, evs) (cs, ds(j := (D, D_arrived i, q)), l, mq, evs')
    [Drive (d_id D) (d_location D) x]"
proof -
  have d: "driver_local j (D, D_deliver i, q)" using view_invD(2)[OF assms(1,3)] assms(4) by simp
  have c: "customer_local i (C, p, q')" using view_invD(1)[OF assms(1,2)] assms(5) by simp
  have "good_turn m n (cs, ds, l, mq, evs) (cs(i := (C, p, q')), ds(j := (D, D_arrived i, q)), l, mq, evs')
      [Drive (d_id D) (d_location D) x]"
    by (rule linked_driver_turn[OF assms(1,2,3,5,6)])
      (use d c assms in \<open>auto simp: cell_defs Let_def fun_upd_idem\<close>)
  then show ?thesis using assms(5) by (simp add: fun_upd_idem)
qed

lemma driver_arrive_good:
  assumes "view_inv m n (cs, ds, l, mq, evs)" and "i < m" "j < n" and "ds j = (D, D_arrived i, q)"
    and "cs i = (C, p, q')" and "linked i (C, p, q') j (ds j)" and "c_location C = Some x"
  shows "good_turn m n (cs, ds, l, mq, evs)
    (cs(i := (receive_pizza C, p, tl q')), ds(j := (set_location x D, D_paid i, q @ [Driver j])), l, mq, evs') []"
proof -
  have d: "driver_local j (D, D_arrived i, q)" using view_invD(2)[OF assms(1,3)] assms(4) by simp
  have c: "customer_local i (C, p, q')" using view_invD(1)[OF assms(1,2)] assms(5) by simp
  show ?thesis
    by (rule linked_driver_turn[OF assms(1,2,3,5,6)])
      (use d c assms in \<open>auto simp: cell_defs receive_pizza_def set_location_def Let_def fun_upd_idem\<close>)
qed

lemma driver_woken_waits_good:
  assumes "view_inv m n (cs, ds, l, mq, evs)" and "i < m" "j < n" and "ds j = (D, D_paid i, [])"
    and "cs i = (C, p, q')" and "linked i (C, p, q') j (ds j)"
  shows "good_turn m n (cs, ds, l, mq, evs) (cs, ds(j := (D, D_paid i, [Driver j])), l, mq, evs') []"
proof -
  have d: "driver_local j (D, D_paid i, [])" using view_invD(2)[OF assms(1,3)] assms(4) by simp
  have c: "customer_local i (C, p, q')" using view_invD(1)[OF assms(1,2)] assms(5) by simp
  have "good_turn m n (cs, ds, l, mq, evs) (cs(i := (C, p, q')), ds(j := (D, D_paid i, [Driver j])), l, mq, evs') []"
    by (rule linked_driver_turn[OF assms(1,2,3,5,6)])
      (use d c assms in \<open>auto simp: cell_defs Let_def fun_upd_idem\<close>)
  then show ?thesis using assms(5) by (simp add: fun_upd_idem)
qed

subsection \<open>Customers\<close>

lemma customer_begin_good:
  assumes "view_inv m n (cs, ds, l, mq, evs)" and "i < m" "0 < n" and "cs i = (C, C_start, q)"
  shows "good_turn m n (cs, ds, l, mq, evs)
    (cs(i := (fst (customer_ready_up C), C_lock, q)), ds, l, tl mq, evs') (snd (customer_ready_up C))"
proof -
  have c: "customer_local i (C, C_start, q)" using view_invD(1)[OF assms(1,2)] assms(4) by simp
  have o: "l \<noteq> Some (Customer i)" using view_invD(4)[OF assms(1)] assms(2,4) by (auto simp: lock_ok_def)
  show ?thesis
    by (rule good_customer_turn[OF assms(1-3)])
      (use c o assms in \<open>auto simp: cell_defs customer_ready_up_def Let_def fun_upd_idem split: Status.splits list.splits\<close>)
qed

lemma customer_waits_good:
  assumes "view_inv m n (cs, ds, l, mq, evs)" and "i < m" "0 < n" and "cs i = (C, p, [])"
    and "c_status C = Available" and "l = None \<or> l = Some (Customer i)"
  shows "good_turn m n (cs, ds, l, mq, evs) (cs(i := (C, C_wait, [Customer i])), ds, None, mq, evs') []"
proof -
  have c: "customer_local i (C, p, [])" using view_invD(1)[OF assms(1,2)] assms(4) by simp
  show ?thesis
    by (rule good_customer_turn[OF assms(1-3)]) (use c assms in \<open>auto simp: cell_defs Let_def fun_upd_idem\<close>)
qed

lemma customer_done_good:
  assumes "view_inv m n (cs, ds, l, mq, evs)" and "i < m" "0 < n" and "cs i = (C, p, q)" and "p \<noteq> C_exit"
    and "c_status C = Finished" and "l = None \<or> l = Some (Customer i)"
  shows "good_turn m n (cs, ds, l, mq, evs) (cs(i := (C, C_exit, q)), ds, None, mq, evs') []"
proof -
  have c: "customer_local i (C, p, q)" using view_invD(1)[OF assms(1,2)] assms(4) by simp
  show ?thesis
    by (rule good_customer_turn[OF assms(1-3)]) (use c assms in \<open>auto simp: cell_defs Let_def fun_upd_idem\<close>)
qed

lemma customer_waits_linked_good:
  assumes "view_inv m n (cs, ds, None, mq, evs)" and "i < m" "j < n" and "cs i = (C, p, [])"
    and "ds j = (D, p', q')" and "linked i (C, p, []) j (D, p', q')" and "c_has_pizza C = Some False"
  shows "good_turn m n (cs, ds, None, mq, evs) (cs(i := (C, C_wait, [Customer i])), ds, None, mq, evs') []"
proof -
  have c: "customer_local i (C, p, [])" using view_invD(1)[OF assms(1,2)] assms(4) by simp
  have d: "driver_local j (D, p', q')" using view_invD(2)[OF assms(1,3)] assms(5) by simp
  have pl: "driver_place_of (cs(i := (C, C_wait, [Customer i]))) (D, p', q') = driver_place_of cs (D, p', q')"
    using assms(4) by (auto simp: driver_place_of_def split: driver_place.splits)
  have "good_turn m n (cs, ds, None, mq, evs) (cs(i := (C, C_wait, [Customer i])), ds(j := (D, p', q')), None, mq, evs') []"
    by (rule good_pair_turn[OF assms(1-3)])
      (use c d assms pl in \<open>auto simp: customer_local_def customer_in_round_def customer_work_def linked_def
         manager_moves_def newly_ready_def lock_moves_def customer_is_ready_def customer_phase_of_def Let_def fun_upd_idem\<close>)
  then show ?thesis using assms(5) by (simp add: fun_upd_idem)
qed

lemma customer_pays_good:
  assumes "view_inv m n (cs, ds, l, mq, evs)" and "i < m" "j < n" and "cs i = (C, p, q)" and "l = None"
    and "ds j = (D, p', q')" and "linked i (C, p, q) j (D, p', q')" and "c_has_pizza C = Some True"
  shows "good_turn m n (cs, ds, l, mq, evs)
    (cs(i := (fst (customer_ready_up C), C_outer, q)), ds(j := (recieve_payment D, p', tl q')),
     Some (Customer i), tl mq, evs') ([Pay (c_id C) (d_id D)] @ snd (customer_ready_up C))"
proof -
  have c: "customer_local i (C, p, q)" using view_invD(1)[OF assms(1,2)] assms(4) by simp
  have d: "driver_local j (D, p', q')" using view_invD(2)[OF assms(1,3)] assms(6) by simp
  have p': "p' = D_paid i" using assms(7,8) by (simp add: linked_def)
  show ?thesis
    by (rule good_pair_turn[OF assms(1-3)])
      (use c d assms p' in \<open>auto simp: cell_defs customer_ready_up_def recieve_payment_def Let_def fun_upd_idem
         split: list.splits\<close>)
qed

subsection \<open>Manager\<close>

lemma manager_waits_good:
  assumes "view_inv m n (cs, ds, l, [], evs)" and "\<not> available m n cs ds"
  shows "good_turn m n (cs, ds, l, [], evs) (cs, ds, l, [Manager], evs') []"
  using assms by (simp add: good_turn_def view_inv_def work_def spec_view_def)

lemma manager_matches_good:
  assumes "view_inv m n (cs, ds, l, mq, evs)" and "i < m" "j < n" and "cs i = (C, p, q)" and "l = None"
    and "ds j = (D, p', q')" and "c_status C = Available" and "d_status D = Available"
    and "spec_closest (spec_view m n (cs, ds, l, mq, evs)) i j"
  shows "good_turn m n (cs, ds, l, mq, evs)
    (cs(i := (set_driver j (customer_set_unavailable C), p, tl q)),
     ds(j := (set_customer i (driver_set_unavailable D), p', tl q')), l, mq, evs') [Match i j]"
proof -
  have c: "customer_local i (C, p, q)" using view_invD(1)[OF assms(1,2)] assms(4) by simp
  have d: "driver_local j (D, p', q')" using view_invD(2)[OF assms(1,3)] assms(6) by simp
  have o: "p \<noteq> C_outer" using view_invD(4)[OF assms(1)] assms(2,4,5) by (auto simp: lock_ok_def)
  have p': "p' = D_match" "\<not> d_matched D" using d assms(8) by (auto simp: driver_local_def split: driver_place.splits if_splits)
  show ?thesis
    by (rule good_pair_turn[OF assms(1-3)])
      (use c d o assms p' in \<open>auto simp: cell_defs set_driver_def customer_set_unavailable_def set_customer_def
         driver_set_unavailable_def Let_def fun_upd_idem\<close>)
qed

end
