(* ===== verification/Pizza_Progress.thy ===== *)
theory Pizza_Progress
  imports Pizza_Turns
begin

text \<open>
  Runs of the pizza application: which threads can run in a state of the invariant, that their turns are
  good turns, and how a run ends.
\<close>

subsection \<open>Threads that can run\<close>

fun runnable :: "nat \<Rightarrow> nat \<Rightarrow> pizza_state \<Rightarrow> pizza_thread \<Rightarrow> bool" where
  "runnable m n s Manager \<longleftrightarrow> manager_cv s = [] \<and> pizza_lock s = None"
| "runnable m n s (Driver j) \<longleftrightarrow> j < n \<and> driver_cv s ! j = [] \<and>
     (case driver_at s ! j of D_start \<Rightarrow> True | D_deliver i \<Rightarrow> True | _ \<Rightarrow> pizza_lock s = None)"
| "runnable m n s (Customer i) \<longleftrightarrow> i < m \<and> customer_cv s ! i = [] \<and>
     (case customer_at s ! i of
        C_start \<Rightarrow> True | C_outer \<Rightarrow> True | C_exit \<Rightarrow> False | _ \<Rightarrow> pizza_lock s = None)"

definition turns_well :: "nat \<Rightarrow> nat \<Rightarrow> unit pizza \<Rightarrow> pizza_state \<Rightarrow> bool" where
  "turns_well m n p s \<longleftrightarrow>
     (\<exists>s' es. p s = (Inr (), s') \<and> shape m n s' \<and> reported s' = reported s @ es \<and> good_turn m n (view s) (view s') es)"

lemma turns_wellI:
  assumes "moves m n p s (cs', ds', l', mq', reported s @ es)"
    and "good_turn m n (view s) (cs', ds', l', mq', reported s @ es) es"
  shows "turns_well m n p s"
  using assms unfolding turns_well_def moves_def view_def by (metis prod.inject)

lemma turns_wellI0:
  assumes "moves m n p s (cs', ds', l', mq', reported s)"
    and "good_turn m n (view s) (cs', ds', l', mq', reported s) []"
  shows "turns_well m n p s"
  using turns_wellI[of m n p s cs' ds' l' mq' "[]"] assms by simp

lemma pizza_invD:
  assumes "pizza_inv m n s"
  shows "shape m n s" and "view_inv m n (ccell s, dcell s, pizza_lock s, manager_cv s, reported s)"
  using assms by (simp_all add: pizza_inv_def view_def)

subsection \<open>Drivers\<close>

text \<open>The customer of a driver that is in a round.\<close>

lemma driver_partner:
  assumes "pizza_inv m n s" and "j < n" and "dcell s j = (D, p, q)" and "d_matched D" and "\<not> d_paid D"
  shows "\<exists>i C p' q' x. i < m \<and> ccell s i = (C, p', q') \<and> linked i (C, p', q') j (dcell s j) \<and>
    c_location C = Some x \<and> d_assigned_customer D = Some i \<and> p \<in> {D_match, D_deliver i, D_arrived i, D_paid i}"
proof -
  have "driver_in_round (dcell s j)" using assms(3-5) by (simp add: driver_in_round_def)
  from linked_driver[OF pizza_invD(2)[OF assms(1)] assms(2) this] obtain i C p' q' where
    i: "i < m" "ccell s i = (C, p', q')" "linked i (C, p', q') j (dcell s j)" "customer_local i (C, p', q')" by auto
  have "\<exists>x. c_location C = Some x" "d_assigned_customer D = Some i" "p \<in> {D_match, D_deliver i, D_arrived i, D_paid i}"
    using i(3,4) assms(3) by (auto simp: linked_def customer_local_def customer_in_round_def)
  then show ?thesis using i(1-3) by blast
qed

lemma driver_match_well:
  assumes I: "pizza_inv m n s" and m: "0 < m" and j: "j < n" and d: "dcell s j = (D, D_match, [])" and l: "pizza_lock s = None"
  shows "turns_well m n (driver_match j) s"
proof (cases "d_matched D")
  case True
  have loc: "driver_local j (D, D_match, [])" using view_invD(2)[OF pizza_invD(2)[OF I] j] d by simp
  then obtain i C p' q' where i: "i < m" "ccell s i = (C, p', q')" "linked i (C, p', q') j (dcell s j)"
    and a: "d_assigned_customer D = Some i" using driver_partner[OF I j d] True by (auto simp: driver_local_def)
  show ?thesis
    using driver_match_goes[OF pizza_invD(1)[OF I] j d l True a i(1)]
      driver_match_goes_good[OF pizza_invD(2)[OF I] i(1) j d i(2,3)] l
    by (intro turns_wellI0) (auto simp: view_def)
next
  case False
  have "d_id D = j" using view_invD(2)[OF pizza_invD(2)[OF I] j] d by (simp add: driver_local_def)
  then show ?thesis
    using driver_match_waits[OF pizza_invD(1)[OF I] j d l False] driver_match_waits_good[OF pizza_invD(2)[OF I] m j d False] l
    by (intro turns_wellI0) (auto simp: view_def)
qed

lemma driver_deliver_well:
  assumes I: "pizza_inv m n s" and j: "j < n" and d: "dcell s j = (D, D_deliver i, [])"
  shows "turns_well m n (driver_deliver j i) s"
proof -
  have "driver_local j (D, D_deliver i, [])" using view_invD(2)[OF pizza_invD(2)[OF I] j] d by simp
  then obtain C p' q' x where i: "i < m" "ccell s i = (C, p', q')" "linked i (C, p', q') j (dcell s j)" "c_location C = Some x"
    using driver_partner[OF I j d] by (auto simp: driver_local_def)
  show ?thesis
    using driver_deliver_moves[OF pizza_invD(1)[OF I] j d i(1,2,4)] driver_deliver_good[OF pizza_invD(2)[OF I] i(1) j d i(2,3,4)]
    by (intro turns_wellI) (auto simp: view_def)
qed

lemma driver_arrive_well:
  assumes I: "pizza_inv m n s" and j: "j < n" and d: "dcell s j = (D, D_arrived i, [])" and l: "pizza_lock s = None"
  shows "turns_well m n (driver_arrive j i) s"
proof -
  have loc: "driver_local j (D, D_arrived i, [])" using view_invD(2)[OF pizza_invD(2)[OF I] j] d by simp
  then obtain C p' q' x where i: "i < m" "ccell s i = (C, p', q')" "linked i (C, p', q') j (dcell s j)" "c_location C = Some x"
    using driver_partner[OF I j d] by (auto simp: driver_local_def)
  show ?thesis
    using driver_arrive_moves[OF pizza_invD(1)[OF I] j d i(1,2,4) l] driver_arrive_good[OF pizza_invD(2)[OF I] i(1) j d i(2,3,4)] loc l
    by (intro turns_wellI0) (auto simp: view_def driver_local_def)
qed

lemma driver_woken_well:
  assumes I: "pizza_inv m n s" and m: "0 < m" and j: "j < n" and d: "dcell s j = (D, D_paid i, [])" and l: "pizza_lock s = None"
  shows "turns_well m n (driver_woken j i) s"
proof (cases "d_paid D")
  case True
  then show ?thesis
    using driver_woken_goes[OF pizza_invD(1)[OF I] j d l] driver_woken_goes_good[OF pizza_invD(2)[OF I] m j d] l
    by (intro turns_wellI) (auto simp: view_def)
next
  case False
  have loc: "driver_local j (D, D_paid i, [])" using view_invD(2)[OF pizza_invD(2)[OF I] j] d by simp
  then obtain C p' q' where i: "i < m" "ccell s i = (C, p', q')" "linked i (C, p', q') j (dcell s j)"
    using driver_partner[OF I j d] False by (auto simp: driver_local_def)
  show ?thesis
    using driver_woken_waits[OF pizza_invD(1)[OF I] j d l False] driver_woken_waits_good[OF pizza_invD(2)[OF I] i(1) j d i(2,3)] l loc
    by (intro turns_wellI0) (auto simp: view_def driver_local_def)
qed

lemma driver_turns_well:
  assumes I: "pizza_inv m n s" and m: "0 < m" and r: "runnable m n s (Driver j)"
  shows "turns_well m n (turn (Driver j)) s"
proof -
  have j: "j < n" using r by simp
  obtain D p where d: "dcell s j = (D, p, [])" using r by (auto simp: dcell_def)
  then have at: "driver_at s ! j = p" "j < length (driver_at s)" using pizza_invD(1)[OF I] j by (auto simp: dcell_def shape_def)
  have "turns_well m n (driver_begin j) s" if "p = D_start"
    using driver_begin_moves[OF pizza_invD(1)[OF I] j d] driver_begin_good[OF pizza_invD(2)[OF I] m j] d that
    by (intro turns_wellI) (auto simp: view_def)
  moreover have "turn (Driver j) s = (case p of
       D_start \<Rightarrow> driver_begin j s | D_match \<Rightarrow> driver_match j s | D_deliver i \<Rightarrow> driver_deliver j i s
     | D_arrived i \<Rightarrow> driver_arrive j i s | D_paid i \<Rightarrow> driver_woken j i s)"
    using at by (simp add: turn_def prog_simps split: driver_place.splits)
  ultimately show ?thesis
    using driver_match_well[OF I m j] driver_deliver_well[OF I j] driver_arrive_well[OF I j] driver_woken_well[OF I m j] d r at
    by (cases p) (simp_all add: turns_well_def)
qed

subsection \<open>Customers\<close>

lemma customer_partner:
  assumes "pizza_inv m n s" and "i < m" and "ccell s i = (C, p, q)" and "c_status C = Unavailable" and "c_matched C"
  shows "\<exists>j D p' q'. j < n \<and> dcell s j = (D, p', q') \<and> linked i (C, p, q) j (D, p', q') \<and>
    c_assigned_driver C = Some j \<and> c_has_pizza C = Some (p' = D_paid i)"
proof -
  have "customer_in_round (ccell s i)" using assms(3-5) by (simp add: customer_in_round_def)
  from linked_customer[OF pizza_invD(2)[OF assms(1)] assms(2) this] obtain j D p' q' where
    j: "j < n" "dcell s j = (D, p', q')" "linked i (C, p, q) j (D, p', q')" using assms(3) by auto
  have "c_assigned_driver C = Some j" "c_has_pizza C = Some (p' = D_paid i)" using j(3) by (auto simp: linked_def)
  then show ?thesis using j by blast
qed

text \<open>
  The inner loop is entered with the lock held, just taken or kept from the turn before; \<open>l\<close> is the lock at
  the start of the turn.
\<close>

lemma customer_inner_well:
  assumes I: "pizza_inv m n s" and n: "0 < n" and i: "i < m" and c: "ccell s i = (C, p, [])"
    and p: "p \<in> {C_lock, C_wait, C_outer}" and nd: "\<not> is_done C"
    and l: "pizza_lock s = (if p = C_outer then Some (Customer i) else None)"
  shows "\<exists>v es. moves m n (customer_inner i) (s\<lparr>pizza_lock := Some (Customer i)\<rparr>) v \<and>
    snd (snd (snd (snd v))) = reported s @ es \<and> good_turn m n (view s) v es"
proof -
  let ?s = "s\<lparr>pizza_lock := Some (Customer i)\<rparr>"
  have sh: "shape m n ?s" and c': "ccell ?s i = (C, p, [])" and h: "pizza_lock ?s = Some (Customer i)"
    using pizza_invD(1)[OF I] c by simp_all
  note V = pizza_invD(2)[OF I]
  have loc: "customer_local i (C, p, [])" using view_invD(1)[OF V i] c by simp
  then have cid: "c_id C = i" by (simp add: customer_local_def)
  show ?thesis
  proof (cases "c_status C")
    case Available
    then have "c_has_pizza C = Some False" using loc by (simp add: customer_local_def)
    then show ?thesis
      using customer_inner_waits[OF sh i c' h, of False] cid customer_waits_good[OF V i n c Available, of "reported s"] l
      by (auto simp: view_def intro!: exI)
  next
    case Unavailable
    then have m: "c_matched C" "p \<noteq> C_outer" using loc p by (auto simp: customer_local_def)
    from customer_partner[OF I i c Unavailable m(1)] obtain j D p' q' where j: "j < n" "dcell s j = (D, p', q')"
      "linked i (C, p, []) j (D, p', q')" "c_assigned_driver C = Some j" "c_has_pizza C = Some (p' = D_paid i)" by auto
    have l0: "pizza_lock s = None" using l m(2) by simp
    show ?thesis
    proof (cases "p' = D_paid i")
      case True
      then show ?thesis
        using customer_inner_pays[OF sh i c' h _ m(1) j(4,1)] j 
          customer_pays_good[OF V i j(1) c l0 j(2,3), of "reported s @ [Pay (c_id C) (d_id D)] @ snd (customer_ready_up C)"]
        by (auto simp: view_def intro!: exI)
    next
      case False
      then show ?thesis
        using customer_inner_waits[OF sh i c' h j(5)] cid j
          customer_waits_linked_good[OF V[unfolded l0] i j(1) c j(2,3), of "reported s"] l0
        by (auto simp: view_def intro!: exI)
    qed
  qed (use nd in \<open>simp add: is_done_def\<close>)
qed

lemma customer_loop_well:
  assumes I: "pizza_inv m n s" and n: "0 < n" and i: "i < m" and c: "ccell s i = (C, p, [])"
    and p: "p \<in> {C_lock, C_outer}" and l: "pizza_lock s = (if p = C_outer then Some (Customer i) else None)"
  shows "\<exists>v es. moves m n (customer_outer i) (s\<lparr>pizza_lock := Some (Customer i)\<rparr>) v \<and>
    snd (snd (snd (snd v))) = reported s @ es \<and> good_turn m n (view s) v es"
proof -
  let ?s = "s\<lparr>pizza_lock := Some (Customer i)\<rparr>"
  have sh: "shape m n ?s" and c': "ccell ?s i = (C, p, [])" using pizza_invD(1)[OF I] c by simp_all
  show ?thesis
  proof (cases "is_done C")
    case True
    then have "moves m n (customer_outer i) ?s ((ccell s)(i := (C, C_exit, [])), dcell s, None, manager_cv s, reported s)"
      using customer_outer_done[OF sh i c'] by simp
    moreover have "good_turn m n (view s) ((ccell s)(i := (C, C_exit, [])), dcell s, None, manager_cv s, reported s) []"
      using customer_done_good[OF pizza_invD(2)[OF I] i n c] p l True by (auto simp: view_def is_done_def)
    ultimately show ?thesis by (intro exI[of _ "((ccell s)(i := (C, C_exit, [])), dcell s, None, manager_cv s, reported s)"] exI[of _ "[]"]) simp
  next
    case False
    then have "p \<in> {C_lock, C_wait, C_outer}" using p by blast
    from customer_inner_well[OF I n i c this False l] show ?thesis
      using customer_outer_inner[OF sh i c' False] by (simp add: moves_def)
  qed
qed

lemma moves_turns_well:
  assumes "\<exists>v es. moves m n p s v \<and> snd (snd (snd (snd v))) = reported s' @ es \<and> good_turn m n (view s') v es"
    and "p s = q s'"
  shows "turns_well m n q s'"
  using assms by (auto simp: turns_well_def moves_def view_def)

lemma customer_turns_well:
  assumes I: "pizza_inv m n s" and n: "0 < n" and r: "runnable m n s (Customer i)"
  shows "turns_well m n (turn (Customer i)) s"
proof -
  have i: "i < m" using r by simp
  obtain C p where c: "ccell s i = (C, p, [])" using r by (auto simp: ccell_def)
  then have at: "customer_at s ! i = p" "i < length (customer_at s)" using pizza_invD(1)[OF I] i by (auto simp: ccell_def shape_def)
  have outer: "p = C_outer \<longleftrightarrow> pizza_lock s = Some (Customer i)"
    using view_invD(4)[OF pizza_invD(2)[OF I]] i c by (auto simp: lock_ok_def)
  have loc: "customer_local i (C, p, [])" using view_invD(1)[OF pizza_invD(2)[OF I] i] c by simp
  show ?thesis
  proof (cases p)
    case C_start
    then have "turns_well m n (customer_begin i) s"
      using customer_begin_moves[OF pizza_invD(1)[OF I] i c] customer_begin_good[OF pizza_invD(2)[OF I] i n] c
      by (intro turns_wellI) (auto simp: view_def)
    then show ?thesis using at C_start by (simp add: turn_def turns_well_def prog_simps)
  next
    case C_lock
    then have l: "pizza_lock s = None" using r at by simp
    show ?thesis using moves_turns_well[OF customer_loop_well[OF I n i c], of "turn (Customer i)"] C_lock l at
      by (simp add: turn_def prog_simps customer_locks_def lock_def)
  next
    case C_outer
    then have "s\<lparr>pizza_lock := Some (Customer i)\<rparr> = s" using outer by simp
    then show ?thesis using moves_turns_well[OF customer_loop_well[OF I n i c], of "turn (Customer i)"] C_outer outer at
      by (simp add: turn_def prog_simps)
  next
    case C_wait
    then have l: "pizza_lock s = None" "\<not> is_done C" using r at loc by (auto simp: customer_local_def is_done_def)
    show ?thesis using moves_turns_well[OF customer_inner_well[OF I n i c], of "turn (Customer i)"] C_wait l at
      by (simp add: turn_def prog_simps customer_woken_def lock_def)
  qed (use r at in simp)
qed

subsection \<open>Manager\<close>

lemma has_available_iff:
  assumes "shape m n s"
  shows "has_available_delivery (customers s) (drivers s) \<longleftrightarrow> available m n (ccell s) (dcell s)"
  using assms by (auto simp: has_available_delivery_iff available_def shape_def ccell_def dcell_def)

lemma inv_near:
  assumes "pizza_inv m n s"
  shows "\<forall>c \<in> set (customers s). customer_near c" and "\<forall>d \<in> set (drivers s). near (d_location d)"
proof -
  note V = view_invD[OF pizza_invD(2)[OF assms]]
  show "\<forall>c \<in> set (customers s). customer_near c"
    using V(1) pizza_invD(1)[OF assms]
    by (fastforce simp: in_set_conv_nth shape_def ccell_def customer_local_def customer_near_def customer_is_ready_def)
  show "\<forall>d \<in> set (drivers s). near (d_location d)"
    using V(2) pizza_invD(1)[OF assms] by (fastforce simp: in_set_conv_nth shape_def dcell_def driver_local_def)
qed

text \<open>The pair that the search finds is a closest one for the specification.\<close>

lemma closest_spec:
  assumes I: "pizza_inv m n s" and r: "ready_pair (customers s) (drivers s) i j"
    and min: "\<forall>i' j'. ready_pair (customers s) (drivers s) i' j' \<longrightarrow>
      pair_dist (customers s) (drivers s) i j \<le> pair_dist (customers s) (drivers s) i' j'"
  shows "spec_closest (spec_view m n (view s)) i j"
proof -
  have sh: "length (customers s) = m" "length (drivers s) = n" using pizza_invD(1)[OF I] by (simp_all add: shape_def)
  have ij: "i < m" "j < n" "c_status (customers s ! i) = Available" "d_status (drivers s ! j) = Available"
    using r sh by (auto simp: ready_pair_def customer_is_ready_def driver_is_ready_def)
  have D: "driver_phase_of (dcell s j) = Free \<longleftrightarrow> d_status (drivers s ! j) = Available"
    and P: "d_status (drivers s ! j) = Available \<Longrightarrow> driver_place_of (ccell s) (dcell s j) = d_location (drivers s ! j)"
    if "j < n" for j
    using view_invD(2)[OF pizza_invD(2)[OF I] that]
    by (auto simp: dcell_def driver_local_def driver_phase_of_def driver_place_of_def split: driver_place.splits if_splits)
  have C: "customer_phase_of (ccell s i) = Asked l \<longleftrightarrow> c_status (customers s ! i) = Available \<and> l = the (c_location (customers s ! i))" for i l
    by (auto simp: ccell_def customer_phase_of_def split: Status.splits)
  have r': "ready_pair (customers s) (drivers s) i' j'" if "i' < m" "j' < n" "customer_phase_of (ccell s i') = Asked l'"
    "driver_phase_of (dcell s j') = Free" for i' j' l'
    using that C D sh by (auto simp: ready_pair_def customer_is_ready_def driver_is_ready_def)
  show ?thesis
    using ij C[of i] P[of j] min r' D P C
    by (fastforce simp: spec_closest_def view_def pair_dist_def split: customer_phase.splits)
qed

lemma manager_turns_well:
  assumes I: "pizza_inv m n s" and r: "runnable m n s Manager"
  shows "turns_well m n (turn Manager) s"
proof -
  have l: "pizza_lock s = None" and q: "manager_cv s = []" using r by simp_all
  note sh = pizza_invD(1)[OF I] and V = pizza_invD(2)[OF I]
  have "turns_well m n manager_turn s"
  proof (cases "has_available_delivery (customers s) (drivers s)")
    case False
    then have "\<not> available m n (ccell s) (dcell s)" using has_available_iff[OF sh] by simp
    then show ?thesis using manager_waits[OF sh l False] manager_waits_good[OF V[unfolded q]] q l
      by (intro turns_wellI0) (auto simp: view_def)
  next
    case True
    from match_delivery_closest[OF inv_near[OF I] True] obtain i j where
      m: "match_delivery (customers s) (drivers s) = Inr ((i, j), [Match (c_id (customers s ! i)) (d_id (drivers s ! j))])"
      and r: "ready_pair (customers s) (drivers s) i j"
      and min: "\<forall>i' j'. ready_pair (customers s) (drivers s) i' j' \<longrightarrow>
        pair_dist (customers s) (drivers s) i j \<le> pair_dist (customers s) (drivers s) i' j'"
      by (metis less_imp_le order_refl)
    have ij: "i < m" "j < n" "c_status (customers s ! i) = Available" "d_status (drivers s ! j) = Available"
      using r sh by (auto simp: ready_pair_def customer_is_ready_def driver_is_ready_def shape_def)
    have ids: "c_id (customers s ! i) = i" "d_id (drivers s ! j) = j"
      using view_invD(1,2)[OF V] ij by (auto simp: ccell_def dcell_def customer_local_def driver_local_def)
    have cl: "spec_closest (spec_view m n (ccell s, dcell s, pizza_lock s, manager_cv s, reported s)) i j"
      using closest_spec[OF I r min] by (simp add: view_def)
    show ?thesis
      using manager_matches[OF sh l True m ij(1,2) ccell_def dcell_def] manager_matches_good[OF V ij(1,2) ccell_def l dcell_def ij(3,4) cl] ids l
      by (intro turns_wellI) (auto simp: view_def)
  qed
  then show ?thesis by (simp add: turn_def)
qed

end
