(* ===== verification/Pizza_Runs.thy ===== *)
theory Pizza_Runs
  imports Pizza_Progress
begin

text \<open>
  Whole runs of the pizza application: from the start, under every schedule, until no thread can run.
\<close>

subsection \<open>Threads that can run\<close>

lemma turns_well_any:
  assumes "pizza_inv m n s" and "0 < m" and "0 < n" and "runnable m n s t"
  shows "turns_well m n (turn t) s"
  using assms driver_turns_well customer_turns_well manager_turns_well by (cases t) auto

text \<open>A thread waits in its own queue only.\<close>

lemma waits_iff:
  assumes "pizza_inv m n s"
  shows "waits Manager s \<longleftrightarrow> manager_cv s \<noteq> []"
    and "waits (Driver j) s \<longleftrightarrow> j < n \<and> driver_cv s ! j \<noteq> []"
    and "waits (Customer i) s \<longleftrightarrow> i < m \<and> customer_cv s ! i \<noteq> []"
proof -
  note V = view_invD[OF pizza_invD(2)[OF assms]]
  have len: "length (driver_cv s) = n" "length (customer_cv s) = m" using pizza_invD(1)[OF assms] by (simp_all add: shape_def)
  have d: "driver_cv s ! j = [] \<or> driver_cv s ! j = [Driver j]" if "j < n" for j
    using V(2)[OF that] by (auto simp: dcell_def driver_local_def)
  have c: "customer_cv s ! i = [] \<or> customer_cv s ! i = [Customer i]" if "i < m" for i
    using V(1)[OF that] by (auto simp: ccell_def customer_local_def)
  have inL: "t \<in> set (concat qs) \<longleftrightarrow> (\<exists>k < length qs. t \<in> set (qs ! k))" for t :: pizza_thread and qs
    by (metis UN_iff in_set_conv_nth set_concat)
  have inD: "t \<in> set (concat (driver_cv s)) \<longleftrightarrow> (\<exists>k < n. t = Driver k \<and> driver_cv s ! k \<noteq> [])" for t
    unfolding inL len using d by fastforce
  have inC: "t \<in> set (concat (customer_cv s)) \<longleftrightarrow> (\<exists>k < m. t = Customer k \<and> customer_cv s ! k \<noteq> [])" for t
    unfolding inL len using c by fastforce
  show "waits Manager s \<longleftrightarrow> manager_cv s \<noteq> []"
    and "waits (Driver j) s \<longleftrightarrow> j < n \<and> driver_cv s ! j \<noteq> []"
    and "waits (Customer i) s \<longleftrightarrow> i < m \<and> customer_cv s ! i \<noteq> []"
    using V(5) unfolding waits_def inD inC by auto
qed

lemma locked_blocks:
  assumes "pizza_lock s \<noteq> None"
  shows "fst (seqp (lock t) k s) = Inl Blocked"
  using assms by (cases "pizza_lock s") (simp_all add: lock_def prog_simps)

lemmas locking_defs = driver_match_def driver_arrive_def driver_woken_def customer_locks_def customer_woken_def manager_turn_def

lemma blocked_iff:
  assumes "pizza_inv m n s" and "\<not> waits t s" and "\<not> runnable m n s t"
  shows "fst (turn t s) = Inl Blocked"
proof -
  note w = waits_iff[OF assms(1)]
  have len: "length (driver_at s) = n" "length (customer_at s) = m" using pizza_invD(1)[OF assms(1)] by (simp_all add: shape_def)
  show ?thesis
  proof (cases t)
    case Manager
    then have "pizza_lock s \<noteq> None" using assms(2,3) w by simp
    from locked_blocks[OF this] show ?thesis unfolding Manager turn_def manager_turn_def by simp
  next
    case (Driver j)
    show ?thesis
    proof (cases "j < n")
      case True
      then have "driver_at s ! j \<noteq> D_start" "\<forall>i. driver_at s ! j \<noteq> D_deliver i" "pizza_lock s \<noteq> None"
        using assms(2,3) w(2) Driver by (auto split: driver_place.splits)
      then show ?thesis using locked_blocks[of s] True len Driver
        by (cases "driver_at s ! j") (simp_all add: turn_def bindp_pure(3) locking_defs)
    qed (use Driver len in \<open>simp add: turn_def prog_simps\<close>)
  next
    case (Customer i)
    show ?thesis
    proof (cases "i < m")
      case True
      then have "customer_at s ! i \<noteq> C_start" "customer_at s ! i \<noteq> C_outer"
        "customer_at s ! i = C_exit \<or> pizza_lock s \<noteq> None"
        using assms(2,3) w(3) Customer by (auto split: customer_place.splits)
      then show ?thesis using locked_blocks[of s] True len Customer
        by (cases "customer_at s ! i") (simp_all add: turn_def bindp_pure(3) locking_defs halt_app)
    qed (use Customer len in \<open>simp add: turn_def prog_simps\<close>)
  qed
qed

lemma runnable_not_waits: "pizza_inv m n s \<Longrightarrow> runnable m n s t \<Longrightarrow> \<not> waits t s"
  by (cases t) (simp_all add: waits_iff)

lemma can_run_iff:
  assumes "pizza_inv m n s" and "0 < m" and "0 < n"
  shows "can_run t s \<longleftrightarrow> runnable m n s t"
proof
  show "can_run t s \<Longrightarrow> runnable m n s t" using blocked_iff[OF assms(1)] by (auto simp: can_run_def)
  show "runnable m n s t \<Longrightarrow> can_run t s"
    using turns_well_any[OF assms] runnable_not_waits[OF assms(1)] by (fastforce simp: can_run_def turns_well_def)
qed

subsection \<open>Runs of a schedule\<close>

lemma turn_keeps:
  assumes "pizza_inv m n s" and "0 < m" and "0 < n" and "can_run t s"
  shows "\<exists>s' es. turn t s = (Inr (), s') \<and> pizza_inv m n s' \<and> reported s' = reported s @ es \<and>
    good_turn m n (view s) (view s') es"
proof -
  have "runnable m n s t" using can_run_iff[OF assms(1-3)] assms(4) by simp
  from turns_well_any[OF assms(1-3) this] show ?thesis unfolding turns_well_def
    by (elim exE conjE) (auto simp: pizza_inv_def good_turn_def)
qed

lemma run_keeps:
  assumes "pizza_inv m n s" and "0 < m" and "0 < n" and "run_schedule ts s = (r, s')"
  shows "(r = Inr () \<or> r = Inl Blocked) \<and> pizza_inv m n s' \<and>
    (\<exists>es. reported s' = reported s @ es \<and> spec_run es (spec_view m n (view s)) = Some (spec_view m n (view s'))) \<and>
    (r = Inr () \<longrightarrow> work m n (view s') + length ts \<le> work m n (view s))"
  using assms(1,4)
proof (induction ts arbitrary: s)
  case (Cons t ts)
  show ?case
  proof (cases "can_run t s")
    case True
    from turn_keeps[OF Cons.prems(1) assms(2,3) True] obtain s1 es where
      s1: "turn t s = (Inr (), s1)" "pizza_inv m n s1" "reported s1 = reported s @ es" "good_turn m n (view s) (view s1) es" by auto
    have "run_schedule ts s1 = (r, s')" using Cons.prems(2) True s1(1) by (simp add: bindp_Inr)
    note r = Cons.IH[OF s1(2) this]
    then obtain es' where es': "reported s' = reported s1 @ es'" "spec_run es' (spec_view m n (view s1)) = Some (spec_view m n (view s'))"
      by auto
    have "reported s' = reported s @ es @ es'"
      "spec_run (es @ es') (spec_view m n (view s)) = Some (spec_view m n (view s'))"
      using s1(3,4) es' by (simp_all add: spec_run_append good_turn_def)
    then show ?thesis using r s1(4) by (auto simp: good_turn_def)
  next
    case False
    then show ?thesis using Cons.prems by auto
  qed
qed auto

subsection \<open>The end of a run\<close>

lemma stuck_done:
  assumes I: "pizza_inv m n s" and m: "0 < m" "0 < n" and stuck: "\<forall>t. \<not> can_run t s"
  shows "i < m \<Longrightarrow> customer_at s ! i = C_exit \<and> is_done (customers s ! i) \<and> c_requests (customers s ! i) = []"
    and "j < n \<Longrightarrow> driver_is_ready (drivers s ! j) \<and> waits (Driver j) s" and "waits Manager s"
proof -
  note V = view_invD[OF pizza_invD(2)[OF I]]
  have nr: "\<not> runnable m n s t" for t using stuck can_run_iff[OF I m] by simp
  have "pizza_lock s \<noteq> Some (Customer i)" if "i < m" for i
    using nr[of "Customer i"] V(1)[OF that] V(4) that by (auto simp: lock_ok_def ccell_def customer_local_def)
  then have l: "pizza_lock s = None" using V(4) by (auto simp: lock_ok_def)
  show mgr: "waits Manager s" using nr[of Manager] l waits_iff[OF I] by simp
  then have na: "\<not> available m n (ccell s) (dcell s)" using V(5) waits_iff[OF I] by auto
  have dq: "driver_cv s ! j = [Driver j]" if "j < n" for j
    using nr[of "Driver j"] l that V(2)[OF that] by (auto simp: dcell_def driver_local_def split: driver_place.splits)
  have cq: "customer_at s ! i = C_exit \<or> customer_cv s ! i = [Customer i]" if "i < m" for i
    using nr[of "Customer i"] l that V(1)[OF that] by (auto simp: ccell_def customer_local_def split: customer_place.splits)
  have alone: "\<not> linked i (ccell s i) j (dcell s j)" if "i < m" "j < n" for i j
    using dq[OF that(2)] cq[OF that(1)] V(1)[OF that(1)] V(2)[OF that(2)]
    by (auto simp: ccell_def dcell_def linked_def customer_in_round_def driver_in_round_def customer_local_def driver_local_def
        split: Status.splits)
  then have cr: "\<not> customer_in_round (ccell s i)" if "i < m" for i using V(3) that by (auto simp: paired_def)
  have dr: "\<not> driver_in_round (dcell s j)" if "j < n" for j using V(3) that alone by (auto simp: paired_def)
  show D: "driver_is_ready (drivers s ! j) \<and> waits (Driver j) s" if "j < n" for j
    using V(2)[OF that] dr[OF that] dq[OF that] that waits_iff[OF I]
    by (auto simp: dcell_def driver_local_def driver_in_round_def driver_is_ready_def split: driver_place.splits if_splits)
  have "\<not> customer_is_ready (customers s ! i)" if "i < m" for i
    using na D[OF m(2)] that m(2) by (auto simp: available_def ccell_def dcell_def)
  then show "customer_at s ! i = C_exit \<and> is_done (customers s ! i) \<and> c_requests (customers s ! i) = []" if "i < m" for i
    using V(1)[OF that] cr[OF that] cq[OF that] that
    by (auto simp: ccell_def customer_local_def customer_in_round_def customer_is_ready_def is_done_def split: Status.splits)
qed

subsection \<open>The start\<close>

lemma create_customers_new:
  assumes "create_customers files k names = Inr cs"
  shows "length cs = length names \<and>
    (\<forall>i < length cs. \<exists>contents. files (names ! i) = Some contents \<and> cs ! i = new_customer (k + i) (read_requests contents))"
  using assms
proof (induction names arbitrary: k cs)
  case (Cons name names)
  then obtain contents cs' where c: "files name = Some contents" "create_customers files (k + 1) names = Inr cs'"
    "cs = new_customer k (read_requests contents) # cs'"
    by (auto simp: create_requests_def split: sum.splits option.splits)
  show ?case using Cons.IH[OF c(2)] c(1,3) by (auto simp: nth_Cons split: nat.splits)
qed simp

lemma start_inv:
  assumes "\<forall>i < length cs. \<exists>ls. cs ! i = new_customer i ls \<and> (\<forall>l \<in> set ls. near l)"
  shows "pizza_inv (length cs) n (initial_state n cs)"
proof -
  let ?s = "initial_state n cs"
  have c: "customer_local i (ccell ?s i)" "\<not> customer_in_round (ccell ?s i)" "fst (snd (ccell ?s i)) = C_start" if "i < length cs" for i
    using assms that by (auto simp: ccell_def initial_state_def new_customer_def customer_local_def customer_in_round_def)
  have d: "driver_local j (dcell ?s j)" "\<not> driver_in_round (dcell ?s j)" if "j < n" for j
    using that by (auto simp: dcell_def initial_state_def new_driver_def driver_local_def driver_in_round_def near_def)
  have "paired (length cs) n (ccell ?s) (dcell ?s)" using c(2) d(2) by (simp add: paired_def)
  moreover have "lock_ok (length cs) (ccell ?s) None" using c(3) by (simp add: lock_ok_def)
  moreover have "pizza_lock ?s = None" "manager_cv ?s = []" by (simp_all add: initial_state_def)
  ultimately show ?thesis using c(1) d(1)
    by (simp add: pizza_inv_def view_inv_def view_def) (simp add: shape_def initial_state_def)
qed

lemma start_spec:
  assumes "\<forall>i < length cs. \<exists>ls. cs ! i = new_customer i ls"
  shows "spec_view (length cs) n (view (initial_state n cs)) =
    spec_start (length cs) n (\<lambda>i. if i < length cs then c_requests (cs ! i) else [])"
  using assms
  by (auto simp: spec_view_def spec_start_def view_def ccell_def dcell_def initial_state_def fun_eq_iff new_driver_def
      new_customer_def customer_phase_of_def driver_place_of_def driver_phase_of_def split: prod.splits Status.splits)

lemma start_work:
  assumes "\<forall>i < length cs. \<exists>ls. cs ! i = new_customer i ls"
  shows "work (length cs) n (view (initial_state n cs)) =
    12 * (\<Sum>i<length cs. length (c_requests (cs ! i))) + 3 * length cs + 3 * n + 1"
proof -
  have "(\<Sum>i<length cs. customer_work (ccell (initial_state n cs) i)) = (\<Sum>i<length cs. 12 * length (c_requests (cs ! i)) + 3)"
    by (rule sum.cong) (auto simp: customer_work_def ccell_def initial_state_def)
  moreover have "(\<Sum>j<n. driver_work (dcell (initial_state n cs) j)) = (\<Sum>j<n. 3)"
    by (rule sum.cong) (auto simp: driver_work_def dcell_def initial_state_def)
  ultimately show ?thesis by (simp add: work_def view_def sum.distrib sum_distrib_left initial_state_def)
qed

text \<open>What \<open>start_pizza\<close> gives, and the invariant along the steps from there.\<close>

lemma start_pizza_state:
  assumes "start_pizza files argv = Inr s0"
  shows "\<exists>n cs. s0 = initial_state n cs \<and> 0 < n \<and> 0 < length cs \<and> (\<forall>i < length cs. \<exists>ls. cs ! i = new_customer i ls)"
proof -
  obtain nd nc cs where c: "load_input argv = Inr (nd, nc)" "create_customers files 0 (drop 2 argv) = Inr cs"
    "s0 = initial_state (nat nd) cs"
    using assms by (auto simp: start_pizza_def split: sum.splits)
  have "0 < nd" "2 < length argv"
    using c(1) by (auto simp: load_input_def Let_def split: if_splits sum.splits conversion_error.splits)
  then show ?thesis using create_customers_new[OF c(2)] c(3) by (intro exI[of _ "nat nd"] exI[of _ cs]) force
qed

definition near_requests :: "pizza_state \<Rightarrow> bool" where
  "near_requests s \<longleftrightarrow> (\<forall>c \<in> set (customers s). \<forall>l \<in> set (c_requests c). near l)"

lemma start_pizza_inv:
  assumes "start_pizza files argv = Inr s0" and "near_requests s0"
  shows "pizza_inv (length (customers s0)) (length (drivers s0)) s0"
    and "0 < length (customers s0)" and "0 < length (drivers s0)"
    and "\<exists>n cs. s0 = initial_state n cs \<and> (\<forall>i < length cs. \<exists>ls. cs ! i = new_customer i ls)"
proof -
  obtain n cs where s0: "s0 = initial_state n cs" "0 < n" "0 < length cs" "\<forall>i < length cs. \<exists>ls. cs ! i = new_customer i ls"
    using start_pizza_state[OF assms(1)] by auto
  have "\<forall>i < length cs. \<exists>ls. cs ! i = new_customer i ls \<and> (\<forall>l \<in> set ls. near l)"
  proof (intro allI impI)
    fix i
    assume i: "i < length cs"
    then obtain ls where ls: "cs ! i = new_customer i ls" using s0(4) by auto
    have "\<forall>l \<in> set (c_requests (cs ! i)). near l"
      using assms(2) i nth_mem[OF i] s0(1) by (auto simp: near_requests_def initial_state_def)
    then show "\<exists>ls. cs ! i = new_customer i ls \<and> (\<forall>l \<in> set ls. near l)" using ls by (simp add: new_customer_def)
  qed
  from start_inv[OF this] show "pizza_inv (length (customers s0)) (length (drivers s0)) s0"
    by (simp add: s0(1)) (simp add: initial_state_def)
  show "0 < length (customers s0)" "0 < length (drivers s0)" using s0 by (simp_all add: initial_state_def)
  show "\<exists>n cs. s0 = initial_state n cs \<and> (\<forall>i < length cs. \<exists>ls. cs ! i = new_customer i ls)" using s0 by blast
qed

definition good_start :: "pizza_state \<Rightarrow> bool" where
  "good_start s0 \<longleftrightarrow> near_requests s0 \<and> (\<exists>files argv. start_pizza files argv = Inr s0)"

text \<open>The invariant holds of every state that is reached from a good start.\<close>

interpretation pizza: inductive_invariant s0 pizza_step
  "\<lambda>s. good_start s0 \<longrightarrow> pizza_inv (length (customers s0)) (length (drivers s0)) s" for s0
proof unfold_locales
  show "good_start s0 \<longrightarrow> pizza_inv (length (customers s0)) (length (drivers s0)) s0"
    using start_pizza_inv(1) by (auto simp: good_start_def)
next
  fix s t s'
  assume i: "good_start s0 \<longrightarrow> pizza_inv (length (customers s0)) (length (drivers s0)) s" and "pizza_step s t s'"
  then have t: "can_run t s" "turn t s = (Inr (), s')" by (auto elim: pizza_stepE)
  show "good_start s0 \<longrightarrow> pizza_inv (length (customers s0)) (length (drivers s0)) s'"
  proof
    assume g: "good_start s0"
    then have "0 < length (customers s0)" "0 < length (drivers s0)" using start_pizza_inv(2,3) by (auto simp: good_start_def)
    from turn_keeps[OF _ this t(1)] i g t(2) show "pizza_inv (length (customers s0)) (length (drivers s0)) s'" by auto
  qed
qed

text \<open>The states that schedules reach are the states that steps reach.\<close>

lemma schedule_reach:
  assumes "reach s0 pizza_step s" and "run_schedule ts s = (Inr (), s')"
  shows "reach s0 pizza_step s'"
  using assms
proof (induction ts arbitrary: s)
  case (Cons t ts)
  then obtain s1 where s1: "can_run t s" "turn t s = (Inr (), s1)" "run_schedule ts s1 = (Inr (), s')"
    by (auto simp: bindp_def split: if_splits prod.splits sum.splits)
  have "reach s0 pizza_step s1" using reach_step[OF Cons.prems(1) pizza_turn[OF s1(1,2)]] .
  then show ?case using Cons.IH s1(3) by blast
qed simp

text \<open>Every step extends the run of a schedule.\<close>

lemma run_snoc:
  assumes "run_schedule ts s0 = (Inr (), s)" and "can_run t s" and "turn t s = (Inr (), s')"
  shows "run_schedule (ts @ [t]) s0 = (Inr (), s')"
  using assms(1)
proof (induction ts arbitrary: s0)
  case (Cons u ts)
  then show ?case by (auto simp: bindp_def split: if_splits prod.splits sum.splits)
qed (use assms in \<open>simp add: bindp_def\<close>)

lemma reach_by_schedule:
  assumes "reach s0 pizza_step s"
  shows "\<exists>ts. run_schedule ts s0 = (Inr (), s)"
  using assms
proof (induction rule: reach.induct)
  case reach_start
  show ?case by (rule exI[of _ "[]"]) simp
next
  case (reach_step s t s')
  then obtain ts where ts: "run_schedule ts s0 = (Inr (), s)" by auto
  from reach_step(2) have "can_run t s" "turn t s = (Inr (), s')" by (auto elim: pizza_stepE)
  from run_snoc[OF ts this] show ?case by blast
qed

text \<open>The threads of a state.\<close>

definition threads_of :: "pizza_state \<Rightarrow> pizza_thread list" where
  "threads_of s = Manager # map Driver [0..<length (drivers s)] @ map Customer [0..<length (customers s)]"

definition all_blocked :: "pizza_state \<Rightarrow> bool" where
  "all_blocked s \<longleftrightarrow> list_all (\<lambda>t. \<not> can_run t s) (threads_of s)"

lemma all_blocked_iff:
  assumes "pizza_inv m n s" and "0 < m" and "0 < n"
  shows "all_blocked s \<longleftrightarrow> (\<forall>t. \<not> can_run t s)"
proof -
  have len: "length (customers s) = m" "length (drivers s) = n" using pizza_invD(1)[OF assms(1)] by (simp_all add: shape_def)
  have "t \<in> set (threads_of s)" if "runnable m n s t" for t using that len by (cases t) (auto simp: threads_of_def)
  then show ?thesis using can_run_iff[OF assms] by (auto simp: all_blocked_def list_all_iff)
qed

end
