(* ===== verification/Pizza_Properties.thy ===== *)
theory Pizza_Properties
  imports Pizza_Runs Thread_Lib "HOL-Library.Code_Target_Numeral"
begin

text \<open>
  The properties of the pizza application.  The example has one driver and two customers with one
  request each.
\<close>

subsection \<open>The condition variables of the library\<close>

text \<open>What the application assumes of a signal is what \<^verbatim>\<open>cv::signal\<close> of \<^verbatim>\<open>src/threadlib\<close> does to its queue.\<close>

lemma library_signal: "cvs (cv_signal v s) = (cvs s)(v := tl (cvs s v))"
  by (auto simp: cv_signal_def push_and_signal_def Let_def fun_eq_iff split: list.splits)

subsection \<open>Example\<close>

definition demo_files :: "string \<Rightarrow> string option" where
  "demo_files name =
     (if name = ''customer.in0'' then Some ''3 4'' else if name = ''customer.in1'' then Some ''1 2'' else None)"

definition demo_argv :: "string list" where
  "demo_argv = [''pizza'', ''1'', ''customer.in0'', ''customer.in1'']"

definition demo :: pizza_state where
  "demo = projr (start_pizza demo_files demo_argv)"

definition demo_round :: "nat \<Rightarrow> pizza_thread list" where
  "demo_round i = [Manager, Driver 0, Driver 0, Driver 0, Customer i, Customer i, Driver 0]"

definition demo_schedule :: "pizza_thread list" where
  "demo_schedule = [Driver 0, Customer 0, Customer 1] @ demo_round 1 @ demo_round 0 @ [Manager, Driver 0]"

definition demo_ready :: pizza_state where
  "demo_ready = snd (run_schedule [Driver 0, Customer 0, Customer 1] demo)"

definition demo_end :: pizza_state where
  "demo_end = snd (run_schedule demo_schedule demo)"

lemma demo_start: "start_pizza demo_files demo_argv = Inr demo"
  by code_simp

lemma demo_near: "near_requests demo"
  by code_simp

lemma demo_run: "run_schedule demo_schedule demo = (Inr (), demo_end)"
proof -
  have "fst (run_schedule demo_schedule demo) = Inr ()" by code_simp
  then show ?thesis unfolding demo_end_def by (metis prod.collapse)
qed

lemma demo_reach: "reach demo pizza_step demo_ready"
proof -
  have "fst (run_schedule [Driver 0, Customer 0, Customer 1] demo) = Inr ()" by code_simp
  then have "run_schedule [Driver 0, Customer 0, Customer 1] demo = (Inr (), demo_ready)"
    unfolding demo_ready_def by (metis prod.collapse)
  from schedule_reach[OF reach_start this] show ?thesis .
qed

lemma start_reach:
  assumes "start_pizza files argv = Inr s0" and "near_requests s0" and "reach s0 pizza_step s"
  shows "pizza_inv (length (customers s0)) (length (drivers s0)) s"
  using pizza.inv_reach[OF assms(3)] assms(1,2) by (auto simp: good_start_def)

subsection \<open>Properties\<close>

text \<open>
  C37: Every request is delivered and paid, under every schedule.  A run of the application ends after a
  number of turns that the number of requests, customers and drivers bounds; and when no thread can run,
  every customer has asked for the requests of its file in order, has paid as many times as it asked,
  and its thread has ended.  (Coordinates are below \<open>2 ^ 30\<close>.)
\<close>

theorem deliveries_complete:
  assumes "start_pizza files argv = Inr s0" and "near_requests s0" and "run_schedule ts s0 = (Inr (), s)"
  shows "length ts \<le> 12 * (\<Sum>i<length (customers s0). length (c_requests (customers s0 ! i)))
      + 3 * length (customers s0) + 3 * length (drivers s0) + 1 \<and>
    (all_blocked s \<longrightarrow>
      (\<forall>i < length (customers s0).
         requests_of i (reported s) = c_requests (customers s0 ! i) \<and>
         payments_of i (reported s) = length (c_requests (customers s0 ! i)) \<and>
         customer_at s ! i = C_exit))"
proof -
  let ?m = "length (customers s0)" and ?n = "length (drivers s0)"
  note st = start_pizza_inv[OF assms(1,2)]
  obtain n cs where s0: "s0 = initial_state n cs" "\<forall>i < length cs. \<exists>ls. cs ! i = new_customer i ls" using st(4) by auto
  then have mn: "?m = length cs" "?n = n" "customers s0 = cs" "reported s0 = []" by (simp_all add: initial_state_def)
  from run_keeps[OF st(1,2,3) assms(3)] obtain es where r: "pizza_inv ?m ?n s" "reported s = es"
    "spec_run es (spec_view ?m ?n (view s0)) = Some (spec_view ?m ?n (view s))" "work ?m ?n (view s) + length ts \<le> work ?m ?n (view s0)"
    using mn(4) by auto
  have "length ts \<le> work ?m ?n (view s0)" using r(4) by simp
  moreover have "work ?m ?n (view s0) = 12 * (\<Sum>i<?m. length (c_requests (customers s0 ! i))) + 3 * ?m + 3 * ?n + 1"
    using start_work[OF s0(2), of n] mn s0(1) by simp
  moreover have "requests_of i (reported s) = c_requests (customers s0 ! i) \<and>
      payments_of i (reported s) = length (c_requests (customers s0 ! i)) \<and> customer_at s ! i = C_exit"
    if b: "all_blocked s" and i: "i < ?m" for i
  proof -
    have e: "customer_at s ! i = C_exit" "is_done (customers s ! i)" "c_requests (customers s ! i) = []"
      using stuck_done(1)[OF r(1) st(2,3) _ i] b all_blocked_iff[OF r(1) st(2,3)] by auto
    have t: "todo (spec_view ?m ?n (view s)) i = []" "under_way (spec_view ?m ?n (view s)) i = 0"
      using e(2,3) i by (simp_all add: view_def under_way_def ccell_def customer_phase_of_def is_done_def)
    have t0: "todo (spec_view ?m ?n (view s0)) i = c_requests (customers s0 ! i)" "under_way (spec_view ?m ?n (view s0)) i = 0"
      using start_spec[OF s0(2), of n] mn s0(1) i by (simp_all add: spec_start_def under_way_def)
    show ?thesis using spec_requests[OF r(3), of i] spec_payments[OF r(3), of i] t t0 r(2) e(1) by simp
  qed
  ultimately show ?thesis by simp
qed

theorem deliveries_complete_witness:
  "length demo_schedule \<le> 34 \<and> payments_of 0 (reported demo_end) = 1 \<and> payments_of 1 (reported demo_end) = 1"
proof -
  have "all_blocked demo_end" and n: "length (customers demo) = 2" "length (drivers demo) = 1"
    "length (c_requests (customers demo ! 0)) = 1" "length (c_requests (customers demo ! 1)) = 1" by code_simp+
  then show ?thesis using deliveries_complete[OF demo_start demo_near demo_run] by (simp add: lessThan_Suc numeral_2_eq_2)
qed

text \<open>
  C38: Every turn of every thread completes: in every state that the application reaches, a thread that can
  run gets to its next blocking point.  No member is read before it is set, no vector is accessed out of
  its range, no null pointer is used by the matching, no distance overflows, and no mutex is unlocked by a
  thread that does not hold it.  This holds for input files whose coordinates are below \<open>2 ^ 30\<close>;
  with larger ones the distance does overflow (\<open>far_request_undefined\<close> below).  That \<^verbatim>\<open>main.cpp\<close> 142
  copies a new customer together with the members that its constructor has not set is not counted as a
  use of them.
\<close>

theorem pizza_turns_complete:
  assumes "start_pizza files argv = Inr s0" and "near_requests s0" and "reach s0 pizza_step s" and "can_run t s"
  shows "\<exists>s'. turn t s = (Inr (), s') \<and> pizza_step s t s'"
  using turn_keeps[OF start_reach[OF assms(1-3)] start_pizza_inv(2,3)[OF assms(1,2)] assms(4)] assms(4)
  by (auto intro: pizza_turn)

theorem pizza_turns_complete_witness: "\<exists>s'. turn Manager demo_ready = (Inr (), s') \<and> pizza_step demo_ready Manager s'"
proof -
  have "can_run Manager demo_ready" by code_simp
  from pizza_turns_complete[OF demo_start demo_near demo_reach this] show ?thesis .
qed

text \<open>
  C39: The events that the application reports follow the rules of the specification \<open>spec_run\<close>: requests
  in the order of the file, one at a time; each matched with a free driver such that no available pair is
  closer; a drive from where the driver is to where its customer is; payment after the delivery and to
  that driver; and neither of the two ready again before it.
\<close>

theorem pizza_refines:
  assumes "start_pizza files argv = Inr s0" and "near_requests s0" and "reach s0 pizza_step s"
  shows "spec_run (reported s) (spec_start (length (customers s0)) (length (drivers s0))
      (\<lambda>i. if i < length (customers s0) then c_requests (customers s0 ! i) else [])) =
    Some (spec_view (length (customers s0)) (length (drivers s0)) (view s))"
proof -
  note st = start_pizza_inv[OF assms(1,2)]
  obtain n cs where s0: "s0 = initial_state n cs" "\<forall>i < length cs. \<exists>ls. cs ! i = new_customer i ls" using st(4) by auto
  then have mn: "length (customers s0) = length cs" "length (drivers s0) = n" "customers s0 = cs" "reported s0 = []"
    by (simp_all add: initial_state_def)
  obtain ts where "run_schedule ts s0 = (Inr (), s)" using reach_by_schedule[OF assms(3)] by auto
  from run_keeps[OF st(1,2,3) this] show ?thesis
    unfolding mn(1,2,3) start_spec[OF s0(2), of n, symmetric] using mn(4) s0(1) by auto
qed

theorem pizza_refines_witness:
  "reported demo_ready \<noteq> [] \<and>
   spec_run (reported demo_ready) (spec_start 2 1 (\<lambda>i. if i < 2 then c_requests (customers demo ! i) else [])) \<noteq> None"
proof -
  have n: "length (customers demo) = 2" "length (drivers demo) = 1" "reported demo_ready \<noteq> []" by code_simp+
  then show ?thesis using pizza_refines[OF demo_start demo_near demo_reach] by simp
qed

text \<open>
  C40: The matching returns the closest pair: for customers and drivers with coordinates below \<open>2 ^ 30\<close> of
  which at least one each is available, \<^verbatim>\<open>match_delivery\<close> returns an available customer and an available
  driver such that every other available pair is farther apart by the rectilinear distance, or is at the
  same distance and later in the vectors.
\<close>

theorem match_is_closest:
  assumes "\<forall>c \<in> set cs. customer_near c" and "\<forall>d \<in> set ds. near (d_location d)" and "has_available_delivery cs ds"
  shows "\<exists>i j. match_delivery cs ds = Inr ((i, j), [Match (c_id (cs ! i)) (d_id (ds ! j))]) \<and>
    ready_pair cs ds i j \<and>
    (\<forall>i' j'. ready_pair cs ds i' j' \<longrightarrow>
       pair_dist cs ds i j < pair_dist cs ds i' j' \<or>
       pair_dist cs ds i j = pair_dist cs ds i' j' \<and> (i < i' \<or> i = i' \<and> j \<le> j'))"
  using assms by (rule match_delivery_closest)

theorem match_is_closest_witness:
  "\<exists>i j. match_delivery (customers demo_ready) (drivers demo_ready) = Inr ((i, j), [Match i j]) \<and> i = 1 \<and> j = 0"
proof -
  have a: "has_available_delivery (customers demo_ready) (drivers demo_ready)" by code_simp
  have I: "pizza_inv (length (customers demo)) (length (drivers demo)) demo_ready"
    by (rule start_reach[OF demo_start demo_near demo_reach])
  have "projr (match_delivery (customers demo_ready) (drivers demo_ready)) = ((1, 0), [Match 1 0])" by code_simp
  then show ?thesis using match_is_closest[OF inv_near[OF I] a] by auto
qed

text \<open>
  Input is read as it is written: when the number of drivers is a positive \<^verbatim>\<open>int\<close> and every customer file
  holds the requests of that customer as pairs of decimal numbers, the application starts with that many
  drivers at the origin and with these requests, and with every thread at its start.
\<close>

theorem input_round_trip:
  assumes "0 < n" and "n < 2 ^ 31" and "names \<noteq> []" and "length reqs = length names"
    and "\<forall>i < length names. files (names ! i) = Some (concat (map print_request (reqs ! i)))"
  shows "start_pizza files (prog # decimal n # names) =
    Inr (initial_state n (map (\<lambda>i. new_customer i (reqs ! i)) [0..<length names]))"
proof -
  have "create_customers files k names = Inr (map (\<lambda>i. new_customer (k + i) (reqs ! i)) [0..<length names])" for k
    using assms(4,5)
  proof (induction names arbitrary: reqs k)
    case (Cons name names)
    then obtain r rs where r: "reqs = r # rs" "length rs = length names" by (cases reqs) auto
    have f: "files name = Some (concat (map print_request r))"
      "\<forall>i < length names. files (names ! i) = Some (concat (map print_request (rs ! i)))"
      using Cons.prems(2) r(1) by force+
    have "[0..<length (name # names)] = 0 # map Suc [0..<length names]"
      by (simp only: list.size(4) add_Suc_right add_0_right upt_conv_Cons[OF zero_less_Suc] map_Suc_upt)
    then show ?case using Cons.IH[OF r(2) f(2), of "k + 1"] f(1) r(1)
      by (simp del: upt_Suc add: create_requests_def read_requests_file o_def)
  qed simp
  from this[of 0] have "create_customers files 0 names = Inr (map (\<lambda>i. new_customer i (reqs ! i)) [0..<length names])" by simp
  moreover have "load_input (prog # decimal n # names) = Inr (int n, int (length names))"
    using assms(1-3) by (cases names) (simp_all add: load_input_def stoi_decimal Let_def)
  ultimately show ?thesis by (simp add: start_pizza_def)
qed

theorem input_round_trip_witness:
  "start_pizza (\<lambda>_. Some (print_request \<lparr>loc_x = 3, loc_y = 4\<rparr>)) [''pizza'', decimal 1, ''customer.in0''] =
    Inr (initial_state 1 [new_customer 0 [\<lparr>loc_x = 3, loc_y = 4\<rparr>]])"
  using input_round_trip[of 1 "[''customer.in0'']" "[[\<lparr>loc_x = 3, loc_y = 4\<rparr>]]" "\<lambda>_. Some (print_request \<lparr>loc_x = 3, loc_y = 4\<rparr>)"]
  by simp

subsection \<open>Limits\<close>

text \<open>
  A number of drivers that does not fit an \<^verbatim>\<open>int\<close> is not reported: the exception of \<^verbatim>\<open>std::stoi\<close> is not one that
  \<^verbatim>\<open>load_input\<close> catches, and ends the program.
\<close>

lemma large_driver_count_terminates:
  assumes "2 ^ 31 \<le> n"
  shows "load_input (prog # decimal n # names) = Inl (Terminated (Out_of_range ''stoi''))"
  using assms scan_decimal[of "[]" n] by (simp add: load_input_def stoi_def Let_def)

text \<open>
  A customer at the far end of the axis: the difference becomes \<open>-1\<close> as an \<^verbatim>\<open>int\<close>, the distance \<^verbatim>\<open>UINT_MAX\<close>, which
  is not below the start value of the search, so the matching uses a null pointer.
\<close>

lemma far_request_undefined:
  "match_delivery
     [fst (customer_ready_up (new_customer 0 [\<lparr>loc_x = 4294967295, loc_y = 0\<rparr>]))]
     [fst (driver_ready_up (new_driver 0))] = Inl Undefined_behaviour"
  by code_simp

end
