(* ===== verification/Spec2Isabelle.thy ===== *)
theory Spec2Isabelle
  imports Net_Properties Thread_Properties Pager_Properties Pizza_Properties
begin

text \<open>
  \<^bold>\<open>The program.\<close>  The repository holds the projects of an operating systems course: a networked file
  server (\<^verbatim>\<open>src/filesys\<close>), a thread library for several CPUs (\<^verbatim>\<open>src/threadlib\<close>), a pager for virtual memory
  (\<^verbatim>\<open>src/vmpager\<close>), and a pizza delivery application with a thread per driver and customer (\<^verbatim>\<open>src/testapp\<close>),
  which runs on the thread library.  All four are modelled here; the others do not call each other.  They share \<open>Prelude\<close> (results of fallible code, list and map
  lemmas), \<open>Cpp_Lib\<close> (the parts of the C++ and C libraries that the sources use) and \<open>Transition\<close> (reachable
  states, the interface of an inductive invariant, executions and forward simulation).  An operation returns a new state, or the reason
  why it has none: an error of the program, a failed assertion, or undefined behaviour.

  \<^bold>\<open>File server.\<close>
  \<^item> \<open>FS_Types\<close>, \<open>FS_State\<close>: inodes and directory blocks (\<^verbatim>\<open>fs_server.h\<close>, \<^verbatim>\<open>fs_param.h\<close>), the
    disk as the locale \<open>fs_device\<close>, the table of inode locks and the free list (\<^verbatim>\<open>file_system.h\<close>,
    \<^verbatim>\<open>file_lock_guard.h\<close>).  The sources pass the address of a structure to the disk; the layout of the structures in a
    block is stated by \<open>encode_inode\<close>, \<open>encode_dir\<close> and their inverses, which stand for no code.
  \<^item> \<open>FS_Path\<close>, \<open>FS_Core\<close>: path traversal with hand-over-hand locking and the four handlers of
    \<^verbatim>\<open>file_system.cpp\<close>; \<open>FS_Init\<close>: the constructor with its search for free blocks.
  \<^item> \<open>FS_Inv\<close>, \<open>FS_Frame\<close>: the invariant of the disk (a tree of inodes over disjoint blocks, the rest free)
    and what an update of one block leaves alone.  \<open>FS_Abs\<close>: the specification, a tree of directories and
    files with owners.  \<open>FS_Write\<close>, \<open>FS_Create\<close>, \<open>FS_Create_Refine\<close>, \<open>FS_Delete\<close>, \<open>FS_Delete_Refine\<close>: every handler
    keeps the invariant and implements the specification, errors included.
  \<^item> \<open>Net_Parse\<close>, \<open>Net_Server\<close>: messages, their parser and the request loop of \<^verbatim>\<open>network_server.cpp\<close>.
    \<open>Net_Refine\<close>, \<open>Net_Client\<close>: any byte stream is served, and a client that follows the protocol gets the
    answer of the specification.  \<open>Net_Main\<close>: \<^verbatim>\<open>main\<close> and the set-up of the socket.
  \<^item> \<open>FS_Properties\<close> (C7 to C16), \<open>FS_Properties2\<close> (C17 to C22), on the example disk of \<open>FS_Demo\<close>.

  \<^bold>\<open>File server with several threads.\<close>  The server starts a thread for every connection.
  \<^item> \<open>Task\<close>: programs that other threads can interrupt between their steps, and families of them that run in any
    order.  \<open>FS_Threads\<close>: the lock table and the handlers of \<^verbatim>\<open>file_system.cpp\<close> as tasks; a step is a call on the disk,
    a critical section under \<^verbatim>\<open>lock_map_mutex\<close> or \<^verbatim>\<open>free_block_list_mutex\<close>, or the acquisition of a lock on an inode,
    for which a thread may have to wait.  The reader-writer mutex of Boost is the locale \<open>shared_mutex\<close>.
  \<^item> \<open>FS_Ghost\<close>: what each thread holds (locks, blocks off the free list, blocks of a deleted node) and what it may
    rely on; a task is \<open>safe\<close> when each of its steps keeps the invariant of the server and what the other threads
    rely on, and changes the abstract file system exactly once, as its request says.  \<open>FS_Lock_Table\<close>,
    \<open>FS_Rules\<close>, \<open>FS_Block_Rules\<close>: the rules for steps on locks, on the free list and on the disk.  \<open>FS_Walk\<close>: the traversal
    from lock to lock.  \<open>FS_Read_Threads\<close>, \<open>FS_Write_Threads\<close>, \<open>FS_Create_Threads\<close>, \<open>FS_Delete_Threads\<close>: each handler is
    safe.
  \<^item> \<open>FS_System\<close>: the server with its threads (\<open>server_step\<close>), and the atomic server that simulates it.  \<open>FS_Progress\<close>: a
    thread that waits, waits for one deeper in the tree.  \<open>FS_Solo\<close>: tasks that run alone do what the sequential
    model does.  \<open>FS_Concurrent\<close> (C1 to C4): linearizability, no crash, consistency of the disk at every step and no
    deadlock; each step makes the task of its thread smaller, so without new requests the threads come to an end.  A create that finds no free block throws with
    its lock (C22), so the absence of deadlock is shown as long as this has not happened (\<open>leaked\<close>).
  \<^item> \<open>Net_Threads\<close>: the loop of \<^verbatim>\<open>NetworkServer::run\<close>, with a thread per connection that receives and parses its request, runs
    the handler as a task among the others, and replies (\<open>net_step\<close>).  \<^verbatim>\<open>handle_request\<close> is split into these three parts;
    every execution of the network is one of \<open>server_step\<close>.  \<open>Net_Properties\<close> (C5, C6): from \<^verbatim>\<open>main\<close> on, no connection can
    bring the server down, and clients get the answers of the atomic server.

  \<^bold>\<open>Thread library.\<close>
  \<^item> \<open>Thread_Lib\<close>: CPUs, ready queue, threads, mutexes and condition variables (\<^verbatim>\<open>cpu.cpp\<close>, \<^verbatim>\<open>thread.cpp\<close>,
    \<^verbatim>\<open>mutex.cpp\<close>, \<^verbatim>\<open>cv.cpp\<close>, \<^verbatim>\<open>utils.cpp\<close>).  A critical section under \<^verbatim>\<open>os_guard\<close> is one step of the relation
    \<open>step\<close>; steps of the CPUs interleave in any order.
  \<^item> \<open>Thread_Place\<close>, \<open>Thread_Inv\<close>, \<open>Thread_Sched\<close>, \<open>Thread_Ops\<close>: the invariant, and that every critical section
    completes and keeps it.  \<open>Thread_Refine\<close>: FIFO mutexes and condition variables as specifications.
    \<open>Thread_Wake\<close>: no CPU sleeps while work is left.
  \<^item> \<open>Thread_Properties\<close> (C23 to C27).

  \<^bold>\<open>Pager.\<close>
  \<^item> \<open>Pager_State\<close>: page tables, memory blocks, process information and the queues of \<^verbatim>\<open>utils.h\<close>.  Blocks are
    shared by pages, so they live in a store and are named by addresses; a pointer to a page table entry is
    a process and an index.  \<open>Pager_Core\<close>, \<open>Pager_Ops\<close>: every function of \<^verbatim>\<open>utils.cpp\<close> and \<^verbatim>\<open>vm_pager.cpp\<close>, and
    the loads and stores of the MMU as \<^verbatim>\<open>vm_pager.h\<close> documents them.
  \<^item> \<open>Pager_Inv\<close>: the invariant, over the parts of the state, and what the processes see (\<open>arena\<close>: a list of
    private pages with their data and of shared file blocks; \<open>files\<close>).
  \<^item> \<open>Pager_Evict\<close>, \<open>Pager_Cache\<close>, \<open>Pager_Copy\<close>, \<open>Pager_Fault\<close>, \<open>Pager_Access\<close>: eviction, loading, copy on write
    and the fault handler move data and change nothing that is seen; stores change what they should.
    \<open>Pager_Join\<close>, \<open>Pager_Map\<close>, \<open>Pager_Names\<close>: mapping; \<open>Pager_Create\<close>, \<open>Pager_Fork\<close>: creation; \<open>Pager_Leave\<close>,
    \<open>Pager_Destroy\<close>: the end of a process.
  \<^item> \<open>Pager_System\<close>: the calls as a transition system, the locale \<open>pager_infrastructure\<close> with what the files and
    the libraries promise; \<open>Pager_Properties\<close> (C28 to C36), on the runs of \<open>Pager_Demo\<close>.

  \<^bold>\<open>Pizza application.\<close>
  \<^item> \<open>Pizza_Types\<close>: locations, customers and drivers with their methods (\<^verbatim>\<open>customer.cpp\<close>, \<^verbatim>\<open>driver.cpp\<close>,
    \<^verbatim>\<open>constants.h\<close>); a member that a constructor leaves unset is \<open>None\<close>.  The functions of \<^verbatim>\<open>pizza.h\<close>, whose code is
    not in the repository, report events.  \<open>Pizza_Match\<close>, \<open>Pizza_Input\<close>: distances, the search for the closest
    pair, request files and the command line (\<^verbatim>\<open>utils.cpp\<close>).
  \<^item> \<open>Pizza_System\<close>: the threads of \<^verbatim>\<open>main.cpp\<close> as the transition system \<open>pizza_step\<close>, one step per stretch between
    two blocking calls, in any order; mutex and condition variables are a holder and queues, as C25 and C26
    show of the library.  \<open>Pizza_Spec\<close>: the sequences of events that the application may report.
  \<^item> \<open>Pizza_View\<close>, \<open>Pizza_Inv\<close>, \<open>Pizza_Turns\<close>, \<open>Pizza_Progress\<close>, \<open>Pizza_Runs\<close>: what each turn changes, the invariant
    (matched customers and drivers belong to each other, nobody waits for a signal that is past), a bound on
    the work that is left, and what holds when no thread can run.  \<open>Pizza_Properties\<close> (C37 to C40).

  \<^bold>\<open>Bounds.\<close>  Loops of the sources are total functions: the clock ends because each turn clears a mark, the
  search for free blocks because blocks are not visited twice, the reader of a file name because a pointer
  has 64 bits.  The request loop of the server ends with the stream.  Block numbers, sizes and page numbers
  wrap around where the C++ types do (\<open>bits30\<close>, \<open>phys_page\<close>, \<open>addr_to_index\<close>, \<open>axis_dist\<close>); the pager theorems assume at
  most $2^{16}$ pages of memory, since beyond that the offset of a page wraps around in the code, and the pizza
  theorems coordinates below $2^{30}$, since beyond that a distance may not fit an \<^verbatim>\<open>int\<close> (\<open>far_request_undefined\<close>).
  The turns of the pizza threads are not limited by fuel: C37 bounds their number.

  \<^bold>\<open>Parameters.\<close>  The disk of the file server, the sockets, the files behind the pager and of the pizza application and the order of an
  \<^verbatim>\<open>unordered_set\<close> belong to code outside the repository; they are arguments, with their documented behaviour
  as the assumptions of the locales \<open>fs_device\<close>, \<open>shared_mutex\<close>, \<open>reliable_socket\<close>, \<open>backing_store\<close> and \<open>pager_infrastructure\<close>.
  The constructor of \<^verbatim>\<open>kernel_process_info\<close> does not set the counter \<^verbatim>\<open>num_swap_blocks\<close>.  The value that it happens to
  have is an argument of \<open>vm_create\<close>; \<open>pager_infrastructure\<close> assumes only that it does not wrap around when the pages of one
  arena are added to it.  C32 shows what the value does to a fork; \<open>fork_fails_on_garbage\<close> and
  \<open>garbage_pops_empty_queue\<close> of \<open>Pager_Properties\<close> are the consequences of a large one.

  \<^bold>\<open>Not modelled.\<close>  The single calls on a socket as steps of their own among the threads (a connection is used by its own
  thread only, so receiving a request is one step, and so is sending the reply); the calls of the operating system behind
  sockets; the copy of a new customer with unset members in \<^verbatim>\<open>main.cpp\<close> 142 of the pizza application; the
  machine contexts and stacks of threads; allocation failures; the pizza application on several CPUs or with
  timer interrupts, which its \<^verbatim>\<open>main\<close> does not use; test programs, the race example and files generated by CMake.
\<close>

end
